(* ===== verification/LA_Prelude.thy ===== *)
theory LA_Prelude
  imports Main "HOL-Library.Word" "HOL-Library.Monad_Syntax"
begin

text \<open>
  Shared vocabulary of the development: bytes, C strings and machine-size arithmetic,
  heap blocks with explicit out-of-bounds accesses, the allocator the code runs on, the
  big- and little-endian renderings of integers, and the generic lemmas about them.

  Conventions used everywhere:
  \<^item> a heap block is a \<open>byte list\<close>; reading or writing outside it is undefined behaviour
    in C and is the value \<open>None\<close> here, so that a function of type \<open>\<dots> option\<close> returns
    \<open>Some\<close> exactly when every access stayed inside its block;
  \<^item> a \<open>size_t\<close> is a \<open>nat\<close> whose arithmetic wraps modulo \<open>2 ^ 64\<close> explicitly;
  \<^item> counters whose wrap-around is part of the data (sequence numbers, revision counts)
    are machine words;
  \<^item> the C library's allocator is an argument: which requests it grants, what a fresh
    byte contains, and how many spare bytes follow a block.
\<close>

named_theorems mem_simps \<open>reading and writing inside a block\<close>
named_theorems size_simps \<open>machine-size arithmetic without wrap-around\<close>

type_synonym byte = "8 word"
type_synonym u64 = "64 word"

section \<open>Machine-size arithmetic\<close>

abbreviation size_max :: nat where
  "size_max \<equiv> 2 ^ 64"

definition add_sz :: "nat \<Rightarrow> nat \<Rightarrow> nat" where
  "add_sz a b = (a + b) mod size_max"

definition sub_sz :: "nat \<Rightarrow> nat \<Rightarrow> nat" where
  "sub_sz a b = (a + size_max - b mod size_max) mod size_max"

lemma add_sz_small [size_simps]: "a + b < size_max \<Longrightarrow> add_sz a b = a + b"
  by (simp add: add_sz_def)

lemma add_sz_less [simp]: "add_sz a b < size_max"
  by (simp add: add_sz_def)

lemma sub_sz_small [size_simps]:
  assumes "b \<le> a" "a < size_max"
  shows "sub_sz a b = a - b"
proof -
  have b: "b mod size_max = b" using assms by simp
  have "a + size_max - b = (a - b) + size_max" using assms by linarith
  then have "sub_sz a b = (a - b + size_max) mod size_max" by (simp only: sub_sz_def b)
  also have "\<dots> = (a - b) mod size_max" by (rule mod_add_self2)
  also have "\<dots> = a - b" using assms by (intro mod_less) linarith
  finally show ?thesis .
qed

lemma sub_sz_wraps:
  assumes "a < b" "b < size_max"
  shows "sub_sz a b = a + size_max - b"
  using assms by (simp add: sub_sz_def)

section \<open>Heap blocks\<close>

definition mem_read :: "'a list \<Rightarrow> nat \<Rightarrow> nat \<Rightarrow> 'a list option" where
  "mem_read m off n = (if off + n \<le> length m then Some (take n (drop off m)) else None)"

definition mem_write :: "'a list \<Rightarrow> nat \<Rightarrow> 'a list \<Rightarrow> 'a list option" where
  "mem_write m off xs =
     (if off + length xs \<le> length m
      then Some (take off m @ xs @ drop (off + length xs) m) else None)"

text \<open>\<open>memmove\<close> inside one block: the source is read completely before it is written.\<close>

definition mem_move :: "'a list \<Rightarrow> nat \<Rightarrow> nat \<Rightarrow> nat \<Rightarrow> 'a list option" where
  "mem_move m dst src n = Option.bind (mem_read m src n) (mem_write m dst)"

lemma mem_read_inside [mem_simps]:
  "off + n \<le> length m \<Longrightarrow> mem_read m off n = Some (take n (drop off m))"
  by (simp add: mem_read_def)

lemma mem_read_outside [mem_simps]: "length m < off + n \<Longrightarrow> mem_read m off n = None"
  by (simp add: mem_read_def)

lemma mem_write_inside [mem_simps]:
  "off + length xs \<le> length m \<Longrightarrow>
   mem_write m off xs = Some (take off m @ xs @ drop (off + length xs) m)"
  by (simp add: mem_write_def)

lemma mem_write_outside [mem_simps]: "length m < off + length xs \<Longrightarrow> mem_write m off xs = None"
  by (simp add: mem_write_def)

lemma mem_read_length: "mem_read m off n = Some xs \<Longrightarrow> length xs = n"
  by (auto simp: mem_read_def split: if_splits)

lemma mem_write_length: "mem_write m off xs = Some m' \<Longrightarrow> length m' = length m"
  by (auto simp: mem_write_def split: if_splits)

lemma mem_move_inside [mem_simps]:
  "dst + n \<le> length m \<Longrightarrow> src + n \<le> length m \<Longrightarrow>
   mem_move m dst src n = Some (take dst m @ take n (drop src m) @ drop (dst + n) m)"
  by (simp add: mem_move_def mem_read_def mem_write_def)

lemma mem_move_length: "mem_move m dst src n = Some m' \<Longrightarrow> length m' = length m"
  by (auto simp: mem_move_def bind_eq_Some_conv dest: mem_write_length)

lemma mem_write_Some_iff: "(\<exists>m'. mem_write m off xs = Some m') = (off + length xs \<le> length m)"
  by (simp add: mem_write_def)

lemma take_write:
  "off \<le> length m \<Longrightarrow> length xs = n \<Longrightarrow> take (off + n) (take off m @ xs @ ys) = take off m @ xs"
  by (simp add: min_def)

lemma take_write_more:
  "off \<le> length m \<Longrightarrow> length xs = n \<Longrightarrow>
   take (off + n + k) (take off m @ xs @ ys) = take off m @ xs @ take k ys"
  by (simp add: min_def)

lemma take_take_le: "n \<le> m \<Longrightarrow> take m xs = take m ys \<Longrightarrow> take n xs = take n ys"
  by (metis min.absorb1 take_take)

section \<open>The allocator\<close>

text \<open>
  \<open>grant n\<close>: a request for \<open>n\<close> bytes succeeds. \<open>junk i\<close>: the indeterminate content of a
  fresh byte at offset \<open>i\<close>. \<open>slack n\<close>: the bytes beyond \<open>n\<close> that really belong to a block
  of \<open>n\<close> bytes (a strictly conforming program may not rely on any, so the exact allocator
  has \<open>slack = 0\<close>; real allocators round up).
\<close>

record allocator =
  grant :: "nat \<Rightarrow> bool"
  junk :: "nat \<Rightarrow> byte"
  slack :: "nat \<Rightarrow> nat"

definition malloc :: "allocator \<Rightarrow> nat \<Rightarrow> byte list option" where
  "malloc A n = (if grant A n then Some (map (junk A) [0..<n + slack A n]) else None)"

definition realloc :: "allocator \<Rightarrow> byte list \<Rightarrow> nat \<Rightarrow> byte list option" where
  "realloc A p n =
     (if grant A n
      then Some (take (n + slack A n) p @ map (junk A) [length p..<n + slack A n])
      else None)"

text \<open>
  No block is as large as \<open>2 ^ 63\<close> bytes (an object larger than \<open>PTRDIFF_MAX\<close> does not
  exist), which is what keeps the code's size computations from wrapping.
\<close>

definition allocator_sane :: "allocator \<Rightarrow> bool" where
  "allocator_sane A = (\<forall>n. grant A n \<longrightarrow> n + slack A n < 2 ^ 63)"

text \<open>
  Two concrete allocators: both grant every request below \<open>2 ^ 62\<close> bytes with zeroed
  memory; the first hands out exact blocks, the second adds \<open>k\<close> spare bytes.
\<close>

definition exact_allocator :: allocator where
  "exact_allocator = \<lparr>grant = (\<lambda>n. n < 2 ^ 62), junk = (\<lambda>_. 0), slack = (\<lambda>_. 0)\<rparr>"

definition spare_allocator :: "nat \<Rightarrow> allocator" where
  "spare_allocator k = \<lparr>grant = (\<lambda>n. n < 2 ^ 62), junk = (\<lambda>_. 0), slack = (\<lambda>_. k)\<rparr>"

lemma spare_malloc: "n < 2 ^ 62 \<Longrightarrow> malloc (spare_allocator k) n = Some (replicate (n + k) 0)"
  by (simp add: malloc_def spare_allocator_def map_replicate_const)

lemma exact_allocator_simps [simp]:
  "grant exact_allocator n = (n < 2 ^ 62)" "junk exact_allocator i = 0" "slack exact_allocator n = 0"
  by (simp_all add: exact_allocator_def)

lemma spare_allocator_simps [simp]:
  "grant (spare_allocator k) n = (n < 2 ^ 62)" "junk (spare_allocator k) i = 0"
  "slack (spare_allocator k) n = k"
  by (simp_all add: spare_allocator_def)

lemma exact_allocator_sane [simp]: "allocator_sane exact_allocator"
  by (simp add: allocator_sane_def)

lemma malloc_length: "malloc A n = Some p \<Longrightarrow> length p = n + slack A n"
  by (auto simp: malloc_def split: if_splits)

lemma realloc_length: "realloc A p n = Some q \<Longrightarrow> length q = n + slack A n"
  by (auto simp: realloc_def split: if_splits)

lemma malloc_granted: "grant A n \<Longrightarrow> \<exists>p. malloc A n = Some p \<and> n \<le> length p"
  by (simp add: malloc_def)

lemma realloc_granted: "grant A n \<Longrightarrow> \<exists>q. realloc A p n = Some q \<and> n \<le> length q"
  using realloc_length [of A p n] by (cases "realloc A p n") (auto simp: realloc_def)

lemma realloc_keeps:
  "realloc A p n = Some q \<Longrightarrow> k \<le> n \<Longrightarrow> k \<le> length p \<Longrightarrow> take k q = take k p"
  by (auto simp: realloc_def min_def split: if_splits)

section \<open>Little-endian integers\<close>

primrec le_bytes :: "nat \<Rightarrow> nat \<Rightarrow> byte list" where
  "le_bytes 0 x = []"
| "le_bytes (Suc n) x = word_of_nat (x mod 256) # le_bytes n (x div 256)"

primrec of_le :: "byte list \<Rightarrow> nat" where
  "of_le [] = 0"
| "of_le (b # bs) = unat b + 256 * of_le bs"

lemma length_le_bytes [simp]: "length (le_bytes n x) = n"
  by (induction n arbitrary: x) simp_all

lemma of_le_le_bytes: "of_le (le_bytes n x) = x mod 256 ^ n"
proof (induction n arbitrary: x)
  case (Suc n)
  have "unat (word_of_nat (x mod 256) :: byte) = x mod 256" by (simp add: unat_of_nat)
  then show ?case using Suc by (simp add: mod_mult2_eq add.commute mult.commute)
qed simp

lemma of_le_less: "of_le bs < 256 ^ length bs"
proof (induction bs)
  case (Cons b bs)
  have "unat b < 256" using unsigned_less [where 'a = nat, of b] by simp
  moreover have "256 * Suc (of_le bs) \<le> 256 * 256 ^ length bs"
    using Cons by (intro mult_le_mono2) simp
  ultimately show ?case by simp
qed simp

lemma le_bytes_of_le: "le_bytes (length bs) (of_le bs) = bs"
proof (induction bs)
  case (Cons b bs)
  have "unat b < 256" using unsigned_less [where 'a = nat, of b] by simp
  with Cons show ?case by simp
qed simp

lemma word64_of_le [simp]: "word_of_nat (of_le (le_bytes 8 (unat (x :: u64)))) = x"
proof -
  have "unat x < 256 ^ 8" using unsigned_less [where 'a = nat, of x] by simp
  then show ?thesis by (simp add: of_le_le_bytes)
qed

end
