(* ===== verification/LA_Fcgi.thy ===== *)
theory LA_Fcgi
  imports LA_Prelude
begin

text \<open>
  The FastCGI application library of the FastCGI front end (\<open>loungeact_fastcgi/fcgiapp.c\<close>,
  \<open>fastcgi.h\<close>, \<open>fcgiapp.h\<close>) and the part of its system layer that it calls (\<open>os_unix.c\<close>): the records of
  the protocol, streams that read and write them, name-value parameters, and requests.

  A stream is a record with its \<open>FCGX_Stream_Data\<close>; the pointers into its buffer are offsets from
  \<open>data->buff\<close>. Functions of a stream thread the stream, the request its \<open>reqDataPtr\<close> points to and the
  system. The system calls and the allocator are arguments (record \<open>os_lib\<close>). \<open>None\<close> is undefined
  behaviour, an assertion that fails (the process aborts), or a loop that does not end.
\<close>

section \<open>Records of the protocol\<close>

record FCGI_Header =
  h_version :: byte
  h_type :: byte
  h_requestIdB1 :: byte
  h_requestIdB0 :: byte
  h_contentLengthB1 :: byte
  h_contentLengthB0 :: byte
  h_paddingLength :: byte
  h_reserved :: byte

definition FCGI_MAX_LENGTH :: int where "FCGI_MAX_LENGTH = 65535"
definition FCGI_HEADER_LEN :: nat where "FCGI_HEADER_LEN = 8"
definition FCGI_VERSION_1 :: byte where "FCGI_VERSION_1 = 1"
definition FCGI_BEGIN_REQUEST :: int where "FCGI_BEGIN_REQUEST = 1"
definition FCGI_END_REQUEST :: int where "FCGI_END_REQUEST = 3"
definition FCGI_PARAMS :: int where "FCGI_PARAMS = 4"
definition FCGI_STDIN :: int where "FCGI_STDIN = 5"
definition FCGI_STDOUT :: int where "FCGI_STDOUT = 6"
definition FCGI_STDERR :: int where "FCGI_STDERR = 7"
definition FCGI_DATA :: int where "FCGI_DATA = 8"
definition FCGI_GET_VALUES :: int where "FCGI_GET_VALUES = 9"
definition FCGI_GET_VALUES_RESULT :: int where "FCGI_GET_VALUES_RESULT = 10"
definition FCGI_UNKNOWN_TYPE :: int where "FCGI_UNKNOWN_TYPE = 11"
definition FCGI_NULL_REQUEST_ID :: int where "FCGI_NULL_REQUEST_ID = 0"

lemmas fcgi_types =
  FCGI_BEGIN_REQUEST_def FCGI_END_REQUEST_def FCGI_PARAMS_def FCGI_STDIN_def FCGI_STDOUT_def FCGI_STDERR_def
  FCGI_DATA_def FCGI_GET_VALUES_def FCGI_GET_VALUES_RESULT_def FCGI_UNKNOWN_TYPE_def FCGI_NULL_REQUEST_ID_def

definition FCGX_UNSUPPORTED_VERSION :: int where "FCGX_UNSUPPORTED_VERSION = -2"
definition FCGX_PROTOCOL_ERROR :: int where "FCGX_PROTOCOL_ERROR = -3"
definition FCGX_PARAMS_ERROR :: int where "FCGX_PARAMS_ERROR = -4"
definition FCGX_CALL_SEQ_ERROR :: int where "FCGX_CALL_SEQ_ERROR = -5"

abbreviation EOF :: int where "EOF \<equiv> -1"

text \<open>The bytes of a header in memory, and the header eight bytes stand for.\<close>

definition header_bytes :: "FCGI_Header \<Rightarrow> byte list" where
  "header_bytes h =
     [h_version h, h_type h, h_requestIdB1 h, h_requestIdB0 h, h_contentLengthB1 h, h_contentLengthB0 h,
      h_paddingLength h, h_reserved h]"

definition header_of :: "byte list \<Rightarrow> FCGI_Header" where
  "header_of bs =
     \<lparr>h_version = bs ! 0, h_type = bs ! 1, h_requestIdB1 = bs ! 2, h_requestIdB0 = bs ! 3,
      h_contentLengthB1 = bs ! 4, h_contentLengthB0 = bs ! 5, h_paddingLength = bs ! 6, h_reserved = bs ! 7\<rparr>"

text \<open>\<open>(unsigned char)((x >> n) & 0xff)\<close> of an \<open>int\<close>.\<close>

definition byte_at :: "int \<Rightarrow> nat \<Rightarrow> byte" where
  "byte_at x n = word_of_int (x div 2 ^ n)"

definition MakeHeader :: "int \<Rightarrow> int \<Rightarrow> int \<Rightarrow> int \<Rightarrow> FCGI_Header option" where
  "MakeHeader type requestId contentLength paddingLength =
     (if 0 \<le> contentLength \<and> contentLength \<le> FCGI_MAX_LENGTH \<and> 0 \<le> paddingLength \<and> paddingLength \<le> 255
      then Some
        \<lparr>h_version = FCGI_VERSION_1, h_type = byte_at type 0,
         h_requestIdB1 = byte_at requestId 8, h_requestIdB0 = byte_at requestId 0,
         h_contentLengthB1 = byte_at contentLength 8, h_contentLengthB0 = byte_at contentLength 0,
         h_paddingLength = byte_at paddingLength 0, h_reserved = 0\<rparr>
      else None)"

text \<open>The bytes of an \<open>FCGI_EndRequestBody\<close> and of an \<open>FCGI_UnknownTypeBody\<close>.\<close>

definition MakeEndRequestBody :: "int \<Rightarrow> int \<Rightarrow> byte list" where
  "MakeEndRequestBody appStatus protocolStatus =
     [byte_at appStatus 24, byte_at appStatus 16, byte_at appStatus 8, byte_at appStatus 0,
      byte_at protocolStatus 0, 0, 0, 0]"

definition MakeUnknownTypeBody :: "int \<Rightarrow> byte list" where
  "MakeUnknownTypeBody type = byte_at type 0 # replicate 7 0"

text \<open>The unsigned addition wraps at 32 bits, that of addresses at 64.\<close>

definition AlignInt8 :: "int \<Rightarrow> int" where
  "AlignInt8 n = sint (and (word_of_int n + 7) (not 7) :: 32 word)"

definition AlignPtr8 :: "u64 \<Rightarrow> u64" where
  "AlignPtr8 p = p + (and (p + 7) (not 7) - p)"

section \<open>The system\<close>

text \<open>
  \<open>read_op\<close>: the bytes read, none at the end of the input, or failure; \<open>write_op\<close>: the count written or
  failure; \<open>accept_op\<close>: the descriptor, and whether the peer's address is of the family \<open>AF_INET\<close> with
  its address or \<open>AF_UNIX\<close>; \<open>select_op\<close>: whether the descriptor becomes readable in two seconds;
  \<open>alloc_op\<close>: the address and the bytes of a block; \<open>realloc_op\<close>: whether the block can grow;
  \<open>stack_junk\<close>: what an uninitialised array on the stack holds.
\<close>

datatype sockaddr = AF_INET u64 | AF_UNIX | AF_OTHER

record 'w os_lib =
  read_op :: "int \<Rightarrow> nat \<Rightarrow> 'w \<Rightarrow> byte list option \<times> 'w"
  write_op :: "int \<Rightarrow> byte list \<Rightarrow> 'w \<Rightarrow> nat option \<times> 'w"
  accept_op :: "int \<Rightarrow> 'w \<Rightarrow> (int \<times> sockaddr) option \<times> 'w"
  select_op :: "int \<Rightarrow> 'w \<Rightarrow> bool \<times> 'w"
  shutdown_op :: "int \<Rightarrow> 'w \<Rightarrow> bool \<times> 'w"
  close_op :: "int \<Rightarrow> 'w \<Rightarrow> int \<times> 'w"
  errno_of :: "'w \<Rightarrow> int"
  set_errno :: "int \<Rightarrow> 'w \<Rightarrow> 'w"
  shutdown_pending :: "'w \<Rightarrow> bool"
  inet_addr :: "byte list \<Rightarrow> u64"
  alloc_op :: "nat \<Rightarrow> 'w \<Rightarrow> (u64 \<times> byte list) option \<times> 'w"
  realloc_op :: "nat \<Rightarrow> 'w \<Rightarrow> bool \<times> 'w"
  stack_junk :: "nat \<Rightarrow> byte"

text \<open>\<open>shutdownNow\<close> is never set, so that reading and writing pass through.\<close>

definition OS_Read :: "'w os_lib \<Rightarrow> int \<Rightarrow> nat \<Rightarrow> 'w \<Rightarrow> byte list option \<times> 'w" where
  "OS_Read L fd len w = read_op L fd len w"

definition OS_Write :: "'w os_lib \<Rightarrow> int \<Rightarrow> byte list \<Rightarrow> 'w \<Rightarrow> nat option \<times> 'w" where
  "OS_Write L fd buf w = write_op L fd buf w"

text \<open>The result is negative exactly after a failure. A count beyond the block leads outside it.\<close>

partial_function (option) write_it_all :: "'w os_lib \<Rightarrow> int \<Rightarrow> byte list \<Rightarrow> 'w \<Rightarrow> (bool \<times> 'w) option" where
  "write_it_all L fd buf w =
     (if buf = [] then Some (True, w)
      else (case OS_Write L fd buf w of
              (None, w1) \<Rightarrow> Some (False, w1)
            | (Some wrote, w1) \<Rightarrow>
                if wrote \<le> length buf then write_it_all L fd (drop wrote buf) w1 else None))"

text \<open>An allocation that fails aborts.\<close>

definition Malloc :: "'w os_lib \<Rightarrow> nat \<Rightarrow> 'w \<Rightarrow> ((u64 \<times> byte list) \<times> 'w) option" where
  "Malloc L n w =
     (case alloc_op L n w of
        (Some p, w1) \<Rightarrow> Some (p, w1)
      | (None, w1) \<Rightarrow> if n = 0 then Some ((0, []), w1) else None)"


section \<open>Streams and requests\<close>

text \<open>
  \<open>buff\<close> are the bytes from \<open>data->buff\<close> to the end of the block behind it; \<open>stopUnget\<close> is NULL in a
  writer. The parameters are a vector of blocks; \<open>cur\<close> points behind the last.
\<close>

record FCGX_Stream_Data =
  buff :: "byte list"
  bufflen :: nat
  buffStop :: nat
  st_type :: int
  eorStop :: bool
  skip :: bool
  contentLen :: nat
  paddingLen :: nat
  isAnythingWritten :: bool
  rawWrite :: bool

record FCGX_Stream = FCGX_Stream_Data +
  rdNext :: nat
  wrNext :: nat
  stop :: nat
  stopUnget :: "nat option"
  isReader :: bool
  isClosed :: bool
  wasFCloseCalled :: bool
  FCGI_errno :: int

record Params =
  vec :: "byte list list"
  vec_length :: nat

record FCGX_Request =
  requestId :: int
  role :: int
  rq_in :: "FCGX_Stream option"
  rq_out :: "FCGX_Stream option"
  rq_err :: "FCGX_Stream option"
  envp :: "byte list list option"
  paramsPtr :: "Params option"
  ipcFd :: int
  isBeginProcessed :: bool
  keepConnection :: int
  appStatus :: int
  nWriters :: int
  rq_flags :: int
  listen_sock :: int

type_synonym 'w io = "FCGX_Stream \<times> FCGX_Request \<times> 'w"

definition sizeof_FCGX_Stream :: nat where "sizeof_FCGX_Stream = 72"
definition sizeof_FCGX_Stream_Data :: nat where "sizeof_FCGX_Stream_Data = 72"
definition sizeof_FCGX_Request :: nat where "sizeof_FCGX_Request = 80"
definition sizeof_Params :: nat where "sizeof_Params = 24"

text \<open>The first error is kept; a stream with an error is closed.\<close>

definition SetError :: "int \<Rightarrow> FCGX_Stream \<Rightarrow> FCGX_Stream" where
  "SetError e s = s\<lparr>FCGI_errno := (if FCGI_errno s = 0 then e else FCGI_errno s), isClosed := True\<rparr>"

definition FCGX_GetError :: "FCGX_Stream \<Rightarrow> int" where
  "FCGX_GetError s = FCGI_errno s"

definition FCGX_ClearError :: "FCGX_Stream \<Rightarrow> FCGX_Stream" where
  "FCGX_ClearError s = s\<lparr>FCGI_errno := 0\<rparr>"

definition FCGX_HasSeenEOF :: "FCGX_Stream \<Rightarrow> int" where
  "FCGX_HasSeenEOF s = (if isClosed s then EOF else 0)"

section \<open>Reading\<close>

text \<open>The procedure \<open>fillBuffProc\<close> of the stream is the argument \<open>fill\<close>.\<close>

definition next_byte :: "FCGX_Stream \<Rightarrow> (int \<times> FCGX_Stream) option" where
  "next_byte s = map_option (\<lambda>bs. (uint (bs ! 0), s\<lparr>rdNext := rdNext s + 1\<rparr>)) (mem_read (buff s) (rdNext s) 1)"

definition FCGX_GetChar :: "('w io \<Rightarrow> 'w io option) \<Rightarrow> 'w io \<Rightarrow> (int \<times> 'w io) option" where
  "FCGX_GetChar fill \<sigma> =
     (case \<sigma> of (s, q, w) \<Rightarrow>
        if isClosed s \<or> \<not> isReader s then Some (EOF, s, q, w)
        else if rdNext s \<noteq> stop s then map_option (\<lambda>(c, s1). (c, s1, q, w)) (next_byte s)
        else do {
          (s1, q1, w1) \<leftarrow> fill (s, q, w);
          if isClosed s1 then Some (EOF, s1, q1, w1)
          else if rdNext s1 \<noteq> stop s1
          then map_option (\<lambda>(c, s2). (c, s2, q1, w1)) (next_byte (s1\<lparr>stopUnget := Some (rdNext s1)\<rparr>))
          else None })"

text \<open>The bytes that are there, at most \<open>n\<close>.\<close>

definition take_ready :: "nat \<Rightarrow> FCGX_Stream \<Rightarrow> (byte list \<times> FCGX_Stream) option" where
  "take_ready n s =
     (let m = min n (stop s - rdNext s) in
      map_option (\<lambda>bs. (bs, s\<lparr>rdNext := rdNext s + m\<rparr>)) (mem_read (buff s) (rdNext s) m))"

partial_function (option) get_str_loop ::
  "('w io \<Rightarrow> 'w io option) \<Rightarrow> nat \<Rightarrow> byte list \<Rightarrow> 'w io \<Rightarrow> (byte list \<times> 'w io) option" where
  "get_str_loop fill n moved \<sigma> =
     (case \<sigma> of (s, q, w) \<Rightarrow> do {
        (bs, s1) \<leftarrow> take_ready (n - length moved) s;
        if length (moved @ bs) = n then Some (moved @ bs, s1, q, w)
        else if isClosed s1 \<or> \<not> isReader s1 then Some (moved @ bs, s1, q, w)
        else do {
          (s2, q2, w2) \<leftarrow> fill (s1, q, w);
          if isClosed s2 then Some (moved @ bs, s2, q2, w2)
          else get_str_loop fill n (moved @ bs) (s2\<lparr>stopUnget := Some (rdNext s2)\<rparr>, q2, w2) } })"

text \<open>The bytes moved to the caller's array; their number is the result.\<close>

definition FCGX_GetStr :: "('w io \<Rightarrow> 'w io option) \<Rightarrow> int \<Rightarrow> 'w io \<Rightarrow> (byte list \<times> 'w io) option" where
  "FCGX_GetStr fill n \<sigma> =
     (case \<sigma> of (s, q, w) \<Rightarrow>
        if isClosed s \<or> \<not> isReader s \<or> n \<le> 0 then Some ([], s, q, w)
        else if n \<le> int (stop s) - int (rdNext s)
        then map_option (\<lambda>(bs, s1). (bs, s1, q, w)) (take_ready (nat n) s)
        else get_str_loop fill (nat n) [] (s, q, w))"

text \<open>The bytes of a line, and whether the end was seen before the first; \<open>n\<close> counts down.\<close>

fun get_line_loop ::
  "('w io \<Rightarrow> 'w io option) \<Rightarrow> nat \<Rightarrow> byte list \<Rightarrow> 'w io \<Rightarrow> (byte list option \<times> 'w io) option" where
  "get_line_loop fill 0 line \<sigma> = Some (Some line, \<sigma>)"
| "get_line_loop fill (Suc n) line \<sigma> = do {
     (c, \<sigma>1) \<leftarrow> FCGX_GetChar fill \<sigma>;
     if c = EOF then Some (if line = [] then None else Some line, \<sigma>1)
     else if c = 10 then Some (Some (line @ [word_of_int c]), \<sigma>1)
     else get_line_loop fill n (line @ [word_of_int c]) \<sigma>1 }"

text \<open>The caller's array is the block \<open>str\<close>; the inner result is NULL or the array.\<close>

definition FCGX_GetLine ::
  "('w io \<Rightarrow> 'w io option) \<Rightarrow> byte list \<Rightarrow> int \<Rightarrow> 'w io \<Rightarrow> (byte list option \<times> 'w io) option" where
  "FCGX_GetLine fill str n \<sigma> = do {
     (line, \<sigma>1) \<leftarrow> get_line_loop fill (nat (n - 1)) [] \<sigma>;
     (case line of
        None \<Rightarrow> Some (None, \<sigma>1)
      | Some bs \<Rightarrow> map_option (\<lambda>str1. (Some str1, \<sigma>1)) (mem_write str 0 (bs @ [0]))) }"

definition FCGX_UnGetChar :: "int \<Rightarrow> FCGX_Stream \<Rightarrow> (int \<times> FCGX_Stream) option" where
  "FCGX_UnGetChar c s =
     (if c = EOF \<or> isClosed s \<or> \<not> isReader s \<or> Some (rdNext s) = stopUnget s then Some (EOF, s)
      else if rdNext s = 0 then None
      else map_option (\<lambda>b. (c, s\<lparr>rdNext := rdNext s - 1, buff := b\<rparr>))
             (mem_write (buff s) (rdNext s - 1) [word_of_int c]))"

section \<open>Writing\<close>

text \<open>
  \<open>EmptyBuffProc\<close>: the buffered content becomes a record, padded to a multiple of eight bytes; then the
  closing records, when asked for, are put behind it; then everything is written. What happens in
  between is the argument \<open>closing\<close>.
\<close>

definition encapsulate :: "FCGX_Stream \<Rightarrow> FCGX_Request \<Rightarrow> FCGX_Stream option" where
  "encapsulate s q =
     (if rawWrite s then Some s
      else
        let cLen = int (wrNext s) - int FCGI_HEADER_LEN in
        if 0 < cLen then do {
          let eLen = AlignInt8 cLen;
          padded \<leftarrow> mem_write (buff s) (wrNext s) (replicate (nat (eLen - cLen)) 0);
          h \<leftarrow> MakeHeader (st_type s) (requestId q) cLen (eLen - cLen);
          b \<leftarrow> mem_write padded 0 (header_bytes h);
          Some (s\<lparr>buff := b, wrNext := wrNext s + nat (eLen - cLen)\<rparr>) }
        else Some (s\<lparr>wrNext := 0\<rparr>))"

definition reserve_header :: "FCGX_Stream \<Rightarrow> FCGX_Stream" where
  "reserve_header s = (if rawWrite s then s else s\<lparr>wrNext := wrNext s + FCGI_HEADER_LEN\<rparr>)"

definition empty_with :: "'w os_lib \<Rightarrow> ('w io \<Rightarrow> 'w io option) \<Rightarrow> 'w io \<Rightarrow> 'w io option" where
  "empty_with L closing \<sigma> =
     (case \<sigma> of (s, q, w) \<Rightarrow> do {
        s1 \<leftarrow> encapsulate s q;
        (s2, q2, w2) \<leftarrow> closing (s1, q, w);
        if wrNext s2 \<noteq> 0 then do {
          bs \<leftarrow> mem_read (buff s2) 0 (wrNext s2);
          (ok, w3) \<leftarrow> write_it_all L (ipcFd q2) bs w2;
          if \<not> ok then Some (SetError (errno_of L w3) (s2\<lparr>isAnythingWritten := True\<rparr>), q2, w3)
          else Some (reserve_header (s2\<lparr>isAnythingWritten := True, wrNext := 0\<rparr>), q2, w3) }
        else Some (reserve_header s2, q2, w2) })"

text \<open>The procedure \<open>emptyBuffProc\<close> of a writer, called to empty the buffer and not to close.\<close>

definition flush_buffer :: "'w os_lib \<Rightarrow> 'w io \<Rightarrow> 'w io option" where
  "flush_buffer L = empty_with L Some"

definition FCGX_PutChar :: "'w os_lib \<Rightarrow> int \<Rightarrow> 'w io \<Rightarrow> (int \<times> 'w io) option" where
  "FCGX_PutChar L c \<sigma> =
     (case \<sigma> of (s, q, w) \<Rightarrow>
        let put = (\<lambda>s. map_option (\<lambda>b. (uint (word_of_int c :: byte), s\<lparr>buff := b, wrNext := wrNext s + 1\<rparr>))
                         (mem_write (buff s) (wrNext s) [word_of_int c])) in
        if wrNext s \<noteq> stop s then map_option (\<lambda>(r, s1). (r, s1, q, w)) (put s)
        else if isClosed s \<or> isReader s then Some (EOF, s, q, w)
        else do {
          (s1, q1, w1) \<leftarrow> flush_buffer L (s, q, w);
          if wrNext s1 \<noteq> stop s1 then map_option (\<lambda>(r, s2). (r, s2, q1, w1)) (put s1)
          else if isClosed s1 then Some (EOF, s1, q1, w1) else None })"

definition put_ready :: "byte list \<Rightarrow> FCGX_Stream \<Rightarrow> FCGX_Stream option" where
  "put_ready bs s =
     map_option (\<lambda>b. s\<lparr>buff := b, wrNext := wrNext s + length bs\<rparr>) (mem_write (buff s) (wrNext s) bs)"

partial_function (option) put_str_loop :: "'w os_lib \<Rightarrow> byte list \<Rightarrow> 'w io \<Rightarrow> (bool \<times> 'w io) option" where
  "put_str_loop L str \<sigma> =
     (case \<sigma> of (s, q, w) \<Rightarrow> do {
        let m = min (length str) (stop s - wrNext s);
        s1 \<leftarrow> put_ready (take m str) s;
        if wrNext s \<noteq> stop s \<and> m = length str then Some (True, s1, q, w)
        else if isClosed s1 \<or> isReader s1 then Some (False, s1, q, w)
        else do {
          \<sigma>2 \<leftarrow> flush_buffer L (s1, q, w);
          put_str_loop L (drop m str) \<sigma>2 } })"

text \<open>The result is the number of bytes, or -1.\<close>

definition FCGX_PutStr :: "'w os_lib \<Rightarrow> byte list \<Rightarrow> 'w io \<Rightarrow> (int \<times> 'w io) option" where
  "FCGX_PutStr L str \<sigma> =
     (case \<sigma> of (s, q, w) \<Rightarrow>
        if int (length str) \<le> int (stop s) - int (wrNext s)
        then map_option (\<lambda>s1. (int (length str), s1, q, w)) (put_ready str s)
        else do {
          (ok, \<sigma>1) \<leftarrow> put_str_loop L str (s, q, w);
          Some (if ok then int (length str) else EOF, \<sigma>1) })"

text \<open>The bytes up to the terminator.\<close>

definition FCGX_PutS :: "'w os_lib \<Rightarrow> byte list \<Rightarrow> 'w io \<Rightarrow> (int \<times> 'w io) option" where
  "FCGX_PutS L str \<sigma> =
     (if 0 \<in> set str then FCGX_PutStr L (takeWhile (\<lambda>c. c \<noteq> 0) str) \<sigma> else None)"


text \<open>The last writer to close adds the record that ends the request.\<close>

definition WriteCloseRecords :: "'w os_lib \<Rightarrow> 'w io \<Rightarrow> 'w io option" where
  "WriteCloseRecords L \<sigma> =
     (case \<sigma> of (s, q, w) \<Rightarrow> do {
        let s1 = s\<lparr>rawWrite := True\<rparr>;
        (s2, q2, w2) \<leftarrow>
          (if \<not> (st_type s1 = FCGI_STDERR \<and> wrNext s1 = 0 \<and> \<not> isAnythingWritten s1) then do {
             h \<leftarrow> MakeHeader (st_type s1) (requestId q) 0 0;
             (_, \<sigma>1) \<leftarrow> FCGX_PutStr L (header_bytes h) (s1, q, w);
             Some \<sigma>1 }
           else Some (s1, q, w));
        (s3, q3, w3) \<leftarrow>
          (if nWriters q2 = 1 then do {
             h \<leftarrow> MakeHeader FCGI_END_REQUEST (requestId q2) 8 0;
             (_, \<sigma>2) \<leftarrow> FCGX_PutStr L (header_bytes h @ MakeEndRequestBody (appStatus q2) 0) (s2, q2, w2);
             Some \<sigma>2 }
           else Some (s2, q2, w2));
        Some (s3, q3\<lparr>nWriters := nWriters q3 - 1\<rparr>, w3) })"

definition EmptyBuffProc :: "'w os_lib \<Rightarrow> bool \<Rightarrow> 'w io \<Rightarrow> 'w io option" where
  "EmptyBuffProc L doClose = empty_with L (if doClose then WriteCloseRecords L else Some)"

lemma EmptyBuffProc_False: "EmptyBuffProc L False = flush_buffer L"
  by (simp add: EmptyBuffProc_def flush_buffer_def)

definition FCGX_FFlush :: "'w os_lib \<Rightarrow> 'w io \<Rightarrow> (int \<times> 'w io) option" where
  "FCGX_FFlush L \<sigma> =
     (case \<sigma> of (s, q, w) \<Rightarrow>
        if isClosed s \<or> isReader s then Some (0, s, q, w)
        else do {
          (s1, q1, w1) \<leftarrow> EmptyBuffProc L False (s, q, w);
          Some (if isClosed s1 then EOF else 0, s1, q1, w1) })"

definition FCGX_FClose :: "'w os_lib \<Rightarrow> 'w io \<Rightarrow> (int \<times> 'w io) option" where
  "FCGX_FClose L \<sigma> =
     (case \<sigma> of (s, q, w) \<Rightarrow> do {
        (s2, q2, w2) \<leftarrow>
          (if wasFCloseCalled s then Some (s, q, w)
           else do {
             (s1, q1, w1) \<leftarrow> (if isReader s then Some (s, q, w) else EmptyBuffProc L True (s, q, w));
             let s2 = s1\<lparr>wasFCloseCalled := True, isClosed := True\<rparr>;
             Some (if isReader s2 then s2\<lparr>wrNext := rdNext s2, stop := rdNext s2\<rparr>
                   else s2\<lparr>rdNext := wrNext s2, stop := wrNext s2\<rparr>, q1, w1) });
        Some (if FCGI_errno s2 = 0 then 0 else EOF, s2, q2, w2) })"

section \<open>Parameters\<close>

definition NewParams :: "'w os_lib \<Rightarrow> nat \<Rightarrow> 'w \<Rightarrow> (Params \<times> 'w) option" where
  "NewParams L n w = do {
     (_, w1) \<leftarrow> Malloc L sizeof_Params w;
     (_, w2) \<leftarrow> Malloc L (n * 8) w1;
     if n = 0 then None else Some (\<lparr>vec = [], vec_length = n\<rparr>, w2) }"

text \<open>There is always room for the NULL at the end; doubling the vector is not checked for a refusal.\<close>

definition PutParam :: "'w os_lib \<Rightarrow> Params \<Rightarrow> byte list \<Rightarrow> 'w \<Rightarrow> (Params \<times> 'w) option" where
  "PutParam L p nameValue w =
     (if vec_length p \<le> length (vec p) then None
      else
        let p1 = p\<lparr>vec := vec p @ [nameValue]\<rparr> in
        if vec_length p \<le> length (vec p1)
        then if 2 ^ 31 \<le> 2 * vec_length p then None
             else (case realloc_op L (2 * vec_length p * 8) w of
                     (True, w1) \<Rightarrow> Some (p1\<lparr>vec_length := 2 * vec_length p\<rparr>, w1)
                   | (False, w1) \<Rightarrow> None)
        else Some (p1, w))"

text \<open>\<open>strncmp\<close> with the whole of \<open>name\<close>: the first difference decides, and nothing behind it is read.\<close>

fun starts_with :: "byte list \<Rightarrow> byte list \<Rightarrow> bool option" where
  "starts_with [] blk = Some True"
| "starts_with (c # name) [] = None"
| "starts_with (c # name) (d # blk) = (if c = d then starts_with name blk else Some False)"

text \<open>The inner \<open>None\<close> is NULL; a value is what follows the equals sign, up to the terminator.\<close>

fun find_param :: "byte list \<Rightarrow> byte list list \<Rightarrow> byte list option option" where
  "find_param name [] = Some None"
| "find_param name (p # ps) = do {
     same \<leftarrow> starts_with name p;
     if same then do {
       c \<leftarrow> mem_read p (length name) 1;
       if c = [61] then
         if 0 \<in> set (drop (length name + 1) p)
         then Some (Some (takeWhile (\<lambda>c. c \<noteq> 0) (drop (length name + 1) p))) else None
       else find_param name ps }
     else find_param name ps }"

definition FCGX_GetParam :: "byte list option \<Rightarrow> byte list list option \<Rightarrow> byte list option option" where
  "FCGX_GetParam name env =
     (case name of
        None \<Rightarrow> Some None
      | Some n \<Rightarrow> (case env of None \<Rightarrow> Some None | Some ps \<Rightarrow> find_param n ps))"

text \<open>A length of one or four bytes, whose first byte is given; the inner \<open>None\<close>: the input ended.\<close>

definition long_length :: "('w io \<Rightarrow> 'w io option) \<Rightarrow> int \<Rightarrow> 'w io \<Rightarrow> (int option \<times> 'w io) option" where
  "long_length fill c \<sigma> =
     (if c < 128 then Some (Some c, \<sigma>)
      else do {
        (bs, \<sigma>1) \<leftarrow> FCGX_GetStr fill 3 \<sigma>;
        Some (if length bs \<noteq> 3 then None
              else Some ((c - 128) * 2 ^ 24 + uint (bs ! 0) * 2 ^ 16 + uint (bs ! 1) * 2 ^ 8 + uint (bs ! 2)), \<sigma>1) })"

definition params_error :: "'w io \<Rightarrow> 'w io" where
  "params_error \<sigma> = (case \<sigma> of (s, q, w) \<Rightarrow> (SetError FCGX_PARAMS_ERROR s, q, w))"

text \<open>
  One pair whose first byte is given: its \<open>name=value\<close> block, or \<open>None\<close> after an error. The sum of the
  lengths is an \<open>int\<close>: it may not overflow.
\<close>

definition read_pair :: "'w os_lib \<Rightarrow> ('w io \<Rightarrow> 'w io option) \<Rightarrow> int \<Rightarrow> 'w io \<Rightarrow> (byte list option \<times> 'w io) option" where
  "read_pair L fill c \<sigma> = do {
     (nl, \<sigma>1) \<leftarrow> long_length fill c \<sigma>;
     (case nl of
        None \<Rightarrow> Some (None, params_error \<sigma>1)
      | Some nameLen \<Rightarrow> do {
          (c2, \<sigma>2) \<leftarrow> FCGX_GetChar fill \<sigma>1;
          if c2 = EOF then Some (None, params_error \<sigma>2)
          else do {
            (vl, \<sigma>3) \<leftarrow> long_length fill c2 \<sigma>2;
            (case vl of
               None \<Rightarrow> Some (None, params_error \<sigma>3)
             | Some valueLen \<Rightarrow>
                 if 2 ^ 31 \<le> nameLen + valueLen + 2 then None
                 else (case \<sigma>3 of (s, q, w) \<Rightarrow> do {
                   ((_, _), w1) \<leftarrow> Malloc L (nat (nameLen + valueLen + 2)) w;
                   (name, \<sigma>4) \<leftarrow> FCGX_GetStr fill nameLen (s, q, w1);
                   if int (length name) \<noteq> nameLen then Some (None, params_error \<sigma>4)
                   else do {
                     (val, \<sigma>5) \<leftarrow> FCGX_GetStr fill valueLen \<sigma>4;
                     if int (length val) \<noteq> valueLen then Some (None, params_error \<sigma>5)
                     else Some (Some (name @ [61] @ val @ [0]), \<sigma>5) } })) } }) }"

text \<open>Whether the pairs up to the end were read without an error.\<close>

partial_function (option) ReadParams ::
  "'w os_lib \<Rightarrow> ('w io \<Rightarrow> 'w io option) \<Rightarrow> Params \<Rightarrow> 'w io \<Rightarrow> (bool \<times> Params \<times> 'w io) option" where
  "ReadParams L fill p \<sigma> = do {
     (c, \<sigma>1) \<leftarrow> FCGX_GetChar fill \<sigma>;
     if c = EOF then Some (True, p, \<sigma>1)
     else do {
       (nv, \<sigma>2) \<leftarrow> read_pair L fill c \<sigma>1;
       (case nv of
          None \<Rightarrow> Some (False, p, \<sigma>2)
        | Some nameValue \<Rightarrow>
            (case \<sigma>2 of (s, q, w) \<Rightarrow> do {
               (p1, w1) \<leftarrow> PutParam L p nameValue w;
               ReadParams L fill p1 (s, q, w1) })) } }"


section \<open>Filling the buffer of a reader\<close>

datatype header_status = STREAM_RECORD | SKIP | BEGIN_RECORD | MGMT_RECORD | FAILED int

definition FCGI_MAX_CONNS :: "byte list" where
  "FCGI_MAX_CONNS = [70, 67, 71, 73, 95, 77, 65, 88, 95, 67, 79, 78, 78, 83]"
definition FCGI_MAX_REQS :: "byte list" where
  "FCGI_MAX_REQS = [70, 67, 71, 73, 95, 77, 65, 88, 95, 82, 69, 81, 83]"
definition FCGI_MPXS_CONNS :: "byte list" where
  "FCGI_MPXS_CONNS = [70, 67, 71, 73, 95, 77, 80, 88, 83, 95, 67, 79, 78, 78, 83]"

text \<open>
  The answers to the names asked for, behind one another in the array \<open>response\<close>. A name is cut at its
  first equals sign: without one before the terminator, NULL is written through.
\<close>

definition cut_name :: "byte list \<Rightarrow> byte list option" where
  "cut_name blk =
     (if 61 \<in> set (takeWhile (\<lambda>c. c \<noteq> 0) blk) then Some (takeWhile (\<lambda>c. c \<noteq> 61) blk) else None)"

definition value_of :: "byte list \<Rightarrow> byte option" where
  "value_of name =
     (if name = FCGI_MAX_CONNS then Some 49 else if name = FCGI_MAX_REQS then Some 49
      else if name = FCGI_MPXS_CONNS then Some 48 else None)"

fun answer_values :: "byte list list \<Rightarrow> byte list \<Rightarrow> nat \<Rightarrow> (byte list \<times> nat) option" where
  "answer_values [] response responseP = Some (response, responseP)"
| "answer_values (blk # ps) response responseP = do {
     name \<leftarrow> cut_name blk;
     (case value_of name of
        None \<Rightarrow> answer_values ps response responseP
      | Some c \<Rightarrow> do {
          response1 \<leftarrow> mem_write response responseP ([word_of_nat (length name), 1] @ name @ [c, 0]);
          answer_values ps response1 (responseP + length name + 3) }) }"

definition send_response ::
  "'w os_lib \<Rightarrow> byte list \<Rightarrow> nat \<Rightarrow> 'w io \<Rightarrow> (header_status \<times> 'w io) option" where
  "send_response L response len \<sigma> =
     (case \<sigma> of (s, q, w) \<Rightarrow> do {
        bs \<leftarrow> mem_read response 0 len;
        (ok, w1) \<leftarrow> write_it_all L (ipcFd q) bs w;
        if ok then Some (MGMT_RECORD, s, q, w1)
        else Some (FAILED (-1), SetError (errno_of L w1) s, q, w1) })"

definition ProcessManagementRecord ::
  "'w os_lib \<Rightarrow> ('w io \<Rightarrow> 'w io option) \<Rightarrow> int \<Rightarrow> 'w io \<Rightarrow> (header_status \<times> 'w io) option" where
  "ProcessManagementRecord L fill type \<sigma> =
     (case \<sigma> of (s, q, w) \<Rightarrow> do {
        (p, w1) \<leftarrow> NewParams L 3 w;
        let response = map (stack_junk L) [0..<64];
        if type = FCGI_GET_VALUES then do {
          (_, p1, s1, q1, w2) \<leftarrow> ReadParams L fill p (s, q, w1);
          if FCGX_GetError s1 \<noteq> 0 \<or> contentLen s1 \<noteq> 0 then Some (FAILED FCGX_PROTOCOL_ERROR, s1, q1, w2)
          else do {
            (response1, responseP) \<leftarrow> answer_values (vec p1) response FCGI_HEADER_LEN;
            let len = int responseP - int FCGI_HEADER_LEN;
            let paddedLen = AlignInt8 len;
            h \<leftarrow> MakeHeader FCGI_GET_VALUES_RESULT FCGI_NULL_REQUEST_ID len (paddedLen - len);
            response2 \<leftarrow> mem_write response1 0 (header_bytes h);
            send_response L response2 (FCGI_HEADER_LEN + nat paddedLen) (s1, q1, w2) } }
        else do {
          h \<leftarrow> MakeHeader FCGI_UNKNOWN_TYPE FCGI_NULL_REQUEST_ID 8 0;
          response1 \<leftarrow> mem_write response 0 (header_bytes h @ MakeUnknownTypeBody type);
          send_response L response1 (FCGI_HEADER_LEN + 8) (s, q, w1) } })"

text \<open>Protocol status 1 is \<open>FCGI_CANT_MPX_CONN\<close>, flag 1 is \<open>FCGI_KEEP_CONN\<close>.\<close>

definition ProcessBeginRecord ::
  "'w os_lib \<Rightarrow> ('w io \<Rightarrow> 'w io option) \<Rightarrow> int \<Rightarrow> 'w io \<Rightarrow> (header_status \<times> 'w io) option" where
  "ProcessBeginRecord L fill rid \<sigma> =
     (case \<sigma> of (s, q, w) \<Rightarrow>
        if rid = 0 \<or> contentLen s \<noteq> 8 then Some (FAILED FCGX_PROTOCOL_ERROR, s, q, w)
        else if isBeginProcessed q then do {
          h \<leftarrow> MakeHeader FCGI_END_REQUEST rid 8 0;
          (ok, w1) \<leftarrow> write_it_all L (ipcFd q) (header_bytes h @ MakeEndRequestBody 0 1) w;
          if ok then Some (SKIP, s, q, w1)
          else Some (FAILED (-1), SetError (errno_of L w1) s, q, w1) }
        else do {
          (body, s1, q1, w1) \<leftarrow> FCGX_GetStr fill 8 (s, q\<lparr>requestId := rid\<rparr>, w);
          if length body \<noteq> 8 then Some (FAILED FCGX_PROTOCOL_ERROR, s1, q1, w1)
          else Some (BEGIN_RECORD, s1,
                 q1\<lparr>keepConnection := uint (and (body ! 2) 1),
                    role := uint (body ! 0) * 256 + uint (body ! 1),
                    isBeginProcessed := True\<rparr>, w1) })"

definition ProcessHeader ::
  "'w os_lib \<Rightarrow> ('w io \<Rightarrow> 'w io option) \<Rightarrow> FCGI_Header \<Rightarrow> 'w io \<Rightarrow> (header_status \<times> 'w io) option" where
  "ProcessHeader L fill h \<sigma> =
     (case \<sigma> of (s, q, w) \<Rightarrow>
        if h_version h \<noteq> FCGI_VERSION_1 then Some (FAILED FCGX_UNSUPPORTED_VERSION, s, q, w)
        else
          let rid = uint (h_requestIdB1 h) * 256 + uint (h_requestIdB0 h);
              s1 = s\<lparr>contentLen := unat (h_contentLengthB1 h) * 256 + unat (h_contentLengthB0 h),
                     paddingLen := unat (h_paddingLength h)\<rparr> in
          if uint (h_type h) = FCGI_BEGIN_REQUEST then ProcessBeginRecord L fill rid (s1, q, w)
          else if rid = FCGI_NULL_REQUEST_ID then ProcessManagementRecord L fill (uint (h_type h)) (s1, q, w)
          else if rid \<noteq> requestId q then Some (SKIP, s1, q, w)
          else if uint (h_type h) \<noteq> st_type s1 then Some (FAILED FCGX_PROTOCOL_ERROR, s1, q, w)
          else Some (STREAM_RECORD, s1, q, w))"

text \<open>
  One round of the loop: read when the buffer is empty, deliver or skip content, skip padding, stop at
  the end of the record in a nested call, and collect and interpret a header.
\<close>

datatype stage = Deliver | More | Past

definition refill :: "'w os_lib \<Rightarrow> 'w io \<Rightarrow> (bool \<times> 'w io) option" where
  "refill L \<sigma> =
     (case \<sigma> of (s, q, w) \<Rightarrow>
        if rdNext s = buffStop s then
          (case OS_Read L (ipcFd q) (bufflen s) w of
             (None, w1) \<Rightarrow> Some (False, SetError (errno_of L w1) s, q, w1)
           | (Some bs, w1) \<Rightarrow>
               if bs = [] then Some (False, SetError FCGX_PROTOCOL_ERROR s, q, w1)
               else map_option (\<lambda>b. (True, s\<lparr>buff := b, rdNext := 0, buffStop := length bs\<rparr>, q, w1))
                      (mem_write (buff s) 0 bs))
        else Some (True, s, q, w))"

definition content_stage :: "FCGX_Stream \<Rightarrow> stage \<times> FCGX_Stream" where
  "content_stage s =
     (if 0 < contentLen s then
        let count = min (contentLen s) (buffStop s - rdNext s);
            s1 = s\<lparr>contentLen := contentLen s - count\<rparr> in
        if \<not> skip s then (Deliver, s1\<lparr>wrNext := rdNext s + count, stop := rdNext s + count\<rparr>)
        else if 0 < contentLen s1 then (More, s1\<lparr>rdNext := rdNext s + count\<rparr>)
        else (Past, s1\<lparr>rdNext := rdNext s + count, skip := False\<rparr>)
      else (Past, s))"

definition padding_stage :: "FCGX_Stream \<Rightarrow> stage \<times> FCGX_Stream" where
  "padding_stage s =
     (if 0 < paddingLen s then
        let count = min (paddingLen s) (buffStop s - rdNext s);
            s1 = s\<lparr>paddingLen := paddingLen s - count, rdNext := rdNext s + count\<rparr> in
        (if 0 < paddingLen s1 then More else Past, s1)
      else (Past, s))"

definition header_stage :: "byte list \<Rightarrow> FCGX_Stream \<Rightarrow> (byte list \<times> FCGX_Stream) option" where
  "header_stage hdr s =
     (let count = min (8 - length hdr) (buffStop s - rdNext s) in
      map_option (\<lambda>bs. (hdr @ bs, s\<lparr>rdNext := rdNext s + count\<rparr>)) (mem_read (buff s) (rdNext s) count))"

datatype 'w flow = Again "byte list" "'w io" | Return "'w io"

text \<open>What follows the interpretation of a header.\<close>

fun after_header :: "header_status \<Rightarrow> 'w io \<Rightarrow> 'w flow" where
  "after_header STREAM_RECORD (s, q, w) =
     (if contentLen s = 0 then Return (s\<lparr>wrNext := rdNext s, stop := rdNext s, isClosed := True\<rparr>, q, w)
      else Again [] (s, q, w))"
| "after_header SKIP (s, q, w) = Again [] (s\<lparr>skip := True\<rparr>, q, w)"
| "after_header BEGIN_RECORD (s, q, w) = Return (s, q, w)"
| "after_header MGMT_RECORD (s, q, w) = Again [] (s, q, w)"
| "after_header (FAILED status) (s, q, w) = Return (SetError status s, q, w)"

definition after_padding ::
  "(FCGI_Header \<Rightarrow> 'w io \<Rightarrow> (header_status \<times> 'w io) option) \<Rightarrow> byte list \<Rightarrow> 'w io \<Rightarrow> 'w flow option" where
  "after_padding process hdr \<sigma> =
     (case \<sigma> of (s, q, w) \<Rightarrow>
        if eorStop s then Some (Return (s\<lparr>stop := rdNext s, isClosed := True\<rparr>, q, w))
        else do {
          (hdr1, s1) \<leftarrow> header_stage hdr s;
          if length hdr1 < 8 then Some (Again hdr1 (s1, q, w))
          else do {
            (status, s2, q2, w2) \<leftarrow> process (header_of hdr1) (s1\<lparr>eorStop := True, stop := rdNext s1\<rparr>, q, w);
            Some (after_header status (s2\<lparr>eorStop := False, isClosed := False\<rparr>, q2, w2)) } })"

definition after_content ::
  "(FCGI_Header \<Rightarrow> 'w io \<Rightarrow> (header_status \<times> 'w io) option) \<Rightarrow> byte list \<Rightarrow> 'w io \<Rightarrow> 'w flow option" where
  "after_content process hdr \<sigma> =
     (case \<sigma> of (s, q, w) \<Rightarrow>
        (case padding_stage s of
           (Past, s1) \<Rightarrow> after_padding process hdr (s1, q, w)
         | (_, s1) \<Rightarrow> Some (Again hdr (s1, q, w))))"

definition fill_step ::
  "'w os_lib \<Rightarrow> (FCGI_Header \<Rightarrow> 'w io \<Rightarrow> (header_status \<times> 'w io) option) \<Rightarrow> byte list \<Rightarrow> 'w io \<Rightarrow> 'w flow option" where
  "fill_step L process hdr \<sigma> = do {
     (ok, s, q, w) \<leftarrow> refill L \<sigma>;
     if \<not> ok then Some (Return (s, q, w))
     else (case content_stage s of
         (Deliver, s1) \<Rightarrow> Some (Return (s1, q, w))
       | (More, s1) \<Rightarrow> Some (Again hdr (s1, q, w))
       | (Past, s1) \<Rightarrow> after_content process hdr (s1, q, w)) }"

partial_function (option) fill_loop ::
  "'w os_lib \<Rightarrow> (FCGI_Header \<Rightarrow> 'w io \<Rightarrow> (header_status \<times> 'w io) option) \<Rightarrow> byte list \<Rightarrow> 'w io \<Rightarrow> 'w io option" where
  "fill_loop L process hdr \<sigma> = do {
     r \<leftarrow> fill_step L process hdr \<sigma>;
     (case r of Return \<sigma>1 \<Rightarrow> Some \<sigma>1 | Again hdr1 \<sigma>1 \<Rightarrow> fill_loop L process hdr1 \<sigma>1) }"

text \<open>
  Interpreting a header can read content, which fills the buffer again: the recursion of the C code,
  to a given depth. In a nested call \<open>eorStop\<close> ends the loop before a header is interpreted, so that
  depth two is all there is.
\<close>

primrec fill_buff :: "'w os_lib \<Rightarrow> nat \<Rightarrow> 'w io \<Rightarrow> 'w io option" where
  "fill_buff L 0 = (\<lambda>\<sigma>. None)"
| "fill_buff L (Suc d) = fill_loop L (ProcessHeader L (fill_buff L d)) []"

definition FillBuffProc :: "'w os_lib \<Rightarrow> 'w io \<Rightarrow> 'w io option" where
  "FillBuffProc L = fill_buff L 2"


section \<open>Making and releasing streams\<close>

text \<open>The buffer starts at the next multiple of eight; a block that does not start there loses eight bytes.\<close>

definition NewStream :: "'w os_lib \<Rightarrow> nat \<Rightarrow> bool \<Rightarrow> int \<Rightarrow> 'w \<Rightarrow> (FCGX_Stream \<times> 'w) option" where
  "NewStream L len reader streamType w = do {
     (_, w1) \<leftarrow> Malloc L sizeof_FCGX_Stream w;
     (_, w2) \<leftarrow> Malloc L sizeof_FCGX_Stream_Data w1;
     let n = nat (AlignInt8 (int (min (max len 32) 65536)));
     ((mBuff, blk), w3) \<leftarrow> Malloc L n w2;
     let off = unat (AlignPtr8 mBuff - mBuff);
     let n1 = (if off \<noteq> 0 then n - 8 else n);
     Some
       (\<lparr>buff = drop off blk, bufflen = n1, buffStop = (if reader then 0 else n1), st_type = streamType,
         eorStop = False, skip = False, contentLen = 0, paddingLen = 0, isAnythingWritten = False, rawWrite = False,
         rdNext = (if reader then 0 else n1), wrNext = (if reader then 0 else FCGI_HEADER_LEN),
         stop = (if reader then 0 else n1), stopUnget = (if reader then Some 0 else None),
         isReader = reader, isClosed = False, wasFCloseCalled = False, FCGI_errno = 0\<rparr>, w3) }"

definition NewReader :: "'w os_lib \<Rightarrow> nat \<Rightarrow> int \<Rightarrow> 'w \<Rightarrow> (FCGX_Stream \<times> 'w) option" where
  "NewReader L len streamType w = NewStream L len True streamType w"

definition NewWriter :: "'w os_lib \<Rightarrow> nat \<Rightarrow> int \<Rightarrow> 'w \<Rightarrow> (FCGX_Stream \<times> 'w) option" where
  "NewWriter L len streamType w = NewStream L len False streamType w"

definition SetReaderType :: "FCGX_Stream \<Rightarrow> int \<Rightarrow> FCGX_Stream option" where
  "SetReaderType s streamType =
     (if isReader s
      then Some (s\<lparr>st_type := streamType, eorStop := False, skip := False, contentLen := 0, paddingLen := 0,
                   wrNext := rdNext s, stop := rdNext s, isClosed := False\<rparr>)
      else None)"

text \<open>A request whose members were not set: what the fresh block holds is the argument \<open>fresh\<close>.\<close>

definition FCGX_CreateWriter ::
  "'w os_lib \<Rightarrow> FCGX_Request \<Rightarrow> int \<Rightarrow> int \<Rightarrow> nat \<Rightarrow> int \<Rightarrow> 'w \<Rightarrow> 'w io option" where
  "FCGX_CreateWriter L fresh fd rid len streamType w = do {
     (_, w1) \<leftarrow> Malloc L sizeof_FCGX_Request w;
     let q = fresh\<lparr>ipcFd := fd, requestId := rid, nWriters := 2\<rparr>;
     (s, w2) \<leftarrow> NewWriter L len streamType w1;
     Some (s, q, w2) }"

section \<open>Connections\<close>

text \<open>
  \<open>OS_Close\<close> reads what the client still sends, until it ends or nothing comes. No asynchronous
  operation was ever started.
\<close>

partial_function (option) drain_input :: "'w os_lib \<Rightarrow> int \<Rightarrow> 'w \<Rightarrow> 'w option" where
  "drain_input L fd w =
     (case select_op L fd w of
        (readable, w1) \<Rightarrow>
          if \<not> readable then Some w1
          else (case read_op L fd 1024 w1 of
                  (None, w2) \<Rightarrow> Some w2
                | (Some bs, w2) \<Rightarrow> if bs = [] then Some w2 else drain_input L fd w2))"

definition OS_Close :: "'w os_lib \<Rightarrow> int \<Rightarrow> 'w \<Rightarrow> (int \<times> 'w) option" where
  "OS_Close L fd w =
     (if fd = -1 then Some (0, w)
      else do {
        w2 \<leftarrow> (case shutdown_op L fd w of (True, w1) \<Rightarrow> drain_input L fd w1 | (False, w1) \<Rightarrow> Some w1);
        Some (close_op L fd w2) })"

definition OS_IpcClose :: "'w os_lib \<Rightarrow> int \<Rightarrow> 'w \<Rightarrow> (int \<times> 'w) option" where
  "OS_IpcClose L fd w = OS_Close L fd w"

text \<open>The addresses in the list are separated by commas; NULL and the empty list admit everyone.\<close>

fun split_commas :: "byte list \<Rightarrow> byte list list" where
  "split_commas [] = [[]]"
| "split_commas (c # cs) =
     (if c = 44 then [] # split_commas cs
      else (case split_commas cs of item # items \<Rightarrow> (c # item) # items | [] \<Rightarrow> [[c]]))"

definition ClientAddrOK :: "'w os_lib \<Rightarrow> u64 \<Rightarrow> byte list option \<Rightarrow> bool" where
  "ClientAddrOK L a clientList =
     (case clientList of
        None \<Rightarrow> True
      | Some l \<Rightarrow> l = [] \<or> list_ex (\<lambda>cur. inet_addr L cur = a) (split_commas l))"

definition is_reasonable_accept_errno :: "int \<Rightarrow> bool" where
  "is_reasonable_accept_errno e = (e \<in> {71, 101, 103, 104, 110, 113})"

text \<open>
  The inner loop: the descriptor and the address of the peer, or failure. Once a shutdown is asked for, no call is
  made any more, and the result is what the variables \<open>socket\<close> and \<open>sa\<close> hold from before: \<open>prev\<close>.
\<close>

definition EINTR :: int where "EINTR = 4"

partial_function (option) accept_call ::
  "'w os_lib \<Rightarrow> int \<Rightarrow> bool \<Rightarrow> (int \<times> sockaddr) option \<Rightarrow> 'w \<Rightarrow> ((int \<times> sockaddr) option \<times> 'w) option" where
  "accept_call L sock fail_on_intr prev w =
     (if shutdown_pending L w then Some (prev, w)
      else (case accept_op L sock w of
              (Some r, w1) \<Rightarrow> Some (Some r, w1)
            | (None, w1) \<Rightarrow>
                if errno_of L w1 = EINTR \<and> \<not> fail_on_intr \<and> \<not> shutdown_pending L w1
                then accept_call L sock fail_on_intr None w1 else Some (None, w1)))"

partial_function (option) accept_client ::
  "'w os_lib \<Rightarrow> int \<Rightarrow> bool \<Rightarrow> byte list option \<Rightarrow> (int \<times> sockaddr) option \<Rightarrow> 'w \<Rightarrow>
   ((int \<times> sockaddr) option \<times> 'w) option" where
  "accept_client L sock fail_on_intr addrs prev w = do {
     (r, w1) \<leftarrow> accept_call L sock fail_on_intr prev w;
     (case r of
        None \<Rightarrow>
          if shutdown_pending L w1 \<or> \<not> is_reasonable_accept_errno (errno_of L w1) then Some (None, w1)
          else accept_client L sock fail_on_intr addrs None (set_errno L 0 w1)
      | Some (fd, AF_INET a) \<Rightarrow>
          if ClientAddrOK L a addrs then Some (Some (fd, AF_INET a), w1)
          else accept_client L sock fail_on_intr addrs (Some (fd, AF_INET a)) (snd (close_op L fd w1))
      | Some (fd, fam) \<Rightarrow> Some (Some (fd, fam), w1)) }"

text \<open>Locks are configured out. A local connection that sends nothing is closed.\<close>

partial_function (option) accept_keeper ::
  "'w os_lib \<Rightarrow> int \<Rightarrow> bool \<Rightarrow> byte list option \<Rightarrow> (int \<times> sockaddr) option \<Rightarrow> 'w \<Rightarrow> (int \<times> 'w) option" where
  "accept_keeper L sock fail_on_intr addrs prev w = do {
     (r, w1) \<leftarrow> accept_client L sock fail_on_intr addrs prev w;
     (case r of
        None \<Rightarrow> Some (-1, w1)
      | Some (fd, fam) \<Rightarrow>
          if fam \<noteq> AF_UNIX then Some (fd, w1)
          else (case select_op L fd w1 of
                  (readable, w2) \<Rightarrow>
                    if readable then Some (fd, w2)
                    else accept_keeper L sock fail_on_intr addrs (Some (fd, fam)) (snd (close_op L fd w2)))) }"

definition OS_Accept :: "'w os_lib \<Rightarrow> int \<Rightarrow> bool \<Rightarrow> byte list option \<Rightarrow> 'w \<Rightarrow> (int \<times> 'w) option" where
  "OS_Accept L sock fail_on_intr addrs w = accept_keeper L sock fail_on_intr addrs None w"

section \<open>Requests\<close>

definition FCGX_InitRequest :: "int \<Rightarrow> int \<Rightarrow> FCGX_Request" where
  "FCGX_InitRequest sock flags =
     \<lparr>requestId = 0, role = 0, rq_in = None, rq_out = None, rq_err = None, envp = None, paramsPtr = None,
      ipcFd = -1, isBeginProcessed = False, keepConnection = 0, appStatus = 0, nWriters = 0, rq_flags = flags,
      listen_sock = sock\<rparr>"

definition FCGX_Free :: "'w os_lib \<Rightarrow> bool \<Rightarrow> FCGX_Request \<Rightarrow> 'w \<Rightarrow> (FCGX_Request \<times> 'w) option" where
  "FCGX_Free L close q w =
     (let q1 = q\<lparr>rq_in := None, rq_out := None, rq_err := None, paramsPtr := None\<rparr> in
      if close then map_option (\<lambda>(_, w1). (q1\<lparr>ipcFd := -1\<rparr>, w1)) (OS_IpcClose L (ipcFd q1) w)
      else Some (q1, w))"

text \<open>Closing a stream of the request, which may be NULL; the stream is put back.\<close>

definition close_member ::
  "'w os_lib \<Rightarrow> (FCGX_Request \<Rightarrow> FCGX_Stream option) \<Rightarrow> (FCGX_Stream \<Rightarrow> FCGX_Request \<Rightarrow> FCGX_Request) \<Rightarrow>
   FCGX_Request \<Rightarrow> 'w \<Rightarrow> (int \<times> FCGX_Request \<times> 'w) option" where
  "close_member L get put q w =
     (case get q of
        None \<Rightarrow> Some (0, q, w)
      | Some s \<Rightarrow> do { (r, s1, q1, w1) \<leftarrow> FCGX_FClose L (s, q, w); Some (r, put s1 q1, w1) })"

definition FCGX_Finish_r :: "'w os_lib \<Rightarrow> FCGX_Request \<Rightarrow> 'w \<Rightarrow> (FCGX_Request \<times> 'w) option" where
  "FCGX_Finish_r L q w =
     (case rq_in q of
        None \<Rightarrow> FCGX_Free L (keepConnection q = 0) q w
      | Some i \<Rightarrow> do {
          (c1, q1, w1) \<leftarrow> close_member L rq_err (\<lambda>s. rq_err_update (\<lambda>_. Some s)) q w;
          (c2, q2, w2) \<leftarrow> close_member L rq_out (\<lambda>s. rq_out_update (\<lambda>_. Some s)) q1 w1;
          FCGX_Free L (keepConnection q = 0 \<or> c1 \<noteq> 0 \<or> c2 \<noteq> 0 \<or> FCGX_GetError i \<noteq> 0) q2 w2 })"

text \<open>\<open>FCGI_ROLE=\<close> with the name of the role.\<close>

definition role_string :: "int \<Rightarrow> byte list option" where
  "role_string r =
     map_option (\<lambda>name. [70, 67, 71, 73, 95, 82, 79, 76, 69, 61] @ name @ [0])
       (if r = 1 then Some [82, 69, 83, 80, 79, 78, 68, 69, 82]
        else if r = 2 then Some [65, 85, 84, 72, 79, 82, 73, 90, 69, 82]
        else if r = 3 then Some [70, 73, 76, 84, 69, 82] else None)"

text \<open>
  Reading the beginning and the environment of a request from an open connection: whether that went
  well; the reader is stored in the request.
\<close>

definition read_request :: "'w os_lib \<Rightarrow> FCGX_Request \<Rightarrow> 'w \<Rightarrow> (bool \<times> FCGX_Request \<times> 'w) option" where
  "read_request L q w = do {
     (s, w1) \<leftarrow> NewReader L 8192 0 w;
     (s1, q1, w2) \<leftarrow> FillBuffProc L (s, q\<lparr>isBeginProcessed := False\<rparr>, w1);
     if \<not> isBeginProcessed q1 then Some (False, q1\<lparr>rq_in := Some s1\<rparr>, w2)
     else (case role_string (role q1) of
             None \<Rightarrow> Some (False, q1\<lparr>rq_in := Some s1\<rparr>, w2)
           | Some roleStr \<Rightarrow> do {
               (p, w3) \<leftarrow> NewParams L 30 w2;
               (_, w4) \<leftarrow> Malloc L (length roleStr) w3;
               (p1, w5) \<leftarrow> PutParam L p roleStr w4;
               s2 \<leftarrow> SetReaderType s1 FCGI_PARAMS;
               (good, p2, s3, q3, w6) \<leftarrow> ReadParams L (FillBuffProc L) p1 (s2, q1, w5);
               Some (good, q3\<lparr>rq_in := Some s3, paramsPtr := Some p2\<rparr>, w6) }) }"

definition accept_connection :: "'w os_lib \<Rightarrow> byte list option \<Rightarrow> FCGX_Request \<Rightarrow> 'w \<Rightarrow> (FCGX_Request \<times> 'w) option" where
  "accept_connection L addrs q w =
     (if ipcFd q < 0
      then map_option (\<lambda>(fd, w1). (q\<lparr>ipcFd := fd\<rparr>, w1)) (OS_Accept L (listen_sock q) (odd (rq_flags q)) addrs w)
      else Some (q, w))"

partial_function (option) accept_loop ::
  "'w os_lib \<Rightarrow> byte list option \<Rightarrow> FCGX_Request \<Rightarrow> 'w \<Rightarrow> (int \<times> FCGX_Request \<times> 'w) option" where
  "accept_loop L addrs q w = do {
     (q1, w1) \<leftarrow> accept_connection L addrs q w;
     if ipcFd q1 < 0 then Some (if 0 < errno_of L w1 then - errno_of L w1 else -9999, q1, w1)
     else do {
       (good, q2, w2) \<leftarrow> read_request L q1 w1;
       if good then Some (0, q2, w2)
       else do {
         (q3, w3) \<leftarrow> FCGX_Free L True q2 w2;
         accept_loop L addrs q3 w3 } } }"

text \<open>The global state of the library is whether it was initialised and the list of addresses.\<close>

definition FCGX_Accept_r ::
  "'w os_lib \<Rightarrow> bool \<Rightarrow> byte list option \<Rightarrow> FCGX_Request \<Rightarrow> 'w \<Rightarrow> (int \<times> FCGX_Request \<times> 'w) option" where
  "FCGX_Accept_r L libInitialized addrs q w =
     (if \<not> libInitialized then Some (-9998, q, w)
      else do {
        (q1, w1) \<leftarrow> FCGX_Finish_r L q w;
        (rc, q2, w2) \<leftarrow> accept_loop L addrs q1 w1;
        if rc \<noteq> 0 then Some (rc, q2, w2)
        else do {
          i \<leftarrow> rq_in q2;
          i1 \<leftarrow> SetReaderType i FCGI_STDIN;
          (out, w3) \<leftarrow> NewWriter L 8192 FCGI_STDOUT w2;
          (err, w4) \<leftarrow> NewWriter L 512 FCGI_STDERR w3;
          Some (0, q2\<lparr>rq_in := Some i1, rq_out := Some out, rq_err := Some err, nWriters := 2,
                      envp := map_option vec (paramsPtr q2)\<rparr>, w4) } })"

definition FCGX_StartFilterData :: "FCGX_Stream \<Rightarrow> FCGX_Request \<Rightarrow> (int \<times> FCGX_Stream) option" where
  "FCGX_StartFilterData s q =
     (if role q \<noteq> 3 \<or> \<not> isReader s \<or> \<not> isClosed s \<or> st_type s \<noteq> FCGI_STDIN
      then Some (-1, SetError FCGX_CALL_SEQ_ERROR s)
      else map_option (\<lambda>s1. (0, s1)) (SetReaderType s FCGI_DATA))"

definition FCGX_SetExitStatus :: "int \<Rightarrow> FCGX_Request \<Rightarrow> FCGX_Request" where
  "FCGX_SetExitStatus status q = q\<lparr>appStatus := status\<rparr>"

end
