(* ===== verification/LA_Fcgi_Write.thy ===== *)
theory LA_Fcgi_Write
  imports LA_Fcgi
begin

text \<open>
  What the writers of the FastCGI library send: over a connection that works, the bytes put into a
  stream leave it as a sequence of well-formed records whose contents are those bytes, and closing
  adds the records that end the stream and the request. A connection may take any part of what is
  offered to it at a time.
\<close>

section \<open>Records on the wire\<close>

record fcgi_rec =
  rec_type :: int
  rec_id :: int
  rec_content :: "byte list"
  rec_padding :: "byte list"

definition rec_bytes :: "fcgi_rec \<Rightarrow> byte list" where
  "rec_bytes r =
     [1, byte_at (rec_type r) 0, byte_at (rec_id r) 8, byte_at (rec_id r) 0,
      byte_at (int (length (rec_content r))) 8, byte_at (int (length (rec_content r))) 0,
      byte_at (int (length (rec_padding r))) 0, 0] @ rec_content r @ rec_padding r"

text \<open>The record a writer makes of some content, the one that ends a stream, and the one that ends a request.\<close>

definition pad8 :: "nat \<Rightarrow> nat" where
  "pad8 n = (8 - n mod 8) mod 8"

definition content_rec :: "int \<Rightarrow> int \<Rightarrow> byte list \<Rightarrow> fcgi_rec" where
  "content_rec ty rid c =
     \<lparr>rec_type = ty, rec_id = rid, rec_content = c, rec_padding = replicate (pad8 (length c)) 0\<rparr>"

definition end_rec :: "int \<Rightarrow> int \<Rightarrow> fcgi_rec" where
  "end_rec ty rid = \<lparr>rec_type = ty, rec_id = rid, rec_content = [], rec_padding = []\<rparr>"

definition end_request_rec :: "int \<Rightarrow> int \<Rightarrow> int \<Rightarrow> fcgi_rec" where
  "end_request_rec rid status protocolStatus =
     \<lparr>rec_type = FCGI_END_REQUEST, rec_id = rid, rec_content = MakeEndRequestBody status protocolStatus, rec_padding = []\<rparr>"

text \<open>\<open>wire ty rid bs xs\<close>: the bytes \<open>bs\<close> are records of the stream with the contents \<open>xs\<close>.\<close>

definition wire :: "int \<Rightarrow> int \<Rightarrow> byte list \<Rightarrow> byte list \<Rightarrow> bool" where
  "wire ty rid bs xs =
     (\<exists>cs. (\<forall>c \<in> set cs. c \<noteq> [] \<and> length c \<le> 65528) \<and> concat cs = xs \<and>
           bs = concat (map (\<lambda>c. rec_bytes (content_rec ty rid c)) cs))"

lemma wire_nil [simp]: "wire ty rid [] []"
  unfolding wire_def by (rule exI [of _ "[]"]) simp

lemma wire_single: "c \<noteq> [] \<Longrightarrow> length c \<le> 65528 \<Longrightarrow> wire ty rid (rec_bytes (content_rec ty rid c)) c"
  unfolding wire_def by (rule exI [of _ "[c]"]) simp

lemma wire_append: "wire ty rid a x \<Longrightarrow> wire ty rid b y \<Longrightarrow> wire ty rid (a @ b) (x @ y)"
  unfolding wire_def
proof (elim exE conjE)
  fix cs ds
  assume "\<forall>c\<in>set cs. c \<noteq> [] \<and> length c \<le> 65528" "\<forall>c\<in>set ds. c \<noteq> [] \<and> length c \<le> 65528"
    "concat cs = x" "concat ds = y" "a = concat (map (\<lambda>c. rec_bytes (content_rec ty rid c)) cs)"
    "b = concat (map (\<lambda>c. rec_bytes (content_rec ty rid c)) ds)"
  then show "\<exists>es. (\<forall>c\<in>set es. c \<noteq> [] \<and> length c \<le> 65528) \<and> concat es = x @ y \<and>
      a @ b = concat (map (\<lambda>c. rec_bytes (content_rec ty rid c)) es)"
    by (intro exI [of _ "cs @ ds"]) auto
qed

section \<open>Rounding up\<close>

lemma and_not_7: "unat (and (x :: 32 word) (not 7)) = unat x div 8 * 8"
proof -
  have seven: "(7 :: 32 word) = mask 3" by (simp add: mask_eq_exp_minus_1)
  have "and x (not 7) = push_bit 3 (drop_bit 3 x)"
    unfolding seven by (rule bit_word_eqI) (auto simp: bit_simps)
  moreover have "unat (drop_bit 3 x) = unat x div 8" by (simp add: drop_bit_eq_div unat_div)
  moreover have "unat x div 8 * 8 < 2 ^ 32" using unsigned_less [where 'a = nat, of x] by simp
  ultimately show ?thesis by (simp add: push_bit_eq_mult unat_word_ariths)
qed

lemma sint_small:
  assumes "unat (x :: 32 word) < 2 ^ 31"
  shows "sint x = int (unat x)"
proof -
  have u: "uint x = int (unat x)" by (rule uint_nat)
  have "uint x < 2 ^ 31" unfolding u using assms by (metis of_nat_less_iff of_nat_numeral of_nat_power)
  moreover have "- (2 ^ 31) \<le> uint x" by (rule order_trans [OF _ uint_ge_0]) simp
  ultimately have "signed_take_bit 31 (uint x) = uint x" by (intro signed_take_bit_int_eq_self)
  then show ?thesis by (simp add: sint_uint)
qed

lemma AlignInt8_nat:
  assumes "n < 2 ^ 30"
  shows "AlignInt8 (int n) = int ((n + 7) div 8 * 8)"
proof -
  let ?x = "word_of_int (int n) + 7 :: 32 word"
  have "?x = word_of_nat (n + 7)" by simp
  moreover have "unat (word_of_nat (n + 7) :: 32 word) = n + 7" using assms by (subst unat_of_nat) simp
  ultimately have u: "unat ?x = n + 7" by simp
  have a: "unat (and ?x (not 7)) = (n + 7) div 8 * 8" by (simp only: and_not_7 u)
  have "(n + 7) div 8 * 8 < 2 ^ 31" using assms div_times_less_eq_dividend [of "n + 7" 8] by simp
  then have "sint (and ?x (not 7)) = int ((n + 7) div 8 * 8)" using a sint_small [of "and ?x (not 7)"] by presburger
  then show ?thesis by (simp add: AlignInt8_def)
qed

lemma pad8_cases: "pad8 n = (if n mod 8 = 0 then 0 else 8 - n mod 8)"
  by (simp add: pad8_def)

lemma pad8_align: "(n + 7) div 8 * 8 = n + pad8 n"
proof -
  have "n = 8 * (n div 8) + n mod 8" "n mod 8 < 8" by simp_all
  then obtain q r where n: "n = 8 * q + r" "r < 8" by blast
  then have "n mod 8 = r" "(n + 7) div 8 = q + (if r = 0 then 0 else 1)" by auto
  then show ?thesis using n by (simp add: pad8_cases)
qed

lemma pad8_small: "pad8 n < 8"
  by (simp add: pad8_def)

lemma pad8_mod: "(n + pad8 n) mod 8 = 0"
  by (simp flip: pad8_align)


section \<open>A connection that works\<close>

text \<open>
  \<open>incoming w\<close> is what the peer has still to be read, \<open>sent w\<close> what it got. A call moves some of
  it, how much is not said; the input ends when nothing is left. The allocator grants every request.
\<close>

locale connection =
  fixes L :: "'w os_lib" and fd :: int and incoming :: "'w \<Rightarrow> byte list" and sent :: "'w \<Rightarrow> byte list"
  assumes reads: "0 < n \<Longrightarrow> incoming w \<noteq> [] \<Longrightarrow>
      \<exists>k w'. 0 < k \<and> k \<le> n \<and> read_op L fd n w = (Some (take k (incoming w)), w') \<and>
             incoming w' = drop k (incoming w) \<and> sent w' = sent w"
    and reads_end: "incoming w = [] \<Longrightarrow>
      \<exists>w'. read_op L fd n w = (Some [], w') \<and> incoming w' = [] \<and> sent w' = sent w"
    and writes: "bs \<noteq> [] \<Longrightarrow>
      \<exists>k w'. 0 < k \<and> k \<le> length bs \<and> write_op L fd bs w = (Some k, w') \<and>
             incoming w' = incoming w \<and> sent w' = sent w @ take k bs"
    and allocs: "\<exists>a blk w'. alloc_op L n w = (Some (a, blk), w') \<and> n \<le> length blk \<and>
             incoming w' = incoming w \<and> sent w' = sent w"
    and reallocs: "\<exists>w'. realloc_op L n w = (True, w') \<and> incoming w' = incoming w \<and> sent w' = sent w"
    and selects: "\<exists>b w'. select_op L fd w = (b, w') \<and> incoming w' = incoming w \<and> sent w' = sent w"
    and shutdowns: "\<exists>b w'. shutdown_op L fd w = (b, w') \<and> incoming w' = incoming w \<and> sent w' = sent w"
    and closes: "\<exists>r w'. close_op L fd w = (r, w') \<and> sent w' = sent w"
begin

lemma write_it_all_sends:
  "\<exists>w'. write_it_all L fd bs w = Some (True, w') \<and> incoming w' = incoming w \<and> sent w' = sent w @ bs"
proof (induction "length bs" arbitrary: bs w rule: less_induct)
  case less
  show ?case
  proof (cases "bs = []")
    case True
    then show ?thesis by (simp add: write_it_all.simps)
  next
    case False
    then obtain k w1 where k: "0 < k" "k \<le> length bs" "write_op L fd bs w = (Some k, w1)"
      "incoming w1 = incoming w" "sent w1 = sent w @ take k bs"
      using writes by blast
    have "length (drop k bs) < length bs" using False k by simp
    then obtain w2 where "write_it_all L fd (drop k bs) w1 = Some (True, w2)" "incoming w2 = incoming w1"
      "sent w2 = sent w1 @ drop k bs"
      using less by blast
    then show ?thesis
      using False k by (subst write_it_all.simps) (simp add: OS_Write_def)
  qed
qed

text \<open>Closing reads what the peer still sends, and ends with it.\<close>

lemma drain_input_ends: "\<exists>w'. drain_input L fd w = Some w' \<and> sent w' = sent w"
proof (induction "length (incoming w)" arbitrary: w rule: less_induct)
  case less
  obtain b w1 where 1: "select_op L fd w = (b, w1)" "incoming w1 = incoming w" "sent w1 = sent w" using selects by blast
  show ?case
  proof (cases "b \<and> incoming w1 \<noteq> []")
    case True
    from reads [of 1024 w1] True obtain k w2 where 2: "0 < k" "read_op L fd 1024 w1 = (Some (take k (incoming w1)), w2)"
      "incoming w2 = drop k (incoming w1)" "sent w2 = sent w1"
      by auto
    have "length (incoming w2) < length (incoming w)" using 1(2) 2(1,3) True by simp
    from less [OF this] obtain w3 where "drain_input L fd w2 = Some w3" "sent w3 = sent w2" by blast
    then show ?thesis using 1 2 True by (subst drain_input.simps) simp
  next
    case False
    then show ?thesis using 1 reads_end [of w1 1024] by (cases b) (auto simp: drain_input.simps)
  qed
qed

lemma close_ends: "\<exists>r w'. OS_IpcClose L fd w = Some (r, w') \<and> sent w' = sent w"
proof (cases "fd = -1")
  case True
  then show ?thesis by (simp add: OS_IpcClose_def OS_Close_def)
next
  case False
  obtain b w1 where 1: "shutdown_op L fd w = (b, w1)" "sent w1 = sent w" using shutdowns by blast
  obtain w2 where 2: "drain_input L fd w1 = Some w2" "sent w2 = sent w1" using drain_input_ends by blast
  let ?w = "if b then w2 else w1"
  obtain r w3 where 3: "close_op L fd ?w = (r, w3)" "sent w3 = sent ?w" using closes by blast
  then show ?thesis using False 1 2 by (cases b) (simp_all add: OS_IpcClose_def OS_Close_def)
qed

lemma Malloc_gives:
  "\<exists>a blk w'. Malloc L n w = Some ((a, blk), w') \<and> n \<le> length blk \<and> incoming w' = incoming w \<and> sent w' = sent w"
  using allocs [of n w] by (auto simp: Malloc_def)

end

section \<open>Buffered output\<close>

text \<open>
  Putting bytes into a buffer that is emptied when it is full: \<open>inv\<close> holds of the stream, and \<open>sends s w bs
  s' w'\<close> relates the states before and after \<open>bs\<close> were put.
\<close>

locale buffered_writer =
  fixes L :: "'w os_lib" and q :: FCGX_Request and inv :: "FCGX_Stream \<Rightarrow> bool"
    and sends :: "FCGX_Stream \<Rightarrow> 'w \<Rightarrow> byte list \<Rightarrow> FCGX_Stream \<Rightarrow> 'w \<Rightarrow> bool"
  assumes inv_stream: "inv s \<Longrightarrow> \<not> isClosed s \<and> \<not> isReader s \<and> wrNext s \<le> stop s"
    and flushes: "inv s \<Longrightarrow>
      \<exists>s' w'. flush_buffer L (s, q, w) = Some (s', q, w') \<and> inv s' \<and> wrNext s' < stop s' \<and> sends s w [] s' w'"
    and puts: "inv s \<Longrightarrow> wrNext s + length bs \<le> stop s \<Longrightarrow>
      \<exists>s'. put_ready bs s = Some s' \<and> inv s' \<and> wrNext s' = wrNext s + length bs \<and> stop s' = stop s \<and> sends s w bs s' w"
    and sends_trans: "sends s w a s1 w1 \<Longrightarrow> sends s1 w1 b s2 w2 \<Longrightarrow> sends s w (a @ b) s2 w2"
begin

lemma put_str_loop_sends:
  assumes "inv s" "str \<noteq> []"
  shows "\<exists>s' w'. put_str_loop L str (s, q, w) = Some (True, s', q, w') \<and> inv s' \<and> sends s w str s' w'"
  using assms
proof (induction "2 * length str + (if wrNext s = stop s then 1 else 0)" arbitrary: str s w rule: less_induct)
  case less
  note st = inv_stream [OF \<open>inv s\<close>]
  let ?m = "min (length str) (stop s - wrNext s)"
  have fits: "wrNext s + length (take ?m str) \<le> stop s" using st by auto
  from puts [OF \<open>inv s\<close> fits, of w] obtain s1 where s1:
    "put_ready (take ?m str) s = Some s1" "inv s1" "wrNext s1 = wrNext s + ?m" "stop s1 = stop s"
    "sends s w (take ?m str) s1 w"
    by auto
  note st1 = inv_stream [OF s1(2)]
  show ?case
  proof (cases "wrNext s \<noteq> stop s \<and> ?m = length str")
    case True
    then show ?thesis using s1 by (subst put_str_loop.simps) (simp add: Let_def)
  next
    case False
    from flushes [OF s1(2), of w] obtain s2 w2 where s2:
      "flush_buffer L (s1, q, w) = Some (s2, q, w2)" "inv s2" "wrNext s2 < stop s2" "sends s1 w [] s2 w2"
      by blast
    have rest: "drop ?m str \<noteq> []"
      using False st less.prems(2) by (cases "wrNext s = stop s") auto
    have dec: "2 * length (drop ?m str) + (if wrNext s2 = stop s2 then 1 else 0)
        < 2 * length str + (if wrNext s = stop s then 1 else 0)"
      using s2(3) st less.prems(2) by (cases "wrNext s = stop s") auto
    from less.hyps [OF dec s2(2) rest, of w2] obtain s3 w3 where s3:
      "put_str_loop L (drop ?m str) (s2, q, w2) = Some (True, s3, q, w3)" "inv s3"
      "sends s2 w2 (drop ?m str) s3 w3"
      by blast
    have "sends s w ((take ?m str @ []) @ drop ?m str) s3 w3"
      by (rule sends_trans [OF sends_trans [OF s1(5) s2(4)] s3(3)])
    then have all: "sends s w str s3 w3" by simp
    show ?thesis
      using False s1(1,3) st1 s2(1) s3 all
      by (subst put_str_loop.simps) (auto simp: Let_def)
  qed
qed

lemma put_str_sends:
  assumes "inv s"
  shows "\<exists>s' w'. FCGX_PutStr L str (s, q, w) = Some (int (length str), s', q, w') \<and> inv s' \<and> sends s w str s' w'"
proof (cases "wrNext s + length str \<le> stop s")
  case True
  from puts [OF assms True, of w] obtain s1 where
    "put_ready str s = Some s1" "inv s1" "sends s w str s1 w" by blast
  then show ?thesis using True by (simp add: FCGX_PutStr_def)
next
  case False
  then have "str \<noteq> []" using inv_stream [OF assms] by auto
  from put_str_loop_sends [OF assms this, of w] show ?thesis
    using False by (auto simp: FCGX_PutStr_def)
qed

lemma put_char_sends:
  assumes "inv s"
  shows "\<exists>s' w'. FCGX_PutChar L c (s, q, w) = Some (uint (word_of_int c :: byte), s', q, w') \<and>
    inv s' \<and> sends s w [word_of_int c] s' w'"
proof (cases "wrNext s = stop s")
  case False
  then have "wrNext s + length [word_of_int c :: byte] \<le> stop s" using inv_stream [OF assms] by simp
  from puts [OF assms this, of w] show ?thesis
    using False by (auto simp: FCGX_PutChar_def put_ready_def Let_def)
next
  case True
  from flushes [OF assms, of w] obtain s1 w1 where s1:
    "flush_buffer L (s, q, w) = Some (s1, q, w1)" "inv s1" "wrNext s1 < stop s1" "sends s w [] s1 w1"
    by blast
  then have "wrNext s1 + length [word_of_int c :: byte] \<le> stop s1" by simp
  from puts [OF s1(2) this, of w1] obtain s2 where s2: "put_ready [word_of_int c] s1 = Some s2" "inv s2"
    "sends s1 w1 [word_of_int c] s2 w1"
    by blast
  have "sends s w [word_of_int c] s2 w1" using sends_trans [OF s1(4) s2(3)] by simp
  then show ?thesis
    using True s1 s2 inv_stream [OF assms] by (auto simp: FCGX_PutChar_def put_ready_def Let_def)
qed

end


section \<open>Writers of a stream\<close>

text \<open>Between operations the first eight bytes of the buffer are kept free for a header.\<close>

definition writer_ok :: "FCGX_Stream \<Rightarrow> bool" where
  "writer_ok s =
     (\<not> isReader s \<and> \<not> isClosed s \<and> \<not> wasFCloseCalled s \<and> \<not> rawWrite s \<and> FCGI_errno s = 0 \<and>
      bufflen s mod 8 = 0 \<and> 16 \<le> bufflen s \<and> bufflen s \<le> 65536 \<and> bufflen s \<le> length (buff s) \<and>
      stop s = bufflen s \<and> 8 \<le> wrNext s \<and> wrNext s \<le> bufflen s)"

definition pending :: "FCGX_Stream \<Rightarrow> byte list" where
  "pending s = take (wrNext s - 8) (drop 8 (buff s))"

text \<open>The bytes \<open>bs\<close> were put between the two states: what was pending and they are sent, or pending now.\<close>

definition stream_sends ::
  "('w \<Rightarrow> byte list) \<Rightarrow> ('w \<Rightarrow> byte list) \<Rightarrow> int \<Rightarrow> FCGX_Stream \<Rightarrow> 'w \<Rightarrow> byte list \<Rightarrow> FCGX_Stream \<Rightarrow> 'w \<Rightarrow> bool" where
  "stream_sends incoming sent rid s w bs s' w' =
     (incoming w' = incoming w \<and> st_type s' = st_type s \<and>
      (isAnythingWritten s \<longrightarrow> isAnythingWritten s') \<and>
      (\<exists>d x. sent w' = sent w @ d \<and> wire (st_type s) rid d x \<and> x @ pending s' = pending s @ bs \<and>
             (d \<noteq> [] \<longrightarrow> isAnythingWritten s')))"

lemma stream_sends_trans:
  assumes "stream_sends i o' rid s w a s1 w1" "stream_sends i o' rid s1 w1 b s2 w2"
  shows "stream_sends i o' rid s w (a @ b) s2 w2"
proof -
  obtain d x where d: "o' w1 = o' w @ d" "wire (st_type s) rid d x" "x @ pending s1 = pending s @ a"
    "d \<noteq> [] \<longrightarrow> isAnythingWritten s1"
    using assms(1) by (auto simp: stream_sends_def)
  obtain e y where e: "o' w2 = o' w1 @ e" "wire (st_type s1) rid e y" "y @ pending s2 = pending s1 @ b"
    "e \<noteq> [] \<longrightarrow> isAnythingWritten s2"
    using assms(2) by (auto simp: stream_sends_def)
  have ty: "st_type s1 = st_type s" "st_type s2 = st_type s1" "i w2 = i w"
    "isAnythingWritten s \<longrightarrow> isAnythingWritten s1" "isAnythingWritten s1 \<longrightarrow> isAnythingWritten s2"
    using assms by (auto simp: stream_sends_def)
  have "(x @ y) @ pending s2 = pending s @ a @ b" using d e by (metis append.assoc)
  moreover have "wire (st_type s) rid (d @ e) (x @ y)" using d e ty by (auto intro: wire_append)
  moreover have "o' w2 = o' w @ d @ e" using d e by simp
  moreover have "d @ e \<noteq> [] \<longrightarrow> isAnythingWritten s2" using d e ty by auto
  ultimately show ?thesis using ty unfolding stream_sends_def by metis
qed

lemma MakeHeader_bytes:
  assumes "length c \<le> 65535" "length p \<le> 255"
  shows "\<exists>h. MakeHeader ty rid (int (length c)) (int (length p)) = Some h \<and>
    header_bytes h @ c @ p = rec_bytes \<lparr>rec_type = ty, rec_id = rid, rec_content = c, rec_padding = p\<rparr>"
  using assms by (simp add: MakeHeader_def header_bytes_def rec_bytes_def FCGI_MAX_LENGTH_def FCGI_VERSION_1_def)

text \<open>The buffer after the header was filled in holds exactly the record of the pending bytes.\<close>

lemma length_header_bytes [simp]: "length (header_bytes h) = 8"
  by (simp add: header_bytes_def)

lemma encapsulate_record:
  assumes ok: "writer_ok s"
  shows "\<exists>b n. encapsulate s q = Some (s\<lparr>buff := b, wrNext := n\<rparr>) \<and>
    take n b = (if pending s = [] then [] else rec_bytes (content_rec (st_type s) (requestId q) (pending s))) \<and>
    n \<le> bufflen s \<and> length b = length (buff s)"
proof (cases "wrNext s = 8")
  case True
  then show ?thesis using ok
    by (intro exI [of _ "buff s"] exI [of _ 0]) (simp add: encapsulate_def writer_ok_def pending_def FCGI_HEADER_LEN_def Let_def)
next
  case False
  obtain n where wn: "wrNext s = 8 + n" "0 < n" using ok False
    by (metis add_diff_inverse_nat leD le_neq_implies_less writer_ok_def zero_less_diff)
  let ?c = "pending s" and ?p = "replicate (pad8 n) (0 :: byte)"
  have raw: "\<not> rawWrite s" and len: "length ?c = n" and n: "n \<le> 65528"
    and room: "8 + n \<le> bufflen s" "bufflen s \<le> length (buff s)"
    using ok wn by (auto simp: writer_ok_def pending_def)
  then have ne: "?c \<noteq> []" using wn by auto
  have "bufflen s mod 8 = 0" using ok by (simp add: writer_ok_def)
  moreover have "(n + pad8 n) mod 8 = 0" by (rule pad8_mod)
  ultimately have fits: "8 + n + pad8 n \<le> bufflen s"
    using room(1) pad8_small [of n] by presburger
  have cLen: "int (wrNext s) - int FCGI_HEADER_LEN = int n" by (simp add: wn FCGI_HEADER_LEN_def)
  have "n < 2 ^ 30" using n by simp
  then have al: "AlignInt8 (int n) = int (n + pad8 n)"
    by (simp only: AlignInt8_nat pad8_align)
  from MakeHeader_bytes [of ?c ?p "st_type s" "requestId q"] obtain h where h:
    "MakeHeader (st_type s) (requestId q) (int n) (int (pad8 n)) = Some h"
    "header_bytes h @ ?c @ ?p = rec_bytes (content_rec (st_type s) (requestId q) ?c)"
    using n pad8_small [of n] by (auto simp: content_rec_def len)
  obtain b1 where b1: "b1 = take (8 + n) (buff s) @ ?p @ drop (8 + n + pad8 n) (buff s)" by blast
  have w1: "mem_write (buff s) (wrNext s) ?p = Some b1"
    using fits room by (simp add: mem_write_def wn b1)
  obtain b2 where b2: "b2 = header_bytes h @ drop 8 b1" by blast
  have lb1: "length b1 = length (buff s)" using fits room by (simp add: b1)
  have w2: "mem_write b1 0 (header_bytes h) = Some b2"
    using room lb1 by (simp add: mem_write_def b2)
  have "nat (int (n + pad8 n) - int n) = pad8 n" "int (n + pad8 n) - int n = int (pad8 n)" by simp_all
  then have enc: "encapsulate s q = Some (s\<lparr>buff := b2, wrNext := wrNext s + pad8 n\<rparr>)"
    unfolding encapsulate_def Let_def cLen al using raw wn(2) w1 w2 h(1) by simp
  have d8: "drop 8 b1 = ?c @ ?p @ drop (8 + n + pad8 n) (buff s)"
    using room by (simp add: b1 pending_def drop_take wn)
  have "take (8 + n + pad8 n) b2 = header_bytes h @ ?c @ ?p"
    unfolding b2 d8 using len by simp
  then show ?thesis
    using enc fits room wn ne h(2) lb1 by (intro exI [of _ b2] exI [of _ "8 + n + pad8 n"]) (simp add: b2)
qed


lemma pending_length: "writer_ok s \<Longrightarrow> length (pending s) = wrNext s - 8 \<and> length (pending s) \<le> 65528"
  by (auto simp: writer_ok_def pending_def)

lemma rec_bytes_nonempty [simp]: "rec_bytes r \<noteq> []" "[] \<noteq> rec_bytes r"
  by (simp_all add: rec_bytes_def)

lemma wire_pending:
  "writer_ok s \<Longrightarrow>
   wire ty rid (if pending s = [] then [] else rec_bytes (content_rec ty rid (pending s))) (pending s)"
  using pending_length [of s] by (auto intro: wire_single)

text \<open>A request whose connection works.\<close>

locale request_connection = connection L "ipcFd q" incoming sent
  for L :: "'w os_lib" and q :: FCGX_Request and incoming sent
begin

lemma flush_sends:
  assumes ok: "writer_ok s"
  shows "\<exists>s' w'. flush_buffer L (s, q, w) = Some (s', q, w') \<and> writer_ok s' \<and> wrNext s' = 8 \<and>
    stream_sends incoming sent (requestId q) s w [] s' w'"
proof -
  let ?d = "if pending s = [] then [] else rec_bytes (content_rec (st_type s) (requestId q) (pending s))"
  from encapsulate_record [OF ok, of q] obtain b n where b: "encapsulate s q = Some (s\<lparr>buff := b, wrNext := n\<rparr>)"
    "take n b = ?d" "n \<le> bufflen s" "length b = length (buff s)"
    by blast
  have room: "n \<le> length b" and raw: "\<not> rawWrite s" using b ok by (auto simp: writer_ok_def)
  show ?thesis
  proof (cases "n = 0")
    case True
    then have "pending s = []" using b(2) by (auto split: if_splits)
    let ?s' = "s\<lparr>buff := b, wrNext := 8\<rparr>"
    have "flush_buffer L (s, q, w) = Some (?s', q, w)"
      using True b(1) raw by (simp add: flush_buffer_def empty_with_def reserve_header_def FCGI_HEADER_LEN_def)
    moreover have "writer_ok ?s'" using ok b(4) by (simp add: writer_ok_def)
    moreover have "stream_sends incoming sent (requestId q) s w [] ?s' w"
      using \<open>pending s = []\<close> by (auto simp: stream_sends_def pending_def intro: exI [of _ "[]"])
    ultimately show ?thesis by fastforce
  next
    case False
    then have ne: "pending s \<noteq> []" using b(2) room by (auto split: if_splits)
    from write_it_all_sends [of ?d w] obtain w1 where w1: "write_it_all L (ipcFd q) ?d w = Some (True, w1)"
      "incoming w1 = incoming w" "sent w1 = sent w @ ?d"
      by blast
    let ?s' = "s\<lparr>buff := b, isAnythingWritten := True, wrNext := 8\<rparr>"
    have "mem_read b 0 n = Some ?d" using room b(2) by (simp add: mem_read_def)
    then have "flush_buffer L (s, q, w) = Some (?s', q, w1)"
      using False b(1) raw w1(1) by (simp add: flush_buffer_def empty_with_def reserve_header_def FCGI_HEADER_LEN_def)
    moreover have "writer_ok ?s'" using ok b(4) by (simp add: writer_ok_def)
    moreover have "stream_sends incoming sent (requestId q) s w [] ?s' w1"
      using w1 wire_pending [OF ok, of "st_type s" "requestId q"] ne
      by (auto simp: stream_sends_def pending_def)
    ultimately show ?thesis by fastforce
  qed
qed

lemma put_ready_sends:
  assumes ok: "writer_ok s" and fits: "wrNext s + length bs \<le> stop s"
  shows "\<exists>s'. put_ready bs s = Some s' \<and> writer_ok s' \<and> wrNext s' = wrNext s + length bs \<and> stop s' = stop s \<and>
    stream_sends incoming sent (requestId q) s w bs s' w"
proof -
  have room: "8 \<le> wrNext s" "wrNext s + length bs \<le> length (buff s)" "wrNext s + length bs \<le> bufflen s"
    using ok fits by (auto simp: writer_ok_def)
  let ?b = "take (wrNext s) (buff s) @ bs @ drop (wrNext s + length bs) (buff s)"
  let ?s' = "s\<lparr>buff := ?b, wrNext := wrNext s + length bs\<rparr>"
  have "put_ready bs s = Some ?s'" using room by (simp add: put_ready_def mem_write_def)
  moreover have "writer_ok ?s'" using ok room by (auto simp: writer_ok_def)
  moreover have "pending ?s' = pending s @ bs" using room by (simp add: pending_def drop_take)
  then have "stream_sends incoming sent (requestId q) s w bs ?s' w"
    by (auto simp: stream_sends_def intro!: exI [of _ "[]"])
  ultimately show ?thesis by auto
qed

end

sublocale request_connection \<subseteq> out: buffered_writer L q writer_ok "stream_sends incoming sent (requestId q)"
proof
  fix s w
  assume ok: "writer_ok s"
  show "\<not> isClosed s \<and> \<not> isReader s \<and> wrNext s \<le> stop s" using ok by (simp add: writer_ok_def)
  from flush_sends [OF ok, of w] obtain s' w' where
    "flush_buffer L (s, q, w) = Some (s', q, w')" "writer_ok s'" "wrNext s' = 8"
    "stream_sends incoming sent (requestId q) s w [] s' w'"
    by blast
  moreover from this(2) have "8 < stop s'" by (simp add: writer_ok_def)
  ultimately show "\<exists>s' w'. flush_buffer L (s, q, w) = Some (s', q, w') \<and> writer_ok s' \<and> wrNext s' < stop s' \<and>
    stream_sends incoming sent (requestId q) s w [] s' w'"
    by auto
next
  fix s w and bs :: "byte list"
  assume "writer_ok s" "wrNext s + length bs \<le> stop s"
  then show "\<exists>s'. put_ready bs s = Some s' \<and> writer_ok s' \<and> wrNext s' = wrNext s + length bs \<and> stop s' = stop s \<and>
    stream_sends incoming sent (requestId q) s w bs s' w"
    by (rule put_ready_sends)
qed (rule stream_sends_trans)


section \<open>Closing a writer\<close>

text \<open>The records that close a stream are put into the buffer as they are.\<close>

definition raw_ok :: "FCGX_Stream \<Rightarrow> bool" where
  "raw_ok s =
     (\<not> isReader s \<and> \<not> isClosed s \<and> rawWrite s \<and> FCGI_errno s = 0 \<and> 0 < bufflen s \<and>
      bufflen s \<le> length (buff s) \<and> stop s = bufflen s \<and> wrNext s \<le> bufflen s)"

definition raw_sends ::
  "('w \<Rightarrow> byte list) \<Rightarrow> ('w \<Rightarrow> byte list) \<Rightarrow> FCGX_Stream \<Rightarrow> 'w \<Rightarrow> byte list \<Rightarrow> FCGX_Stream \<Rightarrow> 'w \<Rightarrow> bool" where
  "raw_sends incoming sent s w bs s' w' =
     (incoming w' = incoming w \<and>
      sent w' @ take (wrNext s') (buff s') = sent w @ take (wrNext s) (buff s) @ bs)"

lemma raw_sends_trans:
  "raw_sends i o' s w a s1 w1 \<Longrightarrow> raw_sends i o' s1 w1 b s2 w2 \<Longrightarrow> raw_sends i o' s w (a @ b) s2 w2"
  unfolding raw_sends_def by (metis append.assoc)

context request_connection
begin

lemma raw_flush_sends:
  assumes ok: "raw_ok s"
  shows "\<exists>s' w'. flush_buffer L (s, q, w) = Some (s', q, w') \<and> raw_ok s' \<and> wrNext s' = 0 \<and>
    raw_sends incoming sent s w [] s' w'"
proof -
  let ?d = "take (wrNext s) (buff s)"
  have raw: "rawWrite s" and room: "wrNext s \<le> length (buff s)" using ok by (auto simp: raw_ok_def)
  show ?thesis
  proof (cases "wrNext s = 0")
    case True
    then have "flush_buffer L (s, q, w) = Some (s, q, w)"
      using raw by (simp add: flush_buffer_def empty_with_def encapsulate_def reserve_header_def)
    then show ?thesis using True ok by (auto simp: raw_sends_def)
  next
    case False
    from write_it_all_sends [of ?d w] obtain w1 where w1: "write_it_all L (ipcFd q) ?d w = Some (True, w1)"
      "incoming w1 = incoming w" "sent w1 = sent w @ ?d"
      by blast
    let ?s' = "s\<lparr>isAnythingWritten := True, wrNext := 0\<rparr>"
    have "mem_read (buff s) 0 (wrNext s) = Some ?d" using room by (simp add: mem_read_def)
    then have "flush_buffer L (s, q, w) = Some (?s', q, w1)"
      using False raw w1(1) by (simp add: flush_buffer_def empty_with_def encapsulate_def reserve_header_def)
    moreover have "raw_ok ?s'" using ok by (simp add: raw_ok_def)
    moreover have "raw_sends incoming sent s w [] ?s' w1" using w1 by (simp add: raw_sends_def)
    ultimately show ?thesis by fastforce
  qed
qed

lemma raw_put_ready_sends:
  assumes ok: "raw_ok s" and fits: "wrNext s + length bs \<le> stop s"
  shows "\<exists>s'. put_ready bs s = Some s' \<and> raw_ok s' \<and> wrNext s' = wrNext s + length bs \<and> stop s' = stop s \<and>
    raw_sends incoming sent s w bs s' w"
proof -
  have room: "wrNext s + length bs \<le> length (buff s)" "wrNext s + length bs \<le> bufflen s"
    using ok fits by (auto simp: raw_ok_def)
  let ?b = "take (wrNext s) (buff s) @ bs @ drop (wrNext s + length bs) (buff s)"
  let ?s' = "s\<lparr>buff := ?b, wrNext := wrNext s + length bs\<rparr>"
  have "put_ready bs s = Some ?s'" using room by (simp add: put_ready_def mem_write_def)
  moreover have "raw_ok ?s'" using ok room by (auto simp: raw_ok_def)
  moreover have "raw_sends incoming sent s w bs ?s' w" using room by (simp add: raw_sends_def)
  ultimately show ?thesis by auto
qed

end

sublocale request_connection \<subseteq> raw: buffered_writer L q raw_ok "raw_sends incoming sent"
proof
  fix s w
  assume ok: "raw_ok s"
  show "\<not> isClosed s \<and> \<not> isReader s \<and> wrNext s \<le> stop s" using ok by (simp add: raw_ok_def)
  from raw_flush_sends [OF ok, of w] obtain s' w' where
    "flush_buffer L (s, q, w) = Some (s', q, w')" "raw_ok s'" "wrNext s' = 0" "raw_sends incoming sent s w [] s' w'"
    by blast
  moreover from this(2) have "0 < stop s'" by (simp add: raw_ok_def)
  ultimately show "\<exists>s' w'. flush_buffer L (s, q, w) = Some (s', q, w') \<and> raw_ok s' \<and> wrNext s' < stop s' \<and>
    raw_sends incoming sent s w [] s' w'"
    by auto
next
  fix s w and bs :: "byte list"
  assume "raw_ok s" "wrNext s + length bs \<le> stop s"
  then show "\<exists>s'. put_ready bs s = Some s' \<and> raw_ok s' \<and> wrNext s' = wrNext s + length bs \<and> stop s' = stop s \<and>
    raw_sends incoming sent s w bs s' w"
    by (rule raw_put_ready_sends)
qed (rule raw_sends_trans)

text \<open>What closing sends: the pending bytes, the end of the stream, and the end of the request.\<close>

definition closing_bytes :: "FCGX_Stream \<Rightarrow> FCGX_Request \<Rightarrow> byte list" where
  "closing_bytes s q =
     (if pending s = [] then [] else rec_bytes (content_rec (st_type s) (requestId q) (pending s))) @
     (if st_type s = FCGI_STDERR \<and> pending s = [] \<and> \<not> isAnythingWritten s then []
      else rec_bytes (end_rec (st_type s) (requestId q))) @
     (if nWriters q = 1 then rec_bytes (end_request_rec (requestId q) (appStatus q) 0) else [])"

lemma end_header:
  "\<exists>h. MakeHeader ty rid 0 0 = Some h \<and> header_bytes h = rec_bytes (end_rec ty rid)"
  using MakeHeader_bytes [of "[]" "[]" ty rid] by (simp add: end_rec_def)

lemma end_request_header:
  "\<exists>h. MakeHeader FCGI_END_REQUEST rid 8 0 = Some h \<and>
     header_bytes h @ MakeEndRequestBody status p = rec_bytes (end_request_rec rid status p)"
  using MakeHeader_bytes [of "MakeEndRequestBody status p" "[]" FCGI_END_REQUEST rid]
  by (simp add: end_request_rec_def MakeEndRequestBody_def)

context request_connection
begin

lemma write_close_records:
  assumes ok: "raw_ok (s\<lparr>rawWrite := True\<rparr>)"
  shows "\<exists>s' w'. WriteCloseRecords L (s, q, w) = Some (s', q\<lparr>nWriters := nWriters q - 1\<rparr>, w') \<and> raw_ok s' \<and>
    raw_sends incoming sent (s\<lparr>rawWrite := True\<rparr>) w
      ((if st_type s = FCGI_STDERR \<and> wrNext s = 0 \<and> \<not> isAnythingWritten s then []
        else rec_bytes (end_rec (st_type s) (requestId q))) @
       (if nWriters q = 1 then rec_bytes (end_request_rec (requestId q) (appStatus q) 0) else [])) s' w'"
proof -
  let ?s = "s\<lparr>rawWrite := True\<rparr>"
  let ?none = "st_type s = FCGI_STDERR \<and> wrNext s = 0 \<and> \<not> isAnythingWritten s"
  let ?e = "if ?none then [] else rec_bytes (end_rec (st_type s) (requestId q))"
  obtain h where h: "MakeHeader (st_type s) (requestId q) 0 0 = Some h"
    "header_bytes h = rec_bytes (end_rec (st_type s) (requestId q))"
    using end_header by blast
  obtain g where g: "MakeHeader FCGI_END_REQUEST (requestId q) 8 0 = Some g"
    "header_bytes g @ MakeEndRequestBody (appStatus q) 0 = rec_bytes (end_request_rec (requestId q) (appStatus q) 0)"
    using end_request_header by blast
  from raw.put_str_sends [OF ok, of "header_bytes h" w] obtain s2 w2 where s2:
    "FCGX_PutStr L (header_bytes h) (?s, q, w) = Some (int (length (header_bytes h)), s2, q, w2)" "raw_ok s2"
    "raw_sends incoming sent ?s w (header_bytes h) s2 w2"
    by blast
  let ?s2 = "if ?none then ?s else s2" and ?w2 = "if ?none then w else w2"
  have first: "raw_ok ?s2" "raw_sends incoming sent ?s w ?e ?s2 ?w2"
    using ok s2 h(2) by (auto simp: raw_sends_def)
  from raw.put_str_sends [OF first(1), of "header_bytes g @ MakeEndRequestBody (appStatus q) 0" ?w2]
  obtain s3 w3 where s3: "FCGX_PutStr L (header_bytes g @ MakeEndRequestBody (appStatus q) 0) (?s2, q, ?w2) =
      Some (int (length (header_bytes g @ MakeEndRequestBody (appStatus q) 0)), s3, q, w3)" "raw_ok s3"
    "raw_sends incoming sent ?s2 ?w2 (header_bytes g @ MakeEndRequestBody (appStatus q) 0) s3 w3"
    by blast
  let ?s3 = "if nWriters q = 1 then s3 else ?s2" and ?w3 = "if nWriters q = 1 then w3 else ?w2"
  have both: "raw_ok ?s3"
    "raw_sends incoming sent ?s w
      (?e @ (if nWriters q = 1 then rec_bytes (end_request_rec (requestId q) (appStatus q) 0) else [])) ?s3 ?w3"
    using first s3(2) raw_sends_trans [OF first(2) s3(3)] g(2) by auto
  have "WriteCloseRecords L (s, q, w) = Some (?s3, q\<lparr>nWriters := nWriters q - 1\<rparr>, ?w3)"
    using s2(1) s3(1) h(1) g(1) by (cases ?none; cases "nWriters q = 1") (auto simp: WriteCloseRecords_def Let_def)
  then show ?thesis using both by blast
qed

lemma close_sends:
  assumes ok: "writer_ok s"
  shows "\<exists>s' w'. FCGX_FClose L (s, q, w) = Some (0, s', q\<lparr>nWriters := nWriters q - 1\<rparr>, w') \<and>
    isClosed s' \<and> wasFCloseCalled s' \<and> FCGI_errno s' = 0 \<and> incoming w' = incoming w \<and>
    sent w' = sent w @ closing_bytes s q"
proof -
  from encapsulate_record [OF ok, of q] obtain b n where b: "encapsulate s q = Some (s\<lparr>buff := b, wrNext := n\<rparr>)"
    "take n b = (if pending s = [] then [] else rec_bytes (content_rec (st_type s) (requestId q) (pending s)))"
    "n \<le> bufflen s" "length b = length (buff s)"
    by blast
  let ?s1 = "s\<lparr>buff := b, wrNext := n\<rparr>"
  have raw: "raw_ok (?s1\<lparr>rawWrite := True\<rparr>)" using ok b by (auto simp: writer_ok_def raw_ok_def)
  have n0: "n = 0 \<longleftrightarrow> pending s = []" using b(2,3,4) ok by (cases "n = 0") (auto simp: writer_ok_def split: if_splits)
  from write_close_records [OF raw, of w] obtain s2 w2 where s2:
    "WriteCloseRecords L (?s1, q, w) = Some (s2, q\<lparr>nWriters := nWriters q - 1\<rparr>, w2)" "raw_ok s2"
    "raw_sends incoming sent (?s1\<lparr>rawWrite := True\<rparr>) w
      ((if st_type s = FCGI_STDERR \<and> n = 0 \<and> \<not> isAnythingWritten s then []
        else rec_bytes (end_rec (st_type s) (requestId q))) @
       (if nWriters q = 1 then rec_bytes (end_request_rec (requestId q) (appStatus q) 0) else [])) s2 w2"
    by (auto cong: if_cong)
  have w2: "incoming w2 = incoming w" "sent w2 @ take (wrNext s2) (buff s2) = sent w @ closing_bytes s q"
    using s2(3) b(2) n0 by (auto simp: raw_sends_def closing_bytes_def)
  have room: "wrNext s2 \<le> length (buff s2)" "rawWrite s2" "FCGI_errno s2 = 0" "\<not> isReader s2" using s2(2) by (auto simp: raw_ok_def)
  from write_it_all_sends [of "take (wrNext s2) (buff s2)" w2] obtain w3 where w3:
    "write_it_all L (ipcFd q) (take (wrNext s2) (buff s2)) w2 = Some (True, w3)" "incoming w3 = incoming w2"
    "sent w3 = sent w2 @ take (wrNext s2) (buff s2)"
    by blast
  have ready: "\<not> wasFCloseCalled s" "\<not> isReader s" using ok by (auto simp: writer_ok_def)
  show ?thesis
  proof (cases "wrNext s2 = 0")
    case True
    then show ?thesis
      using b(1) s2(1) room ready w2
      by (simp add: FCGX_FClose_def EmptyBuffProc_def empty_with_def reserve_header_def Let_def)
  next
    case False
    then show ?thesis
      using b(1) s2(1) room ready w2 w3
      by (simp add: FCGX_FClose_def EmptyBuffProc_def empty_with_def reserve_header_def Let_def mem_read_def)
  qed
qed

end


section \<open>A writer from its creation to its end\<close>

lemma AlignPtr8_offset: "unat (AlignPtr8 p - p) < 8"
proof -
  let ?x = "p + 7"
  have seven: "(7 :: u64) = mask 3" by (simp add: mask_eq_exp_minus_1)
  have "and ?x (not 7) + and ?x 7 = or (and ?x (not 7)) (and ?x 7)"
    by (rule disjunctive_add_eq_or) (rule bit_word_eqI, auto simp: bit_simps)
  also have "\<dots> = ?x" by (rule bit_word_eqI) (auto simp: bit_simps)
  finally have off: "and ?x (not 7) - p = 7 - and ?x 7" by (simp add: algebra_simps)
  have "unat (and ?x 7) = take_bit 3 (unat ?x)"
    unfolding seven by (simp only: take_bit_eq_mask [symmetric] unsigned_take_bit_eq)
  then have small: "unat (and ?x 7) < 8"
    using take_bit_nat_less_exp [of 3 "unat ?x"] by simp
  have "unat (7 - and ?x 7) < 8"
    using small by (subst unat_sub) (auto simp: word_le_nat_alt)
  then show ?thesis unfolding AlignPtr8_def off by (simp only: add_diff_cancel_left')
qed

lemma stream_buffer_size:
  fixes len :: nat
  defines "n \<equiv> nat (AlignInt8 (int (min (max len 32) 65536)))"
  shows "n mod 8 = 0" "32 \<le> n" "n \<le> 65536"
proof -
  let ?m = "min (max len 32) 65536"
  have m: "32 \<le> ?m" "?m \<le> 65536" by auto
  then have "?m < 2 ^ 30" by simp
  then have n: "n = (?m + 7) div 8 * 8" unfolding n_def by (simp only: AlignInt8_nat nat_int)
  show "n mod 8 = 0" by (simp add: n)
  have "(?m + 7) div 8 \<ge> (32 + 7) div 8" using m by (intro div_le_mono) simp
  then show "32 \<le> n" unfolding n by simp
  have "(?m + 7) div 8 \<le> (65536 + 7) div 8" using m by (intro div_le_mono) simp
  then show "n \<le> 65536" unfolding n by simp
qed

context connection
begin

lemma new_stream:
  "\<exists>s w'. NewStream L len reader ty w = Some (s, w') \<and> incoming w' = incoming w \<and> sent w' = sent w \<and>
     st_type s = ty \<and> isReader s = reader \<and> \<not> isAnythingWritten s \<and> \<not> isClosed s \<and> FCGI_errno s = 0 \<and>
     \<not> wasFCloseCalled s \<and> \<not> rawWrite s \<and> \<not> eorStop s \<and> \<not> skip s \<and> contentLen s = 0 \<and> paddingLen s = 0 \<and>
     bufflen s mod 8 = 0 \<and> 24 \<le> bufflen s \<and> bufflen s \<le> 65536 \<and> bufflen s \<le> length (buff s) \<and>
     (reader \<longrightarrow> rdNext s = 0 \<and> stop s = 0 \<and> buffStop s = 0 \<and> wrNext s = 0) \<and>
     (\<not> reader \<longrightarrow> wrNext s = 8 \<and> stop s = bufflen s)"
proof -
  obtain a1 b1 w1 where w1: "Malloc L sizeof_FCGX_Stream w = Some ((a1, b1), w1)" "incoming w1 = incoming w"
    "sent w1 = sent w"
    using Malloc_gives by blast
  obtain a2 b2 w2 where w2: "Malloc L sizeof_FCGX_Stream_Data w1 = Some ((a2, b2), w2)" "incoming w2 = incoming w1"
    "sent w2 = sent w1"
    using Malloc_gives by blast
  obtain n where n: "n = nat (AlignInt8 (int (min (max len 32) 65536)))" by blast
  note n_bounds = stream_buffer_size [of len, folded n]
  obtain a3 blk w3 where w3: "Malloc L n w2 = Some ((a3, blk), w3)" "n \<le> length blk" "incoming w3 = incoming w2"
    "sent w3 = sent w2"
    using Malloc_gives by blast
  have off: "unat (AlignPtr8 a3 - a3) < 8" by (rule AlignPtr8_offset)
  have "(n - 8) mod 8 = 0" using n_bounds by presburger
  then show ?thesis
    using w1 w2 w3 n_bounds off
    by (auto simp: NewStream_def Let_def n [symmetric] FCGI_HEADER_LEN_def)
qed

lemma new_writer:
  "\<exists>s w'. NewWriter L len ty w = Some (s, w') \<and> incoming w' = incoming w \<and> sent w' = sent w \<and>
     writer_ok s \<and> pending s = [] \<and> st_type s = ty \<and> \<not> isAnythingWritten s"
  using new_stream [of len False ty w] by (fastforce simp: NewWriter_def writer_ok_def pending_def)

end

text \<open>The calls a client makes of an open writer, and the bytes they put.\<close>

datatype writer_call = PutStr "byte list" | PutChar int | Flush

fun call_bytes :: "writer_call \<Rightarrow> byte list" where
  "call_bytes (PutStr bs) = bs"
| "call_bytes (PutChar c) = [word_of_int c]"
| "call_bytes Flush = []"

fun run_call :: "'w os_lib \<Rightarrow> writer_call \<Rightarrow> 'w io \<Rightarrow> (int \<times> 'w io) option" where
  "run_call L (PutStr bs) \<sigma> = FCGX_PutStr L bs \<sigma>"
| "run_call L (PutChar c) \<sigma> = FCGX_PutChar L c \<sigma>"
| "run_call L Flush \<sigma> = FCGX_FFlush L \<sigma>"

text \<open>The calls one after the other, until one reports an error.\<close>

fun run_calls :: "'w os_lib \<Rightarrow> writer_call list \<Rightarrow> 'w io \<Rightarrow> (bool \<times> 'w io) option" where
  "run_calls L [] \<sigma> = Some (True, \<sigma>)"
| "run_calls L (c # cs) \<sigma> = do {
     (r, \<sigma>1) \<leftarrow> run_call L c \<sigma>;
     if r < 0 then Some (False, \<sigma>1) else run_calls L cs \<sigma>1 }"

context request_connection
begin

lemma run_call_sends:
  assumes ok: "writer_ok s"
  shows "\<exists>r s' w'. run_call L c (s, q, w) = Some (r, s', q, w') \<and> 0 \<le> r \<and> writer_ok s' \<and>
    stream_sends incoming sent (requestId q) s w (call_bytes c) s' w'"
proof (cases c)
  case (PutStr bs)
  then show ?thesis using out.put_str_sends [OF ok, of bs w] by auto
next
  case (PutChar x)
  then show ?thesis using out.put_char_sends [OF ok, of x w] by auto
next
  case Flush
  have "\<not> isClosed s" "\<not> isReader s" using ok by (auto simp: writer_ok_def)
  moreover obtain s' w' where s': "flush_buffer L (s, q, w) = Some (s', q, w')" "writer_ok s'"
    "stream_sends incoming sent (requestId q) s w [] s' w'"
    using flush_sends [OF ok] by blast
  moreover have "\<not> isClosed s'" using s' by (simp add: writer_ok_def)
  ultimately show ?thesis using Flush by (auto simp: FCGX_FFlush_def EmptyBuffProc_False)
qed

lemma run_calls_sends:
  assumes "writer_ok s"
  shows "\<exists>s' w'. run_calls L cs (s, q, w) = Some (True, s', q, w') \<and> writer_ok s' \<and>
    stream_sends incoming sent (requestId q) s w (concat (map call_bytes cs)) s' w'"
  using assms
proof (induction cs arbitrary: s w)
  case Nil
  then show ?case by (auto simp: stream_sends_def intro: exI [of _ "[]"])
next
  case (Cons c cs)
  from run_call_sends [OF Cons.prems] obtain r s1 w1 where 1: "run_call L c (s, q, w) = Some (r, s1, q, w1)"
    "0 \<le> r" "writer_ok s1" "stream_sends incoming sent (requestId q) s w (call_bytes c) s1 w1"
    by blast
  from Cons.IH [OF 1(3)] obtain s2 w2 where 2: "run_calls L cs (s1, q, w1) = Some (True, s2, q, w2)" "writer_ok s2"
    "stream_sends incoming sent (requestId q) s1 w1 (concat (map call_bytes cs)) s2 w2"
    by blast
  then show ?case using 1 stream_sends_trans [OF 1(4) 2(3)] by auto
qed

end

end
