(* ===== verification/LA_Fcgi_Source.thy ===== *)
theory LA_Fcgi_Source
  imports LA_Fcgi
begin

text \<open>
  Reading a FastCGI stream, whatever fills its buffer: the interface of \<open>fillBuffProc\<close> as a locale, and what the
  functions that read bytes, strings, lines and name-value pairs deliver from it.
\<close>

section \<open>Reading from any source of bytes\<close>

text \<open>
  The interface between the functions that read a stream and the procedure that fills its buffer:
  \<open>feeds s w xs\<close> says that the stream has \<open>xs\<close> left to deliver, \<open>ended\<close> that it is at its end. Where \<open>ends\<close>
  holds, the end is recognised when the buffer is to be filled once more.
\<close>

locale byte_source =
  fixes L :: "'w os_lib" and fill :: "'w io \<Rightarrow> 'w io option" and q :: FCGX_Request
    and feeds :: "FCGX_Stream \<Rightarrow> 'w \<Rightarrow> byte list \<Rightarrow> bool" and ended :: "FCGX_Stream \<Rightarrow> 'w \<Rightarrow> bool" and ends :: bool
  assumes stream: "feeds s w xs \<Longrightarrow>
      \<not> isClosed s \<and> isReader s \<and> rdNext s \<le> stop s \<and> stop s \<le> length (buff s) \<and> stop s - rdNext s \<le> length xs \<and>
      take (stop s - rdNext s) (drop (rdNext s) (buff s)) = take (stop s - rdNext s) xs"
    and fills: "feeds s w xs \<Longrightarrow> rdNext s = stop s \<Longrightarrow> xs \<noteq> [] \<Longrightarrow>
      \<exists>s' w'. fill (s, q, w) = Some (s', q, w') \<and> feeds s' w' xs \<and> rdNext s' < stop s'"
    and fills_end: "ends \<Longrightarrow> feeds s w [] \<Longrightarrow> \<exists>s' w'. fill (s, q, w) = Some (s', q, w') \<and> isClosed s' \<and> ended s' w'"
    and advance: "feeds s w xs \<Longrightarrow> n \<le> stop s - rdNext s \<Longrightarrow> feeds (s\<lparr>rdNext := rdNext s + n\<rparr>) w (drop n xs)"
    and unget: "feeds s w xs \<Longrightarrow> feeds (s\<lparr>stopUnget := u\<rparr>) w xs"
    and alloc: "feeds s w xs \<Longrightarrow> \<exists>a blk w'. Malloc L n w = Some ((a, blk), w') \<and> feeds s w' xs"
    and grow: "feeds s w xs \<Longrightarrow> \<exists>w'. realloc_op L n w = (True, w') \<and> feeds s w' xs"
begin

lemma empty_stream: "feeds s w [] \<Longrightarrow> rdNext s = stop s"
  using stream [of s w "[]"] by simp

lemma next_byte_feeds:
  assumes f: "feeds s w (x # xs)" and r: "rdNext s < stop s"
  shows "\<exists>s'. next_byte s = Some (uint x, s') \<and> feeds s' w xs"
proof -
  note st = stream [OF f]
  have "take 1 (drop (rdNext s) (buff s)) = take 1 (x # xs)"
    by (rule take_take_le [where m = "stop s - rdNext s"]) (use st r in auto)
  moreover have "feeds (s\<lparr>rdNext := rdNext s + 1\<rparr>) w (drop 1 (x # xs))"
    using r by (intro advance [OF f]) simp
  ultimately show ?thesis using st r by (simp add: next_byte_def mem_read_def)
qed

lemma get_char:
  assumes f: "feeds s w (x # xs)"
  shows "\<exists>s' w'. FCGX_GetChar fill (s, q, w) = Some (uint x, s', q, w') \<and> feeds s' w' xs"
proof (cases "rdNext s = stop s")
  case False
  then have "rdNext s < stop s" using stream [OF f] by simp
  from next_byte_feeds [OF f this] show ?thesis
    using False stream [OF f] by (auto simp: FCGX_GetChar_def)
next
  case True
  from fills [OF f True] obtain s1 w1 where s1: "fill (s, q, w) = Some (s1, q, w1)" "feeds s1 w1 (x # xs)"
    "rdNext s1 < stop s1"
    by blast
  from next_byte_feeds [OF unget [OF s1(2)], of "Some (rdNext s1)"] s1(3) obtain s2 where
    "next_byte (s1\<lparr>stopUnget := Some (rdNext s1)\<rparr>) = Some (uint x, s2)" "feeds s2 w1 xs"
    by auto
  then show ?thesis using True s1 stream [OF f] stream [OF s1(2)] by (auto simp: FCGX_GetChar_def)
qed

lemma get_char_end:
  assumes f: "feeds s w []" and e: ends
  shows "\<exists>s' w'. FCGX_GetChar fill (s, q, w) = Some (EOF, s', q, w') \<and> ended s' w'"
  using fills_end [OF e f] stream [OF f] empty_stream [OF f] by (auto simp: FCGX_GetChar_def)

lemma take_ready_feeds:
  assumes f: "feeds s w xs"
  shows "\<exists>s'. take_ready n s = Some (take (min n (stop s - rdNext s)) xs, s') \<and>
    feeds s' w (drop (min n (stop s - rdNext s)) xs) \<and> s' = s\<lparr>rdNext := rdNext s + min n (stop s - rdNext s)\<rparr>"
proof -
  let ?m = "min n (stop s - rdNext s)"
  note st = stream [OF f]
  have "take ?m (drop (rdNext s) (buff s)) = take ?m xs"
    by (rule take_take_le [where m = "stop s - rdNext s"]) (use st in auto)
  moreover have "feeds (s\<lparr>rdNext := rdNext s + ?m\<rparr>) w (drop ?m xs)" by (rule advance [OF f]) simp
  moreover have "rdNext s + ?m \<le> length (buff s)" using st by auto
  ultimately show ?thesis by (simp add: take_ready_def Let_def mem_read_def)
qed

text \<open>All bytes that were asked for, or all there are and the end.\<close>

lemma get_str_loop:
  assumes "feeds s w xs" "length moved < n" "n \<le> length moved + length xs \<or> ends"
  shows "\<exists>s' w'. get_str_loop fill n moved (s, q, w) = Some (moved @ take (n - length moved) xs, s', q, w') \<and>
    (if n \<le> length moved + length xs then feeds s' w' (drop (n - length moved) xs) else isClosed s' \<and> ended s' w')"
  using assms
proof (induction "length xs + (if rdNext s = stop s then 1 else 0)" arbitrary: s w xs moved rule: less_induct)
  case less
  let ?k = "n - length moved"
  let ?m = "min ?k (stop s - rdNext s)"
  note st = stream [OF less.prems(1)]
  from take_ready_feeds [OF less.prems(1), of ?k] obtain s1 where s1:
    "take_ready ?k s = Some (take ?m xs, s1)" "feeds s1 w (drop ?m xs)" "s1 = s\<lparr>rdNext := rdNext s + ?m\<rparr>"
    by blast
  note st1 = stream [OF s1(2)]
  have lm: "length (take ?m xs) = ?m" using st by auto
  have total: "length (take ?m xs) + length (drop ?m xs) = length xs" by (metis append_take_drop_id length_append)
  show ?case
  proof (cases "?m = ?k")
    case True
    then have "length (moved @ take ?m xs) = n" using less.prems(2) lm by simp
    moreover have "n \<le> length moved + length xs" using True lm less.prems(2) st by auto
    ultimately show ?thesis using s1(1,2) True by (subst get_str_loop.simps) simp
  next
    case False
    then have m: "?m = stop s - rdNext s" "?m < ?k" by auto
    let ?moved = "moved @ take ?m xs" and ?xs = "drop ?m xs"
    have short: "length ?moved < n" using m lm less.prems(2) by simp
    then have undone: "length (moved @ take ?m xs) \<noteq> n" by simp
    have open1: "\<not> isClosed s1" "isReader s1" using st1 by auto
    have empty: "rdNext s1 = stop s1" using s1(3) m st by simp
    show ?thesis
    proof (cases "?xs = []")
      case True
      then have all: "take ?m xs = xs" using lm by simp
      then have e: ends and nn: "\<not> n \<le> length moved + length xs" using less.prems(3) short by auto
      from fills_end [OF e] s1(2) True obtain s2 w2 where s2: "fill (s1, q, w) = Some (s2, q, w2)"
        "isClosed s2" "ended s2 w2"
        by force
      have "get_str_loop fill n moved (s, q, w) = Some (moved @ xs, s2, q, w2)"
        using s1(1) undone open1 s2(1,2) unfolding all by (subst get_str_loop.simps) simp
      moreover have "take ?k xs = xs" using nn by simp
      ultimately show ?thesis using s2 nn by auto
    next
      case False
      from fills [OF s1(2) empty False] obtain s2 w2 where s2: "fill (s1, q, w) = Some (s2, q, w2)"
        "feeds s2 w2 ?xs" "rdNext s2 < stop s2"
        by blast
      let ?s2 = "s2\<lparr>stopUnget := Some (rdNext s2)\<rparr>"
      have f2: "feeds ?s2 w2 ?xs" by (rule unget [OF s2(2)])
      have open2: "\<not> isClosed s2" using stream [OF s2(2)] by blast
      have step: "get_str_loop fill n moved (s, q, w) = get_str_loop fill n ?moved (?s2, q, w2)"
        using s1(1) undone open1 s2(1) open2 by (subst get_str_loop.simps) simp
      have nz: "(if rdNext ?s2 = stop ?s2 then 1 else 0) = (0 :: nat)" using s2(3) by simp
      have arith: "a < b + (if c then 1 else 0)" if "a + k = b" "k = 0 \<longrightarrow> c" for a b k :: nat and c
        using that by (cases "k = 0") auto
      have "length ?xs + ?m = length xs" using total lm by simp
      moreover have "?m = 0 \<longrightarrow> rdNext s = stop s" using m st by simp
      ultimately have dec: "length ?xs + (if rdNext ?s2 = stop ?s2 then 1 else 0) < length xs + (if rdNext s = stop s then 1 else 0)"
        unfolding nz add_0_right by (rule arith)
      have "n \<le> length ?moved + length ?xs \<or> ends" using less.prems(3) lm st by auto
      from less.hyps [OF dec f2 short this] obtain s3 w3 where s3:
        "get_str_loop fill n ?moved (?s2, q, w2) = Some (?moved @ take (n - length ?moved) ?xs, s3, q, w3)"
        "if n \<le> length ?moved + length ?xs then feeds s3 w3 (drop (n - length ?moved) ?xs) else isClosed s3 \<and> ended s3 w3"
        by blast
      have k: "n - length ?moved = ?k - ?m" using lm by simp
      have t: "take ?m xs @ take (?k - ?m) ?xs = take ?k xs"
        using m(2) by (metis le_add_diff_inverse less_imp_le take_add)
      have d: "drop (?k - ?m) ?xs = drop ?k xs" using m(2) by simp
      have l: "length ?moved + length ?xs = length moved + length xs" using total by simp
      have "get_str_loop fill n moved (s, q, w) = Some (moved @ take ?k xs, s3, q, w3)"
        unfolding step s3(1) k append_assoc t ..
      moreover have "if n \<le> length moved + length xs then feeds s3 w3 (drop ?k xs) else isClosed s3 \<and> ended s3 w3"
        using s3(2) unfolding k d l .
      ultimately show ?thesis by blast
    qed
  qed
qed

lemma get_str:
  assumes f: "feeds s w xs" and n: "n \<le> length xs"
  shows "\<exists>s' w'. FCGX_GetStr fill (int n) (s, q, w) = Some (take n xs, s', q, w') \<and> feeds s' w' (drop n xs)"
proof (cases "n = 0")
  case True
  then show ?thesis using f by (auto simp: FCGX_GetStr_def)
next
  case pos: False
  note st = stream [OF f]
  show ?thesis
  proof (cases "n \<le> stop s - rdNext s")
    case True
    then have "min n (stop s - rdNext s) = n" by simp
    with take_ready_feeds [OF f, of n] obtain s1 where "take_ready n s = Some (take n xs, s1)" "feeds s1 w (drop n xs)"
      by auto
    then show ?thesis using True pos st by (auto simp: FCGX_GetStr_def)
  next
    case False
    with get_str_loop [OF f, of "[]" n] show ?thesis using pos st n by (auto simp: FCGX_GetStr_def)
  qed
qed

lemma get_str_end:
  assumes f: "feeds s w xs" and n: "length xs < n" and e: ends
  shows "\<exists>s' w'. FCGX_GetStr fill (int n) (s, q, w) = Some (xs, s', q, w') \<and> isClosed s' \<and> ended s' w'"
  using get_str_loop [OF f, of "[]" n] stream [OF f] n e by (auto simp: FCGX_GetStr_def)

text \<open>A line: up to the first newline, or as much as fits, or all there is.\<close>

lemma get_line_loop:
  assumes "feeds s w xs" "10 \<notin> set (take n xs)" "n \<le> length xs"
  shows "\<exists>s' w'. get_line_loop fill n line (s, q, w) = Some (Some (line @ take n xs), s', q, w') \<and> feeds s' w' (drop n xs)"
  using assms
proof (induction n arbitrary: s w xs line)
  case 0
  then show ?case by auto
next
  case (Suc n)
  then obtain x ys where xs: "xs = x # ys" "n \<le> length ys" "x \<noteq> 10" "10 \<notin> set (take n ys)"
    by (cases xs) auto
  from get_char Suc.prems(1) xs(1) obtain s1 w1 where 1: "FCGX_GetChar fill (s, q, w) = Some (uint x, s1, q, w1)"
    "feeds s1 w1 ys"
    by blast
  have "uint x \<noteq> 10" using xs(3) by (metis word_of_int_uint word_of_int_numeral)
  moreover have "uint x \<noteq> EOF" using uint_ge_0 [of x] by linarith
  ultimately show ?case using Suc.IH [OF 1(2) xs(4,2), of "line @ [x]"] 1 xs(1) by auto
qed

lemma get_line_newline:
  assumes "feeds s w (xs @ 10 # ys)" "10 \<notin> set xs" "length xs < n"
  shows "\<exists>s' w'. get_line_loop fill n line (s, q, w) = Some (Some (line @ xs @ [10]), s', q, w') \<and> feeds s' w' ys"
  using assms
proof (induction n arbitrary: s w xs line)
  case 0
  then show ?case by simp
next
  case (Suc n)
  show ?case
  proof (cases xs)
    case Nil
    with Suc.prems(1) get_char [of s w 10 ys] show ?thesis by auto
  next
    case (Cons x zs)
    with Suc.prems(1) get_char [of s w x "zs @ 10 # ys"] obtain s1 w1 where
      1: "FCGX_GetChar fill (s, q, w) = Some (uint x, s1, q, w1)" "feeds s1 w1 (zs @ 10 # ys)"
      by auto
    have "uint x \<noteq> 10" using Suc.prems(2) Cons by (metis list.set_intros(1) word_of_int_uint word_of_int_numeral)
    moreover have "uint x \<noteq> EOF" using uint_ge_0 [of x] by linarith
    ultimately show ?thesis
      using Suc.IH [OF 1(2), of "line @ [x]"] 1(1) Suc.prems(2,3) Cons by auto
  qed
qed

lemma get_line:
  assumes "feeds s w (xs @ 10 # ys)" "10 \<notin> set xs" "length xs + 2 \<le> n" "n \<le> length str"
  shows "\<exists>s' w'. FCGX_GetLine fill str (int n) (s, q, w) =
      Some (Some (xs @ [10, 0] @ drop (length xs + 2) str), s', q, w') \<and> feeds s' w' ys"
proof -
  have "nat (int n - 1) = n - 1" "length xs < n - 1" using assms(3) by auto
  then obtain s' w' where "get_line_loop fill (nat (int n - 1)) [] (s, q, w) = Some (Some (xs @ [10]), s', q, w')" "feeds s' w' ys"
    using get_line_newline [OF assms(1,2), of "n - 1" "[]"] by auto
  then show ?thesis using assms(3,4) by (simp add: FCGX_GetLine_def mem_write_def)
qed

end

section \<open>Name-value pairs on the wire\<close>

text \<open>Lengths below 128 take one byte, others four with the highest bit set.\<close>

definition encode_length :: "nat \<Rightarrow> byte list" where
  "encode_length n =
     (if n < 128 then [word_of_nat n]
      else [word_of_nat (128 + n div 2 ^ 24), word_of_nat (n div 2 ^ 16), word_of_nat (n div 2 ^ 8), word_of_nat n])"

definition encode_pair :: "byte list \<times> byte list \<Rightarrow> byte list" where
  "encode_pair nv = encode_length (length (fst nv)) @ encode_length (length (snd nv)) @ fst nv @ snd nv"

definition pair_ok :: "byte list \<times> byte list \<Rightarrow> bool" where
  "pair_ok nv = (length (fst nv) + length (snd nv) + 2 < 2 ^ 31)"

definition pair_entry :: "byte list \<times> byte list \<Rightarrow> byte list" where
  "pair_entry nv = fst nv @ [61] @ snd nv @ [0]"

lemma uint_byte: "uint (word_of_nat n :: byte) = int (n mod 256)"
  by (simp add: unsigned_of_nat take_bit_eq_mod zmod_int)

lemma bytes_of_length:
  assumes "n < 2 ^ 31"
  shows "(uint (word_of_nat (128 + n div 2 ^ 24) :: byte) - 128) * 2 ^ 24 +
    uint (word_of_nat (n div 2 ^ 16) :: byte) * 2 ^ 16 + uint (word_of_nat (n div 2 ^ 8) :: byte) * 2 ^ 8 +
    uint (word_of_nat n :: byte) = int n"
proof -
  let ?a = "n div 256" and ?b = "n div 65536" and ?c = "n div 16777216"
  have "?b = ?a div 256" "?c = ?b div 256"
    using div_mult2_eq [of n 256 256] div_mult2_eq [of n 65536 256] by simp_all
  then have "n = ?a * 256 + n mod 256" "?a = ?b * 256 + ?a mod 256" "?b = ?c * 256 + ?b mod 256"
    by (metis div_mult_mod_eq)+
  then have "int n = int ?c * 16777216 + int (?b mod 256) * 65536 + int (?a mod 256) * 256 + int (n mod 256)"
    by linarith
  moreover have "?c < 128" using assms by simp
  then have "(128 + ?c) mod 256 = 128 + ?c" by (intro mod_less) simp
  ultimately show ?thesis by (simp only: uint_byte) simp
qed

lemma encode_length_cases:
  assumes "n < 2 ^ 31"
  shows "(\<exists>x. encode_length n = [x] \<and> uint x < 128 \<and> uint x = int n) \<or>
    (\<exists>x y z u. encode_length n = [x, y, z, u] \<and> 128 \<le> uint x \<and>
       (uint x - 128) * 2 ^ 24 + uint y * 2 ^ 16 + uint z * 2 ^ 8 + uint u = int n)"
proof (cases "n < 128")
  case True
  then show ?thesis by (simp add: encode_length_def uint_byte)
next
  case False
  have "n div 2 ^ 24 < 128" using assms by simp
  then have "128 \<le> uint (word_of_nat (128 + n div 2 ^ 24) :: byte)" by (simp only: uint_byte) simp
  then show ?thesis using False bytes_of_length [OF assms] by (simp add: encode_length_def)
qed

context byte_source
begin

lemma long_length_head:
  assumes n: "n < 2 ^ 31" and x: "encode_length n = x # ys" and f: "feeds s w (ys @ xs)"
  shows "\<exists>s' w'. long_length fill (uint x) (s, q, w) = Some (Some (int n), s', q, w') \<and> feeds s' w' xs"
  using encode_length_cases [OF n]
proof (elim disjE exE conjE)
  fix x'
  assume "encode_length n = [x']" "uint x' < 128" "uint x' = int n"
  then show ?thesis using x f by (auto simp: long_length_def)
next
  fix x' y z u
  assume e: "encode_length n = [x', y, z, u]" "128 \<le> uint x'"
    "(uint x' - 128) * 2 ^ 24 + uint y * 2 ^ 16 + uint z * 2 ^ 8 + uint u = int n"
  then have ys: "ys = [y, z, u]" "x = x'" using x by auto
  from get_str [OF f, of 3] ys obtain s' w' where "FCGX_GetStr fill 3 (s, q, w) = Some ([y, z, u], s', q, w')" "feeds s' w' xs"
    by auto
  then show ?thesis using e ys by (auto simp: long_length_def)
qed

lemma read_pair_reads:
  assumes ok: "pair_ok nv" and x: "encode_pair nv = x # ys" and f: "feeds s w (ys @ xs)"
  shows "\<exists>s' w'. read_pair L fill (uint x) (s, q, w) = Some (Some (pair_entry nv), s', q, w') \<and> feeds s' w' xs"
proof -
  obtain n v where nv: "nv = (n, v)" by (cases nv)
  have small: "length n < 2 ^ 31" "length v < 2 ^ 31" using ok by (auto simp: pair_ok_def nv)
  have ne: "encode_length k \<noteq> []" for k by (simp add: encode_length_def)
  obtain ls where ls: "encode_length (length n) = x # ls" "ys = ls @ encode_length (length v) @ n @ v"
    using x ne [of "length n"] by (cases "encode_length (length n)") (auto simp: encode_pair_def nv)
  obtain y ms where ms: "encode_length (length v) = y # ms" using ne [of "length v"] by (cases "encode_length (length v)") auto
  have "feeds s w (ls @ y # ms @ n @ v @ xs)" using f ls ms by simp
  from long_length_head [OF small(1) ls(1) this] obtain s1 w1 where
    1: "long_length fill (uint x) (s, q, w) = Some (Some (int (length n)), s1, q, w1)" "feeds s1 w1 (y # ms @ n @ v @ xs)"
    by blast
  from get_char [OF 1(2)] obtain s2 w2 where 2: "FCGX_GetChar fill (s1, q, w1) = Some (uint y, s2, q, w2)"
    "feeds s2 w2 (ms @ n @ v @ xs)"
    by blast
  from long_length_head [OF small(2) ms 2(2)] obtain s3 w3 where
    3: "long_length fill (uint y) (s2, q, w2) = Some (Some (int (length v)), s3, q, w3)" "feeds s3 w3 (n @ v @ xs)"
    by blast
  let ?size = "int (length n) + int (length v) + 2"
  from alloc [OF 3(2), of "nat ?size"] obtain a blk w4 where
    4: "Malloc L (nat ?size) w3 = Some ((a, blk), w4)" "feeds s3 w4 (n @ v @ xs)"
    by blast
  from get_str [OF 4(2), of "length n"] obtain s5 w5 where
    5: "FCGX_GetStr fill (int (length n)) (s3, q, w4) = Some (n, s5, q, w5)" "feeds s5 w5 (v @ xs)"
    by auto
  from get_str [OF 5(2), of "length v"] obtain s6 w6 where
    6: "FCGX_GetStr fill (int (length v)) (s5, q, w5) = Some (v, s6, q, w6)" "feeds s6 w6 xs"
    by auto
  have "uint y \<noteq> EOF" using uint_ge_0 [of y] by linarith
  moreover have "?size < 2 ^ 31" using ok by (simp add: pair_ok_def nv)
  ultimately show ?thesis
    using 1(1) 2(1) 3(1) 4(1) 5(1) 6 by (simp add: read_pair_def pair_entry_def nv)
qed

text \<open>The vector always has room for one more entry, and doubles.\<close>

lemma put_param:
  assumes f: "feeds s w xs" and room: "length (vec p) < vec_length p" "vec_length p < 2 ^ 30"
  shows "\<exists>p' w'. PutParam L p nv w = Some (p', w') \<and> vec p' = vec p @ [nv] \<and> length (vec p') < vec_length p' \<and>
    vec_length p' \<le> max (vec_length p) (2 * length (vec p')) \<and> feeds s w' xs"
proof (cases "vec_length p \<le> length (vec p) + 1")
  case True
  then have l: "vec_length p = length (vec p) + 1" using room by simp
  from grow [OF f, of "2 * vec_length p * 8"] obtain w1 where "realloc_op L (2 * vec_length p * 8) w = (True, w1)" "feeds s w1 xs"
    by blast
  then show ?thesis using room l by (auto simp: PutParam_def Let_def)
next
  case False
  then show ?thesis using f room by (auto simp: PutParam_def Let_def)
qed

lemma read_params:
  assumes "feeds s w (concat (map encode_pair nvs))" "\<forall>nv \<in> set nvs. pair_ok nv" ends
    and "length (vec p) < vec_length p" "vec_length p < 2 ^ 30" "2 * (length (vec p) + length nvs) < 2 ^ 30"
  shows "\<exists>p' s' w'. ReadParams L fill p (s, q, w) = Some (True, p', s', q, w') \<and>
    vec p' = vec p @ map pair_entry nvs \<and> ended s' w'"
  using assms
proof (induction nvs arbitrary: s w p)
  case Nil
  then obtain s1 w1 where "FCGX_GetChar fill (s, q, w) = Some (EOF, s1, q, w1)" "ended s1 w1"
    using get_char_end [of s w] by auto
  then show ?case by (subst ReadParams.simps) simp
next
  case (Cons nv nvs)
  obtain x ys where x: "encode_pair nv = x # ys"
    by (cases "encode_pair nv") (auto simp: encode_pair_def encode_length_def split: if_splits)
  let ?rest = "concat (map encode_pair nvs)"
  have "feeds s w (x # ys @ ?rest)" using Cons.prems(1) x by simp
  from get_char [OF this] obtain s1 w1 where 1: "FCGX_GetChar fill (s, q, w) = Some (uint x, s1, q, w1)" "feeds s1 w1 (ys @ ?rest)"
    by blast
  have "pair_ok nv" using Cons.prems(2) by simp
  from read_pair_reads [OF this x 1(2)] obtain s2 w2 where
    2: "read_pair L fill (uint x) (s1, q, w1) = Some (Some (pair_entry nv), s2, q, w2)" "feeds s2 w2 ?rest"
    by blast
  from put_param [OF 2(2) Cons.prems(4,5), of "pair_entry nv"] obtain p1 w3 where
    3: "PutParam L p (pair_entry nv) w2 = Some (p1, w3)" "vec p1 = vec p @ [pair_entry nv]" "length (vec p1) < vec_length p1"
    "vec_length p1 \<le> max (vec_length p) (2 * length (vec p1))" "feeds s2 w3 ?rest"
    by blast
  have "vec_length p1 < 2 ^ 30" "2 * (length (vec p1) + length nvs) < 2 ^ 30" using 3 Cons.prems(5,6) by auto
  from Cons.IH [OF 3(5) _ Cons.prems(3) 3(3) this] Cons.prems(2) obtain p' s' w' where
    4: "ReadParams L fill p1 (s2, q, w3) = Some (True, p', s', q, w')" "vec p' = vec p1 @ map pair_entry nvs" "ended s' w'"
    by auto
  have "uint x \<noteq> EOF" using uint_ge_0 [of x] by linarith
  then show ?case using 1(1) 2(1) 3(1,2) 4 by (subst ReadParams.simps) simp
qed

end

end
