(* ===== verification/LA_Fcgi_Read.thy ===== *)
theory LA_Fcgi_Read
  imports LA_Fcgi_Write LA_Fcgi_Source
begin

text \<open>
  What the readers of the FastCGI library deliver: over a connection that works, however it cuts its
  input, a client gets the contents of the records of its stream and then the end of the stream; records of
  other requests are skipped.
\<close>

section \<open>The loop that fills the buffer\<close>

text \<open>What is there between two positions of a buffer, and what a reader has before it.\<close>

definition ahead :: "byte list \<Rightarrow> nat \<Rightarrow> nat \<Rightarrow> byte list" where
  "ahead b r t = take (t - r) (drop r b)"

definition reader_base :: "FCGX_Stream \<Rightarrow> bool" where
  "reader_base s = (rdNext s \<le> buffStop s \<and> buffStop s \<le> bufflen s \<and> bufflen s \<le> length (buff s) \<and> 0 < bufflen s)"

lemma length_ahead: "r \<le> t \<Longrightarrow> t \<le> length b \<Longrightarrow> length (ahead b r t) = t - r"
  by (simp add: ahead_def)

lemma ahead_split: "r \<le> t \<Longrightarrow> t \<le> length b \<Longrightarrow> k \<le> t - r \<Longrightarrow>
    take k (drop r b) = take k (ahead b r t) \<and> ahead b (r + k) t = drop k (ahead b r t)"
  by (simp add: ahead_def drop_take min_def add.commute)

lemma front_split:
  "a @ b = c @ d \<Longrightarrow> length a = k \<Longrightarrow> k \<le> length c \<Longrightarrow> a = take k c \<and> b = drop k c @ d"
  by (auto simp: append_eq_conv_conj)

lemma ahead_append:
  assumes "r \<le> m" "m \<le> t" "t \<le> length b"
  shows "ahead b r t = ahead b r m @ ahead b m t"
proof -
  have "t - r = (m - r) + (t - m)" using assms by simp
  then have "ahead b r t = take (m - r) (drop r b) @ take (t - m) (drop (m - r) (drop r b))"
    by (simp only: ahead_def take_add)
  then show ?thesis using assms by (simp add: ahead_def)
qed

text \<open>How the loop goes on after a round.\<close>

definition go_on ::
  "'w os_lib \<Rightarrow> (FCGI_Header \<Rightarrow> 'w io \<Rightarrow> (header_status \<times> 'w io) option) \<Rightarrow> 'w flow \<Rightarrow> 'w io option" where
  "go_on L process r = (case r of Return \<sigma> \<Rightarrow> Some \<sigma> | Again hdr \<sigma> \<Rightarrow> fill_loop L process hdr \<sigma>)"

lemma go_on_simps [simp]:
  "go_on L process (Return \<sigma>) = Some \<sigma>"
  "go_on L process (Again hdr \<sigma>) = fill_loop L process hdr \<sigma>"
  by (simp_all add: go_on_def)

lemma fill_loop_step: "fill_loop L process hdr \<sigma> = Option.bind (fill_step L process hdr \<sigma>) (go_on L process)"
  by (subst fill_loop.simps) (simp add: go_on_def [abs_def])

text \<open>Between records nothing of the current record is left.\<close>

lemma after_content_again:
  assumes "contentLen s = 0" "\<not> eorStop s" "length hdr < 8" "reader_base s"
  shows "Option.bind (after_content process hdr (s, q, w)) (go_on L process) = fill_loop L process hdr (s, q, w)"
proof (cases "rdNext s = buffStop s")
  case True
  have "after_content process hdr (s, q, w) = Some (Again hdr (s, q, w))"
  proof (cases "paddingLen s = 0")
    case p0: True
    have "rdNext s \<le> length (buff s)" using assms(4) by (auto simp: reader_base_def)
    then show ?thesis
      using True p0 assms(2,3)
      by (simp add: after_content_def padding_stage_def after_padding_def header_stage_def mem_read_def)
  next
    case False
    then show ?thesis using True by (simp add: after_content_def padding_stage_def)
  qed
  then show ?thesis by simp
next
  case False
  then have "fill_step L process hdr (s, q, w) = after_content process hdr (s, q, w)"
    using assms(1) by (simp add: fill_step_def refill_def content_stage_def)
  then show ?thesis by (simp add: fill_loop_step)
qed

lemma after_padding_again:
  assumes "contentLen s = 0" "paddingLen s = 0" "\<not> eorStop s" "length hdr < 8" "reader_base s"
  shows "Option.bind (after_padding process hdr (s, q, w)) (go_on L process) = fill_loop L process hdr (s, q, w)"
proof -
  have "after_content process hdr (s, q, w) = after_padding process hdr (s, q, w)"
    using assms(2) by (simp add: after_content_def padding_stage_def)
  then show ?thesis using after_content_again [OF assms(1,3-5), of process q w L] by simp
qed

definition unread :: "('w \<Rightarrow> byte list) \<Rightarrow> FCGX_Stream \<Rightarrow> 'w \<Rightarrow> byte list" where
  "unread incoming s w = ahead (buff s) (rdNext s) (buffStop s) @ incoming w"

context request_connection
begin

abbreviation rest :: "FCGX_Stream \<Rightarrow> 'w \<Rightarrow> byte list" where
  "rest \<equiv> unread incoming"

text \<open>Filling an empty buffer: only the buffer and the two positions change, and nothing is lost.\<close>

lemma refill_more:
  assumes base: "reader_base s" and more: "rest s w \<noteq> []"
  shows "\<exists>b r t w'. refill L (s, q, w) = Some (True, s\<lparr>buff := b, rdNext := r, buffStop := t\<rparr>, q, w') \<and> r < t \<and>
    t \<le> bufflen s \<and> bufflen s \<le> length b \<and> ahead b r t @ incoming w' = rest s w \<and> sent w' = sent w"
proof (cases "rdNext s = buffStop s")
  case False
  then show ?thesis
    using base by (intro exI [of _ "buff s"] exI [of _ "rdNext s"] exI [of _ "buffStop s"] exI [of _ w])
      (simp add: refill_def reader_base_def unread_def)
next
  case True
  then have r: "rest s w = incoming w" by (simp add: unread_def ahead_def)
  have "0 < bufflen s" using base by (simp add: reader_base_def)
  from reads [OF this, of w] more r obtain k w1 where k: "0 < k" "k \<le> bufflen s"
    "read_op L (ipcFd q) (bufflen s) w = (Some (take k (incoming w)), w1)" "incoming w1 = drop k (incoming w)"
    "sent w1 = sent w"
    by auto
  obtain d where d: "d = take k (incoming w)" "d \<noteq> []" "length d \<le> bufflen s" using k more r by auto
  have len: "length d \<le> length (buff s)" using d base by (simp add: reader_base_def)
  let ?b = "d @ drop (length d) (buff s)"
  have "mem_write (buff s) 0 d = Some ?b" using len by (simp add: mem_write_def)
  then have "refill L (s, q, w) = Some (True, s\<lparr>buff := ?b, rdNext := 0, buffStop := length d\<rparr>, q, w1)"
    using True k(3) d(1,2) by (simp add: refill_def OS_Read_def)
  moreover have "0 < length d" using d(2) by blast
  moreover have "bufflen s \<le> length ?b" using base len by (auto simp: reader_base_def)
  moreover have "ahead ?b 0 (length d) = d" by (simp add: ahead_def)
  then have "ahead ?b 0 (length d) @ incoming w1 = rest s w" using k(4) r d(1) by simp
  ultimately show ?thesis using d(3) k(5) by blast
qed

text \<open>
  Content is delivered as far as it is there: \<open>k\<close> bytes, at least one, up to the end of the record.
\<close>

lemma fill_delivers:
  assumes base: "reader_base s" and c: "0 < contentLen s" "\<not> skip s" and more: "rest s w \<noteq> []"
  shows "\<exists>b r t k w'. fill_loop L process hdr (s, q, w) =
      Some (s\<lparr>buff := b, rdNext := r, buffStop := t, contentLen := contentLen s - k, wrNext := r + k, stop := r + k\<rparr>, q, w') \<and>
    0 < k \<and> k \<le> contentLen s \<and> r + k \<le> t \<and> t \<le> bufflen s \<and> bufflen s \<le> length b \<and>
    ahead b r t @ incoming w' = rest s w \<and> sent w' = sent w"
proof -
  from refill_more [OF base more] obtain b r t w' where 1:
    "refill L (s, q, w) = Some (True, s\<lparr>buff := b, rdNext := r, buffStop := t\<rparr>, q, w')" "r < t"
    "t \<le> bufflen s" "bufflen s \<le> length b" "ahead b r t @ incoming w' = rest s w" "sent w' = sent w"
    by blast
  let ?k = "min (contentLen s) (t - r)"
  have "fill_loop L process hdr (s, q, w) =
      Some (s\<lparr>buff := b, rdNext := r, buffStop := t, contentLen := contentLen s - ?k, wrNext := r + ?k, stop := r + ?k\<rparr>, q, w')"
    using 1(1) c by (simp add: fill_loop_step fill_step_def content_stage_def Let_def)
  moreover have "0 < ?k" "?k \<le> contentLen s" "r + ?k \<le> t" using c 1(2) by auto
  ultimately show ?thesis using 1 by blast
qed

text \<open>Content that is not wanted and padding are passed over.\<close>

lemma fill_skips:
  assumes "reader_base s" "contentLen s = length cs" "cs \<noteq> []" "skip s" "\<not> eorStop s" "length hdr < 8"
    and "rest s w = cs @ ys"
  shows "\<exists>b r t w'. fill_loop L process hdr (s, q, w) =
      fill_loop L process hdr (s\<lparr>buff := b, rdNext := r, buffStop := t, contentLen := 0, skip := False\<rparr>, q, w') \<and>
    r \<le> t \<and> t \<le> bufflen s \<and> bufflen s \<le> length b \<and> ahead b r t @ incoming w' = ys \<and> sent w' = sent w"
  using assms
proof (induction "length cs" arbitrary: s w cs rule: less_induct)
  case less
  have "rest s w \<noteq> []" using less.prems by simp
  from refill_more [OF less.prems(1) this] obtain b r t w1 where 1:
    "refill L (s, q, w) = Some (True, s\<lparr>buff := b, rdNext := r, buffStop := t\<rparr>, q, w1)" "r < t"
    "t \<le> bufflen s" "bufflen s \<le> length b" "ahead b r t @ incoming w1 = rest s w" "sent w1 = sent w"
    by blast
  let ?k = "min (length cs) (t - r)"
  let ?s1 = "s\<lparr>buff := b, rdNext := r + ?k, buffStop := t, contentLen := length cs - ?k\<rparr>"
  have base1: "reader_base ?s1" using 1 less.prems(1) by (auto simp: reader_base_def)
  have k: "0 < ?k" using 1(2) less.prems(3) by simp
  have "ahead b (r + ?k) t = drop ?k (ahead b r t)" using ahead_split [of r t b ?k] 1 by auto
  moreover have "?k \<le> length (ahead b r t)" using length_ahead [of r t b] 1 by auto
  moreover have "drop ?k (ahead b r t @ incoming w1) = drop ?k (cs @ ys)" using 1(5) less.prems(7) by simp
  ultimately have after: "ahead b (r + ?k) t @ incoming w1 = drop ?k cs @ ys" by (simp only: drop_append) simp
  show ?case
  proof (cases "?k = length cs")
    case False
    then have "t - r < length cs" by auto
    then have "fill_step L process hdr (s, q, w) = Some (Again hdr (?s1, q, w1))"
      using 1(1) less.prems(2,3,4) by (simp add: fill_step_def content_stage_def Let_def)
    then have step: "fill_loop L process hdr (s, q, w) = fill_loop L process hdr (?s1, q, w1)"
      by (simp add: fill_loop_step [of L process hdr "(s, q, w)"])
    have "length (drop ?k cs) < length cs" using k less.prems(3) by simp
    moreover have "contentLen ?s1 = length (drop ?k cs)" by simp
    moreover have "drop ?k cs \<noteq> []" using False by auto
    moreover have "skip ?s1" "\<not> eorStop ?s1" using less.prems by auto
    moreover have "rest ?s1 w1 = drop ?k cs @ ys" using after by (simp add: unread_def)
    ultimately obtain b' r' t' w' where
      "fill_loop L process hdr (?s1, q, w1) =
        fill_loop L process hdr (?s1\<lparr>buff := b', rdNext := r', buffStop := t', contentLen := 0, skip := False\<rparr>, q, w')"
      "r' \<le> t'" "t' \<le> bufflen ?s1" "bufflen ?s1 \<le> length b'" "ahead b' r' t' @ incoming w' = ys" "sent w' = sent w1"
      using less.hyps [of "drop ?k cs" ?s1 w1] base1 less.prems(6) by blast
    then show ?thesis using step 1(6) by auto
  next
    case True
    let ?s2 = "?s1\<lparr>contentLen := 0, skip := False\<rparr>"
    have "fill_step L process hdr (s, q, w) = after_content process hdr (?s2, q, w1)"
      using 1(1) less.prems(2,3,4) True by (cases s) (simp add: fill_step_def content_stage_def Let_def)
    then have "fill_loop L process hdr (s, q, w) = fill_loop L process hdr (?s2, q, w1)"
      using after_content_again [of ?s2 hdr process q w1 L] base1 less.prems(5,6)
      by (simp add: fill_loop_step [of L process hdr "(s, q, w)"] reader_base_def)
    moreover have "ahead b (r + ?k) t @ incoming w1 = ys" using after True by simp
    ultimately show ?thesis
      using 1 base1 by (intro exI [of _ b] exI [of _ "r + ?k"] exI [of _ t] exI [of _ w1]) (simp add: reader_base_def)
  qed
qed

lemma fill_pads:
  assumes "reader_base s" "contentLen s = 0" "paddingLen s = length ps" "ps \<noteq> []" "\<not> eorStop s" "length hdr < 8"
    and "rest s w = ps @ ys"
  shows "\<exists>b r t w'. fill_loop L process hdr (s, q, w) =
      fill_loop L process hdr (s\<lparr>buff := b, rdNext := r, buffStop := t, paddingLen := 0\<rparr>, q, w') \<and>
    r \<le> t \<and> t \<le> bufflen s \<and> bufflen s \<le> length b \<and> ahead b r t @ incoming w' = ys \<and> sent w' = sent w"
  using assms
proof (induction "length ps" arbitrary: s w ps rule: less_induct)
  case less
  have "rest s w \<noteq> []" using less.prems by simp
  from refill_more [OF less.prems(1) this] obtain b r t w1 where 1:
    "refill L (s, q, w) = Some (True, s\<lparr>buff := b, rdNext := r, buffStop := t\<rparr>, q, w1)" "r < t"
    "t \<le> bufflen s" "bufflen s \<le> length b" "ahead b r t @ incoming w1 = rest s w" "sent w1 = sent w"
    by blast
  let ?k = "min (length ps) (t - r)"
  let ?s1 = "s\<lparr>buff := b, rdNext := r + ?k, buffStop := t, paddingLen := length ps - ?k\<rparr>"
  have base1: "reader_base ?s1" using 1 less.prems(1) by (auto simp: reader_base_def)
  have k: "0 < ?k" using 1(2) less.prems(4) by simp
  have "ahead b (r + ?k) t = drop ?k (ahead b r t)" using ahead_split [of r t b ?k] 1 by auto
  moreover have "?k \<le> length (ahead b r t)" using length_ahead [of r t b] 1 by auto
  moreover have "drop ?k (ahead b r t @ incoming w1) = drop ?k (ps @ ys)" using 1(5) less.prems(7) by simp
  ultimately have after: "ahead b (r + ?k) t @ incoming w1 = drop ?k ps @ ys" by (simp only: drop_append) simp
  show ?case
  proof (cases "?k = length ps")
    case False
    then have "t - r < length ps" by auto
    then have "fill_step L process hdr (s, q, w) = Some (Again hdr (?s1, q, w1))"
      using 1(1) less.prems(2,3,4)
      by (cases s) (simp add: fill_step_def content_stage_def after_content_def padding_stage_def Let_def)
    then have step: "fill_loop L process hdr (s, q, w) = fill_loop L process hdr (?s1, q, w1)"
      by (simp add: fill_loop_step [of L process hdr "(s, q, w)"])
    have "length (drop ?k ps) < length ps" using k less.prems(4) by simp
    moreover have "paddingLen ?s1 = length (drop ?k ps)" by simp
    moreover have "drop ?k ps \<noteq> []" using False by auto
    moreover have "contentLen ?s1 = 0" "\<not> eorStop ?s1" using less.prems by auto
    moreover have "rest ?s1 w1 = drop ?k ps @ ys" using after by (simp add: unread_def)
    ultimately obtain b' r' t' w' where
      "fill_loop L process hdr (?s1, q, w1) =
        fill_loop L process hdr (?s1\<lparr>buff := b', rdNext := r', buffStop := t', paddingLen := 0\<rparr>, q, w')"
      "r' \<le> t'" "t' \<le> bufflen ?s1" "bufflen ?s1 \<le> length b'" "ahead b' r' t' @ incoming w' = ys" "sent w' = sent w1"
      using less.hyps [of "drop ?k ps" ?s1 w1] base1 less.prems(6) by blast
    then show ?thesis using step 1(6) by auto
  next
    case True
    let ?s2 = "?s1\<lparr>paddingLen := 0\<rparr>"
    have "fill_step L process hdr (s, q, w) = after_padding process hdr (?s2, q, w1)"
      using 1(1) less.prems(2,3,4) True
      by (cases s) (simp add: fill_step_def content_stage_def after_content_def padding_stage_def Let_def)
    then have "fill_loop L process hdr (s, q, w) = fill_loop L process hdr (?s2, q, w1)"
      using after_padding_again [of ?s2 hdr process q w1 L] base1 less.prems(2,5,6)
      by (simp add: fill_loop_step [of L process hdr "(s, q, w)"] reader_base_def)
    moreover have "ahead b (r + ?k) t @ incoming w1 = ys" using after True by simp
    ultimately show ?thesis
      using 1 base1 by (intro exI [of _ b] exI [of _ "r + ?k"] exI [of _ t] exI [of _ w1]) (simp add: reader_base_def)
  qed
qed

text \<open>A header is collected over as many reads as it takes, and interpreted when it is complete.\<close>

lemma fill_header:
  assumes "reader_base s" "contentLen s = 0" "paddingLen s = 0" "\<not> eorStop s" "length hdr + length hs = 8" "hs \<noteq> []"
    and "rest s w = hs @ ys"
  shows "\<exists>b r t w'. fill_loop L process hdr (s, q, w) = do {
      (status, s2, q2, w2) \<leftarrow> process (header_of (hdr @ hs))
        (s\<lparr>buff := b, rdNext := r, buffStop := t, eorStop := True, stop := r\<rparr>, q, w');
      go_on L process (after_header status (s2\<lparr>eorStop := False, isClosed := False\<rparr>, q2, w2)) } \<and>
    r \<le> t \<and> t \<le> bufflen s \<and> bufflen s \<le> length b \<and> ahead b r t @ incoming w' = ys \<and> sent w' = sent w"
  using assms
proof (induction "length hs" arbitrary: s w hdr hs rule: less_induct)
  case less
  have "rest s w \<noteq> []" using less.prems by simp
  from refill_more [OF less.prems(1) this] obtain b r t w1 where 1:
    "refill L (s, q, w) = Some (True, s\<lparr>buff := b, rdNext := r, buffStop := t\<rparr>, q, w1)" "r < t"
    "t \<le> bufflen s" "bufflen s \<le> length b" "ahead b r t @ incoming w1 = rest s w" "sent w1 = sent w"
    by blast
  have h: "8 - length hdr = length hs" using less.prems(5) by simp
  let ?k = "min (length hs) (t - r)"
  let ?s1 = "s\<lparr>buff := b, rdNext := r + ?k, buffStop := t\<rparr>"
  have base1: "reader_base ?s1" using 1 less.prems(1) by (auto simp: reader_base_def)
  have k: "0 < ?k" using 1(2) less.prems(6) by simp
  have "ahead b (r + ?k) t = drop ?k (ahead b r t)" and got: "take ?k (drop r b) = take ?k (ahead b r t)"
    using ahead_split [of r t b ?k] 1 by auto
  moreover have len: "?k \<le> length (ahead b r t)" using length_ahead [of r t b] 1 by auto
  moreover have "drop ?k (ahead b r t @ incoming w1) = drop ?k (hs @ ys)" using 1(5) less.prems(7) by simp
  ultimately have after: "ahead b (r + ?k) t @ incoming w1 = drop ?k hs @ ys" by (simp only: drop_append) simp
  have "take ?k (ahead b r t @ incoming w1) = take ?k (hs @ ys)" using 1(5) less.prems(7) by simp
  then have "take ?k (drop r b) = take ?k hs" unfolding got using len by (simp only: take_append) simp
  moreover have "r + ?k \<le> length b" using 1 by auto
  ultimately have stage: "header_stage hdr (s\<lparr>buff := b, rdNext := r, buffStop := t\<rparr>) = Some (hdr @ take ?k hs, ?s1)"
    by (simp add: header_stage_def mem_read_def Let_def h)
  have begin1: "fill_step L process hdr (s, q, w) = after_padding process hdr (s\<lparr>buff := b, rdNext := r, buffStop := t\<rparr>, q, w1)"
    using 1(1) less.prems(2,3)
    by (simp add: fill_step_def content_stage_def after_content_def padding_stage_def)
  show ?case
  proof (cases "?k = length hs")
    case False
    then have short: "length (hdr @ take ?k hs) < 8" using less.prems(5) by auto
    then have "fill_step L process hdr (s, q, w) = Some (Again (hdr @ take ?k hs) (?s1, q, w1))"
      using stage less.prems(4) by (simp add: begin1 after_padding_def)
    then have step: "fill_loop L process hdr (s, q, w) = fill_loop L process (hdr @ take ?k hs) (?s1, q, w1)"
      by (simp add: fill_loop_step [of L process hdr "(s, q, w)"])
    have "length (drop ?k hs) < length hs" using k less.prems(6) by simp
    moreover have "length (hdr @ take ?k hs) + length (drop ?k hs) = 8" using less.prems(5) by simp
    moreover have "drop ?k hs \<noteq> []" using False by auto
    moreover have "contentLen ?s1 = 0" "paddingLen ?s1 = 0" "\<not> eorStop ?s1" using less.prems by auto
    moreover have "rest ?s1 w1 = drop ?k hs @ ys" using after by (simp add: unread_def)
    ultimately obtain b' r' t' w' where
      "fill_loop L process (hdr @ take ?k hs) (?s1, q, w1) = do {
        (status, s2, q2, w2) \<leftarrow> process (header_of ((hdr @ take ?k hs) @ drop ?k hs))
          (?s1\<lparr>buff := b', rdNext := r', buffStop := t', eorStop := True, stop := r'\<rparr>, q, w');
        go_on L process (after_header status (s2\<lparr>eorStop := False, isClosed := False\<rparr>, q2, w2)) }"
      "r' \<le> t'" "t' \<le> bufflen ?s1" "bufflen ?s1 \<le> length b'" "ahead b' r' t' @ incoming w' = ys" "sent w' = sent w1"
      using less.hyps [of "drop ?k hs" ?s1 "hdr @ take ?k hs" w1] base1 by blast
    then show ?thesis using step 1(6) by auto
  next
    case True
    then have all: "hdr @ take ?k hs = hdr @ hs" by simp
    have "fill_loop L process hdr (s, q, w) = do {
        (status, s2, q2, w2) \<leftarrow> process (header_of (hdr @ hs)) (?s1\<lparr>eorStop := True, stop := r + ?k\<rparr>, q, w1);
        go_on L process (after_header status (s2\<lparr>eorStop := False, isClosed := False\<rparr>, q2, w2)) }"
      using stage less.prems(4,5) unfolding all
      by (simp add: fill_loop_step begin1 after_padding_def case_prod_unfold)
    moreover have "ahead b (r + ?k) t @ incoming w1 = ys" using after True by simp
    ultimately show ?thesis
      using 1 base1 by (intro exI [of _ b] exI [of _ "r + ?k"] exI [of _ t] exI [of _ w1]) (simp add: reader_base_def)
  qed
qed

end

section \<open>Interpreting headers\<close>

definition rec_ok :: "fcgi_rec \<Rightarrow> bool" where
  "rec_ok r =
     (0 \<le> rec_type r \<and> rec_type r < 256 \<and> 0 \<le> rec_id r \<and> rec_id r < 65536 \<and>
      length (rec_content r) < 65536 \<and> length (rec_padding r) < 256)"

definition rec_header :: "fcgi_rec \<Rightarrow> FCGI_Header" where
  "rec_header r = header_of (take 8 (rec_bytes r))"

lemma rec_bytes_split: "rec_bytes r = take 8 (rec_bytes r) @ rec_content r @ rec_padding r" "length (take 8 (rec_bytes r)) = 8"
  by (simp_all add: rec_bytes_def)

lemma rec_bytes_append: "rec_bytes r @ ys = take 8 (rec_bytes r) @ rec_content r @ rec_padding r @ ys"
  by (simp add: rec_bytes_def)

lemma uint_byte_at: "uint (byte_at x n) = x div 2 ^ n mod 256"
  by (simp add: byte_at_def unsigned_of_int take_bit_eq_mod)

lemma two_bytes: "0 \<le> x \<Longrightarrow> x < 65536 \<Longrightarrow> x div 256 mod 256 * 256 + x mod 256 = (x :: int)"
  proof -
  assume "0 \<le> x" "x < 65536"
  then have "0 \<le> x div 256" "x div 256 < 256" by simp_all
  then show ?thesis by (simp add: mod_pos_pos_trivial)
qed

lemma rec_header_fields:
  assumes "rec_ok r"
  shows "h_version (rec_header r) = FCGI_VERSION_1"
    and "uint (h_type (rec_header r)) = rec_type r"
    and "uint (h_requestIdB1 (rec_header r)) * 256 + uint (h_requestIdB0 (rec_header r)) = rec_id r"
    and "unat (h_contentLengthB1 (rec_header r)) * 256 + unat (h_contentLengthB0 (rec_header r)) = length (rec_content r)"
    and "unat (h_paddingLength (rec_header r)) = length (rec_padding r)"
proof -
  have bytes: "rec_header r =
     \<lparr>h_version = 1, h_type = byte_at (rec_type r) 0, h_requestIdB1 = byte_at (rec_id r) 8,
      h_requestIdB0 = byte_at (rec_id r) 0, h_contentLengthB1 = byte_at (int (length (rec_content r))) 8,
      h_contentLengthB0 = byte_at (int (length (rec_content r))) 0,
      h_paddingLength = byte_at (int (length (rec_padding r))) 0, h_reserved = 0\<rparr>"
    by (simp add: rec_header_def rec_bytes_def header_of_def numeral_eq_Suc)
  show "h_version (rec_header r) = FCGI_VERSION_1" by (simp add: bytes FCGI_VERSION_1_def)
  show "uint (h_type (rec_header r)) = rec_type r"
    using assms by (simp add: bytes uint_byte_at rec_ok_def)
  show "uint (h_requestIdB1 (rec_header r)) * 256 + uint (h_requestIdB0 (rec_header r)) = rec_id r"
    using assms two_bytes [of "rec_id r"] by (simp add: bytes uint_byte_at rec_ok_def)
  have "uint (h_contentLengthB1 (rec_header r)) * 256 + uint (h_contentLengthB0 (rec_header r)) = int (length (rec_content r))"
    using assms two_bytes [of "int (length (rec_content r))"] by (simp add: bytes uint_byte_at rec_ok_def)
  then have "nat (uint (h_contentLengthB1 (rec_header r)) * 256 + uint (h_contentLengthB0 (rec_header r))) = length (rec_content r)"
    by simp
  then show "unat (h_contentLengthB1 (rec_header r)) * 256 + unat (h_contentLengthB0 (rec_header r)) = length (rec_content r)"
    by (simp add: nat_add_distrib nat_mult_distrib)
  have "uint (h_paddingLength (rec_header r)) = int (length (rec_padding r))"
    using assms by (simp add: bytes uint_byte_at rec_ok_def)
  then have "nat (uint (h_paddingLength (rec_header r))) = length (rec_padding r)" by simp
  then show "unat (h_paddingLength (rec_header r)) = length (rec_padding r)" by simp
qed

section \<open>Records of a stream\<close>

definition own_rec :: "int \<Rightarrow> int \<Rightarrow> fcgi_rec \<Rightarrow> bool" where
  "own_rec ty rid r = (rec_ok r \<and> rec_type r = ty \<and> rec_id r = rid)"

text \<open>A record of another request; a record without content is not passed over cleanly.\<close>

definition foreign_rec :: "int \<Rightarrow> fcgi_rec \<Rightarrow> bool" where
  "foreign_rec rid r =
     (rec_ok r \<and> rec_type r \<noteq> FCGI_BEGIN_REQUEST \<and> rec_id r \<noteq> rid \<and> rec_id r \<noteq> 0 \<and> rec_content r \<noteq> [])"

definition stream_recs :: "int \<Rightarrow> int \<Rightarrow> fcgi_rec list \<Rightarrow> bool" where
  "stream_recs ty rid rs = (\<forall>r \<in> set rs. own_rec ty rid r \<and> rec_content r \<noteq> [] \<or> foreign_rec rid r)"

text \<open>What the stream of a request is to deliver of a sequence of records.\<close>

definition content_of :: "int \<Rightarrow> fcgi_rec list \<Rightarrow> byte list" where
  "content_of rid rs = concat (map rec_content (filter (\<lambda>r. rec_id r = rid) rs))"

text \<open>
  \<open>stream_bytes ty rid bs xs tail\<close>: the bytes \<open>bs\<close> are records of the stream with the contents \<open>xs\<close> up to the
  record that ends it, whose padding and what follows is \<open>tail\<close>.
\<close>

definition stream_bytes :: "int \<Rightarrow> int \<Rightarrow> byte list \<Rightarrow> byte list \<Rightarrow> byte list \<Rightarrow> bool" where
  "stream_bytes ty rid bs xs tail =
     (\<exists>rs e ys. stream_recs ty rid rs \<and> own_rec ty rid e \<and> rec_content e = [] \<and>
        bs = concat (map rec_bytes rs) @ rec_bytes e @ ys \<and> xs = content_of rid rs \<and> tail = rec_padding e @ ys)"

text \<open>
  The stream has \<open>xs\<close> to deliver: what is delivered already and not read, the rest of the content of the record,
  and behind its padding the records that follow.
\<close>

definition stream_source ::
  "('w \<Rightarrow> byte list) \<Rightarrow> ('w \<Rightarrow> byte list) \<Rightarrow> int \<Rightarrow> byte list \<Rightarrow> byte list \<Rightarrow> FCGX_Stream \<Rightarrow> 'w \<Rightarrow> byte list \<Rightarrow> bool" where
  "stream_source incoming sent rid out tail s w xs =
     (reader_base s \<and> isReader s \<and> \<not> isClosed s \<and> \<not> eorStop s \<and> \<not> skip s \<and> FCGI_errno s = 0 \<and> sent w = out \<and>
      rdNext s \<le> stop s \<and> stop s \<le> buffStop s \<and>
      (\<exists>c p bs ys. unread incoming s w = ahead (buff s) (rdNext s) (stop s) @ c @ p @ bs \<and> length c = contentLen s \<and>
         length p = paddingLen s \<and> stream_bytes (st_type s) rid bs ys tail \<and>
         xs = ahead (buff s) (rdNext s) (stop s) @ c @ ys))"

definition stream_over ::
  "('w \<Rightarrow> byte list) \<Rightarrow> ('w \<Rightarrow> byte list) \<Rightarrow> byte list \<Rightarrow> byte list \<Rightarrow> int \<Rightarrow> FCGX_Stream \<Rightarrow> 'w \<Rightarrow> bool" where
  "stream_over incoming sent out tail ty s w =
     (reader_base s \<and> isReader s \<and> isClosed s \<and> FCGI_errno s = 0 \<and> sent w = out \<and> st_type s = ty \<and>
      unread incoming s w = tail)"

context request_connection
begin

abbreviation stream_feeds :: "byte list \<Rightarrow> byte list \<Rightarrow> FCGX_Stream \<Rightarrow> 'w \<Rightarrow> byte list \<Rightarrow> bool" where
  "stream_feeds \<equiv> stream_source incoming sent (requestId q)"

abbreviation stream_ended :: "byte list \<Rightarrow> byte list \<Rightarrow> int \<Rightarrow> FCGX_Stream \<Rightarrow> 'w \<Rightarrow> bool" where
  "stream_ended \<equiv> stream_over incoming sent"

lemma header_at_record:
  assumes "reader_base s" "contentLen s = 0" "paddingLen s = length ps" "\<not> eorStop s" "rest s w = ps @ rec_bytes r @ ys"
  shows "\<exists>b i t w'. fill_loop L process [] (s, q, w) = do {
      (status, s2, q2, w2) \<leftarrow> process (rec_header r)
        (s\<lparr>buff := b, rdNext := i, buffStop := t, paddingLen := 0, eorStop := True, stop := i\<rparr>, q, w');
      go_on L process (after_header status (s2\<lparr>eorStop := False, isClosed := False\<rparr>, q2, w2)) } \<and>
    i \<le> t \<and> t \<le> bufflen s \<and> bufflen s \<le> length b \<and>
    ahead b i t @ incoming w' = rec_content r @ rec_padding r @ ys \<and> sent w' = sent w"
proof -
  obtain b i t w1 where 1: "fill_loop L process [] (s, q, w) =
      fill_loop L process [] (s\<lparr>buff := b, rdNext := i, buffStop := t, paddingLen := 0\<rparr>, q, w1)"
    "i \<le> t" "t \<le> bufflen s" "bufflen s \<le> length b" "ahead b i t @ incoming w1 = rec_bytes r @ ys" "sent w1 = sent w"
  proof (cases "ps = []")
    case True
    then have same: "s\<lparr>paddingLen := 0\<rparr> = s" using assms(3) by (cases s) simp
    show ?thesis
      by (rule that [where b = "buff s" and i = "rdNext s" and t = "buffStop s" and ?w1.0 = w]) (use assms(1,5) True in \<open>simp_all add: reader_base_def unread_def same\<close>)
  next
    case False
    show ?thesis using fill_pads [OF assms(1-3) False assms(4) _ assms(5), of "[]" process] that by auto
  qed
  let ?s1 = "s\<lparr>buff := b, rdNext := i, buffStop := t, paddingLen := 0\<rparr>"
  have base1: "reader_base ?s1" using 1 assms(1) by (simp add: reader_base_def)
  have hs: "length ([] :: byte list) + length (take 8 (rec_bytes r)) = 8" "take 8 (rec_bytes r) \<noteq> []"
    using rec_bytes_split(2) [of r] by auto
  have "rest ?s1 w1 = take 8 (rec_bytes r) @ rec_content r @ rec_padding r @ ys"
    using 1(5) rec_bytes_append [of r ys] by (simp add: unread_def)
  with base1 hs assms(2,4) obtain b' i' t' w' where 2: "fill_loop L process [] (?s1, q, w1) = do {
      (status, s2, q2, w2) \<leftarrow> process (header_of ([] @ take 8 (rec_bytes r)))
        (?s1\<lparr>buff := b', rdNext := i', buffStop := t', eorStop := True, stop := i'\<rparr>, q, w');
      go_on L process (after_header status (s2\<lparr>eorStop := False, isClosed := False\<rparr>, q2, w2)) }"
    and 3: "i' \<le> t'" "t' \<le> bufflen s" "bufflen s \<le> length b'" "ahead b' i' t' @ incoming w' = rec_content r @ rec_padding r @ ys"
      "sent w' = sent w1"
    using fill_header [of ?s1 "[]" "take 8 (rec_bytes r)" w1 "rec_content r @ rec_padding r @ ys" process] by auto
  have same: "?s1\<lparr>buff := b', rdNext := i', buffStop := t', eorStop := True, stop := i'\<rparr> =
      s\<lparr>buff := b', rdNext := i', buffStop := t', paddingLen := 0, eorStop := True, stop := i'\<rparr>"
    by (cases s) simp
  show ?thesis
    using 2 [folded 1(1)] unfolding same append_Nil rec_header_def [symmetric] using 3 1(6) by auto
qed

lemma stream_feedsI:
  assumes "reader_base s" "isReader s" "\<not> isClosed s" "\<not> eorStop s" "\<not> skip s" "FCGI_errno s = 0" "sent w = out"
    and "rdNext s \<le> stop s" "stop s \<le> buffStop s" "d = ahead (buff s) (rdNext s) (stop s)"
    and "rest s w = d @ c @ p @ bs" "length c = contentLen s" "length p = paddingLen s"
    and "stream_bytes (st_type s) (requestId q) bs ys tail" "xs = d @ c @ ys"
  shows "stream_feeds out tail s w xs"
  using assms unfolding stream_source_def by blast

lemma own_record:
  assumes "reader_base s" "contentLen s = 0" "paddingLen s = length ps" "\<not> eorStop s" "rest s w = ps @ rec_bytes r @ ys"
    and own: "own_rec (st_type s) (requestId q) r" and valid: "st_type s \<noteq> FCGI_BEGIN_REQUEST" "requestId q \<noteq> 0"
  shows "\<exists>b i t w'. fill_loop L (ProcessHeader L f) [] (s, q, w) =
      (let s' = s\<lparr>buff := b, rdNext := i, buffStop := t, contentLen := length (rec_content r),
                 paddingLen := length (rec_padding r), eorStop := False, stop := i, isClosed := False\<rparr> in
       if rec_content r = [] then Some (s'\<lparr>wrNext := i, isClosed := True\<rparr>, q, w')
       else fill_loop L (ProcessHeader L f) [] (s', q, w')) \<and>
    i \<le> t \<and> t \<le> bufflen s \<and> bufflen s \<le> length b \<and>
    ahead b i t @ incoming w' = rec_content r @ rec_padding r @ ys \<and> sent w' = sent w"
proof -
  have ok: "rec_ok r" using own by (simp add: own_rec_def)
  from header_at_record [OF assms(1-5), of "ProcessHeader L f"] obtain b i t w' where
    1: "fill_loop L (ProcessHeader L f) [] (s, q, w) = do {
      (status, s2, q2, w2) \<leftarrow> ProcessHeader L f (rec_header r)
        (s\<lparr>buff := b, rdNext := i, buffStop := t, paddingLen := 0, eorStop := True, stop := i\<rparr>, q, w');
      go_on L (ProcessHeader L f) (after_header status (s2\<lparr>eorStop := False, isClosed := False\<rparr>, q2, w2)) }"
    and 2: "i \<le> t" "t \<le> bufflen s" "bufflen s \<le> length b"
      "ahead b i t @ incoming w' = rec_content r @ rec_padding r @ ys" "sent w' = sent w"
    by blast
  have "ProcessHeader L f (rec_header r)
      (s\<lparr>buff := b, rdNext := i, buffStop := t, paddingLen := 0, eorStop := True, stop := i\<rparr>, q, w') =
    Some (STREAM_RECORD, s\<lparr>buff := b, rdNext := i, buffStop := t, contentLen := length (rec_content r),
      paddingLen := length (rec_padding r), eorStop := True, stop := i\<rparr>, q, w')"
    using own valid unfolding ProcessHeader_def Let_def prod.case rec_header_fields [OF ok]
    by (cases s) (simp add: own_rec_def FCGI_NULL_REQUEST_ID_def)
  then have "fill_loop L (ProcessHeader L f) [] (s, q, w) =
      (let s' = s\<lparr>buff := b, rdNext := i, buffStop := t, contentLen := length (rec_content r),
                 paddingLen := length (rec_padding r), eorStop := False, stop := i, isClosed := False\<rparr> in
       if rec_content r = [] then Some (s'\<lparr>wrNext := i, isClosed := True\<rparr>, q, w')
       else fill_loop L (ProcessHeader L f) [] (s', q, w'))"
    unfolding 1 by (cases s) (simp add: Let_def)
  then show ?thesis using 2 by blast
qed

lemma foreign_record:
  assumes "reader_base s" "contentLen s = 0" "paddingLen s = length ps" "\<not> eorStop s" "rest s w = ps @ rec_bytes r @ ys"
    and foreign: "foreign_rec (requestId q) r"
  shows "\<exists>b i t u w'. fill_loop L (ProcessHeader L f) [] (s, q, w) =
      fill_loop L (ProcessHeader L f) [] (s\<lparr>buff := b, rdNext := i, buffStop := t, contentLen := 0,
          paddingLen := length (rec_padding r), eorStop := False, skip := False, stop := u, isClosed := False\<rparr>, q, w') \<and>
    i \<le> t \<and> t \<le> bufflen s \<and> bufflen s \<le> length b \<and>
    ahead b i t @ incoming w' = rec_padding r @ ys \<and> sent w' = sent w"
proof -
  have ok: "rec_ok r" using foreign by (simp add: foreign_rec_def)
  from header_at_record [OF assms(1-5), of "ProcessHeader L f"] obtain b i t w1 where
    1: "fill_loop L (ProcessHeader L f) [] (s, q, w) = do {
      (status, s2, q2, w2) \<leftarrow> ProcessHeader L f (rec_header r)
        (s\<lparr>buff := b, rdNext := i, buffStop := t, paddingLen := 0, eorStop := True, stop := i\<rparr>, q, w1);
      go_on L (ProcessHeader L f) (after_header status (s2\<lparr>eorStop := False, isClosed := False\<rparr>, q2, w2)) }"
    and 2: "i \<le> t" "t \<le> bufflen s" "bufflen s \<le> length b"
      "ahead b i t @ incoming w1 = rec_content r @ rec_padding r @ ys" "sent w1 = sent w"
    by blast
  let ?s1 = "s\<lparr>buff := b, rdNext := i, buffStop := t, contentLen := length (rec_content r),
      paddingLen := length (rec_padding r), eorStop := False, skip := True, stop := i, isClosed := False\<rparr>"
  have "ProcessHeader L f (rec_header r)
      (s\<lparr>buff := b, rdNext := i, buffStop := t, paddingLen := 0, eorStop := True, stop := i\<rparr>, q, w1) =
    Some (SKIP, s\<lparr>buff := b, rdNext := i, buffStop := t, contentLen := length (rec_content r),
      paddingLen := length (rec_padding r), eorStop := True, stop := i\<rparr>, q, w1)"
    using foreign unfolding ProcessHeader_def Let_def prod.case rec_header_fields [OF ok]
    by (cases s) (simp add: foreign_rec_def FCGI_NULL_REQUEST_ID_def)
  then have skipping: "fill_loop L (ProcessHeader L f) [] (s, q, w) = fill_loop L (ProcessHeader L f) [] (?s1, q, w1)"
    unfolding 1 by (cases s) simp
  have "reader_base ?s1" using 2 assms(1) by (simp add: reader_base_def)
  moreover have "rest ?s1 w1 = rec_content r @ rec_padding r @ ys" using 2(4) by (simp add: unread_def)
  ultimately obtain b' i' t' w' where 3: "fill_loop L (ProcessHeader L f) [] (?s1, q, w1) =
      fill_loop L (ProcessHeader L f) [] (?s1\<lparr>buff := b', rdNext := i', buffStop := t', contentLen := 0, skip := False\<rparr>, q, w')"
    and 4: "i' \<le> t'" "t' \<le> bufflen s" "bufflen s \<le> length b'" "ahead b' i' t' @ incoming w' = rec_padding r @ ys"
    "sent w' = sent w"
    using fill_skips [of ?s1 "rec_content r" "[]" w1 "rec_padding r @ ys" "ProcessHeader L f"] foreign 2(5)
    by (auto simp: foreign_rec_def)
  have "?s1\<lparr>buff := b', rdNext := i', buffStop := t', contentLen := 0, skip := False\<rparr> =
      s\<lparr>buff := b', rdNext := i', buffStop := t', contentLen := 0, paddingLen := length (rec_padding r),
        eorStop := False, skip := False, stop := i, isClosed := False\<rparr>"
    by (cases s) simp
  then have "fill_loop L (ProcessHeader L f) [] (s, q, w) = fill_loop L (ProcessHeader L f) []
      (s\<lparr>buff := b', rdNext := i', buffStop := t', contentLen := 0, paddingLen := length (rec_padding r),
        eorStop := False, skip := False, stop := i, isClosed := False\<rparr>, q, w')"
    unfolding skipping 3 by (rule arg_cong)
  then show ?thesis using 4 by blast
qed

text \<open>Filling an empty buffer brings the next bytes of the stream, or finds its end.\<close>

lemma fill_stream_records:
  assumes "stream_recs (st_type s) (requestId q) rs" "own_rec (st_type s) (requestId q) e" "rec_content e = []"
    and "st_type s \<noteq> FCGI_BEGIN_REQUEST" "requestId q \<noteq> 0"
    and "reader_base s" "isReader s" "FCGI_errno s = 0" "contentLen s = 0" "paddingLen s = length ps" "\<not> eorStop s" "\<not> skip s"
    and "rest s w = ps @ concat (map rec_bytes rs) @ rec_bytes e @ ys"
  shows "\<exists>s' w'. fill_loop L (ProcessHeader L f) [] (s, q, w) = Some (s', q, w') \<and> st_type s' = st_type s \<and>
    (if content_of (requestId q) rs = [] then stream_ended (sent w) (rec_padding e @ ys) (st_type s) s' w'
     else stream_feeds (sent w) (rec_padding e @ ys) s' w' (content_of (requestId q) rs) \<and> rdNext s' < stop s')"
  using assms
proof (induction rs arbitrary: s w ps)
  case Nil
  have "rest s w = ps @ rec_bytes e @ ys" using Nil by simp
  from own_record [OF Nil(6,9,10,11) this Nil(2,4,5), of f] Nil(3) obtain b i t w' where
    1: "fill_loop L (ProcessHeader L f) [] (s, q, w) =
      Some (s\<lparr>buff := b, rdNext := i, buffStop := t, contentLen := 0, paddingLen := length (rec_padding e),
        eorStop := False, stop := i, wrNext := i, isClosed := True\<rparr>, q, w')"
    "i \<le> t" "t \<le> bufflen s" "bufflen s \<le> length b" "ahead b i t @ incoming w' = rec_padding e @ ys" "sent w' = sent w"
    by (auto simp: Let_def)
  then show ?case
    using Nil(6,7,8) by (auto simp: content_of_def stream_over_def reader_base_def unread_def)
next
  case (Cons r rs)
  let ?tail = "rec_padding e @ ys" and ?bs = "concat (map rec_bytes rs) @ rec_bytes e @ ys"
  have at: "rest s w = ps @ rec_bytes r @ ?bs" using Cons.prems(13) by simp
  have recs: "stream_recs (st_type s) (requestId q) rs" using Cons.prems(1) by (simp add: stream_recs_def)
  from Cons.prems(1) consider (own) "own_rec (st_type s) (requestId q) r" "rec_content r \<noteq> []" | (foreign) "foreign_rec (requestId q) r"
    by (auto simp: stream_recs_def)
  then show ?case
  proof cases
    case own
    from own_record [OF Cons.prems(6,9,10,11) at own(1) Cons.prems(4,5), of f] own(2) obtain b i t w1 where
      1: "fill_loop L (ProcessHeader L f) [] (s, q, w) = fill_loop L (ProcessHeader L f) []
          (s\<lparr>buff := b, rdNext := i, buffStop := t, contentLen := length (rec_content r),
             paddingLen := length (rec_padding r), eorStop := False, stop := i, isClosed := False\<rparr>, q, w1)"
      "i \<le> t" "t \<le> bufflen s" "bufflen s \<le> length b" "ahead b i t @ incoming w1 = rec_content r @ rec_padding r @ ?bs"
      "sent w1 = sent w"
      by (auto simp: Let_def)
    let ?s1 = "s\<lparr>buff := b, rdNext := i, buffStop := t, contentLen := length (rec_content r),
             paddingLen := length (rec_padding r), eorStop := False, stop := i, isClosed := False\<rparr>"
    have base1: "reader_base ?s1" using 1 Cons.prems(6) by (simp add: reader_base_def)
    have "rest ?s1 w1 \<noteq> []" "0 < contentLen ?s1" "\<not> skip ?s1" using 1(5) own(2) Cons.prems(12) by (simp_all add: unread_def)
    from fill_delivers [OF base1 this(2,3,1), of "ProcessHeader L f" "[]"] obtain b' i' t' k w' where
      2: "fill_loop L (ProcessHeader L f) [] (?s1, q, w1) = Some (?s1\<lparr>buff := b', rdNext := i', buffStop := t',
            contentLen := contentLen ?s1 - k, wrNext := i' + k, stop := i' + k\<rparr>, q, w')"
      "0 < k" "k \<le> contentLen ?s1" "i' + k \<le> t'" "t' \<le> bufflen ?s1" "bufflen ?s1 \<le> length b'"
      "ahead b' i' t' @ incoming w' = rest ?s1 w1" "sent w' = sent w1"
      by blast
    let ?s2 = "?s1\<lparr>buff := b', rdNext := i', buffStop := t', contentLen := contentLen ?s1 - k, wrNext := i' + k, stop := i' + k\<rparr>"
    have t': "t' \<le> length b'" using 2(5,6) by simp
    have "ahead b' i' (i' + k) @ ahead b' (i' + k) t' @ incoming w' = rec_content r @ rec_padding r @ ?bs"
      using 2(7) 1(5) ahead_append [of i' "i' + k" t' b'] 2(4) t' by (simp add: unread_def)
    moreover have dk: "length (ahead b' i' (i' + k)) = k" using length_ahead [of i' "i' + k" b'] 2(4) t' by simp
    moreover have "k \<le> length (rec_content r)" using 2(3) by simp
    ultimately have d: "ahead b' i' (i' + k) = take k (rec_content r)"
      and after: "ahead b' (i' + k) t' @ incoming w' = drop k (rec_content r) @ rec_padding r @ ?bs"
      by (blast dest: front_split)+
    have rest2: "rest ?s2 w' = ahead b' i' (i' + k) @ drop k (rec_content r) @ rec_padding r @ ?bs"
      using after ahead_append [of i' "i' + k" t' b'] 2(4) t' by (simp add: unread_def)
    have content: "content_of (requestId q) (r # rs) = ahead b' i' (i' + k) @ drop k (rec_content r) @ content_of (requestId q) rs"
      using own(1) d by (simp add: content_of_def own_rec_def)
    have "stream_bytes (st_type s) (requestId q) ?bs (content_of (requestId q) rs) ?tail"
      unfolding stream_bytes_def using recs Cons.prems(2,3) by blast
    then have bytes: "stream_bytes (st_type ?s2) (requestId q) ?bs (content_of (requestId q) rs) ?tail" by simp
    have base2: "reader_base ?s2" using 2(4-6) Cons.prems(6) by (simp add: reader_base_def)
    have "stream_feeds (sent w) ?tail ?s2 w' (content_of (requestId q) (r # rs))"
      by (rule stream_feedsI [OF base2 _ _ _ _ _ _ _ _ _ rest2 _ _ bytes content])
        (use 1(6) 2(3,4,8) Cons.prems(7,8,12) in simp_all)
    moreover have "content_of (requestId q) (r # rs) \<noteq> []" using content dk 2(2) by auto
    ultimately show ?thesis using 1(1) 2(1,2) by simp
  next
    case foreign
    from foreign_record [OF Cons.prems(6,9,10,11) at foreign, of f] obtain b i t u w1 where
      1: "fill_loop L (ProcessHeader L f) [] (s, q, w) = fill_loop L (ProcessHeader L f) []
          (s\<lparr>buff := b, rdNext := i, buffStop := t, contentLen := 0, paddingLen := length (rec_padding r),
             eorStop := False, skip := False, stop := u, isClosed := False\<rparr>, q, w1)"
      "i \<le> t" "t \<le> bufflen s" "bufflen s \<le> length b" "ahead b i t @ incoming w1 = rec_padding r @ ?bs" "sent w1 = sent w"
      by blast
    let ?s1 = "s\<lparr>buff := b, rdNext := i, buffStop := t, contentLen := 0, paddingLen := length (rec_padding r),
             eorStop := False, skip := False, stop := u, isClosed := False\<rparr>"
    have base1: "reader_base ?s1" using 1 Cons.prems(6) by (simp add: reader_base_def)
    have rest1: "rest ?s1 w1 = rec_padding r @ ?bs" using 1(5) by (simp add: unread_def)
    have content: "content_of (requestId q) (r # rs) = content_of (requestId q) rs"
      using foreign by (simp add: content_of_def foreign_rec_def)
    have "\<exists>s' w'. fill_loop L (ProcessHeader L f) [] (?s1, q, w1) = Some (s', q, w') \<and> st_type s' = st_type ?s1 \<and>
      (if content_of (requestId q) rs = [] then stream_ended (sent w1) ?tail (st_type ?s1) s' w'
       else stream_feeds (sent w1) ?tail s' w' (content_of (requestId q) rs) \<and> rdNext s' < stop s')"
      by (rule Cons.IH [of ?s1 "rec_padding r"]) (use recs Cons.prems(2-5,7,8) base1 rest1 in simp_all)
    then show ?thesis unfolding 1(1) content 1(6) by (simp cong: if_cong)
  qed
qed

lemma FillBuffProc_loop: "FillBuffProc L = fill_loop L (ProcessHeader L (fill_buff L 1)) []"
  by (simp add: FillBuffProc_def numeral_2_eq_2)

lemma stream_feedsE:
  assumes "stream_feeds out tail s w xs"
  obtains d c p bs ys where "reader_base s" "isReader s" "\<not> isClosed s" "\<not> eorStop s" "\<not> skip s" "FCGI_errno s = 0"
    "sent w = out" "rdNext s \<le> stop s" "stop s \<le> buffStop s" "d = ahead (buff s) (rdNext s) (stop s)"
    "rest s w = d @ c @ p @ bs" "length c = contentLen s" "length p = paddingLen s"
    "stream_bytes (st_type s) (requestId q) bs ys tail" "xs = d @ c @ ys"
  using assms unfolding stream_source_def by blast

lemma stream_feeds_same:
  "incoming w' = incoming w \<Longrightarrow> sent w' = sent w \<Longrightarrow> stream_feeds out tail s w xs \<Longrightarrow> stream_feeds out tail s w' xs"
  by (simp add: stream_source_def unread_def)

lemma stream_feeds_unget: "stream_feeds out tail s w xs \<Longrightarrow> stream_feeds out tail (s\<lparr>stopUnget := u\<rparr>) w xs"
  by (simp add: stream_source_def unread_def reader_base_def)

lemma fill_stream:
  assumes feeds: "stream_feeds out tail s w xs" and empty: "rdNext s = stop s"
    and valid: "st_type s \<noteq> FCGI_BEGIN_REQUEST" "requestId q \<noteq> 0"
  shows "\<exists>s' w'. FillBuffProc L (s, q, w) = Some (s', q, w') \<and> st_type s' = st_type s \<and>
    (if xs = [] then stream_ended out tail (st_type s) s' w' else stream_feeds out tail s' w' xs \<and> rdNext s' < stop s')"
proof -
  from feeds obtain d c p bs ys where f: "reader_base s" "isReader s" "\<not> isClosed s" "\<not> eorStop s" "\<not> skip s"
    "FCGI_errno s = 0" "sent w = out" "rdNext s \<le> stop s" "stop s \<le> buffStop s" "d = ahead (buff s) (rdNext s) (stop s)"
    "rest s w = d @ c @ p @ bs" "length c = contentLen s" "length p = paddingLen s"
    "stream_bytes (st_type s) (requestId q) bs ys tail" "xs = d @ c @ ys"
    by (rule stream_feedsE)
  have d: "d = []" using f(10) empty by (simp add: ahead_def)
  obtain f0 where f0: "FillBuffProc L = fill_loop L (ProcessHeader L f0) []" using FillBuffProc_loop by blast
  show ?thesis
  proof (cases "c = []")
    case True
    from f(14) obtain rs e zs where rs: "stream_recs (st_type s) (requestId q) rs" "own_rec (st_type s) (requestId q) e"
      "rec_content e = []" "bs = concat (map rec_bytes rs) @ rec_bytes e @ zs" "ys = content_of (requestId q) rs"
      "tail = rec_padding e @ zs"
      by (auto simp: stream_bytes_def)
    have "contentLen s = 0" using f(12) True by simp
    moreover have "rest s w = p @ concat (map rec_bytes rs) @ rec_bytes e @ zs" using f(11) d True rs(4) by simp
    moreover have "paddingLen s = length p" using f(13) by simp
    ultimately show ?thesis
      using fill_stream_records [OF rs(1-3) valid f(1,2,6) _ _ f(4,5), of p w zs f0] f0 f(7,15) d True rs(5,6) by (simp cong: if_cong)
  next
    case False
    have more: "rest s w \<noteq> []" "0 < contentLen s" using f(11) False f(12) [symmetric] by simp_all
    from fill_delivers [OF f(1) more(2) f(5) more(1), of "ProcessHeader L f0" "[]"] obtain b i t k w' where
      1: "fill_loop L (ProcessHeader L f0) [] (s, q, w) = Some (s\<lparr>buff := b, rdNext := i, buffStop := t,
          contentLen := contentLen s - k, wrNext := i + k, stop := i + k\<rparr>, q, w')"
      "0 < k" "k \<le> contentLen s" "i + k \<le> t" "t \<le> bufflen s" "bufflen s \<le> length b"
      "ahead b i t @ incoming w' = rest s w" "sent w' = sent w"
      by blast
    let ?s2 = "s\<lparr>buff := b, rdNext := i, buffStop := t, contentLen := contentLen s - k, wrNext := i + k, stop := i + k\<rparr>"
    have t: "t \<le> length b" using 1(5,6) by simp
    have two: "ahead b i t = ahead b i (i + k) @ ahead b (i + k) t" using ahead_append [of i "i + k" t b] 1(4) t by simp
    have "ahead b i (i + k) @ ahead b (i + k) t @ incoming w' = c @ p @ bs"
      using 1(7) two f(11) d by simp
    moreover have dk: "length (ahead b i (i + k)) = k" using length_ahead [of i "i + k" b] 1(4) t by simp
    moreover have "k \<le> length c" using 1(3) f(12) by simp
    ultimately have a: "ahead b i (i + k) = take k c" and after: "ahead b (i + k) t @ incoming w' = drop k c @ p @ bs"
      by (blast dest: front_split)+
    have rest2: "rest ?s2 w' = ahead b i (i + k) @ drop k c @ p @ bs" using after two by (simp add: unread_def)
    have xs: "xs = ahead b i (i + k) @ drop k c @ ys" using f(15) d a by simp
    have bytes: "stream_bytes (st_type ?s2) (requestId q) bs ys tail" using f(14) by simp
    have base2: "reader_base ?s2" using 1(4-6) f(1) by (simp add: reader_base_def)
    have "stream_feeds out tail ?s2 w' xs"
      by (rule stream_feedsI [OF base2 _ _ _ _ _ _ _ _ _ rest2 _ _ bytes xs]) (use f(2-7,12,13) 1(4,8) in simp_all)
    moreover have "xs \<noteq> []" using f(15) False by simp
    ultimately show ?thesis using 1(1,2) f0 by auto
  qed
qed

lemma rest_advance:
  assumes base: "reader_base s" and le: "rdNext s \<le> stop s" "stop s \<le> buffStop s" and n: "n \<le> stop s - rdNext s"
  shows "rest (s\<lparr>rdNext := rdNext s + n\<rparr>) w = drop n (rest s w)"
    and "ahead (buff s) (rdNext s + n) (stop s) = drop n (ahead (buff s) (rdNext s) (stop s))"
    and "reader_base (s\<lparr>rdNext := rdNext s + n\<rparr>)"
proof -
  have len: "stop s \<le> length (buff s)" "buffStop s \<le> length (buff s)" using base le by (auto simp: reader_base_def)
  show "ahead (buff s) (rdNext s + n) (stop s) = drop n (ahead (buff s) (rdNext s) (stop s))"
    using ahead_split [of "rdNext s" "stop s" "buff s" n] le len n by simp
  have "ahead (buff s) (rdNext s + n) (buffStop s) = drop n (ahead (buff s) (rdNext s) (buffStop s))"
    using ahead_split [of "rdNext s" "buffStop s" "buff s" n] le len n by simp
  moreover have "n \<le> length (ahead (buff s) (rdNext s) (buffStop s))"
    using length_ahead [of "rdNext s" "buffStop s" "buff s"] le len n by simp
  ultimately show "rest (s\<lparr>rdNext := rdNext s + n\<rparr>) w = drop n (rest s w)" by (simp add: unread_def)
  show "reader_base (s\<lparr>rdNext := rdNext s + n\<rparr>)" using base le n by (auto simp: reader_base_def)
qed

lemma stream_advance:
  assumes feeds: "stream_feeds out tail s w xs" and n: "n \<le> stop s - rdNext s"
  shows "stream_feeds out tail (s\<lparr>rdNext := rdNext s + n\<rparr>) w (drop n xs)"
proof -
  let ?s2 = "s\<lparr>rdNext := rdNext s + n\<rparr>"
  from feeds obtain d c p bs ys where f: "reader_base s" "isReader s" "\<not> isClosed s" "\<not> eorStop s" "\<not> skip s"
    "FCGI_errno s = 0" "sent w = out" "rdNext s \<le> stop s" "stop s \<le> buffStop s" "d = ahead (buff s) (rdNext s) (stop s)"
    "rest s w = d @ c @ p @ bs" "length c = contentLen s" "length p = paddingLen s"
    "stream_bytes (st_type s) (requestId q) bs ys tail" "xs = d @ c @ ys"
    by (rule stream_feedsE)
  note moved = rest_advance [OF f(1) f(8,9) n]
  have len: "stop s \<le> length (buff s)" using f(1,9) by (auto simp: reader_base_def)
  have "length d = stop s - rdNext s" using f(8,10) len length_ahead by simp
  then have nd: "n \<le> length d" using n by simp
  have rest2: "rest ?s2 w = drop n d @ c @ p @ bs" using moved(1) f(11) nd by simp
  have xs: "drop n xs = drop n d @ c @ ys" using f(15) nd by simp
  have bytes: "stream_bytes (st_type ?s2) (requestId q) bs ys tail" using f(14) by simp
  show ?thesis
    by (rule stream_feedsI [OF moved(3) _ _ _ _ _ _ _ _ _ rest2 _ _ bytes xs]) (use f(2-10,12,13) n moved(2) in simp_all)
qed

end

text \<open>A reader of one of the streams of a request, as a source of bytes.\<close>

locale request_reader = request_connection L q incoming sent
  for L :: "'w os_lib" and q :: FCGX_Request and incoming sent +
  fixes ty :: int and out tail :: "byte list"
  assumes stream_type: "ty \<noteq> FCGI_BEGIN_REQUEST" and request_id: "requestId q \<noteq> 0"

sublocale request_reader \<subseteq> input: byte_source L "FillBuffProc L" q
  "\<lambda>s w xs. st_type s = ty \<and> stream_feeds out tail s w xs" "stream_ended out tail ty" True
proof
  fix s w xs
  assume f: "st_type s = ty \<and> stream_feeds out tail s w xs"
  from f obtain d c p bs ys where s: "reader_base s" "isReader s" "\<not> isClosed s" "rdNext s \<le> stop s" "stop s \<le> buffStop s"
    "d = ahead (buff s) (rdNext s) (stop s)" "xs = d @ c @ ys"
    using stream_feedsE by (metis (no_types, lifting))
  have "stop s \<le> length (buff s)" using s(1,5) by (auto simp: reader_base_def)
  moreover have "length d = stop s - rdNext s" using s(4,6) calculation length_ahead by simp
  ultimately show "\<not> isClosed s \<and> isReader s \<and> rdNext s \<le> stop s \<and> stop s \<le> length (buff s) \<and> stop s - rdNext s \<le> length xs \<and>
      take (stop s - rdNext s) (drop (rdNext s) (buff s)) = take (stop s - rdNext s) xs"
    using s by (simp add: ahead_def)
next
  fix s w and xs :: "byte list"
  assume "st_type s = ty \<and> stream_feeds out tail s w xs" "rdNext s = stop s" "xs \<noteq> []"
  then show "\<exists>s' w'. FillBuffProc L (s, q, w) = Some (s', q, w') \<and>
      (st_type s' = ty \<and> stream_feeds out tail s' w' xs) \<and> rdNext s' < stop s'"
    using fill_stream [of out tail s w xs] stream_type request_id by auto
next
  fix s w
  assume f: "st_type s = ty \<and> stream_feeds out tail s w []"
  then have "rdNext s = stop s"
    by (auto simp: stream_source_def ahead_def reader_base_def)
  then show "\<exists>s' w'. FillBuffProc L (s, q, w) = Some (s', q, w') \<and> isClosed s' \<and> stream_ended out tail ty s' w'"
    using fill_stream [of out tail s w "[]"] f stream_type request_id by (auto simp: stream_over_def)
next
  fix s w n and xs :: "byte list"
  assume "st_type s = ty \<and> stream_feeds out tail s w xs" "n \<le> stop s - rdNext s"
  then show "st_type (s\<lparr>rdNext := rdNext s + n\<rparr>) = ty \<and> stream_feeds out tail (s\<lparr>rdNext := rdNext s + n\<rparr>) w (drop n xs)"
    using stream_advance by auto
next
  fix s w u and xs :: "byte list"
  assume "st_type s = ty \<and> stream_feeds out tail s w xs"
  then show "st_type (s\<lparr>stopUnget := u\<rparr>) = ty \<and> stream_feeds out tail (s\<lparr>stopUnget := u\<rparr>) w xs"
    using stream_feeds_unget by simp
next
  fix s w n and xs :: "byte list"
  assume f: "st_type s = ty \<and> stream_feeds out tail s w xs"
  from Malloc_gives obtain a blk w' where "Malloc L n w = Some ((a, blk), w')" "incoming w' = incoming w" "sent w' = sent w"
    by blast
  with f show "\<exists>a blk w'. Malloc L n w = Some ((a, blk), w') \<and> st_type s = ty \<and> stream_feeds out tail s w' xs"
    using stream_feeds_same by blast
next
  fix s w n and xs :: "byte list"
  assume f: "st_type s = ty \<and> stream_feeds out tail s w xs"
  from reallocs obtain w' where "realloc_op L n w = (True, w')" "incoming w' = incoming w" "sent w' = sent w"
    by blast
  with f show "\<exists>w'. realloc_op L n w = (True, w') \<and> st_type s = ty \<and> stream_feeds out tail s w' xs"
    using stream_feeds_same by blast
qed

end
