(* ===== verification/LA_Fcgi_Request.thy ===== *)
theory LA_Fcgi_Request
  imports LA_Fcgi_Read
begin

text \<open>
  Requests of the FastCGI library: the content of a single record as a source of bytes (the nested calls of the
  procedure that fills the buffer), the records that begin a request and ask for values, accepting a request with
  its environment, and finishing it.
\<close>

section \<open>The content of one record\<close>

definition record_source ::
  "('w \<Rightarrow> byte list) \<Rightarrow> ('w \<Rightarrow> byte list) \<Rightarrow> byte list \<Rightarrow> byte list \<Rightarrow> byte list \<Rightarrow> FCGX_Stream \<Rightarrow> 'w \<Rightarrow> byte list \<Rightarrow> bool" where
  "record_source incoming sent out pad tail s w xs =
     (reader_base s \<and> isReader s \<and> \<not> isClosed s \<and> eorStop s \<and> \<not> skip s \<and> FCGI_errno s = 0 \<and> sent w = out \<and>
      rdNext s \<le> stop s \<and> stop s \<le> buffStop s \<and>
      length pad = paddingLen s \<and>
      (\<exists>c. unread incoming s w = ahead (buff s) (rdNext s) (stop s) @ c @ pad @ tail \<and> length c = contentLen s \<and> xs = ahead (buff s) (rdNext s) (stop s) @ c))"

definition record_over ::
  "('w \<Rightarrow> byte list) \<Rightarrow> ('w \<Rightarrow> byte list) \<Rightarrow> byte list \<Rightarrow> byte list \<Rightarrow> FCGX_Stream \<Rightarrow> 'w \<Rightarrow> bool" where
  "record_over incoming sent out tail s w =
     (reader_base s \<and> isReader s \<and> isClosed s \<and> eorStop s \<and> \<not> skip s \<and> FCGI_errno s = 0 \<and> contentLen s = 0 \<and>
      paddingLen s = 0 \<and> sent w = out \<and> unread incoming s w = tail \<and> rdNext s = stop s)"

text \<open>Where nothing follows the content, not even padding, the procedure reads on and meets the end of the input.\<close>

definition record_finish ::
  "('w \<Rightarrow> byte list) \<Rightarrow> ('w \<Rightarrow> byte list) \<Rightarrow> byte list \<Rightarrow> byte list \<Rightarrow> byte list \<Rightarrow> FCGX_Stream \<Rightarrow> 'w \<Rightarrow> bool" where
  "record_finish incoming sent out pad tail s w =
     (if pad @ tail = [] then isClosed s \<and> FCGI_errno s = FCGX_PROTOCOL_ERROR \<and> sent w = out
      else record_over incoming sent out tail s w)"

context request_connection
begin

abbreviation record_feeds :: "byte list \<Rightarrow> byte list \<Rightarrow> byte list \<Rightarrow> FCGX_Stream \<Rightarrow> 'w \<Rightarrow> byte list \<Rightarrow> bool" where
  "record_feeds \<equiv> record_source incoming sent"

abbreviation record_ended :: "byte list \<Rightarrow> byte list \<Rightarrow> byte list \<Rightarrow> FCGX_Stream \<Rightarrow> 'w \<Rightarrow> bool" where
  "record_ended \<equiv> record_finish incoming sent"

lemma fill_record_end:
  assumes "reader_base s" "contentLen s = 0" "paddingLen s = length ps" "eorStop s" "rest s w = ps @ tail" "ps @ tail \<noteq> []"
  shows "\<exists>b i t w'. fill_loop L process hdr (s, q, w) =
      Some (s\<lparr>buff := b, rdNext := i, buffStop := t, paddingLen := 0, stop := i, isClosed := True\<rparr>, q, w') \<and>
    i \<le> t \<and> t \<le> bufflen s \<and> bufflen s \<le> length b \<and> ahead b i t @ incoming w' = tail \<and> sent w' = sent w"
  using assms
proof (induction "length ps" arbitrary: s w ps rule: less_induct)
  case less
  have "rest s w \<noteq> []" using less.prems(5,6) by simp
  from refill_more [OF less.prems(1) this] obtain b r t w1 where 1:
    "refill L (s, q, w) = Some (True, s\<lparr>buff := b, rdNext := r, buffStop := t\<rparr>, q, w1)" "r < t"
    "t \<le> bufflen s" "bufflen s \<le> length b" "ahead b r t @ incoming w1 = rest s w" "sent w1 = sent w"
    by blast
  let ?k = "min (length ps) (t - r)"
  let ?s1 = "s\<lparr>buff := b, rdNext := r + ?k, buffStop := t, paddingLen := length ps - ?k\<rparr>"
  have base1: "reader_base ?s1" using 1 less.prems(1) by (auto simp: reader_base_def)
  have "ahead b (r + ?k) t = drop ?k (ahead b r t)" using ahead_split [of r t b ?k] 1 by auto
  moreover have "?k \<le> length (ahead b r t)" using length_ahead [of r t b] 1 by auto
  moreover have "drop ?k (ahead b r t @ incoming w1) = drop ?k (ps @ tail)" using 1(5) less.prems(5) by simp
  ultimately have after: "ahead b (r + ?k) t @ incoming w1 = drop ?k ps @ tail" by (simp only: drop_append) simp
  show ?case
  proof (cases "?k = length ps")
    case False
    then have short: "t - r < length ps" by auto
    then have "ps \<noteq> []" by auto
    with short have "fill_step L process hdr (s, q, w) = Some (Again hdr (?s1, q, w1))"
      using 1(1) less.prems(2,3)
      by (cases s) (simp add: fill_step_def content_stage_def after_content_def padding_stage_def Let_def)
    then have step: "fill_loop L process hdr (s, q, w) = fill_loop L process hdr (?s1, q, w1)"
      by (simp add: fill_loop_step [of L process hdr "(s, q, w)"])
    have "length (drop ?k ps) < length ps" using 1(2) short by auto
    moreover have "paddingLen ?s1 = length (drop ?k ps)" by simp
    moreover have "contentLen ?s1 = 0" "eorStop ?s1" using less.prems by auto
    moreover have "rest ?s1 w1 = drop ?k ps @ tail" using after by (simp add: unread_def)
    ultimately obtain b' i' t' w' where 2:
      "fill_loop L process hdr (?s1, q, w1) =
        Some (?s1\<lparr>buff := b', rdNext := i', buffStop := t', paddingLen := 0, stop := i', isClosed := True\<rparr>, q, w')"
      "i' \<le> t'" "t' \<le> bufflen ?s1" "bufflen ?s1 \<le> length b'" "ahead b' i' t' @ incoming w' = tail" "sent w' = sent w1"
      using less.hyps [of "drop ?k ps" ?s1 w1] base1 short by auto
    have "?s1\<lparr>buff := b', rdNext := i', buffStop := t', paddingLen := 0, stop := i', isClosed := True\<rparr> =
        s\<lparr>buff := b', rdNext := i', buffStop := t', paddingLen := 0, stop := i', isClosed := True\<rparr>"
      by (cases s) simp
    then show ?thesis using step 2 1(6) by auto
  next
    case True
    have "fill_step L process hdr (s, q, w) =
        Some (Return (s\<lparr>buff := b, rdNext := r + ?k, buffStop := t, paddingLen := 0, stop := r + ?k, isClosed := True\<rparr>, q, w1))"
      using 1(1) less.prems(2,3,4) True
      by (cases s) (simp add: fill_step_def content_stage_def after_content_def padding_stage_def after_padding_def Let_def)
    then have "fill_loop L process hdr (s, q, w) =
        Some (s\<lparr>buff := b, rdNext := r + ?k, buffStop := t, paddingLen := 0, stop := r + ?k, isClosed := True\<rparr>, q, w1)"
      by (simp add: fill_loop_step)
    moreover have "ahead b (r + ?k) t @ incoming w1 = tail" using after True by simp
    moreover have "r + ?k \<le> t" using 1(2) by auto
    ultimately show ?thesis using 1(3,4,6) by blast
  qed
qed

lemma fill_record_cut:
  assumes "reader_base s" "rest s w = []" "FCGI_errno s = 0"
  shows "\<exists>s' w'. fill_loop L process hdr (s, q, w) = Some (s', q, w') \<and> isClosed s' \<and>
    FCGI_errno s' = FCGX_PROTOCOL_ERROR \<and> sent w' = sent w"
proof -
  have empty: "rdNext s = buffStop s" "incoming w = []"
    using assms(1,2) length_ahead [of "rdNext s" "buffStop s" "buff s"] by (auto simp: reader_base_def unread_def)
  from reads_end [OF empty(2), of "bufflen s"] obtain w' where "read_op L (ipcFd q) (bufflen s) w = (Some [], w')"
    "sent w' = sent w"
    by blast
  then show ?thesis
    using empty(1) assms(3) by (simp add: fill_loop_step fill_step_def refill_def OS_Read_def SetError_def)
qed

lemma record_feedsI:
  assumes "reader_base s" "isReader s" "\<not> isClosed s" "eorStop s" "\<not> skip s" "FCGI_errno s = 0" "sent w = out"
    and "rdNext s \<le> stop s" "stop s \<le> buffStop s" "d = ahead (buff s) (rdNext s) (stop s)"
    and "rest s w = d @ c @ pad @ tail" "length c = contentLen s" "length pad = paddingLen s" "xs = d @ c"
  shows "record_feeds out pad tail s w xs"
  using assms unfolding record_source_def by blast

lemma record_feedsE:
  assumes "record_feeds out pad tail s w xs"
  obtains d c where "reader_base s" "isReader s" "\<not> isClosed s" "eorStop s" "\<not> skip s" "FCGI_errno s = 0"
    "sent w = out" "rdNext s \<le> stop s" "stop s \<le> buffStop s" "d = ahead (buff s) (rdNext s) (stop s)"
    "rest s w = d @ c @ pad @ tail" "length c = contentLen s" "length pad = paddingLen s" "xs = d @ c"
  using assms unfolding record_source_def by blast

lemma fill_record:
  assumes feeds: "record_feeds out pad tail s w xs" and empty: "rdNext s = stop s" and content: "xs \<noteq> []"
  shows "\<exists>s' w'. fill_loop L process [] (s, q, w) = Some (s', q, w') \<and> record_feeds out pad tail s' w' xs \<and> rdNext s' < stop s'"
proof -
  from feeds obtain d c where f: "reader_base s" "isReader s" "\<not> isClosed s" "eorStop s" "\<not> skip s"
    "FCGI_errno s = 0" "sent w = out" "rdNext s \<le> stop s" "stop s \<le> buffStop s" "d = ahead (buff s) (rdNext s) (stop s)"
    "rest s w = d @ c @ pad @ tail" "length c = contentLen s" "length pad = paddingLen s" "xs = d @ c"
    by (rule record_feedsE)
  have d: "d = []" using f(10) empty by (simp add: ahead_def)
  then have "c \<noteq> []" using f(14) content by simp
  then have more: "rest s w \<noteq> []" "0 < contentLen s" using f(11) f(12) [symmetric] by simp_all
  from fill_delivers [OF f(1) more(2) f(5) more(1), of process "[]"] obtain b i t k w' where
    1: "fill_loop L process [] (s, q, w) = Some (s\<lparr>buff := b, rdNext := i, buffStop := t,
        contentLen := contentLen s - k, wrNext := i + k, stop := i + k\<rparr>, q, w')"
    "0 < k" "k \<le> contentLen s" "i + k \<le> t" "t \<le> bufflen s" "bufflen s \<le> length b"
    "ahead b i t @ incoming w' = rest s w" "sent w' = sent w"
    by blast
  let ?s2 = "s\<lparr>buff := b, rdNext := i, buffStop := t, contentLen := contentLen s - k, wrNext := i + k, stop := i + k\<rparr>"
  have t: "t \<le> length b" using 1(5,6) by simp
  have two: "ahead b i t = ahead b i (i + k) @ ahead b (i + k) t" using ahead_append [of i "i + k" t b] 1(4) t by simp
  have "ahead b i (i + k) @ ahead b (i + k) t @ incoming w' = c @ pad @ tail"
    using 1(7) two f(11) d by simp
  moreover have "length (ahead b i (i + k)) = k" using length_ahead [of i "i + k" b] 1(4) t by simp
  moreover have "k \<le> length c" using 1(3) f(12) by simp
  ultimately have a: "ahead b i (i + k) = take k c" and after: "ahead b (i + k) t @ incoming w' = drop k c @ pad @ tail"
    by (blast dest: front_split)+
  have rest2: "rest ?s2 w' = ahead b i (i + k) @ drop k c @ pad @ tail" using after two by (simp add: unread_def)
  have xs: "xs = ahead b i (i + k) @ drop k c" using f(14) d a by simp
  have base2: "reader_base ?s2" using 1(4-6) f(1) by (simp add: reader_base_def)
  have "record_feeds out pad tail ?s2 w' xs"
    by (rule record_feedsI [OF base2 _ _ _ _ _ _ _ _ _ rest2 _ _ xs]) (use f(2-7,12,13) 1(4,8) in simp_all)
  then show ?thesis using 1(1,2) by auto
qed

lemma record_advance:
  assumes feeds: "record_feeds out pad tail s w xs" and n: "n \<le> stop s - rdNext s"
  shows "record_feeds out pad tail (s\<lparr>rdNext := rdNext s + n\<rparr>) w (drop n xs)"
proof -
  let ?s2 = "s\<lparr>rdNext := rdNext s + n\<rparr>"
  from feeds obtain d c where f: "reader_base s" "isReader s" "\<not> isClosed s" "eorStop s" "\<not> skip s"
    "FCGI_errno s = 0" "sent w = out" "rdNext s \<le> stop s" "stop s \<le> buffStop s" "d = ahead (buff s) (rdNext s) (stop s)"
    "rest s w = d @ c @ pad @ tail" "length c = contentLen s" "length pad = paddingLen s" "xs = d @ c"
    by (rule record_feedsE)
  note moved = rest_advance [OF f(1) f(8,9) n]
  have len: "stop s \<le> length (buff s)" using f(1,9) by (auto simp: reader_base_def)
  have "length d = stop s - rdNext s" using f(8,10) len length_ahead by simp
  then have nd: "n \<le> length d" using n by simp
  have rest2: "rest ?s2 w = drop n d @ c @ pad @ tail" using moved(1) f(11) nd by simp
  have xs: "drop n xs = drop n d @ c" using f(14) nd by simp
  show ?thesis
    by (rule record_feedsI [OF moved(3) _ _ _ _ _ _ _ _ _ rest2 _ _ xs]) (use f(2-10,12,13) n moved(2) in simp_all)
qed

end

text \<open>The content of a record, as a source of bytes.\<close>

locale record_reader = request_connection L q incoming sent
  for L :: "'w os_lib" and q :: FCGX_Request and incoming sent +
  fixes out pad tail :: "byte list"

sublocale record_reader \<subseteq> body: byte_source L "fill_buff L 1" q "record_feeds out pad tail" "record_ended out pad tail" True
proof
  fix s w xs
  assume f: "record_feeds out pad tail s w xs"
  from f obtain d c where s: "reader_base s" "isReader s" "\<not> isClosed s" "rdNext s \<le> stop s" "stop s \<le> buffStop s"
    "d = ahead (buff s) (rdNext s) (stop s)" "xs = d @ c"
    using record_feedsE by (metis (no_types, lifting))
  have "stop s \<le> length (buff s)" using s(1,5) by (auto simp: reader_base_def)
  moreover have "length d = stop s - rdNext s" using s(4,6) calculation length_ahead by simp
  ultimately show "\<not> isClosed s \<and> isReader s \<and> rdNext s \<le> stop s \<and> stop s \<le> length (buff s) \<and> stop s - rdNext s \<le> length xs \<and>
      take (stop s - rdNext s) (drop (rdNext s) (buff s)) = take (stop s - rdNext s) xs"
    using s by (simp add: ahead_def)
next
  fix s w and xs :: "byte list"
  assume "record_feeds out pad tail s w xs" "rdNext s = stop s" "xs \<noteq> []"
  then show "\<exists>s' w'. fill_buff L 1 (s, q, w) = Some (s', q, w') \<and> record_feeds out pad tail s' w' xs \<and> rdNext s' < stop s'"
    using fill_record by simp
next
  fix s w
  assume f: "record_feeds out pad tail s w []"
  from f have s: "reader_base s" "isReader s" "eorStop s" "\<not> skip s" "FCGI_errno s = 0"
    "sent w = out" "rest s w = pad @ tail" "contentLen s = 0" "length pad = paddingLen s"
    by (auto elim: record_feedsE)
  show "\<exists>s' w'. fill_buff L 1 (s, q, w) = Some (s', q, w') \<and> isClosed s' \<and> record_ended out pad tail s' w'"
  proof (cases "pad @ tail = []")
    case True
    then show ?thesis
      using fill_record_cut [OF s(1) _ s(5), of w "ProcessHeader L (fill_buff L 0)" "[]"] s(6,7)
      by (auto simp: record_finish_def)
  next
    case False
    from fill_record_end [OF s(1,8) s(9) [symmetric] s(3,7) False, of "ProcessHeader L (fill_buff L 0)" "[]"] obtain b i t w' where
      "fill_loop L (ProcessHeader L (fill_buff L 0)) [] (s, q, w) =
        Some (s\<lparr>buff := b, rdNext := i, buffStop := t, paddingLen := 0, stop := i, isClosed := True\<rparr>, q, w')"
      "i \<le> t" "t \<le> bufflen s" "bufflen s \<le> length b" "ahead b i t @ incoming w' = tail" "sent w' = sent w"
      by blast
    then show ?thesis using s False by (auto simp: record_finish_def record_over_def reader_base_def unread_def)
  qed
next
  fix s w n and xs :: "byte list"
  assume "record_feeds out pad tail s w xs" "n \<le> stop s - rdNext s"
  then show "record_feeds out pad tail (s\<lparr>rdNext := rdNext s + n\<rparr>) w (drop n xs)" by (rule record_advance)
next
  fix s w u and xs :: "byte list"
  assume "record_feeds out pad tail s w xs"
  then show "record_feeds out pad tail (s\<lparr>stopUnget := u\<rparr>) w xs"
    by (simp add: record_source_def reader_base_def unread_def)
next
  fix s w n and xs :: "byte list"
  assume f: "record_feeds out pad tail s w xs"
  from Malloc_gives obtain a blk w' where "Malloc L n w = Some ((a, blk), w')" "incoming w' = incoming w" "sent w' = sent w"
    by blast
  moreover from this have "record_feeds out pad tail s w' xs" using f by (simp add: record_source_def unread_def)
  ultimately show "\<exists>a blk w'. Malloc L n w = Some ((a, blk), w') \<and> record_feeds out pad tail s w' xs" by blast
next
  fix s w n and xs :: "byte list"
  assume f: "record_feeds out pad tail s w xs"
  from reallocs obtain w' where "realloc_op L n w = (True, w')" "incoming w' = incoming w" "sent w' = sent w"
    by blast
  moreover from this have "record_feeds out pad tail s w' xs" using f by (simp add: record_source_def unread_def)
  ultimately show "\<exists>w'. realloc_op L n w = (True, w') \<and> record_feeds out pad tail s w' xs" by blast
qed

context record_reader
begin

lemmas body_str = body.get_str
lemmas body_params = body.read_params

end

section \<open>The record that begins a request\<close>

definition begin_rec :: "fcgi_rec \<Rightarrow> bool" where
  "begin_rec r = (rec_ok r \<and> rec_type r = FCGI_BEGIN_REQUEST \<and> rec_id r \<noteq> 0 \<and> length (rec_content r) = 8)"

text \<open>The request as the record describes it.\<close>

definition begun :: "fcgi_rec \<Rightarrow> FCGX_Request \<Rightarrow> FCGX_Request" where
  "begun r q =
     q\<lparr>requestId := rec_id r, keepConnection := uint (and (rec_content r ! 2) 1),
       role := uint (rec_content r ! 0) * 256 + uint (rec_content r ! 1), isBeginProcessed := True\<rparr>"

text \<open>A reader that stands before a record; what follows is \<open>bs\<close>.\<close>

definition reader_before ::
  "('w \<Rightarrow> byte list) \<Rightarrow> ('w \<Rightarrow> byte list) \<Rightarrow> byte list \<Rightarrow> FCGX_Stream \<Rightarrow> 'w \<Rightarrow> byte list \<Rightarrow> bool" where
  "reader_before incoming sent out s w bs =
     (reader_base s \<and> isReader s \<and> \<not> isClosed s \<and> \<not> eorStop s \<and> \<not> skip s \<and> FCGI_errno s = 0 \<and> sent w = out \<and>
      contentLen s = 0 \<and> rdNext s = stop s \<and>
      (\<exists>ps. paddingLen s = length ps \<and> unread incoming s w = ps @ bs))"

context request_connection
begin

abbreviation reader_at :: "byte list \<Rightarrow> FCGX_Stream \<Rightarrow> 'w \<Rightarrow> byte list \<Rightarrow> bool" where
  "reader_at \<equiv> reader_before incoming sent"

lemma other_request: "request_connection L (q\<lparr>requestId := rid\<rparr>) incoming sent"
  using connection_axioms by (simp add: request_connection_def)

lemma fill_begins:
  assumes at: "reader_at out s w (rec_bytes r @ ys)" and r: "begin_rec r" and first: "\<not> isBeginProcessed q"
  shows "\<exists>s' w'. FillBuffProc L (s, q, w) = Some (s', begun r q, w') \<and> reader_at out s' w' ys \<and>
    paddingLen s' = length (rec_padding r)"
proof -
  let ?q = "q\<lparr>requestId := rec_id r\<rparr>"
  have ok: "rec_ok r" and content: "length (rec_content r) = 8" and typ1: "rec_type r = FCGI_BEGIN_REQUEST" "rec_id r \<noteq> 0"
    using r by (auto simp: begin_rec_def)
  from at obtain ps where s: "reader_base s" "isReader s" "\<not> isClosed s" "\<not> eorStop s" "\<not> skip s" "FCGI_errno s = 0"
    "sent w = out" "contentLen s = 0" "paddingLen s = length ps" "rest s w = ps @ rec_bytes r @ ys"
    by (auto simp: reader_before_def)
  from header_at_record [OF s(1,8,9,4,10), of "ProcessHeader L (fill_buff L 1)"] obtain b i t w1 where
    1: "fill_loop L (ProcessHeader L (fill_buff L 1)) [] (s, q, w) = do {
      (status, s2, q2, w2) \<leftarrow> ProcessHeader L (fill_buff L 1) (rec_header r)
        (s\<lparr>buff := b, rdNext := i, buffStop := t, paddingLen := 0, eorStop := True, stop := i\<rparr>, q, w1);
      go_on L (ProcessHeader L (fill_buff L 1)) (after_header status (s2\<lparr>eorStop := False, isClosed := False\<rparr>, q2, w2)) }"
    and 2: "i \<le> t" "t \<le> bufflen s" "bufflen s \<le> length b"
      "ahead b i t @ incoming w1 = rec_content r @ rec_padding r @ ys" "sent w1 = sent w"
    by blast
  let ?s1 = "s\<lparr>buff := b, rdNext := i, buffStop := t, contentLen := 8, paddingLen := length (rec_padding r), eorStop := True, stop := i\<rparr>"
  have "record_feeds out (rec_padding r) ys ?s1 w1 (rec_content r)"
    by (rule record_feedsI [where d = "[]" and c = "rec_content r"])
      (use s 2 content in \<open>simp_all add: reader_base_def unread_def ahead_def [of b i i]\<close>)
  then obtain s2 w2 where 3: "FCGX_GetStr (fill_buff L 1) 8 (?s1, ?q, w1) = Some (rec_content r, s2, ?q, w2)"
    "record_feeds out (rec_padding r) ys s2 w2 []"
    using record_reader.body_str [OF record_reader.intro [OF other_request [of "rec_id r"]], where s = ?s1 and out = out and pad = "rec_padding r" and tail = ys and w = w1 and xs = "rec_content r" and n = 8] content
    by auto
  have "ProcessHeader L (fill_buff L 1) (rec_header r)
      (s\<lparr>buff := b, rdNext := i, buffStop := t, paddingLen := 0, eorStop := True, stop := i\<rparr>, q, w1) =
    ProcessBeginRecord L (fill_buff L 1) (rec_id r) (?s1, q, w1)"
    unfolding ProcessHeader_def Let_def prod.case rec_header_fields [OF ok] using typ1 content by (cases s) simp
  also have "\<dots> = Some (BEGIN_RECORD, s2, begun r q, w2)"
    using first typ1 content 3(1) by (simp add: ProcessBeginRecord_def begun_def)
  finally have "fill_loop L (ProcessHeader L (fill_buff L 1)) [] (s, q, w) =
      Some (s2\<lparr>eorStop := False, isClosed := False\<rparr>, begun r q, w2)"
    unfolding 1 by simp
  moreover have f: "reader_base s2" "isReader s2" "\<not> skip s2" "FCGI_errno s2 = 0" "sent w2 = out"
    "rdNext s2 \<le> stop s2" "stop s2 \<le> buffStop s2" "ahead (buff s2) (rdNext s2) (stop s2) = []"
    "rest s2 w2 = rec_padding r @ ys" "contentLen s2 = 0" "length (rec_padding r) = paddingLen s2"
    using 3(2) by (auto elim: record_feedsE)
  have "stop s2 \<le> length (buff s2)" using f(1,7) by (auto simp: reader_base_def)
  then have "rdNext s2 = stop s2" using f(6,8) length_ahead [of "rdNext s2" "stop s2" "buff s2"] by simp
  then have "reader_at out (s2\<lparr>eorStop := False, isClosed := False\<rparr>) w2 ys"
    using f by (auto simp: reader_before_def reader_base_def unread_def intro: exI [of _ "rec_padding r"])
  ultimately show ?thesis using f(11) by (simp add: FillBuffProc_loop)
qed

text \<open>Pointing a reader at another stream: what follows must be that stream.\<close>

lemma set_reader_type:
  assumes "reader_base s" "isReader s" "FCGI_errno s = 0" "sent w = out" "rest s w = bs"
    and bytes: "stream_bytes ty (requestId q) bs xs tail"
  shows "\<exists>s'. SetReaderType s ty = Some s' \<and> st_type s' = ty \<and> stream_feeds out tail s' w xs"
proof -
  let ?s = "s\<lparr>st_type := ty, eorStop := False, skip := False, contentLen := 0, paddingLen := 0,
    wrNext := rdNext s, stop := rdNext s, isClosed := False\<rparr>"
  have base2: "reader_base ?s" using assms(1) by (simp add: reader_base_def)
  have rest2: "rest ?s w = [] @ [] @ [] @ bs" using assms(5) by (simp add: unread_def)
  have bytes2: "stream_bytes (st_type ?s) (requestId q) bs xs tail" using bytes by simp
  have xs: "xs = [] @ [] @ xs" by simp
  have "stream_feeds out tail ?s w xs"
    by (rule stream_feedsI [OF base2 _ _ _ _ _ _ _ _ _ rest2 _ _ bytes2 xs])
      (use assms(1-4) in \<open>simp_all add: reader_base_def ahead_def\<close>)
  then show ?thesis using assms(2) by (simp add: SetReaderType_def)
qed

text \<open>A reader before the first record of its stream.\<close>

lemma at_feeds:
  assumes at: "reader_at out s w bs" and bytes: "stream_bytes (st_type s) (requestId q) bs xs tail"
  shows "stream_feeds out tail s w xs"
proof -
  from at obtain ps where s: "reader_base s" "isReader s" "\<not> isClosed s" "\<not> eorStop s" "\<not> skip s" "FCGI_errno s = 0"
    "sent w = out" "contentLen s = 0" "rdNext s = stop s" "paddingLen s = length ps" "rest s w = ps @ bs"
    by (auto simp: reader_before_def)
  have le: "rdNext s \<le> stop s" "stop s \<le> buffStop s" using s(1,9) by (simp_all add: reader_base_def)
  show ?thesis
    by (rule stream_feedsI [where d = "[]" and c = "[]" and p = ps, OF s(1-7) le]) (use s bytes in \<open>simp_all add: ahead_def\<close>)
qed

lemma new_reader:
  "\<exists>s w'. NewReader L len ty w = Some (s, w') \<and> st_type s = ty \<and> reader_at (sent w) s w' (incoming w)"
proof -
  from new_stream [of len True ty w] obtain s w' where s: "NewStream L len True ty w = Some (s, w')"
    "incoming w' = incoming w" "sent w' = sent w" "st_type s = ty" "isReader s" "\<not> isClosed s" "FCGI_errno s = 0" "\<not> eorStop s" "\<not> skip s"
    "contentLen s = 0" "paddingLen s = 0" "24 \<le> bufflen s" "bufflen s \<le> length (buff s)" "rdNext s = 0" "stop s = 0" "buffStop s = 0"
    by auto
  then have "reader_at (sent w) s w' (incoming w)"
    by (auto simp: reader_before_def reader_base_def unread_def ahead_def)
  then show ?thesis using s by (auto simp: NewReader_def)
qed

lemma new_params:
  "n \<noteq> 0 \<Longrightarrow> \<exists>w'. NewParams L n w = Some (\<lparr>vec = [], vec_length = n\<rparr>, w') \<and> incoming w' = incoming w \<and> sent w' = sent w"
proof -
  obtain a b w1 where "Malloc L sizeof_Params w = Some ((a, b), w1)" "incoming w1 = incoming w" "sent w1 = sent w"
    using Malloc_gives by blast
  moreover obtain a2 b2 w2 where "Malloc L (n * 8) w1 = Some ((a2, b2), w2)" "incoming w2 = incoming w1" "sent w2 = sent w1"
    using Malloc_gives by blast
  ultimately show "n \<noteq> 0 \<Longrightarrow> ?thesis" by (simp add: NewParams_def)
qed

end

context request_reader
begin

lemmas read_environment = input.read_params
lemmas read_bytes = input.get_str
lemmas read_bytes_end = input.get_str_end
lemmas read_char = input.get_char
lemmas read_char_end = input.get_char_end
lemmas read_line = input.get_line
lemmas read_loop = input.get_str_loop
lemmas read_unget = input.unget

end

text \<open>The beginning of a request and its environment on the wire; \<open>ys\<close> follows.\<close>

definition request_head :: "fcgi_rec \<Rightarrow> fcgi_rec list \<Rightarrow> fcgi_rec \<Rightarrow> (byte list \<times> byte list) list \<Rightarrow> bool" where
  "request_head b rs e nvs =
     (begin_rec b \<and> rec_padding b = [] \<and> stream_recs FCGI_PARAMS (rec_id b) rs \<and> own_rec FCGI_PARAMS (rec_id b) e \<and>
      rec_content e = [] \<and> rec_padding e = [] \<and> content_of (rec_id b) rs = concat (map encode_pair nvs) \<and>
      (\<forall>nv \<in> set nvs. pair_ok nv) \<and> length nvs < 2 ^ 28)"

definition head_bytes :: "fcgi_rec \<Rightarrow> fcgi_rec list \<Rightarrow> fcgi_rec \<Rightarrow> byte list" where
  "head_bytes b rs e = rec_bytes b @ concat (map rec_bytes rs) @ rec_bytes e"

context request_connection
begin

lemma read_request_from:
  assumes head: "request_head b rs e nvs" and role: "role_string (role (begun b q)) = Some roleStr"
    and s0: "NewReader L 8192 0 w = Some (s0, w0)"
    and same: "FillBuffProc L (s0, q\<lparr>isBeginProcessed := False\<rparr>, w0) = FillBuffProc L (s, q\<lparr>isBeginProcessed := False\<rparr>, w1)"
    and at: "reader_at out s w1 (head_bytes b rs e @ ys)"
  shows "\<exists>s p w'. read_request L q w = Some (True, (begun b q)\<lparr>rq_in := Some s, paramsPtr := Some p\<rparr>, w') \<and>
    vec p = roleStr # map pair_entry nvs \<and> stream_ended out ys FCGI_PARAMS s w'"
proof -
  let ?q0 = "q\<lparr>isBeginProcessed := False\<rparr>"
  have b: "begin_rec b" "rec_padding b = []" using head by (auto simp: request_head_def)
  have c0: "request_connection L ?q0 incoming sent" using connection_axioms by (simp add: request_connection_def)
  have q1: "begun b ?q0 = begun b q" by (simp add: begun_def)
  have c1: "request_connection L (begun b q) incoming sent" using connection_axioms by (simp add: request_connection_def begun_def)
  have rid: "requestId (begun b q) = rec_id b" by (simp add: begun_def)
  have "reader_at out s w1 (rec_bytes b @ concat (map rec_bytes rs) @ rec_bytes e @ ys)"
    using at by (simp add: head_bytes_def)
  from request_connection.fill_begins [OF c0 this b(1)] obtain s1 w2 where
    2: "FillBuffProc L (s0, ?q0, w0) = Some (s1, begun b q, w2)"
    "reader_at out s1 w2 (concat (map rec_bytes rs) @ rec_bytes e @ ys)" "paddingLen s1 = 0"
    unfolding q1 same using b(2) by auto
  obtain w3 where 3: "NewParams L 30 w2 = Some (\<lparr>vec = [], vec_length = 30\<rparr>, w3)" "incoming w3 = incoming w2" "sent w3 = sent w2"
    using new_params [of 30 w2] by auto
  obtain a blk w4 where 4: "Malloc L (length roleStr) w3 = Some ((a, blk), w4)" "incoming w4 = incoming w3" "sent w4 = sent w3"
    using Malloc_gives by blast
  have 5: "PutParam L \<lparr>vec = [], vec_length = 30\<rparr> roleStr w4 = Some (\<lparr>vec = [roleStr], vec_length = 30\<rparr>, w4)"
    by (simp add: PutParam_def)
  from 2(2,3) have s1: "reader_base s1" "isReader s1" "FCGI_errno s1 = 0" "sent w4 = out"
    "rest s1 w4 = concat (map rec_bytes rs) @ rec_bytes e @ ys"
    using 3(2,3) 4(2,3) by (auto simp: reader_before_def unread_def)
  have "stream_bytes FCGI_PARAMS (rec_id b) (concat (map rec_bytes rs) @ rec_bytes e @ ys) (concat (map encode_pair nvs)) ys"
    unfolding stream_bytes_def using head by (auto simp: request_head_def intro!: exI [of _ rs] exI [of _ e])
  then obtain s2 where 6: "SetReaderType s1 FCGI_PARAMS = Some s2" "st_type s2 = FCGI_PARAMS"
    "stream_source incoming sent (requestId (begun b q)) out ys s2 w4 (concat (map encode_pair nvs))"
    using request_connection.set_reader_type [OF c1 s1(1-5), of FCGI_PARAMS] unfolding rid by blast
  have reader: "request_reader L (begun b q) incoming sent FCGI_PARAMS"
    using c1 b(1) by (simp add: request_reader_def request_reader_axioms_def rid begin_rec_def fcgi_types)
  from request_reader.read_environment [OF reader conjI [OF 6(2,3)], of "\<lparr>vec = [roleStr], vec_length = 30\<rparr>"] obtain p s3 w5 where
    7: "ReadParams L (FillBuffProc L) \<lparr>vec = [roleStr], vec_length = 30\<rparr> (s2, begun b q, w4) = Some (True, p, s3, begun b q, w5)"
    "vec p = roleStr # map pair_entry nvs" "stream_ended out ys FCGI_PARAMS s3 w5"
    using head by (auto simp: request_head_def)
  have "isBeginProcessed (begun b q)" by (simp add: begun_def)
  then show ?thesis using s0 2(1) 3(1) 4(1) 5 6(1) 7 role
    by (intro exI [of _ s3] exI [of _ p] exI [of _ w5]) (simp add: read_request_def)
qed

lemma read_request_reads:
  assumes head: "request_head b rs e nvs" and input: "incoming w = head_bytes b rs e @ ys"
    and role: "role_string (role (begun b q)) = Some roleStr"
  shows "\<exists>s p w'. read_request L q w = Some (True, (begun b q)\<lparr>rq_in := Some s, paramsPtr := Some p\<rparr>, w') \<and>
    vec p = roleStr # map pair_entry nvs \<and> stream_ended (sent w) ys FCGI_PARAMS s w'"
proof -
  obtain s w1 where 1: "NewReader L 8192 0 w = Some (s, w1)" "reader_at (sent w) s w1 (incoming w)"
    using new_reader by blast
  show ?thesis
    by (rule read_request_from [OF head role 1(1) refl]) (use 1(2) input in simp)
qed

end

end
