(* ===== verification/LA_Fcgi_Values.thy ===== *)
theory LA_Fcgi_Values
  imports LA_Fcgi_Request
begin

text \<open>
  Management records of the FastCGI library: the record that asks for values is answered with the values the library
  knows, as long as the answer fits into the array it is put together in.
\<close>

section \<open>The answer in its array\<close>

definition known :: "byte list \<Rightarrow> bool" where
  "known n = (value_of n \<noteq> None)"

definition answer_pair :: "byte list \<Rightarrow> byte list" where
  "answer_pair n = (case value_of n of None \<Rightarrow> [] | Some c \<Rightarrow> encode_pair (n, [c]))"

definition answers :: "byte list list \<Rightarrow> byte list" where
  "answers ns = concat (map answer_pair ns)"

lemma answers_simps [simp]: "answers [] = []" "answers (n # ns) = answer_pair n @ answers ns"
  by (simp_all add: answers_def)

lemma value_of_cases:
  obtains "value_of n = None" | c where "value_of n = Some c" "13 \<le> length n" "length n \<le> 15"
  by (cases "value_of n") (auto simp: value_of_def FCGI_MAX_CONNS_def FCGI_MAX_REQS_def FCGI_MPXS_CONNS_def split: if_splits)

lemma answer_pair_length: "if known n then 16 \<le> length (answer_pair n) \<and> length (answer_pair n) \<le> 18 else answer_pair n = []"
  by (rule value_of_cases [of n]) (auto simp: known_def answer_pair_def encode_pair_def encode_length_def)

lemma answers_length:
  "16 * length (filter known ns) \<le> length (answers ns) \<and> length (answers ns) \<le> 18 * length (filter known ns)"
proof (induction ns)
  case (Cons n ns)
  then show ?case using answer_pair_length [of n] by (auto split: if_splits)
qed simp

text \<open>A name that stands for itself as a string up to its equals sign.\<close>

definition name_ok :: "byte list \<Rightarrow> bool" where
  "name_ok n = (0 \<notin> set n \<and> 61 \<notin> set n)"

lemma cut_name_entry: "name_ok (fst nv) \<Longrightarrow> cut_name (pair_entry nv) = Some (fst nv)"
proof -
  assume "name_ok (fst nv)"
  then have "\<forall>c \<in> set (fst nv). c \<noteq> 0" "\<forall>c \<in> set (fst nv). c \<noteq> 61" by (auto simp: name_ok_def)
  then show ?thesis by (simp add: cut_name_def pair_entry_def takeWhile_append2)
qed

lemma known_bytes: "value_of n = Some c \<Longrightarrow> [word_of_nat (length n), 1] @ n @ [c, 0] = answer_pair n @ [0]"
  by (rule value_of_cases [of n]) (auto simp: answer_pair_def encode_pair_def encode_length_def)

lemma answer_values_unknown:
  "name_ok (fst nv) \<Longrightarrow> \<not> known (fst nv) \<Longrightarrow>
   answer_values (map pair_entry (nv # nvs)) r p = answer_values (map pair_entry nvs) r p \<and> answer_pair (fst nv) = []"
  by (simp add: cut_name_entry known_def answer_pair_def)

lemma answer_values_known:
  assumes "name_ok (fst nv)" "known (fst nv)"
  shows "answer_values (map pair_entry (nv # nvs)) r p = do {
    r1 \<leftarrow> mem_write r p (answer_pair (fst nv) @ [0]);
    answer_values (map pair_entry nvs) r1 (p + length (answer_pair (fst nv))) }"
proof -
  obtain c where c: "value_of (fst nv) = Some c" using assms(2) by (auto simp: known_def)
  have "length (answer_pair (fst nv)) = length (fst nv) + 3"
    by (rule value_of_cases [of "fst nv"]) (use c in \<open>auto simp: answer_pair_def encode_pair_def encode_length_def\<close>)
  then show ?thesis
    using assms(1) c unfolding known_bytes [OF c, symmetric] by (simp add: cut_name_entry add.assoc)
qed

lemma answer_values_fits:
  assumes "\<forall>nv \<in> set nvs. name_ok (fst nv)" "p + length (answers (map fst nvs)) < length r"
  shows "\<exists>r'. answer_values (map pair_entry nvs) r p = Some (r', p + length (answers (map fst nvs))) \<and>
    length r' = length r \<and> take (p + length (answers (map fst nvs))) r' = take p r @ answers (map fst nvs)"
  using assms
proof (induction nvs arbitrary: r p)
  case (Cons nv nvs)
  let ?a = "answer_pair (fst nv)"
  have ok: "name_ok (fst nv)" "\<forall>nv \<in> set nvs. name_ok (fst nv)" using Cons.prems(1) by auto
  show ?case
  proof (cases "known (fst nv)")
    case False
    then show ?thesis
      using Cons.IH [OF ok(2), of p r] Cons.prems(2) answer_values_unknown [OF ok(1) False, of nvs r p] by simp
  next
    case True
    have room: "p + length (?a @ [0]) \<le> length r" using Cons.prems(2) by simp
    obtain r1 where r1: "r1 = take p r @ (?a @ [0]) @ drop (p + length (?a @ [0])) r" by blast
    have w: "mem_write r p (?a @ [0]) = Some r1" using room unfolding r1 by (rule mem_write_inside)
    then have len: "length r1 = length r" by (rule mem_write_length)
    have front: "take (p + length ?a) r1 = take p r @ ?a" using room by (simp add: r1)
    have more: "p + length ?a + length (answers (map fst nvs)) < length r1" using Cons.prems(2) len by simp
    from Cons.IH [OF ok(2) more] show ?thesis
      unfolding answer_values_known [OF ok(1) True] w front using len by (simp add: add.assoc)
  qed
qed simp

lemma answer_values_overruns:
  assumes "\<forall>nv \<in> set nvs. name_ok (fst nv)" "length r \<le> p + length (answers (map fst nvs))" "p < length r"
  shows "answer_values (map pair_entry nvs) r p = None"
  using assms
proof (induction nvs arbitrary: r p)
  case (Cons nv nvs)
  let ?a = "answer_pair (fst nv)"
  have ok: "name_ok (fst nv)" "\<forall>nv \<in> set nvs. name_ok (fst nv)" using Cons.prems(1) by auto
  show ?case
  proof (cases "known (fst nv)")
    case False
    then show ?thesis
      using Cons.IH [OF ok(2), of r p] Cons.prems(2,3) answer_values_unknown [OF ok(1) False, of nvs r p] by simp
  next
    case True
    show ?thesis
    proof (cases "mem_write r p (?a @ [0])")
      case None
      then show ?thesis unfolding answer_values_known [OF ok(1) True] by simp
    next
      case (Some r1)
      then have "length r1 = length r" "p + length ?a < length r"
        by (auto simp: mem_write_def split: if_splits)
      then have "answer_values (map pair_entry nvs) r1 (p + length ?a) = None"
        using Cons.IH [OF ok(2), of r1 "p + length ?a"] Cons.prems(2) by (simp add: add.assoc)
      then show ?thesis unfolding answer_values_known [OF ok(1) True] Some by simp
    qed
  qed
qed simp

lemma round8: "p < 8 \<Longrightarrow> n < 56 \<Longrightarrow> (n + p) mod 8 = 0 \<Longrightarrow> n + p \<le> (56 :: nat)"
  by presburger

section \<open>The record that asks\<close>

definition values_rec :: "fcgi_rec \<Rightarrow> (byte list \<times> byte list) list \<Rightarrow> bool" where
  "values_rec r nvs =
     (rec_ok r \<and> rec_type r = FCGI_GET_VALUES \<and> rec_id r = 0 \<and> rec_content r = concat (map encode_pair nvs) \<and>
      (\<forall>nv \<in> set nvs. name_ok (fst nv)))"

text \<open>The answer: its padding is what was left in the array.\<close>

definition answer_rec :: "byte list list \<Rightarrow> byte list \<Rightarrow> fcgi_rec" where
  "answer_rec ns pad = \<lparr>rec_type = FCGI_GET_VALUES_RESULT, rec_id = 0, rec_content = answers ns, rec_padding = pad\<rparr>"

lemma encode_pair_nonempty: "2 \<le> length (encode_pair nv)"
  by (simp add: encode_pair_def encode_length_def)

lemma content_pairs:
  assumes "nv \<in> set nvs"
  shows "length nvs \<le> length (concat (map encode_pair nvs)) \<and>
    length (fst nv) + length (snd nv) \<le> length (concat (map encode_pair nvs))"
  using assms
proof (induction nvs)
  case (Cons x xs)
  have "length xs \<le> length (concat (map encode_pair xs))"
  proof (induction xs)
    case (Cons y ys)
    then show ?case using encode_pair_nonempty [of y] by simp
  qed simp
  moreover have "length (fst x) + length (snd x) + 2 \<le> length (encode_pair x)"
    by (simp add: encode_pair_def encode_length_def)
  ultimately show ?case using Cons by auto
qed simp

lemma values_rec_pairs:
  assumes "values_rec r nvs"
  shows "\<forall>nv \<in> set nvs. pair_ok nv" "length nvs < 65536"
proof -
  have len: "length (concat (map encode_pair nvs)) < 65536" using assms by (auto simp: values_rec_def rec_ok_def)
  show "\<forall>nv \<in> set nvs. pair_ok nv"
  proof
    fix nv assume "nv \<in> set nvs"
    then show "pair_ok nv" using content_pairs [of nv nvs] len by (simp add: pair_ok_def)
  qed
  show "length nvs < 65536"
  proof (cases nvs)
    case (Cons nv rest)
    then show ?thesis using content_pairs [of nv nvs] len by simp
  qed simp
qed

context request_connection
begin

text \<open>In a nested call the content of the record is read as a list of pairs.\<close>

lemma read_names:
  assumes feeds: "record_feeds out pad tail s w (concat (map encode_pair nvs))" and r: "values_rec r nvs"
  shows "\<exists>p p1 s1 w1 w2. NewParams L 3 w = Some (p, w1) \<and>
    ReadParams L (fill_buff L 1) p (s, q, w1) = Some (True, p1, s1, q, w2) \<and> vec p1 = map pair_entry nvs \<and>
    record_ended out pad tail s1 w2"
proof -
  obtain w1 where 1: "NewParams L 3 w = Some (\<lparr>vec = [], vec_length = 3\<rparr>, w1)" "incoming w1 = incoming w" "sent w1 = sent w"
    using new_params [of 3 w] by auto
  have "record_feeds out pad tail s w1 (concat (map encode_pair nvs))"
    using feeds 1(2,3) by (simp add: record_source_def unread_def)
  moreover have "record_reader L q incoming sent" using connection_axioms
    by (simp add: record_reader_def request_connection_def)
  ultimately show ?thesis
    using record_reader.body_params [where s = s and w = w1 and p = "\<lparr>vec = [], vec_length = 3\<rparr>" and nvs = nvs and out = out and pad = pad and tail = tail]
      values_rec_pairs [OF r] 1(1) by fastforce
qed

text \<open>The answer that is sent, and the state in which the record was read to its end.\<close>

lemma process_values_fits:
  assumes feeds: "record_feeds out pad tail s w (concat (map encode_pair nvs))" and r: "values_rec r nvs"
    and tail: "pad @ tail \<noteq> []" and fits: "length (answers (map fst nvs)) < 56"
  shows "\<exists>s' w' left. ProcessManagementRecord L (fill_buff L 1) FCGI_GET_VALUES (s, q, w) = Some (MGMT_RECORD, s', q, w') \<and>
    record_over incoming sent (out @ rec_bytes (answer_rec (map fst nvs) left)) tail s' w' \<and> length left = pad8 (length (answers (map fst nvs)))"
proof -
  obtain ns where ns: "ns = map fst nvs" by blast
  obtain p p1 s1 w1 w2 where 1: "NewParams L 3 w = Some (p, w1)"
    "ReadParams L (fill_buff L 1) p (s, q, w1) = Some (True, p1, s1, q, w2)" "vec p1 = map pair_entry nvs"
    "record_ended out pad tail s1 w2"
    using read_names [OF feeds r] by blast
  have s1: "FCGI_errno s1 = 0" "contentLen s1 = 0" "sent w2 = out" using 1(4) tail by (auto simp: record_finish_def record_over_def)
  have names: "\<forall>nv \<in> set nvs. name_ok (fst nv)" using r by (simp add: values_rec_def)
  let ?n = "length (answers ns)"
  let ?m = "?n + pad8 ?n"
  obtain r1 where r1: "answer_values (map pair_entry nvs) (map (stack_junk L) [0..<64]) 8 = Some (r1, 8 + ?n)"
    "length r1 = 64" "take (8 + ?n) r1 = take 8 (map (stack_junk L) [0..<64]) @ answers ns"
    using answer_values_fits [OF names, of 8 "map (stack_junk L) [0..<64]"] fits unfolding ns by auto
  have m: "AlignInt8 (int ?n) = int ?m" "?m \<le> 56" "pad8 ?n < 8"
  proof -
    show "AlignInt8 (int ?n) = int ?m" using fits AlignInt8_nat [of ?n] pad8_align [of ?n] by (simp add: ns)
    show "pad8 ?n < 8" by (rule pad8_small)
    then show "?m \<le> 56" by (rule round8 [OF _ _ pad8_mod]) (use fits in \<open>simp add: ns\<close>)
  qed
  obtain left where left: "left = take (pad8 ?n) (drop (8 + ?n) r1)" "length left = pad8 ?n"
    using r1(2) m(2) by simp
  have body: "take ?m (drop 8 r1) = answers ns @ left"
  proof -
    have "take ?n (drop 8 r1) = drop 8 (take (8 + ?n) r1)" by (simp add: drop_take)
    also have "\<dots> = answers ns" using r1(3) by simp
    finally have a: "take ?n (drop 8 r1) = answers ns" .
    show ?thesis unfolding left(1) by (simp only: take_add a drop_drop) (simp add: add.commute)
  qed
  obtain h where h: "MakeHeader FCGI_GET_VALUES_RESULT FCGI_NULL_REQUEST_ID (int ?n) (int (pad8 ?n)) = Some h"
    "header_bytes h @ answers ns @ left = rec_bytes (answer_rec ns left)"
    using MakeHeader_bytes [of "answers ns" left FCGI_GET_VALUES_RESULT FCGI_NULL_REQUEST_ID] fits left(2) m(3)
    by (auto simp: answer_rec_def ns FCGI_NULL_REQUEST_ID_def)
  have "mem_write r1 0 (header_bytes h) = Some (header_bytes h @ drop 8 r1)"
    using r1(2) by (simp add: mem_write_def)
  moreover have "mem_read (header_bytes h @ drop 8 r1) 0 (8 + ?m) = Some (rec_bytes (answer_rec ns left))"
    using r1(2) m(2) body h(2) by (simp add: mem_read_def)
  moreover obtain w3 where w3: "write_it_all L (ipcFd q) (rec_bytes (answer_rec ns left)) w2 = Some (True, w3)"
    "incoming w3 = incoming w2" "sent w3 = sent w2 @ rec_bytes (answer_rec ns left)"
    using write_it_all_sends [of "rec_bytes (answer_rec ns left)" w2] by blast
  ultimately have "ProcessManagementRecord L (fill_buff L 1) FCGI_GET_VALUES (s, q, w) = Some (MGMT_RECORD, s1, q, w3)"
    using 1(1-3) r1(1) h(1) m(1) s1(1,2)
    by (simp add: ProcessManagementRecord_def Let_def FCGX_GetError_def FCGI_HEADER_LEN_def send_response_def nat_add_distrib)
  moreover have "record_over incoming sent (out @ rec_bytes (answer_rec ns left)) tail s1 w3"
    using 1(4) w3(2,3) tail by (auto simp add: record_finish_def record_over_def unread_def)
  ultimately show ?thesis using left(2) unfolding ns by blast
qed

lemma process_values_overruns:
  assumes feeds: "record_feeds out pad tail s w (concat (map encode_pair nvs))" and r: "values_rec r nvs"
    and tail: "pad @ tail \<noteq> []" and long: "56 \<le> length (answers (map fst nvs))"
  shows "ProcessManagementRecord L (fill_buff L 1) FCGI_GET_VALUES (s, q, w) = None"
proof -
  obtain p p1 s1 w1 w2 where 1: "NewParams L 3 w = Some (p, w1)"
    "ReadParams L (fill_buff L 1) p (s, q, w1) = Some (True, p1, s1, q, w2)" "vec p1 = map pair_entry nvs"
    "record_ended out pad tail s1 w2"
    using read_names [OF feeds r] by blast
  have s1: "FCGI_errno s1 = 0" "contentLen s1 = 0" using 1(4) tail by (auto simp: record_finish_def record_over_def)
  have names: "\<forall>nv \<in> set nvs. name_ok (fst nv)" using r by (simp add: values_rec_def)
  have "answer_values (map pair_entry nvs) (map (stack_junk L) [0..<64]) 8 = None"
    using answer_values_overruns [OF names, of "map (stack_junk L) [0..<64]" 8] long by simp
  then show ?thesis
    using 1(1-3) s1 by (simp add: ProcessManagementRecord_def Let_def FCGX_GetError_def FCGI_HEADER_LEN_def)
qed

text \<open>The same for a reader that comes to such a record.\<close>

lemma at_values:
  assumes at: "reader_at out s w (rec_bytes r @ ys)" and r: "values_rec r nvs"
  shows "\<exists>s1 w1. FillBuffProc L (s, q, w) = do {
      (status, s2, q2, w2) \<leftarrow> ProcessManagementRecord L (fill_buff L 1) FCGI_GET_VALUES (s1, q, w1);
      go_on L (ProcessHeader L (fill_buff L 1)) (after_header status (s2\<lparr>eorStop := False, isClosed := False\<rparr>, q2, w2)) } \<and>
    record_feeds out (rec_padding r) ys s1 w1 (concat (map encode_pair nvs))"
proof -
  have ok: "rec_ok r" "rec_type r = FCGI_GET_VALUES" "rec_id r = 0" "rec_content r = concat (map encode_pair nvs)"
    using r by (auto simp: values_rec_def)
  from at obtain ps where s: "reader_base s" "isReader s" "\<not> isClosed s" "\<not> eorStop s" "\<not> skip s" "FCGI_errno s = 0"
    "sent w = out" "contentLen s = 0" "paddingLen s = length ps" "rest s w = ps @ rec_bytes r @ ys"
    by (auto simp: reader_before_def)
  from header_at_record [OF s(1,8,9,4,10), of "ProcessHeader L (fill_buff L 1)"] obtain b i t w1 where
    1: "fill_loop L (ProcessHeader L (fill_buff L 1)) [] (s, q, w) = do {
      (status, s2, q2, w2) \<leftarrow> ProcessHeader L (fill_buff L 1) (rec_header r)
        (s\<lparr>buff := b, rdNext := i, buffStop := t, paddingLen := 0, eorStop := True, stop := i\<rparr>, q, w1);
      go_on L (ProcessHeader L (fill_buff L 1)) (after_header status (s2\<lparr>eorStop := False, isClosed := False\<rparr>, q2, w2)) }"
    and 2: "i \<le> t" "t \<le> bufflen s" "bufflen s \<le> length b"
      "ahead b i t @ incoming w1 = rec_content r @ rec_padding r @ ys" "sent w1 = sent w"
    by blast
  let ?s1 = "s\<lparr>buff := b, rdNext := i, buffStop := t, contentLen := length (rec_content r),
    paddingLen := length (rec_padding r), eorStop := True, stop := i\<rparr>"
  have "record_feeds out (rec_padding r) ys ?s1 w1 (rec_content r)"
    by (rule record_feedsI [where d = "[]" and c = "rec_content r"])
      (use s 2 in \<open>simp_all add: reader_base_def unread_def ahead_def [of b i i]\<close>)
  moreover have "ProcessHeader L (fill_buff L 1) (rec_header r)
      (s\<lparr>buff := b, rdNext := i, buffStop := t, paddingLen := 0, eorStop := True, stop := i\<rparr>, q, w1) =
    ProcessManagementRecord L (fill_buff L 1) FCGI_GET_VALUES (?s1, q, w1)"
    unfolding ProcessHeader_def Let_def prod.case rec_header_fields [OF ok(1)] using ok(2,3)
    by (cases s) (simp add: fcgi_types)
  ultimately show ?thesis using 1 ok(4) by (auto simp: FillBuffProc_loop)
qed

lemma values_answered:
  assumes at: "reader_at out s w (rec_bytes r @ ys)" and r: "values_rec r nvs"
    and tail: "rec_padding r @ ys \<noteq> []" and fits: "length (answers (map fst nvs)) < 56"
  shows "\<exists>s' w' left. FillBuffProc L (s, q, w) = FillBuffProc L (s', q, w') \<and>
    length left = pad8 (length (answers (map fst nvs))) \<and>
    reader_at (out @ rec_bytes (answer_rec (map fst nvs) left)) s' w' ys"
proof -
  from at_values [OF at r] obtain s1 w1 where 1: "FillBuffProc L (s, q, w) = do {
      (status, s2, q2, w2) \<leftarrow> ProcessManagementRecord L (fill_buff L 1) FCGI_GET_VALUES (s1, q, w1);
      go_on L (ProcessHeader L (fill_buff L 1)) (after_header status (s2\<lparr>eorStop := False, isClosed := False\<rparr>, q2, w2)) }"
    "record_feeds out (rec_padding r) ys s1 w1 (concat (map encode_pair nvs))"
    by blast
  from process_values_fits [OF 1(2) r tail fits] obtain s2 w2 left where 2:
    "ProcessManagementRecord L (fill_buff L 1) FCGI_GET_VALUES (s1, q, w1) = Some (MGMT_RECORD, s2, q, w2)"
    "record_over incoming sent (out @ rec_bytes (answer_rec (map fst nvs) left)) ys s2 w2"
    "length left = pad8 (length (answers (map fst nvs)))"
    by blast
  have "FillBuffProc L (s, q, w) = FillBuffProc L (s2\<lparr>eorStop := False, isClosed := False\<rparr>, q, w2)"
    using 1(1) 2(1) by (simp add: FillBuffProc_loop)
  moreover have "reader_at (out @ rec_bytes (answer_rec (map fst nvs) left)) (s2\<lparr>eorStop := False, isClosed := False\<rparr>) w2 ys"
    using 2(2) by (auto simp: record_over_def reader_before_def reader_base_def unread_def)
  ultimately show ?thesis using 2(3) by blast
qed

lemma values_overrun:
  assumes at: "reader_at out s w (rec_bytes r @ ys)" and r: "values_rec r nvs"
    and tail: "rec_padding r @ ys \<noteq> []" and long: "56 \<le> length (answers (map fst nvs))"
  shows "FillBuffProc L (s, q, w) = None"
  using at_values [OF at r] process_values_overruns [OF _ r tail long] by fastforce

text \<open>Where the record is all there is, and has no padding, it stays without an answer.\<close>

lemma values_unanswered:
  assumes at: "reader_at out s w (rec_bytes r)" and r: "values_rec r nvs" and none: "rec_padding r = []"
  shows "\<exists>s' w'. FillBuffProc L (s, q, w) = Some (s', q, w') \<and> isClosed s' \<and> FCGI_errno s' = FCGX_PROTOCOL_ERROR \<and> sent w' = out"
proof -
  from at have "reader_at out s w (rec_bytes r @ [])" by simp
  from at_values [OF this r] obtain s1 w1 where 1: "FillBuffProc L (s, q, w) = do {
      (status, s2, q2, w2) \<leftarrow> ProcessManagementRecord L (fill_buff L 1) FCGI_GET_VALUES (s1, q, w1);
      go_on L (ProcessHeader L (fill_buff L 1)) (after_header status (s2\<lparr>eorStop := False, isClosed := False\<rparr>, q2, w2)) }"
    "record_feeds out (rec_padding r) [] s1 w1 (concat (map encode_pair nvs))"
    by blast
  obtain p p1 s2 w2 w3 where 2: "NewParams L 3 w1 = Some (p, w2)"
    "ReadParams L (fill_buff L 1) p (s1, q, w2) = Some (True, p1, s2, q, w3)"
    "isClosed s2" "FCGI_errno s2 = FCGX_PROTOCOL_ERROR" "sent w3 = out"
    using read_names [OF 1(2) r] none by (auto simp: record_finish_def)
  have "ProcessManagementRecord L (fill_buff L 1) FCGI_GET_VALUES (s1, q, w1) =
      Some (FAILED FCGX_PROTOCOL_ERROR, s2, q, w3)"
    using 2 by (simp add: ProcessManagementRecord_def Let_def FCGX_GetError_def FCGX_PROTOCOL_ERROR_def)
  then have "FillBuffProc L (s, q, w) = Some (SetError FCGX_PROTOCOL_ERROR (s2\<lparr>eorStop := False, isClosed := False\<rparr>), q, w3)"
    using 1(1) by simp
  then show ?thesis using 2(4,5) by (simp add: SetError_def FCGX_PROTOCOL_ERROR_def)
qed

end

text \<open>Records that ask for values, one after the other, and what is sent for them.\<close>

definition ask_ok :: "fcgi_rec \<times> (byte list \<times> byte list) list \<Rightarrow> bool" where
  "ask_ok a = (values_rec (fst a) (snd a) \<and> length (filter known (map fst (snd a))) \<le> 3)"

fun asks_bytes :: "(fcgi_rec \<times> (byte list \<times> byte list) list) list \<Rightarrow> byte list" where
  "asks_bytes [] = []"
| "asks_bytes (a # as) = rec_bytes (fst a) @ asks_bytes as"

fun answered :: "(fcgi_rec \<times> (byte list \<times> byte list) list) list \<Rightarrow> byte list \<Rightarrow> bool" where
  "answered [] bs = (bs = [])"
| "answered (a # as) bs =
     (\<exists>left rest. bs = rec_bytes (answer_rec (map fst (snd a)) left) @ rest \<and>
        length left = pad8 (length (answers (map fst (snd a)))) \<and> answered as rest)"

lemma ask_fits: "ask_ok a \<Longrightarrow> length (answers (map fst (snd a))) < 56"
  using answers_length [of "map fst (snd a)"] by (simp add: ask_ok_def)

lemma many_overrun: "4 \<le> length (filter known ns) \<Longrightarrow> 56 \<le> length (answers ns)"
  using answers_length [of ns] by simp

context request_connection
begin

lemma all_answered:
  assumes "reader_at out s w (asks_bytes asks @ ys)" "ys \<noteq> []" "\<forall>a \<in> set asks. ask_ok a"
  shows "\<exists>s' w' bs. FillBuffProc L (s, q, w) = FillBuffProc L (s', q, w') \<and> answered asks bs \<and> reader_at (out @ bs) s' w' ys"
  using assms
proof (induction asks arbitrary: out s w)
  case (Cons a asks)
  have at: "reader_at out s w (rec_bytes (fst a) @ (asks_bytes asks @ ys))" using Cons.prems(1) by simp
  have a: "values_rec (fst a) (snd a)" "length (answers (map fst (snd a))) < 56" "rec_padding (fst a) @ asks_bytes asks @ ys \<noteq> []"
    using Cons.prems ask_fits [of a] by (auto simp: ask_ok_def)
  from values_answered [OF at a(1) a(3) a(2)] obtain s1 w1 left where 1:
    "FillBuffProc L (s, q, w) = FillBuffProc L (s1, q, w1)" "length left = pad8 (length (answers (map fst (snd a))))"
    "reader_at (out @ rec_bytes (answer_rec (map fst (snd a)) left)) s1 w1 (asks_bytes asks @ ys)"
    by blast
  from Cons.IH [OF 1(3)] Cons.prems(2,3) obtain s2 w2 bs where 2:
    "FillBuffProc L (s1, q, w1) = FillBuffProc L (s2, q, w2)" "answered asks bs"
    "reader_at ((out @ rec_bytes (answer_rec (map fst (snd a)) left)) @ bs) s2 w2 ys"
    by auto
  have "answered (a # asks) (rec_bytes (answer_rec (map fst (snd a)) left) @ bs)" using 1(2) 2(2) by auto
  then show ?case using 1(1) 2(1,3) by (metis append.assoc)
qed auto

end

end
