(* ===== verification/LA_Fcgi_Serve.thy ===== *)
theory LA_Fcgi_Serve
  imports LA_Fcgi_Values
begin

text \<open>
  A request of the FastCGI library from accepting it to finishing it: what \<open>FCGX_Accept_r\<close> gives the program, and what
  \<open>FCGX_Finish_r\<close> has sent in the end.
\<close>

section \<open>Accepting a request\<close>

definition accepted ::
  "('w \<Rightarrow> byte list) \<Rightarrow> ('w \<Rightarrow> byte list) \<Rightarrow> byte list \<Rightarrow> byte list \<Rightarrow> FCGX_Request \<Rightarrow> 'w \<Rightarrow> byte list list \<Rightarrow> byte list \<Rightarrow> bool" where
  "accepted incoming sent start tail q w env body =
     (envp q = Some env \<and> nWriters q = 2 \<and>
      (\<exists>i out err. rq_in q = Some i \<and> rq_out q = Some out \<and> rq_err q = Some err \<and>
        st_type i = FCGI_STDIN \<and> stream_source incoming sent (requestId q) start tail i w body \<and>
        writer_ok out \<and> pending out = [] \<and> st_type out = FCGI_STDOUT \<and>
        writer_ok err \<and> pending err = [] \<and> st_type err = FCGI_STDERR \<and> \<not> isAnythingWritten err))"

context request_connection
begin

lemma accept_streams:
  assumes over: "stream_over incoming sent out0 bs FCGI_PARAMS s w" and i: "rq_in q = Some s"
    and p: "paramsPtr q = Some p" and body: "stream_bytes FCGI_STDIN (requestId q) bs xs tail"
  shows "\<exists>i1 out err w3 w4. SetReaderType s FCGI_STDIN = Some i1 \<and> NewWriter L 8192 FCGI_STDOUT w = Some (out, w3) \<and>
    NewWriter L 512 FCGI_STDERR w3 = Some (err, w4) \<and>
    accepted incoming sent out0 tail
      (q\<lparr>rq_in := Some i1, rq_out := Some out, rq_err := Some err, nWriters := 2, envp := map_option vec (paramsPtr q)\<rparr>) w4 (vec p) xs"
proof -
  have s: "reader_base s" "isReader s" "FCGI_errno s = 0" "sent w = out0" "unread incoming s w = bs"
    using over by (auto simp: stream_over_def)
  from set_reader_type [OF s body] obtain i1 where i1: "SetReaderType s FCGI_STDIN = Some i1" "st_type i1 = FCGI_STDIN"
    "stream_feeds out0 tail i1 w xs"
    by blast
  from new_writer [of 8192 FCGI_STDOUT w] obtain out w3 where out: "NewWriter L 8192 FCGI_STDOUT w = Some (out, w3)"
    "incoming w3 = incoming w" "sent w3 = sent w" "writer_ok out" "pending out = []" "st_type out = FCGI_STDOUT"
    by blast
  from new_writer [of 512 FCGI_STDERR w3] obtain err w4 where err: "NewWriter L 512 FCGI_STDERR w3 = Some (err, w4)"
    "incoming w4 = incoming w3" "sent w4 = sent w3" "writer_ok err" "pending err = []" "st_type err = FCGI_STDERR"
    "\<not> isAnythingWritten err"
    by blast
  have "stream_feeds out0 tail i1 w4 xs"
    using i1(3) out(2,3) err(2,3) by (simp add: stream_source_def unread_def)
  then show ?thesis using i1 out err p by (auto simp: accepted_def)
qed

end

text \<open>Values can be asked for before the request begins.\<close>

lemma accept_request:
  assumes conn: "connection L fd incoming sent" and fd: "0 \<le> fd"
    and open_: "OS_Accept L sock (odd flags) addrs w = Some (fd, w1)"
    and asks: "\<forall>a \<in> set asks. ask_ok a" and head: "request_head b rs e nvs"
    and input: "incoming w1 = asks_bytes asks @ head_bytes b rs e @ bs"
    and body: "stream_bytes FCGI_STDIN (rec_id b) bs xs tail"
    and role: "role_string (role (begun b (FCGX_InitRequest sock flags))) = Some roleStr"
  shows "\<exists>q w' vs. FCGX_Accept_r L True addrs (FCGX_InitRequest sock flags) w = Some (0, q, w') \<and>
    requestId q = rec_id b \<and> ipcFd q = fd \<and> keepConnection q = uint (and (rec_content b ! 2) 1) \<and> answered asks vs \<and>
    accepted incoming sent (sent w1 @ vs) tail q w' (roleStr # map pair_entry nvs) xs"
proof -
  let ?q0 = "FCGX_InitRequest sock flags"
  let ?q1 = "?q0\<lparr>ipcFd := fd\<rparr>"
  have c1: "request_connection L ?q1 incoming sent" using conn by (simp add: request_connection_def)
  have role1: "role_string (role (begun b ?q1)) = Some roleStr" using role by (simp add: begun_def)
  have c0: "request_connection L (?q1\<lparr>isBeginProcessed := False\<rparr>) incoming sent" using conn by (simp add: request_connection_def)
  from request_connection.new_reader [OF c1, of 8192 0 w1] obtain s0 wa where s0:
    "NewReader L 8192 0 w1 = Some (s0, wa)" "reader_before incoming sent (sent w1) s0 wa (incoming w1)"
    by blast
  have "head_bytes b rs e @ bs \<noteq> []" by (simp add: head_bytes_def)
  with request_connection.all_answered [OF c0 s0(2) [unfolded input] _ asks] obtain s1 wb vs where 1:
    "FillBuffProc L (s0, ?q1\<lparr>isBeginProcessed := False\<rparr>, wa) = FillBuffProc L (s1, ?q1\<lparr>isBeginProcessed := False\<rparr>, wb)"
    "answered asks vs" "reader_before incoming sent (sent w1 @ vs) s1 wb (head_bytes b rs e @ bs)"
    by blast
  from request_connection.read_request_from [OF c1 head role1 s0(1) 1(1,3)] obtain s p w2 where 2:
    "read_request L ?q1 w1 = Some (True, (begun b ?q1)\<lparr>rq_in := Some s, paramsPtr := Some p\<rparr>, w2)"
    "vec p = roleStr # map pair_entry nvs" "stream_over incoming sent (sent w1 @ vs) bs FCGI_PARAMS s w2"
    by blast
  let ?q2 = "(begun b ?q1)\<lparr>rq_in := Some s, paramsPtr := Some p\<rparr>"
  have c2: "request_connection L ?q2 incoming sent" using conn by (simp add: request_connection_def begun_def)
  have body2: "stream_bytes FCGI_STDIN (requestId ?q2) bs xs tail" using body by (simp add: begun_def)
  from request_connection.accept_streams [OF c2 2(3) _ _ body2, of p] obtain i1 out err w3 w4 where 3:
    "SetReaderType s FCGI_STDIN = Some i1" "NewWriter L 8192 FCGI_STDOUT w2 = Some (out, w3)"
    "NewWriter L 512 FCGI_STDERR w3 = Some (err, w4)"
    "accepted incoming sent (sent w1 @ vs) tail
      (?q2\<lparr>rq_in := Some i1, rq_out := Some out, rq_err := Some err, nWriters := 2, envp := map_option vec (paramsPtr ?q2)\<rparr>) w4 (vec p) xs"
    by auto
  have "FCGX_Finish_r L ?q0 w = Some (?q0, w)"
    by (simp add: FCGX_Finish_r_def FCGX_InitRequest_def FCGX_Free_def OS_IpcClose_def OS_Close_def)
  moreover have "accept_connection L addrs ?q0 w = Some (?q1, w1)"
    using open_ by (simp add: accept_connection_def FCGX_InitRequest_def)
  then have "accept_loop L addrs ?q0 w = Some (0, ?q2, w2)"
    using 2(1) fd by (subst accept_loop.simps) simp
  ultimately have "FCGX_Accept_r L True addrs ?q0 w = Some (0,
      ?q2\<lparr>rq_in := Some i1, rq_out := Some out, rq_err := Some err, nWriters := 2, envp := map_option vec (paramsPtr ?q2)\<rparr>, w4)"
    using 3(1-3) by (simp add: FCGX_Accept_r_def)
  then show ?thesis using 3(4) 2(2) 1(2) by (auto simp: begun_def)
qed

section \<open>Finishing a request\<close>

lemma free_closes:
  assumes "connection L (ipcFd q) incoming sent"
  shows "\<exists>w'. FCGX_Free L close q w =
      Some (q\<lparr>rq_in := None, rq_out := None, rq_err := None, paramsPtr := None,
               ipcFd := (if close then -1 else ipcFd q)\<rparr>, w') \<and> sent w' = sent w"
proof (cases close)
  case True
  from connection.close_ends [OF assms, of w] obtain r w' where "OS_IpcClose L (ipcFd q) w = Some (r, w')" "sent w' = sent w"
    by blast
  then show ?thesis using True by (auto simp: FCGX_Free_def Let_def)
qed (simp add: FCGX_Free_def Let_def)

text \<open>What an open request still sends when it is finished: nothing for the errors, then the rest of the output.\<close>

lemma finish_sends:
  assumes conn: "connection L (ipcFd q) incoming sent"
    and i: "rq_in q = Some i" "FCGI_errno i = 0" and n: "nWriters q = 2"
    and err: "rq_err q = Some err" "writer_ok err" "pending err = []" "st_type err = FCGI_STDERR" "\<not> isAnythingWritten err"
    and out: "rq_out q = Some out" "writer_ok out"
  shows "\<exists>q' w'. FCGX_Finish_r L q w = Some (q', w') \<and> rq_in q' = None \<and> rq_out q' = None \<and> rq_err q' = None \<and>
    nWriters q' = 0 \<and> ipcFd q' = (if keepConnection q = 0 then -1 else ipcFd q) \<and>
    sent w' = sent w @ closing_bytes out (q\<lparr>nWriters := 1\<rparr>)"
proof -
  have c0: "request_connection L q incoming sent" using conn by (simp add: request_connection_def)
  from request_connection.close_sends [OF c0 err(2), of w] obtain err' w1 where 1:
    "FCGX_FClose L (err, q, w) = Some (0, err', q\<lparr>nWriters := nWriters q - 1\<rparr>, w1)"
    "sent w1 = sent w @ closing_bytes err q"
    by blast
  let ?q1 = "q\<lparr>nWriters := 1, rq_err := Some err'\<rparr>"
  have silent: "closing_bytes err q = []" using err(3-5) n by (simp add: closing_bytes_def)
  have c1: "request_connection L ?q1 incoming sent" using conn by (simp add: request_connection_def)
  from request_connection.close_sends [OF c1 out(2), of w1] obtain out' w2 where 2:
    "FCGX_FClose L (out, ?q1, w1) = Some (0, out', ?q1\<lparr>nWriters := nWriters ?q1 - 1\<rparr>, w2)"
    "sent w2 = sent w1 @ closing_bytes out ?q1"
    by blast
  let ?q2 = "?q1\<lparr>nWriters := 0, rq_out := Some out'\<rparr>"
  have m1: "close_member L rq_err (\<lambda>s. rq_err_update (\<lambda>_. Some s)) q w = Some (0, ?q1, w1)"
    using 1(1) err(1) n by (cases q) (simp add: close_member_def)
  have m2: "close_member L rq_out (\<lambda>s. rq_out_update (\<lambda>_. Some s)) ?q1 w1 = Some (0, ?q2, w2)"
    using 2(1) out(1) by (cases q) (simp add: close_member_def)
  have c2: "connection L (ipcFd ?q2) incoming sent" using conn by simp
  from free_closes [OF c2, of "keepConnection q = 0" w2] obtain w3 where
    3: "FCGX_Free L (keepConnection q = 0) ?q2 w2 =
      Some (?q2\<lparr>rq_in := None, rq_out := None, rq_err := None, paramsPtr := None,
               ipcFd := (if keepConnection q = 0 then -1 else ipcFd ?q2)\<rparr>, w3)" "sent w3 = sent w2"
    by blast
  have "FCGX_Finish_r L q w = FCGX_Free L (keepConnection q = 0) ?q2 w2"
    using i m1 m2 by (simp add: FCGX_Finish_r_def FCGX_GetError_def)
  moreover have "closing_bytes out ?q1 = closing_bytes out (q\<lparr>nWriters := 1\<rparr>)" by (simp add: closing_bytes_def)
  then have "sent w3 = sent w @ closing_bytes out (q\<lparr>nWriters := 1\<rparr>)" 
    using 1(2) 2(2) 3(2) unfolding silent by simp
  ultimately show ?thesis using 3(1) by simp
qed

section \<open>A request from its beginning to its end\<close>

text \<open>
  What a program does with a request: it accepts it, reads \<open>n\<close> bytes of its body, and its handler decides from the
  environment and the body what is written to the output and which status the program exits with.
\<close>

definition serve ::
  "'w os_lib \<Rightarrow> int \<Rightarrow> int \<Rightarrow> byte list option \<Rightarrow> (byte list list \<Rightarrow> byte list \<Rightarrow> writer_call list \<times> int) \<Rightarrow> nat \<Rightarrow>
   'w \<Rightarrow> (int \<times> FCGX_Request \<times> 'w) option" where
  "serve L sock flags addrs handler n w = do {
     (rc, q, w1) \<leftarrow> FCGX_Accept_r L True addrs (FCGX_InitRequest sock flags) w;
     if rc \<noteq> 0 then Some (rc, q, w1)
     else do {
       env \<leftarrow> envp q;
       i \<leftarrow> rq_in q;
       out \<leftarrow> rq_out q;
       (body, i1, q1, w2) \<leftarrow> FCGX_GetStr (FillBuffProc L) (int n) (i, q, w1);
       (good, out1, q2, w3) \<leftarrow> run_calls L (fst (handler env body)) (out, q1\<lparr>rq_in := Some i1\<rparr>, w2);
       (q3, w4) \<leftarrow> FCGX_Finish_r L (FCGX_SetExitStatus (snd (handler env body)) (q2\<lparr>rq_out := Some out1\<rparr>)) w3;
       Some (0, q3, w4) } }"

lemma read_body:
  assumes reader: "request_reader L q incoming sent FCGI_STDIN"
    and i: "st_type i = FCGI_STDIN" "stream_source incoming sent (requestId q) start tail i w xs"
  shows "\<exists>i1 w1. FCGX_GetStr (FillBuffProc L) (int n) (i, q, w) = Some (take n xs, i1, q, w1) \<and> FCGI_errno i1 = 0 \<and>
    sent w1 = start"
proof (cases "n \<le> length xs")
  case True
  then show ?thesis
    using request_reader.read_bytes [OF reader conjI [OF i], of n] by (auto simp: stream_source_def)
next
  case False
  then show ?thesis
    using request_reader.read_bytes_end [OF reader conjI [OF i], of n] by (auto simp: stream_over_def)
qed

lemma closing_wire:
  assumes out: "writer_ok out" "st_type out = FCGI_STDOUT" and d: "wire FCGI_STDOUT rid d x"
  shows "\<exists>d'. d @ closing_bytes out (q\<lparr>requestId := rid, nWriters := 1\<rparr>) =
      d' @ rec_bytes (end_rec FCGI_STDOUT rid) @ rec_bytes (end_request_rec rid (appStatus q) 0) \<and>
    wire FCGI_STDOUT rid d' (x @ pending out)"
  using wire_append [OF d wire_pending [OF out(1), of FCGI_STDOUT rid]] out
  by (intro exI [of _ "d @ (if pending out = [] then [] else rec_bytes (content_rec FCGI_STDOUT rid (pending out)))"])
    (simp add: closing_bytes_def fcgi_types)

text \<open>Serving a request from where it was accepted.\<close>

lemma respond_sends:
  assumes conn: "connection L (ipcFd q) incoming sent" and rid: "requestId q \<noteq> 0"
    and acc: "accepted incoming sent start tail q w env body"
  shows "\<exists>i out i1 w2 out1 w3 q3 w4 d. rq_in q = Some i \<and> rq_out q = Some out \<and>
    FCGX_GetStr (FillBuffProc L) (int n) (i, q, w) = Some (take n body, i1, q, w2) \<and>
    run_calls L calls (out, q\<lparr>rq_in := Some i1\<rparr>, w2) = Some (True, out1, q\<lparr>rq_in := Some i1\<rparr>, w3) \<and>
    FCGX_Finish_r L (FCGX_SetExitStatus status (q\<lparr>rq_in := Some i1, rq_out := Some out1\<rparr>)) w3 = Some (q3, w4) \<and>
    rq_in q3 = None \<and> nWriters q3 = 0 \<and> ipcFd q3 = (if keepConnection q = 0 then -1 else ipcFd q) \<and>
    wire FCGI_STDOUT (requestId q) d (concat (map call_bytes calls)) \<and>
    sent w4 = start @ d @ rec_bytes (end_rec FCGI_STDOUT (requestId q)) @ rec_bytes (end_request_rec (requestId q) status 0)"
proof -
  from acc obtain i out err where s: "nWriters q = 2" "rq_in q = Some i" "rq_out q = Some out" "rq_err q = Some err"
    "st_type i = FCGI_STDIN" "stream_source incoming sent (requestId q) start tail i w body"
    "writer_ok out" "pending out = []" "st_type out = FCGI_STDOUT"
    "writer_ok err" "pending err = []" "st_type err = FCGI_STDERR" "\<not> isAnythingWritten err"
    by (auto simp: accepted_def)
  have reader: "request_reader L q incoming sent FCGI_STDIN"
    using conn rid by (simp add: request_reader_def request_reader_axioms_def request_connection_def fcgi_types)
  from read_body [OF reader s(5,6), of n] obtain i1 w2 where 1:
    "FCGX_GetStr (FillBuffProc L) (int n) (i, q, w) = Some (take n body, i1, q, w2)" "FCGI_errno i1 = 0" "sent w2 = start"
    by blast
  let ?q1 = "q\<lparr>rq_in := Some i1\<rparr>"
  have c1: "request_connection L ?q1 incoming sent" using conn by (simp add: request_connection_def)
  from request_connection.run_calls_sends [OF c1 s(7), of calls w2] obtain out1 w3 where 2:
    "run_calls L calls (out, ?q1, w2) = Some (True, out1, ?q1, w3)" "writer_ok out1"
    "stream_sends incoming sent (requestId ?q1) out w2 (concat (map call_bytes calls)) out1 w3"
    by blast
  then obtain d x where d: "sent w3 = start @ d" "wire FCGI_STDOUT (requestId q) d x"
    "x @ pending out1 = concat (map call_bytes calls)" "st_type out1 = FCGI_STDOUT"
    using s(8,9) 1(3) by (auto simp: stream_sends_def)
  let ?q2 = "FCGX_SetExitStatus status (q\<lparr>rq_in := Some i1, rq_out := Some out1\<rparr>)"
  have q2: "connection L (ipcFd ?q2) incoming sent" "rq_in ?q2 = Some i1" "nWriters ?q2 = 2" "rq_err ?q2 = Some err"
    "rq_out ?q2 = Some out1" "keepConnection ?q2 = keepConnection q" "ipcFd ?q2 = ipcFd q" "requestId ?q2 = requestId q"
    "appStatus ?q2 = status"
    using conn s(1,4) by (simp_all add: FCGX_SetExitStatus_def)
  from finish_sends [OF q2(1,2) 1(2) q2(3,4) s(10-13) q2(5) 2(2), of w3] obtain q3 w4 where 3:
    "FCGX_Finish_r L ?q2 w3 = Some (q3, w4)" "rq_in q3 = None" "nWriters q3 = 0"
    "ipcFd q3 = (if keepConnection q = 0 then -1 else ipcFd q)" "sent w4 = sent w3 @ closing_bytes out1 (?q2\<lparr>nWriters := 1\<rparr>)"
    using q2(6,7) by auto
  from closing_wire [OF 2(2) d(4,2), of ?q2] obtain d' where d':
    "d @ closing_bytes out1 (?q2\<lparr>requestId := requestId q, nWriters := 1\<rparr>) =
      d' @ rec_bytes (end_rec FCGI_STDOUT (requestId q)) @ rec_bytes (end_request_rec (requestId q) (appStatus ?q2) 0)"
    "wire FCGI_STDOUT (requestId q) d' (x @ pending out1)"
    by blast
  have "?q2\<lparr>requestId := requestId q, nWriters := 1\<rparr> = ?q2\<lparr>nWriters := 1\<rparr>" by (simp add: FCGX_SetExitStatus_def)
  then have "sent w4 = start @ d' @ rec_bytes (end_rec FCGI_STDOUT (requestId q)) @ rec_bytes (end_request_rec (requestId q) status 0)"
    using 3(5) d(1) d'(1) q2(9) by simp
  then show ?thesis using s(2,3) 1(1) 2(1) 3(1-4) d'(2) d(3) by metis
qed

end
