(* ===== verification/LA_Fcgi_Props.thy ===== *)
theory LA_Fcgi_Props
  imports LA_Fcgi_Serve
begin

text \<open>
  What the FastCGI library guarantees a program and where it fails, over any connection that keeps the laws of
  \<open>connection\<close>, and a connection in memory on which the theorems are applied.
\<close>

section \<open>A record of another request without content\<close>

text \<open>The library is left skipping, and the content that is skipped is that of the next record of its own request.\<close>

definition empty_foreign :: "int \<Rightarrow> fcgi_rec \<Rightarrow> bool" where
  "empty_foreign rid r =
     (rec_ok r \<and> rec_type r \<noteq> FCGI_BEGIN_REQUEST \<and> rec_id r \<noteq> rid \<and> rec_id r \<noteq> 0 \<and> rec_content r = [])"

context request_connection
begin

lemma skipping_record:
  assumes at: "reader_at out s w (rec_bytes f @ ys)" and f: "empty_foreign (requestId q) f"
  shows "\<exists>b i t w'. fill_loop L (ProcessHeader L g) [] (s, q, w) = fill_loop L (ProcessHeader L g) []
      (s\<lparr>buff := b, rdNext := i, buffStop := t, contentLen := 0, paddingLen := length (rec_padding f),
         eorStop := False, skip := True, stop := i, isClosed := False\<rparr>, q, w') \<and>
    i \<le> t \<and> t \<le> bufflen s \<and> bufflen s \<le> length b \<and> ahead b i t @ incoming w' = rec_padding f @ ys \<and> sent w' = out"
proof -
  have ok: "rec_ok f" using f by (simp add: empty_foreign_def)
  from at obtain ps where s: "reader_base s" "\<not> eorStop s" "sent w = out" "contentLen s = 0" "paddingLen s = length ps"
    "rest s w = ps @ rec_bytes f @ ys"
    by (auto simp: reader_before_def)
  from header_at_record [OF s(1,4,5,2,6), of "ProcessHeader L g"] obtain b i t w1 where
    1: "fill_loop L (ProcessHeader L g) [] (s, q, w) = do {
      (status, s2, q2, w2) \<leftarrow> ProcessHeader L g (rec_header f)
        (s\<lparr>buff := b, rdNext := i, buffStop := t, paddingLen := 0, eorStop := True, stop := i\<rparr>, q, w1);
      go_on L (ProcessHeader L g) (after_header status (s2\<lparr>eorStop := False, isClosed := False\<rparr>, q2, w2)) }"
    and 2: "i \<le> t" "t \<le> bufflen s" "bufflen s \<le> length b"
      "ahead b i t @ incoming w1 = rec_content f @ rec_padding f @ ys" "sent w1 = sent w"
    by blast
  have "ProcessHeader L g (rec_header f)
      (s\<lparr>buff := b, rdNext := i, buffStop := t, paddingLen := 0, eorStop := True, stop := i\<rparr>, q, w1) =
    Some (SKIP, s\<lparr>buff := b, rdNext := i, buffStop := t, contentLen := 0,
      paddingLen := length (rec_padding f), eorStop := True, stop := i\<rparr>, q, w1)"
    using f unfolding ProcessHeader_def Let_def prod.case rec_header_fields [OF ok]
    by (cases s) (simp add: empty_foreign_def FCGI_NULL_REQUEST_ID_def)
  then have "fill_loop L (ProcessHeader L g) [] (s, q, w) = fill_loop L (ProcessHeader L g) []
      (s\<lparr>buff := b, rdNext := i, buffStop := t, contentLen := 0, paddingLen := length (rec_padding f),
         eorStop := False, skip := True, stop := i, isClosed := False\<rparr>, q, w1)"
    unfolding 1 by (cases s) simp
  moreover have "ahead b i t @ incoming w1 = rec_padding f @ ys" using 2(4) f by (simp add: empty_foreign_def)
  ultimately show ?thesis using 2(1-3,5) s(3) by blast
qed

lemma next_record_dropped:
  assumes at: "reader_at out s w (rec_bytes f @ rec_bytes r @ bs)" and f: "empty_foreign (requestId q) f"
    and own: "own_rec (st_type s) (requestId q) r" "rec_content r \<noteq> []"
    and valid: "st_type s \<noteq> FCGI_BEGIN_REQUEST" "requestId q \<noteq> 0"
    and bytes: "stream_bytes (st_type s) (requestId q) bs xs tail"
  shows "\<exists>s' w'. FillBuffProc L (s, q, w) = Some (s', q, w') \<and> st_type s' = st_type s \<and>
    (if xs = [] then isClosed s' else stream_feeds out tail s' w' xs)"
proof -
  let ?g = "fill_buff L 1"
  from at have reader: "isReader s" "FCGI_errno s = 0" "reader_base s" by (auto simp: reader_before_def)
  from skipping_record [OF at f, of ?g] obtain b i t w1 where 1: "fill_loop L (ProcessHeader L ?g) [] (s, q, w) =
      fill_loop L (ProcessHeader L ?g) []
        (s\<lparr>buff := b, rdNext := i, buffStop := t, contentLen := 0, paddingLen := length (rec_padding f),
           eorStop := False, skip := True, stop := i, isClosed := False\<rparr>, q, w1)"
    and 2: "i \<le> t" "t \<le> bufflen s" "bufflen s \<le> length b" "ahead b i t @ incoming w1 = rec_padding f @ rec_bytes r @ bs"
      "sent w1 = out"
    by blast
  obtain s1 where s1: "s1 = s\<lparr>buff := b, rdNext := i, buffStop := t, contentLen := 0,
      paddingLen := length (rec_padding f), eorStop := False, skip := True, stop := i, isClosed := False\<rparr>"
    by blast
  have base1: "reader_base s1" "contentLen s1 = 0" "paddingLen s1 = length (rec_padding f)" "\<not> eorStop s1"
    "rest s1 w1 = rec_padding f @ rec_bytes r @ bs" "skip s1"
    using 2 reader(3) by (simp_all add: s1 reader_base_def unread_def)
  have own1: "own_rec (st_type s1) (requestId q) r" "st_type s1 \<noteq> FCGI_BEGIN_REQUEST" using own valid by (simp_all add: s1)
  from own_record [OF base1(1-5) own1(1) own1(2) valid(2), of ?g] own(2) obtain b2 i2 t2 w2 where
    3: "fill_loop L (ProcessHeader L ?g) [] (s1, q, w1) = fill_loop L (ProcessHeader L ?g) []
      (s1\<lparr>buff := b2, rdNext := i2, buffStop := t2, contentLen := length (rec_content r),
         paddingLen := length (rec_padding r), eorStop := False, stop := i2, isClosed := False\<rparr>, q, w2)"
    and 4: "i2 \<le> t2" "t2 \<le> bufflen s1" "bufflen s1 \<le> length b2"
      "ahead b2 i2 t2 @ incoming w2 = rec_content r @ rec_padding r @ bs" "sent w2 = sent w1"
    by (auto simp: Let_def)
  obtain s2 where s2: "s2 = s1\<lparr>buff := b2, rdNext := i2, buffStop := t2, contentLen := length (rec_content r),
         paddingLen := length (rec_padding r), eorStop := False, stop := i2, isClosed := False\<rparr>"
    by blast
  have base2: "reader_base s2" "contentLen s2 = length (rec_content r)" "skip s2" "\<not> eorStop s2"
    "rest s2 w2 = rec_content r @ rec_padding r @ bs"
    using 4 base1(1,6) by (simp_all add: s2 reader_base_def unread_def)
  from fill_skips [OF base2(1,2) own(2) base2(3,4) _ base2(5), of "[]" "ProcessHeader L ?g"] obtain b3 i3 t3 w3 where
    5: "fill_loop L (ProcessHeader L ?g) [] (s2, q, w2) = fill_loop L (ProcessHeader L ?g) []
      (s2\<lparr>buff := b3, rdNext := i3, buffStop := t3, contentLen := 0, skip := False\<rparr>, q, w3)"
    and 6: "i3 \<le> t3" "t3 \<le> bufflen s2" "bufflen s2 \<le> length b3" "ahead b3 i3 t3 @ incoming w3 = rec_padding r @ bs"
      "sent w3 = sent w2"
    by auto
  obtain s3 where s3: "s3 = s2\<lparr>buff := b3, rdNext := i3, buffStop := t3, contentLen := 0, skip := False\<rparr>" by blast
  have base3: "reader_base s3" "isReader s3" "FCGI_errno s3 = 0" "contentLen s3 = 0" "paddingLen s3 = length (rec_padding r)"
    "\<not> eorStop s3" "\<not> skip s3" "st_type s3 = st_type s"
    using 6 base2(1,4) reader by (simp_all add: s3 s2 s1 reader_base_def)
  from bytes obtain rs e ys where b: "stream_recs (st_type s) (requestId q) rs" "own_rec (st_type s) (requestId q) e"
    "rec_content e = []" "bs = concat (map rec_bytes rs) @ rec_bytes e @ ys" "xs = content_of (requestId q) rs"
    "tail = rec_padding e @ ys"
    by (auto simp: stream_bytes_def)
  have rest3: "rest s3 w3 = rec_padding r @ concat (map rec_bytes rs) @ rec_bytes e @ ys"
    using 6(4) b(4) by (simp add: s3 unread_def)
  have step: "FillBuffProc L (s, q, w) = fill_loop L (ProcessHeader L ?g) [] (s3, q, w3)"
    unfolding FillBuffProc_loop 1 s1 [symmetric] 3 s2 [symmetric] 5 s3 [symmetric] ..
  from fill_stream_records [OF b(1-3) [folded base3(8)] _ valid(2) base3(1-7) rest3, of ?g] obtain s' w' where
    "fill_loop L (ProcessHeader L ?g) [] (s3, q, w3) = Some (s', q, w')" "st_type s' = st_type s"
    "if xs = [] then stream_ended (sent w3) tail (st_type s3) s' w'
     else stream_feeds (sent w3) tail s' w' xs \<and> rdNext s' < stop s'"
    using valid(1) unfolding base3(8) b(5,6) by blast
  then show ?thesis using step 2(5) 4(5) 6(5) by (auto simp: stream_over_def split: if_splits)
qed

end

context request_reader
begin

lemma str_after_fill:
  assumes "FillBuffProc L (s, q, w) = Some (s1, q, w1)" "\<not> isClosed s" "isReader s" "rdNext s = stop s" "stop s \<le> length (buff s)"
    and next_: "if xs = [] then isClosed s1 else st_type s1 = ty \<and> stream_feeds out tail s1 w1 xs"
  shows "\<exists>s' w'. FCGX_GetStr (FillBuffProc L) (int n) (s, q, w) = Some (take n xs, s', q, w')"
proof (cases "n = 0")
  case True
  then show ?thesis by (simp add: FCGX_GetStr_def)
next
  case n: False
  have ready: "take_ready n s = Some ([], s)" using assms(4,5) by (simp add: take_ready_def mem_read_def)
  have "FCGX_GetStr (FillBuffProc L) (int n) (s, q, w) = get_str_loop (FillBuffProc L) n [] (s, q, w)"
    using n assms(2-4) by (simp add: FCGX_GetStr_def)
  also have "\<dots> = (if isClosed s1 then Some ([], s1, q, w1)
      else get_str_loop (FillBuffProc L) n [] (s1\<lparr>stopUnget := Some (rdNext s1)\<rparr>, q, w1))"
    using n ready assms(1-3) by (subst get_str_loop.simps) simp
  finally have loop: "FCGX_GetStr (FillBuffProc L) (int n) (s, q, w) = \<dots>" .
  show ?thesis
  proof (cases "xs = []")
    case True
    then show ?thesis using loop next_ by simp
  next
    case False
    then have s1: "st_type s1 = ty \<and> stream_feeds out tail s1 w1 xs" using next_ by simp
    then have "\<not> isClosed s1" by (simp add: stream_source_def)
    moreover from read_loop [OF read_unget [OF s1, of "Some (rdNext s1)"], of "[]" n] n obtain s' w' where
      "get_str_loop (FillBuffProc L) n [] (s1\<lparr>stopUnget := Some (rdNext s1)\<rparr>, q, w1) = Some (take n xs, s', q, w')"
      by auto
    ultimately show ?thesis using loop by simp
  qed
qed

end

section \<open>A connection in memory\<close>

text \<open>What comes in and what was sent; at most \<open>k + 1\<close> bytes are moved at a time.\<close>

record memory_conn =
  c_in :: "byte list"
  c_out :: "byte list"

definition memory_os :: "nat \<Rightarrow> memory_conn os_lib" where
  "memory_os k =
     \<lparr>read_op = \<lambda>fd n w. (Some (take (min n (Suc k)) (c_in w)), w\<lparr>c_in := drop (min n (Suc k)) (c_in w)\<rparr>),
      write_op = \<lambda>fd bs w. (Some (min (length bs) (Suc k)), w\<lparr>c_out := c_out w @ take (min (length bs) (Suc k)) bs\<rparr>),
      accept_op = \<lambda>sock w. (Some (5, AF_INET 0), w),
      select_op = \<lambda>fd w. (False, w), shutdown_op = \<lambda>fd w. (True, w), close_op = \<lambda>fd w. (0, w),
      errno_of = \<lambda>w. 0, set_errno = \<lambda>e w. w, shutdown_pending = \<lambda>w. False, inet_addr = \<lambda>a. 0,
      alloc_op = \<lambda>n w. (Some (4096, replicate n 0), w), realloc_op = \<lambda>n w. (True, w), stack_junk = \<lambda>i. 0\<rparr>"

interpretation memory: connection "memory_os k" fd c_in c_out for k fd
proof
  fix n :: nat and w :: memory_conn assume "0 < n" "c_in w \<noteq> []"
  then show "\<exists>m w'. 0 < m \<and> m \<le> n \<and> read_op (memory_os k) fd n w = (Some (take m (c_in w)), w') \<and>
      c_in w' = drop m (c_in w) \<and> c_out w' = c_out w"
    by (intro exI [of _ "min n (Suc k)"]) (simp add: memory_os_def)
next
  fix bs :: "byte list" and w :: memory_conn assume "bs \<noteq> []"
  then show "\<exists>m w'. 0 < m \<and> m \<le> length bs \<and> write_op (memory_os k) fd bs w = (Some m, w') \<and>
      c_in w' = c_in w \<and> c_out w' = c_out w @ take m bs"
    by (intro exI [of _ "min (length bs) (Suc k)"]) (simp add: memory_os_def)
qed (auto simp: memory_os_def)

definition memory_request :: FCGX_Request where
  "memory_request = (FCGX_InitRequest 0 0)\<lparr>requestId := 1\<rparr>"

interpretation memory_reader: request_reader "memory_os k" memory_request c_in c_out FCGI_STDIN out tail for k out tail
  by unfold_locales (simp_all add: fcgi_types memory_request_def)

interpretation memory_record: record_reader "memory_os k" memory_request c_in c_out out pad tail for k out pad tail ..

lemma memory_accept: "OS_Accept (memory_os k) sock b None w = Some (5, w)"
  by (simp add: OS_Accept_def accept_keeper.simps accept_client.simps accept_call.simps memory_os_def ClientAddrOK_def)

section \<open>A request from its beginning to its end\<close>

text \<open>
  C12. A request that a client opens a connection for and sends, cut into records of any lengths with any padding (but
  none in the record that begins the request and in the one that ends its parameters), with records of other requests
  in between that have content and do not begin one, and however the system cuts its reads and writes, is accepted:
  values asked for before are answered, the handler sees the
  role and the environment as sent and the first n bytes of the body, and when the request is finished the client has
  been sent records of the output stream with exactly the bytes the handler wrote, the record that ends that stream,
  nothing of an error stream, and the record that ends the request with the status of the handler. The connection is
  closed unless the client asked to keep it.
\<close>

theorem fcgi_request_served:
  assumes conn: "connection L fd incoming sent" "0 \<le> fd"
    and accept: "OS_Accept L sock (odd flags) addrs w = Some (fd, w1)"
    and asks: "\<forall>a \<in> set asks. ask_ok a"
    and head: "request_head b rs e nvs" "role_string (role (begun b (FCGX_InitRequest sock flags))) = Some roleStr"
    and input: "incoming w1 = asks_bytes asks @ head_bytes b rs e @ bs"
    and body: "stream_bytes FCGI_STDIN (rec_id b) bs xs tail"
  shows "\<exists>q w2 vs d. serve L sock flags addrs handler n w = Some (0, q, w2) \<and> answered asks vs \<and>
    wire FCGI_STDOUT (rec_id b) d (concat (map call_bytes (fst (handler (roleStr # map pair_entry nvs) (take n xs))))) \<and>
    sent w2 = sent w1 @ vs @ d @ rec_bytes (end_rec FCGI_STDOUT (rec_id b)) @
      rec_bytes (end_request_rec (rec_id b) (snd (handler (roleStr # map pair_entry nvs) (take n xs))) 0) \<and>
    rq_in q = None \<and> nWriters q = 0 \<and> ipcFd q = (if even (uint (rec_content b ! 2)) then -1 else fd)"
proof -
  let ?h = "handler (roleStr # map pair_entry nvs) (take n xs)"
  from accept_request [OF conn accept asks head(1) input body head(2)] obtain q w2 vs where 1:
    "FCGX_Accept_r L True addrs (FCGX_InitRequest sock flags) w = Some (0, q, w2)" "requestId q = rec_id b" "ipcFd q = fd"
    "keepConnection q = uint (and (rec_content b ! 2) 1)" "answered asks vs"
    "accepted incoming sent (sent w1 @ vs) tail q w2 (roleStr # map pair_entry nvs) xs"
    by blast
  have env: "envp q = Some (roleStr # map pair_entry nvs)" using 1(6) by (simp add: accepted_def)
  have rid: "requestId q \<noteq> 0" using 1(2) head(1) by (simp add: request_head_def begin_rec_def)
  have c: "connection L (ipcFd q) incoming sent" using conn 1(3) by simp
  have keep: "keepConnection q = 0 \<longleftrightarrow> even (uint (rec_content b ! 2))"
    unfolding 1(4) by (simp add: and_one_eq uint_mod even_iff_mod_2_eq_zero)
  from respond_sends [OF c rid 1(6), of n "fst ?h" "snd ?h"] obtain i out i1 w3 out1 w4 q3 w5 d where 2:
    "rq_in q = Some i" "rq_out q = Some out"
    "FCGX_GetStr (FillBuffProc L) (int n) (i, q, w2) = Some (take n xs, i1, q, w3)"
    "run_calls L (fst ?h) (out, q\<lparr>rq_in := Some i1\<rparr>, w3) = Some (True, out1, q\<lparr>rq_in := Some i1\<rparr>, w4)"
    "FCGX_Finish_r L (FCGX_SetExitStatus (snd ?h) (q\<lparr>rq_in := Some i1, rq_out := Some out1\<rparr>)) w4 = Some (q3, w5)"
    and 3: "rq_in q3 = None" "nWriters q3 = 0" "ipcFd q3 = (if keepConnection q = 0 then -1 else ipcFd q)"
    "wire FCGI_STDOUT (requestId q) d (concat (map call_bytes (fst ?h)))"
    "sent w5 = (sent w1 @ vs) @ d @ rec_bytes (end_rec FCGI_STDOUT (requestId q)) @ rec_bytes (end_request_rec (requestId q) (snd ?h) 0)"
    by blast
  have "serve L sock flags addrs handler n w = Some (0, q3, w5)" using 1(1) env 2 by (simp add: serve_def)
  then show ?thesis
    using 1(2,3,5) 3 keep by (intro exI [of _ q3] exI [of _ w5] exI [of _ vs] exI [of _ d]) simp
qed

text \<open>A request with one variable, a body of two bytes, and a handler that writes the body back and a byte of its own.\<close>

definition demo_begin :: fcgi_rec where
  "demo_begin = \<lparr>rec_type = 1, rec_id = 1, rec_content = [0, 1, 0, 0, 0, 0, 0, 0], rec_padding = []\<rparr>"

definition demo_params :: "fcgi_rec list" where
  "demo_params = [\<lparr>rec_type = 4, rec_id = 1, rec_content = encode_pair ([65], [49]), rec_padding = [0]\<rparr>]"

definition demo_ask :: fcgi_rec where
  "demo_ask = \<lparr>rec_type = 9, rec_id = 0, rec_content = encode_pair (FCGI_MAX_REQS, []), rec_padding = []\<rparr>"

definition demo_body :: "fcgi_rec list" where
  "demo_body = [\<lparr>rec_type = 5, rec_id = 1, rec_content = [104, 105], rec_padding = []\<rparr>]"

definition demo_input :: "byte list" where
  "demo_input = rec_bytes demo_ask @ head_bytes demo_begin demo_params (end_rec FCGI_PARAMS 1) @
     concat (map rec_bytes demo_body) @ rec_bytes (end_rec FCGI_STDIN 1)"

definition demo_handler :: "byte list list \<Rightarrow> byte list \<Rightarrow> writer_call list \<times> int" where
  "demo_handler env body = ([PutStr body, PutChar 33], 0)"

lemma demo_head: "request_head demo_begin demo_params (end_rec FCGI_PARAMS 1) [([65], [49])]"
  by (simp add: request_head_def begin_rec_def rec_ok_def stream_recs_def own_rec_def demo_begin_def demo_params_def
      end_rec_def fcgi_types content_of_def encode_pair_def encode_length_def pair_ok_def)

lemma demo_asks: "ask_ok (demo_ask, [(FCGI_MAX_REQS, [])])"
  by (simp add: ask_ok_def values_rec_def rec_ok_def demo_ask_def fcgi_types name_ok_def known_def encode_pair_def
      encode_length_def FCGI_MAX_REQS_def)

lemma demo_stdin:
  "stream_bytes FCGI_STDIN 1 (concat (map rec_bytes demo_body) @ rec_bytes (end_rec FCGI_STDIN 1)) [104, 105] []"
  unfolding stream_bytes_def
  by (intro exI [of _ demo_body] exI [of _ "end_rec FCGI_STDIN 1"] exI [of _ "[]"])
    (simp add: stream_recs_def own_rec_def rec_ok_def end_rec_def demo_body_def content_of_def fcgi_types)

lemma demo_role: "role_string (role (begun demo_begin (FCGX_InitRequest sock flags))) =
    Some [70, 67, 71, 73, 95, 82, 79, 76, 69, 61, 82, 69, 83, 80, 79, 78, 68, 69, 82, 0]"
  by (simp add: begun_def demo_begin_def role_string_def)

theorem fcgi_request_served_witness:
  "\<exists>q w2 vs d. serve (memory_os 2) 3 0 None demo_handler 10 \<lparr>c_in = demo_input, c_out = []\<rparr> = Some (0, q, w2) \<and>
    answered [(demo_ask, [(FCGI_MAX_REQS, [])])] vs \<and> wire FCGI_STDOUT 1 d [104, 105, 33] \<and>
    c_out w2 = vs @ d @ rec_bytes (end_rec FCGI_STDOUT 1) @ rec_bytes (end_request_rec 1 0 0) \<and>
    rq_in q = None \<and> nWriters q = 0 \<and> ipcFd q = -1"
proof -
  let ?w = "\<lparr>c_in = demo_input, c_out = []\<rparr>"
  let ?bs = "concat (map rec_bytes demo_body) @ rec_bytes (end_rec FCGI_STDIN 1)"
  have accept: "OS_Accept (memory_os 2) 3 (odd 0) None ?w = Some (5, ?w)" by (rule memory_accept)
  have asks: "\<forall>a \<in> set [(demo_ask, [(FCGI_MAX_REQS, [])])]. ask_ok a" using demo_asks by simp
  have input: "c_in ?w = asks_bytes [(demo_ask, [(FCGI_MAX_REQS, [])])] @
      head_bytes demo_begin demo_params (end_rec FCGI_PARAMS 1) @ ?bs"
    by (simp only: demo_input_def memory_conn.simps asks_bytes.simps fst_conv append_Nil2)
  have rid: "rec_id demo_begin = 1" "uint (rec_content demo_begin ! 2) = 0" by (simp_all add: demo_begin_def)
  have body: "stream_bytes FCGI_STDIN (rec_id demo_begin) ?bs [104, 105] []" unfolding rid by (rule demo_stdin)
  have answer: "take 10 [104, 105] = [104, 105 :: byte]" "fst (demo_handler env [104, 105]) = [PutStr [104, 105], PutChar 33]"
    "snd (demo_handler env [104, 105]) = 0" "concat (map call_bytes [PutStr [104, 105], PutChar 33]) = [104, 105, 33]" for env
    by (simp_all add: demo_handler_def)
  from fcgi_request_served [OF memory.connection_axioms _ accept asks demo_head demo_role input body, of demo_handler 10]
  show ?thesis unfolding answer rid by (simp only: memory_conn.simps append_Nil) simp
qed

section \<open>Streams between two programs\<close>

lemma wire_stream_bytes:
  assumes w: "wire ty rid d xs" and range: "0 \<le> ty" "ty < 256" "0 \<le> rid" "rid < 65536"
  shows "stream_bytes ty rid (d @ rec_bytes (end_rec ty rid) @ ys) xs ys"
proof -
  from w obtain cs where cs: "\<forall>c \<in> set cs. c \<noteq> [] \<and> length c \<le> 65528" "concat cs = xs"
    "d = concat (map (\<lambda>c. rec_bytes (content_rec ty rid c)) cs)"
    by (auto simp: wire_def)
  let ?rs = "map (content_rec ty rid) cs"
  have "own_rec ty rid (content_rec ty rid c)" if "c \<in> set cs" for c
    using cs(1) that range pad8_small [of "length c"] by (auto simp: own_rec_def rec_ok_def content_rec_def)
  then have "stream_recs ty rid ?rs" using cs(1) by (auto simp: stream_recs_def content_rec_def)
  moreover have "content_of rid ?rs = xs"
    unfolding cs(2) [symmetric] content_of_def by (induction cs) (simp_all add: content_rec_def)
  moreover have "d = concat (map rec_bytes ?rs)" unfolding cs(3) by (simp add: comp_def)
  moreover have "own_rec ty rid (end_rec ty rid)" using range by (simp add: own_rec_def rec_ok_def end_rec_def)
  ultimately show ?thesis
    unfolding stream_bytes_def
    by (intro exI [of _ ?rs] exI [of _ "end_rec ty rid"] exI [of _ ys]) (simp add: end_rec_def)
qed

lemma written_stream:
  assumes conn: "connection L (ipcFd q) incoming sent" and ty: "ty \<noteq> FCGI_STDERR"
  shows "\<exists>s w1 s1 w2 s2 w3 d e. NewWriter L len ty w = Some (s, w1) \<and> run_calls L cs (s, q, w1) = Some (True, s1, q, w2) \<and>
    FCGX_FClose L (s1, q, w2) = Some (0, s2, q\<lparr>nWriters := nWriters q - 1\<rparr>, w3) \<and>
    sent w3 = sent w @ d @ rec_bytes (end_rec ty (requestId q)) @ e \<and> wire ty (requestId q) d (concat (map call_bytes cs))"
proof -
  have c: "request_connection L q incoming sent" using conn by (simp add: request_connection_def)
  from connection.new_writer [OF conn, of len ty w] obtain s w1 where 1: "NewWriter L len ty w = Some (s, w1)"
    "sent w1 = sent w" "writer_ok s" "pending s = []" "st_type s = ty"
    by blast
  from request_connection.run_calls_sends [OF c 1(3), of cs w1] obtain s1 w2 where 2:
    "run_calls L cs (s, q, w1) = Some (True, s1, q, w2)" "writer_ok s1"
    "stream_sends incoming sent (requestId q) s w1 (concat (map call_bytes cs)) s1 w2"
    by blast
  from request_connection.close_sends [OF c 2(2), of w2] obtain s2 w3 where 3:
    "FCGX_FClose L (s1, q, w2) = Some (0, s2, q\<lparr>nWriters := nWriters q - 1\<rparr>, w3)" "sent w3 = sent w2 @ closing_bytes s1 q"
    by blast
  from 2(3) 1(4,5) obtain d x where d: "sent w2 = sent w1 @ d" "wire ty (requestId q) d x" "x @ pending s1 = concat (map call_bytes cs)"
    "st_type s1 = ty"
    by (auto simp: stream_sends_def)
  let ?p = "if pending s1 = [] then [] else rec_bytes (content_rec ty (requestId q) (pending s1))"
  let ?e = "if nWriters q = 1 then rec_bytes (end_request_rec (requestId q) (appStatus q) 0) else []"
  have "sent w3 = sent w @ (d @ ?p) @ rec_bytes (end_rec ty (requestId q)) @ ?e"
    using 1(2) 3(2) d(1,4) ty by (simp add: closing_bytes_def)
  moreover have "wire ty (requestId q) (d @ ?p) (concat (map call_bytes cs))"
    using wire_append [OF d(2) wire_pending [OF 2(2)]] d(3) by simp
  ultimately show ?thesis using 1(1) 2(1) 3(1) by blast
qed

text \<open>
  C13. What one program writes to a stream, in any pieces, with flushes in between, and closes, another program that
  reads the stream from its connection gets back byte for byte, whatever the sizes of the buffers and of the system's
  reads and writes, and then the end of the stream.
\<close>

theorem fcgi_stream_roundtrip:
  assumes conn: "connection L (ipcFd q) incoming sent" and conn2: "connection L2 (ipcFd q2) incoming2 sent2"
    and ids: "0 < requestId q" "requestId q < 65536" "requestId q2 = requestId q"
    and ty: "0 \<le> ty" "ty < 256" "ty \<noteq> FCGI_BEGIN_REQUEST" "ty \<noteq> FCGI_STDERR"
  shows "\<exists>s w1 s1 w2 s2 q3 w3 bs. NewWriter L len ty w = Some (s, w1) \<and>
    run_calls L cs (s, q, w1) = Some (True, s1, q, w2) \<and> FCGX_FClose L (s1, q, w2) = Some (0, s2, q3, w3) \<and>
    sent w3 = sent w @ bs \<and>
    (\<forall>v more. incoming2 v = bs @ more \<longrightarrow>
       (\<exists>r v1 r1 v2. NewReader L2 len2 ty v = Some (r, v1) \<and>
          FCGX_GetStr (FillBuffProc L2) (int n) (r, q2, v1) = Some (take n (concat (map call_bytes cs)), r1, q2, v2) \<and>
          (length (concat (map call_bytes cs)) < n \<longrightarrow> FCGX_HasSeenEOF r1 = EOF)))"
proof -
  let ?xs = "concat (map call_bytes cs)"
  from written_stream [OF conn ty(4), of len w cs] obtain s w1 s1 w2 s2 w3 d e where 1:
    "NewWriter L len ty w = Some (s, w1)" "run_calls L cs (s, q, w1) = Some (True, s1, q, w2)"
    "FCGX_FClose L (s1, q, w2) = Some (0, s2, q\<lparr>nWriters := nWriters q - 1\<rparr>, w3)"
    "sent w3 = sent w @ d @ rec_bytes (end_rec ty (requestId q)) @ e" "wire ty (requestId q) d ?xs"
    by blast
  have c2: "request_connection L2 q2 incoming2 sent2" using conn2 by (simp add: request_connection_def)
  have reader: "request_reader L2 q2 incoming2 sent2 ty"
    using c2 ids ty by (simp add: request_reader_def request_reader_axioms_def)
  have delivered: "\<exists>r v1 r1 v2. NewReader L2 len2 ty v = Some (r, v1) \<and>
      FCGX_GetStr (FillBuffProc L2) (int n) (r, q2, v1) = Some (take n ?xs, r1, q2, v2) \<and>
      (length ?xs < n \<longrightarrow> FCGX_HasSeenEOF r1 = EOF)"
    if v: "incoming2 v = (d @ rec_bytes (end_rec ty (requestId q)) @ e) @ more" for v more
  proof -
    from request_connection.new_reader [OF c2, of len2 ty v] obtain r v1 where r: "NewReader L2 len2 ty v = Some (r, v1)"
      "st_type r = ty" "reader_before incoming2 sent2 (sent2 v) r v1 (incoming2 v)"
      by blast
    have "stream_bytes (st_type r) (requestId q2) (incoming2 v) ?xs (e @ more)"
      using wire_stream_bytes [OF 1(5) ty(1,2), of "e @ more"] ids unfolding v r(2) by simp
    from request_connection.at_feeds [OF c2 r(3) this]
    have "stream_source incoming2 sent2 (requestId q2) (sent2 v) (e @ more) r v1 ?xs" .
    note str = request_reader.read_bytes [OF reader conjI [OF r(2) this], of n]
      request_reader.read_bytes_end [OF reader conjI [OF r(2) this], of n]
    show ?thesis
    proof (cases "n \<le> length ?xs")
      case True
      then show ?thesis using str(1) r(1) by auto
    next
      case False
      then show ?thesis using str(2) r(1) by (auto simp: FCGX_HasSeenEOF_def)
    qed
  qed
  show ?thesis using 1(1-4) delivered by blast
qed

theorem fcgi_stream_roundtrip_witness:
  "\<exists>s w1 s1 w2 s2 q3 w3 bs. NewWriter (memory_os 4) 32 FCGI_DATA \<lparr>c_in = [], c_out = []\<rparr> = Some (s, w1) \<and>
    run_calls (memory_os 4) [PutStr [1, 2, 3], Flush, PutChar 4] (s, memory_request, w1) = Some (True, s1, memory_request, w2) \<and>
    FCGX_FClose (memory_os 4) (s1, memory_request, w2) = Some (0, s2, q3, w3) \<and> c_out w3 = bs \<and>
    (\<exists>r v1 r1 v2. NewReader (memory_os 0) 64 FCGI_DATA \<lparr>c_in = bs, c_out = []\<rparr> = Some (r, v1) \<and>
       FCGX_GetStr (FillBuffProc (memory_os 0)) (int 5) (r, memory_request, v1) = Some ([1, 2, 3, 4], r1, memory_request, v2) \<and>
       FCGX_HasSeenEOF r1 = EOF)"
proof -
  have q: "requestId memory_request = 1" by (simp add: memory_request_def)
  have ty: "0 \<le> FCGI_DATA" "FCGI_DATA < 256" "FCGI_DATA \<noteq> FCGI_BEGIN_REQUEST" "FCGI_DATA \<noteq> FCGI_STDERR"
    by (simp_all add: fcgi_types)
  have xs: "concat (map call_bytes [PutStr [1, 2, 3], Flush, PutChar 4]) = [1, 2, 3, 4]" "take 5 [1, 2, 3, 4] = [1, 2, 3, 4 :: byte]"
    by simp_all
  have ids: "0 < requestId memory_request" "requestId memory_request < 65536" by (simp_all add: q)
  from fcgi_stream_roundtrip [OF memory.connection_axioms [of 4] memory.connection_axioms [of 0] ids refl ty,
      of 32 "\<lparr>c_in = [], c_out = []\<rparr>" "[PutStr [1, 2, 3], Flush, PutChar 4]" 64 5]
  obtain s w1 s1 w2 s2 q3 w3 bs where
    1: "NewWriter (memory_os 4) 32 FCGI_DATA \<lparr>c_in = [], c_out = []\<rparr> = Some (s, w1)"
    "run_calls (memory_os 4) [PutStr [1, 2, 3], Flush, PutChar 4] (s, memory_request, w1) = Some (True, s1, memory_request, w2)"
    "FCGX_FClose (memory_os 4) (s1, memory_request, w2) = Some (0, s2, q3, w3)" "c_out w3 = bs"
    and read: "\<forall>v more. c_in v = bs @ more \<longrightarrow> (\<exists>r v1 r1 v2. NewReader (memory_os 0) 64 FCGI_DATA v = Some (r, v1) \<and>
      FCGX_GetStr (FillBuffProc (memory_os 0)) (int 5) (r, memory_request, v1) = Some ([1, 2, 3, 4], r1, memory_request, v2) \<and>
      FCGX_HasSeenEOF r1 = EOF)"
    unfolding xs by auto
  have "c_in \<lparr>c_in = bs, c_out = []\<rparr> = bs @ []" by simp
  then show ?thesis using 1 read by blast
qed

section \<open>Records that ask for values\<close>

text \<open>A request just opened, before its first record.\<close>

lemma accept_first:
  assumes conn: "connection L fd incoming sent" and fd: "0 \<le> fd"
    and accept: "OS_Accept L sock (odd flags) addrs w = Some (fd, w1)"
  shows "\<exists>s w2. reader_before incoming sent (sent w1) s w2 (incoming w1) \<and>
    (FillBuffProc L (s, (FCGX_InitRequest sock flags)\<lparr>ipcFd := fd\<rparr>, w2) = None \<longrightarrow>
     FCGX_Accept_r L True addrs (FCGX_InitRequest sock flags) w = None)"
proof -
  let ?q0 = "FCGX_InitRequest sock flags"
  let ?q1 = "?q0\<lparr>ipcFd := fd\<rparr>"
  have c1: "request_connection L ?q1 incoming sent" using conn by (simp add: request_connection_def)
  from request_connection.new_reader [OF c1, of 8192 0 w1] obtain s w2 where s: "NewReader L 8192 0 w1 = Some (s, w2)"
    "reader_before incoming sent (sent w1) s w2 (incoming w1)"
    by blast
  have q1: "?q1\<lparr>isBeginProcessed := False\<rparr> = ?q1" by (simp add: FCGX_InitRequest_def)
  have "FCGX_Finish_r L ?q0 w = Some (?q0, w)"
    by (simp add: FCGX_Finish_r_def FCGX_InitRequest_def FCGX_Free_def OS_IpcClose_def OS_Close_def)
  moreover have "accept_connection L addrs ?q0 w = Some (?q1, w1)"
    using accept by (simp add: accept_connection_def FCGX_InitRequest_def)
  then have "accept_loop L addrs ?q0 w = None" if "FillBuffProc L (s, ?q1, w2) = None"
    using that s(1) fd q1 by (subst accept_loop.simps) (simp add: read_request_def)
  ultimately show ?thesis using s(2) by (intro exI [of _ s] exI [of _ w2]) (simp add: FCGX_Accept_r_def)
qed

text \<open>
  C14. A client that opens its connection with a record that asks for values and names known ones four times or more,
  for instance the same name again and again, makes the library write past the end of the array of 64 bytes on its
  stack in which it puts the answer together: accepting the request has no defined result.
\<close>

theorem fcgi_values_overrun:
  assumes conn: "connection L fd incoming sent" "0 \<le> fd"
    and accept: "OS_Accept L sock (odd flags) addrs w = Some (fd, w1)"
    and asked: "values_rec r nvs" "4 \<le> length (filter known (map fst nvs))"
    and input: "incoming w1 = rec_bytes r @ ys" "rec_padding r @ ys \<noteq> []"
  shows "FCGX_Accept_r L True addrs (FCGX_InitRequest sock flags) w = None"
proof -
  let ?q = "(FCGX_InitRequest sock flags)\<lparr>ipcFd := fd\<rparr>"
  have c: "request_connection L ?q incoming sent" using conn by (simp add: request_connection_def)
  from accept_first [OF conn accept, unfolded input(1)] obtain s w2 where s: "reader_before incoming sent (sent w1) s w2 (rec_bytes r @ ys)"
    "FillBuffProc L (s, ?q, w2) = None \<longrightarrow> FCGX_Accept_r L True addrs (FCGX_InitRequest sock flags) w = None"
    by (elim exE conjE) (rule that)
  show ?thesis
    using s(2) request_connection.values_overrun [OF c s(1) asked(1) input(2) many_overrun [OF asked(2)]] by blast
qed

definition demo_names :: "(byte list \<times> byte list) list" where
  "demo_names = [(FCGI_MAX_REQS, []), (FCGI_MAX_REQS, []), (FCGI_MAX_REQS, []), (FCGI_MAX_REQS, [])]"

definition demo_many :: fcgi_rec where
  "demo_many = \<lparr>rec_type = 9, rec_id = 0, rec_content = concat (map encode_pair demo_names), rec_padding = []\<rparr>"

lemma demo_many_asks: "values_rec demo_many demo_names"
  by (simp add: values_rec_def rec_ok_def demo_many_def demo_names_def fcgi_types name_ok_def encode_pair_def
      encode_length_def FCGI_MAX_REQS_def)

theorem fcgi_values_overrun_witness:
  "FCGX_Accept_r (memory_os 2) True None (FCGX_InitRequest 3 0) \<lparr>c_in = rec_bytes demo_many @ [1], c_out = []\<rparr> = None"
proof -
  have "4 \<le> length (filter known (map fst demo_names))"
    by (simp add: demo_names_def known_def value_of_def)
  from fcgi_values_overrun [OF memory.connection_axioms _ memory_accept demo_many_asks this] show ?thesis by simp
qed

text \<open>
  A record that asks for values and that is the last thing a client sends, without padding, is not answered: the
  library reads on before it has seen the end of the record, takes the end of the input for an error of the protocol,
  and has sent nothing.
\<close>

theorem fcgi_last_values_unanswered:
  assumes conn: "connection L (ipcFd q) incoming sent"
    and asked: "values_rec r nvs" "rec_padding r = []" and input: "incoming w = rec_bytes r"
  shows "\<exists>s w'. read_request L q w = Some (False, q\<lparr>isBeginProcessed := False, rq_in := Some s\<rparr>, w') \<and>
    FCGX_GetError s = FCGX_PROTOCOL_ERROR \<and> sent w' = sent w"
proof -
  let ?q0 = "q\<lparr>isBeginProcessed := False\<rparr>"
  have c: "request_connection L q incoming sent" "request_connection L ?q0 incoming sent"
    using conn by (simp_all add: request_connection_def)
  from request_connection.new_reader [OF c(1), of 8192 0 w] obtain s w1 where 1: "NewReader L 8192 0 w = Some (s, w1)"
    "reader_before incoming sent (sent w) s w1 (rec_bytes r)"
    unfolding input by blast
  from request_connection.values_unanswered [OF c(2) 1(2) asked] obtain s' w' where
    "FillBuffProc L (s, ?q0, w1) = Some (s', ?q0, w')" "FCGI_errno s' = FCGX_PROTOCOL_ERROR" "sent w' = sent w"
    by blast
  then show ?thesis
    using 1(1) by (intro exI [of _ s'] exI [of _ w']) (simp add: read_request_def FCGX_GetError_def)
qed

theorem fcgi_last_values_unanswered_witness:
  "\<exists>s w'. read_request (memory_os 2) memory_request \<lparr>c_in = rec_bytes demo_ask, c_out = []\<rparr> =
      Some (False, memory_request\<lparr>isBeginProcessed := False, rq_in := Some s\<rparr>, w') \<and>
    FCGX_GetError s = FCGX_PROTOCOL_ERROR \<and> c_out w' = []"
proof -
  have "values_rec demo_ask [(FCGI_MAX_REQS, [])]" using demo_asks by (simp add: ask_ok_def)
  from fcgi_last_values_unanswered [OF memory.connection_axioms this, where w = "\<lparr>c_in = rec_bytes demo_ask, c_out = []\<rparr>"]
  show ?thesis by (simp add: demo_ask_def)
qed

section \<open>Content that is lost\<close>

text \<open>
  C15. A record of another request that has no content, such as the end of one of its streams, is to be skipped; the
  library also drops the content of the next record of its own request, and delivers the stream from behind it as if
  nothing had happened.
\<close>

theorem fcgi_empty_record_drops_next:
  assumes conn: "connection L (ipcFd q) incoming sent" and reader: "requestId q \<noteq> 0" "st_type s \<noteq> FCGI_BEGIN_REQUEST"
    and at: "reader_before incoming sent out s w (rec_bytes f @ rec_bytes r @ bs)"
    and foreign: "empty_foreign (requestId q) f" and own: "own_rec (st_type s) (requestId q) r" "rec_content r \<noteq> []"
    and after: "stream_bytes (st_type s) (requestId q) bs xs tail"
  shows "\<exists>s' w'. FCGX_GetStr (FillBuffProc L) (int n) (s, q, w) = Some (take n xs, s', q, w')"
proof -
  have c: "request_connection L q incoming sent" using conn by (simp add: request_connection_def)
  from request_connection.next_record_dropped [OF c at foreign own reader(2,1) after] obtain s1 w1 where 1:
    "FillBuffProc L (s, q, w) = Some (s1, q, w1)" "st_type s1 = st_type s"
    "if xs = [] then isClosed s1 else stream_source incoming sent (requestId q) out tail s1 w1 xs"
    by blast
  have r: "request_reader L q incoming sent (st_type s)"
    using c reader by (simp add: request_reader_def request_reader_axioms_def)
  have "\<not> isClosed s" "isReader s" "rdNext s = stop s" "stop s \<le> length (buff s)"
    using at by (auto simp: reader_before_def reader_base_def)
  then show ?thesis
    using request_reader.str_after_fill [OF r 1(1), of xs out tail n] 1(2,3) by auto
qed

text \<open>The body of two records that was to be \<open>hi!\<close>, with the end of a stream of request 2 in between.\<close>

theorem fcgi_empty_record_drops_next_witness:
  "\<exists>s v s' w'. NewReader (memory_os 2) 64 FCGI_STDIN
      \<lparr>c_in = rec_bytes (end_rec FCGI_STDIN 2) @ rec_bytes (content_rec FCGI_STDIN 1 [104, 105]) @
               rec_bytes (content_rec FCGI_STDIN 1 [33]) @ rec_bytes (end_rec FCGI_STDIN 1), c_out = []\<rparr> = Some (s, v) \<and>
    FCGX_GetStr (FillBuffProc (memory_os 2)) (int 9) (s, memory_request, v) = Some ([33], s', memory_request, w')"
proof -
  let ?w = "\<lparr>c_in = rec_bytes (end_rec FCGI_STDIN 2) @ rec_bytes (content_rec FCGI_STDIN 1 [104, 105]) @
               rec_bytes (content_rec FCGI_STDIN 1 [33]) @ rec_bytes (end_rec FCGI_STDIN 1), c_out = []\<rparr>"
  have q: "requestId memory_request = 1" by (simp add: memory_request_def)
  obtain s v where s: "NewReader (memory_os 2) 64 FCGI_STDIN ?w = Some (s, v)" "st_type s = FCGI_STDIN"
    "reader_before c_in c_out (c_out ?w) s v (c_in ?w)"
    using memory_reader.new_reader [of 2 64 FCGI_STDIN ?w] by blast
  have f: "empty_foreign (requestId memory_request) (end_rec FCGI_STDIN 2)" unfolding q by (simp add: empty_foreign_def rec_ok_def end_rec_def fcgi_types)
  have own: "own_rec (st_type s) (requestId memory_request) (content_rec FCGI_STDIN 1 [104, 105])"
    unfolding q s(2) by (simp add: own_rec_def rec_ok_def content_rec_def fcgi_types pad8_def)
  have wire: "wire FCGI_STDIN 1 (rec_bytes (content_rec FCGI_STDIN 1 [33])) [33]" by (rule wire_single) simp_all
  have after: "stream_bytes (st_type s) (requestId memory_request) (rec_bytes (content_rec FCGI_STDIN 1 [33]) @ rec_bytes (end_rec FCGI_STDIN 1)) [33] []"
    unfolding q s(2) using wire_stream_bytes [OF wire, of "[]"] by (simp add: fcgi_types)
  have at: "reader_before c_in c_out (c_out ?w) s v (rec_bytes (end_rec FCGI_STDIN 2) @
      rec_bytes (content_rec FCGI_STDIN 1 [104, 105]) @ rec_bytes (content_rec FCGI_STDIN 1 [33]) @ rec_bytes (end_rec FCGI_STDIN 1))"
    using s(3) by simp
  have "requestId memory_request \<noteq> 0" "st_type s \<noteq> FCGI_BEGIN_REQUEST" "rec_content (content_rec FCGI_STDIN 1 [104, 105]) \<noteq> []"
    by (simp_all add: q s(2) fcgi_types content_rec_def)
  from fcgi_empty_record_drops_next [OF memory.connection_axioms [of 2] this(1,2) at f own this(3) after, of 9]
  show ?thesis using s(1) by fastforce
qed

section \<open>The environment\<close>

lemma starts_with_entry:
  assumes "name_ok n" "name_ok (fst nv)"
  shows "starts_with n (pair_entry nv) = Some (\<exists>ys. fst nv = n @ ys)"
proof -
  have "starts_with n (m @ 61 # v @ [0]) = Some (\<exists>ys. m = n @ ys)" if "name_ok m" "name_ok n" for m v
    using that
  proof (induction n arbitrary: m)
    case (Cons c n)
    then show ?case by (cases m) (auto simp: name_ok_def)
  qed simp
  then show ?thesis using assms by (simp add: pair_entry_def)
qed

text \<open>
  C16. A variable of the environment is looked up by its whole name: the result is the value of the first pair with
  that name, as a string, or NULL when there is none; the block that names the role is not mistaken for another.
\<close>

theorem fcgi_param_lookup:
  assumes names: "\<forall>nv \<in> set nvs. name_ok (fst nv)" and n: "name_ok n"
    and role: "role_string x = Some roleStr" "n \<noteq> [70, 67, 71, 73, 95, 82, 79, 76, 69]"
  shows "FCGX_GetParam (Some n) (Some (roleStr # map pair_entry nvs)) =
    Some (map_option (takeWhile (\<lambda>c. c \<noteq> 0)) (map_of nvs n))"
proof -
  have step: "find_param n (pair_entry nv # ps) = (if fst nv = n then Some (Some (takeWhile (\<lambda>c. c \<noteq> 0) (snd nv))) else find_param n ps)"
    if "name_ok (fst nv)" for nv ps
  proof -
    have "(\<exists>c. mem_read (pair_entry nv) (length n) 1 = Some c \<and> (c = [61] \<longleftrightarrow> ys = [])) " if "fst nv = n @ ys" for ys
      using that \<open>name_ok (fst nv)\<close> by (cases ys) (auto simp: pair_entry_def mem_read_def name_ok_def)
    moreover have "takeWhile (\<lambda>c. c \<noteq> 0) (drop (length n + 1) (pair_entry nv)) = takeWhile (\<lambda>c. c \<noteq> 0) (snd nv)"
      "0 \<in> set (drop (length n + 1) (pair_entry nv))" if "fst nv = n"
      using that by (simp_all add: pair_entry_def takeWhile_tail)
    ultimately show ?thesis
      using starts_with_entry [OF n that] by (cases "\<exists>ys. fst nv = n @ ys") fastforce+
  qed
  obtain nm where "roleStr = pair_entry ([70, 67, 71, 73, 95, 82, 79, 76, 69], nm)"
    using role(1) by (auto simp: role_string_def pair_entry_def split: if_splits)
  then have "find_param n (roleStr # map pair_entry nvs) = find_param n (map pair_entry nvs)"
    using step [of "([70, 67, 71, 73, 95, 82, 79, 76, 69], nm)"] role(2) by (auto simp: name_ok_def)
  moreover have "find_param n (map pair_entry nvs) = Some (map_option (takeWhile (\<lambda>c. c \<noteq> 0)) (map_of nvs n))"
    using names
  proof (induction nvs)
    case (Cons nv nvs)
    then show ?case using step [of nv "map pair_entry nvs"] by (cases nv) auto
  qed simp
  ultimately show ?thesis by (simp add: FCGX_GetParam_def)
qed

theorem fcgi_param_lookup_witness:
  "FCGX_GetParam (Some [65]) (Some ([70, 67, 71, 73, 95, 82, 79, 76, 69, 61, 70, 73, 76, 84, 69, 82, 0] #
      map pair_entry [([65, 66], [50]), ([65], [49])])) = Some (Some [49])"
  using fcgi_param_lookup [of "[([65, 66], [50]), ([65], [49])]" "[65]" 3] by (simp add: name_ok_def role_string_def)

end
