(* ===== verification/LA_Fcgi_Printf.thy ===== *)
theory LA_Fcgi_Printf
  imports LA_Fcgi_Write
begin

text \<open>
  Formatted output of the FastCGI library (\<open>FCGX_VFPrintF\<close> of \<open>loungeact_fastcgi/fcgiapp.c\<close>): the scan of the format,
  the bound of the buffer a conversion needs, and the conversion with \<open>sprintf\<close> of the C library, which is modelled
  for integers, characters and strings; the text of a double and of a pointer is an argument.

  The format is the list of its bytes up to the terminator. The inner option of a result is \<open>goto ErrorReturn\<close>, the
  outer one undefined behaviour.
\<close>

section \<open>One conversion of the C library\<close>

datatype 'f va =
  A_int int | A_uint int | A_long int | A_ulong int | A_str "byte list option" | A_ptr u64 | A_double 'f | A_ldouble 'f |
  A_count u64

record 'f c_text =
  double_text :: "byte list \<Rightarrow> 'f \<Rightarrow> byte list"
  exponent :: "'f \<Rightarrow> int"
  pointer_text :: "u64 \<Rightarrow> byte list"

definition digit_char :: "bool \<Rightarrow> nat \<Rightarrow> byte" where
  "digit_char upper d = word_of_nat (if d < 10 then 48 + d else if upper then 55 + d else 87 + d)"

fun radix_digits :: "nat \<Rightarrow> bool \<Rightarrow> nat \<Rightarrow> byte list" where
  "radix_digits b upper n =
     (if n < b \<or> b < 2 then [digit_char upper n]
      else radix_digits b upper (n div b) @ [digit_char upper (n mod b)])"

declare radix_digits.simps [simp del]

definition is_flag :: "byte \<Rightarrow> bool" where
  "is_flag c = (c \<in> {45, 48, 43, 32, 35})"

definition is_dec :: "byte \<Rightarrow> bool" where
  "is_dec c = (48 \<le> c \<and> c \<le> 57)"

definition is_modifier :: "byte \<Rightarrow> bool" where
  "is_modifier c = (c \<in> {108, 76, 104})"

definition dec_number :: "byte list \<Rightarrow> nat" where
  "dec_number ds = foldl (\<lambda>n d. 10 * n + (unat d - 48)) 0 ds"

text \<open>A specification without the percent sign: flags, width, precision, size and operation.\<close>

record spec =
  sp_flags :: "byte list"
  sp_width :: nat
  sp_prec :: "nat option"
  sp_op :: byte

definition parse_spec :: "byte list \<Rightarrow> spec option" where
  "parse_spec f =
     (let f1 = dropWhile is_flag f;
          f2 = dropWhile is_dec f1;
          dot = (f2 \<noteq> [] \<and> hd f2 = 46);
          f3 = (if dot then dropWhile is_dec (tl f2) else f2);
          f4 = (if f3 \<noteq> [] \<and> is_modifier (hd f3) then tl f3 else f3) in
      case f4 of
        [op] \<Rightarrow> Some
          \<lparr>sp_flags = takeWhile is_flag f, sp_width = dec_number (takeWhile is_dec f1),
           sp_prec = (if dot then Some (dec_number (takeWhile is_dec (tl f2))) else None), sp_op = op\<rparr>
      | _ \<Rightarrow> None)"

text \<open>The field: the body behind its sign or prefix, with blanks, or with zeros where that is allowed.\<close>

definition field :: "spec \<Rightarrow> bool \<Rightarrow> byte list \<Rightarrow> byte list \<Rightarrow> byte list" where
  "field sp zeros sign body =
     (let k = sp_width sp - length (sign @ body) in
      if 45 \<in> set (sp_flags sp) then sign @ body @ replicate k 32
      else if zeros \<and> 48 \<in> set (sp_flags sp) then sign @ replicate k 48 @ body
      else replicate k 32 @ sign @ body)"

definition with_precision :: "spec \<Rightarrow> nat \<Rightarrow> byte list \<Rightarrow> byte list" where
  "with_precision sp n ds =
     (case sp_prec sp of
        None \<Rightarrow> ds
      | Some p \<Rightarrow> if p = 0 \<and> n = 0 then [] else replicate (p - length ds) 48 @ ds)"

definition signed_text :: "spec \<Rightarrow> int \<Rightarrow> byte list" where
  "signed_text sp x =
     field sp (sp_prec sp = None)
       (if x < 0 then [45] else if 43 \<in> set (sp_flags sp) then [43] else if 32 \<in> set (sp_flags sp) then [32] else [])
       (with_precision sp (nat \<bar>x\<bar>) (radix_digits 10 False (nat \<bar>x\<bar>)))"

definition unsigned_text :: "spec \<Rightarrow> int \<Rightarrow> byte list" where
  "unsigned_text sp x =
     (let n = nat x;
          alternate = 35 \<in> set (sp_flags sp);
          base = (if sp_op sp = 117 then 10 else if sp_op sp = 111 then 8 else 16);
          ds = with_precision sp n (radix_digits base (sp_op sp = 88) n);
          body = (if sp_op sp = 111 \<and> alternate \<and> (ds = [] \<or> hd ds \<noteq> 48) then 48 # ds else ds);
          prefix = (if base = 16 \<and> alternate \<and> n \<noteq> 0 then [48, sp_op sp] else []) in
      field sp (sp_prec sp = None) prefix body)"

definition string_text :: "spec \<Rightarrow> byte list \<Rightarrow> byte list option" where
  "string_text sp blk =
     (case sp_prec sp of
        None \<Rightarrow> if 0 \<in> set blk then Some (field sp False [] (takeWhile (\<lambda>c. c \<noteq> 0) blk)) else None
      | Some p \<Rightarrow>
          if 0 \<in> set blk \<or> p \<le> length blk then Some (field sp False [] (take p (takeWhile (\<lambda>c. c \<noteq> 0) blk))) else None)"

definition sprintf_text :: "'f c_text \<Rightarrow> byte list \<Rightarrow> 'f va \<Rightarrow> byte list option" where
  "sprintf_text T fmt a = do {
     sp \<leftarrow> parse_spec (tl fmt);
     (case a of
        A_int x \<Rightarrow>
          if sp_op sp \<in> {100, 105} then Some (signed_text sp x)
          else if sp_op sp = 99 then Some (field sp False [] [word_of_int x]) else None
      | A_long x \<Rightarrow> if sp_op sp \<in> {100, 105} then Some (signed_text sp x) else None
      | A_uint x \<Rightarrow> if sp_op sp \<in> {117, 111, 120, 88} then Some (unsigned_text sp x) else None
      | A_ulong x \<Rightarrow> if sp_op sp \<in> {117, 111, 120, 88} then Some (unsigned_text sp x) else None
      | A_str (Some blk) \<Rightarrow> if sp_op sp = 115 then string_text sp blk else None
      | A_ptr p \<Rightarrow> if sp_op sp = 112 then Some (field sp False [] (pointer_text T p)) else None
      | A_double x \<Rightarrow> if sp_op sp \<in> {102, 101, 69, 103, 71} then Some (double_text T fmt x) else None
      | A_ldouble x \<Rightarrow> if sp_op sp \<in> {102, 101, 69, 103, 71} then Some (double_text T fmt x) else None
      | _ \<Rightarrow> None) }"

text \<open>\<open>sprintf\<close> into a buffer of \<open>len\<close> bytes, and the string that is there afterwards.\<close>

definition sprintf_to :: "'f c_text \<Rightarrow> nat \<Rightarrow> byte list \<Rightarrow> 'f va \<Rightarrow> byte list option" where
  "sprintf_to T len fmt a = do {
     t \<leftarrow> sprintf_text T fmt a;
     if length t < len then Some (takeWhile (\<lambda>c. c \<noteq> 0) t) else None }"

section \<open>Arguments, counts and errors\<close>

text \<open>The arguments left, what was stored for \<open>%n\<close>, the length of the auxiliary buffer, and the count.\<close>

record 'f printing =
  va_list :: "'f va list"
  stored :: "(u64 \<times> int) list"
  auxBuffLen :: "nat option"
  streamCount :: int

type_synonym ('a) checked = "'a option option"

definition checked_bind :: "'a checked \<Rightarrow> ('a \<Rightarrow> 'b checked) \<Rightarrow> 'b checked" where
  "checked_bind m f = (case m of None \<Rightarrow> None | Some None \<Rightarrow> Some None | Some (Some x) \<Rightarrow> f x)"

abbreviation error_return :: "'a checked" where "error_return \<equiv> Some None"

abbreviation fine :: "'a \<Rightarrow> 'a checked" where "fine x \<equiv> Some (Some x)"

lemma checked_bind_simps [simp]:
  "checked_bind (fine x) f = f x" "checked_bind error_return f = error_return" "checked_bind None f = None"
  by (simp_all add: checked_bind_def)

text \<open>\<open>va_arg\<close>: an argument of the type, or of the other signedness where the value fits both.\<close>

definition next_arg :: "('f va \<Rightarrow> 'a option) \<Rightarrow> 'f printing \<Rightarrow> ('a \<times> 'f printing) option" where
  "next_arg get p =
     (case va_list p of [] \<Rightarrow> None | a # as \<Rightarrow> map_option (\<lambda>x. (x, p\<lparr>va_list := as\<rparr>)) (get a))"

fun as_int :: "'f va \<Rightarrow> int option" where
  "as_int (A_int x) = Some x"
| "as_int (A_uint x) = (if x < 2 ^ 31 then Some x else None)"
| "as_int _ = None"

fun as_uint :: "'f va \<Rightarrow> int option" where
  "as_uint (A_uint x) = Some x"
| "as_uint (A_int x) = (if 0 \<le> x then Some x else None)"
| "as_uint _ = None"

fun as_long :: "'f va \<Rightarrow> int option" where
  "as_long (A_long x) = Some x"
| "as_long (A_ulong x) = (if x < 2 ^ 63 then Some x else None)"
| "as_long _ = None"

fun as_ulong :: "'f va \<Rightarrow> int option" where
  "as_ulong (A_ulong x) = Some x"
| "as_ulong (A_long x) = (if 0 \<le> x then Some x else None)"
| "as_ulong _ = None"

fun as_str :: "'f va \<Rightarrow> byte list option option" where
  "as_str (A_str s) = Some s"
| "as_str _ = None"

fun as_ptr :: "'f va \<Rightarrow> u64 option" where
  "as_ptr (A_ptr a) = Some a"
| "as_ptr _ = None"

fun as_double :: "'f va \<Rightarrow> 'f option" where
  "as_double (A_double x) = Some x"
| "as_double _ = None"

fun as_ldouble :: "'f va \<Rightarrow> 'f option" where
  "as_ldouble (A_ldouble x) = Some x"
| "as_ldouble _ = None"

fun as_count :: "'f va \<Rightarrow> u64 option" where
  "as_count (A_count a) = Some a"
| "as_count _ = None"

section \<open>A conversion\<close>

definition PRINTF_BUFFLEN :: nat where "PRINTF_BUFFLEN = 100"
definition FMT_BUFFLEN :: nat where "FMT_BUFFLEN = 25"

text \<open>The character \<open>n\<close> places on, which can be the terminator.\<close>

definition char_at :: "byte list \<Rightarrow> nat \<Rightarrow> byte" where
  "char_at f n = (if n < length f then f ! n else 0)"

text \<open>The fast path: operation, size modifier, format and length of the specifier that begins at \<open>f\<close>.\<close>

definition fast_spec :: "byte list \<Rightarrow> byte \<times> byte \<times> byte list \<times> nat" where
  "fast_spec f =
     (if is_modifier (char_at f 1) then (char_at f 2, char_at f 1, [37, char_at f 1, char_at f 2], 3)
      else (char_at f 1, 32, [37, char_at f 1], 2))"

text \<open>What is in the buffer with its length, or that the operation was not performed.\<close>

datatype converted = Performed nat "byte list" | Not_performed

text \<open>An argument taken with \<open>get\<close>, turned into the one \<open>sprintf\<close> is called with, and printed.\<close>

definition print_arg ::
  "'f c_text \<Rightarrow> nat \<Rightarrow> byte list \<Rightarrow> ('f va \<Rightarrow> 'a option) \<Rightarrow> ('a \<Rightarrow> 'f va) \<Rightarrow> 'f printing \<Rightarrow>
   (converted \<times> 'f printing) checked" where
  "print_arg T buffLen fmt get arg p = do {
     (x, p1) \<leftarrow> next_arg get p;
     t \<leftarrow> sprintf_to T buffLen fmt (arg x);
     fine (Performed buffLen t, p1) }"

definition store_count :: "(int \<Rightarrow> int) \<Rightarrow> nat \<Rightarrow> 'f printing \<Rightarrow> (converted \<times> 'f printing) checked" where
  "store_count narrow buffLen p = do {
     (a, p1) \<leftarrow> next_arg as_count p;
     fine (Performed buffLen [], p1\<lparr>stored := stored p1 @ [(a, narrow (streamCount p1))]\<rparr>) }"

definition perform_integer :: "'f c_text \<Rightarrow> byte \<Rightarrow> byte list \<Rightarrow> nat \<Rightarrow> 'f printing \<Rightarrow> (converted \<times> 'f printing) checked" where
  "perform_integer T sizeModifier fmt buffLen p =
     (if sizeModifier = 32 then print_arg T buffLen fmt as_int A_int p
      else if sizeModifier = 108 then print_arg T buffLen fmt as_long A_long p
      else if sizeModifier = 104 then print_arg T buffLen fmt as_int (\<lambda>x. A_int (sint (word_of_int x :: 16 word))) p
      else error_return)"

definition perform_unsigned :: "'f c_text \<Rightarrow> byte \<Rightarrow> byte list \<Rightarrow> nat \<Rightarrow> 'f printing \<Rightarrow> (converted \<times> 'f printing) checked" where
  "perform_unsigned T sizeModifier fmt buffLen p =
     (if sizeModifier = 32 then print_arg T buffLen fmt as_uint A_uint p
      else if sizeModifier = 108 then print_arg T buffLen fmt as_ulong A_ulong p
      else if sizeModifier = 104 then print_arg T buffLen fmt as_int (\<lambda>x. A_uint (uint (word_of_int x :: 16 word))) p
      else error_return)"

text \<open>A string is not copied on the fast path: the buffer is the string, which may not be NULL.\<close>

definition perform_string ::
  "'f c_text \<Rightarrow> bool \<Rightarrow> byte \<Rightarrow> byte list \<Rightarrow> nat \<Rightarrow> 'f va option \<Rightarrow> 'f printing \<Rightarrow> (converted \<times> 'f printing) checked" where
  "perform_string T fastPath sizeModifier fmt buffLen fetched p =
     (if sizeModifier \<noteq> 32 then error_return
      else if fastPath then do {
        (s, p1) \<leftarrow> next_arg as_str p;
        blk \<leftarrow> s;
        if 0 \<in> set blk then
          fine (Performed (length (takeWhile (\<lambda>c. c \<noteq> 0) blk) + 1) (takeWhile (\<lambda>c. c \<noteq> 0) blk), p1)
        else None }
      else do {
        a \<leftarrow> fetched;
        t \<leftarrow> sprintf_to T buffLen fmt a;
        fine (Performed buffLen t, p) })"

definition perform_count :: "byte \<Rightarrow> nat \<Rightarrow> 'f printing \<Rightarrow> (converted \<times> 'f printing) checked" where
  "perform_count sizeModifier buffLen p =
     (if sizeModifier \<in> {32, 108} then store_count (\<lambda>n. n) buffLen p
      else if sizeModifier = 104 then store_count (\<lambda>n. sint (word_of_int n :: 16 word)) buffLen p
      else error_return)"

definition perform_fixed ::
  "'f c_text \<Rightarrow> bool \<Rightarrow> byte \<Rightarrow> byte list \<Rightarrow> nat \<Rightarrow> 'f va option \<Rightarrow> 'f printing \<Rightarrow> (converted \<times> 'f printing) checked" where
  "perform_fixed T fastPath sizeModifier fmt buffLen fetched p =
     (if fastPath then fine (Not_performed, p)
      else if sizeModifier \<in> {32, 76} then do {
        a \<leftarrow> fetched;
        t \<leftarrow> sprintf_to T buffLen fmt a;
        fine (Performed buffLen t, p) }
      else error_return)"

definition perform_floating :: "'f c_text \<Rightarrow> byte \<Rightarrow> byte list \<Rightarrow> nat \<Rightarrow> 'f printing \<Rightarrow> (converted \<times> 'f printing) checked" where
  "perform_floating T sizeModifier fmt buffLen p =
     (if sizeModifier = 32 then print_arg T buffLen fmt as_double A_double p
      else if sizeModifier = 76 then print_arg T buffLen fmt as_ldouble A_ldouble p
      else error_return)"

text \<open>The switch over the operation, on either path.\<close>

definition perform ::
  "'f c_text \<Rightarrow> bool \<Rightarrow> byte \<Rightarrow> byte \<Rightarrow> byte list \<Rightarrow> nat \<Rightarrow> 'f va option \<Rightarrow> 'f printing \<Rightarrow>
   (converted \<times> 'f printing) checked" where
  "perform T fastPath op sizeModifier fmt buffLen fetched p =
     (if op \<in> {100, 105} then perform_integer T sizeModifier fmt buffLen p
      else if op \<in> {117, 111, 120, 88} then perform_unsigned T sizeModifier fmt buffLen p
      else if op = 99 then
        if sizeModifier = 32 then print_arg T buffLen fmt as_int A_int p else error_return
      else if op = 115 then perform_string T fastPath sizeModifier fmt buffLen fetched p
      else if op = 112 then
        if sizeModifier = 32 then print_arg T buffLen fmt as_ptr A_ptr p else error_return
      else if op = 110 then perform_count sizeModifier buffLen p
      else if op = 102 then perform_fixed T fastPath sizeModifier fmt buffLen fetched p
      else if op \<in> {101, 69, 103, 71} then perform_floating T sizeModifier fmt buffLen p
      else if op = 37 then
        if sizeModifier = 32 then fine (Performed buffLen [37], p) else error_return
      else if op = 0 then error_return
      else fine (Not_performed, p))"

section \<open>The slow path\<close>

definition decimal_text :: "int \<Rightarrow> byte list" where
  "decimal_text x = (if x < 0 then [45] else []) @ radix_digits 10 False (nat \<bar>x\<bar>)"

text \<open>
  A number at \<open>f\<close>, at most six digits, or a star for an argument; \<open>star\<close> is what is done with that argument. The
  results are the number, what is copied to the format, and what follows.
\<close>

definition scan_number ::
  "(int \<Rightarrow> int checked) \<Rightarrow> byte list \<Rightarrow> 'f printing \<Rightarrow> ((int \<times> byte list \<times> byte list) \<times> 'f printing) checked" where
  "scan_number star f p =
     (let ds = takeWhile is_dec f in
      if ds = [] then
        if char_at f 0 = 42 then do {
          (x, p1) \<leftarrow> next_arg as_int p;
          checked_bind (star x) (\<lambda>y. fine ((y, decimal_text y, drop 1 f), p1)) }
        else fine ((0, [], f), p)
      else if length ds \<le> 6 then fine ((int (dec_number ds), ds, drop (length ds) f), p)
      else error_return)"

text \<open>\<open>abs\<close> of the least \<open>int\<close> is undefined.\<close>

definition star_width :: "int \<Rightarrow> int checked" where
  "star_width x = (if x = - (2 ^ 31) then None else if 999999 < \<bar>x\<bar> then error_return else fine x)"

definition star_precision :: "int \<Rightarrow> int checked" where
  "star_precision x = (if 999999 < x then error_return else fine (max 0 x))"

definition scan_precision ::
  "byte list \<Rightarrow> 'f printing \<Rightarrow> ((int \<times> byte list \<times> byte list) \<times> 'f printing) checked" where
  "scan_precision f p =
     (if char_at f 0 = 46 then
        checked_bind (scan_number star_precision (drop 1 f) p) (\<lambda>((n, fmt, f1), p1). fine ((n, 46 # fmt, f1), p1))
      else fine ((-1, [], f), p))"

record slow_spec =
  ss_minWidth :: int
  ss_precision :: int
  ss_modifier :: byte
  ss_op :: byte
  ss_fmt :: "byte list"
  ss_length :: nat

text \<open>The specifier that begins at \<open>f\<close>; the format is put together in an array that it may not fill.\<close>

definition scan_spec :: "byte list \<Rightarrow> 'f printing \<Rightarrow> (slow_spec \<times> 'f printing) checked" where
  "scan_spec f p =
     (let flags = takeWhile is_flag (drop 1 f) in
      if 5 < length flags then error_return
      else
        checked_bind (scan_number star_width (drop (1 + length flags) f) p) (\<lambda>((minWidth, wfmt, f1), p1).
        checked_bind (scan_precision f1 p1) (\<lambda>((precision, pfmt, f2), p2).
          let sized = is_modifier (char_at f2 0);
              md = (if sized then [char_at f2 0] else []);
              f3 = drop (length md) f2;
              fmt = 37 # flags @ wfmt @ pfmt @ md @ [char_at f3 0] in
          if FMT_BUFFLEN \<le> length fmt then None
          else fine (\<lparr>ss_minWidth = minWidth, ss_precision = precision,
                      ss_modifier = (if sized then char_at f2 0 else 32), ss_op = char_at f3 0,
                      ss_fmt = fmt, ss_length = length f - length f3 + 1\<rparr>, p2))))"

text \<open>\<open>memchr\<close> for the terminator, in at most \<open>n\<close> bytes.\<close>

definition string_bound :: "byte list \<Rightarrow> int \<Rightarrow> int option" where
  "string_bound blk precision =
     (if precision = -1 then
        if 0 \<in> set blk then Some (int (length (takeWhile (\<lambda>c. c \<noteq> 0) blk))) else None
      else if 0 \<in> set (take (nat precision) blk) then Some (int (length (takeWhile (\<lambda>c. c \<noteq> 0) blk)))
      else if nat precision \<le> length blk then Some precision else None)"

text \<open>\<open>(null)\<close>.\<close>

definition null_text :: "byte list" where
  "null_text = [40, 110, 117, 108, 108, 41, 0]"

definition float_bound :: "int \<Rightarrow> int \<Rightarrow> int" where
  "float_bound precision e = (if precision = -1 then 6 else precision) + 3 + (if 0 < e then e div 3 else 0)"

text \<open>A bound of what the conversion writes, and the argument where it had to be looked at.\<close>

definition bound_buffer :: "'f c_text \<Rightarrow> slow_spec \<Rightarrow> 'f printing \<Rightarrow> ((int \<times> 'f va option) \<times> 'f printing) checked" where
  "bound_buffer T sp p =
     (let op = ss_op sp; precision = ss_precision sp in
      if op \<in> {100, 105, 117, 111, 120, 88, 99, 112} then fine ((max precision 46, None), p)
      else if op = 115 then do {
        (s, p1) \<leftarrow> next_arg as_str p;
        let blk = (case s of None \<Rightarrow> null_text | Some b \<Rightarrow> b);
        n \<leftarrow> string_bound blk precision;
        fine ((n, Some (A_str (Some blk))), p1) }
      else if op = 102 then
        if ss_modifier sp = 32 then do {
          (x, p1) \<leftarrow> next_arg as_double p;
          fine ((float_bound precision (exponent T x), Some (A_double x)), p1) }
        else if ss_modifier sp = 76 then do {
          (x, p1) \<leftarrow> next_arg as_ldouble p;
          fine ((float_bound precision (exponent T x), Some (A_ldouble x)), p1) }
        else error_return
      else if op \<in> {101, 69, 103, 71} then fine (((if precision = -1 then 6 else precision) + 8, None), p)
      else error_return)"

text \<open>
  The buffer: the array on the stack where it is enough, or the auxiliary one, which is made anew to grow. A refused
  allocation is the assertion in \<open>Malloc\<close>, and has no result either.
\<close>

definition choose_buffer :: "'w os_lib \<Rightarrow> int \<Rightarrow> 'f printing \<Rightarrow> 'w \<Rightarrow> (nat \<times> 'f printing \<times> 'w) option" where
  "choose_buffer L buffReqd p w =
     (if 2 ^ 31 \<le> buffReqd then None
      else if buffReqd \<le> int PRINTF_BUFFLEN then Some (PRINTF_BUFFLEN, p, w)
      else (case auxBuffLen p of
              Some n \<Rightarrow>
                if buffReqd \<le> int n then Some (n, p, w)
                else do { (_, w1) \<leftarrow> Malloc L (nat buffReqd) w; Some (nat buffReqd, p\<lparr>auxBuffLen := Some (nat buffReqd)\<rparr>, w1) }
            | None \<Rightarrow> do { (_, w1) \<leftarrow> Malloc L (nat buffReqd) w; Some (nat buffReqd, p\<lparr>auxBuffLen := Some (nat buffReqd)\<rparr>, w1) }))"

text \<open>The text of the conversion at \<open>f\<close>, the length of its specifier, and the state; both paths.\<close>

definition slow_conversion ::
  "'w os_lib \<Rightarrow> 'f c_text \<Rightarrow> byte list \<Rightarrow> 'f printing \<Rightarrow> 'w \<Rightarrow> ((byte list \<times> nat \<times> 'f printing) option \<times> 'w) option" where
  "slow_conversion L T f p w = do {
     r \<leftarrow> checked_bind (scan_spec f p) (\<lambda>(sp, p1).
           checked_bind (bound_buffer T sp p1) (\<lambda>((n, fetched), p2). fine (sp, n, fetched, p2)));
     (case r of
        None \<Rightarrow> Some (None, w)
      | Some (sp, n, fetched, p2) \<Rightarrow> do {
          (buffLen, p3, w1) \<leftarrow> choose_buffer L (max (n + 10) (ss_minWidth sp)) p2 w;
          d \<leftarrow> perform T False (ss_op sp) (ss_modifier sp) (ss_fmt sp) buffLen fetched p3;
          (case d of
             Some (Performed len t, p4) \<Rightarrow> if length t < len then Some (Some (t, ss_length sp, p4), w1) else None
           | _ \<Rightarrow> Some (None, w1)) }) }"

definition conversion ::
  "'w os_lib \<Rightarrow> 'f c_text \<Rightarrow> byte list \<Rightarrow> 'f printing \<Rightarrow> 'w \<Rightarrow> ((byte list \<times> nat \<times> 'f printing) option \<times> 'w) option" where
  "conversion L T f p w =
     (case fast_spec f of (op, md, fmt, n) \<Rightarrow> do {
        d \<leftarrow> perform T True op md fmt PRINTF_BUFFLEN None p;
        (case d of
           None \<Rightarrow> Some (None, w)
         | Some (Performed len t, p1) \<Rightarrow> if length t < len then Some (Some (t, n, p1), w) else None
         | Some (Not_performed, p1) \<Rightarrow> slow_conversion L T f p1 w) })"

section \<open>The format\<close>

text \<open>Text is put and counted; the count is an \<open>int\<close>.\<close>

definition put_text :: "'w os_lib \<Rightarrow> byte list \<Rightarrow> 'f printing \<Rightarrow> 'w io \<Rightarrow> (bool \<times> 'f printing \<times> 'w io) option" where
  "put_text L t p \<sigma> =
     (if t = [] then Some (True, p, \<sigma>)
      else if 2 ^ 31 \<le> streamCount p + int (length t) then None
      else do {
        (r, \<sigma>1) \<leftarrow> FCGX_PutStr L t \<sigma>;
        Some (if r < 0 then (False, p, \<sigma>1) else (True, p\<lparr>streamCount := streamCount p + int (length t)\<rparr>, \<sigma>1)) })"

definition with_world ::
  "('w \<Rightarrow> ('a \<times> 'w) option) \<Rightarrow> 'w io \<Rightarrow> ('a \<times> 'w io) option" where
  "with_world f \<sigma> = (case \<sigma> of (s, q, w) \<Rightarrow> map_option (\<lambda>(x, w1). (x, s, q, w1)) (f w))"

partial_function (option) printf_loop ::
  "'w os_lib \<Rightarrow> 'f c_text \<Rightarrow> byte list \<Rightarrow> 'f printing \<Rightarrow> 'w io \<Rightarrow> (int \<times> 'f printing \<times> 'w io) option" where
  "printf_loop L T f p \<sigma> = do {
     (ok, p1, \<sigma>1) \<leftarrow> put_text L (takeWhile (\<lambda>c. c \<noteq> 37) f) p \<sigma>;
     if \<not> ok then Some (-1, p1, \<sigma>1)
     else if dropWhile (\<lambda>c. c \<noteq> 37) f = [] then Some (streamCount p1, p1, \<sigma>1)
     else do {
       (r, \<sigma>2) \<leftarrow> with_world (conversion L T (dropWhile (\<lambda>c. c \<noteq> 37) f) p1) \<sigma>1;
       (case r of
          None \<Rightarrow> Some (-1, p1, \<sigma>2)
        | Some (t, n, p2) \<Rightarrow> do {
            (ok2, p3, \<sigma>3) \<leftarrow> put_text L t p2 \<sigma>2;
            if ok2 then printf_loop L T (drop n (dropWhile (\<lambda>c. c \<noteq> 37) f)) p3 \<sigma>3 else Some (-1, p3, \<sigma>3) }) } }"

definition FCGX_VFPrintF ::
  "'w os_lib \<Rightarrow> 'f c_text \<Rightarrow> byte list \<Rightarrow> 'f va list \<Rightarrow> 'w io \<Rightarrow> (int \<times> (u64 \<times> int) list \<times> 'w io) option" where
  "FCGX_VFPrintF L T format args \<sigma> =
     (if 0 \<in> set format then do {
        (r, p, \<sigma>1) \<leftarrow> printf_loop L T (takeWhile (\<lambda>c. c \<noteq> 0) format)
          \<lparr>va_list = args, stored = [], auxBuffLen = None, streamCount = 0\<rparr> \<sigma>;
        Some (r, stored p, \<sigma>1) }
      else None)"

definition FCGX_FPrintF ::
  "'w os_lib \<Rightarrow> 'f c_text \<Rightarrow> byte list \<Rightarrow> 'f va list \<Rightarrow> 'w io \<Rightarrow> (int \<times> (u64 \<times> int) list \<times> 'w io) option" where
  "FCGX_FPrintF L T format args \<sigma> = FCGX_VFPrintF L T format args \<sigma>"

end
