(* ===== verification/LA_Fcgi_Format.thy ===== *)
theory LA_Fcgi_Format
  imports LA_Fcgi_Printf LA_Fcgi_Props
begin

text \<open>
  What the formatted output of the FastCGI library sends for a format of literal text and the usual directives, and
  where it writes past its buffer.
\<close>

section \<open>Decimal digits\<close>

lemma radix_digits_nonempty [simp]: "radix_digits b u n \<noteq> []"
  by (subst radix_digits.simps) simp

lemma digit_char_dec: "d < 10 \<Longrightarrow> is_dec (digit_char u d) \<and> unat (digit_char u d) = 48 + d"
proof -
  assume d: "d < 10"
  then have "48 + d < 256" by simp
  then have "unat (word_of_nat (48 + d) :: byte) = 48 + d" by (simp only: unsigned_of_nat take_bit_eq_mod) simp
  then show ?thesis using d by (simp add: digit_char_def is_dec_def word_le_nat_alt del: of_nat_add)
qed

lemma radix_digits_dec: "\<forall>c \<in> set (radix_digits 10 u n). is_dec c"
proof (induction n rule: less_induct)
  case (less n)
  show ?case
  proof (cases "n < 10")
    case True
    then show ?thesis by (subst radix_digits.simps) (simp add: digit_char_dec)
  next
    case False
    then have "\<forall>c \<in> set (radix_digits 10 u (n div 10)). is_dec c" by (intro less.IH) simp
    then show ?thesis using False by (subst radix_digits.simps) (simp add: digit_char_dec)
  qed
qed

lemma dec_number_digits: "dec_number (radix_digits 10 u n) = n"
proof (induction n rule: less_induct)
  case (less n)
  show ?case
  proof (cases "n < 10")
    case True
    then show ?thesis by (subst radix_digits.simps) (simp add: dec_number_def digit_char_dec)
  next
    case False
    then have "dec_number (radix_digits 10 u (n div 10)) = n div 10" by (intro less.IH) simp
    then show ?thesis using False
      by (subst radix_digits.simps) (simp add: dec_number_def digit_char_dec)
  qed
qed

lemma radix_digits_length: "n < 10 ^ Suc k \<Longrightarrow> length (radix_digits 10 u n) \<le> Suc k"
proof (induction k arbitrary: n)
  case 0
  then show ?case by (subst radix_digits.simps) simp
next
  case (Suc k)
  then have "n div 10 < 10 ^ Suc k" by (simp add: less_mult_imp_div_less)
  then show ?case using Suc.IH [of "n div 10"] by (subst radix_digits.simps) simp
qed

lemma radix_digits_head: "0 < n \<Longrightarrow> hd (radix_digits 10 u n) \<noteq> 48"
proof (induction n rule: less_induct)
  case (less n)
  show ?case
  proof (cases "n < 10")
    case True
    then have "unat (digit_char u n) \<noteq> unat (48 :: byte)" using less.prems by (simp add: digit_char_dec)
    then show ?thesis using True by (subst radix_digits.simps) auto
  next
    case False
    then have "hd (radix_digits 10 u (n div 10)) \<noteq> 48" by (intro less.IH) simp_all
    then show ?thesis using False by (subst radix_digits.simps) (simp add: hd_append)
  qed
qed

lemma not_dec: "\<not> is_dec 0" "\<not> is_dec 37" "\<not> is_dec 100" "\<not> is_dec 45"
  by (simp_all add: is_dec_def word_le_nat_alt)

lemma dec_not_flag: "is_dec c \<Longrightarrow> c \<noteq> 48 \<Longrightarrow> \<not> is_flag c"
  by (auto simp: is_flag_def is_dec_def word_le_nat_alt)

lemma radix_digits_free: "0 \<notin> set (radix_digits 10 u n)" "37 \<notin> set (radix_digits 10 u n)"
  using radix_digits_dec not_dec by blast+

lemma decimal_text_free: "\<forall>c \<in> set (decimal_text x). c \<noteq> 0"
  using radix_digits_free(1) [of False "nat \<bar>x\<bar>"] by (auto simp: decimal_text_def)

lemma decimal_text_length:
  assumes "- (2 ^ 31) \<le> x" "x < 2 ^ 32"
  shows "length (decimal_text x) \<le> 11"
proof -
  have "nat \<bar>x\<bar> < 10 ^ Suc 9" using assms by simp
  then have "length (radix_digits 10 False (nat \<bar>x\<bar>)) \<le> Suc 9" by (rule radix_digits_length)
  then show ?thesis by (cases "x < 0") (simp_all add: decimal_text_def)
qed

text \<open>In any base up to sixteen: no digit is a terminator, and 64 bits have at most 64 digits.\<close>

lemma digit_char_nonzero: "d < 16 \<Longrightarrow> digit_char u d \<noteq> 0"
proof -
  assume "d < 16"
  then have "d \<in> {0..<16}" by simp
  then have "d \<in> {0, 1, 2, 3, 4, 5, 6, 7, 8, 9, 10, 11, 12, 13, 14, 15}" by (simp add: atLeastLessThan_nat_numeral) auto
  then show "digit_char u d \<noteq> 0" by (auto simp: digit_char_def)
qed

lemma radix_digits_nonzero:
  assumes "2 \<le> b" "b \<le> 16"
  shows "\<forall>c \<in> set (radix_digits b u n). c \<noteq> 0"
proof (induction n rule: less_induct)
  case (less n)
  show ?case
  proof (cases "n < b")
    case True
    then show ?thesis using assms by (subst radix_digits.simps) (simp add: digit_char_nonzero)
  next
    case False
    then have "n div b < n" using assms(1) by simp
    moreover have "n mod b < 16" using assms by (meson mod_less_divisor less_le_trans zero_less_numeral)
    ultimately have "\<forall>c \<in> set (radix_digits b u (n div b)). c \<noteq> 0" "digit_char u (n mod b) \<noteq> 0"
      using less.IH digit_char_nonzero by blast+
    then show ?thesis using False assms(1) by (subst radix_digits.simps) auto
  qed
qed

lemma radix_digits_short:
  assumes "2 \<le> b"
  shows "n < 2 ^ Suc k \<Longrightarrow> length (radix_digits b u n) \<le> Suc k"
proof (induction k arbitrary: n)
  case 0
  then have "n < b" using assms by simp
  then show ?case by (subst radix_digits.simps) simp
next
  case (Suc k)
  have "n div b \<le> n div 2" using assms by (intro div_le_mono2) simp_all
  also have "\<dots> < 2 ^ Suc k" using Suc.prems by (simp add: less_mult_imp_div_less)
  finally show ?case using Suc.IH [of "n div b"] by (subst radix_digits.simps) simp
qed

section \<open>Directives\<close>

text \<open>
  Integers have a size: \<open>int\<close>, \<open>long\<close> with an \<open>l\<close>, and \<open>short\<close> with an \<open>h\<close> (passed as an \<open>int\<close>). A character that is
  a terminator is sent as nothing: the library sends the string that is in its buffer.
\<close>

datatype int_size = Plain | Long | Short

fun mod_bytes :: "int_size \<Rightarrow> byte list" where
  "mod_bytes Plain = []"
| "mod_bytes Long = [108]"
| "mod_bytes Short = [104]"

datatype directive =
  D_signed int_size byte int | D_unsigned int_size byte int | D_str "byte list" | D_char byte | D_percent | D_wide nat int

fun dir_format :: "directive \<Rightarrow> byte list" where
  "dir_format (D_signed m op x) = 37 # mod_bytes m @ [op]"
| "dir_format (D_unsigned m op x) = 37 # mod_bytes m @ [op]"
| "dir_format (D_str t) = [37, 115]"
| "dir_format (D_char c) = [37, 99]"
| "dir_format D_percent = [37, 37]"
| "dir_format (D_wide n x) = 37 # radix_digits 10 False n @ [100]"

fun dir_args :: "directive \<Rightarrow> 'f va list" where
  "dir_args (D_signed m op x) = [if m = Long then A_long x else A_int x]"
| "dir_args (D_unsigned m op x) = [case m of Plain \<Rightarrow> A_uint x | Long \<Rightarrow> A_ulong x | Short \<Rightarrow> A_int x]"
| "dir_args (D_str t) = [A_str (Some (t @ [0]))]"
| "dir_args (D_char c) = [A_int (uint c)]"
| "dir_args D_percent = []"
| "dir_args (D_wide n x) = [A_int x]"

definition radix_of :: "byte \<Rightarrow> nat" where
  "radix_of op = (if op = 117 then 10 else if op = 111 then 8 else 16)"

fun dir_text :: "directive \<Rightarrow> byte list" where
  "dir_text (D_signed m op x) = decimal_text (if m = Short then sint (word_of_int x :: 16 word) else x)"
| "dir_text (D_unsigned m op x) =
     radix_digits (radix_of op) (op = 88) (nat (if m = Short then uint (word_of_int x :: 16 word) else x))"
| "dir_text (D_str t) = t"
| "dir_text (D_char c) = (if c = 0 then [] else [c])"
| "dir_text D_percent = [37]"
| "dir_text (D_wide n x) = replicate (n - length (decimal_text x)) 32 @ decimal_text x"

fun dir_ok :: "directive \<Rightarrow> bool" where
  "dir_ok (D_signed m op x) =
     (op \<in> {100, 105} \<and> (if m = Long then - (2 ^ 63) \<le> x \<and> x < 2 ^ 63 else - (2 ^ 31) \<le> x \<and> x < 2 ^ 31))"
| "dir_ok (D_unsigned m op x) =
     (op \<in> {117, 111, 120, 88} \<and>
      (case m of Plain \<Rightarrow> 0 \<le> x \<and> x < 2 ^ 32 | Long \<Rightarrow> 0 \<le> x \<and> x < 2 ^ 64 | Short \<Rightarrow> - (2 ^ 31) \<le> x \<and> x < 2 ^ 31))"
| "dir_ok (D_str t) = (0 \<notin> set t)"
| "dir_ok (D_char c) = True"
| "dir_ok D_percent = True"
| "dir_ok (D_wide n x) = (0 < n \<and> n < 100 \<and> - (2 ^ 31) \<le> x \<and> x < 2 ^ 31)"

lemma parse_simple: "is_flag c = False \<Longrightarrow> is_dec c = False \<Longrightarrow> c \<noteq> 46 \<Longrightarrow> is_modifier c = False \<Longrightarrow>
    parse_spec [c] = Some \<lparr>sp_flags = [], sp_width = 0, sp_prec = None, sp_op = c\<rparr>"
  by (simp add: parse_spec_def dec_number_def)

lemma specifier_chars:
  "\<not> is_flag 100" "\<not> is_modifier 100" "\<not> is_flag 117" "\<not> is_modifier 117" "\<not> is_dec 117" "\<not> is_flag 99" "\<not> is_modifier 99" "\<not> is_dec 99"
  "\<not> is_modifier 115" "\<not> is_modifier 37"
  by (simp_all add: is_flag_def is_modifier_def is_dec_def word_le_nat_alt)

lemma char_plain: "sprintf_text T [37, 99] (A_int (uint c)) = Some [c]"
  using specifier_chars
  by (simp add: sprintf_text_def parse_simple field_def)

lemma char_at_simps [simp]: "char_at (x # xs) 0 = x" "char_at (x # xs) (Suc n) = char_at xs n" "char_at [] n = 0"
  by (simp_all add: char_at_def)

lemma fast_spec_simple: "\<not> is_modifier c \<Longrightarrow> fast_spec (37 # c # f) = (c, 32, [37, c], 2)"
  by (simp add: fast_spec_def)

lemma fast_spec_sized:
  assumes "\<not> is_modifier op"
  shows "fast_spec (37 # mod_bytes m @ op # f) =
    (op, case m of Plain \<Rightarrow> 32 | Long \<Rightarrow> 108 | Short \<Rightarrow> 104, 37 # mod_bytes m @ [op], length (37 # mod_bytes m @ [op]))"
  using assms by (cases m) (simp_all add: fast_spec_def is_modifier_def numeral_2_eq_2)

lemma integer_op:
  assumes "op \<in> {100, 105, 117, 111, 120, 88}"
  shows "\<not> is_modifier op" "parse_spec (mod_bytes m @ [op]) = Some \<lparr>sp_flags = [], sp_width = 0, sp_prec = None, sp_op = op\<rparr>"
proof -
  show "\<not> is_modifier op" using assms by (auto simp: is_modifier_def)
  moreover have "\<not> is_flag op" "\<not> is_dec op" "op \<noteq> 46" "op \<noteq> 0" using assms by (auto simp: is_flag_def is_dec_def word_le_nat_alt)
  moreover have "\<not> is_flag c" "\<not> is_dec c" "c \<noteq> 46" "is_modifier c" if "c \<in> {108, 104}" for c
    using that by (auto simp: is_flag_def is_dec_def is_modifier_def word_le_nat_alt)
  ultimately show "parse_spec (mod_bytes m @ [op]) = Some \<lparr>sp_flags = [], sp_width = 0, sp_prec = None, sp_op = op\<rparr>"
    by (cases m) (simp_all add: parse_spec_def Let_def dec_number_def)
qed

lemma signed_plain:
  assumes "op \<in> {100, 105}" "\<bar>x\<bar> < 2 ^ 64"
  shows "sprintf_to T 100 (37 # mod_bytes m @ [op]) (A_int x) = Some (decimal_text x)"
    "sprintf_to T 100 (37 # mod_bytes m @ [op]) (A_long x) = Some (decimal_text x)" "length (decimal_text x) < 100"
proof -
  have "nat \<bar>x\<bar> < 2 ^ Suc 63" using assms(2) by (simp add: nat_less_iff)
  then have "length (radix_digits 10 False (nat \<bar>x\<bar>)) \<le> Suc 63" by (rule radix_digits_short [rotated]) simp
  then show len: "length (decimal_text x) < 100" by (cases "x < 0") (simp_all add: decimal_text_def)
  have op: "op \<in> {100, 105, 117, 111, 120, 88}" using assms(1) by blast
  have "sprintf_text T (37 # mod_bytes m @ [op]) a = Some (decimal_text x)" if "a = A_int x \<or> a = A_long x" for a
    using assms(1) that integer_op(2) [OF op, of m]
    by (auto simp: sprintf_text_def signed_text_def field_def with_precision_def decimal_text_def)
  then show "sprintf_to T 100 (37 # mod_bytes m @ [op]) (A_int x) = Some (decimal_text x)"
    "sprintf_to T 100 (37 # mod_bytes m @ [op]) (A_long x) = Some (decimal_text x)"
    using len decimal_text_free [of x] by (simp_all add: sprintf_to_def takeWhile_eq_all_conv)
qed

lemma unsigned_plain:
  fixes x :: int
  assumes "op \<in> {117, 111, 120, 88}" "x < 2 ^ 64"
  defines "t \<equiv> radix_digits (radix_of op) (op = 88) (nat x)"
  shows "sprintf_to T 100 (37 # mod_bytes m @ [op]) (A_uint x) = Some t"
    "sprintf_to T 100 (37 # mod_bytes m @ [op]) (A_ulong x) = Some t" "length t < 100"
proof -
  have b: "2 \<le> radix_of op" "radix_of op \<le> 16" by (auto simp: radix_of_def)
  have "nat x < 2 ^ Suc 63" using assms(2) by (cases "0 \<le> x") (simp_all add: nat_less_iff)
  then show len: "length t < 100" using radix_digits_short [OF b(1), of "nat x" 63 "op = 88"] by (simp add: t_def)
  have op: "op \<in> {100, 105, 117, 111, 120, 88}" using assms(1) by blast
  have "sprintf_text T (37 # mod_bytes m @ [op]) a = Some t" if "a = A_uint x \<or> a = A_ulong x" for a
    using assms(1) that integer_op(2) [OF op, of m]
    by (auto simp: sprintf_text_def unsigned_text_def field_def with_precision_def radix_of_def t_def Let_def)
  then show "sprintf_to T 100 (37 # mod_bytes m @ [op]) (A_uint x) = Some t"
    "sprintf_to T 100 (37 # mod_bytes m @ [op]) (A_ulong x) = Some t"
    using len radix_digits_nonzero [OF b, of "op = 88" "nat x"]
    by (simp_all add: sprintf_to_def takeWhile_eq_all_conv t_def)
qed

lemma conversion_signed:
  assumes "dir_ok (D_signed m op x)" "va_list p = dir_args (D_signed m op x) @ as"
  shows "conversion L T (37 # mod_bytes m @ op # f) p w =
    Some (Some (dir_text (D_signed m op x), length (37 # mod_bytes m @ [op]), p\<lparr>va_list := as\<rparr>), w)"
proof -
  have op: "op \<in> {100, 105}" "op \<in> {100, 105, 117, 111, 120, 88}" using assms(1) by auto
  define y where "y = (if m = Short then sint (word_of_int x :: 16 word) else x)"
  have "\<bar>sint (word_of_int x :: 16 word)\<bar> < 2 ^ 64"
    using sint_lt [of "word_of_int x :: 16 word"] sint_ge [of "word_of_int x :: 16 word"] by (simp add: abs_if)
  then have y: "\<bar>y\<bar> < 2 ^ 64" using assms(1) by (auto simp: y_def abs_if split: if_splits)
  from signed_plain(1,2) [OF op(1) y, of T m] signed_plain(3) [OF op(1) y]
  have "sprintf_to T 100 (37 # mod_bytes m @ [op]) (if m = Long then A_long y else A_int y) = Some (decimal_text y)"
    "length (decimal_text y) < 100" by (cases "m = Long"; simp)+
  then have "perform_integer T (case m of Plain \<Rightarrow> 32 | Long \<Rightarrow> 108 | Short \<Rightarrow> 104) (37 # mod_bytes m @ [op]) 100 p =
      fine (Performed 100 (decimal_text y), p\<lparr>va_list := as\<rparr>)"
    using assms(2) by (cases m) (simp_all add: perform_integer_def print_arg_def next_arg_def y_def)
  then show ?thesis using op(1) \<open>length (decimal_text y) < 100\<close> unfolding conversion_def fast_spec_sized [OF integer_op(1) [OF op(2)]]
    by (simp add: perform_def PRINTF_BUFFLEN_def flip: y_def)
qed

lemma conversion_unsigned:
  assumes "dir_ok (D_unsigned m op x)" "va_list p = dir_args (D_unsigned m op x) @ as"
  shows "conversion L T (37 # mod_bytes m @ op # f) p w =
    Some (Some (dir_text (D_unsigned m op x), length (37 # mod_bytes m @ [op]), p\<lparr>va_list := as\<rparr>), w)"
proof -
  have op: "op \<in> {117, 111, 120, 88}" "op \<in> {100, 105, 117, 111, 120, 88}" using assms(1) by auto
  define y where "y = (if m = Short then uint (word_of_int x :: 16 word) else x)"
  define t where "t = radix_digits (radix_of op) (op = 88) (nat y)"
  have "uint (word_of_int x :: 16 word) < 2 ^ 64" using uint_lt2p [of "word_of_int x :: 16 word"] by simp
  then have y: "y < 2 ^ 64" using assms(1) by (cases m) (simp_all add: y_def)
  from unsigned_plain(1,2) [OF op(1) y, of T m] unsigned_plain(3) [OF op(1) y]
  have t: "sprintf_to T 100 (37 # mod_bytes m @ [op]) (if m = Long then A_ulong y else A_uint y) = Some t" "length t < 100"
    by (cases "m = Long"; simp add: t_def)+
  then have "perform_unsigned T (case m of Plain \<Rightarrow> 32 | Long \<Rightarrow> 108 | Short \<Rightarrow> 104) (37 # mod_bytes m @ [op]) 100 p =
      fine (Performed 100 t, p\<lparr>va_list := as\<rparr>)"
    using assms(2) by (cases m) (simp_all add: perform_unsigned_def print_arg_def next_arg_def y_def)
  moreover have "op \<notin> {100, 105}" using op(1) by auto
  moreover have "dir_text (D_unsigned m op x) = t" by (simp add: t_def y_def)
  ultimately show ?thesis
    using op(1) t(2) unfolding conversion_def fast_spec_sized [OF integer_op(1) [OF op(2)]]
    by (simp add: perform_def PRINTF_BUFFLEN_def del: dir_text.simps)
qed

lemma conversion_char:
  assumes "va_list p = A_int (uint c) # as"
  shows "conversion L T (37 # 99 # f) p w = Some (Some (dir_text (D_char c), 2, p\<lparr>va_list := as\<rparr>), w)"
proof -
  have "sprintf_to T 100 [37, 99] (A_int (uint c)) = Some (dir_text (D_char c))"
    by (simp add: char_plain sprintf_to_def)
  then show ?thesis using assms specifier_chars
    by (simp add: conversion_def fast_spec_simple perform_def print_arg_def next_arg_def PRINTF_BUFFLEN_def)
qed

lemma conversion_str:
  assumes "0 \<notin> set t" "va_list p = A_str (Some (t @ [0])) # as"
  shows "conversion L T (37 # 115 # f) p w = Some (Some (t, 2, p\<lparr>va_list := as\<rparr>), w)"
proof -
  have "takeWhile (\<lambda>c. c \<noteq> 0) (t @ [0]) = t" using assms(1) by (simp add: takeWhile_tail takeWhile_eq_all_conv) blast
  then show ?thesis using assms(2) specifier_chars
    by (simp add: conversion_def fast_spec_simple perform_def perform_string_def next_arg_def)
qed

lemma conversion_percent: "conversion L T (37 # 37 # f) p w = Some (Some ([37], 2, p), w)"
  using specifier_chars by (simp add: conversion_def fast_spec_simple perform_def PRINTF_BUFFLEN_def)

section \<open>A minimum width\<close>

lemma dec_not_op: "is_dec c \<Longrightarrow> perform T True c 32 fmt len fetched p = fine (Not_performed, p)"
  by (auto simp: perform_def is_dec_def word_le_nat_alt)

lemma dec_not_modifier: "is_dec c \<Longrightarrow> \<not> is_modifier c"
  by (auto simp: is_modifier_def is_dec_def word_le_nat_alt)

lemma width_digits:
  assumes "0 < n"
  obtains c ds where "radix_digits 10 False n = c # ds" "is_dec c" "\<not> is_flag c" "\<not> is_modifier c"
proof -
  obtain c ds where c: "radix_digits 10 False n = c # ds"
    using radix_digits_nonempty [of 10 False n] by (cases "radix_digits 10 False n") blast+
  then have "is_dec c" "c \<noteq> 48" using radix_digits_dec [of False n] radix_digits_head [OF assms, of False] by auto
  then show ?thesis using that [OF c] dec_not_flag dec_not_modifier by blast
qed

lemma width_front:
  assumes "0 < n"
  shows "takeWhile is_flag (radix_digits 10 False n @ f) = []" "dropWhile is_flag (radix_digits 10 False n @ f) = radix_digits 10 False n @ f"
    "takeWhile is_dec (radix_digits 10 False n @ 100 # f) = radix_digits 10 False n"
    "dropWhile is_dec (radix_digits 10 False n @ 100 # f) = 100 # f"
proof -
  obtain c ds where "radix_digits 10 False n = c # ds" "\<not> is_flag c" using width_digits [OF assms] .
  then show "takeWhile is_flag (radix_digits 10 False n @ f) = []"
    "dropWhile is_flag (radix_digits 10 False n @ f) = radix_digits 10 False n @ f" by simp_all
  have "takeWhile is_dec (radix_digits 10 False n @ 100 # f) = radix_digits 10 False n @ takeWhile is_dec (100 # f)"
    using radix_digits_dec [of False n] by (intro takeWhile_append2) blast
  then show "takeWhile is_dec (radix_digits 10 False n @ 100 # f) = radix_digits 10 False n" using not_dec by simp
  have "dropWhile is_dec (radix_digits 10 False n @ 100 # f) = dropWhile is_dec (100 # f)"
    using radix_digits_dec [of False n] by (intro dropWhile_append2) blast
  then show "dropWhile is_dec (radix_digits 10 False n @ 100 # f) = 100 # f" using not_dec by simp
qed

lemma wide_text:
  assumes "0 < n"
  shows "sprintf_text T (37 # radix_digits 10 False n @ [100]) (A_int x) = Some (dir_text (D_wide n x))"
proof -
  have "parse_spec (radix_digits 10 False n @ [100]) = Some \<lparr>sp_flags = [], sp_width = n, sp_prec = None, sp_op = 100\<rparr>"
    using width_front [OF assms] specifier_chars by (simp add: parse_spec_def Let_def dec_number_digits)
  moreover have "signed_text \<lparr>sp_flags = [], sp_width = n, sp_prec = None, sp_op = 100\<rparr> x = dir_text (D_wide n x)"
    by (simp add: signed_text_def field_def with_precision_def decimal_text_def)
  ultimately show ?thesis by (simp add: sprintf_text_def)
qed

lemma scan_width:
  assumes "0 < n" "n < 10 ^ 6"
  shows "scan_spec (37 # radix_digits 10 False n @ 100 # f) p = fine
    (\<lparr>ss_minWidth = int n, ss_precision = -1, ss_modifier = 32, ss_op = 100, ss_fmt = 37 # radix_digits 10 False n @ [100],
      ss_length = length (radix_digits 10 False n) + 2\<rparr>, p)"
proof -
  have len: "length (radix_digits 10 False n) \<le> 6" using radix_digits_length [of n 5] assms(2) by simp
  have number: "scan_number star_width (radix_digits 10 False n @ 100 # f) p = fine ((int n, radix_digits 10 False n, 100 # f), p)"
    using len by (simp add: scan_number_def Let_def width_front [OF assms(1)] dec_number_digits)
  have "scan_precision (100 # f) p = fine ((-1, [], 100 # f), p)" by (simp add: scan_precision_def)
  then show ?thesis
    using len specifier_chars number width_front(1) [OF assms(1), of "100 # f"]
    by (simp add: scan_spec_def Let_def FMT_BUFFLEN_def)
qed

lemma conversion_wide:
  assumes n: "0 < n" "n < 10 ^ 6" and x: "va_list p = A_int x # as"
  shows "conversion L T (37 # radix_digits 10 False n @ 100 # f) p w = do {
    (buffLen, p3, w1) \<leftarrow> choose_buffer L (max 56 (int n)) p w;
    d \<leftarrow> perform_integer T 32 (37 # radix_digits 10 False n @ [100]) buffLen p3;
    (case d of
       Some (Performed len t, p4) \<Rightarrow>
         if length t < len then Some (Some (t, length (radix_digits 10 False n) + 2, p4), w1) else None
     | _ \<Rightarrow> Some (None, w1)) }"
proof -
  obtain c ds where c: "radix_digits 10 False n = c # ds" "is_dec c" "\<not> is_modifier c" using width_digits [OF n(1)] .
  then have fast: "conversion L T (37 # radix_digits 10 False n @ 100 # f) p w =
      slow_conversion L T (37 # radix_digits 10 False n @ 100 # f) p w"
    by (simp add: conversion_def fast_spec_simple dec_not_op)
  show ?thesis
    unfolding fast slow_conversion_def scan_width [OF n]
    by (auto simp: bound_buffer_def perform_def intro!: bind_option_cong split: option.splits converted.splits)
qed

lemma conversion_narrow:
  assumes n: "0 < n" "n < 100" and x: "va_list p = A_int x # as" "- (2 ^ 31) \<le> x" "x < 2 ^ 31"
  shows "conversion L T (37 # radix_digits 10 False n @ 100 # f) p w =
    Some (Some (dir_text (D_wide n x), length (radix_digits 10 False n) + 2, p\<lparr>va_list := as\<rparr>), w)"
proof -
  have n6: "n < 10 ^ 6" using n(2) by simp
  have buffer: "choose_buffer L (max 56 (int n)) p w = Some (100, p, w)"
    using n(2) by (simp add: choose_buffer_def PRINTF_BUFFLEN_def)
  have len: "length (dir_text (D_wide n x)) < 100" using n(2) decimal_text_length [of x] x(2,3) by simp
  have "\<forall>c \<in> set (dir_text (D_wide n x)). c \<noteq> 0" using decimal_text_free [of x] by auto
  then have "sprintf_to T 100 (37 # radix_digits 10 False n @ [100]) (A_int x) = Some (dir_text (D_wide n x))"
    using len by (simp add: sprintf_to_def wide_text [OF n(1)] takeWhile_eq_all_conv del: dir_text.simps)
  then show ?thesis
    unfolding conversion_wide [OF n(1) n6 x(1)] buffer
    using x(1) len by (simp add: perform_integer_def print_arg_def next_arg_def del: dir_text.simps)
qed

lemma conversion_overrun:
  assumes n: "100 \<le> n" "n < 10 ^ 6" and x: "va_list p = A_int x # as" and aux: "auxBuffLen p = None"
  shows "conversion L T (37 # radix_digits 10 False n @ 100 # f) p w = None"
proof -
  have n0: "0 < n" using n(1) by simp
  have small: "sprintf_to T len (37 # radix_digits 10 False n @ [100]) (A_int x) = None" if "len \<le> n" for len
    using that by (simp add: sprintf_to_def wide_text [OF n0])
  have "perform_integer T 32 (37 # radix_digits 10 False n @ [100]) len p3 = None" if "len \<le> n" "va_list p3 = A_int x # as" for len p3
    using that small by (simp add: perform_integer_def print_arg_def next_arg_def)
  then show ?thesis
    unfolding conversion_wide [OF n0 n(2) x] using n x aux
    by (auto simp: choose_buffer_def PRINTF_BUFFLEN_def bind_eq_None_conv)
qed

section \<open>A whole format\<close>

text \<open>A format is literal text before each directive, and behind the last.\<close>

type_synonym item = "byte list \<times> directive"

fun items_format :: "item list \<Rightarrow> byte list \<Rightarrow> byte list" where
  "items_format [] tail = tail"
| "items_format (i # is) tail = fst i @ dir_format (snd i) @ items_format is tail"

fun items_text :: "item list \<Rightarrow> byte list \<Rightarrow> byte list" where
  "items_text [] tail = tail"
| "items_text (i # is) tail = fst i @ dir_text (snd i) @ items_text is tail"

definition items_args :: "item list \<Rightarrow> 'f va list" where
  "items_args is = concat (map (dir_args \<circ> snd) is)"

definition literal :: "byte list \<Rightarrow> bool" where
  "literal l = (37 \<notin> set l \<and> 0 \<notin> set l)"

definition items_ok :: "item list \<Rightarrow> byte list \<Rightarrow> bool" where
  "items_ok is tail = ((\<forall>i \<in> set is. literal (fst i) \<and> dir_ok (snd i)) \<and> literal tail)"

lemma conversion_gives:
  assumes "dir_ok d" "va_list p = dir_args d @ as"
  shows "conversion L T (dir_format d @ f) p w = Some (Some (dir_text d, length (dir_format d), p\<lparr>va_list := as\<rparr>), w)"
proof (cases d)
  case D_percent
  then have "p\<lparr>va_list := as\<rparr> = p" using assms(2) by (cases p) simp
  then show ?thesis using D_percent by (simp add: conversion_percent)
next
  case (D_wide n x)
  then show ?thesis using assms conversion_narrow [of n p x as] by (simp del: dir_text.simps)
next
  case (D_signed m op x)
  then show ?thesis using assms conversion_signed [of m op x p as] by (simp del: dir_text.simps dir_args.simps dir_ok.simps)
next
  case (D_unsigned m op x)
  then show ?thesis using assms conversion_unsigned [of m op x p as] by (simp del: dir_text.simps dir_args.simps dir_ok.simps)
qed (use assms in \<open>simp_all add: conversion_str conversion_char\<close>)

lemma directive_head: "\<exists>f. dir_format d = 37 # f"
  by (cases d) simp_all

lemma literal_front:
  assumes "literal l"
  shows "takeWhile (\<lambda>c. c \<noteq> 37) (l @ dir_format d @ f) = l" "dropWhile (\<lambda>c. c \<noteq> 37) (l @ dir_format d @ f) = dir_format d @ f"
    "takeWhile (\<lambda>c. c \<noteq> 37) l = l" "dropWhile (\<lambda>c. c \<noteq> 37) l = []"
proof -
  have l: "\<forall>c \<in> set l. c \<noteq> 37" using assms by (auto simp: literal_def)
  obtain g where "dir_format d = 37 # g" using directive_head by blast
  then show "takeWhile (\<lambda>c. c \<noteq> 37) (l @ dir_format d @ f) = l" "dropWhile (\<lambda>c. c \<noteq> 37) (l @ dir_format d @ f) = dir_format d @ f"
    using l by simp_all
  show "takeWhile (\<lambda>c. c \<noteq> 37) l = l" "dropWhile (\<lambda>c. c \<noteq> 37) l = []"
    using l by (simp_all add: takeWhile_eq_all_conv)
qed

context request_connection
begin

lemma stream_sends_nothing: "stream_sends incoming sent rid s w [] s w"
  by (auto simp: stream_sends_def intro: exI [of _ "[]"])

lemma put_text_sends:
  assumes "writer_ok s" "streamCount p + int (length t) < 2 ^ 31"
  shows "\<exists>s' w'. put_text L t p (s, q, w) = Some (True, p\<lparr>streamCount := streamCount p + int (length t)\<rparr>, s', q, w') \<and>
    writer_ok s' \<and> stream_sends incoming sent (requestId q) s w t s' w'"
proof (cases "t = []")
  case True
  then show ?thesis using assms(1) stream_sends_nothing by (auto simp: put_text_def)
next
  case False
  then show ?thesis using out.put_str_sends [OF assms(1), of t w] assms(2) by (auto simp: put_text_def)
qed

lemma printf_items:
  assumes "writer_ok s" "items_ok is tail" "va_list p = items_args is"
    and "0 \<le> streamCount p" "streamCount p + int (length (items_text is tail)) < 2 ^ 31"
  shows "\<exists>p' s' w'. printf_loop L T (items_format is tail) p (s, q, w) =
      Some (streamCount p + int (length (items_text is tail)), p', s', q, w') \<and> stored p' = stored p \<and>
    writer_ok s' \<and> stream_sends incoming sent (requestId q) s w (items_text is tail) s' w'"
  using assms
proof (induction "is" arbitrary: p s w)
  case Nil
  have l: "literal tail" using Nil(2) by (simp add: items_ok_def)
  from put_text_sends [OF Nil(1), of p tail w] Nil(5) show ?case
    by (subst printf_loop.simps) (auto simp: literal_front(3,4) [OF l])
next
  case (Cons i "is")
  obtain l d where i: "i = (l, d)" by (cases i)
  have ok: "literal l" "dir_ok d" "items_ok is tail" using Cons.prems(2) by (auto simp: items_ok_def i)
  have n: "streamCount p + int (length l) + int (length (dir_text d)) + int (length (items_text is tail)) < 2 ^ 31"
    using Cons.prems(5) by (simp add: i)
  obtain p1 where p1: "p1 = p\<lparr>streamCount := streamCount p + int (length l)\<rparr>" by blast
  have "streamCount p + int (length l) < 2 ^ 31" using n by linarith
  from put_text_sends [OF Cons.prems(1) this, of w] obtain s1 w1 where 1:
    "put_text L l p (s, q, w) = Some (True, p1, s1, q, w1)" "writer_ok s1" "stream_sends incoming sent (requestId q) s w l s1 w1"
    unfolding p1 by blast
  have args: "va_list p1 = dir_args d @ items_args is" using Cons.prems(3) by (simp add: p1 i items_args_def)
  obtain p2 where p2: "p2 = p1\<lparr>va_list := items_args is\<rparr>" by blast
  have conv: "with_world (conversion L T (dir_format d @ items_format is tail) p1) (s1, q, w1) =
      Some (Some (dir_text d, length (dir_format d), p2), s1, q, w1)"
    unfolding p2 by (simp add: with_world_def conversion_gives [OF ok(2) args])
  obtain p3 where p3: "p3 = p2\<lparr>streamCount := streamCount p2 + int (length (dir_text d))\<rparr>" by blast
  have "streamCount p2 + int (length (dir_text d)) < 2 ^ 31" using n by (simp add: p2 p1)
  from put_text_sends [OF 1(2) this, of w1] obtain s2 w2 where 2:
    "put_text L (dir_text d) p2 (s1, q, w1) = Some (True, p3, s2, q, w2)" "writer_ok s2"
    "stream_sends incoming sent (requestId q) s1 w1 (dir_text d) s2 w2"
    unfolding p3 by blast
  have count: "streamCount p3 = streamCount p + int (length l) + int (length (dir_text d))" "va_list p3 = items_args is"
    "stored p3 = stored p"
    by (simp_all add: p3 p2 p1)
  have "0 \<le> streamCount p3" "streamCount p3 + int (length (items_text is tail)) < 2 ^ 31"
    using n Cons.prems(4) unfolding count by simp_all
  from Cons.IH [OF 2(2) ok(3) count(2) this, of w2] obtain p' s' w' where 3:
    "printf_loop L T (items_format is tail) p3 (s2, q, w2) = Some (streamCount p3 + int (length (items_text is tail)), p', s', q, w')"
    "stored p' = stored p3" "writer_ok s'" "stream_sends incoming sent (requestId q) s2 w2 (items_text is tail) s' w'"
    by blast
  have "dir_format d \<noteq> []" using directive_head [of d] by auto
  then have "printf_loop L T (items_format (i # is) tail) p (s, q, w) = printf_loop L T (items_format is tail) p3 (s2, q, w2)"
    using 1(1) conv 2(1) unfolding i by (subst printf_loop.simps) (simp add: literal_front(1,2) [OF ok(1)])
  moreover have "stream_sends incoming sent (requestId q) s w (items_text (i # is) tail) s' w'"
    using stream_sends_trans [OF 1(3) stream_sends_trans [OF 2(3) 3(4)]] by (simp add: i)
  ultimately show ?case using 3 count by (simp add: i algebra_simps)
qed

end

lemma items_format_free:
  assumes "items_ok is tail"
  shows "\<forall>c \<in> set (items_format is tail). c \<noteq> 0"
proof -
  have m: "0 \<notin> set (mod_bytes m)" for m by (cases m) simp_all
  have d: "\<forall>c \<in> set (dir_format d). c \<noteq> 0" if "dir_ok d" for d
    using that m by (cases d) (auto simp: radix_digits_free)
  show ?thesis using assms
  proof (induction "is")
    case Nil
    then show ?case by (auto simp: items_ok_def literal_def)
  next
    case (Cons i "is")
    then show ?case using d [of "snd i"] by (auto simp: items_ok_def literal_def)
  qed
qed

text \<open>
  C37. Formatted output to an open writer, with a format of literal text and the directives \<open>d\<close> and \<open>i\<close> (decimal), \<open>u\<close>,
  \<open>o\<close>, \<open>x\<close> and \<open>X\<close>, each also for a \<open>long\<close> and a \<open>short\<close>, \<open>d\<close> with a minimum width below a hundred, \<open>c\<close>, \<open>s\<close> and the
  percent sign, without flags and precision, sends exactly the text the format stands for (nothing for a character that
  is a terminator), and returns its length.
\<close>

theorem fcgi_printf_sends:
  assumes conn: "connection L (ipcFd q) incoming sent" and ok: "writer_ok s" "items_ok is tail"
    and len: "length (items_text is tail) < 2 ^ 31"
  shows "\<exists>s' w'. FCGX_FPrintF L T (items_format is tail @ [0]) (items_args is) (s, q, w) =
      Some (int (length (items_text is tail)), [], s', q, w') \<and>
    writer_ok s' \<and> stream_sends incoming sent (requestId q) s w (items_text is tail) s' w'"
proof -
  let ?p = "\<lparr>va_list = items_args is, stored = [], auxBuffLen = None, streamCount = 0\<rparr>"
  have c: "request_connection L q incoming sent" using conn by (simp add: request_connection_def)
  have format: "takeWhile (\<lambda>c. c \<noteq> 0) (items_format is tail @ [0]) = items_format is tail"
    using items_format_free [OF ok(2)] by (simp add: takeWhile_append2)
  have "int (length (items_text is tail)) < 2 ^ 31" using len by simp
  then show ?thesis
    using request_connection.printf_items [OF c ok, of ?p T w] format
    by (auto simp: FCGX_FPrintF_def FCGX_VFPrintF_def)
qed

text \<open>
  C38. The format that is one \<open>%<n>d\<close>, with a width \<open>n\<close> of a hundred or more (of six digits at most: more are an
  error), makes the library write past its buffer, whatever the number and whatever the system, also one that grants
  every allocation: the buffer is as long as the width, and so is the text, without a byte for the terminator.
\<close>

theorem fcgi_printf_width_overrun:
  assumes "100 \<le> n" "n < 10 ^ 6"
  shows "FCGX_FPrintF L T (37 # radix_digits 10 False n @ [100, 0]) [A_int x] \<sigma> = None"
proof -
  let ?f = "37 # radix_digits 10 False n @ [100]"
  let ?p = "\<lparr>va_list = [A_int x], stored = [], auxBuffLen = None, streamCount = 0\<rparr>"
  obtain s q w where \<sigma>: "\<sigma> = (s, q, w)" by (cases \<sigma>)
  have free: "\<forall>c \<in> set ?f. c \<noteq> 0" using radix_digits_free(1) [of False n] by auto
  have "takeWhile (\<lambda>c. c \<noteq> 0) (?f @ [0]) = ?f" using free by (subst takeWhile_append2) auto
  then have format: "takeWhile (\<lambda>c. c \<noteq> 0) (37 # radix_digits 10 False n @ [100, 0]) = ?f" by simp
  have "conversion L T ?f ?p w = None" by (rule conversion_overrun [OF assms]) simp_all
  then have "printf_loop L T ?f ?p (s, q, w) = None"
    by (subst printf_loop.simps) (simp add: put_text_def with_world_def)
  then show ?thesis unfolding \<sigma> FCGX_FPrintF_def FCGX_VFPrintF_def format by simp
qed

section \<open>The properties on concrete formats\<close>

text \<open>A C library in which the doubles are integers.\<close>

definition demo_library :: "int c_text" where
  "demo_library = \<lparr>double_text = \<lambda>_. decimal_text, exponent = \<lambda>x. x, pointer_text = \<lambda>_. [48]\<rparr>"

definition demo_items :: "item list" where
  "demo_items = [([120, 61], D_signed Plain 100 (-5)), ([], D_percent), ([32], D_wide 4 7),
    ([32], D_unsigned Long 120 255), ([32], D_signed Short 105 65535)]"

theorem fcgi_printf_sends_witness:
  "\<exists>s w1 s' w'. NewWriter (memory_os 4) 32 FCGI_STDOUT \<lparr>c_in = [], c_out = []\<rparr> = Some (s, w1) \<and>
    FCGX_FPrintF (memory_os 4) demo_library (items_format demo_items [10] @ [0]) (items_args demo_items) (s, memory_request, w1) =
      Some (int (length (items_text demo_items [10])), [], s', memory_request, w') \<and>
    items_text demo_items [10] = [120, 61, 45, 53, 37, 32, 32, 32, 32, 55, 32, 102, 102, 32, 45, 49, 10]"
proof -
  obtain s w1 where 1: "NewWriter (memory_os 4) 32 FCGI_STDOUT \<lparr>c_in = [], c_out = []\<rparr> = Some (s, w1)" "writer_ok s"
    using memory.new_writer [of 4 32 FCGI_STDOUT "\<lparr>c_in = [], c_out = []\<rparr>"] by blast
  have sent_text: "items_text demo_items [10] = [120, 61, 45, 53, 37, 32, 32, 32, 32, 55, 32, 102, 102, 32, 45, 49, 10]"
  proof -
    have n: "decimal_text (-5) = [45, 53]" "decimal_text 7 = [55]" "decimal_text (-1) = [45, 49]"
      by (simp_all add: decimal_text_def radix_digits.simps digit_char_def)
    have h: "dir_text (D_unsigned Long 120 255) = [102, 102]"
      by (simp add: radix_of_def radix_digits.simps digit_char_def)
    have "dir_text (D_signed Short 105 65535) = [45, 49]" by (simp add: n)
    moreover have "dir_text (D_wide 4 7) = [32, 32, 32, 55]" by (simp add: n numeral_eq_Suc)
    ultimately show ?thesis unfolding demo_items_def items_text.simps fst_conv snd_conv h by (simp add: n)
  qed
  have ok: "items_ok demo_items [10]" by (simp add: demo_items_def items_ok_def literal_def)
  have "length (items_text demo_items [10]) < 2 ^ 31" by (simp add: sent_text)
  from fcgi_printf_sends [where L = "memory_os 4" and q = memory_request and T = demo_library and w = w1,
      OF memory.connection_axioms 1(2) ok this] 1(1) sent_text show ?thesis by blast
qed

theorem fcgi_printf_width_overrun_witness:
  "\<exists>s w1. NewWriter (memory_os 4) 32 FCGI_STDOUT \<lparr>c_in = [], c_out = []\<rparr> = Some (s, w1) \<and>
    FCGX_FPrintF (memory_os 4) demo_library [37, 49, 48, 48, 100, 0] [A_int 7] (s, memory_request, w1) = None"
proof -
  obtain s w1 where 1: "NewWriter (memory_os 4) 32 FCGI_STDOUT \<lparr>c_in = [], c_out = []\<rparr> = Some (s, w1)"
    using memory.new_writer [of 4 32 FCGI_STDOUT "\<lparr>c_in = [], c_out = []\<rparr>"] by blast
  have "radix_digits 10 False 100 = [49, 48, 48]" by (simp add: radix_digits.simps digit_char_def)
  then show ?thesis using 1 fcgi_printf_width_overrun [of 100 "memory_os 4" demo_library 7 "(s, memory_request, w1)"] by simp
qed

end
