(* ===== verification/LA_Fcgi_Async.thy ===== *)
theory LA_Fcgi_Async
  imports LA_Fcgi
begin

text \<open>
  Asynchronous input and output of the FastCGI library (\<open>loungeact_fastcgi/os_unix.c\<close>): a table with an entry for
  reading and one for writing of every descriptor, requests that are put there, and \<open>OS_DoIo\<close>, which asks the system
  which descriptors are ready, performs the operations and calls back.

  The static variables of the file are the record \<open>async\<close>; of each pair for reading and for writing there is one
  field, a function of the side. A callback is called by its name with the state of the library, which it may change by
  further calls; it is, with the system calls, an argument. A descriptor outside an \<open>fd_set\<close>, an index
  outside the table, a failed assertion and \<open>exit\<close> are \<open>None\<close>. Signal handlers are not modelled.
\<close>

section \<open>The table\<close>

datatype side = Rd | Wr

record 'p AioInfo =
  ai_procPtr :: "'p option"
  ai_clientData :: u64
  ai_fd :: int
  ai_len :: int
  ai_offset :: int
  ai_buf :: u64
  ai_inUse :: bool

definition empty_aio :: "'p AioInfo" where
  "empty_aio =
     \<lparr>ai_procPtr = None, ai_clientData = 0, ai_fd = 0, ai_len = 0, ai_offset = 0, ai_buf = 0, ai_inUse = False\<rparr>"

fun aio_ix :: "side \<Rightarrow> int \<Rightarrow> int" where
  "aio_ix Rd fd = fd * 2"
| "aio_ix Wr fd = fd * 2 + 1"

record 'p async =
  libInitialized :: bool
  asyncIoInUse :: bool
  asyncIoTable :: "'p AioInfo list option"
  asyncIoTableSize :: nat
  FdSet :: "side \<Rightarrow> int set"
  FdSetPost :: "side \<Rightarrow> int set"
  numPosted :: "side \<Rightarrow> int"
  maxFd :: int

definition async_initial :: "'p async" where
  "async_initial =
     \<lparr>libInitialized = False, asyncIoInUse = False, asyncIoTable = None, asyncIoTableSize = 16, FdSet = (\<lambda>_. {}),
      FdSetPost = (\<lambda>_. {}), numPosted = (\<lambda>_. 0), maxFd = -1\<rparr>"

definition FD_SETSIZE :: int where "FD_SETSIZE = 1024"

definition fd_ok :: "int \<Rightarrow> bool" where
  "fd_ok fd = (0 \<le> fd \<and> fd < FD_SETSIZE)"

definition sizeof_AioInfo :: nat where "sizeof_AioInfo = 48"

definition aio_at :: "'p async \<Rightarrow> side \<Rightarrow> int \<Rightarrow> 'p AioInfo option" where
  "aio_at st d fd = do {
     t \<leftarrow> asyncIoTable st;
     if 0 \<le> aio_ix d fd \<and> aio_ix d fd < 2 ^ 31 \<and> nat (aio_ix d fd) < length t then Some (t ! nat (aio_ix d fd)) else None }"

definition aio_put :: "side \<Rightarrow> int \<Rightarrow> 'p AioInfo \<Rightarrow> 'p async \<Rightarrow> 'p async option" where
  "aio_put d fd e st = do {
     t \<leftarrow> asyncIoTable st;
     if 0 \<le> aio_ix d fd \<and> aio_ix d fd < 2 ^ 31 \<and> nat (aio_ix d fd) < length t
     then Some (st\<lparr>asyncIoTable := Some (t[nat (aio_ix d fd) := e])\<rparr>) else None }"

text \<open>\<open>memory\<close> says for how many bytes there is memory.\<close>

definition OS_LibInit :: "(nat \<Rightarrow> bool) \<Rightarrow> 'p async \<Rightarrow> int \<times> 'p async" where
  "OS_LibInit memory st =
     (if libInitialized st then (0, st)
      else if \<not> memory (asyncIoTableSize st * sizeof_AioInfo) then (-1, st\<lparr>asyncIoTable := None\<rparr>)
      else (0, st\<lparr>asyncIoTable := Some (replicate (asyncIoTableSize st) empty_aio), FdSet := (\<lambda>_. {}), FdSetPost := (\<lambda>_. {}),
                  libInitialized := True\<rparr>))"

definition OS_LibShutdown :: "'p async \<Rightarrow> 'p async" where
  "OS_LibShutdown st = (if libInitialized st then st\<lparr>asyncIoTable := None, libInitialized := False\<rparr> else st)"

text \<open>The new half is cleared. (There is a table: the first half of a new one would have no definite content.)\<close>

definition GrowAsyncTable :: "(nat \<Rightarrow> bool) \<Rightarrow> 'p async \<Rightarrow> 'p async option" where
  "GrowAsyncTable memory st = do {
     t \<leftarrow> asyncIoTable st;
     if asyncIoTableSize st * 2 < 2 ^ 31 \<and> memory (asyncIoTableSize st * 2 * sizeof_AioInfo)
     then Some (st\<lparr>asyncIoTableSize := asyncIoTableSize st * 2, asyncIoTable := Some (t @ replicate (asyncIoTableSize st) empty_aio)\<rparr>)
     else None }"

partial_function (option) grow_table :: "(nat \<Rightarrow> bool) \<Rightarrow> int \<Rightarrow> 'p async \<Rightarrow> 'p async option" where
  "grow_table memory index st =
     (if int (asyncIoTableSize st) \<le> index then do { st1 \<leftarrow> GrowAsyncTable memory st; grow_table memory index st1 }
      else Some st)"

section \<open>Requests\<close>

text \<open>The entry is filled and the descriptor is waited for.\<close>

definition post_request :: "side \<Rightarrow> int \<Rightarrow> int \<Rightarrow> u64 \<Rightarrow> int \<Rightarrow> 'p \<Rightarrow> u64 \<Rightarrow> 'p async \<Rightarrow> 'p async option" where
  "post_request d fd offset buf len proc cd st = do {
     e \<leftarrow> aio_at st d fd;
     if ai_inUse e \<or> \<not> fd_ok fd then None
     else do {
       st1 \<leftarrow> aio_put d fd
         \<lparr>ai_procPtr = Some proc, ai_clientData = cd, ai_fd = fd, ai_len = len, ai_offset = offset, ai_buf = buf, ai_inUse = True\<rparr> st;
       Some (st1\<lparr>FdSet := (FdSet st1)(d := insert fd (FdSet st1 d))\<rparr>) } }"

definition OS_AsyncReadStdin :: "u64 \<Rightarrow> int \<Rightarrow> 'p \<Rightarrow> u64 \<Rightarrow> 'p async \<Rightarrow> 'p async option" where
  "OS_AsyncReadStdin buf len proc cd st = do {
     st1 \<leftarrow> post_request Rd 0 0 buf len proc cd (st\<lparr>asyncIoInUse := True\<rparr>);
     Some (st1\<lparr>maxFd := max 0 (maxFd st1)\<rparr>) }"

definition async_start :: "(nat \<Rightarrow> bool) \<Rightarrow> side \<Rightarrow> int \<Rightarrow> int \<Rightarrow> u64 \<Rightarrow> int \<Rightarrow> 'p \<Rightarrow> u64 \<Rightarrow> 'p async \<Rightarrow> 'p async option" where
  "async_start memory d fd offset buf len proc cd st =
     (if 2 ^ 31 \<le> aio_ix d fd then None
      else do {
        st1 \<leftarrow> grow_table memory (aio_ix d fd) (st\<lparr>asyncIoInUse := True, maxFd := max fd (maxFd st)\<rparr>);
        post_request d fd offset buf len proc cd st1 })"

definition OS_AsyncRead :: "(nat \<Rightarrow> bool) \<Rightarrow> int \<Rightarrow> int \<Rightarrow> u64 \<Rightarrow> int \<Rightarrow> 'p \<Rightarrow> u64 \<Rightarrow> 'p async \<Rightarrow> 'p async option" where
  "OS_AsyncRead memory fd offset buf len proc cd st =
     (if asyncIoTable st = None then None else async_start memory Rd fd offset buf len proc cd st)"

definition OS_AsyncWrite :: "(nat \<Rightarrow> bool) \<Rightarrow> int \<Rightarrow> int \<Rightarrow> u64 \<Rightarrow> int \<Rightarrow> 'p \<Rightarrow> u64 \<Rightarrow> 'p async \<Rightarrow> 'p async option" where
  "OS_AsyncWrite memory fd offset buf len proc cd st = async_start memory Wr fd offset buf len proc cd st"

text \<open>What \<open>OS_Close\<close> does with the requests of the descriptor, before it shuts it down.\<close>

definition cancel_side :: "side \<Rightarrow> int \<Rightarrow> 'p async \<Rightarrow> 'p async option" where
  "cancel_side d fd st = do {
     e \<leftarrow> aio_at st d fd;
     st1 \<leftarrow> (if ai_inUse e then aio_put d fd (e\<lparr>ai_inUse := False\<rparr>) st else Some st);
     Some (st1\<lparr>FdSet := (FdSet st1)(d := FdSet st1 d - {fd}), FdSetPost := (FdSetPost st1)(d := FdSetPost st1 d - {fd})\<rparr>) }"

definition cancel_requests :: "int \<Rightarrow> 'p async \<Rightarrow> 'p async option" where
  "cancel_requests fd st =
     (if \<not> asyncIoInUse st then Some st
      else if \<not> fd_ok fd then None
      else do {
        st1 \<leftarrow> cancel_side Rd fd st;
        st2 \<leftarrow> cancel_side Wr fd st1;
        Some (if maxFd st2 = fd then st2\<lparr>maxFd := maxFd st2 - 1\<rparr> else st2) })"

definition OS_Close_async :: "'w os_lib \<Rightarrow> int \<Rightarrow> 'p async \<times> 'w \<Rightarrow> (int \<times> 'p async \<times> 'w) option" where
  "OS_Close_async L fd \<sigma> =
     (case \<sigma> of (st, w) \<Rightarrow>
        if fd = -1 then Some (0, st, w)
        else do {
          st1 \<leftarrow> cancel_requests fd st;
          (r, w1) \<leftarrow> OS_Close L fd w;
          Some (r, st1, w1) })"

section \<open>The system and the callbacks\<close>

record ('p, 'w) async_os =
  ao_select :: "int \<Rightarrow> int set \<Rightarrow> int set \<Rightarrow> 'w \<Rightarrow> (int set \<times> int set) option \<times> 'w"
  ao_transfer :: "side \<Rightarrow> int \<Rightarrow> u64 \<Rightarrow> int \<Rightarrow> 'w \<Rightarrow> int \<times> 'w"
  ao_shutdown :: "int \<Rightarrow> int \<Rightarrow> 'w \<Rightarrow> int \<times> 'w"
  ao_call :: "'p \<Rightarrow> u64 \<Rightarrow> int \<Rightarrow> 'p async \<times> 'w \<Rightarrow> ('p async \<times> 'w) option"

definition OS_CloseRead :: "('p, 'w) async_os \<Rightarrow> int \<Rightarrow> 'p async \<times> 'w \<Rightarrow> (int \<times> 'p async \<times> 'w) option" where
  "OS_CloseRead O1 fd \<sigma> =
     (case \<sigma> of (st, w) \<Rightarrow> do {
        e \<leftarrow> aio_at st Rd fd;
        st1 \<leftarrow> (if \<not> ai_inUse e then Some st
               else if \<not> fd_ok fd then None
               else do {
                 st1 \<leftarrow> aio_put Rd fd (e\<lparr>ai_inUse := False\<rparr>) st;
                 Some (st1\<lparr>FdSet := (FdSet st1)(Rd := FdSet st1 Rd - {fd})\<rparr>) });
        case ao_shutdown O1 fd 0 w of (r, w1) \<Rightarrow> Some (r, st1, w1) })"

definition select_copy :: "'p async \<Rightarrow> side \<Rightarrow> int set" where
  "select_copy st d = {fd \<in> FdSet st d. 0 \<le> fd \<and> fd \<le> maxFd st}"

definition collect_side :: "side \<Rightarrow> int set \<Rightarrow> int \<Rightarrow> 'p async \<Rightarrow> 'p async" where
  "collect_side d ready fd st =
     (if fd \<in> ready
      then st\<lparr>numPosted := (numPosted st)(d := numPosted st d + 1), FdSetPost := (FdSetPost st)(d := insert fd (FdSetPost st d)),
              FdSet := (FdSet st)(d := FdSet st d - {fd})\<rparr>
      else st)"

definition collect :: "int set \<Rightarrow> int set \<Rightarrow> 'p async \<Rightarrow> 'p async" where
  "collect r v st = fold (\<lambda>fd. collect_side Wr v fd \<circ> collect_side Rd r fd) [0..maxFd st] st"

definition dispatch_side :: "('p, 'w) async_os \<Rightarrow> side \<Rightarrow> int \<Rightarrow> 'p async \<times> 'w \<Rightarrow> ('p async \<times> 'w) option" where
  "dispatch_side O1 d fd \<sigma> =
     (case \<sigma> of (st, w) \<Rightarrow>
        if fd \<notin> FdSetPost st d then Some (st, w)
        else do {
          e \<leftarrow> aio_at st d fd;
          if \<not> ai_inUse e then Some (st, w)
          else (case ao_transfer O1 d (ai_fd e) (ai_buf e) (ai_len e) w of
            (len, w1) \<Rightarrow> do {
              st1 \<leftarrow> aio_put d fd (e\<lparr>ai_procPtr := None, ai_inUse := False\<rparr>)
                (st\<lparr>numPosted := (numPosted st)(d := numPosted st d - 1), FdSetPost := (FdSetPost st)(d := FdSetPost st d - {fd})\<rparr>);
              proc \<leftarrow> ai_procPtr e;
              ao_call O1 proc (ai_clientData e) len (st1, w1) }) })"

partial_function (option) dispatch_loop :: "('p, 'w) async_os \<Rightarrow> int \<Rightarrow> 'p async \<times> 'w \<Rightarrow> ('p async \<times> 'w) option" where
  "dispatch_loop O1 fd \<sigma> =
     (if fd \<le> maxFd (fst \<sigma>) then do {
        \<sigma>1 \<leftarrow> dispatch_side O1 Rd fd \<sigma>;
        \<sigma>2 \<leftarrow> dispatch_side O1 Wr fd \<sigma>1;
        dispatch_loop O1 (fd + 1) \<sigma>2 }
      else Some \<sigma>)"

definition nothing_posted :: "'p async \<Rightarrow> bool" where
  "nothing_posted st = (numPosted st Rd = 0 \<and> numPosted st Wr = 0)"

definition OS_DoIo :: "('p, 'w) async_os \<Rightarrow> 'p async \<times> 'w \<Rightarrow> (int \<times> 'p async \<times> 'w) option" where
  "OS_DoIo O1 \<sigma> =
     (case \<sigma> of (st, w) \<Rightarrow> do {
        let st0 = st\<lparr>asyncIoInUse := True\<rparr>;
        (st1, w1) \<leftarrow> (if nothing_posted st0 then
            (case ao_select O1 (maxFd st0 + 1) (select_copy st0 Rd) (select_copy st0 Wr) w of
               (None, _) \<Rightarrow> None
             | (Some (r, v), w1) \<Rightarrow> Some (collect r v st0, w1))
          else Some (st0, w));
        if nothing_posted st1 then Some (0, st1, w1)
        else do {
          (st2, w2) \<leftarrow> dispatch_loop O1 0 (st1, w1);
          Some (0, st2, w2) } })"

end
