(* ===== verification/LA_Fcgi_Async_Props.thy ===== *)
theory LA_Fcgi_Async_Props
  imports LA_Fcgi_Async
begin

text \<open>
  The table of asynchronous operations: its invariant, the operations that keep it, and what \<open>OS_DoIo\<close> does with
  callbacks that keep it too (locale \<open>async_client\<close>).
\<close>

section \<open>The invariant\<close>

text \<open>The requests that are not done yet.\<close>

definition pending :: "'p async \<Rightarrow> side \<Rightarrow> int \<Rightarrow> 'p AioInfo option" where
  "pending st d fd = (case aio_at st d fd of Some e \<Rightarrow> if ai_inUse e then Some e else None | None \<Rightarrow> None)"

definition request_ok :: "'p async \<Rightarrow> side \<Rightarrow> int \<Rightarrow> 'p AioInfo \<Rightarrow> bool" where
  "request_ok st d fd e = (fd_ok fd \<and> fd \<le> maxFd st \<and> ai_fd e = fd \<and> ai_procPtr e \<noteq> None)"

definition table_ok :: "'p async \<Rightarrow> bool" where
  "table_ok st = (0 < asyncIoTableSize st \<and> even (asyncIoTableSize st) \<and>
     (\<exists>t. asyncIoTable st = Some t \<and> length t = asyncIoTableSize st) \<and> maxFd st < FD_SETSIZE)"

definition async_ok :: "'p async \<Rightarrow> bool" where
  "async_ok st = (table_ok st \<and>
     (\<forall>d fd. pending st d fd \<noteq> None \<longleftrightarrow> fd \<in> FdSet st d \<union> FdSetPost st d) \<and>
     (\<forall>d fd e. pending st d fd = Some e \<longrightarrow> request_ok st d fd e) \<and>
     (\<forall>d. FdSet st d \<inter> FdSetPost st d = {} \<and> numPosted st d = int (card (FdSetPost st d))))"

lemma aio_at_updates [simp]:
  "aio_at (st\<lparr>FdSet := a\<rparr>) = aio_at st" "aio_at (st\<lparr>FdSetPost := a\<rparr>) = aio_at st" "aio_at (st\<lparr>numPosted := n\<rparr>) = aio_at st"
  "aio_at (st\<lparr>maxFd := m\<rparr>) = aio_at st" "aio_at (st\<lparr>asyncIoInUse := b\<rparr>) = aio_at st"
  by (simp_all add: aio_at_def fun_eq_iff)

lemma table_ok_updates [simp]:
  "table_ok (st\<lparr>FdSet := a\<rparr>) = table_ok st" "table_ok (st\<lparr>FdSetPost := a\<rparr>) = table_ok st" "table_ok (st\<lparr>numPosted := n\<rparr>) = table_ok st"
  "table_ok (st\<lparr>asyncIoInUse := b\<rparr>) = table_ok st"
  by (simp_all add: table_ok_def)

lemma pending_updates [simp]:
  "pending (st\<lparr>FdSet := a\<rparr>) = pending st" "pending (st\<lparr>FdSetPost := a\<rparr>) = pending st" "pending (st\<lparr>numPosted := n\<rparr>) = pending st"
  "pending (st\<lparr>maxFd := m\<rparr>) = pending st" "pending (st\<lparr>asyncIoInUse := b\<rparr>) = pending st"
  by (simp_all add: pending_def fun_eq_iff)

lemma aio_ix_inject: "aio_ix d fd = aio_ix d' fd' \<longleftrightarrow> d = d' \<and> fd = fd'"
  by (cases d; cases d') (simp_all, presburger+)

lemma aio_ix_bounds: "0 \<le> fd \<Longrightarrow> 0 \<le> aio_ix d fd" "fd < FD_SETSIZE \<Longrightarrow> aio_ix d fd < 2048"
  by (cases d; simp add: FD_SETSIZE_def)+

lemma aio_put_gives:
  assumes "aio_at st d fd = Some e"
  obtains st' where "aio_put d fd e' st = Some st'"
    "\<forall>d' fd'. aio_at st' d' fd' = (if d' = d \<and> fd' = fd then Some e' else aio_at st d' fd')"
    "FdSet st' = FdSet st" "FdSetPost st' = FdSetPost st" "numPosted st' = numPosted st" "maxFd st' = maxFd st"
    "table_ok st \<longrightarrow> table_ok st'" "asyncIoInUse st' = asyncIoInUse st" "asyncIoTableSize st' = asyncIoTableSize st"
proof -
  obtain t where t: "asyncIoTable st = Some t" "0 \<le> aio_ix d fd" "aio_ix d fd < 2 ^ 31" "nat (aio_ix d fd) < length t"
    using assms by (auto simp: aio_at_def split: if_splits bind_splits)
  let ?s = "st\<lparr>asyncIoTable := Some (t[nat (aio_ix d fd) := e'])\<rparr>"
  have "aio_put d fd e' st = Some ?s" using t by (simp add: aio_put_def)
  moreover have "aio_at ?s d' fd' = (if d' = d \<and> fd' = fd then Some e' else aio_at st d' fd')" for d' fd'
    using t by (auto simp: aio_at_def nth_list_update aio_ix_inject eq_nat_nat_iff)
  ultimately show ?thesis using t by (intro that [of ?s]) (auto simp: table_ok_def)
qed

lemma pending_cong: "(\<And>d fd. aio_at st' d fd = aio_at st d fd) \<Longrightarrow> pending st' = pending st"
  by (simp add: pending_def fun_eq_iff)

lemma pending_at: "pending st d fd = Some e \<longleftrightarrow> aio_at st d fd = Some e \<and> ai_inUse e"
  by (auto simp: pending_def split: option.splits)

lemma pending_empty: "aio_at st d fd \<in> {None, Some empty_aio} \<Longrightarrow> pending st d fd = None"
  by (auto simp: pending_def empty_aio_def)

lemma async_okD:
  assumes "async_ok st"
  shows "table_ok st" "pending st d fd = Some e \<Longrightarrow> request_ok st d fd e" "fd \<in> FdSet st d \<Longrightarrow> \<exists>e. pending st d fd = Some e"
    "fd \<in> FdSetPost st d \<Longrightarrow> \<exists>e. pending st d fd = Some e" "FdSet st d \<inter> FdSetPost st d = {}"
    "numPosted st d = int (card (FdSetPost st d))"
    "pending st d fd = Some e \<Longrightarrow> fd \<in> FdSet st d \<or> fd \<in> FdSetPost st d"
  using assms by (auto simp: async_ok_def)

lemma async_ok_fds:
  assumes "async_ok st"
  shows "FdSet st d \<subseteq> {0..maxFd st}" "FdSetPost st d \<subseteq> {0..maxFd st}" "finite (FdSet st d)" "finite (FdSetPost st d)"
proof -
  show s: "FdSet st d \<subseteq> {0..maxFd st}" "FdSetPost st d \<subseteq> {0..maxFd st}"
    using async_okD(2-4) [OF assms] by (fastforce simp: request_ok_def fd_ok_def)+
  show "finite (FdSet st d)" "finite (FdSetPost st d)"
    using s finite_subset finite_atLeastAtMost_int by blast+
qed

lemma table_entry: "table_ok st \<Longrightarrow> 0 \<le> fd \<Longrightarrow> aio_ix d fd < int (asyncIoTableSize st) \<Longrightarrow> fd < FD_SETSIZE \<Longrightarrow> \<exists>e. aio_at st d fd = Some e"
  using aio_ix_bounds [of fd d] by (auto simp: table_ok_def aio_at_def FD_SETSIZE_def)

section \<open>Starting and cancelling\<close>

text \<open>\<open>keeps\<close>: no request that was there is lost, and nothing is posted or taken from what is posted.\<close>

definition keeps :: "'p async \<Rightarrow> 'p async \<Rightarrow> bool" where
  "keeps st st' = (FdSetPost st' = FdSetPost st \<and> maxFd st \<le> maxFd st' \<and>
     (\<forall>d fd e. pending st d fd = Some e \<longrightarrow> pending st' d fd = Some e))"

lemma keeps_refl: "keeps st st"
  by (simp add: keeps_def)

lemma keeps_trans: "keeps st st' \<Longrightarrow> keeps st' st'' \<Longrightarrow> keeps st st''"
  by (force simp: keeps_def)

lemma GrowAsyncTable_gives:
  assumes "table_ok st" "asyncIoTableSize st < 2048" "\<forall>n \<le> 4096 * sizeof_AioInfo. memory n"
  obtains st' where "GrowAsyncTable memory st = Some st'" "table_ok st'" "pending st' = pending st"
    "asyncIoTableSize st' = asyncIoTableSize st * 2" "FdSet st' = FdSet st" "FdSetPost st' = FdSetPost st" "numPosted st' = numPosted st"
    "maxFd st' = maxFd st" "asyncIoInUse st' = asyncIoInUse st"
proof -
  obtain t where t: "asyncIoTable st = Some t" "length t = asyncIoTableSize st" using assms(1) by (auto simp: table_ok_def)
  let ?s = "st\<lparr>asyncIoTableSize := asyncIoTableSize st * 2, asyncIoTable := Some (t @ replicate (asyncIoTableSize st) empty_aio)\<rparr>"
  have "asyncIoTableSize st * 2 * sizeof_AioInfo \<le> 4096 * sizeof_AioInfo" using assms(2) by simp
  then have "GrowAsyncTable memory st = Some ?s" using t assms by (simp add: GrowAsyncTable_def)
  moreover have "pending ?s d fd = pending st d fd" for d fd
  proof (cases "nat (aio_ix d fd) < length t")
    case True
    then show ?thesis using t(1) by (simp add: pending_def aio_at_def nth_append)
  next
    case False
    then have "pending st d fd = None" using t(1) by (simp add: pending_def aio_at_def)
    moreover have "aio_at ?s d fd \<in> {None, Some empty_aio}"
      using False by (auto simp: aio_at_def nth_append)
    ultimately show ?thesis using pending_empty by metis
  qed
  then have "pending ?s = pending st" by (intro ext)
  moreover have "table_ok ?s" using assms(1) t by (auto simp: table_ok_def)
  ultimately show ?thesis by (intro that [of ?s]) simp_all
qed

lemma grow_table_gives:
  assumes "table_ok st" "index < 2048" "\<forall>n \<le> 4096 * sizeof_AioInfo. memory n"
  shows "\<exists>st'. grow_table memory index st = Some st' \<and> table_ok st' \<and> pending st' = pending st \<and> index < int (asyncIoTableSize st') \<and>
    FdSet st' = FdSet st \<and> FdSetPost st' = FdSetPost st \<and> numPosted st' = numPosted st \<and> maxFd st' = maxFd st \<and> asyncIoInUse st' = asyncIoInUse st"
  using assms(1)
proof (induction "nat (index + 1) - asyncIoTableSize st" arbitrary: st rule: less_induct)
  case less
  show ?case
  proof (cases "int (asyncIoTableSize st) \<le> index")
    case False
    then show ?thesis using less.prems by (subst grow_table.simps) simp
  next
    case True
    then have "asyncIoTableSize st < 2048" using assms(2) by linarith
    from GrowAsyncTable_gives [OF less.prems this assms(3)] obtain s1 where s1: "GrowAsyncTable memory st = Some s1" "table_ok s1" "pending s1 = pending st"
      "asyncIoTableSize s1 = asyncIoTableSize st * 2" "FdSet s1 = FdSet st" "FdSetPost s1 = FdSetPost st" "numPosted s1 = numPosted st"
      "maxFd s1 = maxFd st" "asyncIoInUse s1 = asyncIoInUse st" .
    have "0 < asyncIoTableSize st" using less.prems by (simp add: table_ok_def)
    then have "nat (index + 1) - asyncIoTableSize s1 < nat (index + 1) - asyncIoTableSize st" using True s1(4) by linarith
    note step = less.hyps [OF this s1(2), unfolded s1(3,5-9)]
    have "grow_table memory index st = grow_table memory index s1" using True s1(1) by (subst grow_table.simps) simp
    then show ?thesis using step by simp
  qed
qed

lemma post_request_gives:
  assumes ok: "async_ok st" and fd: "fd_ok fd" "fd \<le> maxFd st" "aio_ix d fd < int (asyncIoTableSize st)" "pending st d fd = None"
  shows "\<exists>st'. post_request d fd offset buf len proc cd st = Some st' \<and> async_ok st' \<and> keeps st st' \<and> asyncIoInUse st' = asyncIoInUse st \<and>
    pending st' d fd = Some \<lparr>ai_procPtr = Some proc, ai_clientData = cd, ai_fd = fd, ai_len = len, ai_offset = offset, ai_buf = buf, ai_inUse = True\<rparr>"
proof -
  have "0 \<le> fd" "fd < FD_SETSIZE" using fd(1) by (simp_all add: fd_ok_def)
  then obtain e where e: "aio_at st d fd = Some e" using table_entry [OF async_okD(1) [OF ok]] fd(3) by blast
  have free: "\<not> ai_inUse e" using fd(4) e by (simp add: pending_def split: if_splits)
  let ?e = "\<lparr>ai_procPtr = Some proc, ai_clientData = cd, ai_fd = fd, ai_len = len, ai_offset = offset, ai_buf = buf, ai_inUse = True\<rparr>"
  from aio_put_gives [OF e, of ?e] obtain s1 where s1: "aio_put d fd ?e st = Some s1"
    "\<forall>d' fd'. aio_at s1 d' fd' = (if d' = d \<and> fd' = fd then Some ?e else aio_at st d' fd')"
    "FdSet s1 = FdSet st" "FdSetPost s1 = FdSetPost st" "numPosted s1 = numPosted st" "maxFd s1 = maxFd st"
    "table_ok st \<longrightarrow> table_ok s1" "asyncIoInUse s1 = asyncIoInUse st" "asyncIoTableSize s1 = asyncIoTableSize st" .
  let ?s = "s1\<lparr>FdSet := (FdSet s1)(d := insert fd (FdSet s1 d))\<rparr>"
  have at: "aio_at ?s d' fd' = aio_at s1 d' fd'" for d' fd' by (simp add: aio_at_def)
  have p: "pending ?s d' fd' = (if d' = d \<and> fd' = fd then Some ?e else pending st d' fd')" for d' fd'
    unfolding pending_def at using s1(2) by simp
  have notin: "fd \<notin> FdSetPost st d" using async_okD(4) [OF ok] fd(4) by fastforce
  have "async_ok ?s"
    unfolding async_ok_def
  proof (intro conjI)
    show "table_ok ?s" using s1(7) async_okD(1) [OF ok] by (simp add: table_ok_def)
    show "\<forall>d' fd'. pending ?s d' fd' \<noteq> None \<longleftrightarrow> fd' \<in> FdSet ?s d' \<union> FdSetPost ?s d'"
      unfolding p using ok by (auto simp: async_ok_def s1(3,4))
    show "\<forall>d' fd' e. pending ?s d' fd' = Some e \<longrightarrow> request_ok ?s d' fd' e"
      unfolding p using async_okD(2) [OF ok] fd by (auto simp: request_ok_def s1(6) split: if_splits)
    show "\<forall>d'. FdSet ?s d' \<inter> FdSetPost ?s d' = {} \<and> numPosted ?s d' = int (card (FdSetPost ?s d'))"
      using async_okD(5,6) [OF ok] notin by (auto simp: s1(3-5))
  qed
  moreover have "keeps st ?s" using fd(4) unfolding keeps_def p by (auto simp: s1(4,6))
  ultimately show ?thesis using e free s1(1,8) fd(1) p [of d fd] by (auto simp: post_request_def)
qed

lemma async_ok_cong:
  assumes "async_ok st" "table_ok st'" "pending st' = pending st" "FdSet st' = FdSet st" "FdSetPost st' = FdSetPost st"
    "numPosted st' = numPosted st" "maxFd st \<le> maxFd st'"
  shows "async_ok st'"
proof -
  have "request_ok st d fd e \<Longrightarrow> request_ok st' d fd e" for d fd e using assms(7) by (auto simp: request_ok_def)
  then show ?thesis using assms by (auto simp: async_ok_def)
qed

lemma async_start_gives:
  assumes ok: "async_ok st" and fd: "fd_ok fd" "pending st d fd = None" and memory: "\<forall>n \<le> 4096 * sizeof_AioInfo. memory n"
  shows "\<exists>st'. async_start memory d fd offset buf len proc cd st = Some st' \<and> async_ok st' \<and> keeps st st' \<and> asyncIoInUse st' \<and>
    pending st' d fd = Some \<lparr>ai_procPtr = Some proc, ai_clientData = cd, ai_fd = fd, ai_len = len, ai_offset = offset, ai_buf = buf, ai_inUse = True\<rparr>"
proof -
  let ?s = "st\<lparr>asyncIoInUse := True, maxFd := max fd (maxFd st)\<rparr>"
  have bounds: "aio_ix d fd < 2048" using aio_ix_bounds(2) fd(1) by (simp add: fd_ok_def)
  have p: "pending ?s = pending st" by (rule pending_cong) (simp add: aio_at_def)
  have t: "table_ok ?s" using async_okD(1) [OF ok] fd(1) by (auto simp: table_ok_def fd_ok_def)
  from grow_table_gives [OF t bounds memory] obtain s1 where s1: "grow_table memory (aio_ix d fd) ?s = Some s1" "table_ok s1" "pending s1 = pending ?s"
    "aio_ix d fd < int (asyncIoTableSize s1)" "FdSet s1 = FdSet st" "FdSetPost s1 = FdSetPost st" "numPosted s1 = numPosted st"
    "maxFd s1 = max fd (maxFd st)" "asyncIoInUse s1" by auto
  have ok1: "async_ok s1" using s1 p by (intro async_ok_cong [OF ok]) simp_all
  have k1: "keeps st s1" using s1 p by (simp add: keeps_def)
  have "fd \<le> maxFd s1" "pending s1 d fd = None" using s1 p fd(2) by simp_all
  from post_request_gives [OF ok1 fd(1) this(1) s1(4) this(2), of offset buf len proc cd]
  show ?thesis using s1(1,9) bounds keeps_trans [OF k1] by (auto simp: async_start_def)
qed

text \<open>Closing a descriptor whose operations are in the table.\<close>

lemma cancel_side_gives:
  assumes "aio_at st d fd = Some e"
  obtains st' where "cancel_side d fd st = Some st'" "\<forall>d' fd'. pending st' d' fd' = (if d' = d \<and> fd' = fd then None else pending st d' fd')"
    "\<forall>d'. aio_at st d' fd \<noteq> None \<longrightarrow> aio_at st' d' fd \<noteq> None"
    "\<forall>d'. FdSet st' d' = (if d' = d then FdSet st d - {fd} else FdSet st d')"
    "\<forall>d'. FdSetPost st' d' = (if d' = d then FdSetPost st d - {fd} else FdSetPost st d')" "numPosted st' = numPosted st"
    "maxFd st' = maxFd st" "table_ok st \<longrightarrow> table_ok st'" "asyncIoInUse st' = asyncIoInUse st"
proof -
  let ?cut = "\<lambda>s :: 'a async. s\<lparr>FdSet := (FdSet s)(d := FdSet s d - {fd}), FdSetPost := (FdSetPost s)(d := FdSetPost s d - {fd})\<rparr>"
  show ?thesis
  proof (cases "ai_inUse e")
    case True
    from aio_put_gives [OF assms, of "e\<lparr>ai_inUse := False\<rparr>"] obtain s1 where s1: "aio_put d fd (e\<lparr>ai_inUse := False\<rparr>) st = Some s1"
      "\<forall>d' fd'. aio_at s1 d' fd' = (if d' = d \<and> fd' = fd then Some (e\<lparr>ai_inUse := False\<rparr>) else aio_at st d' fd')"
      "FdSet s1 = FdSet st" "FdSetPost s1 = FdSetPost st" "numPosted s1 = numPosted st" "maxFd s1 = maxFd st"
      "table_ok st \<longrightarrow> table_ok s1" "asyncIoInUse s1 = asyncIoInUse st" "asyncIoTableSize s1 = asyncIoTableSize st" .
    show ?thesis
    proof (rule that [of "?cut s1"])
      show "cancel_side d fd st = Some (?cut s1)" using assms True s1(1) by (simp add: cancel_side_def)
      show "\<forall>d' fd'. pending (?cut s1) d' fd' = (if d' = d \<and> fd' = fd then None else pending st d' fd')"
        using s1(2) by (simp add: pending_def)
    qed (use s1 in simp_all)
  next
    case False
    show ?thesis
    proof (rule that [of "?cut st"])
      show "cancel_side d fd st = Some (?cut st)" using assms False by (simp add: cancel_side_def)
      show "\<forall>d' fd'. pending (?cut st) d' fd' = (if d' = d \<and> fd' = fd then None else pending st d' fd')"
        using assms False by (simp add: pending_def)
    qed simp_all
  qed
qed

lemma cancel_requests_gives:
  assumes ok: "async_ok st" and fd: "fd_ok fd" "2 * fd < int (asyncIoTableSize st)" and inuse: "asyncIoInUse st"
  obtains st' where "cancel_requests fd st = Some st'" "\<forall>d' fd'. pending st' d' fd' = (if fd' = fd then None else pending st d' fd')"
    "\<forall>d. FdSet st' d = FdSet st d - {fd}" "\<forall>d. FdSetPost st' d = FdSetPost st d - {fd}" "numPosted st' = numPosted st"
    "maxFd st' = (if maxFd st = fd then maxFd st - 1 else maxFd st)" "table_ok st'"
proof -
  have t: "table_ok st" using async_okD(1) [OF ok] .
  obtain n where "asyncIoTableSize st = 2 * n" using t by (auto simp: table_ok_def elim: evenE)
  then have "aio_ix d fd < int (asyncIoTableSize st)" for d using fd(2) by (cases d) simp_all
  then have at: "\<exists>e. aio_at st d fd = Some e" for d using table_entry [OF t] fd(1) by (auto simp: fd_ok_def)
  obtain e where "aio_at st Rd fd = Some e" using at by blast
  from cancel_side_gives [OF this] obtain s1 where s1: "cancel_side Rd fd st = Some s1"
    "\<forall>d' fd'. pending s1 d' fd' = (if d' = Rd \<and> fd' = fd then None else pending st d' fd')"
    "\<forall>d'. aio_at st d' fd \<noteq> None \<longrightarrow> aio_at s1 d' fd \<noteq> None"
    "\<forall>d'. FdSet s1 d' = (if d' = Rd then FdSet st Rd - {fd} else FdSet st d')"
    "\<forall>d'. FdSetPost s1 d' = (if d' = Rd then FdSetPost st Rd - {fd} else FdSetPost st d')" "numPosted s1 = numPosted st"
    "maxFd s1 = maxFd st" "table_ok st \<longrightarrow> table_ok s1" "asyncIoInUse s1 = asyncIoInUse st" .
  obtain e' where "aio_at s1 Wr fd = Some e'" using s1(3) at [of Wr] by auto
  from cancel_side_gives [OF this] obtain s2 where s2: "cancel_side Wr fd s1 = Some s2"
    "\<forall>d' fd'. pending s2 d' fd' = (if d' = Wr \<and> fd' = fd then None else pending s1 d' fd')"
    "\<forall>d'. aio_at s1 d' fd \<noteq> None \<longrightarrow> aio_at s2 d' fd \<noteq> None"
    "\<forall>d'. FdSet s2 d' = (if d' = Wr then FdSet s1 Wr - {fd} else FdSet s1 d')"
    "\<forall>d'. FdSetPost s2 d' = (if d' = Wr then FdSetPost s1 Wr - {fd} else FdSetPost s1 d')" "numPosted s2 = numPosted s1"
    "maxFd s2 = maxFd s1" "table_ok s1 \<longrightarrow> table_ok s2" "asyncIoInUse s2 = asyncIoInUse s1" .
  let ?s = "if maxFd s2 = fd then s2\<lparr>maxFd := maxFd s2 - 1\<rparr> else s2"
  have p: "pending ?s = pending s2" by simp
  show ?thesis
  proof (rule that [of ?s])
    show "cancel_requests fd st = Some ?s" using inuse fd(1) s1(1) s2(1) by (simp add: cancel_requests_def)
    show "\<forall>d' fd'. pending ?s d' fd' = (if fd' = fd then None else pending st d' fd')"
      unfolding p
    proof (intro allI)
      fix d' fd'
      show "pending s2 d' fd' = (if fd' = fd then None else pending st d' fd')" using s1(2) s2(2) by (cases d') simp_all
    qed
    have "FdSet s2 d = FdSet st d - {fd}" "FdSetPost s2 d = FdSetPost st d - {fd}" for d
      using s1(4,5) s2(4,5) by (cases d; simp)+
    then show "\<forall>d. FdSet ?s d = FdSet st d - {fd}" "\<forall>d. FdSetPost ?s d = FdSetPost st d - {fd}" by simp_all
    show "table_ok ?s" using t s1(8) s2(8) by (auto simp: table_ok_def)
  qed (use s1 s2 in auto)
qed

section \<open>Collecting what is ready\<close>

lemma collect_gives:
  assumes "\<forall>fd \<in> r \<union> v. 0 \<le> fd \<and> fd \<le> maxFd st" "\<forall>d. FdSetPost st d = {}"
  defines "ready \<equiv> \<lambda>d. case d of Rd \<Rightarrow> r | Wr \<Rightarrow> v"
  shows "\<forall>d. FdSetPost (collect r v st) d = ready d" "\<forall>d. FdSet (collect r v st) d = FdSet st d - ready d"
    "\<forall>d. numPosted (collect r v st) d = numPosted st d + int (card (ready d))" "maxFd (collect r v st) = maxFd st"
    "pending (collect r v st) = pending st" "table_ok (collect r v st) = table_ok st"
proof -
  let ?f = "\<lambda>fd. collect_side Wr v fd \<circ> collect_side Rd r fd"
  have step: "FdSetPost (fold ?f xs s) d = FdSetPost s d \<union> (ready d \<inter> set xs) \<and> FdSet (fold ?f xs s) d = FdSet s d - (ready d \<inter> set xs) \<and>
    numPosted (fold ?f xs s) d = numPosted s d + int (card (ready d \<inter> set xs)) \<and> maxFd (fold ?f xs s) = maxFd s \<and>
    asyncIoTable (fold ?f xs s) = asyncIoTable s \<and> asyncIoTableSize (fold ?f xs s) = asyncIoTableSize s"
    if "distinct xs" for xs d and s :: "'a async"
    using that
  proof (induction xs arbitrary: s)
    case Nil
    then show ?case by simp
  next
    case (Cons x xs)
    have one: "FdSetPost (?f x s) d = FdSetPost s d \<union> (ready d \<inter> {x})" "FdSet (?f x s) d = FdSet s d - (ready d \<inter> {x})"
      "numPosted (?f x s) d = numPosted s d + (if x \<in> ready d then 1 else 0)" "maxFd (?f x s) = maxFd s"
      "asyncIoTable (?f x s) = asyncIoTable s" "asyncIoTableSize (?f x s) = asyncIoTableSize s"
      by (cases d; simp add: collect_side_def ready_def)+
    have "int (card (ready d \<inter> set (x # xs))) = (if x \<in> ready d then 1 else 0) + int (card (ready d \<inter> set xs))"
      using Cons.prems by simp
    moreover define t where "t = ?f x s"
    moreover have "fold ?f (x # xs) s = fold ?f xs t" by (simp add: t_def)
    moreover note Cons.IH [of t] Cons.prems one [folded t_def]
    ultimately show ?case by (simp only: distinct.simps) auto
  qed
  have all: "ready d \<inter> set [0..maxFd st] = ready d" for d using assms(1) by (cases d) (auto simp: ready_def)
  note s = step [of "[0..maxFd st]", folded collect_def, OF distinct_upto, unfolded all]
  show "\<forall>d. FdSetPost (collect r v st) d = ready d" "\<forall>d. FdSet (collect r v st) d = FdSet st d - ready d"
    "\<forall>d. numPosted (collect r v st) d = numPosted st d + int (card (ready d))" "maxFd (collect r v st) = maxFd st"
    using s [of st] assms(2) unfolding collect_def by simp_all
  have "asyncIoTable (collect r v st) = asyncIoTable st" "asyncIoTableSize (collect r v st) = asyncIoTableSize st"
    using s [of st] unfolding collect_def by simp_all
  then show "pending (collect r v st) = pending st" "table_ok (collect r v st) = table_ok st"
    using s [of st] unfolding collect_def by (auto simp: pending_def aio_at_def table_ok_def fun_eq_iff)
qed

lemma collect_in_use: "asyncIoInUse (collect r v st) = asyncIoInUse st"
proof -
  have "asyncIoInUse (fold (\<lambda>fd. collect_side Wr v fd \<circ> collect_side Rd r fd) xs s) = asyncIoInUse s" for xs and s :: "'a async"
    by (induction xs arbitrary: s) (simp_all add: collect_side_def)
  then show ?thesis by (simp add: collect_def)
qed

lemma collect_ok:
  assumes ok: "async_ok st" and quiet: "\<forall>d. FdSetPost st d = {}" and ready: "r \<subseteq> FdSet st Rd" "v \<subseteq> FdSet st Wr"
  shows "async_ok (collect r v st)" "FdSetPost (collect r v st) = case_side r v"
    "\<forall>d. numPosted (collect r v st) d = int (card (case_side r v d))" "pending (collect r v st) = pending st"
proof -
  let ?c = "collect r v st"
  have "\<forall>fd \<in> r \<union> v. 0 \<le> fd \<and> fd \<le> maxFd st" using ready async_ok_fds(1) [OF ok] by fastforce
  note c = collect_gives [OF this quiet]
  have zero: "numPosted st d = 0" for d using async_okD(6) [OF ok, of d] quiet by simp
  have subset: "case_side r v d \<subseteq> FdSet st d" for d using ready by (cases d) simp_all
  show "FdSetPost ?c = case_side r v" using c(1) by (intro ext) simp
  show "\<forall>d. numPosted ?c d = int (card (case_side r v d))" using c(3) zero by simp
  show "pending ?c = pending st" by (rule c(5))
  show "async_ok ?c"
    unfolding async_ok_def
  proof (intro conjI)
    show "table_ok ?c" using c(6) async_okD(1) [OF ok] by simp
    show "\<forall>d fd. pending ?c d fd \<noteq> None \<longleftrightarrow> fd \<in> FdSet ?c d \<union> FdSetPost ?c d"
      using ok quiet subset c(1,2,5) by (auto simp: async_ok_def)
    show "\<forall>d fd e. pending ?c d fd = Some e \<longrightarrow> request_ok ?c d fd e"
      using async_okD(2) [OF ok] c(4,5) by (simp add: request_ok_def)
    show "\<forall>d. FdSet ?c d \<inter> FdSetPost ?c d = {} \<and> numPosted ?c d = int (card (FdSetPost ?c d))"
      using c(1,2,3) zero by auto
  qed
qed

section \<open>Dispatching\<close>

text \<open>
  A client whose callbacks, in a state that keeps the invariant, return, keep it and touch no other request; what they do
  to the world is \<open>react\<close>.
\<close>

locale async_client =
  fixes O1 :: "('p, 'w) async_os" and react :: "'p \<Rightarrow> u64 \<Rightarrow> int \<Rightarrow> 'w \<Rightarrow> 'w"
  assumes returns: "async_ok st \<Longrightarrow> \<exists>st'. ao_call O1 p c n (st, w) = Some (st', react p c n w) \<and> async_ok st' \<and> keeps st st'"

text \<open>A request that is performed, and a list of them in order.\<close>

definition perform_request :: "('p, 'w) async_os \<Rightarrow> ('p \<Rightarrow> u64 \<Rightarrow> int \<Rightarrow> 'w \<Rightarrow> 'w) \<Rightarrow> side \<Rightarrow> 'p AioInfo \<Rightarrow> 'w \<Rightarrow> 'w" where
  "perform_request O1 react d e w =
     (case ao_transfer O1 d (ai_fd e) (ai_buf e) (ai_len e) w of (n, w1) \<Rightarrow> react (the (ai_procPtr e)) (ai_clientData e) n w1)"

definition run_requests ::
  "('p, 'w) async_os \<Rightarrow> ('p \<Rightarrow> u64 \<Rightarrow> int \<Rightarrow> 'w \<Rightarrow> 'w) \<Rightarrow> (side \<Rightarrow> int \<Rightarrow> 'p AioInfo option) \<Rightarrow> (side \<times> int) list \<Rightarrow> 'w \<Rightarrow> 'w" where
  "run_requests O1 react pend ops w = fold (\<lambda>(d, fd) w. perform_request O1 react d (the (pend d fd)) w) ops w"

text \<open>By descriptor, reading before writing.\<close>

definition of_descriptor :: "int \<Rightarrow> (side \<Rightarrow> int set) \<Rightarrow> (side \<times> int) list" where
  "of_descriptor fd R = filter (\<lambda>(d, fd). fd \<in> R d) [(Rd, fd), (Wr, fd)]"

definition in_order :: "int \<Rightarrow> (side \<Rightarrow> int set) \<Rightarrow> (side \<times> int) list" where
  "in_order lo R = concat (map (\<lambda>fd. of_descriptor fd R) [lo..FD_SETSIZE - 1])"

lemma in_order_step:
  "fd < FD_SETSIZE \<Longrightarrow> in_order fd R = of_descriptor fd R @ in_order (fd + 1) R" "FD_SETSIZE \<le> fd \<Longrightarrow> in_order fd R = []"
  by (simp_all add: in_order_def upto_rec1)

lemma in_order_members: "(d, fd) \<in> set (in_order lo R) \<Longrightarrow> lo \<le> fd \<and> fd \<in> R d"
  by (auto simp: in_order_def of_descriptor_def split: if_splits)

lemma in_order_cong: "(\<And>d fd. lo \<le> fd \<Longrightarrow> fd \<in> R d \<longleftrightarrow> fd \<in> R' d) \<Longrightarrow> in_order lo R = in_order lo R'"
  unfolding in_order_def of_descriptor_def by (intro arg_cong [where f = concat] map_cong filter_cong) auto

lemma run_requests_append: "run_requests O1 react pend (xs @ ys) w = run_requests O1 react pend ys (run_requests O1 react pend xs w)"
  by (simp add: run_requests_def)

lemma run_requests_cong:
  "(\<And>d fd. (d, fd) \<in> set ops \<Longrightarrow> pend d fd = pend' d fd) \<Longrightarrow> run_requests O1 react pend ops w = run_requests O1 react pend' ops w"
  unfolding run_requests_def by (intro fold_cong) auto

context async_client
begin

lemma dispatch_side_step:
  assumes ok: "async_ok st"
  shows "\<exists>st'. dispatch_side O1 d fd (st, w) =
      Some (st', run_requests O1 react (pending st) (if fd \<in> FdSetPost st d then [(d, fd)] else []) w) \<and>
    async_ok st' \<and> maxFd st \<le> maxFd st' \<and> FdSetPost st' = (FdSetPost st)(d := FdSetPost st d - {fd}) \<and>
    (\<forall>d' fd' e. pending st d' fd' = Some e \<longrightarrow> \<not> (d' = d \<and> fd' = fd \<and> fd \<in> FdSetPost st d) \<longrightarrow> pending st' d' fd' = Some e)"
proof (cases "fd \<in> FdSetPost st d")
  case False
  then show ?thesis using ok by (intro exI [of _ st]) (simp add: dispatch_side_def run_requests_def)
next
  case True
  from async_okD(4) [OF ok True] obtain e where p: "pending st d fd = Some e" by blast
  then have e: "aio_at st d fd = Some e" "ai_inUse e" by (simp_all add: pending_at)
  have r: "request_ok st d fd e" using async_okD(2) [OF ok p] .
  obtain proc where proc: "ai_procPtr e = Some proc" using r by (auto simp: request_ok_def)
  obtain len w1 where io: "ao_transfer O1 d (ai_fd e) (ai_buf e) (ai_len e) w = (len, w1)" by (cases "ao_transfer O1 d (ai_fd e) (ai_buf e) (ai_len e) w") auto
  let ?e = "e\<lparr>ai_procPtr := None, ai_inUse := False\<rparr>"
  let ?s = "st\<lparr>numPosted := (numPosted st)(d := numPosted st d - 1), FdSetPost := (FdSetPost st)(d := FdSetPost st d - {fd})\<rparr>"
  have "aio_at ?s d fd = Some e" using e(1) by simp
  from aio_put_gives [OF this, of ?e] obtain s1 where s1: "aio_put d fd ?e ?s = Some s1"
    "\<forall>d' fd'. aio_at s1 d' fd' = (if d' = d \<and> fd' = fd then Some ?e else aio_at ?s d' fd')"
    "FdSet s1 = FdSet ?s" "FdSetPost s1 = FdSetPost ?s" "numPosted s1 = numPosted ?s" "maxFd s1 = maxFd ?s"
    "table_ok ?s \<longrightarrow> table_ok s1" "asyncIoInUse s1 = asyncIoInUse ?s" "asyncIoTableSize s1 = asyncIoTableSize ?s" .
  have p1: "pending s1 d' fd' = (if d' = d \<and> fd' = fd then None else pending st d' fd')" for d' fd'
    using s1(2) by (simp add: pending_def)
  have notin: "fd \<notin> FdSet st d" using async_okD(5) [OF ok] True by blast
  have "async_ok s1"
    unfolding async_ok_def
  proof (intro conjI)
    show "table_ok s1" using s1(7) async_okD(1) [OF ok] by simp
    show "\<forall>d' fd'. pending s1 d' fd' \<noteq> None \<longleftrightarrow> fd' \<in> FdSet s1 d' \<union> FdSetPost s1 d'"
      unfolding p1 s1(3,4) using ok notin by (auto simp: async_ok_def)
    show "\<forall>d' fd' e. pending s1 d' fd' = Some e \<longrightarrow> request_ok s1 d' fd' e"
      unfolding p1 using async_okD(2) [OF ok] s1(6) by (auto simp: request_ok_def split: if_splits)
    have "numPosted st d - 1 = int (card (FdSetPost st d - {fd}))"
    proof -
      have fin: "finite (FdSetPost st d)" using async_ok_fds(4) [OF ok] .
      then have "0 < card (FdSetPost st d)" using True by (auto simp: card_gt_0_iff)
      then show ?thesis using async_okD(6) [OF ok, of d] card_Diff_singleton [OF True] by simp
    qed
    then show "\<forall>d'. FdSet s1 d' \<inter> FdSetPost s1 d' = {} \<and> numPosted s1 d' = int (card (FdSetPost s1 d'))"
      using async_okD(5,6) [OF ok] by (auto simp: s1(3-5))
  qed
  from returns [OF this, of proc "ai_clientData e" len w1] obtain s2 where s2:
    "ao_call O1 proc (ai_clientData e) len (s1, w1) = Some (s2, react proc (ai_clientData e) len w1)" "async_ok s2" "keeps s1 s2"
    by blast
  have "dispatch_side O1 d fd (st, w) = Some (s2, run_requests O1 react (pending st) [(d, fd)] w)"
    using True e proc io s1(1) s2(1) by (simp add: dispatch_side_def run_requests_def perform_request_def p)
  moreover have "pending s2 d' fd' = Some e'" if "pending st d' fd' = Some e'" "\<not> (d' = d \<and> fd' = fd)" for d' fd' e'
    using that s2(3) p1 [of d' fd'] by (simp add: keeps_def)
  moreover have "FdSetPost s2 = (FdSetPost st)(d := FdSetPost st d - {fd})" "maxFd st \<le> maxFd s2" using s2(3) s1(4,6) by (simp_all add: keeps_def)
  ultimately show ?thesis using s2(2) True by (intro exI [of _ s2]) simp
qed

lemma dispatch_loop_runs:
  assumes "async_ok st" "\<forall>d. FdSetPost st d \<subseteq> {fd..}"
  shows "\<exists>st'. dispatch_loop O1 fd (st, w) = Some (st', run_requests O1 react (pending st) (in_order fd (FdSetPost st)) w) \<and>
    async_ok st' \<and> (\<forall>d. FdSetPost st' d = {}) \<and>
    (\<forall>d' fd' e. pending st d' fd' = Some e \<longrightarrow> fd' \<notin> FdSetPost st d' \<longrightarrow> pending st' d' fd' = Some e)"
  using assms
proof (induction "nat (FD_SETSIZE - fd)" arbitrary: st fd w rule: less_induct)
  case less
  note ok = less.prems(1)
  have top: "maxFd st < FD_SETSIZE" using async_okD(1) [OF ok] by (simp add: table_ok_def)
  show ?case
  proof (cases "fd \<le> maxFd st")
    case False
    then have none: "FdSetPost st d = {}" for d using async_ok_fds(2) [OF ok, of d] less.prems(2) by force
    have "in_order fd (FdSetPost st) = []" by (auto simp: in_order_def of_descriptor_def none)
    then show ?thesis using False ok none by (subst dispatch_loop.simps) (simp add: run_requests_def)
  next
    case True
    from dispatch_side_step [OF ok, of Rd fd w] obtain s1 w1 where s1: "dispatch_side O1 Rd fd (st, w) = Some (s1, w1)"
      "w1 = run_requests O1 react (pending st) (if fd \<in> FdSetPost st Rd then [(Rd, fd)] else []) w"
      "async_ok s1" "maxFd st \<le> maxFd s1" "FdSetPost s1 = (FdSetPost st)(Rd := FdSetPost st Rd - {fd})"
      "\<forall>d' fd' e. pending st d' fd' = Some e \<longrightarrow> \<not> (d' = Rd \<and> fd' = fd \<and> fd \<in> FdSetPost st Rd) \<longrightarrow> pending s1 d' fd' = Some e" by blast
    from dispatch_side_step [OF s1(3), of Wr fd w1] obtain s2 w2 where s2: "dispatch_side O1 Wr fd (s1, w1) = Some (s2, w2)"
      "w2 = run_requests O1 react (pending s1) (if fd \<in> FdSetPost s1 Wr then [(Wr, fd)] else []) w1"
      "async_ok s2" "maxFd s1 \<le> maxFd s2" "FdSetPost s2 = (FdSetPost s1)(Wr := FdSetPost s1 Wr - {fd})"
      "\<forall>d' fd' e. pending s1 d' fd' = Some e \<longrightarrow> \<not> (d' = Wr \<and> fd' = fd \<and> fd \<in> FdSetPost s1 Wr) \<longrightarrow> pending s2 d' fd' = Some e" by blast
    have post: "FdSetPost s2 d = FdSetPost st d - {fd}" for d using s1(5) s2(5) by (cases d) simp_all
    have wr: "fd \<in> FdSetPost s1 Wr \<longleftrightarrow> fd \<in> FdSetPost st Wr" using s1(5) by simp
    have kept: "pending s2 d' fd' = Some e" if "pending st d' fd' = Some e" "\<not> (fd' = fd \<and> fd \<in> FdSetPost st d')" for d' fd' e
      using that s1(6) s2(6) wr by (cases d') blast+
    have "\<forall>d. FdSetPost s2 d \<subseteq> {fd + 1..}" using less.prems(2) post by fastforce
    moreover have "nat (FD_SETSIZE - (fd + 1)) < nat (FD_SETSIZE - fd)" using True top by simp
    ultimately obtain s3 where s3: "dispatch_loop O1 (fd + 1) (s2, w2) =
        Some (s3, run_requests O1 react (pending s2) (in_order (fd + 1) (FdSetPost s2)) w2)" "async_ok s3" "\<forall>d. FdSetPost s3 d = {}"
      "\<forall>d' fd' e. pending s2 d' fd' = Some e \<longrightarrow> fd' \<notin> FdSetPost s2 d' \<longrightarrow> pending s3 d' fd' = Some e"
      using less.hyps [OF _ s2(3), of "fd + 1" w2] by blast
    have order: "in_order (fd + 1) (FdSetPost s2) = in_order (fd + 1) (FdSetPost st)" by (rule in_order_cong) (auto simp: post)
    have rest: "run_requests O1 react (pending s2) (in_order (fd + 1) (FdSetPost st)) w2 = run_requests O1 react (pending st) (in_order (fd + 1) (FdSetPost st)) w2"
    proof (rule run_requests_cong)
      fix d f assume "(d, f) \<in> set (in_order (fd + 1) (FdSetPost st))"
      then have f: "fd < f" "f \<in> FdSetPost st d" using in_order_members by fastforce+
      then show "pending s2 d f = pending st d f" using async_okD(4) [OF ok f(2)] kept [of d f] by auto
    qed
    have "w2 = run_requests O1 react (pending st) (of_descriptor fd (FdSetPost st)) w"
    proof -
      have "run_requests O1 react (pending s1) (if fd \<in> FdSetPost s1 Wr then [(Wr, fd)] else []) w1 =
          run_requests O1 react (pending st) (if fd \<in> FdSetPost st Wr then [(Wr, fd)] else []) w1"
        unfolding wr using async_okD(4) [OF ok, of fd Wr] s1(6) by (intro run_requests_cong) (auto split: if_splits)
      then show ?thesis unfolding s2(2) s1(2) by (simp add: of_descriptor_def run_requests_def)
    qed
    then have "run_requests O1 react (pending s2) (in_order (fd + 1) (FdSetPost s2)) w2 = run_requests O1 react (pending st) (in_order fd (FdSetPost st)) w"
      unfolding order rest using True top in_order_step(1) [of fd "FdSetPost st"] by (simp add: run_requests_append)
    then have "dispatch_loop O1 fd (st, w) = Some (s3, run_requests O1 react (pending st) (in_order fd (FdSetPost st)) w)"
      using True s1(1) s2(1) s3(1) by (subst dispatch_loop.simps) simp
    moreover have "pending s3 d' fd' = Some e" if "pending st d' fd' = Some e" "fd' \<notin> FdSetPost st d'" for d' fd' e
      using that kept [of d' fd' e] s3(4) post by auto
    ultimately show ?thesis using s3(2,3) by blast
  qed
qed

end

section \<open>What the library does\<close>

lemma OS_LibInit_ok:
  assumes "memory (16 * sizeof_AioInfo)"
  shows "fst (OS_LibInit memory async_initial) = 0" "async_ok (snd (OS_LibInit memory async_initial))"
    "FdSetPost (snd (OS_LibInit memory async_initial)) d = {}" "pending (snd (OS_LibInit memory async_initial)) d fd = None"
proof -
  let ?s = "snd (OS_LibInit memory async_initial)"
  have s: "?s = async_initial\<lparr>asyncIoTable := Some (replicate 16 empty_aio), FdSet := (\<lambda>_. {}), FdSetPost := (\<lambda>_. {}), libInitialized := True\<rparr>"
    using assms by (simp add: OS_LibInit_def async_initial_def)
  show none: "pending ?s d fd = None" for d fd
    unfolding s by (rule pending_empty) (simp add: aio_at_def async_initial_def)
  show "fst (OS_LibInit memory async_initial) = 0" using assms by (simp add: OS_LibInit_def async_initial_def)
  show "FdSetPost ?s d = {}" by (simp add: s)
  show "async_ok ?s" unfolding async_ok_def none unfolding s
    by (simp add: async_initial_def table_ok_def FD_SETSIZE_def)
qed

text \<open>
  C35. With callbacks that return and may start further operations, \<open>OS_DoIo\<close> performs exactly the requests of the
  descriptors that the system reports as ready, each once, with the parameters it was made with and before its callback,
  by descriptor and reading before writing; the other requests stay, and nothing is left over.
\<close>

theorem async_io_completes:
  assumes client: "async_client O1 react" and ok: "async_ok st" and quiet: "\<forall>d. FdSetPost st d = {}"
    and ready: "ao_select O1 (maxFd st + 1) (FdSet st Rd) (FdSet st Wr) w = (Some (r, v), w1)" "r \<subseteq> FdSet st Rd" "v \<subseteq> FdSet st Wr"
  shows "\<exists>st'. OS_DoIo O1 (st, w) = Some (0, st', run_requests O1 react (pending st) (in_order 0 (case_side r v)) w1) \<and>
    async_ok st' \<and> (\<forall>d. FdSetPost st' d = {}) \<and>
    (\<forall>d fd e. pending st d fd = Some e \<longrightarrow> fd \<notin> case_side r v d \<longrightarrow> pending st' d fd = Some e)"
proof -
  let ?s = "st\<lparr>asyncIoInUse := True\<rparr>"
  let ?c = "collect r v ?s"
  have ok_s: "async_ok ?s" by (rule async_ok_cong [OF ok]) (simp_all add: async_okD(1) [OF ok])
  have copies: "select_copy ?s d = FdSet st d" for d using async_ok_fds(1) [OF ok, of d] by (auto simp: select_copy_def)
  have zero: "numPosted st d = 0" for d using async_okD(6) [OF ok, of d] quiet by simp
  have subset: "case_side r v d \<subseteq> FdSet st d" for d using ready(2,3) by (cases d) simp_all
  have fin: "finite (case_side r v d)" for d using subset async_ok_fds(3) [OF ok] finite_subset by blast
  have c: "async_ok ?c" "FdSetPost ?c = case_side r v" "\<forall>d. numPosted ?c d = int (card (case_side r v d))" "pending ?c = pending st"
    using collect_ok [OF ok_s, of r v] quiet ready(2,3) by simp_all
  have start: "OS_DoIo O1 (st, w) = (if nothing_posted ?c then Some (0, ?c, w1)
      else do { (st2, w2) \<leftarrow> dispatch_loop O1 0 (?c, w1); Some (0, st2, w2) })"
    using zero ready(1) by (simp add: OS_DoIo_def nothing_posted_def copies Let_def)
  show ?thesis
  proof (cases "nothing_posted ?c")
    case True
    then have "card r = 0" "card v = 0" using c(3) by (simp_all add: nothing_posted_def)
    then have "case_side r v d = {}" for d using fin [of Rd] fin [of Wr] by (cases d) simp_all
    moreover from this have "in_order 0 (case_side r v) = []" by (auto simp: in_order_def of_descriptor_def)
    ultimately show ?thesis using start True c by (simp add: run_requests_def)
  next
    case False
    have "\<forall>d. FdSetPost ?c d \<subseteq> {0..}" using c(2) subset async_ok_fds(1) [OF ok] by fastforce
    from async_client.dispatch_loop_runs [OF client c(1) this, of w1] show ?thesis
      using False by (auto simp: start c(2,4))
  qed
qed

text \<open>A request that is posted when its descriptor is closed stays in the count of what is posted.\<close>

definition stalled :: "'p async \<Rightarrow> bool" where
  "stalled st = (\<not> nothing_posted st \<and> (\<forall>d. FdSetPost st d = {}))"

lemma dispatch_loop_idle: "\<forall>d. FdSetPost st d = {} \<Longrightarrow> dispatch_loop O1 fd (st, w) = Some (st, w)"
proof (induction "nat (maxFd st + 1 - fd)" arbitrary: fd rule: less_induct)
  case less
  then show ?case by (subst dispatch_loop.simps) (simp add: dispatch_side_def)
qed

lemma OS_DoIo_stalled: "stalled st \<Longrightarrow> OS_DoIo O1 (st, w) = Some (0, st\<lparr>asyncIoInUse := True\<rparr>, w)"
  by (auto simp: OS_DoIo_def stalled_def nothing_posted_def dispatch_loop_idle Let_def)

lemma grow_table_posts:
  assumes "grow_table memory index st = Some st'"
  shows "FdSetPost st' = FdSetPost st \<and> numPosted st' = numPosted st"
proof (rule grow_table.raw_induct [where P = "\<lambda>_ _ s s'. FdSetPost s' = FdSetPost s \<and> numPosted s' = numPosted s", OF _ assms])
  fix grow and memory :: "nat \<Rightarrow> bool" and index and s s' :: "'a async"
  assume IH: "\<And>memory index s s'. grow memory index s = Some s' \<Longrightarrow> FdSetPost s' = FdSetPost s \<and> numPosted s' = numPosted s"
    and body: "(if int (asyncIoTableSize s) \<le> index then GrowAsyncTable memory s \<bind> grow memory index else Some s) = Some s'"
  have "FdSetPost s1 = FdSetPost s \<and> numPosted s1 = numPosted s" if "GrowAsyncTable memory s = Some s1" for s1
    using that by (auto simp: GrowAsyncTable_def split: if_splits bind_splits)
  then show "FdSetPost s' = FdSetPost s \<and> numPosted s' = numPosted s"
    using IH body by (fastforce split: if_splits bind_splits)
qed

lemma async_start_posts:
  assumes "async_start memory d fd offset buf len proc cd st = Some st'"
  shows "FdSetPost st' = FdSetPost st \<and> numPosted st' = numPosted st"
proof -
  obtain s1 where "grow_table memory (aio_ix d fd) (st\<lparr>asyncIoInUse := True, maxFd := max fd (maxFd st)\<rparr>) = Some s1"
    "post_request d fd offset buf len proc cd s1 = Some st'"
    using assms by (auto simp: async_start_def split: if_splits bind_splits)
  then show ?thesis using grow_table_posts by (fastforce simp: post_request_def aio_put_def split: if_splits bind_splits)
qed

text \<open>Further calls: requests and rounds of \<open>OS_DoIo\<close>.\<close>

datatype 'p async_call = Start_read int u64 int 'p u64 | Start_write int u64 int 'p u64 | Do_io

fun async_run :: "('p, 'w) async_os \<Rightarrow> (nat \<Rightarrow> bool) \<Rightarrow> 'p async_call list \<Rightarrow> 'p async \<times> 'w \<Rightarrow> ('p async \<times> 'w) option" where
  "async_run O1 memory [] \<sigma> = Some \<sigma>"
| "async_run O1 memory (Start_read fd buf len proc cd # cs) (st, w) = do {
     st1 \<leftarrow> OS_AsyncRead memory fd 0 buf len proc cd st; async_run O1 memory cs (st1, w) }"
| "async_run O1 memory (Start_write fd buf len proc cd # cs) (st, w) = do {
     st1 \<leftarrow> OS_AsyncWrite memory fd 0 buf len proc cd st; async_run O1 memory cs (st1, w) }"
| "async_run O1 memory (Do_io # cs) \<sigma> = do { (_, \<sigma>1) \<leftarrow> OS_DoIo O1 \<sigma>; async_run O1 memory cs \<sigma>1 }"

lemma async_run_stalled:
  "stalled st \<Longrightarrow> async_run O1 memory cs (st, w) = Some (st', w') \<Longrightarrow> stalled st' \<and> w' = w"
proof (induction cs arbitrary: st)
  case (Cons c cs)
  have moved: "stalled s1" if "async_start memory d fd offset buf len proc cd st = Some s1" for d fd offset buf len proc cd s1
    using async_start_posts [OF that] Cons.prems(1) by (simp add: stalled_def nothing_posted_def)
  show ?case
  proof (cases c)
    case (Start_read fd buf len proc cd)
    then obtain s1 where s1: "OS_AsyncRead memory fd 0 buf len proc cd st = Some s1" "async_run O1 memory cs (s1, w) = Some (st', w')"
      using Cons.prems(2) by (auto split: bind_splits)
    have "async_start memory Rd fd 0 buf len proc cd st = Some s1" using s1(1) by (simp add: OS_AsyncRead_def split: if_splits)
    then show ?thesis using Cons.IH [OF moved s1(2)] by blast
  next
    case (Start_write fd buf len proc cd)
    then obtain s1 where s1: "OS_AsyncWrite memory fd 0 buf len proc cd st = Some s1" "async_run O1 memory cs (s1, w) = Some (st', w')"
      using Cons.prems(2) by (auto split: bind_splits)
    have "async_start memory Wr fd 0 buf len proc cd st = Some s1" using s1(1) by (simp add: OS_AsyncWrite_def split: if_splits)
    then show ?thesis using Cons.IH [OF moved s1(2)] by blast
  next
    case Do_io
    have "stalled (st\<lparr>asyncIoInUse := True\<rparr>)" using Cons.prems(1) by (simp add: stalled_def nothing_posted_def)
    then show ?thesis using Do_io Cons OS_DoIo_stalled [OF Cons.prems(1), of O1 w] by simp
  qed
qed simp

text \<open>
  C36. When a callback closes the last descriptor that was reported as ready and whose request is still to be done, no
  asynchronous operation is ever done again: whatever is requested afterwards, every \<open>OS_DoIo\<close> returns at once, without
  asking the system.
\<close>

theorem async_close_stalls:
  assumes ok: "async_ok st" "asyncIoInUse st" and last: "FdSetPost st = (\<lambda>_. {})(d := {fd})"
  shows "\<exists>st1. cancel_requests fd st = Some st1 \<and>
    (\<forall>memory cs st2 w2. async_run O1 memory cs (st1, w) = Some (st2, w2) \<longrightarrow>
       w2 = w \<and> OS_DoIo O1 (st2, w2) = Some (0, st2\<lparr>asyncIoInUse := True\<rparr>, w2))"
proof -
  have mem: "fd \<in> FdSetPost st d" using last by simp
  then obtain e where e: "pending st d fd = Some e" using async_okD(4) [OF ok(1)] by blast
  have fd: "fd_ok fd" using async_okD(2) [OF ok(1) e] by (simp add: request_ok_def)
  have t: "table_ok st" using async_okD(1) [OF ok(1)] .
  have "aio_at st d fd \<noteq> None" using e by (auto simp: pending_at)
  then have "aio_ix d fd < int (asyncIoTableSize st)" using t by (auto simp: aio_at_def table_ok_def split: if_splits)
  then have "2 * fd < int (asyncIoTableSize st)" by (cases d) simp_all
  from cancel_requests_gives [OF ok(1) fd this ok(2)] obtain s1 where s1: "cancel_requests fd st = Some s1"
    "\<forall>d'. FdSetPost s1 d' = FdSetPost st d' - {fd}" "numPosted s1 = numPosted st" by metis
  have "numPosted s1 d = 1" using s1(3) async_okD(6) [OF ok(1), of d] last by simp
  then have "stalled s1" using s1(2) last by (cases d) (auto simp: stalled_def nothing_posted_def)
  have "w2 = w \<and> OS_DoIo O1 (st2, w2) = Some (0, st2\<lparr>asyncIoInUse := True\<rparr>, w2)"
    if "async_run O1 memory cs (s1, w) = Some (st2, w2)" for memory cs st2 w2
    using async_run_stalled [OF \<open>stalled s1\<close> that] OS_DoIo_stalled [of st2 O1 w2] by blast
  then show ?thesis using s1(1) by blast
qed

text \<open>A descriptor that is beyond the table cannot be closed once asynchronous operations are used.\<close>

lemma close_beyond_table:
  assumes "asyncIoInUse st" "async_ok st" "int (asyncIoTableSize st) \<le> 2 * fd"
  shows "OS_Close_async L fd (st, w) = None"
proof -
  have t: "table_ok st" using async_okD(1) [OF assms(2)] .
  have "aio_at st Rd fd = None" using t assms(3) by (auto simp: aio_at_def table_ok_def)
  then have "cancel_side Rd fd st = None" by (simp add: cancel_side_def)
  moreover have "fd \<noteq> -1" using assms(3) by linarith
  ultimately show ?thesis using assms(1) by (simp add: OS_Close_async_def cancel_requests_def)
qed

text \<open>Without them it is closed as the synchronous part of the library takes it.\<close>

lemma close_without_requests:
  "\<not> asyncIoInUse st \<Longrightarrow> OS_Close_async L fd (st, w) = map_option (\<lambda>(r, w1). (r, st, w1)) (OS_Close L fd w)"
  by (cases "OS_Close L fd w") (auto simp: OS_Close_async_def cancel_requests_def, auto simp: OS_Close_def)

section \<open>A client\<close>

text \<open>
  A client whose callbacks hand what was read on to another descriptor: the callback \<open>k\<close> writes the buffer that its data
  name to the descriptor \<open>k\<close>, when there is one and it is free. In the system all descriptors are always ready.
\<close>

definition relay_os :: "(int, (side \<times> int) list) async_os" where
  "relay_os =
     \<lparr>ao_select = \<lambda>_ r v w. (Some (r, v), w), ao_transfer = \<lambda>d fd _ len w. (len, w @ [(d, fd)]), ao_shutdown = \<lambda>_ _ w. (0, w),
      ao_call = \<lambda>k c n (st, w).
        if fd_ok k \<and> pending st Wr k = None
        then map_option (\<lambda>st1. (st1, w)) (OS_AsyncWrite (\<lambda>_. True) k 0 c n (-1) 0 st) else Some (st, w)\<rparr>"

interpretation relay: async_client relay_os "\<lambda>_ _ _ w. w"
proof
  fix st :: "int async" and p c n and w :: "(side \<times> int) list"
  assume ok: "async_ok st"
  show "\<exists>st'. ao_call relay_os p c n (st, w) = Some (st', w) \<and> async_ok st' \<and> keeps st st'"
    using ok keeps_refl async_start_gives [OF ok, of p Wr "\<lambda>_. True" 0 c n "-1" 0]
    by (auto simp: relay_os_def OS_AsyncWrite_def)
qed

lemma in_order_one: "fd_ok fd \<Longrightarrow> in_order 0 (case_side {fd} {}) = [(Rd, fd)]"
proof -
  assume fd: "fd_ok fd"
  have split: "[0..FD_SETSIZE - 1] = [0..fd - 1] @ fd # [fd + 1..FD_SETSIZE - 1]"
    using fd upto_split1 [of 0 fd "FD_SETSIZE - 1"] upto_split3 [of 0 fd "FD_SETSIZE - 1"] by (simp add: fd_ok_def)
  have none: "of_descriptor f (case_side {fd} {}) = []" if "f \<noteq> fd" for f using that by (simp add: of_descriptor_def)
  have "concat (map (\<lambda>f. of_descriptor f (case_side {fd} {})) xs) = []" if "fd \<notin> set xs" for xs
    using that none by (induction xs) auto
  from this [of "[0..fd - 1]"] this [of "[fd + 1..FD_SETSIZE - 1]"]
  have "concat (map (\<lambda>f. of_descriptor f (case_side {fd} {})) [0..fd - 1]) = []"
    "concat (map (\<lambda>f. of_descriptor f (case_side {fd} {})) [fd + 1..FD_SETSIZE - 1]) = []" by auto
  moreover have "of_descriptor fd (case_side {fd} {}) = [(Rd, fd)]" by (simp add: of_descriptor_def)
  ultimately show ?thesis unfolding in_order_def split
    by (simp only: map_append list.map concat_append concat.simps append_Nil append_Nil2)
qed

lemma relay_start:
  obtains st where "OS_AsyncRead (\<lambda>_. True) 3 0 0 10 5 0 (snd (OS_LibInit (\<lambda>_. True) async_initial)) = Some (st :: int async)"
    "async_ok st" "\<forall>d. FdSetPost st d = {}" "FdSet st Rd = {3}" "FdSet st Wr = {}" "asyncIoInUse st"
    "pending st Rd 3 = Some \<lparr>ai_procPtr = Some 5, ai_clientData = 0, ai_fd = 3, ai_len = 10, ai_offset = 0, ai_buf = 0, ai_inUse = True\<rparr>"
proof -
  let ?s = "snd (OS_LibInit (\<lambda>_. True) async_initial) :: int async"
  note init = OS_LibInit_ok [of "\<lambda>_. True", OF TrueI]
  have fd: "fd_ok 3" by (simp add: fd_ok_def FD_SETSIZE_def)
  have read: "OS_AsyncRead (\<lambda>_. True) 3 0 0 10 5 0 ?s = async_start (\<lambda>_. True) Rd 3 0 0 10 5 0 ?s"
    by (simp add: OS_AsyncRead_def OS_LibInit_def async_initial_def)
  from async_start_gives [OF init(2) fd init(4) [of Rd 3], where memory = "\<lambda>_. True" and offset = 0 and buf = 0 and len = 10 and proc = 5 and cd = 0] obtain st where st:
    "async_start (\<lambda>_. True) Rd 3 0 0 10 5 0 ?s = Some st" "async_ok st" "keeps ?s st" "asyncIoInUse st"
    "pending st Rd 3 = Some \<lparr>ai_procPtr = Some 5, ai_clientData = 0, ai_fd = 3, ai_len = 10, ai_offset = 0, ai_buf = 0, ai_inUse = True\<rparr>"
    by auto
  have "FdSet st = (\<lambda>_. {})(Rd := {3})" "FdSetPost st = (\<lambda>_. {})"
    using st(1) by (auto simp: async_start_def post_request_def aio_put_def OS_LibInit_def async_initial_def grow_table.simps split: if_splits bind_splits)
  then show ?thesis using st read by (intro that [of st]) simp_all
qed

theorem async_io_completes_witness:
  "\<exists>st st'. OS_AsyncRead (\<lambda>_. True) 3 0 0 10 5 0 (snd (OS_LibInit (\<lambda>_. True) async_initial)) = Some st \<and>
     OS_DoIo relay_os (st, []) = Some (0, st', [(Rd, 3)]) \<and> async_ok st'"
proof -
  obtain st where st: "OS_AsyncRead (\<lambda>_. True) 3 0 0 10 5 0 (snd (OS_LibInit (\<lambda>_. True) async_initial)) = Some (st :: int async)"
    "async_ok st" "\<forall>d. FdSetPost st d = {}" "FdSet st Rd = {3}" "FdSet st Wr = {}" "asyncIoInUse st"
    "pending st Rd 3 = Some \<lparr>ai_procPtr = Some 5, ai_clientData = 0, ai_fd = 3, ai_len = 10, ai_offset = 0, ai_buf = 0, ai_inUse = True\<rparr>"
    by (rule relay_start)
  have ready: "ao_select relay_os (maxFd st + 1) (FdSet st Rd) (FdSet st Wr) [] = (Some ({3}, {}), [])" "{3} \<subseteq> FdSet st Rd" "{} \<subseteq> FdSet st Wr"
    by (simp_all add: relay_os_def st)
  have "in_order 0 (case_side {3} {}) = [(Rd, 3)]" by (rule in_order_one) (simp add: fd_ok_def FD_SETSIZE_def)
  then show ?thesis using async_io_completes [OF relay.async_client_axioms st(2,3) ready] st(1)
    by (auto simp: run_requests_def perform_request_def st(7) relay_os_def)
qed

theorem async_close_stalls_witness:
  "\<exists>st st1. OS_AsyncRead (\<lambda>_. True) 3 0 0 10 5 0 (snd (OS_LibInit (\<lambda>_. True) async_initial)) = Some st \<and>
     cancel_requests 3 (collect {3} {} st) = Some st1 \<and>
     async_run relay_os (\<lambda>_. True) [Do_io, Do_io] (st1, []) = Some (st1\<lparr>asyncIoInUse := True\<rparr>, [])"
proof -
  obtain st where st: "OS_AsyncRead (\<lambda>_. True) 3 0 0 10 5 0 (snd (OS_LibInit (\<lambda>_. True) async_initial)) = Some (st :: int async)"
    "async_ok st" "\<forall>d. FdSetPost st d = {}" "FdSet st Rd = {3}" "FdSet st Wr = {}" "asyncIoInUse st"
    "pending st Rd 3 = Some \<lparr>ai_procPtr = Some 5, ai_clientData = 0, ai_fd = 3, ai_len = 10, ai_offset = 0, ai_buf = 0, ai_inUse = True\<rparr>"
    by (rule relay_start)
  have r: "{3} \<subseteq> FdSet st Rd" "{} \<subseteq> FdSet st Wr" by (simp_all add: st)
  note c = collect_ok [OF st(2,3) r]
  have post: "FdSetPost (collect {3} {} st) = (\<lambda>_. {})(Rd := {3})" unfolding c(2) by (intro ext) (simp split: side.splits)
  have used: "asyncIoInUse (collect {3} {} st)" by (simp add: collect_in_use st(6))
  from async_close_stalls [OF c(1) used post, of relay_os "[]"] obtain st1 where st1: "cancel_requests 3 (collect {3} {} st) = Some st1"
    and run: "\<And>memory cs st2 w2. async_run relay_os memory cs (st1, []) = Some (st2, w2) \<Longrightarrow>
      w2 = [] \<and> OS_DoIo relay_os (st2, w2) = Some (0, st2\<lparr>asyncIoInUse := True\<rparr>, w2)"
    by blast
  have 1: "OS_DoIo relay_os (st1, []) = Some (0, st1\<lparr>asyncIoInUse := True\<rparr>, [])" using run [of "\<lambda>_. True" "[]"] by simp
  have "OS_DoIo relay_os (st1\<lparr>asyncIoInUse := True\<rparr>, []) = Some (0, st1\<lparr>asyncIoInUse := True\<rparr>, [])"
    using run [of "\<lambda>_. True" "[Do_io]"] 1 by simp
  then show ?thesis using st(1) st1 1 by simp
qed

end
