(* ===== verification/LA_Uthash.thy ===== *)
theory LA_Uthash
  imports LA_Prelude "HOL-Library.Multiset"
begin

unbundle bit_operations_syntax

text \<open>
  The hash tables of \<open>utils/uthash.h\<close> as the driver registry and the cache of databases use them: Jenkins' hash, finding,
  adding, deleting, the doubling of the buckets, and the check of the integrity. The structures are on an
  explicit heap, since the keys of both tables are bytes of the structures themselves, links included. A handle
  is named by the address of its structure (\<open>ELMT_FROM_HH\<close> is the identity), 0 is NULL, and reading through NULL
  or outside a structure is \<open>None\<close>, as is the exit of the process when a table cannot be allocated.
\<close>

section \<open>The structures\<close>

type_synonym u32 = "32 word"

record UT_hash_handle =
  hh_tbl :: nat
  hh_prev_elt :: nat
  hh_next_elt :: nat
  hh_prev :: nat
  hh_next :: nat
  hh_key :: nat
  hh_keylen :: nat
  hh_hashv :: u32

record UT_hash_bucket =
  hh_head :: nat
  bkt_count :: nat
  expand_mult :: nat

record UT_hash_table =
  tbl_addr :: nat
  buckets :: "UT_hash_bucket list"
  num_buckets :: nat
  log2_num_buckets :: nat
  num_items :: nat
  tbl_tail :: nat
  ideal_chain_maxlen :: nat
  nonideal_items :: nat
  ineff_expands :: nat
  noexpand :: nat

text \<open>A structure with a handle, the heap of such structures, and a table: its head and what the head points to.\<close>

record 'a ut_elt =
  hh :: UT_hash_handle
  payload :: 'a

type_synonym 'a ut_heap = "nat \<Rightarrow> 'a ut_elt option"

record 'a ut_hash =
  ut_elts :: "'a ut_heap"
  ut_head :: nat
  ut_table :: "UT_hash_table option"

definition HASH_INITIAL_NUM_BUCKETS :: nat where "HASH_INITIAL_NUM_BUCKETS = 32"
definition HASH_INITIAL_NUM_BUCKETS_LOG2 :: nat where "HASH_INITIAL_NUM_BUCKETS_LOG2 = 5"
definition HASH_BKT_CAPACITY_THRESH :: nat where "HASH_BKT_CAPACITY_THRESH = 10"
definition sizeof_UT_hash_table :: nat where "sizeof_UT_hash_table = 64"
definition sizeof_UT_hash_bucket :: nat where "sizeof_UT_hash_bucket = 16"

abbreviation wrap32 :: "nat \<Rightarrow> nat" where "wrap32 n \<equiv> n mod 2 ^ 32"

definition upd_hh :: "nat \<Rightarrow> (UT_hash_handle \<Rightarrow> UT_hash_handle) \<Rightarrow> 'a ut_heap \<Rightarrow> 'a ut_heap option" where
  "upd_hh p f E = (case E p of None \<Rightarrow> None | Some x \<Rightarrow> Some (E(p \<mapsto> x\<lparr>hh := f (hh x)\<rparr>)))"

section \<open>Jenkins' hash\<close>

text \<open>The bytes are \<open>char\<close>s, which are signed.\<close>

definition jen_char :: "byte list \<Rightarrow> nat \<Rightarrow> nat \<Rightarrow> u32" where
  "jen_char k i s = push_bit s (scast (k ! i))"

definition jen_word :: "byte list \<Rightarrow> nat \<Rightarrow> u32" where
  "jen_word k i = jen_char k i 0 + jen_char k (i + 1) 8 + jen_char k (i + 2) 16 + jen_char k (i + 3) 24"

definition HASH_JEN_MIX :: "u32 \<Rightarrow> u32 \<Rightarrow> u32 \<Rightarrow> u32 \<times> u32 \<times> u32" where
  "HASH_JEN_MIX a b c =
     (let a = a - b - c XOR drop_bit 13 c; b = b - c - a XOR push_bit 8 a; c = c - a - b XOR drop_bit 13 b;
          a = a - b - c XOR drop_bit 12 c; b = b - c - a XOR push_bit 16 a; c = c - a - b XOR drop_bit 5 b;
          a = a - b - c XOR drop_bit 3 c; b = b - c - a XOR push_bit 10 a; c = c - a - b XOR drop_bit 15 b
      in (a, b, c))"

function jen_loop :: "u32 \<Rightarrow> u32 \<Rightarrow> u32 \<Rightarrow> byte list \<Rightarrow> (u32 \<times> u32 \<times> u32) \<times> byte list" where
  "jen_loop i j h k =
     (if 12 \<le> length k
      then (case HASH_JEN_MIX (i + jen_word k 0) (j + jen_word k 4) (h + jen_word k 8) of
              (i1, j1, h1) \<Rightarrow> jen_loop i1 j1 h1 (drop 12 k))
      else ((i, j, h), k))"
  by pat_completeness auto
termination by (relation "measure (\<lambda>(i, j, h, k). length k)") auto

declare jen_loop.simps [simp del]

text \<open>The switch over the number of bytes that are left, which falls through.\<close>

definition jen_rest :: "byte list \<Rightarrow> nat \<Rightarrow> nat \<Rightarrow> u32" where
  "jen_rest k i s = (if i < length k then jen_char k i s else 0)"

definition HASH_JEN :: "byte list \<Rightarrow> u32" where
  "HASH_JEN key =
     (case jen_loop 0x9e3779b9 0x9e3779b9 0xfeedbeef key of
        ((i, j, h), k) \<Rightarrow>
          (case HASH_JEN_MIX
                  (i + (jen_rest k 3 24 + jen_rest k 2 16 + jen_rest k 1 8 + jen_rest k 0 0))
                  (j + (jen_rest k 7 24 + jen_rest k 6 16 + jen_rest k 5 8 + jen_rest k 4 0))
                  (h + word_of_nat (length key) + (jen_rest k 10 24 + jen_rest k 9 16 + jen_rest k 8 8)) of
             (_, _, hashv) \<Rightarrow> hashv))"

definition HASH_TO_BKT :: "u32 \<Rightarrow> nat \<Rightarrow> nat" where
  "HASH_TO_BKT hashv num_bkts = unat (hashv AND (word_of_nat num_bkts - 1))"

section \<open>Finding\<close>

text \<open>
  \<open>K\<close> gives the bytes of a structure from the member on that is taken for its key: as far as they can be
  compared, they are the contents at the time of the comparison.
\<close>

definition key_is :: "('a ut_elt \<Rightarrow> byte list) \<Rightarrow> byte list \<Rightarrow> 'a ut_elt \<Rightarrow> bool option" where
  "key_is K name x =
     (if hh_keylen (hh x) \<noteq> length name then Some False
      else if length (K x) < length name then None
      else Some (take (length name) (K x) = name))"

partial_function (option) HASH_FIND_IN_BKT :: "('a ut_elt \<Rightarrow> byte list) \<Rightarrow> 'a ut_heap \<Rightarrow> byte list \<Rightarrow> nat \<Rightarrow> nat option" where
  "HASH_FIND_IN_BKT K E name out =
     (if out = 0 then Some 0
      else Option.bind (E out) (\<lambda>x. Option.bind (key_is K name x) (\<lambda>found.
             if found then Some out else HASH_FIND_IN_BKT K E name (hh_next (hh x)))))"

declare HASH_FIND_IN_BKT.simps [code]

definition bucket_at :: "UT_hash_bucket list \<Rightarrow> nat \<Rightarrow> UT_hash_bucket option" where
  "bucket_at bs i = (if i < length bs then Some (bs ! i) else None)"

definition HASH_FIND :: "('a ut_elt \<Rightarrow> byte list) \<Rightarrow> 'a ut_hash \<Rightarrow> byte list \<Rightarrow> nat option" where
  "HASH_FIND K U name =
     (if ut_head U = 0 then Some 0
      else do {
        t \<leftarrow> ut_table U;
        b \<leftarrow> bucket_at (buckets t) (HASH_TO_BKT (HASH_JEN name) (num_buckets t));
        HASH_FIND_IN_BKT K (ut_elts U) name (hh_head b) })"

section \<open>Doubling the buckets\<close>

text \<open>A handle becomes the first of a chain.\<close>

definition link_first :: "nat \<Rightarrow> nat \<Rightarrow> 'a ut_heap \<Rightarrow> 'a ut_heap option" where
  "link_first thh first E = do {
     E1 \<leftarrow> upd_hh thh (\<lambda>h. h\<lparr>hh_prev := 0, hh_next := first\<rparr>) E;
     if first \<noteq> 0 then upd_hh first (\<lambda>h. h\<lparr>hh_prev := thh\<rparr>) E1 else Some E1 }"

text \<open>Moving a chain to the new buckets: each handle becomes the head of its new bucket.\<close>

definition move_handle ::
  "nat \<Rightarrow> nat \<Rightarrow> nat \<Rightarrow> 'a ut_heap \<Rightarrow> UT_hash_bucket list \<Rightarrow> nat \<Rightarrow> u32 \<Rightarrow> ('a ut_heap \<times> UT_hash_bucket list \<times> nat) option" where
  "move_handle n ideal thh E new nonideal hashv = do {
     let i = HASH_TO_BKT hashv n;
     b \<leftarrow> bucket_at new i;
     let count = wrap32 (bkt_count b + 1);
     E1 \<leftarrow> link_first thh (hh_head b) E;
     Some (E1, new[i := \<lparr>hh_head = thh, bkt_count = count,
                         expand_mult = (if count > ideal then count div ideal else expand_mult b)\<rparr>],
           if count > ideal then wrap32 (nonideal + 1) else nonideal) }"

partial_function (option) move_chain ::
  "nat \<Rightarrow> nat \<Rightarrow> nat \<Rightarrow> 'a ut_heap \<Rightarrow> UT_hash_bucket list \<Rightarrow> nat \<Rightarrow> ('a ut_heap \<times> UT_hash_bucket list \<times> nat) option" where
  "move_chain n ideal thh E new nonideal =
     (if thh = 0 then Some (E, new, nonideal)
      else Option.bind (E thh) (\<lambda>x. Option.bind (move_handle n ideal thh E new nonideal (hh_hashv (hh x)))
             (\<lambda>(E1, new1, nonideal1). move_chain n ideal (hh_next (hh x)) E1 new1 nonideal1)))"

declare move_chain.simps [code]

fun move_chains ::
  "nat \<Rightarrow> nat \<Rightarrow> UT_hash_bucket list \<Rightarrow> 'a ut_heap \<Rightarrow> UT_hash_bucket list \<Rightarrow> nat \<Rightarrow> ('a ut_heap \<times> UT_hash_bucket list \<times> nat) option" where
  "move_chains n ideal [] E new nonideal = Some (E, new, nonideal)"
| "move_chains n ideal (b # bs) E new nonideal =
     Option.bind (move_chain n ideal (hh_head b) E new nonideal)
       (\<lambda>(E1, new1, nonideal1). move_chains n ideal bs E1 new1 nonideal1)"

definition HASH_EXPAND_BUCKETS :: "allocator \<Rightarrow> UT_hash_table \<Rightarrow> 'a ut_heap \<Rightarrow> (UT_hash_table \<times> 'a ut_heap) option" where
  "HASH_EXPAND_BUCKETS A t E =
     (let n = wrap32 (2 * num_buckets t);
          ideal = drop_bit (log2_num_buckets t + 1) (num_items t) + (if num_items t AND (n - 1) \<noteq> 0 then 1 else 0) in
      if \<not> grant A (n * sizeof_UT_hash_bucket) then None
      else do {
        (E1, new, nonideal) \<leftarrow> move_chains n ideal (take (num_buckets t) (buckets t)) E
           (replicate n \<lparr>hh_head = 0, bkt_count = 0, expand_mult = 0\<rparr>) 0;
        let ineff = (if nonideal > drop_bit 1 (num_items t) then wrap32 (ineff_expands t + 1) else 0);
        Some (t\<lparr>buckets := new, num_buckets := n, log2_num_buckets := log2_num_buckets t + 1, ideal_chain_maxlen := ideal,
                nonideal_items := nonideal, ineff_expands := ineff, noexpand := (if ineff > 1 then 1 else noexpand t)\<rparr>, E1) })"

section \<open>Adding\<close>

definition HASH_ADD_TO_BKT ::
  "allocator \<Rightarrow> UT_hash_table \<Rightarrow> 'a ut_heap \<Rightarrow> nat \<Rightarrow> nat \<Rightarrow> (UT_hash_table \<times> 'a ut_heap) option" where
  "HASH_ADD_TO_BKT A t E i addhh = do {
     b \<leftarrow> bucket_at (buckets t) i;
     E1 \<leftarrow> link_first addhh (hh_head b) E;
     let count = wrap32 (bkt_count b + 1);
     let t1 = t\<lparr>buckets := (buckets t)[i := b\<lparr>hh_head := addhh, bkt_count := count\<rparr>]\<rparr>;
     if count \<ge> wrap32 (wrap32 (expand_mult b + 1) * HASH_BKT_CAPACITY_THRESH) \<and> noexpand t \<noteq> 1
     then HASH_EXPAND_BUCKETS A t1 E1 else Some (t1, E1) }"

definition HASH_MAKE_TABLE :: "allocator \<Rightarrow> nat \<Rightarrow> nat \<Rightarrow> UT_hash_table option" where
  "HASH_MAKE_TABLE A addr head =
     (if grant A sizeof_UT_hash_table \<and> grant A (HASH_INITIAL_NUM_BUCKETS * sizeof_UT_hash_bucket)
      then Some \<lparr>tbl_addr = addr, buckets = replicate HASH_INITIAL_NUM_BUCKETS \<lparr>hh_head = 0, bkt_count = 0, expand_mult = 0\<rparr>,
                 num_buckets = HASH_INITIAL_NUM_BUCKETS, log2_num_buckets = HASH_INITIAL_NUM_BUCKETS_LOG2, num_items = 0,
                 tbl_tail = head, ideal_chain_maxlen = 0, nonideal_items = 0, ineff_expands = 0, noexpand = 0\<rparr>
      else None)"

text \<open>The address is the one a new table gets.\<close>

definition link_last :: "allocator \<Rightarrow> nat \<Rightarrow> 'a ut_hash \<Rightarrow> 'a ut_heap \<Rightarrow> nat \<Rightarrow> (nat \<times> UT_hash_table \<times> 'a ut_heap) option" where
  "link_last A addr U E add =
     (if ut_head U = 0
      then do {
        t \<leftarrow> HASH_MAKE_TABLE A addr add;
        E1 \<leftarrow> upd_hh add (\<lambda>h. h\<lparr>hh_prev_elt := 0\<rparr>) E;
        Some (add, t, E1) }
      else do {
        t \<leftarrow> ut_table U;
        E1 \<leftarrow> upd_hh (tbl_tail t) (\<lambda>h. h\<lparr>hh_next_elt := add\<rparr>) E;
        E2 \<leftarrow> upd_hh add (\<lambda>h. h\<lparr>hh_prev_elt := tbl_tail t\<rparr>) E1;
        Some (ut_head U, t\<lparr>tbl_tail := add\<rparr>, E2) })"

definition HASH_ADD_KEYPTR ::
  "allocator \<Rightarrow> ('a ut_elt \<Rightarrow> byte list) \<Rightarrow> nat \<Rightarrow> 'a ut_hash \<Rightarrow> nat \<Rightarrow> nat \<Rightarrow> nat \<Rightarrow> 'a ut_hash option" where
  "HASH_ADD_KEYPTR A K addr U keyptr keylen_in add = do {
     E0 \<leftarrow> upd_hh add (\<lambda>h. h\<lparr>hh_next_elt := 0, hh_key := keyptr, hh_keylen := wrap32 keylen_in\<rparr>) (ut_elts U);
     (head, t, E1) \<leftarrow> link_last A addr U E0 add;
     let t1 = t\<lparr>num_items := wrap32 (num_items t + 1)\<rparr>;
     E2 \<leftarrow> upd_hh add (\<lambda>h. h\<lparr>hh_tbl := tbl_addr t\<rparr>) E1;
     x \<leftarrow> E2 add;
     if length (K x) < keylen_in then None
     else do {
       let hashv = HASH_JEN (take keylen_in (K x));
       E3 \<leftarrow> upd_hh add (\<lambda>h. h\<lparr>hh_hashv := hashv\<rparr>) E2;
       (t2, E4) \<leftarrow> HASH_ADD_TO_BKT A t1 E3 (HASH_TO_BKT hashv (num_buckets t1)) add;
       Some \<lparr>ut_elts = E4, ut_head = head, ut_table = Some t2\<rparr> } }"

section \<open>Deleting\<close>

text \<open>The neighbours of a handle are joined; the functions set their links back and forth.\<close>

definition unlink ::
  "((nat \<Rightarrow> nat) \<Rightarrow> UT_hash_handle \<Rightarrow> UT_hash_handle) \<Rightarrow> ((nat \<Rightarrow> nat) \<Rightarrow> UT_hash_handle \<Rightarrow> UT_hash_handle) \<Rightarrow>
   nat \<Rightarrow> nat \<Rightarrow> 'a ut_heap \<Rightarrow> 'a ut_heap option" where
  "unlink set_back set_forth before behind E = do {
     E1 \<leftarrow> (if before \<noteq> 0 then upd_hh before (set_forth (\<lambda>_. behind)) E else Some E);
     if behind \<noteq> 0 then upd_hh behind (set_back (\<lambda>_. before)) E1 else Some E1 }"

definition HASH_DEL_IN_BKT ::
  "UT_hash_table \<Rightarrow> 'a ut_heap \<Rightarrow> nat \<Rightarrow> nat \<Rightarrow> (UT_hash_table \<times> 'a ut_heap) option" where
  "HASH_DEL_IN_BKT t E i hh_del = do {
     b \<leftarrow> bucket_at (buckets t) i;
     x \<leftarrow> E hh_del;
     let h = hh x;
     E1 \<leftarrow> unlink hh_prev_update hh_next_update (hh_prev h) (hh_next h) E;
     Some (t\<lparr>buckets := (buckets t)[i := b\<lparr>bkt_count := wrap32 (bkt_count b + (2 ^ 32 - 1)),
                                    hh_head := (if hh_head b = hh_del then hh_next h else hh_head b)\<rparr>]\<rparr>, E1) }"

definition HASH_DELETE :: "'a ut_hash \<Rightarrow> nat \<Rightarrow> 'a ut_hash option" where
  "HASH_DELETE U del = do {
     x \<leftarrow> ut_elts U del;
     let h = hh x;
     if hh_prev_elt h = 0 \<and> hh_next_elt h = 0 then Some (U\<lparr>ut_head := 0, ut_table := None\<rparr>)
     else do {
       t \<leftarrow> ut_table U;
       let t1 = (if del = tbl_tail t then t\<lparr>tbl_tail := hh_prev_elt h\<rparr> else t);
       E1 \<leftarrow> unlink hh_prev_elt_update hh_next_elt_update (hh_prev_elt h) (hh_next_elt h) (ut_elts U);
       (t2, E2) \<leftarrow> HASH_DEL_IN_BKT t1 E1 (HASH_TO_BKT (hh_hashv h) (num_buckets t1)) del;
       Some \<lparr>ut_elts = E2, ut_head = (if hh_prev_elt h \<noteq> 0 then ut_head U else hh_next_elt h),
             ut_table = Some (t2\<lparr>num_items := wrap32 (num_items t2 + (2 ^ 32 - 1))\<rparr>)\<rparr> } }"

definition HASH_COUNT :: "'a ut_hash \<Rightarrow> nat option" where
  "HASH_COUNT U = (if ut_head U = 0 then Some 0 else map_option num_items (ut_table U))"

text \<open>The elements in the order of the iteration, which is the order in which they were added.\<close>

partial_function (option) elts_from :: "'a ut_heap \<Rightarrow> nat \<Rightarrow> nat list option" where
  "elts_from E el =
     (if el = 0 then Some []
      else Option.bind (E el) (\<lambda>x. Option.bind (elts_from E (hh_next_elt (hh x))) (\<lambda>els. Some (el # els))))"

declare elts_from.simps [code]

definition HASH_ITER :: "'a ut_hash \<Rightarrow> nat list option" where
  "HASH_ITER U = elts_from (ut_elts U) (ut_head U)"

section \<open>The check of the integrity\<close>

text \<open>Following a chain: its length, or \<open>None\<close> inside when a link back is wrong (\<open>HASH_OOPS\<close>).\<close>

partial_function (option) fsck_chain ::
  "(UT_hash_handle \<Rightarrow> nat) \<Rightarrow> (UT_hash_handle \<Rightarrow> nat) \<Rightarrow> 'a ut_heap \<Rightarrow> nat \<Rightarrow> nat \<Rightarrow> nat \<Rightarrow> nat option option" where
  "fsck_chain back forth E prev thh num =
     (if thh = 0 then Some (Some num)
      else Option.bind (E thh) (\<lambda>x.
             if back (hh x) \<noteq> prev then Some None
             else fsck_chain back forth E thh (forth (hh x)) (wrap32 (num + 1))))"

declare fsck_chain.simps [code]

fun fsck_buckets :: "'a ut_heap \<Rightarrow> UT_hash_bucket list \<Rightarrow> nat \<Rightarrow> nat option option" where
  "fsck_buckets E [] num = Some (Some num)"
| "fsck_buckets E (b # bs) num = do {
     n \<leftarrow> fsck_chain hh_prev hh_next E 0 (hh_head b) 0;
     case n of
       None \<Rightarrow> Some None
     | Some m \<Rightarrow> if bkt_count b \<noteq> m then Some None else fsck_buckets E bs (wrap32 (num + m)) }"

definition HASH_FSCK :: "'a ut_hash \<Rightarrow> bool option" where
  "HASH_FSCK U =
     (if ut_head U = 0 then Some True
      else do {
        t \<leftarrow> ut_table U;
        n \<leftarrow> fsck_buckets (ut_elts U) (take (num_buckets t) (buckets t)) 0;
        if n \<noteq> Some (num_items t) then Some False
        else do {
          m \<leftarrow> fsck_chain hh_prev_elt hh_next_elt (ut_elts U) 0 (ut_head U) 0;
          Some (m = Some (num_items t)) } })"

section \<open>Doubly linked lists on the heap\<close>

definition fld :: "(UT_hash_handle \<Rightarrow> 'b) \<Rightarrow> 'a ut_heap \<Rightarrow> nat \<Rightarrow> 'b option" where
  "fld f E p = map_option (\<lambda>x. f (hh x)) (E p)"

lemma upd_hh_Some: "E p = Some x \<Longrightarrow> upd_hh p f E = Some (E(p \<mapsto> x\<lparr>hh := f (hh x)\<rparr>))"
  by (simp add: upd_hh_def)

lemma fld_upd [simp]: "fld f (E(p \<mapsto> x\<lparr>hh := h\<rparr>)) = (fld f E)(p := Some (f h))"
  by (rule ext) (simp add: fld_def)

lemma fld_Some: "E p = Some x \<Longrightarrow> fld f E p = Some (f (hh x))"
  by (simp add: fld_def)

text \<open>The handles \<open>xs\<close> between \<open>p\<close> and \<open>q\<close>, with the links back and forth.\<close>

fun linked :: "(nat \<Rightarrow> nat option) \<Rightarrow> (nat \<Rightarrow> nat option) \<Rightarrow> nat \<Rightarrow> nat list \<Rightarrow> nat \<Rightarrow> bool" where
  "linked P N p [] q = True"
| "linked P N p (x # xs) q = (P x = Some p \<and> N x = Some (hd (xs @ [q])) \<and> linked P N x xs q)"

lemma ends_zero:
  assumes "(0 :: nat) \<notin> set xs"
  shows "last (0 # xs) = 0 \<longleftrightarrow> xs = []" "hd (xs @ [0]) = 0 \<longleftrightarrow> xs = []"
proof -
  show "last (0 # xs) = 0 \<longleftrightarrow> xs = []" using assms by (cases xs rule: rev_cases) auto
  show "hd (xs @ [0]) = 0 \<longleftrightarrow> xs = []" using assms by (cases xs) auto
qed

lemma linked_append:
  "linked P N p (xs @ ys) q = (linked P N p xs (hd (ys @ [q])) \<and> linked P N (last (p # xs)) ys q)"
proof (induction xs arbitrary: p)
  case (Cons x xs)
  have "hd ((xs @ ys) @ [q]) = hd (xs @ [hd (ys @ [q])])" by (cases xs) simp_all
  then show ?case using Cons by (auto simp: last_ConsR)
qed simp

lemma linked_cong:
  "(\<And>x. x \<in> set xs \<Longrightarrow> P x = P' x \<and> N x = N' x) \<Longrightarrow> linked P N p xs q = linked P' N' p xs q"
  by (induction xs arbitrary: p) auto

text \<open>Changing the neighbours of a segment.\<close>

lemma linked_new_prev:
  assumes "linked P N p xs q" "distinct xs"
  shows "linked (if xs = [] then P else P(hd xs := Some p')) N p' xs q"
proof (cases xs)
  case (Cons x ys)
  then have "linked (P(x := Some p')) N x ys q = linked P N x ys q" using assms(2) by (intro linked_cong) auto
  then show ?thesis using assms Cons by simp
qed simp

lemma linked_new_next:
  assumes "linked P N p xs q" "distinct xs"
  shows "linked P (if xs = [] then N else N(last xs := Some q')) p xs q'"
proof (cases xs rule: rev_cases)
  case (snoc ys y)
  then have "linked P (N(y := Some q')) p ys y = linked P N p ys y" using assms(2) by (intro linked_cong) auto
  then show ?thesis using assms snoc by (simp add: linked_append)
qed simp

text \<open>The links forth alone.\<close>

fun fpath :: "(nat \<Rightarrow> nat option) \<Rightarrow> nat list \<Rightarrow> bool" where
  "fpath N [] = True"
| "fpath N (x # xs) = (N x = Some (hd (xs @ [0])) \<and> fpath N xs)"

lemma linked_fpath: "linked P N p xs 0 \<Longrightarrow> fpath N xs"
  by (induction xs arbitrary: p) auto

lemma fpath_cong: "(\<And>x. x \<in> set xs \<Longrightarrow> N x = N' x) \<Longrightarrow> fpath N xs = fpath N' xs"
  by (induction xs) auto

section \<open>Chains of buckets\<close>

abbreviation bchain :: "'a ut_heap \<Rightarrow> nat list \<Rightarrow> bool" where
  "bchain E xs \<equiv> linked (fld hh_prev E) (fld hh_next E) 0 xs 0"

abbreviation achain :: "'a ut_heap \<Rightarrow> nat list \<Rightarrow> bool" where
  "achain E xs \<equiv> linked (fld hh_prev_elt E) (fld hh_next_elt E) 0 xs 0"

definition bkt_ok :: "'a ut_heap \<Rightarrow> UT_hash_bucket \<Rightarrow> nat list \<Rightarrow> bool" where
  "bkt_ok E b xs = (hh_head b = hd (xs @ [0]) \<and> bkt_count b = length xs \<and> bchain E xs)"

text \<open>Two heaps that differ in the chains of the buckets only, and where.\<close>

definition no_bkt :: "'a ut_elt \<Rightarrow> 'a ut_elt" where
  "no_bkt x = x\<lparr>hh := (hh x)\<lparr>hh_prev := 0, hh_next := 0\<rparr>\<rparr>"

definition rechained :: "nat set \<Rightarrow> 'a ut_heap \<Rightarrow> 'a ut_heap \<Rightarrow> bool" where
  "rechained X E E' = (\<forall>p. map_option no_bkt (E p) = map_option no_bkt (E' p) \<and> (p \<notin> X \<longrightarrow> E p = E' p))"

lemma rechained_refl: "rechained X E E"
  by (simp add: rechained_def)

lemma rechained_trans: "rechained X E E' \<Longrightarrow> rechained Y E' E'' \<Longrightarrow> X \<subseteq> Z \<Longrightarrow> Y \<subseteq> Z \<Longrightarrow> rechained Z E E''"
  unfolding rechained_def by (metis subsetD)

lemma rechained_again: "rechained X E E' \<Longrightarrow> rechained X E' E'' \<Longrightarrow> rechained X E E''"
  by (rule rechained_trans) auto

lemma rechained_dom: "rechained X E E' \<Longrightarrow> dom E = dom E'"
  unfolding rechained_def dom_def by (metis option.map_disc_iff)

lemma rechained_fld:
  assumes "rechained X E E'" "\<And>h. f (h\<lparr>hh_prev := 0, hh_next := 0\<rparr>) = f h"
  shows "fld f E = fld f E'"
proof (rule ext)
  fix p
  have "map_option no_bkt (E p) = map_option no_bkt (E' p)" using assms(1) by (simp add: rechained_def)
  then have "map_option (\<lambda>x. f (hh x)) (map_option no_bkt (E p)) = map_option (\<lambda>x. f (hh x)) (map_option no_bkt (E' p))"
    by (rule arg_cong)
  then show "fld f E p = fld f E' p" by (simp add: fld_def no_bkt_def assms(2) option.map_comp comp_def)
qed

lemma rechained_outside: "rechained X E E' \<Longrightarrow> p \<notin> X \<Longrightarrow> fld f E' p = fld f E p"
  by (simp add: rechained_def fld_def)

lemma bkt_ok_rechained: "rechained X E E' \<Longrightarrow> set xs \<inter> X = {} \<Longrightarrow> bkt_ok E b xs \<Longrightarrow> bkt_ok E' b xs"
  unfolding bkt_ok_def
  using linked_cong [of xs "fld hh_prev E'" "fld hh_prev E" "fld hh_next E'" "fld hh_next E" 0 0] rechained_outside by blast

lemma rechained_upd:
  assumes "E p = Some x" "p \<in> X" "no_bkt (x\<lparr>hh := h\<rparr>) = no_bkt x"
  shows "rechained X E (E(p \<mapsto> x\<lparr>hh := h\<rparr>))"
  using assms by (auto simp: rechained_def)

lemma link_first_chain:
  assumes "bchain E xs" "distinct xs" "0 \<notin> set xs" "set xs \<subseteq> dom E" "p \<in> dom E" "p \<notin> set xs" "p \<noteq> 0"
  shows "\<exists>E'. link_first p (hd (xs @ [0])) E = Some E' \<and> bchain E' (p # xs) \<and> rechained (insert p (set xs)) E E'"
proof -
  obtain x where x: "E p = Some x" using assms(5) by blast
  define E1 where "E1 = E(p \<mapsto> x\<lparr>hh := (hh x)\<lparr>hh_prev := 0, hh_next := hd (xs @ [0])\<rparr>\<rparr>)"
  have u: "upd_hh p (\<lambda>h. h\<lparr>hh_prev := 0, hh_next := hd (xs @ [0])\<rparr>) E = Some E1"
    unfolding E1_def using upd_hh_Some [of E p x] x by simp
  have r1: "rechained (insert p (set xs)) E E1"
    unfolding E1_def by (rule rechained_upd) (simp_all add: x no_bkt_def)
  have f1: "fld hh_prev E1 = (fld hh_prev E)(p := Some 0)" "fld hh_next E1 = (fld hh_next E)(p := Some (hd (xs @ [0])))"
    by (simp_all add: E1_def)
  show ?thesis
  proof (cases xs)
    case Nil
    then show ?thesis using u r1 f1 by (simp add: link_first_def)
  next
    case (Cons y ys)
    have y: "y \<noteq> 0" "y \<noteq> p" "y \<notin> set ys" "p \<notin> set ys" using assms(2,3,6) Cons by auto
    obtain z where z: "E1 y = Some z" using assms(4) Cons y(2) by (auto simp: E1_def)
    define E2 where "E2 = E1(y \<mapsto> z\<lparr>hh := (hh z)\<lparr>hh_prev := p\<rparr>\<rparr>)"
    have "link_first p (hd (xs @ [0])) E = Some E2"
      using u upd_hh_Some [of E1 y z] z y(1) by (simp add: link_first_def Cons E2_def)
    moreover have "rechained (insert p (set xs)) E1 E2"
      unfolding E2_def by (rule rechained_upd) (simp_all add: z no_bkt_def Cons)
    then have "rechained (insert p (set xs)) E E2" using r1 rechained_trans by blast
    moreover have "bchain E2 (p # xs)"
    proof -
      have f2: "fld hh_prev E2 = (fld hh_prev E1)(y := Some p)" "fld hh_next E2 = fld hh_next E1"
        using fld_Some [of E1 y z hh_next] z by (auto simp: E2_def fun_eq_iff)
      have "linked (fld hh_prev E2) (fld hh_next E2) y ys 0 = linked (fld hh_prev E) (fld hh_next E) y ys 0"
        using y by (intro linked_cong) (auto simp: f2 f1)
      then show ?thesis using assms(1) y by (simp add: Cons f2 f1)
    qed
    ultimately show ?thesis by blast
  qed
qed

section \<open>Lists of chains\<close>

lemma concat_split: "i < length cs \<Longrightarrow> concat cs = concat (take i cs) @ cs ! i @ concat (drop (Suc i) cs)"
  by (metis concat.simps(2) concat_append id_take_nth_drop)

lemma nth_subset_concat: "i < length cs \<Longrightarrow> set (cs ! i) \<subseteq> set (concat cs)"
  using nth_mem by fastforce

lemma chains_disjoint:
  assumes "distinct (concat cs)" "i < length cs" "j < length cs" "i \<noteq> j"
  shows "set (cs ! i) \<inter> set (cs ! j) = {}"
proof -
  have "set (cs ! j) \<subseteq> set (concat (take i cs)) \<union> set (concat (drop (Suc i) cs))"
  proof (cases "j < i")
    case True
    then have "cs ! j \<in> set (take i cs)" using assms(2) by (metis in_set_conv_nth length_take min.absorb4 nth_take)
    then show ?thesis by auto
  next
    case False
    then obtain k where k: "j = Suc i + k" using assms(4) by (metis Suc_leI less_iff_Suc_add linorder_neqE_nat add_Suc)
    then have "cs ! j = drop (Suc i) cs ! k" "k < length (drop (Suc i) cs)" using assms(3) by simp_all
    then have "cs ! j \<in> set (drop (Suc i) cs)" using nth_mem by metis
    then show ?thesis by auto
  qed
  moreover have "set (cs ! i) \<inter> (set (concat (take i cs)) \<union> set (concat (drop (Suc i) cs))) = {}"
    using assms(1,2) by (simp add: concat_split [OF assms(2)]) blast
  ultimately show ?thesis by blast
qed

lemma concat_update: "i < length cs \<Longrightarrow> concat (cs[i := x]) = concat (take i cs) @ x @ concat (drop (Suc i) cs)"
  by (simp add: upd_conv_take_nth_drop)

lemma mset_concat_push: "i < length cs \<Longrightarrow> mset (concat (cs[i := x # cs ! i])) = add_mset x (mset (concat cs))"
  by (simp add: concat_update concat_split)

text \<open>Changing the chain of one bucket leaves the others alone.\<close>

lemma buckets_change:
  assumes "list_all2 (bkt_ok E) bs cs" "i < length bs" "distinct (concat cs)" "rechained X E E'" "X \<inter> set (concat cs) \<subseteq> set (cs ! i)"
    and "bkt_ok E' b xs"
  shows "list_all2 (bkt_ok E') (bs[i := b]) (cs[i := xs])"
proof -
  have len: "length cs = length bs" using assms(1) by (simp add: list_all2_lengthD)
  have "bkt_ok E' (bs[i := b] ! j) (cs[i := xs] ! j)" if j: "j < length bs" for j
  proof (cases "j = i")
    case True
    then show ?thesis using assms(2,6) len by simp
  next
    case False
    have "set (cs ! j) \<inter> set (cs ! i) = {}" using chains_disjoint [OF assms(3), of j i] assms(2) j len False by simp
    moreover have "set (cs ! j) \<subseteq> set (concat cs)" using nth_subset_concat [of j cs] j len by simp
    ultimately have "set (cs ! j) \<inter> X = {}" using assms(5) by blast
    moreover have "bkt_ok E (bs ! j) (cs ! j)" using assms(1) j by (simp add: list_all2_conv_all_nth)
    ultimately show ?thesis using bkt_ok_rechained [OF assms(4)] False by simp
  qed
  then show ?thesis by (simp add: list_all2_conv_all_nth len)
qed

lemma buckets_link:
  assumes "list_all2 (bkt_ok E) bs cs" "i < length bs" "distinct (concat cs)" "rechained (insert p (set (cs ! i))) E E'"
    and "p \<notin> set (concat cs)" "bkt_ok E' b xs"
  shows "list_all2 (bkt_ok E') (bs[i := b]) (cs[i := xs])"
  using assms(5) by (intro buckets_change [OF assms(1-4) _ assms(6)]) auto

lemma move_handle_spec:
  assumes "list_all2 (bkt_ok E) new ns" "HASH_TO_BKT hashv n = i" "i < length new" "distinct (concat ns)" "0 \<notin> set (concat ns)"
    and "set (concat ns) \<subseteq> dom E" "p \<in> dom E" "p \<notin> set (concat ns)" "p \<noteq> 0" "length (concat ns) + 1 < 2 ^ 32"
  shows "\<exists>E' new' nonideal'. move_handle n ideal p E new nonideal hashv = Some (E', new', nonideal') \<and>
    list_all2 (bkt_ok E') new' (ns[i := p # ns ! i]) \<and> rechained (insert p (set (concat ns))) E E'"
proof -
  have len: "length ns = length new" using assms(1) by (simp add: list_all2_lengthD)
  have sub: "set (ns ! i) \<subseteq> set (concat ns)" using nth_subset_concat assms(3) len by metis
  have b: "bkt_ok E (new ! i) (ns ! i)" using assms(1,3) by (simp add: list_all2_conv_all_nth)
  have "distinct (ns ! i)" using assms(3,4) len by (simp add: concat_split)
  then obtain E' where E': "link_first p (hd (ns ! i @ [0])) E = Some E'" "bchain E' (p # ns ! i)"
    "rechained (insert p (set (ns ! i))) E E'"
    using link_first_chain [of E "ns ! i" p] b sub assms(5-9) unfolding bkt_ok_def by blast
  have "length (ns ! i) \<le> length (concat ns)" using assms(3) len by (simp add: concat_split)
  then have c: "wrap32 (bkt_count (new ! i) + 1) = length (p # ns ! i)" using b assms(10) by (simp add: bkt_ok_def)
  let ?b = "\<lparr>hh_head = p, bkt_count = wrap32 (bkt_count (new ! i) + 1), expand_mult =
    (if wrap32 (bkt_count (new ! i) + 1) > ideal then wrap32 (bkt_count (new ! i) + 1) div ideal else expand_mult (new ! i))\<rparr>"
  have "bkt_ok E' ?b (p # ns ! i)" using E'(2) unfolding bkt_ok_def c by simp
  from buckets_link [OF assms(1,3,4) E'(3) assms(8) this] have l: "list_all2 (bkt_ok E') (new[i := ?b]) (ns[i := p # ns ! i])" .
  have "link_first p (hh_head (new ! i)) E = Some E'" using E'(1) b by (simp add: bkt_ok_def)
  then have "move_handle n ideal p E new nonideal hashv = Some (E', new[i := ?b],
      if wrap32 (bkt_count (new ! i) + 1) > ideal then wrap32 (nonideal + 1) else nonideal)"
    using assms(2,3) by (simp add: move_handle_def bucket_at_def Let_def)
  moreover have "rechained (insert p (set (concat ns))) E E'"
    using rechained_trans [OF E'(3) rechained_refl [of "{}"]] sub by blast
  ultimately show ?thesis using l by blast
qed

text \<open>Where the handles of a list of chains go.\<close>

definition push_to :: "(nat \<Rightarrow> nat) \<Rightarrow> nat list list \<Rightarrow> nat \<Rightarrow> nat list list" where
  "push_to f ns x = ns[f x := x # ns ! f x]"

abbreviation bkt_of :: "'a ut_heap \<Rightarrow> nat \<Rightarrow> nat \<Rightarrow> nat" where
  "bkt_of E n x \<equiv> HASH_TO_BKT (the (fld hh_hashv E x)) n"

definition placed :: "(nat \<Rightarrow> nat) \<Rightarrow> nat list list \<Rightarrow> bool" where
  "placed f cs = (\<forall>i < length cs. \<forall>x \<in> set (cs ! i). f x = i)"

lemma length_push_to [simp]: "length (push_to f ns x) = length ns"
  by (simp add: push_to_def)

lemma placed_push_to: "placed f ns \<Longrightarrow> placed f (push_to f ns x)"
  unfolding placed_def push_to_def
  by (metis length_list_update nth_list_update_eq nth_list_update_neq set_ConsD)

lemma mset_push_to: "f x < length ns \<Longrightarrow> mset (concat (push_to f ns x)) = add_mset x (mset (concat ns))"
  by (simp add: push_to_def mset_concat_push)

lemma mset_push_all:
  "(\<And>x. x \<in> set xs \<Longrightarrow> f x < length ns) \<Longrightarrow> mset (concat (foldl (push_to f) ns xs)) = mset xs + mset (concat ns)"
  by (induction xs arbitrary: ns) (simp_all add: mset_push_to)

lemma length_push_all [simp]: "length (foldl (push_to f) ns xs) = length ns"
  by (induction xs arbitrary: ns) simp_all

lemma placed_push_all: "placed f ns \<Longrightarrow> placed f (foldl (push_to f) ns xs)"
  by (induction xs arbitrary: ns) (simp_all add: placed_push_to)

lemma move_chain_spec:
  assumes "fpath (fld hh_next E) xs" "list_all2 (bkt_ok E) new ns" "\<And>x. x \<in> set xs \<Longrightarrow> f x < length new"
    and "\<And>x. x \<in> set xs \<Longrightarrow> bkt_of E n x = f x"
    and "distinct (xs @ concat ns)" "0 \<notin> set (xs @ concat ns)" "set (xs @ concat ns) \<subseteq> dom E" "length (xs @ concat ns) < 2 ^ 32"
  shows "\<exists>E' new' nonideal'. move_chain n ideal (hd (xs @ [0])) E new nonideal = Some (E', new', nonideal') \<and>
    list_all2 (bkt_ok E') new' (foldl (push_to f) ns xs) \<and> rechained (set (xs @ concat ns)) E E'"
  using assms
proof (induction xs arbitrary: E new ns nonideal)
  case Nil
  then show ?case using rechained_refl by (auto simp: move_chain.simps)
next
  case (Cons x xs)
  obtain y where y: "E x = Some y" using Cons.prems(7) by auto
  have fx: "f x < length new" "HASH_TO_BKT (hh_hashv (hh y)) n = f x" "hh_next (hh y) = hd (xs @ [0])" "x \<noteq> 0"
    using Cons.prems(1,6) Cons.prems(3,4) [of x] fld_Some [of E x y hh_next] fld_Some [of E x y hh_hashv] y by auto
  have len: "length ns = length new" using Cons.prems(2) by (simp add: list_all2_lengthD)
  obtain E1 new1 nonideal1 where m: "move_handle n ideal x E new nonideal (hh_hashv (hh y)) = Some (E1, new1, nonideal1)"
    "list_all2 (bkt_ok E1) new1 (push_to f ns x)" "rechained (insert x (set (concat ns))) E E1"
    using move_handle_spec [OF Cons.prems(2) fx(2,1), of x ideal nonideal] Cons.prems(5-8) fx(4) y
    unfolding push_to_def by auto
  have ms: "mset (concat (push_to f ns x)) = add_mset x (mset (concat ns))" using mset_push_to fx(1) len by metis
  then have st: "set (concat (push_to f ns x)) = insert x (set (concat ns))" by (metis set_mset_add_mset_insert set_mset_mset)
  have out: "set xs \<inter> insert x (set (concat ns)) = {}" using Cons.prems(5) by auto
  have hv: "fld hh_hashv E1 = fld hh_hashv E" by (rule rechained_fld [OF m(3), symmetric]) simp
  have "mset (xs @ concat (push_to f ns x)) = mset ((x # xs) @ concat ns)" using ms by simp
  then have md: "distinct (xs @ concat (push_to f ns x))" "length (xs @ concat (push_to f ns x)) < 2 ^ 32"
    using Cons.prems(5,8) by (metis mset_eq_imp_distinct_iff, metis mset_eq_length)
  have "fpath (fld hh_next E1) xs = fpath (fld hh_next E) xs"
    using rechained_outside [OF m(3)] out by (intro fpath_cong) blast
  then have pt: "fpath (fld hh_next E1) xs" using Cons.prems(1) by simp
  have z: "0 \<notin> set (xs @ concat (push_to f ns x))" "set (xs @ concat (push_to f ns x)) \<subseteq> dom E1"
    using Cons.prems(6,7) unfolding set_append st rechained_dom [OF m(3), symmetric] by auto
  have "length new1 = length new" using m(2) len by (simp add: list_all2_lengthD)
  then obtain E' new' nonideal' where "move_chain n ideal (hd (xs @ [0])) E1 new1 nonideal1 = Some (E', new', nonideal')"
    "list_all2 (bkt_ok E') new' (foldl (push_to f) (push_to f ns x) xs)" "rechained (set (xs @ concat (push_to f ns x))) E1 E'"
    using Cons.IH [OF pt m(2) _ _ md(1) z md(2), of nonideal1] Cons.prems(3,4) hv by auto
  moreover from this(3) have "rechained (set ((x # xs) @ concat ns)) E E'"
    using st by (intro rechained_trans [OF m(3)]) auto
  moreover have "move_chain n ideal (hd ((x # xs) @ [0])) E new nonideal = move_chain n ideal (hd (xs @ [0])) E1 new1 nonideal1"
    using m(1) y fx(3,4) by (subst move_chain.simps) simp
  ultimately show ?case by simp
qed

lemma move_chains_spec:
  assumes "list_all2 (bkt_ok E) bs cs" "list_all2 (bkt_ok E) new ns" "\<And>x. x \<in> set (concat cs) \<Longrightarrow> f x < length new"
    and "\<And>x. x \<in> set (concat cs) \<Longrightarrow> bkt_of E n x = f x"
    and "distinct (concat cs @ concat ns)" "0 \<notin> set (concat cs @ concat ns)" "set (concat cs @ concat ns) \<subseteq> dom E"
    and "length (concat cs @ concat ns) < 2 ^ 32"
  shows "\<exists>E' new' nonideal'. move_chains n ideal bs E new nonideal = Some (E', new', nonideal') \<and>
    list_all2 (bkt_ok E') new' (foldl (push_to f) ns (concat cs)) \<and> rechained (set (concat cs @ concat ns)) E E'"
  using assms
proof (induction bs arbitrary: cs E new ns nonideal)
  case Nil
  then show ?case using rechained_refl by auto
next
  case (Cons b bs ccs)
  then obtain c cs where ccs: "ccs = c # cs" "bkt_ok E b c" "list_all2 (bkt_ok E) bs cs" by (auto simp: list_all2_Cons1)
  note prems = Cons.prems(2-8) [unfolded ccs(1)]
  have b: "hh_head b = hd (c @ [0])" "fpath (fld hh_next E) c"
    using ccs(2) linked_fpath [of "fld hh_prev E" "fld hh_next E" 0 c] unfolding bkt_ok_def by blast+
  have len: "length ns = length new" using prems(1) by (simp add: list_all2_lengthD)
  have d: "distinct (c @ concat ns)" "length (c @ concat ns) < 2 ^ 32" using prems(4,7) by auto
  obtain E1 new1 nonideal1 where m: "move_chain n ideal (hh_head b) E new nonideal = Some (E1, new1, nonideal1)"
    "list_all2 (bkt_ok E1) new1 (foldl (push_to f) ns c)" "rechained (set (c @ concat ns)) E E1"
    using move_chain_spec [OF b(2) prems(1) _ _ d(1) _ _ d(2), of f n ideal nonideal] prems(2,3,5,6) b(1) by auto
  define ns1 where "ns1 = foldl (push_to f) ns c"
  have ms: "mset (concat ns1) = mset c + mset (concat ns)"
    unfolding ns1_def using prems(2) len by (intro mset_push_all) simp
  then have st: "set (concat ns1) = set c \<union> set (concat ns)" by (metis set_append set_mset_mset set_mset_union)
  have out: "set (concat cs) \<inter> set (c @ concat ns) = {}" using prems(4) by auto
  have hv: "fld hh_hashv E1 = fld hh_hashv E" by (rule rechained_fld [OF m(3), symmetric]) simp
  have "mset (concat cs @ concat ns1) = mset (concat (c # cs) @ concat ns)" using ms by simp
  then have md: "distinct (concat cs @ concat ns1)" "length (concat cs @ concat ns1) < 2 ^ 32"
    using prems(4,7) by (metis mset_eq_imp_distinct_iff, metis mset_eq_length)
  have old: "list_all2 (bkt_ok E1) bs cs"
  proof (rule list.rel_mono_strong [OF ccs(3)])
    fix b' c' assume "c' \<in> set cs" "bkt_ok E b' c'"
    then show "bkt_ok E1 b' c'" using bkt_ok_rechained [OF m(3)] out by fastforce
  qed
  have z: "0 \<notin> set (concat cs @ concat ns1)" "set (concat cs @ concat ns1) \<subseteq> dom E1"
    using prems(5,6) unfolding set_append st rechained_dom [OF m(3), symmetric] by auto
  have "length new1 = length new" using m(2) len by (simp add: list_all2_lengthD)
  then obtain E' new' nonideal' where "move_chains n ideal bs E1 new1 nonideal1 = Some (E', new', nonideal')"
    "list_all2 (bkt_ok E') new' (foldl (push_to f) ns1 (concat cs))" "rechained (set (concat cs @ concat ns1)) E1 E'"
    using Cons.IH [OF old m(2) [folded ns1_def] _ _ md(1) z md(2), of nonideal1] prems(2,3) hv by auto
  moreover from this(3) have "rechained (set (concat ccs @ concat ns)) E E'"
    using st by (intro rechained_trans [OF m(3)]) (auto simp: ccs(1))
  ultimately show ?case using m(1) by (simp add: ns1_def ccs(1))
qed

section \<open>The table\<close>

lemma HASH_TO_BKT_pow: "k < 32 \<Longrightarrow> HASH_TO_BKT h (2 ^ k) < 2 ^ k"
proof -
  assume k: "k < 32"
  have "HASH_TO_BKT h (2 ^ k) = unat (take_bit k h)"
    by (simp add: HASH_TO_BKT_def take_bit_eq_mask mask_eq_exp_minus_1)
  also have "\<dots> < 2 ^ k" by (simp add: unsigned_take_bit_eq)
  finally show ?thesis .
qed

text \<open>A table with the elements \<open>es\<close> in the order in which they were added, and the chains \<open>cs\<close>.\<close>

definition hash_table_ok :: "'a ut_heap \<Rightarrow> UT_hash_table \<Rightarrow> nat list \<Rightarrow> nat list list \<Rightarrow> bool" where
  "hash_table_ok E t es cs =
     (log2_num_buckets t < 32 \<and> num_buckets t = 2 ^ log2_num_buckets t \<and> length (buckets t) = num_buckets t \<and>
      list_all2 (bkt_ok E) (buckets t) cs \<and> placed (bkt_of E (num_buckets t)) cs \<and> mset (concat cs) = mset es)"

lemma table_ok_rest [simp]:
  "hash_table_ok E (t\<lparr>tbl_tail := a\<rparr>) es cs = hash_table_ok E t es cs" "hash_table_ok E (t\<lparr>num_items := n\<rparr>) es cs = hash_table_ok E t es cs"
  by (simp_all add: hash_table_ok_def)

lemma expand_spec:
  assumes "hash_table_ok E t es cs" "log2_num_buckets t < 31" "grant A (2 * num_buckets t * sizeof_UT_hash_bucket)"
    and "distinct es" "0 \<notin> set es" "set es \<subseteq> dom E" "length es < 2 ^ 32"
  shows "\<exists>t' E' cs'. HASH_EXPAND_BUCKETS A t E = Some (t', E') \<and> hash_table_ok E' t' es cs' \<and> rechained (set es) E E' \<and>
    log2_num_buckets t' = Suc (log2_num_buckets t) \<and> num_items t' = num_items t \<and> tbl_tail t' = tbl_tail t \<and> tbl_addr t' = tbl_addr t"
proof -
  let ?k = "Suc (log2_num_buckets t)"
  have k: "?k < 32" "num_buckets t = 2 ^ log2_num_buckets t" "length (buckets t) = num_buckets t" using assms(1,2) by (simp_all add: hash_table_ok_def)
  have "(2 :: nat) ^ ?k < 2 ^ 32" using k(1) by (intro power_strict_increasing) simp_all
  then have n: "wrap32 (2 * num_buckets t) = 2 ^ ?k" unfolding k(2) by simp
  have c: "set (concat cs) = set es" "distinct (concat cs)" "length (concat cs) < 2 ^ 32" "list_all2 (bkt_ok E) (buckets t) cs"
    using assms(1,4,7) unfolding hash_table_ok_def by (metis set_mset_mset, metis mset_eq_imp_distinct_iff, metis mset_eq_length, metis)
  let ?e = "\<lparr>hh_head = 0, bkt_count = 0, expand_mult = 0\<rparr>"
  define n where "n = (2 :: nat) ^ ?k"
  define ideal where "ideal = drop_bit (log2_num_buckets t + 1) (num_items t) + (if num_items t AND (n - 1) \<noteq> 0 then 1 else 0)"
  have bound: "HASH_TO_BKT h n < n" for h unfolding n_def by (rule HASH_TO_BKT_pow [OF k(1)])
  have wn: "wrap32 (2 * num_buckets t) = n" using n by (simp only: n_def)
  have new: "list_all2 (bkt_ok E) (replicate n ?e) (replicate n [])"
    by (simp add: list_all2_conv_all_nth bkt_ok_def)
  let ?f = "bkt_of E n"
  define cs' where "cs' = foldl (push_to ?f) (replicate n []) (concat cs)"
  have emp: "concat (replicate n []) = ([] :: nat list)" by simp
  obtain E' new' nonideal' where mv: "move_chains n ideal (buckets t) E (replicate n ?e) 0 = Some (E', new', nonideal')"
    "list_all2 (bkt_ok E') new' cs'" "rechained (set es) E E'"
    using move_chains_spec [OF c(4) new, of ?f n ideal 0, unfolded emp append_Nil2, OF _ refl c(2) _ _ c(3)] bound assms(5,6)
    unfolding cs'_def c(1) by (auto simp: length_replicate)
  have hv: "fld hh_hashv E' = fld hh_hashv E" by (rule rechained_fld [OF mv(3), symmetric]) simp
  have "mset (concat cs') = mset (concat cs)"
    unfolding cs'_def using bound by (subst mset_push_all) (simp_all add: emp)
  then have ms: "mset (concat cs') = mset es" using assms(1) by (simp add: hash_table_ok_def)
  have "placed ?f (replicate n [])" by (simp add: placed_def)
  then have pl: "placed ?f cs'" unfolding cs'_def by (rule placed_push_all)
  have "length cs' = n" by (simp add: cs'_def)
  then have len: "length new' = n" using mv(2) by (simp add: list_all2_lengthD)
  have g: "grant A (n * sizeof_UT_hash_bucket)" using assms(3) k(2) by (simp add: n_def)
  have tk: "take (num_buckets t) (buckets t) = buckets t" using k(3) by simp
  define ineff where "ineff = (if nonideal' > drop_bit 1 (num_items t) then wrap32 (ineff_expands t + 1) else 0)"
  define t' where "t' = t\<lparr>buckets := new', num_buckets := n, log2_num_buckets := log2_num_buckets t + 1, ideal_chain_maxlen := ideal,
    nonideal_items := nonideal', ineff_expands := ineff, noexpand := (if ineff > 1 then 1 else noexpand t)\<rparr>"
  have "HASH_EXPAND_BUCKETS A t E = Some (t', E')"
    unfolding HASH_EXPAND_BUCKETS_def Let_def wn tk ideal_def [symmetric] using g mv(1) by (simp add: t'_def ineff_def)
  moreover have "hash_table_ok E' t' es cs'"
    unfolding hash_table_ok_def t'_def using k(1) len mv(2) pl ms hv by (simp add: n_def)
  ultimately show ?thesis using mv(3) by (auto simp: t'_def)
qed

text \<open>Doubling \<open>2 ^ 31\<close> buckets gives none at all, and the first handle that is moved is written outside them.\<close>

lemma move_chains_no_buckets:
  assumes "list_all2 (bkt_ok E) bs cs" "concat cs \<noteq> []" "0 \<notin> set (concat cs)"
  shows "move_chains n ideal bs E [] nonideal = None"
  using assms
proof (induction bs arbitrary: cs)
  case (Cons b bs)
  then obtain c ds where ds: "cs = c # ds" "bkt_ok E b c" "list_all2 (bkt_ok E) bs ds" by (auto simp: list_all2_Cons1)
  then have c: "cs = c # ds" "hh_head b = hd (c @ [0])" "list_all2 (bkt_ok E) bs ds" by (simp_all add: bkt_ok_def)
  show ?case
  proof (cases c)
    case Nil
    then have "move_chain n ideal (hh_head b) E [] nonideal = Some (E, [], nonideal)" using c(2) by (simp add: move_chain.simps)
    then show ?thesis using Cons.IH [OF c(3)] Cons.prems(2,3) c(1) Nil by simp
  next
    case (Cons x xs)
    then have "hh_head b \<noteq> 0" using c Cons.prems(3) by auto
    then have "move_chain n ideal (hh_head b) E [] nonideal = None"
      by (subst move_chain.simps) (simp add: move_handle_def bucket_at_def Let_def bind_eq_None_conv)
    then show ?thesis by simp
  qed
qed simp

lemma expand_result:
  assumes "hash_table_ok E t es cs" "es \<noteq> []" "distinct es" "0 \<notin> set es" "set es \<subseteq> dom E" "length es < 2 ^ 32"
    and "HASH_EXPAND_BUCKETS A t E = Some (t', E')"
  shows "\<exists>cs'. hash_table_ok E' t' es cs' \<and> rechained (set es) E E' \<and> num_items t' = num_items t \<and> tbl_tail t' = tbl_tail t \<and> tbl_addr t' = tbl_addr t \<and>
    log2_num_buckets t' = Suc (log2_num_buckets t)"
proof (cases "log2_num_buckets t < 31")
  case True
  have "(2 :: nat) * 2 ^ log2_num_buckets t \<le> 2 * 2 ^ 30" using True by (intro mult_le_mono2 power_increasing) simp_all
  then have "wrap32 (2 * num_buckets t) = 2 * num_buckets t" using assms(1) by (simp add: hash_table_ok_def)
  then have "grant A (2 * num_buckets t * sizeof_UT_hash_bucket)"
    using assms(7) by (auto simp: HASH_EXPAND_BUCKETS_def Let_def split: if_splits)
  from expand_spec [OF assms(1) True this assms(3-6)] assms(7) show ?thesis by auto
next
  case False
  then have k31: "log2_num_buckets t = 31" using assms(1) by (simp add: hash_table_ok_def)
  then have k: "num_buckets t = 2 ^ 31" "length (buckets t) = num_buckets t" "list_all2 (bkt_ok E) (buckets t) cs"
    using assms(1) unfolding hash_table_ok_def by simp_all
  have "mset (concat cs) = mset es" using assms(1) by (simp add: hash_table_ok_def)
  then have c: "concat cs \<noteq> []" "0 \<notin> set (concat cs)" using assms(2,4) by (metis mset_zero_iff, metis set_mset_mset)
  have n: "wrap32 (2 * num_buckets t) = 0" unfolding k(1) by simp
  have "take (num_buckets t) (buckets t) = buckets t" using k(2) by simp
  then have "HASH_EXPAND_BUCKETS A t E = None"
    unfolding HASH_EXPAND_BUCKETS_def Let_def n by (simp add: move_chains_no_buckets [OF k(3) c])
  then show ?thesis using assms(7) by simp
qed

lemma add_to_bkt:
  assumes "hash_table_ok E t es cs" "distinct es" "0 \<notin> set es" "set es \<subseteq> dom E" "length es + 1 < 2 ^ 32"
    and "add \<in> dom E" "add \<notin> set es" "add \<noteq> 0" "bkt_of E (num_buckets t) add = i"
  shows "HASH_ADD_TO_BKT A t E i add = Some (t', E') \<Longrightarrow>
      \<exists>cs'. hash_table_ok E' t' (es @ [add]) cs' \<and> rechained (set (es @ [add])) E E' \<and> num_items t' = num_items t \<and> tbl_tail t' = tbl_tail t \<and>
        tbl_addr t' = tbl_addr t \<and> log2_num_buckets t' \<le> Suc (log2_num_buckets t)"
    and "log2_num_buckets t < 31 \<Longrightarrow> grant A (2 * num_buckets t * sizeof_UT_hash_bucket) \<Longrightarrow>
      \<exists>t' E'. HASH_ADD_TO_BKT A t E i add = Some (t', E')"
proof -
  have t: "log2_num_buckets t < 32" "num_buckets t = 2 ^ log2_num_buckets t" "length (buckets t) = num_buckets t"
    "list_all2 (bkt_ok E) (buckets t) cs" "placed (bkt_of E (num_buckets t)) cs" "mset (concat cs) = mset es"
    using assms(1) unfolding hash_table_ok_def by blast+
  have i: "i < length (buckets t)" unfolding t(3) t(2) assms(9) [symmetric] by (rule HASH_TO_BKT_pow [OF t(1)])
  have len: "length cs = length (buckets t)" using t(4) by (simp add: list_all2_lengthD)
  have c: "set (concat cs) = set es" "distinct (concat cs)" "length (concat cs) = length es"
    using t(6) assms(2) by (metis set_mset_mset, metis mset_eq_imp_distinct_iff, metis mset_eq_length)
  have sub: "set (cs ! i) \<subseteq> set es" using nth_subset_concat i len c(1) by metis
  have b: "bkt_ok E (buckets t ! i) (cs ! i)" using t(4) i by (simp add: list_all2_conv_all_nth)
  have d: "distinct (cs ! i)" "length (cs ! i) \<le> length es" using c i len by (simp_all add: concat_split [of i cs])
  obtain E1 where E1: "link_first add (hh_head (buckets t ! i)) E = Some E1" "bchain E1 (add # cs ! i)"
    "rechained (insert add (set (cs ! i))) E E1"
    using link_first_chain [of E "cs ! i" add] b d(1) sub assms(3,4,6-8) unfolding bkt_ok_def by auto
  define num where "num = wrap32 (bkt_count (buckets t ! i) + 1)"
  have num: "num = length (add # cs ! i)" using b d(2) assms(5) by (simp add: num_def bkt_ok_def)
  define b1 where "b1 = (buckets t ! i)\<lparr>hh_head := add, bkt_count := num\<rparr>"
  define t1 where "t1 = t\<lparr>buckets := (buckets t)[i := b1]\<rparr>"
  define cs1 where "cs1 = push_to (bkt_of E (num_buckets t)) cs add"
  have cs1: "cs1 = cs[i := add # cs ! i]" by (simp add: cs1_def push_to_def assms(9))
  have "bkt_ok E1 b1 (add # cs ! i)" using E1(2) num by (simp add: bkt_ok_def b1_def)
  have "add \<notin> set (concat cs)" unfolding c(1) by (rule assms(7))
  from buckets_link [OF t(4) i c(2) E1(3) this \<open>bkt_ok E1 b1 (add # cs ! i)\<close>] have l: "list_all2 (bkt_ok E1) (buckets t1) cs1"
    by (simp add: t1_def cs1)
  have hv: "fld hh_hashv E1 = fld hh_hashv E" by (rule rechained_fld [OF E1(3), symmetric]) simp
  have pl: "placed (bkt_of E (num_buckets t)) cs1" unfolding cs1_def by (rule placed_push_to [OF t(5)])
  have ms: "mset (concat cs1) = mset (es @ [add])"
    unfolding cs1_def using mset_push_to [of "bkt_of E (num_buckets t)" add cs] i len assms(9) t(6) by simp
  have tb: "hash_table_ok E1 t1 (es @ [add]) cs1"
    unfolding hash_table_ok_def using t(1-3) l pl ms hv by (simp add: t1_def)
  have r: "rechained (set (es @ [add])) E E1" using rechained_trans [OF E1(3) rechained_refl [of "{}"]] sub by auto
  have e: "es @ [add] \<noteq> []" "distinct (es @ [add])" "0 \<notin> set (es @ [add])" "set (es @ [add]) \<subseteq> dom E1" "length (es @ [add]) < 2 ^ 32"
    using assms(2-8) rechained_dom [OF r] by auto
  have un: "HASH_ADD_TO_BKT A t E i add =
      (if num \<ge> wrap32 (wrap32 (expand_mult (buckets t ! i) + 1) * HASH_BKT_CAPACITY_THRESH) \<and> noexpand t \<noteq> 1
       then HASH_EXPAND_BUCKETS A t1 E1 else Some (t1, E1))"
    using i E1(1) by (simp add: HASH_ADD_TO_BKT_def bucket_at_def Let_def num_def t1_def b1_def)
  have same: "num_items t1 = num_items t" "tbl_tail t1 = tbl_tail t" "tbl_addr t1 = tbl_addr t" "log2_num_buckets t1 = log2_num_buckets t"
    "num_buckets t1 = num_buckets t" by (simp_all add: t1_def)
  show "\<exists>cs'. hash_table_ok E' t' (es @ [add]) cs' \<and> rechained (set (es @ [add])) E E' \<and> num_items t' = num_items t \<and> tbl_tail t' = tbl_tail t \<and>
      tbl_addr t' = tbl_addr t \<and> log2_num_buckets t' \<le> Suc (log2_num_buckets t)" if "HASH_ADD_TO_BKT A t E i add = Some (t', E')"
  proof (cases "HASH_EXPAND_BUCKETS A t1 E1 = Some (t', E')")
    case True
    from expand_result [OF tb e True] obtain cs' where "hash_table_ok E' t' (es @ [add]) cs'" "rechained (set (es @ [add])) E1 E'"
      "num_items t' = num_items t1" "tbl_tail t' = tbl_tail t1" "tbl_addr t' = tbl_addr t1" "log2_num_buckets t' = Suc (log2_num_buckets t1)"
      by blast
    then show ?thesis using rechained_again [OF r] same by auto
  next
    case False
    then have "t' = t1" "E' = E1" using that unfolding un by (auto split: if_splits)
    then show ?thesis using tb r same by auto
  qed
  show "\<exists>t' E'. HASH_ADD_TO_BKT A t E i add = Some (t', E')"
    if "log2_num_buckets t < 31" "grant A (2 * num_buckets t * sizeof_UT_hash_bucket)"
    using expand_spec [OF tb _ _ e(2-5), of A] that same unfolding un by auto
qed

section \<open>Tables and their elements\<close>

definition ut_ok :: "'a ut_hash \<Rightarrow> nat list \<Rightarrow> nat list list \<Rightarrow> bool" where
  "ut_ok U es cs =
     (distinct es \<and> 0 \<notin> set es \<and> set es \<subseteq> dom (ut_elts U) \<and> length es < 2 ^ 32 \<and> ut_head U = hd (es @ [0]) \<and>
      achain (ut_elts U) es \<and>
      (es \<noteq> [] \<longrightarrow> (\<exists>t. ut_table U = Some t \<and> tbl_tail t = last es \<and> num_items t = length es \<and> hash_table_ok (ut_elts U) t es cs)))"

text \<open>What the links do not change of an element.\<close>

definition elt_data :: "'a ut_elt \<Rightarrow> 'a \<times> nat \<times> nat \<times> u32" where
  "elt_data x = (payload x, hh_key (hh x), hh_keylen (hh x), hh_hashv (hh x))"

abbreviation datas :: "'a ut_heap \<Rightarrow> nat \<Rightarrow> ('a \<times> nat \<times> nat \<times> u32) option" where
  "datas E p \<equiv> map_option elt_data (E p)"

lemma rechained_datas:
  assumes "rechained X E E'"
  shows "datas E' p = datas E p"
proof -
  have e: "elt_data (no_bkt x) = elt_data x" for x :: "'a ut_elt" by (simp add: elt_data_def no_bkt_def)
  have "map_option no_bkt (E p) = map_option no_bkt (E' p)" using assms by (simp add: rechained_def)
  then have "map_option elt_data (map_option no_bkt (E p)) = map_option elt_data (map_option no_bkt (E' p))" by (rule arg_cong)
  then show ?thesis by (simp add: option.map_comp comp_def e)
qed

lemma datas_fld: "datas E' p = datas E p \<Longrightarrow> fld hh_hashv E' p = fld hh_hashv E p"
  by (cases "E p"; cases "E' p") (simp_all add: fld_def elt_data_def)

lemma datas_dom: "datas E' p = datas E p \<Longrightarrow> p \<in> dom E' \<longleftrightarrow> p \<in> dom E"
  by (metis domD domIff option.map_disc_iff)

text \<open>An element of which only its links to other elements, its key or its table were written.\<close>

lemma bkt_ok_same:
  assumes "\<And>p. p \<in> set xs \<Longrightarrow> fld hh_prev E' p = fld hh_prev E p \<and> fld hh_next E' p = fld hh_next E p"
  shows "bkt_ok E' b xs = bkt_ok E b xs"
  unfolding bkt_ok_def using linked_cong [of xs "fld hh_prev E'" "fld hh_prev E" "fld hh_next E'" "fld hh_next E" 0 0] assms by blast

lemma table_ok_same:
  assumes "hash_table_ok E t es cs"
    and "\<And>p. p \<in> set es \<Longrightarrow> fld hh_prev E' p = fld hh_prev E p \<and> fld hh_next E' p = fld hh_next E p \<and> fld hh_hashv E' p = fld hh_hashv E p"
  shows "hash_table_ok E' t es cs"
proof -
  have c: "set (concat cs) = set es" using assms(1) unfolding hash_table_ok_def by (metis set_mset_mset)
  have "list_all2 (bkt_ok E') (buckets t) cs"
  proof (rule list.rel_mono_strong)
    show "list_all2 (bkt_ok E) (buckets t) cs" using assms(1) by (simp add: hash_table_ok_def)
    fix b xs assume "xs \<in> set cs" "bkt_ok E b xs"
    then show "bkt_ok E' b xs" using bkt_ok_same [of xs E' E b] assms(2) c by fastforce
  qed
  moreover have "placed (bkt_of E' (num_buckets t)) cs"
    unfolding placed_def
  proof (intro allI impI ballI)
    fix i x assume "i < length cs" "x \<in> set (cs ! i)"
    then have "x \<in> set es" "bkt_of E (num_buckets t) x = i"
      using assms(1) c nth_subset_concat [of i cs] by (auto simp: hash_table_ok_def placed_def)
    then show "bkt_of E' (num_buckets t) x = i" using assms(2) by simp
  qed
  ultimately show ?thesis using assms(1) by (simp add: hash_table_ok_def)
qed

text \<open>The element as it is when its key is read to be hashed.\<close>

definition placed_elt :: "'a ut_elt \<Rightarrow> nat \<Rightarrow> nat \<Rightarrow> nat \<Rightarrow> nat \<Rightarrow> 'a ut_elt" where
  "placed_elt x keyptr keylen prev addr =
     x\<lparr>hh := (hh x)\<lparr>hh_next_elt := 0, hh_key := keyptr, hh_keylen := keylen, hh_prev_elt := prev, hh_tbl := addr\<rparr>\<rparr>"

definition table_addr :: "'a ut_hash \<Rightarrow> nat \<Rightarrow> nat" where
  "table_addr U addr = (if ut_head U = 0 then addr else tbl_addr (the (ut_table U)))"

definition new_table :: "nat \<Rightarrow> nat \<Rightarrow> UT_hash_table" where
  "new_table addr head = \<lparr>tbl_addr = addr, buckets = replicate 32 \<lparr>hh_head = 0, bkt_count = 0, expand_mult = 0\<rparr>,
     num_buckets = 32, log2_num_buckets = 5, num_items = 1, tbl_tail = head, ideal_chain_maxlen = 0, nonideal_items = 0,
     ineff_expands = 0, noexpand = 0\<rparr>"

text \<open>The heap and the table when the new element is put into its bucket.\<close>

definition linked_heap :: "'a ut_hash \<Rightarrow> nat list \<Rightarrow> nat \<Rightarrow> 'a ut_elt \<Rightarrow> 'a ut_heap" where
  "linked_heap U es add y =
     ((if es = [] then ut_elts U
       else (ut_elts U)(last es \<mapsto> (the (ut_elts U (last es)))\<lparr>hh := (hh (the (ut_elts U (last es))))\<lparr>hh_next_elt := add\<rparr>\<rparr>))
      (add \<mapsto> y))"

definition linked_table :: "'a ut_hash \<Rightarrow> nat list \<Rightarrow> nat \<Rightarrow> nat \<Rightarrow> UT_hash_table" where
  "linked_table U es addr add =
     (if es = [] then new_table addr add else (the (ut_table U))\<lparr>tbl_tail := add, num_items := length es + 1\<rparr>)"

lemma add_unfold:
  fixes K :: "'a ut_elt \<Rightarrow> byte list"
  assumes "ut_ok U es cs" "add \<notin> set es" "add \<noteq> 0" "ut_elts U add = Some x" "length es + 1 < 2 ^ 32" "keylen < 2 ^ 32"
    and "y = placed_elt x keyptr keylen (last (0 # es)) (table_addr U addr)" "hv = HASH_JEN (take keylen (K y))"
  shows "HASH_ADD_KEYPTR A K addr U keyptr keylen add =
    (if es = [] \<and> \<not> (grant A sizeof_UT_hash_table \<and> grant A (32 * sizeof_UT_hash_bucket)) \<or> length (K y) < keylen then None
     else Option.bind (HASH_ADD_TO_BKT A (linked_table U es addr add) (linked_heap U es add (y\<lparr>hh := (hh y)\<lparr>hh_hashv := hv\<rparr>\<rparr>))
            (HASH_TO_BKT hv (num_buckets (linked_table U es addr add))) add)
       (\<lambda>(t2, E4). Some \<lparr>ut_elts = E4, ut_head = hd (es @ [add]), ut_table = Some t2\<rparr>))"
proof (cases "es = []")
  case True
  then have h: "ut_head U = 0" using assms(1) by (simp add: ut_ok_def)
  have u: "upd_hh add f E = Some (E(add \<mapsto> z\<lparr>hh := f (hh z)\<rparr>))" if "E add = Some z" for f z and E :: "'a ut_heap"
    using that by (rule upd_hh_Some)
  show ?thesis
    using assms(4,6) h True
    by (simp add: HASH_ADD_KEYPTR_def link_last_def HASH_MAKE_TABLE_def upd_hh_def Let_def assms(7,8) placed_elt_def table_addr_def
      linked_heap_def linked_table_def new_table_def HASH_INITIAL_NUM_BUCKETS_def HASH_INITIAL_NUM_BUCKETS_LOG2_def)
next
  case False
  moreover have "0 \<notin> set es" using assms(1) by (simp add: ut_ok_def)
  ultimately have "hd es \<noteq> 0" by (metis hd_in_set)
  with False obtain t where t: "ut_table U = Some t" "tbl_tail t = last es" "num_items t = length es"
    and h: "ut_head U \<noteq> 0" "ut_head U = hd (es @ [add])" using assms(1) by (auto simp: ut_ok_def)
  have l: "last es \<noteq> add" "last es \<in> dom (ut_elts U)"
    using assms(1,2) last_in_set [OF False] unfolding ut_ok_def by blast+
  then obtain z where z: "ut_elts U (last es) = Some z" by blast
  show ?thesis
    using assms(4-6) h t z False l(1)
    by (simp add: HASH_ADD_KEYPTR_def link_last_def upd_hh_def Let_def assms(7,8) placed_elt_def table_addr_def
      linked_heap_def linked_table_def fun_upd_twist)
qed

lemma new_table_ok: "hash_table_ok E (new_table addr add) [] (replicate 32 [])"
  by (simp add: hash_table_ok_def new_table_def list_all2_conv_all_nth bkt_ok_def placed_def)

lemma linked_heap_facts:
  assumes "ut_ok U es cs" "add \<notin> set es"
  shows "achain (linked_heap U es add y) (es @ [add]) \<longleftrightarrow> hh_prev_elt (hh y) = last (0 # es) \<and> hh_next_elt (hh y) = 0"
    and "\<And>p. p \<noteq> add \<Longrightarrow> fld hh_prev (linked_heap U es add y) p = fld hh_prev (ut_elts U) p \<and>
      fld hh_next (linked_heap U es add y) p = fld hh_next (ut_elts U) p \<and> datas (linked_heap U es add y) p = datas (ut_elts U) p"
    and "insert add (set es) \<subseteq> dom (linked_heap U es add y)" "linked_heap U es add y add = Some y"
proof -
  define E where "E = linked_heap U es add y"
  have l: "es \<noteq> [] \<Longrightarrow> last es \<in> dom (ut_elts U) \<and> last es \<noteq> add"
    using assms last_in_set [of es] unfolding ut_ok_def by blast
  have ok: "distinct es" "set es \<subseteq> dom (ut_elts U)" "achain (ut_elts U) es" using assms(1) by (simp_all add: ut_ok_def)
  have same: "fld hh_prev_elt E p = fld hh_prev_elt (ut_elts U) p" if "p \<noteq> add" for p
    using that l by (cases "es = []") (auto simp: E_def linked_heap_def fld_def)
  have forth: "fld hh_next_elt E p = (if es = [] then fld hh_next_elt (ut_elts U) else (fld hh_next_elt (ut_elts U))(last es := Some add)) p"
    if "p \<noteq> add" for p
    using that l by (cases "es = []") (auto simp: E_def linked_heap_def fld_def)
  have "linked (fld hh_prev_elt E) (fld hh_next_elt E) 0 es add =
      linked (fld hh_prev_elt (ut_elts U))
        (if es = [] then fld hh_next_elt (ut_elts U) else (fld hh_next_elt (ut_elts U))(last es := Some add)) 0 es add"
    using same forth assms(2) by (intro linked_cong) metis
  then have "linked (fld hh_prev_elt E) (fld hh_next_elt E) 0 es add" using linked_new_next [OF ok(3,1), of add] by simp
  moreover have "fld f E add = Some (f (hh y))" for f :: "UT_hash_handle \<Rightarrow> nat" by (simp add: E_def linked_heap_def fld_def)
  ultimately show "achain (linked_heap U es add y) (es @ [add]) \<longleftrightarrow> hh_prev_elt (hh y) = last (0 # es) \<and> hh_next_elt (hh y) = 0"
    unfolding E_def [symmetric] by (auto simp: linked_append)
  show "fld hh_prev (linked_heap U es add y) p = fld hh_prev (ut_elts U) p \<and>
      fld hh_next (linked_heap U es add y) p = fld hh_next (ut_elts U) p \<and> datas (linked_heap U es add y) p = datas (ut_elts U) p"
    if "p \<noteq> add" for p
    using that l by (cases "es = []") (auto simp: linked_heap_def fld_def elt_data_def)
  show "insert add (set es) \<subseteq> dom (linked_heap U es add y)" using ok(2) by (auto simp: linked_heap_def)
  show "linked_heap U es add y add = Some y" by (simp add: linked_heap_def)
qed

lemma add_result:
  fixes K :: "'a ut_elt \<Rightarrow> byte list"
  assumes "ut_ok U es cs" "add \<notin> set es" "add \<noteq> 0" "ut_elts U add = Some x" "length es + 1 < 2 ^ 32" "keylen < 2 ^ 32"
    and "y = placed_elt x keyptr keylen (last (0 # es)) (table_addr U addr)" "hv = HASH_JEN (take keylen (K y))"
  shows "HASH_ADD_KEYPTR A K addr U keyptr keylen add = Some U' \<Longrightarrow>
      keylen \<le> length (K y) \<and> (\<exists>cs'. ut_ok U' (es @ [add]) cs') \<and>
      (\<forall>p. p \<noteq> add \<longrightarrow> datas (ut_elts U') p = datas (ut_elts U) p) \<and> datas (ut_elts U') add = Some (payload x, keyptr, keylen, hv) \<and>
      log2_num_buckets (the (ut_table U')) \<le> Suc (if es = [] then 5 else log2_num_buckets (the (ut_table U)))"
    and "keylen \<le> length (K y) \<Longrightarrow>
      (if es = [] then grant A 64 \<and> grant A 512 \<and> grant A 1024
       else log2_num_buckets (the (ut_table U)) < 31 \<and> grant A (2 * num_buckets (the (ut_table U)) * sizeof_UT_hash_bucket)) \<Longrightarrow>
      \<exists>U'. HASH_ADD_KEYPTR A K addr U keyptr keylen add = Some U'"
proof -
  define z where "z = y\<lparr>hh := (hh y)\<lparr>hh_hashv := hv\<rparr>\<rparr>"
  define E where "E = linked_heap U es add z"
  define t where "t = linked_table U es addr add"
  note facts = linked_heap_facts [OF assms(1,2), where y = z, folded E_def]
  have un: "HASH_ADD_KEYPTR A K addr U keyptr keylen add =
    (if es = [] \<and> \<not> (grant A sizeof_UT_hash_table \<and> grant A (32 * sizeof_UT_hash_bucket)) \<or> length (K y) < keylen then None
     else Option.bind (HASH_ADD_TO_BKT A t E (HASH_TO_BKT hv (num_buckets t)) add)
       (\<lambda>(t2, E4). Some \<lparr>ut_elts = E4, ut_head = hd (es @ [add]), ut_table = Some t2\<rparr>))"
    unfolding t_def E_def z_def using assms by (rule add_unfold)
  have ok: "distinct es" "0 \<notin> set es" "set es \<subseteq> dom E" "add \<in> dom E" using assms(1) facts(3) by (auto simp: ut_ok_def)
  have hv: "fld hh_hashv E add = Some hv" using facts(4) by (simp add: fld_def z_def)
  then have i: "bkt_of E (num_buckets t) add = HASH_TO_BKT hv (num_buckets t)" by simp
  define cs1 where "cs1 = (if es = [] then replicate 32 [] else cs)"
  have tb: "hash_table_ok E t es cs1"
  proof (cases "es = []")
    case True
    then show ?thesis using new_table_ok by (simp add: cs1_def t_def linked_table_def)
  next
    case False
    then obtain t0 where t0: "ut_table U = Some t0" "hash_table_ok (ut_elts U) t0 es cs" using assms(1) by (auto simp: ut_ok_def)
    have "hash_table_ok E t0 es cs" by (rule table_ok_same [OF t0(2)]) (metis assms(2) facts(2) datas_fld)
    then show ?thesis using False t0(1) by (simp add: cs1_def t_def linked_table_def)
  qed
  have items: "num_items t = length (es @ [add])" "tbl_tail t = last (es @ [add])" by (simp_all add: t_def linked_table_def new_table_def)
  note bkt = add_to_bkt [OF tb ok(1-3) assms(5) ok(4) assms(2,3) i, of A]
  show "keylen \<le> length (K y) \<and> (\<exists>cs'. ut_ok U' (es @ [add]) cs') \<and>
      (\<forall>p. p \<noteq> add \<longrightarrow> datas (ut_elts U') p = datas (ut_elts U) p) \<and> datas (ut_elts U') add = Some (payload x, keyptr, keylen, hv) \<and>
      log2_num_buckets (the (ut_table U')) \<le> Suc (if es = [] then 5 else log2_num_buckets (the (ut_table U)))"
    if res: "HASH_ADD_KEYPTR A K addr U keyptr keylen add = Some U'"
  proof -
    obtain t2 E4 where r: "HASH_ADD_TO_BKT A t E (HASH_TO_BKT hv (num_buckets t)) add = Some (t2, E4)"
      and U': "U' = \<lparr>ut_elts = E4, ut_head = hd (es @ [add]), ut_table = Some t2\<rparr>" and len: "keylen \<le> length (K y)"
      using res unfolding un by (auto simp: bind_eq_Some_conv split: if_splits)
    from bkt(1) [OF r] obtain cs' where c: "hash_table_ok E4 t2 (es @ [add]) cs'" "rechained (set (es @ [add])) E E4"
      "num_items t2 = num_items t" "tbl_tail t2 = tbl_tail t" "log2_num_buckets t2 \<le> Suc (log2_num_buckets t)" by blast
    have "achain E4 (es @ [add]) = achain E (es @ [add])"
      using rechained_fld [OF c(2), of hh_prev_elt] rechained_fld [OF c(2), of hh_next_elt] by simp
    then have ch: "achain E4 (es @ [add])" using facts(1) by (simp add: z_def assms(7) placed_elt_def)
    have "hd ((es @ [add]) @ [0]) = hd (es @ [add])" by (cases es) simp_all
    then have "ut_ok U' (es @ [add]) cs'"
      unfolding ut_ok_def U' using ok assms(2,3,5) ch c items rechained_dom [OF c(2)] by auto
    moreover have "\<forall>p. p \<noteq> add \<longrightarrow> datas E4 p = datas (ut_elts U) p"
      using rechained_datas [OF c(2)] facts(2) by metis
    moreover have "datas E4 add = Some (payload x, keyptr, keylen, hv)"
      using rechained_datas [OF c(2), of add] facts(4) by (simp add: elt_data_def z_def assms(7) placed_elt_def)
    moreover have "log2_num_buckets (the (ut_table U')) \<le> Suc (if es = [] then 5 else log2_num_buckets (the (ut_table U)))"
      using c(5) by (simp add: U' t_def linked_table_def new_table_def split: if_splits)
    ultimately show ?thesis using len U' by auto
  qed
  show "\<exists>U'. HASH_ADD_KEYPTR A K addr U keyptr keylen add = Some U'"
    if "keylen \<le> length (K y)" "if es = [] then grant A 64 \<and> grant A 512 \<and> grant A 1024
       else log2_num_buckets (the (ut_table U)) < 31 \<and> grant A (2 * num_buckets (the (ut_table U)) * sizeof_UT_hash_bucket)"
  proof -
    have "log2_num_buckets t < 31 \<and> grant A (2 * num_buckets t * sizeof_UT_hash_bucket)"
      using that(2) by (auto simp: t_def linked_table_def new_table_def sizeof_UT_hash_bucket_def split: if_splits)
    then show ?thesis using bkt(2) that unfolding un by (auto simp: sizeof_UT_hash_table_def sizeof_UT_hash_bucket_def split: if_splits)
  qed
qed

section \<open>Finding and deleting\<close>

definition key_hit :: "('a ut_elt \<Rightarrow> byte list) \<Rightarrow> 'a ut_heap \<Rightarrow> byte list \<Rightarrow> nat \<Rightarrow> bool" where
  "key_hit K E name p = (key_is K name (the (E p)) = Some True)"

lemma find_in_bkt:
  assumes "fpath (fld hh_next E) xs" "0 \<notin> set xs" "set xs \<subseteq> dom E" "\<And>p. p \<in> set xs \<Longrightarrow> key_is K name (the (E p)) \<noteq> None"
  shows "HASH_FIND_IN_BKT K E name (hd (xs @ [0])) = Some (hd (filter (key_hit K E name) xs @ [0]))"
  using assms
proof (induction xs)
  case Nil
  then show ?case by (simp add: HASH_FIND_IN_BKT.simps)
next
  case (Cons x xs)
  obtain y where y: "E x = Some y" using Cons.prems(3) by auto
  obtain found where f: "key_is K name y = Some found" using Cons.prems(4) [of x] y by auto
  have nx: "hh_next (hh y) = hd (xs @ [0])" using Cons.prems(1) y by (simp add: fld_def)
  have h: "key_hit K E name x = found" using y f by (simp add: key_hit_def)
  have "HASH_FIND_IN_BKT K E name (hd (xs @ [0])) = Some (hd (filter (key_hit K E name) xs @ [0]))"
    using Cons.prems by (intro Cons.IH) auto
  then show ?case
    using Cons.prems(2) y f nx h by (subst HASH_FIND_IN_BKT.simps) simp
qed

text \<open>What is found has the key, and nothing is found only if no element with the hash of the name has it.\<close>

lemma find_result:
  assumes "ut_ok U es cs" "\<And>p. p \<in> set es \<Longrightarrow> key_is K name (the (ut_elts U p)) \<noteq> None"
  shows "\<exists>r. HASH_FIND K U name = Some r \<and> (r \<noteq> 0 \<longrightarrow> r \<in> set es \<and> key_hit K (ut_elts U) name r) \<and>
    (r = 0 \<longrightarrow> (\<forall>p \<in> set es. key_hit K (ut_elts U) name p \<longrightarrow> fld hh_hashv (ut_elts U) p \<noteq> Some (HASH_JEN name)))"
proof (cases "es = []")
  case True
  then show ?thesis using assms(1) by (simp add: HASH_FIND_def ut_ok_def)
next
  case False
  let ?E = "ut_elts U"
  have "0 \<notin> set es" using assms(1) by (simp add: ut_ok_def)
  then have "hd es \<noteq> 0" using False by (metis hd_in_set)
  with False obtain t where t: "ut_table U = Some t" "hash_table_ok ?E t es cs" and h: "ut_head U \<noteq> 0" using assms(1) by (auto simp: ut_ok_def)
  let ?i = "HASH_TO_BKT (HASH_JEN name) (num_buckets t)"
  have tb: "log2_num_buckets t < 32" "num_buckets t = 2 ^ log2_num_buckets t" "length (buckets t) = num_buckets t"
    "list_all2 (bkt_ok ?E) (buckets t) cs" "placed (bkt_of ?E (num_buckets t)) cs" "mset (concat cs) = mset es"
    using t(2) unfolding hash_table_ok_def by blast+
  have i: "?i < length (buckets t)" unfolding tb(3) tb(2) by (rule HASH_TO_BKT_pow [OF tb(1)])
  have len: "length cs = length (buckets t)" using tb(4) by (simp add: list_all2_lengthD)
  have c: "set (concat cs) = set es" using tb(6) by (metis set_mset_mset)
  have sub: "set (cs ! ?i) \<subseteq> set es" using nth_subset_concat [of ?i cs] i len c by simp
  have b: "bkt_ok ?E (buckets t ! ?i) (cs ! ?i)" using tb(4) i by (simp add: list_all2_conv_all_nth)
  have pth: "fpath (fld hh_next ?E) (cs ! ?i)" using b linked_fpath unfolding bkt_ok_def by blast
  have z: "0 \<notin> set (cs ! ?i)" "set (cs ! ?i) \<subseteq> dom ?E" using sub \<open>0 \<notin> set es\<close> assms(1) by (auto simp: ut_ok_def)
  define hits where "hits = filter (key_hit K ?E name) (cs ! ?i)"
  have "HASH_FIND K U name = Some (hd (hits @ [0]))"
    using find_in_bkt [OF pth z assms(2)] sub b h t(1) i by (auto simp: HASH_FIND_def bucket_at_def bkt_ok_def hits_def)
  moreover have "\<forall>p \<in> set es. key_hit K ?E name p \<longrightarrow> fld hh_hashv ?E p \<noteq> Some (HASH_JEN name)" if "hits = []"
  proof (intro ballI impI notI)
    fix p assume p: "p \<in> set es" "key_hit K ?E name p" "fld hh_hashv ?E p = Some (HASH_JEN name)"
    from p(1) c obtain xs where "xs \<in> set cs" "p \<in> set xs" by auto
    then obtain j where j: "j < length cs" "p \<in> set (cs ! j)" by (metis in_set_conv_nth)
    then have "bkt_of ?E (num_buckets t) p = j" using tb(5) unfolding placed_def by blast
    then have "?i = j" by (simp add: p(3))
    then show False using j(2) p(2) that by (auto simp: hits_def filter_empty_conv)
  qed
  moreover have "hd (hits @ [0]) \<in> set es \<and> key_hit K ?E name (hd (hits @ [0]))" if "hits \<noteq> []"
  proof -
    have "hd hits \<in> set hits" using that by simp
    then show ?thesis using that sub by (auto simp: hits_def)
  qed
  moreover have "0 \<notin> set hits" using z(1) by (simp add: hits_def)
  then have "hd (hits @ [0]) = 0 \<Longrightarrow> hits = []" by (cases hits) auto
  ultimately show ?thesis by (cases "hits = []") auto
qed

text \<open>Writing the handle of a neighbour, if there is one.\<close>

lemma touch_Some: "(p \<noteq> 0 \<Longrightarrow> p \<in> dom E) \<Longrightarrow> \<exists>E'. (if p \<noteq> 0 then upd_hh p f E else Some E) = Some E'"
  by (cases "E p") (auto simp: upd_hh_def)

lemma touch_dom: "(if p \<noteq> 0 then upd_hh p f E else Some E) = Some E' \<Longrightarrow> dom E' = dom E"
  by (auto simp: upd_hh_def split: if_splits option.splits)

lemma touch_same:
  assumes "(if p \<noteq> 0 then upd_hh p f E else Some E) = Some E'" "\<And>x. g (x\<lparr>hh := f (hh x)\<rparr>) = g x"
  shows "map_option g (E' q) = map_option g (E q)"
  using assms by (auto simp: upd_hh_def split: if_splits option.splits)

lemma touch_outside: "(if p \<noteq> 0 then upd_hh p f E else Some E) = Some E' \<Longrightarrow> q \<noteq> p \<or> q = 0 \<Longrightarrow> E' q = E q"
  by (auto simp: upd_hh_def split: if_splits option.splits)

lemma touch_fld_same:
  assumes "(if p \<noteq> 0 then upd_hh p f E else Some E) = Some E'" "\<And>h. g (f h) = g h"
  shows "fld g E' = fld g E"
  by (rule ext) (use assms in \<open>auto simp: fld_def upd_hh_def split: if_splits option.splits\<close>)

lemma touch_fld:
  assumes "(if p \<noteq> 0 then upd_hh p f E else Some E) = Some E'" "\<And>h. g (f h) = v"
  shows "fld g E' = (if p \<noteq> 0 then (fld g E)(p := Some v) else fld g E)"
  by (rule ext) (use assms in \<open>auto simp: fld_def upd_hh_def split: if_splits option.splits\<close>)

text \<open>The links of a chain, in the order of the elements or of a bucket.\<close>

locale link_fields =
  fixes bwd fwd :: "UT_hash_handle \<Rightarrow> nat" and set_back set_forth :: "(nat \<Rightarrow> nat) \<Rightarrow> UT_hash_handle \<Rightarrow> UT_hash_handle"
  assumes bwd_bwd: "bwd (set_back f h) = f (bwd h)" and fwd_bwd: "fwd (set_back f h) = fwd h"
    and bwd_fwd: "bwd (set_forth f h) = bwd h" and fwd_fwd: "fwd (set_forth f h) = f (fwd h)"
begin

lemma unlink_cases:
  assumes "unlink set_back set_forth before behind E = Some E'"
  obtains E1 where "(if before \<noteq> 0 then upd_hh before (set_forth (\<lambda>_. behind)) E else Some E) = Some E1"
    and "(if behind \<noteq> 0 then upd_hh behind (set_back (\<lambda>_. before)) E1 else Some E1) = Some E'"
  using assms unfolding unlink_def bind_eq_Some_conv by blast

lemma unlink_Some:
  assumes "before \<noteq> 0 \<Longrightarrow> before \<in> dom E" "behind \<noteq> 0 \<Longrightarrow> behind \<in> dom E"
  obtains E' where "unlink set_back set_forth before behind E = Some E'"
proof -
  obtain E1 where E1: "(if before \<noteq> 0 then upd_hh before (set_forth (\<lambda>_. behind)) E else Some E) = Some E1"
    using touch_Some [OF assms(1)] by blast
  then have "dom E1 = dom E" by (rule touch_dom)
  then obtain E2 where "(if behind \<noteq> 0 then upd_hh behind (set_back (\<lambda>_. before)) E1 else Some E1) = Some E2"
    using touch_Some [of behind E1] assms(2) by blast
  then show thesis using that [of E2] E1 unfolding unlink_def by simp
qed

lemma unlink_same:
  assumes "unlink set_back set_forth before behind E = Some E'"
    and "\<And>x f. g (x\<lparr>hh := set_back f (hh x)\<rparr>) = g x" "\<And>x f. g (x\<lparr>hh := set_forth f (hh x)\<rparr>) = g x"
  shows "map_option g (E' p) = map_option g (E p)"
  using assms(1)
proof (rule unlink_cases)
  fix E1
  assume a: "(if before \<noteq> 0 then upd_hh before (set_forth (\<lambda>_. behind)) E else Some E) = Some E1"
    "(if behind \<noteq> 0 then upd_hh behind (set_back (\<lambda>_. before)) E1 else Some E1) = Some E'"
  show ?thesis
    using touch_same [where g = g, OF a(1) assms(3)] touch_same [where g = g, OF a(2) assms(2)] by simp
qed

lemma unlink_outside:
  assumes "unlink set_back set_forth before behind E = Some E'" "p \<noteq> before \<or> p = 0" "p \<noteq> behind \<or> p = 0"
  shows "E' p = E p"
  using assms(1) by (rule unlink_cases) (use assms(2,3) touch_outside in metis)

lemma unlink_fields:
  assumes "unlink set_back set_forth before behind E = Some E'"
  shows "fld bwd E' = (if behind \<noteq> 0 then (fld bwd E)(behind := Some before) else fld bwd E)"
    and "fld fwd E' = (if before \<noteq> 0 then (fld fwd E)(before := Some behind) else fld fwd E)"
proof -
  from assms obtain E1 where a: "(if before \<noteq> 0 then upd_hh before (set_forth (\<lambda>_. behind)) E else Some E) = Some E1"
    "(if behind \<noteq> 0 then upd_hh behind (set_back (\<lambda>_. before)) E1 else Some E1) = Some E'"
    by (rule unlink_cases)
  have b: "fld bwd E1 = fld bwd E" "fld fwd E' = fld fwd E1"
    using touch_fld_same [where g = bwd, OF a(1)] touch_fld_same [where g = fwd, OF a(2)] by (simp_all add: bwd_fwd fwd_bwd)
  have c: "fld fwd E1 = (if before \<noteq> 0 then (fld fwd E)(before := Some behind) else fld fwd E)"
    using touch_fld [where g = fwd, OF a(1)] by (simp add: fwd_fwd)
  have d: "fld bwd E' = (if behind \<noteq> 0 then (fld bwd E1)(behind := Some before) else fld bwd E1)"
    using touch_fld [where g = bwd, OF a(2)] by (simp add: bwd_bwd)
  show "fld bwd E' = (if behind \<noteq> 0 then (fld bwd E)(behind := Some before) else fld bwd E)"
    using d unfolding b .
  show "fld fwd E' = (if before \<noteq> 0 then (fld fwd E)(before := Some behind) else fld fwd E)"
    unfolding b c ..
qed

lemma unlink_linked:
  assumes "linked (fld bwd E) (fld fwd E) 0 (as @ d # bs) 0" "distinct (as @ d # bs)" "0 \<notin> set (as @ d # bs)"
    and "unlink set_back set_forth (last (0 # as)) (hd (bs @ [0])) E = Some E'"
  shows "linked (fld bwd E') (fld fwd E') 0 (as @ bs) 0"
proof -
  let ?P = "fld bwd E" let ?N = "fld fwd E"
  have z: "last (0 # as) \<noteq> 0 \<longleftrightarrow> as \<noteq> []" "hd (bs @ [0]) \<noteq> 0 \<longleftrightarrow> bs \<noteq> []"
    using assms(3) ends_zero [of as] ends_zero [of bs] by simp_all
  define P where "P = (if bs = [] then ?P else ?P(hd bs := Some (last (0 # as))))"
  define N where "N = (if as = [] then ?N else ?N(last as := Some (hd (bs @ [0]))))"
  have f: "fld bwd E' = P" "fld fwd E' = N"
    using unlink_fields [OF assms(4)] z by (auto simp: P_def N_def)
  have l: "linked ?P ?N 0 as d" "linked ?P ?N d bs 0" using assms(1) by (simp_all add: linked_append)
  have d: "distinct as" "distinct bs" "set as \<inter> set bs = {}" using assms(2) by auto
  have "linked ?P N 0 as (hd (bs @ [0]))" using linked_new_next [OF l(1) d(1)] by (simp add: N_def)
  moreover have "linked P N 0 as (hd (bs @ [0])) = linked ?P N 0 as (hd (bs @ [0]))"
    using d(3) hd_in_set [of bs] by (intro linked_cong) (auto simp: P_def)
  moreover have "linked P ?N (last (0 # as)) bs 0" unfolding P_def by (rule linked_new_prev [OF l(2) d(2)])
  moreover have "linked P N (last (0 # as)) bs 0 = linked P ?N (last (0 # as)) bs 0"
  proof (intro linked_cong)
    fix x assume "x \<in> set bs"
    then have "as \<noteq> [] \<longrightarrow> x \<noteq> last as" using d(3) last_in_set [of as] by blast
    then show "P x = P x \<and> N x = ?N x" by (simp add: N_def)
  qed
  ultimately show ?thesis by (simp add: f linked_append)
qed

end

interpretation app: link_fields hh_prev_elt hh_next_elt hh_prev_elt_update hh_next_elt_update
  by unfold_locales simp_all

interpretation bkt: link_fields hh_prev hh_next hh_prev_update hh_next_update
  by unfold_locales simp_all

lemma concat_remove:
  assumes "i < length cs" "cs ! i = xs @ d # ys"
  shows "add_mset d (mset (concat (cs[i := xs @ ys]))) = mset (concat cs)"
  using assms by (simp add: concat_update concat_split)

lemma del_in_bkt:
  assumes "hash_table_ok E t es cs" "distinct es" "0 \<notin> set es" "set es \<subseteq> dom E" "length es < 2 ^ 32" "d \<in> set es"
  shows "\<exists>t' E' cs'. HASH_DEL_IN_BKT t E (bkt_of E (num_buckets t) d) d = Some (t', E') \<and> hash_table_ok E' t' (remove1 d es) cs' \<and>
    rechained (set es) E E' \<and> num_items t' = num_items t \<and> tbl_tail t' = tbl_tail t \<and> log2_num_buckets t' = log2_num_buckets t"
proof -
  let ?f = "bkt_of E (num_buckets t)"
  have t: "log2_num_buckets t < 32" "num_buckets t = 2 ^ log2_num_buckets t" "length (buckets t) = num_buckets t"
    "list_all2 (bkt_ok E) (buckets t) cs" "placed ?f cs" "mset (concat cs) = mset es"
    using assms(1) unfolding hash_table_ok_def by blast+
  have c: "set (concat cs) = set es" "distinct (concat cs)" "length (concat cs) = length es"
    using t(6) assms(2) by (metis set_mset_mset, metis mset_eq_imp_distinct_iff, metis mset_eq_length)
  have len: "length cs = length (buckets t)" using t(4) by (simp add: list_all2_lengthD)
  obtain i where i: "i < length cs" "d \<in> set (cs ! i)" using assms(6) c(1) by (metis UN_E in_set_conv_nth set_concat)
  then have fi: "?f d = i" using t(5) unfolding placed_def by blast
  obtain xs ys where xy: "cs ! i = xs @ d # ys" using i(2) by (metis split_list)
  have sub: "set (cs ! i) \<subseteq> set es" using nth_subset_concat [OF i(1)] c(1) by simp
  have dis: "distinct (xs @ d # ys)" "length (xs @ d # ys) < 2 ^ 32" "0 \<notin> set (xs @ d # ys)"
    using c i(1) assms(3,5) sub by (auto simp: concat_split [of i cs] xy)
  obtain b where b: "buckets t ! i = b" "bkt_ok E b (xs @ d # ys)" using t(4) i(1) len xy by (auto simp: list_all2_conv_all_nth)
  have bl: "hh_head b = hd (xs @ [d])" "bkt_count b = length (xs @ d # ys)" "bchain E (xs @ d # ys)"
    using b(2) by (auto simp: bkt_ok_def hd_append)
  have dl: "fld hh_prev E d = Some (last (0 # xs))" "fld hh_next E d = Some (hd (ys @ [0]))"
    using bl(3) by (simp_all add: linked_append)
  obtain x where x: "E d = Some x" using assms(4,6) by blast
  then have hx: "hh_prev (hh x) = last (0 # xs)" "hh_next (hh x) = hd (ys @ [0])" using dl by (simp_all add: fld_def)
  have dm: "last (0 # xs) \<noteq> 0 \<Longrightarrow> last (0 # xs) \<in> set es" "hd (ys @ [0]) \<noteq> 0 \<Longrightarrow> hd (ys @ [0]) \<in> set es"
    using sub unfolding xy by (auto simp: hd_append split: if_splits)
  obtain E' where un: "unlink hh_prev_update hh_next_update (last (0 # xs)) (hd (ys @ [0])) E = Some E'"
    using bkt.unlink_Some [of "last (0 # xs)" E "hd (ys @ [0])"] dm assms(4) by blast
  have ch: "bchain E' (xs @ ys)" by (rule bkt.unlink_linked [OF bl(3) dis(1,3) un])
  have nb: "map_option no_bkt (E' p) = map_option no_bkt (E p)" for p
    using bkt.unlink_same [OF un, of no_bkt p] by (simp add: no_bkt_def)
  have r: "rechained (set (cs ! i)) E E'"
    unfolding rechained_def
  proof (intro allI conjI impI)
    fix p
    show "map_option no_bkt (E p) = map_option no_bkt (E' p)" using nb by simp
    assume "p \<notin> set (cs ! i)"
    then have "p \<noteq> last (0 # xs) \<or> p = 0" "p \<noteq> hd (ys @ [0]) \<or> p = 0"
      unfolding xy by (auto simp: hd_append split: if_splits)
    then show "E p = E' p" using bkt.unlink_outside [OF un] by simp
  qed
  define b1 where "b1 = b\<lparr>bkt_count := wrap32 (bkt_count b + (2 ^ 32 - 1)),
    hh_head := (if hh_head b = d then hh_next (hh x) else hh_head b)\<rparr>"
  define t1 where "t1 = t\<lparr>buckets := (buckets t)[i := b1]\<rparr>"
  have "wrap32 (bkt_count b + (2 ^ 32 - 1)) = length (xs @ ys)"
    using bl(2) dis(2) by (simp add: mod_if)
  moreover have "(if hh_head b = d then hh_next (hh x) else hh_head b) = hd ((xs @ ys) @ [0])"
    using bl(1) dis(1) hx(2) by (cases xs) auto
  ultimately have "bkt_ok E' b1 (xs @ ys)" using ch by (simp add: bkt_ok_def b1_def)
  with buckets_change [OF t(4) _ c(2) r _ this] have l: "list_all2 (bkt_ok E') (buckets t1) (cs[i := xs @ ys])"
    using i(1) len by (simp add: t1_def)
  have hv: "fld hh_hashv E' = fld hh_hashv E" by (rule rechained_fld [OF r, symmetric]) simp
  have pl: "placed ?f (cs[i := xs @ ys])"
    using t(5) i(1) xy unfolding placed_def by (auto simp: nth_list_update)
  have "mset (concat (cs[i := xs @ ys])) = mset (remove1 d es)"
    using concat_remove [OF i(1) xy] t(6) assms(6) by (metis add_mset_remove_trivial mset_remove1)
  then have "hash_table_ok E' t1 (remove1 d es) (cs[i := xs @ ys])"
    unfolding hash_table_ok_def using t(1-3) l pl hv by (simp add: t1_def)
  moreover have "HASH_DEL_IN_BKT t E (?f d) d = Some (t1, E')"
    unfolding fi using i(1) len b(1) x un hx by (simp add: HASH_DEL_IN_BKT_def bucket_at_def Let_def t1_def b1_def)
  moreover have "rechained (set es) E E'" using rechained_trans [OF r rechained_refl [of "{}"]] sub by auto
  ultimately show ?thesis by (intro exI [of _ t1] exI [of _ E']) (auto simp: t1_def)
qed

lemma delete_result:
  assumes "ut_ok U es cs" "d \<in> set es"
  shows "\<exists>U' cs'. HASH_DELETE U d = Some U' \<and> ut_ok U' (remove1 d es) cs' \<and> (\<forall>p. datas (ut_elts U') p = datas (ut_elts U) p) \<and>
    (remove1 d es \<noteq> [] \<longrightarrow> log2_num_buckets (the (ut_table U')) = log2_num_buckets (the (ut_table U)))"
proof -
  let ?E = "ut_elts U"
  have ok: "distinct es" "0 \<notin> set es" "set es \<subseteq> dom ?E" "length es < 2 ^ 32" "achain ?E es" "ut_head U = hd (es @ [0])"
    using assms(1) unfolding ut_ok_def by blast+
  obtain t where t: "ut_table U = Some t" "tbl_tail t = last es" "num_items t = length es" "hash_table_ok ?E t es cs"
    using assms unfolding ut_ok_def by force
  obtain as bs where es: "es = as @ d # bs" "d \<notin> set as" using assms(2) by (metis split_list_first)
  have rem: "remove1 d es = as @ bs" using es by (simp add: remove1_append)
  have l: "fld hh_prev_elt ?E d = Some (last (0 # as))" "fld hh_next_elt ?E d = Some (hd (bs @ [0]))"
    using ok(5) by (simp_all add: es(1) linked_append)
  obtain x where x: "?E d = Some x" using assms(2) ok(3) by blast
  then have hx: "hh_prev_elt (hh x) = last (0 # as)" "hh_next_elt (hh x) = hd (bs @ [0])" using l by (simp_all add: fld_def)
  have z: "last (0 # as) = 0 \<longleftrightarrow> as = []" "hd (bs @ [0]) = 0 \<longleftrightarrow> bs = []"
    using ok(2) ends_zero [of as] ends_zero [of bs] by (simp_all add: es(1))
  show ?thesis
  proof (cases "as = [] \<and> bs = []")
    case True
    then have "HASH_DELETE U d = Some (U\<lparr>ut_head := 0, ut_table := None\<rparr>)" using x hx by (simp add: HASH_DELETE_def)
    moreover have "ut_ok (U\<lparr>ut_head := 0, ut_table := None\<rparr>) (remove1 d es) cs" using True by (simp add: rem ut_ok_def)
    ultimately show ?thesis using True by (intro exI [of _ "U\<lparr>ut_head := 0, ut_table := None\<rparr>"] exI [of _ cs]) (simp add: rem)
  next
    case False
    define t1 where "t1 = (if d = tbl_tail t then t\<lparr>tbl_tail := last (0 # as)\<rparr> else t)"
    have "last (0 # as) \<noteq> 0 \<Longrightarrow> last (0 # as) \<in> set es" "hd (bs @ [0]) \<noteq> 0 \<Longrightarrow> hd (bs @ [0]) \<in> set es"
      unfolding es(1) by (auto simp: hd_append split: if_splits)
    then have dm: "last (0 # as) \<noteq> 0 \<Longrightarrow> last (0 # as) \<in> dom ?E" "hd (bs @ [0]) \<noteq> 0 \<Longrightarrow> hd (bs @ [0]) \<in> dom ?E"
      using ok(3) by blast+
    obtain E1 where un: "unlink hh_prev_elt_update hh_next_elt_update (last (0 # as)) (hd (bs @ [0])) ?E = Some E1"
      using app.unlink_Some [OF dm] by blast
    have ch: "achain E1 (as @ bs)" using app.unlink_linked [OF _ _ _ un] ok(1,2,5) unfolding es(1) by blast
    have same: "map_option (\<lambda>x. (hh_prev (hh x), hh_next (hh x), elt_data x)) (E1 p) = map_option (\<lambda>x. (hh_prev (hh x), hh_next (hh x), elt_data x)) (?E p)" for p
      by (rule app.unlink_same [OF un]) (simp_all add: elt_data_def)
    have s: "fld hh_prev E1 p = fld hh_prev ?E p" "fld hh_next E1 p = fld hh_next ?E p" "datas E1 p = datas ?E p"
      "fld hh_hashv E1 p = fld hh_hashv ?E p" for p
      using same [of p] by (cases "E1 p"; cases "?E p"; simp add: fld_def elt_data_def)+
    have dom1: "dom E1 = dom ?E" using s(3) datas_dom [of E1 _ ?E] by blast
    have "hash_table_ok E1 t es cs" by (rule table_ok_same [OF t(4)]) (simp add: s)
    then have tb: "hash_table_ok E1 t1 es cs" by (simp add: t1_def)
    have nb: "num_buckets t1 = num_buckets t" by (simp add: t1_def)
    have hv: "bkt_of E1 (num_buckets t1) d = HASH_TO_BKT (hh_hashv (hh x)) (num_buckets t1)" by (simp add: s(4) fld_Some [of ?E d x hh_hashv, OF x])
    obtain t2 E2 cs' where d: "HASH_DEL_IN_BKT t1 E1 (HASH_TO_BKT (hh_hashv (hh x)) (num_buckets t1)) d = Some (t2, E2)"
      "hash_table_ok E2 t2 (remove1 d es) cs'" "rechained (set es) E1 E2" "num_items t2 = num_items t1" "tbl_tail t2 = tbl_tail t1"
      "log2_num_buckets t2 = log2_num_buckets t1"
      using del_in_bkt [OF tb ok(1,2) _ ok(4) assms(2)] ok(3) unfolding dom1 hv by blast
    define U' where "U' = \<lparr>ut_elts = E2, ut_head = (if last (0 # as) \<noteq> 0 then ut_head U else hd (bs @ [0])),
      ut_table = Some (t2\<lparr>num_items := wrap32 (num_items t2 + (2 ^ 32 - 1))\<rparr>)\<rparr>"
    have "HASH_DELETE U d = Some U'"
      using x hx z False t(1) un d(1) unfolding HASH_DELETE_def U'_def t1_def by (auto simp: Let_def)
    moreover have "ut_ok U' (remove1 d es) cs'"
    proof -
      have "fld hh_prev_elt E2 = fld hh_prev_elt E1" "fld hh_next_elt E2 = fld hh_next_elt E1"
        by (rule rechained_fld [OF d(3), symmetric], simp)+
      then have c: "achain E2 (as @ bs)" using ch by simp
      have "wrap32 (num_items t2 + (2 ^ 32 - 1)) = length (as @ bs)"
        using d(4) t(3) ok(4) by (simp add: t1_def es(1) mod_if)
      moreover have "tbl_tail t1 = last (as @ bs)"
        using t(2) ok(1) False by (cases bs rule: rev_cases) (auto simp: t1_def es(1))
      moreover have "(if last (0 # as) \<noteq> 0 then ut_head U else hd (bs @ [0])) = hd ((as @ bs) @ [0])"
        using z(1) ok(6) by (cases as) (auto simp: es(1))
      moreover have "dom E2 = dom ?E" using rechained_dom [OF d(3)] dom1 by simp
      ultimately show ?thesis
        using c d(2,5) ok(1-4) unfolding ut_ok_def rem U'_def by (auto simp: es(1))
    qed
    moreover have "datas (ut_elts U') p = datas ?E p" for p
      using rechained_datas [OF d(3), of p] s(3) by (simp add: U'_def)
    moreover have "log2_num_buckets (the (ut_table U')) = log2_num_buckets (the (ut_table U))"
      using d(6) t(1) by (simp add: U'_def t1_def)
    ultimately show ?thesis by blast
  qed
qed

section \<open>Integrity\<close>

lemma fsck_chain_linked:
  assumes "linked (fld bwd E) (fld fwd E) p xs 0" "0 \<notin> set xs" "set xs \<subseteq> dom E" "num + length xs < 2 ^ 32"
  shows "fsck_chain bwd fwd E p (hd (xs @ [0])) num = Some (Some (num + length xs))"
  using assms
proof (induction xs arbitrary: p num)
  case Nil
  then show ?case by (simp add: fsck_chain.simps)
next
  case (Cons x xs)
  obtain y where y: "E x = Some y" using Cons.prems(3) by auto
  have h: "bwd (hh y) = p" "fwd (hh y) = hd (xs @ [0])" "x \<noteq> 0" using Cons.prems(1,2) y by (auto simp: fld_def)
  have "fsck_chain bwd fwd E x (hd (xs @ [0])) (num + 1) = Some (Some (num + 1 + length xs))"
    using Cons.prems by (intro Cons.IH) auto
  moreover have "wrap32 (num + 1) = num + 1" using Cons.prems(4) by simp
  ultimately show ?case using y h by (subst fsck_chain.simps) simp
qed

lemma fsck_buckets_ok:
  assumes "list_all2 (bkt_ok E) bs cs" "0 \<notin> set (concat cs)" "set (concat cs) \<subseteq> dom E" "num + length (concat cs) < 2 ^ 32"
  shows "fsck_buckets E bs num = Some (Some (num + length (concat cs)))"
  using assms
proof (induction bs arbitrary: cs num)
  case (Cons b bs)
  then obtain c ds where c: "cs = c # ds" "bkt_ok E b c" "list_all2 (bkt_ok E) bs ds" by (auto simp: list_all2_Cons1)
  have "bchain E c" using c(2) by (simp add: bkt_ok_def)
  then have "fsck_chain hh_prev hh_next E 0 (hd (c @ [0])) 0 = Some (Some (0 + length c))"
    using Cons.prems(2-4) by (intro fsck_chain_linked) (simp_all add: c(1))
  moreover have "fsck_buckets E bs (num + length c) = Some (Some (num + length c + length (concat ds)))"
    using Cons.prems(2-4) by (intro Cons.IH [OF c(3)]) (simp_all add: c(1))
  moreover have "wrap32 (num + length c) = num + length c" using Cons.prems(4) by (simp add: c(1))
  ultimately show ?case using c(2) by (simp add: c(1) bkt_ok_def)
qed simp

lemma fsck_result:
  assumes "ut_ok U es cs"
  shows "HASH_FSCK U = Some True" "HASH_COUNT U = Some (length es)"
proof -
  have ok: "0 \<notin> set es" "set es \<subseteq> dom (ut_elts U)" "length es < 2 ^ 32" "achain (ut_elts U) es" "ut_head U = hd (es @ [0])"
    using assms unfolding ut_ok_def by blast+
  have "HASH_FSCK U = Some True \<and> HASH_COUNT U = Some (length es)"
  proof (cases "es = []")
    case True
    then show ?thesis using ok(5) by (simp add: HASH_FSCK_def HASH_COUNT_def)
  next
    case False
    then obtain t where t: "ut_table U = Some t" "num_items t = length es" "hash_table_ok (ut_elts U) t es cs"
      using assms unfolding ut_ok_def by blast
    have "hd es \<noteq> 0" using False ok(1) by (metis hd_in_set)
    then have h: "ut_head U \<noteq> 0" using ok(5) False by simp
    have tb: "length (buckets t) = num_buckets t" "list_all2 (bkt_ok (ut_elts U)) (buckets t) cs" "mset (concat cs) = mset es"
      using t(3) unfolding hash_table_ok_def by blast+
    have c: "set (concat cs) = set es" "length (concat cs) = length es" using tb(3) by (metis set_mset_mset, metis mset_eq_length)
    have "fsck_buckets (ut_elts U) (buckets t) 0 = Some (Some (0 + length (concat cs)))"
      using ok(1-3) c by (intro fsck_buckets_ok [OF tb(2)]) simp_all
    moreover have "fsck_chain hh_prev_elt hh_next_elt (ut_elts U) 0 (hd (es @ [0])) 0 = Some (Some (0 + length es))"
      using ok by (intro fsck_chain_linked) simp_all
    ultimately show ?thesis using h t(1,2) tb(1) c(2) ok(5) by (simp add: HASH_FSCK_def HASH_COUNT_def)
  qed
  then show "HASH_FSCK U = Some True" "HASH_COUNT U = Some (length es)" by simp_all
qed

lemma elts_from_path: "fpath (fld hh_next_elt E) xs \<Longrightarrow> 0 \<notin> set xs \<Longrightarrow> set xs \<subseteq> dom E \<Longrightarrow> elts_from E (hd (xs @ [0])) = Some xs"
proof (induction xs)
  case Nil
  then show ?case by (simp add: elts_from.simps)
next
  case (Cons x xs)
  obtain y where y: "E x = Some y" using Cons.prems(3) by auto
  then have "hh_next_elt (hh y) = hd (xs @ [0])" using Cons.prems(1) by (simp add: fld_def)
  moreover have "elts_from E (hd (xs @ [0])) = Some xs" using Cons.prems by (intro Cons.IH) auto
  ultimately show ?case using y Cons.prems(2) by (subst elts_from.simps) simp
qed

lemma iter_result: "ut_ok U es cs \<Longrightarrow> HASH_ITER U = Some es"
  using elts_from_path [of "ut_elts U" es] linked_fpath [of "fld hh_prev_elt (ut_elts U)" "fld hh_next_elt (ut_elts U)" 0 es]
  unfolding ut_ok_def HASH_ITER_def by simp

section \<open>Sequences of operations\<close>

text \<open>A structure is allocated and filled in, and then added; one that is in the table is deleted.\<close>

datatype 'a ut_op = Ut_new nat "'a ut_elt" | Ut_add nat nat nat nat | Ut_delete nat

fun ut_step :: "allocator \<Rightarrow> ('a ut_elt \<Rightarrow> byte list) \<Rightarrow> 'a ut_op \<Rightarrow> 'a ut_hash \<Rightarrow> 'a ut_hash option" where
  "ut_step A K (Ut_new p x) U = Some (U\<lparr>ut_elts := (ut_elts U)(p \<mapsto> x)\<rparr>)"
| "ut_step A K (Ut_add p addr keyptr keylen) U = HASH_ADD_KEYPTR A K addr U keyptr keylen p"
| "ut_step A K (Ut_delete p) U = HASH_DELETE U p"

fun ut_run :: "allocator \<Rightarrow> ('a ut_elt \<Rightarrow> byte list) \<Rightarrow> 'a ut_op list \<Rightarrow> 'a ut_hash \<Rightarrow> 'a ut_hash option" where
  "ut_run A K [] U = Some U"
| "ut_run A K (op # ops) U = Option.bind (ut_step A K op U) (ut_run A K ops)"

definition ut_empty :: "'a ut_hash" where
  "ut_empty = \<lparr>ut_elts = Map.empty, ut_head = 0, ut_table = None\<rparr>"

text \<open>The list that the table stands for, and what a client has to keep to.\<close>

fun ut_order :: "'a ut_op list \<Rightarrow> nat list \<Rightarrow> nat list" where
  "ut_order [] es = es"
| "ut_order (Ut_new p x # ops) es = ut_order ops es"
| "ut_order (Ut_add p addr keyptr keylen # ops) es = ut_order ops (es @ [p])"
| "ut_order (Ut_delete p # ops) es = ut_order ops (remove1 p es)"

fun ut_legal :: "'a ut_op list \<Rightarrow> nat list \<Rightarrow> nat list \<Rightarrow> bool" where
  "ut_legal [] made es = True"
| "ut_legal (Ut_new p x # ops) made es = (p \<noteq> 0 \<and> p \<notin> set es \<and> ut_legal ops (p # made) es)"
| "ut_legal (Ut_add p addr keyptr keylen # ops) made es =
     (p \<in> set made \<and> p \<notin> set es \<and> keylen < 2 ^ 32 \<and> length es + 1 < 2 ^ 32 \<and> ut_legal ops made (es @ [p]))"
| "ut_legal (Ut_delete p # ops) made es = (p \<in> set es \<and> ut_legal ops made (remove1 p es))"

lemma ut_ok_new: "ut_ok U es cs \<Longrightarrow> p \<notin> set es \<Longrightarrow> ut_ok (U\<lparr>ut_elts := (ut_elts U)(p \<mapsto> x)\<rparr>) es cs"
proof -
  assume ok: "ut_ok U es cs" and p: "p \<notin> set es"
  let ?E = "ut_elts U"
  have same: "fld f (?E(p \<mapsto> x)) q = fld f ?E q" if "q \<in> set es" for q and f :: "UT_hash_handle \<Rightarrow> 'c"
    using that p by (auto simp: fld_def)
  have "achain (?E(p \<mapsto> x)) es = achain ?E es" by (intro linked_cong) (simp add: same)
  moreover have "hash_table_ok (?E(p \<mapsto> x)) t es cs" if "hash_table_ok ?E t es cs" for t
    by (rule table_ok_same [OF that]) (simp add: same)
  ultimately show ?thesis using ok unfolding ut_ok_def by auto
qed

text \<open>The level of doubling, at most one more with each addition.\<close>

definition ut_level :: "'a ut_hash \<Rightarrow> nat list \<Rightarrow> nat" where
  "ut_level U es = (if es = [] then 5 else log2_num_buckets (the (ut_table U)))"

lemma add_step:
  assumes "ut_ok U es cs" "set made \<subseteq> dom (ut_elts U)" "0 \<notin> set made" "ut_legal (Ut_add p addr keyptr keylen # ops) made es"
    and "HASH_ADD_KEYPTR A K addr U keyptr keylen p = Some U1"
  shows "(\<exists>cs1. ut_ok U1 (es @ [p]) cs1) \<and> set made \<subseteq> dom (ut_elts U1) \<and> ut_level U1 (es @ [p]) \<le> Suc (ut_level U es)"
proof -
  have l: "p \<in> set made" "p \<notin> set es" "keylen < 2 ^ 32" "length es + 1 < 2 ^ 32" using assms(4) by simp_all
  obtain x where x: "ut_elts U p = Some x" using l(1) assms(2) by blast
  have p0: "p \<noteq> 0" using l(1) assms(3) by metis
  from add_result(1) [OF assms(1) l(2) p0 x l(4,3) refl refl assms(5)]
  have r: "\<exists>cs1. ut_ok U1 (es @ [p]) cs1" "\<forall>q. q \<noteq> p \<longrightarrow> datas (ut_elts U1) q = datas (ut_elts U) q"
    "datas (ut_elts U1) p \<noteq> None" "log2_num_buckets (the (ut_table U1)) \<le> Suc (ut_level U es)" by (auto simp: ut_level_def)
  have "q \<in> dom (ut_elts U1)" if "q \<in> set made" for q
    using that r(2,3) assms(2) datas_dom [of "ut_elts U1" q "ut_elts U"] by (cases "q = p") (auto simp: domIff)
  then show ?thesis using r(1,4) by (auto simp: ut_level_def)
qed

lemma delete_step:
  assumes "ut_ok U es cs" "set made \<subseteq> dom (ut_elts U)" "p \<in> set es"
  shows "\<exists>U1. HASH_DELETE U p = Some U1 \<and> (\<exists>cs1. ut_ok U1 (remove1 p es) cs1) \<and> set made \<subseteq> dom (ut_elts U1) \<and>
    ut_level U1 (remove1 p es) \<le> max 5 (ut_level U es)"
proof -
  obtain U1 cs1 where r: "HASH_DELETE U p = Some U1" "ut_ok U1 (remove1 p es) cs1" "\<forall>q. datas (ut_elts U1) q = datas (ut_elts U) q"
    "remove1 p es \<noteq> [] \<longrightarrow> log2_num_buckets (the (ut_table U1)) = log2_num_buckets (the (ut_table U))"
    using delete_result [OF assms(1,3)] by blast
  have "set made \<subseteq> dom (ut_elts U1)" using r(3) assms(2) datas_dom [of "ut_elts U1" _ "ut_elts U"] by blast
  then show ?thesis using r(1,2,4) assms(3) by (auto simp: ut_level_def)
qed

lemma new_step:
  assumes "ut_ok U es cs" "set made \<subseteq> dom (ut_elts U)" "p \<notin> set es"
  shows "ut_ok (U\<lparr>ut_elts := (ut_elts U)(p \<mapsto> x)\<rparr>) es cs \<and> set (p # made) \<subseteq> dom (ut_elts (U\<lparr>ut_elts := (ut_elts U)(p \<mapsto> x)\<rparr>))"
  using assms ut_ok_new [of U es cs p x] by auto

lemma run_result:
  assumes "ut_ok U es cs" "set made \<subseteq> dom (ut_elts U)" "0 \<notin> set made" "ut_legal ops made es" "ut_run A K ops U = Some U'"
  shows "\<exists>cs'. ut_ok U' (ut_order ops es) cs'"
  using assms
proof (induction ops arbitrary: U es cs made)
  case (Cons op ops)
  from Cons.prems(5) obtain U1 where U1: "ut_step A K op U = Some U1" "ut_run A K ops U1 = Some U'" by (auto simp: bind_eq_Some_conv)
  show ?case
  proof (cases op)
    case (Ut_new p x)
    then have "ut_ok U1 es cs" "set (p # made) \<subseteq> dom (ut_elts U1)" "0 \<notin> set (p # made)" "ut_legal ops (p # made) es"
      using Cons.prems U1(1) new_step [OF Cons.prems(1,2), of p x] by auto
    from Cons.IH [OF this U1(2)] show ?thesis using Ut_new by simp
  next
    case (Ut_add p addr keyptr keylen)
    then obtain cs1 where "ut_ok U1 (es @ [p]) cs1" "set made \<subseteq> dom (ut_elts U1)" "ut_legal ops made (es @ [p])"
      using add_step [OF Cons.prems(1-3)] Cons.prems(4) U1(1) by fastforce
    from Cons.IH [OF this(1,2) Cons.prems(3) this(3) U1(2)] show ?thesis using Ut_add by simp
  next
    case (Ut_delete p)
    then obtain cs1 where "ut_ok U1 (remove1 p es) cs1" "set made \<subseteq> dom (ut_elts U1)" "ut_legal ops made (remove1 p es)"
      using delete_step [OF Cons.prems(1,2)] Cons.prems(4) U1(1) by fastforce
    from Cons.IH [OF this(1,2) Cons.prems(3) this(3) U1(2)] show ?thesis using Ut_delete by simp
  qed
qed auto

text \<open>With memory, with keys that can be read and with few enough additions, all operations return.\<close>

fun ut_adds :: "(nat \<Rightarrow> bool) \<Rightarrow> 'a ut_op list \<Rightarrow> nat option" where
  "ut_adds P [] = Some 0"
| "ut_adds P (Ut_add p addr keyptr keylen # ops) = (if P keylen then map_option Suc (ut_adds P ops) else None)"
| "ut_adds P (op # ops) = ut_adds P ops"

lemma run_returns:
  assumes "ut_ok U es cs" "set made \<subseteq> dom (ut_elts U)" "0 \<notin> set made" "ut_legal ops made es"
    and "ut_adds (\<lambda>n. \<forall>x. n \<le> length (K x)) ops = Some k" "5 \<le> b" "ut_level U es \<le> b" "b + k \<le> 31" "\<And>n. n < 2 ^ 36 \<Longrightarrow> grant A n"
  shows "ut_run A K ops U \<noteq> None"
  using assms(1-8)
proof (induction ops arbitrary: U es cs made k b)
  case (Cons op ops)
  show ?case
  proof (cases op)
    case (Ut_new p x)
    let ?U = "U\<lparr>ut_elts := (ut_elts U)(p \<mapsto> x)\<rparr>"
    have l: "p \<notin> set es" "0 \<notin> set (p # made)" "ut_legal ops (p # made) es" using Cons.prems(3,4) Ut_new by auto
    then have "ut_ok ?U es cs" "set (p # made) \<subseteq> dom (ut_elts ?U)" using new_step [OF Cons.prems(1,2) l(1), of x] by blast+
    moreover have "ut_level ?U es = ut_level U es" by (simp add: ut_level_def)
    ultimately have "ut_run A K ops ?U \<noteq> None"
      using Cons.IH [OF _ _ l(2,3) _ Cons.prems(6) _ Cons.prems(8)] Cons.prems(5,7) Ut_new by simp
    then show ?thesis using Ut_new by simp
  next
    case (Ut_add p addr keyptr keylen)
    then obtain k' where k: "\<forall>x. keylen \<le> length (K x)" "ut_adds (\<lambda>n. \<forall>x. n \<le> length (K x)) ops = Some k'" "k = Suc k'"
      using Cons.prems(5) by (auto split: if_splits)
    have leg: "ut_legal (Ut_add p addr keyptr keylen # ops) made es" using Cons.prems(4) Ut_add by simp
    then have l: "p \<in> set made" "p \<notin> set es" "keylen < 2 ^ 32" "length es + 1 < 2 ^ 32" "ut_legal ops made (es @ [p])" by simp_all
    obtain x where x: "ut_elts U p = Some x" using l(1) Cons.prems(2) by blast
    have p0: "p \<noteq> 0" using l(1) Cons.prems(3) by metis
    have "log2_num_buckets (the (ut_table U)) \<le> 30 \<and> grant A (2 * num_buckets (the (ut_table U)) * sizeof_UT_hash_bucket)" if "es \<noteq> []"
    proof -
      have lv: "log2_num_buckets (the (ut_table U)) \<le> 30" using that Cons.prems(7,8) k(3) by (simp add: ut_level_def)
      then have "(2 :: nat) ^ log2_num_buckets (the (ut_table U)) \<le> 2 ^ 30" by (intro power_increasing) simp_all
      moreover have "num_buckets (the (ut_table U)) = 2 ^ log2_num_buckets (the (ut_table U))"
        using Cons.prems(1) that by (auto simp: ut_ok_def hash_table_ok_def)
      ultimately show ?thesis using assms(9) lv by (simp add: sizeof_UT_hash_bucket_def)
    qed
    then have c: "if es = [] then grant A 64 \<and> grant A 512 \<and> grant A 1024
       else log2_num_buckets (the (ut_table U)) < 31 \<and> grant A (2 * num_buckets (the (ut_table U)) * sizeof_UT_hash_bucket)"
      using assms(9) by fastforce
    obtain U1 where U1: "HASH_ADD_KEYPTR A K addr U keyptr keylen p = Some U1"
      using add_result(2) [where K = K, OF Cons.prems(1) l(2) p0 x l(4,3) refl refl _ c] k(1) by blast
    obtain cs1 where s: "ut_ok U1 (es @ [p]) cs1" "set made \<subseteq> dom (ut_elts U1)" "ut_level U1 (es @ [p]) \<le> Suc (ut_level U es)"
      using add_step [OF Cons.prems(1-3) leg U1] by blast
    have "ut_run A K ops U1 \<noteq> None"
      using Cons.IH [OF s(1,2) Cons.prems(3) l(5) k(2), of "Suc b"] s(3) Cons.prems(6-8) k(3) by simp
    then show ?thesis using U1 Ut_add by simp
  next
    case (Ut_delete p)
    then have l: "p \<in> set es" "ut_legal ops made (remove1 p es)" using Cons.prems(4) by simp_all
    obtain U1 cs1 where s: "HASH_DELETE U p = Some U1" "ut_ok U1 (remove1 p es) cs1" "set made \<subseteq> dom (ut_elts U1)"
      "ut_level U1 (remove1 p es) \<le> max 5 (ut_level U es)" using delete_step [OF Cons.prems(1,2) l(1)] by blast
    have "ut_run A K ops U1 \<noteq> None"
      using Cons.IH [OF s(2,3) Cons.prems(3) l(2) _ Cons.prems(6) _ Cons.prems(8)] s(4) Cons.prems(5-7) Ut_delete by simp
    then show ?thesis using s(1) Ut_delete by simp
  qed
qed simp

lemma ut_ok_empty: "ut_ok ut_empty [] []"
  by (simp add: ut_ok_def ut_empty_def)

text \<open>
  C39. The hash table refines a list: whatever legal operations were made, if they all returned, the integrity check
  passes, the count is the length of the list, and the iteration gives the elements in the order in which they were
  added, the deleted ones left out. No buckets are lost or linked twice when they are doubled.
\<close>

theorem uthash_refines_list:
  assumes "ut_legal ops [] []" "ut_run A K ops ut_empty = Some U"
  shows "HASH_FSCK U = Some True \<and> HASH_COUNT U = Some (length (ut_order ops [])) \<and> HASH_ITER U = Some (ut_order ops [])"
proof -
  obtain cs where "ut_ok U (ut_order ops []) cs" using run_result [OF ut_ok_empty _ _ assms] by auto
  then show ?thesis using fsck_result iter_result by blast
qed

text \<open>
  C40. Finding: what is found is an element of the table that has the length and, at this moment, the bytes of the
  name; nothing is found only if each element that has them now was added under another hash, that is, with other bytes.
\<close>

theorem uthash_find_correct:
  assumes "ut_legal ops [] []" "ut_run A K ops ut_empty = Some U"
    and "\<forall>p \<in> set (ut_order ops []). key_is K name (the (ut_elts U p)) \<noteq> None"
  shows "\<exists>r. HASH_FIND K U name = Some r \<and>
    (r \<noteq> 0 \<longrightarrow> r \<in> set (ut_order ops []) \<and> key_is K name (the (ut_elts U r)) = Some True) \<and>
    (r = 0 \<longrightarrow> (\<forall>p \<in> set (ut_order ops []). key_is K name (the (ut_elts U p)) = Some True \<longrightarrow>
       hh_hashv (hh (the (ut_elts U p))) \<noteq> HASH_JEN name))"
proof -
  obtain cs where ok: "ut_ok U (ut_order ops []) cs" using run_result [OF ut_ok_empty _ _ assms(1,2)] by auto
  have d: "fld hh_hashv (ut_elts U) p = Some (hh_hashv (hh (the (ut_elts U p))))" if "p \<in> set (ut_order ops [])" for p
    using ok that unfolding ut_ok_def by (auto simp: fld_def)
  obtain r where r: "HASH_FIND K U name = Some r" "r \<noteq> 0 \<longrightarrow> r \<in> set (ut_order ops []) \<and> key_hit K (ut_elts U) name r"
    "r = 0 \<longrightarrow> (\<forall>p \<in> set (ut_order ops []). key_hit K (ut_elts U) name p \<longrightarrow> fld hh_hashv (ut_elts U) p \<noteq> Some (HASH_JEN name))"
    using find_result [OF ok, of K name] assms(3) by blast
  then show ?thesis using d unfolding key_hit_def by (intro exI [of _ r]) auto
qed

text \<open>Two strings are added as keys, and one is taken out again; one is added and looked up.\<close>

definition ut_demo_elt :: "byte list \<Rightarrow> byte list ut_elt" where
  "ut_demo_elt v = \<lparr>hh = \<lparr>hh_tbl = 0, hh_prev_elt = 0, hh_next_elt = 0, hh_prev = 0, hh_next = 0, hh_key = 0, hh_keylen = 0,
     hh_hashv = 0\<rparr>, payload = v\<rparr>"

definition ut_demo_key :: "byte list ut_elt \<Rightarrow> byte list" where
  "ut_demo_key x = take 16 (payload x @ replicate 16 0)"

lemma length_ut_demo_key [simp]: "length (ut_demo_key x) = 16"
  by (simp add: ut_demo_key_def)

definition ut_demo_ops :: "byte list ut_op list" where
  "ut_demo_ops = [Ut_new 100 (ut_demo_elt [108, 101, 116]), Ut_add 100 7 100 3,
     Ut_new 200 (ut_demo_elt [109, 101, 109, 111]), Ut_add 200 7 200 4, Ut_delete 100]"

lemma ut_demo_returns:
  assumes "ut_legal ops [] []" "ut_adds (\<lambda>n. \<forall>x. n \<le> length (ut_demo_key x)) ops = Some 2 \<or>
    ut_adds (\<lambda>n. \<forall>x. n \<le> length (ut_demo_key x)) ops = Some 1"
  obtains U where "ut_run exact_allocator ut_demo_key ops ut_empty = Some U"
  using run_returns [OF ut_ok_empty _ _ assms(1), of ut_demo_key 2 5 exact_allocator]
    run_returns [OF ut_ok_empty _ _ assms(1), of ut_demo_key 1 5 exact_allocator] assms(2)
  by (auto simp: ut_level_def exact_allocator_def)

lemma uthash_refines_list_witness:
  "\<exists>U. ut_run exact_allocator ut_demo_key ut_demo_ops ut_empty = Some U \<and> HASH_FSCK U = Some True \<and> HASH_ITER U = Some [200]"
proof -
  have l: "ut_legal ut_demo_ops [] []" "ut_order ut_demo_ops [] = [200]" by (simp_all add: ut_demo_ops_def)
  obtain U where U: "ut_run exact_allocator ut_demo_key ut_demo_ops ut_empty = Some U"
    using ut_demo_returns [OF l(1)] by (auto simp: ut_demo_ops_def simp del: ut_run.simps)
  then show ?thesis using uthash_refines_list [OF l(1) U] l(2) by simp
qed

lemma uthash_find_correct_witness:
  "\<exists>U. ut_run exact_allocator ut_demo_key [Ut_new 200 (ut_demo_elt [109, 101, 109, 111]), Ut_add 200 7 200 4] ut_empty = Some U \<and>
     HASH_FIND ut_demo_key U [109, 101, 109, 111] = Some 200"
proof -
  define ops where "ops = [Ut_new 200 (ut_demo_elt [109, 101, 109, 111]), Ut_add 200 7 200 4]"
  have l: "ut_legal ops [] []" "ut_order ops [] = [200]" by (simp_all add: ops_def)
  obtain U where U: "ut_run exact_allocator ut_demo_key ops ut_empty = Some U"
    using ut_demo_returns [OF l(1)] by (auto simp: ops_def simp del: ut_run.simps)
  let ?E = "(ut_elts (ut_empty :: byte list ut_hash))(200 \<mapsto> ut_demo_elt [109, 101, 109, 111])"
  have ok: "ut_ok (ut_empty\<lparr>ut_elts := ?E\<rparr>) [] []" by (rule ut_ok_new [OF ut_ok_empty]) simp
  have add: "HASH_ADD_KEYPTR exact_allocator ut_demo_key 7 (ut_empty\<lparr>ut_elts := ?E\<rparr>) 200 4 200 = Some U"
    using U by (simp add: ops_def bind_eq_Some_conv)
  have "datas (ut_elts U) 200 = Some ([109, 101, 109, 111], 200, 4, HASH_JEN [109, 101, 109, 111])"
    using add_result(1) [OF ok _ _ _ _ _ refl refl add, of "ut_demo_elt [109, 101, 109, 111]"]
    by (simp add: ut_demo_elt_def ut_demo_key_def placed_elt_def)
  then have "key_is ut_demo_key [109, 101, 109, 111] (the (ut_elts U 200)) = Some True"
    "hh_hashv (hh (the (ut_elts U 200))) = HASH_JEN [109, 101, 109, 111]"
    by (auto simp: elt_data_def key_is_def ut_demo_key_def)
  then show ?thesis using uthash_find_correct [OF l(1) U, of "[109, 101, 109, 111]"] l(2) U unfolding ops_def [symmetric] by auto
qed

end
