(* ===== verification/LA_Named.thy ===== *)
theory LA_Named
  imports LA_Uthash
begin

text \<open>
  Hash tables that are filled with \<open>HASH_ADD_STR\<close> by the member that names the structure, as the registry of drivers
  and the cache of databases are. The macro is for character arrays: the key is the bytes of the structure from that
  member on, as many as the name has, and the member is a pointer. Here is what becomes of such a table, as one
  interface for both: whom a name finds, and what adding and deleting keep.
\<close>

section \<open>The macros\<close>

text \<open>The name is the first member of both structures, and it is where the key begins.\<close>

definition HASH_FIND_STR :: "('a ut_elt \<Rightarrow> byte list) \<Rightarrow> 'a ut_hash \<Rightarrow> byte list \<Rightarrow> nat option" where
  "HASH_FIND_STR K U findstr = HASH_FIND K U findstr"

definition HASH_ADD_STR ::
  "allocator \<Rightarrow> ('a ut_elt \<Rightarrow> byte list) \<Rightarrow> nat \<Rightarrow> 'a ut_hash \<Rightarrow> byte list \<Rightarrow> nat \<Rightarrow> 'a ut_hash option" where
  "HASH_ADD_STR A K addr U str add = HASH_ADD_KEYPTR A K addr U add (length str) add"

text \<open>
  The bytes of a handle at an offset of its structure, without the last member, which is written only after the key was
  read. The links of the buckets are addresses of handles.
\<close>

definition handle_at :: "nat \<Rightarrow> nat \<Rightarrow> nat" where
  "handle_at off p = (if p = 0 then 0 else p + off)"

definition handle_bytes :: "nat \<Rightarrow> UT_hash_handle \<Rightarrow> byte list" where
  "handle_bytes off h = le_bytes 8 (hh_tbl h) @ le_bytes 8 (hh_prev_elt h) @ le_bytes 8 (hh_next_elt h) @
     le_bytes 8 (handle_at off (hh_prev h)) @ le_bytes 8 (handle_at off (hh_next h)) @ le_bytes 8 (hh_key h) @
     le_bytes 4 (hh_keylen h)"

lemma length_handle_bytes [simp]: "length (handle_bytes off h) = 52"
  by (simp add: handle_bytes_def)

section \<open>What a table of names keeps\<close>

text \<open>An element is found by the strings of its name's length that the bytes of its pointer spell.\<close>

definition spells :: "u64 \<Rightarrow> nat \<Rightarrow> byte list \<Rightarrow> bool" where
  "spells ptr n s = (n = length s \<and> take 8 s = take n (le_bytes 8 (unat ptr)))"

lemma le_bytes_high: "x < 256 ^ n \<Longrightarrow> n < m \<Longrightarrow> le_bytes m x ! n = 0"
proof (induction n arbitrary: m x)
  case 0
  then show ?case by (cases m) simp_all
next
  case (Suc n)
  then obtain m' where m: "m = Suc m'" "n < m'" by (cases m) auto
  have "x div 256 < 256 ^ n" using Suc.prems(1) by (simp add: less_mult_imp_div_less mult.commute)
  then show ?case using Suc.IH m by simp
qed

lemma take_le_bytes: "n \<le> m \<Longrightarrow> take n (le_bytes m x) = le_bytes n x"
proof (induction n arbitrary: m x)
  case (Suc n)
  then show ?case by (cases m) simp_all
qed simp

text \<open>A pointer with the bytes of a short name spells it.\<close>

lemma spells_bytes: "length s \<le> 8 \<Longrightarrow> spells (word_of_nat (of_le s)) (length s) s"
proof -
  assume s: "length s \<le> 8"
  have "of_le s < 256 ^ 8" using of_le_less [of s] s power_increasing [of "length s" 8 "256 :: nat"] by simp
  then have "unat (word_of_nat (of_le s) :: u64) = of_le s" by (simp add: unat_of_nat take_bit_eq_mod)
  then show ?thesis using s by (simp add: spells_def take_le_bytes le_bytes_of_le)
qed

text \<open>An address of a program is below \<open>2 ^ 48\<close>: its upper bytes are zeros.\<close>

lemma long_not_spelled:
  assumes "unat ptr < 2 ^ 48" "7 \<le> length s" "0 \<notin> set s"
  shows "\<not> spells ptr n s"
proof
  assume "spells ptr n s"
  then have "take 8 s = take (length s) (le_bytes 8 (unat ptr))" by (simp add: spells_def)
  then have "take 8 s ! 6 = take (length s) (le_bytes 8 (unat ptr)) ! 6" by simp
  then have "s ! 6 = le_bytes 8 (unat ptr) ! 6" using assms(2) by simp
  also have "\<dots> = 0" using assms(1) by (intro le_bytes_high) simp_all
  finally have "0 \<in> set s" using assms(2) nth_mem [of 6 s] by simp
  then show False using assms(3) by simp
qed

text \<open>The elements in the order of the list, each under the length of its name and the hash of the bytes of its pointer.\<close>

definition entry_ok :: "('a \<Rightarrow> u64) \<Rightarrow> ('a \<Rightarrow> byte list) \<Rightarrow> nat \<Rightarrow> 'a ut_elt \<Rightarrow> bool" where
  "entry_ok ptr nm room x =
     (hh_keylen (hh x) = length (nm (payload x)) \<and> length (nm (payload x)) \<le> room \<and>
      (length (nm (payload x)) \<le> 8 \<longrightarrow>
         hh_hashv (hh x) = HASH_JEN (take (length (nm (payload x))) (le_bytes 8 (unat (ptr (payload x)))))))"

definition named_ok :: "('a \<Rightarrow> u64) \<Rightarrow> ('a \<Rightarrow> byte list) \<Rightarrow> nat \<Rightarrow> 'a ut_hash \<Rightarrow> nat list \<Rightarrow> bool" where
  "named_ok ptr nm room U es =
     ((\<exists>cs. ut_ok U es cs) \<and> (\<forall>p \<in> set es. \<exists>x. ut_elts U p = Some x \<and> entry_ok ptr nm room x))"

lemma entry_ok_data: "elt_data x = elt_data y \<Longrightarrow> entry_ok ptr nm room x = entry_ok ptr nm room y"
  by (simp add: elt_data_def entry_ok_def)

lemma datas_Some: "datas E' p = datas E p \<Longrightarrow> E p = Some x \<Longrightarrow> \<exists>x'. E' p = Some x' \<and> elt_data x' = elt_data x"
  by (cases "E' p") simp_all

lemma named_ok_empty: "named_ok ptr nm room (U\<lparr>ut_head := 0, ut_table := None\<rparr>) []"
  by (simp add: named_ok_def ut_ok_def)

lemma named_ok_dom: "named_ok ptr nm room U es \<Longrightarrow> \<forall>p \<in> set es. ut_elts U p \<noteq> None"
  by (auto simp: named_ok_def)

lemma named_ok_facts:
  assumes "named_ok ptr nm room U es"
  shows "distinct es" "0 \<notin> set es" "length es < 2 ^ 32" "HASH_COUNT U = Some (length es)" "ut_head U = hd (es @ [0])"
  using assms fsck_result(2) unfolding named_ok_def ut_ok_def by blast+

text \<open>Structures that are not in the table can be allocated and freed.\<close>

lemma ut_ok_outside:
  assumes "ut_ok U es cs" "\<forall>p \<in> set es. E p = ut_elts U p"
  shows "ut_ok (U\<lparr>ut_elts := E\<rparr>) es cs"
proof -
  have same: "fld f E q = fld f (ut_elts U) q" if "q \<in> set es" for q and f :: "UT_hash_handle \<Rightarrow> 'c"
    using that assms(2) by (simp add: fld_def)
  have "achain E es = achain (ut_elts U) es" by (intro linked_cong) (simp add: same)
  moreover have "hash_table_ok E t es cs" if "hash_table_ok (ut_elts U) t es cs" for t
    by (rule table_ok_same [OF that]) (simp add: same)
  moreover have "set es \<subseteq> dom E" using assms by (auto simp: ut_ok_def domIff)
  ultimately show ?thesis using assms(1) unfolding ut_ok_def by auto
qed

lemma named_ok_outside:
  assumes "named_ok ptr nm room U es" "\<forall>p \<in> set es. E p = ut_elts U p"
  shows "named_ok ptr nm room (U\<lparr>ut_elts := E\<rparr>) es"
proof -
  have "\<exists>cs. ut_ok (U\<lparr>ut_elts := E\<rparr>) es cs" using assms ut_ok_outside unfolding named_ok_def by blast
  moreover have "\<forall>p \<in> set es. \<exists>x. E p = Some x \<and> entry_ok ptr nm room x" using assms by (simp add: named_ok_def)
  ultimately show ?thesis by (simp add: named_ok_def)
qed

text \<open>A member other than the name can be written.\<close>

lemma named_ok_payload:
  assumes "named_ok ptr nm room U es" "ut_elts U p = Some x" "ptr v = ptr (payload x)" "nm v = nm (payload x)"
  shows "named_ok ptr nm room (U\<lparr>ut_elts := (ut_elts U)(p \<mapsto> x\<lparr>payload := v\<rparr>)\<rparr>) es"
proof -
  let ?E = "(ut_elts U)(p \<mapsto> x\<lparr>payload := v\<rparr>)"
  obtain cs where ok: "ut_ok U es cs" using assms(1) by (auto simp: named_ok_def)
  have same: "fld f ?E = fld f (ut_elts U)" for f :: "UT_hash_handle \<Rightarrow> 'c"
    using assms(2) by (auto simp: fld_def)
  have "hash_table_ok ?E t es cs" if "hash_table_ok (ut_elts U) t es cs" for t
    by (rule table_ok_same [OF that]) (simp add: same)
  then have "ut_ok (U\<lparr>ut_elts := ?E\<rparr>) es cs" using ok unfolding ut_ok_def by (auto simp: same)
  moreover have "entry_ok ptr nm room (x\<lparr>payload := v\<rparr>) = entry_ok ptr nm room x" by (simp add: entry_ok_def assms(3,4))
  ultimately show ?thesis using assms(1,2) unfolding named_ok_def by fastforce
qed

section \<open>The interface\<close>

text \<open>The key of a structure begins with the pointer to its name, and so many bytes can be read.\<close>

locale name_table =
  fixes K :: "'a ut_elt \<Rightarrow> byte list" and ptr :: "'a \<Rightarrow> u64" and nm :: "'a \<Rightarrow> byte list" and room :: nat
  assumes length_key: "length (K x) = room" and key_begins: "take 8 (K x) = le_bytes 8 (unat (ptr (payload x)))"
    and room_range: "8 \<le> room" "room < 2 ^ 32"
begin

lemma take_key:
  assumes "n \<le> 8"
  shows "take n (K x) = take n (le_bytes 8 (unat (ptr (payload x))))"
proof -
  have "take n (K x) = take n (take 8 (K x))" using assms by (simp add: min_absorb1)
  then show ?thesis by (simp add: key_begins)
qed

lemma hit_spells:
  assumes "ut_elts U p = Some x" "entry_ok ptr nm room x" "key_hit K (ut_elts U) s p"
  shows "spells (ptr (payload x)) (length (nm (payload x))) s"
proof -
  have h: "length s = length (nm (payload x))" "take (length s) (K x) = s"
    using assms by (simp_all add: key_hit_def key_is_def entry_ok_def split: if_splits)
  have "take 8 s = take (length s) (take 8 (K x))" using h(2) by (metis min.commute take_take)
  then show ?thesis using h(1) by (simp add: spells_def key_begins)
qed

lemma spells_hit:
  assumes "ut_elts U p = Some x" "entry_ok ptr nm room x" "spells (ptr (payload x)) (length (nm (payload x))) s" "length s \<le> 8"
  shows "key_hit K (ut_elts U) s p \<and> fld hh_hashv (ut_elts U) p = Some (HASH_JEN s)"
proof -
  have n: "length (nm (payload x)) = length s" using assms(3) by (simp add: spells_def)
  have "take 8 s = s" using assms(4) by simp
  then have s: "take (length s) (le_bytes 8 (unat (ptr (payload x)))) = s" using assms(3) unfolding spells_def by metis
  have "take (length s) (K x) = s" unfolding take_key [OF assms(4)] by (rule s)
  moreover have "hh_hashv (hh x) = HASH_JEN s" using assms(2,4) unfolding entry_ok_def n s by blast
  moreover have "hh_keylen (hh x) = length s" using assms(2) unfolding entry_ok_def n by blast
  ultimately show ?thesis
    using assms(1,4) room_range by (simp add: key_hit_def key_is_def length_key fld_def)
qed

text \<open>Looking a name up.\<close>

lemma find_named:
  assumes "named_ok ptr nm room U es"
  shows "\<exists>r. HASH_FIND_STR K U s = Some r \<and>
    (r \<noteq> 0 \<longrightarrow> r \<in> set es \<and> (\<exists>x. ut_elts U r = Some x \<and> spells (ptr (payload x)) (length (nm (payload x))) s)) \<and>
    (r = 0 \<longrightarrow> length s \<le> 8 \<longrightarrow>
       (\<forall>p \<in> set es. \<forall>x. ut_elts U p = Some x \<longrightarrow> \<not> spells (ptr (payload x)) (length (nm (payload x))) s))"
proof -
  obtain cs where ok: "ut_ok U es cs" using assms by (auto simp: named_ok_def)
  have e: "\<exists>x. ut_elts U p = Some x \<and> entry_ok ptr nm room x" if "p \<in> set es" for p
    using assms that by (simp add: named_ok_def)
  have "key_is K s (the (ut_elts U p)) \<noteq> None" if "p \<in> set es" for p
    using e [OF that] by (auto simp: key_is_def entry_ok_def length_key)
  from find_result [OF ok this] obtain r where r: "HASH_FIND K U s = Some r" "r \<noteq> 0 \<longrightarrow> r \<in> set es \<and> key_hit K (ut_elts U) s r"
    "r = 0 \<longrightarrow> (\<forall>p \<in> set es. key_hit K (ut_elts U) s p \<longrightarrow> fld hh_hashv (ut_elts U) p \<noteq> Some (HASH_JEN s))" by blast
  have "\<exists>x. ut_elts U r = Some x \<and> spells (ptr (payload x)) (length (nm (payload x))) s" if "r \<noteq> 0"
    using e [of r] hit_spells [of U r] r(2) that by blast
  moreover have "\<not> spells (ptr (payload x)) (length (nm (payload x))) s"
    if "r = 0" "length s \<le> 8" "p \<in> set es" "ut_elts U p = Some x" for p x
    using e [OF that(3)] spells_hit [OF that(4) _ _ that(2)] r(3) that by auto
  ultimately show ?thesis using r(1,2) unfolding HASH_FIND_STR_def by blast
qed

text \<open>A name of seven bytes or more is never found, and one that an element's pointer spells always is.\<close>

lemma find_long:
  assumes "named_ok ptr nm room U es" "\<forall>p \<in> set es. \<forall>x. ut_elts U p = Some x \<longrightarrow> unat (ptr (payload x)) < 2 ^ 48"
    and "7 \<le> length s" "0 \<notin> set s"
  shows "HASH_FIND_STR K U s = Some 0"
proof -
  obtain r where r: "HASH_FIND_STR K U s = Some r"
    "r \<noteq> 0 \<longrightarrow> r \<in> set es \<and> (\<exists>x. ut_elts U r = Some x \<and> spells (ptr (payload x)) (length (nm (payload x))) s)"
    using find_named [OF assms(1), of s] by blast
  have "r = 0" using r(2) assms(2) long_not_spelled [OF _ assms(3,4)] by blast
  then show ?thesis using r(1) by simp
qed

text \<open>Adding: whatever the links are, the new element is under the bytes of its pointer.\<close>

lemma add_named:
  assumes "named_ok ptr nm room U es" "add \<notin> set es" "add \<noteq> 0" "ut_elts U add = Some x" "length es + 1 < 2 ^ 32"
    and "HASH_ADD_STR A K addr U (nm (payload x)) add = Some U'"
  shows "named_ok ptr nm room U' (es @ [add]) \<and> (\<forall>p. map_option payload (ut_elts U' p) = map_option payload (ut_elts U p))"
proof -
  let ?n = "length (nm (payload x))"
  obtain cs where ok: "ut_ok U es cs" using assms(1) by (auto simp: named_ok_def)
  have e: "\<exists>x. ut_elts U p = Some x \<and> entry_ok ptr nm room x" if "p \<in> set es" for p
    using assms(1) that by (simp add: named_ok_def)
  define y where "y = placed_elt x add ?n (last (0 # es)) (table_addr U addr)"
  have py: "payload y = payload x" by (simp add: y_def placed_elt_def)
  have add: "HASH_ADD_KEYPTR A K addr U add ?n add = Some U'" using assms(6) by (simp add: HASH_ADD_STR_def)
  have n: "?n < 2 ^ 32"
  proof (rule ccontr)
    assume "\<not> ?n < 2 ^ 32"
    then have "\<not> ?n \<le> length (K z)" for z using room_range by (simp add: length_key)
    then have "HASH_ADD_KEYPTR A K addr U add ?n add = None"
      by (auto simp: HASH_ADD_KEYPTR_def Let_def bind_eq_None_conv not_le)
    then show False using add by simp
  qed
  from add_result(1) [OF ok assms(2,3,4,5) n y_def refl add]
  have r: "?n \<le> room" "\<exists>cs'. ut_ok U' (es @ [add]) cs'" "\<And>p. p \<noteq> add \<Longrightarrow> datas (ut_elts U') p = datas (ut_elts U) p"
    "datas (ut_elts U') add = Some (payload x, add, ?n, HASH_JEN (take ?n (K y)))" by (auto simp: length_key)
  obtain z where z: "ut_elts U' add = Some z" "payload z = payload x" "hh_keylen (hh z) = ?n" "hh_hashv (hh z) = HASH_JEN (take ?n (K y))"
    using r(4) by (auto simp: elt_data_def)
  have "entry_ok ptr nm room z" using r(1) z take_key [of ?n y] py by (simp add: entry_ok_def)
  moreover have "\<exists>z. ut_elts U' p = Some z \<and> entry_ok ptr nm room z" if p: "p \<in> set es" for p
  proof -
    have "p \<noteq> add" using p assms(2) by blast
    obtain w where w: "ut_elts U p = Some w" "entry_ok ptr nm room w" using e [OF p] by blast
    obtain w' where "ut_elts U' p = Some w'" "elt_data w' = elt_data w"
      using datas_Some [of "ut_elts U'" p "ut_elts U" w] r(3) [OF \<open>p \<noteq> add\<close>] w(1) by blast
    then show ?thesis using w(2) entry_ok_data by blast
  qed
  ultimately have "named_ok ptr nm room U' (es @ [add])" using r(2) z(1) by (auto simp: named_ok_def)
  moreover have "map_option payload (ut_elts U' p) = map_option payload (ut_elts U p)" for p
  proof (cases "p = add")
    case True
    then show ?thesis using z assms(4) by simp
  next
    case False
    have "map_option fst (datas (ut_elts U') p) = map_option fst (datas (ut_elts U) p)" using r(3) [OF False] by simp
    then show ?thesis by (simp add: option.map_comp comp_def elt_data_def)
  qed
  ultimately show ?thesis by blast
qed

text \<open>With memory and a table that can grow, adding returns.\<close>

lemma add_returns:
  assumes "named_ok ptr nm room U es" "add \<notin> set es" "add \<noteq> 0" "ut_elts U add = Some x" "length es + 1 < 2 ^ 32"
    and "length (nm (payload x)) \<le> room"
    and "if es = [] then grant A 64 \<and> grant A 512 \<and> grant A 1024
      else log2_num_buckets (the (ut_table U)) < 31 \<and> grant A (2 * num_buckets (the (ut_table U)) * sizeof_UT_hash_bucket)"
  obtains U' where "HASH_ADD_STR A K addr U (nm (payload x)) add = Some U'"
proof -
  obtain cs where ok: "ut_ok U es cs" using assms(1) by (auto simp: named_ok_def)
  have n: "length (nm (payload x)) < 2 ^ 32" using assms(6) room_range by simp
  from add_result(2) [where K = K, OF ok assms(2,3,4,5) n refl refl _ assms(7)] assms(6) that
  show thesis unfolding HASH_ADD_STR_def by (auto simp: length_key)
qed

lemma delete_named:
  assumes "named_ok ptr nm room U es" "d \<in> set es"
  shows "\<exists>U'. HASH_DELETE U d = Some U' \<and> named_ok ptr nm room U' (remove1 d es) \<and>
    (\<forall>p. map_option payload (ut_elts U' p) = map_option payload (ut_elts U p))"
proof -
  obtain cs where ok: "ut_ok U es cs" using assms(1) by (auto simp: named_ok_def)
  obtain U' cs' where r: "HASH_DELETE U d = Some U'" "ut_ok U' (remove1 d es) cs'" "\<And>p. datas (ut_elts U') p = datas (ut_elts U) p"
    using delete_result [OF ok assms(2)] by blast
  have "\<exists>z. ut_elts U' p = Some z \<and> entry_ok ptr nm room z" if "p \<in> set (remove1 d es)" for p
  proof -
    have "p \<in> set es" using that by (meson notin_set_remove1)
    then obtain w where w: "ut_elts U p = Some w" "entry_ok ptr nm room w" using assms(1) by (auto simp: named_ok_def)
    obtain w' where "ut_elts U' p = Some w'" "elt_data w' = elt_data w" using datas_Some [of "ut_elts U'" p "ut_elts U" w] r(3) w(1) by blast
    then show ?thesis using w(2) entry_ok_data by blast
  qed
  then have "named_ok ptr nm room U' (remove1 d es)" using r(2) by (auto simp: named_ok_def)
  moreover have "map_option payload (ut_elts U' p) = map_option payload (ut_elts U p)" for p
  proof -
    have "map_option fst (datas (ut_elts U') p) = map_option fst (datas (ut_elts U) p)" using r(3) by simp
    then show ?thesis by (simp add: option.map_comp comp_def elt_data_def)
  qed
  ultimately show ?thesis using r(1) by blast
qed

end

end
