(* ===== verification/LA_Buffer.thy ===== *)
theory LA_Buffer
  imports LA_Prelude
begin

text \<open>
  The growable byte buffer of \<open>utils/buffer.c\<close>: its record, every operation on it at the
  level of its heap block, the invariant between \<open>size\<close>, \<open>capacity\<close> and the block, and the
  correctness of each operation against the abstract content \<open>buf_content\<close> (the first \<open>size\<close>
  bytes of the block). The contract its clients use (appending chunks to a sink) is the
  locale \<open>byte_sink\<close>, interpreted on \<open>la_buffer_append\<close>.
\<close>

named_theorems buf_ops \<open>definitions of the buffer operations\<close>

section \<open>State\<close>

record la_buffer =
  ptr :: "byte list"
  bsize :: nat
  capacity :: nat
  ptr_owned :: bool

text \<open>
  The outcome of an operation that returns an \<open>int\<close>: \<open>Buf_ok\<close> is 0, \<open>Buf_einval\<close> is -1 with
  \<open>errno\<close> set to \<open>EINVAL\<close>, \<open>Buf_nomem\<close> is -1 after the allocator refused.
\<close>

datatype buf_rc = Buf_ok | Buf_einval | Buf_nomem

definition MIN_ALLOC :: nat where
  "MIN_ALLOC = 1024"

definition buf_cap :: "nat \<Rightarrow> nat" where
  "buf_cap n = (if n > MIN_ALLOC then n else MIN_ALLOC)"

definition sizeof_la_buffer :: nat where
  "sizeof_la_buffer = 32"

section \<open>Operations\<close>

definition la_buffer_new :: "allocator \<Rightarrow> nat \<Rightarrow> la_buffer option" where
  "la_buffer_new A cap =
     (if \<not> grant A sizeof_la_buffer then None
      else let cap' = buf_cap cap in
        case malloc A cap' of
          None \<Rightarrow> None
        | Some p \<Rightarrow> Some \<lparr>ptr = replicate cap' 0xaa @ drop cap' p, bsize = 0,
                         capacity = cap', ptr_owned = True\<rparr>)"

definition la_buffer_wrap :: "allocator \<Rightarrow> byte list \<Rightarrow> nat \<Rightarrow> nat \<Rightarrow> la_buffer option" where
  "la_buffer_wrap A p cap sz =
     (if \<not> grant A sizeof_la_buffer then None
      else Some \<lparr>ptr = p, bsize = sz, capacity = cap, ptr_owned = False\<rparr>)"

definition la_buffer_size :: "la_buffer \<Rightarrow> nat" where
  "la_buffer_size b = bsize b"

definition la_buffer_capacity :: "la_buffer \<Rightarrow> nat" where
  "la_buffer_capacity b = capacity b"

definition la_buffer_data :: "la_buffer \<Rightarrow> byte list" where
  "la_buffer_data b = ptr b"

text \<open>The count returned and the bytes copied to \<open>data\<close>.\<close>

definition la_buffer_get :: "la_buffer \<Rightarrow> nat \<Rightarrow> nat \<Rightarrow> (nat \<times> byte list) option" where
  "la_buffer_get b off len =
     (let len' = (if len > sub_sz (bsize b) off then sub_sz (bsize b) off else len)
      in do { xs \<leftarrow> mem_read (ptr b) off len'; Some (len', xs) })"

definition la_buffer_copy :: "allocator \<Rightarrow> la_buffer \<Rightarrow> byte list option option" where
  "la_buffer_copy A b =
     (case malloc A (bsize b) of
        None \<Rightarrow> Some None
      | Some p \<Rightarrow> do {
          (n, xs) \<leftarrow> la_buffer_get b 0 (bsize b);
          p' \<leftarrow> mem_write p 0 xs;
          Some (Some p') })"

definition la_buffer_ensure_capacity :: "allocator \<Rightarrow> la_buffer \<Rightarrow> nat \<Rightarrow> buf_rc \<times> la_buffer" where
  "la_buffer_ensure_capacity A b cap =
     (if capacity b < cap
      then if \<not> ptr_owned b then (Buf_einval, b)
           else let delta = buf_cap (sub_sz cap (capacity b));
                    cap' = add_sz (capacity b) delta
                in case realloc A (ptr b) cap' of
                     None \<Rightarrow> (Buf_nomem, b)
                   | Some p \<Rightarrow> (Buf_ok, b\<lparr>ptr := p, capacity := cap'\<rparr>)
      else (Buf_ok, b))"

definition la_buffer_remove :: "la_buffer \<Rightarrow> nat \<Rightarrow> nat \<Rightarrow> (buf_rc \<times> la_buffer) option" where
  "la_buffer_remove b off len =
     (if off \<ge> bsize b \<or> add_sz off len \<ge> bsize b then Some (Buf_einval, b)
      else let remain_offset = add_sz off len;
               remain_length = sub_sz (bsize b) remain_offset
           in do {
             p \<leftarrow> (if remain_length > 0 then mem_move (ptr b) off remain_offset remain_length
                   else Some (ptr b));
             Some (Buf_ok, b\<lparr>ptr := p, bsize := sub_sz (bsize b) len\<rparr>) })"

definition la_buffer_append ::
  "allocator \<Rightarrow> la_buffer \<Rightarrow> byte list \<Rightarrow> nat \<Rightarrow> (buf_rc \<times> la_buffer) option" where
  "la_buffer_append A b data len =
     (case la_buffer_ensure_capacity A b (add_sz (bsize b) len) of
        (Buf_ok, b1) \<Rightarrow> do {
          xs \<leftarrow> mem_read data 0 len;
          p \<leftarrow> mem_write (ptr b1) (bsize b1) xs;
          Some (Buf_ok, b1\<lparr>ptr := p, bsize := add_sz (bsize b1) len\<rparr>) }
      | (rc, b1) \<Rightarrow> Some (rc, b1))"

definition la_buffer_insert ::
  "allocator \<Rightarrow> la_buffer \<Rightarrow> nat \<Rightarrow> byte list \<Rightarrow> nat \<Rightarrow> (buf_rc \<times> la_buffer) option" where
  "la_buffer_insert A b index data len =
     (let remain = (if bsize b > index then sub_sz (bsize b) index else 0) in
      case la_buffer_ensure_capacity A b (add_sz (add_sz index len) remain) of
        (Buf_ok, b1) \<Rightarrow> do {
          p \<leftarrow> (if remain > 0 then mem_move (ptr b1) (add_sz index len) index remain
                else Some (ptr b1));
          xs \<leftarrow> mem_read data 0 len;
          p' \<leftarrow> mem_write p index xs;
          Some (Buf_ok, b1\<lparr>ptr := p'\<rparr>) }
      | (rc, b1) \<Rightarrow> Some (rc, b1))"

definition la_buffer_overwrite ::
  "allocator \<Rightarrow> la_buffer \<Rightarrow> nat \<Rightarrow> byte list \<Rightarrow> nat \<Rightarrow> (buf_rc \<times> la_buffer) option" where
  "la_buffer_overwrite A b index data len =
     (case la_buffer_ensure_capacity A b (add_sz index len) of
        (Buf_ok, b1) \<Rightarrow> do {
          xs \<leftarrow> mem_read data 0 len;
          p \<leftarrow> mem_write (ptr b1) index xs;
          Some (Buf_ok, b1\<lparr>ptr := p,
                  bsize := (if bsize b1 < add_sz index len then add_sz index len else bsize b1)\<rparr>) }
      | (rc, b1) \<Rightarrow> Some (rc, b1))"

definition la_buffer_move ::
  "allocator \<Rightarrow> la_buffer \<Rightarrow> nat \<Rightarrow> nat \<Rightarrow> nat \<Rightarrow> (buf_rc \<times> la_buffer) option" where
  "la_buffer_move A b index newindex len =
     (if add_sz index len > bsize b \<or> newindex > bsize b then Some (Buf_einval, b)
      else case (if add_sz newindex len > capacity b
                 then la_buffer_ensure_capacity A b (add_sz newindex len) else (Buf_ok, b)) of
        (Buf_ok, b1) \<Rightarrow> do {
          p \<leftarrow> mem_move (ptr b1) newindex index len;
          Some (Buf_ok, b1\<lparr>ptr := p,
                  bsize := (if bsize b1 < add_sz newindex len then add_sz newindex len
                           else bsize b1)\<rparr>) }
      | (rc, b1) \<Rightarrow> Some (rc, b1))"

definition la_buffer_compact :: "allocator \<Rightarrow> la_buffer \<Rightarrow> buf_rc \<times> la_buffer" where
  "la_buffer_compact A b =
     (if \<not> ptr_owned b then (Buf_ok, b)
      else if capacity b > bsize b
      then let newsize = (if bsize b = 0 then MIN_ALLOC else bsize b) in
           case realloc A (ptr b) newsize of
             None \<Rightarrow> (Buf_nomem, b)
           | Some p \<Rightarrow> (Buf_ok, b\<lparr>ptr := p, capacity := bsize b\<rparr>)
      else (Buf_ok, b))"

definition la_buffer_truncate :: "la_buffer \<Rightarrow> nat \<Rightarrow> buf_rc \<times> la_buffer" where
  "la_buffer_truncate b newsize =
     (if bsize b < newsize then (Buf_einval, b) else (Buf_ok, b\<lparr>bsize := newsize\<rparr>))"

text \<open>The macro \<open>la_buffer_clear\<close>: both results are dropped.\<close>

definition la_buffer_clear :: "allocator \<Rightarrow> la_buffer \<Rightarrow> la_buffer" where
  "la_buffer_clear A b = snd (la_buffer_compact A (snd (la_buffer_truncate b 0)))"

text \<open>
  \<open>vsnprintf\<close> is given the characters the format and its arguments produce (\<open>out\<close>): it
  returns their number as an \<open>int\<close>, or a negative value when that number does not fit
  (nothing is written then), and stores at most \<open>n - 1\<close> of them and a terminating zero.
\<close>

definition vsnprintf_ret :: "byte list \<Rightarrow> int" where
  "vsnprintf_ret out = (if length out < 2 ^ 31 then int (length out) else -1)"

definition vsnprintf_at :: "byte list \<Rightarrow> nat \<Rightarrow> nat \<Rightarrow> byte list \<Rightarrow> byte list option" where
  "vsnprintf_at m off n out =
     (if n = 0 \<or> vsnprintf_ret out < 0 then Some m else mem_write m off (take (n - 1) out @ [0]))"

definition add_int_sz :: "nat \<Rightarrow> int \<Rightarrow> nat" where
  "add_int_sz a i = nat ((int a + i) mod 2 ^ 64)"

definition la_buffer_vappendf ::
  "allocator \<Rightarrow> la_buffer \<Rightarrow> byte list \<Rightarrow> (buf_rc \<times> la_buffer) option" where
  "la_buffer_vappendf A b out =
     (let needed = vsnprintf_ret out in
      case la_buffer_ensure_capacity A b (add_sz (add_int_sz (bsize b) needed) 1) of
        (Buf_ok, b1) \<Rightarrow>
          let remaining = sub_sz (capacity b1) (bsize b1) in do {
            p \<leftarrow> mem_write (ptr b1) (bsize b1) [0];
            p' \<leftarrow> vsnprintf_at p (bsize b1) remaining out;
            Some (Buf_ok, b1\<lparr>ptr := p', bsize := add_int_sz (bsize b1) (vsnprintf_ret out)\<rparr>) }
      | (rc, b1) \<Rightarrow> Some (rc, b1))"

text \<open>The variadic front end: the same output, the same buffer.\<close>

definition la_buffer_appendf ::
  "allocator \<Rightarrow> la_buffer \<Rightarrow> byte list \<Rightarrow> (buf_rc \<times> la_buffer) option" where
  "la_buffer_appendf A b out = la_buffer_vappendf A b out"

text \<open>
  The result of \<open>malloc\<close> is not checked: a refused request is a write through a null
  pointer. The value is the block the returned pointer designates.
\<close>

definition la_buffer_string :: "allocator \<Rightarrow> la_buffer \<Rightarrow> byte list option" where
  "la_buffer_string A b = do {
     p \<leftarrow> malloc A (add_sz (bsize b) 1);
     (n, xs) \<leftarrow> la_buffer_get b 0 (bsize b);
     p1 \<leftarrow> mem_write p 0 xs;
     mem_write p1 (bsize b) [0] }"

text \<open>The blocks \<open>la_buffer_destroy\<close> gives back, in order.\<close>

datatype freed_block = Freed_data | Freed_struct

definition la_buffer_destroy :: "la_buffer \<Rightarrow> freed_block list" where
  "la_buffer_destroy b = (if ptr_owned b then [Freed_data] else []) @ [Freed_struct]"

lemmas buf_op_defs [buf_ops] =
  la_buffer_get_def la_buffer_remove_def la_buffer_append_def la_buffer_insert_def
  la_buffer_overwrite_def la_buffer_move_def la_buffer_compact_def la_buffer_truncate_def

section \<open>Invariant and content\<close>

definition buf_inv :: "la_buffer \<Rightarrow> bool" where
  "buf_inv b = (bsize b \<le> capacity b \<and> capacity b \<le> length (ptr b) \<and> length (ptr b) < 2 ^ 63)"

definition buf_content :: "la_buffer \<Rightarrow> byte list" where
  "buf_content b = take (bsize b) (ptr b)"

lemma buf_content_length [simp]: "buf_inv b \<Longrightarrow> length (buf_content b) = bsize b"
  by (simp add: buf_inv_def buf_content_def)

lemma MIN_ALLOC_eq [simp]: "MIN_ALLOC = 1024"
  by (simp add: MIN_ALLOC_def)

lemma buf_cap_eq: "buf_cap n = max n 1024"
  by (simp add: buf_cap_def max_def)

lemma buf_inv_new:
  assumes "allocator_sane A" "la_buffer_new A cap = Some b"
  shows "buf_inv b" "buf_content b = []" "ptr_owned b"
proof -
  obtain p where p: "malloc A (buf_cap cap) = Some p"
    and b: "b = \<lparr>ptr = replicate (buf_cap cap) 0xaa @ drop (buf_cap cap) p, bsize = 0,
                 capacity = buf_cap cap, ptr_owned = True\<rparr>"
    using assms(2) by (auto simp: la_buffer_new_def Let_def split: if_splits option.splits)
  have "grant A (buf_cap cap)" using p by (simp add: malloc_def split: if_splits)
  then have "buf_cap cap + slack A (buf_cap cap) < 2 ^ 63"
    using assms(1) by (simp add: allocator_sane_def)
  with malloc_length [OF p] show "buf_inv b" "buf_content b = []" "ptr_owned b"
    by (simp_all add: buf_inv_def buf_content_def b)
qed

text \<open>What growing the block keeps and provides, for every outcome.\<close>

lemma ensure_capacity_cases:
  assumes "buf_inv b" "allocator_sane A" "cap < size_max"
    and "la_buffer_ensure_capacity A b cap = (rc, b')"
  shows "buf_inv b' \<and> bsize b' = bsize b \<and> ptr_owned b' = ptr_owned b \<and> capacity b \<le> capacity b' \<and>
         take (capacity b) (ptr b') = take (capacity b) (ptr b) \<and>
         (if rc = Buf_ok then cap \<le> capacity b' else b' = b)"
proof (cases "capacity b < cap \<and> ptr_owned b")
  case False
  with assms(1,4) show ?thesis
    by (auto simp: la_buffer_ensure_capacity_def split: if_splits)
next
  case grow: True
  define cap' where "cap' = max cap (capacity b + 1024)"
  have sz: "capacity b < 2 ^ 63" using assms(1) by (simp add: buf_inv_def)
  have delta: "buf_cap (sub_sz cap (capacity b)) = max (cap - capacity b) 1024"
    using grow assms(3) by (simp add: buf_cap_eq sub_sz_small)
  have "capacity b + max (cap - capacity b) 1024 = cap'"
    using grow by (simp add: cap'_def)
  then have add: "add_sz (capacity b) (max (cap - capacity b) 1024) = cap'"
    using assms(3) sz by (subst add_sz_small) (auto simp: cap'_def)
  have eq: "la_buffer_ensure_capacity A b cap =
      (case realloc A (ptr b) cap' of None \<Rightarrow> (Buf_nomem, b)
       | Some p \<Rightarrow> (Buf_ok, b\<lparr>ptr := p, capacity := cap'\<rparr>))"
    using grow by (simp add: la_buffer_ensure_capacity_def delta add Let_def split: option.split)
  show ?thesis
  proof (cases "realloc A (ptr b) cap'")
    case None
    with assms(1,4) eq show ?thesis by auto
  next
    case (Some q)
    have cc: "capacity b \<le> cap'" "cap \<le> cap'" by (auto simp: cap'_def)
    have "grant A cap'" using Some by (simp add: realloc_def split: if_splits)
    then have "length q < 2 ^ 63" "cap' \<le> length q"
      using assms(2) realloc_length [OF Some] by (simp_all add: allocator_sane_def)
    moreover have "take (capacity b) q = take (capacity b) (ptr b)"
      using realloc_keeps [OF Some cc(1)] assms(1) by (simp add: buf_inv_def)
    ultimately show ?thesis
      using assms(1,4) eq Some cc by (auto simp: buf_inv_def)
  qed
qed

lemma buf_content_cong:
  assumes "buf_inv b" "bsize b' = bsize b"
    and "take (capacity b) (ptr b') = take (capacity b) (ptr b)"
  shows "buf_content b' = buf_content b"
  using assms take_take_le [of "bsize b" "capacity b" "ptr b'" "ptr b"]
  by (simp add: buf_content_def buf_inv_def)

section \<open>Correctness of the operations\<close>

text \<open>
  Appending never leaves the block, keeps the invariant, and either adds exactly the given
  bytes or reports an error and changes nothing.
\<close>

lemma la_buffer_append_spec:
  assumes "buf_inv b" "allocator_sane A" "len \<le> length data" "len < 2 ^ 63"
  shows "\<exists>rc b'. la_buffer_append A b data len = Some (rc, b') \<and> buf_inv b' \<and>
           ptr_owned b' = ptr_owned b \<and>
           (if rc = Buf_ok then buf_content b' = buf_content b @ take len data else b' = b)"
proof -
  have small: "bsize b + len < size_max" using assms by (simp add: buf_inv_def)
  then have add: "add_sz (bsize b) len = bsize b + len" by (rule add_sz_small)
  obtain rc b1 where ec: "la_buffer_ensure_capacity A b (bsize b + len) = (rc, b1)" by fastforce
  note e = ensure_capacity_cases [OF assms(1,2) small ec]
  show ?thesis
  proof (cases "rc = Buf_ok")
    case False
    with e ec assms(1) show ?thesis
      by (cases rc) (simp_all add: la_buffer_append_def add)
  next
    case True
    let ?p = "take (bsize b) (ptr b1) @ take len data @ drop (bsize b + len) (ptr b1)"
    let ?b = "b1\<lparr>ptr := ?p, bsize := bsize b + len\<rparr>"
    have bnd: "bsize b + len \<le> length (ptr b1)" "bsize b1 = bsize b"
      using e True by (auto simp: buf_inv_def)
    have "la_buffer_append A b data len = Some (Buf_ok, ?b)"
      using ec True bnd assms(3) by (simp add: la_buffer_append_def add mem_simps)
    moreover have "buf_inv ?b"
      using e True bnd assms(3) by (auto simp: buf_inv_def)
    moreover have "buf_content ?b = buf_content b @ take len data"
    proof -
      have "buf_content ?b = take (bsize b) (ptr b1) @ take len data"
        using bnd assms(3) take_write [of "bsize b" "ptr b1" "take len data" len]
        by (simp add: buf_content_def)
      also have "\<dots> = buf_content b @ take len data"
        using e bnd buf_content_cong [OF assms(1), of b1] by (simp add: buf_content_def)
      finally show ?thesis .
    qed
    ultimately show ?thesis using e True by auto
  qed
qed

lemma la_buffer_get_spec:
  assumes "buf_inv b" "off \<le> bsize b"
  shows "la_buffer_get b off len =
     Some (min len (bsize b - off), take len (drop off (buf_content b)))"
proof -
  have "sub_sz (bsize b) off = bsize b - off"
    using assms by (intro sub_sz_small) (auto simp: buf_inv_def)
  then show ?thesis
    using assms
    by (auto simp: la_buffer_get_def mem_simps buf_content_def buf_inv_def min_def Let_def
      take_drop not_less)
qed

text \<open>Removing: only a range that ends before the last byte is accepted.\<close>

lemma la_buffer_remove_spec:
  assumes "buf_inv b" "off + len < size_max"
  shows "\<exists>rc b'. la_buffer_remove b off len = Some (rc, b') \<and> buf_inv b' \<and>
           (if off + len < bsize b
            then rc = Buf_ok \<and>
                 buf_content b' = take off (buf_content b) @ drop (off + len) (buf_content b)
            else rc = Buf_einval \<and> b' = b)"
proof (cases "off + len < bsize b")
  case False
  with assms show ?thesis by (auto simp: la_buffer_remove_def add_sz_small)
next
  case True
  have sz: "bsize b < size_max" "bsize b \<le> length (ptr b)" "length (ptr b) < 2 ^ 63"
    using assms(1) by (auto simp: buf_inv_def)
  have add: "add_sz off len = off + len" using assms(2) by (rule add_sz_small)
  have s1: "sub_sz (bsize b) (off + len) = bsize b - (off + len)"
    and s2: "sub_sz (bsize b) len = bsize b - len"
    using True sz by (auto intro!: sub_sz_small)
  define n where "n = bsize b - (off + len)"
  let ?p = "take off (ptr b) @ take n (drop (off + len) (ptr b)) @ drop (off + n) (ptr b)"
  let ?b = "b\<lparr>ptr := ?p, bsize := bsize b - len\<rparr>"
  have n: "off + n = bsize b - len" "off + len + n = bsize b" using True by (auto simp: n_def)
  have mv: "mem_move (ptr b) off (off + len) n = Some ?p"
    using True sz n by (intro mem_move_inside) auto
  have "la_buffer_remove b off len = Some (Buf_ok, ?b)"
    using True mv by (simp add: la_buffer_remove_def add s1 s2 n_def Let_def)
  moreover have lp: "length ?p = length (ptr b)" using True sz n by auto
  moreover from lp have "buf_inv ?b" using assms(1) unfolding buf_inv_def by (auto simp del: length_append)
  moreover have "buf_content ?b = take off (buf_content b) @ drop (off + len) (buf_content b)"
  proof -
    have "buf_content ?b = take (off + n) ?p" by (simp add: buf_content_def n(1))
    also have "\<dots> = take off (ptr b) @ take n (drop (off + len) (ptr b))"
      using True sz n by (intro take_write) auto
    also have "\<dots> = take off (buf_content b) @ drop (off + len) (buf_content b)"
      using True by (simp add: buf_content_def drop_take n_def)
    finally show ?thesis .
  qed
  ultimately show ?thesis using True by auto
qed

text \<open>
  Inserting at \<open>index\<close> shifts the tail up and copies the bytes in, but \<open>size\<close> is not
  increased: the buffer keeps its old length and loses as many bytes at its end as were
  inserted.
\<close>

lemma la_buffer_insert_spec:
  assumes "buf_inv b" "allocator_sane A" "index \<le> bsize b" "len \<le> length data" "len < 2 ^ 62"
  shows "\<exists>rc b'. la_buffer_insert A b index data len = Some (rc, b') \<and> buf_inv b' \<and>
           (if rc = Buf_ok
            then buf_content b' =
                 take (bsize b) (take index (buf_content b) @ take len data @ drop index (buf_content b))
            else b' = b)"
proof -
  have lt: "bsize b < 2 ^ 63" using assms(1) by (simp add: buf_inv_def)
  define r where "r = bsize b - index"
  have rem: "(if bsize b > index then sub_sz (bsize b) index else 0) = r"
    using lt by (auto simp: r_def sub_sz_small)
  have add: "add_sz index len = index + len" "add_sz (index + len) r = index + len + r"
    using assms(3,5) lt by (auto simp: add_sz_small r_def)
  have small: "index + len + r < size_max" using assms(3,5) lt by (simp add: r_def)
  obtain rc b1 where ec: "la_buffer_ensure_capacity A b (index + len + r) = (rc, b1)" by fastforce
  note e = ensure_capacity_cases [OF assms(1,2) small ec]
  show ?thesis
  proof (cases "rc = Buf_ok")
    case False
    with e ec assms(1) show ?thesis
      by (cases rc) (simp_all add: la_buffer_insert_def rem add)
  next
    case True
    have bnd: "index + len + r \<le> length (ptr b1)" "bsize b1 = bsize b" "index + r = bsize b"
      using e True assms(3) by (auto simp: buf_inv_def r_def)
    define m where "m = take (index + len) (ptr b1) @ take r (drop index (ptr b1)) @
      drop (index + len + r) (ptr b1)"
    let ?p = "take index m @ take len data @ drop (index + len) m"
    let ?b = "b1\<lparr>ptr := ?p\<rparr>"
    have mv: "mem_move (ptr b1) (index + len) index r = Some m" "r = 0 \<Longrightarrow> ptr b1 = m"
      using bnd by (auto simp: mem_simps m_def)
    have lm: "length m = length (ptr b1)" using bnd by (auto simp: m_def)
    have wr: "mem_write m index (take len data) = Some ?p"
      using bnd lm assms(4) by (simp add: mem_write_def min_def)
    have "la_buffer_insert A b index data len = do {
        p \<leftarrow> (if r > 0 then mem_move (ptr b1) (index + len) index r else Some (ptr b1));
        p' \<leftarrow> mem_write p index (take len data);
        Some (Buf_ok, b1\<lparr>ptr := p'\<rparr>) }"
      using ec True assms(4) by (simp add: la_buffer_insert_def rem add mem_read_inside)
    then have "la_buffer_insert A b index data len = Some (Buf_ok, ?b)"
      using mv wr by (cases "r = 0") simp_all
    moreover have "buf_inv ?b"
      using e bnd lm assms(4) by (auto simp: buf_inv_def)
    moreover have "buf_content ?b =
        take (bsize b) (take index (buf_content b) @ take len data @ drop index (buf_content b))"
    proof -
      have c: "take (bsize b) (ptr b1) = buf_content b"
        using e bnd buf_content_cong [OF assms(1), of b1] by (simp add: buf_content_def)
      have "take index (ptr b1) = take index (buf_content b)"
        using assms(3) by (simp flip: c add: min_def)
      moreover have "take r (drop index (ptr b1)) = drop index (buf_content b)"
        using bnd(3) by (simp flip: c add: drop_take r_def)
      moreover have "?p = take index (ptr b1) @ take len data @ take r (drop index (ptr b1)) @
          drop (index + len + r) (ptr b1)"
        using bnd by (simp add: m_def min_def)
      ultimately have "buf_content ?b = take (bsize b)
          ((take index (buf_content b) @ take len data @ drop index (buf_content b)) @
            drop (index + len + r) (ptr b1))"
        using bnd by (simp add: buf_content_def)
      then show ?thesis using assms(1,3,4) bnd by (simp add: r_def)
    qed
    ultimately show ?thesis using True by auto
  qed
qed

text \<open>What the first bytes of a grown block are, for the operations that write into it.\<close>

lemma grown_prefix:
  assumes "buf_inv b" "take (capacity b) (ptr b1) = take (capacity b) (ptr b)" "k \<le> bsize b"
  shows "take k (ptr b1) = take k (buf_content b)"
  using assms take_take_le [of k "capacity b" "ptr b1" "ptr b"]
  by (simp add: buf_content_def buf_inv_def min_def)

lemma la_buffer_overwrite_spec:
  assumes "buf_inv b" "allocator_sane A" "index \<le> bsize b" "len \<le> length data" "len < 2 ^ 63"
  shows "\<exists>rc b'. la_buffer_overwrite A b index data len = Some (rc, b') \<and> buf_inv b' \<and>
           (if rc = Buf_ok
            then buf_content b' =
                 take index (buf_content b) @ take len data @ drop (index + len) (buf_content b)
            else b' = b)"
proof -
  have small: "index + len < size_max" using assms(1,3,5) by (simp add: buf_inv_def)
  then have add: "add_sz index len = index + len" by (rule add_sz_small)
  obtain rc b1 where ec: "la_buffer_ensure_capacity A b (index + len) = (rc, b1)" by fastforce
  note e = ensure_capacity_cases [OF assms(1,2) small ec]
  show ?thesis
  proof (cases "rc = Buf_ok")
    case False
    with e ec assms(1) show ?thesis
      by (cases rc) (simp_all add: la_buffer_overwrite_def add)
  next
    case True
    have bnd: "index + len \<le> capacity b1" "capacity b1 \<le> length (ptr b1)" "bsize b1 = bsize b"
      "bsize b \<le> capacity b1"
      using e True by (auto simp: buf_inv_def)
    let ?p = "take index (ptr b1) @ take len data @ drop (index + len) (ptr b1)"
    let ?b = "b1\<lparr>ptr := ?p, bsize := max (index + len) (bsize b)\<rparr>"
    have "la_buffer_overwrite A b index data len = Some (Buf_ok, ?b)"
      using ec True bnd assms(4) by (auto simp: la_buffer_overwrite_def add mem_simps max_def)
    moreover have "buf_inv ?b" using e True bnd assms(4) by (auto simp: buf_inv_def)
    moreover have "buf_content ?b =
        take index (buf_content b) @ take len data @ drop (index + len) (buf_content b)"
    proof -
      have c: "take (bsize b) (ptr b1) = buf_content b"
        using e grown_prefix [OF assms(1), of b1 "bsize b"] assms(1) by simp
      have i: "take index (ptr b1) = take index (buf_content b)"
        using e grown_prefix [OF assms(1), of b1 index] assms(3) by simp
      have "max (index + len) (bsize b) = index + len + (bsize b - (index + len))" by simp
      then have "buf_content ?b = take index (ptr b1) @ take len data @
          take (bsize b - (index + len)) (drop (index + len) (ptr b1))"
        using bnd assms(3,4) by (simp add: buf_content_def)
      also have "take (bsize b - (index + len)) (drop (index + len) (ptr b1)) =
          drop (index + len) (take (bsize b) (ptr b1))"
        by (simp add: drop_take)
      finally show ?thesis by (simp only: i c)
    qed
    ultimately show ?thesis using True by auto
  qed
qed

lemma la_buffer_compact_spec:
  assumes "buf_inv b" "allocator_sane A" "la_buffer_compact A b = (rc, b')"
  shows "buf_inv b' \<and> buf_content b' = buf_content b \<and> ptr_owned b' = ptr_owned b \<and>
         (rc = Buf_ok \<and> ptr_owned b \<longrightarrow> capacity b' = bsize b') \<and> (rc \<noteq> Buf_ok \<longrightarrow> b' = b)"
proof (cases "ptr_owned b \<and> capacity b > bsize b")
  case False
  with assms(1,3) show ?thesis by (auto simp: la_buffer_compact_def buf_inv_def split: if_splits)
next
  case shrink: True
  define n where "n = (if bsize b = 0 then MIN_ALLOC else bsize b)"
  have eq: "la_buffer_compact A b = (case realloc A (ptr b) n of None \<Rightarrow> (Buf_nomem, b)
      | Some p \<Rightarrow> (Buf_ok, b\<lparr>ptr := p, capacity := bsize b\<rparr>))"
    using shrink by (simp add: la_buffer_compact_def n_def Let_def)
  show ?thesis
  proof (cases "realloc A (ptr b) n")
    case None
    with assms(1,3) eq show ?thesis by auto
  next
    case (Some q)
    have "grant A n" using Some by (simp add: realloc_def split: if_splits)
    then have "n \<le> length q" "length q < 2 ^ 63"
      using assms(2) realloc_length [OF Some] by (simp_all add: allocator_sane_def)
    moreover have "bsize b \<le> n" by (simp add: n_def)
    moreover have "take (bsize b) q = take (bsize b) (ptr b)"
      using realloc_keeps [OF Some] \<open>bsize b \<le> n\<close> assms(1) by (simp add: buf_inv_def)
    ultimately show ?thesis
      using assms(1,3) eq Some by (auto simp: buf_inv_def buf_content_def)
  qed
qed

lemma la_buffer_truncate_spec:
  assumes "buf_inv b" "la_buffer_truncate b n = (rc, b')"
  shows "buf_inv b' \<and> (if n \<le> bsize b then rc = Buf_ok \<and> buf_content b' = take n (buf_content b)
                       else rc = Buf_einval \<and> b' = b)"
  using assms by (auto simp: la_buffer_truncate_def buf_inv_def buf_content_def min_def split: if_splits)

lemma la_buffer_clear_spec:
  assumes "buf_inv b" "allocator_sane A"
  shows "buf_inv (la_buffer_clear A b) \<and> buf_content (la_buffer_clear A b) = []"
proof -
  obtain rc b1 where t: "la_buffer_truncate b 0 = (rc, b1)" by fastforce
  obtain rc2 b2 where c: "la_buffer_compact A b1 = (rc2, b2)" by fastforce
  from la_buffer_truncate_spec [OF assms(1) t] have b1: "buf_inv b1" "buf_content b1 = []" by auto
  from la_buffer_compact_spec [OF b1(1) assms(2) c] b1 t c show ?thesis
    by (simp add: la_buffer_clear_def)
qed

text \<open>Formatted output is appended without its terminating zero.\<close>

lemma add_int_sz_small: "a + n < size_max \<Longrightarrow> add_int_sz a (int n) = a + n"
  by (simp add: add_int_sz_def nat_mod_distrib nat_int_add flip: of_nat_add)

lemma la_buffer_vappendf_spec:
  assumes "buf_inv b" "allocator_sane A" "length out < 2 ^ 31"
  shows "\<exists>rc b'. la_buffer_vappendf A b out = Some (rc, b') \<and> buf_inv b' \<and>
           ptr_owned b' = ptr_owned b \<and>
           (if rc = Buf_ok then buf_content b' = buf_content b @ out else b' = b)"
proof -
  have lt: "bsize b < 2 ^ 63" using assms(1) by (simp add: buf_inv_def)
  have small: "bsize b + length out + 1 < size_max" using lt assms(3) by simp
  have ret: "vsnprintf_ret out = int (length out)" using assms(3) by (simp add: vsnprintf_ret_def)
  have add: "add_int_sz (bsize b) (int (length out)) = bsize b + length out"
    "add_sz (bsize b + length out) (Suc 0) = Suc (bsize b + length out)"
    using small by (simp_all add: add_int_sz_small add_sz_small)
  obtain rc b1 where ec: "la_buffer_ensure_capacity A b (bsize b + length out + 1) = (rc, b1)"
    by fastforce
  note e = ensure_capacity_cases [OF assms(1,2) small ec]
  show ?thesis
  proof (cases "rc = Buf_ok")
    case False
    with e ec assms(1) show ?thesis
      by (cases rc) (simp_all add: la_buffer_vappendf_def ret add)
  next
    case True
    have bnd: "bsize b + length out + 1 \<le> capacity b1" "capacity b1 \<le> length (ptr b1)"
      "bsize b1 = bsize b" "length (ptr b1) < 2 ^ 63"
      using e True by (auto simp: buf_inv_def)
    have rem: "sub_sz (capacity b1) (bsize b) = capacity b1 - bsize b"
      using bnd by (intro sub_sz_small) auto
    define p0 where "p0 = take (bsize b) (ptr b1) @ [0] @ drop (bsize b + 1) (ptr b1)"
    define p1 where "p1 = take (bsize b) p0 @ (out @ [0]) @ drop (bsize b + (length out + 1)) p0"
    let ?b = "b1\<lparr>ptr := p1, bsize := bsize b + length out\<rparr>"
    have w0: "mem_write (ptr b1) (bsize b) [0] = Some p0"
      using bnd by (simp add: mem_write_def p0_def)
    have len0: "length p0 = length (ptr b1)" using bnd by (simp add: p0_def)
    have w1: "vsnprintf_at p0 (bsize b) (capacity b1 - bsize b) out = Some p1"
    proof -
      have "\<not> (capacity b1 - bsize b = 0 \<or> vsnprintf_ret out < 0)"
        "take (capacity b1 - bsize b - 1) out = out"
        using bnd ret by auto
      then show ?thesis
        using bnd len0 by (simp add: vsnprintf_at_def mem_write_def p1_def)
    qed
    have "la_buffer_vappendf A b out = Some (Buf_ok, ?b)"
      using ec True bnd by (simp add: la_buffer_vappendf_def ret add rem w0 w1)
    moreover have "buf_inv ?b" using bnd len0 by (auto simp: buf_inv_def p1_def)
    moreover have "buf_content ?b = buf_content b @ out"
    proof -
      have "buf_content ?b = take (bsize b + length out) (take (bsize b) (ptr b1) @ out @
          [0] @ drop (bsize b + (length out + 1)) p0)"
        using bnd by (simp add: buf_content_def p1_def p0_def)
      also have "\<dots> = take (bsize b) (ptr b1) @ out"
        using bnd by (intro take_write) auto
      also have "\<dots> = buf_content b @ out"
        using e grown_prefix [OF assms(1), of b1 "bsize b"] assms(1) by simp
      finally show ?thesis .
    qed
    ultimately show ?thesis using e True by auto
  qed
qed

text \<open>
  While memory is granted nothing is refused: with all sizes below a bound \<open>M\<close>, which the capacity then
  never exceeds, an append succeeds.
\<close>

lemma ensure_granted:
  assumes "\<forall>n < 2 ^ 40. grant A n" "ptr_owned b" "capacity b \<le> M" "need + 1024 \<le> M" "M < 2 ^ 40"
  shows "\<exists>b1. la_buffer_ensure_capacity A b need = (Buf_ok, b1) \<and> capacity b1 \<le> M \<and> bsize b1 = bsize b"
proof (cases "capacity b < need")
  case False
  then show ?thesis using assms(3) by (simp add: la_buffer_ensure_capacity_def)
next
  case True
  define m where "m = max need (capacity b + 1024)"
  have d: "buf_cap (sub_sz need (capacity b)) = max (need - capacity b) 1024"
    using True assms(4,5) by (simp add: buf_cap_eq sub_sz_small)
  have m: "capacity b + max (need - capacity b) 1024 = m" using True by (simp add: m_def)
  have ms: "m \<le> M" using True assms(4) by (simp add: m_def)
  have ad: "add_sz (capacity b) (max (need - capacity b) 1024) = m"
    using m ms assms(5) by (subst add_sz_small) simp_all
  obtain q where q: "realloc A (ptr b) m = Some q" using assms(1,5) ms by (simp add: realloc_def)
  show ?thesis using True assms(2) q ms by (simp add: la_buffer_ensure_capacity_def d ad Let_def m_def [symmetric])
qed

lemma append_granted:
  assumes "\<forall>n < 2 ^ 40. grant A n" "allocator_sane A" "buf_inv b" "ptr_owned b" "capacity b \<le> M"
    and "bsize b + length c + 1024 \<le> M" "M < 2 ^ 40"
  shows "\<exists>b'. la_buffer_append A b c (length c) = Some (Buf_ok, b') \<and> buf_inv b' \<and> ptr_owned b' \<and> capacity b' \<le> M \<and>
    buf_content b' = buf_content b @ c"
proof -
  have add: "add_sz (bsize b) (length c) = bsize b + length c" using assms(6,7) by (intro add_sz_small) simp
  obtain b1 where b1: "la_buffer_ensure_capacity A b (bsize b + length c) = (Buf_ok, b1)" "capacity b1 \<le> M" "bsize b1 = bsize b"
    using ensure_granted [OF assms(1,4,5,6,7)] by blast
  obtain rc b' where ap: "la_buffer_append A b c (length c) = Some (rc, b')" "buf_inv b'" "ptr_owned b' = ptr_owned b"
    "if rc = Buf_ok then buf_content b' = buf_content b @ take (length c) c else b' = b"
    using la_buffer_append_spec [OF assms(3,2), of "length c" c] assms(6,7) by auto
  have "rc = Buf_ok" "capacity b' = capacity b1" using ap(1) b1 add by (auto simp: la_buffer_append_def bind_eq_Some_conv)
  then show ?thesis using ap b1 assms(4) by simp
qed

lemma appendf_granted:
  assumes "\<forall>n < 2 ^ 40. grant A n" "allocator_sane A" "buf_inv b" "ptr_owned b" "capacity b \<le> M"
    and "bsize b + length out + 1025 \<le> M" "M < 2 ^ 40" "length out < 2 ^ 31"
  shows "\<exists>b'. la_buffer_appendf A b out = Some (Buf_ok, b') \<and> buf_inv b' \<and> ptr_owned b' \<and> capacity b' \<le> M \<and>
    buf_content b' = buf_content b @ out"
proof -
  have ret: "vsnprintf_ret out = int (length out)" using assms(8) by (simp add: vsnprintf_ret_def)
  have add: "add_sz (add_int_sz (bsize b) (int (length out))) 1 = bsize b + length out + 1"
    using assms(6,7) by (simp add: add_int_sz_small add_sz_small)
  have "bsize b + length out + 1 + 1024 \<le> M" using assms(6) by simp
  then obtain b1 where b1: "la_buffer_ensure_capacity A b (bsize b + length out + 1) = (Buf_ok, b1)" "capacity b1 \<le> M"
    using ensure_granted [OF assms(1,4,5) _ assms(7)] by blast
  obtain rc b' where ap: "la_buffer_vappendf A b out = Some (rc, b')" "buf_inv b'" "ptr_owned b' = ptr_owned b"
    "if rc = Buf_ok then buf_content b' = buf_content b @ out else b' = b"
    using la_buffer_vappendf_spec [OF assms(3,2,8)] by blast
  have "rc = Buf_ok" "capacity b' = capacity b1"
    using ap(1) b1(1) add by (auto simp: la_buffer_vappendf_def ret Let_def bind_eq_Some_conv)
  then show ?thesis using ap b1 assms(4) by (simp add: la_buffer_appendf_def)
qed

text \<open>The two ways to take the content out of a buffer.\<close>

lemma la_buffer_string_spec:
  assumes "buf_inv b" "grant A (bsize b + 1)"
  shows "\<exists>q. la_buffer_string A b = Some q \<and> take (bsize b + 1) q = buf_content b @ [0]"
proof -
  have add: "add_sz (bsize b) (Suc 0) = Suc (bsize b)"
    using assms(1) by (simp add: add_sz_small buf_inv_def)
  obtain p where p: "malloc A (bsize b + 1) = Some p"
    using assms(2) by (simp add: malloc_def)
  let ?c = "buf_content b"
  have lc: "length ?c = bsize b" using assms(1) by simp
  have lp: "length p \<ge> bsize b + 1" using malloc_length [OF p] by simp
  have g: "la_buffer_get b 0 (bsize b) = Some (bsize b, ?c)"
    using la_buffer_get_spec [OF assms(1), of 0 "bsize b"] lc by simp
  have w: "mem_write p 0 ?c = Some (?c @ drop (bsize b) p)"
    using lp lc by (simp add: mem_write_def)
  have "mem_write (?c @ drop (bsize b) p) (bsize b) [0] = Some (?c @ [0] @ drop (bsize b + 1) p)"
    using lp lc by (simp add: mem_write_def)
  with p g w add have "la_buffer_string A b = Some (?c @ [0] @ drop (bsize b + 1) p)"
    by (simp add: la_buffer_string_def)
  then show ?thesis using lc by simp
qed

lemma la_buffer_copy_spec:
  assumes "buf_inv b"
  shows "\<exists>r. la_buffer_copy A b = Some r \<and>
           (case r of None \<Rightarrow> \<not> grant A (bsize b) | Some q \<Rightarrow> take (bsize b) q = buf_content b)"
proof (cases "malloc A (bsize b)")
  case None
  then show ?thesis by (simp add: la_buffer_copy_def malloc_def split: if_splits)
next
  case (Some p)
  have lc: "length (buf_content b) = bsize b" using assms by simp
  have "la_buffer_get b 0 (bsize b) = Some (bsize b, buf_content b)"
    using la_buffer_get_spec [OF assms, of 0 "bsize b"] lc by simp
  then have "la_buffer_copy A b = Some (Some (buf_content b @ drop (bsize b) p))"
    using Some lc malloc_length [OF Some] by (simp add: la_buffer_copy_def mem_write_def)
  then show ?thesis using lc by simp
qed

text \<open>The capacity test in front of the growth repeats the one inside it.\<close>

lemma la_buffer_move_alt:
  "la_buffer_move A b index newindex len =
     (if add_sz index len > bsize b \<or> newindex > bsize b then Some (Buf_einval, b)
      else case la_buffer_ensure_capacity A b (add_sz newindex len) of
        (Buf_ok, b1) \<Rightarrow> do {
          p \<leftarrow> mem_move (ptr b1) newindex index len;
          Some (Buf_ok, b1\<lparr>ptr := p,
                  bsize := (if bsize b1 < add_sz newindex len then add_sz newindex len
                           else bsize b1)\<rparr>) }
      | (rc, b1) \<Rightarrow> Some (rc, b1))"
proof -
  have "(if add_sz newindex len > capacity b
         then la_buffer_ensure_capacity A b (add_sz newindex len) else (Buf_ok, b)) =
        la_buffer_ensure_capacity A b (add_sz newindex len)"
    by (simp add: la_buffer_ensure_capacity_def)
  then show ?thesis by (simp only: la_buffer_move_def)
qed

lemma la_buffer_move_spec:
  assumes "buf_inv b" "allocator_sane A" "index + len < size_max"
  shows "\<exists>rc b'. la_buffer_move A b index newindex len = Some (rc, b') \<and> buf_inv b' \<and>
           (if rc = Buf_ok
            then index + len \<le> bsize b \<and> newindex \<le> bsize b \<and>
                 buf_content b' = take newindex (buf_content b) @ take len (drop index (buf_content b))
                                  @ drop (newindex + len) (buf_content b)
            else b' = b)"
proof (cases "index + len \<le> bsize b \<and> newindex \<le> bsize b")
  case False
  then have "la_buffer_move A b index newindex len = Some (Buf_einval, b)"
    using assms(3) by (simp add: la_buffer_move_def add_sz_small not_le)
  with assms(1) show ?thesis by simp
next
  case ok: True
  have lt: "bsize b < 2 ^ 63" using assms(1) by (simp add: buf_inv_def)
  have add: "add_sz index len = index + len" "add_sz newindex len = newindex + len"
    using ok lt assms(3) by (simp_all add: add_sz_small)
  obtain rc b1 where ec: "la_buffer_ensure_capacity A b (newindex + len) = (rc, b1)" by fastforce
  have small: "newindex + len < size_max" using ok lt by simp
  note e = ensure_capacity_cases [OF assms(1,2) small ec]
  show ?thesis
  proof (cases "rc = Buf_ok")
    case False
    with e ok assms(1) show ?thesis
      by (cases rc) (simp_all add: la_buffer_move_alt add ec)
  next
    case True
    have bnd: "newindex + len \<le> capacity b1" "capacity b1 \<le> length (ptr b1)" "bsize b1 = bsize b"
      "bsize b \<le> capacity b1"
      using e True by (auto simp: buf_inv_def)
    define q where "q = take newindex (ptr b1) @ take len (drop index (ptr b1)) @
      drop (newindex + len) (ptr b1)"
    let ?b = "b1\<lparr>ptr := q, bsize := max (newindex + len) (bsize b)\<rparr>"
    have "mem_move (ptr b1) newindex index len = Some q"
      using bnd ok unfolding q_def by (intro mem_move_inside) auto
    then have "la_buffer_move A b index newindex len = Some (Buf_ok, ?b)"
      using ok True bnd by (simp add: la_buffer_move_alt add ec max_def)
    moreover have "length q = length (ptr b1)" using bnd ok by (auto simp: q_def)
    then have "buf_inv ?b" using e bnd by (auto simp: buf_inv_def)
    moreover have "buf_content ?b = take newindex (buf_content b) @
        take len (drop index (buf_content b)) @ drop (newindex + len) (buf_content b)"
    proof -
      have c: "take (bsize b) (ptr b1) = buf_content b"
        using e grown_prefix [OF assms(1), of b1 "bsize b"] assms(1) by simp
      have mx: "max (newindex + len) (bsize b) = newindex + len + (bsize b - (newindex + len))"
        by linarith
      have "buf_content ?b = take (newindex + len + (bsize b - (newindex + len))) q"
        by (simp add: buf_content_def flip: mx)
      also have "\<dots> = take newindex (ptr b1) @ take len (drop index (ptr b1)) @
          take (bsize b - (newindex + len)) (drop (newindex + len) (ptr b1))"
        unfolding q_def using bnd ok by (intro take_write_more) auto
      also have "\<dots> = take newindex (take (bsize b) (ptr b1)) @
          take len (drop index (take (bsize b) (ptr b1))) @
          drop (newindex + len) (take (bsize b) (ptr b1))"
      proof -
        have "len \<le> bsize b - index" using ok by linarith
        then show ?thesis using ok by (simp add: drop_take min_def)
      qed
      finally show ?thesis by (simp only: c)
    qed
    ultimately show ?thesis using True ok by auto
  qed
qed

section \<open>The contract of a byte sink\<close>

text \<open>
  Clients hand a sink one chunk after another and stop at the first refusal, as the codec's
  dump callback and the transfer callback do. \<open>feed_chunks\<close> is that loop.
\<close>

fun feed_chunks ::
  "('s \<Rightarrow> byte list \<Rightarrow> (bool \<times> 's) option) \<Rightarrow> 's \<Rightarrow> byte list list \<Rightarrow> (bool \<times> 's) option" where
  "feed_chunks put s [] = Some (True, s)"
| "feed_chunks put s (c # cs) = do {
     (ok, s') \<leftarrow> put s c;
     if ok then feed_chunks put s' cs else Some (False, s') }"

locale byte_sink =
  fixes put :: "'s \<Rightarrow> byte list \<Rightarrow> (bool \<times> 's) option"
    and content :: "'s \<Rightarrow> byte list"
    and inv :: "'s \<Rightarrow> bool"
  assumes put_total: "inv s \<Longrightarrow> length c < 2 ^ 62 \<Longrightarrow>
    \<exists>ok s'. put s c = Some (ok, s') \<and> inv s' \<and> (if ok then content s' = content s @ c else s' = s)"
begin

lemma feed_total:
  assumes "inv s" "\<forall>c \<in> set cs. length c < 2 ^ 62"
  shows "\<exists>ok s' ds. feed_chunks put s cs = Some (ok, s') \<and> inv s' \<and>
           content s' = content s @ concat ds \<and> (\<exists>es. cs = ds @ es) \<and> (ok \<longrightarrow> ds = cs)"
  using assms
proof (induction cs arbitrary: s)
  case Nil
  then show ?case by (intro exI [of _ True] exI [of _ s] exI [of _ "[]"]) simp
next
  case (Cons c cs)
  obtain ok s1 where p: "put s c = Some (ok, s1)" and i: "inv s1"
    and r: "if ok then content s1 = content s @ c else s1 = s"
    using put_total [of s c] Cons.prems by auto
  show ?case
  proof (cases ok)
    case False
    then have "feed_chunks put s (c # cs) = Some (False, s)" using p r by simp
    then show ?thesis using Cons.prems by (intro exI [of _ False] exI [of _ s] exI [of _ "[]"]) simp
  next
    case True
    obtain ok' s' ds where "feed_chunks put s1 cs = Some (ok', s')" "inv s'"
      "content s' = content s1 @ concat ds" "\<exists>es. cs = ds @ es" "ok' \<longrightarrow> ds = cs"
      using Cons.IH [OF i] Cons.prems by auto
    then show ?thesis
      using p r True by (intro exI [of _ ok'] exI [of _ s'] exI [of _ "c # ds"]) auto
  qed
qed

end

text \<open>\<open>la_buffer_append\<close> as a sink: the callback convention \<open>0\<close> / \<open>-1\<close> is \<open>ok\<close>.\<close>

definition append_sink :: "allocator \<Rightarrow> la_buffer \<Rightarrow> byte list \<Rightarrow> (bool \<times> la_buffer) option" where
  "append_sink A b c = map_option (\<lambda>(rc, b'). (rc = Buf_ok, b')) (la_buffer_append A b c (length c))"

interpretation buf_sink: byte_sink "append_sink A" buf_content "\<lambda>b. buf_inv b \<and> allocator_sane A" for A
proof (unfold_locales, goal_cases)
  case (1 b c)
  then obtain rc b' where "la_buffer_append A b c (length c) = Some (rc, b')" "buf_inv b'"
    "if rc = Buf_ok then buf_content b' = buf_content b @ take (length c) c else b' = b"
    using la_buffer_append_spec [of b A "length c" c] by auto
  with 1 show ?case
    by (intro exI [of _ "rc = Buf_ok"] exI [of _ b']) (simp add: append_sink_def)
qed

section \<open>Buffers a program can build\<close>

text \<open>
  The buffers reachable from \<open>la_buffer_new\<close> through the operations, with the arguments a
  caller may pass: lengths that a block can have, positions inside the content.
\<close>

inductive buf_reach :: "allocator \<Rightarrow> la_buffer \<Rightarrow> bool" for A where
  reach_new: "la_buffer_new A cap = Some b \<Longrightarrow> buf_reach A b"
| reach_append: "buf_reach A b \<Longrightarrow> len \<le> length data \<Longrightarrow> len < 2 ^ 62 \<Longrightarrow>
    la_buffer_append A b data len = Some (rc, b') \<Longrightarrow> buf_reach A b'"
| reach_vappendf: "buf_reach A b \<Longrightarrow> length out < 2 ^ 31 \<Longrightarrow>
    la_buffer_vappendf A b out = Some (rc, b') \<Longrightarrow> buf_reach A b'"
| reach_insert: "buf_reach A b \<Longrightarrow> index \<le> bsize b \<Longrightarrow> len \<le> length data \<Longrightarrow> len < 2 ^ 62 \<Longrightarrow>
    la_buffer_insert A b index data len = Some (rc, b') \<Longrightarrow> buf_reach A b'"
| reach_overwrite: "buf_reach A b \<Longrightarrow> index \<le> bsize b \<Longrightarrow> len \<le> length data \<Longrightarrow> len < 2 ^ 62 \<Longrightarrow>
    la_buffer_overwrite A b index data len = Some (rc, b') \<Longrightarrow> buf_reach A b'"
| reach_move: "buf_reach A b \<Longrightarrow> index + len < size_max \<Longrightarrow>
    la_buffer_move A b index newindex len = Some (rc, b') \<Longrightarrow> buf_reach A b'"
| reach_remove: "buf_reach A b \<Longrightarrow> off + len < size_max \<Longrightarrow>
    la_buffer_remove b off len = Some (rc, b') \<Longrightarrow> buf_reach A b'"
| reach_truncate: "buf_reach A b \<Longrightarrow> la_buffer_truncate b n = (rc, b') \<Longrightarrow> buf_reach A b'"
| reach_compact: "buf_reach A b \<Longrightarrow> la_buffer_compact A b = (rc, b') \<Longrightarrow> buf_reach A b'"

lemma buf_reach_inv:
  assumes "buf_reach A b" "allocator_sane A"
  shows "buf_inv b"
  using assms(1)
proof (induction rule: buf_reach.induct)
  case (reach_new cap b)
  with assms(2) show ?case by (rule buf_inv_new)
next
  case (reach_append b len data rc b')
  with la_buffer_append_spec [of b A len data] assms(2) show ?case by force
next
  case (reach_vappendf b out rc b')
  with la_buffer_vappendf_spec [of b A out] assms(2) show ?case by force
next
  case (reach_insert b index len data rc b')
  with la_buffer_insert_spec [of b A index len data] assms(2) show ?case by force
next
  case (reach_overwrite b index len data rc b')
  with la_buffer_overwrite_spec [of b A index len data] assms(2) show ?case by force
next
  case (reach_move b index len newindex rc b')
  with la_buffer_move_spec [of b A index len newindex] assms(2) show ?case by force
next
  case (reach_remove b off len rc b')
  with la_buffer_remove_spec [of b off len] show ?case by force
next
  case (reach_truncate b n rc b')
  with la_buffer_truncate_spec show ?case by blast
next
  case (reach_compact b rc b')
  with la_buffer_compact_spec assms(2) show ?case by blast
qed

section \<open>Properties\<close>

text \<open>
  C22. On every buffer a program can build with the operations of \<open>buffer.c\<close>, \<open>size\<close> never
  exceeds \<open>capacity\<close>, \<open>capacity\<close> never exceeds the heap block, and an append, a formatted
  append and a full read stay inside the block (they have a result).
\<close>

theorem buffer_reachable_safe:
  assumes "buf_reach A b" "allocator_sane A" "len \<le> length data" "len < 2 ^ 62" "length out < 2 ^ 31"
  shows "bsize b \<le> capacity b \<and> capacity b \<le> length (ptr b) \<and>
         la_buffer_append A b data len \<noteq> None \<and> la_buffer_vappendf A b out \<noteq> None \<and>
         la_buffer_get b 0 (bsize b) = Some (bsize b, buf_content b)"
proof -
  have inv: "buf_inv b" using assms(1,2) by (rule buf_reach_inv)
  then have "bsize b \<le> capacity b \<and> capacity b \<le> length (ptr b)" by (simp add: buf_inv_def)
  moreover have "la_buffer_append A b data len \<noteq> None"
    using la_buffer_append_spec [OF inv assms(2,3)] assms(4) by auto
  moreover have "la_buffer_vappendf A b out \<noteq> None"
    using la_buffer_vappendf_spec [OF inv assms(2,5)] by auto
  moreover have "la_buffer_get b 0 (bsize b) = Some (bsize b, buf_content b)"
    using la_buffer_get_spec [OF inv, of 0 "bsize b"] inv by simp
  ultimately show ?thesis by blast
qed

theorem buffer_reachable_safe_witness:
  "\<exists>b. buf_reach exact_allocator b \<and> bsize b \<le> capacity b \<and>
       la_buffer_append exact_allocator b [1, 2] 2 \<noteq> None"
proof -
  obtain b where "la_buffer_new exact_allocator 1 = Some b"
    by (simp add: la_buffer_new_def sizeof_la_buffer_def malloc_def buf_cap_def Let_def)
  then have r: "buf_reach exact_allocator b" by (rule reach_new)
  from buffer_reachable_safe [OF r, of 2 "[1, 2]" "[]"] r show ?thesis by auto
qed

text \<open>
  C23. Appending \<open>length\<close> bytes to a well-formed buffer always has a result: on success the
  content grows by exactly those bytes, on failure (a wrapped fixed block, or no memory)
  the buffer is untouched; success is guaranteed when the capacity already suffices.
\<close>

theorem la_buffer_append_correct:
  assumes "buf_inv b" "allocator_sane A" "len \<le> length data" "len < 2 ^ 63"
  shows "\<exists>rc b'. la_buffer_append A b data len = Some (rc, b') \<and> buf_inv b' \<and>
           (bsize b + len \<le> capacity b \<longrightarrow> rc = Buf_ok) \<and>
           (if rc = Buf_ok then buf_content b' = buf_content b @ take len data else b' = b)"
proof -
  obtain rc b' where r: "la_buffer_append A b data len = Some (rc, b')" "buf_inv b'"
    "if rc = Buf_ok then buf_content b' = buf_content b @ take len data else b' = b"
    using la_buffer_append_spec [OF assms] by blast
  have "rc = Buf_ok" if fits: "bsize b + len \<le> capacity b"
  proof -
    have "add_sz (bsize b) len = bsize b + len"
      using assms by (intro add_sz_small) (simp add: buf_inv_def)
    then have "la_buffer_ensure_capacity A b (add_sz (bsize b) len) = (Buf_ok, b)"
      using fits by (simp add: la_buffer_ensure_capacity_def)
    with r(1) show ?thesis by (auto simp: la_buffer_append_def bind_eq_Some_conv)
  qed
  with r show ?thesis by blast
qed

definition buf_example :: la_buffer where
  "buf_example = \<lparr>ptr = [10, 20, 30, 40, 0, 0], bsize = 4, capacity = 6, ptr_owned = True\<rparr>"

theorem la_buffer_append_correct_witness:
  "buf_inv buf_example \<and>
   (\<exists>b'. la_buffer_append exact_allocator buf_example [50, 60] 2 = Some (Buf_ok, b') \<and>
      buf_content b' = [10, 20, 30, 40, 50, 60])"
proof -
  have i: "buf_inv buf_example" by (simp add: buf_inv_def buf_example_def)
  from la_buffer_append_correct [OF i exact_allocator_sane, of 2 "[50, 60]"] i show ?thesis
    by (auto simp: buf_example_def buf_content_def)
qed

text \<open>
  Removing a range that ends strictly before the last byte deletes exactly that range;
  any other range, in particular a suffix of the content, is refused with \<open>EINVAL\<close> and the
  buffer is unchanged.
\<close>

theorem la_buffer_remove_correct:
  assumes "buf_inv b" "off + len < size_max"
  shows "\<exists>rc b'. la_buffer_remove b off len = Some (rc, b') \<and> buf_inv b' \<and>
           (if off + len < bsize b
            then rc = Buf_ok \<and>
                 buf_content b' = take off (buf_content b) @ drop (off + len) (buf_content b)
            else rc = Buf_einval \<and> b' = b)"
  using assms by (rule la_buffer_remove_spec)

theorem la_buffer_remove_correct_witness:
  "la_buffer_remove buf_example 2 2 = Some (Buf_einval, buf_example) \<and>
   (\<exists>b'. la_buffer_remove buf_example 1 2 = Some (Buf_ok, b') \<and> buf_content b' = [10, 40])"
proof -
  have i: "buf_inv buf_example" by (simp add: buf_inv_def buf_example_def)
  from la_buffer_remove_correct [OF i, of 2 2] la_buffer_remove_correct [OF i, of 1 2]
  show ?thesis by (auto simp: buf_example_def buf_content_def)
qed

text \<open>
  A successful insertion does not make the buffer longer: \<open>size\<close> is not updated, so the
  content becomes the first \<open>size\<close> bytes of the spliced content and as many bytes as were
  inserted fall off its end.
\<close>

theorem la_buffer_insert_drops_tail:
  assumes "buf_inv b" "allocator_sane A" "index \<le> bsize b" "len \<le> length data" "len < 2 ^ 62"
    and "la_buffer_insert A b index data len = Some (Buf_ok, b')"
  shows "bsize b' = bsize b \<and> buf_content b' =
         take (bsize b) (take index (buf_content b) @ take len data @ drop index (buf_content b))"
proof -
  have c: "buf_content b' =
      take (bsize b) (take index (buf_content b) @ take len data @ drop index (buf_content b))"
    and i: "buf_inv b'"
    using la_buffer_insert_spec [OF assms(1-5)] assms(6) by auto
  have "bsize b' = length (buf_content b')" using i by simp
  also have "\<dots> = bsize b" unfolding c using assms(1,3,4) by simp
  finally show ?thesis using c by simp
qed

theorem la_buffer_insert_drops_tail_witness:
  "\<exists>b'. la_buffer_insert exact_allocator buf_example 1 [99] 1 = Some (Buf_ok, b') \<and>
        buf_content b' = [10, 99, 20, 30]"
proof -
  have i: "buf_inv buf_example" by (simp add: buf_inv_def buf_example_def)
  have "\<exists>b'. la_buffer_insert exact_allocator buf_example 1 [99] 1 = Some (Buf_ok, b')"
    by (simp add: la_buffer_insert_def la_buffer_ensure_capacity_def buf_example_def add_sz_def
      sub_sz_def mem_read_def mem_write_def mem_move_def)
  then obtain b' where b': "la_buffer_insert exact_allocator buf_example 1 [99] 1 = Some (Buf_ok, b')" ..
  from la_buffer_insert_drops_tail [OF i exact_allocator_sane _ _ _ b'] b' show ?thesis
    by (auto simp: buf_example_def buf_content_def)
qed

end
