(* ===== verification/LA_Strings.thy ===== *)
theory LA_Strings
  imports LA_Prelude
begin

unbundle bit_operations_syntax

text \<open>
  The string helpers of \<open>utils/stringutils.c\<close> and the dump of \<open>utils/hexdump.c\<close>. A C string
  argument is the list of its characters, without the terminating zero; a result is the heap
  block the returned pointer designates. \<open>cstr\<close> reads a block as a C string.
\<close>

section \<open>The C string functions the code calls\<close>

definition cstr :: "byte list \<Rightarrow> byte list option" where
  "cstr p = (if 0 \<in> set p then Some (takeWhile (\<lambda>c. c \<noteq> 0) p) else None)"

text \<open>\<open>strcat\<close>: the destination must hold a terminated string, with room for the result.\<close>

definition strcat :: "byte list \<Rightarrow> byte list \<Rightarrow> byte list option" where
  "strcat dst src = do { d \<leftarrow> cstr dst; mem_write dst (length d) (src @ [0]) }"

text \<open>\<open>i++\<close> on a 32-bit \<open>int\<close> loop counter: overflow is undefined.\<close>

definition int_incr :: "nat \<Rightarrow> nat \<Rightarrow> nat option" where
  "int_incr d i = (if i + d < 2 ^ 31 then Some (i + d) else None)"

definition tolower :: "byte \<Rightarrow> byte" where
  "tolower c = (if 0x41 \<le> c \<and> c \<le> 0x5a then c + 0x20 else c)"

section \<open>Joining\<close>

function join_size :: "byte list \<Rightarrow> byte list list \<Rightarrow> nat \<Rightarrow> nat \<Rightarrow> nat \<Rightarrow> nat option" where
  "join_size sep parts n i sz =
     (if i < n then
        if i < length parts then
          let sz1 = add_sz sz (length (parts ! i));
              sz2 = (if i < n - 1 then add_sz sz1 (length sep) else sz1)
          in case int_incr 1 i of None \<Rightarrow> None | Some i' \<Rightarrow> join_size sep parts n i' sz2
        else None
      else Some sz)"
  by pat_completeness auto
termination
  by (relation "measure (\<lambda>(sep, parts, n, i, sz). n - i)")
    (auto simp: int_incr_def split: if_splits)

function join_fill ::
  "byte list \<Rightarrow> byte list list \<Rightarrow> nat \<Rightarrow> nat \<Rightarrow> byte list \<Rightarrow> byte list option" where
  "join_fill sep parts n i buf =
     (if i < n then
        if i < length parts then
          case strcat buf (parts ! i) of
            None \<Rightarrow> None
          | Some buf1 \<Rightarrow>
            (case (if i < n - 1 then strcat buf1 sep else Some buf1) of
               None \<Rightarrow> None
             | Some buf2 \<Rightarrow>
               (case int_incr 1 i of None \<Rightarrow> None | Some i' \<Rightarrow> join_fill sep parts n i' buf2))
        else None
      else Some buf)"
  by pat_completeness auto
termination
  by (relation "measure (\<lambda>(sep, parts, n, i, buf). n - i)")
    (auto simp: int_incr_def split: if_splits)

declare join_size.simps [simp del] join_fill.simps [simp del]

definition string_join ::
  "allocator \<Rightarrow> byte list \<Rightarrow> byte list list \<Rightarrow> nat \<Rightarrow> byte list option option" where
  "string_join A sep parts n =
     (case join_size sep parts n 0 0 of
        None \<Rightarrow> None
      | Some sz \<Rightarrow>
        (case malloc A (add_sz sz 1) of
           None \<Rightarrow> Some None
         | Some p \<Rightarrow>
           (case mem_write p 0 [0] of
              None \<Rightarrow> None
            | Some buf \<Rightarrow> map_option Some (join_fill sep parts n 0 buf))))"

text \<open>The block is requested without room for the terminator, and its address is not checked.\<close>

definition string_append :: "allocator \<Rightarrow> byte list \<Rightarrow> byte list \<Rightarrow> byte list option" where
  "string_append A prefix suffix = do {
     p \<leftarrow> malloc A (add_sz (length prefix) (length suffix));
     p0 \<leftarrow> mem_write p 0 [0];
     p1 \<leftarrow> strcat p0 prefix;
     strcat p1 suffix }"

section \<open>Hexadecimal\<close>

definition hexify :: "byte \<Rightarrow> byte" where
  "hexify nybble = (if nybble < 10 then 0x30 + nybble else 0x61 + (nybble - 10))"

text \<open>
  The loop of \<open>string_randhex\<close> over the bytes \<open>/dev/urandom\<close> still has to give. The result is
  the return value and the block at \<open>str\<close>.
\<close>

function randhex_loop ::
  "nat \<Rightarrow> nat \<Rightarrow> byte list \<Rightarrow> byte list \<Rightarrow> (int \<times> byte list) option" where
  "randhex_loop len i rnd str =
     (if i < len then
        case rnd of
          [] \<Rightarrow> Some (-1, str)
        | b # rnd' \<Rightarrow>
          (case mem_write str i [hexify (drop_bit 4 b AND 0xf)] of
             None \<Rightarrow> None
           | Some s1 \<Rightarrow>
             (case (if i + 1 < len then mem_write s1 (i + 1) [hexify (b AND 0xf)] else Some s1) of
                None \<Rightarrow> None
              | Some s2 \<Rightarrow>
                (case int_incr 2 i of None \<Rightarrow> None | Some i' \<Rightarrow> randhex_loop len i' rnd' s2)))
      else map_option (\<lambda>s. (0, s)) (mem_write str len [0]))"
  by pat_completeness auto
termination
  by (relation "measure (\<lambda>(len, i, rnd, str). len - i)")
    (auto simp: int_incr_def split: if_splits)

declare randhex_loop.simps [simp del]

text \<open>\<open>urandom\<close> is \<open>None\<close> when the device cannot be opened.\<close>

definition string_randhex ::
  "byte list option \<Rightarrow> byte list \<Rightarrow> nat \<Rightarrow> (int \<times> byte list) option" where
  "string_randhex urandom str len =
     (case urandom of None \<Rightarrow> Some (-1, str) | Some rnd \<Rightarrow> randhex_loop len 0 rnd str)"

definition unhex_nybble :: "byte \<Rightarrow> byte option" where
  "unhex_nybble c =
     (if 0x30 \<le> c \<and> c \<le> 0x39 then Some (c - 0x30)
      else if 0x61 \<le> c \<and> c \<le> 0x66 then Some ((c - 0x61) + 10)
      else None)"

text \<open>
  The loop of \<open>string_unhex\<close>: two characters remain exactly when \<open>i < len - 1\<close>. \<open>j\<close> is also the
  count, which keeps growing when the output block is full.
\<close>

fun unhex_loop :: "byte list \<Rightarrow> nat \<Rightarrow> byte list \<Rightarrow> nat \<Rightarrow> (nat \<times> byte list) option" where
  "unhex_loop (c1 # c2 # rest) j buf sz =
     (case unhex_nybble (tolower c1) of
        None \<Rightarrow> Some (j, buf)
      | Some v1 \<Rightarrow>
        (case unhex_nybble (tolower c2) of
           None \<Rightarrow> Some (j, buf)
         | Some v2 \<Rightarrow>
           (case (if j < sz then mem_write buf j [push_bit 4 v1 OR v2] else Some buf) of
              None \<Rightarrow> None
            | Some buf' \<Rightarrow> unhex_loop rest (j + 1) buf' sz)))"
| "unhex_loop _ j buf sz = Some (j, buf)"

text \<open>\<open>(int) strlen(str)\<close> wraps, and a negative length ends the loop at once.\<close>

definition string_unhex :: "byte list \<Rightarrow> byte list \<Rightarrow> nat \<Rightarrow> (nat \<times> byte list) option" where
  "string_unhex str buf sz =
     unhex_loop (take (nat (sint (word_of_nat (length str) :: 32 word))) str) 0 buf sz"

section \<open>The dump\<close>

text \<open>\<open>isgraph\<close> in the C locale; a negative \<open>char\<close> is not graphic.\<close>

definition hd_ch :: "byte \<Rightarrow> byte" where
  "hd_ch c = (if 0x21 \<le> c \<and> c \<le> 0x7e then c else 0x2e)"

fun hex_digits :: "nat \<Rightarrow> byte list" where
  "hex_digits n =
     (if n < 16 then [hexify (word_of_nat n)] else hex_digits (n div 16) @ [hexify (word_of_nat (n mod 16))])"

declare hex_digits.simps [simp del]

definition fmt_08lx :: "nat \<Rightarrow> byte list" where
  "fmt_08lx n = replicate (8 - length (hex_digits n)) 0x30 @ hex_digits n"

definition fmt_02x :: "nat \<Rightarrow> byte list" where
  "fmt_02x n = replicate (2 - length (hex_digits n)) 0x30 @ hex_digits n"

text \<open>One row: the address, sixteen cells with a gap after the eighth, and the characters.\<close>

definition fhexdump_cell :: "byte list \<Rightarrow> nat \<Rightarrow> nat \<Rightarrow> byte list" where
  "fhexdump_cell buf i j =
     (if j = 8 then [0x20] else []) @
     (if i + j < length buf then fmt_02x (unat (buf ! (i + j))) @ [0x20] else [0x20, 0x20, 0x20])"

definition fhexdump_row :: "nat \<Rightarrow> byte list \<Rightarrow> nat \<Rightarrow> byte list" where
  "fhexdump_row addr buf i =
     fmt_08lx (add_sz addr i) @ [0x20, 0x20] @ concat (map (fhexdump_cell buf i) [0..<16]) @
     replicate 4 0x20 @ map (\<lambda>j. hd_ch (buf ! (i + j))) (filter (\<lambda>j. i + j < length buf) [0..<16]) @
     [0x0a]"

function fhexdump_rows :: "nat \<Rightarrow> byte list \<Rightarrow> nat \<Rightarrow> byte list list" where
  "fhexdump_rows addr buf i =
     (if i < length buf then fhexdump_row addr buf i # fhexdump_rows addr buf (i + 16) else [])"
  by pat_completeness auto
termination by (relation "measure (\<lambda>(addr, buf, i). length buf - i)") auto

declare fhexdump_rows.simps [simp del]

text \<open>The bytes written to \<open>out\<close>; \<open>addr\<close> is the address of \<open>buf\<close>, whose length is \<open>len\<close>.\<close>

definition la_fhexdump :: "nat \<Rightarrow> byte list \<Rightarrow> byte list" where
  "la_fhexdump addr buf = concat (fhexdump_rows addr buf 0)"

definition la_hexdump :: "nat \<Rightarrow> byte list \<Rightarrow> byte list" where
  "la_hexdump addr buf = la_fhexdump addr buf"

section \<open>Lemmas on C strings\<close>

lemma cstr_append_zero [simp]: "0 \<notin> set s \<Longrightarrow> cstr (s @ 0 # r) = Some s"
  by (auto simp: cstr_def takeWhile_append)

lemma strcat_room:
  assumes "0 \<notin> set d" "length src \<le> length r"
  shows "strcat (d @ 0 # r) src = Some ((d @ src) @ 0 # drop (length src) r)"
  using assms by (simp add: strcat_def mem_write_def)

lemma strcat_no_room:
  assumes "0 \<notin> set d" "length r < length src"
  shows "strcat (d @ 0 # r) src = None"
  using assms by (simp add: strcat_def mem_write_def)

text \<open>What joining means.\<close>

fun join_spec :: "byte list \<Rightarrow> byte list list \<Rightarrow> byte list" where
  "join_spec sep [] = []"
| "join_spec sep [x] = x"
| "join_spec sep (x # y # xs) = x @ sep @ join_spec sep (y # xs)"

lemma drop_Cons_nth: "i < length xs \<Longrightarrow> drop i xs = xs ! i # drop (Suc i) xs"
  by (rule Cons_nth_drop_Suc [symmetric])

lemma join_spec_step:
  assumes "i < n" "n \<le> length parts"
  shows "join_spec sep (drop i (take n parts)) =
         parts ! i @ (if i < n - 1 then sep @ join_spec sep (drop (Suc i) (take n parts)) else [])"
proof -
  have d: "drop i (take n parts) = parts ! i # drop (Suc i) (take n parts)"
    using assms by (subst drop_Cons_nth) auto
  show ?thesis
  proof (cases "Suc i < n")
    case True
    then have "drop (Suc i) (take n parts) \<noteq> []" using assms by simp
    then obtain y ys where "drop (Suc i) (take n parts) = y # ys" by (meson list.exhaust)
    moreover have "i < n - 1" using True by linarith
    ultimately show ?thesis using d by simp
  next
    case False
    then have "drop (Suc i) (take n parts) = []" by simp
    moreover have "\<not> i < n - 1" using False by linarith
    ultimately show ?thesis using d by simp
  qed
qed

lemma join_spec_zero_free:
  "0 \<notin> set sep \<Longrightarrow> \<forall>x\<in>set xs. 0 \<notin> set x \<Longrightarrow> 0 \<notin> set (join_spec sep xs)"
  by (induction sep xs rule: join_spec.induct) auto

lemma join_size_spec:
  assumes "n \<le> length parts" "n < 2 ^ 31" "i \<le> n"
    and "sz + length (join_spec sep (drop i (take n parts))) < size_max"
  shows "join_size sep parts n i sz = Some (sz + length (join_spec sep (drop i (take n parts))))"
  using assms
proof (induction "n - i" arbitrary: i sz)
  case 0
  then show ?case by (simp add: join_size.simps)
next
  case (Suc k)
  then have i: "i < n" "i < length parts" by auto
  have inc: "int_incr 1 i = Some (Suc i)" using i Suc.prems(2) by (simp add: int_incr_def)
  note step = join_spec_step [OF i(1) Suc.prems(1), of sep]
  have a1: "add_sz sz (length (parts ! i)) = sz + length (parts ! i)"
    using Suc.prems(4) step by (intro add_sz_small) simp
  show ?case
  proof (cases "i < n - 1")
    case True
    let ?sz = "sz + length (parts ! i) + length sep"
    have a2: "add_sz (sz + length (parts ! i)) (length sep) = ?sz"
      using Suc.prems(4) step True by (intro add_sz_small) simp
    have "join_size sep parts n (Suc i) ?sz =
        Some (?sz + length (join_spec sep (drop (Suc i) (take n parts))))"
      using Suc.prems Suc.hyps(2) i step True by (intro Suc.hyps(1)) auto
    with True i a1 a2 inc step show ?thesis
      by (subst join_size.simps) (simp add: Let_def)
  next
    case False
    then have "\<not> Suc i < n" using i by linarith
    then have "join_size sep parts n (Suc i) (sz + length (parts ! i)) = Some (sz + length (parts ! i))"
      by (subst join_size.simps) simp
    with False i a1 inc step show ?thesis
      by (subst join_size.simps) (simp add: Let_def)
  qed
qed

lemma join_fill_spec:
  assumes "n \<le> length parts" "n < 2 ^ 31" "i \<le> n" "0 \<notin> set d" "0 \<notin> set sep"
    and "\<forall>x\<in>set parts. 0 \<notin> set x" "length (join_spec sep (drop i (take n parts))) \<le> length r"
  shows "join_fill sep parts n i (d @ 0 # r) =
         Some ((d @ join_spec sep (drop i (take n parts))) @
               0 # drop (length (join_spec sep (drop i (take n parts)))) r)"
  using assms
proof (induction "n - i" arbitrary: i d r)
  case 0
  then show ?case by (simp add: join_fill.simps)
next
  case (Suc k)
  then have i: "i < n" "i < length parts" by auto
  have z: "0 \<notin> set (parts ! i)" using Suc.prems(6) i by simp
  have inc: "int_incr 1 i = Some (Suc i)" using i Suc.prems(2) by (simp add: int_incr_def)
  note step = join_spec_step [OF i(1) Suc.prems(1), of sep]
  show ?case
  proof (cases "i < n - 1")
    case True
    let ?j = "join_spec sep (drop (Suc i) (take n parts))"
    let ?r = "drop (length (parts ! i) + length sep) r"
    have room: "length (parts ! i) + length sep + length ?j \<le> length r"
      using Suc.prems(7) step True by simp
    have "join_fill sep parts n (Suc i) ((d @ parts ! i @ sep) @ 0 # ?r) =
        Some (((d @ parts ! i @ sep) @ ?j) @ 0 # drop (length ?j) ?r)"
      using Suc.prems Suc.hyps z i room by (intro Suc.hyps(1)) auto
    then show ?thesis
      using i True z Suc.prems room step inc
      by (subst join_fill.simps) (simp add: strcat_room add.commute add.left_commute
          flip: append_assoc)
  next
    case False
    then have n: "n = Suc i" using i by simp
    have fin: "join_fill sep parts n (Suc i) ((d @ parts ! i) @ 0 # drop (length (parts ! i)) r) =
        Some ((d @ parts ! i) @ 0 # drop (length (parts ! i)) r)"
      using n by (simp add: join_fill.simps)
    show ?thesis
      using i False z Suc.prems step inc fin
      by (subst join_fill.simps) (simp add: strcat_room)
  qed
qed

section \<open>Lemmas on hexadecimal\<close>

text \<open>A claim on every nybble is a claim on sixteen values.\<close>

lemma nybble_all:
  fixes n :: byte
  assumes "list_all P (map word_of_nat [0..<16])" "n < 16"
  shows "P n"
proof -
  have "unat n < 16" using assms(2) by (simp add: word_less_nat_alt)
  then have "n \<in> set (map word_of_nat [0..<16])"
    by (auto intro!: image_eqI [of _ _ "unat n"])
  with assms(1) show ?thesis unfolding list_all_iff by blast
qed

lemma nybbles_unhex:
  "list_all (\<lambda>n :: byte. unhex_nybble (tolower (hexify n)) = Some n) (map word_of_nat [0..<16])"
  by code_simp

lemma nybbles_nonzero: "list_all (\<lambda>n :: byte. hexify n \<noteq> 0) (map word_of_nat [0..<16])"
  by code_simp

lemma unhex_hexify [simp]: "n < 16 \<Longrightarrow> unhex_nybble (tolower (hexify n)) = Some n"
  by (rule nybble_all [OF nybbles_unhex])

lemma hexify_nonzero: "n < 16 \<Longrightarrow> hexify n \<noteq> 0"
  by (rule nybble_all [OF nybbles_nonzero])

lemma nybble_less [simp]: "(b :: byte) AND 0xf < 16"
proof -
  have "b AND 0xf \<le> 0xf" by (rule word_and_le1)
  then show ?thesis by (rule order_le_less_trans) simp
qed

lemma nybbles_eq: "push_bit 4 (drop_bit 4 b AND 0xf) OR (b AND 0xf) = (b :: byte)"
proof -
  have m: "(0xf :: byte) = mask 4" by (simp add: mask_eq_exp_minus_1)
  show ?thesis unfolding m
    by (rule bit_word_eqI) (auto simp: bit_simps)
qed

text \<open>The text two characters per byte stand for.\<close>

definition hex2 :: "byte \<Rightarrow> byte list" where
  "hex2 b = [hexify (drop_bit 4 b AND 0xf), hexify (b AND 0xf)]"

lemma length_concat_hex2 [simp]: "length (concat (map hex2 bs)) = 2 * length bs"
  by (induction bs) (simp_all add: hex2_def)

lemma hex2_zero_free: "0 \<notin> set (concat (map hex2 bs))"
  using hexify_nonzero [OF nybble_less] by (auto simp: hex2_def)

lemma unhex_loop_hex2:
  assumes "j + length bs \<le> length buf"
  shows "unhex_loop (concat (map hex2 bs)) j buf sz =
         Some (j + length bs,
               take j buf @ take (sz - j) bs @ drop (j + min (sz - j) (length bs)) buf)"
  using assms
proof (induction bs arbitrary: j buf)
  case Nil
  then show ?case by simp
next
  case (Cons b bs)
  show ?case
  proof (cases "j < sz")
    case False
    then have "unhex_loop (concat (map hex2 (b # bs))) j buf sz =
        unhex_loop (concat (map hex2 bs)) (Suc j) buf sz"
      by (simp add: hex2_def)
    also have "\<dots> = Some (Suc j + length bs, take (Suc j) buf @ drop (Suc j) buf)"
      using Cons.IH [of "Suc j" buf] Cons.prems False by simp
    finally show ?thesis using False by simp
  next
    case True
    define buf' where "buf' = take j buf @ [b] @ drop (Suc j) buf"
    have "mem_write buf j [b] = Some buf'"
      using Cons.prems by (simp add: mem_write_def buf'_def)
    then have "unhex_loop (concat (map hex2 (b # bs))) j buf sz =
        unhex_loop (concat (map hex2 bs)) (Suc j) buf' sz"
      using True by (simp add: hex2_def nybbles_eq del: push_bit_and push_bit_of_1)
    also have "\<dots> = Some (Suc j + length bs, take (Suc j) buf' @ take (sz - Suc j) bs @
        drop (Suc j + min (sz - Suc j) (length bs)) buf')"
      using Cons.prems by (intro Cons.IH) (simp add: buf'_def)
    also have "take (Suc j) buf' = take j buf @ [b]"
      using Cons.prems by (simp add: buf'_def)
    also have "drop (Suc j + min (sz - Suc j) (length bs)) buf' =
        drop (Suc j + min (sz - Suc j) (length bs)) buf"
      using Cons.prems by (simp add: buf'_def add.commute)
    finally show ?thesis using True
      by (cases "sz - j") (simp_all flip: Suc_diff_Suc)
  qed
qed

text \<open>What \<open>string_randhex\<close> writes when the device gives enough bytes.\<close>

lemma randhex_loop_spec:
  assumes "i \<le> Suc len" "len < length str" "Suc len < 2 ^ 31" "len \<le> i + 2 * length rnd"
  shows "randhex_loop len i rnd str =
         Some (0, take (min i len) str @ take (len - i) (concat (map hex2 rnd)) @ 0 # drop (Suc len) str)"
  using assms
proof (induction rnd arbitrary: i str)
  case Nil
  then show ?case by (subst randhex_loop.simps) (simp add: mem_write_def min_def)
next
  case (Cons b rnd)
  show ?case
  proof (cases "i < len")
    case False
    with Cons.prems show ?thesis
      by (subst randhex_loop.simps) (simp add: mem_write_def min_def)
  next
    case True
    have inc: "int_incr 2 i = Some (i + 2)" using True Cons.prems by (simp add: int_incr_def)
    define s1 where "s1 = take i str @ [hexify (drop_bit 4 b AND 0xf)] @ drop (Suc i) str"
    define s2 where "s2 = (if i + 1 < len
        then take i str @ hex2 b @ drop (i + 2) str else s1)"
    have w1: "mem_write str i [hexify (drop_bit 4 b AND 0xf)] = Some s1"
      using True Cons.prems by (simp add: mem_write_def s1_def)
    have w2: "(if i + 1 < len then mem_write s1 (i + 1) [hexify (b AND 0xf)] else Some s1) = Some s2"
      using True Cons.prems by (auto simp: mem_write_def s1_def s2_def hex2_def)
    have l: "length s2 = length str" using True Cons.prems by (auto simp: s1_def s2_def hex2_def)
    have d: "drop (Suc len) s2 = drop (Suc len) str"
    proof (cases "i + 1 < len")
      case False
      then have "len = Suc i" using True by simp
      then show ?thesis using Cons.prems by (simp add: s2_def s1_def)
    next
      case two: True
      then obtain k where k: "len = i + 2 + k" by (auto dest: less_imp_Suc_add)
      have "drop (Suc len) s2 = drop (Suc (Suc (Suc k))) (hex2 b @ drop (i + 2) str)"
        using two Cons.prems k by (simp add: s2_def numeral_3_eq_3)
      then show ?thesis using k by (simp add: hex2_def add.commute)
    qed
    have t: "take (min (i + 2) len) s2 @ take (len - (i + 2)) (concat (map hex2 rnd)) =
        take (min i len) str @ take (len - i) (concat (map hex2 (b # rnd)))"
    proof (cases "i + 1 < len")
      case False
      then have "len = Suc i" using True by simp
      then show ?thesis using Cons.prems by (simp add: s2_def s1_def hex2_def)
    next
      case two: True
      then obtain k where k: "len = i + 2 + k"
        by (auto dest: less_imp_Suc_add)
      show ?thesis using two Cons.prems k by (simp add: s2_def hex2_def min_def)
    qed
    have "randhex_loop len i (b # rnd) str = randhex_loop len (i + 2) rnd s2"
      using True w1 w2 inc by (subst randhex_loop.simps) simp
    also have "\<dots> = Some (0, take (min (i + 2) len) s2 @
        take (len - (i + 2)) (concat (map hex2 rnd)) @ 0 # drop (Suc len) s2)"
      using True Cons.prems l by (intro Cons.IH) auto
    also have "\<dots> = Some (0, take (min i len) str @
        take (len - i) (concat (map hex2 (b # rnd))) @ 0 # drop (Suc len) str)"
      using t d by (simp flip: append_assoc)
    finally show ?thesis .
  qed
qed

lemma string_unhex_short:
  "length str < 2 ^ 31 \<Longrightarrow> string_unhex str buf sz = unhex_loop str 0 buf sz"
proof -
  assume a: "length str < 2 ^ 31"
  have "sint (word_of_nat (length str) :: 32 word) = int (length str)"
    using a by (subst signed_of_nat) (simp add: signed_take_bit_int_eq_self)
  then show ?thesis by (simp add: string_unhex_def)
qed

section \<open>Properties\<close>

text \<open>
  \<open>string_join\<close> returns a block that reads as the C string of its parts separated by \<open>sep\<close>,
  whatever the number of parts (none included), with every access inside the block; when the
  allocator refuses, it returns NULL.
\<close>

theorem string_join_correct:
  assumes "n \<le> length parts" "n < 2 ^ 31" "0 \<notin> set sep" "\<forall>x\<in>set parts. 0 \<notin> set x"
    and "length (join_spec sep (take n parts)) + 1 < size_max"
  shows "if grant A (length (join_spec sep (take n parts)) + 1)
         then \<exists>p. string_join A sep parts n = Some (Some p) \<and> cstr p = Some (join_spec sep (take n parts))
         else string_join A sep parts n = Some None"
proof -
  let ?j = "join_spec sep (take n parts)"
  have sz: "join_size sep parts n 0 0 = Some (length ?j)"
    using join_size_spec [of n parts 0 0 sep] assms by simp
  have add: "add_sz (length ?j) 1 = length ?j + 1" using assms(5) by (rule add_sz_small)
  show ?thesis
  proof (cases "malloc A (length ?j + 1)")
    case None
    then show ?thesis using sz add by (auto simp: string_join_def malloc_def split: if_splits)
  next
    case (Some p)
    then have len: "length ?j < length p" by (simp add: malloc_length)
    then obtain x r where p: "p = x # r" and r: "length ?j \<le> length r" by (cases p) auto
    have "join_fill sep parts n 0 ([] @ 0 # r) = Some (([] @ ?j) @ 0 # drop (length ?j) r)"
      using join_fill_spec [of n parts 0 "[]" sep r] assms r by simp
    moreover have "0 \<notin> set ?j" using assms(3,4) by (intro join_spec_zero_free) (auto dest: in_set_takeD)
    moreover have "grant A (length ?j + 1)" using Some by (simp add: malloc_def split: if_splits)
    moreover have "mem_write p 0 [0] = Some ([] @ 0 # r)" using p by (simp add: mem_write_def)
    ultimately show ?thesis
      using Some sz add by (simp add: string_join_def)
  qed
qed

theorem string_join_correct_witness:
  "\<exists>p. string_join exact_allocator [0x2c] [[0x61], [0x62, 0x63]] 2 = Some (Some p) \<and>
       cstr p = Some [0x61, 0x2c, 0x62, 0x63]"
  using string_join_correct [of 2 "[[0x61], [0x62, 0x63]]" "[0x2c]" exact_allocator] by simp

text \<open>With a spare byte \<open>string_append\<close> gives the concatenation.\<close>

lemma string_append_room:
  assumes "0 \<notin> set prefix" "0 \<notin> set suffix" "length prefix + length suffix < size_max"
    and "malloc A (length prefix + length suffix) = Some p" "length prefix + length suffix < length p"
  shows "\<exists>p. string_append A prefix suffix = Some p \<and> cstr p = Some (prefix @ suffix)"
proof -
  obtain x r where p: "p = x # r" using assms(5) by (cases p) auto
  let ?r = "drop (length prefix) r"
  have "mem_write p 0 [0] = Some ([] @ 0 # r)" using p by (simp add: mem_write_def)
  then have "string_append A prefix suffix = do { p1 \<leftarrow> strcat ([] @ 0 # r) prefix; strcat p1 suffix }"
    using assms(4) by (simp add: string_append_def add_sz_small [OF assms(3)])
  also have "\<dots> = strcat (prefix @ 0 # ?r) suffix" using assms(5) p strcat_room [of "[]" prefix r] by simp
  also have "\<dots> = Some ((prefix @ suffix) @ 0 # drop (length suffix) ?r)"
    using assms(5) p by (intro strcat_room assms(1)) simp
  finally show ?thesis using cstr_append_zero [of "prefix @ suffix"] assms(1,2) by auto
qed

text \<open>
  C24. \<open>string_append\<close> requests no byte for the terminator: on an allocator that hands out exact
  blocks it always writes outside its block, and with at least one spare byte it returns the
  concatenation.
\<close>

theorem string_append_needs_spare_byte:
  assumes "0 \<notin> set prefix" "0 \<notin> set suffix" "length prefix + length suffix < size_max"
    and "grant A (length prefix + length suffix)"
  shows "if slack A (length prefix + length suffix) = 0
         then string_append A prefix suffix = None
         else \<exists>p. string_append A prefix suffix = Some p \<and> cstr p = Some (prefix @ suffix)"
proof -
  let ?n = "length prefix + length suffix"
  have add: "add_sz (length prefix) (length suffix) = ?n" using assms(3) by (rule add_sz_small)
  obtain p where m: "malloc A ?n = Some p" using assms(4) by (simp add: malloc_def)
  then have l: "length p = ?n + slack A ?n" by (rule malloc_length)
  show ?thesis
  proof (cases p)
    case Nil
    then have "mem_write p 0 [0] = None" by (simp add: mem_write_def)
    then have "string_append A prefix suffix = None" by (simp add: string_append_def add m)
    moreover have "slack A ?n = 0" using l Nil by (metis add_is_0 list.size(3))
    ultimately show ?thesis by simp
  next
    case (Cons x r)
    have w: "mem_write p 0 [0] = Some ([] @ 0 # r)" using Cons by (simp add: mem_write_def)
    have eq: "string_append A prefix suffix = do { p1 \<leftarrow> strcat ([] @ 0 # r) prefix; strcat p1 suffix }"
      using m w by (simp add: string_append_def add)
    show ?thesis
    proof (cases "length prefix \<le> length r")
      case False
      then show ?thesis using l Cons eq strcat_no_room [of "[]" r prefix] by auto
    next
      case True
      let ?r = "drop (length prefix) r"
      have eq2: "string_append A prefix suffix = strcat (prefix @ 0 # ?r) suffix"
        using eq strcat_room [of "[]" prefix r] True by simp
      show ?thesis
      proof (cases "slack A ?n = 0")
        case True
        then have "length ?r < length suffix" using l Cons \<open>length prefix \<le> length r\<close> by simp
        with True eq2 strcat_no_room [OF assms(1)] show ?thesis by simp
      next
        case False
        then show ?thesis using string_append_room [OF assms(1-3) m] l by simp
      qed
    qed
  qed
qed

theorem string_append_needs_spare_byte_witness:
  "string_append exact_allocator [0x61] [0x62] = None \<and>
   (\<exists>p. string_append (spare_allocator 1) [0x61] [0x62] = Some p \<and> cstr p = Some [0x61, 0x62])"
  using string_append_needs_spare_byte [of "[0x61]" "[0x62]" exact_allocator]
    string_append_needs_spare_byte [of "[0x61]" "[0x62]" "spare_allocator 1"] by simp

text \<open>
  Generating \<open>2 n\<close> random hexadecimal digits and reading them back gives the \<open>n\<close> bytes
  \<open>/dev/urandom\<close> delivered, whatever they are: \<open>string_randhex\<close> leaves a terminated string of
  exactly that length and \<open>string_unhex\<close> counts \<open>n\<close> bytes and stores those that fit in \<open>size\<close>.
\<close>

theorem randhex_unhex_roundtrip:
  assumes "2 * length rnd < length str" "2 * length rnd + 1 < 2 ^ 31" "length rnd \<le> length buf"
  shows "\<exists>s txt. string_randhex (Some (rnd @ rest)) str (2 * length rnd) = Some (0, s) \<and>
           cstr s = Some txt \<and> length txt = 2 * length rnd \<and>
           string_unhex txt buf sz =
             Some (length rnd, take sz rnd @ drop (min sz (length rnd)) buf)"
proof -
  let ?t = "concat (map hex2 rnd)"
  have "string_randhex (Some (rnd @ rest)) str (2 * length rnd) =
      Some (0, ?t @ 0 # drop (Suc (2 * length rnd)) str)"
    using randhex_loop_spec [of 0 "2 * length rnd" str "rnd @ rest"] assms(1,2)
    by (simp add: string_randhex_def)
  moreover have "string_unhex ?t buf sz = Some (length rnd, take sz rnd @ drop (min sz (length rnd)) buf)"
    using unhex_loop_hex2 [of 0 rnd buf sz] assms by (simp add: string_unhex_short)
  moreover have "cstr (?t @ 0 # drop (Suc (2 * length rnd)) str) = Some ?t"
    using hex2_zero_free by (rule cstr_append_zero)
  ultimately show ?thesis by simp
qed

theorem randhex_unhex_roundtrip_witness:
  "\<exists>s txt. string_randhex (Some [0xde, 0xad]) [1, 1, 1, 1, 1] 4 = Some (0, s) \<and> cstr s = Some txt \<and>
     string_unhex txt [0, 0, 0] 3 = Some (2, [0xde, 0xad, 0])"
  using randhex_unhex_roundtrip [of "[0xde, 0xad]" "[1, 1, 1, 1, 1]" "[0, 0, 0]" "[]" 3]
  by fastforce

end
