(* ===== verification/LA_Object.thy ===== *)
theory LA_Object
  imports LA_Strings
begin

text \<open>
  Stored objects (\<open>Storage/ObjectStore.h\<close>, \<open>Storage/ObjectStore.c\<close>): the packed header with its
  flexible tail, creation, the accessor macros, revision scanning and the comparison of
  revision histories, and the bytes a header occupies on disk.
\<close>

section \<open>State\<close>

type_synonym rev = "byte list"

definition LA_OBJECT_REVISION_LEN :: nat where
  "LA_OBJECT_REVISION_LEN = 16"

lemma REVISION_LEN_eq [simp]: "LA_OBJECT_REVISION_LEN = 16"
  by (simp add: LA_OBJECT_REVISION_LEN_def)

text \<open>
  \<open>revs_data\<close> is the rest of the heap block behind the fixed part: the historical revisions
  followed by the object's data.
\<close>

record la_storage_object_header =
  seq :: u64
  doc_seq :: u64
  deleted :: bool
  rev_count :: "15 word"
  hrev :: rev
  revs_data :: "byte list"

record la_storage_object =
  key :: "byte list"
  header :: la_storage_object_header
  data_length :: nat

definition sizeof_header :: nat where
  "sizeof_header = 34"

definition sizeof_object :: nat where
  "sizeof_object = 24"

lemma sizeof_header_eq [simp]: "sizeof_header = 34"
  by (simp add: sizeof_header_def)

datatype la_storage_object_get_result =
  LA_STORAGE_OBJECT_GET_OK | LA_STORAGE_OBJECT_GET_NOT_FOUND
| LA_STORAGE_OBJECT_GET_REVISION_NOT_FOUND | LA_STORAGE_OBJECT_GET_ERROR

datatype la_storage_object_put_result =
  LA_STORAGE_OBJECT_PUT_SUCCESS | LA_STORAGE_OBJECT_PUT_CONFLICT | LA_STORAGE_OBJECT_PUT_ERROR

datatype la_storage_open_result =
  LA_STORAGE_OPEN_OK | LA_STORAGE_OPEN_CREATED | LA_STORAGE_OPEN_NOT_FOUND
| LA_STORAGE_OPEN_EXISTS | LA_STORAGE_OPEN_ERROR | LA_STORAGE_OPEN_NO_DRIVER

datatype la_storage_object_iterator_result =
  LA_STORAGE_OBJECT_ITERATOR_GOT_NEXT | LA_STORAGE_OBJECT_ITERATOR_END
| LA_STORAGE_OBJECT_ITERATOR_ERROR

text \<open>The flag word of \<open>open\<close>: bit 0 creates, bit 1 insists on creating.\<close>

record open_flags =
  flag_create :: bool
  flag_excl :: bool

record la_storage_stat =
  numkeys :: nat
  stat_size :: nat

section \<open>Accessor macros\<close>

text \<open>The offset of the data inside \<open>revs_data\<close>.\<close>

definition data_offset :: "la_storage_object \<Rightarrow> nat" where
  "data_offset obj = LA_OBJECT_REVISION_LEN * unat (rev_count (header obj))"

text \<open>What a reader of \<open>data_length\<close> bytes at \<open>la_storage_object_get_data\<close> sees.\<close>

definition la_storage_object_get_data :: "la_storage_object \<Rightarrow> byte list option" where
  "la_storage_object_get_data obj = mem_read (revs_data (header obj)) (data_offset obj) (data_length obj)"

definition la_storage_object_total_size :: "la_storage_object \<Rightarrow> nat" where
  "la_storage_object_total_size obj =
     sizeof_header + LA_OBJECT_REVISION_LEN * unat (rev_count (header obj)) + data_length obj"

section \<open>Operations\<close>

text \<open>
  \<open>Some None\<close> is a NULL result. \<open>revs\<close> is the block behind the pointer, \<open>None\<close> for NULL; the
  count is stored in a 15-bit field.
\<close>

definition la_storage_create_object ::
  "allocator \<Rightarrow> byte list \<Rightarrow> rev \<Rightarrow> byte list \<Rightarrow> nat \<Rightarrow> byte list option \<Rightarrow> nat \<Rightarrow>
   la_storage_object option option" where
  "la_storage_create_object A k rv data len revs revcount =
     (if \<not> grant A sizeof_object \<or> \<not> grant A (add_sz (length k) 1) then Some None
      else let total_len = (sizeof_header + len + revcount * LA_OBJECT_REVISION_LEN) mod size_max in
        case malloc A total_len of
          None \<Rightarrow> Some None
        | Some blk \<Rightarrow> do {
            blk0 \<leftarrow> mem_write blk 0 (replicate total_len 0);
            _ \<leftarrow> mem_read blk0 0 sizeof_header;
            r \<leftarrow> mem_read rv 0 LA_OBJECT_REVISION_LEN;
            let tail = drop sizeof_header blk0;
            (n, tail1) \<leftarrow>
              (case revs of
                 None \<Rightarrow> Some (0, tail)
               | Some rs \<Rightarrow> do {
                   xs \<leftarrow> mem_read rs 0 (revcount * LA_OBJECT_REVISION_LEN mod size_max);
                   t \<leftarrow> mem_write tail 0 xs;
                   Some (word_of_nat revcount, t) });
            d \<leftarrow> mem_read data 0 len;
            tail2 \<leftarrow> mem_write tail1 (LA_OBJECT_REVISION_LEN * unat n) d;
            Some (Some \<lparr>key = k,
                        header = \<lparr>seq = 0, doc_seq = 0, deleted = False, rev_count = n, hrev = r,
                                  revs_data = tail2\<rparr>,
                        data_length = len\<rparr>) })"

text \<open>The blocks given back by \<open>la_storage_destroy_object\<close>, in order.\<close>

datatype freed_object_block = Freed_key | Freed_header | Freed_object

definition la_storage_destroy_object :: "la_storage_object \<Rightarrow> freed_object_block list" where
  "la_storage_destroy_object obj = [Freed_key, Freed_header, Freed_object]"

text \<open>The count, and the memory the returned pointer designates (the current revision first).\<close>

definition la_storage_object_get_all_revs :: "la_storage_object \<Rightarrow> nat \<times> byte list" where
  "la_storage_object_get_all_revs obj =
     (unat (rev_count (header obj)) + 1, hrev (header obj) @ revs_data (header obj))"

definition la_storage_scan_rev :: "byte list \<Rightarrow> rev \<Rightarrow> (nat \<times> rev) option" where
  "la_storage_scan_rev str rv = string_unhex str rv LA_OBJECT_REVISION_LEN"

definition la_min :: "int \<Rightarrow> int \<Rightarrow> int" where
  "la_min a b = (if a < b then a else b)"

text \<open>
  \<open>memcmp\<close> of \<open>sizeof(la_storage_rev_t) * n\<close> bytes: the product is a \<open>size_t\<close>. Both arguments
  have to have that many bytes.
\<close>

definition revs_memeq :: "byte list \<Rightarrow> byte list \<Rightarrow> nat \<Rightarrow> int \<Rightarrow> bool option" where
  "revs_memeq revs1 revs2 i n = do {
     let bytes = nat ((16 * n) mod 2 ^ 64);
     x \<leftarrow> mem_read revs1 0 bytes;
     y \<leftarrow> mem_read revs2 (LA_OBJECT_REVISION_LEN * i) bytes;
     Some (x = y) }"

function overlap_loop :: "byte list \<Rightarrow> int \<Rightarrow> byte list \<Rightarrow> int \<Rightarrow> nat \<Rightarrow> bool option" where
  "overlap_loop revs1 count1 revs2 count2 i =
     (if int i < count2 - 1 then
        case revs_memeq revs1 revs2 i (la_min count1 (count2 - int i)) of
          None \<Rightarrow> None
        | Some True \<Rightarrow> Some True
        | Some False \<Rightarrow> overlap_loop revs1 count1 revs2 count2 (i + 1)
      else Some False)"
  by pat_completeness auto
termination
  by (relation "measure (\<lambda>(revs1, count1, revs2, count2, i). nat (count2 - int i))") auto

declare overlap_loop.simps [simp del]

definition la_storage_revs_overlap ::
  "byte list \<Rightarrow> int \<Rightarrow> byte list \<Rightarrow> int \<Rightarrow> bool option" where
  "la_storage_revs_overlap revs1 count1 revs2 count2 = overlap_loop revs1 count1 revs2 count2 0"

section \<open>The header as bytes\<close>

text \<open>
  The packed layout on a little-endian machine: \<open>deleted\<close> is the lowest bit of the two bytes
  that \<open>rev_count\<close> fills up. No function of the source does this: it is the layout a compiler gives
  the struct, which matters where the drivers store a header as the bytes of its block and read it back.
\<close>

definition flag_bits :: "la_storage_object_header \<Rightarrow> nat" where
  "flag_bits h = (if deleted h then 1 else 0) + 2 * unat (rev_count h)"

definition encode_header :: "la_storage_object_header \<Rightarrow> byte list" where
  "encode_header h =
     le_bytes 8 (unat (seq h)) @ le_bytes 8 (unat (doc_seq h)) @ le_bytes 2 (flag_bits h) @
     hrev h @ revs_data h"

definition decode_header :: "byte list \<Rightarrow> la_storage_object_header option" where
  "decode_header bs =
     (if length bs < sizeof_header then None
      else let fl = of_le (take 2 (drop 16 bs)) in
        Some \<lparr>seq = word_of_nat (of_le (take 8 bs)),
              doc_seq = word_of_nat (of_le (take 8 (drop 8 bs))),
              deleted = odd fl,
              rev_count = word_of_nat (fl div 2),
              hrev = take 16 (drop 18 bs),
              revs_data = drop 34 bs\<rparr>)"

definition header_wf :: "la_storage_object_header \<Rightarrow> bool" where
  "header_wf h = (length (hrev h) = 16)"

text \<open>An object whose block holds the revisions and the data its fields announce.\<close>

definition object_wf :: "la_storage_object \<Rightarrow> bool" where
  "object_wf obj =
     (header_wf (header obj) \<and> data_length obj < 2 ^ 32 \<and> 0 \<notin> set (key obj) \<and>
      data_offset obj + data_length obj \<le> length (revs_data (header obj)))"

definition object_data :: "la_storage_object \<Rightarrow> byte list" where
  "object_data obj = take (data_length obj) (drop (data_offset obj) (revs_data (header obj)))"

definition object_revs :: "la_storage_object \<Rightarrow> byte list" where
  "object_revs obj = hrev (header obj) @ take (data_offset obj) (revs_data (header obj))"

section \<open>Documents\<close>

text \<open>What an object means to the user of a store.\<close>

record doc =
  d_seq :: u64
  d_doc_seq :: u64
  d_deleted :: bool
  d_rev :: rev
  d_history :: "byte list"
  d_data :: "byte list"

definition doc_of_header :: "la_storage_object_header \<Rightarrow> byte list \<Rightarrow> doc" where
  "doc_of_header h dat =
     \<lparr>d_seq = seq h, d_doc_seq = doc_seq h, d_deleted = deleted h, d_rev = hrev h,
      d_history = take (16 * unat (rev_count h)) (revs_data h), d_data = dat\<rparr>"

definition doc_of_object :: "la_storage_object \<Rightarrow> doc" where
  "doc_of_object obj = doc_of_header (header obj) (object_data obj)"

section \<open>Lemmas\<close>

lemma unat_rev_count_less: "unat (n :: 15 word) < 32768"
  using unsigned_less [where 'a = nat, of n] by simp

lemma flag_bits_less: "flag_bits h < 65536"
  using unat_rev_count_less [of "rev_count h"] by (simp add: flag_bits_def)

lemma flag_bits_back [simp]:
  "odd (flag_bits h) = deleted h" "word_of_nat (flag_bits h div 2) = rev_count h"
  by (simp_all add: flag_bits_def)

lemma encode_header_length: "header_wf h \<Longrightarrow> length (encode_header h) = 34 + length (revs_data h)"
  by (simp add: encode_header_def header_wf_def)

lemma decode_encode_header:
  assumes "header_wf h"
  shows "decode_header (encode_header h) = Some h"
proof -
  have fl: "of_le (le_bytes 2 (flag_bits h)) = flag_bits h"
    using flag_bits_less [of h] by (simp add: of_le_le_bytes)
  have len: "length (hrev h) = 16" using assms by (simp add: header_wf_def)
  have parts: "take 8 (encode_header h) = le_bytes 8 (unat (seq h))"
    "take 8 (drop 8 (encode_header h)) = le_bytes 8 (unat (doc_seq h))"
    "take 2 (drop 16 (encode_header h)) = le_bytes 2 (flag_bits h)"
    "take 16 (drop 18 (encode_header h)) = hrev h"
    "drop 34 (encode_header h) = revs_data h"
    using len by (simp_all add: encode_header_def)
  show ?thesis using assms
    by (simp add: decode_header_def parts fl encode_header_length Let_def)
qed

lemma encode_decode_header:
  assumes "decode_header bs = Some h"
  shows "encode_header h = bs" "header_wf h"
proof -
  have len: "34 \<le> length bs" using assms by (simp add: decode_header_def split: if_splits)
  let ?fl = "of_le (take 2 (drop 16 bs))"
  have h: "h = \<lparr>seq = word_of_nat (of_le (take 8 bs)),
      doc_seq = word_of_nat (of_le (take 8 (drop 8 bs))), deleted = odd ?fl,
      rev_count = word_of_nat (?fl div 2), hrev = take 16 (drop 18 bs), revs_data = drop 34 bs\<rparr>"
    using assms len by (simp add: decode_header_def Let_def)
  have s: "of_le (take 8 xs) < 2 ^ 64" for xs
  proof -
    have "of_le (take 8 xs) < 256 ^ length (take 8 xs)" by (rule of_le_less)
    also have "(256 :: nat) ^ length (take 8 xs) \<le> 256 ^ 8" by (rule power_increasing) auto
    finally show ?thesis by simp
  qed
  have "?fl < 256 ^ length (take 2 (drop 16 bs))" by (rule of_le_less)
  then have fl: "?fl < 65536" using len by simp
  then have "unat (word_of_nat (?fl div 2) :: 15 word) = ?fl div 2"
    by (subst unat_of_nat) (auto simp: take_bit_nat_eq_self)
  then have flb: "flag_bits h = ?fl" by (simp add: h flag_bits_def odd_two_times_div_two_succ)
  have le: "le_bytes 8 (of_le (take 8 bs)) = take 8 bs"
    "le_bytes 8 (of_le (take 8 (drop 8 bs))) = take 8 (drop 8 bs)"
    "le_bytes 2 ?fl = take 2 (drop 16 bs)"
    using le_bytes_of_le [of "take 8 bs"] le_bytes_of_le [of "take 8 (drop 8 bs)"]
      le_bytes_of_le [of "take 2 (drop 16 bs)"] len by simp_all
  have u: "unat (word_of_nat (of_le (take 8 xs)) :: u64) = of_le (take 8 xs)" for xs
    using s [of xs] by (simp add: unat_of_nat take_bit_nat_eq_self)
  have "encode_header h = take 8 bs @ take 8 (drop 8 bs) @ take 2 (drop 16 bs) @
      take 16 (drop 18 bs) @ drop 34 bs"
    unfolding encode_header_def flb by (simp add: h u le)
  also have "\<dots> = take (8 + (8 + (2 + 16))) bs @ drop 34 bs"
    by (simp only: take_add drop_drop append_assoc) simp
  finally show "encode_header h = bs" by simp
  show "header_wf h" using len by (simp add: h header_wf_def)
qed

text \<open>The loop of the comparison, against blocks that are as long as their counts say.\<close>

lemma revs_memeq_inside:
  assumes "0 \<le> n" "16 * nat n \<le> length revs1" "16 * i + 16 * nat n \<le> length revs2"
    and "length revs1 < 2 ^ 63"
  shows "revs_memeq revs1 revs2 i n = Some (take (16 * nat n) revs1 = take (16 * nat n) (drop (16 * i) revs2))"
proof -
  obtain k where k: "n = int k" using assms(1) by (rule nonneg_int_cases)
  have "16 * k < 2 ^ 64" using assms(2,4) k by simp
  moreover have "(16 * n) mod 2 ^ 64 = int ((16 * k) mod 2 ^ 64)" using k by (simp add: zmod_int)
  ultimately have "nat ((16 * n) mod 2 ^ 64) = 16 * nat n" using k by simp
  then show ?thesis using assms by (simp add: revs_memeq_def mem_simps Let_def)
qed

lemma overlap_loop_spec:
  assumes "0 \<le> count1" "16 * nat count1 \<le> length revs1" "16 * nat count2 \<le> length revs2"
    and "length revs1 < 2 ^ 63"
  shows "overlap_loop revs1 count1 revs2 count2 i =
         Some (\<exists>j\<ge>i. int j < count2 - 1 \<and>
                (let n = 16 * min (nat count1) (nat count2 - j)
                 in take n revs1 = take n (drop (16 * j) revs2)))"
proof (induction "nat (count2 - int i)" arbitrary: i rule: less_induct)
  case less
  show ?case
  proof (cases "int i < count2 - 1")
    case False
    then show ?thesis by (subst overlap_loop.simps) auto
  next
    case True
    define n where "n = la_min count1 (count2 - int i)"
    have n: "0 \<le> n" "nat n = min (nat count1) (nat count2 - i)"
      using True assms(1) by (auto simp: n_def la_min_def nat_diff_distrib)
    have "nat n \<le> nat count1" "i + nat n \<le> nat count2" using n True by linarith+
    then have "16 * nat n \<le> length revs1" "16 * i + 16 * nat n \<le> length revs2"
      using assms(2,3) by linarith+
    then have m: "revs_memeq revs1 revs2 i n =
        Some (take (16 * nat n) revs1 = take (16 * nat n) (drop (16 * i) revs2))"
      using n assms(4) by (intro revs_memeq_inside) auto
    have ih: "overlap_loop revs1 count1 revs2 count2 (i + 1) =
         Some (\<exists>j\<ge>i + 1. int j < count2 - 1 \<and>
                (let n = 16 * min (nat count1) (nat count2 - j)
                 in take n revs1 = take n (drop (16 * j) revs2)))"
      using True by (intro less) auto
    show ?thesis
    proof (cases "take (16 * nat n) revs1 = take (16 * nat n) (drop (16 * i) revs2)")
      case eq: True
      then have "overlap_loop revs1 count1 revs2 count2 i = Some True"
        using True m by (subst overlap_loop.simps) (simp add: n_def)
      moreover have "\<exists>j\<ge>i. int j < count2 - 1 \<and>
                (let n = 16 * min (nat count1) (nat count2 - j)
                 in take n revs1 = take n (drop (16 * j) revs2))"
        using eq True n by (intro exI [of _ i]) (simp add: Let_def)
      ultimately show ?thesis by simp
    next
      case neq: False
      then have "overlap_loop revs1 count1 revs2 count2 i = overlap_loop revs1 count1 revs2 count2 (i + 1)"
        using True m by (subst overlap_loop.simps) (simp add: n_def)
      moreover have "(\<exists>j\<ge>i. P j) = (\<exists>j\<ge>i + 1. P j)" if "\<not> P i" for P :: "nat \<Rightarrow> bool"
        using that by (metis Suc_eq_plus1 Suc_leD le_neq_implies_less less_eq_Suc_le)
      ultimately show ?thesis using ih neq n by (simp add: Let_def)
    qed
  qed
qed

text \<open>Creating an object without history.\<close>

lemma create_object_plain:
  assumes "length rv = 16" "length dat < 2 ^ 32" "length k < 2 ^ 32"
    and "grant A sizeof_object" "grant A (length k + 1)" "grant A (34 + length dat)"
  shows "\<exists>t. la_storage_create_object A k rv dat (length dat) None 0 = Some (Some
      \<lparr>key = k, header = \<lparr>seq = 0, doc_seq = 0, deleted = False, rev_count = 0, hrev = rv, revs_data = dat @ t\<rparr>,
       data_length = length dat\<rparr>)"
proof -
  have a: "add_sz (length k) 1 = length k + 1" using assms(3) by (intro add_sz_small) simp
  have t: "(34 + length dat + 0 * 16) mod size_max = 34 + length dat" using assms(2) by simp
  obtain blk where blk: "malloc A (34 + length dat) = Some blk" using assms(6) by (simp add: malloc_def)
  let ?t = "drop (34 + length dat) blk"
  have l: "34 + length dat \<le> length blk" using malloc_length [OF blk] by simp
  have w0: "mem_write blk 0 (replicate (34 + length dat) 0) = Some (replicate (34 + length dat) 0 @ ?t)"
    using l by (simp add: mem_write_def)
  have r: "mem_read rv 0 16 = Some rv" "mem_read dat 0 (length dat) = Some dat"
    using assms(1) by (simp_all add: mem_read_def)
  obtain z where z: "mem_read (replicate (34 + length dat) 0 @ ?t) 0 34 = Some z" by (simp add: mem_read_def)
  have w1: "mem_write (drop 34 (replicate (34 + length dat) 0 @ ?t)) 0 dat = Some (dat @ ?t)"
    by (simp add: mem_write_def)
  show ?thesis
    unfolding la_storage_create_object_def Let_def a sizeof_header_eq REVISION_LEN_eq t
    using assms(4,5) blk w0 z r w1 by simp
qed

lemma create_object_history:
  assumes "length rv = 16" "length data = len" "len < 2 ^ 32" "length revs = 16 * n" "n < 2 ^ 15" "length k < 2 ^ 32"
    and "grant A sizeof_object \<and> grant A (length k + 1) \<and> grant A (sizeof_header + len + 16 * n)"
  shows "\<exists>tail. la_storage_create_object A k rv data len (Some revs) n = Some (Some
      \<lparr>key = k, header = \<lparr>seq = 0, doc_seq = 0, deleted = False, rev_count = word_of_nat n, hrev = rv,
       revs_data = revs @ data @ tail\<rparr>, data_length = len\<rparr>)"
proof -
  have t: "(34 + len + n * 16) mod size_max = 34 + len + 16 * n" "n * 16 mod size_max = 16 * n"
    using assms(3,5) by simp_all
  have a: "add_sz (length k) 1 = length k + 1" using assms(6) by (intro add_sz_small) simp
  have nn: "unat (word_of_nat n :: 15 word) = n" using assms(5) by (simp add: unat_of_nat take_bit_nat_eq_self)
  let ?t = "sizeof_header + len + 16 * n"
  obtain blk where blk: "malloc A ?t = Some blk" using assms(7) by (simp add: malloc_def)
  have l: "?t \<le> length blk" using malloc_length [OF blk] by simp
  define tail where "tail = drop ?t blk"
  have w0: "mem_write blk 0 (replicate ?t 0) = Some (replicate ?t 0 @ tail)"
    using l by (simp add: mem_write_def tail_def)
  have d0: "drop sizeof_header (replicate ?t 0 @ tail) = replicate (len + 16 * n) 0 @ tail" by simp
  have w1: "mem_write (replicate (len + 16 * n) 0 @ tail) 0 revs = Some (revs @ replicate len 0 @ tail)"
    using assms(4) by (simp add: mem_write_def)
  have w2: "mem_write (revs @ replicate len 0 @ tail) (16 * n) data = Some (revs @ data @ tail)"
    using assms(2,4) by (simp add: mem_write_def)
  have r: "mem_read rv 0 16 = Some rv" "mem_read revs 0 (16 * n) = Some revs" "mem_read data 0 len = Some data"
    using assms(1,2,4) by (simp_all add: mem_read_def)
  obtain z where z: "mem_read (replicate ?t 0 @ tail) 0 34 = Some z" by (simp add: mem_read_def)
  show ?thesis
    unfolding la_storage_create_object_def Let_def a sizeof_header_eq REVISION_LEN_eq t
    using assms(7) blk w0 z w1 w2 d0 r nn by simp
qed

section \<open>Properties\<close>

text \<open>
  The layout is one: decoding the bytes of a header gives the header back,
  and every block of at least \<open>sizeof(la_storage_object_header)\<close> bytes is the encoding of the
  header read from it, with the flag bit and the 15-bit count separated again.
\<close>

theorem header_bytes_roundtrip:
  assumes "header_wf h"
  shows "decode_header (encode_header h) = Some h \<and> length (encode_header h) = sizeof_header + length (revs_data h) \<and>
         (\<forall>bs h'. decode_header bs = Some h' \<longrightarrow> encode_header h' = bs \<and> header_wf h')"
proof (intro conjI allI impI)
  show "decode_header (encode_header h) = Some h" by (rule decode_encode_header [OF assms])
  show "length (encode_header h) = sizeof_header + length (revs_data h)"
    using encode_header_length [OF assms] by simp
  show "encode_header h' = bs" if "decode_header bs = Some h'" for bs h'
    using that by (rule encode_decode_header)
  show "header_wf h'" if "decode_header bs = Some h'" for bs h'
    using that by (rule encode_decode_header)
qed

definition header_example :: la_storage_object_header where
  "header_example = \<lparr>seq = 258, doc_seq = 3, deleted = True, rev_count = 0, hrev = replicate 16 7,
                     revs_data = [1, 2]\<rparr>"

theorem header_bytes_roundtrip_witness:
  "decode_header (encode_header header_example) = Some header_example"
proof -
  have "header_wf header_example" by (simp add: header_example_def header_wf_def)
  from header_bytes_roundtrip [OF this] show ?thesis by blast
qed

text \<open>
  \<open>la_storage_create_object\<close>, called with a history of less than \<open>2 ^ 15\<close> revisions, never leaves
  its block; it returns NULL exactly when an allocation is refused, and otherwise an object whose
  accessors give back the revision, the history, the data and the size of the block.
\<close>

theorem create_object_correct:
  assumes "length rv = 16" "length data = len" "len < 2 ^ 32" "length revs = 16 * n" "n < 2 ^ 15"
    and "0 \<notin> set k" "length k < 2 ^ 32"
  shows "if grant A sizeof_object \<and> grant A (length k + 1) \<and> grant A (sizeof_header + len + 16 * n)
         then \<exists>obj. la_storage_create_object A k rv data len (Some revs) n = Some (Some obj) \<and>
                object_wf obj \<and> key obj = k \<and> la_storage_object_get_data obj = Some data \<and>
                fst (la_storage_object_get_all_revs obj) = n + 1 \<and>
                take (16 * (n + 1)) (snd (la_storage_object_get_all_revs obj)) = rv @ revs \<and>
                la_storage_object_total_size obj = sizeof_header + len + 16 * n
         else la_storage_create_object A k rv data len (Some revs) n = Some None"
proof -
  have t: "(34 + len + n * 16) mod size_max = 34 + len + 16 * n" "n * 16 mod size_max = 16 * n"
    using assms(3,5) by simp_all
  have a: "add_sz (length k) 1 = length k + 1" using assms(7) by (intro add_sz_small) simp
  have nn: "unat (word_of_nat n :: 15 word) = n" using assms(5) by (simp add: unat_of_nat take_bit_nat_eq_self)
  show ?thesis
  proof (cases "grant A sizeof_object \<and> grant A (length k + 1) \<and> grant A (sizeof_header + len + 16 * n)")
    case False
    moreover have "la_storage_create_object A k rv data len (Some revs) n = Some None"
      using False unfolding la_storage_create_object_def Let_def a sizeof_header_eq REVISION_LEN_eq t
      by (auto simp: malloc_def)
    ultimately show ?thesis by auto
  next
    case True
    then obtain tail where c: "la_storage_create_object A k rv data len (Some revs) n = Some (Some
        \<lparr>key = k, header = \<lparr>seq = 0, doc_seq = 0, deleted = False, rev_count = word_of_nat n, hrev = rv,
         revs_data = revs @ data @ tail\<rparr>, data_length = len\<rparr>)"
      using create_object_history [OF assms(1-5,7)] by blast
    define obj where "obj = \<lparr>key = k, header = \<lparr>seq = 0, doc_seq = 0, deleted = False,
      rev_count = word_of_nat n, hrev = rv, revs_data = revs @ data @ tail\<rparr>, data_length = len\<rparr>"
    have "la_storage_create_object A k rv data len (Some revs) n = Some (Some obj)" using c by (simp add: obj_def)
    moreover have "object_wf obj"
      using assms by (simp add: object_wf_def header_wf_def obj_def data_offset_def nn)
    moreover have "la_storage_object_get_data obj = Some data"
      using assms(2,4) by (simp add: la_storage_object_get_data_def data_offset_def obj_def nn mem_read_def)
    moreover have "take (16 * (n + 1)) (rv @ revs @ data @ tail) = rv @ revs"
      using assms(1,4) by simp
    ultimately show ?thesis using True
      by (simp add: obj_def la_storage_object_get_all_revs_def la_storage_object_total_size_def nn)
  qed
qed

theorem create_object_correct_witness:
  "\<exists>obj. la_storage_create_object exact_allocator [0x6b] (replicate 16 1) [5, 6] 2 (Some (replicate 16 9)) 1
     = Some (Some obj) \<and> la_storage_object_get_data obj = Some [5, 6]"
  using create_object_correct [of "replicate 16 1" "[5, 6]" 2 "replicate 16 9" 1 "[0x6b]" exact_allocator]
  by (auto simp: sizeof_object_def)

text \<open>
  \<open>la_storage_revs_overlap\<close> compares \<open>revs1\<close> with every suffix of \<open>revs2\<close> except the last one:
  it answers 1 exactly when, at some position before the last revision of \<open>revs2\<close>, the two
  histories agree as far as both reach. In particular a history that meets \<open>revs2\<close> only in its
  oldest revision, or any comparison with a history of one revision, is answered with 0.
\<close>

theorem revs_overlap_exact:
  assumes "length revs1 = 16 * n1" "length revs2 = 16 * n2" "length revs1 < 2 ^ 63"
  shows "la_storage_revs_overlap revs1 (int n1) revs2 (int n2) =
         Some (\<exists>j. j + 1 < n2 \<and> (let n = 16 * min n1 (n2 - j) in take n revs1 = take n (drop (16 * j) revs2)))"
proof -
  have "(int j < int n2 - 1) = (j + 1 < n2)" for j by linarith
  then show ?thesis
    using overlap_loop_spec [of "int n1" revs1 "int n2" revs2 0] assms
    by (simp add: la_storage_revs_overlap_def)
qed

theorem revs_overlap_exact_witness:
  "la_storage_revs_overlap (replicate 16 1) 1 (replicate 16 1) 1 = Some False \<and>
   la_storage_revs_overlap (replicate 16 1) 1 (replicate 16 1 @ replicate 16 2) 2 = Some True"
proof
  show "la_storage_revs_overlap (replicate 16 1) 1 (replicate 16 1) 1 = Some False"
    using revs_overlap_exact [of "replicate 16 1" 1 "replicate 16 1" 1] by simp
  show "la_storage_revs_overlap (replicate 16 1) 1 (replicate 16 1 @ replicate 16 2) 2 = Some True"
    using revs_overlap_exact [of "replicate 16 1" 1 "replicate 16 1 @ replicate 16 2" 2]
    by (auto simp: Let_def intro!: exI [of _ 0])
qed

end
