(* ===== verification/LA_Driver.thy ===== *)
theory LA_Driver
  imports LA_Object LA_Named
begin

text \<open>
  The driver interface and the registry of \<open>Storage/ObjectStore.c\<close>: a driver is a record of
  function pointers over an environment, a store and an iterator type of its own; every call
  reads and changes the world \<open>'w\<close> the driver keeps its data in. A function pointer a driver
  leaves NULL is \<open>None\<close>, and so is the outcome of a call that runs into undefined behaviour.
\<close>

type_synonym ('w, 'a) act = "'w \<Rightarrow> ('a \<times> 'w) option"

section \<open>The driver record\<close>

text \<open>
  A \<open>get\<close> that found its object gives it, when the caller wants it (\<open>obj\<close> is not NULL); \<open>get_rev\<close> gives the revision, \<open>get_all_revs\<close> the
  count (negative on failure), the sequence stored at \<open>start\<close> and the revisions. \<open>put\<close> and
  \<open>replace\<close> also return the object, whose header the driver updates in place.
\<close>

record ('e, 's, 'i, 'w) driver =
  drv_name :: "byte list"
  drv_open_env :: "byte list \<Rightarrow> ('w, 'e option) act"
  drv_close_env :: "'e \<Rightarrow> ('w, int) act"
  drv_open_store ::
    "'e option \<Rightarrow> byte list \<Rightarrow> open_flags \<Rightarrow> ('w, la_storage_open_result \<times> 's option) act"
  drv_close_store :: "'s \<Rightarrow> ('w, int) act"
  drv_delete_store :: "('s \<Rightarrow> ('w, int) act) option"
  drv_get ::
    "'s \<Rightarrow> byte list \<Rightarrow> rev option \<Rightarrow> bool \<Rightarrow>
     ('w, la_storage_object_get_result \<times> la_storage_object option) act"
  drv_get_rev :: "'s \<Rightarrow> byte list \<Rightarrow> ('w, la_storage_object_get_result \<times> rev option) act"
  drv_get_all_revs :: "'s \<Rightarrow> byte list \<Rightarrow> ('w, int \<times> u64 option \<times> byte list option) act"
  drv_set_revs ::
    "('s \<Rightarrow> byte list \<Rightarrow> byte list \<Rightarrow> nat \<Rightarrow> ('w, la_storage_object_put_result) act) option"
  drv_put ::
    "'s \<Rightarrow> rev option \<Rightarrow> la_storage_object \<Rightarrow> ('w, la_storage_object_put_result \<times> la_storage_object) act"
  drv_replace :: "'s \<Rightarrow> la_storage_object \<Rightarrow> ('w, la_storage_object_put_result \<times> la_storage_object) act"
  drv_lastseq :: "'s \<Rightarrow> ('w, u64) act"
  drv_stat :: "('s \<Rightarrow> ('w, int \<times> la_storage_stat) act) option"
  drv_iterator_open :: "'s \<Rightarrow> u64 \<Rightarrow> ('w, 'i option) act"
  drv_iterator_next ::
    "'i \<Rightarrow> ('w, la_storage_object_iterator_result \<times> la_storage_object option \<times> 'i) act"
  drv_iterator_close :: "'i \<Rightarrow> ('w, unit) act"

text \<open>
  The hash table of installed drivers. An entry keeps the pointers to the name and to the driver, and what they point to.
\<close>

record ('e, 's, 'i, 'w) driver_entry =
  de_name_ptr :: u64
  de_name :: "byte list"
  de_driver_ptr :: u64
  de_driver :: "('e, 's, 'i, 'w) driver"

type_synonym ('e, 's, 'i, 'w) registry = "('e, 's, 'i, 'w) driver_entry ut_hash"

text \<open>What an installation depends on besides its arguments: the addresses, and the handle as \<open>malloc\<close> gives it.\<close>

record install_env =
  ie_entry :: nat
  ie_table :: nat
  ie_name_ptr :: u64
  ie_driver_ptr :: u64
  ie_handle :: UT_hash_handle

record ('e, 's, 'i, 'w) la_object_store =
  st_env :: "'e option"
  st_store :: "'s option"
  st_driver :: "('e, 's, 'i, 'w) driver"

definition sizeof_driver_entry :: nat where
  "sizeof_driver_entry = 72"

definition sizeof_la_object_store :: nat where
  "sizeof_la_object_store = 24"

section \<open>The registry\<close>

text \<open>The bytes of an entry from its member \<open>name\<close> on, which is the first.\<close>

definition driver_key :: "('e, 's, 'i, 'w) driver_entry ut_elt \<Rightarrow> byte list" where
  "driver_key x = le_bytes 8 (unat (de_name_ptr (payload x))) @ le_bytes 8 (unat (de_driver_ptr (payload x))) @
     handle_bytes 16 (hh x)"

text \<open>\<open>HASH_FIND_STR\<close> over \<open>drivers\<close>, and the driver of the entry.\<close>

definition find_driver ::
  "('e, 's, 'i, 'w) registry \<Rightarrow> byte list \<Rightarrow> ('e, 's, 'i, 'w) driver option option" where
  "find_driver drivers name = do {
     e \<leftarrow> HASH_FIND_STR driver_key drivers name;
     if e = 0 then Some None
     else do { x \<leftarrow> ut_elts drivers e; Some (Some (de_driver (payload x))) } }"

text \<open>Returns 0, or -1 with \<open>EEXIST\<close>; a refused allocation is a write through NULL.\<close>

definition la_storage_install_driver ::
  "allocator \<Rightarrow> install_env \<Rightarrow> byte list \<Rightarrow> ('e, 's, 'i, 'w) driver \<Rightarrow> ('e, 's, 'i, 'w) registry \<Rightarrow>
   (int \<times> ('e, 's, 'i, 'w) registry) option" where
  "la_storage_install_driver A I name drv drivers = do {
     found \<leftarrow> HASH_FIND_STR driver_key drivers name;
     if found \<noteq> 0 then Some (-1, drivers)
     else if \<not> grant A sizeof_driver_entry then None
     else do {
       let e = \<lparr>hh = ie_handle I, payload = \<lparr>de_name_ptr = ie_name_ptr I, de_name = name,
                  de_driver_ptr = ie_driver_ptr I, de_driver = drv\<rparr>\<rparr>;
       drivers1 \<leftarrow> HASH_ADD_STR A driver_key (ie_table I) (drivers\<lparr>ut_elts := (ut_elts drivers)(ie_entry I \<mapsto> e)\<rparr>)
                     (de_name (payload e)) (ie_entry I);
       Some (0, drivers1) } }"

definition la_storage_open_env ::
  "('e, 's, 'i, 'w) registry \<Rightarrow> byte list \<Rightarrow> byte list \<Rightarrow> ('w, 'e option) act" where
  "la_storage_open_env drivers drv name w =
     (case find_driver drivers drv of
        None \<Rightarrow> None
      | Some None \<Rightarrow> Some (None, w)
      | Some (Some d) \<Rightarrow> drv_open_env d name w)"

definition la_storage_close_env ::
  "('e, 's, 'i, 'w) registry \<Rightarrow> byte list \<Rightarrow> 'e \<Rightarrow> ('w, unit) act" where
  "la_storage_close_env drivers drv env w =
     (case find_driver drivers drv of
        None \<Rightarrow> None
      | Some None \<Rightarrow> Some ((), w)
      | Some (Some d) \<Rightarrow> map_option (\<lambda>(_, w'). ((), w')) (drv_close_env d env w))"

text \<open>The driver is looked up under the name of the store.\<close>

definition la_storage_open ::
  "allocator \<Rightarrow> ('e, 's, 'i, 'w) registry \<Rightarrow> byte list \<Rightarrow> 'e option \<Rightarrow> byte list \<Rightarrow> open_flags \<Rightarrow>
   ('w, la_storage_open_result \<times> ('e, 's, 'i, 'w) la_object_store option) act" where
  "la_storage_open A drivers drv env name flags w =
     (case find_driver drivers name of
        None \<Rightarrow> None
      | Some None \<Rightarrow> Some ((LA_STORAGE_OPEN_NO_DRIVER, None), w)
      | Some (Some d) \<Rightarrow> do {
          ((storeopen, objstore), w1) \<leftarrow> drv_open_store d env name flags w;
          if storeopen \<noteq> LA_STORAGE_OPEN_OK then
            (case env of
               Some e \<Rightarrow> do { (_, w2) \<leftarrow> drv_close_env d e w1; Some ((LA_STORAGE_OPEN_ERROR, None), w2) }
             | None \<Rightarrow> Some ((storeopen, None), w1))
          else if \<not> grant A sizeof_la_object_store then do {
            s \<leftarrow> objstore;
            (_, w2) \<leftarrow> drv_close_store d s w1;
            (case env of
               Some e \<Rightarrow> do { (_, w3) \<leftarrow> drv_close_env d e w2; Some ((LA_STORAGE_OPEN_ERROR, None), w3) }
             | None \<Rightarrow> Some ((LA_STORAGE_OPEN_ERROR, None), w2)) }
          else Some ((LA_STORAGE_OPEN_OK,
                      Some \<lparr>st_env = env, st_store = objstore, st_driver = d\<rparr>), w1) })"

definition la_storage_close :: "('e, 's, 'i, 'w) la_object_store \<Rightarrow> ('w, unit) act" where
  "la_storage_close st w = do {
     w1 \<leftarrow> (case st_store st of
              Some s \<Rightarrow> map_option snd (drv_close_store (st_driver st) s w) | None \<Rightarrow> Some w);
     w2 \<leftarrow> (case st_env st of
              Some e \<Rightarrow> map_option snd (drv_close_env (st_driver st) e w1) | None \<Rightarrow> Some w1);
     Some ((), w2) }"

text \<open>A driver without the operation is a call through NULL.\<close>

definition la_storage_delete_store :: "('e, 's, 'i, 'w) la_object_store \<Rightarrow> ('w, unit) act" where
  "la_storage_delete_store st w = do {
     f \<leftarrow> drv_delete_store (st_driver st);
     s \<leftarrow> st_store st;
     (rc, w1) \<leftarrow> f s w;
     if rc = 0 then la_storage_close st w1 else Some ((), w1) }"

section \<open>Dispatch\<close>

definition la_storage_get ::
  "('e, 's, 'i, 'w) la_object_store \<Rightarrow> byte list \<Rightarrow> rev option \<Rightarrow> bool \<Rightarrow>
   ('w, la_storage_object_get_result \<times> la_storage_object option) act" where
  "la_storage_get st k rv want w = do { s \<leftarrow> st_store st; drv_get (st_driver st) s k rv want w }"

definition la_storage_get_rev ::
  "('e, 's, 'i, 'w) la_object_store \<Rightarrow> byte list \<Rightarrow>
   ('w, la_storage_object_get_result \<times> rev option) act" where
  "la_storage_get_rev st k w = do { s \<leftarrow> st_store st; drv_get_rev (st_driver st) s k w }"

definition la_storage_get_all_revs ::
  "('e, 's, 'i, 'w) la_object_store \<Rightarrow> byte list \<Rightarrow>
   ('w, int \<times> u64 option \<times> byte list option) act" where
  "la_storage_get_all_revs st k w = do { s \<leftarrow> st_store st; drv_get_all_revs (st_driver st) s k w }"

definition la_storage_set_revs ::
  "('e, 's, 'i, 'w) la_object_store \<Rightarrow> byte list \<Rightarrow> byte list \<Rightarrow> nat \<Rightarrow>
   ('w, la_storage_object_put_result) act" where
  "la_storage_set_revs st k revs n w = do {
     f \<leftarrow> drv_set_revs (st_driver st); s \<leftarrow> st_store st; f s k revs n w }"

definition la_storage_put ::
  "('e, 's, 'i, 'w) la_object_store \<Rightarrow> rev option \<Rightarrow> la_storage_object \<Rightarrow>
   ('w, la_storage_object_put_result \<times> la_storage_object) act" where
  "la_storage_put st rv obj w = do { s \<leftarrow> st_store st; drv_put (st_driver st) s rv obj w }"

definition la_storage_replace ::
  "('e, 's, 'i, 'w) la_object_store \<Rightarrow> la_storage_object \<Rightarrow>
   ('w, la_storage_object_put_result \<times> la_storage_object) act" where
  "la_storage_replace st obj w = do { s \<leftarrow> st_store st; drv_replace (st_driver st) s obj w }"

definition la_storage_lastseq :: "('e, 's, 'i, 'w) la_object_store \<Rightarrow> ('w, u64) act" where
  "la_storage_lastseq st w = do { s \<leftarrow> st_store st; drv_lastseq (st_driver st) s w }"

definition la_storage_stat_store ::
  "('e, 's, 'i, 'w) la_object_store \<Rightarrow> ('w, int \<times> la_storage_stat) act" where
  "la_storage_stat_store st w = do {
     f \<leftarrow> drv_stat (st_driver st); s \<leftarrow> st_store st; f s w }"

definition la_storage_iterator_open ::
  "('e, 's, 'i, 'w) la_object_store \<Rightarrow> u64 \<Rightarrow> ('w, 'i option) act" where
  "la_storage_iterator_open st since w = do {
     s \<leftarrow> st_store st; drv_iterator_open (st_driver st) s since w }"

definition la_storage_iterator_next ::
  "('e, 's, 'i, 'w) la_object_store \<Rightarrow> 'i \<Rightarrow>
   ('w, la_storage_object_iterator_result \<times> la_storage_object option \<times> 'i) act" where
  "la_storage_iterator_next st it w = drv_iterator_next (st_driver st) it w"

definition la_storage_iterator_close ::
  "('e, 's, 'i, 'w) la_object_store \<Rightarrow> 'i \<Rightarrow> ('w, unit) act" where
  "la_storage_iterator_close st it w = drv_iterator_close (st_driver st) it w"

lemmas la_storage_dispatch =
  la_storage_get_def la_storage_get_rev_def la_storage_get_all_revs_def la_storage_set_revs_def
  la_storage_put_def la_storage_replace_def la_storage_lastseq_def la_storage_stat_store_def
  la_storage_iterator_open_def la_storage_iterator_next_def la_storage_iterator_close_def

section \<open>Opening\<close>

text \<open>
  A driver that reports \<open>CREATED\<close> (it made a new store) is treated as a failed open: with an
  environment the environment is closed and the caller gets \<open>ERROR\<close>; a handle is returned only
  for \<open>OK\<close>, and then it carries the environment, the driver's store and the driver.
\<close>

lemma open_created_is_error:
  assumes "find_driver drivers name = Some (Some d)" "drv_open_store d env name flags w = Some ((r, s), w1)"
    and "grant A sizeof_la_object_store"
  shows "la_storage_open A drivers drv env name flags w =
         (if r = LA_STORAGE_OPEN_OK
          then Some ((LA_STORAGE_OPEN_OK, Some \<lparr>st_env = env, st_store = s, st_driver = d\<rparr>), w1)
          else case env of
                 None \<Rightarrow> Some ((r, None), w1)
               | Some e \<Rightarrow> map_option (\<lambda>(_, w2). ((LA_STORAGE_OPEN_ERROR, None), w2)) (drv_close_env d e w1))"
  using assms by (cases env) (auto simp: la_storage_open_def map_option_case bind_eq_Some_conv
    split: option.splits)

section \<open>The contract of a store\<close>

text \<open>
  A new object as the API builds it: no history of its own, and of moderate size.
\<close>

definition fresh_object :: "la_storage_object \<Rightarrow> bool" where
  "fresh_object obj =
     (object_wf obj \<and> rev_count (header obj) = 0 \<and> key obj \<noteq> [] \<and> length (key obj) < 2 ^ 31 \<and>
      la_storage_object_total_size obj < 2 ^ 31)"

text \<open>
  What the API relies on: \<open>docs\<close> are the documents of the store, \<open>ready\<close> its invariant. A document
  can be created and, once, updated; a put that does not name the current revision is refused.
\<close>

locale object_store =
  fixes D :: "('e, 's, 'i, 'w) driver" and s :: 's
    and docs :: "'w \<Rightarrow> byte list \<Rightarrow> doc option" and ready :: "'w \<Rightarrow> bool"
  assumes get_doc: "ready w \<Longrightarrow> 0 \<notin> set k \<Longrightarrow> length k < 2 ^ 31 \<Longrightarrow> \<exists>w'. ready w' \<and> docs w' = docs w \<and>
      (case docs w k of
         None \<Rightarrow> drv_get D s k None True w = Some ((LA_STORAGE_OBJECT_GET_NOT_FOUND, None), w')
       | Some d \<Rightarrow> \<exists>obj. drv_get D s k None True w = Some ((LA_STORAGE_OBJECT_GET_OK, Some obj), w') \<and>
                     object_wf obj \<and> doc_of_object obj = d)"
    and put_new: "ready w \<Longrightarrow> fresh_object obj \<Longrightarrow> docs w (key obj) = None \<Longrightarrow>
      \<exists>obj' w' n. drv_put D s rv obj w = Some ((LA_STORAGE_OBJECT_PUT_SUCCESS, obj'), w') \<and> ready w' \<and>
        doc_seq (header obj') = 1 \<and>
        docs w' = (docs w)(key obj \<mapsto> (doc_of_object obj)\<lparr>d_seq := n, d_doc_seq := 1, d_history := []\<rparr>)"
    and put_conflict: "ready w \<Longrightarrow> fresh_object obj \<Longrightarrow> docs w (key obj) = Some old \<Longrightarrow> rv \<noteq> Some (d_rev old) \<Longrightarrow>
      \<exists>obj' w'. drv_put D s rv obj w = Some ((LA_STORAGE_OBJECT_PUT_CONFLICT, obj'), w') \<and> ready w' \<and> docs w' = docs w"
    and put_next: "ready w \<Longrightarrow> fresh_object obj \<Longrightarrow> docs w (key obj) = Some old \<Longrightarrow> d_history old = [] \<Longrightarrow>
      \<exists>obj' w' n. drv_put D s (Some (d_rev old)) obj w = Some ((LA_STORAGE_OBJECT_PUT_SUCCESS, obj'), w') \<and> ready w' \<and>
        doc_seq (header obj') = d_doc_seq old + 1 \<and>
        docs w' = (docs w)(key obj \<mapsto> (doc_of_object obj)\<lparr>d_seq := n, d_doc_seq := d_doc_seq old + 1,
                                       d_history := d_rev old\<rparr>)"
begin

text \<open>A put of a new object has one of two outcomes, and after success the document is there.\<close>

lemma put_total:
  assumes "ready w" "fresh_object obj" "\<forall>old. docs w (key obj) = Some old \<longrightarrow> rv = Some (d_rev old) \<longrightarrow> d_history old = []"
  shows "\<exists>r obj' w'. drv_put D s rv obj w = Some ((r, obj'), w') \<and> ready w' \<and>
     (if docs w (key obj) = None \<or> (\<exists>old. docs w (key obj) = Some old \<and> rv = Some (d_rev old))
      then r = LA_STORAGE_OBJECT_PUT_SUCCESS \<and>
           (\<exists>d. docs w' = (docs w)(key obj \<mapsto> d) \<and> d_rev d = hrev (header obj) \<and> d_data d = object_data obj \<and>
                d_deleted d = deleted (header obj) \<and> d_doc_seq d = doc_seq (header obj') \<and>
                d_doc_seq d = (case docs w (key obj) of None \<Rightarrow> 1 | Some old \<Rightarrow> d_doc_seq old + 1) \<and>
                d_history d = (case docs w (key obj) of None \<Rightarrow> [] | Some old \<Rightarrow> d_rev old))
      else r = LA_STORAGE_OBJECT_PUT_CONFLICT \<and> docs w' = docs w)"
proof (cases "docs w (key obj)")
  case None
  from put_new [OF assms(1,2) None, of rv] obtain obj' w' n where p:
    "drv_put D s rv obj w = Some ((LA_STORAGE_OBJECT_PUT_SUCCESS, obj'), w')" "ready w'" "doc_seq (header obj') = 1"
    "docs w' = (docs w)(key obj \<mapsto> (doc_of_object obj)\<lparr>d_seq := n, d_doc_seq := 1, d_history := []\<rparr>)" by blast
  let ?d = "(doc_of_object obj)\<lparr>d_seq := n, d_doc_seq := 1, d_history := []\<rparr>"
  have "docs w' = (docs w)(key obj \<mapsto> ?d) \<and> d_rev ?d = hrev (header obj) \<and> d_data ?d = object_data obj \<and>
      d_deleted ?d = deleted (header obj) \<and> d_doc_seq ?d = doc_seq (header obj') \<and> d_doc_seq ?d = 1 \<and> d_history ?d = []"
    using p by (simp add: doc_of_object_def doc_of_header_def)
  then show ?thesis using p(1,2) None by (auto intro!: exI [of _ ?d])
next
  case (Some old)
  show ?thesis
  proof (cases "rv = Some (d_rev old)")
    case False
    then show ?thesis using put_conflict [OF assms(1,2) Some False] Some by auto
  next
    case True
    have "d_history old = []" using assms(3) Some True by blast
    from put_next [OF assms(1,2) Some this] obtain obj' w' n where p:
      "drv_put D s (Some (d_rev old)) obj w = Some ((LA_STORAGE_OBJECT_PUT_SUCCESS, obj'), w')" "ready w'"
      "doc_seq (header obj') = d_doc_seq old + 1"
      "docs w' = (docs w)(key obj \<mapsto> (doc_of_object obj)\<lparr>d_seq := n, d_doc_seq := d_doc_seq old + 1, d_history := d_rev old\<rparr>)"
      by blast
    let ?d = "(doc_of_object obj)\<lparr>d_seq := n, d_doc_seq := d_doc_seq old + 1, d_history := d_rev old\<rparr>"
    have "docs w' = (docs w)(key obj \<mapsto> ?d) \<and> d_rev ?d = hrev (header obj) \<and> d_data ?d = object_data obj \<and>
        d_deleted ?d = deleted (header obj) \<and> d_doc_seq ?d = doc_seq (header obj') \<and> d_doc_seq ?d = d_doc_seq old + 1 \<and>
        d_history ?d = d_rev old"
      using p by (simp add: doc_of_object_def doc_of_header_def)
    then show ?thesis using p(1,2) Some True by (auto intro!: exI [of _ ?d])
  qed
qed

end

section \<open>Installing and finding drivers\<close>

text \<open>The registry is a table that is filled by its names.\<close>

interpretation registry_table: name_table "driver_key :: ('e, 's, 'i, 'w) driver_entry ut_elt \<Rightarrow> byte list" de_name_ptr de_name 68
  by unfold_locales (simp_all add: driver_key_def)

abbreviation registry_ok :: "('e, 's, 'i, 'w) registry \<Rightarrow> nat list \<Rightarrow> bool" where
  "registry_ok \<equiv> named_ok de_name_ptr de_name 68"

text \<open>A sequence of installations into fresh entries, each with its result.\<close>

type_synonym ('e, 's, 'i, 'w) installation = "install_env \<times> byte list \<times> ('e, 's, 'i, 'w) driver"

fun install_all ::
  "allocator \<Rightarrow> ('e, 's, 'i, 'w) installation list \<Rightarrow> ('e, 's, 'i, 'w) registry \<Rightarrow> (int list \<times> ('e, 's, 'i, 'w) registry) option" where
  "install_all A [] drivers = Some ([], drivers)"
| "install_all A ((I, name, drv) # xs) drivers = do {
     (rc, drivers1) \<leftarrow> la_storage_install_driver A I name drv drivers;
     (rcs, drivers2) \<leftarrow> install_all A xs drivers1;
     Some (rc # rcs, drivers2) }"

definition fresh_entries :: "('e, 's, 'i, 'w) installation list \<Rightarrow> bool" where
  "fresh_entries xs = (distinct (map (ie_entry \<circ> fst) xs) \<and> 0 \<notin> set (map (ie_entry \<circ> fst) xs) \<and> length xs < 2 ^ 32)"

text \<open>The entry that an installation makes, and the entries of the installations that were accepted.\<close>

definition entry_of :: "('e, 's, 'i, 'w) installation \<Rightarrow> ('e, 's, 'i, 'w) driver_entry" where
  "entry_of = (\<lambda>(I, name, drv). \<lparr>de_name_ptr = ie_name_ptr I, de_name = name, de_driver_ptr = ie_driver_ptr I, de_driver = drv\<rparr>)"

definition represents :: "('e, 's, 'i, 'w) registry \<Rightarrow> ('e, 's, 'i, 'w) installation list \<Rightarrow> bool" where
  "represents drivers xs = (registry_ok drivers (map (ie_entry \<circ> fst) xs) \<and>
     (\<forall>x \<in> set xs. map_option payload (ut_elts drivers (ie_entry (fst x))) = Some (entry_of x)))"

definition installed_as :: "('e, 's, 'i, 'w) installation \<Rightarrow> byte list \<Rightarrow> bool" where
  "installed_as = (\<lambda>(I, name, drv) s. spells (ie_name_ptr I) (length name) s)"

lemma find_driver_result:
  assumes "represents drivers xs"
  shows "\<exists>r. find_driver drivers s = Some r \<and> (\<forall>d. r = Some d \<longrightarrow> (\<exists>x \<in> set xs. installed_as x s \<and> d = snd (snd x))) \<and>
    (r = None \<longrightarrow> length s \<le> 8 \<longrightarrow> (\<forall>x \<in> set xs. \<not> installed_as x s)) \<and>
    HASH_FIND_STR driver_key drivers s \<noteq> None \<and> (HASH_FIND_STR driver_key drivers s = Some 0 \<longleftrightarrow> r = None)"
proof -
  have ok: "registry_ok drivers (map (ie_entry \<circ> fst) xs)"
    and pl: "\<forall>x \<in> set xs. map_option payload (ut_elts drivers (ie_entry (fst x))) = Some (entry_of x)"
    using assms by (simp_all add: represents_def)
  obtain r where r: "HASH_FIND_STR driver_key drivers s = Some r"
    "r \<noteq> 0 \<longrightarrow> r \<in> set (map (ie_entry \<circ> fst) xs) \<and> (\<exists>e. ut_elts drivers r = Some e \<and> spells (de_name_ptr (payload e)) (length (de_name (payload e))) s)"
    "r = 0 \<longrightarrow> length s \<le> 8 \<longrightarrow> (\<forall>p \<in> set (map (ie_entry \<circ> fst) xs). \<forall>e. ut_elts drivers p = Some e \<longrightarrow>
       \<not> spells (de_name_ptr (payload e)) (length (de_name (payload e))) s)"
    using registry_table.find_named [OF ok, of s] by blast
  show ?thesis
  proof (cases "r = 0")
    case True
    have "\<not> installed_as x s" if x: "x \<in> set xs" "length s \<le> 8" for x
    proof -
      obtain e where e: "ut_elts drivers (ie_entry (fst x)) = Some e" "payload e = entry_of x" using pl x(1) by auto
      have "ie_entry (fst x) \<in> set (map (ie_entry \<circ> fst) xs)" using x(1) by simp
      then have "\<not> spells (de_name_ptr (payload e)) (length (de_name (payload e))) s" using r(3) True x(2) e(1) by blast
      then show ?thesis unfolding e(2) by (cases x) (simp add: installed_as_def entry_of_def)
    qed
    then show ?thesis using r(1) True by (simp add: find_driver_def)
  next
    case False
    then obtain x e where x: "x \<in> set xs" "r = ie_entry (fst x)" "ut_elts drivers r = Some e"
      "spells (de_name_ptr (payload e)) (length (de_name (payload e))) s" using r(2) by auto
    then have e: "payload e = entry_of x" using pl by force
    have "installed_as x s" using x(4) unfolding e by (cases x) (simp add: installed_as_def entry_of_def)
    moreover have "find_driver drivers s = Some (Some (snd (snd x)))"
      using r(1) False x(3) e by (cases x) (simp add: find_driver_def entry_of_def)
    ultimately show ?thesis using x(1) r(1) False by auto
  qed
qed

lemma install_result:
  assumes "represents drivers xs" "la_storage_install_driver A I name drv drivers = Some (rc, drivers')"
    and "ie_entry I \<notin> set (map (ie_entry \<circ> fst) xs)" "ie_entry I \<noteq> 0" "length xs + 1 < 2 ^ 32"
  shows "rc = -1 \<and> drivers' = drivers \<and> (\<exists>x \<in> set xs. installed_as x name) \<or>
    rc = 0 \<and> represents drivers' (xs @ [(I, name, drv)]) \<and> (length name \<le> 8 \<longrightarrow> (\<forall>x \<in> set xs. \<not> installed_as x name))"
proof -
  obtain r where r: "find_driver drivers name = Some r" "\<forall>d. r = Some d \<longrightarrow> (\<exists>x \<in> set xs. installed_as x name \<and> d = snd (snd x))"
    "r = None \<longrightarrow> length name \<le> 8 \<longrightarrow> (\<forall>x \<in> set xs. \<not> installed_as x name)"
    "HASH_FIND_STR driver_key drivers name \<noteq> None" "HASH_FIND_STR driver_key drivers name = Some 0 \<longleftrightarrow> r = None"
    using find_driver_result [OF assms(1), of name] by blast
  show ?thesis
  proof (cases r)
    case (Some d)
    then have "rc = -1" "drivers' = drivers" using assms(2) r(4,5) by (auto simp: la_storage_install_driver_def split: if_splits)
    then show ?thesis using r(2) Some by blast
  next
    case None
    define e where "e = \<lparr>hh = ie_handle I, payload = \<lparr>de_name_ptr = ie_name_ptr I, de_name = name,
                  de_driver_ptr = ie_driver_ptr I, de_driver = drv\<rparr>\<rparr>"
    have pe: "payload e = entry_of (I, name, drv)" "de_name (payload e) = name" by (simp_all add: e_def entry_of_def)
    define U where "U = drivers\<lparr>ut_elts := (ut_elts drivers)(ie_entry I \<mapsto> e)\<rparr>"
    have ok: "registry_ok U (map (ie_entry \<circ> fst) xs)"
      unfolding U_def
    proof (rule named_ok_outside)
      show "registry_ok drivers (map (ie_entry \<circ> fst) xs)" using assms(1) by (simp add: represents_def)
      show "\<forall>p \<in> set (map (ie_entry \<circ> fst) xs). ((ut_elts drivers)(ie_entry I \<mapsto> e)) p = ut_elts drivers p"
        using assms(3) by (metis fun_upd_other)
    qed
    have "HASH_FIND_STR driver_key drivers name = Some 0" using r(5) None by blast
    then have add: "rc = 0" "HASH_ADD_STR A driver_key (ie_table I) U (de_name (payload e)) (ie_entry I) = Some drivers'"
      using assms(2) unfolding la_storage_install_driver_def U_def e_def
      by (auto simp: Let_def bind_eq_Some_conv split: if_splits)
    have u: "ut_elts U (ie_entry I) = Some e" "length (map (ie_entry \<circ> fst) xs) + 1 < 2 ^ 32" using assms(5) by (simp_all add: U_def)
    from registry_table.add_named [OF ok assms(3,4) u add(2)]
    have a: "registry_ok drivers' (map (ie_entry \<circ> fst) (xs @ [(I, name, drv)]))"
      "\<And>p. map_option payload (ut_elts drivers' p) = map_option payload (ut_elts U p)" by simp_all
    have "map_option payload (ut_elts drivers' (ie_entry (fst x))) = Some (entry_of x)" if "x \<in> set (xs @ [(I, name, drv)])" for x
    proof (cases "x \<in> set xs")
      case True
      then have "ie_entry (fst x) \<noteq> ie_entry I" using assms(3) by force
      then show ?thesis using True assms(1) by (simp add: a(2) U_def represents_def)
    next
      case False
      then show ?thesis using that pe(1) by (simp add: a(2) U_def)
    qed
    then have "represents drivers' (xs @ [(I, name, drv)])" using a(1) by (simp only: represents_def) blast
    then show ?thesis using r(3) None add(1) by blast
  qed
qed

text \<open>The installations that were accepted.\<close>

definition accepted_installs :: "int list \<Rightarrow> 'x list \<Rightarrow> 'x list" where
  "accepted_installs rcs xs = map snd (filter (\<lambda>(rc, _). rc = 0) (zip rcs xs))"

lemma accepted_Cons [simp]:
  "accepted_installs [] xs = []"
  "accepted_installs (rc # rcs) (x # xs) = (if rc = 0 then x # accepted_installs rcs xs else accepted_installs rcs xs)"
  by (simp_all add: accepted_installs_def)

text \<open>
  What an installation returns when \<open>xs\<close> have been accepted before: it is refused only under a name one of
  them has, and, when the name is not longer than a pointer, accepted only under a name none of them has.
\<close>

definition fair_answer :: "('e, 's, 'i, 'w) installation list \<Rightarrow> int \<Rightarrow> byte list \<Rightarrow> bool" where
  "fair_answer xs rc name = ((rc = -1 \<and> (\<exists>x \<in> set xs. installed_as x name)) \<or>
     (rc = 0 \<and> (length name \<le> 8 \<longrightarrow> (\<forall>x \<in> set xs. \<not> installed_as x name))))"

lemma install_all_result:
  assumes "represents drivers xs" "fresh_entries (xs @ ys)" "install_all A ys drivers = Some (rcs, drivers')"
  shows "length rcs = length ys \<and> represents drivers' (xs @ accepted_installs rcs ys) \<and>
    (\<forall>i < length ys. fair_answer (xs @ accepted_installs (take i rcs) (take i ys)) (rcs ! i) (fst (snd (ys ! i))))"
  using assms
proof (induction ys arbitrary: xs drivers rcs)
  case (Cons y ys)
  obtain I name drv where y: "y = (I, name, drv)" by (cases y)
  obtain rc drivers1 rcs1 where st: "la_storage_install_driver A I name drv drivers = Some (rc, drivers1)"
    "install_all A ys drivers1 = Some (rcs1, drivers')" "rcs = rc # rcs1"
    using Cons.prems(3) unfolding y by (auto simp: bind_eq_Some_conv)
  have f: "ie_entry I \<notin> set (map (ie_entry \<circ> fst) xs)" "ie_entry I \<noteq> 0" "length xs + 1 < 2 ^ 32"
    "fresh_entries (xs @ ys)" "fresh_entries ((xs @ [y]) @ ys)"
    using Cons.prems(2) by (auto simp: fresh_entries_def y)
  from install_result [OF Cons.prems(1) st(1) f(1-3)] have fair: "fair_answer xs rc (fst (snd y))"
    by (auto simp: fair_answer_def y)
  from install_result [OF Cons.prems(1) st(1) f(1-3)] consider
      (refused) "rc = -1" "drivers1 = drivers" | (made) "rc = 0" "represents drivers1 (xs @ [y])" unfolding y by blast
  then show ?case
  proof cases
    case refused
    from Cons.IH [OF Cons.prems(1) f(4) st(2) [unfolded refused(2)]] show ?thesis
      using st(3) refused(1) fair by (auto simp: All_less_Suc2)
  next
    case made
    from Cons.IH [OF made(2) f(5) st(2)] show ?thesis
      using st(3) made(1) fair by (auto simp: All_less_Suc2)
  qed
qed simp

lemma represents_empty: "represents ut_empty []"
  using named_ok_empty [of de_name_ptr de_name 68 ut_empty] by (simp add: represents_def ut_empty_def)

text \<open>A registry for examples: one driver, under a name that its pointer spells.\<close>

definition demo_install :: "byte list \<Rightarrow> install_env" where
  "demo_install name = \<lparr>ie_entry = 0x1000, ie_table = 0x2000, ie_name_ptr = word_of_nat (of_le name), ie_driver_ptr = 0x3000,
     ie_handle = \<lparr>hh_tbl = 0, hh_prev_elt = 0, hh_next_elt = 0, hh_prev = 0, hh_next = 0, hh_key = 0, hh_keylen = 0, hh_hashv = 0\<rparr>\<rparr>"

definition demo_registry :: "byte list \<Rightarrow> ('e, 's, 'i, 'w) driver \<Rightarrow> ('e, 's, 'i, 'w) registry" where
  "demo_registry name d = (case install_all exact_allocator [(demo_install name, name, d)] ut_empty of
     Some (_, drivers) \<Rightarrow> drivers | None \<Rightarrow> ut_empty)"

lemma installs_first:
  fixes d :: "('e, 's, 'i, 'w) driver"
  assumes "length name \<le> 68" "ie_entry I \<noteq> 0"
  shows "\<exists>drivers. la_storage_install_driver exact_allocator I name d (ut_empty :: ('e, 's, 'i, 'w) registry) = Some (0, drivers)"
proof -
  define e where "e = \<lparr>hh = ie_handle I, payload = \<lparr>de_name_ptr = ie_name_ptr I, de_name = name,
                  de_driver_ptr = ie_driver_ptr I, de_driver = d\<rparr>\<rparr>"
  define U where "U = (ut_empty :: ('e, 's, 'i, 'w) registry)\<lparr>ut_elts := (ut_elts ut_empty)(ie_entry I \<mapsto> e)\<rparr>"
  have ok: "registry_ok U []" using named_ok_empty [of de_name_ptr de_name 68 U] by (simp add: U_def ut_empty_def)
  have u: "ut_elts U (ie_entry I) = Some e" "length (de_name (payload e)) \<le> 68" using assms(1) by (simp_all add: U_def e_def)
  obtain U' where "HASH_ADD_STR exact_allocator driver_key (ie_table I) U (de_name (payload e)) (ie_entry I) = Some U'"
    using registry_table.add_returns [OF ok _ assms(2) u(1) _ u(2), of exact_allocator] by auto
  then show ?thesis
    by (simp add: la_storage_install_driver_def HASH_FIND_STR_def HASH_FIND_def ut_empty_def sizeof_driver_entry_def U_def e_def)
qed

lemma demo_registry_represents:
  fixes d :: "('e, 's, 'i, 'w) driver"
  assumes "length name \<le> 68"
  shows "represents (demo_registry name d) [(demo_install name, name, d)]"
proof -
  obtain drivers where d: "la_storage_install_driver exact_allocator (demo_install name) name d (ut_empty :: ('e, 's, 'i, 'w) registry) = Some (0, drivers)"
    using installs_first [OF assms, of "demo_install name"] by (auto simp: demo_install_def)
  from install_result [OF represents_empty d] have "represents drivers [(demo_install name, name, d)]"
    by (simp add: demo_install_def)
  then show ?thesis using d by (simp add: demo_registry_def)
qed

lemma demo_spells: "length name \<le> 8 \<Longrightarrow> installed_as (demo_install name, name, d) name"
  using spells_bytes [of name] by (simp add: installed_as_def demo_install_def)

lemma demo_registry_finds:
  assumes "length name \<le> 8"
  shows "find_driver (demo_registry name d) name = Some (Some d)"
  using find_driver_result [OF demo_registry_represents [of name d], of name] demo_spells [OF assms, of d] assms by auto

lemma demo_registry_misses:
  assumes "length name \<le> 68" "length s \<noteq> length name"
  shows "find_driver (demo_registry name d) s = Some None"
  using find_driver_result [OF demo_registry_represents [OF assms(1), of d], of s] assms(2)
  by (auto simp: installed_as_def spells_def)

section \<open>Properties\<close>

text \<open>
  C25. Which driver a name gets. A driver answers for the names of its own name's length that the bytes of the pointer to
  its name spell (the installation keys the table with the pointer): what is found is such a driver, and under a name
  of at most eight bytes one that was accepted is not missed. Each installation of the sequence returns 0 or -1, -1 only
  for a name that one accepted before it has in this sense, and 0, for a name of at most eight bytes, only when none has.
\<close>

theorem driver_lookup:
  assumes "fresh_entries xs" "install_all A xs ut_empty = Some (rcs, drivers)"
  shows "\<exists>r. find_driver drivers s = Some r \<and> (\<forall>d. r = Some d \<longrightarrow> (\<exists>x \<in> set (accepted_installs rcs xs). installed_as x s \<and> d = snd (snd x))) \<and>
    (r = None \<longrightarrow> length s \<le> 8 \<longrightarrow> (\<forall>x \<in> set (accepted_installs rcs xs). \<not> installed_as x s)) \<and>
    length rcs = length xs \<and>
    (\<forall>i < length xs. fair_answer (accepted_installs (take i rcs) (take i xs)) (rcs ! i) (fst (snd (xs ! i))))"
proof -
  have r: "represents drivers (accepted_installs rcs xs)" "length rcs = length xs"
    "\<forall>i < length xs. fair_answer (accepted_installs (take i rcs) (take i xs)) (rcs ! i) (fst (snd (xs ! i)))"
    using install_all_result [OF represents_empty _ assms(2)] assms(1) by simp_all
  then show ?thesis using find_driver_result [OF r(1), of s] by blast
qed

theorem driver_lookup_witness:
  "\<forall>d. \<exists>drivers. install_all exact_allocator [(demo_install [0x42, 0x44, 0x42], [0x42, 0x44, 0x42], d)] ut_empty = Some ([0], drivers) \<and>
     find_driver drivers [0x42, 0x44, 0x42] = Some (Some d)"
proof
  fix d :: "('e, 's, 'i, 'w) driver"
  let ?n = "[0x42, 0x44, 0x42] :: byte list"
  let ?xs = "[(demo_install ?n, ?n, d)]"
  obtain drivers where d: "install_all exact_allocator ?xs ut_empty = Some ([0], drivers)"
    using installs_first [of ?n "demo_install ?n" d] by (auto simp: demo_install_def)
  have f: "fresh_entries ?xs" by (simp add: fresh_entries_def demo_install_def)
  have "installed_as (demo_install ?n, ?n, d) ?n" by (rule demo_spells) simp
  then have "find_driver drivers ?n = Some (Some d)" using driver_lookup [OF f d, of ?n] by (auto simp: accepted_installs_def)
  with d show "\<exists>drivers. install_all exact_allocator ?xs ut_empty = Some ([0], drivers) \<and> find_driver drivers ?n = Some (Some d)" by blast
qed

text \<open>
  C26. The names that never find a driver. The upper bytes of an address below \<open>2 ^ 48\<close> are zeros, so whatever was
  installed, a name of seven bytes or more, none of them a zero, is never found: opening a store under it gives \<open>NO_DRIVER\<close>, no environment is opened for it, and
  installing it again is not refused.
\<close>

theorem long_names_have_no_driver:
  assumes "fresh_entries xs" "install_all A xs ut_empty = Some (rcs, drivers)" "\<forall>(I, _, _) \<in> set xs. unat (ie_name_ptr I) < 2 ^ 48"
    and "7 \<le> length s" "0 \<notin> set s"
  shows "la_storage_open A' drivers drv env s flags w = Some ((LA_STORAGE_OPEN_NO_DRIVER, None), w) \<and>
    la_storage_open_env drivers s home w' = Some (None, w') \<and>
    length rcs = length xs \<and> (\<forall>i < length xs. fst (snd (xs ! i)) = s \<longrightarrow> rcs ! i = 0)"
proof -
  have r: "represents drivers (accepted_installs rcs xs)" "length rcs = length xs"
    "\<forall>i < length xs. fair_answer (accepted_installs (take i rcs) (take i xs)) (rcs ! i) (fst (snd (xs ! i)))"
    using install_all_result [OF represents_empty _ assms(2)] assms(1) by simp_all
  have no: "\<not> installed_as x s" if "x \<in> set xs" for x
    using that assms(3) long_not_spelled [OF _ assms(4,5)] by (auto simp: installed_as_def)
  have acc: "set (accepted_installs (take i rcs) (take i xs)) \<subseteq> set xs" for i
    by (auto simp: accepted_installs_def dest!: set_zip_rightD dest: in_set_takeD)
  have "set (accepted_installs rcs xs) \<subseteq> set xs" by (auto simp: accepted_installs_def dest: set_zip_rightD)
  then have no': "\<not> installed_as x s" if "x \<in> set (accepted_installs rcs xs)" for x using no that by blast
  obtain r' where r': "find_driver drivers s = Some r'" "\<And>d. r' = Some d \<Longrightarrow> \<exists>x \<in> set (accepted_installs rcs xs). installed_as x s \<and> d = snd (snd x)"
    using find_driver_result [OF r(1), of s] by blast
  have "r' = None" using r'(2) no' by (cases r') blast+
  then have "find_driver drivers s = Some None"
    using r'(1) by simp
  moreover have "rcs ! i = 0" if "i < length xs" "fst (snd (xs ! i)) = s" for i
  proof -
    have "\<forall>x \<in> set (accepted_installs (take i rcs) (take i xs)). \<not> installed_as x s" using no acc by blast
    then show ?thesis using r(3) that by (auto simp: fair_answer_def)
  qed
  ultimately show ?thesis using r(2) by (simp add: la_storage_open_def la_storage_open_env_def)
qed

theorem long_names_have_no_driver_witness:
  "\<forall>d. \<exists>drivers. install_all exact_allocator [((demo_install [0x42])\<lparr>ie_name_ptr := 0x400000\<rparr>, replicate 8 0x42, d)] ut_empty =
       Some ([0], drivers) \<and>
     la_storage_open_env drivers (replicate 8 0x42) [] (0 :: nat) = Some (None, 0)"
proof
  fix d :: "('e, 's, 'i, nat) driver"
  let ?I = "(demo_install [0x42])\<lparr>ie_name_ptr := 0x400000\<rparr>" and ?n = "replicate 8 0x42 :: byte list"
  let ?xs = "[(?I, ?n, d)]"
  obtain drivers where d: "install_all exact_allocator ?xs ut_empty = Some ([0], drivers)"
    using installs_first [of ?n ?I d] by (auto simp: demo_install_def)
  have f: "fresh_entries ?xs" by (simp add: fresh_entries_def demo_install_def)
  have "\<forall>(I, _, _) \<in> set ?xs. unat (ie_name_ptr I) < 2 ^ 48" by simp
  from long_names_have_no_driver [OF f d this, of ?n exact_allocator "[]" None undefined 0 "[]" 0]
  have "la_storage_open_env drivers ?n [] 0 = Some (None, 0)" by simp
  with d show "\<exists>drivers. install_all exact_allocator ?xs ut_empty = Some ([0], drivers) \<and>
     la_storage_open_env drivers ?n [] 0 = Some (None, 0)" by blast
qed

text \<open>
  \<open>la_storage_open\<close> ignores its driver argument and looks the driver up under the name of the
  store: two calls that differ in the driver only agree, and with no driver installed under the
  store's name the answer is \<open>NO_DRIVER\<close> although the requested driver is installed.
\<close>

theorem open_ignores_driver_name:
  assumes "find_driver drivers drv = Some (Some d)"
  shows "la_storage_open A drivers drv env name flags w = la_storage_open A drivers drv' env name flags w \<and>
         (find_driver drivers name = Some None \<longrightarrow>
          la_storage_open A drivers drv env name flags w = Some ((LA_STORAGE_OPEN_NO_DRIVER, None), w))"
  by (simp add: la_storage_open_def)

theorem open_ignores_driver_name_witness:
  "\<forall>d env flags w. la_storage_open exact_allocator (demo_registry [0x62] d) [0x62] env [0x73, 0x74] flags w =
     Some ((LA_STORAGE_OPEN_NO_DRIVER, None), w)"
proof (intro allI)
  fix d env flags w
  have "find_driver (demo_registry [0x62] d) [0x62] = Some (Some d)" by (rule demo_registry_finds) simp
  from open_ignores_driver_name [OF this] demo_registry_misses [of "[0x62]" "[0x73, 0x74]" d]
  show "la_storage_open exact_allocator (demo_registry [0x62] d) [0x62] env [0x73, 0x74] flags w =
     Some ((LA_STORAGE_OPEN_NO_DRIVER, None), w)" by simp
qed

end
