(* ===== verification/LA_Codec.thy ===== *)
theory LA_Codec
  imports LA_Buffer
begin

text \<open>
  Document values (\<open>Codec/Codec.h\<close>) and the JSON codec (\<open>codec-json/codec-json.c\<close>). A value is the
  tree its handle designates: reference counting decides when a tree is freed, not what it is.
  Integers are the 64-bit signed \<open>la_codec_int_t\<close>, reals are the 64 bits of a \<open>double\<close>, a bignum is
  its sign and magnitude, and the members of an object stand in iteration order.

  The codec forwards to the jansson library, which is an argument: the record \<open>jansson\<close> has the
  calls the other components reach through the codec.
\<close>

datatype la_codec_value =
  LA_CODEC_OBJECT "(byte list \<times> la_codec_value) list"
| LA_CODEC_ARRAY "la_codec_value list"
| LA_CODEC_STRING "byte list"
| LA_CODEC_INTEGER int
| LA_CODEC_REAL u64
| LA_CODEC_TRUE
| LA_CODEC_FALSE
| LA_CODEC_NULL
| LA_CODEC_BIGNUM bool nat

datatype la_codec_type =
  TYPE_OBJECT | TYPE_ARRAY | TYPE_STRING | TYPE_INTEGER | TYPE_REAL | TYPE_TRUE | TYPE_FALSE
| TYPE_NULL | TYPE_BIGNUM

section \<open>Types and plain values\<close>

fun la_codec_typeof :: "la_codec_value \<Rightarrow> la_codec_type" where
  "la_codec_typeof (LA_CODEC_ARRAY _) = TYPE_ARRAY"
| "la_codec_typeof LA_CODEC_FALSE = TYPE_FALSE"
| "la_codec_typeof (LA_CODEC_INTEGER _) = TYPE_INTEGER"
| "la_codec_typeof LA_CODEC_NULL = TYPE_NULL"
| "la_codec_typeof (LA_CODEC_OBJECT _) = TYPE_OBJECT"
| "la_codec_typeof (LA_CODEC_REAL _) = TYPE_REAL"
| "la_codec_typeof (LA_CODEC_STRING _) = TYPE_STRING"
| "la_codec_typeof LA_CODEC_TRUE = TYPE_TRUE"
| "la_codec_typeof (LA_CODEC_BIGNUM _ _) = TYPE_BIGNUM"

definition la_codec_is_object :: "la_codec_value \<Rightarrow> bool" where
  "la_codec_is_object v = (la_codec_typeof v = TYPE_OBJECT)"

definition la_codec_is_string :: "la_codec_value \<Rightarrow> bool" where
  "la_codec_is_string v = (la_codec_typeof v = TYPE_STRING)"

definition la_codec_is_array :: "la_codec_value \<Rightarrow> bool" where
  "la_codec_is_array v = (la_codec_typeof v = TYPE_ARRAY)"

definition la_codec_is_integer :: "la_codec_value \<Rightarrow> bool" where
  "la_codec_is_integer v = (la_codec_typeof v = TYPE_INTEGER)"

definition la_codec_is_true :: "la_codec_value \<Rightarrow> bool" where
  "la_codec_is_true v = (la_codec_typeof v = TYPE_TRUE)"

text \<open>The accessors give NULL or 0 for a value of another type.\<close>

fun la_codec_string_value :: "la_codec_value \<Rightarrow> byte list option" where
  "la_codec_string_value (LA_CODEC_STRING s) = Some s"
| "la_codec_string_value _ = None"

fun la_codec_integer_value :: "la_codec_value \<Rightarrow> int" where
  "la_codec_integer_value (LA_CODEC_INTEGER i) = i"
| "la_codec_integer_value _ = 0"

section \<open>The library\<close>

text \<open>
  \<open>json_dump_chunks\<close> are the buffers \<open>json_dump_callback\<close> hands to its callback, and whether the
  dump then succeeds.
\<close>

record jansson =
  json_object_get :: "la_codec_value \<Rightarrow> byte list \<Rightarrow> la_codec_value option"
  json_object_del :: "la_codec_value \<Rightarrow> byte list \<Rightarrow> la_codec_value"
  json_object_size :: "la_codec_value \<Rightarrow> nat"
  json_copy :: "la_codec_value \<Rightarrow> la_codec_value option"
  json_object :: "la_codec_value option"
  json_dump_chunks :: "la_codec_value \<Rightarrow> byte list list \<times> bool"
  json_loadb :: "byte list \<Rightarrow> la_codec_value option"

definition la_codec_object_get :: "jansson \<Rightarrow> la_codec_value \<Rightarrow> byte list \<Rightarrow> la_codec_value option" where
  "la_codec_object_get J v k = json_object_get J v k"

definition la_codec_object_del :: "jansson \<Rightarrow> la_codec_value \<Rightarrow> byte list \<Rightarrow> la_codec_value" where
  "la_codec_object_del J v k = json_object_del J v k"

definition la_codec_object_size :: "jansson \<Rightarrow> la_codec_value \<Rightarrow> nat" where
  "la_codec_object_size J v = json_object_size J v"

definition la_codec_copy :: "jansson \<Rightarrow> la_codec_value \<Rightarrow> la_codec_value option" where
  "la_codec_copy J v = json_copy J v"

definition la_codec_object :: "jansson \<Rightarrow> la_codec_value option" where
  "la_codec_object J = json_object J"

definition la_codec_loadb :: "jansson \<Rightarrow> byte list \<Rightarrow> la_codec_value option" where
  "la_codec_loadb J bs = json_loadb J bs"

text \<open>The callback is a sink; a refused chunk ends the dump with -1.\<close>

definition la_codec_dump_callback ::
  "jansson \<Rightarrow> la_codec_value \<Rightarrow> ('s \<Rightarrow> byte list \<Rightarrow> (bool \<times> 's) option) \<Rightarrow> 's \<Rightarrow> (int \<times> 's) option" where
  "la_codec_dump_callback J v callback s =
     (case json_dump_chunks J v of (chunks, complete) \<Rightarrow> do {
        (ok, s') \<leftarrow> feed_chunks callback s chunks;
        Some (if ok \<and> complete then 0 else -1, s') })"

section \<open>What the library promises of objects\<close>

fun member_get :: "(byte list \<times> la_codec_value) list \<Rightarrow> byte list \<Rightarrow> la_codec_value option" where
  "member_get [] k = None"
| "member_get ((k', v) # ms) k = (if k' = k then Some v else member_get ms k)"

definition member_del :: "(byte list \<times> la_codec_value) list \<Rightarrow> byte list \<Rightarrow> (byte list \<times> la_codec_value) list" where
  "member_del ms k = filter (\<lambda>(k', _). k' \<noteq> k) ms"

lemma member_get_del: "member_get (member_del ms k) k' = (if k' = k then None else member_get ms k')"
  by (induction ms) (auto simp: member_del_def)

locale json_objects =
  fixes J :: jansson
  assumes object_get: "json_object_get J (LA_CODEC_OBJECT ms) k = member_get ms k"
    and object_del: "json_object_del J (LA_CODEC_OBJECT ms) k = LA_CODEC_OBJECT (member_del ms k)"
    and object_size: "json_object_size J (LA_CODEC_OBJECT ms) = length ms"
    and copy: "json_copy J v = Some v"
    and object_new: "json_object J = Some (LA_CODEC_OBJECT [])"
begin

lemma get_after_del:
  "json_object_get J (json_object_del J (LA_CODEC_OBJECT ms) k) k' =
   (if k' = k then None else json_object_get J (LA_CODEC_OBJECT ms) k')"
  by (simp add: object_get object_del member_get_del)

end

text \<open>
  A library on trees, with the object operations as promised and any pair of printing and parsing
  functions.
\<close>

fun tree_get :: "la_codec_value \<Rightarrow> byte list \<Rightarrow> la_codec_value option" where
  "tree_get (LA_CODEC_OBJECT ms) k = member_get ms k"
| "tree_get _ k = None"

fun tree_del :: "la_codec_value \<Rightarrow> byte list \<Rightarrow> la_codec_value" where
  "tree_del (LA_CODEC_OBJECT ms) k = LA_CODEC_OBJECT (member_del ms k)"
| "tree_del v k = v"

fun tree_size :: "la_codec_value \<Rightarrow> nat" where
  "tree_size (LA_CODEC_OBJECT ms) = length ms"
| "tree_size _ = 0"

definition tree_json ::
  "(la_codec_value \<Rightarrow> byte list list) \<Rightarrow> (byte list \<Rightarrow> la_codec_value option) \<Rightarrow> jansson" where
  "tree_json pr pa =
     \<lparr>json_object_get = tree_get, json_object_del = tree_del, json_object_size = tree_size, json_copy = Some,
      json_object = Some (LA_CODEC_OBJECT []), json_dump_chunks = (\<lambda>v. (pr v, True)), json_loadb = pa\<rparr>"

interpretation tree: json_objects "tree_json pr pa" for pr pa
  by unfold_locales (simp_all add: tree_json_def)

end
