(* ===== verification/LA_Revgen.thy ===== *)
theory LA_Revgen
  imports LA_Object LA_Codec
begin

text \<open>
  Revision identifiers. \<open>revgen-couch/couch-revgen.c\<close> feeds MD5 with the Erlang external term
  a document stands for; the digest function, the rendering of doubles by \<open>printf\<close> and the
  allocator are arguments. \<open>revgen/revgen.c\<close> prints and scans the text form
  \<open>sequence-digest\<close>.
\<close>

section \<open>The hashed term\<close>

definition REV_TRUE :: "byte list" where "REV_TRUE = [100, 0, 4, 116, 114, 117, 101]"
definition REV_FALSE :: "byte list" where "REV_FALSE = [100, 0, 5, 102, 97, 108, 115, 101]"
definition REV_NULL :: "byte list" where "REV_NULL = [100, 0, 4, 110, 117, 108, 108]"
definition REV_HEAD :: "byte list" where "REV_HEAD = [131]"
definition REV_SMALL_INT :: "byte list" where "REV_SMALL_INT = [97]"
definition REV_INT :: "byte list" where "REV_INT = [98]"
definition REV_SMALL_TUPLE_ONE :: "byte list" where "REV_SMALL_TUPLE_ONE = [104, 1]"
definition REV_SMALL_TUPLE_TWO :: "byte list" where "REV_SMALL_TUPLE_TWO = [104, 2]"
definition REV_NIL :: "byte list" where "REV_NIL = [106]"
definition REV_LIST :: "byte list" where "REV_LIST = [108]"
definition REV_BINARY :: "byte list" where "REV_BINARY = [109]"
definition REV_FLOAT :: "byte list" where "REV_FLOAT = [99]"
definition REV_SMALL_BIG :: "byte list" where "REV_SMALL_BIG = [110]"
definition REV_LARGE_BIG :: "byte list" where "REV_LARGE_BIG = [111]"

lemmas rev_tags =
  REV_TRUE_def REV_FALSE_def REV_NULL_def REV_HEAD_def REV_SMALL_INT_def REV_INT_def
  REV_SMALL_TUPLE_ONE_def REV_SMALL_TUPLE_TWO_def REV_NIL_def REV_LIST_def REV_BINARY_def
  REV_FLOAT_def REV_SMALL_BIG_def REV_LARGE_BIG_def

text \<open>The low bytes of \<open>i >> 24\<close>, \<open>i >> 16\<close>, \<open>i >> 8\<close>, \<open>i\<close>, and of the eight shifts.\<close>

definition be4 :: "int \<Rightarrow> byte list" where
  "be4 i = [word_of_int (i div 2 ^ 24), word_of_int (i div 2 ^ 16), word_of_int (i div 2 ^ 8), word_of_int i]"

definition be8 :: "int \<Rightarrow> byte list" where
  "be8 i = be4 (i div 2 ^ 32) @ be4 i"

text \<open>What the code takes from its platform: \<open>malloc\<close>, \<open>printf("%.20e")\<close> and MD5.\<close>

record hash_env =
  he_alloc :: allocator
  he_fmt_e :: "u64 \<Rightarrow> byte list"
  he_md5 :: "byte list \<Rightarrow> byte list"

definition hash_integer :: "int \<Rightarrow> byte list" where
  "hash_integer i =
     (if i < 256 then REV_SMALL_INT @ [word_of_int i]
      else if i \<le> 2 ^ 31 - 1 \<and> i \<ge> - (2 ^ 31) then REV_INT @ be4 i
      else let c = dropWhile (\<lambda>x. x = 0) (be8 i) in
        REV_SMALL_BIG @ [word_of_nat (length c), (if i < 0 then 1 else 0)] @ rev c)"

text \<open>The magnitude as \<open>mp_to_unsigned_bin\<close> gives it, read backwards.\<close>

fun mp_bytes :: "nat \<Rightarrow> byte list" where
  "mp_bytes n = (if n = 0 then [] else word_of_nat (n mod 256) # mp_bytes (n div 256))"

declare mp_bytes.simps [simp del]

definition hash_bignum :: "allocator \<Rightarrow> bool \<Rightarrow> nat \<Rightarrow> byte list" where
  "hash_bignum A neg m =
     (let bin = mp_bytes m; len = length bin; s = (if neg then 1 else 0) in
      if \<not> grant A len then []
      else if len < 256 then REV_SMALL_BIG @ [word_of_nat len, s] @ bin
      else REV_LARGE_BIG @ be4 (int len) @ [s] @ bin)"

definition hash_real :: "(u64 \<Rightarrow> byte list) \<Rightarrow> u64 \<Rightarrow> byte list" where
  "hash_real fmt d = REV_FLOAT @ take 31 (take 31 (fmt d) @ replicate 31 0)"

definition hash_binary :: "byte list \<Rightarrow> byte list" where
  "hash_binary s = REV_BINARY @ be4 (int (length s)) @ s"

text \<open>
  The bytes \<open>hash_value\<close> hands to \<open>MD5_Update\<close>, in order. The loops over the elements of an
  array and the members of an object are the two other functions.
\<close>

fun hash_value :: "hash_env \<Rightarrow> la_codec_value \<Rightarrow> byte list"
  and hash_elems :: "hash_env \<Rightarrow> la_codec_value list \<Rightarrow> byte list"
  and hash_members :: "hash_env \<Rightarrow> (byte list \<times> la_codec_value) list \<Rightarrow> byte list" where
  "hash_value E LA_CODEC_TRUE = REV_TRUE"
| "hash_value E LA_CODEC_FALSE = REV_FALSE"
| "hash_value E LA_CODEC_NULL = REV_NULL"
| "hash_value E (LA_CODEC_INTEGER i) = hash_integer i"
| "hash_value E (LA_CODEC_BIGNUM neg m) = hash_bignum (he_alloc E) neg m"
| "hash_value E (LA_CODEC_REAL d) = hash_real (he_fmt_e E) d"
| "hash_value E (LA_CODEC_STRING s) = hash_binary s"
| "hash_value E (LA_CODEC_ARRAY vs) =
     (if length vs > 0 then REV_LIST @ be4 (int (length vs)) @ hash_elems E vs else []) @ REV_NIL"
| "hash_value E (LA_CODEC_OBJECT ms) =
     REV_SMALL_TUPLE_ONE @
     (if length ms > 0 then REV_LIST @ be4 (int (length ms)) @ hash_members E ms else []) @ REV_NIL"
| "hash_elems E [] = []"
| "hash_elems E (v # vs) = hash_value E v @ hash_elems E vs"
| "hash_members E [] = []"
| "hash_members E ((k, v) # ms) =
     REV_SMALL_TUPLE_TWO @ hash_binary k @ hash_value E v @ hash_members E ms"

text \<open>
  The whole message: \<open>la_codec_integer\<close> turns the unsigned \<open>old_start\<close> into a signed value.
\<close>

definition revgen_message :: "hash_env \<Rightarrow> la_codec_value \<Rightarrow> u64 \<Rightarrow> rev option \<Rightarrow> bool \<Rightarrow> byte list" where
  "revgen_message E v old_start oldrev is_delete =
     REV_HEAD @ REV_LIST @ [0, 0, 0, 5] @ (if is_delete then REV_TRUE else REV_FALSE) @
     hash_value E (LA_CODEC_INTEGER (sint old_start)) @
     (case oldrev of
        None \<Rightarrow> REV_SMALL_INT @ [0]
      | Some r \<Rightarrow> REV_BINARY @ be4 16 @ take LA_OBJECT_REVISION_LEN r) @
     hash_value E v @ REV_NIL @ REV_NIL"

definition MD5_DIGEST_LENGTH :: nat where
  "MD5_DIGEST_LENGTH = 16"

text \<open>The length returned, and the digest stored at \<open>rev\<close>.\<close>

definition la_revgen ::
  "hash_env \<Rightarrow> la_codec_value \<Rightarrow> u64 \<Rightarrow> rev option \<Rightarrow> bool \<Rightarrow> nat \<times> rev" where
  "la_revgen E v old_start oldrev is_delete =
     (MD5_DIGEST_LENGTH, take LA_OBJECT_REVISION_LEN (he_md5 E (revgen_message E v old_start oldrev is_delete)))"

section \<open>The text form\<close>

record la_rev =
  rseq :: u64
  rrev :: rev

fun dec_digits :: "nat \<Rightarrow> byte list" where
  "dec_digits n = (if n < 10 then [0x30 + word_of_nat n]
                   else dec_digits (n div 10) @ [0x30 + word_of_nat (n mod 10)])"

declare dec_digits.simps [simp del]

text \<open>
  \<open>snprintf\<close> at an offset of a block, as in the buffer; the new offset and remaining size are
  what the code computes from the returned length.
\<close>

definition snprintf_step ::
  "(byte list \<times> nat \<times> nat) \<Rightarrow> byte list \<Rightarrow> (int \<times> (byte list \<times> nat \<times> nat)) option" where
  "snprintf_step st out =
     (case st of (buf, off, sz) \<Rightarrow> do {
        buf' \<leftarrow> vsnprintf_at buf off sz out;
        Some (vsnprintf_ret out, (buf', off + length out, sub_sz sz (length out))) })"

fun rev_print_loop ::
  "byte list \<Rightarrow> int \<Rightarrow> (byte list \<times> nat \<times> nat) \<Rightarrow> (int \<times> (byte list \<times> nat \<times> nat)) option" where
  "rev_print_loop [] ret st = Some (ret, st)"
| "rev_print_loop (b # bs) ret st =
     (case snprintf_step st (hex2 b) of
        None \<Rightarrow> None
      | Some (ret', st') \<Rightarrow> rev_print_loop bs ret' st')"

text \<open>The result is the length of the last piece printed, not the total.\<close>

definition la_rev_print :: "la_rev \<Rightarrow> byte list \<Rightarrow> nat \<Rightarrow> (int \<times> byte list) option" where
  "la_rev_print r buf sz = do {
     (ret, st) \<leftarrow> snprintf_step (buf, 0, sz) (dec_digits (unat (rseq r)) @ [0x2d]);
     bytes \<leftarrow> mem_read (rrev r) 0 LA_OBJECT_REVISION_LEN;
     (ret', (buf', off, sz')) \<leftarrow> rev_print_loop bytes ret st;
     Some (ret', buf') }"

definition strbuf_size :: nat where
  "strbuf_size = 20 + LA_OBJECT_REVISION_LEN * 2 + 1"

text \<open>The static buffer after the call, given what it held before.\<close>

definition la_rev_string :: "la_rev \<Rightarrow> byte list \<Rightarrow> byte list option" where
  "la_rev_string r strbuf = map_option snd (la_rev_print r strbuf strbuf_size)"

definition hx :: "byte \<Rightarrow> int" where
  "hx c = (if 0x30 \<le> c \<and> c \<le> 0x39 then uint c - 0x30
           else if 0x61 \<le> c \<and> c \<le> 0x66 then (uint c - 0x61) + 10
           else if 0x41 \<le> c \<and> c \<le> 0x47 then (uint c - 0x41) + 10
           else -1)"

definition is_digit :: "byte \<Rightarrow> bool" where
  "is_digit c = (0x30 \<le> c \<and> c \<le> 0x39)"

definition is_space :: "byte \<Rightarrow> bool" where
  "is_space c = (c = 0x20 \<or> (0x09 \<le> c \<and> c \<le> 0x0d))"

definition dec_value :: "byte list \<Rightarrow> nat" where
  "dec_value ds = foldl (\<lambda>n c. 10 * n + unat (c - 0x30)) 0 ds"

text \<open>
  \<open>sscanf(str, "%llu")\<close>: white space, an optional sign, digits; the value saturates and is
  negated modulo \<open>2 ^ 64\<close> behind a minus sign.
\<close>

definition scan_llu :: "byte list \<Rightarrow> u64 option" where
  "scan_llu str =
     (let s = dropWhile is_space str;
          neg = (s \<noteq> [] \<and> hd s = 0x2d);
          t = (if s \<noteq> [] \<and> (hd s = 0x2d \<or> hd s = 0x2b) then tl s else s);
          ds = takeWhile is_digit t;
          v = dec_value ds
      in if ds = [] then None
         else if v \<ge> 2 ^ 64 then Some (- 1)
         else Some (if neg then - word_of_nat v else word_of_nat v))"

text \<open>\<open>strchr(str, '-')\<close> and one character on.\<close>

definition after_dash :: "byte list \<Rightarrow> byte list option" where
  "after_dash str = (case dropWhile (\<lambda>c. c \<noteq> 0x2d) str of [] \<Rightarrow> None | _ # p \<Rightarrow> Some p)"

fun rev_scan_loop :: "byte list \<Rightarrow> nat \<Rightarrow> rev \<Rightarrow> (int \<times> rev) option" where
  "rev_scan_loop (c # d # p) j rv =
     (if j < LA_OBJECT_REVISION_LEN then
        let x = hx c; y = hx d in
        if x < 0 \<or> y < 0 then Some (-1, rv)
        else case mem_write rv j [word_of_int (x * 16) OR word_of_int y] of
               None \<Rightarrow> None
             | Some rv' \<Rightarrow> rev_scan_loop p (j + 1) rv'
      else Some (0, rv))"
| "rev_scan_loop _ j rv = Some (0, rv)"

definition la_rev_scan :: "byte list \<Rightarrow> la_rev \<Rightarrow> (int \<times> la_rev) option" where
  "la_rev_scan str r =
     (case scan_llu str of
        None \<Rightarrow> Some (-1, r)
      | Some s \<Rightarrow>
        let r1 = r\<lparr>rseq := s\<rparr> in
        (case after_dash str of
           None \<Rightarrow> Some (-1, r1)
         | Some p \<Rightarrow>
           if length p < LA_OBJECT_REVISION_LEN * 2 then Some (-1, r1)
           else map_option (\<lambda>(ret, rv). (ret, r1\<lparr>rrev := rv\<rparr>)) (rev_scan_loop p 0 (rrev r1))))"

section \<open>Lemmas on the text form\<close>

lemma digit_unat: "k < 10 \<Longrightarrow> unat ((0x30 + word_of_nat k :: byte) - 0x30) = k"
  by (simp add: unat_of_nat take_bit_nat_eq_self)

lemma digit_is_digit: "k < 10 \<Longrightarrow> is_digit (0x30 + word_of_nat k)"
  by (simp add: is_digit_def word_le_nat_alt unat_word_ariths unat_of_nat take_bit_nat_eq_self)

lemma dec_digits_digits: "\<forall>c\<in>set (dec_digits n). is_digit c"
proof (induction n rule: dec_digits.induct)
  case (1 n)
  then show ?case by (subst dec_digits.simps) (auto simp: digit_is_digit)
qed

lemma dec_digits_nonempty [simp]: "dec_digits n \<noteq> []"
  by (subst dec_digits.simps) simp

lemma dec_value_snoc: "dec_value (ds @ [c]) = 10 * dec_value ds + unat (c - 0x30)"
  by (simp add: dec_value_def)

lemma dec_value_digits [simp]: "dec_value (dec_digits n) = n"
proof (induction n rule: dec_digits.induct)
  case (1 n)
  show ?case
  proof (cases "n < 10")
    case True
    then have "dec_digits n = [] @ [0x30 + word_of_nat n]" by (simp add: dec_digits.simps)
    then show ?thesis using True by (simp only: dec_value_snoc digit_unat) (simp add: dec_value_def)
  next
    case False
    then have "dec_digits n = dec_digits (n div 10) @ [0x30 + word_of_nat (n mod 10)]"
      by (subst dec_digits.simps) simp
    then have "dec_value (dec_digits n) = 10 * (n div 10) + n mod 10"
      using 1 False digit_unat [of "n mod 10"] by (simp only: dec_value_snoc) simp
    then show ?thesis by simp
  qed
qed

lemma dec_digits_length_le: "0 < k \<Longrightarrow> n < 10 ^ k \<Longrightarrow> length (dec_digits n) \<le> k"
proof (induction n arbitrary: k rule: dec_digits.induct)
  case (1 n)
  show ?case
  proof (cases "n < 10")
    case True
    then show ?thesis using 1(2) by (subst dec_digits.simps) simp
  next
    case False
    then obtain j where j: "k = Suc j" "0 < j" using 1(2,3) by (cases k; cases "k - 1") auto
    then have "n div 10 < 10 ^ j" using 1(3) by (simp add: less_mult_imp_div_less mult.commute)
    then have "length (dec_digits (n div 10)) \<le> j" using 1(1) False j by simp
    then show ?thesis using False j by (subst dec_digits.simps) simp
  qed
qed

lemma dec_digits_length_ge: "10 ^ k \<le> n \<Longrightarrow> k < length (dec_digits n)"
proof (induction n arbitrary: k rule: dec_digits.induct)
  case (1 n)
  show ?case
  proof (cases k)
    case 0
    then show ?thesis by simp
  next
    case (Suc j)
    then have n: "\<not> n < 10" "10 ^ j \<le> n div 10"
      using 1(2) div_le_mono [of "10 * 10 ^ j" n 10] by (auto simp: not_less intro: order_trans [of 10 "10 * 10 ^ j"])
    then have "j < length (dec_digits (n div 10))" using 1(1) by simp
    then show ?thesis using n Suc by (subst dec_digits.simps) simp
  qed
qed

lemma is_digit_cases: "is_digit c \<Longrightarrow> c \<noteq> 0x2d \<and> c \<noteq> 0x2b \<and> \<not> is_space c \<and> c \<noteq> 0"
  by (auto simp: is_digit_def is_space_def word_le_nat_alt)

lemma scan_llu_digits:
  assumes "n < 2 ^ 64" "rest = [] \<or> \<not> is_digit (hd rest)"
  shows "scan_llu (dec_digits n @ rest) = Some (word_of_nat n)"
proof -
  let ?ds = "dec_digits n"
  obtain c cs where c: "?ds = c # cs" by (cases ?ds) auto
  then have d: "is_digit c" using dec_digits_digits [of n] by auto
  have sp: "dropWhile is_space (?ds @ rest) = ?ds @ rest" using c is_digit_cases [OF d] by simp
  have tw: "takeWhile is_digit (?ds @ rest) = ?ds"
  proof -
    have "takeWhile is_digit (?ds @ rest) = ?ds @ takeWhile is_digit rest"
      using dec_digits_digits by (intro takeWhile_append2) auto
    then show ?thesis using assms(2) by (cases rest) auto
  qed
  have hd: "hd (?ds @ rest) \<noteq> 0x2d" "hd (?ds @ rest) \<noteq> 0x2b" using c is_digit_cases [OF d] by simp_all
  show ?thesis unfolding scan_llu_def Let_def sp using hd tw assms(1) by simp
qed

lemma after_dash_digits: "after_dash (dec_digits n @ 0x2d # p) = Some p"
proof -
  have "dropWhile (\<lambda>c. c \<noteq> 0x2d) (dec_digits n @ 0x2d # p) = 0x2d # p"
  proof -
    have "\<forall>c\<in>set (dec_digits n). c \<noteq> 0x2d" using dec_digits_digits is_digit_cases by blast
    then show ?thesis by (subst dropWhile_append2) auto
  qed
  then show ?thesis by (simp add: after_dash_def)
qed

lemma snprintf_step_fits:
  assumes "length out < sz" "sz < size_max" "length p + sz \<le> length (p @ r)" "length out < 2 ^ 31"
  shows "snprintf_step (p @ r, length p, sz) out =
         Some (int (length out), ((p @ out) @ 0 # drop (length out + 1) r, length (p @ out), sz - length out))"
proof -
  have "vsnprintf_at (p @ r) (length p) sz out = Some ((p @ out) @ 0 # drop (length out + 1) r)"
    using assms by (simp add: vsnprintf_at_def vsnprintf_ret_def mem_write_def)
  then show ?thesis using assms
    by (simp add: snprintf_step_def vsnprintf_ret_def sub_sz_small)
qed

lemma rev_print_loop_fits:
  assumes "2 * length bs < sz" "sz < size_max" "length p + sz \<le> length (p @ r)"
  shows "\<exists>ret' t. rev_print_loop bs ret (p @ r, length p, sz) =
           Some (ret', ((p @ concat (map hex2 bs)) @ t, length (p @ concat (map hex2 bs)), sz - 2 * length bs))
         \<and> length t = length r - 2 * length bs \<and> (bs \<noteq> [] \<longrightarrow> ret' = 2 \<and> hd t = 0) \<and> (bs = [] \<longrightarrow> t = r)"
  using assms
proof (induction bs arbitrary: ret p r sz)
  case Nil
  then show ?case by simp
next
  case (Cons b bs)
  have h: "length (hex2 b) = 2" by (simp add: hex2_def)
  let ?r = "0 # drop 3 r"
  have s: "snprintf_step (p @ r, length p, sz) (hex2 b) = Some (2, ((p @ hex2 b) @ ?r, length (p @ hex2 b), sz - 2))"
    using snprintf_step_fits [of "hex2 b" sz p r] Cons.prems h by simp
  have lr: "length ?r = length r - 2" using Cons.prems by simp
  obtain ret' t where ih: "rev_print_loop bs 2 ((p @ hex2 b) @ ?r, length (p @ hex2 b), sz - 2) =
      Some (ret', (((p @ hex2 b) @ concat (map hex2 bs)) @ t, length ((p @ hex2 b) @ concat (map hex2 bs)),
        sz - 2 - 2 * length bs))"
    "length t = length ?r - 2 * length bs" "bs \<noteq> [] \<longrightarrow> ret' = 2 \<and> hd t = 0" "bs = [] \<longrightarrow> t = ?r"
    using Cons.IH [of "sz - 2" "p @ hex2 b" ?r 2] Cons.prems h lr by fastforce
  have "ret' = 2 \<and> hd t = 0"
  proof (cases "bs = []")
    case True
    then show ?thesis using ih(1,4) by simp
  next
    case False
    then show ?thesis using ih(3) by simp
  qed
  then show ?case using s ih(1,2) lr h by (simp add: algebra_simps)
qed

lemma hx_hexify [simp]:
  assumes "n < 16"
  shows "hx (hexify n) = uint n"
proof -
  have "list_all (\<lambda>n :: byte. hx (hexify n) = uint n) (map word_of_nat [0..<16])" by code_simp
  then show ?thesis using assms by (rule nybble_all)
qed

lemma hex2_value: "(drop_bit 4 b AND 0xf) * 16 OR (b AND 0xf) = (b :: byte)"
  using nybbles_eq [of b] by (simp add: push_bit_eq_mult)

lemma rev_scan_loop_hex2:
  assumes "j + length bs = 16" "length rv = 16"
  shows "rev_scan_loop (concat (map hex2 bs)) j rv = Some (0, take j rv @ bs)"
  using assms
proof (induction bs arbitrary: j rv)
  case Nil
  then show ?case by simp
next
  case (Cons b bs)
  have w: "mem_write rv j [b] = Some (take j rv @ b # drop (Suc j) rv)"
    using Cons.prems by (simp add: mem_write_def)
  have nn: "\<not> uint x < 0" for x :: byte by simp
  have "rev_scan_loop (concat (map hex2 (b # bs))) j rv =
      rev_scan_loop (concat (map hex2 bs)) (j + 1) (take j rv @ b # drop (Suc j) rv)"
    using Cons.prems w by (simp add: hex2_def hex2_value nn Let_def)
  also have "\<dots> = Some (0, take (j + 1) (take j rv @ b # drop (Suc j) rv) @ bs)"
    using Cons.prems by (intro Cons.IH) auto
  also have "take (j + 1) (take j rv @ b # drop (Suc j) rv) = take j rv @ [b]"
    using Cons.prems by simp
  finally show ?case by simp
qed

text \<open>The text of a revision, and what printing it into a block with room for it does.\<close>

definition rev_text :: "la_rev \<Rightarrow> byte list" where
  "rev_text r = dec_digits (unat (rseq r)) @ 0x2d # concat (map hex2 (rrev r))"

lemma rev_text_zero_free: "0 \<notin> set (rev_text r)"
proof -
  have "\<forall>c\<in>set (dec_digits (unat (rseq r))). c \<noteq> 0" using dec_digits_digits is_digit_cases by blast
  then show ?thesis using hex2_zero_free [of "rrev r"] unfolding rev_text_def by auto
qed

lemma rev_scan_text:
  assumes "length (rrev r) = 16" "length (rrev r0) = 16"
  shows "la_rev_scan (rev_text r) r0 = Some (0, r)"
proof -
  have sc: "scan_llu (rev_text r) = Some (rseq r)"
    using scan_llu_digits [of "unat (rseq r)" "0x2d # concat (map hex2 (rrev r))"]
      unsigned_less [where 'a = nat, of "rseq r"] by (simp add: rev_text_def is_digit_def)
  have ad: "after_dash (rev_text r) = Some (concat (map hex2 (rrev r)))"
    unfolding rev_text_def by (rule after_dash_digits)
  have "rev_scan_loop (concat (map hex2 (rrev r))) 0 (rrev r0) = Some (0, rrev r)"
    using rev_scan_loop_hex2 [of 0 "rrev r" "rrev r0"] assms by simp
  then show ?thesis using sc ad assms(1) by (simp add: la_rev_scan_def Let_def)
qed

lemma dec_digits_u64_length: "length (dec_digits (unat (x :: u64))) \<le> 20"
proof -
  have "unat x < 2 ^ 64" using unsigned_less [where 'a = nat, of x] by simp
  then have "unat x < 10 ^ 20" by (rule order_less_le_trans) simp
  then show ?thesis by (intro dec_digits_length_le) simp_all
qed

lemma la_rev_print_fits:
  assumes "length (rrev r) = 16" "length (rev_text r) < sz" "sz < size_max" "sz \<le> length buf"
  shows "\<exists>t. la_rev_print r buf sz = Some (2, rev_text r @ 0 # t)"
proof -
  let ?h = "dec_digits (unat (rseq r)) @ [0x2d]"
  let ?r = "0 # drop (length ?h + 1) buf"
  have lt: "length (rev_text r) = length ?h + 32" using assms(1) by (simp add: rev_text_def)
  have small: "length ?h < 2 ^ 31" using dec_digits_u64_length [of "rseq r"] by simp
  have s1: "snprintf_step (buf, 0, sz) ?h = Some (int (length ?h), (?h @ ?r, length ?h, sz - length ?h))"
    using snprintf_step_fits [of ?h sz "[]" buf] assms lt small by simp
  obtain ret' t where s2: "rev_print_loop (rrev r) (int (length ?h)) (?h @ ?r, length ?h, sz - length ?h) =
      Some (ret', ((?h @ concat (map hex2 (rrev r))) @ t, length (?h @ concat (map hex2 (rrev r))),
            sz - length ?h - 2 * length (rrev r)))"
    and t: "length t = length ?r - 2 * length (rrev r)" "ret' = 2" "hd t = 0"
    using rev_print_loop_fits [of "rrev r" "sz - length ?h" ?h ?r "int (length ?h)"] assms lt by fastforce
  have "t \<noteq> []" using t(1) assms(1,2,4) lt by auto
  then obtain t' where t': "t = 0 # t'" using t(3) by (cases t) auto
  have m: "mem_read (rrev r) 0 16 = Some (rrev r)" using assms(1) by (simp add: mem_read_def)
  have "la_rev_print r buf sz = Some (2, (?h @ concat (map hex2 (rrev r))) @ t)"
    unfolding la_rev_print_def using s1 s2 t(2) m by simp
  then show ?thesis using t' by (auto simp: rev_text_def)
qed

lemma rev_print_loop_append:
  "rev_print_loop (xs @ ys) ret st =
   (case rev_print_loop xs ret st of None \<Rightarrow> None | Some (ret', st') \<Rightarrow> rev_print_loop ys ret' st')"
  by (induction xs arbitrary: ret st) (auto split: option.split prod.split)

section \<open>Lemmas on the hashed term\<close>

lemma uint_byte_of_int: "uint (word_of_int x :: byte) = x mod 256"
  by (simp add: unsigned_of_int take_bit_eq_mod)

lemma mod_step: "(x :: int) mod (256 * n) = 256 * (x div 256 mod n) + x mod 256" if "0 \<le> n" for x n
  using that by (rule zmod_zmult2_eq)

fun of_be :: "byte list \<Rightarrow> int \<Rightarrow> int" where
  "of_be [] acc = acc"
| "of_be (b # bs) acc = of_be bs (256 * acc + uint b)"

lemma of_be4: "of_be (be4 i) acc = 2 ^ 32 * acc + i mod 2 ^ 32"
proof -
  have d: "i div 2 ^ 8 = i div 256" "i div 2 ^ 16 = i div 256 div 256" "i div 2 ^ 24 = i div 256 div 256 div 256"
    by (simp_all flip: zdiv_zmult2_eq)
  have "i mod 2 ^ 32 = i mod (256 * (256 * (256 * 256)))" by simp
  also have "\<dots> = 256 * (256 * (256 * (i div 256 div 256 div 256 mod 256) + i div 256 div 256 mod 256) + i div 256 mod 256) + i mod 256"
    by (simp only: mod_step [of "256 * (256 * 256)"] mod_step [of "256 * 256"] mod_step [of 256])
  finally show ?thesis
    unfolding be4_def d by (simp add: uint_byte_of_int)
qed

lemma be4_inj:
  assumes "be4 i = be4 j" "0 \<le> i" "i < 2 ^ 32" "0 \<le> j" "j < 2 ^ 32"
  shows "i = j"
proof -
  have "i mod 2 ^ 32 = of_be (be4 i) 0" by (simp only: of_be4 mult_zero_right add_0)
  also have "\<dots> = of_be (be4 j) 0" by (simp only: assms(1))
  also have "\<dots> = j mod 2 ^ 32" by (simp only: of_be4 mult_zero_right add_0)
  finally show ?thesis using assms(2-5) by (simp only: mod_pos_pos_trivial)
qed

lemma of_be_append: "of_be (xs @ ys) acc = of_be ys (of_be xs acc)"
  by (induction xs arbitrary: acc) simp_all

lemma of_be8: "of_be (be8 i) 0 = i mod 2 ^ 64"
proof -
  have "of_be (be8 i) 0 = 2 ^ 32 * (i div 2 ^ 32 mod 2 ^ 32) + i mod 2 ^ 32"
    by (simp only: be8_def of_be_append of_be4) simp
  also have "\<dots> = i mod (2 ^ 32 * 2 ^ 32)" by (rule zmod_zmult2_eq [symmetric]) simp
  finally show ?thesis by simp
qed

lemma be8_inj:
  assumes "be8 i = be8 j" "0 \<le> i" "i < 2 ^ 64" "0 \<le> j" "j < 2 ^ 64"
  shows "i = j"
proof -
  have "i mod 2 ^ 64 = j mod 2 ^ 64" by (simp only: assms(1) flip: of_be8)
  then show ?thesis using assms(2-5) by (simp only: mod_pos_pos_trivial)
qed

lemma length_be [simp]: "length (be4 i) = 4" "length (be8 i) = 8"
  by (simp_all add: be4_def be8_def)

text \<open>Stripping the leading zeros of a fixed number of bytes loses nothing.\<close>

lemma dropWhile_zeros:
  "xs = replicate (length xs - length (dropWhile (\<lambda>x. x = 0) xs)) (0 :: byte) @ dropWhile (\<lambda>x. x = 0) xs"
proof (induction xs)
  case (Cons x xs)
  have "length (dropWhile (\<lambda>x. x = 0) xs) \<le> length xs" by (rule length_dropWhile_le)
  then show ?case using Cons by (auto simp: Suc_diff_le)
qed simp

lemma be8_stripped_inj:
  assumes "dropWhile (\<lambda>x. x = 0) (be8 i) = dropWhile (\<lambda>x. x = 0) (be8 j)"
    and "0 \<le> i" "i < 2 ^ 64" "0 \<le> j" "j < 2 ^ 64"
  shows "i = j"
proof -
  have "be8 i = be8 j" using dropWhile_zeros [of "be8 i"] dropWhile_zeros [of "be8 j"] assms(1) by simp
  then show ?thesis using assms by (intro be8_inj)
qed

lemma hash_integer_prefix_free:
  assumes "hash_integer i @ r = hash_integer j @ r'" "0 \<le> i" "i < 2 ^ 63" "0 \<le> j" "j < 2 ^ 63"
  shows "i = j \<and> r = r'"
proof -
  let ?c = "\<lambda>i. dropWhile (\<lambda>x. x = 0) (be8 i)"
  have l: "length (?c i) \<le> 8" for i using length_dropWhile_le [of _ "be8 i"] by simp
  have small: "i mod 256 = j mod 256" if "(word_of_int i :: byte) = word_of_int j"
    using that uint_byte_of_int [of i] uint_byte_of_int [of j] by simp
  consider "i < 256" "j < 256" | "\<not> i < 256" "i < 2 ^ 31" "\<not> j < 256" "j < 2 ^ 31"
    | "\<not> i < 256" "\<not> i < 2 ^ 31" "\<not> j < 256" "\<not> j < 2 ^ 31"
    using assms by (auto simp: hash_integer_def rev_tags Let_def split: if_splits)
  then show ?thesis
  proof cases
    case 1
    then have "i mod 256 = j mod 256" "r = r'"
      using assms(1) small by (simp_all add: hash_integer_def rev_tags)
    then show ?thesis using 1 assms by simp
  next
    case 2
    then have "be4 i @ r = be4 j @ r'" using assms by (simp add: hash_integer_def rev_tags)
    then have "be4 i = be4 j" "r = r'" by simp_all
    with be4_inj [of i j] 2 assms show ?thesis by simp
  next
    case 3
    then have h: "(word_of_nat (length (?c i)) :: byte) = word_of_nat (length (?c j))" "rev (?c i) @ r = rev (?c j) @ r'"
      using assms by (simp_all add: hash_integer_def rev_tags Let_def)
    have "length (?c i) = length (?c j)"
      using arg_cong [OF h(1), of unat] l [of i] l [of j]
      by (simp add: unat_of_nat take_bit_nat_eq_self)
    with h(2) have "?c i = ?c j" "r = r'" by simp_all
    with be8_stripped_inj [of i j] assms show ?thesis by simp
  qed
qed

section \<open>Properties of the text form\<close>

text \<open>
  C28. Printing a revision whose sequence number has at most 19 digits into the static buffer and
  scanning the text gives the revision back; the buffer is terminated and never overrun.
\<close>

theorem rev_string_scan_roundtrip:
  assumes "length (rrev r) = 16" "unat (rseq r) < 10 ^ 19" "length strbuf = strbuf_size" "length (rrev r0) = 16"
  shows "\<exists>buf txt. la_rev_string r strbuf = Some buf \<and> cstr buf = Some txt \<and> la_rev_scan txt r0 = Some (0, r)"
proof -
  have "length (dec_digits (unat (rseq r))) \<le> 19" using assms(2) by (intro dec_digits_length_le) simp_all
  then have "length (rev_text r) < strbuf_size" using assms(1) by (simp add: rev_text_def strbuf_size_def)
  then obtain t where p: "la_rev_string r strbuf = Some (rev_text r @ 0 # t)"
    using la_rev_print_fits [of r strbuf_size strbuf] assms(1,3)
    by (auto simp: la_rev_string_def strbuf_size_def)
  have "la_rev_scan (rev_text r) r0 = Some (0, r)" using assms(1,4) by (rule rev_scan_text)
  with p cstr_append_zero [OF rev_text_zero_free] show ?thesis by blast
qed

definition rev_example :: la_rev where
  "rev_example = \<lparr>rseq = 12, rrev = replicate 16 0xab\<rparr>"

theorem rev_string_scan_roundtrip_witness:
  "\<exists>buf txt. la_rev_string rev_example (replicate strbuf_size 0) = Some buf \<and> cstr buf = Some txt \<and>
     la_rev_scan txt \<lparr>rseq = 0, rrev = replicate 16 0\<rparr> = Some (0, rev_example)"
  using rev_string_scan_roundtrip [of rev_example "replicate strbuf_size 0" "\<lparr>rseq = 0, rrev = replicate 16 0\<rparr>"]
  by (simp add: rev_example_def)

text \<open>
  A sequence number of 20 digits does not fit: the static buffer has no room for the dash, so
  the last digit of the digest is lost and scanning the text fails with -1.
\<close>

theorem rev_string_truncates_20_digits:
  assumes "length (rrev r) = 16" "10 ^ 19 \<le> unat (rseq r)" "length strbuf = strbuf_size"
  shows "\<exists>buf txt. la_rev_string r strbuf = Some buf \<and> cstr buf = Some txt \<and>
           txt = take 52 (rev_text r) \<and> length (rev_text r) = 53 \<and> (\<forall>r0. \<exists>r1. la_rev_scan txt r0 = Some (-1, r1))"
proof -
  let ?h = "dec_digits (unat (rseq r)) @ [0x2d]"
  have lh: "length ?h = 21"
    using dec_digits_length_ge [OF assms(2)] dec_digits_u64_length [of "rseq r"] by simp
  let ?r = "0 # drop 22 strbuf"
  have ls: "length strbuf = 53" using assms(3) by (simp add: strbuf_size_def)
  have s1: "snprintf_step (strbuf, 0, 53) ?h = Some (21, (?h @ ?r, length ?h, 32))"
    using snprintf_step_fits [of ?h 53 "[]" strbuf] ls lh by simp
  define bs b where "bs = take 15 (rrev r)" and "b = rrev r ! 15"
  have rv: "rrev r = bs @ [b]" "length bs = 15"
    using assms(1) take_Suc_conv_app_nth [of 15 "rrev r"] by (simp_all add: bs_def b_def)
  let ?p = "?h @ concat (map hex2 bs)"
  obtain t where s2: "rev_print_loop bs 21 (?h @ ?r, length ?h, 32) = Some (2, (?p @ t, length ?p, 2))"
    and t: "length t = 2"
    using rev_print_loop_fits [of bs 32 ?h ?r 21] rv(2) ls lh by fastforce
  have lp: "length ?p = 51" using rv(2) lh by simp
  let ?x = "hexify (drop_bit 4 b AND 0xf)"
  have s3: "snprintf_step (?p @ t, length ?p, 2) (hex2 b) = Some (2, (?p @ [?x, 0], length ?p + 2, 0))"
    using t by (simp add: snprintf_step_def vsnprintf_at_def vsnprintf_ret_def mem_write_def hex2_def sub_sz_def)
  have m: "mem_read (rrev r) 0 16 = Some (bs @ [b])" using assms(1) rv(1) by (simp add: mem_read_def)
  have l: "rev_print_loop (bs @ [b]) 21 (?h @ ?r, length ?h, 32) = Some (2, (?p @ [?x, 0], length ?p + 2, 0))"
    unfolding rev_print_loop_append s2 using s3 by simp
  have pr: "la_rev_print r strbuf strbuf_size = Some (2, ?p @ [?x, 0])"
    unfolding la_rev_print_def using s1 m l by (simp add: strbuf_size_def)
  have tx: "?p @ [?x] = take 52 (rev_text r)"
    using lp lh rv by (simp add: rev_text_def hex2_def)
  have lt: "length (rev_text r) = 53" using lh assms(1) by (simp add: rev_text_def)
  have z: "0 \<notin> set (take 52 (rev_text r))" using rev_text_zero_free [of r] by (meson in_set_takeD)
  have fail: "\<exists>r1. la_rev_scan (?p @ [?x]) r0 = Some (-1, r1)" for r0
  proof -
    have "after_dash (?p @ [?x]) = Some (concat (map hex2 bs) @ [?x])"
      using after_dash_digits [of "unat (rseq r)" "concat (map hex2 bs) @ [?x]"] by simp
    then show ?thesis using rv(2) by (auto simp: la_rev_scan_def Let_def split: option.split)
  qed
  have "cstr (?p @ [?x, 0]) = Some (?p @ [?x])"
  proof -
    have "0 \<notin> set (?p @ [?x])" unfolding tx by (rule z)
    from cstr_append_zero [OF this, of "[]"] show ?thesis by simp
  qed
  moreover have "la_rev_string r strbuf = Some (?p @ [?x, 0])" by (simp add: la_rev_string_def pr)
  ultimately show ?thesis using tx lt fail by metis
qed

theorem rev_string_truncates_20_digits_witness:
  "\<exists>buf txt. la_rev_string \<lparr>rseq = 10000000000000000000, rrev = replicate 16 1\<rparr> (replicate strbuf_size 0) = Some buf
     \<and> cstr buf = Some txt \<and> (\<forall>r0. \<exists>r1. la_rev_scan txt r0 = Some (-1, r1))"
  using rev_string_truncates_20_digits [of "\<lparr>rseq = 10000000000000000000, rrev = replicate 16 1\<rparr>" "replicate strbuf_size 0"]
  by auto

text \<open>
  The values whose hashed term is unambiguous: no bignums and reals, no negative integers, and
  every length fits the four bytes it is written in.
\<close>

fun hashable :: "la_codec_value \<Rightarrow> bool"
  and hashable_elems :: "la_codec_value list \<Rightarrow> bool"
  and hashable_members :: "(byte list \<times> la_codec_value) list \<Rightarrow> bool" where
  "hashable (LA_CODEC_INTEGER i) = (0 \<le> i \<and> i < 2 ^ 63)"
| "hashable (LA_CODEC_BIGNUM neg m) = False"
| "hashable (LA_CODEC_REAL d) = False"
| "hashable (LA_CODEC_STRING s) = (length s < 2 ^ 31)"
| "hashable (LA_CODEC_ARRAY vs) = (length vs < 2 ^ 31 \<and> hashable_elems vs)"
| "hashable (LA_CODEC_OBJECT ms) = (length ms < 2 ^ 31 \<and> hashable_members ms)"
| "hashable LA_CODEC_TRUE = True"
| "hashable LA_CODEC_FALSE = True"
| "hashable LA_CODEC_NULL = True"
| "hashable_elems [] = True"
| "hashable_elems (v # vs) = (hashable v \<and> hashable_elems vs)"
| "hashable_members [] = True"
| "hashable_members ((k, v) # ms) = (length k < 2 ^ 31 \<and> hashable v \<and> hashable_members ms)"

lemma be4_length_inj:
  "be4 (int m) = be4 (int n) \<Longrightarrow> m < 2 ^ 31 \<Longrightarrow> n < 2 ^ 31 \<Longrightarrow> m = n"
  using be4_inj [of "int m" "int n"] by simp

lemma hash_binary_prefix_free:
  assumes "hash_binary s @ r = hash_binary t @ r'" "length s < 2 ^ 31" "length t < 2 ^ 31"
  shows "s = t \<and> r = r'"
proof -
  have h: "be4 (int (length s)) @ s @ r = be4 (int (length t)) @ t @ r'"
    using assms(1) by (simp add: hash_binary_def rev_tags)
  then have "be4 (int (length s)) = be4 (int (length t))" "s @ r = t @ r'" by simp_all
  with be4_length_inj assms(2,3) have "length s = length t" by blast
  with h show ?thesis by simp
qed

text \<open>The first byte tells the kind of value.\<close>

definition tag_of :: "la_codec_value \<Rightarrow> byte set" where
  "tag_of v = (case v of
     LA_CODEC_TRUE \<Rightarrow> {100} | LA_CODEC_FALSE \<Rightarrow> {100} | LA_CODEC_NULL \<Rightarrow> {100}
   | LA_CODEC_INTEGER i \<Rightarrow> {97, 98, 110} | LA_CODEC_STRING s \<Rightarrow> {109}
   | LA_CODEC_ARRAY vs \<Rightarrow> {106, 108} | LA_CODEC_OBJECT ms \<Rightarrow> {104} | _ \<Rightarrow> {})"

lemma hash_value_tag: "hashable v \<Longrightarrow> \<exists>b bs. hash_value E v = b # bs \<and> b \<in> tag_of v"
  by (cases v) (auto simp: rev_tags hash_integer_def hash_binary_def tag_of_def Let_def)

lemma same_tag:
  assumes "hash_value E v @ r = hash_value E v' @ r'" "hashable v" "hashable v'"
  shows "tag_of v \<inter> tag_of v' \<noteq> {}"
proof -
  obtain b bs where "hash_value E v = b # bs" "b \<in> tag_of v" using hash_value_tag [OF assms(2)] by blast
  moreover obtain b' bs' where "hash_value E v' = b' # bs'" "b' \<in> tag_of v'"
    using hash_value_tag [OF assms(3)] by blast
  ultimately show ?thesis using assms(1) by auto
qed

lemma hash_prefix_free:
  "\<And>v' r r'. hash_value E v @ r = hash_value E v' @ r' \<Longrightarrow> hashable v \<Longrightarrow> hashable v' \<Longrightarrow> v = v' \<and> r = r'"
  "\<And>vs' r r'. hash_elems E vs @ r = hash_elems E vs' @ r' \<Longrightarrow> length vs = length vs' \<Longrightarrow>
     hashable_elems vs \<Longrightarrow> hashable_elems vs' \<Longrightarrow> vs = vs' \<and> r = r'"
  "\<And>ms' r r'. hash_members E ms @ r = hash_members E ms' @ r' \<Longrightarrow> length ms = length ms' \<Longrightarrow>
     hashable_members ms \<Longrightarrow> hashable_members ms' \<Longrightarrow> ms = ms' \<and> r = r'"
proof (induction E v and E vs and E ms rule: hash_value_hash_elems_hash_members.induct)
  case (1 E)
  from same_tag [OF 1] 1 show ?case by (cases v') (auto simp: tag_of_def rev_tags)
next
  case (2 E)
  from same_tag [OF 2] 2 show ?case by (cases v') (auto simp: tag_of_def rev_tags)
next
  case (3 E)
  from same_tag [OF 3] 3 show ?case by (cases v') (auto simp: tag_of_def rev_tags)
next
  case (4 E i)
  from same_tag [OF 4] obtain j where "v' = LA_CODEC_INTEGER j" by (cases v') (auto simp: tag_of_def)
  with 4 hash_integer_prefix_free [of i r j r'] show ?case by simp
next
  case (7 E s)
  from same_tag [OF 7] obtain t where "v' = LA_CODEC_STRING t" by (cases v') (auto simp: tag_of_def)
  with 7 hash_binary_prefix_free [of s r t r'] show ?case by simp
next
  case (8 E vs)
  from same_tag [OF 8(2-4)] obtain vs' where v': "v' = LA_CODEC_ARRAY vs'" by (cases v') (auto simp: tag_of_def)
  show ?case
  proof (cases "vs = [] \<or> vs' = []")
    case True
    with 8(2) v' show ?thesis by (auto simp: rev_tags split: if_splits)
  next
    case False
    then have h: "be4 (int (length vs)) @ hash_elems E vs @ REV_NIL @ r =
        be4 (int (length vs')) @ hash_elems E vs' @ REV_NIL @ r'"
      using 8(2) v' by (simp add: REV_LIST_def)
    then have "be4 (int (length vs)) = be4 (int (length vs'))" by simp
    then have l: "length vs = length vs'" using 8(3,4) v' be4_length_inj by simp
    from h have "hash_elems E vs @ REV_NIL @ r = hash_elems E vs' @ REV_NIL @ r'" by simp
    from 8(1) [OF _ this l] False 8(3,4) v' show ?thesis by simp
  qed
next
  case (9 E ms)
  from same_tag [OF 9(2-4)] obtain ms' where v': "v' = LA_CODEC_OBJECT ms'" by (cases v') (auto simp: tag_of_def)
  show ?case
  proof (cases "ms = [] \<or> ms' = []")
    case True
    with 9(2) v' show ?thesis by (auto simp: rev_tags split: if_splits)
  next
    case False
    then have h: "be4 (int (length ms)) @ hash_members E ms @ REV_NIL @ r =
        be4 (int (length ms')) @ hash_members E ms' @ REV_NIL @ r'"
      using 9(2) v' by (simp add: REV_LIST_def REV_SMALL_TUPLE_ONE_def)
    then have "be4 (int (length ms)) = be4 (int (length ms'))" by simp
    then have l: "length ms = length ms'" using 9(3,4) v' be4_length_inj by simp
    from h have "hash_members E ms @ REV_NIL @ r = hash_members E ms' @ REV_NIL @ r'" by simp
    from 9(1) [OF _ this l] False 9(3,4) v' show ?thesis by simp
  qed
next
  case (11 E v vs)
  from 11(4) obtain w ws where vs': "vs' = w # ws" by (cases vs') auto
  then have "hash_value E v @ hash_elems E vs @ r = hash_value E w @ hash_elems E ws @ r'"
    using 11(3) by simp
  from 11(1) [OF this] have "v = w" "hash_elems E vs @ r = hash_elems E ws @ r'" using 11(5,6) vs' by simp_all
  with 11(2) [OF this(2)] 11(4-6) vs' show ?case by simp
next
  case (13 E k v ms)
  from 13(4) obtain k' v' ns where ms': "ms' = (k', v') # ns" by (cases ms') auto
  then have "hash_binary k @ hash_value E v @ hash_members E ms @ r =
      hash_binary k' @ hash_value E v' @ hash_members E ns @ r'"
    using 13(3) by (simp add: REV_SMALL_TUPLE_TWO_def)
  note b = hash_binary_prefix_free [OF this]
  have k: "k = k'" and eq: "hash_value E v @ hash_members E ms @ r = hash_value E v' @ hash_members E ns @ r'"
    using b 13(5,6) ms' by simp_all
  from 13(1) [OF eq] have "v = v'" "hash_members E ms @ r = hash_members E ns @ r'"
    using 13(5,6) ms' by simp_all
  with 13(2) [OF this(2)] 13(4-6) ms' k show ?case by simp
qed simp_all


section \<open>Properties of revision generation\<close>

text \<open>
  C27. Revisions identify what they are computed from: if two documents without negative integers,
  reals and bignums are hashed for the same kind of update and give the same message, then the
  documents, the previous sequence numbers and the previous revisions are the same. So two
  different inputs can share a revision only by a collision of the digest.
\<close>

theorem revgen_message_injective:
  assumes "revgen_message E v s oldrev d = revgen_message E v' s' oldrev' d'" "hashable v" "hashable v'"
    and "s < 2 ^ 63" "s' < 2 ^ 63"
    and "\<forall>r. oldrev = Some r \<longrightarrow> length r = 16" "\<forall>r. oldrev' = Some r \<longrightarrow> length r = 16"
  shows "v = v' \<and> s = s' \<and> oldrev = oldrev' \<and> d = d'"
proof -
  have si: "hashable (LA_CODEC_INTEGER (sint x))" "sint x = uint x" if "x < 2 ^ 63" for x :: u64
  proof -
    have u: "uint x < 2 ^ 63" using that by (simp add: word_less_def)
    have "- (2 ^ 63) \<le> uint x" by (rule order_trans [of _ 0]) simp_all
    then show e: "sint x = uint x" using u by (simp add: sint_uint signed_take_bit_int_eq_self)
    then show "hashable (LA_CODEC_INTEGER (sint x))" using u by simp
  qed
  let ?o = "\<lambda>oldrev. case oldrev of None \<Rightarrow> REV_SMALL_INT @ [0] | Some r \<Rightarrow> REV_BINARY @ be4 16 @ take 16 r"
  let ?t = "\<lambda>v s oldrev. hash_value E (LA_CODEC_INTEGER (sint s)) @ ?o oldrev @ hash_value E v @ REV_NIL @ REV_NIL"
  have "d = d' \<and> ?t v s oldrev = ?t v' s' oldrev'"
    using assms(1) unfolding revgen_message_def REVISION_LEN_eq by (cases d; cases d') (simp_all add: rev_tags del: hash_value.simps)
  then have d: "d = d'" and t: "?t v s oldrev = ?t v' s' oldrev'" by simp_all
  from hash_prefix_free(1) [OF t si(1) si(1)] assms(4,5) have i: "sint s = sint s'"
    and t2: "?o oldrev @ hash_value E v @ REV_NIL @ REV_NIL = ?o oldrev' @ hash_value E v' @ REV_NIL @ REV_NIL"
    by simp_all
  have "oldrev = oldrev' \<and> hash_value E v @ REV_NIL @ REV_NIL = hash_value E v' @ REV_NIL @ REV_NIL"
    using t2 assms(6,7) by (cases oldrev; cases oldrev') (auto simp: REV_BINARY_def REV_SMALL_INT_def)
  then have o: "oldrev = oldrev'" and t3: "hash_value E v @ REV_NIL @ REV_NIL = hash_value E v' @ REV_NIL @ REV_NIL"
    by simp_all
  from hash_prefix_free(1) [OF t3 assms(2,3)] have "v = v'" by simp
  moreover have "s = s'" using i by (rule signed_word_eqI)
  ultimately show ?thesis using o d by simp
qed

definition doc_example :: la_codec_value where
  "doc_example = LA_CODEC_OBJECT
     [([102, 111, 111], LA_CODEC_STRING [98, 97, 114]), ([98, 97, 122], LA_CODEC_STRING [98, 97, 122]),
      ([113, 117, 117, 120], LA_CODEC_INTEGER 1234)]"

theorem revgen_message_injective_witness:
  "hashable doc_example \<and>
   (\<forall>E. revgen_message E doc_example 2 None False \<noteq> revgen_message E doc_example 3 None False \<and>
        revgen_message E doc_example 2 None False \<noteq> revgen_message E LA_CODEC_NULL 2 None False)"
proof (intro conjI allI)
  show h: "hashable doc_example" by (simp add: doc_example_def)
  fix E
  show "revgen_message E doc_example 2 None False \<noteq> revgen_message E doc_example 3 None False"
    using revgen_message_injective [of E doc_example 2 None False doc_example 3 None False] h by auto
  show "revgen_message E doc_example 2 None False \<noteq> revgen_message E LA_CODEC_NULL 2 None False"
    using revgen_message_injective [of E doc_example 2 None False LA_CODEC_NULL 2 None False] h
    by (auto simp: doc_example_def)
qed

text \<open>
  The example in the comment of \<open>couch-revgen.c\<close> comes out: for the document
  \<open>{"foo":"bar","baz":"baz","quux":1234}\<close> with the previous revision \<open>2-1383...17c3\<close> the code hashes
  exactly the bytes CouchDB logged.
\<close>

definition couch_oldrev :: rev where
  "couch_oldrev = [19, 131, 149, 53, 254, 178, 80, 211, 216, 41, 9, 152, 184, 175, 23, 195]"

theorem revgen_matches_couch_log:
  "revgen_message E doc_example 2 (Some couch_oldrev) False =
   [131, 108, 0, 0, 0, 5, 100, 0, 5, 102, 97, 108, 115, 101, 97, 2, 109, 0, 0, 0, 16, 19, 131, 149, 53, 254,
    178, 80, 211, 216, 41, 9, 152, 184, 175, 23, 195, 104, 1, 108, 0, 0, 0, 3, 104, 2, 109, 0, 0, 0, 3, 102,
    111, 111, 109, 0, 0, 0, 3, 98, 97, 114, 104, 2, 109, 0, 0, 0, 3, 98, 97, 122, 109, 0, 0, 0, 3, 98, 97,
    122, 104, 2, 109, 0, 0, 0, 4, 113, 117, 117, 120, 98, 0, 0, 4, 210, 106, 106, 106]"
  by (simp add: revgen_message_def doc_example_def couch_oldrev_def rev_tags hash_integer_def hash_binary_def be4_def)

text \<open>
  Negative integers are hashed as one byte: every integer from -256 to -1 gives the same bytes as
  the non-negative integer 256 above it, so documents that differ in that way share their
  revision.
\<close>

theorem negative_integers_collide:
  assumes "- 256 \<le> i" "i < 0"
  shows "la_revgen E (LA_CODEC_OBJECT [(k, LA_CODEC_INTEGER i)]) s oldrev d =
         la_revgen E (LA_CODEC_OBJECT [(k, LA_CODEC_INTEGER (i + 256))]) s oldrev d"
proof -
  have "(word_of_int (i + 256) :: byte) = word_of_int i" by simp
  then have "hash_integer (i + 256) = hash_integer i" using assms by (simp add: hash_integer_def)
  then show ?thesis by (simp add: la_revgen_def revgen_message_def)
qed

theorem negative_integers_collide_witness:
  "\<forall>E. la_revgen E (LA_CODEC_OBJECT [([97], LA_CODEC_INTEGER (- 1))]) 1 None False =
   la_revgen E (LA_CODEC_OBJECT [([97], LA_CODEC_INTEGER 255)]) 1 None False"
  using negative_integers_collide [of "- 1" _ "[97]" 1 None False] by simp


end
