(* ===== verification/LA_BDB.thy ===== *)
theory LA_BDB
  imports LA_Driver
begin

text \<open>
  The Berkeley DB driver (\<open>bdb-storage/ObjectStore-BDB.c\<close>). The library is an argument: the
  record \<open>bdb\<close> has one field for each of its calls the driver makes, over the library's world
  \<open>'w\<close>; \<open>bdb_env\<close> states what its documentation promises of them. Every handler keeps at most one
  transaction open. Records are the bytes of the packed header and its tail.
\<close>

section \<open>The library\<close>

datatype db_rc = DB_OK | DB_NOTFOUND | DB_LOCK_NOTGRANTED | DB_EEXIST | DB_ENOENT | DB_FAILED

record db_btree_stat =
  bt_nkeys :: nat
  bt_pagecnt :: nat
  bt_pagesize :: nat

datatype which_db = Main_db | Seq_db

record 'w bdb =
  env_create_op :: "'w \<Rightarrow> db_rc \<times> 'w"
  env_stat_op :: "byte list \<Rightarrow> 'w \<Rightarrow> db_rc \<times> bool \<times> 'w"
  env_mkdir_op :: "byte list \<Rightarrow> 'w \<Rightarrow> db_rc \<times> 'w"
  env_open_op :: "byte list \<Rightarrow> 'w \<Rightarrow> db_rc \<times> 'w"
  env_close_op :: "'w \<Rightarrow> 'w"
  db_create_op :: "which_db \<Rightarrow> 'w \<Rightarrow> db_rc \<times> 'w"
  db_open_op :: "which_db \<Rightarrow> byte list \<Rightarrow> open_flags \<Rightarrow> 'w \<Rightarrow> db_rc \<times> 'w"
  set_bt_compare_op :: "'w \<Rightarrow> db_rc \<times> 'w"
  db_associate_op :: "'w \<Rightarrow> 'w"
  seq_create_op :: "'w \<Rightarrow> db_rc \<times> 'w"
  seq_open_op :: "byte list \<Rightarrow> u64 \<Rightarrow> 'w \<Rightarrow> db_rc \<times> 'w"
  db_close_op :: "which_db \<Rightarrow> 'w \<Rightarrow> 'w"
  db_sync_op :: "which_db \<Rightarrow> 'w \<Rightarrow> 'w"
  seq_close_op :: "'w \<Rightarrow> 'w"
  txn_begin_op :: "'w \<Rightarrow> db_rc \<times> 'w"
  txn_abort_op :: "'w \<Rightarrow> 'w"
  txn_commit_op :: "'w \<Rightarrow> db_rc \<times> 'w"
  db_get_op :: "byte list \<Rightarrow> 'w \<Rightarrow> db_rc \<times> byte list \<times> 'w"
  db_put_op :: "byte list \<Rightarrow> byte list \<Rightarrow> 'w \<Rightarrow> db_rc \<times> 'w"
  seq_get_op :: "'w \<Rightarrow> db_rc \<times> u64 \<times> 'w"
  seq_stat_op :: "'w \<Rightarrow> db_rc \<times> u64 \<times> 'w"
  db_stat_op :: "which_db \<Rightarrow> 'w \<Rightarrow> db_rc \<times> db_btree_stat \<times> 'w"
  cursor_open_op :: "'w \<Rightarrow> db_rc \<times> nat \<times> 'w"
  cursor_set_op :: "nat \<Rightarrow> byte list \<Rightarrow> 'w \<Rightarrow> db_rc \<times> 'w"
  cursor_pget_op :: "nat \<Rightarrow> 'w \<Rightarrow> db_rc \<times> (byte list \<times> byte list \<times> byte list) \<times> 'w"
  cursor_close_op :: "nat \<Rightarrow> 'w \<Rightarrow> 'w"

section \<open>Index\<close>

definition LA_OBJECT_MAX_REVISION_COUNT :: nat where
  "LA_OBJECT_MAX_REVISION_COUNT = 1024"

text \<open>
  The secondary key of a record: nothing for the keys that start with a zero byte (the record of
  the sequence), otherwise the eight bytes of \<open>seq\<close>.
\<close>

definition seqindex :: "byte list \<Rightarrow> byte list \<Rightarrow> byte list option" where
  "seqindex k v = (if k = [] \<or> hd k = 0 then None else Some (take 8 v))"

definition compare_seq :: "byte list \<Rightarrow> byte list \<Rightarrow> int" where
  "compare_seq k1 k2 =
     (if length k1 > length k2 then 1
      else if length k1 < length k2 then -1
      else let s1 = of_le (take 8 k1); s2 = of_le (take 8 k2) in
        if s1 < s2 then -1 else if s1 > s2 then 1 else 0)"

definition keycpy :: "allocator \<Rightarrow> byte list \<Rightarrow> nat \<Rightarrow> byte list option" where
  "keycpy A k len =
     (if grant A (add_sz len 1) then Some (takeWhile (\<lambda>c. c \<noteq> 0) (take len k)) else None)"

section \<open>Environments and stores\<close>

definition sizeof_env :: nat where "sizeof_env = 8"
definition sizeof_store :: nat where "sizeof_store = 32"
definition sizeof_iterator :: nat where "sizeof_iterator = 16"

text \<open>\<open>ENOENT\<close> from \<open>stat\<close> makes the directory; an existing entry has to be a directory.\<close>

definition bdb_la_storage_open_env :: "allocator \<Rightarrow> 'w bdb \<Rightarrow> byte list \<Rightarrow> ('w, unit option) act" where
  "bdb_la_storage_open_env A B name w =
     (if \<not> grant A sizeof_env then Some (None, w) else
      case env_create_op B w of (rc, w1) \<Rightarrow>
      if rc \<noteq> DB_OK then Some (None, w1) else
      case env_stat_op B name w1 of (rc, isdir, w2) \<Rightarrow>
      case (if rc \<noteq> DB_OK
            then if rc = DB_ENOENT
                 then case env_mkdir_op B name w2 of (rc', w3) \<Rightarrow> (rc' = DB_OK, w3)
                 else (False, w2)
            else (isdir, w2)) of (usable, w3) \<Rightarrow>
      if \<not> usable then Some (None, w3) else
      case env_open_op B name w3 of (rc, w4) \<Rightarrow>
      Some (if rc \<noteq> DB_OK then None else Some (), w4))"

definition bdb_la_storage_close_env :: "'w bdb \<Rightarrow> unit \<Rightarrow> ('w, int) act" where
  "bdb_la_storage_close_env B env w = Some (0, env_close_op B w)"

definition seq_name :: "byte list" where
  "seq_name = [0, 0x53, 0x45, 0x51]"

definition dot_seq :: "byte list" where
  "dot_seq = [0x2e, 0x73, 0x65, 0x71]"

text \<open>The steps after the main database is open, inside the transaction.\<close>

definition bdb_open_seq :: "allocator \<Rightarrow> 'w bdb \<Rightarrow> byte list \<Rightarrow> ('w, bool) act" where
  "bdb_open_seq A B path w = do {
     seqpath \<leftarrow> string_append A path dot_seq;
     let (rc, w1) = set_bt_compare_op B w;
     if rc \<noteq> DB_OK then Some (False, txn_abort_op B (db_close_op B Main_db w1)) else do {
     seqstr \<leftarrow> cstr seqpath;
     let (rc, w2) = db_open_op B Seq_db seqstr \<lparr>flag_create = True, flag_excl = False\<rparr> w1;
     if rc \<noteq> DB_OK then Some (False, txn_abort_op B (db_close_op B Main_db w2)) else do {
     let (rc, w3) = seq_create_op B (db_associate_op B w2);
     if rc \<noteq> DB_OK
     then Some (False, txn_abort_op B (db_close_op B Main_db (db_close_op B Seq_db w3))) else do {
     let (rc, w4) = seq_open_op B seq_name 1 w3;
     if rc \<noteq> DB_OK
     then Some (False, txn_abort_op B (db_close_op B Main_db (db_close_op B Seq_db w4)))
     else Some (True, w4) }}}}"

definition bdb_la_storage_open ::
  "allocator \<Rightarrow> 'w bdb \<Rightarrow> unit option \<Rightarrow> byte list \<Rightarrow> open_flags \<Rightarrow>
   ('w, la_storage_open_result \<times> unit option) act" where
  "bdb_la_storage_open A B env path flags w =
     (if \<not> grant A sizeof_store then Some ((LA_STORAGE_OPEN_ERROR, None), w) else
      case env of None \<Rightarrow> None | Some _ \<Rightarrow>
      case txn_begin_op B w of (rc, w1) \<Rightarrow>
      if rc \<noteq> DB_OK then Some ((LA_STORAGE_OPEN_ERROR, None), w1) else
      case db_create_op B Main_db w1 of (rc, w2) \<Rightarrow>
      if rc \<noteq> DB_OK then Some ((LA_STORAGE_OPEN_ERROR, None), txn_abort_op B w2) else
      case db_create_op B Seq_db w2 of (rc, w3) \<Rightarrow>
      if rc \<noteq> DB_OK then Some ((LA_STORAGE_OPEN_ERROR, None), txn_abort_op B w3) else
      case db_open_op B Main_db path flags w3 of (ret, w4) \<Rightarrow>
      if ret \<noteq> DB_OK
      then Some ((if ret = DB_EEXIST then LA_STORAGE_OPEN_EXISTS
                  else if ret = DB_ENOENT then LA_STORAGE_OPEN_NOT_FOUND
                  else LA_STORAGE_OPEN_ERROR, None), txn_abort_op B w4)
      else do {
        (opened, w5) \<leftarrow> bdb_open_seq A B path w4;
        if \<not> opened then Some ((LA_STORAGE_OPEN_ERROR, None), w5)
        else let (_, w6) = txn_commit_op B w5 in
          Some ((if flag_create flags \<and> flag_excl flags then LA_STORAGE_OPEN_CREATED
                 else LA_STORAGE_OPEN_OK, Some ()), w6) })"

definition bdb_la_storage_close :: "'w bdb \<Rightarrow> unit \<Rightarrow> ('w, int) act" where
  "bdb_la_storage_close B store w =
     Some (0, db_close_op B Main_db (db_sync_op B Main_db
               (db_close_op B Seq_db (db_sync_op B Seq_db (seq_close_op B w)))))"

section \<open>Reading\<close>

text \<open>A partial read of a record into a zeroed header on the stack.\<close>

definition zeroed_header :: "byte list \<Rightarrow> la_storage_object_header option" where
  "zeroed_header v = decode_header (take 34 v @ replicate (34 - length v) 0)"

text \<open>
  The object made from a whole record; its length field is a 32-bit difference. A key that cannot be copied
  has no result: the code hands out an object without a key, which its callers read.
\<close>

definition object_of_record ::
  "allocator \<Rightarrow> byte list \<Rightarrow> byte list \<Rightarrow> la_storage_object option" where
  "object_of_record A k v = do {
     h \<leftarrow> decode_header v;
     if grant A sizeof_object \<and> grant A (add_sz (length k) 1)
     then Some \<lparr>key = k, header = h,
                data_length = nat ((int (length v) - 16 * int (unat (rev_count h)) - 34) mod 2 ^ 32)\<rparr>
     else None }"

definition bdb_la_storage_get ::
  "allocator \<Rightarrow> 'w bdb \<Rightarrow> unit \<Rightarrow> byte list \<Rightarrow> rev option \<Rightarrow> bool \<Rightarrow>
   ('w, la_storage_object_get_result \<times> la_storage_object option) act" where
  "bdb_la_storage_get A B store k rv want w =
     (case db_get_op B k w of (result, v, w1) \<Rightarrow>
      if result \<noteq> DB_OK
      then Some ((if result = DB_NOTFOUND then LA_STORAGE_OBJECT_GET_NOT_FOUND
                  else LA_STORAGE_OBJECT_GET_ERROR, None), w1)
      else do {
        h \<leftarrow> zeroed_header (if want then [] else v);
        if rv \<noteq> None \<and> the rv \<noteq> hrev h
        then Some ((LA_STORAGE_OBJECT_GET_NOT_FOUND, None), w1)
        else if want then do {
          obj \<leftarrow> object_of_record A k v;
          Some ((LA_STORAGE_OBJECT_GET_OK, Some obj), w1) }
        else Some ((LA_STORAGE_OBJECT_GET_OK, None), w1) })"

definition bdb_la_storage_get_rev ::
  "'w bdb \<Rightarrow> unit \<Rightarrow> byte list \<Rightarrow> ('w, la_storage_object_get_result \<times> rev option) act" where
  "bdb_la_storage_get_rev B store k w =
     (case db_get_op B k w of (result, v, w1) \<Rightarrow>
      if result \<noteq> DB_OK
      then Some ((if result = DB_NOTFOUND then LA_STORAGE_OBJECT_GET_NOT_FOUND
                  else LA_STORAGE_OBJECT_GET_ERROR, None), w1)
      else do { h \<leftarrow> zeroed_header v; Some ((LA_STORAGE_OBJECT_GET_OK, Some (hrev h)), w1) })"

definition bdb_la_storage_get_all_revs ::
  "allocator \<Rightarrow> 'w bdb \<Rightarrow> unit \<Rightarrow> byte list \<Rightarrow> ('w, int \<times> u64 option \<times> byte list option) act" where
  "bdb_la_storage_get_all_revs A B store k w =
     (case db_get_op B k w of (result, v, w1) \<Rightarrow>
      if result \<noteq> DB_OK then Some ((-1, None, None), w1)
      else do {
        h \<leftarrow> decode_header (take (sizeof_header + 16 * LA_OBJECT_MAX_REVISION_COUNT) v);
        let n = unat (rev_count h);
        revs \<leftarrow> (if grant A (16 * n) then map_option Some (mem_read (revs_data h) 0 (16 * n)) else Some None);
        Some ((int n, Some (doc_seq h), revs), w1) })"

section \<open>Writing\<close>

text \<open>\<open>realloc\<close> of the block that starts with the header.\<close>

definition realloc_header :: "allocator \<Rightarrow> la_storage_object_header \<Rightarrow> nat \<Rightarrow> la_storage_object_header option" where
  "realloc_header A h n =
     (case realloc A (encode_header h) n of None \<Rightarrow> None | Some blk \<Rightarrow> decode_header blk)"

text \<open>
  The steps on the object when a record with header \<open>st\<close> is there: the document sequence is
  counted on, a revision slot is opened (up to the maximum) and the old revision is put first.
\<close>

definition put_header_update ::
  "allocator \<Rightarrow> la_storage_object_header \<Rightarrow> la_storage_object \<Rightarrow> la_storage_object option" where
  "put_header_update A st obj = do {
     let h1 = (header obj)\<lparr>doc_seq := doc_seq st + 1\<rparr>;
     h2 \<leftarrow> (if unat (rev_count st) < LA_OBJECT_MAX_REVISION_COUNT
            then do {
              hr \<leftarrow> realloc_header A h1 (la_storage_object_total_size obj + 16);
              d \<leftarrow> mem_move (revs_data hr) (data_offset obj + 16) (data_offset obj) (data_length obj);
              Some (hr\<lparr>revs_data := d, rev_count := word_of_nat (unat (rev_count st) + 1)\<rparr>) }
            else Some h1);
     d1 \<leftarrow> mem_move (revs_data h2) 16 0 (nat ((16 * (int (unat (rev_count h2)) - 1)) mod 2 ^ 64));
     d2 \<leftarrow> mem_write d1 0 (hrev st);
     Some (obj\<lparr>header := h2\<lparr>revs_data := d2\<rparr>\<rparr>) }"

text \<open>
  The common end of \<open>put\<close> and \<open>replace\<close>: number the object and store \<open>size\<close> bytes of its block. The
  results of \<open>seq->get\<close> and of the commit are not looked at.
\<close>

definition put_record ::
  "'w bdb \<Rightarrow> la_storage_object \<Rightarrow> nat \<Rightarrow> ('w, la_storage_object_put_result \<times> la_storage_object) act" where
  "put_record B obj sz w =
     (case seq_get_op B w of (_, s, w1) \<Rightarrow>
      let obj1 = obj\<lparr>header := (header obj)\<lparr>seq := s\<rparr>\<rparr> in do {
        v \<leftarrow> mem_read (encode_header (header obj1)) 0 sz;
        let (result, w2) = db_put_op B (key obj) v w1;
        if result \<noteq> DB_OK then Some ((LA_STORAGE_OBJECT_PUT_ERROR, obj1), txn_abort_op B w2)
        else Some ((LA_STORAGE_OBJECT_PUT_SUCCESS, obj1), snd (txn_commit_op B w2)) })"

definition bdb_la_storage_put ::
  "allocator \<Rightarrow> 'w bdb \<Rightarrow> unit \<Rightarrow> rev option \<Rightarrow> la_storage_object \<Rightarrow>
   ('w, la_storage_object_put_result \<times> la_storage_object) act" where
  "bdb_la_storage_put A B store rv obj w =
     (case txn_begin_op B w of (rc, w1) \<Rightarrow>
      if rc \<noteq> DB_OK then Some ((LA_STORAGE_OBJECT_PUT_ERROR, obj), w1) else
      case db_get_op B (key obj) w1 of (result, v, w2) \<Rightarrow>
      if result \<noteq> DB_OK \<and> result \<noteq> DB_NOTFOUND
      then Some ((if result = DB_LOCK_NOTGRANTED then LA_STORAGE_OBJECT_PUT_CONFLICT
                  else LA_STORAGE_OBJECT_PUT_ERROR, obj), txn_abort_op B w2)
      else if result \<noteq> DB_NOTFOUND
      then do {
        st \<leftarrow> decode_header (take 34 v);
        if rv = None \<or> the rv \<noteq> hrev st
        then Some ((LA_STORAGE_OBJECT_PUT_CONFLICT, obj), txn_abort_op B w2)
        else do {
          obj1 \<leftarrow> put_header_update A st obj;
          put_record B obj1 (la_storage_object_total_size obj1 mod 2 ^ 32) w2 } }
      else
        let obj1 = obj\<lparr>header := (header obj)\<lparr>doc_seq := 1, rev_count := 0\<rparr>\<rparr> in
        put_record B obj1 (la_storage_object_total_size obj1 mod 2 ^ 32) w2)"

definition bdb_la_storage_replace ::
  "'w bdb \<Rightarrow> unit \<Rightarrow> la_storage_object \<Rightarrow>
   ('w, la_storage_object_put_result \<times> la_storage_object) act" where
  "bdb_la_storage_replace B store obj w =
     (case txn_begin_op B w of (rc, w1) \<Rightarrow>
      if rc \<noteq> DB_OK then Some ((LA_STORAGE_OBJECT_PUT_ERROR, obj), w1)
      else put_record B obj (la_storage_object_total_size obj mod 2 ^ 32) w1)"

text \<open>
  \<open>shift\<close> is the difference of the revision counts, used as a number of bytes. A refused
  \<open>realloc\<close> returns with the transaction still open.
\<close>

definition bdb_la_storage_set_revs ::
  "allocator \<Rightarrow> 'w bdb \<Rightarrow> unit \<Rightarrow> byte list \<Rightarrow> byte list \<Rightarrow> nat \<Rightarrow> ('w, la_storage_object_put_result) act" where
  "bdb_la_storage_set_revs A B store k revs n w =
     (let revcount = (if n < LA_OBJECT_MAX_REVISION_COUNT then n else LA_OBJECT_MAX_REVISION_COUNT) in
      case txn_begin_op B w of (rc, w1) \<Rightarrow>
      if rc \<noteq> DB_OK then Some (LA_STORAGE_OBJECT_PUT_ERROR, w1) else
      case db_get_op B k w1 of (result, v, w2) \<Rightarrow>
      if result \<noteq> DB_OK
      then Some (if result = DB_LOCK_NOTGRANTED then LA_STORAGE_OBJECT_PUT_CONFLICT
                 else LA_STORAGE_OBJECT_PUT_ERROR, txn_abort_op B w2)
      else do {
        h \<leftarrow> decode_header v;
        let rc0 = unat (rev_count h);
        let data_len = nat ((int (length v) - 34 - 16 * int rc0) mod 2 ^ 32);
        let shift = int revcount - int rc0;
        let size' = nat ((int (length v) + shift) mod 2 ^ 32);
        if shift > 0 \<and> \<not> grant A size'
        then Some (LA_STORAGE_OBJECT_PUT_ERROR, w2)
        else do {
          h1 \<leftarrow> (if shift > 0 then realloc_header A h size' else Some h);
          d \<leftarrow> mem_move (revs_data h1) (nat (int (16 * rc0) + shift)) (16 * rc0) data_len;
          rs \<leftarrow> mem_read revs 0 (16 * revcount);
          d1 \<leftarrow> mem_write d 0 rs;
          v1 \<leftarrow> mem_read (encode_header (h1\<lparr>revs_data := d1\<rparr>)) 0 size';
          let (result, w3) = db_put_op B k v1 w2;
          if result \<noteq> DB_OK then Some (LA_STORAGE_OBJECT_PUT_ERROR, txn_abort_op B w3)
          else Some (LA_STORAGE_OBJECT_PUT_SUCCESS, snd (txn_commit_op B w3)) } })"

section \<open>Statistics\<close>

definition bdb_la_storage_lastseq :: "'w bdb \<Rightarrow> unit \<Rightarrow> ('w, u64) act" where
  "bdb_la_storage_lastseq B store w =
     (case seq_stat_op B w of (rc, s, w1) \<Rightarrow> Some (if rc \<noteq> DB_OK then 0 else s, w1))"

definition no_stat :: la_storage_stat where
  "no_stat = \<lparr>numkeys = 0, stat_size = 0\<rparr>"

definition bdb_la_storage_stat :: "'w bdb \<Rightarrow> unit \<Rightarrow> ('w, int \<times> la_storage_stat) act" where
  "bdb_la_storage_stat B store w =
     (case txn_begin_op B w of (rc, w1) \<Rightarrow>
      if rc \<noteq> DB_OK then Some ((-1, no_stat), w1) else
      case db_stat_op B Main_db w1 of (rc, m, w2) \<Rightarrow>
      if rc \<noteq> DB_OK then Some ((-1, no_stat), txn_abort_op B w2) else
      case db_stat_op B Seq_db w2 of (rc, q, w3) \<Rightarrow>
      if rc \<noteq> DB_OK then Some ((-1, no_stat), txn_abort_op B w3) else
      Some ((0, \<lparr>numkeys = bt_nkeys m,
                 stat_size = (bt_pagecnt m * bt_pagesize m + bt_pagecnt q * bt_pagesize q) mod 2 ^ 64\<rparr>),
            snd (txn_commit_op B w3)))"

section \<open>Iteration\<close>

definition bdb_la_storage_iterator_open :: "allocator \<Rightarrow> 'w bdb \<Rightarrow> unit \<Rightarrow> u64 \<Rightarrow> ('w, nat option) act" where
  "bdb_la_storage_iterator_open A B store since w =
     (if \<not> grant A sizeof_iterator then Some (None, w) else
      case cursor_open_op B w of (rc, c, w1) \<Rightarrow>
      if rc \<noteq> DB_OK then Some (None, w1)
      else if since > 0
      then case cursor_set_op B c (le_bytes 8 (unat since)) w1 of (rc, w2) \<Rightarrow>
        if rc \<noteq> DB_OK then Some (None, cursor_close_op B c w2) else Some (Some c, w2)
      else Some (Some c, w1))"

definition bdb_la_storage_iterator_next ::
  "allocator \<Rightarrow> 'w bdb \<Rightarrow> nat \<Rightarrow>
   ('w, la_storage_object_iterator_result \<times> la_storage_object option \<times> nat) act" where
  "bdb_la_storage_iterator_next A B it w =
     (case cursor_pget_op B it w of (result, (sk, pk, v), w1) \<Rightarrow>
      if result \<noteq> DB_OK
      then Some ((if result = DB_NOTFOUND then LA_STORAGE_OBJECT_ITERATOR_END
                  else LA_STORAGE_OBJECT_ITERATOR_ERROR, None, it), w1)
      else if \<not> grant A sizeof_object then Some ((LA_STORAGE_OBJECT_ITERATOR_ERROR, None, it), w1)
      else do {
        k \<leftarrow> keycpy A pk (length pk);
        h \<leftarrow> decode_header v;
        Some ((LA_STORAGE_OBJECT_ITERATOR_GOT_NEXT,
               Some \<lparr>key = k, header = h,
                     data_length = nat ((int (length v) - 34 - 16 * int (unat (rev_count h))) mod 2 ^ 32)\<rparr>,
               it), w1) })"

definition bdb_la_storage_iterator_close :: "'w bdb \<Rightarrow> nat \<Rightarrow> ('w, unit) act" where
  "bdb_la_storage_iterator_close B it w = Some ((), cursor_close_op B it w)"

section \<open>The driver\<close>

definition bdb_driver :: "allocator \<Rightarrow> 'w bdb \<Rightarrow> (unit, unit, nat, 'w) driver" where
  "bdb_driver A B =
     \<lparr>drv_name = [0x42, 0x44, 0x42],
      drv_open_env = bdb_la_storage_open_env A B,
      drv_close_env = bdb_la_storage_close_env B,
      drv_open_store = bdb_la_storage_open A B,
      drv_close_store = bdb_la_storage_close B,
      drv_delete_store = None,
      drv_get = bdb_la_storage_get A B,
      drv_get_rev = bdb_la_storage_get_rev B,
      drv_get_all_revs = bdb_la_storage_get_all_revs A B,
      drv_set_revs = Some (bdb_la_storage_set_revs A B),
      drv_put = bdb_la_storage_put A B,
      drv_replace = bdb_la_storage_replace B,
      drv_lastseq = bdb_la_storage_lastseq B,
      drv_stat = Some (bdb_la_storage_stat B),
      drv_iterator_open = bdb_la_storage_iterator_open A B,
      drv_iterator_next = bdb_la_storage_iterator_next A B,
      drv_iterator_close = bdb_la_storage_iterator_close B\<rparr>"

definition bdb_driver_init ::
  "allocator \<Rightarrow> 'w bdb \<Rightarrow> install_env \<Rightarrow> (unit, unit, nat, 'w) registry \<Rightarrow> (int \<times> (unit, unit, nat, 'w) registry) option" where
  "bdb_driver_init A B I drivers = la_storage_install_driver A I [0x42, 0x44, 0x42] (bdb_driver A B) drivers"

section \<open>Records and documents\<close>

text \<open>What a record means.\<close>

definition doc_of_record :: "byte list \<Rightarrow> doc option" where
  "doc_of_record v =
     (case decode_header v of
        None \<Rightarrow> None
      | Some h \<Rightarrow> if 16 * unat (rev_count h) \<le> length (revs_data h)
                  then Some (doc_of_header h (drop (16 * unat (rev_count h)) (revs_data h))) else None)"

lemma encode_header_split: "encode_header h = encode_header (h\<lparr>revs_data := []\<rparr>) @ revs_data h"
  by (simp add: encode_header_def flag_bits_def)

lemma encode_fixed_length: "header_wf h \<Longrightarrow> length (encode_header (h\<lparr>revs_data := []\<rparr>)) = 34"
  by (simp add: encode_header_length header_wf_def)

lemma take_encode_header:
  assumes "header_wf h" "34 \<le> n"
  shows "take n (encode_header h) = encode_header (h\<lparr>revs_data := take (n - 34) (revs_data h)\<rparr>)"
proof -
  have "take n (encode_header h) = encode_header (h\<lparr>revs_data := []\<rparr>) @ take (n - 34) (revs_data h)"
    using assms by (subst encode_header_split) (simp add: encode_fixed_length)
  also have "\<dots> = encode_header (h\<lparr>revs_data := take (n - 34) (revs_data h)\<rparr>)"
    using encode_header_split [of "h\<lparr>revs_data := take (n - 34) (revs_data h)\<rparr>"] by simp
  finally show ?thesis .
qed

lemma realloc_header_spec:
  assumes "header_wf h" "34 \<le> n" "grant A n"
  shows "\<exists>t. realloc_header A h n = Some (h\<lparr>revs_data := t\<rparr>) \<and> n - 34 + slack A n = length t \<and>
             take (min (n - 34) (length (revs_data h))) t = take (n - 34) (revs_data h)"
proof -
  let ?N = "n + slack A n" and ?L = "length (encode_header h)"
  let ?j = "map (junk A) [?L..<?N]"
  let ?t = "take (?N - 34) (revs_data h) @ ?j"
  have L: "?L = 34 + length (revs_data h)" using assms(1) by (rule encode_header_length)
  have "realloc A (encode_header h) n = Some (take ?N (encode_header h) @ ?j)"
    using assms(3) by (simp add: realloc_def)
  also have "take ?N (encode_header h) @ ?j = encode_header (h\<lparr>revs_data := ?t\<rparr>)"
    using take_encode_header [OF assms(1), of ?N] assms(2)
      encode_header_split [of "h\<lparr>revs_data := ?t\<rparr>"]
      encode_header_split [of "h\<lparr>revs_data := take (?N - 34) (revs_data h)\<rparr>"] by simp
  finally have "realloc_header A h n = Some (h\<lparr>revs_data := ?t\<rparr>)"
    using decode_encode_header [of "h\<lparr>revs_data := ?t\<rparr>"] assms(1)
    by (simp add: realloc_header_def header_wf_def)
  moreover have "length ?t = n - 34 + slack A n" using L assms(2) by auto
  moreover have "take (min (n - 34) (length (revs_data h))) ?t = take (n - 34) (revs_data h)"
    using assms(2) by (auto simp: min_def)
  ultimately show ?thesis by auto
qed

text \<open>The update keeps the object's own history and data and puts the stored revision first.\<close>

lemma put_header_update_spec:
  assumes "object_wf obj" "rev_count (header obj) = rev_count st" "unat (rev_count st) < 1024"
    and "grant A (la_storage_object_total_size obj + 16)" "length (hrev st) = 16"
  shows "\<exists>t. put_header_update A st obj = Some (obj\<lparr>header := (header obj)\<lparr>doc_seq := doc_seq st + 1,
             rev_count := rev_count st + 1,
             revs_data := hrev st @ take (data_offset obj) (revs_data (header obj)) @ object_data obj @ t\<rparr>\<rparr>)"
proof -
  define c where "c = unat (rev_count st)"
  define dl where "dl = data_length obj"
  define R where "R = revs_data (header obj)"
  let ?h1 = "(header obj)\<lparr>doc_seq := doc_seq st + 1\<rparr>"
  have off: "data_offset obj = 16 * c" using assms(2) by (simp add: data_offset_def c_def)
  have wf: "header_wf ?h1" "16 * c + dl \<le> length R"
    using assms(1) off by (simp_all add: object_wf_def header_wf_def R_def dl_def)
  have tot: "la_storage_object_total_size obj + 16 = 34 + (16 * c + dl + 16)"
    using off by (simp add: la_storage_object_total_size_def data_offset_def dl_def)
  obtain t where t: "realloc_header A ?h1 (34 + (16 * c + dl + 16)) = Some (?h1\<lparr>revs_data := t\<rparr>)"
      "16 * c + dl + 16 \<le> length t"
      "take (min (16 * c + dl + 16) (length R)) t = take (16 * c + dl + 16) R"
  proof -
    have g: "grant A (34 + (16 * c + dl + 16))" using assms(4) unfolding tot .
    have n34: "34 + (16 * c + dl + 16) - 34 = 16 * c + dl + 16" by simp
    obtain t where "realloc_header A ?h1 (34 + (16 * c + dl + 16)) = Some (?h1\<lparr>revs_data := t\<rparr>)"
      "16 * c + dl + 16 + slack A (34 + (16 * c + dl + 16)) = length t"
      "take (min (16 * c + dl + 16) (length (revs_data ?h1))) t = take (16 * c + dl + 16) (revs_data ?h1)"
      using realloc_header_spec [OF wf(1) _ g] unfolding n34 by fastforce
    then show ?thesis using that [of t] by (simp add: R_def)
  qed
  have pre: "take (16 * c + dl) t = take (16 * c + dl) R"
  proof -
    have "take (16 * c + dl) (take (min (16 * c + dl + 16) (length R)) t) = take (16 * c + dl) (take (16 * c + dl + 16) R)"
      by (simp only: t(3))
    then show ?thesis using wf(2) by (simp add: min_def split: if_splits)
  qed
  have t1: "take (16 * c) t = take (16 * c) R" using pre by (rule take_take_le [rotated]) simp
  have t2: "take dl (drop (16 * c) t) = take dl (drop (16 * c) R)"
    using arg_cong [OF pre, of "drop (16 * c)"] by (simp add: drop_take)
  define d where "d = take (16 * c + 16) t @ take dl (drop (16 * c) t) @ drop (16 * c + 16 + dl) t"
  have m1: "mem_move t (16 * c + 16) (16 * c) dl = Some d"
    using t(2) by (simp add: mem_move_inside d_def)
  have cnt: "word_of_nat (c + 1) = rev_count st + 1" "unat (rev_count st + 1) = c + 1"
    using assms(3) by (simp_all add: c_def unat_word_ariths)
  have ui: "uint (1 + rev_count st) = int c + 1"
  proof -
    have "uint (1 + rev_count st) = int (unat (rev_count st + 1))" by (simp add: add.commute)
    then show ?thesis unfolding cnt(2) by simp
  qed
  have ld: "length d = length t" using t(2) by (simp add: d_def)
  have m2: "mem_move d 16 0 (16 * c) = Some (take 16 d @ take (16 * c) d @ drop (16 + 16 * c) d)"
    using t(2) ld by (simp add: mem_move_inside)
  have w: "mem_write (take 16 d @ take (16 * c) d @ drop (16 + 16 * c) d) 0 (hrev st) =
      Some (hrev st @ take (16 * c) d @ drop (16 + 16 * c) d)"
    using t(2) ld assms(5) by (simp add: mem_write_def)
  have d1: "take (16 * c) d = take (16 * c) R" using t(2) t1 by (simp add: d_def)
  have d2: "drop (16 + 16 * c) d = object_data obj @ drop (16 * c + 16 + dl) t"
    using t(2) t2 by (simp add: d_def object_data_def off dl_def R_def)
  have "c < 1024" using assms(3) by (simp only: c_def)
  then have n: "nat ((16 * (int (c + 1) - 1)) mod 2 ^ 64) = 16 * c" by simp
  have "put_header_update A st obj =
      Some (obj\<lparr>header := ?h1\<lparr>rev_count := rev_count st + 1, revs_data := hrev st @ take (16 * c) d @ drop (16 + 16 * c) d\<rparr>\<rparr>)"
    unfolding put_header_update_def Let_def tot t(1) off
    using assms(3) m1 m2 w n cnt ui
    by (simp add: LA_OBJECT_MAX_REVISION_COUNT_def add.commute [of "rev_count st"] flip: c_def dl_def)
  then show ?thesis unfolding d1 d2 off R_def by auto
qed

lemma doc_of_stored:
  assumes "header_wf h" "16 * unat (rev_count h) + dl \<le> length (revs_data h)"
  shows "doc_of_record (take (34 + 16 * unat (rev_count h) + dl) (encode_header h)) =
         Some (doc_of_header h (take dl (drop (16 * unat (rev_count h)) (revs_data h))))"
proof -
  let ?n = "16 * unat (rev_count h)"
  let ?h = "h\<lparr>revs_data := take (?n + dl) (revs_data h)\<rparr>"
  have "take (34 + ?n + dl) (encode_header h) = encode_header ?h"
    using take_encode_header [OF assms(1), of "34 + ?n + dl"] by simp
  moreover have "decode_header (encode_header ?h) = Some ?h"
    using assms(1) by (intro decode_encode_header) (simp add: header_wf_def)
  ultimately show ?thesis using assms(2)
    by (simp add: doc_of_record_def doc_of_header_def drop_take)
qed

lemma decode_header_prefix:
  assumes "decode_header v = Some st"
  shows "decode_header (take 34 v) = Some (st\<lparr>revs_data := []\<rparr>)"
proof -
  have e: "encode_header st = v" "header_wf st" using encode_decode_header [OF assms] by simp_all
  have "take 34 v = encode_header (st\<lparr>revs_data := []\<rparr>)"
    using take_encode_header [OF e(2), of 34] e(1) by simp
  then show ?thesis using decode_encode_header [of "st\<lparr>revs_data := []\<rparr>"] e(2)
    by (simp add: header_wf_def)
qed

text \<open>The abstract store: what a put promises, on documents.\<close>

definition spec_put ::
  "nat \<Rightarrow> rev option \<Rightarrow> byte list \<Rightarrow> doc \<Rightarrow> (byte list \<Rightarrow> doc option) \<Rightarrow>
   la_storage_object_put_result \<times> (byte list \<Rightarrow> doc option)" where
  "spec_put n rv k d S =
     (case S k of
        None \<Rightarrow> (LA_STORAGE_OBJECT_PUT_SUCCESS,
                 S(k \<mapsto> d\<lparr>d_seq := word_of_nat n, d_doc_seq := 1, d_history := []\<rparr>))
      | Some old \<Rightarrow>
          if rv = Some (d_rev old)
          then (LA_STORAGE_OBJECT_PUT_SUCCESS,
                S(k \<mapsto> d\<lparr>d_seq := word_of_nat n, d_doc_seq := d_doc_seq old + 1,
                        d_history := d_rev old @ d_history d\<rparr>))
          else (LA_STORAGE_OBJECT_PUT_CONFLICT, S))"

text \<open>
  The object carries as many historical revisions as the stored record, which is what makes
  \<open>put\<close> keep its accounts: none for a new key, and less than the maximum.
\<close>

definition in_step :: "(byte list \<Rightarrow> byte list option) \<Rightarrow> la_storage_object \<Rightarrow> bool" where
  "in_step recs obj =
     (case recs (key obj) of
        None \<Rightarrow> rev_count (header obj) = 0
      | Some v \<Rightarrow> (case decode_header v of
                    None \<Rightarrow> False
                  | Some st \<Rightarrow> rev_count (header obj) = rev_count st \<and> unat (rev_count st) < 1024 \<and>
                               16 * unat (rev_count st) \<le> length (revs_data st)))"

definition abs_store :: "(byte list \<Rightarrow> byte list option) \<Rightarrow> byte list \<Rightarrow> doc option" where
  "abs_store recs k = Option.bind (recs k) doc_of_record"

lemma abs_store_upd: "doc_of_record v = Some d \<Longrightarrow> abs_store (recs(k \<mapsto> v)) = (abs_store recs)(k \<mapsto> d)"
  by (auto simp: abs_store_def)

text \<open>
  An object that carries fewer historical revisions than the stored record: the block is grown by
  one revision, but the count stored in it is the record's, so more bytes are announced than the
  block has.
\<close>

lemma put_header_update_short:
  assumes "object_wf obj" "unat (rev_count (header obj)) < unat (rev_count st)" "unat (rev_count st) < 1024"
    and "slack A (la_storage_object_total_size obj + 16) = 0"
    and "put_header_update A st obj = Some o1"
  shows "length (encode_header (header o1)) < la_storage_object_total_size o1 \<and> data_length o1 = data_length obj \<and>
         unat (rev_count (header o1)) = unat (rev_count st) + 1 \<and> header_wf (header o1)"
proof -
  let ?h1 = "(header obj)\<lparr>doc_seq := doc_seq st + 1\<rparr>" and ?n = "la_storage_object_total_size obj + 16"
  have wf: "header_wf ?h1" using assms(1) by (simp add: object_wf_def header_wf_def)
  have cnt: "unat (word_of_nat (unat (rev_count st) + 1) :: 15 word) = unat (rev_count st) + 1"
    using assms(3) by (simp only: unat_of_nat take_bit_nat_eq_self) (simp add: take_bit_nat_eq_self)
  obtain hr d d1 d2 where s: "realloc_header A ?h1 ?n = Some hr"
    "mem_move (revs_data hr) (data_offset obj + 16) (data_offset obj) (data_length obj) = Some d"
    "\<exists>m. mem_move d 16 0 m = Some d1" "mem_write d1 0 (hrev st) = Some d2"
    "o1 = obj\<lparr>header := hr\<lparr>rev_count := word_of_nat (unat (rev_count st) + 1), revs_data := d2\<rparr>\<rparr>"
    using assms(3,5) by (fastforce simp: put_header_update_def Let_def bind_eq_Some_conv LA_OBJECT_MAX_REVISION_COUNT_def)
  have g: "grant A ?n"
    using s(1) by (auto simp: realloc_header_def realloc_def split: option.splits if_splits)
  obtain t where t: "hr = ?h1\<lparr>revs_data := t\<rparr>" "length t = ?n - 34"
    using realloc_header_spec [OF wf _ g] s(1) assms(4) by (auto simp: la_storage_object_total_size_def)
  have "length d2 = length t"
    using s(2-4) t(1) by (auto dest!: mem_move_length mem_write_length)
  then have len: "length (encode_header (header o1)) = ?n"
    using s(5) t wf by (simp add: encode_header_length header_wf_def la_storage_object_total_size_def)
  show ?thesis using assms(2) len s(5) t(1) cnt wf
    by (simp add: la_storage_object_total_size_def header_wf_def)
qed

section \<open>What the library promises\<close>

text \<open>
  \<open>recs\<close> are the records a reader sees (the sequence's own record apart), \<open>saved\<close> those at the
  beginning of the open transaction, \<open>txn\<close> tells whether one is open, \<open>nextseq\<close> is the next number
  of the sequence. A transaction that is aborted, or whose commit fails, leaves no trace.
\<close>

locale bdb_env =
  fixes B :: "'w bdb"
    and recs :: "'w \<Rightarrow> byte list \<Rightarrow> byte list option"
    and saved :: "'w \<Rightarrow> byte list \<Rightarrow> byte list option"
    and txn :: "'w \<Rightarrow> bool"
    and nextseq :: "'w \<Rightarrow> nat"
    and savedseq :: "'w \<Rightarrow> nat"
  assumes txn_begin: "txn_begin_op B w = (rc, w') \<Longrightarrow> \<not> txn w \<Longrightarrow>
      recs w' = recs w \<and> nextseq w' = nextseq w \<and> txn w' = (rc = DB_OK) \<and>
      (rc = DB_OK \<longrightarrow> saved w' = recs w \<and> savedseq w' = nextseq w)"
    and txn_abort: "txn w \<Longrightarrow> \<not> txn (txn_abort_op B w) \<and> recs (txn_abort_op B w) = saved w \<and>
      nextseq (txn_abort_op B w) = savedseq w"
    and txn_commit: "txn_commit_op B w = (rc, w') \<Longrightarrow> txn w \<Longrightarrow> \<not> txn w' \<and>
      (if rc = DB_OK then recs w' = recs w \<and> nextseq w' = nextseq w
       else recs w' = saved w \<and> nextseq w' = savedseq w)"
    and db_get: "db_get_op B k w = (rc, v, w') \<Longrightarrow>
      recs w' = recs w \<and> saved w' = saved w \<and> txn w' = txn w \<and> nextseq w' = nextseq w \<and>
      savedseq w' = savedseq w \<and> (rc = DB_OK \<longrightarrow> recs w k = Some v) \<and> (rc = DB_NOTFOUND \<longrightarrow> recs w k = None)"
    and db_put: "db_put_op B k v w = (rc, w') \<Longrightarrow> txn w \<Longrightarrow>
      txn w' \<and> saved w' = saved w \<and> nextseq w' = nextseq w \<and> savedseq w' = savedseq w \<and>
      (rc = DB_OK \<longrightarrow> recs w' = (recs w)(k \<mapsto> v))"
    and seq_get: "seq_get_op B w = (rc, s, w') \<Longrightarrow>
      recs w' = recs w \<and> saved w' = saved w \<and> txn w' = txn w \<and> savedseq w' = savedseq w \<and>
      (rc = DB_OK \<longrightarrow> s = word_of_nat (nextseq w) \<and> nextseq w' = nextseq w + 1)"
begin

text \<open>Storing the object ends the transaction; what a reader sees afterwards depends on the commit.\<close>

lemma put_record_effect:
  assumes "put_record B obj sz w = Some ((r, obj'), w')" "txn w"
  shows "\<not> txn w' \<and> r \<noteq> LA_STORAGE_OBJECT_PUT_CONFLICT \<and> (\<exists>s. obj' = obj\<lparr>header := (header obj)\<lparr>seq := s\<rparr>\<rparr>) \<and>
    (recs w' = saved w \<or>
     (r = LA_STORAGE_OBJECT_PUT_SUCCESS \<and> sz \<le> length (encode_header (header obj')) \<and>
      recs w' = (recs w)(key obj \<mapsto> take sz (encode_header (header obj')))))"
proof -
  obtain rc s w1 where sg: "seq_get_op B w = (rc, s, w1)" by (metis prod_cases3)
  note g = seq_get [OF sg]
  let ?o = "obj\<lparr>header := (header obj)\<lparr>seq := s\<rparr>\<rparr>"
  obtain v where v: "mem_read (encode_header (header ?o)) 0 sz = Some v"
    using assms(1) sg by (auto simp: put_record_def Let_def bind_eq_Some_conv)
  obtain rc2 w2 where dp: "db_put_op B (key obj) v w1 = (rc2, w2)" by fastforce
  have "txn w1" using g assms(2) by simp
  note p = db_put [OF dp this]
  have vv: "v = take sz (encode_header (header ?o))" "sz \<le> length (encode_header (header ?o))"
    using v by (auto simp: mem_read_def split: if_splits)
  have res: "put_record B obj sz w =
      (if rc2 \<noteq> DB_OK then Some ((LA_STORAGE_OBJECT_PUT_ERROR, ?o), txn_abort_op B w2)
       else Some ((LA_STORAGE_OBJECT_PUT_SUCCESS, ?o), snd (txn_commit_op B w2)))"
    using sg v dp by (simp add: put_record_def Let_def)
  show ?thesis
  proof (cases "rc2 = DB_OK")
    case False
    then have "r = LA_STORAGE_OBJECT_PUT_ERROR" "obj' = ?o" "w' = txn_abort_op B w2"
      using assms(1) res by auto
    then show ?thesis using txn_abort [of w2] p g by auto
  next
    case True
    obtain rc3 w3 where tc: "txn_commit_op B w2 = (rc3, w3)" by fastforce
    have "r = LA_STORAGE_OBJECT_PUT_SUCCESS" "obj' = ?o" "w' = w3" using assms(1) res True tc by auto
    then show ?thesis using txn_commit [OF tc] p g True vv by (cases "rc3 = DB_OK") auto
  qed
qed

text \<open>
  Whatever the library answers, a \<open>put\<close> that has a result leaves no transaction open, and either
  changes nothing or succeeds and changes the record under the object's key only.
\<close>

lemma put_atomic:
  assumes "bdb_la_storage_put A B u rv obj w = Some ((r, obj'), w')" "\<not> txn w"
  shows "\<not> txn w' \<and> (recs w' = recs w \<or>
     r = LA_STORAGE_OBJECT_PUT_SUCCESS \<and> (\<exists>v. recs w' = (recs w)(key obj \<mapsto> v)))"
proof -
  obtain rc w1 where tb: "txn_begin_op B w = (rc, w1)" by fastforce
  note b = txn_begin [OF tb assms(2)]
  show ?thesis
  proof (cases "rc = DB_OK")
    case False
    then show ?thesis using assms(1) tb b by (simp add: bdb_la_storage_put_def)
  next
    case True
    obtain result v w2 where dg: "db_get_op B (key obj) w1 = (result, v, w2)" by (metis prod_cases3)
    note g = db_get [OF dg]
    have t: "txn w2" "recs w2 = recs w" "saved w2 = recs w" using b g True by simp_all
    have ab: "\<not> txn (txn_abort_op B w2) \<and> recs (txn_abort_op B w2) = recs w"
      using txn_abort [OF t(1)] t by simp
    have rec: "\<not> txn w' \<and> (recs w' = recs w \<or> r = LA_STORAGE_OBJECT_PUT_SUCCESS \<and> (\<exists>v. recs w' = (recs w)(key obj \<mapsto> v)))"
      if "put_record B o1 sz w2 = Some ((r, obj'), w')" "key o1 = key obj" for o1 sz
      using put_record_effect [OF that(1) t(1)] t that(2) by auto
    have upd: "key o1 = key obj" if "put_header_update A st obj = Some o1" for st o1
      using that by (auto simp: put_header_update_def Let_def bind_eq_Some_conv)
    consider "result \<noteq> DB_OK" "result \<noteq> DB_NOTFOUND" | "result = DB_NOTFOUND" | "result = DB_OK" by blast
    then show ?thesis
    proof cases
      case 1
      then show ?thesis using assms(1) tb True dg ab by (auto simp: bdb_la_storage_put_def)
    next
      case 2
      then show ?thesis using assms(1) tb True dg rec by (auto simp: bdb_la_storage_put_def Let_def)
    next
      case 3
      then show ?thesis using assms(1) tb True dg ab upd rec
        by (auto simp: bdb_la_storage_put_def Let_def bind_eq_Some_conv split: if_splits)
    qed
  qed
qed

end

section \<open>A library without failures\<close>

text \<open>No call fails: a lookup answers found or not found.\<close>

locale bdb_reliable = bdb_env +
  assumes begin_ok: "fst (txn_begin_op B w) = DB_OK"
    and commit_ok: "fst (txn_commit_op B w) = DB_OK"
    and get_ok: "fst (db_get_op B k w) = DB_OK \<or> fst (db_get_op B k w) = DB_NOTFOUND"
    and put_ok: "fst (db_put_op B k v w) = DB_OK"
    and seq_ok: "fst (seq_get_op B w) = DB_OK"
begin

lemma get_present:
  assumes "recs w k = Some v"
  obtains w' where "db_get_op B k w = (DB_OK, v, w')" "recs w' = recs w" "saved w' = saved w" "txn w' = txn w"
    "nextseq w' = nextseq w" "savedseq w' = savedseq w"
proof -
  obtain rc x w' where g: "db_get_op B k w = (rc, x, w')" by (metis prod_cases3)
  have "rc = DB_OK" using db_get [OF g] get_ok [of k w] g assms by auto
  with db_get [OF g] g assms that show ?thesis by auto
qed

lemma get_absent:
  assumes "recs w k = None"
  obtains x w' where "db_get_op B k w = (DB_NOTFOUND, x, w')" "recs w' = recs w" "saved w' = saved w" "txn w' = txn w"
    "nextseq w' = nextseq w" "savedseq w' = savedseq w"
proof -
  obtain rc x w' where g: "db_get_op B k w = (rc, x, w')" by (metis prod_cases3)
  have "rc = DB_NOTFOUND" using db_get [OF g] get_ok [of k w] g assms by auto
  with db_get [OF g] g assms that show ?thesis by auto
qed

lemma begin_step:
  assumes "\<not> txn w"
  obtains w' where "txn_begin_op B w = (DB_OK, w')" "txn w'" "recs w' = recs w" "saved w' = recs w"
    "nextseq w' = nextseq w" "savedseq w' = nextseq w"
proof -
  obtain rc w' where b: "txn_begin_op B w = (rc, w')" by fastforce
  have "rc = DB_OK" using begin_ok [of w] b by simp
  with txn_begin [OF b assms] b that show ?thesis by simp
qed

lemma put_record_stores:
  assumes "txn w" "sz \<le> length (encode_header (header obj))" "header_wf (header obj)"
  shows "\<exists>w'. put_record B obj sz w =
      Some ((LA_STORAGE_OBJECT_PUT_SUCCESS, obj\<lparr>header := (header obj)\<lparr>seq := word_of_nat (nextseq w)\<rparr>\<rparr>), w') \<and>
    \<not> txn w' \<and> nextseq w' = nextseq w + 1 \<and>
    recs w' = (recs w)(key obj \<mapsto> take sz (encode_header ((header obj)\<lparr>seq := word_of_nat (nextseq w)\<rparr>)))"
proof -
  obtain rc s w1 where sg: "seq_get_op B w = (rc, s, w1)" by (metis prod_cases3)
  have "rc = DB_OK" using seq_ok [of w] sg by simp
  then have g: "txn w1" "recs w1 = recs w" "s = word_of_nat (nextseq w)" "nextseq w1 = nextseq w + 1"
    using seq_get [OF sg] assms(1) by simp_all
  let ?h = "(header obj)\<lparr>seq := s\<rparr>"
  have len: "length (encode_header ?h) = length (encode_header (header obj))"
    using assms(3) by (simp add: encode_header_length header_wf_def)
  let ?v = "take sz (encode_header ?h)"
  have v: "mem_read (encode_header ?h) 0 sz = Some ?v" using assms(2) len by (simp add: mem_read_def)
  obtain w2 where dp: "db_put_op B (key obj) ?v w1 = (DB_OK, w2)"
    using put_ok [of "key obj" ?v w1] by (metis prod.collapse)
  note p = db_put [OF dp g(1)]
  obtain w3 where tc: "txn_commit_op B w2 = (DB_OK, w3)" using commit_ok [of w2] by (metis prod.collapse)
  note c = txn_commit [OF tc]
  show ?thesis using sg v dp tc p c g by (simp add: put_record_def Let_def)
qed

text \<open>A new key: the object is stored with document sequence 1 and no history.\<close>

lemma put_creates:
  assumes "\<not> txn w" "object_wf obj" "recs w (key obj) = None" "rev_count (header obj) = 0"
    and "la_storage_object_total_size obj < 2 ^ 32"
  shows "\<exists>obj' w' v. bdb_la_storage_put A B u rv obj w = Some ((LA_STORAGE_OBJECT_PUT_SUCCESS, obj'), w') \<and>
    \<not> txn w' \<and> nextseq w' = nextseq w + 1 \<and> recs w' = (recs w)(key obj \<mapsto> v) \<and>
    length v < 2 ^ 32 \<and> doc_seq (header obj') = 1 \<and>
    doc_of_record v = Some ((doc_of_object obj)\<lparr>d_seq := word_of_nat (nextseq w), d_doc_seq := 1, d_history := []\<rparr>)"
proof -
  obtain w1 where b: "txn_begin_op B w = (DB_OK, w1)" "txn w1" "recs w1 = recs w" "nextseq w1 = nextseq w"
    using begin_step [OF assms(1)] by metis
  obtain x w2 where g: "db_get_op B (key obj) w1 = (DB_NOTFOUND, x, w2)" "txn w2" "recs w2 = recs w"
    "nextseq w2 = nextseq w" using get_absent [of w1 "key obj"] assms(3) b by metis
  define o1 where "o1 = obj\<lparr>header := (header obj)\<lparr>doc_seq := 1, rev_count := 0\<rparr>\<rparr>"
  have off: "data_offset obj = 0" using assms(4) by (simp add: data_offset_def)
  have hwf: "header_wf (header obj)" "data_length obj \<le> length (revs_data (header obj))"
    using assms(2) off by (simp_all add: object_wf_def)
  have tot: "la_storage_object_total_size o1 mod 2 ^ 32 = 34 + data_length obj"
    using assms(4,5) by (simp add: la_storage_object_total_size_def o1_def)
  have w1f: "header_wf (header o1)" using hwf by (simp add: header_wf_def o1_def)
  define h' where "h' = (header o1)\<lparr>seq := word_of_nat (nextseq w)\<rparr>"
  let ?v = "take (34 + data_length obj) (encode_header h')"
  have "34 + data_length obj \<le> length (encode_header (header o1))"
    using hwf w1f by (simp add: encode_header_length o1_def)
  from put_record_stores [OF g(2) this w1f] obtain w' where p:
    "put_record B o1 (34 + data_length obj) w2 = Some ((LA_STORAGE_OBJECT_PUT_SUCCESS, o1\<lparr>header := h'\<rparr>), w')"
    "\<not> txn w'" "nextseq w' = nextseq w + 1" "recs w' = (recs w)(key obj \<mapsto> ?v)"
    using g by (auto simp: h'_def o1_def)
  have "doc_of_record ?v = Some (doc_of_header h' (take (data_length obj) (revs_data (header obj))))"
    using doc_of_stored [of h' "data_length obj"] w1f hwf by (simp add: h'_def o1_def header_wf_def)
  also have "doc_of_header h' (take (data_length obj) (revs_data (header obj))) =
      (doc_of_object obj)\<lparr>d_seq := word_of_nat (nextseq w), d_doc_seq := 1, d_history := []\<rparr>"
    using off by (simp add: doc_of_object_def doc_of_header_def h'_def o1_def object_data_def)
  finally have dv: "doc_of_record ?v =
      Some ((doc_of_object obj)\<lparr>d_seq := word_of_nat (nextseq w), d_doc_seq := 1, d_history := []\<rparr>)" .
  have "bdb_la_storage_put A B u rv obj w = Some ((LA_STORAGE_OBJECT_PUT_SUCCESS, o1\<lparr>header := h'\<rparr>), w')"
    unfolding bdb_la_storage_put_def using b g p(1) tot by (simp add: Let_def flip: o1_def)
  moreover have "length ?v < 2 ^ 32" using assms(4,5) by (simp add: la_storage_object_total_size_def)
  moreover have "doc_seq (header (o1\<lparr>header := h'\<rparr>)) = 1" by (simp add: h'_def o1_def)
  ultimately show ?thesis using p dv by blast
qed

text \<open>A key that is there, and another revision than the caller names: nothing changes.\<close>

lemma put_conflicts:
  assumes "\<not> txn w" "recs w (key obj) = Some v" "decode_header v = Some st" "rv \<noteq> Some (hrev st)"
  shows "\<exists>w'. bdb_la_storage_put A B u rv obj w = Some ((LA_STORAGE_OBJECT_PUT_CONFLICT, obj), w') \<and>
    \<not> txn w' \<and> recs w' = recs w \<and> nextseq w' = nextseq w"
proof -
  obtain w1 where b: "txn_begin_op B w = (DB_OK, w1)" "txn w1" "recs w1 = recs w" "saved w1 = recs w"
    "savedseq w1 = nextseq w" using begin_step [OF assms(1)] by metis
  obtain w2 where g: "db_get_op B (key obj) w1 = (DB_OK, v, w2)" "txn w2" "saved w2 = recs w" "savedseq w2 = nextseq w"
    using get_present [of w1 "key obj" v] assms(2) b by metis
  have "decode_header (take 34 v) = Some (st\<lparr>revs_data := []\<rparr>)" using assms(3) by (rule decode_header_prefix)
  then have "bdb_la_storage_put A B u rv obj w = Some ((LA_STORAGE_OBJECT_PUT_CONFLICT, obj), txn_abort_op B w2)"
    using b g assms(4) by (auto simp: bdb_la_storage_put_def)
  then show ?thesis using txn_abort [OF g(2)] g by simp
qed

text \<open>
  A key that is there with the revision the caller names, and an object in step with it: the old
  revision is put in front of the object's history.
\<close>

lemma put_updates:
  assumes "\<not> txn w" "object_wf obj" "recs w (key obj) = Some v" "decode_header v = Some st"
    and "rev_count (header obj) = rev_count st" "unat (rev_count st) < 1024" "rv = Some (hrev st)"
    and "la_storage_object_total_size obj + 16 < 2 ^ 32" "grant A (la_storage_object_total_size obj + 16)"
  shows "\<exists>obj' w' v'. bdb_la_storage_put A B u rv obj w = Some ((LA_STORAGE_OBJECT_PUT_SUCCESS, obj'), w') \<and>
    \<not> txn w' \<and> nextseq w' = nextseq w + 1 \<and> recs w' = (recs w)(key obj \<mapsto> v') \<and>
    length v' < 2 ^ 32 \<and> doc_seq (header obj') = doc_seq st + 1 \<and>
    doc_of_record v' = Some ((doc_of_object obj)\<lparr>d_seq := word_of_nat (nextseq w), d_doc_seq := doc_seq st + 1,
      d_history := hrev st @ d_history (doc_of_object obj)\<rparr>)"
proof -
  obtain w1 where b: "txn_begin_op B w = (DB_OK, w1)" "txn w1" "recs w1 = recs w" "nextseq w1 = nextseq w"
    using begin_step [OF assms(1)] by metis
  obtain w2 where g: "db_get_op B (key obj) w1 = (DB_OK, v, w2)" "txn w2" "recs w2 = recs w" "nextseq w2 = nextseq w"
    using get_present [of w1 "key obj" v] assms(3) b by metis
  have st34: "decode_header (take 34 v) = Some (st\<lparr>revs_data := []\<rparr>)" using assms(4) by (rule decode_header_prefix)
  have stwf: "length (hrev st) = 16" using encode_decode_header [OF assms(4)] by (simp add: header_wf_def)
  define c where "c = unat (rev_count st)"
  define pre where "pre = hrev st @ take (data_offset obj) (revs_data (header obj))"
  have off: "data_offset obj = 16 * c" using assms(5) by (simp add: data_offset_def c_def)
  have hwf: "header_wf (header obj)" "16 * c + data_length obj \<le> length (revs_data (header obj))"
    using assms(2) off by (simp_all add: object_wf_def)
  have ldat: "length (object_data obj) = data_length obj" and lp: "length pre = 16 * (c + 1)"
    using hwf(2) off stwf by (simp_all add: object_data_def pre_def)
  obtain t where t: "put_header_update A (st\<lparr>revs_data := []\<rparr>) obj = Some (obj\<lparr>header := (header obj)\<lparr>
      doc_seq := doc_seq st + 1, rev_count := rev_count st + 1, revs_data := pre @ object_data obj @ t\<rparr>\<rparr>)"
    using put_header_update_spec [of obj "st\<lparr>revs_data := []\<rparr>" A] assms stwf by (auto simp: pre_def)
  define o1 where "o1 = obj\<lparr>header := (header obj)\<lparr>doc_seq := doc_seq st + 1, rev_count := rev_count st + 1,
      revs_data := pre @ object_data obj @ t\<rparr>\<rparr>"
  define h' where "h' = (header o1)\<lparr>seq := word_of_nat (nextseq w)\<rparr>"
  have c1: "unat (rev_count st + 1) = c + 1" using assms(6) by (simp add: c_def unat_word_ariths)
  define sz where "sz = 34 + 16 * (c + 1) + data_length obj"
  have "la_storage_object_total_size o1 = sz" "sz = la_storage_object_total_size obj + 16"
    using assms(5) by (simp_all add: la_storage_object_total_size_def o1_def c1 sz_def c_def)
  then have szm: "la_storage_object_total_size o1 mod 2 ^ 32 = sz" and szl: "sz < 2 ^ 32" using assms(8) by simp_all
  have w1f: "header_wf (header o1)" using hwf by (simp add: header_wf_def o1_def)
  have "sz \<le> length (encode_header (header o1))"
    using w1f lp ldat by (simp add: encode_header_length o1_def sz_def)
  from put_record_stores [OF g(2) this w1f] obtain w' where p:
    "put_record B o1 sz w2 = Some ((LA_STORAGE_OBJECT_PUT_SUCCESS, o1\<lparr>header := h'\<rparr>), w')"
    "\<not> txn w'" "nextseq w' = nextseq w + 1" "recs w' = (recs w)(key obj \<mapsto> take sz (encode_header h'))"
    using g by (auto simp: h'_def o1_def)
  have rd: "16 * unat (rev_count h') = length pre" "revs_data h' = pre @ object_data obj @ t"
    by (simp_all add: h'_def o1_def c1 lp)
  have "sz = 34 + 16 * unat (rev_count h') + data_length obj" unfolding rd(1) by (simp add: sz_def lp)
  then have "doc_of_record (take sz (encode_header h')) = Some (doc_of_header h' (object_data obj))"
    using doc_of_stored [of h' "data_length obj"] w1f ldat unfolding rd by (simp add: h'_def header_wf_def)
  also have "doc_of_header h' (object_data obj) = (doc_of_object obj)\<lparr>d_seq := word_of_nat (nextseq w),
      d_doc_seq := doc_seq st + 1, d_history := hrev st @ d_history (doc_of_object obj)\<rparr>"
  proof -
    have "take (length pre) (pre @ object_data obj @ t) = hrev st @ d_history (doc_of_object obj)"
      by (simp add: pre_def doc_of_object_def doc_of_header_def data_offset_def min_def)
    then have hist: "take (16 * unat (rev_count h')) (revs_data h') = hrev st @ d_history (doc_of_object obj)"
      by (simp only: rd)
    show ?thesis unfolding doc_of_header_def hist
      by (simp add: doc_of_object_def doc_of_header_def h'_def o1_def)
  qed
  finally have dv: "doc_of_record (take sz (encode_header h')) = Some ((doc_of_object obj)\<lparr>d_seq := word_of_nat (nextseq w),
      d_doc_seq := doc_seq st + 1, d_history := hrev st @ d_history (doc_of_object obj)\<rparr>)" .
  have "bdb_la_storage_put A B u rv obj w = Some ((LA_STORAGE_OBJECT_PUT_SUCCESS, o1\<lparr>header := h'\<rparr>), w')"
    unfolding bdb_la_storage_put_def using b g st34 assms(7) p(1) szm t by (simp flip: o1_def)
  moreover have "length (take sz (encode_header h')) < 2 ^ 32"
    using szl by (simp add: min.strict_coboundedI2)
  moreover have "doc_seq (header (o1\<lparr>header := h'\<rparr>)) = doc_seq st + 1" by (simp add: h'_def o1_def)
  ultimately show ?thesis using p dv by blast
qed

text \<open>The driver's put is the abstract one, in all three cases.\<close>

lemma put_refines:
  assumes "\<not> txn w" "object_wf obj" "in_step (recs w) obj" "la_storage_object_total_size obj + 16 < 2 ^ 32"
    and "grant A (la_storage_object_total_size obj + 16)"
  shows "\<exists>r obj' w'. bdb_la_storage_put A B u rv obj w = Some ((r, obj'), w') \<and> \<not> txn w' \<and>
    (r, abs_store (recs w')) = spec_put (nextseq w) rv (key obj) (doc_of_object obj) (abs_store (recs w))"
proof (cases "recs w (key obj)")
  case None
  then have "rev_count (header obj) = 0" using assms(3) by (simp add: in_step_def)
  moreover have "abs_store (recs w) (key obj) = None" using None by (simp add: abs_store_def)
  ultimately show ?thesis
    using put_creates [OF assms(1,2) None, of A u rv] assms(4) abs_store_upd
    by (fastforce simp: spec_put_def)
next
  case (Some v)
  obtain st where st: "decode_header v = Some st" "rev_count (header obj) = rev_count st"
    "unat (rev_count st) < 1024" "16 * unat (rev_count st) \<le> length (revs_data st)"
    using assms(3) Some by (auto simp: in_step_def split: option.splits)
  obtain old where old: "abs_store (recs w) (key obj) = Some old" "d_rev old = hrev st" "d_doc_seq old = doc_seq st"
    using Some st by (auto simp: abs_store_def doc_of_record_def doc_of_header_def)
  show ?thesis
  proof (cases "rv = Some (hrev st)")
    case False
    with put_conflicts [OF assms(1) Some st(1) False, of A u] old show ?thesis
      by (auto simp: spec_put_def)
  next
    case True
    with put_updates [OF assms(1,2) Some st(1-3) True assms(4,5), of u] old abs_store_upd show ?thesis
      by (fastforce simp: spec_put_def)
  qed
qed

text \<open>An object with a shorter history than the stored record is written past the end of its block.\<close>

lemma put_overruns:
  assumes "\<not> txn w" "object_wf obj" "recs w (key obj) = Some v" "decode_header v = Some st" "rv = Some (hrev st)"
    and "unat (rev_count (header obj)) < unat (rev_count st)" "unat (rev_count st) < 1024"
    and "slack A (la_storage_object_total_size obj + 16) = 0" "la_storage_object_total_size obj + 2 ^ 20 < 2 ^ 32"
  shows "bdb_la_storage_put A B u rv obj w = None"
proof -
  obtain w1 where b: "txn_begin_op B w = (DB_OK, w1)" "txn w1" "recs w1 = recs w"
    using begin_step [OF assms(1)] by metis
  obtain w2 where g: "db_get_op B (key obj) w1 = (DB_OK, v, w2)"
    using get_present [of w1 "key obj" v] assms(3) b by metis
  let ?st = "st\<lparr>revs_data := []\<rparr>"
  have st34: "decode_header (take 34 v) = Some ?st" using assms(4) by (rule decode_header_prefix)
  show ?thesis
  proof (cases "put_header_update A ?st obj")
    case None
    then show ?thesis using b g st34 assms(5) by (simp add: bdb_la_storage_put_def)
  next
    case (Some o1)
    have o1: "length (encode_header (header o1)) < la_storage_object_total_size o1" "data_length o1 = data_length obj"
      "unat (rev_count (header o1)) = unat (rev_count st) + 1" "header_wf (header o1)"
      using put_header_update_short [OF assms(2) _ _ assms(8) Some] assms(6,7) by simp_all
    then have "la_storage_object_total_size o1 < 2 ^ 32"
      using assms(7,9) by (simp add: la_storage_object_total_size_def)
    then have "put_record B o1 (la_storage_object_total_size o1 mod 2 ^ 32) w2 = None"
      using o1 by (auto simp: put_record_def mem_read_def Let_def encode_header_length header_wf_def
        bind_eq_None_conv split: prod.split)
    then show ?thesis using b g st34 assms(5) Some by (simp add: bdb_la_storage_put_def)
  qed
qed

text \<open>Reading back, without naming a revision.\<close>

lemma get_refines:
  assumes "\<forall>v. recs w k = Some v \<longrightarrow> doc_of_record v \<noteq> None \<and> length v < 2 ^ 32"
    and "grant A sizeof_object" "grant A (add_sz (length k) 1)"
  shows "\<exists>w'. recs w' = recs w \<and> txn w' = txn w \<and>
    (case abs_store (recs w) k of
       None \<Rightarrow> bdb_la_storage_get A B u k None True w = Some ((LA_STORAGE_OBJECT_GET_NOT_FOUND, None), w')
     | Some d \<Rightarrow> \<exists>obj. bdb_la_storage_get A B u k None True w = Some ((LA_STORAGE_OBJECT_GET_OK, Some obj), w') \<and>
                   key obj = k \<and> doc_of_object obj = d \<and> (0 \<notin> set k \<longrightarrow> object_wf obj))"
proof (cases "recs w k")
  case None
  then obtain x w' where "db_get_op B k w = (DB_NOTFOUND, x, w')" "recs w' = recs w" "txn w' = txn w"
    using get_absent [of w k] by metis
  then show ?thesis using None by (auto simp: bdb_la_storage_get_def abs_store_def)
next
  case (Some v)
  then obtain w' where g: "db_get_op B k w = (DB_OK, v, w')" "recs w' = recs w" "txn w' = txn w"
    using get_present [of w k v] by metis
  have v: "doc_of_record v \<noteq> None" "length v < 2 ^ 32" using assms(1) Some by simp_all
  then obtain h where h: "decode_header v = Some h" "16 * unat (rev_count h) \<le> length (revs_data h)"
    "doc_of_record v = Some (doc_of_header h (drop (16 * unat (rev_count h)) (revs_data h)))"
    by (auto simp: doc_of_record_def split: option.splits if_splits)
  have z: "zeroed_header [] \<noteq> None" by (simp add: zeroed_header_def decode_header_def Let_def)
  have "encode_header h = v" "header_wf h" using encode_decode_header [OF h(1)] by simp_all
  then have lv: "length v = 34 + length (revs_data h)" using encode_header_length by metis
  define obj where "obj = \<lparr>key = k, header = h, data_length = length (revs_data h) - 16 * unat (rev_count h)\<rparr>"
  have "nat ((int (length v) - 16 * int (unat (rev_count h)) - 34) mod 2 ^ 32) = data_length obj"
  proof -
    have "int (length v) - 16 * int (unat (rev_count h)) - 34 = int (data_length obj)"
      using lv h(2) by (simp add: obj_def)
    moreover have "data_length obj < 2 ^ 32" using lv v(2) by (simp add: obj_def)
    ultimately show ?thesis by simp
  qed
  then have o: "object_of_record A k v = Some obj"
    using h(1) assms(2,3) by (simp add: object_of_record_def obj_def)
  have "doc_of_object obj = doc_of_header h (drop (16 * unat (rev_count h)) (revs_data h))"
    by (simp add: doc_of_object_def obj_def object_data_def data_offset_def)
  then have "abs_store (recs w) k = Some (doc_of_object obj)" using Some h(3) by (simp add: abs_store_def)
  moreover have "bdb_la_storage_get A B u k None True w = Some ((LA_STORAGE_OBJECT_GET_OK, Some obj), w')"
    using g(1) z o by (auto simp: bdb_la_storage_get_def)
  moreover have "length (revs_data h) - 16 * unat (rev_count h) < 2 ^ 32" using lv v(2) by linarith
  then have "0 \<notin> set k \<longrightarrow> object_wf obj"
    using \<open>header_wf h\<close> h(2) lv v(2) by (simp add: object_wf_def obj_def data_offset_def)
  ultimately show ?thesis using g(2,3) by (auto simp: obj_def)
qed

text \<open>A refused \<open>realloc\<close> in \<open>set_revs\<close> returns from inside the transaction.\<close>

lemma set_revs_refused:
  assumes "\<not> txn w" "recs w k = Some v" "decode_header v = Some h" "unat (rev_count h) < n" "n \<le> 1024"
    and "\<not> grant A (length v + (n - unat (rev_count h)))" "length v + 1024 < 2 ^ 32"
  shows "\<exists>w'. bdb_la_storage_set_revs A B u k revs n w = Some (LA_STORAGE_OBJECT_PUT_ERROR, w') \<and> txn w'"
proof -
  obtain w1 where b: "txn_begin_op B w = (DB_OK, w1)" "txn w1" "recs w1 = recs w"
    using begin_step [OF assms(1)] by metis
  obtain w2 where g: "db_get_op B k w1 = (DB_OK, v, w2)" "txn w2"
    using get_present [of w1 k v] assms(2) b by metis
  obtain c where c: "c = unat (rev_count h)" "int (unat (rev_count h)) = int c" by blast
  have mn: "(if n < LA_OBJECT_MAX_REVISION_COUNT then n else LA_OBJECT_MAX_REVISION_COUNT) = n"
    using assms(5) by (simp add: LA_OBJECT_MAX_REVISION_COUNT_def)
  obtain m where m: "m = length v + (n - c)" by blast
  have eq: "int (length v) + (int n - int c) = int m" using assms(4) c(1) m by linarith
  have "m < 2 ^ 32" using assms(5,7) m by simp
  then have sz: "nat ((int (length v) + (int n - int c)) mod 2 ^ 32) = length v + (n - c)"
    unfolding eq unfolding m [symmetric] by simp
  have "c < n" "\<not> grant A (length v + (n - c))" using assms(4,6) unfolding c(1) by blast+
  then have pos: "int n - int c > 0 \<and> \<not> grant A (length v + (n - c))" by linarith
  have "bdb_la_storage_set_revs A B u k revs n w = Some (LA_STORAGE_OBJECT_PUT_ERROR, w2)"
    unfolding bdb_la_storage_set_revs_def Let_def mn b(1) prod.case g(1) assms(3) bind.simps c(2) sz
    unfolding if_P [OF pos] by simp
  with g(2) show ?thesis by blast
qed

end

end
