(* ===== verification/LA_BDB_Props.thy ===== *)
theory LA_BDB_Props
  imports LA_BDB
begin

text \<open>
  The properties of the Berkeley DB driver: what \<open>put\<close> and \<open>get\<close> do to the store, and iteration in
  sequence order. An in-memory library, written against the same record of calls, shows that
  what the driver relies on can hold.
\<close>

section \<open>Cursors on the sequence index\<close>

text \<open>Behind the position of a cursor: everything at the start, then the greater secondary keys.\<close>

definition after :: "byte list option \<Rightarrow> byte list \<Rightarrow> bool" where
  "after p sk = (case p of None \<Rightarrow> True | Some q \<Rightarrow> compare_seq q sk < 0)"

definition indexed :: "(byte list \<Rightarrow> byte list option) \<Rightarrow> byte list \<Rightarrow> byte list \<Rightarrow> byte list \<Rightarrow> bool" where
  "indexed recs sk pk v = (recs pk = Some v \<and> seqindex pk v = Some sk)"

text \<open>The loop of a client: ask for the next object until there is none, at most \<open>n\<close> times.\<close>

fun iterate ::
  "('i \<Rightarrow> ('w, la_storage_object_iterator_result \<times> la_storage_object option \<times> 'i) act) \<Rightarrow> nat \<Rightarrow> 'i \<Rightarrow> 'w \<Rightarrow>
   (la_storage_object list \<times> la_storage_object_iterator_result option \<times> 'w) option" where
  "iterate next 0 it w = Some ([], None, w)"
| "iterate next (Suc n) it w =
     (case next it w of
        None \<Rightarrow> None
      | Some ((r, obj, it'), w') \<Rightarrow>
          if r = LA_STORAGE_OBJECT_ITERATOR_GOT_NEXT
          then (case iterate next n it' w' of
                  None \<Rightarrow> None
                | Some (os, r', w'') \<Rightarrow> Some (the obj # os, r', w''))
          else Some ([], Some r, w'))"

text \<open>The records are what \<open>put\<close> writes: a header, its history and data, under a C string.\<close>

definition records_ok :: "(byte list \<Rightarrow> byte list option) \<Rightarrow> bool" where
  "records_ok recs =
     (\<forall>k v. recs k = Some v \<longrightarrow> k \<noteq> [] \<and> 0 \<notin> set k \<and> length k < 2 ^ 32 \<and> doc_of_record v \<noteq> None \<and> length v < 2 ^ 32)"

definition seq_of :: "la_storage_object \<Rightarrow> nat" where
  "seq_of obj = unat (seq (header obj))"

text \<open>The sequence numbers of the documents updated after \<open>p\<close>.\<close>

definition seqs_after :: "(byte list \<Rightarrow> byte list option) \<Rightarrow> nat option \<Rightarrow> nat set" where
  "seqs_after recs p =
     {s. \<exists>k d. abs_store recs k = Some d \<and> s = unat (d_seq d) \<and> (\<forall>q. p = Some q \<longrightarrow> q < s)}"

lemma records_okD:
  assumes "records_ok recs" "recs k = Some v"
  obtains h where "decode_header v = Some h" "seqindex k v = Some (take 8 v)" "length (take 8 v) = 8"
    "unat (seq h) = of_le (take 8 v)" "takeWhile (\<lambda>c. c \<noteq> 0) k = k"
    "doc_of_record v = Some (doc_of_header h (drop (16 * unat (rev_count h)) (revs_data h)))"
    "nat ((int (length v) - 34 - 16 * int (unat (rev_count h))) mod 2 ^ 32) =
       length (revs_data h) - 16 * unat (rev_count h)"
    "object_wf \<lparr>key = k, header = h, data_length = length (revs_data h) - 16 * unat (rev_count h)\<rparr>"
proof -
  have k: "k \<noteq> []" "0 \<notin> set k" "doc_of_record v \<noteq> None" "length v < 2 ^ 32"
    using assms by (auto simp: records_ok_def)
  then obtain h where h: "decode_header v = Some h" "16 * unat (rev_count h) \<le> length (revs_data h)"
    "doc_of_record v = Some (doc_of_header h (drop (16 * unat (rev_count h)) (revs_data h)))"
    by (auto simp: doc_of_record_def split: option.splits if_splits)
  note e = encode_decode_header [OF h(1)]
  have lv: "length v = 34 + length (revs_data h)"
    using encode_header_length [OF e(2)] unfolding e(1) .
  have "of_le (take 8 v) < 256 ^ length (take 8 v)" by (rule of_le_less)
  then have small: "of_le (take 8 v) < 2 ^ 64" using lv by simp
  have "seq h = word_of_nat (of_le (take 8 v))"
    using h(1) by (auto simp: decode_header_def Let_def split: if_splits)
  then have sq: "unat (seq h) = of_le (take 8 v)" using small by (simp add: unat_of_nat take_bit_nat_eq_self)
  have "hd k \<noteq> 0" using k(1,2) by (cases k) auto
  then have si: "seqindex k v = Some (take 8 v)" using k(1) by (simp add: seqindex_def)
  have tw: "takeWhile (\<lambda>c. c \<noteq> 0) k = k" using k(2) by (auto simp: takeWhile_eq_all_conv)
  have "int (length v) - 34 - 16 * int (unat (rev_count h)) = int (length (revs_data h) - 16 * unat (rev_count h))"
    using lv h(2) by simp
  moreover have "length (revs_data h) - 16 * unat (rev_count h) < 2 ^ 32" using lv k(4) by simp
  ultimately have "nat ((int (length v) - 34 - 16 * int (unat (rev_count h))) mod 2 ^ 32) =
      length (revs_data h) - 16 * unat (rev_count h)" by simp
  moreover have "object_wf \<lparr>key = k, header = h, data_length = length (revs_data h) - 16 * unat (rev_count h)\<rparr>"
    using e(2) h(2) k(2) lv k(4) by (simp add: object_wf_def data_offset_def)
  ultimately show ?thesis using that h si sq tw lv by simp
qed

text \<open>With such records the index is ordered by sequence number.\<close>

lemma indexed_iff:
  assumes "records_ok recs"
  shows "indexed recs sk pk v = (recs pk = Some v \<and> sk = take 8 v)"
  using assms by (auto simp: indexed_def elim!: records_okD)

lemma compare_seq_le:
  "(compare_seq a b \<le> 0) = (length a < length b \<or> length a = length b \<and> of_le (take 8 a) \<le> of_le (take 8 b))"
  by (auto simp: compare_seq_def Let_def)

lemma compare_seq_less:
  "(compare_seq a b < 0) = (length a < length b \<or> length a = length b \<and> of_le (take 8 a) < of_le (take 8 b))"
  by (auto simp: compare_seq_def Let_def)

lemma compare_seq_8:
  "length a = 8 \<Longrightarrow> length b = 8 \<Longrightarrow> (compare_seq a b < 0) = (of_le a < of_le b)"
  "length a = 8 \<Longrightarrow> length b = 8 \<Longrightarrow> (compare_seq a b \<le> 0) = (of_le a \<le> of_le b)"
  by (simp_all add: compare_seq_less compare_seq_le)

lemma abs_store_seq:
  assumes "records_ok recs" "recs k = Some v"
  shows "\<exists>d. abs_store recs k = Some d \<and> unat (d_seq d) = of_le (take 8 v)"
  using assms by (elim records_okD) (auto simp: abs_store_def doc_of_header_def)

lemma seqs_after_eq:
  assumes "records_ok recs" "\<forall>q. p = Some q \<longrightarrow> length q = 8"
  shows "seqs_after recs (map_option of_le p) =
         of_le ` {sk. \<exists>pk v. indexed recs sk pk v \<and> after p sk}" (is "?L = ?R")
proof
  show "?L \<subseteq> ?R"
  proof
    fix s assume "s \<in> ?L"
    then obtain k d where d: "abs_store recs k = Some d" "s = unat (d_seq d)" "\<forall>q. p = Some q \<longrightarrow> of_le q < s"
      by (auto simp: seqs_after_def)
    then obtain v where v: "recs k = Some v" by (auto simp: abs_store_def bind_eq_Some_conv)
    then have s: "s = of_le (take 8 v)" using abs_store_seq [OF assms(1) v] d by simp
    moreover have "length (take 8 v) = 8" using records_okD [OF assms(1) v] by metis
    then have "after p (take 8 v)"
      using d(3) s assms(2) by (auto simp: after_def compare_seq_8 split: option.split)
    ultimately show "s \<in> ?R" using v assms(1) by (auto simp: indexed_iff)
  qed
  show "?R \<subseteq> ?L"
  proof
    fix s assume "s \<in> ?R"
    then obtain k v where v: "recs k = Some v" "after p (take 8 v)" "s = of_le (take 8 v)"
      using assms(1) by (auto simp: indexed_iff)
    moreover have "length (take 8 v) = 8" using records_okD [OF assms(1) v(1)] by metis
    ultimately have "\<forall>q. p = Some q \<longrightarrow> of_le q < s" using assms(2) by (auto simp: after_def compare_seq_8)
    with abs_store_seq [OF assms(1) v(1)] v(3) show "s \<in> ?L" by (force simp: seqs_after_def)
  qed
qed

locale bdb_cursors = bdb_reliable +
  fixes cpos :: "nat \<Rightarrow> 'a \<Rightarrow> byte list option"
  assumes finite_recs: "finite (dom (recs w))"
    and cursor_open: "cursor_open_op B w = (rc, c, w') \<Longrightarrow>
      recs w' = recs w \<and> (rc = DB_OK \<longrightarrow> cpos c w' = None)"
    and cursor_close: "recs (cursor_close_op B c w) = recs w"
    and cursor_set: "cursor_set_op B c sk w = (rc, w') \<Longrightarrow> recs w' = recs w \<and>
      (rc = DB_OK) = (\<exists>pk v. indexed (recs w) sk pk v) \<and> (rc = DB_OK \<longrightarrow> cpos c w' = Some sk)"
    and cursor_pget: "cursor_pget_op B c w = (rc, (sk, pk, v), w') \<Longrightarrow> recs w' = recs w \<and>
      (if rc = DB_OK
       then indexed (recs w) sk pk v \<and> after (cpos c w) sk \<and> cpos c w' = Some sk \<and>
            (\<forall>sk' pk' v'. indexed (recs w) sk' pk' v' \<longrightarrow> after (cpos c w) sk' \<longrightarrow> compare_seq sk sk' \<le> 0)
       else rc = DB_NOTFOUND \<and> (\<forall>sk' pk' v'. indexed (recs w) sk' pk' v' \<longrightarrow> \<not> after (cpos c w) sk'))"
begin

abbreviation pos_seq :: "nat \<Rightarrow> 'a \<Rightarrow> nat option" where
  "pos_seq c w \<equiv> map_option of_le (cpos c w)"

lemma finite_seqs_after: "finite (seqs_after (recs w) p)"
proof -
  have "seqs_after (recs w) p \<subseteq> (\<lambda>k. unat (d_seq (the (abs_store (recs w) k)))) ` dom (recs w)"
    by (force simp: seqs_after_def abs_store_def bind_eq_Some_conv)
  then show ?thesis by (meson finite_surj finite_recs)
qed

text \<open>One call of \<open>iterator_next\<close> gives the document with the least sequence number ahead.\<close>

lemma iterator_next_step:
  assumes "records_ok (recs w)" "\<forall>q. cpos c w = Some q \<longrightarrow> length q = 8" "\<forall>n < 2 ^ 33. grant A n"
  shows "\<exists>w'. recs w' = recs w \<and>
    (if seqs_after (recs w) (pos_seq c w) = {}
     then bdb_la_storage_iterator_next A B c w = Some ((LA_STORAGE_OBJECT_ITERATOR_END, None, c), w')
     else \<exists>obj. bdb_la_storage_iterator_next A B c w = Some ((LA_STORAGE_OBJECT_ITERATOR_GOT_NEXT, Some obj, c), w') \<and>
            abs_store (recs w) (key obj) = Some (doc_of_object obj) \<and> object_wf obj \<and>
            seq_of obj = Min (seqs_after (recs w) (pos_seq c w)) \<and>
            pos_seq c w' = Some (seq_of obj) \<and> (\<forall>q. cpos c w' = Some q \<longrightarrow> length q = 8))"
proof -
  obtain rc e w' where "cursor_pget_op B c w = (rc, e, w')" by (metis prod_cases3)
  moreover obtain sk pk v where "e = (sk, pk, v)" by (metis prod_cases3)
  ultimately have pg: "cursor_pget_op B c w = (rc, (sk, pk, v), w')" by simp
  note c = cursor_pget [OF pg]
  note eq = seqs_after_eq [OF assms(1,2)]
  show ?thesis
  proof (cases "rc = DB_OK")
    case False
    then have "seqs_after (recs w) (pos_seq c w) = {}" using c eq by auto
    moreover have "bdb_la_storage_iterator_next A B c w = Some ((LA_STORAGE_OBJECT_ITERATOR_END, None, c), w')"
      using False c pg by (simp add: bdb_la_storage_iterator_next_def)
    ultimately show ?thesis using c by auto
  next
    case True
    then have i: "indexed (recs w) sk pk v" "after (cpos c w) sk" "cpos c w' = Some sk"
      "\<And>sk' pk' v'. indexed (recs w) sk' pk' v' \<Longrightarrow> after (cpos c w) sk' \<Longrightarrow> compare_seq sk sk' \<le> 0"
      using c by auto
    then have v: "recs w pk = Some v" "sk = take 8 v" using assms(1) by (simp_all add: indexed_iff)
    obtain h where h: "decode_header v = Some h" "length (take 8 v) = 8" "unat (seq h) = of_le (take 8 v)"
      "takeWhile (\<lambda>c. c \<noteq> 0) pk = pk"
      "doc_of_record v = Some (doc_of_header h (drop (16 * unat (rev_count h)) (revs_data h)))"
      "nat ((int (length v) - 34 - 16 * int (unat (rev_count h))) mod 2 ^ 32) =
        length (revs_data h) - 16 * unat (rev_count h)"
      "object_wf \<lparr>key = pk, header = h, data_length = length (revs_data h) - 16 * unat (rev_count h)\<rparr>"
      using records_okD [OF assms(1) v(1)] by metis
    define obj where "obj = \<lparr>key = pk, header = h, data_length = length (revs_data h) - 16 * unat (rev_count h)\<rparr>"
    have ob: "doc_of_object obj = doc_of_header h (drop (16 * unat (rev_count h)) (revs_data h))"
      by (simp add: doc_of_object_def obj_def object_data_def data_offset_def)
    have "seq_of obj = of_le sk" using h(3) v(2) by (simp add: seq_of_def obj_def)
    moreover have "of_le sk = Min (of_le ` {sk. \<exists>pk v. indexed (recs w) sk pk v \<and> after (cpos c w) sk})"
    proof (rule Min_eqI [symmetric])
      show "finite (of_le ` {sk. \<exists>pk v. indexed (recs w) sk pk v \<and> after (cpos c w) sk})"
        using finite_seqs_after [of w "pos_seq c w"] eq by simp
      show "of_le sk \<in> of_le ` {sk. \<exists>pk v. indexed (recs w) sk pk v \<and> after (cpos c w) sk}" using i by blast
      fix s assume "s \<in> of_le ` {sk. \<exists>pk v. indexed (recs w) sk pk v \<and> after (cpos c w) sk}"
      then obtain sk' pk' v' where s: "s = of_le sk'" "indexed (recs w) sk' pk' v'" "after (cpos c w) sk'" by blast
      moreover have "length sk' = 8"
        using s(2) assms(1) records_okD [OF assms(1), of pk' v'] by (metis indexed_iff)
      ultimately show "of_le sk \<le> s" using i(4) [OF s(2,3)] h(2) v(2) by (simp add: compare_seq_8)
    qed
    moreover have "seqs_after (recs w) (pos_seq c w) \<noteq> {}" unfolding eq using i by blast
    moreover have "bdb_la_storage_iterator_next A B c w = Some ((LA_STORAGE_OBJECT_ITERATOR_GOT_NEXT, Some obj, c), w')"
    proof -
      have "length pk < 2 ^ 32" using assms(1) v(1) by (auto simp: records_ok_def)
      then have "add_sz (length pk) 1 = length pk + 1" "length pk + 1 < 2 ^ 33" by (simp_all add: add_sz_small)
      then have "keycpy A pk (length pk) = Some pk" using assms(3) h(4) by (simp add: keycpy_def)
      moreover have "grant A sizeof_object" using assms(3) by (simp add: sizeof_object_def)
      ultimately show ?thesis using pg True h(1,6) by (simp add: bdb_la_storage_iterator_next_def obj_def)
    qed
    moreover have "abs_store (recs w) (key obj) = Some (doc_of_object obj)"
      using v(1) h(5) ob by (simp add: abs_store_def obj_def)
    moreover have "object_wf obj" using h(7) by (simp add: obj_def)
    moreover have "pos_seq c w' = Some (of_le sk)" "\<forall>q. cpos c w' = Some q \<longrightarrow> length q = 8"
      using i(3) h(2) v(2) by simp_all
    ultimately show ?thesis using c eq by (auto intro!: exI [of _ w'])
  qed
qed

lemma seqs_after_Min:
  assumes "m = Min (seqs_after (recs w) p)" "seqs_after (recs w) p \<noteq> {}"
  shows "seqs_after (recs w) (Some m) = seqs_after (recs w) p - {m}" "m \<in> seqs_after (recs w) p"
proof -
  show m: "m \<in> seqs_after (recs w) p" using assms finite_seqs_after by simp
  have le: "m \<le> s" if "s \<in> seqs_after (recs w) p" for s using that assms finite_seqs_after by simp
  have pm: "\<forall>q. p = Some q \<longrightarrow> q < m" using m by (auto simp: seqs_after_def)
  show "seqs_after (recs w) (Some m) = seqs_after (recs w) p - {m}"
  proof (intro set_eqI iffI)
    fix s assume "s \<in> seqs_after (recs w) (Some m)"
    then show "s \<in> seqs_after (recs w) p - {m}" using pm by (fastforce simp: seqs_after_def)
  next
    fix s assume s: "s \<in> seqs_after (recs w) p - {m}"
    then have "m < s" using le [of s] by simp
    then show "s \<in> seqs_after (recs w) (Some m)" using s by (auto simp: seqs_after_def)
  qed
qed

text \<open>Enough calls visit every document ahead of the cursor once, in sequence order.\<close>

lemma iterate_complete:
  assumes "records_ok (recs w)" "\<forall>q. cpos c w = Some q \<longrightarrow> length q = 8" "\<forall>n < 2 ^ 33. grant A n"
    and "card (seqs_after (recs w) (pos_seq c w)) < n"
  shows "\<exists>os w'. iterate (bdb_la_storage_iterator_next A B) n c w =
           Some (os, Some LA_STORAGE_OBJECT_ITERATOR_END, w') \<and> recs w' = recs w \<and>
         map seq_of os = sorted_list_of_set (seqs_after (recs w) (pos_seq c w)) \<and>
         (\<forall>obj\<in>set os. abs_store (recs w) (key obj) = Some (doc_of_object obj) \<and> object_wf obj)"
  using assms
proof (induction n arbitrary: w)
  case 0
  then show ?case by simp
next
  case (Suc n)
  let ?S = "seqs_after (recs w) (pos_seq c w)"
  obtain w' where w': "recs w' = recs w" and step: "if ?S = {}
      then bdb_la_storage_iterator_next A B c w = Some ((LA_STORAGE_OBJECT_ITERATOR_END, None, c), w')
      else \<exists>obj. bdb_la_storage_iterator_next A B c w = Some ((LA_STORAGE_OBJECT_ITERATOR_GOT_NEXT, Some obj, c), w') \<and>
            abs_store (recs w) (key obj) = Some (doc_of_object obj) \<and> object_wf obj \<and> seq_of obj = Min ?S \<and>
            pos_seq c w' = Some (seq_of obj) \<and> (\<forall>q. cpos c w' = Some q \<longrightarrow> length q = 8)"
    using iterator_next_step [OF Suc.prems(1-3)] by blast
  show ?case
  proof (cases "?S = {}")
    case True
    then show ?thesis using step w' by simp
  next
    case False
    then obtain obj where obj: "bdb_la_storage_iterator_next A B c w = Some ((LA_STORAGE_OBJECT_ITERATOR_GOT_NEXT, Some obj, c), w')"
      "abs_store (recs w) (key obj) = Some (doc_of_object obj)" "seq_of obj = Min ?S"
      "pos_seq c w' = Some (seq_of obj)" "\<forall>q. cpos c w' = Some q \<longrightarrow> length q = 8" "object_wf obj"
      using step by auto
    have S': "seqs_after (recs w') (pos_seq c w') = ?S - {seq_of obj}" and m: "seq_of obj \<in> ?S"
      unfolding w' obj(4) using seqs_after_Min [OF obj(3) False] by simp_all
    have "card (?S - {seq_of obj}) < n"
      using card_Diff1_less [OF finite_seqs_after m] Suc.prems(4) by linarith
    then obtain os w'' where ih: "iterate (bdb_la_storage_iterator_next A B) n c w' =
        Some (os, Some LA_STORAGE_OBJECT_ITERATOR_END, w'')" "recs w'' = recs w"
        "map seq_of os = sorted_list_of_set (?S - {seq_of obj})"
        "\<forall>obj\<in>set os. abs_store (recs w) (key obj) = Some (doc_of_object obj) \<and> object_wf obj"
      using Suc.IH [of w'] Suc.prems(1,3) obj(5) S' w' by auto
    have "sorted_list_of_set ?S = seq_of obj # sorted_list_of_set (?S - {seq_of obj})"
      using obj(3) False finite_seqs_after by (simp add: sorted_list_of_set_nonempty)
    then show ?thesis using obj(1,2,6) ih by simp
  qed
qed

text \<open>Opening an iterator: from the start, or right behind a sequence number that a document has.\<close>

lemma iterator_open_pos:
  assumes "records_ok (recs w)" "grant A sizeof_iterator" "fst (cursor_open_op B w) = DB_OK"
  shows "\<exists>it w'. bdb_la_storage_iterator_open A B u since w = Some (it, w') \<and> recs w' = recs w \<and>
    (it \<noteq> None) = (since = 0 \<or> unat since \<in> seqs_after (recs w) None) \<and>
    (\<forall>c. it = Some c \<longrightarrow> pos_seq c w' = (if since = 0 then None else Some (unat since)) \<and>
       (\<forall>q. cpos c w' = Some q \<longrightarrow> length q = 8))"
proof -
  obtain c w1 where co: "cursor_open_op B w = (DB_OK, c, w1)"
    using assms(3) by (metis prod.collapse)
  note o = cursor_open [OF co]
  show ?thesis
  proof (cases "since = 0")
    case True
    then show ?thesis using co o assms(2) by (simp add: bdb_la_storage_iterator_open_def)
  next
    case False
    then have pos: "since > 0" by (simp add: word_gt_0)
    let ?sk = "le_bytes 8 (unat since)"
    have sk: "of_le ?sk = unat since"
      using unsigned_less [where 'a = nat, of since] by (simp add: of_le_le_bytes)
    obtain rc w2 where cs: "cursor_set_op B c ?sk w1 = (rc, w2)" by fastforce
    note s = cursor_set [OF cs]
    have "(\<exists>pk v. indexed (recs w) ?sk pk v) = (unat since \<in> seqs_after (recs w) None)"
    proof
      assume "\<exists>pk v. indexed (recs w) ?sk pk v"
      then show "unat since \<in> seqs_after (recs w) None"
        using seqs_after_eq [OF assms(1), of None] sk by (force simp: after_def)
    next
      assume "unat since \<in> seqs_after (recs w) None"
      then obtain sk' pk v where i: "indexed (recs w) sk' pk v" "of_le sk' = unat since"
        using seqs_after_eq [OF assms(1), of None] by (auto simp: after_def)
      have "length sk' = 8" using i(1) records_okD [OF assms(1), of pk v] assms(1) by (metis indexed_iff)
      then have "sk' = ?sk" using le_bytes_of_le [of sk'] i(2) by simp
      then show "\<exists>pk v. indexed (recs w) ?sk pk v" using i(1) by blast
    qed
    then have ok: "(rc = DB_OK) = (unat since \<in> seqs_after (recs w) None)" using s o by simp
    show ?thesis
    proof (cases "rc = DB_OK")
      case True
      then show ?thesis using co cs assms(2) pos False s o ok sk by (simp add: bdb_la_storage_iterator_open_def)
    next
      case False
      then have "bdb_la_storage_iterator_open A B u since w = Some (None, cursor_close_op B c w2)"
        using co cs assms(2) pos by (simp add: bdb_la_storage_iterator_open_def)
      then show ?thesis using False ok \<open>since \<noteq> 0\<close> cursor_close s o by simp
    qed
  qed
qed

end

section \<open>An in-memory library\<close>

record mem_world =
  mw_recs :: "(byte list \<times> byte list) list"
  mw_saved :: "(byte list \<times> byte list) list"
  mw_txn :: bool
  mw_seq :: nat
  mw_savedseq :: nat
  mw_cur :: "byte list option"

definition mem_entries :: "mem_world \<Rightarrow> (byte list \<times> byte list \<times> byte list) list" where
  "mem_entries w =
     concat (map (\<lambda>(k, v). case seqindex k v of
         Some sk \<Rightarrow> if map_of (mw_recs w) k = Some v \<and> after (mw_cur w) sk then [(sk, k, v)] else []
       | None \<Rightarrow> []) (mw_recs w))"

fun least_entry ::
  "(byte list \<times> byte list \<times> byte list) list \<Rightarrow> (byte list \<times> byte list \<times> byte list) option" where
  "least_entry [] = None"
| "least_entry (e # es) =
     (case least_entry es of
        None \<Rightarrow> Some e
      | Some f \<Rightarrow> Some (if compare_seq (fst e) (fst f) \<le> 0 then e else f))"

definition mem_bdb :: "mem_world bdb" where
  "mem_bdb =
     \<lparr>env_create_op = (\<lambda>w. (DB_OK, w)),
      env_stat_op = (\<lambda>_ w. (DB_OK, True, w)),
      env_mkdir_op = (\<lambda>_ w. (DB_OK, w)),
      env_open_op = (\<lambda>_ w. (DB_OK, w)),
      env_close_op = (\<lambda>w. w),
      db_create_op = (\<lambda>_ w. (DB_OK, w)),
      db_open_op = (\<lambda>_ _ _ w. (DB_OK, w)),
      set_bt_compare_op = (\<lambda>w. (DB_OK, w)),
      db_associate_op = (\<lambda>w. w),
      seq_create_op = (\<lambda>w. (DB_OK, w)),
      seq_open_op = (\<lambda>_ _ w. (DB_OK, w)),
      db_close_op = (\<lambda>_ w. w),
      db_sync_op = (\<lambda>_ w. w),
      seq_close_op = (\<lambda>w. w),
      txn_begin_op = (\<lambda>w. (DB_OK, w\<lparr>mw_txn := True, mw_saved := mw_recs w, mw_savedseq := mw_seq w\<rparr>)),
      txn_abort_op = (\<lambda>w. w\<lparr>mw_txn := False, mw_recs := mw_saved w, mw_seq := mw_savedseq w\<rparr>),
      txn_commit_op = (\<lambda>w. (DB_OK, w\<lparr>mw_txn := False\<rparr>)),
      db_get_op = (\<lambda>k w. case map_of (mw_recs w) k of None \<Rightarrow> (DB_NOTFOUND, [], w) | Some v \<Rightarrow> (DB_OK, v, w)),
      db_put_op = (\<lambda>k v w. (DB_OK, w\<lparr>mw_recs := (k, v) # mw_recs w\<rparr>)),
      seq_get_op = (\<lambda>w. (DB_OK, word_of_nat (mw_seq w), w\<lparr>mw_seq := mw_seq w + 1\<rparr>)),
      seq_stat_op = (\<lambda>w. (DB_OK, word_of_nat (mw_seq w), w)),
      db_stat_op = (\<lambda>_ w. (DB_OK, \<lparr>bt_nkeys = length (mw_recs w), bt_pagecnt = 1, bt_pagesize = 4096\<rparr>, w)),
      cursor_open_op = (\<lambda>w. (DB_OK, 0, w\<lparr>mw_cur := None\<rparr>)),
      cursor_set_op = (\<lambda>_ sk w.
        if \<exists>(k, v) \<in> set (mw_recs w). map_of (mw_recs w) k = Some v \<and> seqindex k v = Some sk
        then (DB_OK, w\<lparr>mw_cur := Some sk\<rparr>) else (DB_NOTFOUND, w)),
      cursor_pget_op = (\<lambda>_ w. case least_entry (mem_entries w) of
          None \<Rightarrow> (DB_NOTFOUND, ([], [], []), w)
        | Some e \<Rightarrow> (DB_OK, e, w\<lparr>mw_cur := Some (fst e)\<rparr>)),
      cursor_close_op = (\<lambda>_ w. w)\<rparr>"


lemma least_entry_None [simp]: "(least_entry es = None) = (es = [])"
  by (cases es) (auto split: option.split)

lemma least_entry_least:
  "least_entry es = Some e \<Longrightarrow> e \<in> set es \<and> (\<forall>f\<in>set es. compare_seq (fst e) (fst f) \<le> 0)"
proof (induction es arbitrary: e)
  case (Cons x es)
  show ?case
  proof (cases "least_entry es")
    case None
    then show ?thesis using Cons.prems by (simp add: compare_seq_le)
  next
    case (Some f)
    note ih = Cons.IH [OF Some]
    show ?thesis
    proof (cases "compare_seq (fst x) (fst f) \<le> 0")
      case True
      then have "e = x" using Cons.prems Some by simp
      then show ?thesis using True ih by (fastforce simp: compare_seq_le)
    next
      case False
      then have "e = f" using Cons.prems Some by simp
      then show ?thesis using False ih by (auto simp: compare_seq_le)
    qed
  qed
qed simp

lemma mem_entries_iff:
  "(sk, pk, v) \<in> set (mem_entries w) \<longleftrightarrow> indexed (map_of (mw_recs w)) sk pk v \<and> after (mw_cur w) sk"
proof
  assume "(sk, pk, v) \<in> set (mem_entries w)"
  then show "indexed (map_of (mw_recs w)) sk pk v \<and> after (mw_cur w) sk"
    by (auto simp: mem_entries_def indexed_def split: option.splits if_splits)
next
  assume a: "indexed (map_of (mw_recs w)) sk pk v \<and> after (mw_cur w) sk"
  then have "(pk, v) \<in> set (mw_recs w)" by (auto simp: indexed_def dest: map_of_SomeD)
  with a show "(sk, pk, v) \<in> set (mem_entries w)"
    by (force simp: mem_entries_def indexed_def)
qed

lemma mem_pget:
  assumes "cursor_pget_op mem_bdb c w = (rc, (sk, pk, v), w')"
  shows "mw_recs w' = mw_recs w \<and>
      (if rc = DB_OK
       then indexed (map_of (mw_recs w)) sk pk v \<and> after (mw_cur w) sk \<and> mw_cur w' = Some sk \<and>
            (\<forall>sk' pk' v'. indexed (map_of (mw_recs w)) sk' pk' v' \<longrightarrow> after (mw_cur w) sk' \<longrightarrow> compare_seq sk sk' \<le> 0)
       else rc = DB_NOTFOUND \<and> (\<forall>sk' pk' v'. indexed (map_of (mw_recs w)) sk' pk' v' \<longrightarrow> \<not> after (mw_cur w) sk'))"
proof (cases "least_entry (mem_entries w)")
  case None
  then have "mem_entries w = []" by simp
  then show ?thesis using assms None mem_entries_iff [of _ _ _ w] by (simp add: mem_bdb_def)
next
  case (Some e)
  then have e: "e = (sk, pk, v)" "rc = DB_OK" "w' = w\<lparr>mw_cur := Some sk\<rparr>"
    using assms by (auto simp: mem_bdb_def)
  have l: "(sk, pk, v) \<in> set (mem_entries w)" "\<forall>f\<in>set (mem_entries w). compare_seq sk (fst f) \<le> 0"
    using least_entry_least [OF Some] e(1) by auto
  have "compare_seq sk sk' \<le> 0" if "indexed (map_of (mw_recs w)) sk' pk' v'" "after (mw_cur w) sk'" for sk' pk' v'
    using that l(2) mem_entries_iff [of sk' pk' v' w] by auto
  then show ?thesis using l(1) e(2,3) mem_entries_iff by simp
qed

interpretation mem: bdb_cursors mem_bdb "\<lambda>w. map_of (mw_recs w)" "\<lambda>w. map_of (mw_saved w)"
  mw_txn mw_seq mw_savedseq "\<lambda>_. mw_cur"
proof unfold_locales
  show "finite (dom (map_of (mw_recs w)))" for w by (rule finite_dom_map_of)
  show "map_of (mw_recs w') = map_of (mw_recs w) \<and>
      (if rc = DB_OK
       then indexed (map_of (mw_recs w)) sk pk v \<and> after (mw_cur w) sk \<and> mw_cur w' = Some sk \<and>
            (\<forall>sk' pk' v'. indexed (map_of (mw_recs w)) sk' pk' v' \<longrightarrow> after (mw_cur w) sk' \<longrightarrow> compare_seq sk sk' \<le> 0)
       else rc = DB_NOTFOUND \<and> (\<forall>sk' pk' v'. indexed (map_of (mw_recs w)) sk' pk' v' \<longrightarrow> \<not> after (mw_cur w) sk'))"
    if "cursor_pget_op mem_bdb c w = (rc, (sk, pk, v), w')" for c w rc sk pk v w'
    using mem_pget [OF that] by simp
  show "map_of (mw_recs w') = map_of (mw_recs w) \<and>
      (rc = DB_OK) = (\<exists>pk v. indexed (map_of (mw_recs w)) sk pk v) \<and> (rc = DB_OK \<longrightarrow> mw_cur w' = Some sk)"
    if "cursor_set_op mem_bdb c sk w = (rc, w')" for c sk w rc w'
    using that by (auto simp: mem_bdb_def indexed_def split: if_splits dest: map_of_SomeD)
qed (auto simp: mem_bdb_def split: option.splits)

section \<open>Properties\<close>

definition mem_empty :: mem_world where
  "mem_empty = \<lparr>mw_recs = [], mw_saved = [], mw_txn = False, mw_seq = 1, mw_savedseq = 1, mw_cur = None\<rparr>"

definition obj_example :: "byte \<Rightarrow> byte list \<Rightarrow> la_storage_object" where
  "obj_example r dat =
     \<lparr>key = [0x6b], header = \<lparr>seq = 0, doc_seq = 0, deleted = False, rev_count = 0, hrev = replicate 16 r,
      revs_data = dat\<rparr>, data_length = length dat\<rparr>"

lemma obj_example_wf: "length dat < 1000 \<Longrightarrow> object_wf (obj_example r dat)"
  by (simp add: object_wf_def obj_example_def header_wf_def data_offset_def)

lemma obj_example_size: "la_storage_object_total_size (obj_example r dat) = 34 + length dat"
  by (simp add: la_storage_object_total_size_def obj_example_def)

text \<open>
  C4. Storing a document through the Berkeley DB driver is the abstract operation: under a new key
  it is stored with document sequence 1 and an empty history; under an existing key it is stored
  with the next document sequence and the old revision in front of its history if the caller
  named the current revision, and refused as a conflict without any change otherwise. The next
  number of the sequence becomes the update sequence, no other document changes, no transaction
  stays open. (The library does not fail, there is memory, the object is shorter than \<open>2 ^ 32\<close> bytes, and it is
  \<open>in_step\<close> with the stored record: it has no history under a new key and a history of the same length, below 1024
  revisions, under an existing one. Without that the driver leaves the object's block.)
\<close>

theorem bdb_put_refines_spec:
  assumes "bdb_reliable B recs saved txn nextseq savedseq" "\<not> txn w" "object_wf obj" "in_step (recs w) obj"
    and "la_storage_object_total_size obj + 16 < 2 ^ 32" "grant A (la_storage_object_total_size obj + 16)"
  shows "\<exists>r obj' w'. bdb_la_storage_put A B u rv obj w = Some ((r, obj'), w') \<and> \<not> txn w' \<and>
    (r, abs_store (recs w')) = spec_put (nextseq w) rv (key obj) (doc_of_object obj) (abs_store (recs w))"
  using bdb_reliable.put_refines [OF assms] .

theorem bdb_put_refines_spec_witness:
  "\<exists>r obj' w'. bdb_la_storage_put exact_allocator mem_bdb () None (obj_example 1 [7, 8]) mem_empty = Some ((r, obj'), w') \<and>
     r = LA_STORAGE_OBJECT_PUT_SUCCESS \<and>
     (\<exists>d. abs_store (map_of (mw_recs w')) [0x6b] = Some d \<and> d_data d = [7, 8] \<and> d_doc_seq d = 1 \<and> d_seq d = 1)"
proof -
  have 1: "\<not> mw_txn mem_empty" "in_step (map_of (mw_recs mem_empty)) (obj_example 1 [7, 8])"
    by (simp_all add: mem_empty_def in_step_def obj_example_def)
  have 2: "la_storage_object_total_size (obj_example 1 [7, 8]) + 16 < 2 ^ 32"
    "grant exact_allocator (la_storage_object_total_size (obj_example 1 [7, 8]) + 16)"
    by (simp_all add: obj_example_size)
  have 3: "object_wf (obj_example 1 [7, 8])" by (simp add: obj_example_wf)
  have e: "abs_store (map_of (mw_recs mem_empty)) = (\<lambda>_. None)" "mw_seq mem_empty = 1" "key (obj_example 1 [7, 8]) = [0x6b]"
    by (simp_all add: abs_store_def mem_empty_def obj_example_def fun_eq_iff)
  have dd: "d_data (doc_of_object (obj_example 1 [7, 8])) = [7, 8]"
    by (simp add: obj_example_def doc_of_object_def doc_of_header_def object_data_def data_offset_def)
  from bdb_put_refines_spec [OF mem.bdb_reliable_axioms 1(1) 3 1(2) 2, of "()" None]
  show ?thesis using dd by (auto simp: spec_put_def e)
qed

text \<open>
  C5. Whatever the library answers (lock conflicts, failed lookups, failed writes, failed commits), a
  put that returns leaves no transaction open, and the records are either as before or, only when
  it reports success, changed under the object's key alone.
\<close>

theorem bdb_put_all_or_nothing:
  assumes "bdb_env B recs saved txn nextseq savedseq" "\<not> txn w"
    and "bdb_la_storage_put A B u rv obj w = Some ((r, obj'), w')"
  shows "\<not> txn w' \<and> (recs w' = recs w \<or>
     r = LA_STORAGE_OBJECT_PUT_SUCCESS \<and> (\<exists>v. recs w' = (recs w)(key obj \<mapsto> v)))"
  using bdb_env.put_atomic [OF assms(1,3,2)] .

theorem bdb_put_all_or_nothing_witness:
  "\<exists>r obj' w'. bdb_la_storage_put exact_allocator mem_bdb () None (obj_example 1 [7]) mem_empty = Some ((r, obj'), w') \<and>
     \<not> mw_txn w'"
proof -
  have 1: "\<not> mw_txn mem_empty" "map_of (mw_recs mem_empty) (key (obj_example 1 [7])) = None"
    "rev_count (header (obj_example 1 [7])) = 0" "la_storage_object_total_size (obj_example 1 [7]) < 2 ^ 32"
    by (simp_all add: mem_empty_def obj_example_def la_storage_object_total_size_def)
  obtain obj' w' where p: "bdb_la_storage_put exact_allocator mem_bdb () None (obj_example 1 [7]) mem_empty =
      Some ((LA_STORAGE_OBJECT_PUT_SUCCESS, obj'), w')"
    using mem.put_creates [OF 1(1) _ 1(2-4), of exact_allocator "()" None] by (auto simp: obj_example_wf)
  from bdb_put_all_or_nothing [OF mem.bdb_env_axioms 1(1) p] p show ?thesis by blast
qed

text \<open>
  The third version of a document runs over its block: when the stored record has at least one
  historical revision and the object handed to put carries fewer of them, the block is grown by one
  revision but announced as longer, and put reads or writes behind its end (on an allocator
  without spare bytes).
\<close>

theorem bdb_put_short_history_overruns:
  assumes "bdb_reliable B recs saved txn nextseq savedseq" "\<not> txn w" "object_wf obj"
    and "recs w (key obj) = Some v" "decode_header v = Some st" "rv = Some (hrev st)"
    and "unat (rev_count (header obj)) < unat (rev_count st)" "unat (rev_count st) < 1024"
    and "slack A (la_storage_object_total_size obj + 16) = 0" "la_storage_object_total_size obj + 2 ^ 20 < 2 ^ 32"
  shows "bdb_la_storage_put A B u rv obj w = None"
  using bdb_reliable.put_overruns [OF assms] .

definition header_two :: la_storage_object_header where
  "header_two = \<lparr>seq = 2, doc_seq = 2, deleted = False, rev_count = 1, hrev = replicate 16 2,
                 revs_data = replicate 16 1 @ [7]\<rparr>"

theorem bdb_put_short_history_overruns_witness:
  "bdb_la_storage_put exact_allocator mem_bdb () (Some (replicate 16 2)) (obj_example 3 [9])
     (mem_empty\<lparr>mw_recs := [([0x6b], encode_header header_two)]\<rparr>) = None"
proof -
  have d: "decode_header (encode_header header_two) = Some header_two"
    by (intro decode_encode_header) (simp add: header_wf_def header_two_def)
  show ?thesis
    by (rule bdb_put_short_history_overruns [OF mem.bdb_reliable_axioms _ _ _ d])
      (simp_all add: mem_empty_def obj_example_wf obj_example_size header_two_def, simp_all add: obj_example_def)
qed

text \<open>
  Reading a document by key gives exactly what the store holds for it: not found when there is no
  record, otherwise an object whose revision, history, flags, sequences and data are the record's.
\<close>

theorem bdb_get_correct:
  assumes "bdb_reliable B recs saved txn nextseq savedseq" "records_ok (recs w)"
    and "grant A sizeof_object" "grant A (add_sz (length k) 1)"
  shows "\<exists>w'. recs w' = recs w \<and>
    (case abs_store (recs w) k of
       None \<Rightarrow> bdb_la_storage_get A B u k None True w = Some ((LA_STORAGE_OBJECT_GET_NOT_FOUND, None), w')
     | Some d \<Rightarrow> \<exists>obj. bdb_la_storage_get A B u k None True w = Some ((LA_STORAGE_OBJECT_GET_OK, Some obj), w') \<and>
                   key obj = k \<and> doc_of_object obj = d)"
proof -
  have "\<forall>v. recs w k = Some v \<longrightarrow> doc_of_record v \<noteq> None \<and> length v < 2 ^ 32"
    using assms(2) by (simp add: records_ok_def)
  from bdb_reliable.get_refines [OF assms(1) this assms(3,4), of u] show ?thesis
    by (auto split: option.splits)
qed

theorem bdb_get_correct_witness:
  "\<exists>obj w'. bdb_la_storage_get exact_allocator mem_bdb () [0x6b] None True
     (mem_empty\<lparr>mw_recs := [([0x6b], encode_header header_two)]\<rparr>) = Some ((LA_STORAGE_OBJECT_GET_OK, Some obj), w') \<and>
     d_data (doc_of_object obj) = [7] \<and> d_history (doc_of_object obj) = replicate 16 1"
proof -
  let ?w = "mem_empty\<lparr>mw_recs := [([0x6b], encode_header header_two)]\<rparr>"
  have d: "decode_header (encode_header header_two) = Some header_two"
    by (intro decode_encode_header) (simp add: header_wf_def header_two_def)
  have dr: "doc_of_record (encode_header header_two) = Some (doc_of_header header_two [7])"
    by (simp add: doc_of_record_def d) (simp add: header_two_def)
  have l: "length (encode_header header_two) = 51" by (simp add: encode_header_length header_wf_def header_two_def)
  have ok: "records_ok (map_of (mw_recs ?w))" using dr l by (simp add: records_ok_def)
  have a: "abs_store (map_of (mw_recs ?w)) [0x6b] = Some (doc_of_header header_two [7])"
    by (simp add: abs_store_def dr)
  have g: "grant exact_allocator sizeof_object" "grant exact_allocator (add_sz (length [0x6b :: byte]) 1)"
    by (simp_all add: sizeof_object_def add_sz_def)
  have "d_data (doc_of_header header_two [7]) = [7]" "d_history (doc_of_header header_two [7]) = replicate 16 1"
    by (simp_all add: doc_of_header_def header_two_def)
  moreover from bdb_get_correct [OF mem.bdb_reliable_axioms ok g, of "()"]
  obtain obj w' where "bdb_la_storage_get exact_allocator mem_bdb () [0x6b] None True ?w =
      Some ((LA_STORAGE_OBJECT_GET_OK, Some obj), w')" "doc_of_object obj = doc_of_header header_two [7]"
    unfolding a option.case by blast
  ultimately show ?thesis by metis
qed

text \<open>
  Asking for a document together with a revision never finds it, whatever is stored: the
  revision is compared with a zeroed header, so only the all-zero revision passes.
\<close>

theorem bdb_get_named_revision_not_found:
  assumes "bdb_la_storage_get A B u k (Some rv) True w = Some ((r, found), w')" "rv \<noteq> replicate 16 0"
  shows "r \<noteq> LA_STORAGE_OBJECT_GET_OK \<and> found = None"
proof -
  have "\<exists>h. zeroed_header [] = Some h \<and> hrev h = replicate 16 0"
    by (simp add: zeroed_header_def decode_header_def Let_def)
  then show ?thesis using assms
    by (auto simp: bdb_la_storage_get_def split: prod.splits if_splits)
qed

theorem bdb_get_named_revision_not_found_witness:
  "bdb_la_storage_get exact_allocator mem_bdb () [0x6b] (Some (replicate 16 2)) True
     (mem_empty\<lparr>mw_recs := [([0x6b], encode_header header_two)]\<rparr>) =
   Some ((LA_STORAGE_OBJECT_GET_NOT_FOUND, None), mem_empty\<lparr>mw_recs := [([0x6b], encode_header header_two)]\<rparr>)"
proof -
  let ?w = "mem_empty\<lparr>mw_recs := [([0x6b], encode_header header_two)]\<rparr>"
  have "\<exists>r f w'. bdb_la_storage_get exact_allocator mem_bdb () [0x6b] (Some (replicate 16 2)) True ?w = Some ((r, f), w') \<and>
      w' = ?w \<and> (r = LA_STORAGE_OBJECT_GET_OK \<or> r = LA_STORAGE_OBJECT_GET_NOT_FOUND)"
    by (simp add: bdb_la_storage_get_def mem_bdb_def zeroed_header_def decode_header_def Let_def)
  then obtain r f where r: "bdb_la_storage_get exact_allocator mem_bdb () [0x6b] (Some (replicate 16 2)) True ?w = Some ((r, f), ?w)"
    "r = LA_STORAGE_OBJECT_GET_OK \<or> r = LA_STORAGE_OBJECT_GET_NOT_FOUND" by blast
  from bdb_get_named_revision_not_found [OF r(1)] r show ?thesis by simp
qed

text \<open>
  C29. Walking the changes: an iterator opened at \<open>since\<close> and asked often enough gives every document
  with a greater sequence number exactly once, in increasing order of sequence numbers and with
  its current content, and then reports the end.
\<close>

theorem bdb_changes_in_order:
  assumes "bdb_cursors B recs saved txn nextseq savedseq cpos" "records_ok (recs w)" "\<forall>n < 2 ^ 33. grant A n"
    and "bdb_la_storage_iterator_open A B u since w = Some (Some it, w1)" "fst (cursor_open_op B w) = DB_OK"
    and "card (seqs_after (recs w) (if since = 0 then None else Some (unat since))) < n"
  shows "\<exists>os w'. iterate (bdb_la_storage_iterator_next A B) n it w1 =
           Some (os, Some LA_STORAGE_OBJECT_ITERATOR_END, w') \<and>
         map seq_of os = sorted_list_of_set (seqs_after (recs w) (if since = 0 then None else Some (unat since))) \<and>
         (\<forall>obj\<in>set os. abs_store (recs w) (key obj) = Some (doc_of_object obj))"
proof -
  have g: "grant A sizeof_iterator" using assms(3) by (simp add: sizeof_iterator_def)
  have o: "recs w1 = recs w" "map_option of_le (cpos it w1) = (if since = 0 then None else Some (unat since))"
    "\<forall>q. cpos it w1 = Some q \<longrightarrow> length q = 8"
    using bdb_cursors.iterator_open_pos [OF assms(1,2) g assms(5), of u since] assms(4) by auto
  have n: "card (seqs_after (recs w1) (map_option of_le (cpos it w1))) < n"
    unfolding o(1,2) by (rule assms(6))
  have r: "records_ok (recs w1)" unfolding o(1) by (rule assms(2))
  from bdb_cursors.iterate_complete [OF assms(1) r o(3) assms(3) n] show ?thesis
    unfolding o(1,2) by blast
qed

definition mem_one :: mem_world where
  "mem_one = mem_empty\<lparr>mw_recs := [([0x6b], encode_header header_two)]\<rparr>"

lemma mem_one_ok: "records_ok (map_of (mw_recs mem_one))"
  "abs_store (map_of (mw_recs mem_one)) = [[0x6b] \<mapsto> doc_of_header header_two [7]]"
proof -
  have d: "decode_header (encode_header header_two) = Some header_two"
    by (intro decode_encode_header) (simp add: header_wf_def header_two_def)
  have dr: "doc_of_record (encode_header header_two) = Some (doc_of_header header_two [7])"
    by (simp add: doc_of_record_def d) (simp add: header_two_def)
  have l: "length (encode_header header_two) = 51" by (simp add: encode_header_length header_wf_def header_two_def)
  show "records_ok (map_of (mw_recs mem_one))" using dr l by (simp add: records_ok_def mem_one_def)
  show "abs_store (map_of (mw_recs mem_one)) = [[0x6b] \<mapsto> doc_of_header header_two [7]]"
    using dr by (auto simp: abs_store_def mem_one_def)
qed

lemma mem_one_seqs: "seqs_after (map_of (mw_recs mem_one)) None = {2}"
  by (auto simp: seqs_after_def mem_one_ok doc_of_header_def header_two_def split: if_splits)

theorem bdb_changes_in_order_witness:
  "\<exists>it w1 os w'. bdb_la_storage_iterator_open exact_allocator mem_bdb () 0 mem_one = Some (Some it, w1) \<and>
     iterate (bdb_la_storage_iterator_next exact_allocator mem_bdb) 2 it w1 =
       Some (os, Some LA_STORAGE_OBJECT_ITERATOR_END, w') \<and> map seq_of os = [2]"
proof -
  obtain it w1 where op: "bdb_la_storage_iterator_open exact_allocator mem_bdb () 0 mem_one = Some (Some it, w1)"
    by (simp add: bdb_la_storage_iterator_open_def mem_bdb_def sizeof_iterator_def)
  have co: "fst (cursor_open_op mem_bdb mem_one) = DB_OK" by (simp add: mem_bdb_def)
  have gr: "\<forall>n < 2 ^ 33. grant exact_allocator n" by simp
  from bdb_changes_in_order [OF mem.bdb_cursors_axioms mem_one_ok(1) gr op co, of 2] op show ?thesis
    by (auto simp: mem_one_seqs)
qed

text \<open>
  An iterator from a sequence number can be opened only at a number that some document has right
  now: for \<open>since > 0\<close> the cursor has to hit the number exactly, so once the document that was
  updated last has been updated again, its old number gives no iterator.
\<close>

theorem bdb_iterator_open_exact:
  assumes "bdb_cursors B recs saved txn nextseq savedseq cpos" "records_ok (recs w)"
    and "grant A sizeof_iterator" "fst (cursor_open_op B w) = DB_OK"
  shows "\<exists>it w'. bdb_la_storage_iterator_open A B u since w = Some (it, w') \<and> recs w' = recs w \<and>
    (it \<noteq> None) = (since = 0 \<or> (\<exists>k d. abs_store (recs w) k = Some d \<and> d_seq d = since))"
proof -
  have "(unat since \<in> seqs_after (recs w) None) = (\<exists>k d. abs_store (recs w) k = Some d \<and> d_seq d = since)"
    by (auto simp: seqs_after_def) (metis unsigned_word_eqI)
  with bdb_cursors.iterator_open_pos [OF assms, of u since] show ?thesis by auto
qed

theorem bdb_iterator_open_exact_witness:
  "(\<exists>w'. bdb_la_storage_iterator_open exact_allocator mem_bdb () 1 mem_one = Some (None, w')) \<and>
   (\<exists>it w'. bdb_la_storage_iterator_open exact_allocator mem_bdb () 2 mem_one = Some (Some it, w'))"
proof -
  have co: "fst (cursor_open_op mem_bdb mem_one) = DB_OK" by (simp add: mem_bdb_def)
  have gr: "grant exact_allocator sizeof_iterator" by (simp add: sizeof_iterator_def)
  have s: "(\<exists>k d. abs_store (map_of (mw_recs mem_one)) k = Some d \<and> d_seq d = x) = (x = 2)" for x
    by (auto simp: mem_one_ok doc_of_header_def header_two_def split: if_splits)
  show ?thesis
    using bdb_iterator_open_exact [OF mem.bdb_cursors_axioms mem_one_ok(1) gr co, of "()" 1]
      bdb_iterator_open_exact [OF mem.bdb_cursors_axioms mem_one_ok(1) gr co, of "()" 2]
    unfolding s by auto
qed

text \<open>
  Setting a longer history while memory is short leaves the transaction open: the handler
  returns an error after the refused \<open>realloc\<close> without aborting.
\<close>

theorem bdb_set_revs_leaks_transaction:
  assumes "bdb_reliable B recs saved txn nextseq savedseq" "\<not> txn w"
    and "recs w k = Some v" "decode_header v = Some h" "unat (rev_count h) < n" "n \<le> 1024"
    and "\<not> grant A (length v + (n - unat (rev_count h)))" "length v + 1024 < 2 ^ 32"
  shows "\<exists>w'. bdb_la_storage_set_revs A B u k revs n w = Some (LA_STORAGE_OBJECT_PUT_ERROR, w') \<and> txn w'"
  using bdb_reliable.set_revs_refused [OF assms] .

definition small_allocator :: "nat \<Rightarrow> allocator" where
  "small_allocator m = \<lparr>grant = (\<lambda>n. n \<le> m), junk = (\<lambda>_. 0), slack = (\<lambda>_. 0)\<rparr>"

theorem bdb_set_revs_leaks_transaction_witness:
  "\<exists>w'. bdb_la_storage_set_revs (small_allocator 51) mem_bdb () [0x6b] (replicate 32 5) 2 mem_one =
     Some (LA_STORAGE_OBJECT_PUT_ERROR, w') \<and> mw_txn w'"
proof -
  have d: "decode_header (encode_header header_two) = Some header_two"
    by (intro decode_encode_header) (simp add: header_wf_def header_two_def)
  have l: "length (encode_header header_two) = 51" by (simp add: encode_header_length header_wf_def header_two_def)
  show ?thesis
    by (rule bdb_set_revs_leaks_transaction [OF mem.bdb_reliable_axioms _ _ d])
      (simp_all add: mem_one_def mem_empty_def l header_two_def [THEN arg_cong [where f = rev_count]] small_allocator_def)
qed

text \<open>The result of the driver's open when a store has to be created.\<close>

lemma bdb_open_excl_not_ok:
  assumes "bdb_la_storage_open A B env path flags w = Some ((r, st), w')" "flag_create flags" "flag_excl flags"
  shows "r \<noteq> LA_STORAGE_OPEN_OK"
  using assms by (auto simp: bdb_la_storage_open_def bind_eq_Some_conv split: if_splits option.splits prod.splits)

text \<open>
  A store created through \<open>la_storage_open\<close> cannot be used: with the flags \<open>CREATE\<close> and \<open>EXCL\<close> the
  Berkeley DB driver never answers \<open>OK\<close>, and the caller treats everything else as a failure, so it
  closes the environment and returns \<open>ERROR\<close> without a handle, also when the store was made.
\<close>

theorem bdb_created_store_not_usable:
  assumes "find_driver drivers name = Some (Some (bdb_driver A B))" "flag_create flags" "flag_excl flags"
    and "la_storage_open A drivers drv (Some ()) name flags w = Some ((r, st), w')"
  shows "r = LA_STORAGE_OPEN_ERROR \<and> st = None \<and> (\<exists>w1. w' = env_close_op B w1)"
proof -
  obtain r0 s0 w0 where o: "bdb_la_storage_open A B (Some ()) name flags w = Some ((r0, s0), w0)"
    using assms(1,4) by (auto simp: la_storage_open_def bdb_driver_def bind_eq_Some_conv)
  have "r0 \<noteq> LA_STORAGE_OPEN_OK" using bdb_open_excl_not_ok [OF o assms(2,3)] .
  then show ?thesis using assms(1,4) o
    by (auto simp: la_storage_open_def bdb_driver_def bdb_la_storage_close_env_def)
qed

theorem bdb_created_store_not_usable_witness:
  "\<exists>w'. la_storage_open (spare_allocator 1) (demo_registry [0x64] (bdb_driver (spare_allocator 1) mem_bdb)) [0x64] (Some ()) [0x64]
     \<lparr>flag_create = True, flag_excl = True\<rparr> mem_empty = Some ((LA_STORAGE_OPEN_ERROR, None), w')"
proof -
  let ?A = "spare_allocator 1" and ?f = "\<lparr>flag_create = True, flag_excl = True\<rparr>"
  let ?drvs = "demo_registry [0x64] (bdb_driver ?A mem_bdb)"
  have m: "find_driver ?drvs [0x64] = Some (Some (bdb_driver ?A mem_bdb))" by (rule demo_registry_finds) simp
  have "malloc ?A (length [0x64 :: byte] + length dot_seq) =
      Some (replicate (length [0x64 :: byte] + length dot_seq + 1) 0)"
    by (rule spare_malloc) (simp add: dot_seq_def)
  then obtain p where "string_append ?A [0x64] dot_seq = Some p \<and> cstr p = Some ([0x64] @ dot_seq)"
    using string_append_room [of "[0x64]" dot_seq ?A] by (force simp: dot_seq_def)
  then have "\<exists>w'. la_storage_open ?A ?drvs [0x64] (Some ()) [0x64] ?f mem_empty = Some ((LA_STORAGE_OPEN_ERROR, None), w')"
    unfolding la_storage_open_def m
    by (simp add: bdb_driver_def bdb_la_storage_open_def sizeof_store_def mem_bdb_def
      bdb_open_seq_def bdb_la_storage_close_env_def Let_def)
  then obtain r st w' where o: "la_storage_open ?A ?drvs [0x64] (Some ()) [0x64] ?f mem_empty = Some ((r, st), w')" by blast
  from bdb_created_store_not_usable [OF m _ _ o] o show ?thesis by simp
qed

end
