(* ===== verification/LA_API.thy ===== *)
theory LA_API
  imports LA_Driver LA_Revgen
begin

text \<open>
  The database API (\<open>api/api.c\<close>) over the dispatch functions of the storage layer, the codec, the
  revision generator and the buffer: hosts, databases, documents, and views. The platform's
  parts (allocator, MD5 and \<open>printf\<close>, jansson, \<open>/dev/urandom\<close>) are collected in the record \<open>api\<close>.
\<close>

section \<open>State\<close>

text \<open>A compressor is a pair of functions that give NULL on failure (\<open>compress/compress.h\<close>).\<close>

record la_compressor =
  compressor_fn :: "byte list \<Rightarrow> byte list option"
  decompressor_fn :: "byte list \<Rightarrow> byte list option"

record api =
  ap_alloc :: allocator
  ap_hash :: hash_env
  ap_json :: jansson
  ap_random :: "byte list option"

record 'e la_host =
  ho_driver :: "byte list"
  ho_env :: 'e
  ho_compressor :: "la_compressor option"

record ('e, 's, 'i, 'w) la_db =
  db_host :: "'e la_host"
  db_store :: "('e, 's, 'i, 'w) la_object_store option"

datatype la_db_get_result = LA_DB_GET_OK | LA_DB_GET_NOT_FOUND | LA_DB_GET_ERROR

datatype la_db_put_result = LA_DB_PUT_OK | LA_DB_PUT_CONFLICT | LA_DB_PUT_INVALID_ARG | LA_DB_PUT_ERROR

datatype la_db_delete_result = LA_DB_DELETE_OK | LA_DB_DELETE_CONFLICT | LA_DB_DELETE_ERROR

datatype la_view_iterator_result = LA_VIEW_ITERATOR_GOT_NEXT | LA_VIEW_ITERATOR_END | LA_VIEW_ITERATOR_ERROR

definition LA_API_KEY_NAME :: "byte list" where
  "LA_API_KEY_NAME = [0x5f, 0x69, 0x64]"

definition LA_API_REV_NAME :: "byte list" where
  "LA_API_REV_NAME = [0x5f, 0x72, 0x65, 0x76]"

definition LA_API_DELETED_NAME :: "byte list" where
  "LA_API_DELETED_NAME = [0x5f, 0x64, 0x65, 0x6c, 0x65, 0x74, 0x65, 0x64]"

definition sizeof_host :: nat where "sizeof_host = 24"
definition sizeof_db :: nat where "sizeof_db = 16"
definition sizeof_view_iterator :: nat where "sizeof_view_iterator = 56"

section \<open>Hosts and databases\<close>

definition la_host_open ::
  "allocator \<Rightarrow> ('e, 's, 'i, 'w) registry \<Rightarrow> byte list \<Rightarrow> byte list \<Rightarrow> ('w, 'e la_host option) act" where
  "la_host_open A drivers drv hosthome w =
     (if \<not> grant A sizeof_host then Some (None, w)
      else do {
        (env, w1) \<leftarrow> la_storage_open_env drivers drv hosthome w;
        Some (map_option (\<lambda>e. \<lparr>ho_driver = drv, ho_env = e, ho_compressor = None\<rparr>) env, w1) })"

definition la_host_close :: "('e, 's, 'i, 'w) registry \<Rightarrow> 'e la_host \<Rightarrow> ('w, unit) act" where
  "la_host_close drivers host w = la_storage_close_env drivers (ho_driver host) (ho_env host) w"

definition la_host_configure_compressor :: "'e la_host \<Rightarrow> la_compressor option \<Rightarrow> 'e la_host" where
  "la_host_configure_compressor host c = host\<lparr>ho_compressor := c\<rparr>"

definition la_db_open ::
  "allocator \<Rightarrow> ('e, 's, 'i, 'w) registry \<Rightarrow> 'e la_host \<Rightarrow> byte list \<Rightarrow> open_flags \<Rightarrow>
   ('w, la_storage_open_result \<times> ('e, 's, 'i, 'w) la_db option) act" where
  "la_db_open A drivers host name flags w =
     (if \<not> grant A sizeof_db then Some ((LA_STORAGE_OPEN_ERROR, None), w)
      else do {
        ((result, st), w1) \<leftarrow> la_storage_open A drivers (ho_driver host) (Some (ho_env host)) name flags w;
        if result \<noteq> LA_STORAGE_OPEN_OK \<and> result \<noteq> LA_STORAGE_OPEN_CREATED
        then Some ((result, None), w1)
        else Some ((result, Some \<lparr>db_host = host, db_store = st\<rparr>), w1) })"

definition la_db_delete_db ::
  "('e, 's, 'i, 'w) la_db \<Rightarrow> ('w, int \<times> ('e, 's, 'i, 'w) la_db) act" where
  "la_db_delete_db db w = do {
     st \<leftarrow> db_store db;
     (_, w1) \<leftarrow> la_storage_delete_store st w;
     Some ((0, db\<lparr>db_store := None\<rparr>), w1) }"

definition la_db_close :: "('e, 's, 'i, 'w) la_db \<Rightarrow> ('w, unit) act" where
  "la_db_close db w = (case db_store db of Some st \<Rightarrow> la_storage_close st w | None \<Rightarrow> Some ((), w))"

section \<open>Reading documents\<close>

definition is_tombstone :: "jansson \<Rightarrow> la_codec_value \<Rightarrow> bool" where
  "is_tombstone J v =
     (if \<not> la_codec_is_object v then False
      else if la_codec_object_size J v > 3 then False
      else case la_codec_object_get J v LA_API_DELETED_NAME of
             None \<Rightarrow> False
           | Some x \<Rightarrow> la_codec_is_true x)"

text \<open>The bytes of an object as the codec gets them.\<close>

definition inflate :: "la_compressor option \<Rightarrow> byte list \<Rightarrow> byte list option" where
  "inflate c dat = (case c of None \<Rightarrow> Some dat | Some f \<Rightarrow> decompressor_fn f dat)"

text \<open>
  The result, the value and the revision stored at \<open>current_rev\<close> (which is set as soon as an object
  was read, also when the value cannot be parsed).
\<close>

definition la_db_get ::
  "api \<Rightarrow> ('e, 's, 'i, 'w) la_db \<Rightarrow> byte list \<Rightarrow> la_rev option \<Rightarrow>
   ('w, la_db_get_result \<times> la_codec_value option \<times> la_rev option) act" where
  "la_db_get P db k rv w = do {
     st \<leftarrow> db_store db;
     ((result, found), w1) \<leftarrow> la_storage_get st k (map_option rrev rv) True w;
     if result \<noteq> LA_STORAGE_OBJECT_GET_OK
     then Some ((if result = LA_STORAGE_OBJECT_GET_NOT_FOUND \<or> result = LA_STORAGE_OBJECT_GET_REVISION_NOT_FOUND
                 then LA_DB_GET_NOT_FOUND else LA_DB_GET_ERROR, None, None), w1)
     else do {
       object \<leftarrow> found;
       if deleted (header object) then Some ((LA_DB_GET_NOT_FOUND, None, None), w1)
       else do {
         dat \<leftarrow> la_storage_object_get_data object;
         case inflate (ho_compressor (db_host db)) dat of
           None \<Rightarrow> Some ((LA_DB_GET_ERROR, None, None), w1)
         | Some txt \<Rightarrow>
             let cur = \<lparr>rseq = doc_seq (header object), rrev = hrev (header object)\<rparr> in
             (case la_codec_loadb (ap_json P) txt of
                None \<Rightarrow> Some ((LA_DB_GET_ERROR, None, Some cur), w1)
              | Some v \<Rightarrow>
                  if is_tombstone (ap_json P) v then Some ((LA_DB_GET_NOT_FOUND, None, Some cur), w1)
                  else Some ((LA_DB_GET_OK, Some v, Some cur), w1)) } } }"

definition la_db_get_allrevs ::
  "('e, 's, 'i, 'w) la_db \<Rightarrow> byte list \<Rightarrow> ('w, int \<times> u64 option \<times> byte list option) act" where
  "la_db_get_allrevs db k w = do { st \<leftarrow> db_store db; la_storage_get_all_revs st k w }"

definition la_db_last_seq :: "('e, 's, 'i, 'w) la_db \<Rightarrow> ('w, u64) act" where
  "la_db_last_seq db w = do { st \<leftarrow> db_store db; la_storage_lastseq st w }"

definition la_db_stat :: "('e, 's, 'i, 'w) la_db \<Rightarrow> ('w, int \<times> la_storage_stat) act" where
  "la_db_stat db w = do { st \<leftarrow> db_store db; la_storage_stat_store st w }"

section \<open>Writing documents\<close>

text \<open>The callback that collects the printed document in a buffer.\<close>

definition accumulate :: "allocator \<Rightarrow> la_buffer \<Rightarrow> byte list \<Rightarrow> (bool \<times> la_buffer) option" where
  "accumulate A b c =
     (case la_buffer_append A b c (length c) of
        None \<Rightarrow> None
      | Some (rc, b') \<Rightarrow> Some (if rc \<noteq> Buf_ok then (False, b') else (True, b')))"

definition deflate :: "la_compressor option \<Rightarrow> byte list \<Rightarrow> byte list option" where
  "deflate c dat = (case c of None \<Rightarrow> Some dat | Some f \<Rightarrow> compressor_fn f dat)"

text \<open>
  The key: the caller's, or the string under \<open>_id\<close>, or 64 random digits. When the random device
  fails the digits are whatever the stack held, which is undefined.
\<close>

definition put_key :: "api \<Rightarrow> byte list option \<Rightarrow> la_codec_value \<Rightarrow> byte list option" where
  "put_key P k d =
     (case k of
        Some k' \<Rightarrow> Some k'
      | None \<Rightarrow>
          (case Option.bind (la_codec_object_get (ap_json P) d LA_API_KEY_NAME) la_codec_string_value of
             Some s \<Rightarrow> Some s
           | None \<Rightarrow>
               (case string_randhex (ap_random P) (replicate 65 0) 64 of
                  Some (rc, uuidkey) \<Rightarrow> if rc = 0 then cstr uuidkey else None
                | None \<Rightarrow> None)))"

text \<open>
  Printing the document into a fresh buffer and packing the result into an object; the length
  argument of \<open>la_storage_create_object\<close> is a \<open>uint32_t\<close>. \<open>Some None\<close> is the error return.
\<close>

definition pack_object ::
  "api \<Rightarrow> la_compressor option \<Rightarrow> nat \<Rightarrow> byte list \<Rightarrow> la_codec_value \<Rightarrow> rev \<Rightarrow> byte list option \<Rightarrow> nat \<Rightarrow>
   la_storage_object option option" where
  "pack_object P c cap k d rv revs revcount = do {
     buffer \<leftarrow> la_buffer_new (ap_alloc P) cap;
     (rc, buffer1) \<leftarrow> la_codec_dump_callback (ap_json P) d (accumulate (ap_alloc P)) buffer;
     if rc \<noteq> 0 then Some None
     else do {
       txt \<leftarrow> mem_read (la_buffer_data buffer1) 0 (la_buffer_size buffer1);
       case deflate c txt of
         None \<Rightarrow> Some None
       | Some dat \<Rightarrow> la_storage_create_object (ap_alloc P) k rv dat (length dat mod 2 ^ 32) revs revcount } }"

definition do_la_db_put ::
  "api \<Rightarrow> ('e, 's, 'i, 'w) la_db \<Rightarrow> byte list option \<Rightarrow> la_rev option \<Rightarrow> la_codec_value \<Rightarrow> bool \<Rightarrow>
   ('w, la_db_put_result \<times> la_rev option) act" where
  "do_la_db_put P db k oldrev d is_delete w =
     (if \<not> la_codec_is_object d \<or>
         (\<not> is_delete \<and> la_codec_object_get (ap_json P) d LA_API_DELETED_NAME \<noteq> None)
      then Some ((LA_DB_PUT_INVALID_ARG, None), w)
      else case la_codec_copy (ap_json P) d of
        None \<Rightarrow> Some ((LA_DB_PUT_ERROR, None), w)
      | Some copied \<Rightarrow>
        let putdoc = la_codec_object_del (ap_json P)
              (la_codec_object_del (ap_json P) copied LA_API_KEY_NAME) LA_API_REV_NAME in do {
          k' \<leftarrow> put_key P k d;
          let nextrev = snd (la_revgen (ap_hash P) putdoc (case oldrev of Some r \<Rightarrow> rseq r | None \<Rightarrow> 0)
                               (map_option rrev oldrev) is_delete);
          packed \<leftarrow> pack_object P (ho_compressor (db_host db)) 256 k' putdoc nextrev None 0;
          case packed of
            None \<Rightarrow> Some ((LA_DB_PUT_ERROR, None), w)
          | Some object \<Rightarrow> do {
              st \<leftarrow> db_store db;
              ((result, object'), w1) \<leftarrow>
                la_storage_put st (map_option rrev oldrev)
                  (object\<lparr>header := (header object)\<lparr>deleted := is_delete\<rparr>\<rparr>) w;
              Some ((case result of
                       LA_STORAGE_OBJECT_PUT_ERROR \<Rightarrow> LA_DB_PUT_ERROR
                     | LA_STORAGE_OBJECT_PUT_CONFLICT \<Rightarrow> LA_DB_PUT_CONFLICT
                     | LA_STORAGE_OBJECT_PUT_SUCCESS \<Rightarrow> LA_DB_PUT_OK,
                     Some \<lparr>rseq = doc_seq (header object'), rrev = nextrev\<rparr>), w1) } })"

definition la_db_put ::
  "api \<Rightarrow> ('e, 's, 'i, 'w) la_db \<Rightarrow> byte list option \<Rightarrow> la_rev option \<Rightarrow> la_codec_value \<Rightarrow>
   ('w, la_db_put_result \<times> la_rev option) act" where
  "la_db_put P db k rv d w = do_la_db_put P db k rv d False w"

definition la_db_delete ::
  "api \<Rightarrow> ('e, 's, 'i, 'w) la_db \<Rightarrow> byte list option \<Rightarrow> la_rev option \<Rightarrow> ('w, la_db_delete_result) act" where
  "la_db_delete P db k rv w =
     (case la_codec_object (ap_json P) of
        None \<Rightarrow> Some (LA_DB_DELETE_ERROR, w)
      | Some d \<Rightarrow> do {
          ((result, _), w1) \<leftarrow> do_la_db_put P db k rv d True w;
          Some (case result of
                  LA_DB_PUT_CONFLICT \<Rightarrow> LA_DB_DELETE_CONFLICT
                | LA_DB_PUT_OK \<Rightarrow> LA_DB_DELETE_OK
                | _ \<Rightarrow> LA_DB_DELETE_ERROR, w1) })"

text \<open>
  Storing a replicated document: the revision is the caller's. An object that could not be
  created is dereferenced before it is tested.
\<close>

definition la_db_replace ::
  "api \<Rightarrow> ('e, 's, 'i, 'w) la_db \<Rightarrow> byte list option \<Rightarrow> la_rev option \<Rightarrow> la_codec_value option \<Rightarrow>
   byte list option \<Rightarrow> nat \<Rightarrow> ('w, la_db_put_result) act" where
  "la_db_replace P db k rv d oldrevs revcount w =
     (case (k, rv, d) of
        (Some k', Some r, Some v) \<Rightarrow>
          if \<not> la_codec_is_object v then Some (LA_DB_PUT_INVALID_ARG, w)
          else (case la_buffer_new (ap_alloc P) 1024 of
            None \<Rightarrow> Some (LA_DB_PUT_ERROR, w)
          | Some buffer \<Rightarrow>
            (case la_codec_copy (ap_json P) v of
               None \<Rightarrow> Some (LA_DB_PUT_ERROR, w)
             | Some copied \<Rightarrow>
               let J = ap_json P;
                   copy = la_codec_object_del J (la_codec_object_del J
                            (la_codec_object_del J copied LA_API_KEY_NAME) LA_API_REV_NAME) LA_API_DELETED_NAME;
                   is_delete = (case la_codec_object_get J v LA_API_DELETED_NAME of
                                  Some x \<Rightarrow> la_codec_is_true x | None \<Rightarrow> False) in do {
                 (rc, buffer1) \<leftarrow> la_codec_dump_callback J copy (accumulate (ap_alloc P)) buffer;
                 if rc \<noteq> 0 then Some (LA_DB_PUT_ERROR, w)
                 else do {
                   txt \<leftarrow> mem_read (la_buffer_data buffer1) 0 (la_buffer_size buffer1);
                   case deflate (ho_compressor (db_host db)) txt of
                     None \<Rightarrow> Some (LA_DB_PUT_ERROR, w)
                   | Some dat \<Rightarrow> do {
                       made \<leftarrow> la_storage_create_object (ap_alloc P) k' (rrev r) dat (length dat mod 2 ^ 32) oldrevs revcount;
                       object \<leftarrow> made;
                       st \<leftarrow> db_store db;
                       ((result, _), w1) \<leftarrow> la_storage_replace st
                         (object\<lparr>header := (header object)\<lparr>deleted := is_delete, doc_seq := rseq r\<rparr>\<rparr>) w;
                       Some (if result \<noteq> LA_STORAGE_OBJECT_PUT_SUCCESS then LA_DB_PUT_ERROR else LA_DB_PUT_OK, w1) } } }))
      | _ \<Rightarrow> Some (LA_DB_PUT_INVALID_ARG, w))"

section \<open>Views\<close>

text \<open>
  A map function emits a list of values for a document; a reduce function combines the accumulated
  value with the next one.
\<close>

record ('e, 's, 'i, 'w) la_view_iterator =
  vi_db :: "('e, 's, 'i, 'w) la_db"
  vi_it :: 'i
  vi_map :: "(la_codec_value \<Rightarrow> la_codec_value list) option"
  vi_reduce :: "(la_codec_value option \<Rightarrow> la_codec_value \<Rightarrow> la_codec_value option) option"
  vi_accum :: "la_codec_value option"
  vi_mapped :: "la_codec_value list"

definition la_db_view ::
  "allocator \<Rightarrow> ('e, 's, 'i, 'w) la_db \<Rightarrow> (la_codec_value \<Rightarrow> la_codec_value list) option \<Rightarrow>
   (la_codec_value option \<Rightarrow> la_codec_value \<Rightarrow> la_codec_value option) option \<Rightarrow>
   ('w, ('e, 's, 'i, 'w) la_view_iterator option) act" where
  "la_db_view A db mapfn reducefn w =
     (if \<not> grant A sizeof_view_iterator then Some (None, w)
      else do {
        st \<leftarrow> db_store db;
        (it, w1) \<leftarrow> la_storage_iterator_open st 0 w;
        Some (map_option (\<lambda>i. \<lparr>vi_db = db, vi_it = i, vi_map = mapfn, vi_reduce = reducefn,
                               vi_accum = None, vi_mapped = []\<rparr>) it, w1) })"

text \<open>
  The loop of \<open>la_view_iterator_next\<close>, for at most \<open>n\<close> objects: deleted objects are skipped, the first
  other object ends it, whatever the map function emitted. \<open>Inl\<close> is a return from inside the loop.
\<close>

fun view_fetch ::
  "nat \<Rightarrow> api \<Rightarrow> ('e, 's, 'i, 'w) la_view_iterator \<Rightarrow> 'w \<Rightarrow>
   (((la_view_iterator_result \<times> la_codec_value option) + unit) \<times> ('e, 's, 'i, 'w) la_view_iterator \<times> 'w) option" where
  "view_fetch 0 P vi w = None"
| "view_fetch (Suc n) P vi w =
     (if vi_mapped vi \<noteq> [] then Some (Inr (), vi, w)
      else do {
        st \<leftarrow> db_store (vi_db vi);
        ((result, found, it'), w1) \<leftarrow> la_storage_iterator_next st (vi_it vi) w;
        let vi1 = vi\<lparr>vi_it := it'\<rparr>;
        if result = LA_STORAGE_OBJECT_ITERATOR_ERROR then Some (Inl (LA_VIEW_ITERATOR_ERROR, None), vi1, w1)
        else if result = LA_STORAGE_OBJECT_ITERATOR_END then Some (Inl (LA_VIEW_ITERATOR_END, vi_accum vi1), vi1, w1)
        else do {
          object \<leftarrow> found;
          if deleted (header object) then view_fetch n P vi1 w1
          else do {
            dat \<leftarrow> la_storage_object_get_data object;
            case inflate (ho_compressor (db_host (vi_db vi))) dat of
              None \<Rightarrow> Some (Inl (LA_VIEW_ITERATOR_ERROR, None), vi1, w1)
            | Some txt \<Rightarrow>
                (case la_codec_loadb (ap_json P) txt of
                   None \<Rightarrow> Some (Inl (LA_VIEW_ITERATOR_ERROR, None), vi1, w1)
                 | Some parsed \<Rightarrow>
                     Some (Inr (),
                       vi1\<lparr>vi_mapped := (case vi_map vi1 of Some f \<Rightarrow> f parsed | None \<Rightarrow> [parsed])\<rparr>, w1)) } } })"

text \<open>The result, the value handed out, and the iterator after the call.\<close>

definition la_view_iterator_next ::
  "nat \<Rightarrow> api \<Rightarrow> ('e, 's, 'i, 'w) la_view_iterator \<Rightarrow>
   ('w, la_view_iterator_result \<times> la_codec_value option \<times> ('e, 's, 'i, 'w) la_view_iterator) act" where
  "la_view_iterator_next n P vi w = do {
     (r, vi1, w1) \<leftarrow> view_fetch n P vi w;
     case r of
       Inl (res, v) \<Rightarrow> Some ((res, v, vi1), w1)
     | Inr _ \<Rightarrow>
         (case vi_mapped vi1 of
            [] \<Rightarrow> Some ((LA_VIEW_ITERATOR_ERROR, None, vi1), w1)
          | mapped # rest \<Rightarrow>
              let vi2 = vi1\<lparr>vi_mapped := rest,
                           vi_accum := (case vi_reduce vi1 of
                                          Some f \<Rightarrow> f (vi_accum vi1) mapped | None \<Rightarrow> vi_accum vi1)\<rparr> in
              Some ((LA_VIEW_ITERATOR_GOT_NEXT, Some mapped, vi2), w1)) }"

definition la_view_iterator_close :: "('e, 's, 'i, 'w) la_view_iterator \<Rightarrow> ('w, unit) act" where
  "la_view_iterator_close vi w = do {
     st \<leftarrow> db_store (vi_db vi); la_storage_iterator_close st (vi_it vi) w }"

section \<open>Packing a document\<close>

text \<open>The callback is the buffer's sink.\<close>

lemma accumulate_sink: "accumulate A = append_sink A"
  by (intro ext) (auto simp: accumulate_def append_sink_def split: option.split)

interpretation api_sink: byte_sink "accumulate A" buf_content "\<lambda>b. buf_inv b \<and> allocator_sane A" for A
  unfolding accumulate_sink by (rule buf_sink.byte_sink_axioms)

text \<open>Memory for documents of ordinary size.\<close>

definition ample :: "allocator \<Rightarrow> bool" where
  "ample A = (allocator_sane A \<and> (\<forall>n < 2 ^ 40. grant A n))"

lemma ample_exact [simp]: "ample exact_allocator"
  by (simp add: ample_def)

lemma accumulate_ok:
  assumes "ample A" "buf_inv b" "ptr_owned b" "capacity b \<le> bsize b + 1024" "bsize b + length c + 1024 < 2 ^ 40"
  shows "\<exists>b'. accumulate A b c = Some (True, b') \<and> buf_inv b' \<and> ptr_owned b' \<and> bsize b' = bsize b + length c \<and>
           capacity b' \<le> bsize b' + 1024 \<and> buf_content b' = buf_content b @ c"
proof -
  have A: "\<forall>n < 2 ^ 40. grant A n" "allocator_sane A" using assms(1) by (simp_all add: ample_def)
  have "capacity b \<le> bsize b + length c + 1024" using assms(4) by simp
  from append_granted [OF A assms(2,3) this order_refl assms(5)] obtain b' where
    b': "la_buffer_append A b c (length c) = Some (Buf_ok, b')" "buf_inv b'" "ptr_owned b'"
      "capacity b' \<le> bsize b + length c + 1024" "buf_content b' = buf_content b @ c" by blast
  moreover have "bsize b' = bsize b + length c"
    using b'(2,5) assms(2) by (metis buf_content_length length_append)
  ultimately show ?thesis by (simp add: accumulate_def)
qed

lemma accumulate_all:
  assumes "ample A" "buf_inv b" "ptr_owned b" "capacity b \<le> bsize b + 1024"
    and "bsize b + length (concat cs) + 1024 < 2 ^ 40"
  shows "\<exists>b'. feed_chunks (accumulate A) b cs = Some (True, b') \<and> buf_inv b' \<and> ptr_owned b' \<and>
    buf_content b' = buf_content b @ concat cs"
  using assms
proof (induction cs arbitrary: b)
  case Nil
  then show ?case by simp
next
  case (Cons c cs)
  obtain b1 where b1: "accumulate A b c = Some (True, b1)" "buf_inv b1" "ptr_owned b1" "bsize b1 = bsize b + length c"
    "capacity b1 \<le> bsize b1 + 1024" "buf_content b1 = buf_content b @ c"
    using accumulate_ok [OF Cons.prems(1-4), of c] Cons.prems(5) by auto
  then obtain b' where "feed_chunks (accumulate A) b1 cs = Some (True, b')" "buf_inv b'" "ptr_owned b'"
    "buf_content b' = buf_content b1 @ concat cs"
    using Cons.IH [OF Cons.prems(1) b1(2,3,5)] Cons.prems(5) by auto
  then show ?case using b1 by simp
qed

text \<open>
  A value that survives printing, the compressor and parsing, at ordinary size; \<open>dat\<close> are the
  bytes stored.
\<close>

definition storable :: "jansson \<Rightarrow> la_compressor option \<Rightarrow> la_codec_value \<Rightarrow> byte list \<Rightarrow> bool" where
  "storable J c v dat =
     (\<exists>cs. json_dump_chunks J v = (cs, True) \<and> length (concat cs) < 2 ^ 30 \<and> deflate c (concat cs) = Some dat \<and>
           length dat < 2 ^ 30 \<and> inflate c dat = Some (concat cs) \<and> json_loadb J (concat cs) = Some v)"

lemma fresh_buffer:
  assumes "ample A" "cap < 2 ^ 30"
  shows "\<exists>b. la_buffer_new A cap = Some b \<and> buf_inv b \<and> ptr_owned b \<and> capacity b = buf_cap cap \<and> bsize b = 0 \<and> buf_content b = []"
proof -
  have A: "\<forall>n < 2 ^ 40. grant A n" "allocator_sane A" using assms(1) by (simp_all add: ample_def)
  have "buf_cap cap < 2 ^ 40" using assms(2) by (simp add: buf_cap_eq)
  then obtain b where b: "la_buffer_new A cap = Some b"
    using A(1) by (simp add: la_buffer_new_def sizeof_la_buffer_def malloc_def Let_def)
  have "bsize b = 0" "capacity b = buf_cap cap"
    using b by (auto simp: la_buffer_new_def Let_def split: if_splits option.splits)
  then show ?thesis using buf_inv_new [OF A(2) b] b by auto
qed

text \<open>Printing into a new buffer: nothing is refused, and the buffer holds the text.\<close>

lemma accumulate_fresh:
  assumes "ample A" "cap \<le> 1024" "length (concat cs) < 2 ^ 30"
  shows "\<exists>b b'. la_buffer_new A cap = Some b \<and> feed_chunks (accumulate A) b cs = Some (True, b') \<and>
    mem_read (la_buffer_data b') 0 (la_buffer_size b') = Some (concat cs)"
proof -
  obtain b where b: "la_buffer_new A cap = Some b" "buf_inv b" "ptr_owned b" "capacity b = 1024" "bsize b = 0" "buf_content b = []"
    using fresh_buffer [OF assms(1), of cap] assms(2) by (auto simp: buf_cap_eq)
  obtain b' where b': "feed_chunks (accumulate A) b cs = Some (True, b')" "buf_inv b'" "buf_content b' = concat cs"
    using accumulate_all [OF assms(1) b(2,3), of cs] b(4-6) assms(3) by auto
  have "mem_read (la_buffer_data b') 0 (la_buffer_size b') = Some (concat cs)"
    using b'(2,3) by (simp add: mem_read_def la_buffer_data_def la_buffer_size_def buf_content_def buf_inv_def)
  then show ?thesis using b(1) b'(1) by blast
qed

lemma pack_object_stores:
  assumes "ample (ap_alloc P)" "storable (ap_json P) c v dat" "length rv = 16" "length k < 2 ^ 31" "cap \<le> 1024"
    and "0 \<notin> set k" "k \<noteq> []"
  shows "\<exists>obj. pack_object P c cap k v rv None 0 = Some (Some obj) \<and> fresh_object obj \<and> key obj = k \<and>
           object_data obj = dat \<and> hrev (header obj) = rv"
proof -
  let ?A = "ap_alloc P"
  obtain cs where cs: "json_dump_chunks (ap_json P) v = (cs, True)" "length (concat cs) < 2 ^ 30"
    "deflate c (concat cs) = Some dat" "length dat < 2 ^ 30"
    using assms(2) by (auto simp: storable_def)
  have gr: "grant ?A n" if "n < 2 ^ 40" for n using assms(1) that by (simp add: ample_def)
  obtain b b' where b: "la_buffer_new ?A cap = Some b" and b': "feed_chunks (accumulate ?A) b cs = Some (True, b')"
    and rd: "mem_read (la_buffer_data b') 0 (la_buffer_size b') = Some (concat cs)"
    using accumulate_fresh [OF assms(1,5) cs(2)] by blast
  have ld: "length dat mod 4294967296 = length dat" using cs(4) by simp
  have "\<exists>t. la_storage_create_object ?A k rv dat (length dat) None 0 = Some (Some
      \<lparr>key = k, header = \<lparr>seq = 0, doc_seq = 0, deleted = False, rev_count = 0, hrev = rv, revs_data = dat @ t\<rparr>,
       data_length = length dat\<rparr>)"
    using assms(4) cs(4) by (intro create_object_plain assms(3) gr) (simp_all add: sizeof_object_def)
  then obtain t where t: "la_storage_create_object ?A k rv dat (length dat) None 0 = Some (Some
      \<lparr>key = k, header = \<lparr>seq = 0, doc_seq = 0, deleted = False, rev_count = 0, hrev = rv, revs_data = dat @ t\<rparr>,
       data_length = length dat\<rparr>)" ..
  let ?obj = "\<lparr>key = k, header = \<lparr>seq = 0, doc_seq = 0, deleted = False, rev_count = 0, hrev = rv, revs_data = dat @ t\<rparr>,
       data_length = length dat\<rparr>"
  have "pack_object P c cap k v rv None 0 = Some (Some ?obj)"
    by (simp add: pack_object_def b la_codec_dump_callback_def cs(1,3) b' rd ld t)
  moreover have "fresh_object ?obj" using assms cs(4)
    by (simp add: fresh_object_def object_wf_def header_wf_def data_offset_def la_storage_object_total_size_def)
  moreover have "object_data ?obj = dat" by (simp add: object_data_def data_offset_def)
  ultimately show ?thesis by (intro exI [of _ ?obj]) simp
qed

section \<open>Documents over a store\<close>

text \<open>What is stored of a document: its members without the reserved names.\<close>

definition strip_members :: "(byte list \<times> la_codec_value) list \<Rightarrow> (byte list \<times> la_codec_value) list" where
  "strip_members ms = member_del (member_del ms LA_API_KEY_NAME) LA_API_REV_NAME"

definition next_rev :: "api \<Rightarrow> (byte list \<times> la_codec_value) list \<Rightarrow> la_rev option \<Rightarrow> bool \<Rightarrow> rev" where
  "next_rev P ms oldrev is_delete =
     snd (la_revgen (ap_hash P) (LA_CODEC_OBJECT (strip_members ms)) (case oldrev of Some r \<Rightarrow> rseq r | None \<Rightarrow> 0)
            (map_option rrev oldrev) is_delete)"

text \<open>A handle of the database on the store.\<close>

definition on_store :: "('e, 's, 'i, 'w) la_db \<Rightarrow> ('e, 's, 'i, 'w) driver \<Rightarrow> 's \<Rightarrow> bool" where
  "on_store db D s = (\<exists>st. db_store db = Some st \<and> st_store st = Some s \<and> st_driver st = D)"

text \<open>The update a put may make: the key is new, or the caller names the current revision.\<close>

definition admits :: "(byte list \<Rightarrow> doc option) \<Rightarrow> byte list \<Rightarrow> la_rev option \<Rightarrow> bool" where
  "admits S k oldrev =
     (case S k of None \<Rightarrow> True | Some old \<Rightarrow> map_option rrev oldrev = Some (d_rev old))"

locale document_api = object_store D s docs ready + json_objects "ap_json P"
  for D :: "('e, 's, 'i, 'w) driver" and s docs ready and P :: api +
  assumes memory: "ample (ap_alloc P)"
    and digest: "length (he_md5 (ap_hash P) m) = 16"
begin

lemma next_rev_length: "length (next_rev P ms oldrev is_delete) = 16"
  using digest by (simp add: next_rev_def la_revgen_def LA_OBJECT_REVISION_LEN_def)

lemma do_put_spec:
  assumes "ready w" "on_store db D s" "k \<noteq> []" "0 \<notin> set k" "length k < 2 ^ 31"
    and "is_delete \<or> member_get ms LA_API_DELETED_NAME = None"
    and "storable (ap_json P) (ho_compressor (db_host db)) (LA_CODEC_OBJECT (strip_members ms)) dat"
    and "\<forall>old. docs w k = Some old \<longrightarrow> map_option rrev oldrev = Some (d_rev old) \<longrightarrow> d_history old = []"
  shows "\<exists>newrev w'. do_la_db_put P db (Some k) oldrev (LA_CODEC_OBJECT ms) is_delete w =
      Some ((if admits (docs w) k oldrev then LA_DB_PUT_OK else LA_DB_PUT_CONFLICT, Some newrev), w') \<and> ready w' \<and>
    rrev newrev = next_rev P ms oldrev is_delete \<and>
    (if admits (docs w) k oldrev
     then \<exists>d. docs w' = (docs w)(k \<mapsto> d) \<and> d_rev d = rrev newrev \<and> d_data d = dat \<and> d_deleted d = is_delete \<and>
            d_doc_seq d = rseq newrev \<and> rseq newrev = (case docs w k of None \<Rightarrow> 1 | Some old \<Rightarrow> d_doc_seq old + 1) \<and>
            d_history d = (case docs w k of None \<Rightarrow> [] | Some old \<Rightarrow> d_rev old)
     else docs w' = docs w)"
proof -
  obtain st where st: "db_store db = Some st" "st_store st = Some s" "st_driver st = D"
    using assms(2) by (auto simp: on_store_def)
  let ?rv = "next_rev P ms oldrev is_delete"
  obtain obj where obj: "pack_object P (ho_compressor (db_host db)) 256 k (LA_CODEC_OBJECT (strip_members ms)) ?rv None 0 =
      Some (Some obj)" "fresh_object obj" "key obj = k" "object_data obj = dat" "hrev (header obj) = ?rv"
    using pack_object_stores [OF memory assms(7) next_rev_length assms(5) _ assms(4,3), of 256 ms oldrev is_delete] by auto
  define ob where "ob = obj\<lparr>header := (header obj)\<lparr>deleted := is_delete\<rparr>\<rparr>"
  have fo: "fresh_object ob" and ob: "key ob = k" "object_data ob = dat" "hrev (header ob) = ?rv" "deleted (header ob) = is_delete"
    using obj by (simp_all add: ob_def fresh_object_def object_wf_def header_wf_def data_offset_def object_data_def
      la_storage_object_total_size_def)
  note total = put_total [OF assms(1) fo, of "map_option rrev oldrev", unfolded ob, OF assms(8)]
  obtain r obj' w' where put: "drv_put D s (map_option rrev oldrev) ob w = Some ((r, obj'), w')" "ready w'" and
    outcome: "if docs w k = None \<or> (\<exists>old. docs w k = Some old \<and> map_option rrev oldrev = Some (d_rev old))
      then r = LA_STORAGE_OBJECT_PUT_SUCCESS \<and>
           (\<exists>d. docs w' = (docs w)(k \<mapsto> d) \<and> d_rev d = ?rv \<and> d_data d = dat \<and>
                d_deleted d = is_delete \<and> d_doc_seq d = doc_seq (header obj') \<and>
                d_doc_seq d = (case docs w k of None \<Rightarrow> 1 | Some old \<Rightarrow> d_doc_seq old + 1) \<and>
                d_history d = (case docs w k of None \<Rightarrow> [] | Some old \<Rightarrow> d_rev old))
      else r = LA_STORAGE_OBJECT_PUT_CONFLICT \<and> docs w' = docs w"
    using total by blast
  have adm: "(docs w k = None \<or> (\<exists>old. docs w k = Some old \<and> map_option rrev oldrev = Some (d_rev old))) = admits (docs w) k oldrev"
    by (auto simp: admits_def split: option.split)
  have "do_la_db_put P db (Some k) oldrev (LA_CODEC_OBJECT ms) is_delete w =
      Some ((case r of LA_STORAGE_OBJECT_PUT_ERROR \<Rightarrow> LA_DB_PUT_ERROR | LA_STORAGE_OBJECT_PUT_CONFLICT \<Rightarrow> LA_DB_PUT_CONFLICT
             | LA_STORAGE_OBJECT_PUT_SUCCESS \<Rightarrow> LA_DB_PUT_OK, Some \<lparr>rseq = doc_seq (header obj'), rrev = ?rv\<rparr>), w')"
    using assms(6) obj(1) put(1) [unfolded ob_def] st
    by (auto simp: do_la_db_put_def la_codec_is_object_def la_codec_object_get_def object_get la_codec_copy_def copy
      la_codec_object_del_def object_del put_key_def la_storage_put_def next_rev_def strip_members_def Let_def)
  then show ?thesis using outcome put(2) unfolding adm by (auto split: if_splits)
qed

text \<open>Reading gives back what is stored, unless it is deleted or parses to a tombstone.\<close>

lemma get_spec:
  assumes "ready w" "on_store db D s" "0 \<notin> set k" "length k < 2 ^ 31"
  shows "\<exists>w'. ready w' \<and> docs w' = docs w \<and> la_db_get P db k None w =
    Some (case docs w k of
            None \<Rightarrow> (LA_DB_GET_NOT_FOUND, None, None)
          | Some d \<Rightarrow>
              if d_deleted d then (LA_DB_GET_NOT_FOUND, None, None)
              else (case inflate (ho_compressor (db_host db)) (d_data d) of
                      None \<Rightarrow> (LA_DB_GET_ERROR, None, None)
                    | Some t \<Rightarrow> (case json_loadb (ap_json P) t of
                        None \<Rightarrow> (LA_DB_GET_ERROR, None, Some \<lparr>rseq = d_doc_seq d, rrev = d_rev d\<rparr>)
                      | Some v \<Rightarrow> if is_tombstone (ap_json P) v
                                  then (LA_DB_GET_NOT_FOUND, None, Some \<lparr>rseq = d_doc_seq d, rrev = d_rev d\<rparr>)
                                  else (LA_DB_GET_OK, Some v, Some \<lparr>rseq = d_doc_seq d, rrev = d_rev d\<rparr>))), w')"
proof -
  obtain st where st: "db_store db = Some st" "st_store st = Some s" "st_driver st = D"
    using assms(2) by (auto simp: on_store_def)
  show ?thesis
  proof (cases "docs w k")
    case None
    with get_doc [OF assms(1,3,4)] obtain w' where w': "ready w'" "docs w' = docs w"
      "drv_get D s k None True w = Some ((LA_STORAGE_OBJECT_GET_NOT_FOUND, None), w')" by auto
    then show ?thesis using None st by (simp add: la_db_get_def la_storage_get_def)
  next
    case (Some d)
    with get_doc [OF assms(1,3,4)] obtain w' obj where w': "ready w'" "docs w' = docs w"
      "drv_get D s k None True w = Some ((LA_STORAGE_OBJECT_GET_OK, Some obj), w')" "object_wf obj" "doc_of_object obj = d"
      by auto
    have gd: "la_storage_object_get_data obj = Some (d_data d)" and dd: "deleted (header obj) = d_deleted d"
      "doc_seq (header obj) = d_doc_seq d" "hrev (header obj) = d_rev d"
      using w'(4,5) by (auto simp: la_storage_object_get_data_def mem_read_def object_wf_def doc_of_object_def
        doc_of_header_def object_data_def)
    show ?thesis using Some st w'(1,2,3) gd dd
      by (auto simp: la_db_get_def la_storage_get_def la_codec_loadb_def Let_def split: option.split)
  qed
qed

text \<open>A value without the deletion mark is no tombstone, so it can be read back after it was put.\<close>

lemma not_tombstone:
  assumes "member_get ms LA_API_DELETED_NAME = None"
  shows "\<not> is_tombstone (ap_json P) (LA_CODEC_OBJECT (strip_members ms))"
proof -
  have "member_get (strip_members ms) LA_API_DELETED_NAME = None"
    using assms by (simp add: strip_members_def member_get_del LA_API_KEY_NAME_def LA_API_REV_NAME_def LA_API_DELETED_NAME_def)
  then show ?thesis by (simp add: is_tombstone_def la_codec_object_get_def object_get)
qed

lemma put_then_get:
  assumes "ready w" "on_store db D s" "k \<noteq> []" "0 \<notin> set k" "length k < 2 ^ 31"
    and "member_get ms LA_API_DELETED_NAME = None"
    and "storable (ap_json P) (ho_compressor (db_host db)) (LA_CODEC_OBJECT (strip_members ms)) dat"
    and "\<forall>old. docs w k = Some old \<longrightarrow> map_option rrev oldrev = Some (d_rev old) \<longrightarrow> d_history old = []" "admits (docs w) k oldrev"
  shows "\<exists>newrev w1 w2. la_db_put P db (Some k) oldrev (LA_CODEC_OBJECT ms) w = Some ((LA_DB_PUT_OK, Some newrev), w1) \<and>
    la_db_get P db k None w1 = Some ((LA_DB_GET_OK, Some (LA_CODEC_OBJECT (strip_members ms)), Some newrev), w2) \<and>
    (\<forall>k'. k' \<noteq> k \<longrightarrow> docs w1 k' = docs w k') \<and> map_option d_data (docs w1 k) = Some dat"
proof -
  from do_put_spec [OF assms(1-5) _ assms(7,8), of False] assms(6,9)
  obtain newrev w1 d where p: "la_db_put P db (Some k) oldrev (LA_CODEC_OBJECT ms) w = Some ((LA_DB_PUT_OK, Some newrev), w1)"
    "ready w1" "docs w1 = (docs w)(k \<mapsto> d)" "d_rev d = rrev newrev" "d_data d = dat" "\<not> d_deleted d" "d_doc_seq d = rseq newrev"
    by (auto simp: la_db_put_def)
  obtain t where t: "inflate (ho_compressor (db_host db)) dat = Some t" "json_loadb (ap_json P) t = Some (LA_CODEC_OBJECT (strip_members ms))"
    using assms(7) by (auto simp: storable_def)
  from get_spec [OF p(2) assms(2,4,5)] p(3-7) t not_tombstone [OF assms(6)]
  obtain w2 where "la_db_get P db k None w1 = Some ((LA_DB_GET_OK, Some (LA_CODEC_OBJECT (strip_members ms)),
      Some \<lparr>rseq = rseq newrev, rrev = rrev newrev\<rparr>), w2)" by auto
  with p(1,3,5) show ?thesis by auto
qed

text \<open>A deleted document is not found any more.\<close>

lemma delete_then_get:
  assumes "ready w" "on_store db D s" "k \<noteq> []" "0 \<notin> set k" "length k < 2 ^ 31"
    and "storable (ap_json P) (ho_compressor (db_host db)) (LA_CODEC_OBJECT []) dat"
    and "\<forall>old. docs w k = Some old \<longrightarrow> map_option rrev oldrev = Some (d_rev old) \<longrightarrow> d_history old = []"
  shows "\<exists>w1 w2. la_db_delete P db (Some k) oldrev w =
      Some (if admits (docs w) k oldrev then LA_DB_DELETE_OK else LA_DB_DELETE_CONFLICT, w1) \<and>
    (\<not> admits (docs w) k oldrev \<longrightarrow> docs w1 = docs w) \<and>
    (admits (docs w) k oldrev \<longrightarrow> la_db_get P db k None w1 = Some ((LA_DB_GET_NOT_FOUND, None, None), w2)) \<and>
    (\<forall>k'. k' \<noteq> k \<longrightarrow> docs w1 k' = docs w k')"
proof -
  have sm: "strip_members [] = []" by (simp add: strip_members_def member_del_def)
  have st: "storable (ap_json P) (ho_compressor (db_host db)) (LA_CODEC_OBJECT (strip_members [])) dat"
    unfolding sm by (rule assms(6))
  from do_put_spec [OF assms(1-5) _ st assms(7), of True]
  obtain newrev w1 where p: "do_la_db_put P db (Some k) oldrev (LA_CODEC_OBJECT []) True w =
      Some ((if admits (docs w) k oldrev then LA_DB_PUT_OK else LA_DB_PUT_CONFLICT, Some newrev), w1)" "ready w1"
    "if admits (docs w) k oldrev then \<exists>d. docs w1 = (docs w)(k \<mapsto> d) \<and> d_deleted d else docs w1 = docs w"
    by (auto split: if_splits)
  have d: "la_db_delete P db (Some k) oldrev w =
      Some (if admits (docs w) k oldrev then LA_DB_DELETE_OK else LA_DB_DELETE_CONFLICT, w1)"
    using p(1) by (simp add: la_db_delete_def la_codec_object_def object_new)
  show ?thesis
  proof (cases "admits (docs w) k oldrev")
    case True
    then obtain x where x: "docs w1 = (docs w)(k \<mapsto> x)" "d_deleted x" using p(3) by auto
    then obtain w2 where "la_db_get P db k None w1 = Some ((LA_DB_GET_NOT_FOUND, None, None), w2)"
      using get_spec [OF p(2) assms(2,4,5)] by auto
    then show ?thesis using d x True by auto
  next
    case False
    then show ?thesis using d p(3) by auto
  qed
qed

text \<open>A put that names another revision than the current one is refused and changes nothing.\<close>

lemma put_stale:
  assumes "ready w" "on_store db D s" "k \<noteq> []" "0 \<notin> set k" "length k < 2 ^ 31"
    and "member_get ms LA_API_DELETED_NAME = None"
    and "storable (ap_json P) (ho_compressor (db_host db)) (LA_CODEC_OBJECT (strip_members ms)) dat"
    and "\<not> admits (docs w) k oldrev"
  shows "\<exists>newrev w'. la_db_put P db (Some k) oldrev (LA_CODEC_OBJECT ms) w = Some ((LA_DB_PUT_CONFLICT, newrev), w') \<and>
    docs w' = docs w \<and> ready w'"
proof -
  have "\<forall>old. docs w k = Some old \<longrightarrow> map_option rrev oldrev = Some (d_rev old) \<longrightarrow> d_history old = []"
    using assms(8) by (auto simp: admits_def split: option.splits)
  from do_put_spec [OF assms(1-5) _ assms(7) this, of False] assms(6,8) show ?thesis by (auto simp: la_db_put_def)
qed

end

end
