(* ===== verification/LA_Documents.thy ===== *)
theory LA_Documents
  imports LA_API LA_BDB_Props
begin

text \<open>
  The database API over the Berkeley DB driver: the driver keeps the contract \<open>object_store\<close>, so
  that documents put through the API can be read, updated, deleted and viewed. The in-memory
  library and a small printer stand in for the platform in the examples.
\<close>

section \<open>The driver keeps the contract\<close>

locale bdb_documents = bdb_reliable B recs saved txn nextseq savedseq + json_objects "ap_json P"
  for B :: "'w bdb" and recs saved txn nextseq savedseq and P :: api +
  assumes enough_memory: "ample (ap_alloc P)"
    and digest_16: "length (he_md5 (ap_hash P) m) = 16"
begin

abbreviation bdb_docs :: "'w \<Rightarrow> byte list \<Rightarrow> doc option" where
  "bdb_docs w \<equiv> abs_store (recs w)"

abbreviation bdb_ready :: "'w \<Rightarrow> bool" where
  "bdb_ready w \<equiv> \<not> txn w \<and> records_ok (recs w)"

lemma granted: "n < 2 ^ 40 \<Longrightarrow> grant (ap_alloc P) n"
  using enough_memory by (simp add: ample_def)

lemma records_ok_upd:
  "records_ok r \<Longrightarrow> fresh_object obj \<Longrightarrow> doc_of_record v = Some d \<Longrightarrow> length v < 2 ^ 32 \<Longrightarrow> records_ok (r(key obj \<mapsto> v))"
  by (auto simp: records_ok_def fresh_object_def object_wf_def)

lemma docs_absent:
  assumes "records_ok r" "abs_store r k = None"
  shows "r k = None"
proof (cases "r k")
  case (Some v)
  then have "doc_of_record v \<noteq> None" using assms(1) by (simp add: records_ok_def)
  then show ?thesis using Some assms(2) by (simp add: abs_store_def)
qed

lemma docs_header:
  assumes "records_ok r" "abs_store r k = Some old"
  shows "\<exists>v st. r k = Some v \<and> decode_header v = Some st \<and> hrev st = d_rev old \<and> doc_seq st = d_doc_seq old \<and>
           length (d_history old) = 16 * unat (rev_count st)"
proof -
  obtain v where v: "r k = Some v" "doc_of_record v = Some old" using assms(2) by (auto simp: abs_store_def bind_eq_Some_conv)
  then show ?thesis by (auto simp: doc_of_record_def doc_of_header_def split: option.splits if_splits)
qed

end

sublocale bdb_documents \<subseteq> document_api "bdb_driver (ap_alloc P) B" "()" bdb_docs bdb_ready P
proof (unfold_locales, goal_cases)
  case (1 w k)
  have ok: "\<forall>v. recs w k = Some v \<longrightarrow> doc_of_record v \<noteq> None \<and> length v < 2 ^ 32"
    using 1(1) by (simp add: records_ok_def)
  have g: "grant (ap_alloc P) sizeof_object" "grant (ap_alloc P) (add_sz (length k) 1)"
    using 1(3) by (auto intro!: granted simp: sizeof_object_def add_sz_small)
  from get_refines [OF ok g, of "()"] obtain w' where w': "recs w' = recs w" "txn w' = txn w" and
    r: "case bdb_docs w k of
       None \<Rightarrow> bdb_la_storage_get (ap_alloc P) B () k None True w = Some ((LA_STORAGE_OBJECT_GET_NOT_FOUND, None), w')
     | Some d \<Rightarrow> \<exists>obj. bdb_la_storage_get (ap_alloc P) B () k None True w = Some ((LA_STORAGE_OBJECT_GET_OK, Some obj), w') \<and>
                   key obj = k \<and> doc_of_object obj = d \<and> (0 \<notin> set k \<longrightarrow> object_wf obj)" by blast
  have d: "drv_get (bdb_driver (ap_alloc P) B) = bdb_la_storage_get (ap_alloc P) B" by (simp add: bdb_driver_def)
  have rdy: "bdb_ready w'" "bdb_docs w' = bdb_docs w" unfolding w' using 1(1) by simp_all
  show ?case
  proof (cases "bdb_docs w k")
    case None
    with r have "bdb_la_storage_get (ap_alloc P) B () k None True w = Some ((LA_STORAGE_OBJECT_GET_NOT_FOUND, None), w')"
      by simp
    with rdy None show ?thesis unfolding d by (intro exI [of _ w']) simp
  next
    case (Some x)
    with r obtain obj where "bdb_la_storage_get (ap_alloc P) B () k None True w =
        Some ((LA_STORAGE_OBJECT_GET_OK, Some obj), w')" "doc_of_object obj = x" "object_wf obj" using 1(2) by auto
    with rdy Some show ?thesis unfolding d by (intro exI [of _ w']) simp
  qed
next
  case (2 w obj rv)
  have "recs w (key obj) = None" using docs_absent [OF conjunct2 [OF 2(1)] 2(3)] .
  moreover have f: "object_wf obj" "rev_count (header obj) = 0" "la_storage_object_total_size obj < 2 ^ 32"
    using 2(2) by (simp_all add: fresh_object_def)
  ultimately obtain obj' w' v where p:
    "bdb_la_storage_put (ap_alloc P) B () rv obj w = Some ((LA_STORAGE_OBJECT_PUT_SUCCESS, obj'), w')"
    "\<not> txn w'" "recs w' = (recs w)(key obj \<mapsto> v)" "length v < 2 ^ 32" "doc_seq (header obj') = 1"
    "doc_of_record v = Some ((doc_of_object obj)\<lparr>d_seq := word_of_nat (nextseq w), d_doc_seq := 1, d_history := []\<rparr>)"
    using put_creates [of w obj "ap_alloc P" "()" rv] 2(1) by metis
  have "records_ok (recs w')" using records_ok_upd [OF _ 2(2) p(6,4)] 2(1) p(3) by simp
  then show ?case using p abs_store_upd [OF p(6)] by (fastforce simp: bdb_driver_def)
next
  case (3 w obj old rv)
  then obtain v st where "recs w (key obj) = Some v" "decode_header v = Some st" "hrev st = d_rev old"
    using docs_header by blast
  with put_conflicts [of w obj v st rv "ap_alloc P" "()"] 3 show ?case by (auto simp: bdb_driver_def)
next
  case (4 w obj old)
  then obtain v st where st: "recs w (key obj) = Some v" "decode_header v = Some st" "hrev st = d_rev old"
    "doc_seq st = d_doc_seq old" "length (d_history old) = 16 * unat (rev_count st)"
    using docs_header by blast
  have c0: "rev_count st = 0" using st(5) 4(4) by (simp add: unat_eq_zero)
  have f: "object_wf obj" "rev_count (header obj) = rev_count st" "unat (rev_count st) < 1024"
    "la_storage_object_total_size obj + 16 < 2 ^ 32" "grant (ap_alloc P) (la_storage_object_total_size obj + 16)"
    using 4(2) c0 by (auto simp: fresh_object_def intro!: granted)
  have h: "d_history (doc_of_object obj) = []"
    using 4(2) by (simp add: doc_of_object_def doc_of_header_def fresh_object_def)
  obtain obj' w' v' where p:
    "bdb_la_storage_put (ap_alloc P) B () (Some (hrev st)) obj w = Some ((LA_STORAGE_OBJECT_PUT_SUCCESS, obj'), w')"
    "\<not> txn w'" "recs w' = (recs w)(key obj \<mapsto> v')" "length v' < 2 ^ 32" "doc_seq (header obj') = doc_seq st + 1"
    "doc_of_record v' = Some ((doc_of_object obj)\<lparr>d_seq := word_of_nat (nextseq w), d_doc_seq := doc_seq st + 1,
        d_history := hrev st @ d_history (doc_of_object obj)\<rparr>)"
    using put_updates [OF _ f(1) st(1,2) f(2,3) refl f(4,5), of "()"] 4(1) by blast
  have "records_ok (recs w')" using records_ok_upd [OF _ 4(2) p(6,4)] 4(1) p(3) by simp
  then show ?case using p abs_store_upd [OF p(6)] st(3,4) h by (fastforce simp: bdb_driver_def)
next
  case 5
  show ?case by (rule enough_memory)
next
  case (6 m)
  show ?case by (rule digest_16)
qed

context bdb_documents
begin

text \<open>
  A document that has been updated once has a revision in its history, and an object made by the API
  has none: the driver announces more bytes than the object's block has.
\<close>

lemma put_again_overruns:
  assumes "bdb_ready w" "on_store db (bdb_driver (ap_alloc P) B) ()" "k \<noteq> []" "0 \<notin> set k" "length k < 2 ^ 31"
    and "member_get ms LA_API_DELETED_NAME = None"
    and "storable (ap_json P) (ho_compressor (db_host db)) (LA_CODEC_OBJECT (strip_members ms)) dat"
    and "bdb_docs w k = Some old" "rrev r = d_rev old" "d_history old \<noteq> []" "length (d_history old) < 16 * 1024"
    and "\<And>n. slack (ap_alloc P) n = 0"
  shows "la_db_put P db (Some k) (Some r) (LA_CODEC_OBJECT ms) w = None"
proof -
  obtain st where st: "db_store db = Some st" "st_store st = Some ()" "st_driver st = bdb_driver (ap_alloc P) B"
    using assms(2) by (auto simp: on_store_def)
  let ?rv = "next_rev P ms (Some r) False"
  obtain obj where obj: "pack_object P (ho_compressor (db_host db)) 256 k (LA_CODEC_OBJECT (strip_members ms)) ?rv None 0 =
      Some (Some obj)" "fresh_object obj" "key obj = k"
    using pack_object_stores [OF memory assms(7) next_rev_length assms(5) _ assms(4,3), of 256 ms "Some r" False] by auto
  define ob where "ob = obj\<lparr>header := (header obj)\<lparr>deleted := False\<rparr>\<rparr>"
  have ob: "object_wf ob" "key ob = k" "rev_count (header ob) = 0" "la_storage_object_total_size ob < 2 ^ 31"
    using obj by (simp_all add: ob_def fresh_object_def object_wf_def header_wf_def data_offset_def la_storage_object_total_size_def)
  obtain v h where h: "recs w k = Some v" "decode_header v = Some h" "hrev h = d_rev old"
    "length (d_history old) = 16 * unat (rev_count h)"
    using docs_header [OF conjunct2 [OF assms(1)] assms(8)] by blast
  have "0 < unat (rev_count h)" "unat (rev_count h) < 1024" using h(4) assms(10,11) by (cases "unat (rev_count h)"; simp)+
  then have "bdb_la_storage_put (ap_alloc P) B () (Some (rrev r)) ob w = None"
    using assms(1,9,12) ob h by (intro put_overruns [where v = v and st = h]) auto
  then show ?thesis using assms(6) obj(1) st unfolding ob_def
    by (simp add: la_db_put_def do_la_db_put_def la_codec_is_object_def la_codec_object_get_def object_get la_codec_copy_def
      copy la_codec_object_del_def object_del put_key_def la_storage_put_def next_rev_def strip_members_def Let_def bdb_driver_def)
qed

lemmas bdb_put_then_get = put_then_get
lemmas bdb_delete_then_get = delete_then_get
lemmas bdb_put_stale = put_stale

end

section \<open>A platform for the examples\<close>

definition demo_members :: "(byte list \<times> la_codec_value) list" where
  "demo_members = [([0x61], LA_CODEC_INTEGER 1)]"

definition demo_text :: "byte list" where
  "demo_text = [0x7b, 0x22, 0x61, 0x22, 0x3a, 0x31, 0x7d]"

definition demo_api :: api where
  "demo_api =
     \<lparr>ap_alloc = exact_allocator,
      ap_hash = \<lparr>he_alloc = exact_allocator, he_fmt_e = (\<lambda>_. []), he_md5 = (\<lambda>m. replicate 16 (word_of_nat (length m)))\<rparr>,
      ap_json = tree_json (\<lambda>v. if v = LA_CODEC_OBJECT demo_members then [[0x7b], drop 1 demo_text] else [[0x7b, 0x7d]])
                  (\<lambda>t. if t = demo_text then Some (LA_CODEC_OBJECT demo_members)
                       else if t = [0x7b, 0x7d] then Some (LA_CODEC_OBJECT []) else None),
      ap_random = None\<rparr>"

definition demo_db :: "(unit, unit, nat, mem_world) la_db" where
  "demo_db =
     \<lparr>db_host = \<lparr>ho_driver = [0x42, 0x44, 0x42], ho_env = (), ho_compressor = None\<rparr>,
      db_store = Some \<lparr>st_env = Some (), st_store = Some (), st_driver = bdb_driver exact_allocator mem_bdb\<rparr>\<rparr>"

interpretation demo: bdb_documents mem_bdb "\<lambda>w. map_of (mw_recs w)" "\<lambda>w. map_of (mw_saved w)" mw_txn mw_seq mw_savedseq demo_api
  by unfold_locales (simp_all add: demo_api_def tree_json_def)

lemma demo_facts:
  "\<not> mw_txn mem_empty" "records_ok (map_of (mw_recs mem_empty))" "abs_store (map_of (mw_recs mem_empty)) k = None"
  "on_store demo_db (bdb_driver (ap_alloc demo_api) mem_bdb) ()" "member_get demo_members LA_API_DELETED_NAME = None"
  "strip_members demo_members = demo_members"
  "storable (ap_json demo_api) (ho_compressor (db_host demo_db)) (LA_CODEC_OBJECT (strip_members demo_members)) demo_text"
  "storable (ap_json demo_api) (ho_compressor (db_host demo_db)) (LA_CODEC_OBJECT []) [0x7b, 0x7d]"
  by (simp_all add: mem_empty_def records_ok_def abs_store_def on_store_def demo_db_def demo_api_def demo_members_def
    LA_API_DELETED_NAME_def strip_members_def member_del_def LA_API_KEY_NAME_def LA_API_REV_NAME_def storable_def
    tree_json_def deflate_def inflate_def demo_text_def)

section \<open>Views\<close>

text \<open>The client's loop over a view: the values handed out, the last result, and its value.\<close>

fun view_collect ::
  "nat \<Rightarrow> nat \<Rightarrow> api \<Rightarrow> ('e, 's, 'i, 'w) la_view_iterator \<Rightarrow> 'w \<Rightarrow>
   (la_codec_value list \<times> la_view_iterator_result \<times> la_codec_value option) option" where
  "view_collect 0 m P vi w = None"
| "view_collect (Suc n) m P vi w =
     (case la_view_iterator_next m P vi w of
        None \<Rightarrow> None
      | Some ((r, v, vi'), w') \<Rightarrow>
          if r = LA_VIEW_ITERATOR_GOT_NEXT
          then map_option (\<lambda>(vs, e). (the v # vs, e)) (view_collect n m P vi' w')
          else Some ([], r, v))"

text \<open>What the map function emits for the live ones of some objects, and what the reduce function makes of values.\<close>

definition live_values :: "jansson \<Rightarrow> la_compressor option \<Rightarrow> la_storage_object list \<Rightarrow> la_codec_value list" where
  "live_values J c os =
     map (\<lambda>obj. the (json_loadb J (the (inflate c (object_data obj))))) (filter (\<lambda>obj. \<not> deleted (header obj)) os)"

definition emitted :: "(la_codec_value \<Rightarrow> la_codec_value list) option \<Rightarrow> la_codec_value list \<Rightarrow> la_codec_value list" where
  "emitted mapfn vs = concat (map (case mapfn of Some f \<Rightarrow> f | None \<Rightarrow> (\<lambda>v. [v])) vs)"

definition reduced ::
  "(la_codec_value option \<Rightarrow> la_codec_value \<Rightarrow> la_codec_value option) option \<Rightarrow> la_codec_value option \<Rightarrow>
   la_codec_value list \<Rightarrow> la_codec_value option" where
  "reduced reducefn a vs = (case reducefn of Some f \<Rightarrow> foldl f a vs | None \<Rightarrow> a)"

definition readable :: "jansson \<Rightarrow> la_compressor option \<Rightarrow> la_storage_object \<Rightarrow> bool" where
  "readable J c obj = (object_wf obj \<and> (\<exists>t v. inflate c (object_data obj) = Some t \<and> json_loadb J t = Some v))"

lemma readable_data:
  "readable J c obj \<Longrightarrow> la_storage_object_get_data obj = Some (object_data obj)"
  by (simp add: readable_def object_wf_def la_storage_object_get_data_def object_data_def mem_read_def)

text \<open>Values that wait are handed out one by one.\<close>

lemma collect_pending:
  assumes "vi_mapped vi = x # xs"
  shows "view_collect (Suc N) (Suc m) P vi w = map_option (\<lambda>(vs, e). (x # vs, e))
     (view_collect N (Suc m) P (vi\<lparr>vi_mapped := xs, vi_accum := reduced (vi_reduce vi) (vi_accum vi) [x]\<rparr>) w)"
proof -
  have "la_view_iterator_next (Suc m) P vi w = Some ((LA_VIEW_ITERATOR_GOT_NEXT, Some x,
      vi\<lparr>vi_mapped := xs, vi_accum := reduced (vi_reduce vi) (vi_accum vi) [x]\<rparr>), w)"
    using assms by (simp add: la_view_iterator_next_def Let_def reduced_def split: option.split)
  then show ?thesis by simp
qed

text \<open>
  Fetching skips the deleted objects: it ends at the end of the iteration, or with the values of the
  first live object.
\<close>

lemma fetch_first_live:
  assumes "iterate (drv_iterator_next D) n (vi_it vi) w = Some (os, Some LA_STORAGE_OBJECT_ITERATOR_END, w')"
    and "db_store (vi_db vi) = Some st" "st_driver st = D" "vi_mapped vi = []" "n < m"
    and "\<forall>obj\<in>set os. \<not> deleted (header obj) \<longrightarrow> readable (ap_json P) (ho_compressor (db_host (vi_db vi))) obj"
    and "\<forall>it w. \<forall>obj it' w1. drv_iterator_next D it w = Some ((LA_STORAGE_OBJECT_ITERATOR_GOT_NEXT, obj, it'), w1) \<longrightarrow> obj \<noteq> None"
  shows "(live_values (ap_json P) (ho_compressor (db_host (vi_db vi))) os = [] \<and>
          (\<exists>it. view_fetch m P vi w = Some (Inl (LA_VIEW_ITERATOR_END, vi_accum vi), vi\<lparr>vi_it := it\<rparr>, w'))) \<or>
         (\<exists>it1 w1 v os1 n1. view_fetch m P vi w = Some (Inr (), vi\<lparr>vi_it := it1, vi_mapped := emitted (vi_map vi) [v]\<rparr>, w1) \<and>
            n1 < n \<and> iterate (drv_iterator_next D) n1 it1 w1 = Some (os1, Some LA_STORAGE_OBJECT_ITERATOR_END, w') \<and> set os1 \<subseteq> set os \<and>
            live_values (ap_json P) (ho_compressor (db_host (vi_db vi))) os =
              v # live_values (ap_json P) (ho_compressor (db_host (vi_db vi))) os1)"
  using assms
proof (induction n arbitrary: vi w os m)
  case 0
  then show ?case by simp
next
  case (Suc n)
  let ?J = "ap_json P" and ?c = "ho_compressor (db_host (vi_db vi))"
  obtain m' where m: "m = Suc m'" "n < m'" using Suc.prems(5) by (cases m) auto
  obtain r ob it' w1 where nx: "drv_iterator_next D (vi_it vi) w = Some ((r, ob, it'), w1)"
    using Suc.prems(1) by (auto split: option.splits)
  have sn: "la_storage_iterator_next st (vi_it vi) w = Some ((r, ob, it'), w1)"
    using nx Suc.prems(3) by (simp add: la_storage_iterator_next_def)
  show ?case
  proof (cases "r = LA_STORAGE_OBJECT_ITERATOR_GOT_NEXT")
    case False
    then have e: "os = []" "r = LA_STORAGE_OBJECT_ITERATOR_END" "w1 = w'" using Suc.prems(1) nx by auto
    have "view_fetch m P vi w = Some (Inl (LA_VIEW_ITERATOR_END, vi_accum vi), vi\<lparr>vi_it := it'\<rparr>, w')"
      using m(1) Suc.prems(2,4) sn e by (simp add: Let_def)
    then show ?thesis using e(1) by (auto simp: live_values_def)
  next
    case True
    then obtain obj where ob: "ob = Some obj" using Suc.prems(7) nx by blast
    obtain os1 where os1: "iterate (drv_iterator_next D) n it' w1 = Some (os1, Some LA_STORAGE_OBJECT_ITERATOR_END, w')"
      "os = obj # os1" using Suc.prems(1) nx True ob by (auto split: option.splits)
    show ?thesis
    proof (cases "deleted (header obj)")
      case del: True
      have vf: "view_fetch m P vi w = view_fetch m' P (vi\<lparr>vi_it := it'\<rparr>) w1"
        using m(1) Suc.prems(2,4) sn True ob del by (simp add: Let_def)
      have lv: "live_values ?J ?c os = live_values ?J ?c os1" using del os1(2) by (simp add: live_values_def)
      let ?vi = "vi\<lparr>vi_it := it'\<rparr>"
      have it1: "iterate (drv_iterator_next D) n (vi_it ?vi) w1 = Some (os1, Some LA_STORAGE_OBJECT_ITERATOR_END, w')"
        using os1(1) by simp
      have db1: "db_store (vi_db ?vi) = Some st" "vi_mapped ?vi = []" using Suc.prems(2,4) by simp_all
      have rd1: "\<forall>obj\<in>set os1. \<not> deleted (header obj) \<longrightarrow> readable ?J (ho_compressor (db_host (vi_db ?vi))) obj"
        using Suc.prems(6) os1(2) by simp
      have sub: "set os1 \<subseteq> set os" using os1(2) by auto
      from Suc.IH [OF it1 db1(1) Suc.prems(3) db1(2) m(2) rd1 Suc.prems(7)] show ?thesis
      proof (elim disjE conjE exE, goal_cases)
        case (1 it)
        then show ?thesis unfolding vf lv by (intro disjI1 conjI exI [of _ it]) simp_all
      next
        case (2 it1 w2 v os2 n1)
        then show ?thesis unfolding vf lv using sub
          by (intro disjI2 exI [of _ it1] exI [of _ w2] exI [of _ v] exI [of _ os2] exI [of _ n1]) auto
      qed
    next
      case live: False
      then have rd: "readable ?J ?c obj" using Suc.prems(6) os1(2) by simp
      then obtain t v where tv: "inflate ?c (object_data obj) = Some t" "json_loadb ?J t = Some v"
        by (auto simp: readable_def)
      have em: "(case vi_map vi of Some f \<Rightarrow> f v | None \<Rightarrow> [v]) = emitted (vi_map vi) [v]"
        by (simp add: emitted_def split: option.split)
      have "view_fetch m P vi w = Some (Inr (), vi\<lparr>vi_it := it', vi_mapped := emitted (vi_map vi) [v]\<rparr>, w1)"
        using m(1) Suc.prems(2,4) sn True ob live tv readable_data [OF rd] em by (simp add: Let_def la_codec_loadb_def)
      moreover have "live_values ?J ?c os = v # live_values ?J ?c os1"
        using live tv os1(2) by (simp add: live_values_def)
      ultimately show ?thesis using os1 by (intro disjI2 exI [of _ it'] exI [of _ w1] exI [of _ v] exI [of _ os1] exI [of _ n]) auto
    qed
  qed
qed

text \<open>
  Asked often enough, the iterator hands out what waits and then everything the map function emits
  for the live objects ahead, and ends with the reduced value.
\<close>

lemma collect_all:
  assumes "iterate (drv_iterator_next D) n (vi_it vi) w = Some (os, Some LA_STORAGE_OBJECT_ITERATOR_END, w')"
    and "db_store (vi_db vi) = Some st" "st_driver st = D" "n \<le> m"
    and "\<forall>obj\<in>set os. \<not> deleted (header obj) \<longrightarrow> readable (ap_json P) (ho_compressor (db_host (vi_db vi))) obj"
    and "\<forall>it w. \<forall>obj it' w1. drv_iterator_next D it w = Some ((LA_STORAGE_OBJECT_ITERATOR_GOT_NEXT, obj, it'), w1) \<longrightarrow> obj \<noteq> None"
    and "\<forall>v. emitted (vi_map vi) [v] \<noteq> []"
    and "vs = vi_mapped vi @ emitted (vi_map vi) (live_values (ap_json P) (ho_compressor (db_host (vi_db vi))) os)"
    and "length vs < N"
  shows "view_collect N (Suc m) P vi w = Some (vs, LA_VIEW_ITERATOR_END, reduced (vi_reduce vi) (vi_accum vi) vs)"
  using assms
proof (induction N arbitrary: vi w os n vs)
  case 0
  then show ?case by simp
next
  case (Suc N)
  let ?J = "ap_json P" and ?c = "ho_compressor (db_host (vi_db vi))"
  have step: "view_collect (Suc N) (Suc m) P vi1 w1 =
      Some (x # xs @ ys, LA_VIEW_ITERATOR_END, reduced (vi_reduce vi) (vi_accum vi) (x # xs @ ys))"
    if "vi1 = vi\<lparr>vi_it := it1, vi_mapped := x # xs\<rparr>" "n1 \<le> m" "set os1 \<subseteq> set os" "length (xs @ ys) < N"
      "iterate (drv_iterator_next D) n1 it1 w1 = Some (os1, Some LA_STORAGE_OBJECT_ITERATOR_END, w')"
      "ys = emitted (vi_map vi) (live_values ?J ?c os1)" for vi1 it1 x xs w1 n1 os1 ys
  proof -
    let ?vi = "vi1\<lparr>vi_mapped := xs, vi_accum := reduced (vi_reduce vi1) (vi_accum vi1) [x]\<rparr>"
    have "view_collect N (Suc m) P ?vi w1 = Some (xs @ ys, LA_VIEW_ITERATOR_END, reduced (vi_reduce ?vi) (vi_accum ?vi) (xs @ ys))"
    proof (rule Suc.IH)
      show "\<forall>obj\<in>set os1. \<not> deleted (header obj) \<longrightarrow> readable ?J (ho_compressor (db_host (vi_db ?vi))) obj"
        using Suc.prems(5) that(1,3) by auto
    qed (use that Suc.prems in simp_all)
    moreover have "reduced (vi_reduce ?vi) (vi_accum ?vi) (xs @ ys) = reduced (vi_reduce vi) (vi_accum vi) (x # xs @ ys)"
      using that(1) by (simp add: reduced_def split: option.split)
    ultimately show ?thesis using collect_pending [of vi1 x xs N m P w1] that(1) by simp
  qed
  have nm: "n < Suc m" using Suc.prems(4) by simp
  show ?case
  proof (cases "vi_mapped vi")
    case (Cons x xs)
    then have "vi = vi\<lparr>vi_it := vi_it vi, vi_mapped := x # xs\<rparr>" by simp
    from step [OF this Suc.prems(4) order_refl _ Suc.prems(1) refl] Suc.prems(8,9) Cons show ?thesis by simp
  next
    case Nil
    from fetch_first_live [OF Suc.prems(1-3) Nil nm Suc.prems(5,6)] show ?thesis
    proof (elim disjE conjE exE, goal_cases)
      case (1 it)
      then show ?thesis using Suc.prems(8) Nil by (simp add: la_view_iterator_next_def emitted_def reduced_def split: option.split)
    next
      case (2 it1 w1 v os1 n1)
      obtain x xs where em: "emitted (vi_map vi) [v] = x # xs" using Suc.prems(7) by (metis list.exhaust)
      let ?ys = "emitted (vi_map vi) (live_values ?J ?c os1)"
      let ?vi = "vi\<lparr>vi_it := it1, vi_mapped := x # xs\<rparr>"
      have vs: "vs = x # xs @ ?ys" using Suc.prems(8) Nil em 2 by (simp add: emitted_def)
      have "la_view_iterator_next (Suc m) P vi w = la_view_iterator_next (Suc m) P ?vi w1"
        using 2(1) em by (simp add: la_view_iterator_next_def)
      then have eq: "view_collect (Suc N) (Suc m) P vi w = view_collect (Suc N) (Suc m) P ?vi w1" by simp
      have n1: "n1 \<le> m" using 2(2) Suc.prems(4) by simp
      show ?thesis unfolding eq vs by (rule step [OF refl n1 2(4) _ 2(3) refl]) (use vs Suc.prems(9) in simp)
    qed
  qed
qed

lemma bdb_next_gives:
  "bdb_la_storage_iterator_next A B it w = Some ((LA_STORAGE_OBJECT_ITERATOR_GOT_NEXT, obj, it'), w1) \<Longrightarrow> obj \<noteq> None"
  by (auto simp: bdb_la_storage_iterator_next_def bind_eq_Some_conv split: prod.splits if_splits option.splits)

text \<open>A world with one live document.\<close>

definition header_demo :: la_storage_object_header where
  "header_demo = \<lparr>seq = 1, doc_seq = 1, deleted = False, rev_count = 0, hrev = replicate 16 2, revs_data = demo_text\<rparr>"

definition mem_demo :: mem_world where
  "mem_demo = mem_empty\<lparr>mw_recs := [([0x6b], encode_header header_demo)]\<rparr>"

lemma mem_demo_ok: "records_ok (map_of (mw_recs mem_demo))" "\<not> mw_txn mem_demo"
  "abs_store (map_of (mw_recs mem_demo)) = [[0x6b] \<mapsto> doc_of_header header_demo demo_text]"
proof -
  have d: "decode_header (encode_header header_demo) = Some header_demo"
    by (intro decode_encode_header) (simp add: header_wf_def header_demo_def)
  have dr: "doc_of_record (encode_header header_demo) = Some (doc_of_header header_demo demo_text)"
    by (simp add: doc_of_record_def d) (simp add: header_demo_def)
  have "length (encode_header header_demo) = 41" by (simp add: encode_header_length header_wf_def header_demo_def demo_text_def)
  then show "records_ok (map_of (mw_recs mem_demo))" using dr by (simp add: records_ok_def mem_demo_def)
  show "\<not> mw_txn mem_demo" by (simp add: mem_demo_def mem_empty_def)
  show "abs_store (map_of (mw_recs mem_demo)) = [[0x6b] \<mapsto> doc_of_header header_demo demo_text]"
    using dr by (auto simp: abs_store_def mem_demo_def)
qed

lemma mem_demo_seqs: "seqs_after (map_of (mw_recs mem_demo)) None = {1}"
  by (auto simp: seqs_after_def mem_demo_ok doc_of_header_def header_demo_def split: if_splits)

section \<open>Properties\<close>

text \<open>
  C2. A document put through \<open>la_db_put\<close> can be read back with \<open>la_db_get\<close>: for a key that is new, or with
  the current revision of a document that has not been updated yet (the next update runs out of the block of the object), the put
  succeeds, and the following get gives the document without its \<open>_id\<close> and \<open>_rev\<close> members, under the revision the put
  returned. No other document changes. (The library does not fail, there is memory, and the
  document has no \<open>_deleted\<close> member and survives printing, compression and parsing.)
\<close>

theorem db_put_get_roundtrip:
  assumes "bdb_documents B recs saved txn nextseq savedseq P" "\<not> txn w \<and> records_ok (recs w)"
    and "on_store db (bdb_driver (ap_alloc P) B) ()" "k \<noteq> []" "0 \<notin> set k" "length k < 2 ^ 31"
    and "member_get ms LA_API_DELETED_NAME = None"
    and "storable (ap_json P) (ho_compressor (db_host db)) (LA_CODEC_OBJECT (strip_members ms)) dat"
    and "\<forall>old. abs_store (recs w) k = Some old \<longrightarrow> map_option rrev oldrev = Some (d_rev old) \<longrightarrow> d_history old = []"
    and "admits (abs_store (recs w)) k oldrev"
  shows "\<exists>newrev w1 w2. la_db_put P db (Some k) oldrev (LA_CODEC_OBJECT ms) w = Some ((LA_DB_PUT_OK, Some newrev), w1) \<and>
    la_db_get P db k None w1 = Some ((LA_DB_GET_OK, Some (LA_CODEC_OBJECT (strip_members ms)), Some newrev), w2) \<and>
    (\<forall>k'. k' \<noteq> k \<longrightarrow> abs_store (recs w1) k' = abs_store (recs w) k')"
  using bdb_documents.bdb_put_then_get [OF assms(1) assms(2-10)] by blast

theorem db_put_get_roundtrip_witness:
  "\<exists>newrev w1 w2. la_db_put demo_api demo_db (Some [0x6b]) None (LA_CODEC_OBJECT demo_members) mem_empty =
     Some ((LA_DB_PUT_OK, Some newrev), w1) \<and>
   la_db_get demo_api demo_db [0x6b] None w1 = Some ((LA_DB_GET_OK, Some (LA_CODEC_OBJECT demo_members), Some newrev), w2)"
proof -
  have "\<not> mw_txn mem_empty \<and> records_ok (map_of (mw_recs mem_empty))" using demo_facts(1,2) by simp
  from db_put_get_roundtrip [OF demo.bdb_documents_axioms this demo_facts(4) _ _ _ demo_facts(5,7), of "[0x6b]" None]
  show ?thesis by (auto simp: demo_facts(3,6) admits_def)
qed

text \<open>
  C6. Optimistic concurrency: \<open>la_db_put\<close> under a key that exists, with any revision but the current one
  or with none, reports a conflict and leaves every document as it was, with no transaction open.
\<close>

theorem db_put_stale_conflict:
  assumes "bdb_documents B recs saved txn nextseq savedseq P" "\<not> txn w \<and> records_ok (recs w)"
    and "on_store db (bdb_driver (ap_alloc P) B) ()" "k \<noteq> []" "0 \<notin> set k" "length k < 2 ^ 31"
    and "member_get ms LA_API_DELETED_NAME = None"
    and "storable (ap_json P) (ho_compressor (db_host db)) (LA_CODEC_OBJECT (strip_members ms)) dat"
    and "\<not> admits (abs_store (recs w)) k oldrev"
  shows "\<exists>newrev w'. la_db_put P db (Some k) oldrev (LA_CODEC_OBJECT ms) w = Some ((LA_DB_PUT_CONFLICT, newrev), w') \<and>
    abs_store (recs w') = abs_store (recs w) \<and> \<not> txn w' \<and> records_ok (recs w')"
  using bdb_documents.bdb_put_stale [OF assms(1) assms(2-9)] .

theorem db_put_stale_conflict_witness:
  "\<exists>newrev w'. la_db_put demo_api demo_db (Some [0x6b]) None (LA_CODEC_OBJECT demo_members) mem_demo =
     Some ((LA_DB_PUT_CONFLICT, newrev), w') \<and> abs_store (map_of (mw_recs w')) [0x6b] = Some (doc_of_header header_demo demo_text)"
proof -
  have r: "\<not> mw_txn mem_demo \<and> records_ok (map_of (mw_recs mem_demo))" using mem_demo_ok by simp
  have a: "\<not> admits (abs_store (map_of (mw_recs mem_demo))) [0x6b] None" by (simp add: admits_def mem_demo_ok)
  from db_put_stale_conflict [OF demo.bdb_documents_axioms r demo_facts(4) _ _ _ demo_facts(5,7) a]
  show ?thesis by (auto simp: mem_demo_ok)
qed

text \<open>
  \<open>la_db_delete\<close> with the current revision (of a document that has not been updated yet) hides the
  document: the next get does not find it. With another revision it reports a conflict and nothing
  changes. Other documents are never touched.
\<close>

theorem db_delete_hides:
  assumes "bdb_documents B recs saved txn nextseq savedseq P" "\<not> txn w \<and> records_ok (recs w)"
    and "on_store db (bdb_driver (ap_alloc P) B) ()" "k \<noteq> []" "0 \<notin> set k" "length k < 2 ^ 31"
    and "storable (ap_json P) (ho_compressor (db_host db)) (LA_CODEC_OBJECT []) dat"
    and "\<forall>old. abs_store (recs w) k = Some old \<longrightarrow> map_option rrev oldrev = Some (d_rev old) \<longrightarrow> d_history old = []"
  shows "\<exists>w1 w2. la_db_delete P db (Some k) oldrev w =
      Some (if admits (abs_store (recs w)) k oldrev then LA_DB_DELETE_OK else LA_DB_DELETE_CONFLICT, w1) \<and>
    (\<not> admits (abs_store (recs w)) k oldrev \<longrightarrow> abs_store (recs w1) = abs_store (recs w)) \<and>
    (admits (abs_store (recs w)) k oldrev \<longrightarrow> la_db_get P db k None w1 = Some ((LA_DB_GET_NOT_FOUND, None, None), w2)) \<and>
    (\<forall>k'. k' \<noteq> k \<longrightarrow> abs_store (recs w1) k' = abs_store (recs w) k')"
  using bdb_documents.bdb_delete_then_get [OF assms(1) assms(2-8)] .

theorem db_delete_hides_witness:
  "\<exists>w1 w2. la_db_delete demo_api demo_db (Some [0x6b]) (Some \<lparr>rseq = 1, rrev = replicate 16 2\<rparr>) mem_demo =
     Some (LA_DB_DELETE_OK, w1) \<and> la_db_get demo_api demo_db [0x6b] None w1 = Some ((LA_DB_GET_NOT_FOUND, None, None), w2)"
proof -
  have r: "\<not> mw_txn mem_demo \<and> records_ok (map_of (mw_recs mem_demo))" using mem_demo_ok by simp
  have a: "admits (abs_store (map_of (mw_recs mem_demo))) [0x6b] (Some \<lparr>rseq = 1, rrev = replicate 16 2\<rparr>)"
    "\<forall>old. abs_store (map_of (mw_recs mem_demo)) [0x6b] = Some old \<longrightarrow>
       map_option rrev (Some \<lparr>rseq = 1, rrev = replicate 16 2\<rparr>) = Some (d_rev old) \<longrightarrow> d_history old = []"
    by (simp_all add: admits_def mem_demo_ok doc_of_header_def header_demo_def)
  from db_delete_hides [OF demo.bdb_documents_axioms r demo_facts(4) _ _ _ demo_facts(8) a(2)] a(1)
  show ?thesis by auto
qed

text \<open>
  C30. The second update of a document through the API has no defined result: \<open>la_db_put\<close> builds its object with no
  history, the stored record has one or more revisions in it (below 1024), and the driver then moves, or hands to the
  library, as many bytes as the record's history needs, which are not all in the object's block. (A short document is
  written past the end of the block, a longer one only read past it. With an allocator that gives no spare bytes.)
\<close>

theorem db_second_update_overruns:
  assumes "bdb_documents B recs saved txn nextseq savedseq P" "\<not> txn w \<and> records_ok (recs w)"
    and "on_store db (bdb_driver (ap_alloc P) B) ()" "k \<noteq> []" "0 \<notin> set k" "length k < 2 ^ 31"
    and "member_get ms LA_API_DELETED_NAME = None"
    and "storable (ap_json P) (ho_compressor (db_host db)) (LA_CODEC_OBJECT (strip_members ms)) dat"
    and "abs_store (recs w) k = Some old" "rrev r = d_rev old" "d_history old \<noteq> []" "length (d_history old) < 16 * 1024"
    and "\<And>n. slack (ap_alloc P) n = 0"
  shows "la_db_put P db (Some k) (Some r) (LA_CODEC_OBJECT ms) w = None"
  using bdb_documents.put_again_overruns [OF assms] .

theorem db_second_update_overruns_witness:
  "la_db_put demo_api demo_db (Some [0x6b]) (Some \<lparr>rseq = 2, rrev = replicate 16 2\<rparr>) (LA_CODEC_OBJECT demo_members) mem_one = None"
proof (rule db_second_update_overruns [OF demo.bdb_documents_axioms _ demo_facts(4) _ _ _ demo_facts(5,7)])
  show "\<not> mw_txn mem_one \<and> records_ok (map_of (mw_recs mem_one))" using mem_one_ok by (simp add: mem_one_def mem_empty_def)
  show "abs_store (map_of (mw_recs mem_one)) [0x6b] = Some (doc_of_header header_two [7])" by (simp add: mem_one_ok)
qed (simp_all add: doc_of_header_def header_two_def demo_api_def)

text \<open>
  C3. A view visits every live document: opened on a store and asked until it ends, the iterator hands
  out, in the order of the update sequence, everything the map function emits for the documents
  that are not deleted (the documents themselves when there is none), and ends with the values
  folded by the reduce function. (The stored documents can be parsed, there is memory, and the map function emits
  at least one value for every document: one for which it emits none ends the view with an error.)
\<close>

theorem db_view_visits_live_documents:
  assumes "bdb_cursors B recs saved txn nextseq savedseq cpos" "records_ok (recs w)" "ample (ap_alloc P)"
    and "fst (cursor_open_op B w) = DB_OK" "on_store db (bdb_driver (ap_alloc P) B) ()"
    and "\<forall>k d. abs_store (recs w) k = Some d \<longrightarrow> \<not> d_deleted d \<longrightarrow>
           (\<exists>t v. inflate (ho_compressor (db_host db)) (d_data d) = Some t \<and> json_loadb (ap_json P) t = Some v)"
    and "\<forall>v. emitted mapfn [v] \<noteq> []" "card (seqs_after (recs w) None) < n"
  shows "\<exists>vi w1 os vs. la_db_view (ap_alloc P) db mapfn reducefn w = Some (Some vi, w1) \<and>
    map seq_of os = sorted_list_of_set (seqs_after (recs w) None) \<and>
    (\<forall>obj\<in>set os. abs_store (recs w) (key obj) = Some (doc_of_object obj)) \<and>
    vs = emitted mapfn (live_values (ap_json P) (ho_compressor (db_host db)) os) \<and>
    (\<forall>N > length vs. view_collect N (Suc n) P vi w1 = Some (vs, LA_VIEW_ITERATOR_END, reduced reducefn None vs))"
proof -
  let ?A = "ap_alloc P" and ?J = "ap_json P" and ?c = "ho_compressor (db_host db)"
  have g: "grant ?A m" if "m < 2 ^ 40" for m using assms(3) that by (simp add: ample_def)
  obtain st where st: "db_store db = Some st" "st_store st = Some ()" "st_driver st = bdb_driver ?A B"
    using assms(5) by (auto simp: on_store_def)
  have "grant ?A sizeof_iterator" "grant ?A sizeof_view_iterator"
    by (auto intro!: g simp: sizeof_iterator_def sizeof_view_iterator_def)
  with bdb_cursors.iterator_open_pos [OF assms(1,2) _ assms(4), of ?A "()" 0]
  obtain c w1 where c: "bdb_la_storage_iterator_open ?A B () 0 w = Some (Some c, w1)" "recs w1 = recs w" "cpos c w1 = None"
    by auto
  define vi where "vi = \<lparr>vi_db = db, vi_it = c, vi_map = mapfn, vi_reduce = reducefn, vi_accum = None, vi_mapped = []\<rparr>"
  have view: "la_db_view ?A db mapfn reducefn w = Some (Some vi, w1)"
    using \<open>grant ?A sizeof_view_iterator\<close> st c
    by (simp add: la_db_view_def la_storage_iterator_open_def bdb_driver_def vi_def)
  obtain os w' where os: "iterate (bdb_la_storage_iterator_next ?A B) n c w1 = Some (os, Some LA_STORAGE_OBJECT_ITERATOR_END, w')"
    "map seq_of os = sorted_list_of_set (seqs_after (recs w) None)"
    "\<forall>obj\<in>set os. abs_store (recs w) (key obj) = Some (doc_of_object obj) \<and> object_wf obj"
    using bdb_cursors.iterate_complete [OF assms(1), of w1 c ?A n] assms(2,8) c(2,3) g by auto
  define vs where "vs = emitted mapfn (live_values ?J ?c os)"
  have nx: "drv_iterator_next (bdb_driver ?A B) = bdb_la_storage_iterator_next ?A B" by (simp add: bdb_driver_def)
  have rd: "\<forall>obj\<in>set os. \<not> deleted (header obj) \<longrightarrow> readable ?J ?c obj"
    using os(3) assms(6) by (fastforce simp: readable_def doc_of_object_def doc_of_header_def)
  have gives: "\<forall>it w. \<forall>obj it' w1. drv_iterator_next (bdb_driver ?A B) it w =
      Some ((LA_STORAGE_OBJECT_ITERATOR_GOT_NEXT, obj, it'), w1) \<longrightarrow> obj \<noteq> None"
    unfolding nx by (intro allI impI) (rule bdb_next_gives)
  have "view_collect N (Suc n) P vi w1 = Some (vs, LA_VIEW_ITERATOR_END, reduced (vi_reduce vi) (vi_accum vi) vs)"
    if "length vs < N" for N
    using os(1) st(1) rd assms(7) by (intro collect_all [OF _ _ st(3) order_refl _ gives _ _ that]) (simp_all add: vi_def vs_def nx)
  then have "view_collect N (Suc n) P vi w1 = Some (vs, LA_VIEW_ITERATOR_END, reduced reducefn None vs)" if "length vs < N" for N
    using that by (simp add: vi_def)
  with view os show ?thesis by (intro exI [of _ vi] exI [of _ w1] exI [of _ os] exI [of _ vs]) (simp add: vs_def)
qed

theorem db_view_visits_live_documents_witness:
  "\<exists>vi w1. la_db_view exact_allocator demo_db None None mem_demo = Some (Some vi, w1) \<and>
     (\<exists>v. view_collect 2 3 demo_api vi w1 = Some ([v], LA_VIEW_ITERATOR_END, None))"
proof -
  have 1: "\<forall>k d. abs_store (map_of (mw_recs mem_demo)) k = Some d \<longrightarrow> \<not> d_deleted d \<longrightarrow>
      (\<exists>t v. inflate (ho_compressor (db_host demo_db)) (d_data d) = Some t \<and> json_loadb (ap_json demo_api) t = Some v)"
    by (auto simp: mem_demo_ok inflate_def demo_db_def doc_of_header_def demo_api_def tree_json_def split: if_splits)
  have 2: "\<forall>v. emitted None [v] \<noteq> []" by (simp add: emitted_def)
  have co: "fst (cursor_open_op mem_bdb mem_demo) = DB_OK" by (simp add: mem_bdb_def)
  have am: "ample (ap_alloc demo_api)" "ap_alloc demo_api = exact_allocator" by (simp_all add: demo_api_def)
  have sq: "sorted_list_of_set (seqs_after (map_of (mw_recs mem_demo)) None) = [1]"
    "card (seqs_after (map_of (mw_recs mem_demo)) None) < 2" by (simp_all add: mem_demo_seqs)
  from db_view_visits_live_documents [OF mem.bdb_cursors_axioms mem_demo_ok(1) am(1) co demo_facts(4) 1 2 sq(2), of None]
  obtain vi w1 os vs where v: "la_db_view exact_allocator demo_db None None mem_demo = Some (Some vi, w1)"
    "map seq_of os = [1]" "\<forall>obj\<in>set os. abs_store (map_of (mw_recs mem_demo)) (key obj) = Some (doc_of_object obj)"
    "vs = emitted None (live_values (ap_json demo_api) (ho_compressor (db_host demo_db)) os)"
    "\<forall>N > length vs. view_collect N (Suc 2) demo_api vi w1 = Some (vs, LA_VIEW_ITERATOR_END, reduced None None vs)"
    unfolding sq(1) am(2) by (elim exE conjE) (rule that)
  obtain obj where ob: "os = [obj]" using v(2) by (cases os) auto
  then have "\<not> deleted (header obj)" using v(3)
    by (auto simp: mem_demo_ok doc_of_object_def doc_of_header_def header_demo_def split: if_splits)
  then obtain x where "vs = [x]" using v(4) ob by (simp add: emitted_def live_values_def)
  with v(1,5) show ?thesis by (auto simp: reduced_def numeral_3_eq_3 numeral_2_eq_2)
qed

text \<open>
  A map function that emits nothing for a document makes the view fail: the loop that fetches
  documents ends at the first live document whatever was emitted, and the empty list is then
  reported as an error although the iteration has not ended.
\<close>

theorem db_view_silent_map_is_error:
  assumes "vi_mapped vi = []" "vi_map vi = Some f" "db_store (vi_db vi) = Some st"
    and "la_storage_iterator_next st (vi_it vi) w = Some ((LA_STORAGE_OBJECT_ITERATOR_GOT_NEXT, Some obj, it'), w1)"
    and "\<not> deleted (header obj)" "readable (ap_json P) (ho_compressor (db_host (vi_db vi))) obj"
    and "\<forall>v. f v = []"
  shows "la_view_iterator_next (Suc n) P vi w = Some ((LA_VIEW_ITERATOR_ERROR, None, vi\<lparr>vi_it := it'\<rparr>), w1)"
proof -
  obtain t v where "inflate (ho_compressor (db_host (vi_db vi))) (object_data obj) = Some t" "json_loadb (ap_json P) t = Some v"
    using assms(6) by (auto simp: readable_def)
  then show ?thesis using assms readable_data [OF assms(6)]
    by (simp add: la_view_iterator_next_def Let_def la_codec_loadb_def)
qed

theorem db_view_silent_map_is_error_witness:
  "\<exists>vi w1 vi' w2. la_db_view exact_allocator demo_db (Some (\<lambda>_. [])) None mem_demo = Some (Some vi, w1) \<and>
     la_view_iterator_next 1 demo_api vi w1 = Some ((LA_VIEW_ITERATOR_ERROR, None, vi'), w2)"
proof -
  let ?w = "mem_demo\<lparr>mw_cur := None\<rparr>" and ?w2 = "mem_demo\<lparr>mw_cur := Some (take 8 (encode_header header_demo))\<rparr>"
  let ?vi = "\<lparr>vi_db = demo_db, vi_it = 0, vi_map = Some (\<lambda>_. []), vi_reduce = None, vi_accum = None, vi_mapped = []\<rparr>"
  let ?obj = "\<lparr>key = [0x6b], header = header_demo, data_length = 7\<rparr>"
  have v: "la_db_view exact_allocator demo_db (Some (\<lambda>_. [])) None mem_demo = Some (Some ?vi, ?w)"
    by (simp add: la_db_view_def sizeof_view_iterator_def demo_db_def la_storage_iterator_open_def bdb_driver_def
      bdb_la_storage_iterator_open_def sizeof_iterator_def mem_bdb_def)
  have d: "decode_header (encode_header header_demo) = Some header_demo"
    by (intro decode_encode_header) (simp add: header_wf_def header_demo_def)
  have l: "length (encode_header header_demo) = 41" by (simp add: encode_header_length header_wf_def header_demo_def demo_text_def)
  have pg: "cursor_pget_op mem_bdb 0 ?w = (DB_OK, (take 8 (encode_header header_demo), [0x6b], encode_header header_demo), ?w2)"
    by (simp add: mem_bdb_def mem_entries_def mem_demo_def seqindex_def l after_def)
  have nx: "la_storage_iterator_next (the (db_store demo_db)) 0 ?w =
      Some ((LA_STORAGE_OBJECT_ITERATOR_GOT_NEXT, Some ?obj, 0), ?w2)"
    using pg d l by (simp add: la_storage_iterator_next_def demo_db_def bdb_driver_def bdb_la_storage_iterator_next_def
      sizeof_object_def keycpy_def add_sz_def) (simp add: header_demo_def)
  have "readable (ap_json demo_api) (ho_compressor (db_host demo_db)) ?obj"
    by (simp add: readable_def object_wf_def header_wf_def header_demo_def data_offset_def object_data_def demo_db_def
      inflate_def demo_api_def tree_json_def demo_text_def)
  with db_view_silent_map_is_error [of ?vi "\<lambda>_. []" "the (db_store demo_db)" ?w ?obj 0 ?w2 demo_api 0] nx v
  show ?thesis by (simp add: demo_db_def header_demo_def)
qed

end
