(* ===== verification/LA_Sessions.thy ===== *)
theory LA_Sessions
  imports LA_Documents
begin

text \<open>
  Whole sessions: sequences of calls of \<open>la_db_put\<close>, \<open>la_db_delete\<close> and \<open>la_db_get\<close> on one database, in the order in
  which the calls of all its clients reach it. The reference is a store of documents, revisions and generation
  numbers without bytes, records or transactions; a session of the program and one of the reference give the same replies.
\<close>

section \<open>Sessions of the program\<close>

datatype db_call =
  Call_put "byte list" "la_rev option" "(byte list \<times> la_codec_value) list"
| Call_delete "byte list" "la_rev option"
| Call_get "byte list"

datatype db_reply =
  Reply_put la_db_put_result "la_rev option"
| Reply_delete la_db_delete_result
| Reply_get la_db_get_result "la_codec_value option" "la_rev option"

text \<open>One call; the revision a put computes is a reply only when the put is accepted.\<close>

fun call_db :: "api \<Rightarrow> ('e, 's, 'i, 'w) la_db \<Rightarrow> db_call \<Rightarrow> ('w, db_reply) act" where
  "call_db P db (Call_put k rv ms) w =
     map_option (\<lambda>((r, new), w1). (Reply_put r (if r = LA_DB_PUT_OK then new else None), w1))
       (la_db_put P db (Some k) rv (LA_CODEC_OBJECT ms) w)"
| "call_db P db (Call_delete k rv) w =
     map_option (\<lambda>(r, w1). (Reply_delete r, w1)) (la_db_delete P db (Some k) rv w)"
| "call_db P db (Call_get k) w =
     map_option (\<lambda>((r, v, cur), w1). (Reply_get r v cur, w1)) (la_db_get P db k None w)"

fun session :: "api \<Rightarrow> ('e, 's, 'i, 'w) la_db \<Rightarrow> db_call list \<Rightarrow> ('w, db_reply list) act" where
  "session P db [] w = Some ([], w)"
| "session P db (c # cs) w = do {
     (r, w1) \<leftarrow> call_db P db c w;
     (rs, w2) \<leftarrow> session P db cs w1;
     Some (r # rs, w2) }"

section \<open>The reference\<close>

text \<open>A document: its revision, its generation, its members (none once it is deleted), and whether it was written twice.\<close>

record ref_doc =
  rd_rev :: rev
  rd_gen :: u64
  rd_members :: "(byte list \<times> la_codec_value) list option"
  rd_rewritten :: bool

type_synonym ref_store = "byte list \<Rightarrow> ref_doc option"

text \<open>Writing: a new key, or the revision the caller names is the current one.\<close>

definition ref_write ::
  "rev \<Rightarrow> (byte list \<times> la_codec_value) list option \<Rightarrow> byte list \<Rightarrow> la_rev option \<Rightarrow> ref_store \<Rightarrow> (la_rev option) \<times> ref_store" where
  "ref_write new ms k rv S =
     (case S k of
        None \<Rightarrow> (Some \<lparr>rseq = 1, rrev = new\<rparr>, S(k \<mapsto> \<lparr>rd_rev = new, rd_gen = 1, rd_members = ms, rd_rewritten = False\<rparr>))
      | Some old \<Rightarrow>
          if map_option rrev rv = Some (rd_rev old)
          then (Some \<lparr>rseq = rd_gen old + 1, rrev = new\<rparr>,
                S(k \<mapsto> \<lparr>rd_rev = new, rd_gen = rd_gen old + 1, rd_members = ms, rd_rewritten = True\<rparr>))
          else (None, S))"

fun ref_call :: "api \<Rightarrow> db_call \<Rightarrow> ref_store \<Rightarrow> db_reply \<times> ref_store" where
  "ref_call P (Call_put k rv ms) S =
     (case ref_write (next_rev P ms rv False) (Some (strip_members ms)) k rv S of
        (Some new, S1) \<Rightarrow> (Reply_put LA_DB_PUT_OK (Some new), S1)
      | (None, S1) \<Rightarrow> (Reply_put LA_DB_PUT_CONFLICT None, S1))"
| "ref_call P (Call_delete k rv) S =
     (case ref_write (next_rev P [] rv True) None k rv S of
        (Some new, S1) \<Rightarrow> (Reply_delete LA_DB_DELETE_OK, S1)
      | (None, S1) \<Rightarrow> (Reply_delete LA_DB_DELETE_CONFLICT, S1))"
| "ref_call P (Call_get k) S =
     (case S k of
        None \<Rightarrow> Reply_get LA_DB_GET_NOT_FOUND None None
      | Some e \<Rightarrow> (case rd_members e of
          None \<Rightarrow> Reply_get LA_DB_GET_NOT_FOUND None None
        | Some ms \<Rightarrow> Reply_get LA_DB_GET_OK (Some (LA_CODEC_OBJECT ms)) (Some \<lparr>rseq = rd_gen e, rrev = rd_rev e\<rparr>)), S)"

fun ref_session :: "api \<Rightarrow> db_call list \<Rightarrow> ref_store \<Rightarrow> db_reply list \<times> ref_store" where
  "ref_session P [] S = ([], S)"
| "ref_session P (c # cs) S =
     (case ref_call P c S of (r, S1) \<Rightarrow> (case ref_session P cs S1 of (rs, S2) \<Rightarrow> (r # rs, S2)))"

text \<open>
  The calls the theorem is about: keys are strings, documents survive the codec and the
  compressor, and no document is written a third time (which writes behind the object's block).
\<close>

definition good_key :: "byte list \<Rightarrow> bool" where
  "good_key k = (k \<noteq> [] \<and> 0 \<notin> set k \<and> length k < 2 ^ 31)"

definition rewritable :: "byte list \<Rightarrow> la_rev option \<Rightarrow> ref_store \<Rightarrow> bool" where
  "rewritable k rv S =
     (case S k of None \<Rightarrow> True | Some old \<Rightarrow> map_option rrev rv = Some (rd_rev old) \<longrightarrow> \<not> rd_rewritten old)"

fun call_ok :: "api \<Rightarrow> la_compressor option \<Rightarrow> db_call \<Rightarrow> ref_store \<Rightarrow> bool" where
  "call_ok P c (Call_put k rv ms) S =
     (good_key k \<and> rewritable k rv S \<and> member_get ms LA_API_DELETED_NAME = None \<and>
      (\<exists>dat. storable (ap_json P) c (LA_CODEC_OBJECT (strip_members ms)) dat))"
| "call_ok P c (Call_delete k rv) S =
     (good_key k \<and> rewritable k rv S \<and> (\<exists>dat. storable (ap_json P) c (LA_CODEC_OBJECT []) dat))"
| "call_ok P c (Call_get k) S = good_key k"

fun session_ok :: "api \<Rightarrow> la_compressor option \<Rightarrow> db_call list \<Rightarrow> ref_store \<Rightarrow> bool" where
  "session_ok P c [] S = True"
| "session_ok P c (x # xs) S = (call_ok P c x S \<and> session_ok P c xs (snd (ref_call P x S)))"

section \<open>The program implements the reference\<close>

text \<open>A stored document and the one of the reference.\<close>

definition doc_rel :: "jansson \<Rightarrow> la_compressor option \<Rightarrow> doc \<Rightarrow> ref_doc \<Rightarrow> bool" where
  "doc_rel J c d e =
     (d_rev d = rd_rev e \<and> d_doc_seq d = rd_gen e \<and> d_deleted d = (rd_members e = None) \<and>
      (\<not> rd_rewritten e \<longrightarrow> d_history d = []) \<and>
      (\<forall>ms. rd_members e = Some ms \<longrightarrow>
         storable J c (LA_CODEC_OBJECT ms) (d_data d) \<and> \<not> is_tombstone J (LA_CODEC_OBJECT ms)))"

definition store_rel :: "jansson \<Rightarrow> la_compressor option \<Rightarrow> (byte list \<Rightarrow> doc option) \<Rightarrow> ref_store \<Rightarrow> bool" where
  "store_rel J c docs S = (\<forall>k. rel_option (doc_rel J c) (docs k) (S k))"

lemma store_relD:
  assumes "store_rel J c docs S"
  shows "docs k = None \<longleftrightarrow> S k = None" "docs k = Some d \<Longrightarrow> S k = Some e \<Longrightarrow> doc_rel J c d e"
  using assms unfolding store_rel_def by (metis option.rel_distinct(1,2) option.rel_inject(2) not_None_eq)+

lemma store_rel_upd: "store_rel J c docs S \<Longrightarrow> doc_rel J c d e \<Longrightarrow> store_rel J c (docs(k \<mapsto> d)) (S(k \<mapsto> e))"
  by (simp add: store_rel_def)

lemma admits_iff:
  assumes "store_rel J c docs S"
  shows "admits docs k rv \<longleftrightarrow> (case S k of None \<Rightarrow> True | Some old \<Rightarrow> map_option rrev rv = Some (rd_rev old))"
  using store_relD [OF assms, of k] by (cases "docs k"; cases "S k") (auto simp: admits_def doc_rel_def)

lemma rewritable_history:
  assumes "store_rel J c docs S" "rewritable k rv S"
  shows "\<forall>old. docs k = Some old \<longrightarrow> map_option rrev rv = Some (d_rev old) \<longrightarrow> d_history old = []"
  using store_relD [OF assms(1), of k] assms(2) by (cases "S k") (auto simp: rewritable_def doc_rel_def)

context document_api
begin

text \<open>Both kinds of writing.\<close>

lemma write_refines:
  assumes "ready w" "on_store db D s" "good_key k" "rewritable k rv S"
    and "store_rel (ap_json P) (ho_compressor (db_host db)) (docs w) S"
    and "is_delete \<or> member_get ms LA_API_DELETED_NAME = None"
    and "storable (ap_json P) (ho_compressor (db_host db)) (LA_CODEC_OBJECT (strip_members ms)) dat"
    and "ref_write (next_rev P ms rv is_delete) (if is_delete then None else Some (strip_members ms)) k rv S = (out, S')"
  shows "\<exists>new w'. do_la_db_put P db (Some k) rv (LA_CODEC_OBJECT ms) is_delete w =
      Some ((if out = None then LA_DB_PUT_CONFLICT else LA_DB_PUT_OK, Some new), w') \<and> (out \<noteq> None \<longrightarrow> out = Some new) \<and> ready w' \<and>
    store_rel (ap_json P) (ho_compressor (db_host db)) (docs w') S'"
proof -
  let ?J = "ap_json P" and ?c = "ho_compressor (db_host db)"
  have k: "k \<noteq> []" "0 \<notin> set k" "length k < 2 ^ 31" using assms(3) by (simp_all add: good_key_def)
  obtain new w' where p: "do_la_db_put P db (Some k) rv (LA_CODEC_OBJECT ms) is_delete w =
      Some ((if admits (docs w) k rv then LA_DB_PUT_OK else LA_DB_PUT_CONFLICT, Some new), w')" "ready w'"
    "rrev new = next_rev P ms rv is_delete" and
    o: "if admits (docs w) k rv
     then \<exists>d. docs w' = (docs w)(k \<mapsto> d) \<and> d_rev d = rrev new \<and> d_data d = dat \<and> d_deleted d = is_delete \<and>
            d_doc_seq d = rseq new \<and> rseq new = (case docs w k of None \<Rightarrow> 1 | Some old \<Rightarrow> d_doc_seq old + 1) \<and>
            d_history d = (case docs w k of None \<Rightarrow> [] | Some old \<Rightarrow> d_rev old)
     else docs w' = docs w"
    using do_put_spec [OF assms(1,2) k assms(6,7) rewritable_history [OF assms(5,4)]] by blast
  note adm = admits_iff [OF assms(5), of k rv]
  show ?thesis
  proof (cases "admits (docs w) k rv")
    case False
    with adm obtain old where "S k = Some old" "map_option rrev rv \<noteq> Some (rd_rev old)" by (cases "S k") auto
    then have "out = None" "S' = S" using assms(8) unfolding ref_write_def by (simp_all del: map_option_eq_Some)
    then show ?thesis using p o False assms(5) by auto
  next
    case True
    then obtain d where d: "docs w' = (docs w)(k \<mapsto> d)" "d_rev d = rrev new" "d_data d = dat" "d_deleted d = is_delete"
      "d_doc_seq d = rseq new" "rseq new = (case docs w k of None \<Rightarrow> 1 | Some old \<Rightarrow> d_doc_seq old + 1)"
      "d_history d = (case docs w k of None \<Rightarrow> [] | Some old \<Rightarrow> d_rev old)" using o by auto
    define e where "e = \<lparr>rd_rev = rrev new, rd_gen = rseq new, rd_members = (if is_delete then None else Some (strip_members ms)),
      rd_rewritten = (S k \<noteq> None)\<rparr>"
    have "rseq new = (case S k of None \<Rightarrow> 1 | Some old \<Rightarrow> rd_gen old + 1)"
      using d(6) store_relD [OF assms(5), of k] by (cases "S k"; cases "docs w k") (auto simp: doc_rel_def)
    then have "out = Some new" "S' = S(k \<mapsto> e)"
      using True adm assms(8) p(3) by (auto simp: ref_write_def e_def split: option.splits intro!: la_rev.equality)
    moreover have "doc_rel ?J ?c d e"
      using d assms(6,7) store_relD(1) [OF assms(5), of k] not_tombstone [of ms]
      by (cases "docs w k") (auto simp: doc_rel_def e_def)
    ultimately show ?thesis using p True d(1) store_rel_upd [OF assms(5)] by auto
  qed
qed

lemma call_refines:
  assumes "ready w" "on_store db D s" "store_rel (ap_json P) (ho_compressor (db_host db)) (docs w) S"
    and "call_ok P (ho_compressor (db_host db)) x S" "ref_call P x S = (r, S')"
  shows "\<exists>w'. call_db P db x w = Some (r, w') \<and> ready w' \<and> store_rel (ap_json P) (ho_compressor (db_host db)) (docs w') S'"
proof (cases x)
  case (Call_put k rv ms)
  then obtain dat where ok: "good_key k" "rewritable k rv S" "member_get ms LA_API_DELETED_NAME = None"
    "storable (ap_json P) (ho_compressor (db_host db)) (LA_CODEC_OBJECT (strip_members ms)) dat" using assms(4) by auto
  obtain out S1 where rw: "ref_write (next_rev P ms rv False) (if False then None else Some (strip_members ms)) k rv S = (out, S1)"
    by (meson surj_pair)
  from write_refines [OF assms(1,2) ok(1,2) assms(3) _ ok(4) rw] ok(3) assms(5) rw show ?thesis
    unfolding Call_put by (auto simp: la_db_put_def split: option.splits)
next
  case (Call_delete k rv)
  then obtain dat where ok: "good_key k" "rewritable k rv S"
    "storable (ap_json P) (ho_compressor (db_host db)) (LA_CODEC_OBJECT (strip_members [])) dat"
    using assms(4) by (auto simp: strip_members_def member_del_def)
  obtain out S1 where rw: "ref_write (next_rev P [] rv True) (if True then None else Some (strip_members [])) k rv S = (out, S1)"
    by (meson surj_pair)
  from write_refines [OF assms(1,2) ok(1,2) assms(3) _ ok(3) rw] assms(5) rw show ?thesis
    unfolding Call_delete by (auto simp: la_db_delete_def la_codec_object_def object_new split: option.splits)
next
  case (Call_get k)
  have g: "0 \<notin> set k" "length k < 2 ^ 31" using assms(4) unfolding Call_get by (simp_all add: good_key_def)
  show ?thesis
  proof (cases "S k")
    case None
    then show ?thesis
      using get_spec [OF assms(1,2) g] store_relD(1) [OF assms(3), of k] assms(3,5) unfolding Call_get by auto
  next
    case (Some e)
    then obtain d where d: "docs w k = Some d" "doc_rel (ap_json P) (ho_compressor (db_host db)) d e"
      using store_relD [OF assms(3), of k] by (cases "docs w k") auto
    show ?thesis
    proof (cases "rd_members e")
      case None
      then show ?thesis
        using get_spec [OF assms(1,2) g] d Some assms(3,5) unfolding Call_get by (auto simp: doc_rel_def)
    next
      case (Some ms)
      then obtain t where "inflate (ho_compressor (db_host db)) (d_data d) = Some t" "json_loadb (ap_json P) t = Some (LA_CODEC_OBJECT ms)"
        using d(2) by (auto simp: doc_rel_def storable_def)
      then show ?thesis
        using get_spec [OF assms(1,2) g] d Some \<open>S k = Some e\<close> assms(3,5) unfolding Call_get by (auto simp: doc_rel_def)
    qed
  qed
qed

lemma session_refines:
  assumes "ready w" "on_store db D s" "store_rel (ap_json P) (ho_compressor (db_host db)) (docs w) S"
    and "session_ok P (ho_compressor (db_host db)) xs S"
  shows "\<exists>w'. session P db xs w = Some (fst (ref_session P xs S), w') \<and> ready w' \<and>
    store_rel (ap_json P) (ho_compressor (db_host db)) (docs w') (snd (ref_session P xs S))"
  using assms
proof (induction xs arbitrary: w S)
  case Nil
  then show ?case by simp
next
  case (Cons x xs)
  obtain r S1 where r: "ref_call P x S = (r, S1)" by (meson surj_pair)
  with Cons.prems call_refines obtain w1 where w1: "call_db P db x w = Some (r, w1)" "ready w1"
    "store_rel (ap_json P) (ho_compressor (db_host db)) (docs w1) S1" by (metis session_ok.simps(2))
  have "session_ok P (ho_compressor (db_host db)) xs S1" using Cons.prems(4) r by simp
  from Cons.IH [OF w1(2) Cons.prems(2) w1(3) this] w1(1) r show ?case by (auto split: prod.split)
qed

end

context bdb_documents
begin

lemmas bdb_session_refines = session_refines

end

text \<open>A store without documents, and a session on it.\<close>

lemma store_rel_empty: "store_rel J c (\<lambda>_. None) (\<lambda>_. None)"
  by (simp add: store_rel_def)

definition demo_first :: la_rev where
  "demo_first = \<lparr>rseq = 1, rrev = next_rev demo_api demo_members None False\<rparr>"

definition demo_calls :: "db_call list" where
  "demo_calls = [Call_put [0x6b] None demo_members, Call_get [0x6b], Call_put [0x6b] None demo_members,
     Call_delete [0x6b] (Some demo_first), Call_get [0x6b]]"

lemma demo_calls_ref:
  "fst (ref_session demo_api demo_calls (\<lambda>_. None)) =
     [Reply_put LA_DB_PUT_OK (Some demo_first), Reply_get LA_DB_GET_OK (Some (LA_CODEC_OBJECT demo_members)) (Some demo_first),
      Reply_put LA_DB_PUT_CONFLICT None, Reply_delete LA_DB_DELETE_OK, Reply_get LA_DB_GET_NOT_FOUND None None]"
  by (simp add: demo_calls_def ref_write_def demo_facts(6) demo_first_def)

lemma demo_calls_ok: "session_ok demo_api (ho_compressor (db_host demo_db)) demo_calls (\<lambda>_. None)"
proof -
  have "\<exists>dat. storable (ap_json demo_api) (ho_compressor (db_host demo_db)) (LA_CODEC_OBJECT (strip_members demo_members)) dat"
    "\<exists>dat. storable (ap_json demo_api) (ho_compressor (db_host demo_db)) (LA_CODEC_OBJECT []) dat"
    using demo_facts(7,8) by blast+
  then show ?thesis
    by (simp add: demo_calls_def ref_write_def demo_facts(5) good_key_def rewritable_def demo_first_def)
qed

section \<open>Properties\<close>

text \<open>
  C1. A session of calls through the API over the Berkeley DB driver that satisfies \<open>session_ok\<close> gives the replies of
  the reference store, in which a document is its members, its revision and its generation, and leaves a store that
  stands for the reference's: in whatever order the calls come, puts and deletes are accepted exactly when they name
  the current revision, a get sees the last accepted write of its key and no other, nothing is lost, and no transaction
  stays open. The conditions: every call names a key, of 1 to \<open>2 ^ 31 - 1\<close> bytes without a zero; a get asks for the
  current document and names no revision; what is put has no \<open>_deleted\<close> member and survives printing, compression and
  parsing; and no document is written a third time with its current revision (that write runs out of the block of the object). The
  library does not fail and there is memory.
\<close>

theorem db_session_refines:
  assumes "bdb_documents B recs saved txn nextseq savedseq P" "\<not> txn w \<and> records_ok (recs w)"
    and "on_store db (bdb_driver (ap_alloc P) B) ()"
    and "store_rel (ap_json P) (ho_compressor (db_host db)) (abs_store (recs w)) S"
    and "session_ok P (ho_compressor (db_host db)) calls S"
  shows "\<exists>w'. session P db calls w = Some (fst (ref_session P calls S), w') \<and> \<not> txn w' \<and> records_ok (recs w') \<and>
    store_rel (ap_json P) (ho_compressor (db_host db)) (abs_store (recs w')) (snd (ref_session P calls S))"
  using bdb_documents.bdb_session_refines [OF assms] by blast

theorem db_session_refines_witness:
  "\<exists>w. session demo_api demo_db demo_calls mem_empty =
     Some ([Reply_put LA_DB_PUT_OK (Some demo_first), Reply_get LA_DB_GET_OK (Some (LA_CODEC_OBJECT demo_members)) (Some demo_first),
            Reply_put LA_DB_PUT_CONFLICT None, Reply_delete LA_DB_DELETE_OK, Reply_get LA_DB_GET_NOT_FOUND None None], w)"
proof -
  have r: "\<not> mw_txn mem_empty \<and> records_ok (map_of (mw_recs mem_empty))" using demo_facts(1,2) by simp
  have "abs_store (map_of (mw_recs mem_empty)) = (\<lambda>_. None)" by (rule ext) (rule demo_facts(3))
  then have e: "store_rel (ap_json demo_api) (ho_compressor (db_host demo_db)) (abs_store (map_of (mw_recs mem_empty))) (\<lambda>_. None)"
    by (simp add: store_rel_empty)
  from db_session_refines [OF demo.bdb_documents_axioms r demo_facts(4) e demo_calls_ok] show ?thesis
    unfolding demo_calls_ref by blast
qed

end
