(* ===== verification/LA_Sqlite.thy ===== *)
theory LA_Sqlite
  imports LA_BDB LA_Strings
begin

text \<open>
  The SQLite driver (\<open>sqlite-storage/ObjectStore-sqlite.c\<close>). The library is a record of the calls the
  driver makes: statements are prepared by name, bound, stepped and finalized; a step gives a row,
  the end of the rows, or an error.
\<close>

section \<open>The library\<close>

datatype sql_value = SQL_TEXT "byte list" | SQL_BLOB "byte list" | SQL_INT int

datatype sql_query =
  getbyid | getbyidrev | getrev | getmeta | getall | getsince | putdoc | getseq

datatype sql_command = initsql | begintxn | endtxn | rollback

datatype sql_step = SQLITE_ROW "sql_value list" | SQLITE_DONE | SQLITE_FAILED

datatype path_kind = PATH_DIR | PATH_OTHER | PATH_ENOENT | PATH_UNREADABLE

record 'w sqlite =
  stat_op :: "byte list \<Rightarrow> 'w \<Rightarrow> path_kind \<times> 'w"
  mkdir_op :: "byte list \<Rightarrow> 'w \<Rightarrow> bool \<times> 'w"
  sqlite3_open_op :: "byte list \<Rightarrow> 'w \<Rightarrow> bool \<times> 'w"
  sqlite3_close_op :: "'w \<Rightarrow> 'w"
  sqlite3_exec_op :: "sql_command \<Rightarrow> 'w \<Rightarrow> bool \<times> 'w"
  sqlite3_prepare_op :: "sql_query \<Rightarrow> 'w \<Rightarrow> nat option \<times> 'w"
  sqlite3_bind_op :: "nat \<Rightarrow> nat \<Rightarrow> sql_value \<Rightarrow> 'w \<Rightarrow> bool \<times> 'w"
  sqlite3_step_op :: "nat \<Rightarrow> 'w \<Rightarrow> sql_step \<times> 'w"
  sqlite3_finalize_op :: "nat \<Rightarrow> 'w \<Rightarrow> 'w"

text \<open>Columns of a row; a column of another type than the table declares is not met.\<close>

fun column_bytes :: "sql_value list \<Rightarrow> nat \<Rightarrow> byte list option" where
  "column_bytes [] i = None"
| "column_bytes (v # vs) 0 = (case v of SQL_INT _ \<Rightarrow> None | SQL_TEXT b \<Rightarrow> Some b | SQL_BLOB b \<Rightarrow> Some b)"
| "column_bytes (v # vs) (Suc i) = column_bytes vs i"

fun column_int64 :: "sql_value list \<Rightarrow> nat \<Rightarrow> int option" where
  "column_int64 [] i = None"
| "column_int64 (v # vs) 0 = (case v of SQL_INT x \<Rightarrow> Some x | _ \<Rightarrow> None)"
| "column_int64 (v # vs) (Suc i) = column_int64 vs i"

definition exec_sql :: "'w sqlite \<Rightarrow> sql_command \<Rightarrow> 'w \<Rightarrow> 'w" where
  "exec_sql S c w = snd (sqlite3_exec_op S c w)"

definition COLUMN_ID :: nat where "COLUMN_ID = 1"
definition COLUMN_DELETED :: nat where "COLUMN_DELETED = 2"
definition COLUMN_REV :: nat where "COLUMN_REV = 3"
definition COLUMN_OLDREVS :: nat where "COLUMN_OLDREVS = 4"
definition COLUMN_SEQ :: nat where "COLUMN_SEQ = 5"
definition COLUMN_DOCSEQ :: nat where "COLUMN_DOCSEQ = 6"
definition COLUMN_DOC :: nat where "COLUMN_DOC = 7"

definition RCOLUMN_ID :: nat where "RCOLUMN_ID = 0"
definition RCOLUMN_DELETED :: nat where "RCOLUMN_DELETED = 1"
definition RCOLUMN_REV :: nat where "RCOLUMN_REV = 2"
definition RCOLUMN_OLDREVS :: nat where "RCOLUMN_OLDREVS = 3"
definition RCOLUMN_SEQ :: nat where "RCOLUMN_SEQ = 4"
definition RCOLUMN_DOCSEQ :: nat where "RCOLUMN_DOCSEQ = 5"
definition RCOLUMN_DOC :: nat where "RCOLUMN_DOC = 6"

lemmas sql_columns =
  COLUMN_ID_def COLUMN_DELETED_def COLUMN_REV_def COLUMN_OLDREVS_def COLUMN_SEQ_def COLUMN_DOCSEQ_def COLUMN_DOC_def
  RCOLUMN_ID_def RCOLUMN_DELETED_def RCOLUMN_REV_def RCOLUMN_OLDREVS_def RCOLUMN_SEQ_def RCOLUMN_DOCSEQ_def RCOLUMN_DOC_def

section \<open>Environments and stores\<close>

definition sizeof_sqlite_env :: nat where "sizeof_sqlite_env = 8"
definition sizeof_sqlite_store :: nat where "sizeof_sqlite_store = 16"
definition sizeof_sqlite_iterator :: nat where "sizeof_sqlite_iterator = 16"

text \<open>An environment is its name; a refused copy of the name is not noticed, and is left out here.\<close>

definition sqlite_la_storage_open_env ::
  "allocator \<Rightarrow> 'w sqlite \<Rightarrow> byte list \<Rightarrow> ('w, byte list option) act" where
  "sqlite_la_storage_open_env A S name w =
     (if \<not> grant A sizeof_sqlite_env then Some (None, w)
      else if \<not> grant A (add_sz (length name) 1) then None
      else case stat_op S name w of
        (PATH_ENOENT, w1) \<Rightarrow>
          (case mkdir_op S name w1 of (ok, w2) \<Rightarrow> Some (if ok then Some name else None, w2))
      | (PATH_UNREADABLE, w1) \<Rightarrow> Some (None, w1)
      | (PATH_OTHER, w1) \<Rightarrow> Some (None, w1)
      | (PATH_DIR, w1) \<Rightarrow> Some (Some name, w1))"

definition sqlite_la_storage_close_env :: "byte list \<Rightarrow> ('w, int) act" where
  "sqlite_la_storage_close_env env w = Some (0, w)"

text \<open>The result of the initial script is not looked at.\<close>

definition sqlite_la_storage_open ::
  "allocator \<Rightarrow> 'w sqlite \<Rightarrow> byte list \<Rightarrow> byte list \<Rightarrow> ('w, unit option) act" where
  "sqlite_la_storage_open A S env name w =
     (if \<not> grant A sizeof_sqlite_store then Some (None, w)
      else do {
        path \<leftarrow> string_join A [0x2f] [env, name] 2;
        (case path of
           None \<Rightarrow> Some (None, w)
         | Some p \<Rightarrow> do {
             c \<leftarrow> cstr p;
             case sqlite3_open_op S c w of
               (ok, w1) \<Rightarrow> if ok then Some (Some (), exec_sql S initsql w1) else Some (None, w1) }) })"

definition sqlite_la_storage_close :: "'w sqlite \<Rightarrow> unit \<Rightarrow> ('w, int) act" where
  "sqlite_la_storage_close S store w = Some (0, sqlite3_close_op S w)"

section \<open>Reading\<close>

text \<open>
  Binding parameters in order; the first failure stops. Every use finalizes the statement when a
  binding fails.
\<close>

fun bind_all :: "'w sqlite \<Rightarrow> nat \<Rightarrow> (nat \<times> sql_value) list \<Rightarrow> 'w \<Rightarrow> bool \<times> 'w" where
  "bind_all S h [] w = (True, w)"
| "bind_all S h ((i, v) # bs) w =
     (case sqlite3_bind_op S h i v w of (ok, w1) \<Rightarrow> if ok then bind_all S h bs w1 else (False, w1))"

text \<open>
  The object made from a row of \<open>docs\<close>: the number of bytes of the old revisions is used as their
  count. Allocations are not checked.
\<close>

definition object_of_row :: "allocator \<Rightarrow> sql_value list \<Rightarrow> la_storage_object option" where
  "object_of_row A row = do {
     rv \<leftarrow> column_bytes row RCOLUMN_REV;
     oldrev \<leftarrow> column_bytes row RCOLUMN_OLDREVS;
     let oldrev_count = length oldrev;
     k \<leftarrow> column_bytes row RCOLUMN_ID;
     dat \<leftarrow> column_bytes row RCOLUMN_DOC;
     blk \<leftarrow> (if grant A sizeof_object \<and> grant A (add_sz (length k) 1)
             then malloc A (sizeof_header + oldrev_count * LA_OBJECT_REVISION_LEN + length dat) else None);
     del \<leftarrow> column_int64 row RCOLUMN_DELETED;
     sq \<leftarrow> column_int64 row RCOLUMN_SEQ;
     ds \<leftarrow> column_int64 row RCOLUMN_DOCSEQ;
     r \<leftarrow> mem_read rv 0 LA_OBJECT_REVISION_LEN;
     olds \<leftarrow> mem_read oldrev 0 (oldrev_count * LA_OBJECT_REVISION_LEN);
     d1 \<leftarrow> mem_write (drop sizeof_header blk) 0 olds;
     let n = (word_of_nat oldrev_count :: 15 word);
     d2 \<leftarrow> mem_write d1 (LA_OBJECT_REVISION_LEN * unat n) dat;
     Some \<lparr>key = takeWhile (\<lambda>c. c \<noteq> 0) k,
           header = \<lparr>seq = word_of_int sq, doc_seq = word_of_int ds, deleted = odd del, rev_count = n, hrev = r,
                     revs_data = d2\<rparr>,
           data_length = length dat\<rparr> }"

definition sqlite_la_storage_get ::
  "allocator \<Rightarrow> 'w sqlite \<Rightarrow> unit \<Rightarrow> byte list \<Rightarrow> rev option \<Rightarrow> bool \<Rightarrow>
   ('w, la_storage_object_get_result \<times> la_storage_object option) act" where
  "sqlite_la_storage_get A S store k rv want w =
     (case sqlite3_prepare_op S (if rv = None then getbyid else getbyidrev) w of
        (None, w1) \<Rightarrow> Some ((LA_STORAGE_OBJECT_GET_ERROR, None), w1)
      | (Some stmt, w1) \<Rightarrow>
          (case bind_all S stmt
                  ((1, SQL_TEXT k) # (case rv of None \<Rightarrow> [] | Some r \<Rightarrow> [(2, SQL_BLOB (take LA_OBJECT_REVISION_LEN r))])) w1 of
             (False, w2) \<Rightarrow> Some ((LA_STORAGE_OBJECT_GET_ERROR, None), sqlite3_finalize_op S stmt w2)
           | (True, w2) \<Rightarrow>
               (case sqlite3_step_op S stmt w2 of
                  (SQLITE_ROW row, w3) \<Rightarrow>
                    if want
                    then do {
                      obj \<leftarrow> object_of_row A row;
                      Some ((LA_STORAGE_OBJECT_GET_OK, Some obj), sqlite3_finalize_op S stmt w3) }
                    else Some ((LA_STORAGE_OBJECT_GET_OK, None), sqlite3_finalize_op S stmt w3)
                | (SQLITE_DONE, w3) \<Rightarrow> Some ((LA_STORAGE_OBJECT_GET_NOT_FOUND, None), sqlite3_finalize_op S stmt w3)
                | (SQLITE_FAILED, w3) \<Rightarrow> Some ((LA_STORAGE_OBJECT_GET_ERROR, None), sqlite3_finalize_op S stmt w3))))"

definition sqlite_la_storage_get_rev ::
  "'w sqlite \<Rightarrow> unit \<Rightarrow> byte list \<Rightarrow> ('w, la_storage_object_get_result \<times> rev option) act" where
  "sqlite_la_storage_get_rev S store k w =
     (case sqlite3_prepare_op S getrev w of
        (None, w1) \<Rightarrow> Some ((LA_STORAGE_OBJECT_GET_ERROR, None), w1)
      | (Some stmt, w1) \<Rightarrow>
          (case bind_all S stmt [(1, SQL_TEXT k)] w1 of
             (False, w2) \<Rightarrow> Some ((LA_STORAGE_OBJECT_GET_ERROR, None), sqlite3_finalize_op S stmt w2)
           | (True, w2) \<Rightarrow>
               (case sqlite3_step_op S stmt w2 of
                  (SQLITE_ROW row, w3) \<Rightarrow> do {
                    b \<leftarrow> column_bytes row 0;
                    r \<leftarrow> mem_read b 0 LA_OBJECT_REVISION_LEN;
                    Some ((LA_STORAGE_OBJECT_GET_OK, Some r), sqlite3_finalize_op S stmt w3) }
                | (SQLITE_DONE, w3) \<Rightarrow> Some ((LA_STORAGE_OBJECT_GET_NOT_FOUND, None), sqlite3_finalize_op S stmt w3)
                | (SQLITE_FAILED, w3) \<Rightarrow> Some ((LA_STORAGE_OBJECT_GET_ERROR, None), sqlite3_finalize_op S stmt w3))))"

definition get_result_code :: "la_storage_object_get_result \<Rightarrow> int" where
  "get_result_code r = (case r of LA_STORAGE_OBJECT_GET_OK \<Rightarrow> 0 | LA_STORAGE_OBJECT_GET_NOT_FOUND \<Rightarrow> 1
     | LA_STORAGE_OBJECT_GET_REVISION_NOT_FOUND \<Rightarrow> 2 | LA_STORAGE_OBJECT_GET_ERROR \<Rightarrow> 3)"

text \<open>
  The copy of the old revisions goes to the pointer plus 16 revisions, not plus 16 bytes; the count
  returned is the result code. A row that is not there leaves the statement open.
\<close>

definition sqlite_la_storage_get_all_revs ::
  "allocator \<Rightarrow> 'w sqlite \<Rightarrow> unit \<Rightarrow> byte list \<Rightarrow> ('w, int \<times> u64 option \<times> byte list option) act" where
  "sqlite_la_storage_get_all_revs A S store k w =
     (case sqlite3_prepare_op S getmeta w of
        (None, w1) \<Rightarrow> Some ((get_result_code LA_STORAGE_OBJECT_GET_ERROR, None, None), w1)
      | (Some stmt, w1) \<Rightarrow>
          (case bind_all S stmt [(1, SQL_TEXT k)] w1 of
             (False, w2) \<Rightarrow> Some ((get_result_code LA_STORAGE_OBJECT_GET_ERROR, None, None), sqlite3_finalize_op S stmt w2)
           | (True, w2) \<Rightarrow>
               (case sqlite3_step_op S stmt w2 of
                  (SQLITE_ROW row, w3) \<Rightarrow> do {
                    b \<leftarrow> column_bytes row 0;
                    oldrevs \<leftarrow> column_bytes row 1;
                    case malloc A (length oldrevs + LA_OBJECT_REVISION_LEN) of
                      None \<Rightarrow> Some ((get_result_code LA_STORAGE_OBJECT_GET_ERROR, None, None), sqlite3_finalize_op S stmt w3)
                    | Some blk \<Rightarrow> do {
                        r \<leftarrow> mem_read b 0 LA_OBJECT_REVISION_LEN;
                        blk1 \<leftarrow> mem_write blk 0 r;
                        blk2 \<leftarrow> (if oldrevs = [] then Some blk1
                                 else mem_write blk1 (LA_OBJECT_REVISION_LEN * LA_OBJECT_REVISION_LEN) oldrevs);
                        ds \<leftarrow> column_int64 row 3;
                        Some ((get_result_code LA_STORAGE_OBJECT_GET_OK, Some (word_of_int ds), Some blk2),
                              sqlite3_finalize_op S stmt w3) } }
                | (_, w3) \<Rightarrow> Some ((get_result_code LA_STORAGE_OBJECT_GET_NOT_FOUND, None, None), w3))))"

section \<open>Writing\<close>

text \<open>
  The object when a row is there: room for one more revision (up to the maximum), the data moved
  behind it, the stored revisions and before them the stored revision copied in. \<open>Inl\<close> is the
  refused \<open>realloc\<close>; the header has then its new count already.
\<close>

definition sqlite_put_update ::
  "allocator \<Rightarrow> rev \<Rightarrow> byte list \<Rightarrow> la_storage_object \<Rightarrow> (la_storage_object + la_storage_object) option" where
  "sqlite_put_update A r oldrevs obj =
     (let oldrev_bytes = length oldrevs;
          c0 = oldrev_bytes div LA_OBJECT_REVISION_LEN;
          oldrev_count = (if c0 < LA_OBJECT_MAX_REVISION_COUNT then c0 + 1 else c0);
          rc = unat (rev_count (header obj));
          obj1 = obj\<lparr>header := (header obj)\<lparr>rev_count := word_of_nat oldrev_count\<rparr>\<rparr> in
      if \<not> grant A (la_storage_object_total_size obj1) then Some (Inl obj1)
      else do {
        hr \<leftarrow> realloc_header A (header obj1) (la_storage_object_total_size obj1);
        d \<leftarrow> mem_move (revs_data hr) (data_offset obj1) (LA_OBJECT_REVISION_LEN * rc) (data_length obj);
        xs \<leftarrow> mem_read oldrevs 0 (nat (la_min (int oldrev_bytes) (int (LA_OBJECT_MAX_REVISION_COUNT * LA_OBJECT_REVISION_LEN))));
        d1 \<leftarrow> mem_write d LA_OBJECT_REVISION_LEN xs;
        rv \<leftarrow> mem_read r 0 LA_OBJECT_REVISION_LEN;
        d2 \<leftarrow> mem_write d1 0 rv;
        Some (Inr (obj1\<lparr>header := hr\<lparr>revs_data := d2\<rparr>\<rparr>)) })"

definition row_bindings :: "la_storage_object \<Rightarrow> (nat \<times> sql_value) list option" where
  "row_bindings obj = do {
     olds \<leftarrow> mem_read (revs_data (header obj)) 0 (LA_OBJECT_REVISION_LEN * unat (rev_count (header obj)));
     dat \<leftarrow> la_storage_object_get_data obj;
     Some [(COLUMN_ID, SQL_TEXT (key obj)),
           (COLUMN_DELETED, SQL_INT (if deleted (header obj) then 1 else 0)),
           (COLUMN_REV, SQL_BLOB (hrev (header obj))),
           (COLUMN_OLDREVS, SQL_BLOB olds),
           (COLUMN_SEQ, SQL_INT (sint (seq (header obj)))),
           (COLUMN_DOCSEQ, SQL_INT (sint (doc_seq (header obj)))),
           (COLUMN_DOC, SQL_BLOB dat)] }"

text \<open>
  The common part of \<open>put\<close> and \<open>replace\<close>: prepare, bind and step the insertion; every failure rolls
  back and finalizes. The statement is returned on success. The values are read before the first of them is
  bound: an object whose data is not inside its block has no result even when an earlier binding fails.
\<close>

definition insert_row :: "'w sqlite \<Rightarrow> la_storage_object \<Rightarrow> ('w, nat option) act" where
  "insert_row S obj w =
     (case sqlite3_prepare_op S putdoc w of
        (None, w1) \<Rightarrow> Some (None, exec_sql S rollback w1)
      | (Some stmt, w1) \<Rightarrow> do {
          bs \<leftarrow> row_bindings obj;
          (case bind_all S stmt bs w1 of
             (False, w2) \<Rightarrow> Some (None, sqlite3_finalize_op S stmt (exec_sql S rollback w2))
           | (True, w2) \<Rightarrow>
               (case sqlite3_step_op S stmt w2 of
                  (SQLITE_DONE, w3) \<Rightarrow> Some (Some stmt, w3)
                | (_, w3) \<Rightarrow> Some (None, sqlite3_finalize_op S stmt (exec_sql S rollback w3)))) })"

definition finish_put ::
  "'w sqlite \<Rightarrow> la_storage_object \<Rightarrow> ('w, la_storage_object_put_result \<times> la_storage_object) act" where
  "finish_put S obj w = do {
     (done, w1) \<leftarrow> insert_row S obj w;
     (case done of
        None \<Rightarrow> Some ((LA_STORAGE_OBJECT_PUT_ERROR, obj), w1)
      | Some stmt \<Rightarrow> Some ((LA_STORAGE_OBJECT_PUT_SUCCESS, obj), exec_sql S endtxn (sqlite3_finalize_op S stmt w1))) }"

definition sqlite_la_storage_put ::
  "allocator \<Rightarrow> 'w sqlite \<Rightarrow> unit \<Rightarrow> rev option \<Rightarrow> la_storage_object \<Rightarrow>
   ('w, la_storage_object_put_result \<times> la_storage_object) act" where
  "sqlite_la_storage_put A S store rv obj w =
     (let w0 = exec_sql S begintxn w in
      case sqlite3_prepare_op S getseq w0 of
        (None, w1) \<Rightarrow> Some ((LA_STORAGE_OBJECT_PUT_ERROR, obj), w1)
      | (Some q, w1) \<Rightarrow>
      (case sqlite3_step_op S q w1 of
        (SQLITE_ROW srow, w2) \<Rightarrow> do {
          sq \<leftarrow> column_int64 srow 0;
          let w3 = sqlite3_finalize_op S q w2;
          (case sqlite3_prepare_op S getmeta w3 of
             (None, w4) \<Rightarrow> Some ((LA_STORAGE_OBJECT_PUT_ERROR, obj), exec_sql S rollback w4)
           | (Some stmt, w4) \<Rightarrow>
          (case bind_all S stmt [(1, SQL_TEXT (key obj))] w4 of
             (False, w5) \<Rightarrow> Some ((LA_STORAGE_OBJECT_PUT_ERROR, obj), exec_sql S rollback (sqlite3_finalize_op S stmt w5))
           | (True, w5) \<Rightarrow>
          (case sqlite3_step_op S stmt w5 of
             (SQLITE_ROW row, w6) \<Rightarrow> do {
               r \<leftarrow> column_bytes row 0;
               stored \<leftarrow> mem_read r 0 LA_OBJECT_REVISION_LEN;
               if rv = None \<or> the rv \<noteq> stored
               then Some ((LA_STORAGE_OBJECT_PUT_CONFLICT, obj), exec_sql S rollback (sqlite3_finalize_op S stmt w6))
               else do {
                 oldrevs \<leftarrow> column_bytes row 1;
                 updated \<leftarrow> sqlite_put_update A r oldrevs obj;
                 (case updated of
                    Inl o1 \<Rightarrow> Some ((LA_STORAGE_OBJECT_PUT_ERROR, o1), exec_sql S rollback (sqlite3_finalize_op S stmt w6))
                  | Inr o1 \<Rightarrow> finish_put S (o1\<lparr>header := (header o1)\<lparr>seq := word_of_int sq\<rparr>\<rparr>) (sqlite3_finalize_op S stmt w6)) } }
           | (SQLITE_FAILED, w6) \<Rightarrow>
               Some ((LA_STORAGE_OBJECT_PUT_ERROR, obj), exec_sql S rollback (sqlite3_finalize_op S stmt w6))
           | (SQLITE_DONE, w6) \<Rightarrow>
               finish_put S (obj\<lparr>header := (header obj)\<lparr>rev_count := 0, seq := word_of_int sq\<rparr>\<rparr>)
                 (sqlite3_finalize_op S stmt w6)))) }
      | (_, w2) \<Rightarrow> Some ((LA_STORAGE_OBJECT_PUT_ERROR, obj), exec_sql S rollback (sqlite3_finalize_op S q w2))))"

text \<open>The statement is not finalized after a success.\<close>

definition sqlite_la_storage_replace ::
  "'w sqlite \<Rightarrow> unit \<Rightarrow> la_storage_object \<Rightarrow> ('w, la_storage_object_put_result \<times> la_storage_object) act" where
  "sqlite_la_storage_replace S store obj w =
     (case sqlite3_exec_op S begintxn w of
        (False, w1) \<Rightarrow> Some ((LA_STORAGE_OBJECT_PUT_ERROR, obj), w1)
      | (True, w1) \<Rightarrow> do {
          (done, w2) \<leftarrow> insert_row S obj w1;
          (case done of
             None \<Rightarrow> Some ((LA_STORAGE_OBJECT_PUT_ERROR, obj), w2)
           | Some stmt \<Rightarrow> Some ((LA_STORAGE_OBJECT_PUT_SUCCESS, obj), exec_sql S endtxn w2)) })"

section \<open>Sequence and iteration\<close>

definition sqlite_la_storage_lastseq :: "'w sqlite \<Rightarrow> unit \<Rightarrow> ('w, u64) act" where
  "sqlite_la_storage_lastseq S store w =
     (case sqlite3_prepare_op S getseq w of
        (None, w1) \<Rightarrow> Some (0, w1)
      | (Some stmt, w1) \<Rightarrow>
          (case sqlite3_step_op S stmt w1 of
             (SQLITE_ROW row, w2) \<Rightarrow> do {
               sq \<leftarrow> column_int64 row 0;
               Some (word_of_int sq, sqlite3_finalize_op S stmt w2) }
           | (_, w2) \<Rightarrow> Some (0, sqlite3_finalize_op S stmt w2)))"

definition sqlite_la_storage_iterator_open ::
  "allocator \<Rightarrow> 'w sqlite \<Rightarrow> unit \<Rightarrow> u64 \<Rightarrow> ('w, nat option) act" where
  "sqlite_la_storage_iterator_open A S store since w =
     (if \<not> grant A sizeof_sqlite_iterator then Some (None, w)
      else if since > 0
      then (case sqlite3_prepare_op S getsince w of
              (None, w1) \<Rightarrow> Some (None, w1)
            | (Some stmt, w1) \<Rightarrow>
                (case bind_all S stmt [(1, SQL_INT (sint since))] w1 of
                   (False, w2) \<Rightarrow> Some (None, sqlite3_finalize_op S stmt w2)
                 | (True, w2) \<Rightarrow> Some (Some stmt, w2)))
      else (case sqlite3_prepare_op S getall w of
              (None, w1) \<Rightarrow> Some (None, w1)
            | (Some stmt, w1) \<Rightarrow> Some (Some stmt, w1)))"

definition sqlite_la_storage_iterator_next ::
  "allocator \<Rightarrow> 'w sqlite \<Rightarrow> nat \<Rightarrow>
   ('w, la_storage_object_iterator_result \<times> la_storage_object option \<times> nat) act" where
  "sqlite_la_storage_iterator_next A S it w =
     (case sqlite3_step_op S it w of
        (SQLITE_DONE, w1) \<Rightarrow> Some ((LA_STORAGE_OBJECT_ITERATOR_END, None, it), w1)
      | (SQLITE_ROW row, w1) \<Rightarrow> do {
          obj \<leftarrow> object_of_row A row;
          Some ((LA_STORAGE_OBJECT_ITERATOR_GOT_NEXT, Some obj, it), w1) }
      | (SQLITE_FAILED, w1) \<Rightarrow> Some ((LA_STORAGE_OBJECT_ITERATOR_ERROR, None, it), w1))"

definition sqlite_la_storage_iterator_close :: "'w sqlite \<Rightarrow> nat \<Rightarrow> ('w, unit) act" where
  "sqlite_la_storage_iterator_close S it w = Some ((), sqlite3_finalize_op S it w)"

section \<open>The driver\<close>

text \<open>
  \<open>open_store\<close> is called with four arguments and has to return a result code; the driver's function
  takes two and returns a pointer, so the call is undefined.
\<close>

definition sqlite_driver :: "allocator \<Rightarrow> 'w sqlite \<Rightarrow> (byte list, unit, nat, 'w) driver" where
  "sqlite_driver A S =
     \<lparr>drv_name = [0x53, 0x51, 0x4c, 0x69, 0x74, 0x65],
      drv_open_env = sqlite_la_storage_open_env A S,
      drv_close_env = sqlite_la_storage_close_env,
      drv_open_store = (\<lambda>env name flags w. None),
      drv_close_store = sqlite_la_storage_close S,
      drv_delete_store = None,
      drv_get = sqlite_la_storage_get A S,
      drv_get_rev = sqlite_la_storage_get_rev S,
      drv_get_all_revs = sqlite_la_storage_get_all_revs A S,
      drv_set_revs = None,
      drv_put = sqlite_la_storage_put A S,
      drv_replace = sqlite_la_storage_replace S,
      drv_lastseq = sqlite_la_storage_lastseq S,
      drv_stat = None,
      drv_iterator_open = sqlite_la_storage_iterator_open A S,
      drv_iterator_next = sqlite_la_storage_iterator_next A S,
      drv_iterator_close = sqlite_la_storage_iterator_close S\<rparr>"

definition sqlite3_la_driver_init ::
  "allocator \<Rightarrow> 'w sqlite \<Rightarrow> install_env \<Rightarrow> (byte list, unit, nat, 'w) registry \<Rightarrow>
   (int \<times> (byte list, unit, nat, 'w) registry) option" where
  "sqlite3_la_driver_init A S I drivers =
     la_storage_install_driver A I [0x53, 0x51, 0x4c, 0x69, 0x74, 0x65] (sqlite_driver A S) drivers"

end
