(* ===== verification/LA_Sqlite_Props.thy ===== *)
theory LA_Sqlite_Props
  imports LA_Sqlite
begin

text \<open>
  The properties of the SQLite driver: what \<open>put\<close> and \<open>get\<close> do to the tables, over the meaning of the
  statements the driver prepares. A small in-memory library shows that the laws can hold.
\<close>

section \<open>The tables and the statements\<close>

record sq_doc =
  q_deleted :: int
  q_rev :: rev
  q_oldrevs :: "byte list"
  q_seq :: int
  q_doc_seq :: int
  q_doc :: "byte list"

record sq_tables =
  docs_tab :: "byte list \<Rightarrow> sq_doc option"
  meta_seq :: int

type_synonym sq_bindings = "nat \<Rightarrow> sql_value option"

text \<open>One step of a statement that gives at most one row; an insertion counts the sequence on.\<close>

definition select_doc :: "sq_bindings \<Rightarrow> sq_tables \<Rightarrow> (byte list \<Rightarrow> sq_doc \<Rightarrow> sql_value list) \<Rightarrow> sql_step" where
  "select_doc b T f =
     (case b 1 of
        Some (SQL_TEXT k) \<Rightarrow> (case docs_tab T k of None \<Rightarrow> SQLITE_DONE | Some d \<Rightarrow> SQLITE_ROW (f k d))
      | _ \<Rightarrow> SQLITE_FAILED)"

definition full_row :: "byte list \<Rightarrow> sq_doc \<Rightarrow> sql_value list" where
  "full_row k d = [SQL_TEXT k, SQL_INT (q_deleted d), SQL_BLOB (q_rev d), SQL_BLOB (q_oldrevs d), SQL_INT (q_seq d),
     SQL_INT (q_doc_seq d), SQL_BLOB (q_doc d)]"

definition sql_eval :: "sql_query \<Rightarrow> sq_bindings \<Rightarrow> sq_tables \<Rightarrow> sql_step \<times> sq_tables" where
  "sql_eval q b T =
     (case q of
        getbyid \<Rightarrow> (select_doc b T full_row, T)
      | getrev \<Rightarrow> (select_doc b T (\<lambda>k d. [SQL_BLOB (q_rev d)]), T)
      | getmeta \<Rightarrow> (select_doc b T (\<lambda>k d. [SQL_BLOB (q_rev d), SQL_BLOB (q_oldrevs d), SQL_INT (q_seq d), SQL_INT (q_doc_seq d)]), T)
      | getseq \<Rightarrow> (SQLITE_ROW [SQL_INT (meta_seq T)], T)
      | putdoc \<Rightarrow>
          (case (b 1, b 2, b 3, b 4, b 5, b 6, b 7) of
             (Some (SQL_TEXT k), Some (SQL_INT del), Some (SQL_BLOB r), Some (SQL_BLOB olds), Some (SQL_INT sq),
              Some (SQL_INT ds), Some (SQL_BLOB dat)) \<Rightarrow>
               (SQLITE_DONE,
                T\<lparr>docs_tab := (docs_tab T)(k \<mapsto> \<lparr>q_deleted = del, q_rev = r, q_oldrevs = olds, q_seq = sq,
                    q_doc_seq = ds, q_doc = dat\<rparr>), meta_seq := meta_seq T + 1\<rparr>)
           | _ \<Rightarrow> (SQLITE_FAILED, T))
      | _ \<Rightarrow> (SQLITE_FAILED, T))"

text \<open>The number of parameters in the text of a statement: no other index can be bound (\<open>SQLITE_RANGE\<close>).\<close>

definition sql_params :: "sql_query \<Rightarrow> nat" where
  "sql_params q = (case q of getbyidrev \<Rightarrow> 2 | getall \<Rightarrow> 0 | putdoc \<Rightarrow> 7 | getseq \<Rightarrow> 0 | _ \<Rightarrow> 1)"

definition in_range :: "sql_query \<Rightarrow> (nat \<times> sql_value) list \<Rightarrow> bool" where
  "in_range q bs = (\<forall>(i, v) \<in> set bs. 1 \<le> i \<and> i \<le> sql_params q)"

definition single :: "sql_query \<Rightarrow> bool" where
  "single q = (q \<noteq> getall \<and> q \<noteq> getsince \<and> q \<noteq> getbyidrev)"

text \<open>What the store holds after a put, as a function of the object that is inserted.\<close>

definition stored_doc :: "int \<Rightarrow> byte list \<Rightarrow> la_storage_object \<Rightarrow> sq_doc" where
  "stored_doc m olds obj =
     \<lparr>q_deleted = (if deleted (header obj) then 1 else 0), q_rev = hrev (header obj), q_oldrevs = olds,
      q_seq = sint (word_of_int m :: u64), q_doc_seq = sint (doc_seq (header obj)), q_doc = object_data obj\<rparr>"

lemma row_bindings_ok:
  assumes "object_wf obj"
  shows "row_bindings obj = Some [(COLUMN_ID, SQL_TEXT (key obj)), (COLUMN_DELETED, SQL_INT (if deleted (header obj) then 1 else 0)),
    (COLUMN_REV, SQL_BLOB (hrev (header obj))), (COLUMN_OLDREVS, SQL_BLOB (take (data_offset obj) (revs_data (header obj)))),
    (COLUMN_SEQ, SQL_INT (sint (seq (header obj)))), (COLUMN_DOCSEQ, SQL_INT (sint (doc_seq (header obj)))),
    (COLUMN_DOC, SQL_BLOB (object_data obj))]"
proof -
  have "mem_read (revs_data (header obj)) 0 (LA_OBJECT_REVISION_LEN * unat (rev_count (header obj))) =
      Some (take (data_offset obj) (revs_data (header obj)))"
    using assms by (simp add: mem_read_def object_wf_def data_offset_def)
  moreover have "la_storage_object_get_data obj = Some (object_data obj)"
    using assms by (simp add: la_storage_object_get_data_def mem_read_def object_wf_def object_data_def)
  ultimately show ?thesis by (simp add: row_bindings_def)
qed

text \<open>The update of an object whose own history is not longer than the stored one.\<close>

lemma sqlite_put_update_spec:
  assumes "object_wf obj" "length oldrevs = 16 * c" "c < 1024" "unat (rev_count (header obj)) \<le> c" "length r = 16"
    and "grant A (34 + 16 * (c + 1) + data_length obj)"
  shows "\<exists>t. sqlite_put_update A r oldrevs obj = Some (Inr (obj\<lparr>header := (header obj)\<lparr>rev_count := word_of_nat (c + 1),
      revs_data := r @ oldrevs @ object_data obj @ t\<rparr>\<rparr>))"
proof -
  define rc where "rc = unat (rev_count (header obj))"
  define dl where "dl = data_length obj"
  define R where "R = revs_data (header obj)"
  define n where "n = (word_of_nat (c + 1) :: 15 word)"
  let ?h1 = "(header obj)\<lparr>rev_count := n\<rparr>"
  have rcc: "rc \<le> c" using assms(4) by (simp add: rc_def)
  have cnt: "unat n = c + 1"
    unfolding n_def using assms(3) by (simp only: unat_of_nat take_bit_nat_eq_self) (simp add: take_bit_nat_eq_self)
  have wf: "header_wf ?h1" "16 * rc + dl \<le> length R"
    using assms(1) by (simp_all add: object_wf_def header_wf_def R_def dl_def rc_def data_offset_def)
  have od: "object_data obj = take dl (drop (16 * rc) R)" by (simp add: object_data_def data_offset_def rc_def dl_def R_def)
  have tot: "la_storage_object_total_size (obj\<lparr>header := ?h1\<rparr>) = 34 + 16 * (c + 1) + dl"
    by (simp add: la_storage_object_total_size_def cnt dl_def)
  have off: "data_offset (obj\<lparr>header := ?h1\<rparr>) = 16 * (c + 1)"
    by (simp add: data_offset_def cnt)
  have g: "grant A (34 + 16 * (c + 1) + dl)" using assms(6) by (simp add: dl_def)
  define N where "N = 16 * (c + 1) + dl"
  have gN: "grant A (34 + N)" using g by (simp add: N_def add.assoc)
  have "34 + N - 34 = N" by simp
  with realloc_header_spec [OF wf(1) _ gN] obtain t where tN: "realloc_header A ?h1 (34 + N) = Some (?h1\<lparr>revs_data := t\<rparr>)"
    "N + slack A (34 + N) = length t" "take (min N (length (revs_data ?h1))) t = take N (revs_data ?h1)" by auto
  have nt: "34 + 16 * (c + 1) + dl = 34 + N" by (simp add: N_def)
  have t: "realloc_header A ?h1 (34 + 16 * (c + 1) + dl) = Some (?h1\<lparr>revs_data := t\<rparr>)"
    "16 * (c + 1) + dl \<le> length t" "take (min (16 * (c + 1) + dl) (length R)) t = take (16 * (c + 1) + dl) R"
    using tN unfolding nt N_def [symmetric] by (simp_all add: R_def)
  have pre: "take (16 * rc + dl) t = take (16 * rc + dl) R"
  proof -
    have "take (16 * rc + dl) (take (min (16 * (c + 1) + dl) (length R)) t) = take (16 * rc + dl) (take (16 * (c + 1) + dl) R)"
      by (simp only: t(3))
    moreover have "16 * rc + dl \<le> 16 * (c + 1) + dl" using rcc by simp
    ultimately show ?thesis using wf(2) by (simp add: min_def split: if_splits)
  qed
  have mv: "take dl (drop (16 * rc) t) = object_data obj"
    using arg_cong [OF pre, of "drop (16 * rc)"] by (simp add: drop_take od)
  have lod: "length (object_data obj) = dl" using wf(2) by (simp add: od)
  let ?u = "drop (16 * (c + 1) + dl) t"
  have m: "mem_move t (16 * (c + 1)) (16 * rc) dl = Some (take (16 * (c + 1)) t @ object_data obj @ ?u)"
    using t(2) rcc mv by (simp add: mem_move_inside)
  have mn: "nat (la_min (int (length oldrevs)) (int (LA_OBJECT_MAX_REVISION_COUNT * LA_OBJECT_REVISION_LEN))) = length oldrevs"
    using assms(2,3) by (simp add: la_min_def LA_OBJECT_MAX_REVISION_COUNT_def LA_OBJECT_REVISION_LEN_def)
  have xs: "mem_read oldrevs 0 (length oldrevs) = Some oldrevs" "mem_read r 0 16 = Some r"
    using assms(5) by (simp_all add: mem_read_def)
  have w1: "mem_write (take (16 * (c + 1)) t @ object_data obj @ ?u) 16 oldrevs =
      Some (take 16 t @ oldrevs @ object_data obj @ ?u)"
  proof -
    define T1 where "T1 = take (16 * (c + 1)) t"
    have "length T1 = 16 + 16 * c" "take 16 T1 = take 16 t" using t(2) by (simp_all add: T1_def)
    then show ?thesis unfolding T1_def [symmetric] using assms(2) by (simp add: mem_write_def)
  qed
  have w2: "mem_write (take 16 t @ oldrevs @ object_data obj @ ?u) 0 r = Some (r @ oldrevs @ object_data obj @ ?u)"
    using t(2) assms(5) by (simp add: mem_write_def)
  have c0: "length oldrevs div LA_OBJECT_REVISION_LEN = c" "c < LA_OBJECT_MAX_REVISION_COUNT"
    using assms(2,3) by (simp_all add: LA_OBJECT_REVISION_LEN_def LA_OBJECT_MAX_REVISION_COUNT_def)
  have "sqlite_put_update A r oldrevs obj = Some (Inr (obj\<lparr>header := ?h1\<lparr>revs_data := r @ oldrevs @ object_data obj @ ?u\<rparr>\<rparr>))"
    unfolding sqlite_put_update_def Let_def c0(1) if_P [OF c0(2)] n_def [symmetric] tot off mn t(1)
    using g m xs w1 w2 t(1) by (simp add: LA_OBJECT_REVISION_LEN_def flip: rc_def dl_def)
  then show ?thesis unfolding n_def by (intro exI [of _ ?u]) simp
qed

text \<open>
  The abstract put: a new key gets no history, an existing one keeps its whole history behind the
  revision it had; the update sequence is the next one, the document sequence is the object's own.
\<close>

definition insert_doc :: "byte list \<Rightarrow> sq_doc \<Rightarrow> sq_tables \<Rightarrow> sq_tables" where
  "insert_doc k d T = T\<lparr>docs_tab := (docs_tab T)(k \<mapsto> d), meta_seq := meta_seq T + 1\<rparr>"

definition sq_spec_put :: "rev option \<Rightarrow> la_storage_object \<Rightarrow> sq_tables \<Rightarrow> la_storage_object_put_result \<times> sq_tables" where
  "sq_spec_put rv obj T =
     (case docs_tab T (key obj) of
        None \<Rightarrow> (LA_STORAGE_OBJECT_PUT_SUCCESS, insert_doc (key obj) (stored_doc (meta_seq T) [] obj) T)
      | Some d \<Rightarrow>
          if rv = Some (q_rev d)
          then (LA_STORAGE_OBJECT_PUT_SUCCESS,
                insert_doc (key obj) (stored_doc (meta_seq T) (q_rev d @ q_oldrevs d) obj) T)
          else (LA_STORAGE_OBJECT_PUT_CONFLICT, T))"

definition sq_fits :: "allocator \<Rightarrow> sq_tables \<Rightarrow> la_storage_object \<Rightarrow> bool" where
  "sq_fits A T obj =
     (case docs_tab T (key obj) of
        None \<Rightarrow> rev_count (header obj) = 0
      | Some d \<Rightarrow> length (q_rev d) = 16 \<and> length (q_oldrevs d) mod 16 = 0 \<and> length (q_oldrevs d) < 16 * 1024 \<and>
                  16 * unat (rev_count (header obj)) \<le> length (q_oldrevs d) \<and>
                  grant A (50 + length (q_oldrevs d) + data_length obj))"

lemma column_numeral [simp]:
  "column_bytes (v # vs) (numeral n) = column_bytes vs (pred_numeral n)"
  "column_int64 (v # vs) (numeral n) = column_int64 vs (pred_numeral n)"
  by (simp_all add: numeral_eq_Suc)

text \<open>
  The object made from a row: with no old revisions it is the row; with any the copy reads behind
  the end of the blob, because the number of bytes is taken for the number of revisions.
\<close>

lemma object_of_row_plain:
  assumes "q_oldrevs d = []" "length (q_rev d) = 16" "0 \<notin> set k"
    and "grant A sizeof_object" "grant A (add_sz (length k) 1)" "grant A (34 + length (q_doc d))" "length (q_doc d) < 2 ^ 31"
  shows "\<exists>obj. object_of_row A (full_row k d) = Some obj \<and> key obj = k \<and> object_wf obj \<and>
    doc_of_object obj = \<lparr>d_seq = word_of_int (q_seq d), d_doc_seq = word_of_int (q_doc_seq d), d_deleted = odd (q_deleted d),
      d_rev = q_rev d, d_history = [], d_data = q_doc d\<rparr>"
proof -
  obtain blk where blk: "malloc A (34 + length (q_doc d)) = Some blk" using assms(6) by (simp add: malloc_def)
  have l: "34 + length (q_doc d) \<le> length blk" using malloc_length [OF blk] by simp
  let ?t = "drop (34 + length (q_doc d)) blk"
  let ?obj = "\<lparr>key = k, header = \<lparr>seq = word_of_int (q_seq d), doc_seq = word_of_int (q_doc_seq d), deleted = odd (q_deleted d),
      rev_count = 0, hrev = q_rev d, revs_data = q_doc d @ ?t\<rparr>, data_length = length (q_doc d)\<rparr>"
  have tw: "takeWhile (\<lambda>c. c \<noteq> 0) k = k" using assms(3) by (auto simp: takeWhile_eq_all_conv)
  have w: "mem_write (drop 34 blk) 0 (q_doc d) = Some (q_doc d @ ?t)" "mem_write (drop 34 blk) 0 [] = Some (drop 34 blk)"
    "mem_read (q_rev d) 0 16 = Some (q_rev d)" "mem_read [] 0 0 = Some ([] :: byte list)"
    using l assms(2) by (simp_all add: mem_write_def mem_read_def add.commute)
  have "object_of_row A (full_row k d) = Some ?obj"
    using assms(1,4,5) blk w tw by (simp add: object_of_row_def full_row_def sql_columns Let_def)
  moreover have "object_wf ?obj" using assms(2,3,7) by (simp add: object_wf_def header_wf_def data_offset_def)
  ultimately show ?thesis
    by (intro exI [of _ ?obj]) (simp add: doc_of_object_def doc_of_header_def object_data_def data_offset_def)
qed

lemma object_of_row_overrun:
  assumes "q_oldrevs d \<noteq> []"
  shows "object_of_row A (full_row k d) = None"
proof -
  have "length (q_oldrevs d) < length (q_oldrevs d) * 16" using assms by (cases "q_oldrevs d") auto
  then have "mem_read (q_oldrevs d) 0 (length (q_oldrevs d) * LA_OBJECT_REVISION_LEN) = None" by (simp add: mem_read_def)
  then show ?thesis
    by (simp add: object_of_row_def full_row_def sql_columns Let_def bind_eq_None_conv)
qed

text \<open>
  What a library that does not fail promises: \<open>tables\<close> is what a reader sees, \<open>saved\<close> what a rollback
  brings back while a transaction is open, \<open>stmt\<close> the statements with their bindings.
\<close>

locale sqlite_lib =
  fixes S :: "'w sqlite"
    and tables :: "'w \<Rightarrow> sq_tables"
    and saved :: "'w \<Rightarrow> sq_tables option"
    and stmt :: "'w \<Rightarrow> nat \<Rightarrow> (sql_query \<times> sq_bindings) option"
  assumes exec_begin: "saved w = None \<Longrightarrow> tables (exec_sql S begintxn w) = tables w \<and> saved (exec_sql S begintxn w) = Some (tables w)"
    and exec_end: "saved w \<noteq> None \<Longrightarrow> tables (exec_sql S endtxn w) = tables w \<and> saved (exec_sql S endtxn w) = None"
    and exec_rollback: "saved w = Some T \<Longrightarrow> tables (exec_sql S rollback w) = T \<and> saved (exec_sql S rollback w) = None"
    and prepare: "\<exists>h w'. sqlite3_prepare_op S q w = (Some h, w') \<and> stmt w' h = Some (q, Map.empty) \<and> tables w' = tables w \<and> saved w' = saved w"
    and bind: "stmt w h = Some (q, b) \<Longrightarrow> 1 \<le> i \<Longrightarrow> i \<le> sql_params q \<Longrightarrow>
      \<exists>w'. sqlite3_bind_op S h i v w = (True, w') \<and> stmt w' h = Some (q, b(i \<mapsto> v)) \<and> tables w' = tables w \<and> saved w' = saved w"
    and step: "stmt w h = Some (q, b) \<Longrightarrow> single q \<Longrightarrow>
      \<exists>w'. sqlite3_step_op S h w = (fst (sql_eval q b (tables w)), w') \<and> tables w' = snd (sql_eval q b (tables w)) \<and> saved w' = saved w"
    and finalize: "tables (sqlite3_finalize_op S h w) = tables w \<and> saved (sqlite3_finalize_op S h w) = saved w"
begin

lemma bind_all_ok:
  "stmt w h = Some (q, b) \<Longrightarrow> in_range q bs \<Longrightarrow>
   \<exists>w'. bind_all S h bs w = (True, w') \<and> stmt w' h = Some (q, b(map fst bs [\<mapsto>] map snd bs)) \<and> tables w' = tables w \<and> saved w' = saved w"
proof (induction bs arbitrary: w b)
  case Nil
  then show ?case by simp
next
  case (Cons iv bs)
  obtain i v where iv: "iv = (i, v)" by fastforce
  have tail: "in_range q bs" using Cons.prems(2) by (simp add: in_range_def)
  obtain w1 where w1: "sqlite3_bind_op S h i v w = (True, w1)" "stmt w1 h = Some (q, b(i \<mapsto> v))" "tables w1 = tables w" "saved w1 = saved w"
    using bind [OF Cons.prems(1), of i v] Cons.prems(2) by (auto simp: in_range_def iv)
  obtain w' where w': "bind_all S h bs w1 = (True, w')" "stmt w' h = Some (q, b(i \<mapsto> v, map fst bs [\<mapsto>] map snd bs))"
    "tables w' = tables w1" "saved w' = saved w1" using Cons.IH [OF w1(2) tail] by blast
  have "bind_all S h (iv # bs) w = (True, w')" using w1(1) w'(1) iv by simp
  moreover have "b(i \<mapsto> v, map fst bs [\<mapsto>] map snd bs) = b(map fst (iv # bs) [\<mapsto>] map snd (iv # bs))" using iv by simp
  ultimately show ?case using w' w1(3,4) by metis
qed

text \<open>Prepare, bind and step in one: the statement's meaning on the tables.\<close>

lemma run:
  assumes "single q" "in_range q bs"
  shows "\<exists>h w1 w2 w3. sqlite3_prepare_op S q w = (Some h, w1) \<and> bind_all S h bs w1 = (True, w2) \<and>
    sqlite3_step_op S h w2 = (fst (sql_eval q [map fst bs [\<mapsto>] map snd bs] (tables w)), w3) \<and>
    tables w3 = snd (sql_eval q [map fst bs [\<mapsto>] map snd bs] (tables w)) \<and> saved w3 = saved w"
proof -
  obtain h w1 where p: "sqlite3_prepare_op S q w = (Some h, w1)" "stmt w1 h = Some (q, Map.empty)" "tables w1 = tables w" "saved w1 = saved w"
    using prepare by blast
  obtain w2 where b: "bind_all S h bs w1 = (True, w2)" "stmt w2 h = Some (q, [map fst bs [\<mapsto>] map snd bs])" "tables w2 = tables w" "saved w2 = saved w"
    using bind_all_ok [OF p(2) assms(2)] p by auto
  from step [OF b(2) assms(1)] p b show ?thesis by auto
qed

text \<open>Inserting an object and committing.\<close>

lemma finish_put_ok:
  assumes "saved w \<noteq> None" "object_wf obj"
  shows "\<exists>w'. finish_put S obj w = Some ((LA_STORAGE_OBJECT_PUT_SUCCESS, obj), w') \<and> saved w' = None \<and>
    tables w' = insert_doc (key obj) \<lparr>q_deleted = (if deleted (header obj) then 1 else 0), q_rev = hrev (header obj),
      q_oldrevs = take (data_offset obj) (revs_data (header obj)), q_seq = sint (seq (header obj)),
      q_doc_seq = sint (doc_seq (header obj)), q_doc = object_data obj\<rparr> (tables w)"
proof -
  obtain bs where bs: "row_bindings obj = Some bs" using row_bindings_ok [OF assms(2)] by blast
  have in_row: "in_range putdoc bs"
    using bs unfolding row_bindings_ok [OF assms(2)] by (auto simp: in_range_def sql_params_def sql_columns)
  have ev: "sql_eval putdoc [map fst bs [\<mapsto>] map snd bs] (tables w) =
      (SQLITE_DONE, insert_doc (key obj) \<lparr>q_deleted = (if deleted (header obj) then 1 else 0), q_rev = hrev (header obj),
      q_oldrevs = take (data_offset obj) (revs_data (header obj)), q_seq = sint (seq (header obj)),
      q_doc_seq = sint (doc_seq (header obj)), q_doc = object_data obj\<rparr> (tables w))"
    using bs unfolding row_bindings_ok [OF assms(2)] by (auto simp: sql_eval_def sql_columns insert_doc_def)
  obtain h w1 w2 w3 where r: "sqlite3_prepare_op S putdoc w = (Some h, w1)" "bind_all S h bs w1 = (True, w2)"
    "sqlite3_step_op S h w2 = (SQLITE_DONE, w3)" "tables w3 = snd (sql_eval putdoc [map fst bs [\<mapsto>] map snd bs] (tables w))"
    "saved w3 = saved w"
    using run [of putdoc bs w] in_row unfolding ev by (auto simp: single_def)
  have "insert_row S obj w = Some (Some h, w3)" using r(1-3) bs by (simp add: insert_row_def)
  then have "finish_put S obj w = Some ((LA_STORAGE_OBJECT_PUT_SUCCESS, obj), exec_sql S endtxn (sqlite3_finalize_op S h w3))"
    by (simp add: finish_put_def)
  moreover have "saved (sqlite3_finalize_op S h w3) \<noteq> None" using finalize r(5) assms(1) by simp
  ultimately show ?thesis using exec_end [of "sqlite3_finalize_op S h w3"] finalize r(4) ev by simp
qed

text \<open>The driver's put is the abstract one.\<close>

lemma put_refines:
  assumes "saved w = None" "object_wf obj" "sq_fits A (tables w) obj"
  shows "\<exists>r obj' w'. sqlite_la_storage_put A S u rv obj w = Some ((r, obj'), w') \<and> saved w' = None \<and>
    (r, tables w') = sq_spec_put rv obj (tables w)"
proof -
  let ?T = "tables w" and ?w0 = "exec_sql S begintxn w"
  note b = exec_begin [OF assms(1)]
  obtain q w1 w2 where q: "sqlite3_prepare_op S getseq ?w0 = (Some q, w1)" "sqlite3_step_op S q w1 = (SQLITE_ROW [SQL_INT (meta_seq ?T)], w2)"
    "tables w2 = ?T" "saved w2 = Some ?T"
    using run [of getseq "[]" ?w0] b by (auto simp: single_def in_range_def sql_eval_def)
  define w3 where "w3 = sqlite3_finalize_op S q w2"
  have w3: "tables w3 = ?T" "saved w3 = Some ?T" using finalize q by (simp_all add: w3_def)
  define meta where "meta = (\<lambda>(k :: byte list) (d :: sq_doc). [SQL_BLOB (q_rev d), SQL_BLOB (q_oldrevs d), SQL_INT (q_seq d), SQL_INT (q_doc_seq d)])"
  have "sql_eval getmeta [1 \<mapsto> SQL_TEXT (key obj)] ?T =
      (case docs_tab ?T (key obj) of None \<Rightarrow> SQLITE_DONE | Some d \<Rightarrow> SQLITE_ROW (meta (key obj) d), ?T)"
    by (simp add: sql_eval_def select_doc_def meta_def split: option.split)
  then obtain h w4 w5 w6 where h: "sqlite3_prepare_op S getmeta w3 = (Some h, w4)" "bind_all S h [(1, SQL_TEXT (key obj))] w4 = (True, w5)"
    "sqlite3_step_op S h w5 = (case docs_tab ?T (key obj) of None \<Rightarrow> SQLITE_DONE | Some d \<Rightarrow> SQLITE_ROW (meta (key obj) d), w6)"
    "tables w6 = ?T" "saved w6 = Some ?T"
    using run [of getmeta "[(1, SQL_TEXT (key obj))]" w3] w3 by (auto simp: single_def in_range_def sql_params_def)
  let ?w7 = "sqlite3_finalize_op S h w6"
  have w7: "tables ?w7 = ?T" "saved ?w7 = Some ?T" using finalize h by simp_all
  note start = q(1,2) h(1,2) w3_def [symmetric]
  show ?thesis
  proof (cases "docs_tab ?T (key obj)")
    case None
    let ?o = "obj\<lparr>header := (header obj)\<lparr>rev_count := 0, seq := word_of_int (meta_seq ?T)\<rparr>\<rparr>"
    have rc0: "rev_count (header obj) = 0" using assms(3) None by (simp add: sq_fits_def)
    then have o: "object_wf ?o" "object_data ?o = object_data obj" "data_offset ?o = 0"
      using assms(2) by (simp_all add: object_wf_def header_wf_def data_offset_def object_data_def)
    have st: "sqlite3_step_op S h w5 = (SQLITE_DONE, w6)" using h(3) None by simp
    obtain w' where f: "finish_put S ?o ?w7 = Some ((LA_STORAGE_OBJECT_PUT_SUCCESS, ?o), w')" "saved w' = None"
      "tables w' = insert_doc (key obj) (stored_doc (meta_seq ?T) [] obj) ?T"
      using finish_put_ok [of ?w7 ?o] w7 o by (auto simp: stored_doc_def)
    have "sqlite_la_storage_put A S u rv obj w = finish_put S ?o ?w7"
      using start st by (simp add: sqlite_la_storage_put_def Let_def)
    then show ?thesis using f None by (simp add: sq_spec_put_def)
  next
    case (Some d)
    have st: "sqlite3_step_op S h w5 = (SQLITE_ROW (meta (key obj) d), w6)" using h(3) Some by simp
    have fits: "length (q_rev d) = 16" using assms(3) Some by (simp add: sq_fits_def)
    have col: "column_bytes (meta (key obj) d) 0 = Some (q_rev d)" "column_bytes (meta (key obj) d) 1 = Some (q_oldrevs d)"
      "mem_read (q_rev d) 0 LA_OBJECT_REVISION_LEN = Some (q_rev d)"
      using fits by (simp_all add: meta_def mem_read_def)
    show ?thesis
    proof (cases "rv = Some (q_rev d)")
      case False
      then have "sqlite_la_storage_put A S u rv obj w = Some ((LA_STORAGE_OBJECT_PUT_CONFLICT, obj), exec_sql S rollback ?w7)"
        using start st col by (auto simp: sqlite_la_storage_put_def Let_def)
      then show ?thesis using exec_rollback [OF w7(2)] Some False by (simp add: sq_spec_put_def)
    next
      case True
      obtain c where c: "length (q_oldrevs d) = 16 * c" using assms(3) Some by (auto simp: sq_fits_def)
      have u: "c < 1024" "unat (rev_count (header obj)) \<le> c" "grant A (34 + 16 * (c + 1) + data_length obj)"
        using assms(3) Some c by (simp_all add: sq_fits_def)
      obtain t where t: "sqlite_put_update A (q_rev d) (q_oldrevs d) obj = Some (Inr (obj\<lparr>header := (header obj)\<lparr>
          rev_count := word_of_nat (c + 1), revs_data := q_rev d @ q_oldrevs d @ object_data obj @ t\<rparr>\<rparr>))"
        using sqlite_put_update_spec [OF assms(2) c u(1,2) fits u(3)] by blast
      define n where "n = (word_of_nat (c + 1) :: 15 word)"
      have cnt: "unat n = c + 1"
        unfolding n_def using u(1) by (simp only: unat_of_nat take_bit_nat_eq_self) (simp add: take_bit_nat_eq_self)
      let ?o = "obj\<lparr>header := (header obj)\<lparr>rev_count := n, revs_data := q_rev d @ q_oldrevs d @ object_data obj @ t,
          seq := word_of_int (meta_seq ?T)\<rparr>\<rparr>"
      have ld: "length (object_data obj) = data_length obj" using assms(2) by (auto simp: object_wf_def object_data_def min_def)
      have o: "object_wf ?o" "object_data ?o = object_data obj" "take (data_offset ?o) (revs_data (header ?o)) = q_rev d @ q_oldrevs d"
        using assms(2) c cnt fits ld by (simp_all add: object_wf_def header_wf_def data_offset_def object_data_def)
      obtain w' where f: "finish_put S ?o ?w7 = Some ((LA_STORAGE_OBJECT_PUT_SUCCESS, ?o), w')" "saved w' = None"
        "tables w' = insert_doc (key obj) (stored_doc (meta_seq ?T) (q_rev d @ q_oldrevs d) obj) ?T"
        using finish_put_ok [of ?w7 ?o] w7 o by (auto simp: stored_doc_def)
      have "sqlite_la_storage_put A S u rv obj w = finish_put S ?o ?w7"
        using start st col t True by (simp add: sqlite_la_storage_put_def Let_def n_def)
      then show ?thesis using f Some True by (simp add: sq_spec_put_def)
    qed
  qed
qed

text \<open>Reading a row back.\<close>

lemma get_row:
  "\<exists>w'. tables w' = tables w \<and> saved w' = saved w \<and> sqlite_la_storage_get A S u k None True w =
     (case docs_tab (tables w) k of
        None \<Rightarrow> Some ((LA_STORAGE_OBJECT_GET_NOT_FOUND, None), w')
      | Some d \<Rightarrow> map_option (\<lambda>obj. ((LA_STORAGE_OBJECT_GET_OK, Some obj), w')) (object_of_row A (full_row k d)))"
proof -
  have ev: "sql_eval getbyid [1 \<mapsto> SQL_TEXT k] (tables w) =
      (case docs_tab (tables w) k of None \<Rightarrow> SQLITE_DONE | Some d \<Rightarrow> SQLITE_ROW (full_row k d), tables w)"
    by (simp add: sql_eval_def select_doc_def split: option.split)
  obtain h w1 w2 w3 where h: "sqlite3_prepare_op S getbyid w = (Some h, w1)" "bind_all S h [(1, SQL_TEXT k)] w1 = (True, w2)"
    "sqlite3_step_op S h w2 = (case docs_tab (tables w) k of None \<Rightarrow> SQLITE_DONE | Some d \<Rightarrow> SQLITE_ROW (full_row k d), w3)"
    "tables w3 = tables w" "saved w3 = saved w"
    using run [of getbyid "[(1, SQL_TEXT k)]" w] ev by (auto simp: single_def in_range_def sql_params_def)
  let ?w = "sqlite3_finalize_op S h w3"
  have "sqlite_la_storage_get A S u k None True w =
     (case docs_tab (tables w) k of
        None \<Rightarrow> Some ((LA_STORAGE_OBJECT_GET_NOT_FOUND, None), ?w)
      | Some d \<Rightarrow> map_option (\<lambda>obj. ((LA_STORAGE_OBJECT_GET_OK, Some obj), ?w)) (object_of_row A (full_row k d)))"
    using h(1-3) by (auto simp: sqlite_la_storage_get_def map_option_case split: option.split)
  then show ?thesis using finalize h(4,5) by (intro exI [of _ ?w]) simp
qed

lemma put_get_new:
  assumes "saved w = None" "object_wf obj" "docs_tab (tables w) (key obj) = None" "rev_count (header obj) = 0"
    and "grant A sizeof_object" "grant A (add_sz (length (key obj)) 1)" "grant A (34 + data_length obj)" "data_length obj < 2 ^ 31"
  shows "\<exists>obj1 w1 obj2 w2. sqlite_la_storage_put A S u rv obj w = Some ((LA_STORAGE_OBJECT_PUT_SUCCESS, obj1), w1) \<and>
    sqlite_la_storage_get A S u (key obj) None True w1 = Some ((LA_STORAGE_OBJECT_GET_OK, Some obj2), w2) \<and> key obj2 = key obj \<and>
    doc_of_object obj2 = (doc_of_object obj)\<lparr>d_seq := word_of_int (meta_seq (tables w))\<rparr>"
proof -
  have "sq_fits A (tables w) obj" using assms(3,4) by (simp add: sq_fits_def)
  from put_refines [OF assms(1,2) this, of u rv] assms(3)
  obtain obj1 w1 where p: "sqlite_la_storage_put A S u rv obj w = Some ((LA_STORAGE_OBJECT_PUT_SUCCESS, obj1), w1)"
    "tables w1 = insert_doc (key obj) (stored_doc (meta_seq (tables w)) [] obj) (tables w)"
    by (auto simp: sq_spec_put_def)
  let ?d = "stored_doc (meta_seq (tables w)) [] obj"
  have ld: "length (object_data obj) = data_length obj" using assms(2) by (auto simp: object_wf_def object_data_def min_def)
  have d: "docs_tab (tables w1) (key obj) = Some ?d" using p(2) by (simp add: insert_doc_def)
  have f: "q_oldrevs ?d = []" "length (q_rev ?d) = 16" "0 \<notin> set (key obj)" "length (q_doc ?d) = data_length obj"
    using assms(2) ld by (simp_all add: stored_doc_def object_wf_def header_wf_def)
  obtain obj2 where o2: "object_of_row A (full_row (key obj) ?d) = Some obj2" "key obj2 = key obj"
    "doc_of_object obj2 = \<lparr>d_seq = word_of_int (q_seq ?d), d_doc_seq = word_of_int (q_doc_seq ?d), d_deleted = odd (q_deleted ?d),
      d_rev = q_rev ?d, d_history = [], d_data = q_doc ?d\<rparr>"
    using object_of_row_plain [OF f(1-3) assms(5,6)] assms(7,8) f(4) by auto
  obtain w2 where g: "sqlite_la_storage_get A S u (key obj) None True w1 = Some ((LA_STORAGE_OBJECT_GET_OK, Some obj2), w2)"
    using get_row [of w1 A u "key obj"] d o2(1) by auto
  have "doc_of_object obj2 = (doc_of_object obj)\<lparr>d_seq := word_of_int (meta_seq (tables w))\<rparr>"
    unfolding o2(3) using assms(4) by (simp add: stored_doc_def doc_of_object_def doc_of_header_def)
  with p(1) g o2(2) show ?thesis by blast
qed

lemma updated_unreadable:
  assumes "saved w = None" "object_wf obj" "docs_tab (tables w) (key obj) = Some d" "rv = Some (q_rev d)"
    and "sq_fits A (tables w) obj"
  shows "\<exists>obj1 w1. sqlite_la_storage_put A S u rv obj w = Some ((LA_STORAGE_OBJECT_PUT_SUCCESS, obj1), w1) \<and>
    sqlite_la_storage_get A S u (key obj) None True w1 = None"
proof -
  from put_refines [OF assms(1,2,5), of u rv] assms(3,4)
  obtain obj1 w1 where p: "sqlite_la_storage_put A S u rv obj w = Some ((LA_STORAGE_OBJECT_PUT_SUCCESS, obj1), w1)"
    "tables w1 = insert_doc (key obj) (stored_doc (meta_seq (tables w)) (q_rev d @ q_oldrevs d) obj) (tables w)"
    by (auto simp: sq_spec_put_def)
  have "q_rev d \<noteq> []" using assms(3,5) by (auto simp: sq_fits_def)
  then have "object_of_row A (full_row (key obj) (stored_doc (meta_seq (tables w)) (q_rev d @ q_oldrevs d) obj)) = None"
    by (intro object_of_row_overrun) (simp add: stored_doc_def)
  moreover have "docs_tab (tables w1) (key obj) = Some (stored_doc (meta_seq (tables w)) (q_rev d @ q_oldrevs d) obj)"
    using p(2) by (simp add: insert_doc_def)
  ultimately have "sqlite_la_storage_get A S u (key obj) None True w1 = None"
    using get_row [of w1 A u "key obj"] by auto
  with p(1) show ?thesis by blast
qed

end

section \<open>An in-memory library\<close>

record sq_world =
  sw_tables :: sq_tables
  sw_saved :: "sq_tables option"
  sw_stmts :: "(sql_query \<times> sq_bindings) list"

definition mem_sqlite :: "sq_world sqlite" where
  "mem_sqlite =
     \<lparr>stat_op = (\<lambda>_ w. (PATH_DIR, w)),
      mkdir_op = (\<lambda>_ w. (True, w)),
      sqlite3_open_op = (\<lambda>_ w. (True, w)),
      sqlite3_close_op = (\<lambda>w. w),
      sqlite3_exec_op = (\<lambda>c w. case c of
          initsql \<Rightarrow> (True, w)
        | begintxn \<Rightarrow> (sw_saved w = None, w\<lparr>sw_saved := Some (case sw_saved w of None \<Rightarrow> sw_tables w | Some T \<Rightarrow> T)\<rparr>)
        | endtxn \<Rightarrow> (sw_saved w \<noteq> None, w\<lparr>sw_saved := None\<rparr>)
        | rollback \<Rightarrow> (sw_saved w \<noteq> None, w\<lparr>sw_tables := (case sw_saved w of None \<Rightarrow> sw_tables w | Some T \<Rightarrow> T), sw_saved := None\<rparr>)),
      sqlite3_prepare_op = (\<lambda>q w. (Some (length (sw_stmts w)), w\<lparr>sw_stmts := sw_stmts w @ [(q, Map.empty)]\<rparr>)),
      sqlite3_bind_op = (\<lambda>h i v w.
        if h < length (sw_stmts w) \<and> 1 \<le> i \<and> i \<le> sql_params (fst (sw_stmts w ! h))
        then (True, w\<lparr>sw_stmts := (sw_stmts w)[h := (fst (sw_stmts w ! h), (snd (sw_stmts w ! h))(i \<mapsto> v))]\<rparr>) else (False, w)),
      sqlite3_step_op = (\<lambda>h w.
        if h < length (sw_stmts w)
        then (case sql_eval (fst (sw_stmts w ! h)) (snd (sw_stmts w ! h)) (sw_tables w) of (r, T) \<Rightarrow> (r, w\<lparr>sw_tables := T\<rparr>))
        else (SQLITE_FAILED, w)),
      sqlite3_finalize_op = (\<lambda>_ w. w)\<rparr>"

interpretation mem_sq: sqlite_lib mem_sqlite sw_tables sw_saved
  "\<lambda>w h. if h < length (sw_stmts w) then Some (sw_stmts w ! h) else None"
proof (unfold_locales, goal_cases)
  case (6 w h q b)
  then show ?case by (auto simp: mem_sqlite_def exec_sql_def split: prod.split if_splits)
qed (auto simp: mem_sqlite_def exec_sql_def split: if_splits)

definition sq_empty :: sq_world where
  "sq_empty = \<lparr>sw_tables = \<lparr>docs_tab = Map.empty, meta_seq = 1\<rparr>, sw_saved = None, sw_stmts = []\<rparr>"

definition sq_object :: la_storage_object where
  "sq_object = \<lparr>key = [0x6b], header = \<lparr>seq = 0, doc_seq = 0, deleted = False, rev_count = 0, hrev = replicate 16 5,
     revs_data = [7, 8]\<rparr>, data_length = 2\<rparr>"

definition sq_one :: sq_world where
  "sq_one = sq_empty\<lparr>sw_tables := \<lparr>docs_tab = [[0x6b] \<mapsto> \<lparr>q_deleted = 0, q_rev = replicate 16 1, q_oldrevs = [], q_seq = 1,
     q_doc_seq = 0, q_doc = [9]\<rparr>], meta_seq = 2\<rparr>\<rparr>"

lemma sq_example_facts:
  "object_wf sq_object" "key sq_object = [0x6b]" "rev_count (header sq_object) = 0" "data_length sq_object = 2"
  "sw_saved sq_empty = None" "docs_tab (sw_tables sq_empty) k = None" "meta_seq (sw_tables sq_empty) = 1"
  "sw_saved sq_one = None" "sq_fits exact_allocator (sw_tables sq_one) sq_object"
  by (simp_all add: sq_object_def object_wf_def header_wf_def data_offset_def sq_empty_def sq_one_def sq_fits_def)

section \<open>Properties\<close>

text \<open>
  C10. Storing through the SQLite driver is the abstract operation on the tables: a new key gets a row
  without history, an update with the current revision puts that revision in front of the stored
  history, any other revision is a conflict that changes nothing; the row carries the next update
  sequence and the document sequence of the object as it came (which nothing advances). No
  transaction stays open. (The library does not fail. The conditions are those of \<open>sq_fits\<close>: the object
  of a new key has no history; the stored history is a whole number of revisions below the maximum of 1024, the
  object's own one is not longer, and there is memory. At the maximum the code writes over the data.)
\<close>

theorem sqlite_put_refines_spec:
  assumes "sqlite_lib S tables saved stmt" "saved w = None" "object_wf obj" "sq_fits A (tables w) obj"
  shows "\<exists>r obj' w'. sqlite_la_storage_put A S u rv obj w = Some ((r, obj'), w') \<and> saved w' = None \<and>
    (r, tables w') = sq_spec_put rv obj (tables w)"
  using sqlite_lib.put_refines [OF assms] .

theorem sqlite_put_refines_spec_witness:
  "\<exists>obj' w'. sqlite_la_storage_put exact_allocator mem_sqlite () (Some (replicate 16 1)) sq_object sq_one =
     Some ((LA_STORAGE_OBJECT_PUT_SUCCESS, obj'), w') \<and>
     map_option q_oldrevs (docs_tab (sw_tables w') [0x6b]) = Some (replicate 16 1)"
  using sqlite_put_refines_spec [OF mem_sq.sqlite_lib_axioms sq_example_facts(8,1,9), of "()" "Some (replicate 16 1)"]
  by (auto simp: sq_spec_put_def sq_example_facts(2) sq_one_def sq_empty_def insert_doc_def stored_doc_def)

text \<open>
  C31. A document stored under a new key is read back: the get finds it with the revision, the flag and
  the data of the object, an empty history, and the update sequence the table handed out.
\<close>

theorem sqlite_put_get_roundtrip:
  assumes "sqlite_lib S tables saved stmt" "saved w = None" "object_wf obj" "docs_tab (tables w) (key obj) = None"
    and "rev_count (header obj) = 0" "grant A sizeof_object" "grant A (add_sz (length (key obj)) 1)"
    and "grant A (34 + data_length obj)" "data_length obj < 2 ^ 31"
  shows "\<exists>obj1 w1 obj2 w2. sqlite_la_storage_put A S u rv obj w = Some ((LA_STORAGE_OBJECT_PUT_SUCCESS, obj1), w1) \<and>
    sqlite_la_storage_get A S u (key obj) None True w1 = Some ((LA_STORAGE_OBJECT_GET_OK, Some obj2), w2) \<and> key obj2 = key obj \<and>
    doc_of_object obj2 = (doc_of_object obj)\<lparr>d_seq := word_of_int (meta_seq (tables w))\<rparr>"
  using sqlite_lib.put_get_new [OF assms] .

theorem sqlite_put_get_roundtrip_witness:
  "\<exists>obj1 w1 obj2 w2. sqlite_la_storage_put exact_allocator mem_sqlite () None sq_object sq_empty =
      Some ((LA_STORAGE_OBJECT_PUT_SUCCESS, obj1), w1) \<and>
    sqlite_la_storage_get exact_allocator mem_sqlite () [0x6b] None True w1 = Some ((LA_STORAGE_OBJECT_GET_OK, Some obj2), w2) \<and>
    d_data (doc_of_object obj2) = [7, 8] \<and> d_seq (doc_of_object obj2) = 1"
proof -
  have g: "grant exact_allocator sizeof_object" "grant exact_allocator (add_sz (length (key sq_object)) 1)"
    "grant exact_allocator (34 + data_length sq_object)" "data_length sq_object < 2 ^ 31"
    by (simp_all add: sizeof_object_def sq_example_facts add_sz_def)
  have d: "d_data (doc_of_object sq_object) = [7, 8]"
    by (simp add: doc_of_object_def doc_of_header_def object_data_def data_offset_def sq_object_def)
  from sqlite_put_get_roundtrip [OF mem_sq.sqlite_lib_axioms sq_example_facts(5,1,6,3) g, of "()" None]
  obtain obj1 w1 obj2 w2 where
    "sqlite_la_storage_put exact_allocator mem_sqlite () None sq_object sq_empty = Some ((LA_STORAGE_OBJECT_PUT_SUCCESS, obj1), w1)"
    "sqlite_la_storage_get exact_allocator mem_sqlite () [0x6b] None True w1 = Some ((LA_STORAGE_OBJECT_GET_OK, Some obj2), w2)"
    "doc_of_object obj2 = (doc_of_object sq_object)\<lparr>d_seq := 1\<rparr>"
    by (auto simp: sq_example_facts)
  then show ?thesis using d by auto
qed

text \<open>
  A document that has been updated cannot be read with the SQLite driver: the update succeeds and
  stores a history of one revision, and the next get copies sixteen times the bytes of that
  history, past the end of the column.
\<close>

theorem sqlite_updated_document_unreadable:
  assumes "sqlite_lib S tables saved stmt" "saved w = None" "object_wf obj" "docs_tab (tables w) (key obj) = Some d"
    and "rv = Some (q_rev d)" "sq_fits A (tables w) obj"
  shows "\<exists>obj1 w1. sqlite_la_storage_put A S u rv obj w = Some ((LA_STORAGE_OBJECT_PUT_SUCCESS, obj1), w1) \<and>
    sqlite_la_storage_get A S u (key obj) None True w1 = None"
  using sqlite_lib.updated_unreadable [OF assms] .

theorem sqlite_updated_document_unreadable_witness:
  "\<exists>obj1 w1. sqlite_la_storage_put exact_allocator mem_sqlite () (Some (replicate 16 1)) sq_object sq_one =
     Some ((LA_STORAGE_OBJECT_PUT_SUCCESS, obj1), w1) \<and>
   sqlite_la_storage_get exact_allocator mem_sqlite () [0x6b] None True w1 = None"
proof -
  have "docs_tab (sw_tables sq_one) (key sq_object) = Some \<lparr>q_deleted = 0, q_rev = replicate 16 1, q_oldrevs = [], q_seq = 1,
     q_doc_seq = 0, q_doc = [9]\<rparr>" by (simp add: sq_one_def sq_example_facts)
  from sqlite_updated_document_unreadable [OF mem_sq.sqlite_lib_axioms sq_example_facts(8,1) this _ sq_example_facts(9),
      of "Some (replicate 16 1)" "()"]
  show ?thesis by (simp add: sq_example_facts(2))
qed

end
