(* ===== verification/LA_Pull.thy ===== *)
theory LA_Pull
  imports LA_API
begin

text \<open>
  Replication from a CouchDB server (\<open>pull/pull.c\<close>): the puller reads the changes feed, fetches each
  changed document with its history, and takes it over, keeps its own version, or asks the
  resolver. The transfer library curl is an argument; a transfer whose write callback pauses it
  is never resumed, and such a run is \<open>None\<close> here like one with undefined behaviour.
\<close>

section \<open>The transfer library\<close>

datatype curl_option = CURLOPT_URL "byte list" | CURLOPT_USERNAME "byte list" | CURLOPT_USERPWD "byte list"

text \<open>A transfer hands its buffers to the write callback; then it has succeeded or not.\<close>

record 'n curl =
  curl_easy_init_op :: "'n \<Rightarrow> bool \<times> 'n"
  curl_easy_setopt_op :: "curl_option \<Rightarrow> 'n \<Rightarrow> bool \<times> 'n"
  curl_easy_perform_op :: "'n \<Rightarrow> byte list list \<times> bool \<times> 'n"
  curl_easy_getinfo_op :: "'n \<Rightarrow> int option \<times> 'n"
  curl_easy_cleanup_op :: "'n \<Rightarrow> 'n"

section \<open>State\<close>

datatype la_pull_resolve_result =
  LA_PULL_RESOLVE_TAKE_MINE | LA_PULL_RESOLVE_TAKE_THEIRS | LA_PULL_RESOLVE_TAKE_MERGED

text \<open>The resolver's answer, and the document stored at \<open>merged\<close>.\<close>

type_synonym resolver =
  "byte list \<Rightarrow> la_codec_value \<Rightarrow> la_codec_value \<Rightarrow> la_pull_resolve_result \<times> la_codec_value option"

definition resolve_mine :: resolver where
  "resolve_mine k mine theirs = (LA_PULL_RESOLVE_TAKE_MINE, None)"

definition resolve_theirs :: resolver where
  "resolve_theirs k mine theirs = (LA_PULL_RESOLVE_TAKE_THEIRS, None)"

record la_pull_params =
  pp_host :: "byte list"
  pp_port :: nat
  pp_dbname :: "byte list"
  pp_user :: "byte list option"
  pp_password :: "byte list option"
  pp_filter :: "byte list option"
  pp_secure :: bool
  pp_continuous :: bool
  pp_resolver :: "resolver option"

record ('e, 's, 'i, 'w) la_pull =
  pl_db :: "('e, 's, 'i, 'w) la_db"
  pl_user :: "byte list option"
  pl_password :: "byte list option"
  pl_continuous :: bool
  pl_buffer :: "la_buffer option"
  pl_urlbase :: "byte list"
  pl_url :: "byte list"
  pl_sep :: byte
  pl_last_seq :: "byte list option"
  pl_resolver :: resolver

definition sizeof_pull :: nat where "sizeof_pull = 112"

text \<open>Besides the API: \<open>json_dumps\<close>, and what the stack holds where a revision is expected.\<close>

record pull_env =
  pe_api :: api
  pe_dumps :: "la_codec_value \<Rightarrow> byte list option"
  pe_stack :: la_rev

abbreviation pe_alloc :: "pull_env \<Rightarrow> allocator" where
  "pe_alloc E \<equiv> ap_alloc (pe_api E)"

abbreviation pe_json :: "pull_env \<Rightarrow> jansson" where
  "pe_json E \<equiv> ap_json (pe_api E)"

section \<open>Addresses\<close>

text \<open>\<open>isalnum\<close> in the C locale; a negative \<open>char\<close> is none.\<close>

definition is_alnum :: "byte \<Rightarrow> bool" where
  "is_alnum c = (0x30 \<le> c \<and> c \<le> 0x39 \<or> 0x41 \<le> c \<and> c \<le> 0x5a \<or> 0x61 \<le> c \<and> c \<le> 0x7a)"

definition is_plain :: "byte \<Rightarrow> bool" where
  "is_plain c = (is_alnum c \<or> c = 0x2e \<or> c = 0x2d \<or> c = 0x5f \<or> c = 0x7e)"

text \<open>\<open>%%%02x\<close> of a \<open>char\<close> that is widened with its sign.\<close>

definition percent_hex :: "byte \<Rightarrow> byte list" where
  "percent_hex c = 0x25 # (if c < 0x80 then hex2 c else replicate 6 0x66 @ hex2 c)"

definition url_encode_step :: "allocator \<Rightarrow> la_buffer \<Rightarrow> byte \<Rightarrow> la_buffer option" where
  "url_encode_step A b c =
     map_option snd
       (if c = 0x20 then la_buffer_append A b [0x2b] 1
        else if is_plain c then la_buffer_append A b [c] 1
        else la_buffer_appendf A b (percent_hex c))"

fun url_encode_loop :: "allocator \<Rightarrow> byte list \<Rightarrow> la_buffer \<Rightarrow> la_buffer option" where
  "url_encode_loop A [] b = Some b"
| "url_encode_loop A (c # s) b = do { b1 \<leftarrow> url_encode_step A b c; url_encode_loop A s b1 }"

definition url_encode :: "allocator \<Rightarrow> byte list \<Rightarrow> byte list option" where
  "url_encode A s = do {
     b \<leftarrow> la_buffer_new A (length s);
     b1 \<leftarrow> url_encode_loop A s b;
     la_buffer_string A b1 }"

text \<open>The content of a buffer as a C string.\<close>

definition buffer_cstr :: "allocator \<Rightarrow> la_buffer \<Rightarrow> byte list option" where
  "buffer_cstr A b = do { p \<leftarrow> la_buffer_string A b; cstr p }"

definition CHANGES_PATH :: "byte list" where
  "CHANGES_PATH = [0x2f, 0x5f, 0x63, 0x68, 0x61, 0x6e, 0x67, 0x65, 0x73]"

definition FILTER_EQ :: "byte list" where
  "FILTER_EQ = [0x66, 0x69, 0x6c, 0x74, 0x65, 0x72, 0x3d]"

definition SINCE_EQ :: "byte list" where
  "SINCE_EQ = [0x73, 0x69, 0x6e, 0x63, 0x65, 0x3d]"

definition REVS_TRUE :: "byte list" where
  "REVS_TRUE = [0x3f, 0x72, 0x65, 0x76, 0x73, 0x3d, 0x74, 0x72, 0x75, 0x65, 0x26, 0x72, 0x65, 0x76, 0x3d]"

definition url_prefix :: "la_pull_params \<Rightarrow> byte list" where
  "url_prefix p = [0x68, 0x74, 0x74, 0x70] @ (if pp_secure p then [0x73] else []) @ [0x3a, 0x2f, 0x2f] @ pp_host p @
     [0x3a] @ dec_digits (pp_port p) @ [0x2f] @ pp_dbname p"

section \<open>The puller\<close>

definition la_pull_create ::
  "allocator \<Rightarrow> ('e, 's, 'i, 'w) la_db \<Rightarrow> la_pull_params \<Rightarrow> ('e, 's, 'i, 'w) la_pull option option" where
  "la_pull_create A db p =
     (if \<not> grant A sizeof_pull then Some None
      else case la_buffer_new A 128 of
        None \<Rightarrow> Some None
      | Some b \<Rightarrow> do {
          (_, b1) \<leftarrow> la_buffer_appendf A b (url_prefix p);
          base \<leftarrow> buffer_cstr A b1;
          (_, b2) \<leftarrow> la_buffer_append A b1 CHANGES_PATH (length CHANGES_PATH);
          b3 \<leftarrow> (case pp_filter p of
                   None \<Rightarrow> Some b2
                 | Some f \<Rightarrow> map_option snd (la_buffer_appendf A b2 (0x3f # FILTER_EQ @ f)));
          url \<leftarrow> buffer_cstr A b3;
          if (\<exists>u. pp_user p = Some u \<and> \<not> grant A (add_sz (length u) 1)) \<or>
             (\<exists>u. pp_password p = Some u \<and> \<not> grant A (add_sz (length u) 1))
          then Some None
          else Some (Some \<lparr>pl_db = db, pl_user = pp_user p, pl_password = pp_password p, pl_continuous = pp_continuous p,
                           pl_buffer = None, pl_urlbase = base, pl_url = url,
                           pl_sep = (if pp_filter p = None then 0x3f else 0x26), pl_last_seq = None,
                           pl_resolver = (case pp_resolver p of Some r \<Rightarrow> r | None \<Rightarrow> resolve_mine)\<rparr>) })"

text \<open>Setting options in order; the first refusal ends it.\<close>

fun curl_setopts :: "'n curl \<Rightarrow> curl_option list \<Rightarrow> 'n \<Rightarrow> bool \<times> 'n" where
  "curl_setopts C [] n = (True, n)"
| "curl_setopts C (x # xs) n =
     (case curl_easy_setopt_op C x n of (ok, n1) \<Rightarrow> if ok then curl_setopts C xs n1 else (False, n1))"

definition login_options :: "('e, 's, 'i, 'w) la_pull \<Rightarrow> curl_option list" where
  "login_options pl =
     (case pl_user pl of Some u \<Rightarrow> [CURLOPT_USERNAME u] | None \<Rightarrow> []) @
     (case pl_password pl of Some u \<Rightarrow> [CURLOPT_USERPWD u] | None \<Rightarrow> [])"

text \<open>The last sequence is put behind the address of the last run.\<close>

definition init_changes_feed ::
  "allocator \<Rightarrow> 'n curl \<Rightarrow> ('e, 's, 'i, 'w) la_pull \<Rightarrow> 'n \<Rightarrow> (int \<times> ('e, 's, 'i, 'w) la_pull \<times> 'n) option" where
  "init_changes_feed A C pl n =
     (case curl_easy_init_op C n of
        (False, n1) \<Rightarrow> Some (-1, pl, n1)
      | (True, n1) \<Rightarrow> do {
          pl1 \<leftarrow> (case pl_last_seq pl of
                    None \<Rightarrow> Some pl
                  | Some q \<Rightarrow> do {
                      b \<leftarrow> la_buffer_new A (length (pl_url pl) + length q + 7);
                      (_, b1) \<leftarrow> la_buffer_append A b (pl_url pl) (length (pl_url pl));
                      (_, b2) \<leftarrow> la_buffer_appendf A b1 (pl_sep pl # SINCE_EQ @ q);
                      u \<leftarrow> buffer_cstr A b2;
                      Some (pl\<lparr>pl_url := u\<rparr>) });
          (case curl_setopts C (CURLOPT_URL (pl_url pl1) # login_options pl1) n1 of
             (False, n2) \<Rightarrow> Some (-1, pl1, curl_easy_cleanup_op C n2)
           | (True, n2) \<Rightarrow>
               (case la_buffer_new A 1024 of
                  None \<Rightarrow> Some (-1, pl1\<lparr>pl_buffer := None\<rparr>, curl_easy_cleanup_op C n2)
                | Some b \<Rightarrow> Some (0, pl1\<lparr>pl_buffer := Some b\<rparr>, n2))) })"

definition pull_write_cb ::
  "allocator \<Rightarrow> ('e, 's, 'i, 'w) la_pull \<Rightarrow> byte list \<Rightarrow> (bool \<times> ('e, 's, 'i, 'w) la_pull) option" where
  "pull_write_cb A pl bs = do {
     b \<leftarrow> pl_buffer pl;
     (rc, b1) \<leftarrow> la_buffer_append A b bs (length bs);
     Some (rc = Buf_ok, pl\<lparr>pl_buffer := Some b1\<rparr>) }"

definition pull_perform ::
  "allocator \<Rightarrow> 'n curl \<Rightarrow> ('e, 's, 'i, 'w) la_pull \<Rightarrow> 'n \<Rightarrow> (bool \<times> ('e, 's, 'i, 'w) la_pull \<times> 'n) option" where
  "pull_perform A C pl n =
     (case curl_easy_perform_op C n of
        (chunks, ok, n1) \<Rightarrow> do {
          (taken, pl1) \<leftarrow> feed_chunks (pull_write_cb A) pl chunks;
          if taken then Some (ok, pl1, n1) else None })"

text \<open>Parsing what the transfers left in the buffer, and emptying it.\<close>

definition take_body ::
  "pull_env \<Rightarrow> ('e, 's, 'i, 'w) la_pull \<Rightarrow> (la_codec_value option \<times> ('e, 's, 'i, 'w) la_pull) option" where
  "take_body E pl = do {
     b \<leftarrow> pl_buffer pl;
     txt \<leftarrow> mem_read (la_buffer_data b) 0 (la_buffer_size b);
     Some (json_loadb (pe_json E) txt, pl\<lparr>pl_buffer := Some (la_buffer_clear (pe_alloc E) b)\<rparr>) }"

section \<open>One change\<close>

fun json_elements :: "la_codec_value \<Rightarrow> la_codec_value list option" where
  "json_elements (LA_CODEC_ARRAY vs) = Some vs"
| "json_elements _ = None"

fun json_text :: "la_codec_value \<Rightarrow> byte list option" where
  "json_text (LA_CODEC_STRING s) = Some s"
| "json_text _ = None"

fun json_number :: "la_codec_value \<Rightarrow> int option" where
  "json_number (LA_CODEC_INTEGER i) = Some i"
| "json_number _ = None"

definition object_field :: "jansson \<Rightarrow> la_codec_value \<Rightarrow> byte list \<Rightarrow> la_codec_value option" where
  "object_field J v k = (if la_codec_is_object v then json_object_get J v k else None)"

definition ID_NAME :: "byte list" where "ID_NAME = [0x69, 0x64]"
definition SEQ_NAME :: "byte list" where "SEQ_NAME = [0x73, 0x65, 0x71]"
definition REV_NAME :: "byte list" where "REV_NAME = [0x72, 0x65, 0x76]"
definition IDS_NAME :: "byte list" where "IDS_NAME = [0x69, 0x64, 0x73]"
definition START_NAME :: "byte list" where "START_NAME = [0x73, 0x74, 0x61, 0x72, 0x74]"
definition CHANGES_NAME :: "byte list" where "CHANGES_NAME = [0x63, 0x68, 0x61, 0x6e, 0x67, 0x65, 0x73]"
definition RESULTS_NAME :: "byte list" where "RESULTS_NAME = [0x72, 0x65, 0x73, 0x75, 0x6c, 0x74, 0x73]"
definition LAST_SEQ_NAME :: "byte list" where "LAST_SEQ_NAME = [0x6c, 0x61, 0x73, 0x74, 0x5f, 0x73, 0x65, 0x71]"
definition REVISIONS_NAME :: "byte list" where
  "REVISIONS_NAME = [0x5f, 0x72, 0x65, 0x76, 0x69, 0x73, 0x69, 0x6f, 0x6e, 0x73]"

text \<open>The key and the revision text of a change; \<open>None\<close> skips the change.\<close>

definition change_fields :: "jansson \<Rightarrow> la_codec_value \<Rightarrow> (byte list \<times> byte list) option" where
  "change_fields J change = do {
     k \<leftarrow> Option.bind (object_field J change ID_NAME) json_text;
     sq \<leftarrow> object_field J change SEQ_NAME;
     (if json_number sq = None \<and> json_text sq = None then None else Some ());
     cs \<leftarrow> Option.bind (object_field J change CHANGES_NAME) json_elements;
     (case cs of
        [] \<Rightarrow> None
      | c # _ \<Rightarrow> map_option (\<lambda>r. (k, r)) (Option.bind (object_field J c REV_NAME) json_text)) }"

text \<open>
  Fetching the document of a change; the inner \<open>None\<close> skips the change. A failed transfer leaves its
  bytes in the buffer.
\<close>

definition fetch_document ::
  "pull_env \<Rightarrow> 'n curl \<Rightarrow> ('e, 's, 'i, 'w) la_pull \<Rightarrow> byte list \<Rightarrow> byte list \<Rightarrow> 'n \<Rightarrow>
   (la_codec_value option \<times> ('e, 's, 'i, 'w) la_pull \<times> 'n) option" where
  "fetch_document E C pl k rtxt n = do {
     b \<leftarrow> la_buffer_new (pe_alloc E) 256;
     p \<leftarrow> url_encode (pe_alloc E) k;
     path \<leftarrow> cstr p;
     (_, b1) \<leftarrow> la_buffer_appendf (pe_alloc E) b (pl_urlbase pl @ [0x2f] @ path @ REVS_TRUE @ rtxt);
     url \<leftarrow> buffer_cstr (pe_alloc E) b1;
     (case curl_easy_init_op C n of
        (False, n1) \<Rightarrow> Some (None, pl, n1)
      | (True, n1) \<Rightarrow>
          (case curl_setopts C (CURLOPT_URL url # login_options pl) n1 of
             (False, n2) \<Rightarrow> Some (None, pl, curl_easy_cleanup_op C n2)
           | (True, n2) \<Rightarrow> do {
               (ok, pl1, n3) \<leftarrow> pull_perform (pe_alloc E) C pl n2;
               let n4 = curl_easy_cleanup_op C n3;
               if \<not> ok then Some (None, pl1, n4)
               else do {
                 (v, pl2) \<leftarrow> take_body E pl1;
                 Some ((case v of Some d \<Rightarrow> if la_codec_is_object d then Some d else None | None \<Rightarrow> None), pl2, n4) } })) }"

text \<open>
  The history of a fetched document, newest revision first, in a block of 16 bytes for each; an
  identifier that is no string is a NULL argument, and one with too few digits leaves the rest of
  its revision as the allocator gave it. The inner \<open>None\<close> skips the change.
\<close>

fun scan_revs :: "la_codec_value list \<Rightarrow> byte list \<Rightarrow> byte list option" where
  "scan_revs [] blk = Some []"
| "scan_revs (v # vs) blk = do {
     s \<leftarrow> json_text v;
     (_, r) \<leftarrow> la_storage_scan_rev s (take LA_OBJECT_REVISION_LEN blk);
     rest \<leftarrow> scan_revs vs (drop LA_OBJECT_REVISION_LEN blk);
     Some (r @ rest) }"

definition remote_history ::
  "pull_env \<Rightarrow> la_codec_value \<Rightarrow> (la_codec_value \<times> byte list) option option" where
  "remote_history E v =
     (let J = pe_json E in
      case object_field J v REVISIONS_NAME of
        None \<Rightarrow> Some None
      | Some rs \<Rightarrow>
          if \<not> la_codec_is_object rs then Some None
          else if Option.bind (object_field J rs START_NAME) json_number = None then Some None
          else (case Option.bind (object_field J rs IDS_NAME) json_elements of
                  None \<Rightarrow> Some None
                | Some ids \<Rightarrow>
                    (case malloc (pe_alloc E) (LA_OBJECT_REVISION_LEN * length ids) of
                       None \<Rightarrow> Some None
                     | Some blk \<Rightarrow> do {
                         revs \<leftarrow> scan_revs ids blk;
                         Some (Some (json_object_del J v REVISIONS_NAME, revs)) })))"

text \<open>The local history with the current revision in front; the inner \<open>None\<close> skips the change.\<close>

definition local_history ::
  "allocator \<Rightarrow> ('e, 's, 'i, 'w) la_db \<Rightarrow> byte list \<Rightarrow> rev \<Rightarrow> ('w, (byte list \<times> int) option) act" where
  "local_history A db k rv w = do {
     ((cnt, _, revs), w1) \<leftarrow> la_db_get_allrevs db k w;
     (case revs of
        Some blk \<Rightarrow>
          if cnt > 0 then
            (case realloc A blk (nat (cnt + 1) * LA_OBJECT_REVISION_LEN) of
               None \<Rightarrow> Some (None, w1)
             | Some r \<Rightarrow> do {
                 m \<leftarrow> mem_move r LA_OBJECT_REVISION_LEN 0 (LA_OBJECT_REVISION_LEN * nat cnt);
                 m1 \<leftarrow> mem_write m 0 rv;
                 Some (Some (m1, cnt + 1), w1) })
          else (case malloc A LA_OBJECT_REVISION_LEN of
                  None \<Rightarrow> Some (None, w1)
                | Some r \<Rightarrow> do { m \<leftarrow> mem_write r 0 rv; Some (Some (m, 1), w1) })
      | None \<Rightarrow>
          (case malloc A LA_OBJECT_REVISION_LEN of
             None \<Rightarrow> Some (None, w1)
           | Some r \<Rightarrow> do { m \<leftarrow> mem_write r 0 rv; Some (Some (m, 1), w1) })) }"

text \<open>Storing the remote version: its revision, and its history without the newest revision.\<close>

definition take_theirs ::
  "pull_env \<Rightarrow> ('e, 's, 'i, 'w) la_db \<Rightarrow> byte list \<Rightarrow> la_rev \<Rightarrow> la_codec_value \<Rightarrow> byte list \<Rightarrow> nat \<Rightarrow> ('w, unit) act" where
  "take_theirs E db k thatrev v remote cnt w =
     map_option (\<lambda>(_, w1). ((), w1))
       (la_db_replace (pe_api E) db (Some k) (Some thatrev) (Some v) (Some (drop LA_OBJECT_REVISION_LEN remote))
          (nat ((int cnt - 1) mod 2 ^ 64)) w)"

text \<open>
  The three cases: we are behind and take the remote version; we are ahead and do nothing; we have a
  fork and ask the resolver. When the local version cannot be read then, an uninitialised pointer
  is released.
\<close>

definition reconcile ::
  "pull_env \<Rightarrow> ('e, 's, 'i, 'w) la_pull \<Rightarrow> byte list \<Rightarrow> la_rev \<Rightarrow> la_rev \<Rightarrow> la_codec_value \<Rightarrow> byte list \<Rightarrow> nat \<Rightarrow>
   byte list \<Rightarrow> int \<Rightarrow> ('w, unit) act" where
  "reconcile E pl k myrev thatrev v remote revslen mine myrevcount w = do {
     behind \<leftarrow> la_storage_revs_overlap mine myrevcount remote (int revslen);
     if behind then take_theirs E (pl_db pl) k thatrev v remote revslen w
     else do {
       ahead \<leftarrow> la_storage_revs_overlap remote (int revslen) mine myrevcount;
       if ahead then Some ((), w)
       else do {
         ((r, myvalue, _), w1) \<leftarrow> la_db_get (pe_api E) (pl_db pl) k None w;
         mv \<leftarrow> (if r = LA_DB_GET_OK then myvalue else None);
         (case pl_resolver pl k mv v of
            (LA_PULL_RESOLVE_TAKE_MINE, _) \<Rightarrow> Some ((), w1)
          | (LA_PULL_RESOLVE_TAKE_THEIRS, _) \<Rightarrow> take_theirs E (pl_db pl) k thatrev v remote revslen w1
          | (LA_PULL_RESOLVE_TAKE_MERGED, None) \<Rightarrow> Some ((), w1)
          | (LA_PULL_RESOLVE_TAKE_MERGED, Some m) \<Rightarrow>
              map_option (\<lambda>(_, w2). ((), w2)) (la_db_put (pe_api E) (pl_db pl) (Some k) (Some myrev) m w1)) } } }"

definition pull_change ::
  "pull_env \<Rightarrow> 'n curl \<Rightarrow> la_codec_value \<Rightarrow> ('e, 's, 'i, 'w) la_pull \<Rightarrow> 'w \<Rightarrow> 'n \<Rightarrow>
   (('e, 's, 'i, 'w) la_pull \<times> 'w \<times> 'n) option" where
  "pull_change E C change pl w n =
     (case change_fields (pe_json E) change of
        None \<Rightarrow> Some (pl, w, n)
      | Some (k, rtxt) \<Rightarrow> do {
          (_, thatrev) \<leftarrow> la_rev_scan rtxt (pe_stack E);
          ((ret, _, cur), w1) \<leftarrow> la_db_get (pe_api E) (pl_db pl) k None w;
          let rv = (case cur of Some r \<Rightarrow> r | None \<Rightarrow> pe_stack E);
          if ret = LA_DB_GET_ERROR then Some (pl, w1, n)
          else if ret = LA_DB_GET_NOT_FOUND \<or> rrev rv \<noteq> rrev thatrev
          then do {
            (fetched, pl1, n1) \<leftarrow> fetch_document E C pl k rtxt n;
            (case fetched of
               None \<Rightarrow> Some (pl1, w1, n1)
             | Some d \<Rightarrow> do {
                 hist \<leftarrow> remote_history E d;
                 (case hist of
                    None \<Rightarrow> Some (pl1, w1, n1)
                  | Some (v, remote) \<Rightarrow>
                      let revslen = length remote div LA_OBJECT_REVISION_LEN in
                      if ret = LA_DB_GET_OK
                      then do {
                        (mine, w2) \<leftarrow> local_history (pe_alloc E) (pl_db pl) k (rrev rv) w1;
                        (case mine of
                           None \<Rightarrow> Some (pl1, w2, n1)
                         | Some (local_revs, myrevcount) \<Rightarrow> do {
                             (_, w3) \<leftarrow> reconcile E pl1 k rv thatrev v remote revslen local_revs myrevcount w2;
                             Some (pl1, w3, n1) }) }
                      else do {
                        (_, w2) \<leftarrow> take_theirs E (pl_db pl) k thatrev v remote revslen w1;
                        Some (pl1, w2, n1) }) }) }
          else Some (pl, w1, n) })"

fun pull_changes ::
  "pull_env \<Rightarrow> 'n curl \<Rightarrow> la_codec_value list \<Rightarrow> ('e, 's, 'i, 'w) la_pull \<Rightarrow> 'w \<Rightarrow> 'n \<Rightarrow>
   (('e, 's, 'i, 'w) la_pull \<times> 'w \<times> 'n) option" where
  "pull_changes E C [] pl w n = Some (pl, w, n)"
| "pull_changes E C (c # cs) pl w n = do {
     (pl1, w1, n1) \<leftarrow> pull_change E C c pl w n;
     pull_changes E C cs pl1 w1 n1 }"

section \<open>A run\<close>

definition la_pull_run ::
  "pull_env \<Rightarrow> 'n curl \<Rightarrow> ('e, 's, 'i, 'w) la_pull \<Rightarrow> 'w \<Rightarrow> 'n \<Rightarrow>
   (int \<times> ('e, 's, 'i, 'w) la_pull \<times> 'w \<times> 'n) option" where
  "la_pull_run E C pl w n = do {
     (rc, pl1, n1) \<leftarrow> init_changes_feed (pe_alloc E) C pl n;
     if rc \<noteq> 0 then Some (-1, pl1, w, n1)
     else do {
       (ok, pl2, n2) \<leftarrow> pull_perform (pe_alloc E) C pl1 n1;
       if \<not> ok then Some (-1, pl2, w, n2)
       else (case curl_easy_getinfo_op C n2 of
         (None, n3) \<Rightarrow> Some (-1, pl2, w, n3)
       | (Some status, n3) \<Rightarrow>
           let n4 = curl_easy_cleanup_op C n3 in
           if status \<noteq> 200 then Some (-1, pl2, w, n4)
           else do {
             (body, pl3) \<leftarrow> take_body E pl2;
             (case body of
                None \<Rightarrow> Some (-1, pl3, w, n4)
              | Some changes \<Rightarrow>
                  if \<not> la_codec_is_object changes then Some (-1, pl3, w, n4)
                  else
                    let pl4 = pl3\<lparr>pl_last_seq :=
                                Option.bind (json_object_get (pe_json E) changes LAST_SEQ_NAME) (pe_dumps E)\<rparr> in
                    (case Option.bind (json_object_get (pe_json E) changes RESULTS_NAME) json_elements of
                       None \<Rightarrow> Some (-1, pl4, w, n4)
                     | Some results \<Rightarrow> do {
                         (pl5, w1, n5) \<leftarrow> pull_changes E C results pl4 w n4;
                         if pl_continuous pl5
                         then do { (_, pl6, n6) \<leftarrow> init_changes_feed (pe_alloc E) C pl5 n5; Some (0, pl6, w1, n6) }
                         else Some (0, pl5, w1, n5) })) }) } }"

definition la_pull_pause :: "('e, 's, 'i, 'w) la_pull \<Rightarrow> int" where
  "la_pull_pause pl = 0"

end
