(* ===== verification/LA_Pull_Props.thy ===== *)
theory LA_Pull_Props
  imports LA_Pull LA_Documents
begin

text \<open>
  The properties of replication: addresses of documents, taking over a remote version, and the
  decision between the two histories.
\<close>

section \<open>Addresses\<close>

definition enc_char :: "byte \<Rightarrow> byte list" where
  "enc_char c = (if c = 0x20 then [0x2b] else if is_plain c then [c] else percent_hex c)"

text \<open>The server's reading of such an address.\<close>

fun url_decode :: "byte list \<Rightarrow> byte list option" where
  "url_decode [] = Some []"
| "url_decode (c # s) =
     (if c = 0x2b then map_option ((#) 0x20) (url_decode s)
      else if c = 0x25 then
        (case s of
           h # l # r \<Rightarrow>
             (case (unhex_nybble (tolower h), unhex_nybble (tolower l)) of
                (Some x, Some y) \<Rightarrow> map_option ((#) (x * 16 OR y)) (url_decode r)
              | _ \<Rightarrow> None)
         | _ \<Rightarrow> None)
      else map_option ((#) c) (url_decode s))"

lemma enc_char_length: "length (enc_char c) \<le> 9"
  by (simp add: enc_char_def percent_hex_def hex2_def)

lemma enc_length: "length (concat (map enc_char s)) \<le> 9 * length s"
proof (induction s)
  case (Cons c s)
  then show ?case using enc_char_length [of c] by simp
qed simp

lemma hex2_no_zero: "0 \<notin> set (hex2 c)"
  using hex2_zero_free [of "[c]"] by simp

lemma enc_char_no_zero: "0 \<notin> set (enc_char c)"
  using hex2_no_zero [of c] by (auto simp: enc_char_def percent_hex_def is_plain_def is_alnum_def)

lemma buffer_string_cstr:
  assumes "buf_inv b" "grant A (bsize b + 1)" "0 \<notin> set (buf_content b)"
  shows "\<exists>q. la_buffer_string A b = Some q \<and> cstr q = Some (buf_content b)"
proof -
  obtain q where q: "la_buffer_string A b = Some q" "take (bsize b + 1) q = buf_content b @ [0]"
    using la_buffer_string_spec [OF assms(1,2)] by blast
  have "q = take (bsize b + 1) q @ drop (bsize b + 1) q" by simp
  also have "\<dots> = buf_content b @ 0 # drop (bsize b + 1) q" using q(2) by simp
  finally have "cstr q = Some (buf_content b)" using assms(3) cstr_append_zero by metis
  with q(1) show ?thesis by blast
qed

lemma url_encode_step_ok:
  assumes "ample A" "buf_inv b" "ptr_owned b" "capacity b \<le> M" "bsize b + 9 + 1025 \<le> M" "M < 2 ^ 40"
  shows "\<exists>b'. url_encode_step A b c = Some b' \<and> buf_inv b' \<and> ptr_owned b' \<and> capacity b' \<le> M \<and>
    buf_content b' = buf_content b @ enc_char c"
proof -
  have A: "\<forall>n < 2 ^ 40. grant A n" "allocator_sane A" using assms(1) by (simp_all add: ample_def)
  have one: "\<exists>b'. la_buffer_append A b [x] 1 = Some (Buf_ok, b') \<and> buf_inv b' \<and> ptr_owned b' \<and> capacity b' \<le> M \<and>
      buf_content b' = buf_content b @ [x]" for x
    using append_granted [OF A assms(2-4), of "[x]"] assms(5,6) by simp
  have pct: "\<exists>b'. la_buffer_appendf A b (percent_hex c) = Some (Buf_ok, b') \<and> buf_inv b' \<and> ptr_owned b' \<and> capacity b' \<le> M \<and>
      buf_content b' = buf_content b @ percent_hex c"
    using appendf_granted [OF A assms(2-4), of "percent_hex c"] assms(5,6) by (simp add: percent_hex_def hex2_def)
  show ?thesis
    using one [of "0x2b"] one [of c] pct by (auto simp: url_encode_step_def enc_char_def)
qed

lemma url_encode_loop_ok:
  assumes "ample A" "buf_inv b" "ptr_owned b" "capacity b \<le> M" "bsize b + 9 * length s + 1025 \<le> M" "M < 2 ^ 40"
  shows "\<exists>b'. url_encode_loop A s b = Some b' \<and> buf_inv b' \<and> buf_content b' = buf_content b @ concat (map enc_char s)"
  using assms
proof (induction s arbitrary: b)
  case Nil
  then show ?case by simp
next
  case (Cons c s)
  obtain b1 where b1: "url_encode_step A b c = Some b1" "buf_inv b1" "ptr_owned b1" "capacity b1 \<le> M"
    "buf_content b1 = buf_content b @ enc_char c"
    using url_encode_step_ok [OF Cons.prems(1-4) _ Cons.prems(6), of c] Cons.prems(5) by auto
  have "length (buf_content b1) = length (buf_content b) + length (enc_char c)" using b1(5) by simp
  then have "bsize b1 = bsize b + length (enc_char c)" using b1(2) Cons.prems(2) by simp
  then have "bsize b1 + 9 * length s + 1025 \<le> M" using Cons.prems(5) enc_char_length [of c] by simp
  from Cons.IH [OF Cons.prems(1) b1(2-4) this Cons.prems(6)] b1(1,5) show ?case by auto
qed

lemma url_encode_ok:
  assumes "ample A" "length s < 2 ^ 30"
  shows "\<exists>p. url_encode A s = Some p \<and> cstr p = Some (concat (map enc_char s))"
proof -
  have A: "\<forall>n < 2 ^ 40. grant A n" using assms(1) by (simp add: ample_def)
  obtain b where b: "la_buffer_new A (length s) = Some b" "buf_inv b" "ptr_owned b" "capacity b = buf_cap (length s)"
    "bsize b = 0" "buf_content b = []"
    using fresh_buffer [OF assms(1), of "length s"] assms(2) by auto
  let ?M = "9 * length s + 1025"
  have "capacity b \<le> ?M" using b(4) by (simp add: buf_cap_eq)
  then obtain b1 where b1: "url_encode_loop A s b = Some b1" "buf_inv b1" "buf_content b1 = concat (map enc_char s)"
    using url_encode_loop_ok [OF assms(1) b(2,3), of ?M s] b(5,6) assms(2) by auto
  have "length (concat (map enc_char s)) \<le> 9 * length s" by (rule enc_length)
  then have "bsize b1 \<le> 9 * length s" using b1(2,3) buf_content_length by metis
  then have "grant A (bsize b1 + 1)" using A assms(2) by simp
  moreover have "0 \<notin> set (buf_content b1)" using enc_char_no_zero b1(3) by auto
  ultimately obtain q where "la_buffer_string A b1 = Some q" "cstr q = Some (buf_content b1)"
    using buffer_string_cstr [OF b1(2)] by blast
  then show ?thesis using b(1) b1(1,3) by (simp add: url_encode_def)
qed

lemma url_decode_enc:
  assumes "c < 0x80"
  shows "url_decode (enc_char c @ r) = map_option ((#) c) (url_decode r)"
proof -
  consider "c = 0x20" | "c \<noteq> 0x20" "is_plain c" | "c \<noteq> 0x20" "\<not> is_plain c" by blast
  then show ?thesis
  proof cases
    case 2
    then have "c \<noteq> 0x2b" "c \<noteq> 0x25" by (auto simp: is_plain_def is_alnum_def)
    then show ?thesis using 2 by (simp add: enc_char_def)
  next
    case 3
    then show ?thesis using assms nybble_less by (simp add: enc_char_def percent_hex_def hex2_def hex2_value)
  qed (simp add: enc_char_def)
qed

section \<open>Fetching a document\<close>

text \<open>Between transfers the puller has an empty buffer.\<close>

definition pull_ready :: "('e, 's, 'i, 'w) la_pull \<Rightarrow> bool" where
  "pull_ready pl =
     (case pl_buffer pl of None \<Rightarrow> False
      | Some b \<Rightarrow> buf_inv b \<and> ptr_owned b \<and> capacity b \<le> 1024 \<and> buf_content b = [])"

lemma pull_write_chunks:
  assumes "pl_buffer pl = Some b"
  shows "feed_chunks (pull_write_cb A) pl cs =
    map_option (\<lambda>(ok, b'). (ok, pl\<lparr>pl_buffer := Some b'\<rparr>)) (feed_chunks (accumulate A) b cs)"
  using assms
proof (induction cs arbitrary: pl b)
  case Nil
  then show ?case by simp
next
  case (Cons c cs)
  show ?case
  proof (cases "la_buffer_append A b c (length c)")
    case None
    then show ?thesis using Cons.prems by (simp add: pull_write_cb_def accumulate_def)
  next
    case (Some x)
    then show ?thesis using Cons.prems Cons.IH [of "pl\<lparr>pl_buffer := Some (snd x)\<rparr>" "snd x"]
      by (cases x) (simp add: pull_write_cb_def accumulate_def)
  qed
qed

lemma clear_small:
  assumes "ample A" "buf_inv b" "ptr_owned b"
  shows "ptr_owned (la_buffer_clear A b)" "capacity (la_buffer_clear A b) = 0"
  using assms by (simp_all add: la_buffer_clear_def la_buffer_truncate_def la_buffer_compact_def realloc_def Let_def ample_def)

text \<open>A transfer that succeeds leaves its parsed body and an empty buffer.\<close>

lemma transfer_body:
  assumes "ample (pe_alloc E)" "pull_ready pl" "curl_easy_perform_op C n = (cs, True, n1)" "length (concat cs) < 2 ^ 30"
  shows "\<exists>pl1 pl2. pull_perform (pe_alloc E) C pl n = Some (True, pl1, n1) \<and>
    take_body E pl1 = Some (json_loadb (pe_json E) (concat cs), pl2) \<and>
    pull_ready pl2 \<and> (\<exists>x. pl2 = pl\<lparr>pl_buffer := x\<rparr>)"
proof -
  obtain b where b: "pl_buffer pl = Some b" "buf_inv b" "ptr_owned b" "capacity b \<le> 1024" "buf_content b = []"
    using assms(2) by (auto simp: pull_ready_def split: option.splits)
  have bz: "bsize b = 0" using b(2,5) by (metis buf_content_length list.size(3))
  obtain b' where b': "feed_chunks (accumulate (pe_alloc E)) b cs = Some (True, b')" "buf_inv b'" "ptr_owned b'"
    "buf_content b' = concat cs"
    using accumulate_all [OF assms(1) b(2,3), of cs] b(4,5) bz assms(4) by auto
  have rd: "mem_read (la_buffer_data b') 0 (la_buffer_size b') = Some (concat cs)"
    using b'(2,4) by (simp add: mem_read_def la_buffer_data_def la_buffer_size_def buf_content_def buf_inv_def)
  define pl1 where "pl1 = pl\<lparr>pl_buffer := Some b'\<rparr>"
  define pl2 where "pl2 = pl\<lparr>pl_buffer := Some (la_buffer_clear (pe_alloc E) b')\<rparr>"
  have "pull_ready pl2"
    using clear_small [OF assms(1) b'(2,3)] la_buffer_clear_spec [OF b'(2)] assms(1)
    by (simp add: pl2_def pull_ready_def ample_def)
  moreover have "pull_perform (pe_alloc E) C pl n = Some (True, pl1, n1)"
    using assms(3) b'(1) pull_write_chunks [OF b(1)] by (simp add: pull_perform_def pl1_def)
  moreover have "take_body E pl1 = Some (json_loadb (pe_json E) (concat cs), pl2)"
    using rd by (simp add: take_body_def pl1_def pl2_def)
  ultimately show ?thesis unfolding pl2_def by blast
qed

definition document_url :: "('e, 's, 'i, 'w) la_pull \<Rightarrow> byte list \<Rightarrow> byte list \<Rightarrow> byte list" where
  "document_url pl k rtxt = pl_urlbase pl @ [0x2f] @ concat (map enc_char k) @ REVS_TRUE @ rtxt"

lemma document_url_text:
  assumes "ample A" "length k < 2 ^ 24" "length (pl_urlbase pl) < 2 ^ 24" "length rtxt < 2 ^ 24"
    and "0 \<notin> set (pl_urlbase pl)" "0 \<notin> set rtxt"
  shows "\<exists>b p b1. la_buffer_new A 256 = Some b \<and> url_encode A k = Some p \<and> cstr p = Some (concat (map enc_char k)) \<and>
    la_buffer_appendf A b (document_url pl k rtxt) = Some (Buf_ok, b1) \<and> buffer_cstr A b1 = Some (document_url pl k rtxt)"
proof -
  have A: "\<forall>n < 2 ^ 40. grant A n" "allocator_sane A" using assms(1) by (simp_all add: ample_def)
  let ?u = "document_url pl k rtxt"
  obtain p where p: "url_encode A k = Some p" "cstr p = Some (concat (map enc_char k))"
    using url_encode_ok [OF assms(1), of k] assms(2) by auto
  have "length (concat (map enc_char k)) \<le> 9 * length k" by (rule enc_length)
  then have len: "length ?u < 2 ^ 28" using assms(2-4) by (simp add: document_url_def REVS_TRUE_def)
  have z: "0 \<notin> set ?u" using assms(5,6) enc_char_no_zero by (auto simp: document_url_def REVS_TRUE_def)
  obtain b where b: "la_buffer_new A 256 = Some b" "buf_inv b" "ptr_owned b" "capacity b = 1024" "bsize b = 0" "buf_content b = []"
    using fresh_buffer [OF assms(1), of 256] by (auto simp: buf_cap_eq)
  obtain b1 where b1: "la_buffer_appendf A b ?u = Some (Buf_ok, b1)" "buf_inv b1" "buf_content b1 = ?u"
    using appendf_granted [OF A b(2,3), of "2 ^ 29" ?u] b(4-6) len by auto
  have "bsize b1 = length ?u" using b1(2,3) by (metis buf_content_length)
  then have "grant A (bsize b1 + 1)" using A(1) len by simp
  then have "buffer_cstr A b1 = Some ?u"
    using buffer_string_cstr [OF b1(2), of A] z b1(3) by (auto simp: buffer_cstr_def)
  with b(1) p b1(1) show ?thesis by blast
qed

lemma fetch_document_gives:
  assumes "ample (pe_alloc E)" "pull_ready pl" "length k < 2 ^ 24" "length (pl_urlbase pl) < 2 ^ 24" "length rtxt < 2 ^ 24"
    and "0 \<notin> set (pl_urlbase pl)" "0 \<notin> set rtxt"
    and "curl_easy_init_op C n = (True, n1)"
    and "curl_setopts C (CURLOPT_URL (document_url pl k rtxt) # login_options pl) n1 = (True, n2)"
    and "curl_easy_perform_op C n2 = (cs, True, n3)" "length (concat cs) < 2 ^ 30"
    and "json_loadb (pe_json E) (concat cs) = Some (LA_CODEC_OBJECT ms)"
  shows "\<exists>pl'. fetch_document E C pl k rtxt n = Some (Some (LA_CODEC_OBJECT ms), pl', curl_easy_cleanup_op C n3) \<and>
    pull_ready pl' \<and> (\<exists>x. pl' = pl\<lparr>pl_buffer := x\<rparr>)"
proof -
  obtain b p b1 where u: "la_buffer_new (pe_alloc E) 256 = Some b" "url_encode (pe_alloc E) k = Some p"
    "cstr p = Some (concat (map enc_char k))" "la_buffer_appendf (pe_alloc E) b (document_url pl k rtxt) = Some (Buf_ok, b1)"
    "buffer_cstr (pe_alloc E) b1 = Some (document_url pl k rtxt)"
    using document_url_text [OF assms(1,3-7)] by blast
  obtain pl1 pl2 where t: "pull_perform (pe_alloc E) C pl n2 = Some (True, pl1, n3)"
    "take_body E pl1 = Some (Some (LA_CODEC_OBJECT ms), pl2)" "pull_ready pl2" "\<exists>x. pl2 = pl\<lparr>pl_buffer := x\<rparr>"
    using transfer_body [OF assms(1,2,10,11)] assms(12) by auto
  have "fetch_document E C pl k rtxt n = Some (Some (LA_CODEC_OBJECT ms), pl2, curl_easy_cleanup_op C n3)"
    using u(1-3) u(4,5) [unfolded document_url_def] t(1,2) assms(8) assms(9) [unfolded document_url_def]
    by (simp add: fetch_document_def la_codec_is_object_def)
  with t(3,4) show ?thesis by blast
qed

section \<open>The history of a fetched document\<close>

text \<open>The identifiers of revisions as the server sends them.\<close>

definition rev_ids :: "rev list \<Rightarrow> la_codec_value" where
  "rev_ids rs = LA_CODEC_ARRAY (map (\<lambda>r. LA_CODEC_STRING (concat (map hex2 r))) rs)"

lemma scan_revs_texts:
  assumes "\<forall>r \<in> set rs. length r = 16" "16 * length rs \<le> length blk"
  shows "scan_revs (map (\<lambda>r. LA_CODEC_STRING (concat (map hex2 r))) rs) blk = Some (concat rs)"
  using assms
proof (induction rs arbitrary: blk)
  case Nil
  then show ?case by simp
next
  case (Cons r rs)
  have "la_storage_scan_rev (concat (map hex2 r)) (take 16 blk) = Some (16, r)"
    using unhex_loop_hex2 [of 0 r "take 16 blk" 16] Cons.prems
    by (simp add: la_storage_scan_rev_def string_unhex_def LA_OBJECT_REVISION_LEN_def)
  then show ?case using Cons.IH [of "drop 16 blk"] Cons.prems by (simp add: LA_OBJECT_REVISION_LEN_def)
qed

section \<open>Taking over a remote version\<close>

definition remote_members :: "(byte list \<times> la_codec_value) list \<Rightarrow> (byte list \<times> la_codec_value) list" where
  "remote_members ms = member_del (strip_members ms) LA_API_DELETED_NAME"

lemma is_true_iff: "la_codec_is_true x = (x = LA_CODEC_TRUE)"
  by (cases x) (simp_all add: la_codec_is_true_def)

lemma records_ok_extend:
  assumes "records_ok r" "k \<noteq> []" "0 \<notin> set k" "length k < 2 ^ 31" "doc_of_record v = Some d" "length v < 2 ^ 32"
  shows "records_ok (r(k \<mapsto> v))"
  using assms by (simp add: records_ok_def)

context bdb_documents
begin

text \<open>The driver's replace stores the object as it is, numbered.\<close>

lemma bdb_replace_stores:
  assumes "\<not> txn w" "object_wf obj" "la_storage_object_total_size obj < 2 ^ 32"
  shows "\<exists>obj' w' v. bdb_la_storage_replace B u obj w = Some ((LA_STORAGE_OBJECT_PUT_SUCCESS, obj'), w') \<and> \<not> txn w' \<and>
    recs w' = (recs w)(key obj \<mapsto> v) \<and> length v < 2 ^ 32 \<and>
    doc_of_record v = Some ((doc_of_object obj)\<lparr>d_seq := word_of_nat (nextseq w)\<rparr>)"
proof -
  obtain w1 where b: "txn_begin_op B w = (DB_OK, w1)" "txn w1" "recs w1 = recs w" "nextseq w1 = nextseq w"
    using begin_step [OF assms(1)] by metis
  have wf: "header_wf (header obj)" "data_offset obj + data_length obj \<le> length (revs_data (header obj))"
    using assms(2) by (simp_all add: object_wf_def)
  define sz where "sz = la_storage_object_total_size obj"
  define h' where "h' = (header obj)\<lparr>seq := word_of_nat (nextseq w)\<rparr>"
  have sz: "sz = 34 + 16 * unat (rev_count h') + data_length obj"
    by (simp add: sz_def la_storage_object_total_size_def h'_def)
  have le: "sz \<le> length (encode_header (header obj))"
    using wf by (simp add: sz h'_def encode_header_length data_offset_def)
  from put_record_stores [OF b(2) le wf(1)] obtain w' where p:
    "put_record B obj sz w1 = Some ((LA_STORAGE_OBJECT_PUT_SUCCESS, obj\<lparr>header := h'\<rparr>), w')" "\<not> txn w'"
    "recs w' = (recs w)(key obj \<mapsto> take sz (encode_header h'))"
    using b by (auto simp: h'_def)
  have "doc_of_record (take sz (encode_header h')) =
      Some (doc_of_header h' (take (data_length obj) (drop (16 * unat (rev_count h')) (revs_data h'))))"
    unfolding sz using wf by (intro doc_of_stored) (simp_all add: h'_def header_wf_def data_offset_def)
  moreover have "doc_of_header h' (take (data_length obj) (drop (16 * unat (rev_count h')) (revs_data h'))) =
      (doc_of_object obj)\<lparr>d_seq := word_of_nat (nextseq w)\<rparr>"
    by (simp add: doc_of_object_def doc_of_header_def object_data_def data_offset_def h'_def)
  ultimately have dv: "doc_of_record (take sz (encode_header h')) = Some ((doc_of_object obj)\<lparr>d_seq := word_of_nat (nextseq w)\<rparr>)"
    by simp
  have "bdb_la_storage_replace B u obj w = Some ((LA_STORAGE_OBJECT_PUT_SUCCESS, obj\<lparr>header := h'\<rparr>), w')"
    using b p(1) assms(3) by (simp add: bdb_la_storage_replace_def flip: sz_def)
  moreover have "length (take sz (encode_header h')) < 2 ^ 32" using assms(3) by (simp add: sz_def)
  ultimately show ?thesis using p(2,3) dv by blast
qed

lemma db_replace_spec:
  assumes "bdb_ready w" "on_store db (bdb_driver (ap_alloc P) B) ()" "k \<noteq> []" "0 \<notin> set k" "length k < 2 ^ 31"
    and "storable (ap_json P) (ho_compressor (db_host db)) (LA_CODEC_OBJECT (remote_members ms)) dat"
    and "length (rrev r) = 16" "length olds = 16 * n" "n < 2 ^ 15"
  shows "\<exists>w' q. la_db_replace P db (Some k) (Some r) (Some (LA_CODEC_OBJECT ms)) (Some olds) n w = Some (LA_DB_PUT_OK, w') \<and>
    bdb_ready w' \<and> bdb_docs w' = (bdb_docs w)(k \<mapsto> \<lparr>d_seq = q, d_doc_seq = rseq r,
      d_deleted = (member_get ms LA_API_DELETED_NAME = Some LA_CODEC_TRUE), d_rev = rrev r, d_history = olds, d_data = dat\<rparr>)"
proof -
  let ?A = "ap_alloc P" and ?del = "member_get ms LA_API_DELETED_NAME = Some LA_CODEC_TRUE"
  obtain st where st: "db_store db = Some st" "st_store st = Some ()" "st_driver st = bdb_driver ?A B"
    using assms(2) by (auto simp: on_store_def)
  obtain cs where cs: "json_dump_chunks (ap_json P) (LA_CODEC_OBJECT (remote_members ms)) = (cs, True)" "length (concat cs) < 2 ^ 30"
    "deflate (ho_compressor (db_host db)) (concat cs) = Some dat" "length dat < 2 ^ 30"
    using assms(6) by (auto simp: storable_def)
  obtain b b' where b: "la_buffer_new ?A 1024 = Some b" "feed_chunks (accumulate ?A) b cs = Some (True, b')"
    "mem_read (la_buffer_data b') 0 (la_buffer_size b') = Some (concat cs)"
    using accumulate_fresh [OF memory _ cs(2), of 1024] by auto
  have g: "grant ?A sizeof_object \<and> grant ?A (length k + 1) \<and> grant ?A (sizeof_header + length dat + 16 * n)"
    using assms(5,9) cs(4) by (auto intro!: granted simp: sizeof_object_def)
  obtain t where t: "la_storage_create_object ?A k (rrev r) dat (length dat) (Some olds) n = Some (Some
      \<lparr>key = k, header = \<lparr>seq = 0, doc_seq = 0, deleted = False, rev_count = word_of_nat n, hrev = rrev r,
       revs_data = olds @ dat @ t\<rparr>, data_length = length dat\<rparr>)"
    using create_object_history [OF assms(7) refl _ assms(8,9) _ g] cs(4) assms(5) by auto
  have nn: "unat (word_of_nat n :: 15 word) = n" using assms(9) by (simp add: unat_of_nat take_bit_nat_eq_self)
  define ob where "ob = \<lparr>key = k, header = \<lparr>seq = 0, doc_seq = rseq r, deleted = ?del, rev_count = word_of_nat n,
      hrev = rrev r, revs_data = olds @ dat @ t\<rparr>, data_length = length dat\<rparr>"
  have ob: "object_wf ob" "la_storage_object_total_size ob < 2 ^ 32" "key ob = k"
    "doc_of_object ob = \<lparr>d_seq = 0, d_doc_seq = rseq r, d_deleted = ?del, d_rev = rrev r, d_history = olds, d_data = dat\<rparr>"
    using assms cs(4) nn by (simp_all add: ob_def object_wf_def header_wf_def data_offset_def la_storage_object_total_size_def
      doc_of_object_def doc_of_header_def object_data_def)
  obtain obj' w' v where p: "bdb_la_storage_replace B () ob w = Some ((LA_STORAGE_OBJECT_PUT_SUCCESS, obj'), w')" "\<not> txn w'"
    "recs w' = (recs w)(k \<mapsto> v)" "length v < 2 ^ 32" "doc_of_record v = Some ((doc_of_object ob)\<lparr>d_seq := word_of_nat (nextseq w)\<rparr>)"
    using bdb_replace_stores [OF _ ob(1,2), of w "()"] assms(1) ob(3) by auto
  have "records_ok (recs w')"
    unfolding p(3) by (rule records_ok_extend) (use assms p(4,5) in simp_all)
  then have rdy: "bdb_ready w'" using p(2) by simp
  have ld: "length dat mod 4294967296 = length dat" using cs(4) by simp
  have del: "(case member_get ms LA_API_DELETED_NAME of None \<Rightarrow> False | Some x \<Rightarrow> la_codec_is_true x) = ?del"
    by (simp add: is_true_iff split: option.split)
  have "la_db_replace P db (Some k) (Some r) (Some (LA_CODEC_OBJECT ms)) (Some olds) n w = Some (LA_DB_PUT_OK, w')"
    using st b cs(1,3) t p(1) ld del [symmetric]
    by (simp add: la_db_replace_def la_codec_is_object_def la_codec_copy_def copy la_codec_object_del_def object_del
      la_codec_object_get_def object_get la_codec_dump_callback_def remote_members_def strip_members_def Let_def
      la_storage_replace_def bdb_driver_def ob_def)
  then show ?thesis using rdy p(3) abs_store_upd [OF p(5)] ob(4) by auto
qed

lemma get_remote:
  assumes "bdb_ready w" "on_store db (bdb_driver (ap_alloc P) B) ()" "0 \<notin> set k" "length k < 2 ^ 31"
    and "bdb_docs w k = Some d" "\<not> d_deleted d"
    and "storable (ap_json P) (ho_compressor (db_host db)) (LA_CODEC_OBJECT (remote_members ms)) (d_data d)"
  shows "\<exists>w'. la_db_get P db k None w =
    Some ((LA_DB_GET_OK, Some (LA_CODEC_OBJECT (remote_members ms)), Some \<lparr>rseq = d_doc_seq d, rrev = d_rev d\<rparr>), w')"
proof -
  obtain t where t: "inflate (ho_compressor (db_host db)) (d_data d) = Some t"
    "json_loadb (ap_json P) t = Some (LA_CODEC_OBJECT (remote_members ms))"
    using assms(7) by (auto simp: storable_def)
  have "\<not> is_tombstone (ap_json P) (LA_CODEC_OBJECT (remote_members ms))"
    by (simp add: is_tombstone_def la_codec_object_get_def object_get remote_members_def member_get_del)
  then show ?thesis using get_spec [OF assms(1-4)] assms(5,6) t by auto
qed

text \<open>Taking over a remote version, and reading it.\<close>

lemma take_theirs_stores:
  assumes "bdb_ready w" "on_store db (bdb_driver (ap_alloc P) B) ()" "k \<noteq> []" "0 \<notin> set k" "length k < 2 ^ 31"
    and "storable (ap_json P) (ho_compressor (db_host db)) (LA_CODEC_OBJECT (remote_members ms)) dat"
    and "length (rrev r) = 16" "length remote = 16 * m" "0 < m" "m \<le> 2 ^ 15" "pe_api E = P"
    and "member_get ms LA_API_DELETED_NAME \<noteq> Some LA_CODEC_TRUE"
  shows "\<exists>w1 w2 d. take_theirs E db k r (LA_CODEC_OBJECT ms) remote m w = Some ((), w1) \<and>
    la_db_get P db k None w1 = Some ((LA_DB_GET_OK, Some (LA_CODEC_OBJECT (remote_members ms)), Some r), w2) \<and>
    bdb_docs w1 = (bdb_docs w)(k \<mapsto> d) \<and> d_history d = drop 16 remote"
proof -
  have len: "length (drop 16 remote) = 16 * (m - 1)" and m: "m - 1 < 2 ^ 15" using assms(8-10) by auto
  have cnt: "nat ((int m - 1) mod 2 ^ 64) = m - 1"
    using assms(9,10) by (simp add: nat_diff_distrib)
  obtain w1 q where w1: "la_db_replace P db (Some k) (Some r) (Some (LA_CODEC_OBJECT ms)) (Some (drop 16 remote)) (m - 1) w =
      Some (LA_DB_PUT_OK, w1)" "bdb_ready w1" and
    d: "bdb_docs w1 = (bdb_docs w)(k \<mapsto> \<lparr>d_seq = q, d_doc_seq = rseq r,
      d_deleted = False, d_rev = rrev r, d_history = drop 16 remote, d_data = dat\<rparr>)"
    using db_replace_spec [OF assms(1-7) len m] assms(12) by auto
  let ?d = "\<lparr>d_seq = q, d_doc_seq = rseq r, d_deleted = False, d_rev = rrev r, d_history = drop 16 remote, d_data = dat\<rparr>"
  obtain w2 where w2: "la_db_get P db k None w1 = Some ((LA_DB_GET_OK, Some (LA_CODEC_OBJECT (remote_members ms)), Some r), w2)"
    using get_remote [OF w1(2) assms(2,4,5), of ?d ms] d assms(6) by auto
  have "take_theirs E db k r (LA_CODEC_OBJECT ms) remote m w = Some ((), w1)"
    using w1(1) cnt assms(11) by (simp add: take_theirs_def LA_OBJECT_REVISION_LEN_def)
  with w2 d show ?thesis by auto
qed

lemma remote_history_texts:
  assumes "pe_api E = P" "member_get ms REVISIONS_NAME = Some (LA_CODEC_OBJECT rm)"
    and "member_get rm START_NAME = Some (LA_CODEC_INTEGER i)" "member_get rm IDS_NAME = Some (rev_ids rs)"
    and "\<forall>r \<in> set rs. length r = 16" "length rs < 2 ^ 30"
  shows "remote_history E (LA_CODEC_OBJECT ms) = Some (Some (LA_CODEC_OBJECT (member_del ms REVISIONS_NAME), concat rs))"
proof -
  have "grant (ap_alloc P) (16 * length rs)" using assms(6) by (intro granted) simp
  then obtain blk where blk: "malloc (ap_alloc P) (16 * length rs) = Some blk" "16 * length rs \<le> length blk"
    using malloc_granted by blast
  have "scan_revs (map (\<lambda>r. LA_CODEC_STRING (concat (map hex2 r))) rs) blk = Some (concat rs)"
    using scan_revs_texts [OF assms(5) blk(2)] .
  then show ?thesis using assms(1-4) blk(1)
    by (simp add: remote_history_def object_field_def la_codec_is_object_def object_get object_del rev_ids_def
      LA_OBJECT_REVISION_LEN_def)
qed

text \<open>A change that names a document the store does not have is taken over as it was fetched.\<close>

lemma new_document_stored:
  assumes "bdb_ready w" "on_store (pl_db pl) (bdb_driver (ap_alloc P) B) ()" "k \<noteq> []" "0 \<notin> set k" "length k < 2 ^ 31"
    and "bdb_docs w k = None" "pe_api E = P"
    and "change_fields (ap_json P) change = Some (k, rtxt)" "la_rev_scan rtxt (pe_stack E) = Some (rc, r)" "length (rrev r) = 16"
    and "fetch_document E C pl k rtxt n = Some (Some v, pl', n')" "pl_db pl' = pl_db pl"
    and "remote_history E v = Some (Some (LA_CODEC_OBJECT ms, remote))" "length remote = 16 * m" "0 < m" "m \<le> 2 ^ 15"
    and "member_get ms LA_API_DELETED_NAME \<noteq> Some LA_CODEC_TRUE"
    and "storable (ap_json P) (ho_compressor (db_host (pl_db pl))) (LA_CODEC_OBJECT (remote_members ms)) dat"
  shows "\<exists>w1 w2 d. pull_change E C change pl w n = Some (pl', w1, n') \<and>
    la_db_get P (pl_db pl) k None w1 = Some ((LA_DB_GET_OK, Some (LA_CODEC_OBJECT (remote_members ms)), Some r), w2) \<and>
    bdb_docs w1 = (bdb_docs w)(k \<mapsto> d) \<and> d_history d = drop 16 remote"
proof -
  obtain w0 where w0: "bdb_ready w0" "bdb_docs w0 = bdb_docs w"
    "la_db_get P (pl_db pl) k None w = Some ((LA_DB_GET_NOT_FOUND, None, None), w0)"
    using get_spec [OF assms(1,2,4,5)] assms(6) by auto
  obtain w1 w2 d where t: "take_theirs E (pl_db pl) k r (LA_CODEC_OBJECT ms) remote m w0 = Some ((), w1)"
    "la_db_get P (pl_db pl) k None w1 = Some ((LA_DB_GET_OK, Some (LA_CODEC_OBJECT (remote_members ms)), Some r), w2)"
    "bdb_docs w1 = (bdb_docs w0)(k \<mapsto> d)" "d_history d = drop 16 remote"
    using take_theirs_stores [OF w0(1) assms(2-5,18,10,14-16,7,17)] by blast
  have "pull_change E C change pl w n = Some (pl', w1, n')"
    using w0(3) t(1) assms(7-9,11-14) by (simp add: pull_change_def LA_OBJECT_REVISION_LEN_def)
  with t(2-4) w0(2) show ?thesis by auto
qed

lemma pull_new_document:
  assumes "bdb_ready w" "on_store (pl_db pl) (bdb_driver (ap_alloc P) B) ()" "k \<noteq> []" "0 \<notin> set k" "length k < 2 ^ 24"
    and "bdb_docs w k = None" "pe_api E = P" "length (rrev (pe_stack E)) = 16"
    and "pull_ready pl" "length (pl_urlbase pl) < 2 ^ 24" "0 \<notin> set (pl_urlbase pl)"
    and "change_fields (ap_json P) change = Some (k, rev_text r)" "length (rrev r) = 16"
    and "curl_easy_init_op C n = (True, n1)"
    and "curl_setopts C (CURLOPT_URL (document_url pl k (rev_text r)) # login_options pl) n1 = (True, n2)"
    and "curl_easy_perform_op C n2 = (cs, True, n3)" "length (concat cs) < 2 ^ 30"
    and "json_loadb (ap_json P) (concat cs) = Some (LA_CODEC_OBJECT ms)"
    and "member_get ms REVISIONS_NAME = Some (LA_CODEC_OBJECT rm)"
    and "member_get rm START_NAME = Some (LA_CODEC_INTEGER i)" "member_get rm IDS_NAME = Some (rev_ids rs)"
    and "\<forall>x \<in> set rs. length x = 16" "rs \<noteq> []" "length rs \<le> 2 ^ 15"
    and "member_get ms LA_API_DELETED_NAME \<noteq> Some LA_CODEC_TRUE"
    and "storable (ap_json P) (ho_compressor (db_host (pl_db pl)))
           (LA_CODEC_OBJECT (remote_members (member_del ms REVISIONS_NAME))) dat"
  shows "\<exists>pl' w1 w2 d. pull_change E C change pl w n = Some (pl', w1, curl_easy_cleanup_op C n3) \<and> pull_ready pl' \<and>
    la_db_get P (pl_db pl) k None w1 =
      Some ((LA_DB_GET_OK, Some (LA_CODEC_OBJECT (remote_members (member_del ms REVISIONS_NAME))), Some r), w2) \<and>
    bdb_docs w1 = (bdb_docs w)(k \<mapsto> d) \<and> d_history d = concat (tl rs)"
proof -
  have rt: "length (rev_text r) < 2 ^ 24" "0 \<notin> set (rev_text r)"
    using dec_digits_u64_length [of "rseq r"] assms(13) rev_text_zero_free by (simp_all add: rev_text_def)
  have am: "ample (pe_alloc E)" "json_loadb (pe_json E) (concat cs) = Some (LA_CODEC_OBJECT ms)"
    using assms(7,18) enough_memory by simp_all
  obtain pl' where f: "fetch_document E C pl k (rev_text r) n = Some (Some (LA_CODEC_OBJECT ms), pl', curl_easy_cleanup_op C n3)"
    "pull_ready pl'" "pl_db pl' = pl_db pl"
    using fetch_document_gives [OF am(1) assms(9,5,10) rt(1) assms(11) rt(2) assms(14-17) am(2)] by auto
  have h: "remote_history E (LA_CODEC_OBJECT ms) = Some (Some (LA_CODEC_OBJECT (member_del ms REVISIONS_NAME), concat rs))"
    using remote_history_texts [OF assms(7,19-22)] assms(24) by simp
  have len: "length (concat rs) = 16 * length rs" using assms(22) by (induction rs) simp_all
  have tl: "drop 16 (concat rs) = concat (tl rs)" using assms(22,23) by (cases rs) simp_all
  have del: "member_get (member_del ms REVISIONS_NAME) LA_API_DELETED_NAME \<noteq> Some LA_CODEC_TRUE"
    using assms(25) by (simp add: member_get_del REVISIONS_NAME_def LA_API_DELETED_NAME_def)
  have k31: "length k < 2 ^ 31" and rs0: "0 < length rs" using assms(5,23) by simp_all
  show ?thesis
    using new_document_stored [OF assms(1-4) k31 assms(6,7,12) rev_scan_text [OF assms(13,8)] assms(13) f(1,3) h len rs0
      assms(24) del assms(26)] f(2) tl by auto
qed

text \<open>A change whose revision the store has already is skipped without a transfer.\<close>

lemma known_revision_skipped:
  assumes "bdb_ready w" "on_store (pl_db pl) (bdb_driver (ap_alloc P) B) ()" "0 \<notin> set k" "length k < 2 ^ 31"
    and "bdb_docs w k = Some d" "\<not> d_deleted d" "pe_api E = P"
    and "storable (ap_json P) (ho_compressor (db_host (pl_db pl))) (LA_CODEC_OBJECT (remote_members ms)) (d_data d)"
    and "change_fields (ap_json P) change = Some (k, rtxt)" "la_rev_scan rtxt (pe_stack E) = Some (rc, r)" "rrev r = d_rev d"
  shows "\<exists>w'. pull_change E C change pl w n = Some (pl, w', n) \<and> bdb_docs w' = bdb_docs w \<and> bdb_ready w'"
proof -
  obtain w1 where "bdb_ready w1" "bdb_docs w1 = bdb_docs w"
    "\<exists>v. la_db_get P (pl_db pl) k None w = Some ((LA_DB_GET_OK, Some v, Some \<lparr>rseq = d_doc_seq d, rrev = d_rev d\<rparr>), w1)"
    using get_spec [OF assms(1-4)] get_remote [OF assms(1-6,8)] by auto
  then show ?thesis using assms(7,9-11) by (auto simp: pull_change_def)
qed

text \<open>With a resolver that keeps the local version, two histories that do not meet change nothing.\<close>

lemma reconcile_keeps_mine:
  assumes "bdb_ready w" "on_store (pl_db pl) (bdb_driver (ap_alloc P) B) ()" "0 \<notin> set k" "length k < 2 ^ 31"
    and "bdb_docs w k = Some d" "\<not> d_deleted d" "pe_api E = P"
    and "storable (ap_json P) (ho_compressor (db_host (pl_db pl))) (LA_CODEC_OBJECT (remote_members ms)) (d_data d)"
    and "la_storage_revs_overlap mine c1 remote (int m) = Some False" "la_storage_revs_overlap remote (int m) mine c1 = Some False"
    and "pl_resolver pl = resolve_mine"
  shows "\<exists>w'. reconcile E pl k myrev r v remote m mine c1 w = Some ((), w') \<and> bdb_docs w' = bdb_docs w \<and> bdb_ready w'"
proof -
  obtain w1 where "bdb_ready w1" "bdb_docs w1 = bdb_docs w"
    "\<exists>v. la_db_get P (pl_db pl) k None w = Some ((LA_DB_GET_OK, Some v, Some \<lparr>rseq = d_doc_seq d, rrev = d_rev d\<rparr>), w1)"
    using get_spec [OF assms(1-4)] get_remote [OF assms(1-6,8)] by auto
  then show ?thesis using assms(7,9-11) by (auto simp: reconcile_def resolve_mine_def)
qed

end

section \<open>The two histories\<close>

lemma overlap_suffix:
  assumes "length remote = 16 * m" "mine = drop (16 * j) remote" "j + 2 \<le> m" "m < 2 ^ 40"
  shows "la_storage_revs_overlap mine (int (m - j)) remote (int m) = Some True"
proof -
  have "length mine = 16 * (m - j)" using assms by simp
  moreover have "int j < int m - 1" using assms(3) by simp
  ultimately show ?thesis
    using overlap_loop_spec [of "int (m - j)" mine "int m" remote 0] assms
    by (auto simp: la_storage_revs_overlap_def Let_def intro!: exI [of _ j])
qed

lemma overlap_single:
  assumes "length remote = 16 * m" "length r = 16" "m < 2 ^ 40"
    and "\<forall>j. j + 1 < m \<longrightarrow> take 16 (drop (16 * j) remote) \<noteq> r"
  shows "la_storage_revs_overlap r 1 remote (int m) = Some False" "la_storage_revs_overlap remote (int m) r 1 = Some False"
proof -
  have "min (Suc 0) (m - j) = 1 \<and> take 16 (drop (16 * j) remote) \<noteq> r" if "int j < int m - 1" for j
    using that assms(4) by auto
  then have "\<not> (\<exists>j\<ge>0. int j < int m - 1 \<and> take (16 * min (nat 1) (nat (int m) - j)) r =
      take (16 * min (nat 1) (nat (int m) - j)) (drop (16 * j) remote))"
    using assms(2) by fastforce
  then show "la_storage_revs_overlap r 1 remote (int m) = Some False"
    using overlap_loop_spec [of 1 r "int m" remote 0] assms(1,2)
    by (simp add: la_storage_revs_overlap_def Let_def)
  show "la_storage_revs_overlap remote (int m) r 1 = Some False"
    using overlap_loop_spec [of "int m" remote 1 r 0] assms(1-3)
    by (simp add: la_storage_revs_overlap_def)
qed

section \<open>A server for the examples\<close>

text \<open>A feed entry, and the text and the tree of the document it names, with a history of two.\<close>

definition demo_rev :: la_rev where
  "demo_rev = \<lparr>rseq = 2, rrev = replicate 16 2\<rparr>"

definition demo_change :: la_codec_value where
  "demo_change = LA_CODEC_OBJECT [(ID_NAME, LA_CODEC_STRING [0x6b]), (SEQ_NAME, LA_CODEC_INTEGER 5),
     (CHANGES_NAME, LA_CODEC_ARRAY [LA_CODEC_OBJECT [(REV_NAME, LA_CODEC_STRING (rev_text demo_rev))]])]"

definition remote_text :: "byte list" where
  "remote_text = [0x7b, 0x72, 0x7d]"

definition remote_tree :: "(byte list \<times> la_codec_value) list" where
  "remote_tree = [(REVISIONS_NAME, LA_CODEC_OBJECT [(START_NAME, LA_CODEC_INTEGER 2),
     (IDS_NAME, rev_ids [replicate 16 2, replicate 16 1])])] @ demo_members"

definition pull_api :: api where
  "pull_api = demo_api\<lparr>ap_json := tree_json (\<lambda>v. [demo_text])
     (\<lambda>t. if t = remote_text then Some (LA_CODEC_OBJECT remote_tree) else Some (LA_CODEC_OBJECT demo_members))\<rparr>"

definition demo_env :: pull_env where
  "demo_env = \<lparr>pe_api = pull_api, pe_dumps = (\<lambda>_. None), pe_stack = \<lparr>rseq = 0, rrev = replicate 16 0\<rparr>\<rparr>"

definition demo_curl :: "unit curl" where
  "demo_curl = \<lparr>curl_easy_init_op = (\<lambda>n. (True, n)), curl_easy_setopt_op = (\<lambda>_ n. (True, n)),
     curl_easy_perform_op = (\<lambda>n. ([remote_text], True, n)), curl_easy_getinfo_op = (\<lambda>n. (Some 200, n)),
     curl_easy_cleanup_op = (\<lambda>n. n)\<rparr>"

definition demo_pull :: "(unit, unit, nat, mem_world) la_pull" where
  "demo_pull = \<lparr>pl_db = demo_db, pl_user = None, pl_password = None, pl_continuous = False,
     pl_buffer = la_buffer_new exact_allocator 8, pl_urlbase = [0x68], pl_url = [0x68], pl_sep = 0x3f, pl_last_seq = None,
     pl_resolver = resolve_mine\<rparr>"

interpretation pull_demo: bdb_documents mem_bdb "\<lambda>w. map_of (mw_recs w)" "\<lambda>w. map_of (mw_saved w)" mw_txn mw_seq mw_savedseq pull_api
  by unfold_locales (simp_all add: demo_api_def pull_api_def tree_json_def)

lemma pull_demo_facts:
  "on_store (pl_db demo_pull) (bdb_driver (ap_alloc pull_api) mem_bdb) ()" "pe_api demo_env = pull_api"
  "length (rrev (pe_stack demo_env)) = 16" "pl_urlbase demo_pull = [0x68]" "login_options demo_pull = []"
  "change_fields (ap_json pull_api) demo_change = Some ([0x6b], rev_text demo_rev)" "length (rrev demo_rev) = 16"
  "storable (ap_json pull_api) (ho_compressor (db_host (pl_db demo_pull))) (LA_CODEC_OBJECT demo_members) demo_text"
  by (simp_all add: on_store_def demo_pull_def demo_db_def demo_api_def pull_api_def demo_env_def demo_rev_def login_options_def
    change_fields_def demo_change_def object_field_def la_codec_is_object_def tree_json_def storable_def deflate_def inflate_def
    remote_text_def demo_text_def ID_NAME_def SEQ_NAME_def CHANGES_NAME_def)

lemma remote_tree_facts:
  "member_get remote_tree REVISIONS_NAME = Some (LA_CODEC_OBJECT [(START_NAME, LA_CODEC_INTEGER 2),
     (IDS_NAME, rev_ids [replicate 16 2, replicate 16 1])])"
  "member_get [(START_NAME, LA_CODEC_INTEGER 2), (IDS_NAME, x)] IDS_NAME = Some x"
  "remote_members (member_del remote_tree REVISIONS_NAME) = demo_members" "remote_members demo_members = demo_members"
  "member_get remote_tree LA_API_DELETED_NAME = None"
  by (simp_all add: remote_tree_def demo_members_def remote_members_def strip_members_def member_del_def START_NAME_def IDS_NAME_def
    REVISIONS_NAME_def LA_API_DELETED_NAME_def LA_API_KEY_NAME_def LA_API_REV_NAME_def)

lemma demo_pull_ready: "pull_ready demo_pull"
proof -
  obtain b where "la_buffer_new exact_allocator 8 = Some b" "buf_inv b" "ptr_owned b" "capacity b = 1024" "buf_content b = []"
    using fresh_buffer [of exact_allocator 8] by (auto simp: buf_cap_eq)
  then show ?thesis by (simp add: pull_ready_def demo_pull_def)
qed

section \<open>Properties\<close>

text \<open>
  C11. Replication of a new document: when the puller's buffer is empty (\<open>pull_ready\<close>: what a failed transfer left in
  it would be taken for the document), the changes feed names a key the store does not have and the
  transfer of the document, which is not deleted, succeeds, \<open>pull_change\<close> stores the server's version: the next get gives
  the document without its \<open>_id\<close>, \<open>_rev\<close> and \<open>_revisions\<close> members under the server's revision, with the
  server's older revisions as its history. No other document changes, and the puller is ready for
  the next change. (The revision is named as the database prints it, the document has its \<open>_revisions\<close>, at most
  \<open>2 ^ 15\<close> and each of 16 bytes, its text is below \<open>2 ^ 30\<close> bytes and survives printing, compression and parsing; the key
  and the address are below \<open>2 ^ 24\<close> bytes; the library does not fail and there is memory.)
\<close>

theorem pull_stores_new_document:
  assumes "bdb_documents B recs saved txn nextseq savedseq P" "\<not> txn w \<and> records_ok (recs w)"
    and "on_store (pl_db pl) (bdb_driver (ap_alloc P) B) ()" "k \<noteq> []" "0 \<notin> set k" "length k < 2 ^ 24"
    and "abs_store (recs w) k = None" "pe_api E = P" "length (rrev (pe_stack E)) = 16"
    and "pull_ready pl" "length (pl_urlbase pl) < 2 ^ 24" "0 \<notin> set (pl_urlbase pl)"
    and "change_fields (ap_json P) change = Some (k, rev_text r)" "length (rrev r) = 16"
    and "curl_easy_init_op C n = (True, n1)"
    and "curl_setopts C (CURLOPT_URL (document_url pl k (rev_text r)) # login_options pl) n1 = (True, n2)"
    and "curl_easy_perform_op C n2 = (cs, True, n3)" "length (concat cs) < 2 ^ 30"
    and "json_loadb (ap_json P) (concat cs) = Some (LA_CODEC_OBJECT ms)"
    and "member_get ms REVISIONS_NAME = Some (LA_CODEC_OBJECT rm)"
    and "member_get rm START_NAME = Some (LA_CODEC_INTEGER i)" "member_get rm IDS_NAME = Some (rev_ids rs)"
    and "\<forall>x \<in> set rs. length x = 16" "rs \<noteq> []" "length rs \<le> 2 ^ 15"
    and "member_get ms LA_API_DELETED_NAME \<noteq> Some LA_CODEC_TRUE"
    and "storable (ap_json P) (ho_compressor (db_host (pl_db pl)))
           (LA_CODEC_OBJECT (remote_members (member_del ms REVISIONS_NAME))) dat"
  shows "\<exists>pl' w1 w2 d. pull_change E C change pl w n = Some (pl', w1, curl_easy_cleanup_op C n3) \<and> pull_ready pl' \<and>
    la_db_get P (pl_db pl) k None w1 =
      Some ((LA_DB_GET_OK, Some (LA_CODEC_OBJECT (remote_members (member_del ms REVISIONS_NAME))), Some r), w2) \<and>
    abs_store (recs w1) = (abs_store (recs w))(k \<mapsto> d) \<and> d_history d = concat (tl rs)"
  using bdb_documents.pull_new_document [OF assms] .

theorem pull_stores_new_document_witness:
  "\<exists>pl' w1 w2. pull_change demo_env demo_curl demo_change demo_pull mem_empty () = Some (pl', w1, ()) \<and> pull_ready pl' \<and>
    la_db_get pull_api demo_db [0x6b] None w1 = Some ((LA_DB_GET_OK, Some (LA_CODEC_OBJECT demo_members), Some demo_rev), w2)"
proof -
  have r: "\<not> mw_txn mem_empty \<and> records_ok (map_of (mw_recs mem_empty))" using demo_facts(1,2) by simp
  have "\<exists>pl' w1 w2 d. pull_change demo_env demo_curl demo_change demo_pull mem_empty () =
        Some (pl', w1, curl_easy_cleanup_op demo_curl ()) \<and> pull_ready pl' \<and>
      la_db_get pull_api (pl_db demo_pull) [0x6b] None w1 =
        Some ((LA_DB_GET_OK, Some (LA_CODEC_OBJECT (remote_members (member_del remote_tree REVISIONS_NAME))), Some demo_rev), w2) \<and>
      abs_store (map_of (mw_recs w1)) = (abs_store (map_of (mw_recs mem_empty)))([0x6b] \<mapsto> d) \<and>
      d_history d = concat (tl [replicate 16 2, replicate 16 1])"
  proof (rule pull_stores_new_document [OF pull_demo.bdb_documents_axioms r pull_demo_facts(1) _ _ _ demo_facts(3) pull_demo_facts(2,3)
      demo_pull_ready _ _ pull_demo_facts(6,7)])
    show "json_loadb (ap_json pull_api) (concat [remote_text]) = Some (LA_CODEC_OBJECT remote_tree)"
      by (simp add: pull_api_def tree_json_def)
    show "member_get remote_tree REVISIONS_NAME = Some (LA_CODEC_OBJECT [(START_NAME, LA_CODEC_INTEGER 2),
       (IDS_NAME, rev_ids [replicate 16 2, replicate 16 1])])" by (rule remote_tree_facts)
    show "member_get [(START_NAME, LA_CODEC_INTEGER 2), (IDS_NAME, rev_ids [replicate 16 2, replicate 16 1])] IDS_NAME =
      Some (rev_ids [replicate 16 2, replicate 16 1])" by (rule remote_tree_facts)
    show "storable (ap_json pull_api) (ho_compressor (db_host (pl_db demo_pull)))
      (LA_CODEC_OBJECT (remote_members (member_del remote_tree REVISIONS_NAME))) demo_text"
      using pull_demo_facts(8) by (simp add: remote_tree_facts)
  qed (simp_all add: pull_demo_facts remote_tree_facts demo_curl_def remote_text_def)
  then show ?thesis by (auto simp: remote_tree_facts demo_pull_def)
qed

text \<open>
  \<open>url_encode\<close> gives a terminated string that an HTTP server decodes to the key, for every key of
  ASCII characters. (There is memory.)
\<close>

theorem url_encode_decodes:
  assumes "ample A" "length s < 2 ^ 30" "\<forall>c \<in> set s. c < 0x80"
  shows "\<exists>p e. url_encode A s = Some p \<and> cstr p = Some e \<and> url_decode e = Some s"
proof -
  have "url_decode (concat (map enc_char s)) = Some s" using assms(3)
    by (induction s) (simp_all add: url_decode_enc)
  then show ?thesis using url_encode_ok [OF assms(1,2)] by auto
qed

theorem url_encode_decodes_witness:
  "\<exists>p e. url_encode exact_allocator [0x61, 0x20, 0x2f] = Some p \<and> cstr p = Some e \<and> url_decode e = Some [0x61, 0x20, 0x2f]"
  by (rule url_encode_decodes) simp_all

text \<open>
  Fast forward: when the local history (two revisions or more) is the older part of the server's
  history, \<open>reconcile\<close> takes the server's version whatever the resolver says: the next get gives the
  server's document under the server's revision, and its history is the server's. No other
  document changes.
\<close>

theorem pull_fast_forwards:
  assumes "bdb_documents B recs saved txn nextseq savedseq P" "\<not> txn w \<and> records_ok (recs w)"
    and "on_store (pl_db pl) (bdb_driver (ap_alloc P) B) ()" "k \<noteq> []" "0 \<notin> set k" "length k < 2 ^ 31" "pe_api E = P"
    and "storable (ap_json P) (ho_compressor (db_host (pl_db pl))) (LA_CODEC_OBJECT (remote_members ms)) dat"
    and "length (rrev r) = 16" "length remote = 16 * m" "m \<le> 2 ^ 15" "member_get ms LA_API_DELETED_NAME \<noteq> Some LA_CODEC_TRUE"
    and "mine = drop (16 * j) remote" "j + 2 \<le> m"
  shows "\<exists>w1 w2 d. reconcile E pl k myrev r (LA_CODEC_OBJECT ms) remote m mine (int (m - j)) w = Some ((), w1) \<and>
    la_db_get P (pl_db pl) k None w1 = Some ((LA_DB_GET_OK, Some (LA_CODEC_OBJECT (remote_members ms)), Some r), w2) \<and>
    abs_store (recs w1) = (abs_store (recs w))(k \<mapsto> d) \<and> d_history d = drop 16 remote"
proof -
  have m: "0 < m" "m < 2 ^ 40" using assms(11,14) by simp_all
  have "la_storage_revs_overlap mine (int (m - j)) remote (int m) = Some True"
    by (rule overlap_suffix [OF assms(10,13,14) m(2)])
  then have "reconcile E pl k myrev r (LA_CODEC_OBJECT ms) remote m mine (int (m - j)) w =
      take_theirs E (pl_db pl) k r (LA_CODEC_OBJECT ms) remote m w" by (simp add: reconcile_def)
  then show ?thesis
    using bdb_documents.take_theirs_stores [OF assms(1-6,8-10) m(1) assms(11,7,12)] by simp
qed

theorem pull_fast_forwards_witness:
  "\<exists>w1 w2. reconcile demo_env demo_pull [0x6b] demo_rev \<lparr>rseq = 3, rrev = replicate 16 3\<rparr> (LA_CODEC_OBJECT demo_members)
      (replicate 16 3 @ replicate 16 2 @ replicate 16 1) 3 (replicate 16 2 @ replicate 16 1) 2 mem_demo = Some ((), w1) \<and>
    la_db_get pull_api demo_db [0x6b] None w1 =
      Some ((LA_DB_GET_OK, Some (LA_CODEC_OBJECT demo_members), Some \<lparr>rseq = 3, rrev = replicate 16 3\<rparr>), w2)"
proof -
  have r: "\<not> mw_txn mem_demo \<and> records_ok (map_of (mw_recs mem_demo))" using mem_demo_ok by simp
  have s: "storable (ap_json pull_api) (ho_compressor (db_host (pl_db demo_pull))) (LA_CODEC_OBJECT (remote_members demo_members)) demo_text"
    using pull_demo_facts(8) by (simp add: remote_tree_facts)
  from pull_fast_forwards [OF pull_demo.bdb_documents_axioms r pull_demo_facts(1) _ _ _ pull_demo_facts(2) s, of "[0x6b]"
      "\<lparr>rseq = 3, rrev = replicate 16 3\<rparr>" "replicate 16 3 @ replicate 16 2 @ replicate 16 1" 3
      "replicate 16 2 @ replicate 16 1" 1 demo_rev]
  show ?thesis by (auto simp: remote_tree_facts demo_facts demo_pull_def)
qed

text \<open>
  A document with one local revision is not fast forwarded: when the server's history ends in that
  revision, so that the server's version is an update of it, neither history is found in the other;
  with the default resolver the update is dropped and every document stays as it was.
\<close>

theorem pull_first_update_dropped:
  assumes "bdb_documents B recs saved txn nextseq savedseq P" "\<not> txn w \<and> records_ok (recs w)"
    and "on_store (pl_db pl) (bdb_driver (ap_alloc P) B) ()" "0 \<notin> set k" "length k < 2 ^ 31"
    and "abs_store (recs w) k = Some d" "\<not> d_deleted d" "pe_api E = P"
    and "storable (ap_json P) (ho_compressor (db_host (pl_db pl))) (LA_CODEC_OBJECT (remote_members ms)) (d_data d)"
    and "length remote = 16 * m" "length (d_rev d) = 16" "m < 2 ^ 40" "remote = newer @ d_rev d"
    and "\<forall>j. j + 1 < m \<longrightarrow> take 16 (drop (16 * j) remote) \<noteq> d_rev d" "pl_resolver pl = resolve_mine"
  shows "\<exists>w'. reconcile E pl k myrev r v remote m (d_rev d) 1 w = Some ((), w') \<and> abs_store (recs w') = abs_store (recs w)"
  using bdb_documents.reconcile_keeps_mine [OF assms(1-9) overlap_single [OF assms(10,11,12,14)] assms(15)] by blast

theorem pull_first_update_dropped_witness:
  "\<exists>w'. reconcile demo_env demo_pull [0x6b] \<lparr>rseq = 1, rrev = replicate 16 2\<rparr> \<lparr>rseq = 2, rrev = replicate 16 3\<rparr>
      (LA_CODEC_OBJECT []) (replicate 16 3 @ replicate 16 2) 2 (replicate 16 2) 1 mem_demo = Some ((), w') \<and>
    abs_store (map_of (mw_recs w')) [0x6b] = Some (doc_of_header header_demo demo_text)"
proof -
  have r: "\<not> mw_txn mem_demo \<and> records_ok (map_of (mw_recs mem_demo))" using mem_demo_ok by simp
  let ?d = "doc_of_header header_demo demo_text"
  have "\<exists>w'. reconcile demo_env demo_pull [0x6b] \<lparr>rseq = 1, rrev = replicate 16 2\<rparr> \<lparr>rseq = 2, rrev = replicate 16 3\<rparr>
      (LA_CODEC_OBJECT []) (replicate 16 3 @ replicate 16 2) 2 (d_rev ?d) 1 mem_demo = Some ((), w') \<and>
    abs_store (map_of (mw_recs w')) = abs_store (map_of (mw_recs mem_demo))"
  proof (rule pull_first_update_dropped [OF pull_demo.bdb_documents_axioms r pull_demo_facts(1), where ms = demo_members])
    show "storable (ap_json pull_api) (ho_compressor (db_host (pl_db demo_pull)))
        (LA_CODEC_OBJECT (remote_members demo_members)) (d_data ?d)"
      using pull_demo_facts(8) by (simp add: remote_tree_facts doc_of_header_def)
    have "take 16 (drop (16 * j) (replicate 16 3 @ replicate 16 (2 :: byte))) \<noteq> replicate 16 2" if "j + 1 < 2" for j
      using that by (cases j) (simp_all add: numeral_eq_Suc)
    then show "\<forall>j. j + 1 < 2 \<longrightarrow> take 16 (drop (16 * j) (replicate 16 3 @ replicate 16 2)) \<noteq> d_rev ?d"
      by (simp add: doc_of_header_def header_demo_def)
  qed (simp_all add: mem_demo_ok doc_of_header_def header_demo_def pull_demo_facts demo_pull_def)
  then show ?thesis by (auto simp: mem_demo_ok doc_of_header_def header_demo_def)
qed

text \<open>
  A change whose revision the store has already is skipped: \<open>pull_change\<close> makes no transfer, leaves
  the puller as it is, and changes no document.
\<close>

theorem pull_skips_known_revision:
  assumes "bdb_documents B recs saved txn nextseq savedseq P" "\<not> txn w \<and> records_ok (recs w)"
    and "on_store (pl_db pl) (bdb_driver (ap_alloc P) B) ()" "0 \<notin> set k" "length k < 2 ^ 31"
    and "abs_store (recs w) k = Some d" "\<not> d_deleted d" "pe_api E = P"
    and "storable (ap_json P) (ho_compressor (db_host (pl_db pl))) (LA_CODEC_OBJECT (remote_members ms)) (d_data d)"
    and "change_fields (ap_json P) change = Some (k, rtxt)" "la_rev_scan rtxt (pe_stack E) = Some (rc, r)" "rrev r = d_rev d"
  shows "\<exists>w'. pull_change E C change pl w n = Some (pl, w', n) \<and> abs_store (recs w') = abs_store (recs w) \<and>
    \<not> txn w' \<and> records_ok (recs w')"
  using bdb_documents.known_revision_skipped [OF assms] .

theorem pull_skips_known_revision_witness:
  "\<exists>w'. pull_change demo_env demo_curl demo_change demo_pull mem_demo () = Some (demo_pull, w', ())"
proof -
  have r: "\<not> mw_txn mem_demo \<and> records_ok (map_of (mw_recs mem_demo))" using mem_demo_ok by simp
  let ?d = "doc_of_header header_demo demo_text"
  have "storable (ap_json pull_api) (ho_compressor (db_host (pl_db demo_pull)))
      (LA_CODEC_OBJECT (remote_members demo_members)) (d_data ?d)"
    using pull_demo_facts(8) by (simp add: remote_tree_facts doc_of_header_def)
  from pull_skips_known_revision [OF pull_demo.bdb_documents_axioms r pull_demo_facts(1) _ _ _ _ pull_demo_facts(2) this
      pull_demo_facts(6) rev_scan_text [OF pull_demo_facts(7,3)], of demo_curl "()"]
  show ?thesis by (auto simp: mem_demo_ok doc_of_header_def header_demo_def demo_rev_def)
qed

end
