(* ===== verification/LA_Compress.thy ===== *)
theory LA_Compress
  imports LA_API
begin

text \<open>
  The zlib compressor (\<open>compress-zlib/compress-zlib.c\<close>): both directions drain a stream in chunks into a
  byte buffer and hand out a copy of it. The library zlib is an argument. A loop that is not over
  after \<open>fuel\<close> chunks is \<open>None\<close>, and so is an access outside a block.
\<close>

section \<open>The library\<close>

datatype z_result = Z_OK | Z_STREAM_END | Z_BUF_ERROR | Z_FAILED

text \<open>
  Opening gives a stream whose input is set (\<open>None\<close>: the library refuses). A step is given the room at
  \<open>next_out\<close> and answers with the bytes it put there.
\<close>

record 'z zlib =
  deflateInit_op :: "byte list \<Rightarrow> 'z option"
  deflate_op :: "nat \<Rightarrow> 'z \<Rightarrow> z_result \<times> byte list \<times> 'z"
  inflateInit_op :: "byte list \<Rightarrow> 'z option"
  inflate_op :: "nat \<Rightarrow> 'z \<Rightarrow> z_result \<times> byte list \<times> 'z"

definition CHUNK_SIZE :: nat where
  "CHUNK_SIZE = 4096"

text \<open>The member \<open>avail_in\<close> has 32 bits.\<close>

definition avail_in :: "byte list \<Rightarrow> byte list" where
  "avail_in input = take (length input mod 2 ^ 32) input"

section \<open>The code\<close>

text \<open>
  The loop of both functions: \<open>ok\<close> are the results it accepts; the inner \<open>None\<close> is a failure, with the
  stream and the buffer released. It goes on as long as a step fills its chunk.
\<close>

fun drain_stream ::
  "allocator \<Rightarrow> (z_result \<Rightarrow> bool) \<Rightarrow> (nat \<Rightarrow> 'z \<Rightarrow> z_result \<times> byte list \<times> 'z) \<Rightarrow> nat \<Rightarrow> 'z \<Rightarrow> la_buffer \<Rightarrow>
   la_buffer option option" where
  "drain_stream A ok step 0 z b = None"
| "drain_stream A ok step (Suc fuel) z b =
     (case step CHUNK_SIZE z of
        (ret, out, z1) \<Rightarrow>
          if \<not> ok ret then Some None
          else do {
            (rc, b1) \<leftarrow> la_buffer_append A b out (length out);
            if rc \<noteq> Buf_ok then Some None
            else if length out = CHUNK_SIZE then drain_stream A ok step fuel z1 b1
            else Some (Some b1) })"

text \<open>The block handed out and its length at \<open>outlen\<close>, or NULL.\<close>

definition zlib_compress ::
  "allocator \<Rightarrow> 'z zlib \<Rightarrow> nat \<Rightarrow> byte list \<Rightarrow> (byte list \<times> nat) option option" where
  "zlib_compress A Z fuel input =
     (case la_buffer_new A 1024 of
        None \<Rightarrow> Some None
      | Some buffer \<Rightarrow>
          (case deflateInit_op Z (avail_in input) of
             None \<Rightarrow> Some None
           | Some zs \<Rightarrow> do {
               drained \<leftarrow> drain_stream A (\<lambda>r. r = Z_OK \<or> r = Z_STREAM_END) (deflate_op Z) fuel zs buffer;
               (case drained of
                  None \<Rightarrow> Some None
                | Some b \<Rightarrow> map_option (map_option (\<lambda>ret. (ret, la_buffer_size b))) (la_buffer_copy A b)) }))"

definition zlib_decompress ::
  "allocator \<Rightarrow> 'z zlib \<Rightarrow> nat \<Rightarrow> byte list \<Rightarrow> (byte list \<times> nat) option option" where
  "zlib_decompress A Z fuel input =
     (case la_buffer_new A 1024 of
        None \<Rightarrow> Some None
      | Some buffer \<Rightarrow>
          (case inflateInit_op Z (avail_in input) of
             None \<Rightarrow> Some None
           | Some zs \<Rightarrow> do {
               drained \<leftarrow> drain_stream A (\<lambda>r. r = Z_OK \<or> r = Z_STREAM_END \<or> r = Z_BUF_ERROR) (inflate_op Z) fuel zs buffer;
               (case drained of
                  None \<Rightarrow> Some None
                | Some b \<Rightarrow> map_option (map_option (\<lambda>ret. (ret, la_buffer_size b))) (la_buffer_copy A b)) }))"

text \<open>The pair of functions a host is configured with; callers read \<open>outlen\<close> bytes.\<close>

definition block_bytes :: "(byte list \<times> nat) option option \<Rightarrow> byte list option" where
  "block_bytes r = do { found \<leftarrow> r; (blk, n) \<leftarrow> found; mem_read blk 0 n }"

definition zlib_compressor :: "allocator \<Rightarrow> 'z zlib \<Rightarrow> nat \<Rightarrow> la_compressor" where
  "zlib_compressor A Z fuel =
     \<lparr>compressor_fn = (\<lambda>x. block_bytes (zlib_compress A Z fuel x)),
      decompressor_fn = (\<lambda>x. block_bytes (zlib_decompress A Z fuel x))\<rparr>"

section \<open>Draining a stream\<close>

text \<open>
  A stream that has the bytes \<open>rest z\<close> still to give: a step gives as much of them as there is room, with a
  result the loop accepts. Of a stream with no such bytes (one whose input is not valid: \<open>Z_DATA_ERROR\<close>)
  nothing is said.
\<close>

locale z_stream =
  fixes step :: "nat \<Rightarrow> 'z \<Rightarrow> z_result \<times> byte list \<times> 'z"
    and ok :: "z_result \<Rightarrow> bool"
    and rest :: "'z \<Rightarrow> byte list option"
  assumes gives: "0 < n \<Longrightarrow> rest z = Some xs \<Longrightarrow> \<exists>ret z1. step n z = (ret, take n xs, z1) \<and> ok ret \<and> rest z1 = Some (drop n xs)"
begin

lemma drain_all:
  assumes "ample A" "buf_inv b" "ptr_owned b" "capacity b \<le> bsize b + 1024" "bsize b + length xs + 1024 < 2 ^ 40"
    and "length xs div CHUNK_SIZE < fuel" "rest z = Some xs"
  shows "\<exists>b'. drain_stream A ok step fuel z b = Some (Some b') \<and> buf_inv b' \<and> buf_content b' = buf_content b @ xs"
  using assms
proof (induction fuel arbitrary: z xs b)
  case 0
  then show ?case by simp
next
  case (Suc fuel)
  let ?out = "take CHUNK_SIZE xs"
  have pos: "0 < CHUNK_SIZE" by (simp add: CHUNK_SIZE_def)
  obtain ret z1 where st: "step CHUNK_SIZE z = (ret, ?out, z1)" "ok ret" "rest z1 = Some (drop CHUNK_SIZE xs)"
    using gives [OF pos Suc.prems(7)] by blast
  have "length ?out \<le> length xs" by simp
  then have bound: "bsize b + length ?out + 1024 < 2 ^ 40" using Suc.prems(5) by linarith
  obtain b1 where b1: "accumulate A b ?out = Some (True, b1)" "buf_inv b1" "ptr_owned b1" "bsize b1 = bsize b + length ?out"
    "capacity b1 \<le> bsize b1 + 1024" "buf_content b1 = buf_content b @ ?out"
    using accumulate_ok [OF Suc.prems(1-4) bound] by blast
  have ap: "la_buffer_append A b ?out (length ?out) = Some (Buf_ok, b1)"
    using b1(1) by (auto simp: accumulate_def split: option.splits if_splits)
  show ?case
  proof (cases "CHUNK_SIZE \<le> length xs")
    case False
    then have "xs = ?out" by simp
    then show ?thesis using st ap b1(2,6) False by simp
  next
    case True
    let ?more = "drop CHUNK_SIZE xs"
    have "length ?more + CHUNK_SIZE = length xs" using True by simp
    moreover from this have "length ?more div CHUNK_SIZE < fuel"
      using Suc.prems(6) pos by (metis Suc_less_SucD div_add_self2 less_irrefl Suc_eq_plus1)
    ultimately obtain b' where "drain_stream A ok step fuel z1 b1 = Some (Some b')" "buf_inv b'"
      "buf_content b' = buf_content b1 @ ?more"
      using Suc.IH [OF Suc.prems(1) b1(2,3,5), of ?more z1] b1(4) Suc.prems(5) True st(3) by auto
    moreover have "?out @ ?more = xs" by simp
    ultimately show ?thesis using st(1,2) ap b1(6) True by simp
  qed
qed

text \<open>Fewer steps than there are full chunks never suffice.\<close>

lemma drain_short:
  assumes "fuel \<le> length xs div CHUNK_SIZE" "rest z = Some xs"
  shows "drain_stream A ok step fuel z b \<noteq> Some (Some b')"
  using assms
proof (induction fuel arbitrary: z xs b)
  case 0
  then show ?case by simp
next
  case (Suc fuel)
  have pos: "0 < CHUNK_SIZE" by (simp add: CHUNK_SIZE_def)
  obtain ret z1 where st: "step CHUNK_SIZE z = (ret, take CHUNK_SIZE xs, z1)" "rest z1 = Some (drop CHUNK_SIZE xs)"
    using gives [OF pos Suc.prems(2)] by blast
  have full: "CHUNK_SIZE \<le> length xs" using Suc.prems(1) pos by (metis div_less not_le Suc_n_not_le_n le0 le_trans not_less_eq_eq)
  then have "length (drop CHUNK_SIZE xs) + CHUNK_SIZE = length xs" by simp
  then have "fuel \<le> length (drop CHUNK_SIZE xs) div CHUNK_SIZE"
    using Suc.prems(1) pos by (metis Suc_le_mono div_add_self2 less_irrefl Suc_eq_plus1)
  from Suc.IH [OF this st(2)] st full show ?case by (auto simp: bind_eq_Some_conv split: if_splits)
qed

text \<open>The common end of both functions: the copy of the drained buffer.\<close>

lemma drain_copy:
  assumes "ample A" "length xs < 2 ^ 30" "length xs div CHUNK_SIZE < fuel" "rest z = Some xs"
  shows "\<exists>b0 b blk. la_buffer_new A 1024 = Some b0 \<and> drain_stream A ok step fuel z b0 = Some (Some b) \<and>
    la_buffer_copy A b = Some (Some blk) \<and> mem_read blk 0 (la_buffer_size b) = Some xs"
proof -
  obtain b0 where b0: "la_buffer_new A 1024 = Some b0" "buf_inv b0" "ptr_owned b0" "capacity b0 = 1024" "bsize b0 = 0"
    "buf_content b0 = []"
    using fresh_buffer [OF assms(1), of 1024] by (auto simp: buf_cap_eq)
  obtain b where b: "drain_stream A ok step fuel z b0 = Some (Some b)" "buf_inv b" "buf_content b = xs"
    using drain_all [OF assms(1) b0(2,3) _ _ assms(3,4)] b0(4-6) assms(2) by auto
  have sz: "bsize b = length xs" using b(2,3) by (metis buf_content_length)
  have "grant A (bsize b)" using assms(1,2) sz by (simp add: ample_def)
  then obtain blk where blk: "la_buffer_copy A b = Some (Some blk)" "take (bsize b) blk = xs"
    using la_buffer_copy_spec [OF b(2), of A] b(3) by (auto split: option.splits)
  have "length (take (bsize b) blk) = length xs" unfolding blk(2) by (rule refl)
  then have "bsize b \<le> length blk" using sz by (simp only: length_take)
  then have "mem_read blk 0 (la_buffer_size b) = Some xs"
    using blk(2) by (simp add: mem_read_def la_buffer_size_def)
  with b0(1) b(1) blk(1) show ?thesis by blast
qed

end

section \<open>What zlib promises\<close>

text \<open>
  With room for output a deflating stream gives its compressed form piece by piece, and a stream that
  inflates a compressed form gives the original; \<open>zpack\<close> is the compressed form.
\<close>

locale zlib_lib =
  deflating: z_stream "deflate_op Z" "\<lambda>r. r = Z_OK \<or> r = Z_STREAM_END" packed +
  inflating: z_stream "inflate_op Z" "\<lambda>r. r = Z_OK \<or> r = Z_STREAM_END \<or> r = Z_BUF_ERROR" plain
  for Z :: "'z zlib" and packed plain :: "'z \<Rightarrow> byte list option" +
  fixes zpack :: "byte list \<Rightarrow> byte list"
  assumes deflate_start: "\<exists>z. deflateInit_op Z x = Some z \<and> packed z = Some (zpack x)"
    and inflate_start: "\<exists>z. inflateInit_op Z (zpack x) = Some z \<and> plain z = Some x"
begin

lemma compresses:
  assumes "ample A" "length x < 2 ^ 30" "length (zpack x) < 2 ^ 30" "length (zpack x) div CHUNK_SIZE < fuel"
  shows "\<exists>blk n. zlib_compress A Z fuel x = Some (Some (blk, n)) \<and> mem_read blk 0 n = Some (zpack x)"
proof -
  have "avail_in x = x" using assms(2) by (simp add: avail_in_def)
  with deflate_start obtain z where z: "deflateInit_op Z (avail_in x) = Some z" "packed z = Some (zpack x)" by metis
  from deflating.drain_copy [OF assms(1), of "zpack x" fuel z] assms(3,4) z show ?thesis
    by (fastforce simp: zlib_compress_def)
qed

lemma decompresses:
  assumes "ample A" "length x < 2 ^ 30" "length (zpack x) < 2 ^ 30" "length x div CHUNK_SIZE < fuel"
  shows "\<exists>blk n. zlib_decompress A Z fuel (zpack x) = Some (Some (blk, n)) \<and> mem_read blk 0 n = Some x"
proof -
  have "avail_in (zpack x) = zpack x" using assms(3) by (simp add: avail_in_def)
  with inflate_start obtain z where z: "inflateInit_op Z (avail_in (zpack x)) = Some z" "plain z = Some x" by metis
  from inflating.drain_copy [OF assms(1), of x fuel z] assms(2,4) z show ?thesis
    by (fastforce simp: zlib_decompress_def)
qed

lemma compress_short:
  assumes "length x < 2 ^ 30" "k \<le> length (zpack x) div CHUNK_SIZE"
  shows "zlib_compress A Z k x \<noteq> Some (Some r)"
proof -
  have "avail_in x = x" using assms(1) by (simp add: avail_in_def)
  with deflate_start obtain z where z: "deflateInit_op Z (avail_in x) = Some z" "packed z = Some (zpack x)" by metis
  have "drain_stream A (\<lambda>r. r = Z_OK \<or> r = Z_STREAM_END) (deflate_op Z) k z b \<noteq> Some (Some b')" for b b'
    using deflating.drain_short assms(2) z(2) by simp
  then show ?thesis using z(1) by (auto simp: zlib_compress_def bind_eq_Some_conv split: option.splits)
qed

lemma decompress_short:
  assumes "length (zpack x) < 2 ^ 30" "k \<le> length x div CHUNK_SIZE"
  shows "zlib_decompress A Z k (zpack x) \<noteq> Some (Some r)"
proof -
  have "avail_in (zpack x) = zpack x" using assms(1) by (simp add: avail_in_def)
  with inflate_start obtain z where z: "inflateInit_op Z (avail_in (zpack x)) = Some z" "plain z = Some x" by metis
  have "drain_stream A (\<lambda>r. r = Z_OK \<or> r = Z_STREAM_END \<or> r = Z_BUF_ERROR) (inflate_op Z) k z b \<noteq> Some (Some b')" for b b'
    using inflating.drain_short assms(2) z(2) by simp
  then show ?thesis using z(1) by (auto simp: zlib_decompress_def bind_eq_Some_conv split: option.splits)
qed

lemma compressor_keeps:
  assumes "ample A" "length x < 2 ^ 30" "length (zpack x) < 2 ^ 30" "length x div CHUNK_SIZE < fuel"
    and "length (zpack x) div CHUNK_SIZE < fuel"
  shows "deflate (Some (zlib_compressor A Z fuel)) x = Some (zpack x)"
    and "inflate (Some (zlib_compressor A Z fuel)) (zpack x) = Some x"
  using compresses [OF assms(1-3,5)] decompresses [OF assms(1-4)]
  by (auto simp: deflate_def inflate_def zlib_compressor_def block_bytes_def)

end

text \<open>
  A library that stores: a header byte and the data. Inflating what does not begin with the header is a data
  error (the stream \<open>None\<close>).
\<close>

definition stored_step :: "z_result \<Rightarrow> nat \<Rightarrow> byte list option \<Rightarrow> z_result \<times> byte list \<times> byte list option" where
  "stored_step full n s =
     (case s of
        None \<Rightarrow> (Z_FAILED, [], None)
      | Some z \<Rightarrow> (if length z < n then Z_STREAM_END else full, take n z, Some (drop n z)))"

definition stored_zlib :: "byte list option zlib" where
  "stored_zlib =
     \<lparr>deflateInit_op = (\<lambda>x. Some (Some (0x78 # x))), deflate_op = stored_step Z_OK,
      inflateInit_op = (\<lambda>x. Some (if x \<noteq> [] \<and> hd x = 0x78 then Some (tl x) else None)), inflate_op = stored_step Z_BUF_ERROR\<rparr>"

interpretation stored: zlib_lib stored_zlib "\<lambda>z. z" "\<lambda>z. z" "\<lambda>x. 0x78 # x"
  by unfold_locales (auto simp: stored_zlib_def stored_step_def)

section \<open>Properties\<close>

text \<open>
  C32. The zlib functions return after one step for each full chunk of output and one more, and give
  back what was compressed: \<open>zlib_decompress\<close> of the block \<open>zlib_compress\<close> hands out is the input. With fewer
  steps than that the loop is not over, in both functions. (Sizes below 1 GB; there is memory, and zlib works on
  what it compressed; what it does with other input is open.)
\<close>

theorem zlib_roundtrip:
  assumes "zlib_lib Z packed plain zpack" "ample A" "length x < 2 ^ 30" "length (zpack x) < 2 ^ 30"
    and "length x div CHUNK_SIZE < fuel" "length (zpack x) div CHUNK_SIZE < fuel"
  shows "(\<exists>blk n c blk' n'. zlib_compress A Z fuel x = Some (Some (blk, n)) \<and> mem_read blk 0 n = Some c \<and>
      zlib_decompress A Z fuel c = Some (Some (blk', n')) \<and> mem_read blk' 0 n' = Some x \<and>
      (\<forall>k r. k \<le> length x div CHUNK_SIZE \<longrightarrow> zlib_decompress A Z k c \<noteq> Some (Some r))) \<and>
    (\<forall>k r. k \<le> length (zpack x) div CHUNK_SIZE \<longrightarrow> zlib_compress A Z k x \<noteq> Some (Some r))"
proof -
  obtain blk n where c: "zlib_compress A Z fuel x = Some (Some (blk, n))" "mem_read blk 0 n = Some (zpack x)"
    using zlib_lib.compresses [OF assms(1-4,6)] by blast
  obtain blk' n' where d: "zlib_decompress A Z fuel (zpack x) = Some (Some (blk', n'))" "mem_read blk' 0 n' = Some x"
    using zlib_lib.decompresses [OF assms(1-5)] by blast
  have "zlib_compress A Z k x \<noteq> Some (Some r)" if "k \<le> length (zpack x) div CHUNK_SIZE" for k r
    using zlib_lib.compress_short [OF assms(1,3) that] .
  moreover have "zlib_decompress A Z k (zpack x) \<noteq> Some (Some r)" if "k \<le> length x div CHUNK_SIZE" for k r
    using zlib_lib.decompress_short [OF assms(1,4) that] .
  ultimately show ?thesis using c d by blast
qed

theorem zlib_roundtrip_witness:
  "(\<exists>blk n c blk' n'. zlib_compress exact_allocator stored_zlib 2 (replicate 4096 7) = Some (Some (blk, n)) \<and>
      mem_read blk 0 n = Some c \<and> zlib_decompress exact_allocator stored_zlib 2 c = Some (Some (blk', n')) \<and>
      mem_read blk' 0 n' = Some (replicate 4096 7) \<and> (\<forall>r. zlib_decompress exact_allocator stored_zlib 1 c \<noteq> Some (Some r))) \<and>
   (\<forall>r. zlib_compress exact_allocator stored_zlib 1 (replicate 4096 7) \<noteq> Some (Some r))"
  using zlib_roundtrip [OF stored.zlib_lib_axioms, of exact_allocator "replicate 4096 7" 2]
  by (fastforce simp: CHUNK_SIZE_def)

end
