(* ===== verification/LA_LZ4.thy ===== *)
theory LA_LZ4
  imports LA_API
begin

text \<open>
  The LZ4 decoder (\<open>compress-lz4/lz4/lz4.c\<close>, 64 bits, little endian) at the level of its input and output
  blocks, and the decompression function of \<open>compress-lz4/compress-lz4.c\<close> that calls it with growing
  blocks. Pointers are offsets into their block; comparisons with \<open>oend - 8\<close> and \<open>iend - 8\<close> are written with
  the 8 on the other side. A signed \<open>int\<close> that overflows is \<open>None\<close> like an access outside a block.
  The second half is a decoder on lists, byte by byte, and the proof that both agree.
\<close>

section \<open>The decoder\<close>

definition COPYLENGTH :: nat where "COPYLENGTH = 8"
definition STEPSIZE :: nat where "STEPSIZE = 8"
definition ML_MASK :: nat where "ML_MASK = 15"
definition RUN_MASK :: nat where "RUN_MASK = 15"

text \<open>
  The bound is an \<open>int\<close> in the source; its caller \<open>lz4_compress\<close> and the property of the encoder restrict
  it to values below \<open>2 ^ 31\<close>.
\<close>

definition LZ4_compressBound :: "nat \<Rightarrow> nat" where
  "LZ4_compressBound isize = isize + isize div 255 + 16"

text \<open>The further bytes of a length: 255 means that another one follows.\<close>

function lz4_length :: "byte list \<Rightarrow> nat \<Rightarrow> nat \<Rightarrow> nat \<Rightarrow> (nat \<times> nat) option" where
  "lz4_length src iend ip len =
     (if ip < iend
      then (case mem_read src ip 1 of
              None \<Rightarrow> None
            | Some s \<Rightarrow>
                if len + unat (hd s) \<ge> 2 ^ 31 then None
                else if hd s = 255 then lz4_length src iend (ip + 1) (len + unat (hd s))
                else Some (len + unat (hd s), ip + 1))
      else Some (len, ip))"
  by pat_completeness auto
termination by (relation "measure (\<lambda>(src, iend, ip, len). iend - ip)") auto

declare lz4_length.simps [simp del]

text \<open>A length of a token: its four bits, or more when they are all set.\<close>

definition lz4_run :: "byte list \<Rightarrow> nat \<Rightarrow> nat \<Rightarrow> nat \<Rightarrow> nat \<Rightarrow> (nat \<times> nat) option" where
  "lz4_run src iend full n ip = (if n = full then lz4_length src iend ip full else Some (n, ip))"

text \<open>\<open>LZ4_WILDCOPY\<close> of literals: whole words until \<open>e\<close> is reached.\<close>

function wild_copy_lit :: "byte list \<Rightarrow> byte list \<Rightarrow> nat \<Rightarrow> nat \<Rightarrow> nat \<Rightarrow> (byte list \<times> nat \<times> nat) option" where
  "wild_copy_lit src D ip op e =
     (case Option.bind (mem_read src ip STEPSIZE) (mem_write D op) of
        None \<Rightarrow> None
      | Some D1 \<Rightarrow>
          if op + STEPSIZE < e then wild_copy_lit src D1 (ip + STEPSIZE) (op + STEPSIZE) e
          else Some (D1, ip + STEPSIZE, op + STEPSIZE))"
  by pat_completeness auto
termination by (relation "measure (\<lambda>(src, D, ip, op, e). e - op)") (auto simp: STEPSIZE_def)

declare wild_copy_lit.simps [simp del]

text \<open>The same inside the output.\<close>

function wild_copy :: "byte list \<Rightarrow> nat \<Rightarrow> nat \<Rightarrow> nat \<Rightarrow> (byte list \<times> nat \<times> nat) option" where
  "wild_copy D ref op e =
     (case mem_move D op ref STEPSIZE of
        None \<Rightarrow> None
      | Some D1 \<Rightarrow>
          if op + STEPSIZE < e then wild_copy D1 (ref + STEPSIZE) (op + STEPSIZE) e
          else Some (D1, ref + STEPSIZE, op + STEPSIZE))"
  by pat_completeness auto
termination by (relation "measure (\<lambda>(D, ref, op, e). e - op)") (auto simp: STEPSIZE_def)

declare wild_copy.simps [simp del]

definition secure_copy :: "byte list \<Rightarrow> nat \<Rightarrow> nat \<Rightarrow> nat \<Rightarrow> (byte list \<times> nat \<times> nat) option" where
  "secure_copy D ref op e = (if op < e then wild_copy D ref op e else Some (D, ref, op))"

function byte_copy :: "byte list \<Rightarrow> nat \<Rightarrow> nat \<Rightarrow> nat \<Rightarrow> byte list option" where
  "byte_copy D ref op e =
     (if op < e
      then (case mem_move D op ref 1 of None \<Rightarrow> None | Some D1 \<Rightarrow> byte_copy D1 (ref + 1) (op + 1) e)
      else Some D)"
  by pat_completeness auto
termination by (relation "measure (\<lambda>(D, ref, op, e). e - op)") auto

declare byte_copy.simps [simp del]

definition dec :: "int list" where "dec = [0, 3, 2, 3, 0, 0, 0, 0]"
definition dec2table :: "int list" where "dec2table = [0, 0, 0, -1, 0, 1, 2, 3]"

text \<open>The first eight bytes of a match; a distance below eight is widened to a multiple of at least eight.\<close>

definition first_copy :: "byte list \<Rightarrow> nat \<Rightarrow> nat \<Rightarrow> (byte list \<times> nat \<times> nat) option" where
  "first_copy D ref op =
     (if op - ref < STEPSIZE
      then do {
        D1 \<leftarrow> byte_copy D ref op (op + 4);
        let ref1 = nat (int (ref + 4) - dec ! (op - ref));
        D2 \<leftarrow> mem_move D1 (op + 4) ref1 4;
        Some (D2, nat (int ref1 - dec2table ! (op - ref)), op + STEPSIZE) }
      else do { D1 \<leftarrow> mem_move D op ref STEPSIZE; Some (D1, ref + STEPSIZE, op + STEPSIZE) })"

text \<open>Copying a match; \<open>Inl\<close> is the output error.\<close>

definition copy_match :: "nat \<Rightarrow> byte list \<Rightarrow> nat \<Rightarrow> nat \<Rightarrow> nat \<Rightarrow> (byte list + byte list \<times> nat) option" where
  "copy_match oend D ref op len = do {
     (D1, ref1, op1) \<leftarrow> first_copy D ref op;
     let cpy = op1 + len - (STEPSIZE - 4);
     if cpy + COPYLENGTH > oend
     then if cpy > oend then Some (Inl D1)
          else do {
            (D2, ref2, op2) \<leftarrow> secure_copy D1 ref1 op1 (oend - COPYLENGTH);
            D3 \<leftarrow> byte_copy D2 ref2 op2 cpy;
            Some (Inr (D3, cpy)) }
     else do {
       (D2, _, _) \<leftarrow> secure_copy D1 ref1 op1 cpy;
       Some (Inr (D2, cpy)) } }"

text \<open>One round of the main loop: \<open>Inl\<close> ends it with a result, \<open>Inr\<close> goes on.\<close>

definition lz4_round ::
  "byte list \<Rightarrow> nat \<Rightarrow> nat \<Rightarrow> byte list \<Rightarrow> nat \<Rightarrow> nat \<Rightarrow> (int \<times> byte list + byte list \<times> nat \<times> nat) option" where
  "lz4_round src iend oend D ip op = do {
     t \<leftarrow> mem_read src ip 1;
     let token = unat (hd t);
     (len, ip1) \<leftarrow> lz4_run src iend RUN_MASK (token div 16) (ip + 1);
     if op + len + COPYLENGTH > oend \<or> ip1 + len + COPYLENGTH > iend
     then if op + len > oend \<or> ip1 + len > iend then Some (Inl (- int ip1, D))
          else do {
            xs \<leftarrow> mem_read src ip1 len;
            D1 \<leftarrow> mem_write D op xs;
            Some (Inl (if ip1 + len < iend then - int (ip1 + len) else int (op + len), D1)) }
     else do {
       (D1, ip2, op2) \<leftarrow> wild_copy_lit src D ip1 op (op + len);
       let ip3 = ip2 - (op2 - (op + len));
       o16 \<leftarrow> mem_read src ip3 2;
       if op + len < of_le o16 then Some (Inl (- int (ip3 + 2), D1))
       else do {
         (mlen, ip4) \<leftarrow> lz4_run src iend ML_MASK (token mod 16) (ip3 + 2);
         m \<leftarrow> copy_match oend D1 (op + len - of_le o16) (op + len) mlen;
         Some (case m of
                 Inl D2 \<Rightarrow> Inl (- int ip4, D2)
               | Inr (D2, op3) \<Rightarrow> if op3 = oend then Inl (int op3, D2) else Inr (D2, ip4, op3)) } } }"

lemma lz4_length_mono: "lz4_length src iend ip len = Some (l, ip') \<Longrightarrow> ip \<le> ip'"
  by (induction src iend ip len rule: lz4_length.induct)
    (subst (asm) (2) lz4_length.simps, auto split: if_splits option.splits)

lemma lz4_run_mono: "lz4_run src iend full n ip = Some (l, ip') \<Longrightarrow> ip \<le> ip'"
  by (auto simp: lz4_run_def split: if_splits dest: lz4_length_mono)

lemma wild_copy_lit_mono:
  "wild_copy_lit src D ip op e = Some (D', ip', op') \<Longrightarrow> ip + op' = ip' + op \<and> op < op'"
  by (induction src D ip op e rule: wild_copy_lit.induct)
    (subst (asm) (2) wild_copy_lit.simps, auto split: if_splits option.splits simp: STEPSIZE_def)

lemma lz4_round_progress:
  assumes "lz4_round src iend oend D ip op = Some (Inr (D', ip', op'))"
  shows "ip < ip'"
proof -
  obtain t where t: "mem_read src ip 1 = Some t" using assms by (cases "mem_read src ip 1") (simp_all add: lz4_round_def)
  let ?tok = "unat (hd t)"
  obtain len ip1 where l: "lz4_run src iend RUN_MASK (?tok div 16) (ip + 1) = Some (len, ip1)"
    using assms t by (cases "lz4_run src iend RUN_MASK (?tok div 16) (ip + 1)") (auto simp: lz4_round_def)
  have c: "\<not> (op + len + COPYLENGTH > oend \<or> ip1 + len + COPYLENGTH > iend)"
  proof
    assume "op + len + COPYLENGTH > oend \<or> ip1 + len + COPYLENGTH > iend"
    then show False using assms t l by (simp add: lz4_round_def bind_eq_Some_conv split: if_splits)
  qed
  obtain D1 ip2 op2 where w: "wild_copy_lit src D ip1 op (op + len) = Some (D1, ip2, op2)"
    using assms t l c by (cases "wild_copy_lit src D ip1 op (op + len)") (auto simp: lz4_round_def)
  define ip3 where "ip3 = ip2 - (op2 - (op + len))"
  obtain o16 where o: "mem_read src ip3 2 = Some o16"
    using assms t l c w by (cases "mem_read src ip3 2") (simp_all add: lz4_round_def ip3_def)
  have z: "\<not> op + len < of_le o16"
  proof
    assume "op + len < of_le o16"
    then show False using assms t l c w o by (simp add: lz4_round_def ip3_def)
  qed
  obtain mlen ip4 where m: "lz4_run src iend ML_MASK (?tok mod 16) (ip3 + 2) = Some (mlen, ip4)"
    using assms t l c w o z by (cases "lz4_run src iend ML_MASK (?tok mod 16) (ip3 + 2)") (auto simp: lz4_round_def ip3_def)
  have "ip' = ip4"
    using assms t l c w o z m
    by (cases "copy_match oend D1 (op + len - of_le o16) (op + len) mlen")
      (auto simp: lz4_round_def ip3_def split: sum.splits if_splits)
  moreover have "ip < ip1" using lz4_run_mono [OF l] by simp
  moreover have "ip1 \<le> ip3" using wild_copy_lit_mono [OF w] by (simp add: ip3_def) linarith
  moreover have "ip3 < ip4" using lz4_run_mono [OF m] by simp
  ultimately show ?thesis by linarith
qed

text \<open>The main loop, and the function: its result and the output block.\<close>

function lz4_loop :: "byte list \<Rightarrow> nat \<Rightarrow> nat \<Rightarrow> byte list \<Rightarrow> nat \<Rightarrow> nat \<Rightarrow> (int \<times> byte list) option" where
  "lz4_loop src iend oend D ip op =
     (if ip < iend
      then (case lz4_round src iend oend D ip op of
              None \<Rightarrow> None
            | Some (Inl r) \<Rightarrow> Some r
            | Some (Inr (D', ip', op')) \<Rightarrow> lz4_loop src iend oend D' ip' op')
      else Some (int op, D))"
  by pat_completeness auto
termination
  by (relation "measure (\<lambda>(src, iend, oend, D, ip, op). iend - ip)") (auto dest!: lz4_round_progress)

declare lz4_loop.simps [simp del]

definition LZ4_uncompress_unknownOutputSize :: "byte list \<Rightarrow> byte list \<Rightarrow> nat \<Rightarrow> nat \<Rightarrow> (int \<times> byte list) option" where
  "LZ4_uncompress_unknownOutputSize source dest isize maxOutputSize = lz4_loop source isize maxOutputSize dest 0 0"

section \<open>The decompression function\<close>

text \<open>
  The loop grows the block until the decoder neither fails nor fills it. \<open>alloclen\<close> is an \<open>int\<close>; the first
  \<open>malloc\<close> is not checked. \<open>fuel\<close> bounds the rounds. The inner \<open>None\<close> is NULL.
\<close>

fun lz4_grow ::
  "allocator \<Rightarrow> nat \<Rightarrow> byte list \<Rightarrow> nat \<Rightarrow> byte list \<Rightarrow> int \<Rightarrow> (byte list \<times> nat) option option" where
  "lz4_grow A 0 input alloclen buffer osize = None"
| "lz4_grow A (Suc fuel) input alloclen buffer osize =
     (if osize < 0 \<or> osize = int alloclen
      then if alloclen + 1024 \<ge> 2 ^ 31 then None
           else (case realloc A buffer (alloclen + 1024) of
                   None \<Rightarrow> Some None
                 | Some b \<Rightarrow> do {
                     (osize1, b1) \<leftarrow> LZ4_uncompress_unknownOutputSize input b (length input) (alloclen + 1024);
                     lz4_grow A fuel input (alloclen + 1024) b1 osize1 })
      else Some (Some (buffer, nat osize)))"

definition lz4_decompress :: "allocator \<Rightarrow> nat \<Rightarrow> byte list \<Rightarrow> (byte list \<times> nat) option option" where
  "lz4_decompress A fuel input =
     (let alloclen = length input + length input div 2 in
      if alloclen \<ge> 2 ^ 31 then None
      else do {
        b \<leftarrow> malloc A alloclen;
        (osize, b1) \<leftarrow> LZ4_uncompress_unknownOutputSize input b (length input) alloclen;
        lz4_grow A fuel input alloclen b1 osize })"

section \<open>A decoder on lists\<close>

fun ext_len :: "byte list \<Rightarrow> nat \<Rightarrow> nat \<times> byte list" where
  "ext_len [] n = (n, [])"
| "ext_len (b # r) n = (if b = 255 then ext_len r (n + 255) else (n + unat b, r))"

lemma ext_len_length: "length (snd (ext_len r n)) \<le> length r"
  by (induction r n rule: ext_len.induct) auto

text \<open>A match repeats what was put out \<open>d\<close> bytes before.\<close>

fun copy_back :: "nat \<Rightarrow> byte list \<Rightarrow> nat \<Rightarrow> byte list" where
  "copy_back d out 0 = out"
| "copy_back d out (Suc n) = copy_back d (out @ [out ! (length out - d)]) n"

text \<open>
  A block is decoded to its output, is malformed (for the room \<open>oend\<close>), or names a distance of 0, where
  the output is what the block had before.
\<close>

datatype lz4_result = Decoded "byte list" | Malformed | Zero_distance

definition nibble_len :: "nat \<Rightarrow> byte list \<Rightarrow> nat \<times> byte list" where
  "nibble_len n r = (if n = 15 then ext_len r 15 else (n, r))"

lemma nibble_len_length: "nibble_len n r = (l, r') \<Longrightarrow> length r' \<le> length r"
  using ext_len_length [of r 15] by (auto simp: nibble_len_def split: if_splits)

function lz4_decode :: "nat \<Rightarrow> byte list \<Rightarrow> byte list \<Rightarrow> lz4_result" where
  "lz4_decode oend [] out = Decoded out"
| "lz4_decode oend (token # r) out =
     (case nibble_len (unat token div 16) r of
        (len, r1) \<Rightarrow>
          if length out + len + 8 > oend \<or> len + 8 > length r1
          then if length out + len > oend \<or> length r1 \<noteq> len then Malformed else Decoded (out @ r1)
          else
            let off = of_le (take 2 (drop len r1)) in
            if off > length out + len then Malformed
            else if off = 0 then Zero_distance
            else (case nibble_len (unat token mod 16) (drop (len + 2) r1) of
                    (mlen, r2) \<Rightarrow>
                      if length out + len + mlen + 4 > oend then Malformed
                      else let out' = copy_back off (out @ take len r1) (mlen + 4) in
                           if length out' = oend then Decoded out' else lz4_decode oend r2 out'))"
  by pat_completeness auto
termination
proof (relation "measure (\<lambda>(oend, r, out). length r)", goal_cases)
  case 2
  note prems = 2
  show ?case using nibble_len_length [OF prems(1) [symmetric]] nibble_len_length [OF prems(6) [symmetric]] by simp
qed simp

section \<open>Copying a match\<close>

text \<open>
  From \<open>a\<close> on, the output repeats its \<open>d\<close> bytes at \<open>a\<close>; \<open>filled D0 a d D hi\<close>: the block \<open>D0\<close> has been filled in this
  way up to \<open>hi\<close>.
\<close>

definition per :: "byte list \<Rightarrow> nat \<Rightarrow> nat \<Rightarrow> nat \<Rightarrow> byte" where
  "per D a d i = D ! (a + (i - a) mod d)"

definition filled :: "byte list \<Rightarrow> nat \<Rightarrow> nat \<Rightarrow> byte list \<Rightarrow> nat \<Rightarrow> bool" where
  "filled D0 a d D hi = (length D = length D0 \<and> hi \<le> length D0 \<and> (\<forall>i<a. D ! i = D0 ! i) \<and> (\<forall>i. a \<le> i \<longrightarrow> i < hi \<longrightarrow> D ! i = per D0 a d i))"

lemma per_shift:
  assumes "a \<le> j" "j \<le> i" "d dvd (i - j)"
  shows "per D a d i = per D a d j"
proof -
  have "i - a = (j - a) + (i - j)" using assms by simp
  then have "(i - a) mod d = (j - a) mod d" using assms(3) by (metis mod_add_right_eq dvd_imp_mod_0 add_0_right)
  then show ?thesis by (simp add: per_def)
qed

lemma filled_start: "a + d = op \<Longrightarrow> op \<le> length D \<Longrightarrow> filled D a d D op"
  by (auto simp: filled_def per_def)

lemma filled_less: "filled D0 a d D hi \<Longrightarrow> h \<le> hi \<Longrightarrow> filled D0 a d D h"
  by (auto simp: filled_def)

lemma filled_move:
  assumes "filled D0 a d D op" "a \<le> ref" "ref + k \<le> op" "d dvd (op - ref)" "op + k \<le> length D0"
  shows "\<exists>D'. mem_move D op ref k = Some D' \<and> filled D0 a d D' (op + k)"
proof -
  let ?D = "take op D @ take k (drop ref D) @ drop (op + k) D"
  have len: "length D = length D0" using assms(1) by (simp add: filled_def)
  have mv: "mem_move D op ref k = Some ?D" using assms(3,5) len by (intro mem_move_inside) simp_all
  have "?D ! i = per D0 a d i" if "a \<le> i" "i < op + k" for i
  proof (cases "i < op")
    case True
    then show ?thesis using assms(1,3,5) that len by (simp add: filled_def nth_append)
  next
    case False
    have "length (take k (drop ref D)) = k" "length (take op D) = op" "i - op < k"
      using assms(3,5) that len False by simp_all
    then have "?D ! i = D ! (ref + (i - op))" using False assms(3,5) len by (simp only: nth_append) simp
    also have "\<dots> = per D0 a d (ref + (i - op))" using assms(1,2,3) that False by (simp add: filled_def)
    also have "\<dots> = per D0 a d i" using assms(2-4) False by (intro per_shift [symmetric]) auto
    finally show ?thesis .
  qed
  moreover have "?D ! i = D0 ! i" if "i < a" for i
    using assms(1-3,5) that len by (simp add: filled_def nth_append)
  ultimately show ?thesis using mv assms(3,5) len by (auto simp: filled_def)
qed

lemma wild_filled:
  assumes "filled D0 a d D op" "a \<le> ref" "ref + 8 \<le> op" "d dvd (op - ref)" "op < e" "e + 8 \<le> length D0"
  shows "\<exists>D' ref' op'. wild_copy D ref op e = Some (D', ref', op') \<and> filled D0 a d D' op' \<and> e \<le> op' \<and>
    op' + ref = op + ref' \<and> a \<le> ref' \<and> ref' < op'"
  using assms
proof (induction D ref op e rule: wild_copy.induct)
  case (1 D ref op e)
  obtain D1 where D1: "mem_move D op ref 8 = Some D1" "filled D0 a d D1 (op + 8)"
    using filled_move [OF 1(2-5)] 1(6,7) by auto
  show ?case
  proof (cases "op + 8 < e")
    case True
    have "d dvd (op + 8 - (ref + 8))" using 1(5) by simp
    then obtain D' ref' op' where "wild_copy D1 (ref + 8) (op + 8) e = Some (D', ref', op')" "filled D0 a d D' op'" "e \<le> op'"
      "op' + (ref + 8) = op + 8 + ref'" "a \<le> ref'" "ref' < op'"
      using 1(1) [unfolded STEPSIZE_def, OF D1(1) True D1(2)] 1(3,4,7) True by auto
    then show ?thesis using D1(1) True by (subst wild_copy.simps) (simp add: STEPSIZE_def)
  next
    case False
    then show ?thesis using D1 1(3,4) by (subst wild_copy.simps) (auto simp: STEPSIZE_def)
  qed
qed

lemma byte_filled:
  assumes "filled D0 a d D op" "a \<le> ref" "ref < op" "d dvd (op - ref)" "e \<le> length D0"
  shows "\<exists>D'. byte_copy D ref op e = Some D' \<and> filled D0 a d D' (max op e)"
  using assms
proof (induction D ref op e rule: byte_copy.induct)
  case (1 D ref op e)
  show ?case
  proof (cases "op < e")
    case True
    obtain D1 where D1: "mem_move D op ref 1 = Some D1" "filled D0 a d D1 (op + 1)"
      using filled_move [OF 1(2,3) _ 1(5), of 1] 1(4,6) True by auto
    have "d dvd (op + 1 - (ref + 1))" using 1(5) by simp
    then obtain D' where "byte_copy D1 (ref + 1) (op + 1) e = Some D'" "filled D0 a d D' (max (op + 1) e)"
      using 1(1) [OF True D1] 1(3,4,6) by auto
    then show ?thesis using D1(1) True by (subst byte_copy.simps) (simp add: max_def split: if_splits)
  next
    case False
    then show ?thesis using 1(2) by (subst byte_copy.simps) (simp add: max_def)
  qed
qed

lemma first_copy_filled:
  assumes "a + d = op" "0 < d" "op + 8 \<le> length D"
  shows "\<exists>D' ref'. first_copy D a op = Some (D', ref', op + 8) \<and> filled D a d D' (op + 8) \<and>
    a \<le> ref' \<and> ref' \<le> op \<and> d dvd (op + 8 - ref')"
proof (cases "d < 8")
  case False
  obtain D' where "mem_move D op a 8 = Some D'" "filled D a d D' (op + 8)"
    using filled_move [OF filled_start [OF assms(1)], of D a 8] assms False by auto
  then show ?thesis using assms False by (auto simp: first_copy_def STEPSIZE_def)
next
  case True
  obtain D1 where D1: "byte_copy D a op (op + 4) = Some D1" "filled D a d D1 (op + 4)"
    using byte_filled [OF filled_start [OF assms(1)], of D a "op + 4"] assms by auto
  define ref1 where "ref1 = nat (int (a + 4) - dec ! d)"
  define ref2 where "ref2 = nat (int ref1 - dec2table ! d)"
  have "d \<in> {1, 2, 3, 4, 5, 6, 7}" using True assms(2) by auto
  then have r: "a \<le> ref1" "ref1 + 4 \<le> op + 4" "d dvd (op + 4 - ref1)" "a \<le> ref2" "ref2 \<le> op" "d dvd (op + 8 - ref2)"
    using assms(1) [symmetric] by (auto simp: ref1_def ref2_def dec_def dec2table_def nat_add_distrib)
  have e: "op + 4 + 4 = op + 8" by simp
  obtain D2 where D2: "mem_move D1 (op + 4) ref1 4 = Some D2" "filled D a d D2 (op + 8)"
    using filled_move [OF D1(2) r(1-3)] assms(3) unfolding e by blast
  have od: "op - a = d" using assms(1) by simp
  have r1: "nat (int (a + 4) - dec ! d) = ref1" by (simp add: ref1_def)
  have "first_copy D a op = Some (D2, ref2, op + 8)"
    unfolding first_copy_def STEPSIZE_def od Let_def r1 ref2_def [symmetric] using True D1(1) D2(1) by simp
  then show ?thesis using D2(2) r(4-6) by blast
qed

lemma copy_match_filled:
  assumes "a + d = op" "0 < d" "op + 8 \<le> oend" "oend \<le> length D"
  shows "if op + len + 4 > oend then \<exists>D1. copy_match oend D a op len = Some (Inl D1) \<and> length D1 = length D
    else \<exists>D'. copy_match oend D a op len = Some (Inr (D', op + len + 4)) \<and> filled D a d D' (op + len + 4)"
proof -
  obtain D1 ref1 where f: "first_copy D a op = Some (D1, ref1, op + 8)" "filled D a d D1 (op + 8)" "a \<le> ref1" "ref1 \<le> op"
    "d dvd (op + 8 - ref1)"
    using first_copy_filled [OF assms(1,2)] assms(3,4) by force
  have len: "length D1 = length D" using f(2) by (simp add: filled_def)
  have cpy: "op + 8 + len - (8 - 4) = op + len + 4" by simp
  show ?thesis
  proof (cases "op + len + 4 > oend")
    case True
    then show ?thesis using f(1) len by (simp add: copy_match_def STEPSIZE_def COPYLENGTH_def)
  next
    case ok: False
    show ?thesis
    proof (cases "op + len + 12 > oend")
      case True
      have "\<exists>D2 ref2 op2. secure_copy D1 ref1 (op + 8) (oend - 8) = Some (D2, ref2, op2) \<and> filled D a d D2 op2 \<and>
          a \<le> ref2 \<and> ref2 < op2 \<and> d dvd (op2 - ref2)"
      proof (cases "op + 8 < oend - 8")
        case True
        then obtain D2 ref2 op2 where "wild_copy D1 ref1 (op + 8) (oend - 8) = Some (D2, ref2, op2)" "filled D a d D2 op2"
          "op2 + ref1 = op + 8 + ref2" "a \<le> ref2" "ref2 < op2"
          using wild_filled [OF f(2,3) _ f(5) True] f(4) assms(3,4) by auto
        moreover from this have "op2 - ref2 = op + 8 - ref1" by linarith
        ultimately show ?thesis using f(5) True by (auto simp: secure_copy_def)
      qed (use f assms in \<open>auto simp: secure_copy_def\<close>)
      then obtain D2 ref2 op2 where s: "secure_copy D1 ref1 (op + 8) (oend - 8) = Some (D2, ref2, op2)" "filled D a d D2 op2"
        "a \<le> ref2" "ref2 < op2" "d dvd (op2 - ref2)" by blast
      obtain D3 where "byte_copy D2 ref2 op2 (op + len + 4) = Some D3" "filled D a d D3 (max op2 (op + len + 4))"
        using byte_filled [OF s(2-5), of "op + len + 4"] ok assms(4) by auto
      moreover from this have "filled D a d D3 (op + len + 4)" by (auto intro: filled_less)
      ultimately show ?thesis using ok True f(1) s(1) by (simp add: copy_match_def STEPSIZE_def COPYLENGTH_def Let_def ac_simps)
    next
      case False
      have "\<exists>D2 ref2 op2. secure_copy D1 ref1 (op + 8) (op + len + 4) = Some (D2, ref2, op2) \<and> filled D a d D2 (op + len + 4)"
      proof (cases "op + 8 < op + len + 4")
        case True
        then show ?thesis
          using wild_filled [OF f(2,3) _ f(5) True] f(4) False assms(4) filled_less by (fastforce simp: secure_copy_def)
      qed (use f filled_less in \<open>fastforce simp: secure_copy_def\<close>)
      then show ?thesis using ok False f(1) by (auto simp: copy_match_def STEPSIZE_def COPYLENGTH_def Let_def ac_simps)
    qed
  qed
qed

text \<open>A distance of 0 copies what the block had; the accesses stay inside.\<close>

lemma wild_safe:
  assumes "ref \<le> op" "e + 8 \<le> length D" "op < e"
  shows "\<exists>D' ref' op'. wild_copy D ref op e = Some (D', ref', op') \<and> length D' = length D \<and> op' + ref = op + ref'"
  using assms
proof (induction D ref op e rule: wild_copy.induct)
  case (1 D ref op e)
  obtain D1 where D1: "mem_move D op ref 8 = Some D1" "length D1 = length D"
    using 1(2-4) mem_move_length by (fastforce simp: mem_simps)
  show ?case
  proof (cases "op + 8 < e")
    case True
    then obtain D' ref' op' where "wild_copy D1 (ref + 8) (op + 8) e = Some (D', ref', op')" "length D' = length D1"
      "op' + (ref + 8) = op + 8 + ref'"
      using 1(1) [unfolded STEPSIZE_def, OF D1(1) True] 1(2-4) D1(2) by auto
    then show ?thesis using D1 True by (subst wild_copy.simps) (simp add: STEPSIZE_def)
  next
    case False
    then show ?thesis using D1 by (subst wild_copy.simps) (simp add: STEPSIZE_def)
  qed
qed

lemma byte_safe:
  assumes "ref \<le> op" "e \<le> length D"
  shows "\<exists>D'. byte_copy D ref op e = Some D' \<and> length D' = length D"
  using assms
proof (induction D ref op e rule: byte_copy.induct)
  case (1 D ref op e)
  show ?case
  proof (cases "op < e")
    case True
    obtain D1 where D1: "mem_move D op ref 1 = Some D1" "length D1 = length D"
      using 1(2,3) True mem_move_length by (fastforce simp: mem_simps)
    then show ?thesis using 1(1) [OF True D1(1)] 1(2,3) True by (subst byte_copy.simps) simp
  qed (subst byte_copy.simps, simp)
qed

lemma copy_match_safe:
  assumes "op + 8 \<le> oend" "oend \<le> length D"
  shows "\<exists>x. copy_match oend D op op len = Some x \<and>
    (case x of Inl D' \<Rightarrow> length D' = length D | Inr (D', op') \<Rightarrow> length D' = length D \<and> op' \<le> oend)"
proof -
  obtain D0 where D0: "byte_copy D op op (op + 4) = Some D0" "length D0 = length D"
    using byte_safe [of op op "op + 4" D] assms by auto
  obtain D1 where D1: "mem_move D0 (op + 4) (op + 4) 4 = Some D1" "length D1 = length D"
    using assms D0(2) mem_move_length by (fastforce simp: mem_simps)
  have f: "first_copy D op op = Some (D1, op + 4, op + 8)"
    using D0(1) D1(1) by (simp add: first_copy_def STEPSIZE_def dec_def dec2table_def nat_add_distrib)
  have s: "\<exists>D2 ref2 op2. secure_copy D1 (op + 4) (op + 8) e = Some (D2, ref2, op2) \<and> length D2 = length D \<and> ref2 \<le> op2"
    if le: "e + 8 \<le> oend" for e
  proof (cases "op + 8 < e")
    case True
    then obtain D2 ref2 op2 where "wild_copy D1 (op + 4) (op + 8) e = Some (D2, ref2, op2)" "length D2 = length D1"
      "op2 + (op + 4) = op + 8 + ref2"
      using wild_safe [of "op + 4" "op + 8" e D1] order_trans [OF le assms(2)] D1(2) by auto
    then show ?thesis using True D1(2) by (simp add: secure_copy_def)
  qed (use D1(2) in \<open>simp add: secure_copy_def\<close>)
  obtain D2 ref2 op2 where s1: "secure_copy D1 (op + 4) (op + 8) (oend - 8) = Some (D2, ref2, op2)" "length D2 = length D" "ref2 \<le> op2"
    using s [of "oend - 8"] assms(1) by auto
  show ?thesis
  proof (cases "op + len + 4 > oend")
    case True
    then show ?thesis using f D1(2) by (simp add: copy_match_def STEPSIZE_def COPYLENGTH_def)
  next
    case False
    obtain D3 where D3: "byte_copy D2 ref2 op2 (op + len + 4) = Some D3" "length D3 = length D"
      using byte_safe [OF s1(3), of "op + len + 4" D2] False assms(2) s1(2) by auto
    show ?thesis
    proof (cases "op + len + 12 > oend")
      case True
      then show ?thesis using False f s1(1) D3 by (simp add: copy_match_def STEPSIZE_def COPYLENGTH_def Let_def ac_simps)
    next
      case big: False
      obtain D4 r4 o4 where "secure_copy D1 (op + 4) (op + 8) (op + len + 4) = Some (D4, r4, o4)" "length D4 = length D"
        using s [of "op + len + 4"] big by auto
      then show ?thesis using False big f by (simp add: copy_match_def STEPSIZE_def COPYLENGTH_def Let_def ac_simps)
    qed
  qed
qed

section \<open>Both decoders agree\<close>

lemma copy_back_per:
  assumes "a + d = length out" "0 < d"
  shows "copy_back d (out @ map (per out a d) [length out..<length out + m]) n = out @ map (per out a d) [length out..<length out + m + n]"
proof (induction n arbitrary: m)
  case 0
  show ?case by simp
next
  case (Suc n)
  let ?o = "out @ map (per out a d) [length out..<length out + m]"
  have "?o ! (length ?o - d) = per out a d (length out + m - d)"
  proof (cases "m < d")
    case True
    then have "length out + m - d = a + m" "a + m < length out" using assms by auto
    then show ?thesis using True by (simp add: nth_append per_def)
  next
    case False
    then have "length ?o - d = length out + (m - d)" "m - d < m" "\<not> length out + m - d < length out"
      using assms(2) by simp_all
    then show ?thesis using False by (simp add: nth_append)
  qed
  also have "\<dots> = per out a d (length out + m)" using assms by (intro per_shift [symmetric]) auto
  finally have "?o @ [?o ! (length ?o - d)] = out @ map (per out a d) [length out..<length out + Suc m]" by simp
  then show ?case using Suc [of "Suc m"] by simp
qed

lemma copy_back_length [simp]: "length (copy_back d out n) = length out + n"
  by (induction d out n rule: copy_back.induct) simp_all

lemma filled_take:
  assumes "filled D a d D' (op + n)" "take op D = out" "length out = op" "a + d = op" "0 < d"
  shows "take (op + n) D' = copy_back d out n"
proof -
  have len: "length D' = length D" "op + n \<le> length D" using assms(1) by (simp_all add: filled_def)
  have cb: "copy_back d out n = out @ map (per out a d) [op..<op + n]"
    using copy_back_per [of a d out 0 n] assms(3-5) by simp
  have pd: "per D a d i = per out a d i" for i
  proof -
    have "a + (i - a) mod d < op" using mod_less_divisor [OF assms(5), of "i - a"] assms(4) by linarith
    then show ?thesis unfolding per_def assms(2) [symmetric] by simp
  qed
  have "D' ! i = copy_back d out n ! i" if "i < op + n" for i
  proof (cases "i < op")
    case True
    then have "D' ! i = out ! i"
    proof (cases "i < a")
      case True
      then show ?thesis using assms(1,4) unfolding assms(2) [symmetric] by (simp add: filled_def)
    next
      case False
      then have "D' ! i = per out a d i" using assms(1) that pd by (simp add: filled_def)
      moreover have "(i - a) mod d = i - a" using True assms(4) False by simp
      ultimately show ?thesis using False by (simp add: per_def)
    qed
    then show ?thesis using True assms(3) by (simp add: cb nth_append)
  next
    case False
    then have "D' ! i = per out a d i" using assms(1,4) that pd by (simp add: filled_def)
    then show ?thesis using False that assms(3) by (simp add: cb nth_append)
  qed
  then show ?thesis using len assms(3) by (intro nth_equalityI) simp_all
qed

lemma lz4_length_spec:
  assumes "ip \<le> length src" "len + 255 * (length src - ip) < 2 ^ 31"
  shows "\<exists>ip'. lz4_length src (length src) ip len = Some (fst (ext_len (drop ip src) len), ip') \<and> ip \<le> ip' \<and> ip' \<le> length src \<and>
    snd (ext_len (drop ip src) len) = drop ip' src"
  using assms
proof (induction "length src - ip" arbitrary: ip len)
  case 0
  then show ?case by (subst lz4_length.simps) simp
next
  case (Suc n)
  then have lt: "ip < length src" and n: "n = length src - (ip + 1)" by simp_all
  have dr: "drop ip src = src ! ip # drop (ip + 1) src" using Cons_nth_drop_Suc [OF lt] by simp
  have rd: "mem_read src ip 1 = Some [src ! ip]" using lt dr by (simp add: mem_read_def)
  have u: "unat (src ! ip) \<le> 255" using unsigned_less [where 'a = nat, of "src ! ip"] by simp
  have bound: "len + 255 + 255 * (length src - (ip + 1)) < 2 ^ 31" using Suc.prems(2) lt by (simp add: Suc_diff_Suc [symmetric])
  show ?case
  proof (cases "src ! ip = 255")
    case True
    obtain ip' where "lz4_length src (length src) (ip + 1) (len + 255) = Some (fst (ext_len (drop (ip + 1) src) (len + 255)), ip')"
      "ip + 1 \<le> ip'" "ip' \<le> length src" "snd (ext_len (drop (ip + 1) src) (len + 255)) = drop ip' src"
      using Suc.hyps(1) [OF n _ bound] lt by auto
    then show ?thesis using True lt rd bound unfolding dr by (subst lz4_length.simps) simp
  next
    case False
    then show ?thesis using lt rd bound u unfolding dr by (subst lz4_length.simps) simp
  qed
qed

lemma lz4_run_spec:
  assumes "length src < 2 ^ 23" "ip \<le> length src"
  shows "\<exists>ip' l. lz4_run src (length src) 15 n ip = Some (l, ip') \<and> ip \<le> ip' \<and> ip' \<le> length src \<and>
    nibble_len n (drop ip src) = (l, drop ip' src)"
proof (cases "n = 15")
  case True
  have "15 + 255 * (length src - ip) < 2 ^ 31" using assms(1) by simp
  from lz4_length_spec [OF assms(2) this] True show ?thesis by (auto simp: lz4_run_def nibble_len_def prod_eq_iff)
qed (use assms in \<open>simp add: lz4_run_def nibble_len_def\<close>)

lemma wild_copy_lit_spec:
  assumes "op \<le> e" "ip + (e - op) + 8 \<le> length src" "e + 8 \<le> length D"
  shows "\<exists>D' ip' op'. wild_copy_lit src D ip op e = Some (D', ip', op') \<and> length D' = length D \<and> ip' - (op' - e) = ip + (e - op) \<and>
    take e D' = take op D @ take (e - op) (drop ip src)"
  using assms
proof (induction src D ip op e rule: wild_copy_lit.induct)
  case (1 src D ip op e)
  let ?xs = "take 8 (drop ip src)"
  define D1 where "D1 = take op D @ ?xs @ drop (op + 8) D"
  have xs: "length ?xs = 8" using 1(3) by simp
  have w: "Option.bind (mem_read src ip 8) (mem_write D op) = Some D1"
    using 1(2-4) xs by (simp add: mem_read_def mem_write_def D1_def)
  have len: "length D1 = length D" using 1(2,4) xs by (simp add: D1_def)
  have t8: "take (op + 8) D1 = take op D @ ?xs" using 1(2,4) xs by (simp add: D1_def)
  show ?case
  proof (cases "op + 8 < e")
    case True
    obtain D' ip' op' where r: "wild_copy_lit src D1 (ip + 8) (op + 8) e = Some (D', ip', op')" "length D' = length D1"
      "ip' - (op' - e) = ip + 8 + (e - (op + 8))" "take e D' = take (op + 8) D1 @ take (e - (op + 8)) (drop (ip + 8) src)"
      using 1(1) [unfolded STEPSIZE_def, OF w True] 1(3,4) True len by auto
    have "?xs @ take (e - (op + 8)) (drop (ip + 8) src) = take (e - op) (drop ip src)"
      using True take_add [of 8 "e - (op + 8)" "drop ip src"] by (simp add: add.commute)
    then have "take e D' = take op D @ take (e - op) (drop ip src)" unfolding r(4) t8 by simp
    then show ?thesis using r(1-3) w len True by (subst wild_copy_lit.simps) (simp add: STEPSIZE_def)
  next
    case False
    then have "take e D1 = take op D @ take (e - op) (drop ip src)" using 1(2,4) xs by (simp add: D1_def min_def)
    then show ?thesis using w len False 1(2) by (subst wild_copy_lit.simps) (simp add: STEPSIZE_def)
  qed
qed

definition agrees :: "nat \<Rightarrow> lz4_result \<Rightarrow> int \<Rightarrow> byte list \<Rightarrow> bool" where
  "agrees oend r res D =
     (case r of Decoded o' \<Rightarrow> res = int (length o') \<and> length o' \<le> oend \<and> take (length o') D = o'
      | Malformed \<Rightarrow> res < 0
      | Zero_distance \<Rightarrow> True)"

definition round_agrees ::
  "byte list \<Rightarrow> nat \<Rightarrow> nat \<Rightarrow> lz4_result \<Rightarrow> int \<times> byte list + byte list \<times> nat \<times> nat \<Rightarrow> bool" where
  "round_agrees src oend n r x =
     (case x of
        Inl (res, D') \<Rightarrow> length D' = n \<and> agrees oend r res D'
      | Inr (D', ip', op') \<Rightarrow> ip' \<le> length src \<and> length D' = n \<and> op' \<le> oend \<and>
          (r = Zero_distance \<or> r = lz4_decode oend (drop ip' src) (take op' D')))"

text \<open>The part of a round behind the literals.\<close>

lemma match_agrees:
  assumes "oend \<le> length D" "length out1 + 8 \<le> oend" "take (length out1) D = out1" "0 < off" "off \<le> length out1" "ip4 \<le> length src" "0 < ip4"
  shows "\<exists>m. copy_match oend D (length out1 - off) (length out1) mlen = Some m \<and>
    round_agrees src oend (length D)
      (if length out1 + mlen + 4 > oend then Malformed
       else let out' = copy_back off out1 (mlen + 4) in if length out' = oend then Decoded out' else lz4_decode oend (drop ip4 src) out')
      (case m of Inl D2 \<Rightarrow> Inl (- int ip4, D2)
               | Inr (D2, op3) \<Rightarrow> if op3 = oend then Inl (int op3, D2) else Inr (D2, ip4, op3))"
proof -
  have ad: "length out1 - off + off = length out1" using assms(5) by simp
  note cm = copy_match_filled [OF ad assms(4,2,1), of mlen]
  show ?thesis
  proof (cases "length out1 + mlen + 4 > oend")
    case True
    then obtain D1 where "copy_match oend D (length out1 - off) (length out1) mlen = Some (Inl D1)" "length D1 = length D"
      using cm by auto
    then show ?thesis using True assms(7) by (simp add: round_agrees_def agrees_def)
  next
    case False
    then obtain D' where D': "copy_match oend D (length out1 - off) (length out1) mlen = Some (Inr (D', length out1 + (mlen + 4)))"
      "filled D (length out1 - off) off D' (length out1 + (mlen + 4))"
      using cm by (auto simp: ac_simps)
    have t: "take (length out1 + (mlen + 4)) D' = copy_back off out1 (mlen + 4)"
      by (rule filled_take [OF D'(2) assms(3) refl ad assms(4)])
    have len: "length D' = length D" using D'(2) by (simp add: filled_def)
    show ?thesis
    proof (cases "length out1 + (mlen + 4) = oend")
      case True
      then show ?thesis using D'(1) t len False by (simp add: round_agrees_def agrees_def)
    next
      case ne: False
      then show ?thesis using D'(1) t len False assms(6) by (simp add: round_agrees_def)
    qed
  qed
qed

lemma lz4_round_refines:
  assumes "length src < 2 ^ 23" "oend \<le> length D" "length out \<le> oend" "take (length out) D = out" "ip < length src"
  shows "\<exists>x. lz4_round src (length src) oend D ip (length out) = Some x \<and>
    round_agrees src oend (length D) (lz4_decode oend (drop ip src) out) x"
proof -
  define tok where "tok = src ! ip"
  define r0 where "r0 = drop (ip + 1) src"
  have dr: "drop ip src = tok # r0" using Cons_nth_drop_Suc [OF assms(5)] by (simp add: tok_def r0_def)
  have rd: "mem_read src ip 1 = Some [tok]" using assms(5) dr by (simp add: mem_read_def)
  obtain ip1 len where l: "lz4_run src (length src) 15 (unat tok div 16) (ip + 1) = Some (len, ip1)" "ip + 1 \<le> ip1" "ip1 \<le> length src"
    "nibble_len (unat tok div 16) r0 = (len, drop ip1 src)"
    using lz4_run_spec [OF assms(1), of "ip + 1" "unat tok div 16"] assms(5) by (auto simp: r0_def)
  note run = rd l(1)
  note step = RUN_MASK_def ML_MASK_def COPYLENGTH_def
  note ref = dr l(4)
  let ?op = "length out"
  show ?thesis
  proof (cases "?op + len + 8 > oend \<or> ip1 + len + 8 > length src")
    case final: True
    show ?thesis
    proof (cases "?op + len > oend \<or> ip1 + len > length src")
      case True
      then have "lz4_decode oend (drop ip src) out = Malformed" using final l(3) by (auto simp: ref)
      then show ?thesis using True final l(2) run by (auto simp: lz4_round_def step round_agrees_def agrees_def)
    next
      case False
      let ?xs = "take len (drop ip1 src)"
      have xs: "mem_read src ip1 len = Some ?xs" "length ?xs = len" using False by (auto simp: mem_read_def)
      obtain D1 where D1: "mem_write D ?op ?xs = Some D1" "length D1 = length D" "take (?op + len) D1 = out @ ?xs"
        using False assms(2-4) xs(2) by (auto simp: mem_write_def)
      have r: "lz4_round src (length src) oend D ip ?op =
          Some (Inl (if ip1 + len < length src then - int (ip1 + len) else int (?op + len), D1))"
        using final False xs(1) D1(1) run by (simp add: lz4_round_def step)
      show ?thesis
      proof (cases "ip1 + len < length src")
        case True
        then have "lz4_decode oend (drop ip src) out = Malformed" using final False l(3) by (auto simp: ref)
        then show ?thesis using r True l(2) D1(2) by (simp add: round_agrees_def agrees_def)
      next
        case end': False
        then have "length (drop ip1 src) = len" using False l(3) by simp
        then have "lz4_decode oend (drop ip src) out = Decoded (out @ ?xs)" using final False l(3) by (auto simp: ref)
        then show ?thesis using r end' D1 xs(2) False by (simp add: round_agrees_def agrees_def)
      qed
    qed
  next
    case inner: False
    define out1 where "out1 = out @ take len (drop ip1 src)"
    have o1: "length out1 = ?op + len" using inner by (auto simp: out1_def)
    obtain D1 ip2 op2 where w: "wild_copy_lit src D ip1 ?op (?op + len) = Some (D1, ip2, op2)" "length D1 = length D"
      "ip2 - (op2 - (?op + len)) = ip1 + len" "take (?op + len) D1 = out1"
      using wild_copy_lit_spec [of ?op "?op + len" ip1 src D] inner assms(2,4) by (auto simp: out1_def)
    define off where "off = of_le (take 2 (drop len (drop ip1 src)))"
    have "mem_read src (ip1 + len) 2 = Some (take 2 (drop len (drop ip1 src)))"
      using inner by (simp add: mem_read_def add.commute)
    then obtain o2 where o16: "mem_read src (ip1 + len) 2 = Some o2" "of_le o2 = off" by (simp add: off_def)
    obtain ip4 mlen where m: "lz4_run src (length src) 15 (unat tok mod 16) (ip1 + len + 2) = Some (mlen, ip4)" "ip1 + len + 2 \<le> ip4"
      "ip4 \<le> length src" "nibble_len (unat tok mod 16) (drop (ip1 + len + 2) src) = (mlen, drop ip4 src)"
      using lz4_run_spec [OF assms(1), of "ip1 + len + 2" "unat tok mod 16"] inner by auto
    have m4: "nibble_len (unat tok mod 16) (drop (len + 2) (drop ip1 src)) = (mlen, drop ip4 src)"
      using m(4) by (simp add: ac_simps)
    have room0: "\<not> (length out + len + 8 > oend \<or> len + 8 > length (drop ip1 src))" using inner by auto
    have dec: "lz4_decode oend (drop ip src) out =
        (if off > length out1 then Malformed else if off = 0 then Zero_distance
         else if length out1 + mlen + 4 > oend then Malformed
         else let out' = copy_back off out1 (mlen + 4) in if length out' = oend then Decoded out' else lz4_decode oend (drop ip4 src) out')"
      unfolding dr lz4_decode.simps(2) l(4) prod.case if_not_P [OF room0] Let_def off_def [symmetric] out1_def [symmetric] m4
      by (simp add: o1)
    show ?thesis
    proof (cases "off > length out1")
      case True
      then show ?thesis using inner w o16 o1 run by (simp add: lz4_round_def step dec round_agrees_def agrees_def Let_def)
    next
      case le: False
      have r: "lz4_round src (length src) oend D ip ?op = map_option
          (\<lambda>m. case m of Inl D2 \<Rightarrow> Inl (- int ip4, D2) | Inr (D2, op3) \<Rightarrow> if op3 = oend then Inl (int op3, D2) else Inr (D2, ip4, op3))
          (copy_match oend D1 (length out1 - off) (length out1) mlen)"
        using inner w o16 o1 le m(1) run
        by (cases "copy_match oend D1 (length out1 - off) (length out1) mlen") (simp_all add: lz4_round_def step Let_def)
      have room: "length out1 + 8 \<le> oend" "oend \<le> length D1" using inner o1 assms(2) w(2) by simp_all
      show ?thesis
      proof (cases "off = 0")
        case True
        obtain x where "copy_match oend D1 (length out1 - off) (length out1) mlen = Some x"
          "case x of Inl D' \<Rightarrow> length D' = length D1 | Inr (D', op') \<Rightarrow> length D' = length D1 \<and> op' \<le> oend"
          using copy_match_safe [OF room, of mlen] True by auto
        then show ?thesis unfolding r dec using True w(2) m(3)
          by (auto simp: round_agrees_def agrees_def split: sum.splits)
      next
        case False
        obtain x where "copy_match oend D1 (length out1 - off) (length out1) mlen = Some x" "round_agrees src oend (length D1)
            (if length out1 + mlen + 4 > oend then Malformed
             else let out' = copy_back off out1 (mlen + 4) in if length out' = oend then Decoded out' else lz4_decode oend (drop ip4 src) out')
            (case x of Inl D2 \<Rightarrow> Inl (- int ip4, D2) | Inr (D2, op3) \<Rightarrow> if op3 = oend then Inl (int op3, D2) else Inr (D2, ip4, op3))"
          using match_agrees [OF room(2,1), of off ip4 src mlen] False le m(2,3) w(4) o1 by auto
        then show ?thesis unfolding r dec using False le w(2) by (simp add: if_not_P)
      qed
    qed
  qed
qed

lemma lz4_loop_refines:
  assumes "length src < 2 ^ 23" "oend \<le> length D" "op \<le> oend" "ip \<le> length src"
  shows "\<exists>res D'. lz4_loop src (length src) oend D ip op = Some (res, D') \<and> length D' = length D \<and>
    agrees oend (lz4_decode oend (drop ip src) (take op D)) res D'"
  using assms
proof (induction "length src - ip" arbitrary: D ip op rule: less_induct)
  case less
  show ?case
  proof (cases "ip < length src")
    case False
    then show ?thesis using less.prems by (subst lz4_loop.simps) (simp add: agrees_def)
  next
    case True
    have lo: "length (take op D) = op" using less.prems(2,3) by simp
    obtain x where x: "lz4_round src (length src) oend D ip op = Some x"
      "round_agrees src oend (length D) (lz4_decode oend (drop ip src) (take op D)) x"
      using lz4_round_refines [OF less.prems(1,2), of "take op D" ip] less.prems(3) True lo by auto
    show ?thesis
    proof (cases x)
      case (Inl p)
      then show ?thesis using x True by (cases p) (subst lz4_loop.simps, simp add: round_agrees_def)
    next
      case (Inr q)
      then obtain D' ip' op' where q: "x = Inr (D', ip', op')" by (cases q) auto
      have lt: "ip < ip'" using lz4_round_progress x(1) q by blast
      then have meas: "length src - ip' < length src - ip" using True by simp
      have st: "ip' \<le> length src" "length D' = length D" "op' \<le> oend"
        "lz4_decode oend (drop ip src) (take op D) = Zero_distance \<or>
         lz4_decode oend (drop ip src) (take op D) = lz4_decode oend (drop ip' src) (take op' D')"
        using x(2) q by (simp_all add: round_agrees_def)
      obtain res D2 where "lz4_loop src (length src) oend D' ip' op' = Some (res, D2)" "length D2 = length D'"
        "agrees oend (lz4_decode oend (drop ip' src) (take op' D')) res D2"
        using less.hyps [OF meas less.prems(1), of D' op'] st(1-3) less.prems(2) by auto
      then show ?thesis using st(2,4) x(1) q True by (subst lz4_loop.simps) (auto simp: agrees_def)
    qed
  qed
qed

lemma uncompress_agrees:
  assumes "length src < 2 ^ 23" "oend \<le> length D"
  shows "\<exists>res D'. LZ4_uncompress_unknownOutputSize src D (length src) oend = Some (res, D') \<and> length D' = length D \<and>
    agrees oend (lz4_decode oend src []) res D'"
  using lz4_loop_refines [OF assms, of 0 0] by (simp add: LZ4_uncompress_unknownOutputSize_def)

section \<open>Growing the output block\<close>

lemma decode_extends: "lz4_decode oend inp out = Decoded x \<Longrightarrow> length out \<le> length x"
proof (induction oend inp out rule: lz4_decode.induct)
  case (1 oend out)
  then show ?case by simp
next
  case (2 oend tok r out)
  obtain len r1 where n: "nibble_len (unat tok div 16) r = (len, r1)" by fastforce
  show ?case
  proof (cases "length out + len + 8 > oend \<or> len + 8 > length r1")
    case True
    then show ?thesis using 2(2) n by (auto split: if_splits)
  next
    case False
    define off where "off = of_le (take 2 (drop len r1))"
    obtain mlen r2 where m: "nibble_len (unat tok mod 16) (drop (len + 2) r1) = (mlen, r2)" by fastforce
    define out' where "out' = copy_back off (out @ take len r1) (mlen + 4)"
    have o: "\<not> off > length out + len" "off \<noteq> 0" "\<not> length out + len + mlen + 4 > oend"
      using 2(2) False n m by (auto simp: Let_def simp flip: off_def split: if_splits)
    have e: "lz4_decode oend (tok # r) out = (if length out' = oend then Decoded out' else lz4_decode oend r2 out')"
      using False o n m by (simp add: Let_def flip: off_def out'_def)
    have ge: "length out \<le> length out'" by (simp add: out'_def)
    show ?thesis
    proof (cases "length out' = oend")
      case True
      then show ?thesis using 2(2) ge unfolding e by simp
    next
      case ne: False
      have "length out' \<le> length x"
        using 2(1) [OF n [symmetric] False off_def o(1,2) m [symmetric] o(3) out'_def ne] 2(2) ne unfolding e by simp
      then show ?thesis using ge by simp
    qed
  qed
qed

text \<open>
  When a block decodes to less than the room \<open>M\<close>, then with any other room it decodes to the same, or is
  malformed, or fills the room; with eight bytes more than the output it decodes to the same.
\<close>

lemma decode_other_room:
  assumes "lz4_decode M inp out = Decoded x" "length x < M"
  shows "(lz4_decode oend inp out = Decoded x \<or> lz4_decode oend inp out = Malformed \<or>
      (\<exists>y. lz4_decode oend inp out = Decoded y \<and> length y = oend)) \<and>
    (length x + 8 \<le> oend \<longrightarrow> lz4_decode oend inp out = Decoded x)"
  using assms
proof (induction M inp out rule: lz4_decode.induct)
  case (1 M out)
  then show ?case by simp
next
  case (2 M tok r out)
  obtain len r1 where n: "nibble_len (unat tok div 16) r = (len, r1)" by fastforce
  show ?case
  proof (cases "length out + len + 8 > M \<or> len + 8 > length r1")
    case True
    then have x: "length r1 = len" "x = out @ r1" using 2(2) n by (auto split: if_splits)
    then show ?thesis by (auto simp: n)
  next
    case False
    define off where "off = of_le (take 2 (drop len r1))"
    obtain mlen r2 where m: "nibble_len (unat tok mod 16) (drop (len + 2) r1) = (mlen, r2)" by fastforce
    define out' where "out' = copy_back off (out @ take len r1) (mlen + 4)"
    have o: "\<not> off > length out + len" "off \<noteq> 0" "\<not> length out + len + mlen + 4 > M"
      using 2(2) False n m by (auto simp: Let_def simp flip: off_def split: if_splits)
    have e: "lz4_decode M (tok # r) out = (if length out' = M then Decoded out' else lz4_decode M r2 out')"
      using False o n m by (simp add: Let_def flip: off_def out'_def)
    have ne: "length out' \<noteq> M" using 2(2,3) unfolding e by auto
    then have d: "lz4_decode M r2 out' = Decoded x" using 2(2) unfolding e by simp
    have lx: "length out' \<le> length x" using decode_extends [OF d] .
    have lo: "length out' = length out + len + mlen + 4" using False by (simp add: out'_def)
    have at: "lz4_decode oend (tok # r) out =
        (if length out + len + 8 > oend \<or> length out' > oend then Malformed
         else if length out' = oend then Decoded out' else lz4_decode oend r2 out')"
      using False o lo n m by (auto simp: Let_def simp flip: off_def out'_def)
    note ih = 2(1) [OF n [symmetric] False off_def o(1,2) m [symmetric] o(3) out'_def ne d 2(3)]
    show ?thesis unfolding at using ih lx lo by auto
  qed
qed

lemma grow_returns:
  assumes "lz4_decode M c [] = Decoded x" "length x < M" "length c < 2 ^ 23" "length x < 2 ^ 30" "ample A"
    and "n \<le> length buf" "agrees n (lz4_decode n c []) osize buf" "length x + 8 \<le> n + 1024 * fuel"
  shows "\<exists>blk. lz4_grow A (Suc fuel) c n buf osize = Some (Some (blk, length x)) \<and> take (length x) blk = x"
  using assms(6-8)
proof (induction fuel arbitrary: n buf osize)
  case 0
  then have "lz4_decode n c [] = Decoded x" using decode_other_room [OF assms(1,2)] by simp
  then show ?case using 0 by (simp add: agrees_def)
next
  case (Suc fuel)
  show ?case
  proof (cases "osize < 0 \<or> osize = int n")
    case True
    have small: "n < length x + 8"
    proof (rule ccontr)
      assume "\<not> n < length x + 8"
      then have "lz4_decode n c [] = Decoded x" "length x \<noteq> n" using decode_other_room [OF assms(1,2)] by auto
      then show False using True Suc.prems(2) by (simp add: agrees_def)
    qed
    have "grant A (n + 1024)" using small assms(4,5) by (simp add: ample_def)
    then obtain b where b: "realloc A buf (n + 1024) = Some b" "n + 1024 \<le> length b"
      using realloc_granted by blast
    obtain osize1 b1 where u: "LZ4_uncompress_unknownOutputSize c b (length c) (n + 1024) = Some (osize1, b1)" "length b1 = length b"
      "agrees (n + 1024) (lz4_decode (n + 1024) c []) osize1 b1"
      using uncompress_agrees [OF assms(3) b(2)] by blast
    have "length x + 8 \<le> n + 1024 + 1024 * fuel" "n + 1024 \<le> length b1" using Suc.prems(3) b(2) u(2) by simp_all
    from Suc.IH [OF this(2) u(3) this(1)] show ?thesis using True small assms(4) b(1) u(1) by simp
  next
    case False
    have "lz4_decode n c [] = Decoded x"
      using decode_other_room [OF assms(1,2), of n] Suc.prems(2) False by (auto simp: agrees_def)
    then show ?thesis using False Suc.prems(2) by (simp add: agrees_def)
  qed
qed

lemma grow_malformed:
  assumes "\<And>m. lz4_decode m c [] = Malformed" "length c < 2 ^ 23" "\<And>m. m < 2 ^ 31 \<Longrightarrow> grant A m" "osize < 0"
  shows "lz4_grow A fuel c n buf osize = None"
  using assms(4)
proof (induction fuel arbitrary: n buf osize)
  case 0
  show ?case by simp
next
  case (Suc fuel)
  show ?case
  proof (cases "n + 1024 < 2 ^ 31")
    case False
    then show ?thesis using Suc.prems by simp
  next
    case True
    then have g: "grant A (n + 1024)" by (rule assms(3))
    then obtain b where b: "realloc A buf (n + 1024) = Some b" "n + 1024 \<le> length b"
      using realloc_granted by blast
    obtain osize1 b1 where u: "LZ4_uncompress_unknownOutputSize c b (length c) (n + 1024) = Some (osize1, b1)" "osize1 < 0"
      using uncompress_agrees [OF assms(2) b(2)] by (auto simp: agrees_def assms(1))
    then show ?thesis using Suc.IH [OF u(2)] Suc.prems True b(1) by simp
  qed
qed

lemma decompress_returns:
  assumes "lz4_decode M c [] = Decoded x" "length x < M" "length c < 2 ^ 23" "length x < 2 ^ 30" "ample A"
    and "length x + 8 \<le> 1024 * fuel"
  shows "\<exists>blk. lz4_decompress A (Suc fuel) c = Some (Some (blk, length x)) \<and> take (length x) blk = x"
proof -
  let ?n = "length c + length c div 2"
  have n: "?n < 2 ^ 31" "grant A ?n" using assms(3,5) by (simp_all add: ample_def)
  then obtain b where b: "malloc A ?n = Some b" "?n \<le> length b" using malloc_granted by blast
  obtain osize b1 where u: "LZ4_uncompress_unknownOutputSize c b (length c) ?n = Some (osize, b1)" "length b1 = length b"
    "agrees ?n (lz4_decode ?n c []) osize b1"
    using uncompress_agrees [OF assms(3) b(2)] by blast
  have "?n \<le> length b1" "length x + 8 \<le> ?n + 1024 * fuel" using b(2) u(2) assms(6) by simp_all
  from grow_returns [OF assms(1-5) this(1) u(3) this(2)] show ?thesis
    using n(1) b(1) u(1) by (simp add: lz4_decompress_def Let_def)
qed

section \<open>Properties\<close>

text \<open>
  C7. For every input below \<open>2 ^ 23\<close> bytes, well-formed or not, and any room for the output, the LZ4 decoder returns and
  every access stays inside the input and the output block. Its result is that of the decoder on
  lists: the length of the output, which is then at the start of the block, or a negative number for
  a malformed input. (For an input with a distance of 0, which no encoder gives, nothing is said about the result.
  A longer input can have a length that is no \<open>int\<close>.)
\<close>

theorem lz4_decoder_correct:
  assumes "length src < 2 ^ 23" "oend \<le> length D"
  shows "\<exists>res D'. LZ4_uncompress_unknownOutputSize src D (length src) oend = Some (res, D') \<and> length D' = length D \<and>
    (case lz4_decode oend src [] of
       Decoded x \<Rightarrow> res = int (length x) \<and> length x \<le> oend \<and> take (length x) D' = x
     | Malformed \<Rightarrow> res < 0
     | Zero_distance \<Rightarrow> True)"
  using uncompress_agrees [OF assms] by (simp add: agrees_def)

text \<open>One literal, a match of nine bytes at distance 1, and five literals.\<close>

definition lz4_example :: "byte list" where
  "lz4_example = [0x15, 0x61, 1, 0, 0x50, 0x62, 0x63, 0x64, 0x65, 0x66]"

lemma lz4_example_decodes: "lz4_decode 64 lz4_example [] = Decoded (replicate 10 0x61 @ [0x62, 0x63, 0x64, 0x65, 0x66])"
  by code_simp

theorem lz4_decoder_correct_witness:
  "\<exists>D'. LZ4_uncompress_unknownOutputSize lz4_example (replicate 64 0) 10 64 = Some (15, D') \<and>
    take 15 D' = replicate 10 0x61 @ [0x62, 0x63, 0x64, 0x65, 0x66]"
proof -
  have n: "length lz4_example = 10" by (simp add: lz4_example_def)
  show ?thesis using lz4_decoder_correct [of lz4_example 64 "replicate 64 0"] unfolding n
    by (auto simp: lz4_example_decodes)
qed

text \<open>
  \<open>lz4_decompress\<close> returns for every well-formed block: after at most one round for each 1024 bytes of
  output it hands out a block with the output and its length. For a block that is malformed whatever
  the room, the loop ends only by a refused allocation or the overflow of its \<open>int\<close>.
\<close>

theorem lz4_decompress_returns:
  assumes "lz4_decode M c [] = Decoded x" "length x < M" "length c < 2 ^ 23" "length x < 2 ^ 30" "ample A"
    and "length x + 8 \<le> 1024 * fuel"
  shows "\<exists>blk. lz4_decompress A (Suc fuel) c = Some (Some (blk, length x)) \<and> take (length x) blk = x"
  by (rule decompress_returns [OF assms])

theorem lz4_decompress_returns_witness:
  "\<exists>blk. lz4_decompress exact_allocator 2 lz4_example = Some (Some (blk, 15)) \<and>
    take 15 blk = replicate 10 0x61 @ [0x62, 0x63, 0x64, 0x65, 0x66]"
proof -
  have "length lz4_example < 2 ^ 23" by (simp add: lz4_example_def)
  from lz4_decompress_returns [OF lz4_example_decodes _ this, of exact_allocator 1]
  have "\<exists>blk. lz4_decompress exact_allocator (Suc (Suc 0)) lz4_example = Some (Some (blk, 15)) \<and>
    take 15 blk = replicate 10 0x61 @ [0x62, 0x63, 0x64, 0x65, 0x66]" by simp
  then show ?thesis by (fold numeral_2_eq_2)
qed

text \<open>A malformed block: when memory never runs out, no number of rounds ends the loop.\<close>

lemma lz4_decompress_malformed:
  assumes "\<And>m. lz4_decode m c [] = Malformed" "length c < 2 ^ 23" "\<And>m. m < 2 ^ 31 \<Longrightarrow> grant A m"
  shows "lz4_decompress A fuel c = None"
proof -
  let ?n = "length c + length c div 2"
  have n: "?n < 2 ^ 31" using assms(2) by simp
  then obtain b where b: "malloc A ?n = Some b" "?n \<le> length b" using assms(3) malloc_granted by blast
  obtain osize b1 where u: "LZ4_uncompress_unknownOutputSize c b (length c) ?n = Some (osize, b1)" "osize < 0"
    using uncompress_agrees [OF assms(2) b(2)] by (auto simp: agrees_def assms(1))
  show ?thesis using grow_malformed [OF assms u(2)] n b(1) u(1) by (simp add: lz4_decompress_def Let_def)
qed

end
