(* ===== verification/LA_LZ4_Encode.thy ===== *)
theory LA_LZ4_Encode
  imports LA_LZ4 LA_Compress
begin

unbundle bit_operations_syntax

text \<open>
  The LZ4 encoder (\<open>compress-lz4/lz4/lz4.c\<close>, 64 bits, little endian, hash table on the stack) at the level
  of its input and output blocks, and the compression function of \<open>compress-lz4/compress-lz4.c\<close>. The gotos of
  the two encoders are a machine with a state for each label. Pointers are offsets into their block,
  and comparisons with \<open>ip - MAX_DISTANCE\<close> are written with the distance on the other side.
\<close>

section \<open>Constants and state\<close>

definition MINMATCH :: nat where "MINMATCH = 4"
definition LASTLITERALS :: nat where "LASTLITERALS = 5"
definition MFLIMIT :: nat where "MFLIMIT = COPYLENGTH + MINMATCH"
definition MINLENGTH :: nat where "MINLENGTH = MFLIMIT + 1"
definition SKIPSTRENGTH :: nat where "SKIPSTRENGTH = 6"
definition MAX_DISTANCE :: nat where "MAX_DISTANCE = 2 ^ 16 - 1"
definition LZ4_64KLIMIT :: nat where "LZ4_64KLIMIT = 2 ^ 16 + (MFLIMIT - 1)"

text \<open>
  The encoder for inputs below 64 KB has a larger table of smaller entries and does not look at
  distances.
\<close>

record lz4_variant =
  hash_log :: nat
  entry_bits :: nat
  check_distance :: bool

definition variant_any :: lz4_variant where
  "variant_any = \<lparr>hash_log = 12, entry_bits = 32, check_distance = True\<rparr>"

definition variant_64k :: lz4_variant where
  "variant_64k = \<lparr>hash_log = 13, entry_bits = 16, check_distance = False\<rparr>"

datatype lz4_label = Main_loop | Next_match | Last_literals

record lz4_encoder =
  e_dest :: "byte list"
  e_table :: "nat list"
  e_ip :: nat
  e_anchor :: nat
  e_op :: nat
  e_ref :: nat
  e_token :: nat
  e_forwardH :: nat

section \<open>Searching\<close>

definition LZ4_HASH_VALUE :: "lz4_variant \<Rightarrow> byte list \<Rightarrow> nat \<Rightarrow> nat option" where
  "LZ4_HASH_VALUE V src p =
     map_option (\<lambda>b. of_le b * 2654435761 mod 2 ^ 32 div 2 ^ (32 - hash_log V)) (mem_read src p 4)"

definition table_set :: "lz4_variant \<Rightarrow> nat list \<Rightarrow> nat \<Rightarrow> nat \<Rightarrow> nat list" where
  "table_set V tab h p = tab[h := p mod 2 ^ entry_bits V]"

text \<open>Whether \<open>n\<close> bytes at two places are the same.\<close>

definition same_at :: "byte list \<Rightarrow> nat \<Rightarrow> nat \<Rightarrow> nat \<Rightarrow> bool option" where
  "same_at src ref ip n = do { a \<leftarrow> mem_read src ref n; b \<leftarrow> mem_read src ip n; Some (a = b) }"

text \<open>Whether a candidate is of use: near enough, and with the same four bytes.\<close>

definition candidate :: "lz4_variant \<Rightarrow> byte list \<Rightarrow> nat \<Rightarrow> nat \<Rightarrow> bool option" where
  "candidate V src ref ip =
     (if check_distance V \<and> ref + MAX_DISTANCE < ip then Some False else same_at src ref ip 4)"

text \<open>
  The search, \<open>n\<close> positions after its start: the steps grow. The inner \<open>None\<close> is the jump to the last
  literals, otherwise it gives \<open>ip\<close>, \<open>ref\<close> and the table.
\<close>

function find_match ::
  "lz4_variant \<Rightarrow> byte list \<Rightarrow> nat \<Rightarrow> nat list \<Rightarrow> nat \<Rightarrow> nat \<Rightarrow> nat \<Rightarrow> (nat \<times> nat \<times> nat list) option option" where
  "find_match V src isize tab n ip h =
     (let forwardIp = ip + (2 ^ SKIPSTRENGTH + 3 + n) div 2 ^ SKIPSTRENGTH in
      if forwardIp + MFLIMIT > isize then Some None
      else (case LZ4_HASH_VALUE V src forwardIp of
              None \<Rightarrow> None
            | Some forwardH \<Rightarrow>
                (case candidate V src (tab ! h) ip of
                   None \<Rightarrow> None
                 | Some True \<Rightarrow> Some (Some (ip, tab ! h, table_set V tab h ip))
                 | Some False \<Rightarrow> find_match V src isize (table_set V tab h ip) (n + 1) forwardIp forwardH)))"
  by pat_completeness auto
termination
  by (relation "measure (\<lambda>(V, src, isize, tab, n, ip, h). isize - ip)") (auto simp: SKIPSTRENGTH_def MFLIMIT_def COPYLENGTH_def)

declare find_match.simps [simp del]

text \<open>\<open>Catch up\<close>: the match is extended to the left.\<close>

function catch_up :: "byte list \<Rightarrow> nat \<Rightarrow> nat \<Rightarrow> nat \<Rightarrow> (nat \<times> nat) option" where
  "catch_up src anchor ip ref =
     (if ip > anchor \<and> ref > 0
      then (case same_at src (ref - 1) (ip - 1) 1 of
              None \<Rightarrow> None
            | Some True \<Rightarrow> catch_up src anchor (ip - 1) (ref - 1)
            | Some False \<Rightarrow> Some (ip, ref))
      else Some (ip, ref))"
  by pat_completeness auto
termination by (relation "measure (\<lambda>(src, anchor, ip, ref). ip)") auto

declare catch_up.simps [simp del]

section \<open>Counting\<close>

text \<open>The number of zero bits at the low end (\<open>__builtin_ctzll\<close>), and of zero bytes.\<close>

definition ctz :: "u64 \<Rightarrow> nat" where
  "ctz v = length (takeWhile (\<lambda>i. \<not> bit v i) [0..<64])"

definition LZ4_NbCommonBytes :: "u64 \<Rightarrow> nat" where
  "LZ4_NbCommonBytes v = ctz v div 8"

text \<open>Whole words; \<open>True\<close>: a difference was found.\<close>

function count_words :: "byte list \<Rightarrow> nat \<Rightarrow> nat \<Rightarrow> nat \<Rightarrow> (bool \<times> nat \<times> nat) option" where
  "count_words src matchlimit ip ref =
     (if ip + (STEPSIZE - 1) < matchlimit
      then (case (mem_read src ref STEPSIZE, mem_read src ip STEPSIZE) of
              (Some a, Some b) \<Rightarrow>
                let diff = (word_of_nat (of_le a) XOR word_of_nat (of_le b) :: u64) in
                if diff = 0 then count_words src matchlimit (ip + STEPSIZE) (ref + STEPSIZE)
                else Some (True, ip + LZ4_NbCommonBytes diff, ref)
            | _ \<Rightarrow> None)
      else Some (False, ip, ref))"
  by pat_completeness auto
termination by (relation "measure (\<lambda>(src, matchlimit, ip, ref). matchlimit - ip)") (auto simp: STEPSIZE_def)

declare count_words.simps [simp del]

definition count_tail :: "byte list \<Rightarrow> nat \<Rightarrow> nat \<Rightarrow> nat \<Rightarrow> nat option" where
  "count_tail src matchlimit ip ref = do {
     same4 \<leftarrow> (if ip + 3 < matchlimit then same_at src ref ip 4 else Some False);
     let (ip1, ref1) = (if same4 then (ip + 4, ref + 4) else (ip, ref));
     same2 \<leftarrow> (if ip1 + 1 < matchlimit then same_at src ref1 ip1 2 else Some False);
     let (ip2, ref2) = (if same2 then (ip1 + 2, ref1 + 2) else (ip1, ref1));
     same1 \<leftarrow> (if ip2 < matchlimit then same_at src ref2 ip2 1 else Some False);
     Some (if same1 then ip2 + 1 else ip2) }"

definition count_match :: "byte list \<Rightarrow> nat \<Rightarrow> nat \<Rightarrow> nat \<Rightarrow> nat option" where
  "count_match src matchlimit ip ref = do {
     (found, ip1, ref1) \<leftarrow> count_words src matchlimit ip ref;
     if found then Some ip1 else count_tail src matchlimit ip1 ref1 }"

section \<open>Writing\<close>

text \<open>The further bytes of a literal length, and of a match length.\<close>

function lit_len :: "byte list \<Rightarrow> nat \<Rightarrow> nat \<Rightarrow> (byte list \<times> nat) option" where
  "lit_len D op len =
     (if len > 254 then Option.bind (mem_write D op [255]) (\<lambda>D1. lit_len D1 (op + 1) (len - 255))
      else map_option (\<lambda>D1. (D1, op + 1)) (mem_write D op [word_of_nat len]))"
  by pat_completeness auto
termination by (relation "measure (\<lambda>(D, op, len). len)") auto

declare lit_len.simps [simp del]

function match_len :: "byte list \<Rightarrow> nat \<Rightarrow> nat \<Rightarrow> (byte list \<times> nat) option" where
  "match_len D op len =
     (if len > 509 then Option.bind (mem_write D op [255, 255]) (\<lambda>D1. match_len D1 (op + 2) (len - 510))
      else if len > 254
      then Option.bind (mem_write D op [255]) (\<lambda>D1.
             map_option (\<lambda>D2. (D2, op + 2)) (mem_write D1 (op + 1) [word_of_nat (len - 255)]))
      else map_option (\<lambda>D1. (D1, op + 1)) (mem_write D op [word_of_nat len]))"
  by pat_completeness auto
termination by (relation "measure (\<lambda>(D, op, len). len)") auto

declare match_len.simps [simp del]

text \<open>A token for \<open>len\<close> literals with the further bytes of the length.\<close>

definition put_run :: "byte list \<Rightarrow> nat \<Rightarrow> nat \<Rightarrow> (byte list \<times> nat) option" where
  "put_run D op len =
     (if len \<ge> RUN_MASK
      then do { D1 \<leftarrow> mem_write D op [word_of_nat (RUN_MASK * 16)]; lit_len D1 (op + 1) (len - RUN_MASK) }
      else do { D1 \<leftarrow> mem_write D op [word_of_nat (len * 16)]; Some (D1, op + 1) })"

text \<open>Adding the length of the match to the token.\<close>

definition put_match_len :: "byte list \<Rightarrow> nat \<Rightarrow> nat \<Rightarrow> nat \<Rightarrow> (byte list \<times> nat) option" where
  "put_match_len D token op len = do {
     t \<leftarrow> mem_read D token 1;
     if len \<ge> ML_MASK
     then do { D1 \<leftarrow> mem_write D token [hd t + word_of_nat ML_MASK]; match_len D1 op (len - ML_MASK) }
     else do { D1 \<leftarrow> mem_write D token [hd t + word_of_nat len]; Some (D1, op) } }"

section \<open>The machine\<close>

text \<open>From the head of the main loop to \<open>_next_match\<close>, or the jump to the last literals.\<close>

definition enc_main_loop :: "lz4_variant \<Rightarrow> byte list \<Rightarrow> nat \<Rightarrow> lz4_encoder \<Rightarrow> (lz4_label \<times> lz4_encoder) option" where
  "enc_main_loop V src isize s = do {
     found \<leftarrow> find_match V src isize (e_table s) 0 (e_ip s) (e_forwardH s);
     case found of
       None \<Rightarrow> Some (Last_literals, s)
     | Some (ip0, ref0, tab) \<Rightarrow> do {
         (ip, ref) \<leftarrow> catch_up src (e_anchor s) ip0 ref0;
         let run = ip - e_anchor s;
         (D1, op) \<leftarrow> put_run (e_dest s) (e_op s) run;
         (D2, _, _) \<leftarrow> wild_copy_lit src D1 (e_anchor s) op (op + run);
         Some (Next_match, s\<lparr>e_dest := D2, e_table := tab, e_ip := ip, e_op := op + run, e_ref := ref, e_token := e_op s\<rparr>) } }"

text \<open>Behind a match: the end of the loop, a further match at once, or the end of the loop's body.\<close>

definition enc_after_match :: "lz4_variant \<Rightarrow> byte list \<Rightarrow> nat \<Rightarrow> lz4_encoder \<Rightarrow> (lz4_label \<times> lz4_encoder) option" where
  "enc_after_match V src isize s =
     (if e_ip s + MFLIMIT > isize then Some (Last_literals, s\<lparr>e_anchor := e_ip s\<rparr>)
      else do {
        h2 \<leftarrow> LZ4_HASH_VALUE V src (e_ip s - 2);
        h \<leftarrow> LZ4_HASH_VALUE V src (e_ip s);
        let tab = table_set V (e_table s) h2 (e_ip s - 2);
        good \<leftarrow> candidate V src (tab ! h) (e_ip s);
        let s1 = s\<lparr>e_table := table_set V tab h (e_ip s), e_ref := tab ! h\<rparr>;
        if good then do {
          D1 \<leftarrow> mem_write (e_dest s) (e_op s) [0];
          Some (Next_match, s1\<lparr>e_dest := D1, e_op := e_op s + 1, e_token := e_op s\<rparr>) }
        else do {
          forwardH \<leftarrow> LZ4_HASH_VALUE V src (e_ip s + 1);
          Some (Main_loop, s1\<lparr>e_ip := e_ip s + 1, e_anchor := e_ip s, e_forwardH := forwardH\<rparr>) } })"

text \<open>From \<open>_next_match\<close> on.\<close>

definition enc_next_match :: "lz4_variant \<Rightarrow> byte list \<Rightarrow> nat \<Rightarrow> lz4_encoder \<Rightarrow> (lz4_label \<times> lz4_encoder) option" where
  "enc_next_match V src isize s = do {
     D1 \<leftarrow> mem_write (e_dest s) (e_op s) (le_bytes 2 (e_ip s - e_ref s));
     let anchor = e_ip s + MINMATCH;
     ip \<leftarrow> count_match src (isize - LASTLITERALS) anchor (e_ref s + MINMATCH);
     (D2, op) \<leftarrow> put_match_len D1 (e_token s) (e_op s + 2) (ip - anchor);
     enc_after_match V src isize (s\<lparr>e_dest := D2, e_ip := ip, e_anchor := anchor, e_op := op\<rparr>) }"

definition enc_step ::
  "lz4_variant \<Rightarrow> byte list \<Rightarrow> nat \<Rightarrow> lz4_label \<Rightarrow> lz4_encoder \<Rightarrow> (lz4_label \<times> lz4_encoder) option" where
  "enc_step V src isize label s =
     (case label of
        Main_loop \<Rightarrow> enc_main_loop V src isize s
      | Next_match \<Rightarrow> enc_next_match V src isize s
      | Last_literals \<Rightarrow> Some (Last_literals, s))"

partial_function (option) enc_run ::
  "lz4_variant \<Rightarrow> byte list \<Rightarrow> nat \<Rightarrow> lz4_label \<Rightarrow> lz4_encoder \<Rightarrow> lz4_encoder option" where
  "enc_run V src isize label s =
     (if label = Last_literals then Some s
      else Option.bind (enc_step V src isize label s) (\<lambda>(label1, s1). enc_run V src isize label1 s1))"

declare enc_run.simps [code]

text \<open>
  \<open>_last_literals\<close>: the number of bytes put out, and the block. The number is returned as an \<open>int\<close>: one
  that is not has no result.
\<close>

definition last_literals :: "byte list \<Rightarrow> nat \<Rightarrow> byte list \<Rightarrow> nat \<Rightarrow> nat \<Rightarrow> (nat \<times> byte list) option" where
  "last_literals src isize D anchor op = do {
     (D1, op1) \<leftarrow> put_run D op (isize - anchor);
     xs \<leftarrow> mem_read src anchor (isize - anchor);
     D2 \<leftarrow> mem_write D1 op1 xs;
     if op1 + (isize - anchor) < 2 ^ 31 then Some (op1 + (isize - anchor), D2) else None }"

section \<open>The functions\<close>

definition LZ4_compressCtx :: "byte list \<Rightarrow> byte list \<Rightarrow> nat \<Rightarrow> (nat \<times> byte list) option" where
  "LZ4_compressCtx source dest isize =
     (if isize < MINLENGTH then last_literals source isize dest 0 0
      else do {
        h0 \<leftarrow> LZ4_HASH_VALUE variant_any source 0;
        h1 \<leftarrow> LZ4_HASH_VALUE variant_any source 1;
        s \<leftarrow> enc_run variant_any source isize Main_loop
               \<lparr>e_dest = dest, e_table = table_set variant_any (replicate (2 ^ hash_log variant_any) 0) h0 0,
                e_ip = 1, e_anchor = 0, e_op = 0, e_ref = 0, e_token = 0, e_forwardH = h1\<rparr>;
        last_literals source isize (e_dest s) (e_anchor s) (e_op s) })"

definition LZ4_compress64kCtx :: "byte list \<Rightarrow> byte list \<Rightarrow> nat \<Rightarrow> (nat \<times> byte list) option" where
  "LZ4_compress64kCtx source dest isize =
     (if isize < MINLENGTH then last_literals source isize dest 0 0
      else do {
        h1 \<leftarrow> LZ4_HASH_VALUE variant_64k source 1;
        s \<leftarrow> enc_run variant_64k source isize Main_loop
               \<lparr>e_dest = dest, e_table = replicate (2 ^ hash_log variant_64k) 0,
                e_ip = 1, e_anchor = 0, e_op = 0, e_ref = 0, e_token = 0, e_forwardH = h1\<rparr>;
        last_literals source isize (e_dest s) (e_anchor s) (e_op s) })"

text \<open>\<open>isize\<close> is an \<open>int\<close>: there is no call with a larger one.\<close>

definition LZ4_compress :: "byte list \<Rightarrow> byte list \<Rightarrow> nat \<Rightarrow> (nat \<times> byte list) option" where
  "LZ4_compress source dest isize =
     (if 2 ^ 31 \<le> isize then None
      else if isize < LZ4_64KLIMIT then LZ4_compress64kCtx source dest isize else LZ4_compressCtx source dest isize)"

text \<open>The sizes are \<open>int\<close>s; the inner \<open>None\<close> is NULL.\<close>

definition lz4_compress :: "allocator \<Rightarrow> byte list \<Rightarrow> (byte list \<times> nat) option option" where
  "lz4_compress A input =
     (let maxlen = LZ4_compressBound (length input) in
      if maxlen \<ge> 2 ^ 31 then None
      else (case malloc A maxlen of
              None \<Rightarrow> Some None
            | Some buffer \<Rightarrow> do {
                (n, b) \<leftarrow> LZ4_compress input buffer (length input);
                Some (Some (b, n)) }))"

text \<open>The pair of functions a host is configured with; callers read \<open>outlen\<close> bytes.\<close>

definition lz4_compressor :: "allocator \<Rightarrow> nat \<Rightarrow> la_compressor" where
  "lz4_compressor A fuel =
     \<lparr>compressor_fn = (\<lambda>x. block_bytes (lz4_compress A x)),
      decompressor_fn = (\<lambda>x. block_bytes (lz4_decompress A fuel x))\<rparr>"

end
