(* ===== verification/LA_LZ4_Roundtrip.thy ===== *)
theory LA_LZ4_Roundtrip
  imports LA_LZ4_Encode
begin

text \<open>
  What the LZ4 encoder puts out: sequences of literals and a match that the decoder on lists reads back,
  within the bound the wrapper allocates.
\<close>

section \<open>Sequences\<close>

definition ext_bytes :: "nat \<Rightarrow> byte list" where
  "ext_bytes k = replicate (k div 255) 255 @ [word_of_nat (k mod 255)]"

definition more_bytes :: "nat \<Rightarrow> byte list" where
  "more_bytes n = (if n \<ge> 15 then ext_bytes (n - 15) else [])"

definition token_of :: "nat \<Rightarrow> nat \<Rightarrow> byte" where
  "token_of run m = word_of_nat (16 * min 15 run + min 15 m)"

lemma ext_bytes_length [simp]: "length (ext_bytes k) = k div 255 + 1"
  by (simp add: ext_bytes_def)

lemma more_bytes_length: "length (more_bytes n) = (if n \<ge> 15 then (n - 15) div 255 + 1 else 0)"
  by (simp add: more_bytes_def)

lemma ext_bytes_more:
  assumes "254 < k"
  shows "ext_bytes k = 255 # ext_bytes (k - 255)"
proof -
  have "k div 255 = Suc ((k - 255) div 255)" "k mod 255 = (k - 255) mod 255"
    using assms by (simp_all add: le_div_geq le_mod_geq)
  then show ?thesis unfolding ext_bytes_def by (simp only: replicate_Suc append_Cons)
qed

lemma ext_bytes_small: "k \<le> 254 \<Longrightarrow> ext_bytes k = [word_of_nat k]"
  by (simp add: ext_bytes_def)

lemma ext_len_bytes: "ext_len (ext_bytes k @ r) n = (n + k, r)"
proof (induction k arbitrary: n rule: less_induct)
  case (less k)
  show ?case
  proof (cases "254 < k")
    case True
    then show ?thesis using less.IH [of "k - 255" "n + 255"] by (simp add: ext_bytes_more)
  next
    case False
    then have "(word_of_nat k :: byte) \<noteq> 255" "unat (word_of_nat k :: byte) = k"
      by (auto simp: unat_of_nat take_bit_nat_eq_self word_unat_eq_iff)
    then show ?thesis using False by (simp add: ext_bytes_small)
  qed
qed

lemma nibble_len_bytes: "nibble_len (min 15 n) (more_bytes n @ r) = (n, r)"
  by (simp add: nibble_len_def more_bytes_def ext_len_bytes min_def)

lemma byte_of_nat: "n < 256 \<Longrightarrow> unat (word_of_nat n :: byte) = n"
  by (simp add: unat_of_nat take_bit_nat_eq_self)

lemma token_nibbles: "unat (token_of run m) div 16 = min 15 run" "unat (token_of run m) mod 16 = min 15 m"
proof -
  have "16 * min 15 run + min 15 m < 256" by (simp add: min_def)
  then have "unat (token_of run m) = 16 * min 15 run + min 15 m" unfolding token_of_def by (rule byte_of_nat)
  then show "unat (token_of run m) div 16 = min 15 run" "unat (token_of run m) mod 16 = min 15 m"
    by (simp_all add: min_def)
qed

section \<open>Writing\<close>

lemma put_at: "length xs \<le> length r \<Longrightarrow> mem_write (p @ r) (length p) xs = Some ((p @ xs) @ drop (length xs) r)"
  by (simp add: mem_write_def)

lemma put_byte: "r \<noteq> [] \<Longrightarrow> mem_write (p @ r) (length p) [b] = Some ((p @ [b]) @ drop 1 r)"
  using put_at [of "[b]" r p] by (cases r) simp_all

lemma lit_len_spec:
  "k div 255 < length r \<Longrightarrow>
   lit_len (p @ r) (length p) k = Some ((p @ ext_bytes k) @ drop (k div 255 + 1) r, length (p @ ext_bytes k))"
proof (induction k arbitrary: p r rule: less_induct)
  case (less k)
  show ?case
  proof (cases "254 < k")
    case False
    then show ?thesis using less.prems put_byte [of r p "word_of_nat k"]
      by (subst lit_len.simps) (auto simp: ext_bytes_small)
  next
    case True
    then have k: "k div 255 = Suc ((k - 255) div 255)" by (simp add: le_div_geq)
    have w: "mem_write (p @ r) (length p) [255] = Some ((p @ [255]) @ drop 1 r)"
      using less.prems by (intro put_byte) auto
    have "lit_len ((p @ [255]) @ drop 1 r) (length (p @ [255])) (k - 255) =
        Some (((p @ [255]) @ ext_bytes (k - 255)) @ drop ((k - 255) div 255 + 1) (drop 1 r), length ((p @ [255]) @ ext_bytes (k - 255)))"
      using less.prems k True by (intro less.IH) simp_all
    with w True k show ?thesis by (subst lit_len.simps) (simp add: ext_bytes_more)
  qed
qed

lemma match_len_spec:
  "k div 255 < length r \<Longrightarrow>
   match_len (p @ r) (length p) k = Some ((p @ ext_bytes k) @ drop (k div 255 + 1) r, length (p @ ext_bytes k))"
proof (induction k arbitrary: p r rule: less_induct)
  case (less k)
  consider "k \<le> 254" | "254 < k" "k \<le> 509" | "509 < k" by linarith
  then show ?case
  proof cases
    case 1
    then show ?thesis using less.prems put_byte [of r p "word_of_nat k"]
      by (subst match_len.simps) (auto simp: ext_bytes_small)
  next
    case 2
    then have k: "k div 255 = 1" by (simp add: le_div_geq)
    then have "mem_write (p @ r) (length p) [255] = Some ((p @ [255]) @ drop 1 r)"
      "mem_write ((p @ [255]) @ drop 1 r) (length (p @ [255])) [word_of_nat (k - 255)] =
         Some (((p @ [255]) @ [word_of_nat (k - 255)]) @ drop 1 (drop 1 r))"
      using less.prems by (intro put_byte; fastforce)+
    then show ?thesis using 2 k by (subst match_len.simps) (simp add: ext_bytes_more ext_bytes_small)
  next
    case 3
    then have k: "k div 255 = Suc (Suc ((k - 510) div 255))" by (simp add: le_div_geq)
    have e: "ext_bytes k = 255 # 255 # ext_bytes (k - 510)" using 3 by (simp add: ext_bytes_more)
    have w: "mem_write (p @ r) (length p) [255, 255] = Some ((p @ [255, 255]) @ drop 2 r)"
      using less.prems k put_at [of "[255, 255]" r p] by (simp add: numeral_2_eq_2)
    have "match_len ((p @ [255, 255]) @ drop 2 r) (length (p @ [255, 255])) (k - 510) =
        Some (((p @ [255, 255]) @ ext_bytes (k - 510)) @ drop ((k - 510) div 255 + 1) (drop 2 r), length ((p @ [255, 255]) @ ext_bytes (k - 510)))"
      using less.prems k 3 by (intro less.IH) simp_all
    with w 3 k show ?thesis by (subst match_len.simps) (simp add: e)
  qed
qed

lemma put_run_spec:
  assumes "length (more_bytes n) < length r"
  shows "put_run (p @ r) (length p) n =
    Some ((p @ token_of n 0 # more_bytes n) @ drop (1 + length (more_bytes n)) r, length (p @ token_of n 0 # more_bytes n))"
proof (cases "15 \<le> n")
  case True
  then have t: "token_of n 0 = word_of_nat (15 * 16)" by (simp add: token_of_def)
  have w: "mem_write (p @ r) (length p) [word_of_nat (15 * 16)] = Some ((p @ [word_of_nat (15 * 16)]) @ drop 1 r)"
    using assms by (intro put_byte) auto
  show ?thesis using lit_len_spec [of "n - 15" "drop 1 r" "p @ [word_of_nat (15 * 16)]"] True assms w
    unfolding put_run_def RUN_MASK_def t by (simp add: more_bytes_def)
next
  case False
  then have t: "token_of n 0 = word_of_nat (n * 16)" by (simp add: token_of_def mult.commute)
  show ?thesis using put_byte [of r p "word_of_nat (n * 16)"] assms False
    unfolding put_run_def RUN_MASK_def t by (simp add: more_bytes_def)
qed

lemma put_match_len_spec:
  assumes "length (more_bytes m) \<le> length r"
  shows "put_match_len (p @ token_of run 0 # q @ r) (length p) (length (p @ token_of run 0 # q)) m =
    Some ((p @ token_of run m # q @ more_bytes m) @ drop (length (more_bytes m)) r, length (p @ token_of run m # q @ more_bytes m))"
proof -
  have rd: "mem_read (p @ token_of run 0 # q @ r) (length p) 1 = Some [token_of run 0]" by (simp add: mem_read_def)
  have wr: "mem_write (p @ token_of run 0 # q @ r) (length p) [t] = Some ((p @ t # q) @ r)" for t
    by (simp add: mem_write_def)
  have add: "token_of run 0 + word_of_nat (min 15 m) = token_of run m"
    by (simp add: token_of_def)
  show ?thesis
  proof (cases "15 \<le> m")
    case True
    then have "token_of run 0 + word_of_nat 15 = token_of run m" using add by simp
    then show ?thesis using True rd wr assms match_len_spec [of "m - 15" r "p @ token_of run m # q"]
      unfolding put_match_len_def ML_MASK_def by (simp add: more_bytes_def)
  next
    case False
    then have "token_of run 0 + word_of_nat m = token_of run m" using add by simp
    then show ?thesis using False rd wr unfolding put_match_len_def ML_MASK_def by (simp add: more_bytes_def)
  qed
qed

section \<open>Reading a sequence back\<close>

lemma of_le_offset: "off < 2 ^ 16 \<Longrightarrow> of_le (take 2 (le_bytes 2 off @ r)) = off"
  by (simp add: of_le_le_bytes)

lemma decode_seq:
  assumes "6 \<le> length rest" "0 < off" "off \<le> length out + length lits" "off < 2 ^ 16" "length out + length lits + m + 8 \<le> oend"
  shows "lz4_decode oend (token_of (length lits) m # more_bytes (length lits) @ lits @ le_bytes 2 off @ more_bytes m @ rest) out =
    lz4_decode oend rest (copy_back off (out @ lits) (m + 4))"
proof -
  let ?r1 = "lits @ le_bytes 2 off @ more_bytes m @ rest"
  have n1: "nibble_len (min 15 (length lits)) (more_bytes (length lits) @ ?r1) = (length lits, ?r1)"
    by (rule nibble_len_bytes)
  have room: "\<not> (length out + length lits + 8 > oend \<or> length lits + 8 > length ?r1)" using assms(1,5) by simp
  have off: "of_le (take 2 (drop (length lits) ?r1)) = off" using of_le_offset [OF assms(4)] by simp
  have n2: "nibble_len (min 15 m) (drop (length lits + 2) ?r1) = (m, rest)"
    using nibble_len_bytes [of m rest] by simp
  have fit: "\<not> length out + length lits + m + 4 > oend" "length (copy_back off (out @ lits) (m + 4)) \<noteq> oend"
    using assms(5) by simp_all
  have tk: "take (length lits) ?r1 = lits" by simp
  show ?thesis
    unfolding lz4_decode.simps(2) token_nibbles n1 n2 prod.case off tk Let_def if_not_P [OF room] if_not_P [OF fit(1)] if_not_P [OF fit(2)]
    using assms(2,3) by simp
qed

lemma decode_last:
  assumes "length out + length lits \<le> oend"
  shows "lz4_decode oend (token_of (length lits) 0 # more_bytes (length lits) @ lits) out = Decoded (out @ lits)"
  using assms nibble_len_bytes [of "length lits" lits] by (simp add: token_nibbles)

text \<open>A match that repeats what the text has.\<close>

lemma copy_back_text:
  assumes "0 < off" "off \<le> p" "p + n \<le> length src" "\<And>i. i < n \<Longrightarrow> src ! (p - off + i) = src ! (p + i)"
  shows "copy_back off (take p src) n = take (p + n) src"
  using assms
proof (induction n arbitrary: p)
  case 0
  then show ?case by simp
next
  case (Suc n)
  have l: "length (take p src) = p" using Suc.prems(3) by simp
  have "take p src ! (p - off) = src ! p" using Suc.prems(1,2) Suc.prems(4) [of 0] by simp
  then have s: "take p src @ [take p src ! (length (take p src) - off)] = take (Suc p) src"
    using Suc.prems(3) unfolding l by (simp add: take_Suc_conv_app_nth)
  have "copy_back off (take (Suc p) src) n = take (Suc p + n) src"
  proof (rule Suc.IH)
    show "src ! (Suc p - off + i) = src ! (Suc p + i)" if "i < n" for i
      using Suc.prems(2) Suc.prems(4) [of "Suc i"] that by (simp add: Suc_diff_le)
  qed (use Suc.prems in simp_all)
  then show ?case unfolding copy_back.simps s by simp
qed

section \<open>Counting\<close>

text \<open>The bytes at two places agree up to \<open>e\<close>, and it ends there or they differ.\<close>

definition equal_to :: "byte list \<Rightarrow> nat \<Rightarrow> nat \<Rightarrow> nat \<Rightarrow> bool" where
  "equal_to src ref ip n = (\<forall>i < n. src ! (ref + i) = src ! (ip + i))"

lemma equal_to_add: "equal_to src ref ip n \<Longrightarrow> equal_to src (ref + n) (ip + n) m \<Longrightarrow> equal_to src ref ip (n + m)"
proof (unfold equal_to_def, intro allI impI)
  fix i
  assume "\<forall>i<n. src ! (ref + i) = src ! (ip + i)" "\<forall>i<m. src ! (ref + n + i) = src ! (ip + n + i)" "i < n + m"
  then show "src ! (ref + i) = src ! (ip + i)"
    by (cases "i < n") (auto dest: spec [of _ "i - n"])
qed

lemma same_at_spec:
  assumes "ref \<le> ip" "ip + n \<le> length src"
  shows "same_at src ref ip n = Some (equal_to src ref ip n)"
proof -
  have "(take n (drop ref src) = take n (drop ip src)) = (\<forall>i < n. src ! (ref + i) = src ! (ip + i))"
    using assms by (simp add: list_eq_iff_nth_eq)
  then show ?thesis using assms by (simp add: same_at_def mem_read_def equal_to_def)
qed

lemma bit_of_le: "k < length xs \<Longrightarrow> j < 8 \<Longrightarrow> bit (of_le xs) (8 * k + j) \<longleftrightarrow> bit (xs ! k) j"
proof (induction xs arbitrary: k)
  case Nil
  then show ?case by simp
next
  case (Cons x xs)
  have u: "unat x < 256" using unsigned_less [of x] by simp
  show ?case
  proof (cases k)
    case 0
    have "take_bit 8 (of_le (x # xs)) = unat x" using u by (simp add: take_bit_eq_mod)
    then have "bit (of_le (x # xs)) j = bit (unat x) j" using Cons.prems(2) by (metis bit_take_bit_iff)
    then show ?thesis using 0 by (simp add: bit_unsigned_iff Cons.prems(2))
  next
    case (Suc k')
    have "drop_bit 8 (of_le (x # xs)) = of_le xs" using u by (simp add: drop_bit_eq_div)
    then have "bit (of_le (x # xs)) (8 + (8 * k' + j)) = bit (of_le xs) (8 * k' + j)" by (metis bit_drop_bit_eq comp_apply)
    then show ?thesis using Cons Suc by (simp add: add.assoc)
  qed
qed

text \<open>The number of zero bytes of a difference is the number of equal bytes.\<close>

lemma ctz_first: "bit v i \<Longrightarrow> (\<And>j. j < i \<Longrightarrow> \<not> bit v j) \<Longrightarrow> ctz v = i"
proof -
  assume a: "bit v i" "\<And>j. j < i \<Longrightarrow> \<not> bit v j"
  then have "i < 64" using bit_imp_le_length [of v i] by simp
  then have "[0..<64] = [0..<i] @ i # [Suc i..<64]" by (metis upt_add_eq_append less_imp_le_nat le0 upt_conv_Cons le_add_diff_inverse zero_le)
  then show "ctz v = i" using a unfolding ctz_def by (simp add: takeWhile_append)
qed

lemma xor_zero:
  fixes a b :: "'a::len word"
  assumes "a XOR b = 0"
  shows "a = b"
proof -
  have "a = (a XOR b) XOR b" by (simp add: xor.assoc)
  with assms show ?thesis by simp
qed

lemma first_difference:
  assumes "f i \<noteq> g (i :: nat)"
  shows "\<exists>k \<le> i. f k \<noteq> g k \<and> (\<forall>j < k. f j = g j)"
  using LeastI [of "\<lambda>i. f i \<noteq> g i", OF assms] Least_le [of "\<lambda>i. f i \<noteq> g i", OF assms] not_less_Least [of _ "\<lambda>i. f i \<noteq> g i"]
  by blast

lemma NbCommonBytes_spec:
  assumes "length a = 8" "length b = 8" "a \<noteq> b"
  defines "n \<equiv> LZ4_NbCommonBytes (word_of_nat (of_le a) XOR word_of_nat (of_le b))"
  shows "n < 8 \<and> take n a = take n b \<and> a ! n \<noteq> b ! n"
proof -
  let ?v = "word_of_nat (of_le a) XOR word_of_nat (of_le b) :: u64"
  have bit: "bit ?v (8 * k + j) \<longleftrightarrow> bit (a ! k) j \<noteq> bit (b ! k) j" if "k < 8" "j < 8" for k j
    using that bit_of_le [of k a j] bit_of_le [of k b j] assms(1,2) by (simp add: bit_xor_iff bit_of_nat_iff)
  obtain k where k: "k < 8" "a ! k \<noteq> b ! k" "\<And>i. i < k \<Longrightarrow> a ! i = b ! i"
  proof -
    obtain i where i: "i < 8" "a ! i \<noteq> b ! i" using assms(1-3) by (metis nth_equalityI)
    from first_difference [of "(!) a" i "(!) b"] this(2) obtain k where "k \<le> i" "a ! k \<noteq> b ! k" "\<forall>j < k. a ! j = b ! j" by blast
    with i(1) that [of k] show ?thesis by simp
  qed
  obtain j where j: "j < 8" "bit (a ! k) j \<noteq> bit (b ! k) j" "\<And>i. i < j \<Longrightarrow> bit (a ! k) i = bit (b ! k) i"
  proof -
    obtain i where i: "bit (a ! k) i \<noteq> bit (b ! k) i" using k(2) by (auto simp: bit_eq_iff)
    from first_difference [of "bit (a ! k)" i "bit (b ! k)"] i
    obtain j where "bit (a ! k) j \<noteq> bit (b ! k) j" "\<forall>m < j. bit (a ! k) m = bit (b ! k) m" by blast
    moreover from this(1) have "j < 8"
      using bit_imp_le_length [of "a ! k" j] bit_imp_le_length [of "b ! k" j] by auto
    ultimately show ?thesis using that by blast
  qed
  have "ctz ?v = 8 * k + j"
  proof (rule ctz_first)
    show "bit ?v (8 * k + j)" using bit [OF k(1) j(1)] j(2) by simp
    fix m
    assume m: "m < 8 * k + j"
    have mk: "m = 8 * (m div 8) + m mod 8" "m mod 8 < 8" by simp_all
    show "\<not> bit ?v m"
    proof (cases "m div 8 < k")
      case True
      then show ?thesis using bit [of "m div 8" "m mod 8"] mk k(1,3) by simp
    next
      case False
      then have "m div 8 = k" using m j(1) by linarith
      then have "m mod 8 < j" using m mk(1) by linarith
      then show ?thesis using bit [of "m div 8" "m mod 8"] mk k(1) j(3) \<open>m div 8 = k\<close> by simp
    qed
  qed
  then have "n = k" unfolding n_def LZ4_NbCommonBytes_def using j(1) by simp
  moreover have "take k a = take k b" using k assms(1,2) by (simp add: list_eq_iff_nth_eq)
  ultimately show ?thesis using k by simp
qed

text \<open>The end of a match: as far as the bytes agree, but not beyond the limit.\<close>

definition match_end :: "byte list \<Rightarrow> nat \<Rightarrow> nat \<Rightarrow> nat \<Rightarrow> nat \<Rightarrow> bool" where
  "match_end src limit ip ref e =
     (ip \<le> e \<and> e \<le> limit \<and> equal_to src ref ip (e - ip) \<and> (e < limit \<longrightarrow> src ! (ref + (e - ip)) \<noteq> src ! e))"

lemma match_end_later:
  assumes "equal_to src ref ip n" "match_end src limit (ip + n) (ref + n) e"
  shows "match_end src limit ip ref e"
proof -
  have "ip + n \<le> e" using assms(2) by (simp add: match_end_def)
  then obtain k where e: "e = ip + n + k" using le_Suc_ex by blast
  have "equal_to src (ref + n) (ip + n) k" "e \<le> limit" "e < limit \<longrightarrow> src ! (ref + n + k) \<noteq> src ! e"
    using assms(2) by (simp_all add: match_end_def e)
  then show ?thesis using equal_to_add [OF assms(1)] by (simp add: match_end_def e add.assoc)
qed

lemma equal_to_more: "equal_to src ref ip n \<Longrightarrow> m \<le> n \<Longrightarrow> equal_to src ref ip m"
  by (simp add: equal_to_def)

lemma count_words_spec:
  assumes "ref \<le> ip" "ip \<le> limit" "limit \<le> length src"
  shows "\<exists>found ip1 ref1. count_words src limit ip ref = Some (found, ip1, ref1) \<and>
    (if found then match_end src limit ip ref ip1
     else ip \<le> ip1 \<and> ip1 \<le> limit \<and> limit < ip1 + 8 \<and> ref1 + ip = ref + ip1 \<and> equal_to src ref ip (ip1 - ip))"
  using assms
proof (induction src limit ip ref rule: count_words.induct)
  case (1 src limit ip ref)
  show ?case
  proof (cases "ip + 7 < limit")
    case False
    then have "count_words src limit ip ref = Some (False, ip, ref)" by (subst count_words.simps) (simp add: STEPSIZE_def)
    then show ?thesis using False 1(2-4) by (intro exI [of _ False] exI [of _ ip] exI [of _ ref]) (simp add: equal_to_def)
  next
    case True
    let ?a = "take 8 (drop ref src)" and ?b = "take 8 (drop ip src)"
    have rd: "mem_read src ref 8 = Some ?a" "mem_read src ip 8 = Some ?b" using True 1(2-4) by (simp_all add: mem_read_def)
    have l: "length ?a = 8" "length ?b = 8" using True 1(2-4) by simp_all
    have nth: "?a ! i = src ! (ref + i)" "?b ! i = src ! (ip + i)" if "i < 8" for i using that True 1(2-4) by simp_all
    let ?d = "word_of_nat (of_le ?a) XOR word_of_nat (of_le ?b) :: u64"
    show ?thesis
    proof (cases "?a = ?b")
      case eq: True
      then have "equal_to src ref ip 8" using nth by (metis equal_to_def)
      moreover obtain found ip1 ref1 where ih: "count_words src limit (ip + 8) (ref + 8) = Some (found, ip1, ref1)"
        "if found then match_end src limit (ip + 8) (ref + 8) ip1
         else ip + 8 \<le> ip1 \<and> ip1 \<le> limit \<and> limit < ip1 + 8 \<and> ref1 + (ip + 8) = ref + 8 + ip1 \<and> equal_to src (ref + 8) (ip + 8) (ip1 - (ip + 8))"
        using 1(1) [unfolded STEPSIZE_def, of "Some ?a" "Some ?b" ?a ?b ?d] rd eq True 1(2-4) by auto
      ultimately have "if found then match_end src limit ip ref ip1
         else ip \<le> ip1 \<and> ip1 \<le> limit \<and> limit < ip1 + 8 \<and> ref1 + ip = ref + ip1 \<and> equal_to src ref ip (ip1 - ip)"
        using match_end_later [of src ref ip 8 limit ip1] equal_to_add [of src ref ip 8 "ip1 - (ip + 8)"] by (auto split: if_splits)
      then show ?thesis using ih(1) rd eq True by (subst count_words.simps) (simp add: STEPSIZE_def)
    next
      case neq: False
      have "?d \<noteq> 0"
      proof
        assume "?d = 0"
        then have "word_of_nat (of_le ?a) = (word_of_nat (of_le ?b) :: u64)"
          by (rule xor_zero)
        then have "of_le ?a = of_le ?b" using of_le_less [of ?a] of_le_less [of ?b] l
          by (simp add: word_unat_eq_iff unat_of_nat take_bit_nat_eq_self)
        then show False using neq le_bytes_of_le [of ?a] le_bytes_of_le [of ?b] l by metis
      qed
      moreover define n where "n = LZ4_NbCommonBytes ?d"
      have n: "n < 8" "take n ?a = take n ?b" "?a ! n \<noteq> ?b ! n" using NbCommonBytes_spec [OF l neq] unfolding n_def by blast+
      have "equal_to src ref ip n" unfolding equal_to_def
      proof (intro allI impI)
        fix i
        assume i: "i < n"
        have "?a ! i = ?b ! i" using n(2) nth_take [OF i] by metis
        then show "src ! (ref + i) = src ! (ip + i)" using nth [of i] i n(1) by (metis less_trans)
      qed
      then have "match_end src limit ip ref (ip + n)" using n(1,3) nth [of n] True by (simp add: match_end_def)
      moreover have "count_words src limit ip ref = Some (True, ip + n, ref)"
        using rd True \<open>?d \<noteq> 0\<close> unfolding n_def by (subst count_words.simps) (simp add: STEPSIZE_def)
      ultimately show ?thesis by (metis (full_types))
    qed
  qed
qed

lemma count_tail_spec:
  assumes "ref \<le> ip" "ip \<le> limit" "limit < ip + 8" "limit \<le> length src"
  shows "\<exists>e. count_tail src limit ip ref = Some e \<and> match_end src limit ip ref e"
proof -
  define p where "p i = (src ! (ref + i) = src ! (ip + i))" for i
  define c4 where "c4 = (ip + 3 < limit \<and> equal_to src ref ip 4)"
  define k4 where "k4 = (if c4 then 4 else 0 :: nat)"
  define c2 where "c2 = (ip + k4 + 1 < limit \<and> equal_to src (ref + k4) (ip + k4) 2)"
  define k2 where "k2 = (if c2 then k4 + 2 else k4)"
  define c1 where "c1 = (ip + k2 < limit \<and> equal_to src (ref + k2) (ip + k2) 1)"
  define k1 where "k1 = (if c1 then k2 + 1 else k2)"
  have s4: "(if ip + 3 < limit then same_at src ref ip 4 else Some False) = Some c4"
    using assms by (simp add: same_at_spec c4_def)
  have p4: "(if c4 then (ip + 4, ref + 4) else (ip, ref)) = (ip + k4, ref + k4)" by (simp add: k4_def)
  have s2: "(if ip + k4 + 1 < limit then same_at src (ref + k4) (ip + k4) 2 else Some False) = Some c2"
    using assms by (simp add: same_at_spec c2_def)
  have p2: "(if c2 then (ip + k4 + 2, ref + k4 + 2) else (ip + k4, ref + k4)) = (ip + k2, ref + k2)" by (simp add: k2_def)
  have s1: "(if ip + k2 < limit then same_at src (ref + k2) (ip + k2) 1 else Some False) = Some c1"
    using assms by (simp add: same_at_spec c1_def)
  have p1: "(if c1 then ip + k2 + 1 else ip + k2) = ip + k1" by (simp add: k1_def)
  have "count_tail src limit ip ref = Some (ip + k1)"
    unfolding count_tail_def s4 Option.bind.simps p4 Let_def prod.case s2 p2 s1 p1 by (rule refl)
  moreover have "match_end src limit ip ref (ip + k1)"
  proof -
    have c: "c4 \<longleftrightarrow> ip + 3 < limit \<and> p 0 \<and> p 1 \<and> p 2 \<and> p 3" "c2 \<longleftrightarrow> ip + k4 + 1 < limit \<and> p k4 \<and> p (k4 + 1)"
      "c1 \<longleftrightarrow> ip + k2 < limit \<and> p k2"
      by (auto simp: c4_def c2_def c1_def equal_to_def p_def less_Suc_eq numeral_eq_Suc ac_simps)
    have "\<forall>i < k1. p i" "ip + k1 < limit \<longrightarrow> \<not> p k1" "ip + k1 \<le> limit"
      using c assms(2,3) unfolding k1_def k2_def k4_def
      by (auto split: if_splits simp: less_Suc_eq numeral_eq_Suc)
    then show ?thesis by (simp add: match_end_def equal_to_def p_def)
  qed
  ultimately show ?thesis by blast
qed

lemma count_match_spec:
  assumes "ref \<le> ip" "ip \<le> limit" "limit \<le> length src"
  shows "\<exists>e. count_match src limit ip ref = Some e \<and> match_end src limit ip ref e"
proof -
  obtain found ip1 ref1 where w: "count_words src limit ip ref = Some (found, ip1, ref1)" and
    r: "if found then match_end src limit ip ref ip1
     else ip \<le> ip1 \<and> ip1 \<le> limit \<and> limit < ip1 + 8 \<and> ref1 + ip = ref + ip1 \<and> equal_to src ref ip (ip1 - ip)"
    using count_words_spec [OF assms] by blast
  show ?thesis
  proof (cases found)
    case True
    then show ?thesis using w r by (simp add: count_match_def)
  next
    case False
    then have "ip \<le> ip1" "ref1 + ip = ref + ip1" using r by simp_all
    then have d: "ip1 = ip + (ip1 - ip)" "ref1 = ref + (ip1 - ip)" "ref1 \<le> ip1" using assms(1) by linarith+
    obtain e where e: "count_tail src limit ip1 ref1 = Some e" "match_end src limit ip1 ref1 e"
      using count_tail_spec [of ref1 ip1 limit src] False r d(3) assms(3) by auto
    have "match_end src limit ip ref e" using match_end_later [of src ref ip "ip1 - ip"] False r e(2) d by metis
    then show ?thesis using w e(1) False by (simp add: count_match_def)
  qed
qed

section \<open>Searching\<close>

text \<open>Either distances are checked, or the input is too short for a distance that does not fit.\<close>

definition variant_ok :: "lz4_variant \<Rightarrow> nat \<Rightarrow> bool" where
  "variant_ok V isize = (hash_log V \<le> 32 \<and> (check_distance V \<or> isize < LZ4_64KLIMIT))"

definition table_ok :: "lz4_variant \<Rightarrow> nat list \<Rightarrow> nat \<Rightarrow> bool" where
  "table_ok V tab m = (length tab = 2 ^ hash_log V \<and> (\<forall>x \<in> set tab. x \<le> m))"

lemma hash_spec:
  assumes "hash_log V \<le> 32" "p + 4 \<le> length src"
  shows "\<exists>h. LZ4_HASH_VALUE V src p = Some h \<and> h < 2 ^ hash_log V"
proof -
  let ?x = "of_le (take 4 (drop p src)) * 2654435761 mod 2 ^ 32"
  have "(2 :: nat) ^ 32 = 2 ^ hash_log V * 2 ^ (32 - hash_log V)" using assms(1) by (simp flip: power_add)
  moreover have "?x < 2 ^ 32" by simp
  ultimately have "?x div 2 ^ (32 - hash_log V) < 2 ^ hash_log V" by (metis less_mult_imp_div_less)
  then show ?thesis using assms(2) by (simp add: LZ4_HASH_VALUE_def mem_read_def)
qed

lemma table_ok_set: "table_ok V tab m \<Longrightarrow> m \<le> m' \<Longrightarrow> p \<le> m' \<Longrightarrow> table_ok V (table_set V tab h p) m'"
  using set_update_subset_insert [of tab h "p mod 2 ^ entry_bits V"]
  by (fastforce simp: table_ok_def table_set_def intro: le_trans [OF mod_less_eq_dividend])

lemma table_ok_nth: "table_ok V tab m \<Longrightarrow> h < 2 ^ hash_log V \<Longrightarrow> tab ! h \<le> m"
  by (simp add: table_ok_def)

lemma candidate_spec:
  assumes "variant_ok V (length src)" "ref < ip" "ip + MFLIMIT \<le> length src"
  shows "\<exists>b. candidate V src ref ip = Some b \<and> (b \<longrightarrow> equal_to src ref ip 4 \<and> ip - ref < 2 ^ 16)"
proof -
  have c: "12 + ip \<le> length src" "check_distance V \<or> length src < 65547"
    using assms(1,3) by (auto simp: variant_ok_def LZ4_64KLIMIT_def MFLIMIT_def COPYLENGTH_def MINMATCH_def)
  then show ?thesis using assms(2) same_at_spec [of ref ip 4 src]
    by (auto simp: candidate_def MAX_DISTANCE_def)
qed

lemma find_match_spec:
  assumes "variant_ok V (length src)" "table_ok V tab m" "m < ip" "h < 2 ^ hash_log V"
  shows "\<exists>r. find_match V src (length src) tab n ip h = Some r \<and>
    (case r of None \<Rightarrow> True
     | Some (ip', ref, tab') \<Rightarrow> ip \<le> ip' \<and> ip' + MFLIMIT \<le> length src \<and> ref < ip' \<and> ip' - ref < 2 ^ 16 \<and> equal_to src ref ip' 4 \<and>
         table_ok V tab' ip')"
  using assms
proof (induction V src "length src" tab n ip h arbitrary: m rule: find_match.induct)
  case (1 V src tab n ip h)
  note [simp] = SKIPSTRENGTH_def
  define fip where "fip = ip + (2 ^ SKIPSTRENGTH + 3 + n) div 2 ^ SKIPSTRENGTH"
  have fip: "ip < fip" by (simp add: fip_def)
  note un = find_match.simps [of V src "length src" tab n ip h, folded fip_def, unfolded Let_def]
  show ?case
  proof (cases "fip + MFLIMIT > length src")
    case True
    then show ?thesis unfolding un by simp
  next
    case False
    have mf: "MFLIMIT = 12" by (simp add: MFLIMIT_def COPYLENGTH_def MINMATCH_def)
    obtain h' where h': "LZ4_HASH_VALUE V src fip = Some h'" "h' < 2 ^ hash_log V"
      using hash_spec [of V fip src] 1(2) False mf by (auto simp: variant_ok_def)
    have ref: "tab ! h < ip" using table_ok_nth [OF 1(3,5)] 1(4) by simp
    obtain b where b: "candidate V src (tab ! h) ip = Some b" "b \<longrightarrow> equal_to src (tab ! h) ip 4 \<and> ip - tab ! h < 2 ^ 16"
      using candidate_spec [OF 1(2) ref] False fip by auto
    have tab: "table_ok V (table_set V tab h ip) ip" using table_ok_set [OF 1(3)] 1(4) by simp
    show ?thesis
    proof (cases b)
      case True
      then show ?thesis using False fip b h'(1) ref tab unfolding un by simp
    next
      case bad: False
      then have "candidate V src (tab ! h) ip = Some False" using b(1) by simp
      from 1(1) [OF fip_def False h'(1) this refl 1(2) tab fip h'(2)] show ?thesis
        using False fip b(1) h'(1) bad unfolding un by (force split: option.splits)
    qed
  qed
qed

text \<open>The match is extended to the left at both places.\<close>

lemma catch_up_spec:
  assumes "anchor \<le> ip" "ref < ip" "ip \<le> length src"
  shows "\<exists>ip' ref'. catch_up src anchor ip ref = Some (ip', ref') \<and> anchor \<le> ip' \<and> ip' \<le> ip \<and> ref' + (ip - ip') = ref \<and>
    equal_to src ref' ip' (ip - ip')"
  using assms
proof (induction src anchor ip ref rule: catch_up.induct)
  case (1 src anchor ip ref)
  show ?case
  proof (cases "anchor < ip \<and> 0 < ref")
    case False
    then have "catch_up src anchor ip ref = Some (ip, ref)" by (subst catch_up.simps) auto
    then show ?thesis using 1(2) by (simp add: equal_to_def)
  next
    case True
    have s: "same_at src (ref - 1) (ip - 1) 1 = Some (equal_to src (ref - 1) (ip - 1) 1)"
      using 1(3,4) True by (intro same_at_spec) auto
    show ?thesis
    proof (cases "equal_to src (ref - 1) (ip - 1) 1")
      case False
      then have "catch_up src anchor ip ref = Some (ip, ref)" using s True by (subst catch_up.simps) simp
      then show ?thesis using 1(2) by (simp add: equal_to_def)
    next
      case eq: True
      have "anchor \<le> ip - 1" "ref - 1 < ip - 1" "ip - 1 \<le> length src" using True 1(2-4) by linarith+
      moreover have "same_at src (ref - 1) (ip - 1) 1 = Some True" using s eq by simp
      ultimately obtain ip' ref' where r: "catch_up src anchor (ip - 1) (ref - 1) = Some (ip', ref')"
        "anchor \<le> ip'" "ip' \<le> ip - 1" "ref' + (ip - 1 - ip') = ref - 1" "equal_to src ref' ip' (ip - 1 - ip')"
        using 1(1) [OF True _ refl] by blast
      have d: "ip' + (ip - 1 - ip') = ip - 1" "ip - 1 - ip' + 1 = ip - ip'" "ref' + (ip - ip') = ref" using r(3,4) True by linarith+
      have "equal_to src ref' ip' (ip - ip')"
        using equal_to_add [OF r(5), of 1] eq unfolding d(1,2) r(4) by blast
      moreover have "catch_up src anchor ip ref = Some (ip', ref')" using r(1) s eq True by (subst catch_up.simps) simp
      ultimately show ?thesis using r(2,3) d(3) by fastforce
    qed
  qed
qed

section \<open>The invariant of the machine\<close>

text \<open>
  The bytes put out so far make the decoder give the first \<open>p\<close> bytes of the input, whatever follows,
  and they are within the bound for \<open>p\<close> bytes.
\<close>

definition emitted :: "nat \<Rightarrow> byte list \<Rightarrow> byte list \<Rightarrow> nat \<Rightarrow> bool" where
  "emitted oend src out p =
     ((\<forall>rest. 6 \<le> length rest \<longrightarrow> lz4_decode oend (out @ rest) [] = lz4_decode oend rest (take p src)) \<and> length out \<le> p + p div 255)"

definition inv_main :: "lz4_variant \<Rightarrow> byte list \<Rightarrow> nat \<Rightarrow> nat \<Rightarrow> lz4_encoder \<Rightarrow> bool" where
  "inv_main V src oend B s =
     (\<exists>out r m. e_dest s = out @ r \<and> length (e_dest s) = B \<and> e_op s = length out \<and> emitted oend src out (e_anchor s) \<and>
        e_anchor s < e_ip s \<and> e_ip s + 11 \<le> length src \<and> e_forwardH s < 2 ^ hash_log V \<and> table_ok V (e_table s) m \<and> m < e_ip s)"

text \<open>At \<open>_next_match\<close> the token and the \<open>run\<close> literals in front of \<open>ip\<close> have been put out.\<close>

definition inv_next :: "lz4_variant \<Rightarrow> byte list \<Rightarrow> nat \<Rightarrow> nat \<Rightarrow> lz4_encoder \<Rightarrow> bool" where
  "inv_next V src oend B s =
     (\<exists>out run r m. e_dest s = out @ token_of run 0 # more_bytes run @ take run (drop (e_ip s - run) src) @ r \<and>
        length (e_dest s) = B \<and> e_token s = length out \<and> e_op s = length out + 1 + length (more_bytes run) + run \<and>
        run \<le> e_ip s \<and> emitted oend src out (e_ip s - run) \<and> e_ref s < e_ip s \<and> e_ip s - e_ref s < 2 ^ 16 \<and>
        e_ip s \<le> m \<and> m + MFLIMIT \<le> length src \<and> equal_to src (e_ref s) (e_ip s) (m - e_ip s + 4) \<and> table_ok V (e_table s) m)"

definition inv_last :: "byte list \<Rightarrow> nat \<Rightarrow> nat \<Rightarrow> lz4_encoder \<Rightarrow> bool" where
  "inv_last src oend B s =
     (\<exists>out r. e_dest s = out @ r \<and> length (e_dest s) = B \<and> e_op s = length out \<and> emitted oend src out (e_anchor s) \<and>
        e_anchor s + 5 \<le> length src)"

lemma mflimit [simp]: "MFLIMIT = 12" by (simp add: MFLIMIT_def COPYLENGTH_def MINMATCH_def)

lemma div_sum: "a div m + b div m \<le> (a + b) div (m :: nat)"
  by (metis div_add1_eq le_add1)

lemma more_room: "length (more_bytes n) \<le> 1 + n div 255" "length (more_bytes n) \<le> n"
  by (auto simp: more_bytes_length div_le_mono intro: le_trans [OF div_le_dividend])

lemma run_room: "p \<le> a + a div 255 \<Longrightarrow> p + 1 + length (more_bytes run) + run \<le> a + run + (a + run) div 255 + 2"
  using more_room(1) [of run] div_sum [of a 255 run] by linarith

lemma seq_room:
  assumes "p \<le> a + a div 255" "e = a + run + 4 + m"
  shows "p + 1 + length (more_bytes run) + run + 2 + length (more_bytes m) \<le> e + e div 255"
  using assms more_room(1) [of run] more_room(2) [of m] div_sum [of a 255 "run + 4 + m"] div_sum [of run 255 "4 + m"]
  by (simp add: add.assoc)

lemma main_step:
  assumes "variant_ok V (length src)" "LZ4_compressBound (length src) \<le> B" "inv_main V src oend B s"
  shows "\<exists>label s'. enc_main_loop V src (length src) s = Some (label, s') \<and>
    (label = Last_literals \<and> inv_last src oend B s' \<or> label = Next_match \<and> inv_next V src oend B s' \<and> e_anchor s \<le> e_ip s')"
proof -
  obtain out r m where i: "e_dest s = out @ r" "length (e_dest s) = B" "e_op s = length out" "emitted oend src out (e_anchor s)"
    "e_anchor s < e_ip s" "e_ip s + 11 \<le> length src" "e_forwardH s < 2 ^ hash_log V" "table_ok V (e_table s) m" "m < e_ip s"
    using assms(3) unfolding inv_main_def by blast
  obtain f where f: "find_match V src (length src) (e_table s) 0 (e_ip s) (e_forwardH s) = Some f" and
    found: "case f of None \<Rightarrow> True
     | Some (ip', ref, tab') \<Rightarrow> e_ip s \<le> ip' \<and> ip' + MFLIMIT \<le> length src \<and> ref < ip' \<and> ip' - ref < 2 ^ 16 \<and> equal_to src ref ip' 4 \<and>
         table_ok V tab' ip'"
    using find_match_spec [OF assms(1) i(8,9,7)] by blast
  show ?thesis
  proof (cases f)
    case None
    have "inv_last src oend B s" using i unfolding inv_last_def by auto
    then show ?thesis using f None by (simp add: enc_main_loop_def)
  next
    case (Some t)
    obtain ip0 ref0 tab where t: "t = (ip0, ref0, tab)" by (cases t)
    have fd: "e_ip s \<le> ip0" "ip0 + 12 \<le> length src" "ref0 < ip0" "ip0 - ref0 < 2 ^ 16" "equal_to src ref0 ip0 4" "table_ok V tab ip0"
      using found Some t by simp_all
    obtain ip ref where c: "catch_up src (e_anchor s) ip0 ref0 = Some (ip, ref)" "e_anchor s \<le> ip" "ip \<le> ip0" "ref + (ip0 - ip) = ref0"
      "equal_to src ref ip (ip0 - ip)"
      using catch_up_spec [of "e_anchor s" ip0 ref0 src] fd(1-3) i(5) by auto
    have eq: "equal_to src ref ip (ip0 - ip + 4)" using equal_to_add [OF c(5), of 4] fd(5) c(3,4) by simp
    define run where "run = ip - e_anchor s"
    have a: "e_anchor s + run = ip" "ip - run = e_anchor s" using c(2) by (simp_all add: run_def)
    have outlen: "length out \<le> e_anchor s + e_anchor s div 255" using i(4) by (simp add: emitted_def)
    have "ip div 255 \<le> length src div 255" using c(3) fd(2) by (intro div_le_mono) simp
    then have room: "length out + 1 + length (more_bytes run) + run + 8 \<le> B"
      using run_room [OF outlen, of run] a(1) c(3) fd(2) assms(2) by (simp add: LZ4_compressBound_def)
    have lr: "length out + length r = B" using i(1,2) by simp
    let ?pre = "out @ token_of run 0 # more_bytes run" and ?r = "drop (1 + length (more_bytes run)) r"
    have p: "put_run (e_dest s) (e_op s) run = Some (?pre @ ?r, length ?pre)"
      unfolding i(1,3) using room lr by (intro put_run_spec) simp
    have pl: "length (?pre @ ?r) = B" using room lr by simp
    obtain D ip' op' where w: "wild_copy_lit src (?pre @ ?r) (e_anchor s) (length ?pre) (length ?pre + run) = Some (D, ip', op')"
      "length D = B" "take (length ?pre + run) D = ?pre @ take run (drop (e_anchor s) src)"
      using wild_copy_lit_spec [of "length ?pre" "length ?pre + run" "e_anchor s" src "?pre @ ?r"] room pl a(1) c(3) fd(2) by auto
    have D: "D = out @ token_of run 0 # more_bytes run @ take run (drop (ip - run) src) @ drop (length ?pre + run) D"
      using append_take_drop_id [of "length ?pre + run" D] unfolding w(3) a(2) by simp
    let ?s = "s\<lparr>e_dest := D, e_table := tab, e_ip := ip, e_op := length ?pre + run, e_ref := ref, e_token := e_op s\<rparr>"
    have "enc_main_loop V src (length src) s = Some (Next_match, ?s)"
      unfolding enc_main_loop_def using f Some t c(1) p w(1) by (simp add: run_def Let_def)
    moreover have "inv_next V src oend B ?s"
      unfolding inv_next_def
    proof (intro exI conjI)
      show "e_dest ?s = out @ token_of run 0 # more_bytes run @ take run (drop (e_ip ?s - run) src) @ drop (length ?pre + run) D"
        using D by simp
    qed (use w(2) i(3,4) a c fd eq in auto)
    ultimately show ?thesis using c(2) by auto
  qed
qed

text \<open>A complete sequence makes the decoder go on behind its match.\<close>

lemma emitted_seq:
  assumes "emitted oend src out (ip - run)" "run \<le> ip" "ref < ip" "ip - ref < 2 ^ 16" "equal_to src ref ip (4 + m)"
    and "e = ip + 4 + m" "e + 5 \<le> length src" "length src \<le> oend"
  shows "emitted oend src (out @ token_of run m # more_bytes run @ take run (drop (ip - run) src) @ le_bytes 2 (ip - ref) @ more_bytes m) e"
    (is "emitted oend src ?new e")
proof -
  let ?lits = "take run (drop (ip - run) src)" and ?o = "take (ip - run) src"
  have l: "length ?lits = run" "length ?o = ip - run" using assms(2,6,7) by simp_all
  have tk: "?o @ ?lits = take ip src" using take_add [of "ip - run" run src] assms(2) by simp
  have "lz4_decode oend (?new @ rest) [] = lz4_decode oend rest (take e src)" if rest: "6 \<le> length rest" for rest
  proof -
    let ?tail = "token_of run m # more_bytes run @ ?lits @ le_bytes 2 (ip - ref) @ more_bytes m @ rest"
    have "6 \<le> length ?tail" using rest by simp
    then have "lz4_decode oend (out @ ?tail) [] = lz4_decode oend ?tail ?o" using assms(1) by (simp add: emitted_def)
    also have "\<dots> = lz4_decode oend rest (copy_back (ip - ref) (?o @ ?lits) (m + 4))"
      using decode_seq [OF rest, of "ip - ref" ?o ?lits m oend] assms(2-4,6-8) unfolding l by simp
    also have "copy_back (ip - ref) (?o @ ?lits) (m + 4) = take (ip + (m + 4)) src"
      unfolding tk
    proof (rule copy_back_text)
      show "src ! (ip - (ip - ref) + i) = src ! (ip + i)" if "i < m + 4" for i
        using assms(3,5) that by (simp add: equal_to_def)
    qed (use assms(3,6,7) in simp_all)
    finally show ?thesis using assms(6) by (simp add: ac_simps)
  qed
  moreover have "length out \<le> (ip - run) + (ip - run) div 255" using assms(1) by (simp add: emitted_def)
  then have "length ?new \<le> e + e div 255" using seq_room [of "length out" "ip - run" e run m] assms(2,6) l(1) by simp
  ultimately show ?thesis by (simp add: emitted_def)
qed

lemma after_match_step:
  assumes "variant_ok V (length src)" "length out + 1 \<le> B" "e_dest s = out @ r" "length (e_dest s) = B" "e_op s = length out"
    and "emitted oend src out (e_ip s)" "e_ip s + 5 \<le> length src" "table_ok V (e_table s) m" "m + 4 \<le> e_ip s"
  shows "\<exists>label s'. enc_after_match V src (length src) s = Some (label, s') \<and>
    (label = Last_literals \<and> inv_last src oend B s' \<or>
     label = Next_match \<and> inv_next V src oend B s' \<and> e_ip s' = e_ip s \<or>
     label = Main_loop \<and> inv_main V src oend B s' \<and> e_anchor s' = e_ip s)"
proof (cases "e_ip s + 12 > length src")
  case True
  then have "inv_last src oend B (s\<lparr>e_anchor := e_ip s\<rparr>)" using assms(3-7) by (auto simp: inv_last_def)
  then show ?thesis using True by (simp add: enc_after_match_def)
next
  case False
  have k: "hash_log V \<le> 32" using assms(1) by (simp add: variant_ok_def)
  have "e_ip s - 2 + 4 \<le> length src" "e_ip s + 4 \<le> length src" "e_ip s + 1 + 4 \<le> length src" using False by linarith+
  with hash_spec [OF k] obtain h2 h h1 where h: "LZ4_HASH_VALUE V src (e_ip s - 2) = Some h2"
    "LZ4_HASH_VALUE V src (e_ip s) = Some h" "h < 2 ^ hash_log V" "LZ4_HASH_VALUE V src (e_ip s + 1) = Some h1" "h1 < 2 ^ hash_log V"
    by metis
  define tab where "tab = table_set V (e_table s) h2 (e_ip s - 2)"
  define tab' where "tab' = table_set V tab h (e_ip s)"
  have t: "table_ok V tab (e_ip s - 2)" unfolding tab_def using assms(9) by (intro table_ok_set [OF assms(8)]) simp_all
  then have t': "table_ok V tab' (e_ip s)" unfolding tab'_def by (rule table_ok_set) simp_all
  have ref: "tab ! h < e_ip s" using table_ok_nth [OF t h(3)] assms(9) by linarith
  obtain b where b: "candidate V src (tab ! h) (e_ip s) = Some b" "b \<longrightarrow> equal_to src (tab ! h) (e_ip s) 4 \<and> e_ip s - tab ! h < 2 ^ 16"
    using candidate_spec [OF assms(1) ref] False by auto
  note un = enc_after_match_def [of V src "length src" s, unfolded mflimit if_not_P [OF False] h(1,2) Option.bind.simps Let_def,
    folded tab_def, unfolded b(1) Option.bind.simps, folded tab'_def]
  show ?thesis
  proof (cases b)
    case True
    let ?D = "out @ [0] @ drop 1 r"
    let ?s = "s\<lparr>e_table := tab', e_ref := tab ! h, e_dest := ?D, e_op := e_op s + 1, e_token := e_op s\<rparr>"
    have "r \<noteq> []" using assms(2-4) by auto
    then have w: "mem_write (e_dest s) (e_op s) [0] = Some ?D" unfolding assms(3,5) by (simp add: put_byte)
    have "inv_next V src oend B ?s" unfolding inv_next_def
    proof (intro exI conjI)
      show "e_dest ?s = out @ token_of 0 0 # more_bytes 0 @ take 0 (drop (e_ip ?s - 0) src) @ drop 1 r"
        by (simp add: token_of_def more_bytes_def)
      show "length (e_dest ?s) = B" using assms(3,4) \<open>r \<noteq> []\<close> by (cases r) simp_all
      show "e_ip ?s \<le> e_ip s" by simp
    qed (use assms(5,6) t' ref b(2) True False in \<open>simp_all add: more_bytes_def\<close>)
    then show ?thesis unfolding un using True w by simp
  next
    case bad: False
    let ?s = "s\<lparr>e_table := tab', e_ref := tab ! h, e_ip := e_ip s + 1, e_anchor := e_ip s, e_forwardH := h1\<rparr>"
    have "inv_main V src oend B ?s" unfolding inv_main_def
      by (intro exI [of _ out] exI [of _ r] exI [of _ "e_ip s"]) (use assms(3-6) t' h(5) False in simp)
    then show ?thesis unfolding un using bad h(4) by simp
  qed
qed

lemma next_step:
  assumes "variant_ok V (length src)" "LZ4_compressBound (length src) \<le> B" "length src \<le> oend" "inv_next V src oend B s"
  shows "\<exists>label s'. enc_next_match V src (length src) s = Some (label, s') \<and>
    (label = Last_literals \<and> inv_last src oend B s' \<or>
     label = Next_match \<and> inv_next V src oend B s' \<and> e_ip s < e_ip s' \<and> e_ip s' \<le> length src \<or>
     label = Main_loop \<and> inv_main V src oend B s' \<and> e_ip s < e_anchor s')"
proof -
  define ip ref where "ip = e_ip s" and "ref = e_ref s"
  obtain out run r m where i: "e_dest s = out @ token_of run 0 # more_bytes run @ take run (drop (ip - run) src) @ r"
    "length (e_dest s) = B" "e_token s = length out" "e_op s = length out + 1 + length (more_bytes run) + run" "run \<le> ip"
    "emitted oend src out (ip - run)" "ref < ip" "ip - ref < 2 ^ 16" "ip \<le> m" "m + 12 \<le> length src"
    "equal_to src ref ip (m - ip + 4)" "table_ok V (e_table s) m"
    using assms(4) unfolding inv_next_def ip_def ref_def mflimit by blast
  let ?lits = "take run (drop (ip - run) src)"
  have ll: "length ?lits = run" using i(5,9,10) by simp
  have lim: "ip + 4 \<le> length src - 5" using i(9,10) by linarith
  obtain e where e: "count_match src (length src - 5) (ip + 4) (ref + 4) = Some e" "match_end src (length src - 5) (ip + 4) (ref + 4) e"
    using count_match_spec [of "ref + 4" "ip + 4" "length src - 5" src] i(7) lim by auto
  have me: "ip + 4 \<le> e" "e \<le> length src - 5" "equal_to src (ref + 4) (ip + 4) (e - (ip + 4))"
    "e < length src - 5 \<longrightarrow> src ! (ref + 4 + (e - (ip + 4))) \<noteq> src ! e" using e(2) unfolding match_end_def by blast+
  define k where "k = e - (ip + 4)"
  have k: "e = ip + 4 + k" using me(1) by (simp add: k_def)
  have past: "m + 4 \<le> e"
  proof (rule ccontr)
    assume "\<not> m + 4 \<le> e"
    then have "4 + k < m - ip + 4" "e < length src - 5" using i(9,10) k by linarith+
    then have "src ! (ref + (4 + k)) = src ! (ip + (4 + k))" "e < length src - 5"
      using i(11) unfolding equal_to_def by blast+
    then show False using me(4) unfolding k_def [symmetric] by (simp add: k add.assoc)
  qed
  have "equal_to src ref ip 4" using i(11) by (rule equal_to_more) simp
  then have all: "equal_to src ref ip (4 + k)" using equal_to_add me(3) by (simp add: k_def)
  have e5: "e + 5 \<le> length src" using me(2) i(10) by linarith
  let ?new = "out @ token_of run k # more_bytes run @ ?lits @ le_bytes 2 (ip - ref) @ more_bytes k"
  have em: "emitted oend src ?new e" using emitted_seq [OF i(6,5,7,8) all k e5 assms(3)] .
  have "e div 255 \<le> length src div 255" using e5 by (intro div_le_mono) simp
  then have room: "length ?new + 11 \<le> B" using em e5 assms(2) by (simp add: emitted_def LZ4_compressBound_def)
  let ?pre = "out @ token_of run 0 # more_bytes run @ ?lits"
  have dl: "length ?pre + length r = B" "e_op s = length ?pre" "e_dest s = ?pre @ r" using i(1,2,4) ll by simp_all
  define r2 where "r2 = drop 2 r"
  define r3 where "r3 = drop (length (more_bytes k)) r2"
  have rl: "length r2 + 2 = length r" "length (more_bytes k) \<le> length r2" using room dl(1) ll by (simp_all add: r2_def)
  have w1: "mem_write (e_dest s) (e_op s) (le_bytes 2 (ip - ref)) = Some (out @ token_of run 0 # (more_bytes run @ ?lits @ le_bytes 2 (ip - ref)) @ r2)"
    unfolding dl(2,3) using put_at [of "le_bytes 2 (ip - ref)" r ?pre] rl(1) by (simp add: r2_def)
  have "e_op s + 2 = length (out @ token_of run 0 # more_bytes run @ ?lits @ le_bytes 2 (ip - ref))" unfolding dl(2) by simp
  then have w2: "put_match_len (out @ token_of run 0 # (more_bytes run @ ?lits @ le_bytes 2 (ip - ref)) @ r2) (e_token s) (e_op s + 2) k =
      Some (?new @ r3, length ?new)"
    unfolding i(3) using put_match_len_spec [OF rl(2), of out run "more_bytes run @ ?lits @ le_bytes 2 (ip - ref)"] by (simp add: r3_def)
  have nl: "length (?new @ r3) = B" using rl dl(1) by (simp add: r3_def)
  let ?s = "s\<lparr>e_dest := ?new @ r3, e_ip := e, e_anchor := ip + 4, e_op := length ?new\<rparr>"
  have un: "enc_next_match V src (length src) s = enc_after_match V src (length src) ?s"
    unfolding enc_next_match_def ip_def [symmetric] ref_def [symmetric] w1 Option.bind.simps Let_def MINMATCH_def LASTLITERALS_def e(1)
      k_def [symmetric] w2 prod.case by (rule refl)
  have "length ?new + 1 \<le> B" using room by linarith
  from after_match_step [of V src ?new B ?s r3 oend m, OF assms(1) this _ _ _ _ _ _] nl em e5 i(12) past
  obtain label s' where "enc_after_match V src (length src) ?s = Some (label, s')"
    "label = Last_literals \<and> inv_last src oend B s' \<or> label = Next_match \<and> inv_next V src oend B s' \<and> e_ip s' = e \<or>
     label = Main_loop \<and> inv_main V src oend B s' \<and> e_anchor s' = e" by auto
  with me(1) e5 show ?thesis unfolding un ip_def by auto
qed

text \<open>The machine comes to the last literals: every step lowers the measure.\<close>

definition enc_inv :: "lz4_variant \<Rightarrow> byte list \<Rightarrow> nat \<Rightarrow> nat \<Rightarrow> lz4_label \<Rightarrow> lz4_encoder \<Rightarrow> bool" where
  "enc_inv V src oend B label s =
     (case label of Main_loop \<Rightarrow> inv_main V src oend B s | Next_match \<Rightarrow> inv_next V src oend B s | Last_literals \<Rightarrow> inv_last src oend B s)"

definition enc_measure :: "byte list \<Rightarrow> lz4_label \<Rightarrow> lz4_encoder \<Rightarrow> nat" where
  "enc_measure src label s =
     (case label of Main_loop \<Rightarrow> 2 * (length src - e_anchor s) + 1 | Next_match \<Rightarrow> 2 * (length src - e_ip s) | Last_literals \<Rightarrow> 0)"

lemma enc_step_spec:
  assumes "variant_ok V (length src)" "LZ4_compressBound (length src) \<le> B" "length src \<le> oend" "enc_inv V src oend B label s"
    and "label \<noteq> Last_literals"
  shows "\<exists>label' s'. enc_step V src (length src) label s = Some (label', s') \<and> enc_inv V src oend B label' s' \<and>
    enc_measure src label' s' < enc_measure src label s"
proof (cases label)
  case Main_loop
  then have i: "inv_main V src oend B s" using assms(4) by (simp add: enc_inv_def)
  then have "e_anchor s < length src" by (auto simp: inv_main_def)
  with main_step [OF assms(1,2) i] show ?thesis using Main_loop
    by (fastforce simp: enc_step_def enc_inv_def enc_measure_def)
next
  case Next_match
  then have i: "inv_next V src oend B s" using assms(4) by (simp add: enc_inv_def)
  then have "e_ip s < length src" by (auto simp: inv_next_def)
  with next_step [OF assms(1-3) i] show ?thesis using Next_match
    by (fastforce simp: enc_step_def enc_inv_def enc_measure_def)
qed (use assms(5) in simp)

lemma enc_run_spec:
  assumes "variant_ok V (length src)" "LZ4_compressBound (length src) \<le> B" "length src \<le> oend" "enc_inv V src oend B label s"
  shows "\<exists>s'. enc_run V src (length src) label s = Some s' \<and> inv_last src oend B s'"
  using assms(4)
proof (induction "enc_measure src label s" arbitrary: label s rule: less_induct)
  case less
  show ?case
  proof (cases "label = Last_literals")
    case True
    then show ?thesis using less.prems by (subst enc_run.simps) (simp add: enc_inv_def)
  next
    case False
    obtain label' s' where s: "enc_step V src (length src) label s = Some (label', s')" "enc_inv V src oend B label' s'"
      "enc_measure src label' s' < enc_measure src label s"
      using enc_step_spec [OF assms(1-3) less.prems False] by blast
    from less.hyps [OF s(3,2)] s(1) False show ?thesis by (subst enc_run.simps) simp
  qed
qed

text \<open>The last literals complete the block.\<close>

lemma last_literals_spec:
  assumes "D = out @ r" "length D = B" "LZ4_compressBound (length src) \<le> B" "emitted oend src out anchor" "length src \<le> oend"
    and "anchor + 5 \<le> length src \<or> anchor = 0 \<and> out = []" and int: "LZ4_compressBound (length src) < 2 ^ 31"
  shows "\<exists>n D'. last_literals src (length src) D anchor (length out) = Some (n, D') \<and> length D' = B \<and>
    n \<le> length src + length src div 255 + 2 \<and> lz4_decode oend (take n D') [] = Decoded src"
proof -
  let ?run = "length src - anchor" and ?lits = "drop anchor src"
  have a: "anchor \<le> length src" using assms(6) by auto
  have "length out \<le> anchor + anchor div 255" using assms(4) by (simp add: emitted_def)
  from run_room [OF this, of ?run] have room: "length out + 1 + length (more_bytes ?run) + ?run \<le> length src + length src div 255 + 2"
    using a by simp
  let ?pre = "out @ token_of ?run 0 # more_bytes ?run" and ?r = "drop (1 + length (more_bytes ?run)) r"
  have lr: "length out + length r = B" using assms(1,2) by simp
  have p: "put_run D (length out) ?run = Some (?pre @ ?r, length ?pre)"
    unfolding assms(1) using room lr assms(3) by (intro put_run_spec) (simp add: LZ4_compressBound_def)
  have rd: "mem_read src anchor ?run = Some ?lits" using a by (simp add: mem_read_def)
  have w: "mem_write (?pre @ ?r) (length ?pre) ?lits = Some ((?pre @ ?lits) @ drop ?run ?r)"
    using put_at [of ?lits ?r ?pre] room lr assms(3) by (simp add: LZ4_compressBound_def)
  let ?n = "length ?pre + ?run" and ?D = "(?pre @ ?lits) @ drop ?run ?r"
  have fits: "?n < 2 ^ 31" using room int by (simp add: LZ4_compressBound_def)
  have "last_literals src (length src) D anchor (length out) = Some (?n, ?D)"
    unfolding last_literals_def p rd w Option.bind.simps prod.case if_P [OF fits] by (rule refl)
  moreover have "length ?D = B" using room lr assms(3) by (simp add: LZ4_compressBound_def)
  moreover have "?n \<le> length src + length src div 255 + 2" using room by simp
  moreover have "lz4_decode oend (take ?n ?D) [] = Decoded src"
  proof -
    have t: "take ?n ?D = out @ (token_of ?run 0 # more_bytes ?run @ ?lits)" by simp
    have "lz4_decode oend (out @ (token_of ?run 0 # more_bytes ?run @ ?lits)) [] =
        lz4_decode oend (token_of ?run 0 # more_bytes ?run @ ?lits) (take anchor src)"
      using assms(4,6) by (cases "anchor = 0 \<and> out = []") (auto simp: emitted_def simp del: lz4_decode.simps)
    also have "\<dots> = Decoded (take anchor src @ ?lits)"
      using decode_last [of "take anchor src" ?lits oend] a assms(5) by simp
    finally show ?thesis unfolding t by simp
  qed
  ultimately show ?thesis by blast
qed

lemma emitted_start: "emitted oend src [] 0"
  by (simp add: emitted_def)

text \<open>Both encoders, from a table of zeros.\<close>

lemma enc_start:
  assumes "variant_ok V (length src)" "LZ4_compressBound (length src) \<le> length D" "length src \<le> oend" "\<not> length src < MINLENGTH"
    and "table_ok V tab 0" "LZ4_HASH_VALUE V src 1 = Some h" and int: "LZ4_compressBound (length src) < 2 ^ 31"
  defines "s0 \<equiv> \<lparr>e_dest = D, e_table = tab, e_ip = 1, e_anchor = 0, e_op = 0, e_ref = 0, e_token = 0, e_forwardH = h\<rparr>"
  shows "\<exists>n D'. Option.bind (enc_run V src (length src) Main_loop s0) (\<lambda>s. last_literals src (length src) (e_dest s) (e_anchor s) (e_op s)) =
      Some (n, D') \<and> length D' = length D \<and> n \<le> length src + length src div 255 + 2 \<and> lz4_decode oend (take n D') [] = Decoded src"
proof -
  have n: "13 \<le> length src" using assms(4) by (simp add: MINLENGTH_def)
  have "h < 2 ^ hash_log V" using hash_spec [of V 1 src] assms(1,6) n by (auto simp: variant_ok_def)
  then have "inv_main V src oend (length D) s0"
    unfolding inv_main_def s0_def using emitted_start assms(5) n by fastforce
  then have "enc_inv V src oend (length D) Main_loop s0" by (simp add: enc_inv_def)
  from enc_run_spec [OF assms(1-3) this] obtain s where s: "enc_run V src (length src) Main_loop s0 = Some s" "inv_last src oend (length D) s"
    by blast
  then obtain out r where o: "e_dest s = out @ r" "length (e_dest s) = length D" "e_op s = length out" "emitted oend src out (e_anchor s)"
    "e_anchor s + 5 \<le> length src" unfolding inv_last_def by blast
  from last_literals_spec [OF o(1,2) assms(2) o(4) assms(3) _ int] s(1) o(3,5) show ?thesis by auto
qed

lemma variants_ok: "variant_ok variant_any n" "n < LZ4_64KLIMIT \<Longrightarrow> variant_ok variant_64k n"
  by (simp_all add: variant_ok_def variant_any_def variant_64k_def)

lemma compress_small:
  assumes "length src < MINLENGTH" "LZ4_compressBound (length src) \<le> length D" "length src \<le> oend"
    and "LZ4_compressBound (length src) < 2 ^ 31"
  shows "\<exists>n D'. last_literals src (length src) D 0 0 = Some (n, D') \<and> length D' = length D \<and>
    n \<le> length src + length src div 255 + 2 \<and> lz4_decode oend (take n D') [] = Decoded src"
  using last_literals_spec [of D "[]" D "length D" src oend 0] assms emitted_start by simp

lemma LZ4_compress_spec:
  assumes "LZ4_compressBound (length src) \<le> length D" "length src \<le> oend" "LZ4_compressBound (length src) < 2 ^ 31"
  shows "\<exists>n D'. LZ4_compress src D (length src) = Some (n, D') \<and> length D' = length D \<and>
    n \<le> length src + length src div 255 + 2 \<and> lz4_decode oend (take n D') [] = Decoded src"
proof (cases "length src < MINLENGTH")
  case True
  have isize: "\<not> 2 ^ 31 \<le> length src" using assms(3) by (simp add: LZ4_compressBound_def)
  from compress_small [OF True assms] True isize show ?thesis
    by (simp add: LZ4_compress_def LZ4_compress64kCtx_def LZ4_compressCtx_def)
next
  case False
  have isize: "\<not> 2 ^ 31 \<le> length src" using assms(3) by (simp add: LZ4_compressBound_def)
  from False have n: "0 + 4 \<le> length src" "1 + 4 \<le> length src" by (simp_all add: MINLENGTH_def)
  show ?thesis
  proof (cases "length src < LZ4_64KLIMIT")
    case True
    have V: "variant_ok variant_64k (length src)" using variants_ok(2) True .
    obtain h1 where h1: "LZ4_HASH_VALUE variant_64k src 1 = Some h1"
      using hash_spec [OF _ n(2), of variant_64k] V by (auto simp: variant_ok_def)
    have "table_ok variant_64k (replicate (2 ^ hash_log variant_64k) 0) 0" by (simp add: table_ok_def)
    from enc_start [OF V assms(1,2) False this h1 assms(3)] show ?thesis
      unfolding LZ4_compress_def if_not_P [OF isize] if_P [OF True] LZ4_compress64kCtx_def if_not_P [OF False] h1 Option.bind.simps .
  next
    case big: False
    obtain h0 h1 where h: "LZ4_HASH_VALUE variant_any src 0 = Some h0" "LZ4_HASH_VALUE variant_any src 1 = Some h1"
      using hash_spec [OF _ n(1), of variant_any] hash_spec [OF _ n(2), of variant_any] by (auto simp: variant_any_def)
    have "table_ok variant_any (replicate (2 ^ hash_log variant_any) 0) 0" by (simp add: table_ok_def)
    then have "table_ok variant_any (table_set variant_any (replicate (2 ^ hash_log variant_any) 0) h0 0) 0"
      by (rule table_ok_set) simp_all
    from enc_start [OF variants_ok(1) assms(1,2) False this h(2) assms(3)] show ?thesis
      unfolding LZ4_compress_def if_not_P [OF isize] if_not_P [OF big] LZ4_compressCtx_def if_not_P [OF False] h Option.bind.simps .
  qed
qed

section \<open>The wrapper\<close>

lemma lz4_compress_block:
  assumes "ample A" "length src < 2 ^ 30"
  shows "\<exists>blk n. lz4_compress A src = Some (Some (blk, n)) \<and> n \<le> length src + length src div 255 + 2 \<and>
    mem_read blk 0 n = Some (take n blk) \<and> (\<forall>oend \<ge> length src. lz4_decode oend (take n blk) [] = Decoded src)"
proof -
  let ?m = "LZ4_compressBound (length src)"
  have "length src div 255 \<le> 2 ^ 30 div 255" using assms(2) by (intro div_le_mono) simp
  then have m: "?m < 2 ^ 31" "?m < 2 ^ 40" using assms(2) by (simp_all add: LZ4_compressBound_def)
  then obtain b where b: "malloc A ?m = Some b" "?m \<le> length b" using assms(1) malloc_granted [of A ?m] by (auto simp: ample_def)
  obtain n D where d: "LZ4_compress src b (length src) = Some (n, D)" "length D = length b" "n \<le> length src + length src div 255 + 2"
    using LZ4_compress_spec [OF b(2) order_refl m(1)] by blast
  have "lz4_decode oend (take n D) [] = Decoded src" if "length src \<le> oend" for oend
    using LZ4_compress_spec [OF b(2) that m(1)] d(1) by auto
  moreover have "n \<le> length D" using b(2) d(2,3) by (simp add: LZ4_compressBound_def)
  moreover have "lz4_compress A src = Some (Some (D, n))" using m(1) b(1) d(1) by (simp add: lz4_compress_def Let_def)
  ultimately show ?thesis using d(3) by (auto simp: mem_read_def)
qed

lemma lz4_returns:
  assumes "ample A" "length src < 2 ^ 22" "length src + 8 \<le> 1024 * fuel"
  shows "\<exists>blk n blk'. lz4_compress A src = Some (Some (blk, n)) \<and> n \<le> LZ4_compressBound (length src) \<and>
    mem_read blk 0 n = Some (take n blk) \<and>
    lz4_decompress A (Suc fuel) (take n blk) = Some (Some (blk', length src)) \<and> mem_read blk' 0 (length src) = Some src"
proof -
  have small: "length src < 2 ^ 30" using assms(2) by simp
  obtain blk n where c: "lz4_compress A src = Some (Some (blk, n))" "n \<le> length src + length src div 255 + 2"
    "mem_read blk 0 n = Some (take n blk)" "\<forall>oend \<ge> length src. lz4_decode oend (take n blk) [] = Decoded src"
    using lz4_compress_block [OF assms(1) small] by blast
  have "length src div 255 \<le> length src" by simp
  then have "length (take n blk) < 2 ^ 23" using c(2) assms(2) by simp
  moreover have "lz4_decode (Suc (length src)) (take n blk) [] = Decoded src" using c(4) by simp
  ultimately obtain blk' where d: "lz4_decompress A (Suc fuel) (take n blk) = Some (Some (blk', length src))"
    "take (length src) blk' = src"
    using decompress_returns [of "Suc (length src)" "take n blk" src A fuel] assms(1,3) small by auto
  have "mem_read blk' 0 (length src) = Some src" using d(2) by (metis mem_read_def add_0 drop0 length_take min.cobounded1)
  then show ?thesis using c d(1) by (auto simp: LZ4_compressBound_def)
qed

lemma lz4_compressor_keeps:
  assumes "ample A" "length src < 2 ^ 22" "length src + 8 \<le> 1024 * fuel"
  shows "\<exists>c. deflate (Some (lz4_compressor A (Suc fuel))) src = Some c \<and> length c \<le> LZ4_compressBound (length src) \<and>
    inflate (Some (lz4_compressor A (Suc fuel))) c = Some src"
proof -
  obtain blk n blk' where l: "lz4_compress A src = Some (Some (blk, n))" "n \<le> LZ4_compressBound (length src)"
    "mem_read blk 0 n = Some (take n blk)" "lz4_decompress A (Suc fuel) (take n blk) = Some (Some (blk', length src))"
    "mem_read blk' 0 (length src) = Some src"
    using lz4_returns [OF assms] by blast
  then show ?thesis by (intro exI [of _ "take n blk"]) (simp add: deflate_def inflate_def lz4_compressor_def block_bytes_def)
qed

section \<open>Properties\<close>

text \<open>
  C8. For every input whose bound \<open>LZ4_compressBound\<close> is an \<open>int\<close> (below \<open>2 ^ 31\<close>, the limit \<open>lz4.h\<close> states),
  the LZ4 encoder returns without an access outside its blocks when the output block has that many bytes;
  its output stays within the bound and is a block from which the decoder on lists gives the input back,
  with any room for the input or more. Without the limit, the value returned as an \<open>int\<close> may overflow.
\<close>

theorem lz4_encoder_correct:
  assumes "LZ4_compressBound (length src) < 2 ^ 31" "LZ4_compressBound (length src) \<le> length D" "length src \<le> oend"
  shows "\<exists>n D'. LZ4_compress src D (length src) = Some (n, D') \<and> length D' = length D \<and> n \<le> LZ4_compressBound (length src) \<and>
    lz4_decode oend (take n D') [] = Decoded src"
  using LZ4_compress_spec [OF assms(2,3,1)] by (auto simp: LZ4_compressBound_def)

theorem lz4_encoder_correct_witness:
  "\<exists>n D'. LZ4_compress (replicate 30 7) (replicate 46 0) 30 = Some (n, D') \<and> n \<le> 46 \<and>
    lz4_decode 100 (take n D') [] = Decoded (replicate 30 7)"
  using lz4_encoder_correct [of "replicate 30 7" "replicate 46 0" 100] by (fastforce simp: LZ4_compressBound_def)

text \<open>
  C9. \<open>lz4_decompress\<close> of the block \<open>lz4_compress\<close> hands out is the input (below 4 MB, with memory): both return,
  the latter after at most one round for each 1024 bytes, and the block is within the bound.
\<close>

theorem lz4_roundtrip:
  assumes "ample A" "length src < 2 ^ 22" "length src + 8 \<le> 1024 * fuel"
  shows "\<exists>blk n c blk'. lz4_compress A src = Some (Some (blk, n)) \<and> n \<le> LZ4_compressBound (length src) \<and> mem_read blk 0 n = Some c \<and>
    lz4_decompress A (Suc fuel) c = Some (Some (blk', length src)) \<and> mem_read blk' 0 (length src) = Some src"
  using lz4_returns [OF assms] by blast

theorem lz4_roundtrip_witness:
  "\<exists>blk n c blk'. lz4_compress exact_allocator (replicate 3000 7) = Some (Some (blk, n)) \<and> mem_read blk 0 n = Some c \<and>
    lz4_decompress exact_allocator 4 c = Some (Some (blk', 3000)) \<and> mem_read blk' 0 3000 = Some (replicate 3000 7)"
proof -
  have "Suc 3 = 4" by simp
  with lz4_roundtrip [of exact_allocator "replicate 3000 7" 3] show ?thesis by fastforce
qed

end
