(* ===== verification/LA_File.thy ===== *)
theory LA_File
  imports LA_Prelude
begin

text \<open>
  The record file of the unfinished B+ tree (\<open>bptree/file.c\<close>): records with a packed four-byte header and
  an optional MD5 digest are appended to a file and read back by their offset. The C library's
  file operations and MD5 are arguments.
\<close>

section \<open>Data\<close>

datatype file_error =
  FILE_SUCCESS | FILE_SHORT_READ | FILE_SEEK_ERROR | FILE_READ_ERROR | FILE_WRITE_ERROR | FILE_CORRUPTION | FILE_MEMORY_ERROR
| FILE_MINUS_1

record record_header =
  has_md5 :: bool
  rec_length :: "31 word"

definition sizeof_record_header :: nat where "sizeof_record_header = 4"
definition MD5_DIGEST_LENGTH :: nat where "MD5_DIGEST_LENGTH = 16"

text \<open>The two bit fields share four bytes: the flag is the lowest bit.\<close>

definition encode_record_header :: "record_header \<Rightarrow> byte list" where
  "encode_record_header h = le_bytes 4 (2 * unat (rec_length h) + (if has_md5 h then 1 else 0))"

definition decode_record_header :: "byte list \<Rightarrow> record_header" where
  "decode_record_header bs = \<lparr>has_md5 = odd (of_le bs), rec_length = word_of_nat (of_le bs div 2)\<rparr>"

text \<open>A term: the block at \<open>data\<close> (\<open>None\<close> is NULL) and \<open>length\<close>.\<close>

record file_term =
  ft_data :: "byte list option"
  ft_length :: nat

section \<open>The library\<close>

text \<open>
  Seeking to the end and to an offset; writing a vector of buffers, with its count or -1; reading one
  item of a size, which gives it or fails (an item of size 0 is never read).
\<close>

record 'w file_io =
  fopen_op :: "byte list \<Rightarrow> 'w \<Rightarrow> bool \<times> 'w"
  fseek_end_op :: "'w \<Rightarrow> bool \<times> 'w"
  fseek_set_op :: "int \<Rightarrow> 'w \<Rightarrow> bool \<times> 'w"
  writev_op :: "byte list list \<Rightarrow> 'w \<Rightarrow> int \<times> 'w"
  fread_op :: "nat \<Rightarrow> 'w \<Rightarrow> byte list option \<times> 'w"
  fflush_op :: "'w \<Rightarrow> int \<times> 'w"
  fclose_op :: "'w \<Rightarrow> 'w"

section \<open>Operations\<close>

definition sizeof_file_handle :: nat where "sizeof_file_handle = 8"

definition file_open :: "allocator \<Rightarrow> 'w file_io \<Rightarrow> byte list \<Rightarrow> 'w \<Rightarrow> bool \<times> 'w" where
  "file_open A F filename w = (if grant A sizeof_file_handle then fopen_op F filename w else (False, w))"

text \<open>The bytes the vector names must be there: \<open>length\<close> bytes at \<open>data\<close>.\<close>

definition term_bytes :: "file_term \<Rightarrow> byte list option" where
  "term_bytes t =
     (if ft_length t = 0 then Some [] else Option.bind (ft_data t) (\<lambda>d. mem_read d 0 (ft_length t)))"

definition file_append :: "'w file_io \<Rightarrow> file_term \<Rightarrow> 'w \<Rightarrow> (file_error \<times> 'w) option" where
  "file_append F t w =
     (case fseek_end_op F w of
        (False, w1) \<Rightarrow> Some (FILE_SEEK_ERROR, w1)
      | (True, w1) \<Rightarrow> do {
          bs \<leftarrow> term_bytes t;
          let header = encode_record_header \<lparr>has_md5 = False, rec_length = word_of_nat (ft_length t)\<rparr>;
          let (n, w2) = writev_op F [header, bs] w1;
          Some (if n \<noteq> 0 then FILE_WRITE_ERROR else FILE_SUCCESS, w2) })"

definition file_append_md5 :: "'w file_io \<Rightarrow> file_term \<Rightarrow> byte list \<Rightarrow> 'w \<Rightarrow> (file_error \<times> 'w) option" where
  "file_append_md5 F t md5 w =
     (case fseek_end_op F w of
        (False, w1) \<Rightarrow> Some (FILE_SEEK_ERROR, w1)
      | (True, w1) \<Rightarrow> do {
          digest \<leftarrow> mem_read md5 0 MD5_DIGEST_LENGTH;
          bs \<leftarrow> term_bytes t;
          let header = encode_record_header \<lparr>has_md5 = True, rec_length = word_of_nat (ft_length t)\<rparr>;
          let (n, w2) = writev_op F [header, digest, bs] w1;
          Some (if n \<noteq> 0 then FILE_WRITE_ERROR else FILE_SUCCESS, w2) })"

text \<open>The header, and the digest when it announces one; \<open>None\<close> is a read error.\<close>

definition read_header :: "'w file_io \<Rightarrow> 'w \<Rightarrow> (record_header \<times> byte list) option \<times> 'w" where
  "read_header F w =
     (case fread_op F sizeof_record_header w of
        (None, w1) \<Rightarrow> (None, w1)
      | (Some hb, w1) \<Rightarrow>
          let h = decode_record_header hb in
          if \<not> has_md5 h then (Some (h, []), w1)
          else (case fread_op F MD5_DIGEST_LENGTH w1 of
                  (None, w2) \<Rightarrow> (None, w2)
                | (Some d, w2) \<Rightarrow> (Some (h, d), w2)))"

text \<open>
  Reading: the result, the caller's term afterwards, and the state. The digest is computed over the
  record's whole length, also when the caller's block is shorter. A block that was allocated here
  is released after a failure, and the term keeps its address.
\<close>

definition file_read ::
  "allocator \<Rightarrow> (byte list \<Rightarrow> byte list) \<Rightarrow> 'w file_io \<Rightarrow> int \<Rightarrow> file_term \<Rightarrow> 'w \<Rightarrow> (file_error \<times> file_term \<times> 'w) option" where
  "file_read A md5 F off t w =
     (case fseek_set_op F off w of
        (False, w1) \<Rightarrow> Some (FILE_SEEK_ERROR, t, w1)
      | (True, w1) \<Rightarrow>
          (case read_header F w1 of
             (None, w2) \<Rightarrow> Some (FILE_READ_ERROR, t, w2)
           | (Some (h, file_md5), w2) \<Rightarrow>
               let n = unat (rec_length h);
                   t1 = (case ft_data t of
                           None \<Rightarrow> \<lparr>ft_data = malloc A n, ft_length = n\<rparr>
                         | Some d \<Rightarrow> t\<lparr>ft_length := min n (ft_length t)\<rparr>) in
               (case ft_data t1 of
                  None \<Rightarrow> Some (FILE_MEMORY_ERROR, t1, w2)
                | Some block \<Rightarrow>
                    (case fread_op F (ft_length t1) w2 of
                       (None, w3) \<Rightarrow> Some (FILE_MINUS_1, t1, w3)
                     | (Some bs, w3) \<Rightarrow> do {
                         block1 \<leftarrow> mem_write block 0 bs;
                         let t2 = t1\<lparr>ft_data := Some block1\<rparr>;
                         good \<leftarrow> (if has_md5 h then map_option (\<lambda>x. md5 x = file_md5) (mem_read block1 0 n) else Some True);
                         Some (if \<not> good then (FILE_CORRUPTION, t2, w3)
                               else if ft_length t2 < n then (FILE_SHORT_READ, t2\<lparr>ft_length := n\<rparr>, w3)
                               else (FILE_SUCCESS, t2, w3)) }))))"

text \<open>
  The variant with a callback: the calls it makes. It makes none when the record was read, and none
  when the digest is wrong.
\<close>

definition file_read_cb ::
  "allocator \<Rightarrow> (byte list \<Rightarrow> byte list) \<Rightarrow> 'w file_io \<Rightarrow> int \<Rightarrow> 'w \<Rightarrow> (file_error list \<times> 'w) option" where
  "file_read_cb A md5 F off w =
     (case fseek_set_op F off w of
        (False, w1) \<Rightarrow> Some ([FILE_SEEK_ERROR], w1)
      | (True, w1) \<Rightarrow>
          (case read_header F w1 of
             (None, w2) \<Rightarrow> Some ([FILE_READ_ERROR], w2)
           | (Some (h, file_md5), w2) \<Rightarrow>
               (case malloc A (unat (rec_length h)) of
                  None \<Rightarrow> Some ([FILE_MEMORY_ERROR], w2)
                | Some block \<Rightarrow>
                    (case fread_op F (unat (rec_length h)) w2 of
                       (None, w3) \<Rightarrow> Some ([FILE_READ_ERROR], w3)
                     | (Some bs, w3) \<Rightarrow> Some ([], w3)))))"

definition file_flush :: "'w file_io \<Rightarrow> 'w \<Rightarrow> int \<times> 'w" where
  "file_flush F w = fflush_op F w"

definition file_close :: "'w file_io \<Rightarrow> 'w \<Rightarrow> int \<times> 'w" where
  "file_close F w = (0, fclose_op F w)"

section \<open>The header as bytes\<close>

lemma decode_encode_record_header: "decode_record_header (encode_record_header h) = h"
proof -
  let ?b = "if has_md5 h then 1 else (0 :: nat)"
  have lt: "unat (rec_length h) < 2 ^ 31" using unsigned_less [where 'a = nat, of "rec_length h"] by simp
  then have "2 * unat (rec_length h) + ?b < 256 ^ 4" by simp
  then have "of_le (encode_record_header h) = 2 * unat (rec_length h) + ?b"
    unfolding encode_record_header_def of_le_le_bytes by (rule mod_less)
  then show ?thesis by (simp add: decode_record_header_def)
qed

section \<open>A disk that works\<close>

text \<open>The laws of the operations on a file whose bytes are \<open>content w\<close> and whose position is \<open>pos w\<close>.\<close>

locale disk =
  fixes F :: "'w file_io" and content :: "'w \<Rightarrow> byte list" and pos :: "'w \<Rightarrow> nat"
  assumes seek_end: "\<exists>w'. fseek_end_op F w = (True, w') \<and> content w' = content w \<and> pos w' = length (content w)"
    and seek_set: "\<exists>w'. fseek_set_op F (int n) w = (True, w') \<and> content w' = content w \<and> pos w' = n"
    and write_end: "pos w = length (content w) \<Longrightarrow>
      \<exists>w'. writev_op F bufs w = (int (length (concat bufs)), w') \<and> content w' = content w @ concat bufs"
    and read_item: "0 < n \<Longrightarrow> pos w + n \<le> length (content w) \<Longrightarrow>
      \<exists>w'. fread_op F n w = (Some (take n (drop (pos w) (content w))), w') \<and> content w' = content w \<and> pos w' = pos w + n"
    and read_nothing: "\<exists>w'. fread_op F 0 w = (None, w') \<and> content w' = content w"
begin

lemma append_writes:
  assumes "term_bytes t = Some bs"
  shows "\<exists>w'. file_append F t w = Some (FILE_WRITE_ERROR, w') \<and>
    content w' = content w @ encode_record_header \<lparr>has_md5 = False, rec_length = word_of_nat (ft_length t)\<rparr> @ bs"
proof -
  let ?h = "encode_record_header \<lparr>has_md5 = False, rec_length = word_of_nat (ft_length t)\<rparr>"
  obtain w1 where w1: "fseek_end_op F w = (True, w1)" "content w1 = content w" "pos w1 = length (content w1)"
    using seek_end [of w] by auto
  obtain w2 where "writev_op F [?h, bs] w1 = (int (length (concat [?h, bs])), w2)" "content w2 = content w1 @ concat [?h, bs]"
    using write_end [OF w1(3)] by blast
  moreover have "length ?h = 4" by (simp add: encode_record_header_def)
  ultimately show ?thesis using w1(1,2) assms by (simp add: file_append_def Let_def)
qed

lemma append_md5_writes:
  assumes "term_bytes t = Some bs" "length digest = 16"
  shows "\<exists>w'. file_append_md5 F t digest w = Some (FILE_WRITE_ERROR, w') \<and>
    content w' = content w @ encode_record_header \<lparr>has_md5 = True, rec_length = word_of_nat (ft_length t)\<rparr> @ digest @ bs"
proof -
  let ?h = "encode_record_header \<lparr>has_md5 = True, rec_length = word_of_nat (ft_length t)\<rparr>"
  obtain w1 where w1: "fseek_end_op F w = (True, w1)" "content w1 = content w" "pos w1 = length (content w1)"
    using seek_end [of w] by auto
  obtain w2 where "writev_op F [?h, digest, bs] w1 = (int (length (concat [?h, digest, bs])), w2)"
    "content w2 = content w1 @ concat [?h, digest, bs]"
    using write_end [OF w1(3)] by blast
  moreover have "mem_read digest 0 MD5_DIGEST_LENGTH = Some digest" using assms(2) by (simp add: mem_read_def MD5_DIGEST_LENGTH_def)
  moreover have "length ?h = 4" by (simp add: encode_record_header_def)
  ultimately show ?thesis using w1(1,2) assms(1) by (simp add: file_append_md5_def Let_def)
qed

text \<open>Reading a record that lies at an offset.\<close>

lemma read_record:
  assumes "content w = before @ encode_record_header h @ digest @ bs @ behind"
    and "length digest = (if has_md5 h then 16 else 0)" "length bs = unat (rec_length h)" "0 < length bs" "grant A (length bs)"
  shows "\<exists>t w'. file_read A md5 F (int (length before)) \<lparr>ft_data = None, ft_length = l\<rparr> w =
      Some (if has_md5 h \<longrightarrow> md5 bs = digest then FILE_SUCCESS else FILE_CORRUPTION, t, w') \<and>
    content w' = content w \<and> term_bytes t = Some bs"
proof -
  let ?n = "unat (rec_length h)"
  have lh: "length (encode_record_header h) = 4" by (simp add: encode_record_header_def)
  obtain w1 where w1: "fseek_set_op F (int (length before)) w = (True, w1)" "content w1 = content w" "pos w1 = length before"
    using seek_set by blast
  have "\<exists>w2. fread_op F 4 w1 = (Some (take 4 (drop (pos w1) (content w1))), w2) \<and> content w2 = content w1 \<and> pos w2 = pos w1 + 4"
    by (rule read_item) (simp_all add: w1 assms(1) lh)
  then obtain w2 where w2: "fread_op F 4 w1 = (Some (encode_record_header h), w2)" "content w2 = content w" "pos w2 = length before + 4"
    using w1(2,3) lh by (auto simp: assms(1))
  have "\<exists>w3. read_header F w1 = (Some (h, digest), w3) \<and> content w3 = content w \<and> pos w3 = length before + 4 + length digest"
  proof (cases "has_md5 h")
    case False
    then show ?thesis using w2 assms(2)
      by (simp add: read_header_def sizeof_record_header_def decode_encode_record_header)
  next
    case True
    have "\<exists>w3. fread_op F 16 w2 = (Some (take 16 (drop (pos w2) (content w2))), w3) \<and> content w3 = content w2 \<and> pos w3 = pos w2 + 16"
      by (rule read_item) (use True assms(2) in \<open>simp_all add: w2 assms(1) lh\<close>)
    then obtain w3 where "fread_op F 16 w2 = (Some digest, w3)" "content w3 = content w" "pos w3 = length before + 4 + 16"
      using w2(2,3) lh True assms(2) by (auto simp: assms(1))
    then show ?thesis using w2 True assms(2)
      by (simp add: read_header_def sizeof_record_header_def decode_encode_record_header MD5_DIGEST_LENGTH_def)
  qed
  then obtain w3 where w3: "read_header F w1 = (Some (h, digest), w3)" "content w3 = content w"
    "pos w3 = length before + 4 + length digest" by blast
  have "\<exists>w4. fread_op F ?n w3 = (Some (take ?n (drop (pos w3) (content w3))), w4) \<and> content w4 = content w3 \<and> pos w4 = pos w3 + ?n"
    by (rule read_item) (use assms(3,4) in \<open>simp_all add: w3 assms(1) lh\<close>)
  then obtain w4 where w4: "fread_op F ?n w3 = (Some bs, w4)" "content w4 = content w"
    using w3(2,3) lh assms(3) by (auto simp: assms(1))
  obtain blk where blk: "malloc A ?n = Some blk" "?n \<le> length blk" using malloc_granted assms(3,5) by metis
  define b1 where "b1 = bs @ drop ?n blk"
  have mw: "mem_write blk 0 bs = Some b1" using blk(2) assms(3) by (simp add: mem_write_def b1_def)
  have rd: "mem_read b1 0 ?n = Some bs" using assms(3) blk(2) by (simp add: mem_read_def b1_def)
  have "file_read A md5 F (int (length before)) \<lparr>ft_data = None, ft_length = l\<rparr> w =
      Some (if has_md5 h \<longrightarrow> md5 bs = digest then FILE_SUCCESS else FILE_CORRUPTION, \<lparr>ft_data = Some b1, ft_length = ?n\<rparr>, w4)"
    using w1(1) w3(1) blk(1) w4(1) mw rd by (simp add: file_read_def Let_def)
  then show ?thesis using w4(2) rd assms(3,4) by (auto simp: term_bytes_def)
qed

text \<open>A record of no bytes cannot be read.\<close>

lemma read_empty:
  assumes "content w = before @ encode_record_header \<lparr>has_md5 = False, rec_length = 0\<rparr> @ behind" "grant A 0"
  shows "\<exists>t w'. file_read A md5 F (int (length before)) \<lparr>ft_data = None, ft_length = l\<rparr> w = Some (FILE_MINUS_1, t, w')"
proof -
  let ?h = "\<lparr>has_md5 = False, rec_length = 0\<rparr> :: record_header"
  have lh: "length (encode_record_header ?h) = 4" by (simp add: encode_record_header_def)
  obtain w1 where w1: "fseek_set_op F (int (length before)) w = (True, w1)" "content w1 = content w" "pos w1 = length before"
    using seek_set by blast
  have "\<exists>w2. fread_op F 4 w1 = (Some (take 4 (drop (pos w1) (content w1))), w2) \<and> content w2 = content w1 \<and> pos w2 = pos w1 + 4"
    by (rule read_item) (simp_all add: w1 assms(1) lh)
  then obtain w2 where "fread_op F 4 w1 = (Some (encode_record_header ?h), w2)"
    using w1(2,3) lh by (auto simp: assms(1))
  then have "read_header F w1 = (Some (?h, []), w2)"
    by (simp add: read_header_def sizeof_record_header_def decode_encode_record_header)
  then show ?thesis using w1(1) assms(2) read_nothing [of w2]
    by (auto simp: file_read_def Let_def malloc_def)
qed

end

text \<open>A file in memory.\<close>

definition mem_file :: "(byte list \<times> nat) file_io" where
  "mem_file =
     \<lparr>fopen_op = (\<lambda>_ w. (True, w)),
      fseek_end_op = (\<lambda>(c, p). (True, (c, length c))),
      fseek_set_op = (\<lambda>off (c, p). (True, (c, nat off))),
      writev_op = (\<lambda>bufs (c, p). (int (length (concat bufs)), (c @ concat bufs, p + length (concat bufs)))),
      fread_op = (\<lambda>n (c, p). if 0 < n \<and> p + n \<le> length c then (Some (take n (drop p c)), (c, p + n)) else (None, (c, p))),
      fflush_op = (\<lambda>w. (0, w)), fclose_op = (\<lambda>w. w)\<rparr>"

interpretation mem_disk: disk mem_file fst snd
  by unfold_locales (auto simp: mem_file_def)

section \<open>Properties\<close>

text \<open>
  C33. A record that is appended can be read back at the offset where the file ended: \<open>file_read\<close> gives
  its bytes, and reports corruption exactly when the digest stored with it is not the MD5 of its
  bytes. The append itself reports a write error although it wrote everything. (For terms of 1 to
  \<open>2 ^ 31 - 1\<close> bytes, on a disk that works, with memory for the term. An empty term can be appended but not read back.)
\<close>

theorem file_append_read:
  assumes "disk F content pos" "term_bytes t = Some bs" "0 < ft_length t" "ft_length t < 2 ^ 31" "length digest = 16"
    and "grant A (ft_length t)"
  shows "\<exists>w1 t1 w2 w3 t3 w4.
    file_append F t w = Some (FILE_WRITE_ERROR, w1) \<and>
    file_read A md5 F (int (length (content w))) \<lparr>ft_data = None, ft_length = 0\<rparr> w1 = Some (FILE_SUCCESS, t1, w2) \<and>
    term_bytes t1 = Some bs \<and>
    file_append_md5 F t digest w = Some (FILE_WRITE_ERROR, w3) \<and>
    file_read A md5 F (int (length (content w))) \<lparr>ft_data = None, ft_length = 0\<rparr> w3 =
      Some (if md5 bs = digest then FILE_SUCCESS else FILE_CORRUPTION, t3, w4) \<and> term_bytes t3 = Some bs"
proof -
  have l: "length bs = ft_length t"
    using assms(2,3) by (auto simp: term_bytes_def bind_eq_Some_conv dest: mem_read_length)
  let ?h = "\<lambda>b. \<lparr>has_md5 = b, rec_length = word_of_nat (ft_length t)\<rparr>"
  have u: "length bs = unat (rec_length (?h b))" for b
    using assms(4) l by (simp add: unat_of_nat take_bit_nat_eq_self)
  obtain w1 where w1: "file_append F t w = Some (FILE_WRITE_ERROR, w1)"
    "content w1 = content w @ encode_record_header (?h False) @ [] @ bs @ []"
    using disk.append_writes [OF assms(1,2)] by fastforce
  obtain t1 w2 where r1: "file_read A md5 F (int (length (content w))) \<lparr>ft_data = None, ft_length = 0\<rparr> w1 = Some (FILE_SUCCESS, t1, w2)"
    "term_bytes t1 = Some bs"
    using disk.read_record [OF assms(1) w1(2) _ u] assms(3,6) l by fastforce
  obtain w3 where w3: "file_append_md5 F t digest w = Some (FILE_WRITE_ERROR, w3)"
    "content w3 = content w @ encode_record_header (?h True) @ digest @ bs @ []"
    using disk.append_md5_writes [OF assms(1,2,5)] by fastforce
  obtain t3 w4 where r3: "file_read A md5 F (int (length (content w))) \<lparr>ft_data = None, ft_length = 0\<rparr> w3 =
      Some (if md5 bs = digest then FILE_SUCCESS else FILE_CORRUPTION, t3, w4)" "term_bytes t3 = Some bs"
    using disk.read_record [OF assms(1) w3(2) _ u] assms(3,5,6) l by fastforce
  show ?thesis using w1(1) r1 w3(1) r3 by blast
qed

theorem file_append_read_witness:
  "\<exists>w1 t1 w2. file_append mem_file \<lparr>ft_data = Some [1, 2, 3], ft_length = 3\<rparr> ([9], 0) = Some (FILE_WRITE_ERROR, w1) \<and>
    file_read exact_allocator (\<lambda>_. []) mem_file 1 \<lparr>ft_data = None, ft_length = 0\<rparr> w1 = Some (FILE_SUCCESS, t1, w2) \<and>
    term_bytes t1 = Some [1, 2, 3]"
proof -
  have "term_bytes \<lparr>ft_data = Some [1, 2, 3], ft_length = 3\<rparr> = Some [1, 2, 3]" by (simp add: term_bytes_def mem_read_def)
  from file_append_read [OF mem_disk.disk_axioms this, of "replicate 16 0" exact_allocator "([9], 0)" "\<lambda>_. []"]
  show ?thesis by auto
qed

end
