(* ===== verification/LA_Cache.thy ===== *)
theory LA_Cache
  imports LA_Documents
begin

text \<open>
  The cache of open databases of the nginx module (\<open>ngx_http_loungeact/db_cache.c\<close>): a hash table (\<open>LA_Uthash\<close>) whose
  order is the order of last use. One call at a time (each holds the mutex while it works on the table).

  The table is filled with \<open>HASH_ADD_STR\<close> by the member \<open>name\<close>, which is a pointer, so the key is the pointer, the
  members behind it, and the table's links, as many bytes as the name has (\<open>LA_Named\<close>).
\<close>

section \<open>State\<close>

text \<open>An entry, with what its pointers point to, its counter and the padding behind it.\<close>

record ('e, 's, 'i, 'w) db_cache_entry =
  ce_name_ptr :: u64
  ce_name :: "byte list"
  ce_db_ptr :: u64
  ce_db :: "('e, 's, 'i, 'w) la_db"
  ce_refcount :: "32 word"
  ce_pad :: "32 word"

record ('e, 's, 'i, 'w) db_cache =
  maxsize :: "32 word"
  cache_table :: "('e, 's, 'i, 'w) db_cache_entry ut_hash"

definition sizeof_cache_entry :: nat where "sizeof_cache_entry = 80"

text \<open>
  What a call depends on besides its arguments: the addresses of a new entry, of a new table, of the copy of the name and
  of the database, and what the block of a new entry holds where the handle is.
\<close>

record cache_env =
  cx_entry :: nat
  cx_table :: nat
  cx_name_ptr :: u64
  cx_db_ptr :: u64
  cx_handle :: UT_hash_handle

section \<open>The table\<close>

text \<open>The bytes of an entry from its member \<open>name\<close> on, which is the first.\<close>

definition cache_key :: "('e, 's, 'i, 'w) db_cache_entry ut_elt \<Rightarrow> byte list" where
  "cache_key x = le_bytes 8 (unat (ce_name_ptr (payload x))) @ le_bytes 8 (unat (ce_db_ptr (payload x))) @
     le_bytes 4 (unat (ce_refcount (payload x))) @ le_bytes 4 (unat (ce_pad (payload x))) @ handle_bytes 24 (hh x)"

definition cache_incref :: "nat \<Rightarrow> ('e, 's, 'i, 'w) db_cache_entry ut_hash \<Rightarrow> ('e, 's, 'i, 'w) db_cache_entry ut_hash option" where
  "cache_incref e U = do {
     x \<leftarrow> ut_elts U e;
     Some (U\<lparr>ut_elts := (ut_elts U)(e \<mapsto> x\<lparr>payload := (payload x)\<lparr>ce_refcount := ce_refcount (payload x) + 1\<rparr>\<rparr>)\<rparr>) }"

text \<open>An entry that nobody refers to any more is freed.\<close>

definition cache_decref ::
  "nat \<Rightarrow> ('e, 's, 'i, 'w) db_cache_entry ut_hash \<Rightarrow> ('w, ('e, 's, 'i, 'w) db_cache_entry ut_hash) act" where
  "cache_decref e U w = do {
     x \<leftarrow> ut_elts U e;
     if ce_refcount (payload x) - 1 = 0
     then do { (_, w1) \<leftarrow> la_db_close (ce_db (payload x)) w; Some (U\<lparr>ut_elts := (ut_elts U)(e := None)\<rparr>, w1) }
     else Some (U\<lparr>ut_elts := (ut_elts U)(e \<mapsto> x\<lparr>payload := (payload x)\<lparr>ce_refcount := ce_refcount (payload x) - 1\<rparr>\<rparr>)\<rparr>, w) }"

section \<open>Operations\<close>

definition db_cache_init :: "int \<Rightarrow> ('e, 's, 'i, 'w) db_cache" where
  "db_cache_init limit = \<lparr>maxsize = word_of_int limit, cache_table = ut_empty\<rparr>"

text \<open>
  A database that was not found: it is opened and put last. The counter of a new entry is whatever
  \<open>malloc\<close> gave. When the table is too large its first entry is dropped; it can be the new one, which
  is then read after it was freed.
\<close>

definition open_new ::
  "allocator \<Rightarrow> cache_env \<Rightarrow> ('e, 's, 'i, 'w) registry \<Rightarrow> 'e la_host \<Rightarrow> ('e, 's, 'i, 'w) db_cache \<Rightarrow>
   byte list \<Rightarrow> open_flags \<Rightarrow>
   ('w, (la_storage_open_result \<times> ('e, 's, 'i, 'w) la_db option) \<times> ('e, 's, 'i, 'w) db_cache) act" where
  "open_new A E drivers host cache name flags w =
     (case malloc A sizeof_cache_entry of
        None \<Rightarrow> Some (((LA_STORAGE_OPEN_ERROR, None), cache), w)
      | Some blk \<Rightarrow> do {
          ((result, opened), w1) \<leftarrow> la_db_open A drivers host name flags w;
          if result \<noteq> LA_STORAGE_OPEN_OK \<and> result \<noteq> LA_STORAGE_OPEN_CREATED then Some (((result, None), cache), w1)
          else if \<not> grant A (add_sz (length name) 1) then None
          else do {
            db \<leftarrow> opened;
            let found = cx_entry E;
            let entry = \<lparr>hh = cx_handle E, payload =
                  \<lparr>ce_name_ptr = cx_name_ptr E, ce_name = name, ce_db_ptr = cx_db_ptr E, ce_db = db,
                   ce_refcount = word_of_nat (of_le (take 4 (drop 16 blk))), ce_pad = word_of_nat (of_le (take 4 (drop 20 blk)))\<rparr>\<rparr>;
            let U = (cache_table cache)\<lparr>ut_elts := (ut_elts (cache_table cache))(found \<mapsto> entry)\<rparr>;
            U1 \<leftarrow> HASH_ADD_STR A cache_key (cx_table E) U (ce_name (payload entry)) found;
            U2 \<leftarrow> cache_incref found U1;
            count \<leftarrow> HASH_COUNT U2;
            (U3, w2) \<leftarrow>
              (if count > unat (maxsize cache)
               then do {
                 let e = ut_head U2;
                 U3 \<leftarrow> HASH_DELETE U2 e;
                 cache_decref e U3 w1 }
               else Some (U2, w1));
            x \<leftarrow> ut_elts U3 found;
            Some (((result, Some (ce_db (payload x))), cache\<lparr>cache_table := U3\<rparr>), w2) } })"

definition db_cache_open ::
  "allocator \<Rightarrow> cache_env \<Rightarrow> ('e, 's, 'i, 'w) registry \<Rightarrow> 'e la_host \<Rightarrow> ('e, 's, 'i, 'w) db_cache \<Rightarrow>
   byte list \<Rightarrow> open_flags \<Rightarrow>
   ('w, (la_storage_open_result \<times> ('e, 's, 'i, 'w) la_db option) \<times> ('e, 's, 'i, 'w) db_cache) act" where
  "db_cache_open A E drivers host cache name flags w = do {
     found \<leftarrow> HASH_FIND_STR cache_key (cache_table cache) name;
     if found = 0 then open_new A E drivers host cache name flags w
     else do {
       U1 \<leftarrow> HASH_DELETE (cache_table cache) found;
       x \<leftarrow> ut_elts U1 found;
       U2 \<leftarrow> HASH_ADD_STR A cache_key (cx_table E) U1 (ce_name (payload x)) found;
       if flag_create flags \<and> flag_excl flags
       then Some (((LA_STORAGE_OPEN_EXISTS, None), cache\<lparr>cache_table := U2\<rparr>), w)
       else do {
         U3 \<leftarrow> cache_incref found U2;
         x \<leftarrow> ut_elts U3 found;
         Some (((LA_STORAGE_OPEN_OK, Some (ce_db (payload x))), cache\<lparr>cache_table := U3\<rparr>), w) } } }"

section \<open>What the cache keeps\<close>

interpretation cache_names: name_table "cache_key :: ('e, 's, 'i, 'w) db_cache_entry ut_elt \<Rightarrow> byte list" ce_name_ptr ce_name 76
  by unfold_locales (simp_all add: cache_key_def)

text \<open>
  The table holds the entries \<open>es\<close> in the order of their last use, \<open>maxsize\<close> at most, and their pointers are
  addresses of a program (below \<open>2 ^ 48\<close>).
\<close>

definition names_of :: "('e, 's, 'i, 'w) db_cache_entry ut_heap \<Rightarrow> nat list \<Rightarrow> byte list list" where
  "names_of E es = map (\<lambda>p. ce_name (payload (the (E p)))) es"

definition low_pointers :: "('e, 's, 'i, 'w) db_cache_entry ut_heap \<Rightarrow> nat list \<Rightarrow> bool" where
  "low_pointers E es = (\<forall>p \<in> set es. unat (ce_name_ptr (payload (the (E p)))) < 2 ^ 48)"

definition cache_ok :: "('e, 's, 'i, 'w) db_cache \<Rightarrow> nat list \<Rightarrow> bool" where
  "cache_ok cache es =
     (named_ok ce_name_ptr ce_name 76 (cache_table cache) es \<and> length es \<le> unat (maxsize cache) \<and>
      low_pointers (ut_elts (cache_table cache)) es)"

text \<open>The address of a new entry is one that is not in use.\<close>

definition fresh_entry :: "cache_env \<Rightarrow> ('e, 's, 'i, 'w) db_cache \<Rightarrow> bool" where
  "fresh_entry E cache = (cx_entry E \<noteq> 0 \<and> ut_elts (cache_table cache) (cx_entry E) = None \<and> unat (cx_name_ptr E) < 2 ^ 48)"

text \<open>Names and pointers stay as long as the other members are written only.\<close>

definition same_names :: "('e, 's, 'i, 'w) db_cache_entry ut_heap \<Rightarrow> ('e, 's, 'i, 'w) db_cache_entry ut_heap \<Rightarrow> nat list \<Rightarrow> bool" where
  "same_names E E' es = (\<forall>p \<in> set es. E p \<noteq> None \<and>
     map_option (\<lambda>x. (ce_name (payload x), ce_name_ptr (payload x))) (E' p) = map_option (\<lambda>x. (ce_name (payload x), ce_name_ptr (payload x))) (E p))"

lemma same_namesD:
  assumes "same_names E E' es"
  shows "names_of E' es = names_of E es" "low_pointers E' es = low_pointers E es"
proof -
  have p: "ce_name (payload (the (E' p))) = ce_name (payload (the (E p))) \<and> ce_name_ptr (payload (the (E' p))) = ce_name_ptr (payload (the (E p)))"
    if "p \<in> set es" for p
    using assms that by (cases "E p"; cases "E' p") (fastforce simp: same_names_def)+
  show "names_of E' es = names_of E es" using p by (simp add: names_of_def)
  show "low_pointers E' es = low_pointers E es" using p by (simp add: low_pointers_def)
qed

lemma payload_same_names:
  assumes "\<And>p. map_option payload (E' p) = map_option payload (E p)" "\<forall>p \<in> set es. E p \<noteq> None"
  shows "same_names E E' es"
  unfolding same_names_def
proof (intro ballI conjI)
  fix p assume "p \<in> set es"
  then show "E p \<noteq> None" using assms(2) by blast
  show "map_option (\<lambda>x. (ce_name (payload x), ce_name_ptr (payload x))) (E' p) = map_option (\<lambda>x. (ce_name (payload x), ce_name_ptr (payload x))) (E p)"
    using assms(1) [of p] by (cases "E p"; cases "E' p") simp_all
qed

text \<open>What a call that opened a database leaves.\<close>

definition put_last :: "nat \<Rightarrow> 'x list \<Rightarrow> 'x \<Rightarrow> 'x list" where
  "put_last n xs x = (if length xs < n then xs @ [x] else tl (xs @ [x]))"

text \<open>Counting references.\<close>

lemma incref_keeps:
  assumes "named_ok ce_name_ptr ce_name 76 U es" "cache_incref e U = Some U'"
  shows "named_ok ce_name_ptr ce_name 76 U' es" "same_names (ut_elts U) (ut_elts U') es"
    "\<exists>x x'. ut_elts U e = Some x \<and> ut_elts U' e = Some x' \<and> ce_db (payload x') = ce_db (payload x)"
proof -
  obtain x where x: "ut_elts U e = Some x"
    "U' = U\<lparr>ut_elts := (ut_elts U)(e \<mapsto> x\<lparr>payload := (payload x)\<lparr>ce_refcount := ce_refcount (payload x) + 1\<rparr>\<rparr>)\<rparr>"
    using assms(2) by (auto simp: cache_incref_def bind_eq_Some_conv)
  show "named_ok ce_name_ptr ce_name 76 U' es" unfolding x(2) by (rule named_ok_payload [OF assms(1) x(1)]) simp_all
  show "same_names (ut_elts U) (ut_elts U') es" using named_ok_dom [OF assms(1)] x by (auto simp: same_names_def)
  show "\<exists>x x'. ut_elts U e = Some x \<and> ut_elts U' e = Some x' \<and> ce_db (payload x') = ce_db (payload x)"
    using x by simp
qed

lemma decref_keeps:
  assumes "named_ok ce_name_ptr ce_name 76 U es" "cache_decref e U w = Some (U', w')" "e \<notin> set es"
  shows "named_ok ce_name_ptr ce_name 76 U' es \<and> (\<forall>p. p \<noteq> e \<longrightarrow> ut_elts U' p = ut_elts U p)"
proof -
  obtain E where E: "U' = U\<lparr>ut_elts := E\<rparr>" "\<forall>p. p \<noteq> e \<longrightarrow> E p = ut_elts U p"
    using assms(2) by (auto simp: cache_decref_def bind_eq_Some_conv split: if_splits)
  have "\<forall>p \<in> set es. E p = ut_elts U p" using E(2) assms(3) by metis
  then have "named_ok ce_name_ptr ce_name 76 U' es" unfolding E(1) by (rule named_ok_outside [OF assms(1)])
  then show ?thesis using E by simp
qed

text \<open>A call that has to open the database.\<close>

lemma cache_open_miss:
  fixes cache :: "('e, 's, 'i, 'w) db_cache"
  assumes "cache_ok cache es" "0 < maxsize cache" "maxsize cache \<noteq> -1" "fresh_entry E cache"
    and "open_new A E drivers host cache name flags w = Some (((result, db), cache'), w')"
  shows "\<exists>es'. cache_ok cache' es' \<and> maxsize cache' = maxsize cache \<and>
    (db = None \<longrightarrow> cache' = cache) \<and>
    (db \<noteq> None \<longrightarrow> (\<exists>w1. la_db_open A drivers host name flags w = Some ((result, db), w1)) \<and>
      names_of (ut_elts (cache_table cache')) es' = put_last (unat (maxsize cache)) (names_of (ut_elts (cache_table cache)) es) name)"
proof (cases "malloc A sizeof_cache_entry")
  case None
  then show ?thesis using assms by (auto simp: open_new_def Let_def)
next
  case (Some blk)
  then obtain res opened w1 where op: "la_db_open A drivers host name flags w = Some ((res, opened), w1)"
    using assms(5) by (auto simp: open_new_def Let_def bind_eq_Some_conv)
  show ?thesis
  proof (cases "res \<noteq> LA_STORAGE_OPEN_OK \<and> res \<noteq> LA_STORAGE_OPEN_CREATED")
    case True
    then show ?thesis using assms Some op by (auto simp: open_new_def Let_def)
  next
    case False
    let ?T = "cache_table cache"
    have g: "grant A (add_sz (length name) 1)"
      using assms(5) Some op False by (auto simp: open_new_def Let_def split: if_splits)
    obtain d where d: "opened = Some d"
      using assms(5) Some op False g by (cases opened) (auto simp: open_new_def Let_def)
    define v where "v = \<lparr>ce_name_ptr = cx_name_ptr E, ce_name = name, ce_db_ptr = cx_db_ptr E, ce_db = d,
      ce_refcount = word_of_nat (of_le (take 4 (drop 16 blk))), ce_pad = word_of_nat (of_le (take 4 (drop 20 blk)))\<rparr>"
    define x where "x = \<lparr>hh = cx_handle E, payload = v\<rparr>"
    define p where "p = cx_entry E"
    define U where "U = ?T\<lparr>ut_elts := (ut_elts ?T)(p \<mapsto> x)\<rparr>"
    obtain U1 U2 n U3 y where st: "HASH_ADD_STR A cache_key (cx_table E) U (ce_name (payload x)) p = Some U1"
      "cache_incref p U1 = Some U2" "HASH_COUNT U2 = Some n"
      "(if n > unat (maxsize cache) then Option.bind (HASH_DELETE U2 (ut_head U2)) (\<lambda>U3. cache_decref (ut_head U2) U3 w1)
        else Some (U2, w1)) = Some (U3, w')"
      "ut_elts U3 p = Some y" "result = res" "db = Some (ce_db (payload y))" "cache' = cache\<lparr>cache_table := U3\<rparr>"
      using assms(5) unfolding open_new_def Some op d p_def U_def x_def v_def Let_def
      using False g by (auto simp: bind_eq_Some_conv)
    have ok: "named_ok ce_name_ptr ce_name 76 ?T es" "length es \<le> unat (maxsize cache)" "low_pointers (ut_elts ?T) es"
      using assms(1) by (simp_all add: cache_ok_def)
    have fr: "p \<noteq> 0" "ut_elts ?T p = None" "unat (cx_name_ptr E) < 2 ^ 48" using assms(4) by (simp_all add: fresh_entry_def p_def)
    have pes: "p \<notin> set es" using named_ok_dom [OF ok(1)] fr(2) by auto
    have "unat (maxsize cache) \<noteq> 2 ^ 32 - 1"
    proof
      assume "unat (maxsize cache) = 2 ^ 32 - 1"
      then have "word_of_nat (unat (maxsize cache)) = (word_of_nat (2 ^ 32 - 1) :: 32 word)" by (rule arg_cong)
      then show False using assms(3) by simp
    qed
    moreover have "unat (maxsize cache) < 2 ^ 32" using unsigned_less [of "maxsize cache"] by simp
    ultimately have mx: "unat (maxsize cache) + 1 < 2 ^ 32" by simp
    have U: "named_ok ce_name_ptr ce_name 76 U es"
      unfolding U_def using pes by (intro named_ok_outside [OF ok(1)]) auto
    have Up: "ut_elts U p = Some x" "length es + 1 < 2 ^ 32" using ok(2) mx by (simp_all add: U_def)
    note add = cache_names.add_named [OF U pes fr(1) Up st(1)]
    have ne: "\<forall>q \<in> set (es @ [p]). ut_elts U q \<noteq> None" using named_ok_dom [OF U] Up(1) by auto
    have s1: "same_names (ut_elts U) (ut_elts U1) (es @ [p])" using add payload_same_names [OF _ ne] by blast
    have U2: "named_ok ce_name_ptr ce_name 76 U2 (es @ [p])" "same_names (ut_elts U1) (ut_elts U2) (es @ [p])"
      using incref_keeps(1,2) [OF _ st(2)] add by blast+
    have nm: "names_of (ut_elts U2) (es @ [p]) = names_of (ut_elts ?T) es @ [name]"
    proof -
      have "names_of (ut_elts U2) (es @ [p]) = names_of (ut_elts U) (es @ [p])"
        using same_namesD(1) [OF s1] same_namesD(1) [OF U2(2)] by simp
      also have "\<dots> = names_of (ut_elts ?T) es @ [name]"
        using pes by (auto simp: names_of_def U_def x_def v_def)
      finally show ?thesis .
    qed
    have lo: "low_pointers (ut_elts U2) (es @ [p])"
    proof -
      have "low_pointers (ut_elts U2) (es @ [p]) = low_pointers (ut_elts U) (es @ [p])"
        using same_namesD(2) [OF s1] same_namesD(2) [OF U2(2)] by simp
      then show ?thesis using ok(3) pes fr(3) by (auto simp: low_pointers_def U_def x_def v_def)
    qed
    have db1: "\<exists>y. ut_elts U2 p = Some y \<and> ce_db (payload y) = d"
    proof -
      obtain z z' where z: "ut_elts U1 p = Some z" "ut_elts U2 p = Some z'" "ce_db (payload z') = ce_db (payload z)"
        using incref_keeps(3) [OF _ st(2)] add by blast
      have "map_option payload (ut_elts U1 p) = map_option payload (ut_elts U p)" using add by blast
      then have "payload z = v" using z(1) Up(1) by (simp add: x_def)
      then show ?thesis using z(2,3) by (simp add: v_def)
    qed
    have n: "n = length es + 1" using named_ok_facts(4) [OF U2(1)] st(3) by simp
    have len: "length (names_of (ut_elts ?T) es) = length es" by (simp add: names_of_def)
    show ?thesis
    proof (cases "n > unat (maxsize cache)")
      case False
      then have "U3 = U2" using st(4) by simp
      then have "cache_ok cache' (es @ [p])" using U2(1) lo n False by (simp add: cache_ok_def st(8))
      moreover have "names_of (ut_elts (cache_table cache')) (es @ [p]) = put_last (unat (maxsize cache)) (names_of (ut_elts ?T) es) name"
        using nm n False len by (simp add: st(8) \<open>U3 = U2\<close> put_last_def)
      moreover have "db = opened" using db1 st(5,7) d by (simp add: \<open>U3 = U2\<close>)
      ultimately show ?thesis using op st(6,7,8) by auto
    next
      case True
      then have "es \<noteq> []" using n assms(2) by (cases es) (auto simp: word_less_nat_alt)
      then obtain e es1 where es: "es = e # es1" by (cases es) auto
      have hd: "ut_head U2 = e" using named_ok_facts(5) [OF U2(1)] es by simp
      obtain U' where del: "HASH_DELETE U2 e = Some U'" "named_ok ce_name_ptr ce_name 76 U' (remove1 e (es @ [p]))"
        "\<And>q. map_option payload (ut_elts U' q) = map_option payload (ut_elts U2 q)"
        using cache_names.delete_named [OF U2(1), of e] es by auto
      have "cache_decref e U' w1 = Some (U3, w')" using st(4) True hd del(1) by simp
      moreover have rem: "remove1 e (es @ [p]) = es1 @ [p]" using es by simp
      moreover have out: "e \<notin> set (es1 @ [p])" "e \<noteq> p" using named_ok_facts(1) [OF U2(1)] es by auto
      ultimately have k: "named_ok ce_name_ptr ce_name 76 U3 (es1 @ [p])" "\<forall>q. q \<noteq> e \<longrightarrow> ut_elts U3 q = ut_elts U' q"
        using decref_keeps [of U' "es1 @ [p]" e w1 U3 w'] del(2) by simp_all
      have pay: "map_option payload (ut_elts U3 q) = map_option payload (ut_elts U2 q)" if "q \<noteq> e" for q
        using k(2) del(3) that by simp
      have "same_names (ut_elts U2) (ut_elts U3) (es1 @ [p])"
        unfolding same_names_def
      proof (intro ballI conjI)
        fix q assume q: "q \<in> set (es1 @ [p])"
        then show "ut_elts U2 q \<noteq> None" using named_ok_dom [OF U2(1)] es by auto
        have "map_option payload (ut_elts U3 q) = map_option payload (ut_elts U2 q)" using q out(1) by (intro pay) blast
        then show "map_option (\<lambda>x. (ce_name (payload x), ce_name_ptr (payload x))) (ut_elts U3 q) =
            map_option (\<lambda>x. (ce_name (payload x), ce_name_ptr (payload x))) (ut_elts U2 q)"
          by (cases "ut_elts U3 q"; cases "ut_elts U2 q") simp_all
      qed
      note s3 = same_namesD [OF this]
      have "low_pointers (ut_elts U2) (es1 @ [p])" using lo es by (simp add: low_pointers_def)
      then have "cache_ok cache' (es1 @ [p])" using k(1) s3(2) ok(2) es by (simp add: cache_ok_def st(8))
      moreover have "names_of (ut_elts (cache_table cache')) (es1 @ [p]) = put_last (unat (maxsize cache)) (names_of (ut_elts ?T) es) name"
      proof -
        have "names_of (ut_elts U3) (es1 @ [p]) = tl (names_of (ut_elts U2) (es @ [p]))" using s3(1) es by (simp add: names_of_def)
        then show ?thesis using nm n True len by (simp add: st(8) put_last_def)
      qed
      moreover have "db = opened"
      proof -
        obtain z where z: "ut_elts U2 p = Some z" "ce_db (payload z) = d" using db1 by blast
        have "map_option payload (ut_elts U3 p) = map_option payload (ut_elts U2 p)" using out(2) by (intro pay) simp
        then have "payload y = payload z" using st(5) z(1) by simp
        then show ?thesis using st(7) z(2) d by simp
      qed
      ultimately show ?thesis using op st(6,7,8) by auto
    qed
  qed
qed

text \<open>A call that finds the database: its entry becomes the last, and all keep their names.\<close>

definition used_again :: "('e, 's, 'i, 'w) db_cache \<Rightarrow> nat list \<Rightarrow> nat \<Rightarrow> ('e, 's, 'i, 'w) db_cache \<Rightarrow> nat list \<Rightarrow> bool" where
  "used_again cache es found cache' es' = (found \<in> set es \<and> es' = remove1 found es @ [found] \<and>
     names_of (ut_elts (cache_table cache')) es' = names_of (ut_elts (cache_table cache)) es')"

lemma cache_open_hit:
  assumes "cache_ok cache es" "maxsize cache \<noteq> -1" "HASH_FIND_STR cache_key (cache_table cache) name = Some found" "found \<noteq> 0"
    and "db_cache_open A E drivers host cache name flags w = Some (((result, db), cache'), w')"
  shows "\<exists>es'. cache_ok cache' es' \<and> maxsize cache' = maxsize cache \<and> used_again cache es found cache' es' \<and>
    (if flag_create flags \<and> flag_excl flags then result = LA_STORAGE_OPEN_EXISTS \<and> db = None
     else result = LA_STORAGE_OPEN_OK \<and> db = map_option (ce_db \<circ> payload) (ut_elts (cache_table cache) found))"
proof -
  let ?T = "cache_table cache"
  have ok: "named_ok ce_name_ptr ce_name 76 ?T es" "length es \<le> unat (maxsize cache)" "low_pointers (ut_elts ?T) es"
    using assms(1) by (simp_all add: cache_ok_def)
  obtain r where "HASH_FIND_STR cache_key ?T name = Some r" "r \<noteq> 0 \<longrightarrow> r \<in> set es"
    using cache_names.find_named [OF ok(1), of name] by blast
  then have f: "found \<in> set es" using assms(3,4) by simp
  obtain U1 where U1: "HASH_DELETE ?T found = Some U1" "named_ok ce_name_ptr ce_name 76 U1 (remove1 found es)"
    "\<And>p. map_option payload (ut_elts U1 p) = map_option payload (ut_elts ?T p)"
    using cache_names.delete_named [OF ok(1) f] by blast
  obtain x U2 where x: "ut_elts U1 found = Some x" "HASH_ADD_STR A cache_key (cx_table E) U1 (ce_name (payload x)) found = Some U2"
    using assms(3-5) U1(1) by (auto simp: db_cache_open_def bind_eq_Some_conv)
  let ?es = "remove1 found es @ [found]"
  have dist: "distinct es" "length es < 2 ^ 32" using named_ok_facts [OF ok(1)] by auto
  then have out: "found \<notin> set (remove1 found es)" by simp
  have "0 < length es" using f by (cases es) auto
  then have len: "length (remove1 found es) + 1 = length es" using f by (simp add: length_remove1)
  then have l32: "length (remove1 found es) + 1 < 2 ^ 32" using dist(2) by simp
  note U2 = cache_names.add_named [OF U1(2) out assms(4) x(1) l32 x(2)]
  have keep: "cache_ok (cache\<lparr>cache_table := U\<rparr>) ?es \<and> used_again cache es found (cache\<lparr>cache_table := U\<rparr>) ?es"
    if "named_ok ce_name_ptr ce_name 76 U ?es" "same_names (ut_elts U2) (ut_elts U) ?es" for U
  proof -
    have "same_names (ut_elts ?T) (ut_elts U2) ?es"
    proof (rule payload_same_names)
      show "map_option payload (ut_elts U2 p) = map_option payload (ut_elts ?T p)" for p using U2 U1(3) by simp
      have "set ?es = set es" using f dist(1) by auto
      then show "\<forall>p \<in> set ?es. ut_elts ?T p \<noteq> None" using named_ok_dom [OF ok(1)] by blast
    qed
    note s = this
    from same_namesD(1) [OF s] same_namesD(1) [OF that(2)]
    have "used_again cache es found (cache\<lparr>cache_table := U\<rparr>) ?es" using f by (simp add: used_again_def)
    moreover from same_namesD(2) [OF s] same_namesD(2) [OF that(2)] have "low_pointers (ut_elts U) ?es = low_pointers (ut_elts ?T) ?es" by simp
    moreover have "low_pointers (ut_elts ?T) ?es" using ok(3) f dist(1) by (auto simp: low_pointers_def)
    ultimately show ?thesis using that(1) ok(2) len by (simp add: cache_ok_def)
  qed
  show ?thesis
  proof (cases "flag_create flags \<and> flag_excl flags")
    case True
    then have "cache' = cache\<lparr>cache_table := U2\<rparr>" "result = LA_STORAGE_OPEN_EXISTS" "db = None"
      using assms(3-5) U1(1) x by (auto simp: db_cache_open_def bind_eq_Some_conv)
    moreover have "\<forall>p \<in> set ?es. ut_elts U2 p \<noteq> None" using U2 by (intro named_ok_dom) blast
    then have "same_names (ut_elts U2) (ut_elts U2) ?es" unfolding same_names_def by blast
    ultimately show ?thesis using keep [of U2] U2 True by auto
  next
    case False
    then obtain U3 x3 where U3: "cache_incref found U2 = Some U3" "cache' = cache\<lparr>cache_table := U3\<rparr>" "result = LA_STORAGE_OPEN_OK"
      and x3: "ut_elts U3 found = Some x3" "db = Some (ce_db (payload x3))"
      using assms(3-5) U1(1) x by (auto simp: db_cache_open_def bind_eq_Some_conv)
    have ok2: "named_ok ce_name_ptr ce_name 76 U2 ?es" using U2 by blast
    obtain y where y: "ut_elts U2 found = Some y" "ce_db (payload x3) = ce_db (payload y)"
      using incref_keeps(3) [OF ok2 U3(1)] x3(1) by auto
    have "map_option payload (ut_elts U2 found) = map_option payload (ut_elts ?T found)" using U2 U1(3) by simp
    then have "db = map_option (ce_db \<circ> payload) (ut_elts ?T found)" using y x3(2) by (cases "ut_elts ?T found") auto
    then show ?thesis using keep [of U3] incref_keeps(1,2) [OF ok2 U3(1)] U3 False by auto
  qed
qed

lemma cache_open_keeps:
  assumes "cache_ok cache es" "0 < maxsize cache" "maxsize cache \<noteq> -1" "fresh_entry E cache"
    and "db_cache_open A E drivers host cache name flags w = Some (((result, db), cache'), w')"
  shows "\<exists>es'. cache_ok cache' es' \<and> maxsize cache' = maxsize cache \<and>
    (HASH_FIND_STR cache_key (cache_table cache) name = Some 0 \<longrightarrow>
      (db = None \<longrightarrow> cache' = cache) \<and>
      (db \<noteq> None \<longrightarrow> (\<exists>w1. la_db_open A drivers host name flags w = Some ((result, db), w1)) \<and>
        names_of (ut_elts (cache_table cache')) es' = put_last (unat (maxsize cache)) (names_of (ut_elts (cache_table cache)) es) name)) \<and>
    (\<forall>found. HASH_FIND_STR cache_key (cache_table cache) name = Some found \<and> found \<noteq> 0 \<longrightarrow>
      used_again cache es found cache' es' \<and>
      (if flag_create flags \<and> flag_excl flags then result = LA_STORAGE_OPEN_EXISTS \<and> db = None
       else result = LA_STORAGE_OPEN_OK \<and> db = map_option (ce_db \<circ> payload) (ut_elts (cache_table cache) found)))"
proof -
  obtain found where f: "HASH_FIND_STR cache_key (cache_table cache) name = Some found"
    using assms(5) by (auto simp: db_cache_open_def bind_eq_Some_conv)
  show ?thesis
  proof (cases "found = 0")
    case True
    then have "open_new A E drivers host cache name flags w = Some (((result, db), cache'), w')"
      using assms(5) f by (simp add: db_cache_open_def)
    from cache_open_miss [OF assms(1-4) this] show ?thesis using f True by auto
  next
    case False
    from cache_open_hit [OF assms(1,3) f False assms(5)] show ?thesis using f False by auto
  qed
qed

text \<open>Names of seven bytes or more are not found.\<close>

lemma cache_long_names:
  assumes "cache_ok cache es" "7 \<le> length name" "0 \<notin> set name"
  shows "HASH_FIND_STR cache_key (cache_table cache) name = Some 0"
  using assms(1) by (intro cache_names.find_long [OF _ _ assms(2,3)]) (auto simp: cache_ok_def low_pointers_def)

text \<open>The results a client sees: \<open>la_db_open\<close> folds all failures into one, and a database in the cache exists.\<close>

lemma la_db_open_results:
  assumes "la_db_open A drivers host name flags w = Some ((result, db), w')"
  shows "result \<in> {LA_STORAGE_OPEN_OK, LA_STORAGE_OPEN_ERROR, LA_STORAGE_OPEN_NO_DRIVER}"
  using assms by (auto simp: la_db_open_def la_storage_open_def bind_eq_Some_conv split: if_splits option.splits)

lemma cache_open_results:
  assumes "db_cache_open A E drivers host cache name flags w = Some (((result, db), cache'), w')"
  shows "result \<in> {LA_STORAGE_OPEN_OK, LA_STORAGE_OPEN_ERROR, LA_STORAGE_OPEN_NO_DRIVER} \<or>
    result = LA_STORAGE_OPEN_EXISTS \<and> flag_create flags \<and> flag_excl flags \<and>
      HASH_FIND_STR cache_key (cache_table cache) name \<noteq> Some 0"
proof -
  obtain found where f: "HASH_FIND_STR cache_key (cache_table cache) name = Some found"
    using assms by (auto simp: db_cache_open_def bind_eq_Some_conv)
  show ?thesis
  proof (cases "found = 0")
    case True
    then have o: "open_new A E drivers host cache name flags w = Some (((result, db), cache'), w')"
      using assms f by (simp add: db_cache_open_def)
    show ?thesis
    proof (cases "malloc A sizeof_cache_entry")
      case None
      then show ?thesis using o by (simp add: open_new_def)
    next
      case (Some blk)
      then obtain res opened w1 where l: "la_db_open A drivers host name flags w = Some ((res, opened), w1)"
        using o by (auto simp: open_new_def bind_eq_Some_conv)
      then have "result = res" using o Some by (auto simp: open_new_def Let_def bind_eq_Some_conv split: if_splits)
      then show ?thesis using la_db_open_results [OF l] by simp
    qed
  next
    case False
    then show ?thesis using assms f by (auto simp: db_cache_open_def bind_eq_Some_conv split: if_splits)
  qed
qed

text \<open>A host with the in-memory library for the example, and a cache of one entry.\<close>

definition cache_name :: "byte list" where
  "cache_name = [0x6c, 0x65, 0x74, 0x74, 0x65, 0x72]"

definition cache_drivers :: "(unit, unit, nat, mem_world) registry" where
  "cache_drivers = demo_registry cache_name (bdb_driver (spare_allocator 1) mem_bdb)"

definition cache_host :: "unit la_host" where
  "cache_host = \<lparr>ho_driver = cache_name, ho_env = (), ho_compressor = None\<rparr>"

definition cache_demo_env :: cache_env where
  "cache_demo_env = \<lparr>cx_entry = 0x4000, cx_table = 0x4100, cx_name_ptr = 0x5000, cx_db_ptr = 0x6000,
     cx_handle = \<lparr>hh_tbl = 0, hh_prev_elt = 0, hh_next_elt = 0, hh_prev = 0, hh_next = 0, hh_key = 0, hh_keylen = 0, hh_hashv = 0\<rparr>\<rparr>"

definition cache_flags :: open_flags where
  "cache_flags = \<lparr>flag_create = False, flag_excl = False\<rparr>"

lemma cache_demo_driver: "find_driver cache_drivers cache_name = Some (Some (bdb_driver (spare_allocator 1) mem_bdb))"
  unfolding cache_drivers_def by (rule demo_registry_finds) (simp add: cache_name_def)

lemma cache_demo_store_opens:
  "\<exists>w1. bdb_la_storage_open (spare_allocator 1) mem_bdb (Some ()) cache_name cache_flags mem_empty =
     Some ((LA_STORAGE_OPEN_OK, Some ()), w1)"
proof -
  let ?A = "spare_allocator 1"
  have "malloc ?A (length cache_name + length dot_seq) =
      Some (replicate (length cache_name + length dot_seq + 1) 0)"
    by (rule spare_malloc) (simp add: dot_seq_def cache_name_def)
  then obtain p where "string_append ?A cache_name dot_seq = Some p \<and> cstr p = Some (cache_name @ dot_seq)"
    using string_append_room [of cache_name dot_seq ?A] by (force simp: dot_seq_def cache_name_def)
  then show ?thesis
    by (simp add: bdb_la_storage_open_def sizeof_store_def mem_bdb_def bdb_open_seq_def Let_def cache_flags_def spare_allocator_def)
qed

definition cache_demo_db :: "(unit, unit, nat, mem_world) la_db" where
  "cache_demo_db = \<lparr>db_host = cache_host,
     db_store = Some \<lparr>st_env = Some (), st_store = Some (), st_driver = bdb_driver (spare_allocator 1) mem_bdb\<rparr>\<rparr>"

lemma cache_demo_opens:
  "\<exists>w1. la_db_open (spare_allocator 1) cache_drivers cache_host cache_name cache_flags mem_empty =
     Some ((LA_STORAGE_OPEN_OK, Some cache_demo_db), w1)"
proof -
  have g: "grant (spare_allocator 1) n = (n < 2 ^ 62)" for n by (simp add: spare_allocator_def)
  obtain w1 where "drv_open_store (bdb_driver (spare_allocator 1) mem_bdb) (Some ()) cache_name cache_flags mem_empty =
     Some ((LA_STORAGE_OPEN_OK, Some ()), w1)"
    using cache_demo_store_opens by (auto simp: bdb_driver_def)
  then show ?thesis
    by (simp add: la_db_open_def cache_demo_driver cache_host_def la_storage_open_def g sizeof_db_def
      sizeof_la_object_store_def cache_demo_db_def)
qed

lemma cache_init_ok: "cache_ok (db_cache_init n) []"
  using named_ok_empty [of ce_name_ptr ce_name 76 ut_empty] by (simp add: cache_ok_def db_cache_init_def low_pointers_def ut_empty_def)

lemma cache_demo_fresh: "fresh_entry cache_demo_env (db_cache_init n)"
  by (simp add: fresh_entry_def cache_demo_env_def db_cache_init_def ut_empty_def)

lemma cache_demo_cached:
  assumes "0 < unat (word_of_int n :: 32 word)"
  shows "\<exists>cache w. db_cache_open (spare_allocator 1) cache_demo_env cache_drivers cache_host (db_cache_init n) cache_name
     cache_flags mem_empty = Some (((LA_STORAGE_OPEN_OK, Some cache_demo_db), cache), w)"
proof -
  let ?A = "spare_allocator 1"
  let ?init = "db_cache_init n :: (unit, unit, nat, mem_world) db_cache"
  obtain w1 where d: "la_db_open ?A cache_drivers cache_host cache_name cache_flags mem_empty =
      Some ((LA_STORAGE_OPEN_OK, Some cache_demo_db), w1)"
    using cache_demo_opens by blast
  have g: "grant ?A n = (n < 2 ^ 62)" for n by (simp add: spare_allocator_def)
  have i: "cache_table ?init = ut_empty" "maxsize ?init = word_of_int n" by (simp_all add: db_cache_init_def)
  obtain blk where m: "malloc ?A sizeof_cache_entry = Some blk" by (simp add: spare_malloc sizeof_cache_entry_def)
  define x where "x = \<lparr>hh = cx_handle cache_demo_env, payload = \<lparr>ce_name_ptr = cx_name_ptr cache_demo_env, ce_name = cache_name,
    ce_db_ptr = cx_db_ptr cache_demo_env, ce_db = cache_demo_db, ce_refcount = word_of_nat (of_le (take 4 (drop 16 blk))),
    ce_pad = word_of_nat (of_le (take 4 (drop 20 blk)))\<rparr>\<rparr>"
  define U where "U = (ut_empty :: (unit, unit, nat, mem_world) db_cache_entry ut_hash)\<lparr>ut_elts := (ut_elts ut_empty)(0x4000 \<mapsto> x)\<rparr>"
  have ok: "named_ok ce_name_ptr ce_name 76 U []"
    using named_ok_empty [of ce_name_ptr ce_name 76 U] by (simp add: U_def ut_empty_def)
  have u: "ut_elts U 0x4000 = Some x" "length (ce_name (payload x)) \<le> 76" by (simp_all add: U_def x_def cache_name_def)
  obtain U1 where U1: "HASH_ADD_STR ?A cache_key 0x4100 U (ce_name (payload x)) 0x4000 = Some U1"
    using cache_names.add_returns [OF ok _ _ u(1) _ u(2), where A = ?A and addr = "0x4100"] by (auto simp: g)
  have add: "named_ok ce_name_ptr ce_name 76 U1 [0x4000]" "map_option payload (ut_elts U1 0x4000) = map_option payload (ut_elts U 0x4000)"
    using cache_names.add_named [OF ok _ _ u(1) _ U1] by simp_all
  then obtain y where y: "ut_elts U1 0x4000 = Some y" "payload y = payload x" using u(1) by auto
  then obtain U2 where U2: "cache_incref 0x4000 U1 = Some U2" by (simp add: cache_incref_def)
  obtain z where z: "ut_elts U2 0x4000 = Some z" "ce_db (payload z) = cache_demo_db"
    using incref_keeps(3) [OF add(1) U2] y by (auto simp: x_def)
  have c: "HASH_COUNT U2 = Some 1" using named_ok_facts(4) [OF incref_keeps(1) [OF add(1) U2]] by simp
  have ge: "\<not> unat (word_of_int n :: 32 word) < 1" using assms by linarith
  have find: "HASH_FIND_STR cache_key (cache_table ?init) cache_name = Some 0"
    by (simp add: i HASH_FIND_STR_def HASH_FIND_def ut_empty_def)
  have "open_new ?A cache_demo_env cache_drivers cache_host ?init cache_name cache_flags mem_empty =
      Some (((LA_STORAGE_OPEN_OK, Some cache_demo_db), ?init\<lparr>cache_table := U2\<rparr>), w1)"
  proof -
    have a: "HASH_ADD_STR ?A cache_key (cx_table cache_demo_env)
        (ut_empty\<lparr>ut_elts := (ut_elts ut_empty)(cx_entry cache_demo_env \<mapsto> x)\<rparr>) (ce_name (payload x)) (cx_entry cache_demo_env) = Some U1"
      using U1 by (simp add: U_def cache_demo_env_def)
    have b: "cache_incref (cx_entry cache_demo_env) U1 = Some U2" "ut_elts U2 (cx_entry cache_demo_env) = Some z"
      using U2 z(1) by (simp_all add: cache_demo_env_def)
    have g7: "grant ?A (add_sz (length cache_name) 1)" by (simp add: g add_sz_def cache_name_def)
    show ?thesis
      unfolding open_new_def m Let_def i using d g7 a [unfolded x_def] b c ge z(2) by simp
  qed
  then show ?thesis using find by (simp add: db_cache_open_def)
qed

section \<open>Properties\<close>

text \<open>
  C34. The cache stays within its size (of one entry or more) and keeps its entries in the order of their last use:
  where the lookup finds the name, \<open>db_cache_open\<close> moves the entry it found behind the others, drops none, and gives its
  database (with both flags: EXISTS); where the lookup does not find the name, a successful call puts the name last
  and drops at most the entry that was used least recently, and a failing one changes nothing. But a name of seven characters or more is never found again: its database is opened anew
  each time, so that one database can fill the whole table.
\<close>

theorem db_cache_open_keeps:
  assumes "cache_ok cache es" "0 < maxsize cache" "maxsize cache \<noteq> -1" "fresh_entry E cache"
    and "db_cache_open A E drivers host cache name flags w = Some (((result, db), cache'), w')"
  shows "\<exists>es'. cache_ok cache' es' \<and> maxsize cache' = maxsize cache \<and>
    (7 \<le> length name \<and> 0 \<notin> set name \<longrightarrow> HASH_FIND_STR cache_key (cache_table cache) name = Some 0) \<and>
    (HASH_FIND_STR cache_key (cache_table cache) name = Some 0 \<longrightarrow>
      (db = None \<longrightarrow> cache' = cache) \<and>
      (db \<noteq> None \<longrightarrow> (\<exists>w1. la_db_open A drivers host name flags w = Some ((result, db), w1)) \<and>
        names_of (ut_elts (cache_table cache')) es' = put_last (unat (maxsize cache)) (names_of (ut_elts (cache_table cache)) es) name)) \<and>
    (\<forall>found. HASH_FIND_STR cache_key (cache_table cache) name = Some found \<and> found \<noteq> 0 \<longrightarrow>
      used_again cache es found cache' es' \<and>
      (if flag_create flags \<and> flag_excl flags then result = LA_STORAGE_OPEN_EXISTS \<and> db = None
       else result = LA_STORAGE_OPEN_OK \<and> db = map_option (ce_db \<circ> payload) (ut_elts (cache_table cache) found)))"
  using cache_open_keeps [OF assms] cache_long_names [OF assms(1), of name] by blast

theorem db_cache_open_keeps_witness:
  "\<exists>db cache w es. db_cache_open (spare_allocator 1) cache_demo_env cache_drivers cache_host (db_cache_init 1) cache_name
     cache_flags mem_empty = Some (((LA_STORAGE_OPEN_OK, Some db), cache), w) \<and> cache_ok cache es \<and>
     names_of (ut_elts (cache_table cache)) es = [cache_name]"
proof -
  let ?init = "db_cache_init 1 :: (unit, unit, nat, mem_world) db_cache"
  have i: "cache_table ?init = ut_empty" "maxsize ?init = 1" by (simp_all add: db_cache_init_def)
  obtain cache w where o: "db_cache_open (spare_allocator 1) cache_demo_env cache_drivers cache_host ?init cache_name cache_flags mem_empty =
      Some (((LA_STORAGE_OPEN_OK, Some cache_demo_db), cache), w)"
    using cache_demo_cached [of 1] by auto
  have find: "HASH_FIND_STR cache_key (cache_table ?init) cache_name = Some 0"
    by (simp add: i HASH_FIND_STR_def HASH_FIND_def ut_empty_def)
  obtain es where "cache_ok cache es"
    "names_of (ut_elts (cache_table cache)) es = put_last (unat (maxsize ?init)) (names_of (ut_elts (cache_table ?init)) []) cache_name"
    using db_cache_open_keeps [OF cache_init_ok _ _ cache_demo_fresh o] find by (auto simp: i)
  then show ?thesis using o by (auto simp: put_last_def names_of_def i)
qed

end
