(* ===== verification/LA_Nginx.thy ===== *)
theory LA_Nginx
  imports LA_Cache
begin

text \<open>
  The HTTP front end (\<open>ngx_http_loungeact/ngx_http_loungeact.c\<close>): from a request to the headers and the chain of
  buffers that are handed to nginx. The request pool is an allocator; \<open>ngx_strnstr\<close>, the JSON library's
  constructors and \<open>strerror\<close> are arguments. A request is the bytes of its address and what follows them
  in memory. The undefined behaviour of a NULL pointer is \<open>None\<close>. Logging is left out.
\<close>

section \<open>Requests and answers\<close>

datatype ngx_method = NGX_HTTP_GET | NGX_HTTP_HEAD | NGX_HTTP_PUT | NGX_HTTP_DELETE | NGX_HTTP_OTHER

record ngx_request =
  rq_method :: ngx_method
  rq_uri :: "byte list"
  rq_behind :: "byte list"
  rq_header_only :: bool

datatype ngx_status = NGX_HTTP_OK | NGX_HTTP_CREATED | NGX_HTTP_NOT_FOUND | NGX_HTTP_CONFLICT
| NGX_HTTP_PRECONDITION_FAILED | NGX_HTTP_INTERNAL_SERVER_ERROR | NGX_HTTP_NOT_ALLOWED

record ngx_headers =
  status :: "ngx_status option"
  content_length_n :: "nat option"
  content_type :: "byte list option"

text \<open>A link of the chain: its buffer (NULL for none) as its bytes and whether it is marked as the last.\<close>

type_synonym ngx_chain = "(byte list \<times> bool) option list"

text \<open>What is returned: a status of its own, or the result of \<open>ngx_http_output_filter\<close> for a chain.\<close>

datatype ngx_return = Return_status ngx_status | Output_filter ngx_chain

text \<open>The headers \<open>ngx_http_send_header\<close> was called with, and the return.\<close>

record ngx_answer =
  sent :: "ngx_headers option"
  returned :: ngx_return

text \<open>The JSON library as far as the answers need it; NULL is \<open>None\<close>.\<close>

record json_build =
  json_string_op :: "byte list \<Rightarrow> la_codec_value option"
  json_set_new_op :: "la_codec_value option \<Rightarrow> byte list \<Rightarrow> la_codec_value option \<Rightarrow> la_codec_value option"
  json_dumps_op :: "la_codec_value option \<Rightarrow> byte list option"

record ('e, 's, 'i, 'w) ngx_env =
  ne_alloc :: allocator
  ne_pool :: allocator
  ne_strnstr :: "byte list \<Rightarrow> byte list \<Rightarrow> nat \<Rightarrow> nat option"
  ne_json :: jansson
  ne_build :: json_build
  ne_strerror :: "byte list"
  ne_cache_env :: cache_env
  ne_drivers :: "('e, 's, 'i, 'w) registry"

text \<open>The module: the welcome text, the cache, and the host of the location.\<close>

record ('e, 's, 'i, 'w) ngx_module =
  md_welcome :: "byte list option"
  md_cache :: "('e, 's, 'i, 'w) db_cache"
  md_host :: "'e la_host"

definition ascii :: "string \<Rightarrow> byte list" where
  "ascii s = map of_char s"

definition slash :: "byte list" where "slash = ascii ''/''"
definition newline :: "byte list" where "newline = [10]"
definition sizeof_ngx_buf :: nat where "sizeof_ngx_buf = 80"

section \<open>Memory\<close>

definition ngx_pcalloc :: "allocator \<Rightarrow> nat \<Rightarrow> byte list option" where
  "ngx_pcalloc pool n = (if grant pool n then Some (replicate n 0) else None)"

text \<open>\<open>strncpy\<close>: up to the terminator of the source, which must not end before, then zeros.\<close>

definition strncpy :: "byte list \<Rightarrow> byte list \<Rightarrow> nat \<Rightarrow> byte list option" where
  "strncpy dst src n =
     (let s = takeWhile (\<lambda>c. c \<noteq> 0) (take n src) in
      if length s = length src \<and> length src < n \<or> length dst < n then None
      else mem_write dst 0 (s @ replicate (n - length s) 0))"

text \<open>
  The names in the address: the database, and the document if there is one. The difference
  \<open>uri.data - slash\<close> is negative and becomes a \<open>size_t\<close>.
\<close>

definition uri_names :: "('e, 's, 'i, 'w) ngx_env \<Rightarrow> ngx_request \<Rightarrow> (byte list \<times> byte list option) option" where
  "uri_names N rq = do {
     let mem = drop 1 (rq_uri rq @ rq_behind rq);
     let slash_at = ne_strnstr N mem slash (length (rq_uri rq));
     let len = (case slash_at of Some i \<Rightarrow> sub_sz 0 (1 + i) | None \<Rightarrow> length (rq_uri rq));
     dbblock \<leftarrow> ngx_pcalloc (ne_pool N) len;
     dbblock1 \<leftarrow> strncpy dbblock mem (sub_sz len 1);
     dbname \<leftarrow> cstr dbblock1;
     if len \<le> sub_sz (length (rq_uri rq)) 1
     then do {
       i \<leftarrow> slash_at;
       docblock \<leftarrow> ngx_pcalloc (ne_pool N) (sub_sz (length (rq_uri rq)) len);
       docblock1 \<leftarrow> strncpy docblock (drop (i + 1) mem) (sub_sz (sub_sz (length (rq_uri rq)) len) 1);
       docname \<leftarrow> cstr docblock1;
       Some (dbname, Some docname) }
     else Some (dbname, None) }"

section \<open>Replies\<close>

text \<open>An object with the given members.\<close>

definition reply_object :: "('e, 's, 'i, 'w) ngx_env \<Rightarrow> (string \<times> la_codec_value option) list \<Rightarrow> la_codec_value option" where
  "reply_object N ms =
     foldl (\<lambda>obj (k, v). json_set_new_op (ne_build N) obj (ascii k) v) (la_codec_object (ne_json N)) ms"

definition error_reply :: "('e, 's, 'i, 'w) ngx_env \<Rightarrow> string \<Rightarrow> byte list \<Rightarrow> la_codec_value option" where
  "error_reply N err reason =
     reply_object N [(''error'', json_string_op (ne_build N) (ascii err)), (''reason'', json_string_op (ne_build N) reason)]"

text \<open>The printed reply in the pool, and the chain with it and a newline; both buffers are marked as the last.\<close>

definition reply_chain :: "('e, 's, 'i, 'w) ngx_env \<Rightarrow> la_codec_value option \<Rightarrow> (byte list \<times> ngx_chain) option" where
  "reply_chain N reply = do {
     s \<leftarrow> json_dumps_op (ne_build N) reply;
     if \<not> grant (ne_pool N) (add_sz (length s) 1) \<or> \<not> grant (ne_pool N) sizeof_ngx_buf then None
     else Some (s, [Some (s, True), Some (newline, True)]) }"

text \<open>The statistics of an open database.\<close>

definition database_reply ::
  "('e, 's, 'i, 'w) ngx_env \<Rightarrow> byte list \<Rightarrow> ('e, 's, 'i, 'w) la_db option \<Rightarrow> ('w, la_codec_value option) act" where
  "database_reply N dbname opened w = do {
     db \<leftarrow> opened;
     ((_, stat), w1) \<leftarrow> la_db_stat db w;
     (seqno, w2) \<leftarrow> la_db_last_seq db w1;
     Some (reply_object N
       [(''db_name'', json_string_op (ne_build N) dbname), (''update_seq'', Some (LA_CODEC_INTEGER (sint seqno))),
        (''doc_count'', Some (LA_CODEC_INTEGER (int (numkeys stat)))),
        (''disk_size'', Some (LA_CODEC_INTEGER (sint (word_of_nat (stat_size stat) :: u64))))], w2) }"

section \<open>The handler\<close>

definition no_headers :: ngx_headers where
  "no_headers = \<lparr>status = None, content_length_n = None, content_type = None\<rparr>"

text \<open>The address \<open>/\<close>: the headers are sent and the chain is built, but it is never handed on.\<close>

definition handle_root :: "('e, 's, 'i, 'w) ngx_env \<Rightarrow> ('e, 's, 'i, 'w) ngx_module \<Rightarrow> ngx_answer option" where
  "handle_root N md = do {
     w \<leftarrow> md_welcome md;
     Some \<lparr>sent = Some \<lparr>status = Some NGX_HTTP_OK, content_length_n = Some (length w + 1),
             content_type = Some (ascii ''application/json'')\<rparr>,
           returned = Return_status NGX_HTTP_INTERNAL_SERVER_ERROR\<rparr> }"

definition handle_get ::
  "('e, 's, 'i, 'w) ngx_env \<Rightarrow> ('e, 's, 'i, 'w) ngx_module \<Rightarrow> ngx_request \<Rightarrow> byte list \<Rightarrow>
   ('w, ngx_answer \<times> ('e, 's, 'i, 'w) ngx_module) act" where
  "handle_get N md rq dbname w = do {
     (((result, opened), cache), w1) \<leftarrow> db_cache_open (ne_alloc N) (ne_cache_env N) (ne_drivers N) (md_host md) (md_cache md) dbname
        \<lparr>flag_create = False, flag_excl = False\<rparr> w;
     let body = (\<not> rq_header_only rq \<and> rq_method rq \<noteq> NGX_HTTP_HEAD);
     ((st, reply), w2) \<leftarrow>
       (if result = LA_STORAGE_OPEN_OK
        then if body then map_option (\<lambda>(r, w2). ((NGX_HTTP_OK, r), w2)) (database_reply N dbname opened w1)
             else Some ((NGX_HTTP_OK, None), w1)
        else if result = LA_STORAGE_OPEN_NOT_FOUND
        then Some ((NGX_HTTP_NOT_FOUND, if body then error_reply N ''not_found'' (ascii ''missing'') else None), w1)
        else Some ((NGX_HTTP_INTERNAL_SERVER_ERROR, if body then error_reply N ''internal_error'' (ascii ''failed'') else None), w1));
     (len, chain) \<leftarrow>
       (if reply = None then Some (None, [None])
        else map_option (\<lambda>(s, chain). (Some (length s + 1), chain)) (reply_chain N reply));
     Some ((\<lparr>sent = Some (no_headers\<lparr>status := Some st, content_length_n := len\<rparr>), returned = Output_filter chain\<rparr>,
            md\<lparr>md_cache := cache\<rparr>), w2) }"

definition handle_put ::
  "('e, 's, 'i, 'w) ngx_env \<Rightarrow> ('e, 's, 'i, 'w) ngx_module \<Rightarrow> byte list \<Rightarrow>
   ('w, ngx_answer \<times> ('e, 's, 'i, 'w) ngx_module) act" where
  "handle_put N md dbname w = do {
     (((result, _), cache), w1) \<leftarrow> db_cache_open (ne_alloc N) (ne_cache_env N) (ne_drivers N) (md_host md) (md_cache md) dbname
        \<lparr>flag_create = True, flag_excl = True\<rparr> w;
     let (st, reply) =
       (if result = LA_STORAGE_OPEN_CREATED then (NGX_HTTP_CREATED, reply_object N [(''ok'', Some LA_CODEC_TRUE)])
        else if result = LA_STORAGE_OPEN_EXISTS
        then (NGX_HTTP_PRECONDITION_FAILED,
              error_reply N ''file_exists'' (ascii ''The database could not be created, the file already exists.''))
        else (NGX_HTTP_INTERNAL_SERVER_ERROR, error_reply N ''internal_error'' (ne_strerror N)));
     (s, chain) \<leftarrow> reply_chain N reply;
     Some ((\<lparr>sent = Some (no_headers\<lparr>status := Some st, content_length_n := Some (length s + 1)\<rparr>), returned = Output_filter chain\<rparr>,
            md\<lparr>md_cache := cache\<rparr>), w1) }"

text \<open>A database that was deleted loses its store, also where the cache holds it: in its last entry.\<close>

definition set_last_db :: "('e, 's, 'i, 'w) la_db \<Rightarrow> ('e, 's, 'i, 'w) db_cache \<Rightarrow> ('e, 's, 'i, 'w) db_cache" where
  "set_last_db db cache =
     (let U = cache_table cache in
      case ut_table U of
        None \<Rightarrow> cache
      | Some t \<Rightarrow>
          (case ut_elts U (tbl_tail t) of
             None \<Rightarrow> cache
           | Some x \<Rightarrow> cache\<lparr>cache_table :=
               U\<lparr>ut_elts := (ut_elts U)(tbl_tail t \<mapsto> x\<lparr>payload := (payload x)\<lparr>ce_db := db\<rparr>\<rparr>)\<rparr>\<rparr>))"

definition handle_delete ::
  "('e, 's, 'i, 'w) ngx_env \<Rightarrow> ('e, 's, 'i, 'w) ngx_module \<Rightarrow> byte list \<Rightarrow>
   ('w, ngx_answer \<times> ('e, 's, 'i, 'w) ngx_module) act" where
  "handle_delete N md dbname w = do {
     (((result, opened), cache), w1) \<leftarrow> db_cache_open (ne_alloc N) (ne_cache_env N) (ne_drivers N) (md_host md) (md_cache md) dbname
        \<lparr>flag_create = False, flag_excl = False\<rparr> w;
     ((st, reply, cache1), w2) \<leftarrow>
       (if result = LA_STORAGE_OPEN_OK
        then do {
          db \<leftarrow> opened;
          ((rc, db1), w2) \<leftarrow> la_db_delete_db db w1;
          let cache1 = set_last_db db1 cache;
          Some (if rc = 0 then (NGX_HTTP_OK, reply_object N [(''ok'', Some LA_CODEC_TRUE)], cache1)
                else (NGX_HTTP_CONFLICT, error_reply N ''conflict'' (ascii ''Database is busy.''), cache1), w2) }
        else Some (if result = LA_STORAGE_OPEN_NOT_FOUND
                   then (NGX_HTTP_NOT_FOUND, error_reply N ''not_found'' (ascii ''missing''), cache)
                   else (NGX_HTTP_INTERNAL_SERVER_ERROR, error_reply N ''internal_error'' (ne_strerror N), cache), w1));
     (_, chain) \<leftarrow> reply_chain N reply;
     Some ((\<lparr>sent = Some (no_headers\<lparr>status := Some st\<rparr>), returned = Output_filter chain\<rparr>, md\<lparr>md_cache := cache1\<rparr>), w2) }"

definition ngx_http_loungeact_handler ::
  "('e, 's, 'i, 'w) ngx_env \<Rightarrow> ('e, 's, 'i, 'w) ngx_module \<Rightarrow> ngx_request \<Rightarrow>
   ('w, ngx_answer \<times> ('e, 's, 'i, 'w) ngx_module) act" where
  "ngx_http_loungeact_handler N md rq w =
     (if rq_uri rq = slash then map_option (\<lambda>a. ((a, md), w)) (handle_root N md)
      else do {
        (dbname, docname) \<leftarrow> uri_names N rq;
        if docname \<noteq> None then Some ((\<lparr>sent = None, returned = Return_status NGX_HTTP_INTERNAL_SERVER_ERROR\<rparr>, md), w)
        else (case rq_method rq of
                NGX_HTTP_HEAD \<Rightarrow> handle_get N md rq dbname w
              | NGX_HTTP_GET \<Rightarrow> handle_get N md rq dbname w
              | NGX_HTTP_PUT \<Rightarrow> handle_put N md dbname w
              | NGX_HTTP_DELETE \<Rightarrow> handle_delete N md dbname w
              | NGX_HTTP_OTHER \<Rightarrow> Some ((\<lparr>sent = None, returned = Return_status NGX_HTTP_NOT_ALLOWED\<rparr>, md), w)) })"

text \<open>Starting the module: the cache and the text for \<open>/\<close>.\<close>

definition ngx_http_loungeact_init_module ::
  "('e, 's, 'i, 'w) ngx_env \<Rightarrow> 'e la_host \<Rightarrow> ('e, 's, 'i, 'w) ngx_module" where
  "ngx_http_loungeact_init_module N host =
     \<lparr>md_welcome = json_dumps_op (ne_build N) (reply_object N
        [(''couchdb'', json_string_op (ne_build N) (ascii ''Welcome'')), (''version'', json_string_op (ne_build N) (ascii ''1.1.1'')),
         (''loungeact'', json_string_op (ne_build N) (ascii ''0.0.1''))]),
      md_cache = db_cache_init 1024, md_host = host\<rparr>"

section \<open>Addresses\<close>

text \<open>What nginx documents of \<open>ngx_strnstr\<close>, for the one pattern: the first place among the first \<open>n\<close> bytes, before a zero.\<close>

definition first_slash :: "byte list \<Rightarrow> nat \<Rightarrow> nat option" where
  "first_slash mem n =
     (let i = length (takeWhile (\<lambda>c. c \<noteq> 0 \<and> c \<noteq> 0x2f) (take n mem)) in
      if i < n \<and> i < length mem \<and> mem ! i = 0x2f then Some i else None)"

definition strnstr_ok :: "('e, 's, 'i, 'w) ngx_env \<Rightarrow> bool" where
  "strnstr_ok N = (\<forall>mem n. ne_strnstr N mem slash n = first_slash mem n)"

lemma slash_eq: "slash = [0x2f]"
  by (simp add: slash_def ascii_def of_char_def)

lemma takeWhile_plain:
  assumes "0x2f \<notin> set s" "0 \<notin> set s"
  shows "takeWhile (\<lambda>c. c \<noteq> 0 \<and> c \<noteq> 0x2f) (s @ t) = s @ takeWhile (\<lambda>c. c \<noteq> 0 \<and> c \<noteq> (0x2f :: byte)) t"
proof (rule takeWhile_append2)
  fix c assume "c \<in> set s"
  then have "c \<noteq> 0x2f" "c \<noteq> 0" using assms by metis+
  then show "c \<noteq> 0 \<and> c \<noteq> 0x2f" by simp
qed

lemma first_slash_none:
  assumes "0x2f \<notin> set s" "0 \<notin> set s" "c \<noteq> 0x2f"
  shows "first_slash (s @ c # r) (Suc (length s)) = None"
proof -
  have t: "take (Suc (length s)) (s @ c # r) = s @ [c]" by simp
  define i where "i = length (takeWhile (\<lambda>c. c \<noteq> 0 \<and> c \<noteq> 0x2f) (take (Suc (length s)) (s @ c # r)))"
  have "i = length s \<or> i = Suc (length s)" unfolding i_def t takeWhile_plain [OF assms(1,2)] by simp
  then have "\<not> (i < Suc (length s) \<and> i < length (s @ c # r) \<and> (s @ c # r) ! i = 0x2f)" using assms(3) by auto
  then show ?thesis unfolding first_slash_def i_def Let_def by (rule if_not_P)
qed

lemma first_slash_some:
  assumes "0x2f \<in> set s" "0 \<notin> set s" "length s \<le> n"
  shows "\<exists>i < length s. first_slash (s @ r) n = Some i"
proof -
  obtain a b where s: "s = a @ 0x2f # b" "0x2f \<notin> set a" using split_list_first [OF assms(1)] by blast
  have z: "0 \<notin> set a" using assms(2) unfolding s(1) by simp
  obtain m where m: "n = length a + Suc m" using assms(3) unfolding s(1) by (auto dest!: le_Suc_ex)
  have t: "take n (s @ r) = a @ 0x2f # take m (b @ r)" unfolding s(1) m by simp
  define i where "i = length (takeWhile (\<lambda>c. c \<noteq> 0 \<and> c \<noteq> 0x2f) (take n (s @ r)))"
  have i: "i = length a" unfolding i_def t takeWhile_plain [OF s(2) z] by simp
  have "i < n \<and> i < length (s @ r) \<and> (s @ r) ! i = 0x2f" unfolding i m s(1) by simp
  then have "first_slash (s @ r) n = Some i" unfolding first_slash_def i_def Let_def by (rule if_P)
  moreover have "i < length s" unfolding i s(1) by simp
  ultimately show ?thesis by blast
qed

lemma strncpy_zeroed:
  assumes "0 \<notin> set s"
  shows "strncpy (replicate (Suc (length s)) 0) (s @ r) (length s) = Some (s @ [0])"
proof -
  have t: "takeWhile (\<lambda>c. c \<noteq> 0) (take (length s) (s @ r)) = s" using assms by (auto simp: takeWhile_eq_all_conv)
  have "replicate (Suc (length s)) (0 :: byte) = replicate (length s) 0 @ [0]" by (simp add: replicate_append_same)
  then show ?thesis unfolding strncpy_def t Let_def by (simp add: mem_write_def del: replicate_Suc)
qed

text \<open>An address with one name: nothing but the name is taken.\<close>

lemma uri_names_plain:
  assumes "strnstr_ok N" "rq_uri rq = c # name" "0x2f \<notin> set name" "0 \<notin> set name" "rq_behind rq = b # r" "b \<noteq> 0x2f"
    and "grant (ne_pool N) (Suc (length name))" "length name < 2 ^ 62"
  shows "uri_names N rq = Some (name, None)"
proof -
  have n: "ne_strnstr N (name @ b # r) slash (Suc (length name)) = None"
    using assms(1) first_slash_none [OF assms(3,4,6)] by (simp add: strnstr_ok_def)
  have sub: "sub_sz (Suc (length name)) 1 = length name" using assms(8) by (simp add: sub_sz_def)
  have "strncpy (replicate (Suc (length name)) 0) (name @ b # r) (length name) = Some (name @ [0])"
    using strncpy_zeroed [OF assms(4)] .
  moreover have "cstr (name @ [0]) = Some name" using cstr_append_zero [OF assms(4), of "[]"] by simp
  ultimately show ?thesis
    using assms(2,5,7) n sub unfolding uri_names_def Let_def by (simp add: ngx_pcalloc_def del: replicate_Suc)
qed

text \<open>An address with a further slash: the length of the name is negative.\<close>

lemma uri_names_document:
  assumes "strnstr_ok N" "rq_uri rq = c # path" "0x2f \<in> set path" "0 \<notin> set path" "length path < 2 ^ 62"
    and "\<And>n. 2 ^ 63 \<le> n \<Longrightarrow> \<not> grant (ne_pool N) n"
  shows "uri_names N rq = None"
proof -
  obtain i where i: "i < length path" "first_slash (path @ rq_behind rq) (Suc (length path)) = Some i"
    using first_slash_some [OF assms(3,4), of "Suc (length path)" "rq_behind rq"] by auto
  then have n: "ne_strnstr N (path @ rq_behind rq) slash (Suc (length path)) = Some i"
    using assms(1) by (simp add: strnstr_ok_def)
  have "2 ^ 63 \<le> sub_sz 0 (1 + i)" using i(1) assms(5) by (simp add: sub_sz_def)
  from assms(6) [OF this] show ?thesis using assms(2) n unfolding uri_names_def by (simp add: ngx_pcalloc_def)
qed

section \<open>Requests\<close>

text \<open>What the output filter writes.\<close>

definition chain_bytes :: "ngx_chain \<Rightarrow> byte list" where
  "chain_bytes chain = concat (map (case_option [] fst) chain)"

definition module_ok :: "('e, 's, 'i, 'w) ngx_module \<Rightarrow> bool" where
  "module_ok md = ((\<exists>es. cache_ok (md_cache md) es) \<and> maxsize (md_cache md) = 1024)"

text \<open>An answer: its status is one of the given ones and its length, when announced, is that of the body.\<close>

definition answers :: "ngx_status set \<Rightarrow> ngx_answer \<Rightarrow> bool" where
  "answers ss a = (\<exists>h st chain. sent a = Some h \<and> returned a = Output_filter chain \<and> status h = Some st \<and> st \<in> ss \<and>
     (\<forall>n. content_length_n h = Some n \<longrightarrow> length (chain_bytes chain) = n))"

lemma reply_chain_bytes:
  assumes "reply_chain N reply = Some (s, chain)"
  shows "length (chain_bytes chain) = Suc (length s)"
  using assms by (auto simp: reply_chain_def chain_bytes_def newline_def bind_eq_Some_conv split: if_splits)

text \<open>A request opens the database once; what is kept of the module is what the cache keeps.\<close>

lemma handle_get_results:
  assumes "handle_get N md rq dbname w = Some ((a, md'), w')"
  shows "answers {NGX_HTTP_OK, NGX_HTTP_INTERNAL_SERVER_ERROR} a \<and> (\<exists>r c w1.
    db_cache_open (ne_alloc N) (ne_cache_env N) (ne_drivers N) (md_host md) (md_cache md) dbname
      \<lparr>flag_create = False, flag_excl = False\<rparr> w = Some ((r, c), w1) \<and> md' = md\<lparr>md_cache := c\<rparr>)"
proof -
  obtain result opened cache w1 where o:
    "db_cache_open (ne_alloc N) (ne_cache_env N) (ne_drivers N) (md_host md) (md_cache md) dbname
      \<lparr>flag_create = False, flag_excl = False\<rparr> w = Some (((result, opened), cache), w1)"
    using assms by (auto simp: handle_get_def bind_eq_Some_conv)
  from cache_open_results [OF o] have r: "result \<noteq> LA_STORAGE_OPEN_NOT_FOUND" by auto
  show ?thesis
    using assms o r
    by (auto simp: handle_get_def answers_def no_headers_def Let_def bind_eq_Some_conv chain_bytes_def [of "[None]"]
      dest!: reply_chain_bytes split: if_splits)
qed

lemma handle_put_results:
  assumes "handle_put N md dbname w = Some ((a, md'), w')"
  shows "answers {NGX_HTTP_PRECONDITION_FAILED, NGX_HTTP_INTERNAL_SERVER_ERROR} a \<and> (\<exists>r c w1.
    db_cache_open (ne_alloc N) (ne_cache_env N) (ne_drivers N) (md_host md) (md_cache md) dbname
      \<lparr>flag_create = True, flag_excl = True\<rparr> w = Some ((r, c), w1) \<and> md' = md\<lparr>md_cache := c\<rparr>)"
proof -
  obtain result opened cache w1 where o:
    "db_cache_open (ne_alloc N) (ne_cache_env N) (ne_drivers N) (md_host md) (md_cache md) dbname
      \<lparr>flag_create = True, flag_excl = True\<rparr> w = Some (((result, opened), cache), w1)"
    using assms by (auto simp: handle_put_def bind_eq_Some_conv)
  from cache_open_results [OF o] have r: "result \<noteq> LA_STORAGE_OPEN_CREATED" by auto
  show ?thesis
    using assms o r
    by (auto simp: handle_put_def answers_def no_headers_def Let_def bind_eq_Some_conv dest!: reply_chain_bytes split: if_splits)
qed

text \<open>Deleting: \<open>la_db_delete_db\<close> returns zero or not at all.\<close>

lemma handle_delete_results:
  assumes "handle_delete N md dbname w = Some ((a, md'), w')"
  shows "answers {NGX_HTTP_OK, NGX_HTTP_INTERNAL_SERVER_ERROR} a \<and> (\<exists>r c w1 c1.
    db_cache_open (ne_alloc N) (ne_cache_env N) (ne_drivers N) (md_host md) (md_cache md) dbname
      \<lparr>flag_create = False, flag_excl = False\<rparr> w = Some ((r, c), w1) \<and> md' = md\<lparr>md_cache := c1\<rparr> \<and>
    (c1 = c \<or> (\<exists>db. c1 = set_last_db db c)))"
proof -
  obtain result opened cache w1 where o:
    "db_cache_open (ne_alloc N) (ne_cache_env N) (ne_drivers N) (md_host md) (md_cache md) dbname
      \<lparr>flag_create = False, flag_excl = False\<rparr> w = Some (((result, opened), cache), w1)"
    using assms by (auto simp: handle_delete_def bind_eq_Some_conv)
  from cache_open_results [OF o] have r: "result \<noteq> LA_STORAGE_OPEN_NOT_FOUND" by auto
  show ?thesis
  proof (cases "result = LA_STORAGE_OPEN_OK")
    case True
    then obtain db rc db1 w2 where d: "opened = Some db" "la_db_delete_db db w1 = Some ((rc, db1), w2)"
      using assms o by (auto simp: handle_delete_def bind_eq_Some_conv)
    from d(2) have "rc = 0" by (auto simp: la_db_delete_db_def bind_eq_Some_conv)
    then show ?thesis
      using assms o d True
      by (auto simp: handle_delete_def answers_def no_headers_def Let_def bind_eq_Some_conv split: if_splits)
  next
    case False
    then have "answers {NGX_HTTP_OK, NGX_HTTP_INTERNAL_SERVER_ERROR} a \<and> md' = md\<lparr>md_cache := cache\<rparr>"
      using assms o r
      by (auto simp: handle_delete_def answers_def no_headers_def Let_def bind_eq_Some_conv split: if_splits)
    then show ?thesis using o by blast
  qed
qed

lemma init_module_ok: "module_ok (ngx_http_loungeact_init_module N host)"
proof -
  have "maxsize (db_cache_init 1024) = 1024" by (simp add: db_cache_init_def)
  then show ?thesis using cache_init_ok [of 1024] by (auto simp: module_ok_def ngx_http_loungeact_init_module_def)
qed

lemma delete_cache_ok:
  assumes "cache_ok c es"
  shows "cache_ok (set_last_db db c) es \<and> maxsize (set_last_db db c) = maxsize c"
proof (cases "ut_table (cache_table c)")
  case None
  then show ?thesis using assms by (simp add: set_last_db_def)
next
  case (Some t)
  show ?thesis
  proof (cases "ut_elts (cache_table c) (tbl_tail t)")
    case None
    then show ?thesis using assms Some by (simp add: set_last_db_def)
  next
    case x: (Some x)
    have "named_ok ce_name_ptr ce_name 76 (cache_table c) es" using assms by (simp add: cache_ok_def)
    from named_ok_payload [OF this x, of "(payload x)\<lparr>ce_db := db\<rparr>"]
    moreover have "\<forall>p \<in> set es. unat (ce_name_ptr (payload (the (ut_elts (cache_table c) p)))) < 2 ^ 48"
      using assms by (simp add: cache_ok_def low_pointers_def)
    then have "tbl_tail t \<in> set es \<longrightarrow> unat (ce_name_ptr (payload x)) < 2 ^ 48" using x by fastforce
    ultimately show ?thesis using assms Some x by (simp add: set_last_db_def cache_ok_def low_pointers_def Let_def)
  qed
qed

lemma handler_cases:
  assumes "ngx_http_loungeact_handler N md rq w = Some ((a, md'), w')" "rq_uri rq \<noteq> slash"
  shows "(\<exists>st. a = \<lparr>sent = None, returned = Return_status st\<rparr> \<and> md' = md \<and>
      (st = NGX_HTTP_INTERNAL_SERVER_ERROR \<or> st = NGX_HTTP_NOT_ALLOWED \<and> rq_method rq = NGX_HTTP_OTHER)) \<or>
    (\<exists>dbname. (rq_method rq = NGX_HTTP_GET \<or> rq_method rq = NGX_HTTP_HEAD) \<and> handle_get N md rq dbname w = Some ((a, md'), w') \<or>
      rq_method rq = NGX_HTTP_PUT \<and> handle_put N md dbname w = Some ((a, md'), w') \<or>
      rq_method rq = NGX_HTTP_DELETE \<and> handle_delete N md dbname w = Some ((a, md'), w'))"
proof -
  obtain dbname docname where "uri_names N rq = Some (dbname, docname)"
    using assms by (auto simp: ngx_http_loungeact_handler_def bind_eq_Some_conv)
  then show ?thesis
    using assms by (cases "rq_method rq") (auto simp: ngx_http_loungeact_handler_def split: if_splits)
qed

lemma handler_answers:
  assumes "ngx_http_loungeact_handler N md rq w = Some ((a, md'), w')" "rq_uri rq \<noteq> slash"
  shows "(\<exists>st. a = \<lparr>sent = None, returned = Return_status st\<rparr> \<and>
      (st = NGX_HTTP_INTERNAL_SERVER_ERROR \<or> st = NGX_HTTP_NOT_ALLOWED \<and> rq_method rq = NGX_HTTP_OTHER)) \<or>
    answers (case rq_method rq of
        NGX_HTTP_PUT \<Rightarrow> {NGX_HTTP_PRECONDITION_FAILED, NGX_HTTP_INTERNAL_SERVER_ERROR}
      | _ \<Rightarrow> {NGX_HTTP_OK, NGX_HTTP_INTERNAL_SERVER_ERROR}) a \<and> rq_method rq \<noteq> NGX_HTTP_OTHER"
  using handler_cases [OF assms]
  by (cases "rq_method rq") (auto dest: handle_get_results handle_put_results handle_delete_results)

lemma handler_module_ok:
  assumes "ngx_http_loungeact_handler N md rq w = Some ((a, md'), w')" "module_ok md" "fresh_entry (ne_cache_env N) (md_cache md)"
  shows "module_ok md' \<and> md_host md' = md_host md \<and> md_welcome md' = md_welcome md"
proof -
  have keeps: "(\<exists>es. cache_ok c es) \<and> maxsize c = 1024"
    if "db_cache_open (ne_alloc N) (ne_cache_env N) (ne_drivers N) (md_host md) (md_cache md) dbname fl w = Some ((r, c), w1)"
    for dbname fl r c w1
  proof -
    obtain result db where "r = (result, db)" by (cases r)
    obtain es where "cache_ok (md_cache md) es" "maxsize (md_cache md) = 1024" using assms(2) by (auto simp: module_ok_def)
    then show ?thesis
      using cache_open_keeps [of "md_cache md" es "ne_cache_env N", OF _ _ _ assms(3) that [unfolded \<open>r = (result, db)\<close>]] by auto
  qed
  show ?thesis
  proof (cases "rq_uri rq = slash")
    case True
    then show ?thesis using assms by (auto simp: ngx_http_loungeact_handler_def)
  next
    case False
    from handler_cases [OF assms(1) False] consider
        (same) "md' = md"
      | (get) dbname where "handle_get N md rq dbname w = Some ((a, md'), w')"
      | (put) dbname where "handle_put N md dbname w = Some ((a, md'), w')"
      | (del) dbname where "handle_delete N md dbname w = Some ((a, md'), w')" by blast
    then show ?thesis
    proof cases
      case same
      then show ?thesis using assms(2) by simp
    next
      case get
      from handle_get_results [OF this] show ?thesis using keeps by (force simp: module_ok_def)
    next
      case put
      from handle_put_results [OF this] show ?thesis using keeps by (force simp: module_ok_def)
    next
      case del
      obtain r c w1 c1 where c: "db_cache_open (ne_alloc N) (ne_cache_env N) (ne_drivers N) (md_host md) (md_cache md) dbname
          \<lparr>flag_create = False, flag_excl = False\<rparr> w = Some ((r, c), w1)" "md' = md\<lparr>md_cache := c1\<rparr>"
        "c1 = c \<or> (\<exists>db. c1 = set_last_db db c)"
        using handle_delete_results [OF del] by blast
      obtain es where "cache_ok c es" "maxsize c = 1024" using keeps [OF c(1)] by blast
      then have "cache_ok c1 es \<and> maxsize c1 = 1024" using c(3) delete_cache_ok by metis
      then show ?thesis unfolding c(2) by (auto simp: module_ok_def)
    qed
  qed
qed

text \<open>A GET of a database that the cache opens.\<close>

definition statistics :: "('e, 's, 'i, 'w) ngx_env \<Rightarrow> byte list \<Rightarrow> u64 \<Rightarrow> la_storage_stat \<Rightarrow> la_codec_value option" where
  "statistics N dbname seqno stat = reply_object N
     [(''db_name'', json_string_op (ne_build N) dbname), (''update_seq'', Some (LA_CODEC_INTEGER (sint seqno))),
      (''doc_count'', Some (LA_CODEC_INTEGER (int (numkeys stat)))),
      (''disk_size'', Some (LA_CODEC_INTEGER (sint (word_of_nat (stat_size stat) :: u64))))]"

lemma handler_gets:
  assumes "strnstr_ok N" "rq_method rq = NGX_HTTP_GET" "\<not> rq_header_only rq"
    and "rq_uri rq = 0x2f # name" "name \<noteq> []" "0x2f \<notin> set name" "0 \<notin> set name" "rq_behind rq = b # r" "b \<noteq> 0x2f"
    and "length name < 2 ^ 62" "grant (ne_pool N) (Suc (length name))"
    and "db_cache_open (ne_alloc N) (ne_cache_env N) (ne_drivers N) (md_host md) (md_cache md) name
      \<lparr>flag_create = False, flag_excl = False\<rparr> w = Some (((LA_STORAGE_OPEN_OK, Some db), cache), w1)"
    and "la_db_stat db w1 = Some ((rc, stat), w2)" "la_db_last_seq db w2 = Some (seqno, w3)"
    and "statistics N name seqno stat \<noteq> None" "json_dumps_op (ne_build N) (statistics N name seqno stat) = Some s"
    and "length s + 1 < 2 ^ 64" "grant (ne_pool N) (length s + 1)" "grant (ne_pool N) sizeof_ngx_buf"
  shows "ngx_http_loungeact_handler N md rq w =
    Some ((\<lparr>sent = Some \<lparr>status = Some NGX_HTTP_OK, content_length_n = Some (length s + 1), content_type = None\<rparr>,
            returned = Output_filter [Some (s, True), Some (newline, True)]\<rparr>, md\<lparr>md_cache := cache\<rparr>), w3)"
proof -
  note u = uri_names_plain [OF assms(1,4,6-9,11,10)]
  have d: "database_reply N name (Some db) w1 = Some (statistics N name seqno stat, w3)"
    unfolding database_reply_def statistics_def by (simp add: assms(13,14))
  have c: "reply_chain N (statistics N name seqno stat) = Some (s, [Some (s, True), Some (newline, True)])"
    using assms(17-19) unfolding reply_chain_def by (simp add: assms(16) add_sz_def)
  have "handle_get N md rq name w =
    Some ((\<lparr>sent = Some \<lparr>status = Some NGX_HTTP_OK, content_length_n = Some (length s + 1), content_type = None\<rparr>,
            returned = Output_filter [Some (s, True), Some (newline, True)]\<rparr>, md\<lparr>md_cache := cache\<rparr>), w3)"
    unfolding handle_get_def assms(12) Let_def using assms(2,3,15) by (simp add: d c no_headers_def)
  moreover have "rq_uri rq \<noteq> slash" using assms(4,5) by (simp add: slash_eq)
  ultimately show ?thesis by (simp add: ngx_http_loungeact_handler_def u assms(2))
qed

text \<open>
  Examples: the in-memory host of the cache behind a server whose JSON library keeps trees and prints
  the names of an object's members.
\<close>

fun tree_set_new :: "la_codec_value option \<Rightarrow> byte list \<Rightarrow> la_codec_value option \<Rightarrow> la_codec_value option" where
  "tree_set_new (Some (LA_CODEC_OBJECT ms)) k (Some v) = Some (LA_CODEC_OBJECT (member_del ms k @ [(k, v)]))"
| "tree_set_new obj k v = obj"

fun tree_names :: "la_codec_value option \<Rightarrow> byte list option" where
  "tree_names (Some (LA_CODEC_OBJECT ms)) = Some (concat (map (\<lambda>(k, _). k @ [0x2c]) ms))"
| "tree_names _ = None"

definition ngx_demo :: "(unit, unit, nat, mem_world) ngx_env" where
  "ngx_demo =
     \<lparr>ne_alloc = spare_allocator 1, ne_pool = exact_allocator, ne_strnstr = (\<lambda>mem _ n. first_slash mem n),
      ne_json = tree_json (\<lambda>_. []) (\<lambda>_. None),
      ne_build = \<lparr>json_string_op = (\<lambda>s. Some (LA_CODEC_STRING s)), json_set_new_op = tree_set_new, json_dumps_op = tree_names\<rparr>,
      ne_strerror = [], ne_cache_env = cache_demo_env, ne_drivers = cache_drivers\<rparr>"

definition ngx_demo_module :: "(unit, unit, nat, mem_world) ngx_module" where
  "ngx_demo_module = ngx_http_loungeact_init_module ngx_demo cache_host"

definition ngx_demo_request :: "ngx_method \<Rightarrow> byte list \<Rightarrow> ngx_request" where
  "ngx_demo_request m path = \<lparr>rq_method = m, rq_uri = 0x2f # path, rq_behind = [0x20], rq_header_only = False\<rparr>"

lemma ngx_demo_opens:
  "\<exists>cache w1. db_cache_open (ne_alloc ngx_demo) (ne_cache_env ngx_demo) (ne_drivers ngx_demo) (md_host ngx_demo_module)
     (md_cache ngx_demo_module) cache_name \<lparr>flag_create = False, flag_excl = False\<rparr> mem_empty =
     Some (((LA_STORAGE_OPEN_OK, Some cache_demo_db), cache), w1)"
  using cache_demo_cached [of 1024]
  by (simp add: ngx_demo_def ngx_demo_module_def ngx_http_loungeact_init_module_def cache_flags_def)

lemma ngx_demo_stat:
  "\<exists>stat seqno w2. la_db_stat cache_demo_db w = Some ((0, stat), w2) \<and> la_db_last_seq cache_demo_db w2 = Some (seqno, w2)"
  by (simp add: la_db_stat_def la_db_last_seq_def cache_demo_db_def la_storage_stat_store_def la_storage_lastseq_def
    bdb_driver_def bdb_la_storage_stat_def bdb_la_storage_lastseq_def mem_bdb_def)

lemma ngx_demo_reply:
  "\<exists>v s. statistics ngx_demo cache_name seqno stat = Some v \<and> json_dumps_op (ne_build ngx_demo) (Some v) = Some s \<and> length s = 39"
  by (simp add: statistics_def reply_object_def ngx_demo_def tree_json_def la_codec_object_def ascii_def member_del_def)

lemma ngx_demo_address:
  "strnstr_ok ngx_demo" "0x2f \<notin> set cache_name" "0 \<notin> set cache_name" "cache_name \<noteq> []" "length cache_name = 6"
  "rq_uri (ngx_demo_request m path) = 0x2f # path" "rq_behind (ngx_demo_request m path) = 0x20 # []"
  "rq_method (ngx_demo_request m path) = m" "\<not> rq_header_only (ngx_demo_request m path)"
  by (simp_all add: strnstr_ok_def ngx_demo_def cache_name_def ngx_demo_request_def)

lemma ngx_demo_pool: "ne_pool ngx_demo = exact_allocator"
  by (simp add: ngx_demo_def)

lemma ngx_demo_run:
  "\<exists>cache w1 stat w2 seqno s. db_cache_open (ne_alloc ngx_demo) (ne_cache_env ngx_demo) (ne_drivers ngx_demo) (md_host ngx_demo_module)
     (md_cache ngx_demo_module) cache_name \<lparr>flag_create = False, flag_excl = False\<rparr> mem_empty =
     Some (((LA_STORAGE_OPEN_OK, Some cache_demo_db), cache), w1) \<and>
   la_db_stat cache_demo_db w1 = Some ((0, stat), w2) \<and> la_db_last_seq cache_demo_db w2 = Some (seqno, w2) \<and>
   statistics ngx_demo cache_name seqno stat \<noteq> None \<and>
   json_dumps_op (ne_build ngx_demo) (statistics ngx_demo cache_name seqno stat) = Some s \<and> length s = 39"
proof -
  obtain cache w1 where o: "db_cache_open (ne_alloc ngx_demo) (ne_cache_env ngx_demo) (ne_drivers ngx_demo) (md_host ngx_demo_module)
     (md_cache ngx_demo_module) cache_name \<lparr>flag_create = False, flag_excl = False\<rparr> mem_empty =
     Some (((LA_STORAGE_OPEN_OK, Some cache_demo_db), cache), w1)" using ngx_demo_opens by blast
  obtain stat seqno w2 where q: "la_db_stat cache_demo_db w1 = Some ((0, stat), w2)" "la_db_last_seq cache_demo_db w2 = Some (seqno, w2)"
    using ngx_demo_stat by blast
  have "statistics ngx_demo cache_name seqno stat \<noteq> None \<and>
      (\<exists>s. json_dumps_op (ne_build ngx_demo) (statistics ngx_demo cache_name seqno stat) = Some s \<and> length s = 39)"
    using ngx_demo_reply [of seqno stat] by auto
  with o q show ?thesis by blast
qed

lemma ngx_demo_room:
  "length cache_name < 2 ^ 62" "grant (ne_pool ngx_demo) (Suc (length cache_name))" "(0x20 :: byte) \<noteq> 0x2f"
  "length s = 39 \<Longrightarrow> length s + 1 < 2 ^ 64" "length s = 39 \<Longrightarrow> grant (ne_pool ngx_demo) (length s + 1)"
  "grant (ne_pool ngx_demo) sizeof_ngx_buf"
  by (simp_all add: ngx_demo_address(5) ngx_demo_pool sizeof_ngx_buf_def)

lemma ngx_demo_gets:
  "\<exists>s cache w. ngx_http_loungeact_handler ngx_demo ngx_demo_module (ngx_demo_request NGX_HTTP_GET cache_name) mem_empty =
     Some ((\<lparr>sent = Some \<lparr>status = Some NGX_HTTP_OK, content_length_n = Some (length s + 1), content_type = None\<rparr>,
             returned = Output_filter [Some (s, True), Some (newline, True)]\<rparr>, ngx_demo_module\<lparr>md_cache := cache\<rparr>), w)"
proof -
  obtain cache w1 stat w2 seqno s where run:
    "db_cache_open (ne_alloc ngx_demo) (ne_cache_env ngx_demo) (ne_drivers ngx_demo) (md_host ngx_demo_module)
       (md_cache ngx_demo_module) cache_name \<lparr>flag_create = False, flag_excl = False\<rparr> mem_empty =
       Some (((LA_STORAGE_OPEN_OK, Some cache_demo_db), cache), w1)"
    "la_db_stat cache_demo_db w1 = Some ((0, stat), w2)" "la_db_last_seq cache_demo_db w2 = Some (seqno, w2)"
    "statistics ngx_demo cache_name seqno stat \<noteq> None"
    "json_dumps_op (ne_build ngx_demo) (statistics ngx_demo cache_name seqno stat) = Some s" "length s = 39"
    using ngx_demo_run by blast
  note a = ngx_demo_address
  show ?thesis
    using handler_gets [OF a(1,8,9,6,4,2,3,7) ngx_demo_room(3,1,2) run(1-5) ngx_demo_room(4,5) [OF run(6)] ngx_demo_room(6)] by blast
qed

section \<open>Properties\<close>

text \<open>
  C18. The state of the module. Starting it gives a cache of at most 1024 databases, and whatever a request is,
  answering it keeps the cache well-formed and within that limit, and the host and the welcome text as they are.
\<close>

theorem nginx_module_ok:
  assumes "module_ok md" "fresh_entry (ne_cache_env N) (md_cache md)"
    and "ngx_http_loungeact_handler N md rq w = Some ((a, md'), w')"
  shows "module_ok (ngx_http_loungeact_init_module N host) \<and> module_ok md' \<and>
    md_host md' = md_host md \<and> md_welcome md' = md_welcome md"
  using handler_module_ok [OF assms(3,1,2)] init_module_ok by blast

theorem nginx_module_ok_witness:
  "\<exists>a md' w. ngx_http_loungeact_handler ngx_demo ngx_demo_module (ngx_demo_request NGX_HTTP_GET cache_name) mem_empty =
     Some ((a, md'), w) \<and> module_ok md'"
proof -
  obtain a md' w where h: "ngx_http_loungeact_handler ngx_demo ngx_demo_module (ngx_demo_request NGX_HTTP_GET cache_name) mem_empty =
     Some ((a, md'), w)" using ngx_demo_gets by blast
  have "module_ok ngx_demo_module" unfolding ngx_demo_module_def by (rule init_module_ok)
  moreover have "fresh_entry (ne_cache_env ngx_demo) (md_cache ngx_demo_module)"
    using cache_demo_fresh by (simp add: ngx_demo_def ngx_demo_module_def ngx_http_loungeact_init_module_def)
  ultimately have "module_ok md'" using nginx_module_ok [OF _ _ h] by blast
  with h show ?thesis by blast
qed

text \<open>
  C19. What a client can be told. For \<open>/\<close> headers with 200 and a length are sent, but the handler returns 500
  instead of the body. For any other address headers are sent with a body whose length, where it is announced, is
  the announced one; the status is 200 or 500, and 412 or 500 to a PUT. Or nothing is sent, and the handler returns
  500, or 405 to a method it does not have. So the other answers of its code are never given: a missing database is
  not told from a failure (404), a database that was created is an error (201), and none is busy (409).
\<close>

theorem nginx_answers:
  assumes "ngx_http_loungeact_handler N md rq w = Some ((a, md'), w')"
  shows "if rq_uri rq = slash
    then \<exists>h. sent a = Some h \<and> status h = Some NGX_HTTP_OK \<and> content_length_n h \<noteq> None \<and>
      returned a = Return_status NGX_HTTP_INTERNAL_SERVER_ERROR
    else (\<exists>st. a = \<lparr>sent = None, returned = Return_status st\<rparr> \<and>
      (st = NGX_HTTP_INTERNAL_SERVER_ERROR \<or> st = NGX_HTTP_NOT_ALLOWED \<and> rq_method rq = NGX_HTTP_OTHER)) \<or>
    answers (case rq_method rq of
        NGX_HTTP_PUT \<Rightarrow> {NGX_HTTP_PRECONDITION_FAILED, NGX_HTTP_INTERNAL_SERVER_ERROR}
      | _ \<Rightarrow> {NGX_HTTP_OK, NGX_HTTP_INTERNAL_SERVER_ERROR}) a \<and> rq_method rq \<noteq> NGX_HTTP_OTHER"
proof (cases "rq_uri rq = slash")
  case True
  then show ?thesis using assms by (auto simp: ngx_http_loungeact_handler_def handle_root_def bind_eq_Some_conv)
next
  case False
  then show ?thesis using handler_answers [OF assms False] by simp
qed

theorem nginx_answers_witness:
  "\<exists>a md' w. ngx_http_loungeact_handler ngx_demo ngx_demo_module (ngx_demo_request NGX_HTTP_GET cache_name) mem_empty =
     Some ((a, md'), w) \<and> answers {NGX_HTTP_OK, NGX_HTTP_INTERNAL_SERVER_ERROR} a"
proof -
  let ?rq = "ngx_demo_request NGX_HTTP_GET cache_name"
  obtain a md' w where h: "ngx_http_loungeact_handler ngx_demo ngx_demo_module ?rq mem_empty = Some ((a, md'), w)"
    "sent a \<noteq> None" using ngx_demo_gets by force
  have "rq_uri ?rq \<noteq> slash" by (simp add: ngx_demo_address(4,6) slash_eq)
  with nginx_answers [OF h(1)] h show ?thesis by (auto simp: ngx_demo_address(8))
qed

text \<open>
  C20. The handler cannot serve a document: for every address with a second slash, whatever the method, the length of the
  database's name is negative, the pool cannot grant it, and the copy writes through NULL.
\<close>

theorem nginx_document_request_crashes:
  assumes "strnstr_ok N" "\<And>n. 2 ^ 63 \<le> n \<Longrightarrow> \<not> grant (ne_pool N) n"
    and "rq_uri rq = 0x2f # path" "0x2f \<in> set path" "0 \<notin> set path" "length path < 2 ^ 62"
  shows "ngx_http_loungeact_handler N md rq w = None"
proof -
  have "rq_uri rq \<noteq> slash" using assms(3,4) by (auto simp: slash_eq)
  moreover have "uri_names N rq = None" by (rule uri_names_document [OF assms(1,3-6,2)])
  ultimately show ?thesis by (simp add: ngx_http_loungeact_handler_def)
qed

theorem nginx_document_request_crashes_witness:
  "ngx_http_loungeact_handler ngx_demo ngx_demo_module (ngx_demo_request NGX_HTTP_GET (cache_name @ [0x2f, 0x61])) mem_empty = None"
proof -
  let ?rq = "ngx_demo_request NGX_HTTP_GET (cache_name @ [0x2f, 0x61])"
  have p: "0x2f \<in> set (cache_name @ [0x2f, 0x61])" "0 \<notin> set (cache_name @ [0x2f, 0x61])" "length (cache_name @ [0x2f, 0x61]) < 2 ^ 62"
    using ngx_demo_address(3,5) by simp_all
  have g: "\<not> grant (ne_pool ngx_demo) n" if "2 ^ 63 \<le> n" for n using that by (simp add: ngx_demo_pool)
  show ?thesis by (rule nginx_document_request_crashes [OF ngx_demo_address(1) g ngx_demo_address(6) p])
qed

text \<open>
  C21. A GET of a database that can be opened is answered with 200, its statistics as the JSON library prints them
  and a newline, as two buffers whose bytes are the announced length; the database stays in the cache.
\<close>

theorem nginx_get_statistics:
  assumes "strnstr_ok N" "rq_method rq = NGX_HTTP_GET" "\<not> rq_header_only rq"
    and "rq_uri rq = 0x2f # name" "name \<noteq> []" "0x2f \<notin> set name" "0 \<notin> set name" "rq_behind rq = b # r" "b \<noteq> 0x2f"
    and "length name < 2 ^ 62" "grant (ne_pool N) (Suc (length name))"
    and "db_cache_open (ne_alloc N) (ne_cache_env N) (ne_drivers N) (md_host md) (md_cache md) name
      \<lparr>flag_create = False, flag_excl = False\<rparr> w = Some (((LA_STORAGE_OPEN_OK, Some db), cache), w1)"
    and "la_db_stat db w1 = Some ((rc, stat), w2)" "la_db_last_seq db w2 = Some (seqno, w3)"
    and "statistics N name seqno stat \<noteq> None" "json_dumps_op (ne_build N) (statistics N name seqno stat) = Some s"
    and "length s + 1 < 2 ^ 64" "grant (ne_pool N) (length s + 1)" "grant (ne_pool N) sizeof_ngx_buf"
  shows "ngx_http_loungeact_handler N md rq w =
    Some ((\<lparr>sent = Some \<lparr>status = Some NGX_HTTP_OK, content_length_n = Some (length s + 1), content_type = None\<rparr>,
            returned = Output_filter [Some (s, True), Some (newline, True)]\<rparr>, md\<lparr>md_cache := cache\<rparr>), w3)"
  by (rule handler_gets [OF assms])

theorem nginx_get_statistics_witness:
  "\<exists>s cache w. ngx_http_loungeact_handler ngx_demo ngx_demo_module (ngx_demo_request NGX_HTTP_GET cache_name) mem_empty =
     Some ((\<lparr>sent = Some \<lparr>status = Some NGX_HTTP_OK, content_length_n = Some (length s + 1), content_type = None\<rparr>,
             returned = Output_filter [Some (s, True), Some (newline, True)]\<rparr>, ngx_demo_module\<lparr>md_cache := cache\<rparr>), w) \<and> length s = 39"
proof -
  obtain cache w1 stat w2 seqno s where run:
    "db_cache_open (ne_alloc ngx_demo) (ne_cache_env ngx_demo) (ne_drivers ngx_demo) (md_host ngx_demo_module)
       (md_cache ngx_demo_module) cache_name \<lparr>flag_create = False, flag_excl = False\<rparr> mem_empty =
       Some (((LA_STORAGE_OPEN_OK, Some cache_demo_db), cache), w1)"
    "la_db_stat cache_demo_db w1 = Some ((0, stat), w2)" "la_db_last_seq cache_demo_db w2 = Some (seqno, w2)"
    "statistics ngx_demo cache_name seqno stat \<noteq> None"
    "json_dumps_op (ne_build ngx_demo) (statistics ngx_demo cache_name seqno stat) = Some s" "length s = 39"
    using ngx_demo_run by blast
  note a = ngx_demo_address
  show ?thesis
    using nginx_get_statistics [OF a(1,8,9,6,4,2,3,7) ngx_demo_room(3,1,2) run(1-5) ngx_demo_room(4,5) [OF run(6)] ngx_demo_room(6)] run(6) by blast
qed

end
