(* ===== verification/Spec2Isabelle.thy ===== *)
theory Spec2Isabelle
  imports LA_Prelude LA_Fcgi LA_Fcgi_Write LA_Fcgi_Source LA_Fcgi_Read LA_Fcgi_Request LA_Fcgi_Values LA_Fcgi_Serve LA_Fcgi_Props
    LA_Fcgi_Printf LA_Fcgi_Format LA_Fcgi_Async LA_Fcgi_Async_Props
    LA_Uthash LA_Named LA_Buffer LA_Strings LA_Object LA_Driver LA_Codec LA_Revgen LA_BDB LA_BDB_Props LA_API LA_Documents
    LA_Sessions LA_Sqlite LA_Sqlite_Props LA_Pull LA_Pull_Props LA_Compress LA_LZ4 LA_LZ4_Encode LA_LZ4_Roundtrip
    LA_File LA_Cache LA_Nginx
begin

text \<open>
  A verification development of LoungeAct, a document store in C that keeps JSON documents with
  CouchDB revisions in pluggable storage drivers and replicates from CouchDB servers.

  The program and its parts. A client opens a host and databases on it through \<open>api/api.c\<close>. A document that is put
  loses its reserved members, gets its next revision from \<open>revgen-couch\<close> (MD5 over an Erlang term), is printed by
  the JSON codec into a byte buffer (\<open>utils/buffer.c\<close>), compressed by the host's compressor, packed into a
  stored object (\<open>Storage/ObjectStore.c\<close>) and handed through the dispatch functions of the same file to a driver:
  Berkeley DB (\<open>bdb-storage\<close>) or SQLite (\<open>sqlite-storage\<close>). A get goes the other way; a view maps and reduces the
  documents a driver's iterator gives in the order of their sequence numbers. The puller (\<open>pull/pull.c\<close>) reads the
  changes feed of a server and replaces documents through \<open>la_db_replace\<close>. The nginx module answers HTTP requests about
  databases (\<open>ngx_http_loungeact.c\<close>), which it keeps open in a cache (\<open>ngx_http_loungeact/db_cache.c\<close>), and configures
  the LZ4 compressor; the record file of \<open>bptree/file.c\<close> stands alone. The FastCGI front end is a stub over the FastCGI
  application library of the repository (\<open>loungeact_fastcgi/fcgiapp.c\<close>): streams cut into records, the environment
  of a request, accepting and finishing it.

  Theories and the code they model:
  \<^item> \<open>LA_Prelude\<close>: bytes, heap blocks, \<open>size_t\<close> arithmetic, the allocator, big and little endian numbers;
  \<^item> \<open>LA_Uthash\<close>: \<open>utils/uthash.h\<close>, the hash tables of the registry and of the cache, with their links on a heap; \<open>LA_Named\<close>:
    the interface \<open>name_table\<close> of a table that is keyed by the pointer to a name;
  \<^item> \<open>LA_Buffer\<close>: \<open>utils/buffer.c\<close>, every operation; \<open>LA_Strings\<close>: \<open>utils/stringutils.c\<close>, \<open>utils/hexdump.c\<close>;
  \<^item> \<open>LA_Object\<close>: objects, their header and histories (\<open>Storage/ObjectStore.h\<close>, \<open>.c\<close>); \<open>LA_Driver\<close>: the driver record, the
    registry and the dispatch functions of \<open>Storage/ObjectStore.c\<close>, and the contract \<open>object_store\<close> of a driver;
  \<^item> \<open>LA_Codec\<close>: \<open>Codec/Codec.h\<close>, \<open>codec-json/codec-json.c\<close>; \<open>LA_Revgen\<close>: \<open>revgen-couch/couch-revgen.c\<close>, \<open>revgen/revgen.c\<close>;
  \<^item> \<open>LA_BDB\<close>, \<open>LA_BDB_Props\<close>: \<open>bdb-storage/ObjectStore-BDB.c\<close>; \<open>LA_Sqlite\<close>, \<open>LA_Sqlite_Props\<close>: \<open>sqlite-storage/ObjectStore-sqlite.c\<close>;
  \<^item> \<open>LA_API\<close>, \<open>LA_Documents\<close>: \<open>api/api.c\<close>, and what it does over the Berkeley DB driver; \<open>LA_Sessions\<close>: sequences of its
    calls, and the reference store they are compared with;
  \<^item> \<open>LA_Pull\<close>, \<open>LA_Pull_Props\<close>: \<open>pull/pull.c\<close>;
  \<^item> \<open>LA_Compress\<close>: \<open>compress-zlib/compress-zlib.c\<close>; \<open>LA_LZ4\<close>, \<open>LA_LZ4_Encode\<close>: \<open>compress-lz4/compress-lz4.c\<close> with the
    decoder and the encoder of \<open>lz4/lz4.c\<close>; \<open>LA_LZ4_Roundtrip\<close>: the encoder against the decoder;
  \<^item> \<open>LA_File\<close>: \<open>bptree/file.c\<close>; \<open>LA_Cache\<close>: \<open>ngx_http_loungeact/db_cache.c\<close>; \<open>LA_Nginx\<close>: \<open>ngx_http_loungeact/ngx_http_loungeact.c\<close>.
  \<^item> \<open>LA_Fcgi\<close>: \<open>loungeact_fastcgi/fcgiapp.c\<close>, \<open>fastcgi.h\<close> and what it calls of \<open>os_unix.c\<close>; \<open>LA_Fcgi_Write\<close>: writers and the
    records they send; \<open>LA_Fcgi_Source\<close>: the functions that read, over the interface \<open>byte_source\<close>; \<open>LA_Fcgi_Read\<close>,
    \<open>LA_Fcgi_Request\<close>, \<open>LA_Fcgi_Values\<close>: the procedure that fills a buffer keeps that interface for the stream of a
    request and for a single record, the beginning of a request, records that ask for values; \<open>LA_Fcgi_Serve\<close>,
    \<open>LA_Fcgi_Props\<close>: a request from its beginning to its end; \<open>LA_Fcgi_Printf\<close>, \<open>LA_Fcgi_Format\<close>: formatted output
    (\<open>FCGX_VFPrintF\<close>) with the conversions of the C library it calls; \<open>LA_Fcgi_Async\<close>, \<open>LA_Fcgi_Async_Props\<close>: the table of
    asynchronous operations of \<open>os_unix.c\<close>, and the interface \<open>async_client\<close> of callbacks.
  This theory holds what needs several of them at once.

  State and conventions. A heap block is a list of bytes; an access outside it, a call through NULL and a
  signed overflow are the value \<open>None\<close>, so that \<open>f x = Some y\<close> says that the C function returns, without
  undefined behaviour, with \<open>y\<close>. Where the C function can return NULL the result is an option inside. Numbers
  that the code keeps in \<open>size_t\<close> are natural numbers with the wrap-around written out; stored counters are
  words of their width. Definitions have the names of the C functions; a longer function is cut at its inner
  blocks and loops, which have definitions of their own. The libraries (allocator, MD5, the random device,
  jansson, Berkeley DB, SQLite, zlib, curl, the file system) are arguments: records with one field for each call
  the code makes, over a world \<open>'w\<close> that the calls change. What their documentation promises is stated by locales
  (\<open>json_objects\<close>, \<open>bdb_env\<close>, \<open>bdb_reliable\<close>, \<open>bdb_cursors\<close>, \<open>sqlite_lib\<close>, \<open>zlib_lib\<close>, \<open>disk\<close>, \<open>connection\<close>) which are hypotheses of
  the theorems that need them, and each is interpreted on an instance in memory, on which the examples run.

  What the lemmas show:
  \<^item> memory: the invariant of the byte buffer under every operation, bounds of string and hexadecimal
    functions and of the LZ4 decoder for arbitrary input, and the places where the code leaves its blocks;
  \<^item> tables: whatever was added and deleted, and however often the buckets were doubled, a hash table passes its integrity
    check and stands for the list of its elements; whom a name finds in the registry and in the cache (both key
    their tables with a pointer by mistake, \<open>driver_lookup\<close>, \<open>db_cache_open_keeps\<close>);
  \<^item> data: round trips of hexadecimal, revision text, object headers, record files, compression and
    address escapes; injectivity facts of the hashed term, and the order of the sequence index;
  \<^item> drivers: both drivers refine an abstract store (\<open>abs_store\<close>: key to document with sequence, history and data),
    all or nothing, with optimistic concurrency; iterators are complete and in order;
  \<^item> documents: the contract \<open>object_store\<close> of a driver gives the document interface (\<open>document_api\<close>): put then get,
    stale puts, deletes, views; the Berkeley DB driver has the contract (\<open>bdb_documents\<close>);
  \<^item> sessions: a sequence of calls through the API refines a reference store without bytes or transactions, as long as
    no document is written a third time, which runs out of a block (\<open>db_session_refines\<close>, \<open>session_ok\<close>);
  \<^item> replication: the three cases of the comparison of histories, new and known revisions;
  \<^item> equivalence of optimised code with a reference: the LZ4 decoder, which copies words over the end of
    what it means to write, and the decoder byte by byte; the output of the LZ4 encoder is a block of the
    format, found with an invariant of its labels, and the two functions of the compressor are inverse;
  \<^item> requests: the state of the nginx module stays well-formed, and exactly which statuses a client can get;
  \<^item> FastCGI: a request is accepted, read and answered as sent, however the system cuts reads and writes and the client
    its records, save for some padding and empty records that the library mishandles (\<open>fcgi_request_served\<close>), a stream that is written is read back (\<open>fcgi_stream_roundtrip\<close>), and the records
    on which the library fails; formatted output of integers of every size and base, characters and strings sends the text
    a format stands for (\<open>fcgi_printf_sends\<close>), save where a wide field overruns the buffer; \<open>OS_DoIo\<close> does each request that is ready once (\<open>async_io_completes\<close>), until a callback closes
    a descriptor that is still to be served (\<open>async_close_stalls\<close>).

  Bounds and fuel. Loops that end by their structure are structural or have a measure. Fuel is used where the
  end depends on a library or on the data: an iterator and a view (one step for each document and one more),
  draining a zlib stream (one for each full chunk and one more, shown to be necessary), growing the LZ4
  output (the bound is in the theorem). The encoder's machine, the loops over
  a connection and the walks over
  the chains of a hash table are partial functions without fuel; that they return is part of their theorems. Filling a
  FastCGI buffer calls itself to a depth of two, which is all there is, since the inner call stops at the end of its record. A run of
  operations on a hash table is shown to return for up to 26 additions with memory (each can double the buckets, and
  \<open>2 ^ 32\<close> of them are none). Sizes are bounded in the theorems where a 32-bit field
  or an \<open>int\<close> would overflow (records below \<open>2 ^ 32\<close> bytes, documents below \<open>2 ^ 30\<close>, LZ4 blocks to decode below \<open>2 ^ 23\<close>, whose
  output stays below \<open>2 ^ 31\<close>, and input to encode whose bound \<open>LZ4_compressBound\<close> is below \<open>2 ^ 31\<close>).

  Not modelled: of the FastCGI library the functions for one global request, making sockets
  and signals, which nothing uses; what nothing uses of uthash (sorting, selecting, clearing, the other hash
  functions, the Bloom filter); the BSON codec and the FastCGI front end, which do not compile; the configuration of a location of nginx, which calls
  \<open>la_host_open\<close> with an argument too few; \<open>LZ4_uncompress\<close>, which nothing calls; one-line forwarders of the JSON
  codec that no other component calls; reference counts, mutexes and freed memory; test programs.
\<close>

section \<open>Compressed documents\<close>

text \<open>
  The document interface, the Berkeley DB driver and the zlib compressor together: with a host that
  compresses, a new document is stored as what zlib makes of its text, and the following get inflates,
  parses and returns it. The compressor's loops need one step for each full chunk and one more.
\<close>

theorem compressed_put_get_roundtrip:
  assumes "bdb_documents B recs saved txn nextseq savedseq P" "\<not> txn w \<and> records_ok (recs w)"
    and "on_store db (bdb_driver (ap_alloc P) B) ()" "k \<noteq> []" "0 \<notin> set k" "length k < 2 ^ 31"
    and "abs_store (recs w) k = None" "member_get ms LA_API_DELETED_NAME = None"
    and "json_dump_chunks (ap_json P) (LA_CODEC_OBJECT (strip_members ms)) = (cs, True)"
    and "json_loadb (ap_json P) (concat cs) = Some (LA_CODEC_OBJECT (strip_members ms))"
    and "zlib_lib Z packed plain zpack" "ho_compressor (db_host db) = Some (zlib_compressor (ap_alloc P) Z fuel)"
    and "length (concat cs) < 2 ^ 30" "length (zpack (concat cs)) < 2 ^ 30"
    and "length (concat cs) div CHUNK_SIZE < fuel" "length (zpack (concat cs)) div CHUNK_SIZE < fuel"
  shows "\<exists>newrev w1 w2. la_db_put P db (Some k) None (LA_CODEC_OBJECT ms) w = Some ((LA_DB_PUT_OK, Some newrev), w1) \<and>
    map_option d_data (abs_store (recs w1) k) = Some (zpack (concat cs)) \<and>
    la_db_get P db k None w1 = Some ((LA_DB_GET_OK, Some (LA_CODEC_OBJECT (strip_members ms)), Some newrev), w2)"
proof -
  have "ample (ap_alloc P)" using bdb_documents.enough_memory [OF assms(1)] .
  note keeps = zlib_lib.compressor_keeps [OF assms(11) this assms(13-16)]
  have st: "storable (ap_json P) (ho_compressor (db_host db)) (LA_CODEC_OBJECT (strip_members ms)) (zpack (concat cs))"
    unfolding storable_def assms(12) using keeps assms(9,10,13,14) by blast
  have "\<forall>old. abs_store (recs w) k = Some old \<longrightarrow> map_option rrev None = Some (d_rev old) \<longrightarrow> d_history old = []"
    "admits (abs_store (recs w)) k None" using assms(7) by (simp_all add: admits_def)
  from bdb_documents.bdb_put_then_get [OF assms(1-6,8) st this] show ?thesis by blast
qed

definition zip_db :: "(unit, unit, nat, mem_world) la_db" where
  "zip_db =
     \<lparr>db_host = \<lparr>ho_driver = [0x42, 0x44, 0x42], ho_env = (), ho_compressor = Some (zlib_compressor exact_allocator stored_zlib 1)\<rparr>,
      db_store = Some \<lparr>st_env = Some (), st_store = Some (), st_driver = bdb_driver exact_allocator mem_bdb\<rparr>\<rparr>"

theorem compressed_put_get_roundtrip_witness:
  "\<exists>newrev w1 w2. la_db_put demo_api zip_db (Some [0x6b]) None (LA_CODEC_OBJECT demo_members) mem_empty =
     Some ((LA_DB_PUT_OK, Some newrev), w1) \<and>
   map_option d_data (abs_store (map_of (mw_recs w1)) [0x6b]) = Some (0x78 # demo_text) \<and>
   la_db_get demo_api zip_db [0x6b] None w1 = Some ((LA_DB_GET_OK, Some (LA_CODEC_OBJECT demo_members), Some newrev), w2)"
proof -
  obtain cs where cs: "json_dump_chunks (ap_json demo_api) (LA_CODEC_OBJECT demo_members) = (cs, True)" "concat cs = demo_text"
    "json_loadb (ap_json demo_api) demo_text = Some (LA_CODEC_OBJECT demo_members)" "length demo_text = 7"
    by (simp add: demo_api_def tree_json_def demo_text_def)
  have r: "\<not> mw_txn mem_empty \<and> records_ok (map_of (mw_recs mem_empty))" using demo_facts(1,2) by simp
  have o: "on_store zip_db (bdb_driver (ap_alloc demo_api) mem_bdb) ()"
    by (simp add: on_store_def zip_db_def demo_api_def)
  have c: "ho_compressor (db_host zip_db) = Some (zlib_compressor (ap_alloc demo_api) stored_zlib 1)"
    by (simp add: zip_db_def demo_api_def)
  have d: "json_dump_chunks (ap_json demo_api) (LA_CODEC_OBJECT (strip_members demo_members)) = (cs, True)"
    "json_loadb (ap_json demo_api) (concat cs) = Some (LA_CODEC_OBJECT (strip_members demo_members))"
    unfolding demo_facts(6) cs(2) by (fact cs)+
  have l: "length (concat cs) = 7" unfolding cs(2) by (rule cs(4))
  have k: "[0x6b :: byte] \<noteq> []" "0 \<notin> set [0x6b :: byte]" "length [0x6b :: byte] < 2 ^ 31" by simp_all
  have n: "length (concat cs) < 2 ^ 30" "length (0x78 # concat cs) < 2 ^ 30" "length (concat cs) div CHUNK_SIZE < 1"
    "length (0x78 # concat cs) div CHUNK_SIZE < 1" by (simp_all add: l CHUNK_SIZE_def)
  show ?thesis
    using compressed_put_get_roundtrip [OF demo.bdb_documents_axioms r o k demo_facts(3,5) d stored.zlib_lib_axioms c n]
    unfolding demo_facts(6) cs(2) .
qed

lemma lz4_storable:
  assumes "ample A" "json_dump_chunks J v = (cs, True)" "json_loadb J (concat cs) = Some v"
    and "length (concat cs) < 2 ^ 22" "length (concat cs) + 8 \<le> 1024 * fuel"
  shows "\<exists>dat. storable J (Some (lz4_compressor A (Suc fuel))) v dat \<and> length dat \<le> LZ4_compressBound (length (concat cs))"
proof -
  obtain dat where d: "deflate (Some (lz4_compressor A (Suc fuel))) (concat cs) = Some dat"
    "length dat \<le> LZ4_compressBound (length (concat cs))" "inflate (Some (lz4_compressor A (Suc fuel))) dat = Some (concat cs)"
    using lz4_compressor_keeps [OF assms(1,4,5)] by blast
  have "LZ4_compressBound (length (concat cs)) < 2 ^ 30" using assms(4) by (simp add: LZ4_compressBound_def)
  then have "length dat < 2 ^ 30" using d(2) by linarith
  moreover have "length (concat cs) < 2 ^ 30" using assms(4) by simp
  ultimately show ?thesis using d assms(2,3) unfolding storable_def by blast
qed

text \<open>
  C17. With the compressor the nginx module configures: a document whose text is below 4 MB is stored as an LZ4 block
  within the bound of the encoder, and the following get decodes, parses and returns it. The decoding
  loop grows its block by 1024 bytes a round.
\<close>

theorem lz4_put_get_roundtrip:
  assumes "bdb_documents B recs saved txn nextseq savedseq P" "\<not> txn w \<and> records_ok (recs w)"
    and "on_store db (bdb_driver (ap_alloc P) B) ()" "k \<noteq> []" "0 \<notin> set k" "length k < 2 ^ 31"
    and "abs_store (recs w) k = None" "member_get ms LA_API_DELETED_NAME = None"
    and "json_dump_chunks (ap_json P) (LA_CODEC_OBJECT (strip_members ms)) = (cs, True)"
    and "json_loadb (ap_json P) (concat cs) = Some (LA_CODEC_OBJECT (strip_members ms))"
    and "ho_compressor (db_host db) = Some (lz4_compressor (ap_alloc P) (Suc fuel))"
    and "length (concat cs) < 2 ^ 22" "length (concat cs) + 8 \<le> 1024 * fuel"
  shows "\<exists>newrev w1 w2 dat. la_db_put P db (Some k) None (LA_CODEC_OBJECT ms) w = Some ((LA_DB_PUT_OK, Some newrev), w1) \<and>
    map_option d_data (abs_store (recs w1) k) = Some dat \<and> length dat \<le> LZ4_compressBound (length (concat cs)) \<and>
    la_db_get P db k None w1 = Some ((LA_DB_GET_OK, Some (LA_CODEC_OBJECT (strip_members ms)), Some newrev), w2)"
proof -
  have "ample (ap_alloc P)" using bdb_documents.enough_memory [OF assms(1)] .
  from lz4_storable [OF this assms(9,10,12,13)] obtain dat where
    st: "storable (ap_json P) (ho_compressor (db_host db)) (LA_CODEC_OBJECT (strip_members ms)) dat"
    and l: "length dat \<le> LZ4_compressBound (length (concat cs))" unfolding assms(11) by blast
  have "\<forall>old. abs_store (recs w) k = Some old \<longrightarrow> map_option rrev None = Some (d_rev old) \<longrightarrow> d_history old = []"
    "admits (abs_store (recs w)) k None" using assms(7) by (simp_all add: admits_def)
  from bdb_documents.bdb_put_then_get [OF assms(1-6,8) st this] l show ?thesis by blast
qed

definition lz4_db :: "(unit, unit, nat, mem_world) la_db" where
  "lz4_db =
     \<lparr>db_host = \<lparr>ho_driver = [0x42, 0x44, 0x42], ho_env = (), ho_compressor = Some (lz4_compressor exact_allocator 2)\<rparr>,
      db_store = Some \<lparr>st_env = Some (), st_store = Some (), st_driver = bdb_driver exact_allocator mem_bdb\<rparr>\<rparr>"

theorem lz4_put_get_roundtrip_witness:
  "\<exists>newrev w1 w2. la_db_put demo_api lz4_db (Some [0x6b]) None (LA_CODEC_OBJECT demo_members) mem_empty =
     Some ((LA_DB_PUT_OK, Some newrev), w1) \<and>
   la_db_get demo_api lz4_db [0x6b] None w1 = Some ((LA_DB_GET_OK, Some (LA_CODEC_OBJECT demo_members), Some newrev), w2)"
proof -
  obtain cs where cs: "json_dump_chunks (ap_json demo_api) (LA_CODEC_OBJECT demo_members) = (cs, True)" "concat cs = demo_text"
    "json_loadb (ap_json demo_api) demo_text = Some (LA_CODEC_OBJECT demo_members)" "length demo_text = 7"
    by (simp add: demo_api_def tree_json_def demo_text_def)
  have r: "\<not> mw_txn mem_empty \<and> records_ok (map_of (mw_recs mem_empty))" using demo_facts(1,2) by simp
  have o: "on_store lz4_db (bdb_driver (ap_alloc demo_api) mem_bdb) ()"
    by (simp add: on_store_def lz4_db_def demo_api_def)
  have c: "ho_compressor (db_host lz4_db) = Some (lz4_compressor (ap_alloc demo_api) (Suc 1))"
    by (simp add: lz4_db_def demo_api_def numeral_2_eq_2)
  have d: "json_dump_chunks (ap_json demo_api) (LA_CODEC_OBJECT (strip_members demo_members)) = (cs, True)"
    "json_loadb (ap_json demo_api) (concat cs) = Some (LA_CODEC_OBJECT (strip_members demo_members))"
    unfolding demo_facts(6) cs(2) by (fact cs)+
  have k: "[0x6b :: byte] \<noteq> []" "0 \<notin> set [0x6b :: byte]" "length [0x6b :: byte] < 2 ^ 31" by simp_all
  have n: "length (concat cs) < 2 ^ 22" "length (concat cs) + 8 \<le> 1024 * 1" unfolding cs(2) cs(4) by simp_all
  show ?thesis
    using lz4_put_get_roundtrip [OF demo.bdb_documents_axioms r o k demo_facts(3,5) d c n] unfolding demo_facts(6) by blast
qed

end
